(* ===== verification/GsPrelude.thy ===== *)
theory GsPrelude
  imports Complex_Main "HOL-Library.Word"
begin

section \<open>Prelude: exceptions as values, and the lemmas every component shares\<close>

text \<open>
  A TypeScript function of the runtime that can throw is modelled by a function into
  \<open>'a res\<close>: \<open>Inl\<close> carries the exception, \<open>Inr\<close> the returned value. The exceptions are
  those the source throws: a Go panic raised by \<open>runtimePanic\<close>
  (gs/builtin/panic.ts) with its message, a plain \<open>new Error(message)\<close>, and the
  \<open>RangeError\<close>, \<open>SyntaxError\<close> and \<open>TypeError\<close> of the JavaScript library.
\<close>

datatype js_exn =
    RuntimePanic string
  | ThrownError string
  | RangeError
  | SyntaxError
  | TypeError

type_synonym 'a res = "js_exn + 'a"

named_theorems res_simps \<open>equations that compute with results\<close>

text \<open>Sequencing: the rest of a function body runs only when the first part did not throw.\<close>

fun bindR :: "'a res \<Rightarrow> ('a \<Rightarrow> 'b res) \<Rightarrow> 'b res" where
  "bindR (Inl e) f = Inl e"
| "bindR (Inr x) f = f x"

definition is_ok :: "'a res \<Rightarrow> bool" where
  "is_ok r = (case r of Inl _ \<Rightarrow> False | Inr _ \<Rightarrow> True)"

lemma is_ok_simps [simp, res_simps]: "is_ok (Inr x)" "\<not> is_ok (Inl e)"
  by (simp_all add: is_ok_def)

lemma bindR_eq_Inr [res_simps]: "bindR m f = Inr y \<longleftrightarrow> (\<exists>x. m = Inr x \<and> f x = Inr y)"
  by (cases m) auto

lemma bindR_eq_Inl [res_simps]:
  "bindR m f = Inl e \<longleftrightarrow> m = Inl e \<or> (\<exists>x. m = Inr x \<and> f x = Inl e)"
  by (cases m) auto

lemma bindR_assoc [simp]: "bindR (bindR m f) g = bindR m (\<lambda>x. bindR (f x) g)"
  by (cases m) simp_all

lemma bindR_Inr_right [simp]: "bindR m Inr = m"
  by (cases m) simp_all

subsection \<open>Lists updated at an index\<close>

lemma set_list_update_cases: "y \<in> set (xs[i := x]) \<Longrightarrow> y = x \<or> y \<in> set xs"
  using set_update_subset_insert by fastforce

lemma nth_append_right_eq [simp]: "(xs @ [x]) ! length xs = x"
  by simp

text \<open>\<open>splice(indexOf(x), 1)\<close> where \<open>indexOf\<close> may find nothing.\<close>

fun remove_first :: "('a \<Rightarrow> bool) \<Rightarrow> 'a list \<Rightarrow> 'a list" where
  "remove_first P [] = []"
| "remove_first P (x # xs) = (if P x then xs else x # remove_first P xs)"

lemma set_remove_first: "set (remove_first P xs) \<subseteq> set xs"
  by (induction xs) auto

lemma remove_first_id: "\<forall>x\<in>set xs. \<not> P x \<Longrightarrow> remove_first P xs = xs"
  by (induction xs) auto

lemma take_drop_window:
  "off + n \<le> length xs \<Longrightarrow> length (take n (drop off xs)) = n"
  by simp

subsection \<open>A string of decimal digits, as JavaScript prints an integer\<close>

fun digits_rev :: "nat \<Rightarrow> nat list" where
  "digits_rev n = (if n < 10 then [n] else (n mod 10) # digits_rev (n div 10))"

declare digits_rev.simps [simp del]

definition nat_string :: "nat \<Rightarrow> string" where
  "nat_string n = map (\<lambda>d. char_of (48 + d)) (rev (digits_rev n))"

definition int_string :: "int \<Rightarrow> string" where
  "int_string i = (if i < 0 then CHR ''-'' # nat_string (nat (- i)) else nat_string (nat i))"

lemma nat_string_nonempty [simp]: "nat_string n \<noteq> []"
  by (subst nat_string_def, subst digits_rev.simps) simp

end
