(* ===== verification/GsNumber.thy ===== *)
theory GsNumber
  imports GsPrelude "HOL-Library.Log_Nat"
begin

section \<open>JavaScript numbers and bigints, as far as the runtime computes with them\<close>

text \<open>
  This theory models the part of the language and its standard library that the integer
  helpers of gs/builtin/builtin.ts and gs/math/bits/index.ts use: a finite
  \<open>number\<close> is a rational, \<open>NaN\<close> and the infinities are separate, a \<open>bigint\<close> is an
  integer. A conversion or an addition whose exact result needs more than 53 bits is
  rounded (to nearest, ties to even) as a double is. The sign of zero is not represented:
  no function modelled here distinguishes it.
\<close>

unbundle bit_operations_syntax

datatype js_number = NaN | PosInf | NegInf | Fin rat

datatype js_num = Number js_number | BigInt int

definition max_safe :: int where
  "max_safe = 9007199254740991"

lemma max_safe_eq: "max_safe = 2 ^ 53 - 1"
  by (simp add: max_safe_def)

subsection \<open>Truncation and the two's complement conversions\<close>

definition rat_trunc :: "rat \<Rightarrow> int" where
  "rat_trunc q = (if q < 0 then - \<lfloor>- q\<rfloor> else \<lfloor>q\<rfloor>)"

lemma rat_trunc_of_int [simp]: "rat_trunc (of_int n) = n"
  by (simp add: rat_trunc_def)

lemma rat_trunc_simps [simp]:
  "rat_trunc 0 = 0" "rat_trunc 1 = 1" "rat_trunc (numeral k) = numeral k"
  "rat_trunc (- numeral k) = - numeral k" "rat_trunc (-1) = -1"
  using rat_trunc_of_int [of 0] rat_trunc_of_int [of 1] rat_trunc_of_int [of "numeral k"]
    rat_trunc_of_int [of "- numeral k"] rat_trunc_of_int [of "-1"]
  by simp_all

definition asUintN :: "nat \<Rightarrow> int \<Rightarrow> int" where
  "asUintN b v = v mod 2 ^ b"

definition asIntN :: "nat \<Rightarrow> int \<Rightarrow> int" where
  "asIntN b v = (let m = v mod 2 ^ b in if 2 ^ (b - 1) \<le> m then m - 2 ^ b else m)"

lemma asUintN_take_bit: "asUintN b v = take_bit b v"
  by (simp add: asUintN_def take_bit_eq_mod)

lemma asUintN_uint: "asUintN LENGTH('a) v = uint (word_of_int v :: 'a :: len word)"
  by (simp add: asUintN_take_bit uint_word_of_int take_bit_eq_mod)

lemma asIntN_signed_take_bit: "asIntN (Suc b) v = signed_take_bit b v"
proof -
  define m where "m = v mod 2 ^ Suc b"
  have m: "0 \<le> m" "m < 2 ^ Suc b" by (simp_all add: m_def)
  have eq: "signed_take_bit b v = signed_take_bit b m"
    by (simp add: m_def signed_take_bit_eq_iff_take_bit_eq take_bit_eq_mod)
  have unf: "asIntN (Suc b) v = (if 2 ^ b \<le> m then m - 2 ^ Suc b else m)"
    by (simp add: asIntN_def m_def Let_def)
  show ?thesis
  proof (cases "2 ^ b \<le> m")
    case True
    have "signed_take_bit b m = signed_take_bit b (m - 2 ^ Suc b)"
      by (simp add: signed_take_bit_eq_iff_take_bit_eq take_bit_eq_mod)
    also have "\<dots> = m - 2 ^ Suc b"
      using True m by (intro signed_take_bit_int_eq_self) simp_all
    finally show ?thesis using True eq unf by simp
  next
    case False
    then have "signed_take_bit b m = m"
      using m by (intro signed_take_bit_int_eq_self) (auto intro: order_trans [of _ 0])
    with False eq unf show ?thesis by simp
  qed
qed

lemma asIntN_sint: "asIntN LENGTH('a) v = sint (word_of_int v :: 'a :: len word)"
proof -
  have "asIntN (Suc (LENGTH('a) - 1)) v = signed_take_bit (LENGTH('a) - 1) v"
    by (rule asIntN_signed_take_bit)
  then show ?thesis by (simp add: sint_sbintrunc')
qed

lemma asUintN_bounds: "0 \<le> asUintN b v" "asUintN b v < 2 ^ b"
  by (simp_all add: asUintN_def)

lemma asUintN_id: "0 \<le> v \<Longrightarrow> v < 2 ^ b \<Longrightarrow> asUintN b v = v"
  by (simp add: asUintN_def)

lemma asIntN_id: "0 < b \<Longrightarrow> - (2 ^ (b - 1)) \<le> v \<Longrightarrow> v < 2 ^ (b - 1) \<Longrightarrow> asIntN b v = v"
  using asIntN_signed_take_bit [of "b - 1" v] by (simp add: signed_take_bit_int_eq_self)

lemma asIntN_bounds:
  assumes "0 < b"
  shows "- (2 ^ (b - 1)) \<le> asIntN b v" "asIntN b v < 2 ^ (b - 1)"
  using assms asIntN_signed_take_bit [of "b - 1" v]
    signed_take_bit_int_greater_eq_minus_exp [of "b - 1" v] signed_take_bit_int_less_exp [of "b - 1" v]
  by simp_all

subsection \<open>Doubles: rounding an integer to 53 significant bits\<close>

definition round53 :: "int \<Rightarrow> int" where
  "round53 n =
     (let a = \<bar>n\<bar> in
      if a < 2 ^ 53 then n
      else let e = nat (bitlen a - 53); q = a div 2 ^ e; r = a mod 2 ^ e; half = 2 ^ (e - 1);
               q' = (if half < r \<or> (r = half \<and> odd q) then q + 1 else q)
           in sgn n * (q' * 2 ^ e))"

lemma round53_exact: "\<bar>n\<bar> < 2 ^ 53 \<Longrightarrow> round53 n = n"
  by (simp add: round53_def Let_def)

text \<open>\<open>Number(n)\<close> of a bigint; beyond the largest double it is an infinity.\<close>

definition number_of_bigint :: "int \<Rightarrow> js_number" where
  "number_of_bigint n =
     (let r = round53 n in
      if 2 ^ 1024 \<le> r then PosInf else if r \<le> - (2 ^ 1024) then NegInf else Fin (of_int r))"

lemma number_of_bigint_exact:
  assumes "\<bar>n\<bar> < 2 ^ 53"
  shows "number_of_bigint n = Fin (of_int n)"
proof -
  have "(2::int) ^ 53 \<le> 2 ^ 1024" by (rule power_increasing) simp_all
  with assms have "\<not> 2 ^ 1024 \<le> n" "\<not> n \<le> - (2 ^ 1024)" by (simp_all only: abs_less_iff not_le) linarith+
  with assms show ?thesis by (simp only: number_of_bigint_def Let_def round53_exact if_False)
qed

text \<open>\<open>Math.trunc\<close>, \<open>Number.isFinite\<close> and \<open>BigInt(n)\<close> of a number, which throws a
  \<open>RangeError\<close> for a number that is not an integer.\<close>

fun math_trunc :: "js_number \<Rightarrow> js_number" where
  "math_trunc (Fin q) = Fin (of_int (rat_trunc q))"
| "math_trunc x = x"

fun is_finite_num :: "js_number \<Rightarrow> bool" where
  "is_finite_num (Fin q) = True"
| "is_finite_num x = False"

fun bigint_of_number :: "js_number \<Rightarrow> int res" where
  "bigint_of_number (Fin q) = (if of_int (rat_trunc q) = q then Inr (rat_trunc q) else Inl RangeError)"
| "bigint_of_number x = Inl RangeError"

lemma bigint_of_trunc [simp]: "bigint_of_number (Fin (of_int n)) = Inr n"
  by simp

text \<open>\<open>Number(v)\<close> of a number or a bigint.\<close>

fun to_number :: "js_num \<Rightarrow> js_number" where
  "to_number (Number x) = x"
| "to_number (BigInt n) = number_of_bigint n"

text \<open>The operand conversions of the 32-bit operators.\<close>

fun to_int32 :: "js_number \<Rightarrow> int" where
  "to_int32 (Fin q) = asIntN 32 (rat_trunc q)"
| "to_int32 x = 0"

fun to_uint32 :: "js_number \<Rightarrow> int" where
  "to_uint32 (Fin q) = asUintN 32 (rat_trunc q)"
| "to_uint32 x = 0"

text \<open>The remainder operator on integers takes the sign of the dividend; division of
  bigints truncates toward zero.\<close>

definition js_rem :: "int \<Rightarrow> int \<Rightarrow> int" where
  "js_rem a b = sgn a * (\<bar>a\<bar> mod \<bar>b\<bar>)"

definition js_quot :: "int \<Rightarrow> int \<Rightarrow> int" where
  "js_quot a b = sgn a * sgn b * (\<bar>a\<bar> div \<bar>b\<bar>)"

lemma sgn_mult_abs_self: "sgn (a :: int) * \<bar>a\<bar> = a"
  by (rule sgn_mult_abs)

lemma js_quot_rem: "js_quot a b * b + js_rem a b = a"
proof -
  have "js_quot a b * b = sgn a * (\<bar>a\<bar> div \<bar>b\<bar> * \<bar>b\<bar>)"
    by (simp only: js_quot_def abs_sgn [of b] ac_simps)
  then have "js_quot a b * b + js_rem a b = sgn a * (\<bar>a\<bar> div \<bar>b\<bar> * \<bar>b\<bar> + \<bar>a\<bar> mod \<bar>b\<bar>)"
    by (simp only: js_rem_def distrib_left)
  also have "\<dots> = sgn a * \<bar>a\<bar>" by (simp only: div_mult_mod_eq)
  finally show ?thesis by (simp only: sgn_mult_abs_self)
qed

lemma js_rem_bound:
  assumes "b \<noteq> 0"
  shows "\<bar>js_rem a b\<bar> < \<bar>b\<bar>"
proof -
  have m: "0 \<le> \<bar>a\<bar> mod \<bar>b\<bar>" "\<bar>a\<bar> mod \<bar>b\<bar> < \<bar>b\<bar>" using assms by simp_all
  consider "a = 0" | "a < 0" | "0 < a" by linarith
  then show ?thesis using m assms by cases (simp_all add: js_rem_def)
qed

text \<open>Shifts of bigints: a negative count shifts the other way.\<close>

definition bigint_shl :: "int \<Rightarrow> int \<Rightarrow> int" where
  "bigint_shl a k = (if 0 \<le> k then a * 2 ^ nat k else a div 2 ^ nat (- k))"

definition bigint_shr :: "int \<Rightarrow> int \<Rightarrow> int" where
  "bigint_shr a k = bigint_shl a (- k)"

subsection \<open>Comparison across numbers and bigints\<close>

fun num_lt :: "js_number \<Rightarrow> js_number \<Rightarrow> bool" where
  "num_lt (Fin a) (Fin b) = (a < b)"
| "num_lt (Fin a) PosInf = True"
| "num_lt NegInf (Fin b) = True"
| "num_lt NegInf PosInf = True"
| "num_lt x y = False"

fun js_lt :: "js_num \<Rightarrow> js_num \<Rightarrow> bool" where
  "js_lt (BigInt a) (BigInt b) = (a < b)"
| "js_lt (BigInt a) (Number y) = num_lt (Fin (of_int a)) y"
| "js_lt (Number x) (BigInt b) = num_lt x (Fin (of_int b))"
| "js_lt (Number x) (Number y) = num_lt x y"

subsection \<open>Fields put side by side\<close>

lemma or_shifted: "0 \<le> (l :: int) \<Longrightarrow> l < 2 ^ n \<Longrightarrow> push_bit n h OR l = h * 2 ^ n + l"
proof -
  assume l: "0 \<le> l" "l < 2 ^ n"
  then have "take_bit n l = l" by (simp add: take_bit_int_eq_self)
  have "push_bit n h AND l = 0"
  proof (rule bit_eqI)
    fix i
    show "bit (push_bit n h AND l) i = bit 0 i"
      using bit_take_bit_iff [of n l i] unfolding \<open>take_bit n l = l\<close>
      by (auto simp: bit_and_iff bit_push_bit_iff_int)
  qed
  then show ?thesis by (simp add: push_bit_eq_mult disjunctive_add_eq_or)
qed

end
