(* ===== verification/GsWideInt.thy ===== *)
theory GsWideInt
  imports GsNumber "HOL-Library.Signed_Division"
begin

section \<open>Go integer conversions and 64-bit arithmetic (gs/builtin/builtin.ts)\<close>

text \<open>
  Go's \<open>int64\<close> and \<open>uint64\<close> are JavaScript bigints kept in range by \<open>int64Result\<close> and
  \<open>uint64Result\<close>; the narrower widths are numbers, converted by \<open>int\<close> and \<open>uint\<close>. Each
  function of the source is one definition here (\<open>go_int\<close> and \<open>go_uint\<close> for the source's
  \<open>int\<close> and \<open>uint\<close>, which are type names in Isabelle). The reference the results are
  compared with is the machine word of HOL-Library.Word: \<open>signed64\<close> and \<open>unsigned64\<close>
  read the operands as integers, apply a word operation and read the result back.
  The object case of \<open>uint\<close> (a \<open>StringHeaderData\<close> passed through unchanged) is left out.
\<close>

unbundle bit_operations_syntax

subsection \<open>BigInt of a string\<close>

datatype js_prim = Num js_num | Str string

definition is_space :: "char \<Rightarrow> bool" where
  "is_space c = (let n = of_char c :: nat in (9 \<le> n \<and> n \<le> 13) \<or> n = 32 \<or> n = 160)"

definition trim_string :: "string \<Rightarrow> string" where
  "trim_string s = rev (dropWhile is_space (rev (dropWhile is_space s)))"

definition digit_of :: "char \<Rightarrow> nat" where
  "digit_of c =
     (let n = of_char c :: nat in
      if 48 \<le> n \<and> n \<le> 57 then n - 48
      else if 97 \<le> n \<and> n \<le> 122 then n - 87
      else if 65 \<le> n \<and> n \<le> 90 then n - 55 else 99)"

fun parse_digits :: "nat \<Rightarrow> int \<Rightarrow> string \<Rightarrow> int option" where
  "parse_digits base acc [] = Some acc"
| "parse_digits base acc (c # cs) =
     (if digit_of c < base then parse_digits base (acc * int base + int (digit_of c)) cs else None)"

definition parse_nonempty :: "nat \<Rightarrow> string \<Rightarrow> int res" where
  "parse_nonempty base s =
     (if s = [] then Inl SyntaxError
      else case parse_digits base 0 s of None \<Rightarrow> Inl SyntaxError | Some n \<Rightarrow> Inr n)"

definition bigint_of_string :: "string \<Rightarrow> int res" where
  "bigint_of_string s =
     (case trim_string s of
        [] \<Rightarrow> Inr 0
      | c # cs \<Rightarrow>
          (if c = CHR ''0'' \<and> cs \<noteq> [] \<and> hd cs \<in> set ''xX'' then parse_nonempty 16 (tl cs)
           else if c = CHR ''0'' \<and> cs \<noteq> [] \<and> hd cs \<in> set ''oO'' then parse_nonempty 8 (tl cs)
           else if c = CHR ''0'' \<and> cs \<noteq> [] \<and> hd cs \<in> set ''bB'' then parse_nonempty 2 (tl cs)
           else if c = CHR ''-'' then map_sum id uminus (parse_nonempty 10 cs)
           else if c = CHR ''+'' then parse_nonempty 10 cs
           else parse_nonempty 10 (c # cs)))"

text \<open>The first lines of the conversions: a string argument is turned into a bigint.\<close>

definition string_arg :: "js_prim \<Rightarrow> js_num res" where
  "string_arg v = (case v of Num n \<Rightarrow> Inr n | Str s \<Rightarrow> bindR (bigint_of_string s) (\<lambda>b. Inr (BigInt b)))"

subsection \<open>int and uint\<close>

text \<open>The branch of \<open>int\<close> for a number and a width of 1 to 63 bits. The two corrections
  are additions of doubles, so they round.\<close>

definition int_narrow :: "nat \<Rightarrow> js_number \<Rightarrow> js_number" where
  "int_narrow bits x =
     (case x of
        Fin q \<Rightarrow>
          (let modulo = 2 ^ bits; sign = 2 ^ (bits - 1);
               t1 = js_rem (rat_trunc q) modulo;
               t2 = (if t1 < 0 then round53 (t1 + modulo) else t1);
               t3 = (if sign \<le> t2 then round53 (t2 - modulo) else t2)
           in Fin (of_int t3))
      | _ \<Rightarrow> x)"

definition go_int :: "js_prim \<Rightarrow> nat \<Rightarrow> js_number res" where
  "go_int v bits = bindR (string_arg v) (\<lambda>n.
     case n of
       BigInt b \<Rightarrow>
         Inr (if 0 < bits \<and> bits \<le> 64 then number_of_bigint (asIntN bits b) else number_of_bigint b)
     | Number x \<Rightarrow>
         Inr (if 0 < bits \<and> bits < 64 then int_narrow bits x else math_trunc x))"

definition uint_of_bigint :: "int \<Rightarrow> nat \<Rightarrow> js_num" where
  "uint_of_bigint b bits =
     (let normalized = asUintN (min bits 64) b in
      if 64 \<le> bits \<and> max_safe < normalized then BigInt normalized
      else Number (number_of_bigint normalized))"

definition uint_of_number :: "rat \<Rightarrow> nat \<Rightarrow> js_num" where
  "uint_of_number q bits =
     (let t = rat_trunc q in
      if bits = 8 then Number (Fin (of_int (to_int32 (Fin q) AND 255)))
      else if bits = 16 then Number (Fin (of_int (to_int32 (Fin q) AND 65535)))
      else if bits = 32 then Number (Fin (of_int (to_uint32 (Fin q))))
      else if 64 \<le> bits then
        (if 0 \<le> t \<and> t \<le> max_safe then Number (Fin (of_int t)) else uint_of_bigint t 64)
      else
        (let t1 = js_rem t (2 ^ bits)
         in Number (Fin (of_int (if t1 < 0 then round53 (t1 + 2 ^ bits) else t1)))))"

definition go_uint :: "js_prim \<Rightarrow> nat \<Rightarrow> js_num res" where
  "go_uint v bits = bindR (string_arg v) (\<lambda>n.
     case n of
       BigInt b \<Rightarrow> Inr (uint_of_bigint b bits)
     | Number x \<Rightarrow> Inr (case x of Fin q \<Rightarrow> uint_of_number q bits | _ \<Rightarrow> Number x))"

subsection \<open>The 64-bit helpers\<close>

fun int64Value :: "js_num \<Rightarrow> int res" where
  "int64Value (BigInt n) = Inr (asIntN 64 n)"
| "int64Value (Number x) =
     (case x of
        Fin q \<Rightarrow>
          (let truncated = rat_trunc q in
           if - max_safe \<le> truncated \<and> truncated \<le> max_safe then Inr truncated
           else Inr (asIntN 64 truncated))
      | _ \<Rightarrow> bindR (bigint_of_number (math_trunc x)) (\<lambda>b. Inr (asIntN 64 b)))"

definition int64Result :: "int \<Rightarrow> int" where
  "int64Result v = (if - 0x8000000000000000 \<le> v \<and> v \<le> 0x7fffffffffffffff then v else asIntN 64 v)"

fun uint64Value :: "js_num \<Rightarrow> int res" where
  "uint64Value (BigInt n) = Inr (asUintN 64 n)"
| "uint64Value (Number x) =
     (case x of
        Fin q \<Rightarrow>
          (let truncated = rat_trunc q in
           if 0 \<le> truncated \<and> truncated \<le> max_safe then Inr truncated
           else Inr (asUintN 64 truncated))
      | _ \<Rightarrow> bindR (bigint_of_number (math_trunc x)) (\<lambda>b. Inr (asUintN 64 b)))"

definition uint64Result :: "int \<Rightarrow> int" where
  "uint64Result v = (if 0 \<le> v \<and> v \<le> 0xffffffffffffffff then v else asUintN 64 v)"

definition int64 :: "js_prim \<Rightarrow> int res" where
  "int64 v = bindR (string_arg v) (\<lambda>n. bindR (int64Value n) (\<lambda>b. Inr (int64Result b)))"

definition uint64 :: "js_prim \<Rightarrow> int res" where
  "uint64 v = bindR (string_arg v) (\<lambda>n. bindR (uint64Value n) (\<lambda>b. Inr (uint64Result b)))"

text \<open>The body shared by the two-operand functions: both operands are converted, left first.\<close>

definition int64_binop :: "(int \<Rightarrow> int \<Rightarrow> int) \<Rightarrow> js_num \<Rightarrow> js_num \<Rightarrow> int res" where
  "int64_binop f l r =
     bindR (int64Value l) (\<lambda>a. bindR (int64Value r) (\<lambda>b. Inr (int64Result (f a b))))"

definition uint64_binop :: "(int \<Rightarrow> int \<Rightarrow> int) \<Rightarrow> js_num \<Rightarrow> js_num \<Rightarrow> int res" where
  "uint64_binop f l r =
     bindR (uint64Value l) (\<lambda>a. bindR (uint64Value r) (\<lambda>b. Inr (uint64Result (f a b))))"

definition int64Add :: "js_num \<Rightarrow> js_num \<Rightarrow> int res" where "int64Add = int64_binop (+)"
definition int64Sub :: "js_num \<Rightarrow> js_num \<Rightarrow> int res" where "int64Sub = int64_binop (-)"
definition int64Mul :: "js_num \<Rightarrow> js_num \<Rightarrow> int res" where "int64Mul = int64_binop (*)"
definition int64And :: "js_num \<Rightarrow> js_num \<Rightarrow> int res" where "int64And = int64_binop (AND)"
definition int64Or :: "js_num \<Rightarrow> js_num \<Rightarrow> int res" where "int64Or = int64_binop (OR)"
definition int64Xor :: "js_num \<Rightarrow> js_num \<Rightarrow> int res" where "int64Xor = int64_binop (XOR)"
definition int64AndNot :: "js_num \<Rightarrow> js_num \<Rightarrow> int res" where
  "int64AndNot = int64_binop (\<lambda>a b. a AND NOT b)"
definition uint64Add :: "js_num \<Rightarrow> js_num \<Rightarrow> int res" where "uint64Add = uint64_binop (+)"
definition uint64Sub :: "js_num \<Rightarrow> js_num \<Rightarrow> int res" where "uint64Sub = uint64_binop (-)"
definition uint64Mul :: "js_num \<Rightarrow> js_num \<Rightarrow> int res" where "uint64Mul = uint64_binop (*)"
definition uint64And :: "js_num \<Rightarrow> js_num \<Rightarrow> int res" where "uint64And = uint64_binop (AND)"
definition uint64Or :: "js_num \<Rightarrow> js_num \<Rightarrow> int res" where "uint64Or = uint64_binop (OR)"
definition uint64Xor :: "js_num \<Rightarrow> js_num \<Rightarrow> int res" where "uint64Xor = uint64_binop (XOR)"
definition uint64AndNot :: "js_num \<Rightarrow> js_num \<Rightarrow> int res" where
  "uint64AndNot = uint64_binop (\<lambda>a b. a AND NOT b)"

text \<open>Division and remainder look at the divisor first and panic when it is zero.\<close>

definition divide_panic :: js_exn where
  "divide_panic = RuntimePanic ''runtime error: integer divide by zero''"

definition int64Div :: "js_num \<Rightarrow> js_num \<Rightarrow> int res" where
  "int64Div l r = bindR (int64Value r) (\<lambda>divisor.
     if divisor = 0 then Inl divide_panic
     else bindR (int64Value l) (\<lambda>a. Inr (int64Result (js_quot a divisor))))"

definition int64Mod :: "js_num \<Rightarrow> js_num \<Rightarrow> int res" where
  "int64Mod l r = bindR (int64Value r) (\<lambda>divisor.
     if divisor = 0 then Inl divide_panic
     else bindR (int64Value l) (\<lambda>a. Inr (int64Result (js_rem a divisor))))"

definition uint64Div :: "js_num \<Rightarrow> js_num \<Rightarrow> int res" where
  "uint64Div l r = bindR (uint64Value r) (\<lambda>divisor.
     if divisor = 0 then Inl divide_panic
     else bindR (uint64Value l) (\<lambda>a. Inr (uint64Result (js_quot a divisor))))"

definition uint64Mod :: "js_num \<Rightarrow> js_num \<Rightarrow> int res" where
  "uint64Mod l r = bindR (uint64Value r) (\<lambda>divisor.
     if divisor = 0 then Inl divide_panic
     else bindR (uint64Value l) (\<lambda>a. Inr (uint64Result (js_rem a divisor))))"

definition shift_amount :: "js_num \<Rightarrow> int res" where
  "shift_amount shift = bigint_of_number (math_trunc (to_number shift))"

definition int64Shl :: "js_num \<Rightarrow> js_num \<Rightarrow> int res" where
  "int64Shl v shift = bindR (int64Value v) (\<lambda>a. bindR (shift_amount shift) (\<lambda>k.
     Inr (int64Result (bigint_shl a k))))"

definition int64Shr :: "js_num \<Rightarrow> js_num \<Rightarrow> int res" where
  "int64Shr v shift = bindR (int64Value v) (\<lambda>a. bindR (shift_amount shift) (\<lambda>k.
     Inr (int64Result (bigint_shr a k))))"

definition uint64Shl :: "js_num \<Rightarrow> js_num \<Rightarrow> int res" where
  "uint64Shl v shift = bindR (uint64Value v) (\<lambda>a. bindR (shift_amount shift) (\<lambda>k.
     Inr (uint64Result (bigint_shl a k))))"

definition uint64Shr :: "js_num \<Rightarrow> js_num \<Rightarrow> int res" where
  "uint64Shr v shift = bindR (uint64Value v) (\<lambda>a. bindR (shift_amount shift) (\<lambda>k.
     Inr (uint64Result (bigint_shr a k))))"

text \<open>\<open>uintShr\<close>: the only shift that checks its count. A count that is not a number makes
  both comparisons false, and \<open>>>>\<close> then shifts by zero.\<close>

definition uintShr :: "js_num \<Rightarrow> js_num \<Rightarrow> nat \<Rightarrow> int res" where
  "uintShr v shift bits =
     (let width = min bits 32; amount = math_trunc (to_number shift) in
      if num_lt amount (Fin 0) then Inl (RuntimePanic ''runtime error: negative shift amount'')
      else if num_lt (Fin (of_nat width)) amount \<or> amount = Fin (of_nat width)
      then Inr 0
      else bindR (go_uint (Num v) width) (\<lambda>n.
        Inr (to_uint32 (to_number n) div 2 ^ nat (to_int32 amount mod 32))))"

text \<open>\<open>min\<close> and \<open>max\<close>: any bigint operand takes the relational path, and two numbers keep
  the NaN of \<open>Math.min\<close> and \<open>Math.max\<close>.\<close>

fun go_min :: "js_num \<Rightarrow> js_num \<Rightarrow> js_num" where
  "go_min (Number x) (Number y) =
     (if x = NaN \<or> y = NaN then Number NaN else if num_lt y x then Number y else Number x)"
| "go_min a b = (if js_lt a b then a else b)"

fun go_max :: "js_num \<Rightarrow> js_num \<Rightarrow> js_num" where
  "go_max (Number x) (Number y) =
     (if x = NaN \<or> y = NaN then Number NaN else if num_lt x y then Number y else Number x)"
| "go_max a b = (if js_lt b a then a else b)"

subsection \<open>Agreement with 64-bit machine words\<close>

definition js_integer :: "js_num \<Rightarrow> int res" where
  "js_integer v = (case v of BigInt n \<Rightarrow> Inr n | Number x \<Rightarrow> bigint_of_number (math_trunc x))"

definition signed64 :: "(64 word \<Rightarrow> 64 word \<Rightarrow> 64 word) \<Rightarrow> js_num \<Rightarrow> js_num \<Rightarrow> int res" where
  "signed64 f l r = bindR (js_integer l) (\<lambda>a. bindR (js_integer r) (\<lambda>b.
     Inr (sint (f (word_of_int a) (word_of_int b)))))"

definition unsigned64 :: "(64 word \<Rightarrow> 64 word \<Rightarrow> 64 word) \<Rightarrow> js_num \<Rightarrow> js_num \<Rightarrow> int res" where
  "unsigned64 f l r = bindR (js_integer l) (\<lambda>a. bindR (js_integer r) (\<lambda>b.
     Inr (uint (f (word_of_int a) (word_of_int b)))))"

lemma asIntN_64: "asIntN 64 v = sint (word_of_int v :: 64 word)"
  using asIntN_sint [where 'a = 64, of v] by simp

lemma asUintN_64: "asUintN 64 v = uint (word_of_int v :: 64 word)"
  using asUintN_uint [where 'a = 64, of v] by simp

lemma int64Result_word: "int64Result v = sint (word_of_int v :: 64 word)"
  by (auto simp: int64Result_def asIntN_id simp flip: asIntN_64)

lemma uint64Result_word: "uint64Result v = uint (word_of_int v :: 64 word)"
  by (auto simp: uint64Result_def asUintN_id simp flip: asUintN_64)

lemma int64Value_word: "int64Value v = bindR (js_integer v) (\<lambda>n. Inr (sint (word_of_int n :: 64 word)))"
  by (cases v) (auto simp: js_integer_def max_safe_def asIntN_id Let_def simp flip: asIntN_64
      split: js_number.splits)

lemma uint64Value_word: "uint64Value v = bindR (js_integer v) (\<lambda>n. Inr (uint (word_of_int n :: 64 word)))"
  by (cases v) (auto simp: js_integer_def max_safe_def asUintN_id Let_def simp flip: asUintN_64
      split: js_number.splits)

lemma int64_binop_word:
  assumes "\<And>a b :: 64 word. word_of_int (f (sint a) (sint b)) = g a b"
  shows "int64_binop f = signed64 g"
  by (intro ext) (simp add: int64_binop_def signed64_def int64Value_word int64Result_word assms)

lemma uint64_binop_word:
  assumes "\<And>a b :: 64 word. word_of_int (f (uint a) (uint b)) = g a b"
  shows "uint64_binop f = unsigned64 g"
  by (intro ext) (simp add: uint64_binop_def unsigned64_def uint64Value_word uint64Result_word assms)

lemmas int64_op_defs = int64Add_def int64Sub_def int64Mul_def int64And_def int64Or_def int64Xor_def
  int64AndNot_def

lemmas uint64_op_defs = uint64Add_def uint64Sub_def uint64Mul_def uint64And_def uint64Or_def
  uint64Xor_def uint64AndNot_def

text \<open>C1. The two-operand int64 helpers compute exactly the 64-bit two's complement
  operation on their operands, whatever mixture of numbers and bigints, in or out of
  range, they are given (and throw a RangeError only on a NaN or an infinity).\<close>

theorem int64_ops_are_word_ops:
  "int64Add = signed64 (+) \<and> int64Sub = signed64 (-) \<and> int64Mul = signed64 (*) \<and>
   int64And = signed64 (AND) \<and> int64Or = signed64 (OR) \<and> int64Xor = signed64 (XOR) \<and>
   int64AndNot = signed64 (\<lambda>a b. a AND NOT b)"
  unfolding int64_op_defs
  by (intro conjI int64_binop_word)
    (simp_all add: of_int_and_eq of_int_or_eq of_int_xor_eq of_int_not_eq)

text \<open>The same for the uint64 helpers and unsigned 64-bit words.\<close>

theorem uint64_ops_are_word_ops:
  "uint64Add = unsigned64 (+) \<and> uint64Sub = unsigned64 (-) \<and> uint64Mul = unsigned64 (*) \<and>
   uint64And = unsigned64 (AND) \<and> uint64Or = unsigned64 (OR) \<and> uint64Xor = unsigned64 (XOR) \<and>
   uint64AndNot = unsigned64 (\<lambda>a b. a AND NOT b)"
  unfolding uint64_op_defs
  by (intro conjI uint64_binop_word)
    (simp_all add: of_int_and_eq of_int_or_eq of_int_xor_eq of_int_not_eq)

lemma uint_pos: "(a :: 64 word) = 0 \<or> 0 < uint a"
  by (simp add: less_le uint_0_iff)

lemma js_quot_sdiv: "js_quot a b = a sdiv b"
  by (simp add: js_quot_def signed_divide_int_def)

lemma js_rem_smod: "js_rem a b = a smod b"
  by (metis js_quot_sdiv js_quot_rem add.commute add_diff_cancel_right' minus_sdiv_mult_eq_smod)

text \<open>C2. Division and remainder: a zero divisor is Go's "integer divide by zero" panic,
  and otherwise the signed helpers truncate toward zero and wrap the one overflowing
  quotient (the least int64 divided by -1), the unsigned ones are word division.\<close>

theorem wide_division_spec:
  "int64Div l r = bindR (js_integer r) (\<lambda>b.
     if (word_of_int b :: 64 word) = 0 then Inl divide_panic
     else bindR (js_integer l) (\<lambda>a. Inr (sint (word_of_int
       (sint (word_of_int a :: 64 word) sdiv sint (word_of_int b :: 64 word)) :: 64 word)))) \<and>
   int64Mod l r = bindR (js_integer r) (\<lambda>b.
     if (word_of_int b :: 64 word) = 0 then Inl divide_panic
     else bindR (js_integer l) (\<lambda>a. Inr (sint (word_of_int
       (sint (word_of_int a :: 64 word) smod sint (word_of_int b :: 64 word)) :: 64 word)))) \<and>
   uint64Div l r = bindR (js_integer r) (\<lambda>b.
     if (word_of_int b :: 64 word) = 0 then Inl divide_panic
     else bindR (js_integer l) (\<lambda>a. Inr (uint ((word_of_int a :: 64 word) div word_of_int b)))) \<and>
   uint64Mod l r = bindR (js_integer r) (\<lambda>b.
     if (word_of_int b :: 64 word) = 0 then Inl divide_panic
     else bindR (js_integer l) (\<lambda>a. Inr (uint ((word_of_int a :: 64 word) mod word_of_int b))))"
proof -
  have uquot: "js_quot (uint a) (uint b) = uint (a div b)" for a b :: "64 word"
    using uint_pos [of a] uint_pos [of b] by (auto simp: js_quot_def uint_div)
  have urem: "js_rem (uint a) (uint b) = uint (a mod b)" for a b :: "64 word"
    using uint_pos [of a] uint_pos [of b] by (auto simp: js_rem_def uint_mod)
  show ?thesis
    by (simp add: int64Div_def int64Mod_def uint64Div_def uint64Mod_def int64Value_word
        uint64Value_word int64Result_word uint64Result_word js_quot_sdiv js_rem_smod
        uquot [unfolded js_quot_sdiv] urem [unfolded js_rem_smod] signed_eq_0_iff uint_0_iff
        cong: if_cong)
qed

lemma bigint_shl_shr_nat:
  "bigint_shl a (int k) = push_bit k a" "bigint_shr a (int k) = drop_bit k a"
  by (simp_all add: bigint_shl_def bigint_shr_def push_bit_eq_mult drop_bit_eq_div)

text \<open>The 64-bit shifts by a non-negative count are the word shifts: left shifts drop
  the high bits (a count of 64 or more gives 0), the unsigned right shift is logical, the
  signed one arithmetic.\<close>

theorem wide_shifts_are_word_shifts:
  assumes "shift_amount shift = Inr (int k)"
  shows
    "int64Shl v shift = bindR (js_integer v) (\<lambda>a. Inr (sint (push_bit k (word_of_int a :: 64 word)))) \<and>
     uint64Shl v shift = bindR (js_integer v) (\<lambda>a. Inr (uint (push_bit k (word_of_int a :: 64 word)))) \<and>
     int64Shr v shift = bindR (js_integer v) (\<lambda>a. Inr (sint (signed_drop_bit k (word_of_int a :: 64 word)))) \<and>
     uint64Shr v shift = bindR (js_integer v) (\<lambda>a. Inr (uint (drop_bit k (word_of_int a :: 64 word))))"
proof -
  have "(word_of_int (push_bit k (sint a)) :: 64 word) = push_bit k a"
    "(word_of_int (push_bit k (uint a)) :: 64 word) = push_bit k a" for a :: "64 word"
    by (simp_all add: push_bit_eq_mult mult.commute)
  moreover have "sint (word_of_int (drop_bit k (sint a)) :: 64 word) = sint (signed_drop_bit k a)"
    for a :: "64 word"
    by (simp add: sint_signed_drop_bit_eq [symmetric])
  moreover have "uint (word_of_int (drop_bit k (uint a)) :: 64 word) = uint (drop_bit k a)"
    for a :: "64 word"
  proof -
    have "take_bit 64 (uint a) = uint a"
      using uint_bounded [of a] by (intro take_bit_int_eq_self) simp_all
    then have "drop_bit k (uint a) = uint (drop_bit k a)" by (simp add: unsigned_drop_bit_eq)
    then show ?thesis by (simp only: word_of_int_uint)
  qed
  ultimately show ?thesis
    by (simp add: int64Shl_def uint64Shl_def int64Shr_def uint64Shr_def assms bigint_shl_shr_nat
        int64Value_word uint64Value_word int64Result_word uint64Result_word)
qed

theorem wide_shifts_are_word_shifts_witness:
  "shift_amount (Number (Fin 4)) = Inr (int 4) \<and>
   uint64Shl (BigInt 0xF000000000000001) (Number (Fin 4)) = Inr 16 \<and>
   int64Shr (BigInt (-32)) (Number (Fin 4)) = Inr (-2)"
proof -
  have h: "shift_amount (Number (Fin 4)) = Inr (int 4)"
    by (simp add: shift_amount_def)
  show ?thesis
    using h wide_shifts_are_word_shifts [OF h, of "BigInt 0xF000000000000001"]
      wide_shifts_are_word_shifts [OF h, of "BigInt (-32)"]
    by (simp add: js_integer_def push_bit_eq_mult sint_signed_drop_bit_eq)
qed

subsection \<open>The narrow conversions\<close>

lemma js_rem_to_mod:
  assumes "0 < m"
  shows "(if js_rem t m < 0 then js_rem t m + m else js_rem t m) = t mod m"
proof (cases "0 \<le> t")
  case True
  moreover have "0 \<le> t mod m" using assms by simp
  ultimately show ?thesis using assms by (auto simp: js_rem_def sgn_if not_less)
next
  case False
  with assms have "js_rem t m = - ((- t) mod m)" by (simp add: js_rem_def)
  moreover have "t mod m = (if (- t) mod m = 0 then 0 else m - (- t) mod m)"
    using zmod_zminus1_eq_if [of "- t" m] by simp
  moreover have "0 \<le> (- t) mod m" "(- t) mod m < m" using assms by simp_all
  ultimately show ?thesis by auto
qed

lemma power_le_53: "b \<le> 53 \<Longrightarrow> (2 :: int) ^ b \<le> 2 ^ 53"
  by (rule power_increasing) simp_all

lemma round53_small: "b \<le> 53 \<Longrightarrow> \<bar>n\<bar> < 2 ^ b \<Longrightarrow> round53 n = n"
  by (rule round53_exact) (use power_le_53 [of b] in linarith)

lemma narrow_mod:
  assumes "b \<le> 53"
  shows "(let t1 = js_rem t (2 ^ b) in if t1 < 0 then round53 (t1 + 2 ^ b) else t1) = asUintN b t"
proof -
  have "\<bar>js_rem t (2 ^ b)\<bar> < 2 ^ b" using js_rem_bound [of "2 ^ b" t] by simp
  then have "js_rem t (2 ^ b) < 0 \<Longrightarrow> round53 (js_rem t (2 ^ b) + 2 ^ b) = js_rem t (2 ^ b) + 2 ^ b"
    by (intro round53_small [OF assms]) linarith
  then show ?thesis
    using js_rem_to_mod [of "2 ^ b" t] by (auto simp: asUintN_def Let_def split: if_splits)
qed

lemma int_narrow_eq:
  assumes "0 < b" "b \<le> 53"
  shows "int_narrow b (Fin q) = Fin (of_int (asIntN b (rat_trunc q)))"
proof -
  define m where "m = asUintN b (rat_trunc q)"
  have m: "0 \<le> m" "m < 2 ^ b" by (simp_all only: m_def asUintN_bounds)
  have "round53 (m - 2 ^ b) = m - 2 ^ b" if "2 ^ (b - 1) \<le> m"
  proof (rule round53_small [OF assms(2)])
    have "(0 :: int) < 2 ^ (b - 1)" by simp
    with that m show "\<bar>m - 2 ^ b\<bar> < 2 ^ b" by linarith
  qed
  moreover have "int_narrow b (Fin q) =
      Fin (of_int (if 2 ^ (b - 1) \<le> m then round53 (m - 2 ^ b) else m))"
    using narrow_mod [OF assms(2), of "rat_trunc q"] by (simp add: int_narrow_def Let_def m_def)
  moreover have "asIntN b (rat_trunc q) = (if 2 ^ (b - 1) \<le> m then m - 2 ^ b else m)"
    by (simp add: asIntN_def m_def asUintN_def Let_def)
  ultimately show ?thesis by auto
qed

lemma asIntN_abs: "0 < b \<Longrightarrow> \<bar>asIntN b v\<bar> < 2 ^ b"
proof -
  assume b: "0 < b"
  then have "(2 :: int) ^ (b - 1) < 2 ^ b" by (intro power_strict_increasing) simp_all
  with asIntN_bounds [OF b, of v] show ?thesis unfolding abs_less_iff by linarith
qed

lemma low_bits_of_int32:
  assumes "b \<le> 32"
  shows "asIntN 32 t AND mask b = asUintN b t"
  using assms asIntN_signed_take_bit [of 31 t]
  by (simp add: asUintN_take_bit take_bit_signed_take_bit flip: take_bit_eq_mask)

lemma uint_of_number_eq:
  assumes "b \<le> 53"
  shows "uint_of_number q b = Number (Fin (of_int (asUintN b (rat_trunc q))))"
  using assms low_bits_of_int32 [of 8 "rat_trunc q"] low_bits_of_int32 [of 16 "rat_trunc q"]
    narrow_mod [OF assms, of "rat_trunc q"]
  by (simp add: uint_of_number_def Let_def mask_eq_exp_minus_1)

lemma uint_of_bigint_eq:
  assumes "b \<le> 53"
  shows "uint_of_bigint n b = Number (Fin (of_int (asUintN b n)))"
proof -
  have "asUintN b n < 2 ^ 53" using asUintN_bounds(2) [of b n] power_le_53 [OF assms] by linarith
  then have "number_of_bigint (asUintN b n) = Fin (of_int (asUintN b n))"
    by (intro number_of_bigint_exact) (use asUintN_bounds(1) [of b n] in linarith)
  with assms show ?thesis by (simp add: uint_of_bigint_def Let_def)
qed

lemma go_int_bigint_eq:
  assumes "0 < b" "b \<le> 53"
  shows "go_int (Num (BigInt n)) b = Inr (Fin (of_int (asIntN b n)))"
proof -
  have "\<bar>asIntN b n\<bar> < 2 ^ 53"
    using asIntN_abs [OF assms(1), of n] power_le_53 [OF assms(2)] by linarith
  with assms show ?thesis by (simp add: go_int_def string_arg_def number_of_bigint_exact)
qed

text \<open>A conversion to a signed or unsigned integer type of at most 53 bits, from a
  finite number (truncated first) or a bigint, is the two's complement or modular
  reading of a machine word of that width.\<close>

theorem narrow_conversions_are_words:
  fixes q :: rat and n :: int
  assumes "LENGTH('a :: len) \<le> 53"
  shows
    "go_int (Num (Number (Fin q))) LENGTH('a) =
       Inr (Fin (of_int (sint (word_of_int (rat_trunc q) :: 'a word)))) \<and>
     go_int (Num (BigInt n)) LENGTH('a) = Inr (Fin (of_int (sint (word_of_int n :: 'a word)))) \<and>
     go_uint (Num (Number (Fin q))) LENGTH('a) =
       Inr (Number (Fin (of_int (uint (word_of_int (rat_trunc q) :: 'a word))))) \<and>
     go_uint (Num (BigInt n)) LENGTH('a) =
       Inr (Number (Fin (of_int (uint (word_of_int n :: 'a word)))))"
proof -
  have "go_int (Num (Number (Fin q))) LENGTH('a) = Inr (Fin (of_int (asIntN LENGTH('a) (rat_trunc q))))"
    using assms int_narrow_eq [OF len_gt_0 assms] by (simp add: go_int_def string_arg_def)
  moreover have "go_uint (Num (Number (Fin q))) LENGTH('a) =
      Inr (Number (Fin (of_int (asUintN LENGTH('a) (rat_trunc q)))))"
    by (simp add: go_uint_def string_arg_def uint_of_number_eq [OF assms])
  moreover have "go_uint (Num (BigInt n)) LENGTH('a) =
      Inr (Number (Fin (of_int (asUintN LENGTH('a) n))))"
    by (simp add: go_uint_def string_arg_def uint_of_bigint_eq [OF assms])
  ultimately show ?thesis
    using go_int_bigint_eq [OF len_gt_0 assms, of n]
    by (simp only: asIntN_sint asUintN_uint simp_thms)
qed

theorem narrow_conversions_are_words_witness:
  "LENGTH(8) \<le> 53 \<and> go_int (Num (Number (Fin 200))) 8 = Inr (Fin (-56)) \<and>
   go_uint (Num (BigInt (-1))) 8 = Inr (Number (Fin 255))"
  using narrow_conversions_are_words [where 'a = 8, of 200 "-1"]
  by (simp add: unsigned_minus_1_eq_mask mask_eq_exp_minus_1)

end
