(* ===== verification/GsChannel.thy ===== *)
theory GsChannel
  imports GsPrelude "HOL-Library.Sublist" "HOL-Library.Multiset"
begin

section \<open>Channels (class BufferedChannel of gs/builtin/channel.ts)\<close>

text \<open>
  One record per channel and one definition per method. A method that the source declares
  \<open>async\<close> is called with the identity \<open>p\<close> of the promise it returns; its reply says
  whether that promise is settled at once, rejected, or left pending in one of the three
  wait queues. Callbacks handed to \<open>queueMicrotask\<close> and \<open>setTimeout\<close> are values of
  \<open>job\<close>, returned in the order they are queued; GsEventLoop runs them. The closures in
  the wait queues are tasks: of a plain \<open>receive\<close> or \<open>send\<close> (the promise they settle) or of
  a select case (the promise, the case id, its channel and its abort signal).
\<close>

type_synonym promise = nat

record select_task =
  sel_promise :: promise
  sel_id :: int
  sel_chan :: nat
  sel_signal :: "nat option"

datatype receiver_task = RecvTask promise
datatype ok_task = OkTask promise | OkSelect select_task
datatype send_task = SendTask promise | SendSelect select_task

text \<open>What a settled promise carries: nothing for \<open>send\<close>, the value of \<open>receive\<close>, the
  result objects of \<open>receiveWithOk\<close> and of the two select operations, or an error.\<close>

datatype 'v outcome =
    Sent
  | Received 'v
  | ReceivedOk 'v bool
  | SelectedReceive 'v bool int
  | SelectedSend int
  | Rejected string

text \<open>Who waits for the delivery to a receiver to finish: the promise of \<open>send\<close>, the
  promise of \<open>selectSend\<close> with its case id, or nobody (\<open>void\<close> in \<open>trySelectSend\<close>).\<close>

datatype completion = CompleteSend promise | CompleteSelect promise int | CompleteNone

datatype 'v job =
    Deliver receiver_task 'v completion
  | DeliverOk ok_task 'v bool completion
  | Complete completion
  | ResolveSend send_task
  | RejectSend send_task string
  | WakeReceive receiver_task 'v
  | WakeOk ok_task 'v bool

datatype 'v reply = Settle "'v outcome" | Pending

record 'v chan =
  buffer :: "'v list"
  is_closed :: bool
  capacity :: nat
  zero_value :: 'v
  senders :: "('v \<times> send_task) list"
  receivers :: "receiver_task list"
  receivers_ok :: "ok_task list"

subsection \<open>Construction and the six operations that take part in a rendezvous\<close>

definition new_channel :: "int \<Rightarrow> 'v \<Rightarrow> 'v chan res" where
  "new_channel cap zero =
     (if cap < 0 then Inl (ThrownError ''Channel capacity cannot be negative'')
      else Inr \<lparr>buffer = [], is_closed = False, capacity = nat cap, zero_value = zero,
                senders = [], receivers = [], receivers_ok = []\<rparr>)"

definition send_closed :: string where
  "send_closed = ''send on closed channel''"

definition chan_send :: "promise \<Rightarrow> 'v \<Rightarrow> 'v chan \<Rightarrow> 'v chan \<times> 'v job list \<times> 'v reply" where
  "chan_send p v ch =
     (if is_closed ch then (ch, [], Settle (Rejected send_closed))
      else case receivers ch of
        r # rs \<Rightarrow> (ch\<lparr>receivers := rs\<rparr>, [Deliver r v (CompleteSend p)], Pending)
      | [] \<Rightarrow>
          (case receivers_ok ch of
             r # rs \<Rightarrow> (ch\<lparr>receivers_ok := rs\<rparr>, [DeliverOk r v True (CompleteSend p)], Pending)
           | [] \<Rightarrow>
               (if length (buffer ch) < capacity ch
                then (ch\<lparr>buffer := buffer ch @ [v]\<rparr>, [], Settle Sent)
                else (ch\<lparr>senders := senders ch @ [(v, SendTask p)]\<rparr>, [], Pending))))"

text \<open>The first branch of the four receiving methods: shift the buffer and let the first
  waiting sender's value take the free place. \<open>None\<close> when the buffer is empty.\<close>

definition shift_buffer :: "'v chan \<Rightarrow> ('v chan \<times> 'v job list \<times> 'v) option" where
  "shift_buffer ch =
     (case buffer ch of
        [] \<Rightarrow> None
      | v # vs \<Rightarrow>
          (case senders ch of
             [] \<Rightarrow> Some (ch\<lparr>buffer := vs\<rparr>, [], v)
           | (w, t) # ss \<Rightarrow> Some (ch\<lparr>buffer := vs @ [w], senders := ss\<rparr>, [ResolveSend t], v)))"

definition chan_receive :: "promise \<Rightarrow> 'v chan \<Rightarrow> 'v chan \<times> 'v job list \<times> 'v reply" where
  "chan_receive p ch =
     (case shift_buffer ch of
        Some (ch', js, v) \<Rightarrow> (ch', js, Settle (Received v))
      | None \<Rightarrow>
          (if is_closed ch then (ch, [], Settle (Received (zero_value ch)))
           else case senders ch of
             (w, t) # ss \<Rightarrow> (ch\<lparr>senders := ss\<rparr>, [ResolveSend t], Settle (Received w))
           | [] \<Rightarrow> (ch\<lparr>receivers := receivers ch @ [RecvTask p]\<rparr>, [], Pending)))"

text \<open>\<open>trySelectReceive\<close>: value and ok flag, or \<open>None\<close> for \<open>undefined\<close> (it would block).
  \<open>receiveWithOk\<close> and \<open>selectReceive\<close> go through the same three tests before they queue
  a task.\<close>

definition try_receive :: "'v chan \<Rightarrow> ('v chan \<times> 'v job list \<times> 'v \<times> bool) option" where
  "try_receive ch =
     (case shift_buffer ch of
        Some (ch', js, v) \<Rightarrow> Some (ch', js, v, True)
      | None \<Rightarrow>
          (case senders ch of
             (w, t) # ss \<Rightarrow> Some (ch\<lparr>senders := ss\<rparr>, [ResolveSend t], w, True)
           | [] \<Rightarrow> if is_closed ch then Some (ch, [], zero_value ch, False) else None))"

definition chan_receive_ok :: "promise \<Rightarrow> 'v chan \<Rightarrow> 'v chan \<times> 'v job list \<times> 'v reply" where
  "chan_receive_ok p ch =
     (case try_receive ch of
        Some (ch', js, v, ok) \<Rightarrow> (ch', js, Settle (ReceivedOk v ok))
      | None \<Rightarrow> (ch\<lparr>receivers_ok := receivers_ok ch @ [OkTask p]\<rparr>, [], Pending))"

definition try_select_receive ::
  "int \<Rightarrow> 'v chan \<Rightarrow> ('v chan \<times> 'v job list \<times> 'v outcome) option" where
  "try_select_receive i ch =
     (case try_receive ch of
        Some (ch', js, v, ok) \<Rightarrow> Some (ch', js, SelectedReceive v ok i)
      | None \<Rightarrow> None)"

text \<open>\<open>aborted\<close> is \<open>signal?.aborted\<close>; then the promise stays pending and nothing is queued.\<close>

definition chan_select_receive ::
  "select_task \<Rightarrow> bool \<Rightarrow> 'v chan \<Rightarrow> 'v chan \<times> 'v job list \<times> 'v reply" where
  "chan_select_receive t aborted ch =
     (case try_receive ch of
        Some (ch', js, v, ok) \<Rightarrow> (ch', js, Settle (SelectedReceive v ok (sel_id t)))
      | None \<Rightarrow>
          (if aborted then (ch, [], Pending)
           else (ch\<lparr>receivers_ok := receivers_ok ch @ [OkSelect t]\<rparr>, [], Pending)))"

definition try_select_send ::
  "'v \<Rightarrow> int \<Rightarrow> 'v chan \<Rightarrow> ('v chan \<times> 'v job list \<times> 'v outcome) option res" where
  "try_select_send v i ch =
     (if is_closed ch then Inl (ThrownError send_closed)
      else Inr (case receivers ch of
        r # rs \<Rightarrow> Some (ch\<lparr>receivers := rs\<rparr>, [Deliver r v CompleteNone], SelectedSend i)
      | [] \<Rightarrow>
          (case receivers_ok ch of
             r # rs \<Rightarrow> Some (ch\<lparr>receivers_ok := rs\<rparr>, [DeliverOk r v True CompleteNone], SelectedSend i)
           | [] \<Rightarrow>
               (if length (buffer ch) < capacity ch
                then Some (ch\<lparr>buffer := buffer ch @ [v]\<rparr>, [], SelectedSend i)
                else None))))"

definition chan_select_send ::
  "'v \<Rightarrow> select_task \<Rightarrow> bool \<Rightarrow> 'v chan \<Rightarrow> 'v chan \<times> 'v job list \<times> 'v reply" where
  "chan_select_send v t aborted ch =
     (let done = CompleteSelect (sel_promise t) (sel_id t) in
      if is_closed ch then (ch, [], Settle (Rejected send_closed))
      else case receivers ch of
        r # rs \<Rightarrow> (ch\<lparr>receivers := rs\<rparr>, [Deliver r v done], Pending)
      | [] \<Rightarrow>
          (case receivers_ok ch of
             r # rs \<Rightarrow> (ch\<lparr>receivers_ok := rs\<rparr>, [DeliverOk r v True done], Pending)
           | [] \<Rightarrow>
               (if length (buffer ch) < capacity ch
                then (ch\<lparr>buffer := buffer ch @ [v]\<rparr>, [], Settle (SelectedSend (sel_id t)))
                else if aborted then (ch, [], Pending)
                else (ch\<lparr>senders := senders ch @ [(v, SendSelect t)]\<rparr>, [], Pending))))"

subsection \<open>close and the observers\<close>

text \<open>\<open>close\<close> returns the timers it sets: first the senders, then the two receiver queues.\<close>

definition chan_close :: "'v chan \<Rightarrow> ('v chan \<times> 'v job list) res" where
  "chan_close ch =
     (if is_closed ch then Inl (ThrownError ''close of closed channel'')
      else Inr (ch\<lparr>is_closed := True, senders := [], receivers := [], receivers_ok := []\<rparr>,
        map (\<lambda>(v, t). RejectSend t send_closed) (senders ch) @
        map (\<lambda>r. WakeReceive r (zero_value ch)) (receivers ch) @
        map (\<lambda>r. WakeOk r (zero_value ch) False) (receivers_ok ch)))"

definition can_receive :: "'v chan \<Rightarrow> bool" where
  "can_receive ch \<longleftrightarrow> 0 < length (buffer ch) \<or> 0 < length (senders ch) \<or> is_closed ch"

definition can_send :: "'v chan \<Rightarrow> bool" where
  "can_send ch \<longleftrightarrow> is_closed ch \<or> length (buffer ch) < capacity ch \<or>
     0 < length (receivers ch) \<or> 0 < length (receivers_ok ch)"

definition chan_len :: "'v chan \<Rightarrow> nat" where "chan_len ch = length (buffer ch)"
definition chan_cap :: "'v chan \<Rightarrow> nat" where "chan_cap ch = capacity ch"

text \<open>The \<open>cleanup\<close> closures of the two select operations: remove the task from the queue
  it was pushed on, if it is still there.\<close>

definition cleanup_receiver :: "select_task \<Rightarrow> 'v chan \<Rightarrow> 'v chan" where
  "cleanup_receiver t ch = ch\<lparr>receivers_ok := remove_first (\<lambda>u. u = OkSelect t) (receivers_ok ch)\<rparr>"

definition cleanup_sender :: "select_task \<Rightarrow> 'v chan \<Rightarrow> 'v chan" where
  "cleanup_sender t ch = ch\<lparr>senders := remove_first (\<lambda>(v, u). u = SendSelect t) (senders ch)\<rparr>"

subsection \<open>The invariant and the operations as one step function\<close>

text \<open>The queues of a channel exclude each other: a waiting sender means a full buffer and no
  waiting receiver, a waiting receiver means an empty buffer, and a closed channel has
  nobody waiting.\<close>

definition chan_inv :: "'v chan \<Rightarrow> bool" where
  "chan_inv ch \<longleftrightarrow>
     length (buffer ch) \<le> capacity ch \<and>
     (senders ch \<noteq> [] \<longrightarrow> length (buffer ch) = capacity ch \<and> \<not> is_closed ch \<and>
        receivers ch = [] \<and> receivers_ok ch = []) \<and>
     (receivers ch \<noteq> [] \<or> receivers_ok ch \<noteq> [] \<longrightarrow> buffer ch = [] \<and> \<not> is_closed ch)"

datatype 'v chan_op =
    OpSend promise 'v
  | OpReceive promise
  | OpReceiveOk promise
  | OpTryReceive int
  | OpSelectReceive select_task bool
  | OpTrySend 'v int
  | OpSelectSend 'v select_task bool
  | OpClose
  | OpCleanupReceiver select_task
  | OpCleanupSender select_task

fun chan_after :: "'v chan_op \<Rightarrow> 'v chan \<Rightarrow> 'v chan" where
  "chan_after (OpSend p v) ch = fst (chan_send p v ch)"
| "chan_after (OpReceive p) ch = fst (chan_receive p ch)"
| "chan_after (OpReceiveOk p) ch = fst (chan_receive_ok p ch)"
| "chan_after (OpTryReceive i) ch = (case try_select_receive i ch of None \<Rightarrow> ch | Some r \<Rightarrow> fst r)"
| "chan_after (OpSelectReceive t a) ch = fst (chan_select_receive t a ch)"
| "chan_after (OpTrySend v i) ch =
     (case try_select_send v i ch of Inr (Some r) \<Rightarrow> fst r | _ \<Rightarrow> ch)"
| "chan_after (OpSelectSend v t a) ch = fst (chan_select_send v t a ch)"
| "chan_after OpClose ch = (case chan_close ch of Inr (ch', _) \<Rightarrow> ch' | Inl _ \<Rightarrow> ch)"
| "chan_after (OpCleanupReceiver t) ch = cleanup_receiver t ch"
| "chan_after (OpCleanupSender t) ch = cleanup_sender t ch"

lemmas chan_op_defs = chan_send_def chan_receive_def chan_receive_ok_def try_receive_def
  try_select_receive_def chan_select_receive_def try_select_send_def chan_select_send_def
  chan_close_def cleanup_receiver_def cleanup_sender_def shift_buffer_def

lemmas chan_splits = list.splits option.splits prod.splits if_splits sum.splits

lemma new_channel_inv: "new_channel c z = Inr ch \<Longrightarrow> chan_inv ch"
  by (auto simp: new_channel_def chan_inv_def split: if_splits)

lemma remove_first_neq_Nil: "remove_first P xs \<noteq> [] \<Longrightarrow> xs \<noteq> []"
  by (cases xs) auto

lemma chan_after_inv_step:
  assumes "chan_inv ch"
  shows "chan_inv (chan_after op ch)"
proof (cases op)
  case (OpCleanupReceiver t)
  with assms show ?thesis
    by (auto simp: chan_inv_def cleanup_receiver_def dest: remove_first_neq_Nil)
next
  case (OpCleanupSender t)
  with assms show ?thesis
    by (auto simp: chan_inv_def cleanup_sender_def dest: remove_first_neq_Nil)
qed (use assms in \<open>(cases "buffer ch"; cases "senders ch"; cases "receivers ch";
    cases "receivers_ok ch"),
  (auto simp: chan_inv_def chan_op_defs Let_def split_beta)[16]\<close>)+

text \<open>C3. In every state a channel can reach, by any sequence of operations (closing and the
  withdrawal of aborted select cases included), the buffer is within its capacity, a
  blocked sender implies a full buffer and no waiting receiver, a waiting receiver implies
  an empty buffer, and nobody waits on a closed channel.\<close>

theorem channel_invariant:
  assumes "new_channel c z = Inr ch"
  shows "chan_inv (fold chan_after ops ch)"
proof -
  have "chan_inv (fold chan_after ops ch)" if "chan_inv ch" for ch :: "'a chan"
    using that by (induction ops arbitrary: ch) (auto intro: chan_after_inv_step)
  with new_channel_inv [OF assms] show ?thesis by blast
qed

theorem channel_invariant_witness:
  "\<exists>ch. new_channel 0 (0 :: int) = Inr ch \<and>
     chan_inv (fold chan_after [OpReceive 0, OpSend 1 5, OpSend 2 6, OpClose] ch)"
proof -
  obtain ch :: "int chan" where n: "new_channel 0 0 = Inr ch" by (simp add: new_channel_def)
  with channel_invariant [OF n] show ?thesis by blast
qed

subsection \<open>Channel references with a direction\<close>

text \<open>The three \<open>ChannelRef\<close> classes wrap a channel and forward to it the methods their
  direction allows; the others throw, except that the two readiness tests answer false.\<close>

datatype direction = Both | SendOnly | ReceiveOnly

definition no_receive :: js_exn where
  "no_receive = ThrownError ''Cannot receive from send-only channel''"

definition no_send :: js_exn where
  "no_send = ThrownError ''Cannot send to receive-only channel''"

text \<open>\<open>makeChannel\<close>: without a direction (or with \<open>both\<close>) the bare channel, \<open>None\<close> here.\<close>

definition make_channel :: "int \<Rightarrow> 'v \<Rightarrow> direction \<Rightarrow> (direction option \<times> 'v chan) res" where
  "make_channel c z d = bindR (new_channel c z) (\<lambda>ch.
     Inr (if d = SendOnly then Some SendOnly else if d = ReceiveOnly then Some ReceiveOnly else None, ch))"

definition make_channel_ref :: "direction \<Rightarrow> 'v chan \<Rightarrow> direction \<times> 'v chan" where
  "make_channel_ref d ch = (case d of SendOnly \<Rightarrow> (SendOnly, ch) | ReceiveOnly \<Rightarrow> (ReceiveOnly, ch)
     | _ \<Rightarrow> (Both, ch))"

fun ref_send :: "direction \<Rightarrow> promise \<Rightarrow> 'v \<Rightarrow> 'v chan \<Rightarrow> ('v chan \<times> 'v job list \<times> 'v reply) res" where
  "ref_send ReceiveOnly p v ch = Inl no_send"
| "ref_send _ p v ch = Inr (chan_send p v ch)"

fun ref_receive :: "direction \<Rightarrow> promise \<Rightarrow> 'v chan \<Rightarrow> ('v chan \<times> 'v job list \<times> 'v reply) res" where
  "ref_receive SendOnly p ch = Inl no_receive"
| "ref_receive _ p ch = Inr (chan_receive p ch)"

fun ref_receive_ok :: "direction \<Rightarrow> promise \<Rightarrow> 'v chan \<Rightarrow> ('v chan \<times> 'v job list \<times> 'v reply) res" where
  "ref_receive_ok SendOnly p ch = Inl no_receive"
| "ref_receive_ok _ p ch = Inr (chan_receive_ok p ch)"

fun ref_close :: "direction \<Rightarrow> 'v chan \<Rightarrow> ('v chan \<times> 'v job list) res" where
  "ref_close ReceiveOnly ch = Inl (ThrownError ''Cannot close receive-only channel'')"
| "ref_close _ ch = chan_close ch"

fun ref_can_send :: "direction \<Rightarrow> 'v chan \<Rightarrow> bool" where
  "ref_can_send ReceiveOnly ch = False"
| "ref_can_send _ ch = can_send ch"

fun ref_can_receive :: "direction \<Rightarrow> 'v chan \<Rightarrow> bool" where
  "ref_can_receive SendOnly ch = False"
| "ref_can_receive _ ch = can_receive ch"

fun ref_select_send ::
  "direction \<Rightarrow> 'v \<Rightarrow> select_task \<Rightarrow> bool \<Rightarrow> 'v chan \<Rightarrow> ('v chan \<times> 'v job list \<times> 'v reply) res" where
  "ref_select_send ReceiveOnly v t a ch = Inl no_send"
| "ref_select_send _ v t a ch = Inr (chan_select_send v t a ch)"

fun ref_select_receive ::
  "direction \<Rightarrow> select_task \<Rightarrow> bool \<Rightarrow> 'v chan \<Rightarrow> ('v chan \<times> 'v job list \<times> 'v reply) res" where
  "ref_select_receive SendOnly t a ch = Inl no_receive"
| "ref_select_receive _ t a ch = Inr (chan_select_receive t a ch)"

fun ref_try_receive ::
  "direction \<Rightarrow> int \<Rightarrow> 'v chan \<Rightarrow> ('v chan \<times> 'v job list \<times> 'v outcome) option res" where
  "ref_try_receive SendOnly i ch = Inl no_receive"
| "ref_try_receive _ i ch = Inr (try_select_receive i ch)"

fun ref_try_send ::
  "direction \<Rightarrow> 'v \<Rightarrow> int \<Rightarrow> 'v chan \<Rightarrow> ('v chan \<times> 'v job list \<times> 'v outcome) option res" where
  "ref_try_send ReceiveOnly v i ch = Inl no_send"
| "ref_try_send _ v i ch = try_select_send v i ch"

subsection \<open>What a select statement needs of a channel\<close>

text \<open>A readiness test that answers true promises that the matching attempt does not return
  \<open>undefined\<close>: the attempt commits, or (sending on a closed channel) throws.\<close>

locale selectable =
  fixes can_recv :: "'c \<Rightarrow> bool"
    and try_recv :: "int \<Rightarrow> 'c \<Rightarrow> 'r option res"
    and can_snd :: "'c \<Rightarrow> bool"
    and try_snd :: "'v \<Rightarrow> int \<Rightarrow> 'c \<Rightarrow> 'r option res"
  assumes recv_ready: "can_recv c \<Longrightarrow> \<exists>r. try_recv i c = Inr (Some r)"
    and snd_ready: "can_snd c \<Longrightarrow> try_snd v i c \<noteq> Inr None"
begin

text \<open>An attempt made after the test never has to fall back to the blocking operation.\<close>

lemma ready_case_commits:
  "(is_send \<and> can_snd c) \<or> (\<not> is_send \<and> can_recv c) \<Longrightarrow>
   (if is_send then try_snd v i c else try_recv i c) \<noteq> Inr None"
  using recv_ready [of c i] snd_ready [of c v i] by (cases is_send) auto

end

lemma try_receive_ready: "try_receive ch = None \<longleftrightarrow> \<not> can_receive ch"
  by (cases "buffer ch"; cases "senders ch")
    (auto simp: try_receive_def shift_buffer_def can_receive_def)

lemma try_select_send_ready: "try_select_send v i ch = Inr None \<longleftrightarrow> \<not> can_send ch"
  by (cases "receivers ch"; cases "receivers_ok ch") (auto simp: try_select_send_def can_send_def)

interpretation channel_select: selectable
  can_receive "\<lambda>i ch. Inr (try_select_receive i ch)" can_send try_select_send
proof unfold_locales
  fix c :: "'b chan" and i
  assume "can_receive c"
  then show "\<exists>r. (Inr (try_select_receive i c) :: _ res) = Inr (Some r)"
    using try_receive_ready [of c] by (auto simp: try_select_receive_def split: option.splits)
next
  fix c :: "'b chan" and v i
  assume "can_send c"
  then show "try_select_send v i c \<noteq> Inr None" by (simp add: try_select_send_ready)
qed

interpretation ref_select: selectable
  "\<lambda>(d, ch). ref_can_receive d ch" "\<lambda>i (d, ch). ref_try_receive d i ch"
  "\<lambda>(d, ch). ref_can_send d ch" "\<lambda>v i (d, ch). ref_try_send d v i ch"
proof unfold_locales
  fix c :: "direction \<times> 'b chan" and i
  assume "case c of (d, ch) \<Rightarrow> ref_can_receive d ch"
  then show "\<exists>r. (case c of (d, ch) \<Rightarrow> ref_try_receive d i ch) = Inr (Some r)"
    using channel_select.recv_ready [of "snd c" i] by (cases c; cases "fst c") auto
next
  fix c :: "direction \<times> 'b chan" and v i
  assume "case c of (d, ch) \<Rightarrow> ref_can_send d ch"
  then show "(case c of (d, ch) \<Rightarrow> ref_try_send d v i ch) \<noteq> Inr None"
    using channel_select.snd_ready [of "snd c" v i] by (cases c; cases "fst c") auto
qed

subsection \<open>First in, first out\<close>

text \<open>The values inside a channel, oldest first: the buffer, then the values the blocked
  senders hold. \<open>accepts\<close> are the values an operation brings into the channel, \<open>takes\<close> those
  it commits to a receiver, read off its reply and the deliveries it queues.\<close>

definition contents :: "'v chan \<Rightarrow> 'v list" where
  "contents ch = buffer ch @ map fst (senders ch)"

fun job_values :: "'v job \<Rightarrow> 'v list" where
  "job_values (Deliver r v c) = [v]"
| "job_values (DeliverOk r v ok c) = [v]"
| "job_values _ = []"

fun reply_values :: "'v reply \<Rightarrow> 'v list" where
  "reply_values (Settle (Received v)) = [v]"
| "reply_values (Settle (ReceivedOk v ok)) = (if ok then [v] else [])"
| "reply_values (Settle (SelectedReceive v ok i)) = (if ok then [v] else [])"
| "reply_values _ = []"

definition moved :: "'v chan \<times> 'v job list \<times> 'v reply \<Rightarrow> 'v list" where
  "moved r = (case r of (ch, js, rep) \<Rightarrow> concat (map job_values js) @ reply_values rep)"

fun takes :: "'v chan_op \<Rightarrow> 'v chan \<Rightarrow> 'v list" where
  "takes (OpSend p v) ch = moved (chan_send p v ch)"
| "takes (OpReceive p) ch =
     (if is_closed ch \<and> buffer ch = [] then [] else moved (chan_receive p ch))"
| "takes (OpReceiveOk p) ch = moved (chan_receive_ok p ch)"
| "takes (OpTryReceive i) ch =
     (case try_select_receive i ch of None \<Rightarrow> [] | Some (ch', js, out) \<Rightarrow> moved (ch', js, Settle out))"
| "takes (OpSelectReceive t a) ch = moved (chan_select_receive t a ch)"
| "takes (OpTrySend v i) ch =
     (case try_select_send v i ch of Inr (Some (ch', js, out)) \<Rightarrow> moved (ch', js, Settle out) | _ \<Rightarrow> [])"
| "takes (OpSelectSend v t a) ch = moved (chan_select_send v t a ch)"
| "takes _ ch = []"

fun accepts :: "'v chan_op \<Rightarrow> 'v chan \<Rightarrow> 'v list" where
  "accepts (OpSend p v) ch = (if is_closed ch then [] else [v])"
| "accepts (OpTrySend v i) ch = (if \<not> is_closed ch \<and> can_send ch then [v] else [])"
| "accepts (OpSelectSend v t a) ch = (if \<not> is_closed ch \<and> (can_send ch \<or> \<not> a) then [v] else [])"
| "accepts _ ch = []"

text \<open>A history of operations: the channel afterwards, all accepted and all taken values.\<close>

fun run_ops :: "'v chan_op list \<Rightarrow> 'v chan \<Rightarrow> 'v chan \<times> 'v list \<times> 'v list" where
  "run_ops [] ch = (ch, [], [])"
| "run_ops (op # ops) ch =
     (case run_ops ops (chan_after op ch) of
        (ch', acc, tak) \<Rightarrow> (ch', accepts op ch @ acc, takes op ch @ tak))"

definition withdraws :: "'v chan_op \<Rightarrow> bool" where
  "withdraws op = (case op of OpCleanupSender t \<Rightarrow> True | _ \<Rightarrow> False)"

text \<open>The values of the select sends that a history withdraws: each is that of the first waiting
  sender with the task, if it still waits.\<close>

definition withdrawn_by :: "'v chan_op \<Rightarrow> 'v chan \<Rightarrow> 'v list" where
  "withdrawn_by op ch = (case op of
     OpCleanupSender t \<Rightarrow> (case List.find (\<lambda>(v, u). u = SendSelect t) (senders ch) of None \<Rightarrow> [] | Some (v, u) \<Rightarrow> [v])
   | _ \<Rightarrow> [])"

fun withdrawn :: "'v chan_op list \<Rightarrow> 'v chan \<Rightarrow> 'v list" where
  "withdrawn [] ch = []"
| "withdrawn (op # ops) ch = withdrawn_by op ch @ withdrawn ops (chan_after op ch)"

lemma fifo_step_open:
  assumes "chan_inv ch" "\<not> withdraws op" "op \<noteq> OpClose" "\<not> is_closed ch"
  shows "contents ch @ accepts op ch = takes op ch @ contents (chan_after op ch)"
  by (cases op; cases "buffer ch"; cases "senders ch"; cases "receivers ch"; cases "receivers_ok ch")
    (use assms in \<open>auto simp: chan_inv_def chan_op_defs contents_def moved_def withdraws_def can_send_def
      Let_def split_beta\<close>)

lemma closed_stays: "is_closed ch \<Longrightarrow> is_closed (chan_after op ch)"
  by (cases op; cases "buffer ch"; cases "senders ch"; cases "receivers ch"; cases "receivers_ok ch")
    (auto simp: chan_op_defs Let_def split_beta)

lemma fifo_step_closed:
  assumes "chan_inv ch" "is_closed ch"
  shows "accepts op ch = []" "contents ch = takes op ch @ contents (chan_after op ch)"
proof -
  have q: "senders ch = []" "receivers ch = []" "receivers_ok ch = []"
    using assms by (auto simp: chan_inv_def)
  show "accepts op ch = []" using assms by (cases op) auto
  show "contents ch = takes op ch @ contents (chan_after op ch)"
    by (cases op; cases "buffer ch")
      (use assms q in \<open>auto simp: chan_op_defs contents_def moved_def Let_def split_beta\<close>)
qed

lemma run_ops_closed:
  assumes "chan_inv ch" "is_closed ch" "run_ops ops ch = (ch', acc, tak)"
  shows "acc = [] \<and> is_closed ch'"
  using assms
proof (induction ops arbitrary: ch acc tak)
  case (Cons op ops)
  obtain acc1 tak1 where r: "run_ops ops (chan_after op ch) = (ch', acc1, tak1)"
    and "acc = accepts op ch @ acc1"
    using Cons.prems(3) by (auto split: prod.splits)
  moreover have "acc1 = [] \<and> is_closed ch'"
    using Cons.IH [OF chan_after_inv_step [OF Cons.prems(1)] closed_stays [OF Cons.prems(2)] r] .
  ultimately show ?case using fifo_step_closed(1) [OF Cons.prems(1,2)] by simp
qed simp

lemma find_remove_first:
  "subseq (map f (remove_first P xs)) (map f xs) \<and>
   mset (map f xs) = mset (map f (remove_first P xs)) + mset (case List.find P xs of None \<Rightarrow> [] | Some x \<Rightarrow> [f x])"
  by (induction xs) auto

lemma withdraw_step:
  assumes "withdraws op"
  shows "subseq (contents (chan_after op ch)) (contents ch)" "accepts op ch = []" "takes op ch = []"
    "mset (contents ch) = mset (contents (chan_after op ch)) + mset (withdrawn_by op ch)"
proof -
  obtain t where op: "op = OpCleanupSender t" using assms by (cases op) (simp_all add: withdraws_def)
  have f: "(case List.find P xs of None \<Rightarrow> [] | Some x \<Rightarrow> [fst x]) = (case List.find P xs of None \<Rightarrow> [] | Some (v, u) \<Rightarrow> [v])"
    for P and xs :: "('a \<times> send_task) list" by (simp split: option.split prod.split)
  note r = find_remove_first [of fst "\<lambda>(v, u). u = SendSelect t" "senders ch", unfolded f]
  show "subseq (contents (chan_after op ch)) (contents ch)"
    using r by (auto simp: op contents_def cleanup_sender_def intro: list_emb_append_mono)
  show "accepts op ch = []" "takes op ch = []" by (simp_all add: op)
  show "mset (contents ch) = mset (contents (chan_after op ch)) + mset (withdrawn_by op ch)"
    using r by (simp add: op contents_def cleanup_sender_def withdrawn_by_def)
qed

lemma run_ops_fifo:
  assumes "chan_inv ch" "run_ops ops ch = (ch', acc, tak)"
  shows "\<exists>d. subseq (tak @ contents ch' @ d) (contents ch @ acc) \<and>
    mset (contents ch @ acc) = mset (tak @ contents ch' @ d @ withdrawn ops ch) \<and> (\<not> is_closed ch' \<longrightarrow> d = [])"
  using assms
proof (induction ops arbitrary: ch acc tak)
  case (Cons op ops)
  let ?c = "chan_after op ch"
  have inv: "chan_inv ?c" by (rule chan_after_inv_step [OF Cons.prems(1)])
  obtain acc1 tak1 where r: "run_ops ops ?c = (ch', acc1, tak1)"
    and acc: "acc = accepts op ch @ acc1" and tak: "tak = takes op ch @ tak1"
    using Cons.prems(2) by (auto split: prod.splits)
  from Cons.IH [OF inv r] obtain d
    where d: "subseq (tak1 @ contents ch' @ d) (contents ?c @ acc1)"
      "mset (contents ?c @ acc1) = mset (tak1 @ contents ch' @ d @ withdrawn ops ?c)" "\<not> is_closed ch' \<longrightarrow> d = []" by auto
  show ?case
  proof (cases "withdraws op")
    case True
    note w = withdraw_step [OF True, of ch]
    have "subseq (contents ?c @ acc1) (contents ch @ acc1)" using w(1) by (rule list_emb_append_mono) simp
    then have "subseq (tak @ contents ch' @ d) (contents ch @ acc)"
      using d(1) w(2,3) by (simp add: acc tak subseq_order.order_trans)
    then show ?thesis using d(2,3) w by (intro exI [of _ d]) (simp add: acc tak)
  next
    case False
    then have none: "withdrawn (op # ops) ch = withdrawn ops ?c" by (cases op) (simp_all add: withdrawn_by_def withdraws_def)
    show ?thesis
    proof (cases "is_closed ch \<or> op \<noteq> OpClose")
      case True
      then have "contents ch @ accepts op ch = takes op ch @ contents ?c"
        using fifo_step_closed [OF Cons.prems(1)] fifo_step_open [OF Cons.prems(1) False]
        by (cases "is_closed ch") auto
      then have e: "contents ch @ acc = takes op ch @ contents ?c @ acc1" unfolding acc by (metis append.assoc)
      show ?thesis unfolding e tak none using d by (intro exI [of _ d]) (simp add: list_emb_append_mono)
    next
      case False
      then have c: "is_closed ?c" "contents ch = contents ?c @ map fst (senders ch)"
        "accepts op ch = []" "takes op ch = []"
        by (auto simp: chan_close_def contents_def)
      from run_ops_closed [OF inv c(1) r] have e: "acc1 = []" "is_closed ch'" by auto
      have "subseq ((tak1 @ contents ch' @ d) @ map fst (senders ch)) (contents ?c @ map fst (senders ch))"
        using d(1) by (intro list_emb_append_mono) (simp_all add: e)
      then show ?thesis
        using d(2) e unfolding none by (intro exI [of _ "d @ map fst (senders ch)"]) (simp add: acc tak c)
    qed
  qed
qed auto

lemma subseq_same_mset: "subseq xs ys \<Longrightarrow> mset ys = mset xs \<Longrightarrow> ys = xs"
  by (metis mset_eq_length subseq_same_length)

text \<open>C4. A channel is a first-in first-out queue: over any history of sends, receives, select
  attempts, closes and withdrawals of waiting select cases, starting from a new channel, the values
  handed to receivers are among those senders got accepted, in the order of acceptance. While the
  channel is open what was received followed by what the channel still holds is in that order too,
  and together with the values of the withdrawn select sends it is all that was accepted: nothing
  else is lost or made up. If no select send was withdrawn, the received values are exactly the
  first accepted ones, and what an open channel holds are the rest.\<close>

theorem channel_fifo:
  assumes "new_channel c z = Inr ch" "run_ops ops ch = (ch', acc, tak)"
  shows "subseq tak acc \<and>
    (\<not> is_closed ch' \<longrightarrow> subseq (tak @ contents ch') acc \<and> mset acc = mset (tak @ contents ch' @ withdrawn ops ch)) \<and>
    (withdrawn ops ch = [] \<longrightarrow> prefix tak acc \<and> (\<not> is_closed ch' \<longrightarrow> acc = tak @ contents ch'))"
proof -
  have "contents ch = []" using assms(1) by (auto simp: new_channel_def contents_def split: if_splits)
  with run_ops_fifo [OF new_channel_inv [OF assms(1)] assms(2)] obtain d
    where d: "subseq (tak @ contents ch' @ d) acc" "mset acc = mset (tak @ contents ch' @ d @ withdrawn ops ch)"
      "\<not> is_closed ch' \<longrightarrow> d = []" by auto
  have "acc = tak @ contents ch' @ d" if "withdrawn ops ch = []"
    using subseq_same_mset [OF d(1)] d(2) that by simp
  moreover have "subseq tak acc" using d(1) by (metis list_emb_prefix subseq_order.order_refl subseq_order.trans)
  ultimately show ?thesis using d by auto
qed

theorem channel_fifo_witness:
  "\<exists>ch ch'. new_channel 1 (0 :: int) = Inr ch \<and>
     run_ops [OpSend 0 10, OpSend 1 20, OpReceiveOk 2, OpTryReceive 5, OpReceive 3, OpSend 4 30] ch
       = (ch', [10, 20, 30], [10, 20, 30]) \<and> prefix [10, 20, 30] [10, 20, 30 :: int]"
proof -
  define ch :: "int chan" where "ch = \<lparr>buffer = [], is_closed = False, capacity = 1, zero_value = 0,
    senders = [], receivers = [], receivers_ok = []\<rparr>"
  have n: "new_channel 1 0 = Inr ch" by (simp add: new_channel_def ch_def)
  let ?ops = "[OpSend 0 10, OpSend 1 20, OpReceiveOk 2, OpTryReceive 5, OpReceive 3, OpSend 4 30]"
  have r: "run_ops ?ops ch = (ch, [10, 20, 30], [10, 20, 30])"
    by (simp add: chan_op_defs ch_def moved_def)
  have "prefix [10, 20, 30] [10, 20, 30 :: int]"
    using channel_fifo [OF n r] by (simp add: withdrawn_by_def)
  with n r show ?thesis by blast
qed

text \<open>A closed channel: what is buffered is still received, then every receive yields the
  zero value with a false ok flag and leaves the channel alone; sends are rejected and a
  second close throws.\<close>

theorem closed_channel_semantics:
  assumes "chan_inv ch" "is_closed ch"
  shows
    "chan_receive_ok p ch =
       (case buffer ch of
          v # vs \<Rightarrow> (ch\<lparr>buffer := vs\<rparr>, [], Settle (ReceivedOk v True))
        | [] \<Rightarrow> (ch, [], Settle (ReceivedOk (zero_value ch) False))) \<and>
     chan_receive p ch =
       (case buffer ch of
          v # vs \<Rightarrow> (ch\<lparr>buffer := vs\<rparr>, [], Settle (Received v))
        | [] \<Rightarrow> (ch, [], Settle (Received (zero_value ch)))) \<and>
     chan_send p v ch = (ch, [], Settle (Rejected send_closed)) \<and>
     try_select_send v i ch = Inl (ThrownError send_closed) \<and>
     chan_close ch = Inl (ThrownError ''close of closed channel'')"
proof -
  have "senders ch = []" using assms by (auto simp: chan_inv_def)
  with assms show ?thesis by (cases "buffer ch") (auto simp: chan_op_defs)
qed

theorem closed_channel_semantics_witness:
  "\<exists>ch. chan_inv ch \<and> is_closed ch \<and>
     chan_receive_ok 0 ch = (ch\<lparr>buffer := []\<rparr>, [], Settle (ReceivedOk (7 :: int) True)) \<and>
     chan_send 1 3 ch = (ch, [], Settle (Rejected send_closed))"
proof -
  define ch :: "int chan" where "ch = \<lparr>buffer = [7], is_closed = True, capacity = 2, zero_value = 0,
    senders = [], receivers = [], receivers_ok = []\<rparr>"
  have h: "chan_inv ch" "is_closed ch" by (simp_all add: ch_def chan_inv_def)
  have "buffer ch = [7]" by (simp add: ch_def)
  with h closed_channel_semantics [OF h, of 0] closed_channel_semantics [OF h, of 1 3]
  show ?thesis by (intro exI [of _ ch]) simp
qed

end
