(* ===== verification/GsEventLoop.thy ===== *)
theory GsEventLoop
  imports GsChannel
begin

section \<open>The event loop (gs/builtin/channel.ts)\<close>

text \<open>
  The JavaScript engine runs one job at a time; a job queued with \<open>queueMicrotask\<close> runs
  before any timer. The state of the loop is a record: the channels, the log of settled
  promises (a promise settles at most once, the first entry counts), the \<open>done\<close> flags of
  the select tasks, the abort listeners, the aborted signals and the two job queues.
  \<open>exec_job\<close> is the body of each callback the channel methods queue, \<open>drain\<close> runs the
  microtasks until none is left. The extra ticks by which an
  \<open>async\<close> method's own promise lags behind the promise it returns are not represented.
\<close>

record 'v loop =
  chans :: "nat \<Rightarrow> 'v chan"
  settled :: "(promise \<times> 'v outcome) list"
  done_tasks :: "promise list"
  listeners :: "(bool \<times> select_task) list"
  aborted :: "nat list"
  micro :: "'v job list"
  timers :: "'v job list"
  fresh :: nat

definition put_chan :: "nat \<Rightarrow> 'v chan \<Rightarrow> 'v loop \<Rightarrow> 'v loop" where
  "put_chan c ch w = w\<lparr>chans := (chans w)(c := ch)\<rparr>"

definition settle :: "promise \<Rightarrow> 'v outcome \<Rightarrow> 'v loop \<Rightarrow> 'v loop" where
  "settle p out w =
     (case map_of (settled w) p of
        None \<Rightarrow> w\<lparr>settled := settled w @ [(p, out)]\<rparr>
      | Some _ \<Rightarrow> w)"

subsection \<open>The closures of the select tasks\<close>

text \<open>\<open>cleanup\<close>: drop the abort listener and leave the wait queue.\<close>

definition task_cleanup :: "bool \<Rightarrow> select_task \<Rightarrow> 'v loop \<Rightarrow> 'v loop" where
  "task_cleanup is_send t w =
     (let c = sel_chan t; ch = chans w c in
      put_chan c (if is_send then cleanup_sender t ch else cleanup_receiver t ch)
        (w\<lparr>listeners := remove_first (\<lambda>l. l = (is_send, t)) (listeners w)\<rparr>))"

text \<open>\<open>resolveReceive\<close>, \<open>resolveSend\<close> and \<open>rejectSend\<close> of a select task act once.\<close>

definition task_finish :: "bool \<Rightarrow> select_task \<Rightarrow> 'v outcome \<Rightarrow> 'v loop \<Rightarrow> 'v loop" where
  "task_finish is_send t out w =
     (if sel_promise t \<in> set (done_tasks w) then w
      else settle (sel_promise t) out
             (task_cleanup is_send t (w\<lparr>done_tasks := sel_promise t # done_tasks w\<rparr>)))"

text \<open>\<open>onAbort\<close>: a task that has not finished is withdrawn without settling its promise.\<close>

definition task_abort :: "bool \<times> select_task \<Rightarrow> 'v loop \<Rightarrow> 'v loop" where
  "task_abort l w =
     (if sel_promise (snd l) \<in> set (done_tasks w) then w
      else task_cleanup (fst l) (snd l) (w\<lparr>done_tasks := sel_promise (snd l) # done_tasks w\<rparr>))"

definition abort_signal :: "nat \<Rightarrow> 'v loop \<Rightarrow> 'v loop" where
  "abort_signal s w =
     fold task_abort (filter (\<lambda>l. sel_signal (snd l) = Some s) (listeners w))
       (w\<lparr>aborted := s # aborted w\<rparr>)"

subsection \<open>Running the queued jobs\<close>

fun resolve_ok :: "ok_task \<Rightarrow> 'v \<Rightarrow> bool \<Rightarrow> 'v loop \<Rightarrow> 'v loop" where
  "resolve_ok (OkTask p) v ok w = settle p (ReceivedOk v ok) w"
| "resolve_ok (OkSelect t) v ok w = task_finish False t (SelectedReceive v ok (sel_id t)) w"

fun resolve_send :: "send_task \<Rightarrow> 'v loop \<Rightarrow> 'v loop" where
  "resolve_send (SendTask p) w = settle p Sent w"
| "resolve_send (SendSelect t) w = task_finish True t (SelectedSend (sel_id t)) w"

fun reject_send :: "send_task \<Rightarrow> string \<Rightarrow> 'v loop \<Rightarrow> 'v loop" where
  "reject_send (SendTask p) e w = settle p (Rejected e) w"
| "reject_send (SendSelect t) e w = task_finish True t (Rejected e) w"

fun complete :: "completion \<Rightarrow> 'v loop \<Rightarrow> 'v loop" where
  "complete (CompleteSend p) w = settle p Sent w"
| "complete (CompleteSelect p i) w = settle p (SelectedSend i) w"
| "complete CompleteNone w = w"

definition queue_micro :: "'v job list \<Rightarrow> 'v loop \<Rightarrow> 'v loop" where
  "queue_micro js w = w\<lparr>micro := micro w @ js\<rparr>"

fun exec_job :: "'v job \<Rightarrow> 'v loop \<Rightarrow> 'v loop" where
  "exec_job (Deliver (RecvTask r) v c) w = queue_micro [Complete c] (settle r (Received v) w)"
| "exec_job (DeliverOk t v ok c) w = queue_micro [Complete c] (resolve_ok t v ok w)"
| "exec_job (Complete c) w = complete c w"
| "exec_job (ResolveSend t) w = resolve_send t w"
| "exec_job (RejectSend t e) w = reject_send t e w"
| "exec_job (WakeReceive (RecvTask r) v) w = settle r (Received v) w"
| "exec_job (WakeOk t v ok) w = resolve_ok t v ok w"

fun job_weight :: "'v job \<Rightarrow> nat" where
  "job_weight (Deliver r v c) = 2"
| "job_weight (DeliverOk t v ok c) = 2"
| "job_weight _ = 1"

lemma settle_frame [simp]:
  "micro (settle p out w) = micro w" "timers (settle p out w) = timers w"
  "chans (settle p out w) = chans w" "listeners (settle p out w) = listeners w"
  "done_tasks (settle p out w) = done_tasks w" "aborted (settle p out w) = aborted w"
  by (simp_all add: settle_def split: option.splits)

lemma task_cleanup_frame [simp]:
  "micro (task_cleanup b t w) = micro w" "timers (task_cleanup b t w) = timers w"
  "settled (task_cleanup b t w) = settled w" "done_tasks (task_cleanup b t w) = done_tasks w"
  by (simp_all add: task_cleanup_def put_chan_def Let_def)

lemma task_finish_frame [simp]:
  "micro (task_finish b t out w) = micro w" "timers (task_finish b t out w) = timers w"
  by (simp_all add: task_finish_def)

lemma resolve_ok_frame [simp]:
  "micro (resolve_ok t v ok w) = micro w" "timers (resolve_ok t v ok w) = timers w"
  by (cases t; simp)+

lemma complete_frame [simp]: "micro (complete c w) = micro w" "timers (complete c w) = timers w"
  by (cases c; simp)+

lemma resolve_send_frame [simp]:
  "micro (resolve_send t w) = micro w" "timers (resolve_send t w) = timers w"
  by (cases t; simp)+

lemma reject_send_frame [simp]:
  "micro (reject_send t e w) = micro w" "timers (reject_send t e w) = timers w"
  by (cases t; simp)+

lemma exec_job_weight:
  "sum_list (map job_weight (micro (exec_job j w))) < job_weight j + sum_list (map job_weight (micro w))"
proof (cases j)
  case (Deliver r v c)
  then show ?thesis by (cases r) (simp add: queue_micro_def)
next
  case (WakeReceive r v)
  then show ?thesis by (cases r) simp
qed (simp_all add: queue_micro_def)

text \<open>Microtasks run to exhaustion: a delivery queues one completion, nothing else queues.\<close>

function drain :: "'v loop \<Rightarrow> 'v loop" where
  "drain w = (case micro w of [] \<Rightarrow> w | j # js \<Rightarrow> drain (exec_job j (w\<lparr>micro := js\<rparr>)))"
  by pat_completeness auto
termination
proof (relation "measure (\<lambda>w. sum_list (map job_weight (micro w)))")
  fix w :: "'v loop" and j js
  assume "micro w = j # js"
  then show "(exec_job j (w\<lparr>micro := js\<rparr>), w) \<in> measure (\<lambda>w. sum_list (map job_weight (micro w)))"
    using exec_job_weight [of j "w\<lparr>micro := js\<rparr>"] by simp
qed simp

declare drain.simps [simp del]

lemma drain_Nil [simp]: "micro w = [] \<Longrightarrow> drain w = w"
  by (simp add: drain.simps)

lemma drain_Cons: "micro w = j # js \<Longrightarrow> drain w = drain (exec_job j (w\<lparr>micro := js\<rparr>))"
  by (subst drain.simps) simp

text \<open>One timer fires when no microtask is left, followed by the microtasks it queued.\<close>

definition run_timer :: "'v loop \<Rightarrow> 'v loop" where
  "run_timer w =
     (case timers w of [] \<Rightarrow> w | j # js \<Rightarrow> drain (exec_job j (w\<lparr>timers := js\<rparr>)))"

subsection \<open>Channel calls made by the program\<close>

text \<open>The effect of a channel method on the loop: the channel is replaced, its jobs are
  queued, and the promise \<open>p\<close> is settled unless the reply is \<open>Pending\<close>.\<close>

definition commit ::
  "promise \<Rightarrow> nat \<Rightarrow> 'v chan \<times> 'v job list \<times> 'v reply \<Rightarrow> 'v loop \<Rightarrow> 'v loop" where
  "commit p c r w =
     (case r of (ch, js, rep) \<Rightarrow>
        (let w1 = queue_micro js (put_chan c ch w) in
         case rep of Settle out \<Rightarrow> settle p out w1 | Pending \<Rightarrow> w1))"

text \<open>\<open>chanSend\<close>, \<open>chanRecv\<close> and \<open>chanRecvWithOk\<close> on a channel or on \<open>null\<close>, whose promise
  never settles; each call returns a new promise.\<close>

definition new_promise :: "'v loop \<Rightarrow> promise \<times> 'v loop" where
  "new_promise w = (fresh w, w\<lparr>fresh := Suc (fresh w)\<rparr>)"

definition chanSend :: "nat option \<Rightarrow> 'v \<Rightarrow> 'v loop \<Rightarrow> promise \<times> 'v loop" where
  "chanSend channel v w =
     (let (p, w1) = new_promise w in
      case channel of None \<Rightarrow> (p, w1)
      | Some c \<Rightarrow> (p, commit p c (chan_send p v (chans w1 c)) w1))"

definition chanRecv :: "nat option \<Rightarrow> 'v loop \<Rightarrow> promise \<times> 'v loop" where
  "chanRecv channel w =
     (let (p, w1) = new_promise w in
      case channel of None \<Rightarrow> (p, w1)
      | Some c \<Rightarrow> (p, commit p c (chan_receive p (chans w1 c)) w1))"

definition chanRecvWithOk :: "nat option \<Rightarrow> 'v loop \<Rightarrow> promise \<times> 'v loop" where
  "chanRecvWithOk channel w =
     (let (p, w1) = new_promise w in
      case channel of None \<Rightarrow> (p, w1)
      | Some c \<Rightarrow> (p, commit p c (chan_receive_ok p (chans w1 c)) w1))"

definition close_channel :: "nat \<Rightarrow> 'v loop \<Rightarrow> 'v loop res" where
  "close_channel c w =
     bindR (chan_close (chans w c)) (\<lambda>(ch, js).
       Inr ((put_chan c ch w)\<lparr>timers := timers w @ js\<rparr>))"

subsection \<open>Rendezvous\<close>

text \<open>A send that meets a blocked receiver: once the microtasks have run, the receiver's
  promise has settled with the value, then the sender's, in that order; the channel holds
  neither the value nor the receiver, and no job is left over.\<close>

theorem rendezvous_order:
  assumes "micro w = []" "\<not> is_closed (chans w c)" "receivers (chans w c) = RecvTask r # rs"
    and "map_of (settled w) r = None" "map_of (settled w) (fresh w) = None" "r \<noteq> fresh w"
  shows "drain (snd (chanSend (Some c) v w)) =
     w\<lparr>chans := (chans w)(c := (chans w c)\<lparr>receivers := rs\<rparr>),
       settled := settled w @ [(r, Received v), (fresh w, Sent)],
       fresh := Suc (fresh w)\<rparr>"
proof -
  let ?ch = "(chans w c)\<lparr>receivers := rs\<rparr>"
  have "snd (chanSend (Some c) v w) =
      w\<lparr>chans := (chans w)(c := ?ch), micro := [Deliver (RecvTask r) v (CompleteSend (fresh w))],
        fresh := Suc (fresh w)\<rparr>"
    using assms by (simp add: chanSend_def new_promise_def commit_def chan_send_def queue_micro_def put_chan_def)
  with assms show ?thesis
    by (simp add: drain_Cons queue_micro_def settle_def map_add_def)
qed

text \<open>C5. A receive that finds a blocked sender takes its value and lets it go: on an
  unbuffered channel the value goes straight to the receiver; on a full buffered channel
  the oldest buffered value does and the sender's value takes the free place.\<close>

theorem blocked_sender_released:
  assumes "micro w = []" "senders (chans w c) = (x, SendTask q) # ss" "\<not> is_closed (chans w c)"
    and "map_of (settled w) q = None" "map_of (settled w) (fresh w) = None" "q \<noteq> fresh w"
  shows "drain (snd (chanRecvWithOk (Some c) w)) =
     (let ch = chans w c;
          got = (case buffer ch of [] \<Rightarrow> x | v # vs \<Rightarrow> v);
          rest = (case buffer ch of [] \<Rightarrow> [] | v # vs \<Rightarrow> vs @ [x])
      in w\<lparr>chans := (chans w)(c := ch\<lparr>buffer := rest, senders := ss\<rparr>),
           settled := settled w @ [(fresh w, ReceivedOk got True), (q, Sent)],
           fresh := Suc (fresh w)\<rparr>)"
proof -
  have e: "ch\<lparr>buffer := [], senders := ss\<rparr> = ch\<lparr>senders := ss\<rparr>" if "buffer ch = []" for ch :: "'a chan"
    using that by (cases ch) simp
  show ?thesis
    using assms
    by (cases "buffer (chans w c)")
      (simp_all add: chanRecvWithOk_def new_promise_def commit_def chan_receive_ok_def try_receive_def
        shift_buffer_def queue_micro_def put_chan_def settle_def drain_Cons map_add_def e)
qed

text \<open>A loop whose channel 0 is unbuffered and waits in the given queues.\<close>

definition one_channel :: "int chan \<Rightarrow> int loop" where
  "one_channel ch = \<lparr>chans = (\<lambda>_. ch), settled = [], done_tasks = [], listeners = [], aborted = [],
     micro = [], timers = [], fresh = 10\<rparr>"

lemma one_channel_simps [simp]:
  "chans (one_channel ch) c = ch" "settled (one_channel ch) = []" "micro (one_channel ch) = []"
  "fresh (one_channel ch) = 10"
  by (simp_all add: one_channel_def)

theorem rendezvous_order_witness:
  "\<exists>w :: int loop. settled (drain (snd (chanSend (Some 0) 5 w))) = [(3, Received 5), (10, Sent)]"
proof -
  let ?ch = "\<lparr>buffer = [], is_closed = False, capacity = 0, zero_value = 0, senders = [],
    receivers = [RecvTask 3], receivers_ok = []\<rparr> :: int chan"
  show ?thesis
    by (rule exI [of _ "one_channel ?ch"], subst rendezvous_order [where r = 3 and rs = "[]"]) simp_all
qed

theorem blocked_sender_released_witness:
  "\<exists>w :: int loop. settled (drain (snd (chanRecvWithOk (Some 0) w))) =
     [(10, ReceivedOk 8 True), (4, Sent)]"
proof -
  let ?ch = "\<lparr>buffer = [8], is_closed = False, capacity = 1, zero_value = 0, senders = [(9, SendTask 4)],
    receivers = [], receivers_ok = []\<rparr> :: int chan"
  show ?thesis
    by (rule exI [of _ "one_channel ?ch"],
        subst blocked_sender_released [where x = 9 and q = 4 and ss = "[]"]) (simp_all add: Let_def)
qed

end
