(* ===== verification/GsSelect.thy ===== *)
theory GsSelect
  imports GsEventLoop
begin

section \<open>The select statement (gs/builtin/channel.ts)\<close>

text \<open>
  \<open>select_start\<close> and \<open>select_resume\<close> are the two halves of \<open>selectStatement\<close>, before and
  after its \<open>await Promise.race\<close>. The reachable states of the event loop are those of the
  step relation \<open>loop_step\<close>: any channel call, any microtask or timer, any select statement
  started or resumed.
\<close>

subsection \<open>selectStatement\<close>

text \<open>A case carries its id (-1 for default), its direction, its channel (\<open>None\<close> for a nil
  channel), the value of a send case, and whether it has an \<open>onSelected\<close> handler.\<close>

record 'v select_case =
  case_id :: int
  case_send :: bool
  case_chan :: "nat option"
  case_item :: "'v option"
  case_handler :: bool

definition case_ready :: "'v loop \<Rightarrow> 'v select_case \<Rightarrow> bool" where
  "case_ready w k =
     (case_id k \<noteq> -1 \<and>
      (case case_chan k of None \<Rightarrow> False
       | Some c \<Rightarrow> if case_send k then can_send (chans w c) else can_receive (chans w c)))"

definition ready_cases :: "'v loop \<Rightarrow> 'v select_case list \<Rightarrow> 'v select_case list" where
  "ready_cases w cases = filter (case_ready w) cases"

text \<open>How the first half of the statement ends: it never returns; a case was chosen and its
  handler (if any) runs on the result; the default case was chosen; an operation threw; a
  chosen case fell back to the blocking call of the promise; or it waits for the first of
  the promises with the signal.\<close>

datatype 'v select_step =
    SelForever
  | SelChosen "'v select_case" "'v outcome"
  | SelDefault "'v select_case option"
  | SelThrow js_exn
  | SelAwait "'v select_case" promise
  | SelRace "promise list" nat

text \<open>The value an optional \<open>value\<close> field stands for: \<open>undefined\<close> is the parameter \<open>u\<close>.\<close>

definition item_of :: "'v \<Rightarrow> 'v select_case \<Rightarrow> 'v" where
  "item_of u k = (case case_item k of Some v \<Rightarrow> v | None \<Rightarrow> u)"

definition take_case :: "'v \<Rightarrow> 'v select_case \<Rightarrow> nat \<Rightarrow> 'v loop \<Rightarrow> 'v select_step \<times> 'v loop" where
  "take_case u k c w =
     (let (p, w1) = new_promise w; t = \<lparr>sel_promise = p, sel_id = case_id k, sel_chan = c, sel_signal = None\<rparr>
      in if case_send k then
           (case try_select_send (item_of u k) (case_id k) (chans w c) of
              Inl e \<Rightarrow> (SelThrow e, w)
            | Inr (Some (ch, js, out)) \<Rightarrow> (SelChosen k out, queue_micro js (put_chan c ch w))
            | Inr None \<Rightarrow>
                (SelAwait k p, commit p c (chan_select_send (item_of u k) t False (chans w1 c)) w1))
         else
           (case try_select_receive (case_id k) (chans w c) of
              Some (ch, js, out) \<Rightarrow> (SelChosen k out, queue_micro js (put_chan c ch w))
            | None \<Rightarrow>
                (SelAwait k p, commit p c (chan_select_receive t False (chans w1 c)) w1)))"

text \<open>One blocking case: call \<open>selectSend\<close> or \<open>selectReceive\<close> with the shared signal; a call
  that queued a task has also registered its abort listener.\<close>

definition block_case :: "'v \<Rightarrow> nat \<Rightarrow> 'v select_case \<Rightarrow> nat \<Rightarrow> 'v loop \<Rightarrow> promise \<times> 'v loop" where
  "block_case u s k c w =
     (let (p, w1) = new_promise w;
          t = \<lparr>sel_promise = p, sel_id = case_id k, sel_chan = c, sel_signal = Some s\<rparr>;
          stop = (s \<in> set (aborted w));
          r = (if case_send k then chan_select_send (item_of u k) t stop (chans w1 c)
               else chan_select_receive t stop (chans w1 c));
          queued = (if case_send k then SendSelect t \<in> snd ` set (senders (fst r))
                    else OkSelect t \<in> set (receivers_ok (fst r)));
          w2 = commit p c r w1
      in (p, if queued then w2\<lparr>listeners := listeners w2 @ [(case_send k, t)]\<rparr> else w2))"

fun block_cases :: "'v \<Rightarrow> nat \<Rightarrow> 'v select_case list \<Rightarrow> 'v loop \<Rightarrow> promise list \<times> 'v loop" where
  "block_cases u s [] w = ([], w)"
| "block_cases u s (k # ks) w =
     (case case_chan k of
        None \<Rightarrow> block_cases u s ks w
      | Some c \<Rightarrow>
          if case_id k = -1 then block_cases u s ks w
          else let (p, w1) = block_case u s k c w; (ps, w2) = block_cases u s ks w1
               in (p # ps, w2))"

text \<open>The pseudo-random choice: \<open>rnd\<close> is the result of \<open>Math.random()\<close>, in [0, 1).\<close>

definition pick_index :: "rat \<Rightarrow> nat \<Rightarrow> nat" where
  "pick_index rnd n = nat \<lfloor>rnd * of_nat n\<rfloor>"

definition select_start ::
  "rat \<Rightarrow> 'v \<Rightarrow> 'v select_case list \<Rightarrow> bool \<Rightarrow> 'v loop \<Rightarrow> 'v select_step \<times> 'v loop" where
  "select_start rnd u cases has_default w =
     (if cases = [] \<and> \<not> has_default then (SelForever, w)
      else let ready = ready_cases w cases in
        if ready \<noteq> [] then
          (let k = ready ! pick_index rnd (length ready) in
           case case_chan k of Some c \<Rightarrow> take_case u k c w | None \<Rightarrow> (SelForever, w))
        else if has_default then
          (SelDefault (case List.find (\<lambda>k. case_id k = -1) cases of
             Some k \<Rightarrow> if case_handler k then Some k else None | None \<Rightarrow> None), w)
        else let (s, w1) = new_promise w; (ps, w2) = block_cases u s cases w1 in
          if ps = [] then (SelForever, w2) else (SelRace ps s, w2))"

text \<open>The second half: \<open>Promise.race\<close> settles with the first promise of the list to settle; a
  rejection is rethrown as it is, a result aborts the signal and names its case.\<close>

definition race_winner :: "promise list \<Rightarrow> 'v loop \<Rightarrow> 'v outcome option" where
  "race_winner ps w = map_option snd (List.find (\<lambda>(p, out). p \<in> set ps) (settled w))"

fun outcome_id :: "'v outcome \<Rightarrow> int option" where
  "outcome_id (SelectedReceive v ok i) = Some i"
| "outcome_id (SelectedSend i) = Some i"
| "outcome_id _ = None"

datatype 'v select_end =
    EndWaiting
  | EndRejected string
  | EndSelected "'v select_case option" "'v outcome"

definition select_resume ::
  "'v select_case list \<Rightarrow> promise list \<Rightarrow> nat \<Rightarrow> 'v loop \<Rightarrow> 'v select_end \<times> 'v loop" where
  "select_resume cases ps s w =
     (case race_winner ps w of
        None \<Rightarrow> (EndWaiting, w)
      | Some (Rejected e) \<Rightarrow> (EndRejected e, w)
      | Some out \<Rightarrow>
          (EndSelected
             (case List.find (\<lambda>k. Some (case_id k) = outcome_id out) cases of
                Some k \<Rightarrow> if case_handler k then Some k else None | None \<Rightarrow> None) out,
           abort_signal s w))"

text \<open>\<open>selectHandlerResult\<close>: the first component tells the compiled code to return from the
  enclosing function. A handler gives \<open>undefined\<close>, the void-return marker or a value.\<close>

datatype 'h handler_value = HUndefined | HVoidReturn | HValue 'h

definition selectHandlerResult :: "'h handler_value \<Rightarrow> bool \<times> 'h handler_value" where
  "selectHandlerResult h =
     (case h of HVoidReturn \<Rightarrow> (True, HUndefined) | HUndefined \<Rightarrow> (False, HUndefined)
      | HValue x \<Rightarrow> (True, h))"


subsection \<open>Choosing among ready cases\<close>

lemma pick_index_bound:
  assumes "0 \<le> rnd" "rnd < 1" "0 < n"
  shows "pick_index rnd n < n"
proof -
  have "rnd * of_nat n < of_nat n" using assms by simp
  then have "\<lfloor>rnd * of_nat n\<rfloor> < int n" by (simp add: floor_less_iff)
  with assms show ?thesis by (simp add: pick_index_def nat_less_iff)
qed

lemma pick_index_onto: "i < n \<Longrightarrow> pick_index (of_nat i / of_nat n) n = i"
  by (simp add: pick_index_def)

text \<open>What communicating by a case does, in terms of the queue the channel is: a receive takes the
  oldest value (or the zero value of a closed channel) and lets the first blocked sender go on; a
  send hands the value to the receiver waiting longest or stores it as the newest.\<close>

definition commits ::
  "'v \<Rightarrow> 'v select_case \<Rightarrow> 'v chan \<Rightarrow> 'v chan \<Rightarrow> 'v job list \<Rightarrow> 'v select_step \<Rightarrow> bool" where
  "commits v k ch ch' js st =
     (if case_send k then
        (if is_closed ch then st = SelThrow (ThrownError send_closed) \<and> ch' = ch \<and> js = []
         else st = SelChosen k (SelectedSend (case_id k)) \<and>
           (case receivers ch of
              r # rs \<Rightarrow> ch' = ch\<lparr>receivers := rs\<rparr> \<and> js = [Deliver r v CompleteNone]
            | [] \<Rightarrow> (case receivers_ok ch of
                r # rs \<Rightarrow> ch' = ch\<lparr>receivers_ok := rs\<rparr> \<and> js = [DeliverOk r v True CompleteNone]
              | [] \<Rightarrow> length (buffer ch) < capacity ch \<and> ch' = ch\<lparr>buffer := buffer ch @ [v]\<rparr> \<and> js = [])))
      else (case contents ch of
          [] \<Rightarrow> is_closed ch \<and> st = SelChosen k (SelectedReceive (zero_value ch) False (case_id k)) \<and> ch' = ch \<and> js = []
        | x # xs \<Rightarrow> st = SelChosen k (SelectedReceive x True (case_id k)) \<and> contents ch' = xs \<and>
            ch' = ch\<lparr>buffer := buffer ch', senders := tl (senders ch)\<rparr> \<and>
            js = (case senders ch of [] \<Rightarrow> [] | (y, t) # ss \<Rightarrow> [ResolveSend t])))"

lemma take_case_commits:
  assumes "case_chan k = Some c" "case_ready w k" "take_case u k c w = (st, w')"
  shows "\<exists>ch js. commits (item_of u k) k (chans w c) ch js st \<and> w' = w\<lparr>chans := (chans w)(c := ch), micro := micro w @ js\<rparr>"
proof (cases "case_send k")
  case True
  then have ready: "can_send (chans w c)" using assms(1,2) by (simp add: case_ready_def)
  show ?thesis
  proof (cases "is_closed (chans w c)")
    case c: True
    have "st = SelThrow (ThrownError send_closed) \<and> w' = w"
      using assms(3) True c by (simp add: take_case_def new_promise_def try_select_send_def Let_def)
    then show ?thesis using True c by (intro exI [of _ "chans w c"] exI [of _ "[]"]) (simp add: commits_def)
  next
    case False
    with ready obtain ch js out where t: "try_select_send (item_of u k) (case_id k) (chans w c) = Inr (Some (ch, js, out))"
      using try_select_send_ready [of "item_of u k" "case_id k" "chans w c"]
      by (cases "try_select_send (item_of u k) (case_id k) (chans w c)") (auto simp: try_select_send_def)
    then have e: "st = SelChosen k out" "w' = queue_micro js (put_chan c ch w)"
      using assms(3) True by (simp_all add: take_case_def new_promise_def Let_def)
    have "commits (item_of u k) k (chans w c) ch js st"
      using t False True e(1) by (auto simp: commits_def try_select_send_def split: list.splits if_splits)
    then show ?thesis using e(2) by (auto simp: queue_micro_def put_chan_def)
  qed
next
  case False
  then obtain ch js out where t: "try_select_receive (case_id k) (chans w c) = Some (ch, js, out)"
    using assms(1,2) channel_select.recv_ready [of "chans w c" "case_id k"] by (auto simp: case_ready_def)
  then have e: "st = SelChosen k out" "w' = queue_micro js (put_chan c ch w)"
    using assms(3) False by (simp_all add: take_case_def new_promise_def Let_def)
  have "commits (item_of u k) k (chans w c) ch js st"
    using t False e(1)
    by (cases "buffer (chans w c)"; cases "senders (chans w c)")
      (auto simp: commits_def try_select_receive_def try_receive_def shift_buffer_def contents_def split: if_splits)
  then show ?thesis using e(2) by (auto simp: queue_micro_def put_chan_def)
qed

lemma select_takes_picked:
  assumes "ready_cases w cases \<noteq> []" "i < length (ready_cases w cases)" "pick_index rnd (length (ready_cases w cases)) = i"
    and "select_start rnd u cases d w = (st, w')"
  shows "\<exists>k c ch js. k = ready_cases w cases ! i \<and> case_chan k = Some c \<and>
    commits (item_of u k) k (chans w c) ch js st \<and> w' = w\<lparr>chans := (chans w)(c := ch), micro := micro w @ js\<rparr>"
proof -
  let ?k = "ready_cases w cases ! i"
  have "?k \<in> set (ready_cases w cases)" using assms(2) by simp
  then have k: "case_ready w ?k" by (simp add: ready_cases_def)
  then obtain c where c: "case_chan ?k = Some c" by (auto simp: case_ready_def split: option.splits)
  have "cases \<noteq> []" using assms(1) by (auto simp: ready_cases_def)
  with assms c have "take_case u ?k c w = (st, w')" by (simp add: select_start_def Let_def)
  from take_case_commits [OF c k this] c show ?thesis by blast
qed

text \<open>C6. A select with ready cases communicates by exactly one of them and finishes: a receive answers
  the oldest value of its channel and removes it, letting the first blocked sender go on (of a
  closed and empty channel the zero value, which changes nothing), a send hands its value to the
  first waiting receiver or appends it to the buffer (on a closed channel it throws and changes
  nothing). The rest of the event loop stays as it is: no other channel changes, no promise is
  made or settled, nothing is registered to wait. The random number decides among the ready
  cases, and each of them is chosen for some value of it.\<close>

theorem select_takes_ready:
  assumes "0 \<le> rnd" "rnd < 1" "ready_cases w cases \<noteq> []"
    and "select_start rnd u cases d w = (st, w')"
  shows "(\<exists>k c ch js. k \<in> set cases \<and> case_ready w k \<and> case_chan k = Some c \<and>
      commits (item_of u k) k (chans w c) ch js st \<and> w' = w\<lparr>chans := (chans w)(c := ch), micro := micro w @ js\<rparr>) \<and>
    (\<forall>k\<in>set cases. case_ready w k \<longrightarrow> (\<exists>rnd' c ch js st' w''. 0 \<le> rnd' \<and> rnd' < 1 \<and> case_chan k = Some c \<and>
       select_start rnd' u cases d w = (st', w'') \<and> commits (item_of u k) k (chans w c) ch js st' \<and>
       w'' = w\<lparr>chans := (chans w)(c := ch), micro := micro w @ js\<rparr>))"
proof (rule conjI)
  let ?r = "ready_cases w cases"
  have i: "pick_index rnd (length ?r) < length ?r" using pick_index_bound [OF assms(1,2)] assms(3) by simp
  then have "?r ! pick_index rnd (length ?r) \<in> set ?r" by simp
  then have "?r ! pick_index rnd (length ?r) \<in> set cases" "case_ready w (?r ! pick_index rnd (length ?r))"
    by (simp_all add: ready_cases_def)
  with select_takes_picked [OF assms(3) i refl assms(4)]
  show "\<exists>k c ch js. k \<in> set cases \<and> case_ready w k \<and> case_chan k = Some c \<and>
      commits (item_of u k) k (chans w c) ch js st \<and> w' = w\<lparr>chans := (chans w)(c := ch), micro := micro w @ js\<rparr>"
    by blast
  show "\<forall>k\<in>set cases. case_ready w k \<longrightarrow> (\<exists>rnd' c ch js st' w''. 0 \<le> rnd' \<and> rnd' < 1 \<and> case_chan k = Some c \<and>
       select_start rnd' u cases d w = (st', w'') \<and> commits (item_of u k) k (chans w c) ch js st' \<and>
       w'' = w\<lparr>chans := (chans w)(c := ch), micro := micro w @ js\<rparr>)"
  proof (intro ballI impI)
    fix k assume "k \<in> set cases" "case_ready w k"
    then have "k \<in> set ?r" by (simp add: ready_cases_def)
    then obtain i where i: "i < length ?r" "?r ! i = k" by (auto simp: in_set_conv_nth)
    define rnd' :: rat where "rnd' = of_nat i / of_nat (length ?r)"
    have "0 \<le> rnd'" "rnd' < 1" unfolding rnd'_def using i(1) by simp (subst divide_less_eq_1_pos, use i(1) in auto)
    moreover obtain st' w'' where s: "select_start rnd' u cases d w = (st', w'')" by (cases "select_start rnd' u cases d w")
    moreover have "pick_index rnd' (length ?r) = i" unfolding rnd'_def by (rule pick_index_onto [OF i(1)])
    ultimately show "\<exists>rnd' c ch js st' w''. 0 \<le> rnd' \<and> rnd' < 1 \<and> case_chan k = Some c \<and>
       select_start rnd' u cases d w = (st', w'') \<and> commits (item_of u k) k (chans w c) ch js st' \<and>
       w'' = w\<lparr>chans := (chans w)(c := ch), micro := micro w @ js\<rparr>"
      using select_takes_picked [OF assms(3) i(1) _ s] i(2) by blast
  qed
qed

definition recv_case :: "int \<Rightarrow> nat \<Rightarrow> int select_case" where
  "recv_case i c = \<lparr>case_id = i, case_send = False, case_chan = Some c, case_item = None, case_handler = True\<rparr>"

definition buffered_chan :: "int list \<Rightarrow> int chan" where
  "buffered_chan xs = \<lparr>buffer = xs, is_closed = False, capacity = 2, zero_value = 0, senders = [],
     receivers = [], receivers_ok = []\<rparr>"

theorem select_takes_ready_witness:
  "\<exists>w'. select_start 0 0 [recv_case 4 0] False (one_channel (buffered_chan [7, 8])) =
       (SelChosen (recv_case 4 0) (SelectedReceive 7 True 4), w') \<and> contents (chans w' 0) = [8]"
proof -
  let ?w = "one_channel (buffered_chan [7, 8])"
  have r: "ready_cases ?w [recv_case 4 0] \<noteq> []"
    by (simp add: ready_cases_def case_ready_def recv_case_def can_receive_def buffered_chan_def)
  obtain st w' where s: "select_start 0 0 [recv_case 4 0] False ?w = (st, w')"
    by (cases "select_start 0 0 [recv_case 4 0] False ?w")
  obtain ch js where "commits 0 (recv_case 4 0) (buffered_chan [7, 8]) ch js st" "chans w' 0 = ch"
    using select_takes_ready [OF _ _ r s] by (auto simp: recv_case_def item_of_def)
  then show ?thesis unfolding s by (simp add: commits_def recv_case_def contents_def buffered_chan_def)
qed

text \<open>A select whose cases would all block runs its default case if it has one and leaves
  the channels and the loop exactly as they were; without a default it commits nothing: no
  promise settles, and it waits (for ever, when no case has a channel).\<close>

theorem select_not_ready:
  assumes "ready_cases w cases = []"
  shows "(has_default \<longrightarrow> select_start rnd u cases has_default w =
      (SelDefault (case List.find (\<lambda>k. case_id k = -1) cases of
         Some k \<Rightarrow> if case_handler k then Some k else None | None \<Rightarrow> None), w)) \<and>
    (\<not> has_default \<longrightarrow> (case select_start rnd u cases has_default w of (st, w') \<Rightarrow>
       (st = SelForever \<or> (\<exists>ps s. ps \<noteq> [] \<and> st = SelRace ps s)) \<and>
       (st = SelForever \<longleftrightarrow> (\<forall>k\<in>set cases. case_id k = -1 \<or> case_chan k = None))))"
proof -
  have b: "fst (block_cases u s cases w1) = [] \<longleftrightarrow> (\<forall>k\<in>set cases. case_id k = -1 \<or> case_chan k = None)"
    for s w1 by (induction cases arbitrary: w1) (auto split: option.splits prod.splits)
  show ?thesis
    using assms b [of "fst (new_promise w)" "snd (new_promise w)"]
    by (auto simp: select_start_def Let_def split_beta)
qed

theorem select_not_ready_witness:
  "select_start 0 0 [recv_case 4 0] True (one_channel (buffered_chan [])) =
     (SelDefault None, one_channel (buffered_chan []))"
proof -
  have "ready_cases (one_channel (buffered_chan [])) [recv_case 4 0] = []"
    by (simp add: ready_cases_def case_ready_def recv_case_def can_receive_def buffered_chan_def)
  from select_not_ready [OF this, of True 0 0] show ?thesis by (simp add: recv_case_def)
qed

end
