(* ===== verification/GsReach.thy ===== *)
theory GsReach
  imports GsSelect
begin

section \<open>Reachable states of channels, select statements and the event loop\<close>

text \<open>
  The step relation of the whole concurrent runtime of gs/builtin/channel.ts and its
  invariant: which select tasks wait in which channel, that each has its abort listener and
  has not finished, and that queued jobs never concern a task somebody else owns.
\<close>

fun ok_selects :: "ok_task list \<Rightarrow> select_task list" where
  "ok_selects [] = []"
| "ok_selects (OkTask p # ts) = ok_selects ts"
| "ok_selects (OkSelect t # ts) = t # ok_selects ts"

fun send_selects :: "('v \<times> send_task) list \<Rightarrow> select_task list" where
  "send_selects [] = []"
| "send_selects ((v, SendTask p) # ts) = send_selects ts"
| "send_selects ((v, SendSelect t) # ts) = t # send_selects ts"

text \<open>The select tasks waiting to send (\<open>True\<close>) or to receive (\<open>False\<close>) on a channel.\<close>

definition waiting :: "bool \<Rightarrow> 'v chan \<Rightarrow> select_task list" where
  "waiting b ch = (if b then send_selects (senders ch) else ok_selects (receivers_ok ch))"

fun job_tasks :: "'v job \<Rightarrow> (bool \<times> select_task) list" where
  "job_tasks (DeliverOk (OkSelect t) v ok c) = [(False, t)]"
| "job_tasks (WakeOk (OkSelect t) v ok) = [(False, t)]"
| "job_tasks (ResolveSend (SendSelect t)) = [(True, t)]"
| "job_tasks (RejectSend (SendSelect t) e) = [(True, t)]"
| "job_tasks _ = []"

inductive loop_step :: "'v loop \<Rightarrow> 'v loop \<Rightarrow> bool" where
  step_send: "loop_step w (snd (chanSend channel v w))"
| step_recv: "loop_step w (snd (chanRecv channel w))"
| step_recv_ok: "loop_step w (snd (chanRecvWithOk channel w))"
| step_close: "close_channel c w = Inr w' \<Longrightarrow> loop_step w w'"
| step_micro: "micro w = j # js \<Longrightarrow> loop_step w (exec_job j (w\<lparr>micro := js\<rparr>))"
| step_timer: "micro w = [] \<Longrightarrow> timers w = j # js \<Longrightarrow> loop_step w (exec_job j (w\<lparr>timers := js\<rparr>))"
| step_select: "0 \<le> rnd \<Longrightarrow> rnd < 1 \<Longrightarrow> loop_step w (snd (select_start rnd u cases d w))"
| step_resume: "loop_step w (snd (select_resume cases ps s w))"

definition initial_loop :: "'v loop \<Rightarrow> bool" where
  "initial_loop w \<longleftrightarrow> (\<forall>c. \<exists>cap z. new_channel cap z = Inr (chans w c)) \<and> settled w = [] \<and>
     done_tasks w = [] \<and> listeners w = [] \<and> aborted w = [] \<and> micro w = [] \<and> timers w = []"

definition task_known :: "'v loop \<Rightarrow> bool \<times> select_task \<Rightarrow> bool" where
  "task_known w bt \<longleftrightarrow> sel_promise (snd bt) < fresh w \<and>
     (\<forall>l\<in>set (listeners w). sel_promise (snd l) = sel_promise (snd bt) \<longrightarrow> l = bt)"

definition tasks_inv :: "'v loop \<Rightarrow> bool" where
  "tasks_inv w \<longleftrightarrow>
     (\<forall>c b t. t \<in> set (waiting b (chans w c)) \<longrightarrow> sel_chan t = c \<and> (b, t) \<in> set (listeners w)) \<and>
     (\<forall>c b. distinct (waiting b (chans w c)))"

definition listeners_inv :: "'v loop \<Rightarrow> bool" where
  "listeners_inv w \<longleftrightarrow>
     (\<forall>l\<in>set (listeners w). sel_promise (snd l) \<notin> set (done_tasks w) \<and> sel_promise (snd l) < fresh w) \<and>
     distinct (map (\<lambda>l. sel_promise (snd l)) (listeners w)) \<and>
     (\<forall>p\<in>set (done_tasks w). p < fresh w)"

definition jobs_inv :: "'v loop \<Rightarrow> bool" where
  "jobs_inv w \<longleftrightarrow> (\<forall>j\<in>set (micro w) \<union> set (timers w). \<forall>bt\<in>set (job_tasks j). task_known w bt)"

definition loop_inv :: "'v loop \<Rightarrow> bool" where
  "loop_inv w \<longleftrightarrow> (\<forall>c. chan_inv (chans w c)) \<and> tasks_inv w \<and> listeners_inv w \<and> jobs_inv w"

lemmas inv_defs = loop_inv_def tasks_inv_def listeners_inv_def jobs_inv_def task_known_def

subsection \<open>What a channel operation does to the waiting tasks\<close>

definition step_ok :: "'v chan \<Rightarrow> 'v chan \<Rightarrow> 'v job list \<Rightarrow> bool" where
  "step_ok ch ch' js \<longleftrightarrow> (chan_inv ch \<longrightarrow> chan_inv ch') \<and>
     (\<forall>b. set (waiting b ch') \<subseteq> set (waiting b ch)) \<and>
     (\<forall>b. distinct (waiting b ch) \<longrightarrow> distinct (waiting b ch')) \<and>
     (\<forall>j\<in>set js. \<forall>bt\<in>set (job_tasks j). snd bt \<in> set (waiting (fst bt) ch))"

lemma ok_selects_append [simp]: "ok_selects (xs @ ys) = ok_selects xs @ ok_selects ys"
  by (induction xs rule: ok_selects.induct) auto

lemma send_selects_append [simp]: "send_selects (xs @ ys) = send_selects xs @ send_selects ys"
  by (induction xs rule: send_selects.induct) auto

lemma set_ok_selects: "t \<in> set (ok_selects ts) \<longleftrightarrow> OkSelect t \<in> set ts"
  by (induction ts rule: ok_selects.induct) auto

lemma set_send_selects: "t \<in> set (send_selects ts) \<longleftrightarrow> SendSelect t \<in> snd ` set ts"
  by (induction ts rule: send_selects.induct) auto

lemma ok_selects_remove:
  "ok_selects (remove_first (\<lambda>u. u = OkSelect t) ts) = remove_first (\<lambda>u. u = t) (ok_selects ts)"
  by (induction ts rule: ok_selects.induct) auto

lemma send_selects_remove:
  "send_selects (remove_first (\<lambda>(v, u). u = SendSelect t) ts) = remove_first (\<lambda>u. u = t) (send_selects ts)"
  by (induction ts rule: send_selects.induct) auto

lemma waiting_cleanup:
  "waiting b (cleanup_sender t ch) =
     (if b then remove_first (\<lambda>u. u = t) (waiting b ch) else waiting b ch)"
  "waiting b (cleanup_receiver t ch) =
     (if b then waiting b ch else remove_first (\<lambda>u. u = t) (waiting b ch))"
  by (auto simp: waiting_def cleanup_sender_def cleanup_receiver_def ok_selects_remove send_selects_remove)

lemma cleanup_inv:
  "chan_inv ch \<Longrightarrow> chan_inv (cleanup_sender t ch)"
  "chan_inv ch \<Longrightarrow> chan_inv (cleanup_receiver t ch)"
  using chan_after_inv_step [of ch "OpCleanupSender t"] chan_after_inv_step [of ch "OpCleanupReceiver t"]
  by simp_all

lemma remove_first_filter: "distinct xs \<Longrightarrow> remove_first (\<lambda>u. u = t) xs = filter (\<lambda>u. u \<noteq> t) xs"
  by (induction xs) (auto simp: filter_id_conv intro!: sym [OF filter_True])

text \<open>The head of a queue of each kind, the cases in which an operation looks at it.\<close>

lemma waiting_simps [simp]:
  "waiting True (ch\<lparr>senders := ss\<rparr>) = send_selects ss"
  "waiting False (ch\<lparr>senders := ss\<rparr>) = waiting False ch"
  "waiting False (ch\<lparr>receivers_ok := rs\<rparr>) = ok_selects rs"
  "waiting True (ch\<lparr>receivers_ok := rs\<rparr>) = waiting True ch"
  "waiting b (ch\<lparr>receivers := ps\<rparr>) = waiting b ch"
  "waiting b (ch\<lparr>buffer := xs\<rparr>) = waiting b ch"
  "waiting b (ch\<lparr>is_closed := x\<rparr>) = waiting b ch"
  by (simp_all add: waiting_def)

lemma ok_selects_Cons:
  "ok_selects (r # rs) = (case r of OkTask p \<Rightarrow> [] | OkSelect t \<Rightarrow> [t]) @ ok_selects rs"
  by (cases r) simp_all

lemma send_selects_Cons:
  "send_selects (s # ss) = (case snd s of SendTask p \<Rightarrow> [] | SendSelect t \<Rightarrow> [t]) @ send_selects ss"
  by (cases s; cases "snd s") simp_all

lemma job_tasks_cases:
  "job_tasks (DeliverOk r v ok c) = (case r of OkTask p \<Rightarrow> [] | OkSelect t \<Rightarrow> [(False, t)])"
  "job_tasks (WakeOk r v ok) = (case r of OkTask p \<Rightarrow> [] | OkSelect t \<Rightarrow> [(False, t)])"
  "job_tasks (ResolveSend s) = (case s of SendTask p \<Rightarrow> [] | SendSelect t \<Rightarrow> [(True, t)])"
  "job_tasks (RejectSend s e) = (case s of SendTask p \<Rightarrow> [] | SendSelect t \<Rightarrow> [(True, t)])"
  by (cases r; cases s; simp)+

lemmas step_ok_simps = step_ok_def all_bool_eq waiting_def ok_selects_Cons send_selects_Cons job_tasks_cases

lemma step_ok_send: "chan_send p v ch = (ch', js, rep) \<Longrightarrow> step_ok ch ch' js"
  using chan_after_inv_step [of ch "OpSend p v"]
  by (cases "receivers ch"; cases "receivers_ok ch")
    (auto simp: chan_send_def step_ok_simps split: if_splits ok_task.splits)

lemma step_ok_close: "chan_close ch = Inr (ch', js) \<Longrightarrow> step_ok ch ch' js"
  using chan_after_inv_step [of ch OpClose]
  by (auto simp: chan_close_def step_ok_simps set_ok_selects set_send_selects
      split: if_splits ok_task.splits send_task.splits) force+

lemma step_ok_try_receive: "try_receive ch = Some (ch', js, v, ok) \<Longrightarrow> step_ok ch ch' js"
  using chan_after_inv_step [of ch "OpTryReceive 0"]
  by (cases "buffer ch"; cases "senders ch")
    (auto simp: try_receive_def try_select_receive_def shift_buffer_def step_ok_simps
      split: if_splits send_task.splits)

lemma step_ok_receive: "chan_receive p ch = (ch', js, rep) \<Longrightarrow> step_ok ch ch' js"
  using chan_after_inv_step [of ch "OpReceive p"]
  by (cases "buffer ch"; cases "senders ch")
    (auto simp: chan_receive_def shift_buffer_def step_ok_simps split: if_splits send_task.splits)

lemma step_ok_receive_ok: "chan_receive_ok p ch = (ch', js, rep) \<Longrightarrow> step_ok ch ch' js"
proof (cases "try_receive ch")
  case None
  then show "chan_receive_ok p ch = (ch', js, rep) \<Longrightarrow> step_ok ch ch' js"
    using chan_after_inv_step [of ch "OpReceiveOk p"] by (auto simp: chan_receive_ok_def step_ok_simps)
next
  case (Some r)
  then show "chan_receive_ok p ch = (ch', js, rep) \<Longrightarrow> step_ok ch ch' js"
    by (cases r) (auto simp: chan_receive_ok_def dest: step_ok_try_receive)
qed

lemma step_ok_try_send: "try_select_send v i ch = Inr (Some (ch', js, out)) \<Longrightarrow> step_ok ch ch' js"
  using chan_after_inv_step [of ch "OpTrySend v i"]
  by (cases "receivers ch"; cases "receivers_ok ch")
    (auto simp: try_select_send_def step_ok_simps split: if_splits ok_task.splits)

subsection \<open>Every step keeps the invariant\<close>

lemma fresh_frame [simp]:
  "fresh (settle p out w) = fresh w" "fresh (task_cleanup b t w) = fresh w"
  "fresh (task_finish b t out w) = fresh w"
  by (simp_all add: settle_def task_cleanup_def task_finish_def put_chan_def Let_def split: option.splits)

lemma inv_frame [simp]:
  "task_known (w\<lparr>micro := js\<rparr>) bt = task_known w bt" "task_known (w\<lparr>timers := js\<rparr>) bt = task_known w bt"
  "task_known (w\<lparr>chans := cs\<rparr>) bt = task_known w bt" "task_known (settle p out w) bt = task_known w bt"
  "tasks_inv (w\<lparr>micro := js\<rparr>) = tasks_inv w" "tasks_inv (w\<lparr>timers := js\<rparr>) = tasks_inv w"
  "tasks_inv (settle p out w) = tasks_inv w" "listeners_inv (settle p out w) = listeners_inv w"
  "listeners_inv (w\<lparr>micro := js\<rparr>) = listeners_inv w" "listeners_inv (w\<lparr>timers := js\<rparr>) = listeners_inv w"
  "listeners_inv (w\<lparr>chans := cs\<rparr>) = listeners_inv w"
  by (simp_all add: task_known_def tasks_inv_def listeners_inv_def)

lemma loop_inv_settle [simp]: "loop_inv (settle p out w) = loop_inv w"
  by (simp add: loop_inv_def jobs_inv_def)

lemma loop_inv_new_promise: "loop_inv w \<Longrightarrow> loop_inv (snd (new_promise w))"
proof -
  assume inv: "loop_inv w"
  have "task_known w bt \<Longrightarrow> task_known (snd (new_promise w)) bt" for bt
    by (auto simp: task_known_def new_promise_def)
  moreover have "jobs_inv (snd (new_promise w))"
    using inv calculation by (fastforce simp: loop_inv_def jobs_inv_def new_promise_def)
  ultimately show ?thesis
    using inv by (auto simp: loop_inv_def tasks_inv_def listeners_inv_def new_promise_def less_Suc_eq)
qed

lemma loop_inv_dequeue:
  "loop_inv w \<Longrightarrow> set js \<subseteq> set (micro w) \<Longrightarrow> loop_inv (w\<lparr>micro := js\<rparr>)"
  "loop_inv w \<Longrightarrow> set js \<subseteq> set (timers w) \<Longrightarrow> loop_inv (w\<lparr>timers := js\<rparr>)"
  by (auto simp: loop_inv_def jobs_inv_def)

lemma known_waiting:
  assumes "loop_inv w" "t \<in> set (waiting b (chans w c))"
  shows "task_known w (b, t)"
proof -
  have "(b, t) \<in> set (listeners w)" using assms by (auto simp: loop_inv_def tasks_inv_def)
  with assms show ?thesis
    by (auto simp: loop_inv_def listeners_inv_def task_known_def distinct_map inj_on_def)
qed

lemma chan_update_inv:
  assumes inv: "loop_inv w" and ok: "step_ok (chans w c) ch' js"
  shows "loop_inv (queue_micro js (put_chan c ch' w))"
    "loop_inv ((put_chan c ch' w)\<lparr>timers := timers w @ js\<rparr>)"
proof -
  have js: "\<forall>j\<in>set js. \<forall>bt\<in>set (job_tasks j). task_known w bt"
    using ok known_waiting [OF inv] by (fastforce simp: step_ok_def)
  have c: "\<forall>d. chan_inv (((chans w)(c := ch')) d)" "tasks_inv (w\<lparr>chans := (chans w)(c := ch')\<rparr>)"
    using inv ok by (simp add: loop_inv_def step_ok_def)
      (use inv ok in \<open>simp add: loop_inv_def step_ok_def tasks_inv_def subset_iff, blast\<close>)
  show "loop_inv (queue_micro js (put_chan c ch' w))"
    "loop_inv ((put_chan c ch' w)\<lparr>timers := timers w @ js\<rparr>)"
    using inv js c by (auto simp: queue_micro_def put_chan_def loop_inv_def jobs_inv_def)
qed

lemma commit_inv:
  "loop_inv w \<Longrightarrow> step_ok (chans w c) ch' js \<Longrightarrow> loop_inv (commit p c (ch', js, rep) w)"
  by (cases rep) (simp_all add: commit_def chan_update_inv)

lemma chans_new_promise [simp]: "chans (snd (new_promise w)) = chans w"
  by (simp add: new_promise_def)

lemma call_inv:
  assumes "loop_inv w" "\<And>p ch' js rep. f p = (ch', js, rep) \<Longrightarrow> step_ok (chans w c) ch' js"
  shows "loop_inv (commit p c (f p) (snd (new_promise w)))"
  using assms by (cases "f p") (simp add: commit_inv loop_inv_new_promise)

lemma chanSend_inv: "loop_inv w \<Longrightarrow> loop_inv (snd (chanSend channel v w))"
  by (auto simp: chanSend_def split_beta loop_inv_new_promise split: option.splits
    intro!: call_inv [where f = "\<lambda>p. chan_send p v _"] dest: step_ok_send)

lemma chanRecv_inv: "loop_inv w \<Longrightarrow> loop_inv (snd (chanRecv channel w))"
  by (auto simp: chanRecv_def split_beta loop_inv_new_promise split: option.splits
    intro!: call_inv [where f = "\<lambda>p. chan_receive p _"] dest: step_ok_receive)

lemma chanRecvWithOk_inv: "loop_inv w \<Longrightarrow> loop_inv (snd (chanRecvWithOk channel w))"
  by (auto simp: chanRecvWithOk_def split_beta loop_inv_new_promise split: option.splits
    intro!: call_inv [where f = "\<lambda>p. chan_receive_ok p _"] dest: step_ok_receive_ok)

lemma close_channel_inv: "loop_inv w \<Longrightarrow> close_channel c w = Inr w' \<Longrightarrow> loop_inv w'"
  by (auto simp: close_channel_def bindR_eq_Inr chan_update_inv(2) dest: step_ok_close)

subsection \<open>Finishing and aborting select tasks\<close>

lemma listeners_remove:
  assumes "listeners_inv w"
  shows "remove_first (\<lambda>l. l = x) (listeners w) = filter (\<lambda>l. l \<noteq> x) (listeners w)"
  using assms by (intro remove_first_filter) (auto simp: listeners_inv_def distinct_map)

text \<open>A task that is known loses its listener, leaves its queue and counts as done; every
  other task, its listener and its place stay.\<close>

definition retire :: "bool \<times> select_task \<Rightarrow> 'v loop \<Rightarrow> 'v loop" where
  "retire bt w = task_cleanup (fst bt) (snd bt) (w\<lparr>done_tasks := sel_promise (snd bt) # done_tasks w\<rparr>)"

lemma retire_listeners:
  "listeners_inv w \<Longrightarrow> listeners (retire bt w) = filter (\<lambda>l. l \<noteq> bt) (listeners w)"
  by (cases bt) (simp add: retire_def task_cleanup_def put_chan_def Let_def listeners_remove)

lemma retire_waiting:
  assumes "tasks_inv w"
  shows "waiting b (chans (retire bt w) c) = filter (\<lambda>t. (b, t) \<noteq> bt) (waiting b (chans w c))"
proof -
  obtain b' t where bt: "bt = (b', t)" by (cases bt)
  have ch: "waiting b (chans (retire bt w) c) =
    (if c = sel_chan t \<and> b = b' then remove_first (\<lambda>u. u = t) (waiting b (chans w c)) else waiting b (chans w c))"
    by (auto simp: retire_def bt task_cleanup_def put_chan_def Let_def waiting_cleanup)
  have d: "distinct (waiting b (chans w c))" using assms by (simp add: tasks_inv_def)
  have n: "t \<notin> set (waiting b (chans w c))" if "c \<noteq> sel_chan t"
    using assms that by (auto simp: tasks_inv_def)
  show ?thesis
  proof (cases "c = sel_chan t \<and> b = b'")
    case True
    then show ?thesis using d ch bt by (simp add: remove_first_filter)
  next
    case False
    then have "\<forall>u\<in>set (waiting b (chans w c)). (b, u) \<noteq> bt" using n bt by auto
    then show ?thesis using False by (auto simp: ch)
  qed
qed

lemma retire_inv:
  assumes inv: "loop_inv w" and kn: "task_known w bt" and nd: "sel_promise (snd bt) \<notin> set (done_tasks w)"
  shows "loop_inv (retire bt w)"
proof -
  have i: "tasks_inv w" "listeners_inv w" "jobs_inv w" using inv by (simp_all add: loop_inv_def)
  have fr: "fresh (retire bt w) = fresh w" "micro (retire bt w) = micro w" "timers (retire bt w) = timers w"
    "done_tasks (retire bt w) = sel_promise (snd bt) # done_tasks w"
    by (simp_all add: retire_def)
  have "\<forall>c. chan_inv (chans (retire bt w) c)"
    using inv by (auto simp: loop_inv_def retire_def task_cleanup_def put_chan_def Let_def intro: cleanup_inv)
  moreover have "tasks_inv (retire bt w)"
    using i by (auto simp: tasks_inv_def retire_waiting retire_listeners)
  moreover have "listeners_inv (retire bt w)"
    using i(2) kn by (auto simp: listeners_inv_def retire_listeners [OF i(2)] fr task_known_def
      intro: distinct_map_filter)
  moreover have "jobs_inv (retire bt w)"
    using i(3) by (auto simp: jobs_inv_def task_known_def retire_listeners [OF i(2)] fr)
  ultimately show ?thesis by (simp add: loop_inv_def)
qed

lemma task_finish_inv:
  assumes "loop_inv w" "task_known w (b, t)"
  shows "loop_inv (task_finish b t out w)"
  using retire_inv [OF assms] assms(1) by (simp add: task_finish_def retire_def)

lemma task_known_queue [simp]: "task_known (queue_micro js w) = task_known w"
  by (simp add: fun_eq_iff queue_micro_def)

lemma loop_inv_queue: "loop_inv w \<Longrightarrow> \<forall>j\<in>set js. job_tasks j = [] \<Longrightarrow> loop_inv (queue_micro js w)"
  by (auto simp: loop_inv_def jobs_inv_def queue_micro_def)

lemma exec_job_inv:
  assumes "loop_inv w" "\<forall>bt\<in>set (job_tasks j). task_known w bt"
  shows "loop_inv (exec_job j w)"
proof (cases j)
  case (Deliver r v c)
  with assms show ?thesis by (cases r) (simp add: loop_inv_queue)
next
  case (DeliverOk t v ok c)
  with assms show ?thesis by (cases t) (simp_all add: loop_inv_queue task_finish_inv)
next
  case (Complete c)
  with assms show ?thesis by (cases c) simp_all
next
  case (ResolveSend t)
  with assms show ?thesis by (cases t) (simp_all add: task_finish_inv)
next
  case (RejectSend t e)
  with assms show ?thesis by (cases t) (simp_all add: task_finish_inv)
next
  case (WakeReceive r v)
  with assms show ?thesis by (cases r) simp
next
  case (WakeOk t v ok)
  with assms show ?thesis by (cases t) (simp_all add: task_finish_inv)
qed

subsection \<open>Starting and resuming a select statement\<close>

lemma loop_inv_aborted [simp]: "loop_inv (w\<lparr>aborted := xs\<rparr>) = loop_inv w"
  by (simp add: inv_defs)

lemma take_case_inv:
  assumes "loop_inv w" "case_chan k = Some c" "case_ready w k"
  shows "loop_inv (snd (take_case u k c w))"
proof (cases "case_send k")
  case True
  then show ?thesis
    using assms channel_select.snd_ready [of "chans w c" "item_of u k" "case_id k"]
    by (auto simp: take_case_def Let_def split_beta case_ready_def split: sum.splits option.splits
      intro!: chan_update_inv(1) dest: step_ok_try_send)
next
  case False
  then obtain r where "(Inr (try_select_receive (case_id k) (chans w c)) :: _ res) = Inr (Some r)"
    using assms channel_select.recv_ready [of "chans w c" "case_id k"] by (auto simp: case_ready_def)
  with False assms show ?thesis
    by (auto simp: take_case_def Let_def split_beta try_select_receive_def split: option.splits
      intro!: chan_update_inv(1) dest: step_ok_try_receive)
qed

text \<open>A select operation either acts at once like a plain one, or queues its own task.\<close>

definition queues :: "bool \<Rightarrow> select_task \<Rightarrow> 'v chan \<Rightarrow> 'v chan \<Rightarrow> bool" where
  "queues b t ch ch' \<longleftrightarrow> waiting b ch' = waiting b ch @ [t] \<and> waiting (\<not> b) ch' = waiting (\<not> b) ch \<and>
     (chan_inv ch \<longrightarrow> chan_inv ch')"

lemma select_receive_cases:
  assumes "chan_select_receive t a ch = (ch', js, rep)" "t \<notin> set (waiting False ch)"
  shows "if OkSelect t \<in> set (receivers_ok ch') then js = [] \<and> queues False t ch ch'
    else step_ok ch ch' js"
proof (cases "try_receive ch")
  case None
  then show ?thesis
    using assms chan_after_inv_step [of ch "OpSelectReceive t a"]
    by (auto simp: chan_select_receive_def queues_def waiting_def set_ok_selects step_ok_def split: if_splits)
next
  case (Some r)
  then have "step_ok ch ch' js"
    using assms by (cases r) (auto simp: chan_select_receive_def dest: step_ok_try_receive)
  moreover from this have "t \<notin> set (waiting False ch')" using assms by (auto simp: step_ok_def)
  ultimately show ?thesis by (simp add: waiting_def set_ok_selects)
qed

lemma select_send_cases:
  assumes "chan_select_send v t a ch = (ch', js, rep)" "t \<notin> set (waiting True ch)"
  shows "if SendSelect t \<in> snd ` set (senders ch') then js = [] \<and> queues True t ch ch'
    else step_ok ch ch' js"
  using assms chan_after_inv_step [of ch "OpSelectSend v t a"]
  by (cases "receivers ch"; cases "receivers_ok ch")
    (auto simp: chan_select_send_def Let_def queues_def step_ok_simps set_send_selects
      split: if_splits ok_task.splits)

lemma queue_task_inv:
  assumes inv: "loop_inv w" and p: "sel_promise t = fresh w" "sel_chan t = c"
    and q: "queues b t (chans w c) ch'"
    and w1: "w1 = snd (new_promise w)"
  shows "loop_inv ((put_chan c ch' w1)\<lparr>listeners := listeners w1 @ [(b, t)]\<rparr>)" (is "loop_inv ?w2")
proof -
  have i: "tasks_inv w" "listeners_inv w" "jobs_inv w" "\<And>c. chan_inv (chans w c)"
    using inv by (simp_all add: loop_inv_def)
  have lt: "sel_promise (snd l) < fresh w" if "l \<in> set (listeners w)" for l
    using i(2) that by (simp add: listeners_inv_def)
  have wt: "t \<notin> set (waiting d (chans w e))" for d e
    using i(1) lt [of "(d, t)"] p by (auto simp: tasks_inv_def)
  have w2: "chans ?w2 = (chans w)(c := ch')" "listeners ?w2 = listeners w @ [(b, t)]"
    "done_tasks ?w2 = done_tasks w" "fresh ?w2 = Suc (fresh w)" "micro ?w2 = micro w" "timers ?w2 = timers w"
    by (simp_all add: w1 new_promise_def put_chan_def)
  have q': "waiting d ch' = (if d = b then waiting b (chans w c) @ [t] else waiting d (chans w c))" for d
    using q by (cases d; cases b) (auto simp: queues_def)
  have "\<forall>c. chan_inv (chans ?w2 c)" unfolding w2(1) using i(4) q by (auto simp: queues_def)
  moreover have "tasks_inv ?w2"
    unfolding tasks_inv_def w2 using i(1) p wt by (auto simp: q' tasks_inv_def)
  moreover have "listeners_inv ?w2"
    unfolding listeners_inv_def w2 using i(2) p lt
    by (auto simp: listeners_inv_def less_Suc_eq dest!: lt)
  moreover have "jobs_inv ?w2"
    using i(3) p unfolding jobs_inv_def task_known_def w2 by fastforce
  ultimately show ?thesis unfolding loop_inv_def by blast
qed

lemma loop_inv_settle_listeners [simp]:
  "loop_inv (settle p out w\<lparr>listeners := ls\<rparr>) = loop_inv (w\<lparr>listeners := ls\<rparr>)"
  by (simp add: inv_defs)

lemma queue_micro_Nil [simp]: "queue_micro [] w = w"
  by (simp add: queue_micro_def)

lemma block_case_inv:
  assumes inv: "loop_inv w"
  shows "loop_inv (snd (block_case u s k c w))"
proof -
  let ?b = "case_send k" and ?w1 = "snd (new_promise w)"
  let ?t = "\<lparr>sel_promise = fresh w, sel_id = case_id k, sel_chan = c, sel_signal = Some s\<rparr>"
  let ?stop = "s \<in> set (aborted w)"
  obtain ch' js rep where r: "(if ?b then chan_select_send (item_of u k) ?t ?stop (chans w c)
      else chan_select_receive ?t ?stop (chans w c)) = (ch', js, rep)"
    by (cases "if ?b then chan_select_send (item_of u k) ?t ?stop (chans w c)
      else chan_select_receive ?t ?stop (chans w c)")
  let ?queued = "if ?b then SendSelect ?t \<in> snd ` set (senders ch') else OkSelect ?t \<in> set (receivers_ok ch')"
  have nw: "?t \<notin> set (waiting d (chans w c))" for d
    using known_waiting [OF inv, of ?t d c] by (auto simp: task_known_def)
  have c: "if ?queued then js = [] \<and> queues ?b ?t (chans w c) ch' else step_ok (chans w c) ch' js"
    using r select_send_cases [of "item_of u k" ?t ?stop "chans w c" ch' js rep, OF _ nw]
      select_receive_cases [of ?t ?stop "chans w c" ch' js rep, OF _ nw] by (cases ?b) simp_all
  have e: "snd (block_case u s k c w) =
      (if ?queued then (commit (fresh w) c (ch', js, rep) ?w1)\<lparr>listeners := listeners (commit (fresh w) c (ch', js, rep) ?w1) @ [(?b, ?t)]\<rparr>
       else commit (fresh w) c (ch', js, rep) ?w1)"
    using r by (auto simp: block_case_def new_promise_def Let_def split: if_splits)
  have l: "listeners (commit (fresh w) c (ch', js, rep) ?w1) = listeners ?w1"
    by (cases rep) (simp_all add: commit_def queue_micro_def put_chan_def)
  show ?thesis
  proof (cases ?queued)
    case True
    then have "loop_inv ((put_chan c ch' ?w1)\<lparr>listeners := listeners ?w1 @ [(?b, ?t)]\<rparr>)"
      using c by (intro queue_task_inv [OF inv]) (simp_all split: if_splits)
    with True c show ?thesis unfolding e l by (cases rep) (simp_all add: commit_def split: if_splits)
  next
    case False
    with c have "step_ok (chans ?w1 c) ch' js" by (simp split: if_splits)
    from commit_inv [OF loop_inv_new_promise [OF inv] this] False show ?thesis unfolding e by simp
  qed
qed

lemma block_cases_inv: "loop_inv w \<Longrightarrow> loop_inv (snd (block_cases u s ks w))"
proof (induction ks arbitrary: w)
  case (Cons k ks)
  then show ?case
    using block_case_inv [OF Cons.prems] by (auto simp: split_beta split: option.splits)
qed simp

lemma select_start_inv:
  assumes inv: "loop_inv w" and r: "0 \<le> rnd" "rnd < 1"
  shows "loop_inv (snd (select_start rnd u cases d w))"
proof (cases "ready_cases w cases = []")
  case True
  with inv show ?thesis
    by (auto simp: select_start_def Let_def split_beta loop_inv_new_promise block_cases_inv)
next
  case False
  let ?k = "ready_cases w cases ! pick_index rnd (length (ready_cases w cases))"
  have "?k \<in> set (ready_cases w cases)" using pick_index_bound [OF r] False by simp
  then have "case_ready w ?k" by (simp add: ready_cases_def)
  then show ?thesis
    using False inv take_case_inv [OF inv]
    by (auto simp: select_start_def Let_def ready_cases_def split: option.splits)
qed

text \<open>Aborting a signal retires the waiting tasks of its select, one listener after another.\<close>

lemma fold_abort:
  assumes "loop_inv w" "set ls \<subseteq> set (listeners w)" "distinct ls"
  shows "loop_inv (fold task_abort ls w) \<and>
    listeners (fold task_abort ls w) = filter (\<lambda>l. l \<notin> set ls) (listeners w) \<and>
    (\<forall>b c. waiting b (chans (fold task_abort ls w) c) = filter (\<lambda>t. (b, t) \<notin> set ls) (waiting b (chans w c)))"
  using assms
proof (induction ls arbitrary: w)
  case (Cons l ls)
  have i: "tasks_inv w" "listeners_inv w" using Cons.prems(1) by (simp_all add: loop_inv_def)
  have nd: "sel_promise (snd l) \<notin> set (done_tasks w)" using i(2) Cons.prems(2) by (simp add: listeners_inv_def)
  then have e: "task_abort l w = retire l w" by (simp add: task_abort_def retire_def)
  have "task_known w l"
    using i(2) Cons.prems(2) by (auto simp: task_known_def listeners_inv_def distinct_map inj_on_def)
  from retire_inv [OF Cons.prems(1) this nd] have inv: "loop_inv (retire l w)" .
  have "set ls \<subseteq> set (listeners (retire l w))"
    using Cons.prems by (auto simp: retire_listeners [OF i(2)])
  from Cons.IH [OF inv this] Cons.prems(3) show ?case
    by (auto simp: e retire_listeners [OF i(2)] retire_waiting [OF i(1)] intro!: filter_cong)
qed simp

lemma abort_signal_spec:
  assumes "loop_inv w"
  shows "loop_inv (abort_signal s w)"
    "waiting b (chans (abort_signal s w) c) = filter (\<lambda>t. sel_signal t \<noteq> Some s) (waiting b (chans w c))"
    "listeners (abort_signal s w) = filter (\<lambda>l. sel_signal (snd l) \<noteq> Some s) (listeners w)"
proof -
  let ?w = "w\<lparr>aborted := s # aborted w\<rparr>"
  let ?ls = "filter (\<lambda>l. sel_signal (snd l) = Some s) (listeners w)"
  have "distinct (listeners w)" using assms by (auto simp: loop_inv_def listeners_inv_def distinct_map)
  then have f: "loop_inv (fold task_abort ?ls ?w) \<and>
    listeners (fold task_abort ?ls ?w) = filter (\<lambda>l. l \<notin> set ?ls) (listeners ?w) \<and>
    (\<forall>b c. waiting b (chans (fold task_abort ?ls ?w) c) = filter (\<lambda>t. (b, t) \<notin> set ?ls) (waiting b (chans ?w c)))"
    using assms by (intro fold_abort) auto
  then show "loop_inv (abort_signal s w)" by (simp add: abort_signal_def)
  show "listeners (abort_signal s w) = filter (\<lambda>l. sel_signal (snd l) \<noteq> Some s) (listeners w)"
    using f by (auto simp: abort_signal_def intro!: filter_cong)
  have "(b, t) \<in> set (listeners w)" if "t \<in> set (waiting b (chans w c))" for t
    using assms that by (auto simp: loop_inv_def tasks_inv_def)
  then show "waiting b (chans (abort_signal s w) c) = filter (\<lambda>t. sel_signal t \<noteq> Some s) (waiting b (chans w c))"
    using f by (auto simp: abort_signal_def intro!: filter_cong)
qed

lemma select_resume_inv: "loop_inv w \<Longrightarrow> loop_inv (snd (select_resume cases ps s w))"
  by (auto simp: select_resume_def abort_signal_spec split: option.splits outcome.splits)

lemma waiting_new: "new_channel cap z = Inr ch \<Longrightarrow> waiting b ch = []"
  by (auto simp: new_channel_def waiting_def split: if_splits)

lemma initial_loop_inv: "initial_loop w \<Longrightarrow> loop_inv w"
proof -
  assume i: "initial_loop w"
  then have e: "waiting b (chans w c) = []" for b c
    unfolding initial_loop_def by (meson waiting_new)
  have "\<exists>cap z. new_channel cap z = Inr (chans w c)" for c using i by (simp add: initial_loop_def)
  then have "chan_inv (chans w c)" for c using new_channel_inv by metis
  with i e show "loop_inv w"
    by (simp add: initial_loop_def loop_inv_def tasks_inv_def listeners_inv_def jobs_inv_def)
qed

lemma loop_step_inv: "loop_step w w' \<Longrightarrow> loop_inv w \<Longrightarrow> loop_inv w'"
proof (induction rule: loop_step.induct)
  case (step_micro w j js)
  then have "\<forall>bt\<in>set (job_tasks j). task_known (w\<lparr>micro := js\<rparr>) bt"
    by (auto simp: loop_inv_def jobs_inv_def)
  moreover have "loop_inv (w\<lparr>micro := js\<rparr>)" using step_micro by (intro loop_inv_dequeue) auto
  ultimately show ?case by (intro exec_job_inv)
next
  case (step_timer w j js)
  then have "\<forall>bt\<in>set (job_tasks j). task_known (w\<lparr>timers := js\<rparr>) bt"
    by (auto simp: loop_inv_def jobs_inv_def)
  moreover have "loop_inv (w\<lparr>timers := js\<rparr>)" using step_timer by (intro loop_inv_dequeue) auto
  ultimately show ?case by (intro exec_job_inv)
qed (simp_all add: chanSend_inv chanRecv_inv chanRecvWithOk_inv close_channel_inv select_start_inv
  select_resume_inv)

lemma reachable_inv: "loop_step\<^sup>*\<^sup>* w w' \<Longrightarrow> loop_inv w \<Longrightarrow> loop_inv w'"
  by (induction rule: rtranclp_induct) (auto intro: loop_step_inv)

text \<open>C7. In every reachable state of the concurrent runtime, whatever calls, microtasks,
  timers and selects produced it: each channel satisfies its invariant, each select task
  waits at most once and only on its own channel with its abort listener registered, no
  listener belongs to a finished task and no two listeners share a promise.\<close>

theorem concurrent_runtime_invariant:
  assumes "initial_loop w0" "loop_step\<^sup>*\<^sup>* w0 w"
  shows "(\<forall>c. chan_inv (chans w c)) \<and>
    (\<forall>c b t. t \<in> set (waiting b (chans w c)) \<longrightarrow> sel_chan t = c \<and> (b, t) \<in> set (listeners w)) \<and>
    (\<forall>c b. distinct (waiting b (chans w c))) \<and>
    (\<forall>l\<in>set (listeners w). sel_promise (snd l) \<notin> set (done_tasks w)) \<and>
    distinct (map (\<lambda>l. sel_promise (snd l)) (listeners w))"
  using reachable_inv [OF assms(2) initial_loop_inv [OF assms(1)]]
  by (simp add: loop_inv_def tasks_inv_def listeners_inv_def)

text \<open>C8. When a select statement resumes with a result it withdraws from all its other
  channels: no task of its signal waits anywhere afterwards, and the tasks of other selects
  keep their places.\<close>

theorem select_withdraws_losers:
  assumes "initial_loop w0" "loop_step\<^sup>*\<^sup>* w0 w"
    and "select_resume cases ps s w = (EndSelected k out, w')"
  shows "waiting b (chans w' c) = filter (\<lambda>t. sel_signal t \<noteq> Some s) (waiting b (chans w c)) \<and>
    (\<forall>l\<in>set (listeners w'). sel_signal (snd l) \<noteq> Some s)"
proof -
  have "w' = abort_signal s w"
    using assms(3) by (auto simp: select_resume_def split: option.splits outcome.splits)
  then show ?thesis
    using abort_signal_spec(2,3) [OF reachable_inv [OF assms(2) initial_loop_inv [OF assms(1)]]] by simp
qed

subsection \<open>A select that waits on two channels\<close>

definition unbuffered :: "int chan" where
  "unbuffered = \<lparr>buffer = [], is_closed = False, capacity = 0, zero_value = 0, senders = [],
     receivers = [], receivers_ok = []\<rparr>"

definition two_cases :: "int select_case list" where
  "two_cases = [recv_case 1 0, recv_case 2 1]"

text \<open>The state in which the select waits on channels 0 and 1, and after the sends of two
  goroutines that run in the same tick, one to each channel.\<close>

definition both_waiting :: "int select_step \<times> int loop" where
  "both_waiting = select_start 0 0 two_cases False (one_channel unbuffered)"

definition both_sent :: "int \<Rightarrow> int \<Rightarrow> int loop" where
  "both_sent x y = drain (snd (chanSend (Some 1) y (snd (chanSend (Some 0) x (snd both_waiting)))))"

lemma one_channel_initial: "initial_loop (one_channel unbuffered)"
proof -
  have "new_channel 0 0 = Inr unbuffered" by (simp add: new_channel_def unbuffered_def)
  then show ?thesis by (auto simp: initial_loop_def one_channel_def)
qed

lemmas select_eval = select_start_def block_case_def new_promise_def chan_select_receive_def
  commit_def queue_micro_def put_chan_def try_receive_def shift_buffer_def ready_cases_def
  case_ready_def can_receive_def Let_def

lemma both_waiting_state:
  "both_waiting = (SelRace [11, 12] 10,
     \<lparr>chans = (\<lambda>_. unbuffered)
        (0 := unbuffered\<lparr>receivers_ok := [OkSelect \<lparr>sel_promise = 11, sel_id = 1, sel_chan = 0, sel_signal = Some 10\<rparr>]\<rparr>,
         1 := unbuffered\<lparr>receivers_ok := [OkSelect \<lparr>sel_promise = 12, sel_id = 2, sel_chan = 1, sel_signal = Some 10\<rparr>]\<rparr>),
      settled = [], done_tasks = [],
      listeners = [(False, \<lparr>sel_promise = 11, sel_id = 1, sel_chan = 0, sel_signal = Some 10\<rparr>),
        (False, \<lparr>sel_promise = 12, sel_id = 2, sel_chan = 1, sel_signal = Some 10\<rparr>)],
      aborted = [], micro = [], timers = [], fresh = 13\<rparr>)"
  by (simp add: both_waiting_def two_cases_def recv_case_def one_channel_def unbuffered_def select_eval)

lemma both_sent_state:
  "settled (both_sent x y) = [(11, SelectedReceive x True 1), (12, SelectedReceive y True 2), (13, Sent), (14, Sent)] \<and>
   contents (chans (both_sent x y) 0) = [] \<and> contents (chans (both_sent x y) 1) = []"
  by (simp add: both_sent_def both_waiting_state chanSend_def new_promise_def commit_def chan_send_def
      unbuffered_def queue_micro_def put_chan_def drain_Cons task_finish_def task_cleanup_def
      cleanup_receiver_def settle_def Let_def contents_def)

lemma both_sent_reachable: "loop_step\<^sup>*\<^sup>* (one_channel unbuffered) (snd both_waiting)"
  unfolding both_waiting_def by (rule r_into_rtranclp, rule step_select) simp_all

theorem concurrent_runtime_invariant_witness:
  "chan_inv (chans (snd both_waiting) 0) \<and> distinct (waiting False (chans (snd both_waiting) 1)) \<and>
   distinct (map (\<lambda>l. sel_promise (snd l)) (listeners (snd both_waiting)))"
  using concurrent_runtime_invariant [OF one_channel_initial both_sent_reachable] by blast

theorem select_withdraws_losers_witness:
  "\<exists>w w' :: int loop. loop_step w w' \<and> waiting False (chans w 1) \<noteq> [] \<and> waiting False (chans w' 1) = []"
proof -
  let ?t = "\<lparr>sel_promise = 12, sel_id = 2, sel_chan = 1, sel_signal = Some 10\<rparr>"
  define w where "w = (let w1 = snd (chanSend (Some 0) 5 (snd both_waiting)) in
    exec_job (hd (micro w1)) (w1\<lparr>micro := tl (micro w1)\<rparr>))"
  note e = both_waiting_state chanSend_def new_promise_def commit_def chan_send_def
    unbuffered_def queue_micro_def put_chan_def task_finish_def task_cleanup_def
    cleanup_receiver_def settle_def Let_def
  have m: "micro (snd (chanSend (Some 0) 5 (snd both_waiting))) \<noteq> []" by (simp add: e)
  have "loop_step (snd (chanSend (Some 0) 5 (snd both_waiting))) w"
    unfolding w_def Let_def using m by (intro step_micro) simp
  with both_sent_reachable have reach: "loop_step\<^sup>*\<^sup>* (one_channel unbuffered) w"
    by (meson rtranclp.rtrancl_into_rtrancl step_send)
  have r: "select_resume two_cases [11, 12] 10 w = (EndSelected (Some (recv_case 1 0)) (SelectedReceive 5 True 1),
      abort_signal 10 w)"
    by (simp add: w_def e select_resume_def race_winner_def two_cases_def recv_case_def)
  have f: "waiting False (chans w 1) = [?t]" by (simp add: w_def e waiting_def)
  with select_withdraws_losers [OF one_channel_initial reach r, of False 1]
  have "waiting False (chans (abort_signal 10 w) 1) = []" by simp
  moreover have "loop_step w (abort_signal 10 w)"
    using step_resume [of w two_cases "[11, 12]" 10] by (simp add: r)
  ultimately show ?thesis using f by (intro exI [of _ w] exI [of _ "abort_signal 10 w"]) simp
qed

text \<open>A select blocked on two channels can consume a value from each: when two goroutines
  send in the same tick, both sends succeed, the statement reports the value of the first
  channel only, and the second value is neither in its channel nor delivered to any
  handler.\<close>

theorem select_double_commit:
  "fst both_waiting = SelRace [11, 12] 10 \<and>
   (case select_resume two_cases [11, 12] 10 (both_sent x y) of (st, w') \<Rightarrow>
      st = EndSelected (Some (recv_case 1 0)) (SelectedReceive x True 1) \<and>
      (13, Sent) \<in> set (settled w') \<and> (14, Sent) \<in> set (settled w') \<and>
      contents (chans (both_sent x y) 1) = [])"
proof -
  have "race_winner [11, 12] (both_sent x y) = Some (SelectedReceive x True 1)"
    using both_sent_state [of x y] by (simp add: race_winner_def)
  moreover have "settled (fold task_abort ls w) = settled w" for ls and w :: "int loop"
    by (induction ls arbitrary: w) (simp_all add: task_abort_def)
  ultimately show ?thesis
    using both_sent_state [of x y]
    by (simp add: select_resume_def both_waiting_state two_cases_def recv_case_def abort_signal_def)
qed

definition self_cases :: "int \<Rightarrow> int select_case list" where
  "self_cases x = [(recv_case 1 0)\<lparr>case_send := True, case_item := Some x\<rparr>, recv_case 2 0]"

text \<open>A select that both sends to and receives from one open unbuffered channel nobody
  else uses does not block: its second case finds the task its first case has just queued,
  the statement communicates with itself, and it returns its own value.\<close>

theorem select_self_rendezvous:
  "case select_start 0 0 (self_cases x) False (one_channel unbuffered) of (st, w) \<Rightarrow>
     st = SelRace [11, 12] 10 \<and>
     fst (select_resume (self_cases x) [11, 12] 10 w) =
       EndSelected (Some (recv_case 2 0)) (SelectedReceive x True 2)"
  by (simp add: recv_case_def one_channel_def unbuffered_def select_eval chan_select_send_def
      item_of_def can_send_def settle_def select_resume_def race_winner_def self_cases_def)

end
