(* ===== verification/GsSlice.thy ===== *)
theory GsSlice
  imports GsPrelude
begin

section \<open>Slices of general element type (gs/builtin/slice.ts)\<close>

text \<open>
  A slice value is null, a plain JavaScript array, or a proxy over a window of a backing
  array. Arrays and proxies are objects with an identity, so the state is a heap: every
  array is a list of cells (\<open>None\<close> is JavaScript's \<open>undefined\<close>, the content of a hole) and
  every proxy is a \<open>view\<close>, the fields of its \<open>__meta__\<close> object, with the kind of handler it
  was created with, since the handlers differ in what a write past the length does. The
  \<open>target\<close> arrays that mirror writes are never read through an index and are not modelled;
  arguments are taken as already unwrapped by \<open>collectionValue\<close>, and indices are integers.
  Slices of bytes (\<open>Uint8Array\<close>) are in GsByteSlice.
\<close>

type_synonym 'v cell = "'v option"

datatype handler = MakeProxy | ResliceProxy | WrapProxy

record view =
  v_back :: nat
  v_off :: nat
  v_len :: nat
  v_cap :: nat
  v_kind :: handler

datatype slice = SNil | SArr nat | SView nat

record 'v heap =
  arrays :: "nat \<Rightarrow> 'v cell list"
  views :: "nat \<Rightarrow> view"
  next_array :: nat
  next_view :: nat

text \<open>Reading and writing \<open>a[i]\<close> on a JavaScript array: a read past the end is \<open>undefined\<close>, a
  write past the end extends the array and leaves holes.\<close>

definition js_read :: "'v cell list \<Rightarrow> nat \<Rightarrow> 'v cell" where
  "js_read xs i = (if i < length xs then xs ! i else None)"

definition js_write :: "'v cell list \<Rightarrow> nat \<Rightarrow> 'v cell \<Rightarrow> 'v cell list" where
  "js_write xs i v =
     (if i < length xs then xs[i := v] else xs @ replicate (i - length xs) None @ [v])"

text \<open>\<open>for (i = 0; i < n; i++) a[start + i] = vs[i]\<close>\<close>

fun js_write_seq :: "'v cell list \<Rightarrow> nat \<Rightarrow> 'v cell list \<Rightarrow> 'v cell list" where
  "js_write_seq xs start [] = xs"
| "js_write_seq xs start (v # vs) = js_write_seq (js_write xs start v) (Suc start) vs"

definition new_array :: "'v cell list \<Rightarrow> 'v heap \<Rightarrow> nat \<times> 'v heap" where
  "new_array xs h =
     (next_array h, h\<lparr>arrays := (arrays h)(next_array h := xs), next_array := Suc (next_array h)\<rparr>)"

definition new_view :: "view \<Rightarrow> 'v heap \<Rightarrow> slice \<times> 'v heap" where
  "new_view m h =
     (SView (next_view h), h\<lparr>views := (views h)(next_view h := m), next_view := Suc (next_view h)\<rparr>)"

definition set_array :: "nat \<Rightarrow> 'v cell list \<Rightarrow> 'v heap \<Rightarrow> 'v heap" where
  "set_array a xs h = h\<lparr>arrays := (arrays h)(a := xs)\<rparr>"

subsection \<open>Length, capacity and element access\<close>

fun slen :: "'v heap \<Rightarrow> slice \<Rightarrow> nat" where
  "slen h SNil = 0"
| "slen h (SArr a) = length (arrays h a)"
| "slen h (SView p) = v_len (views h p)"

fun scap :: "'v heap \<Rightarrow> slice \<Rightarrow> nat" where
  "scap h SNil = 0"
| "scap h (SArr a) = length (arrays h a)"
| "scap h (SView p) = v_cap (views h p)"

definition index_panic :: "int \<Rightarrow> nat \<Rightarrow> js_exn" where
  "index_panic i n =
     (if i < 0 then RuntimePanic (''runtime error: index out of range ['' @ int_string i @ '']'')
      else RuntimePanic (''runtime error: index out of range ['' @ int_string i @
        ''] with length '' @ nat_string n))"

fun cell_at :: "'v heap \<Rightarrow> slice \<Rightarrow> nat \<Rightarrow> 'v cell" where
  "cell_at h SNil i = None"
| "cell_at h (SArr a) i = js_read (arrays h a) i"
| "cell_at h (SView p) i = js_read (arrays h (v_back (views h p))) (v_off (views h p) + i)"

text \<open>\<open>arrayIndex\<close>, and \<open>index\<close> which differs only on null.\<close>

definition arrayIndex :: "'v heap \<Rightarrow> slice \<Rightarrow> int \<Rightarrow> 'v cell res" where
  "arrayIndex h s i =
     (if i < 0 \<or> int (slen h s) \<le> i then Inl (index_panic i (slen h s))
      else Inr (cell_at h s (nat i)))"

definition go_index :: "'v heap \<Rightarrow> slice \<Rightarrow> int \<Rightarrow> 'v cell res" where
  "go_index h s i =
     (if s = SNil then Inl (RuntimePanic ''runtime error: index on nil or undefined collection'')
      else arrayIndex h s i)"

text \<open>The \<open>set\<close> traps of the proxies. A slice made by \<open>goSlice\<close> accepts a write at its length
  when there is capacity, and grows by it.\<close>

definition trap_panic :: "handler \<Rightarrow> nat \<Rightarrow> nat \<Rightarrow> js_exn" where
  "trap_panic k i n =
     (if k = WrapProxy then index_panic (int i) n
      else RuntimePanic (''Slice index out of range: '' @ nat_string i @ '' >= '' @ nat_string n))"

definition view_get :: "'v heap \<Rightarrow> nat \<Rightarrow> nat \<Rightarrow> 'v cell res" where
  "view_get h p i =
     (let m = views h p in
      if i < v_len m then Inr (js_read (arrays h (v_back m)) (v_off m + i))
      else Inl (trap_panic (v_kind m) i (v_len m)))"

definition view_set :: "nat \<Rightarrow> nat \<Rightarrow> 'v \<Rightarrow> 'v heap \<Rightarrow> 'v heap res" where
  "view_set p i v h =
     (let m = views h p;
          written = set_array (v_back m) (js_write (arrays h (v_back m)) (v_off m + i) (Some v)) h in
      if i < v_len m then Inr written
      else if v_kind m = ResliceProxy \<and> i = v_len m \<and> v_len m < v_cap m
      then Inr (written\<lparr>views := (views h)(p := m\<lparr>v_len := Suc (v_len m)\<rparr>)\<rparr>)
      else Inl (trap_panic (v_kind m) i (v_len m)))"

definition asArray :: "'v heap \<Rightarrow> slice \<Rightarrow> 'v cell list" where
  "asArray h s = map (cell_at h s) [0..<slen h s]"

definition sliceToArray :: "'v heap \<Rightarrow> slice \<Rightarrow> nat \<Rightarrow> 'v cell list res" where
  "sliceToArray h s n =
     (if slen h s < n
      then Inl (RuntimePanic (''runtime error: cannot convert slice with length '' @
        nat_string (slen h s) @ '' to array or pointer to array with length '' @ nat_string n))
      else Inr (take n (asArray h s)))"

subsection \<open>makeSlice and goSlice\<close>

definition makeSlice :: "int \<Rightarrow> int option \<Rightarrow> 'v \<Rightarrow> 'v heap \<Rightarrow> (slice \<times> 'v heap) res" where
  "makeSlice n capacity zero h =
     (let actual = (case capacity of None \<Rightarrow> n | Some c \<Rightarrow> c) in
      if n < 0 \<or> actual < 0 \<or> actual < n
      then Inl (RuntimePanic (if actual < 0 then ''runtime error: makeslice: cap out of range''
                              else ''runtime error: makeslice: len out of range''))
      else let (a, h1) = new_array (replicate (nat actual) (Some zero)) h in
        if n = actual then Inr (SArr a, h1)
        else Inr (new_view \<lparr>v_back = a, v_off = 0, v_len = nat n, v_cap = nat actual, v_kind = MakeProxy\<rparr> h1))"

definition bounds_panic :: "string \<Rightarrow> string \<Rightarrow> js_exn" where
  "bounds_panic bounds tail = RuntimePanic (''runtime error: slice bounds out of range ['' @ bounds @ '']'' @ tail)"

definition limit_panic :: "int \<Rightarrow> int \<Rightarrow> js_exn" where
  "limit_panic x y = RuntimePanic (''Slice index out of range: '' @ int_string x @ '' > '' @ int_string y)"

definition opt_index :: "int option \<Rightarrow> int \<Rightarrow> int" where
  "opt_index i d = (case i of None \<Rightarrow> d | Some x \<Rightarrow> x)"

definition goSlice_nil :: "int \<Rightarrow> int \<Rightarrow> int option \<Rightarrow> slice res" where
  "goSlice_nil lo hi mx =
     (if lo < 0 \<or> hi < lo then Inl (bounds_panic (int_string lo @ '':'' @ int_string hi) [])
      else if lo \<noteq> 0 \<or> hi \<noteq> 0 then Inl (bounds_panic ('':'' @ int_string hi) '' with capacity 0'')
      else case mx of
        Some m \<Rightarrow> if m \<noteq> 0 then Inl (bounds_panic (''::'' @ int_string m) '' with capacity 0'') else Inr SNil
      | None \<Rightarrow> Inr SNil)"

text \<open>The new capacity, or the panic, of the three-index form; \<open>oldOffset\<close> and \<open>oldCap\<close> are
  those of a proxy, for a plain array \<open>0\<close> and its length.\<close>

definition slice_capacity :: "'v heap \<Rightarrow> slice \<Rightarrow> int \<Rightarrow> int \<Rightarrow> int option \<Rightarrow> int res" where
  "slice_capacity h s lo hi mx =
     (case mx of
        None \<Rightarrow> Inr (int (scap h s) - lo)
      | Some m \<Rightarrow>
          (if m < hi then Inl (bounds_panic ('':'' @ int_string hi @ '':'' @ int_string m) [])
           else case s of
             SView p \<Rightarrow>
               (let lim = int (v_off (views h p) + v_cap (views h p)) in
                if lim < m then Inl (limit_panic m lim) else Inr (m - lo))
           | _ \<Rightarrow>
               (if int (slen h s) < m then Inl (limit_panic m (int (slen h s))) else Inr (m - lo))))"

definition slice_base :: "'v heap \<Rightarrow> slice \<Rightarrow> nat \<times> nat" where
  "slice_base h s =
     (case s of SNil \<Rightarrow> (0, 0) | SArr a \<Rightarrow> (a, 0) | SView p \<Rightarrow> (v_back (views h p), v_off (views h p)))"

definition goSlice ::
  "slice \<Rightarrow> int option \<Rightarrow> int option \<Rightarrow> int option \<Rightarrow> 'v heap \<Rightarrow> (slice \<times> 'v heap) res" where
  "goSlice s low high mx h =
     (if s = SNil then bindR (goSlice_nil (opt_index low 0) (opt_index high 0) mx) (\<lambda>r. Inr (r, h))
      else
        let lo = opt_index low 0; hi = opt_index high (int (slen h s)) in
        if lo < 0 \<or> hi < lo then Inl (bounds_panic (int_string lo @ '':'' @ int_string hi) [])
        else if int (scap h s) < hi then Inl (limit_panic hi (int (scap h s)))
        else if (case s of SArr a \<Rightarrow> lo = 0 \<and> hi = int (slen h s) \<and> mx = None | _ \<Rightarrow> False)
        then Inr (s, h)
        else bindR (slice_capacity h s lo hi mx) (\<lambda>newCap.
          let (backing, oldOffset) = slice_base h s;
              newLength = nat (hi - lo); newOffset = oldOffset + nat lo in
          if newOffset = 0 \<and> newLength = nat newCap \<and> length (arrays h backing) = newLength
          then Inr (SArr backing, h)
          else Inr (new_view \<lparr>v_back = backing, v_off = newOffset, v_len = newLength,
                              v_cap = nat newCap, v_kind = ResliceProxy\<rparr> h)))"

subsection \<open>append and appendSlice\<close>

text \<open>The capacity after a reallocation: double below 1024 elements, then a quarter more, and
  never less than needed.\<close>

definition grow_cap :: "nat \<Rightarrow> nat \<Rightarrow> nat \<Rightarrow> nat" where
  "grow_cap oldLength oldCapacity newLength =
     (if oldCapacity = 0 then newLength
      else if oldLength < 1024 then max (oldCapacity * 2) newLength
      else max (oldCapacity + oldCapacity div 4) newLength)"

text \<open>A new backing array: the old elements, the added ones, and holes up to the capacity.\<close>

definition realloc :: "'v cell list \<Rightarrow> 'v cell list \<Rightarrow> nat \<Rightarrow> 'v heap \<Rightarrow> slice \<times> 'v heap" where
  "realloc old added capacity h =
     (let n = length old + length added;
          (a, h1) = new_array (old @ added @ replicate (capacity - n) None) h
      in new_view \<lparr>v_back = a, v_off = 0, v_len = n, v_cap = capacity, v_kind = WrapProxy\<rparr> h1)"

definition append_in_place :: "view \<Rightarrow> 'v cell list \<Rightarrow> 'v heap \<Rightarrow> slice \<times> 'v heap" where
  "append_in_place m added h =
     new_view (m\<lparr>v_len := v_len m + length added, v_kind := WrapProxy\<rparr>)
       (set_array (v_back m) (js_write_seq (arrays h (v_back m)) (v_off m + v_len m) added) h)"

definition go_append :: "slice \<Rightarrow> 'v list \<Rightarrow> 'v heap \<Rightarrow> slice \<times> 'v heap" where
  "go_append s els h =
     (let added = map Some els; n = slen h s + length els in
      if els = [] then (s, h)
      else if (case s of SView p \<Rightarrow> n \<le> v_cap (views h p) | _ \<Rightarrow> False)
      then append_in_place (case s of SView p \<Rightarrow> views h p) added h
      else realloc (asArray h s) added (grow_cap (slen h s) (scap h s) n) h)"

text \<open>The in-place loop of \<open>appendSlice\<close> reads the source through its slice while it writes,
  one element after the other.\<close>

fun copy_forward :: "nat \<Rightarrow> nat \<Rightarrow> slice \<Rightarrow> nat \<Rightarrow> nat \<Rightarrow> 'v heap \<Rightarrow> 'v heap" where
  "copy_forward a start src i 0 h = h"
| "copy_forward a start src i (Suc n) h =
     copy_forward a start src (Suc i) n
       (set_array a (js_write (arrays h a) (start + i) (cell_at h src i)) h)"

definition appendSlice :: "slice \<Rightarrow> slice \<Rightarrow> 'v heap \<Rightarrow> slice \<times> 'v heap" where
  "appendSlice s els h =
     (let count = slen h els; n = slen h s + count in
      if els = SNil \<or> count = 0 then (s, h)
      else if (case s of SView p \<Rightarrow> n \<le> v_cap (views h p) | _ \<Rightarrow> False)
      then (let m = (case s of SView p \<Rightarrow> views h p) in
            new_view (m\<lparr>v_len := n, v_kind := WrapProxy\<rparr>)
              (copy_forward (v_back m) (v_off m + v_len m) els 0 count h))
      else realloc (asArray h s) (asArray h els) n h)"

subsection \<open>copy and sort\<close>

text \<open>\<open>copyBetweenSlices\<close>: the source is read completely before the first write.\<close>

definition go_copy :: "slice \<Rightarrow> slice \<Rightarrow> 'v heap \<Rightarrow> nat \<times> 'v heap" where
  "go_copy dst src h =
     (if dst = SNil \<or> src = SNil then (0, h)
      else let count = min (slen h dst) (slen h src); vals = take count (asArray h src);
               (a, off) = slice_base h dst in
        if count = 0 then (0, h)
        else (count, set_array a (js_write_seq (arrays h a) off vals) h))"

text \<open>The \<open>sort\<close> of a proxy: sort a copy of the window, write it back; \<open>srt\<close> stands for
  \<open>Array.prototype.sort\<close> with the caller's comparison.\<close>

definition view_sort :: "('v cell list \<Rightarrow> 'v cell list) \<Rightarrow> nat \<Rightarrow> 'v heap \<Rightarrow> 'v heap" where
  "view_sort srt p h =
     (let m = views h p; xs = arrays h (v_back m);
          vals = srt (take (v_len m) (drop (v_off m) xs))
      in set_array (v_back m) (js_write_seq xs (v_off m) vals) h)"

subsection \<open>Well-formed heaps\<close>

definition view_ok :: "'v heap \<Rightarrow> view \<Rightarrow> bool" where
  "view_ok h m \<longleftrightarrow> v_back m < next_array h \<and> v_len m \<le> v_cap m \<and>
     v_off m + v_cap m \<le> length (arrays h (v_back m))"

definition heap_ok :: "'v heap \<Rightarrow> bool" where
  "heap_ok h \<longleftrightarrow> (\<forall>p<next_view h. view_ok h (views h p))"

fun slice_ok :: "'v heap \<Rightarrow> slice \<Rightarrow> bool" where
  "slice_ok h SNil = True"
| "slice_ok h (SArr a) = (a < next_array h)"
| "slice_ok h (SView p) = (p < next_view h \<and> view_ok h (views h p))"

text \<open>The cells a slice may come to show: its window up to the capacity.\<close>

definition window :: "'v heap \<Rightarrow> slice \<Rightarrow> 'v cell list" where
  "window h s = (case slice_base h s of (a, off) \<Rightarrow> take (scap h s) (drop off (arrays h a)))"

lemma slice_base_simps [simp]:
  "slice_base h (SArr a) = (a, 0)" "slice_base h (SView p) = (v_back (views h p), v_off (views h p))"
  by (simp_all add: slice_base_def)

lemma window_simps [simp]:
  "window h SNil = []" "window h (SArr a) = arrays h a"
  "window h (SView p) = take (v_cap (views h p)) (drop (v_off (views h p)) (arrays h (v_back (views h p))))"
  by (simp_all add: window_def slice_base_def)

lemma js_read_write: "js_read (js_write xs i v) j = (if j = i then v else js_read xs j)"
  by (auto simp: js_read_def js_write_def nth_append nth_Cons')

lemma js_write_seq_in:
  "start + length vs \<le> length xs \<Longrightarrow>
   js_write_seq xs start vs = take start xs @ vs @ drop (start + length vs) xs"
proof (induction vs arbitrary: xs start)
  case (Cons v vs)
  then have "js_write xs start v = take start xs @ [v] @ drop (Suc start) xs"
    by (simp add: js_write_def upd_conv_take_nth_drop)
  with Cons show ?case by (simp add: min_def add.commute)
qed simp

lemma cell_at_fun:
  "cell_at h (SArr a) = js_read (arrays h a)"
  "cell_at h (SView p) = (\<lambda>i. js_read (arrays h (v_back (views h p))) (v_off (views h p) + i))"
  by (simp_all add: fun_eq_iff)

lemma map_nth_take_drop:
  "off + n \<le> length xs \<Longrightarrow> map (\<lambda>i. js_read xs (off + i)) [0..<n] = take n (drop off xs)"
  by (rule nth_equalityI) (auto simp: js_read_def)

lemma asArray_simps:
  "asArray h SNil = []" "asArray h (SArr a) = arrays h a"
  "view_ok h (views h p) \<Longrightarrow>
     asArray h (SView p) = take (v_len (views h p)) (drop (v_off (views h p)) (arrays h (v_back (views h p))))"
  using map_nth_take_drop [of 0 "length (arrays h a)" "arrays h a"]
    map_nth_take_drop [of "v_off (views h p)" "v_len (views h p)" "arrays h (v_back (views h p))"]
  by (simp_all add: asArray_def view_ok_def cell_at_fun)

lemma length_asArray [simp]: "length (asArray h s) = slen h s"
  by (simp add: asArray_def)

lemma slice_ok_window:
  "slice_ok h s \<Longrightarrow> slen h s \<le> scap h s \<and> length (window h s) = scap h s \<and>
     asArray h s = take (slen h s) (window h s)"
  by (cases s) (auto simp: window_def slice_base_def asArray_simps view_ok_def min_def)

lemma heap_frame [simp]:
  "slen (set_array a xs h) (SView p) = slen h (SView p)" "scap (set_array a xs h) (SView p) = scap h (SView p)"
  "views (set_array a xs h) = views h" "next_view (set_array a xs h) = next_view h"
  "next_array (set_array a xs h) = next_array h" "arrays (set_array a xs h) = (arrays h)(a := xs)"
  by (simp_all add: set_array_def)

text \<open>What a step may do to the heap: old views and array lengths stay, and of the old cells
  only those of one range change.\<close>

definition only_changes :: "nat \<Rightarrow> nat set \<Rightarrow> 'v heap \<Rightarrow> 'v heap \<Rightarrow> bool" where
  "only_changes a I h h' \<longleftrightarrow>
     next_array h \<le> next_array h' \<and> next_view h \<le> next_view h' \<and>
     (\<forall>p<next_view h. views h' p = views h p) \<and>
     (\<forall>b<next_array h. length (arrays h' b) = length (arrays h b) \<and>
        (\<forall>i<length (arrays h b). b \<noteq> a \<or> i \<notin> I \<longrightarrow> arrays h' b ! i = arrays h b ! i))"

lemma only_changes_ok:
  assumes "only_changes a I h h'" "slice_ok h s"
  shows "slice_ok h' s" "slen h' s = slen h s" "scap h' s = scap h s"
  using assms by (cases s; auto simp: only_changes_def view_ok_def)+

lemma heap_ok_new_view:
  assumes "heap_ok h" "view_ok h m"
  shows "heap_ok (snd (new_view m h))" "slice_ok (snd (new_view m h)) (fst (new_view m h))"
  using assms by (auto simp: heap_ok_def new_view_def view_ok_def)

lemma heap_ok_new_array: "heap_ok h \<Longrightarrow> heap_ok (snd (new_array xs h))"
  by (auto simp: heap_ok_def new_array_def view_ok_def)

lemma heap_ok_set_array:
  "heap_ok h \<Longrightarrow> length xs = length (arrays h a) \<Longrightarrow> heap_ok (set_array a xs h)"
  by (auto simp: heap_ok_def view_ok_def)

subsection \<open>makeSlice and goSlice meet Go's rules\<close>

text \<open>\<open>make([]T, n, c)\<close> panics exactly when the sizes are out of range, and otherwise gives
  a slice of the wanted length and capacity whose whole capacity holds the zero value.\<close>

theorem makeSlice_spec:
  "(case makeSlice n capacity zero h of
      Inl e \<Rightarrow> n < 0 \<or> opt_index capacity n < n
    | Inr (s, h') \<Rightarrow> 0 \<le> n \<and> n \<le> opt_index capacity n \<and>
        int (slen h' s) = n \<and> int (scap h' s) = opt_index capacity n \<and>
        window h' s = replicate (nat (opt_index capacity n)) (Some zero))"
  by (auto simp: makeSlice_def opt_index_def Let_def new_array_def new_view_def window_def slice_base_def
      split: option.splits)

lemma slice_capacity_eq:
  "slice_capacity h s lo hi None = Inr (int (scap h s) - lo)"
  "hi \<le> m \<Longrightarrow> m \<le> int (scap h s) \<Longrightarrow> s \<noteq> SNil \<Longrightarrow> slice_capacity h s lo hi (Some m) = Inr (m - lo)"
  by (auto simp: slice_capacity_def Let_def split: slice.splits)

lemma goSlice_returns:
  assumes h: "slice_ok h s" "s \<noteq> SNil" and b: "0 \<le> lo" "lo \<le> hi" "hi \<le> int (scap h s)"
    and lo: "opt_index low 0 = lo" and hi: "opt_index high (int (slen h s)) = hi"
    and c: "slice_capacity h s lo hi mx = Inr (int c + (hi - lo))"
    and cw: "nat hi + c \<le> scap h s" and full: "mx = None \<Longrightarrow> nat hi + c = scap h s"
  shows "\<exists>r h'. goSlice s low high mx h = Inr (r, h') \<and> arrays h' = arrays h \<and> next_array h' = next_array h \<and>
     slice_ok h' r \<and> slen h' r = nat (hi - lo) \<and> scap h' r = c + nat (hi - lo) \<and>
     window h' r = take (c + nat (hi - lo)) (drop (nat lo) (window h s)) \<and>
     (r \<noteq> SNil \<longrightarrow> slice_base h' r = (fst (slice_base h s), snd (slice_base h s) + nat lo)) \<and>
     (heap_ok h \<longrightarrow> heap_ok h')"
proof (cases "case s of SArr a \<Rightarrow> lo = 0 \<and> hi = int (slen h s) \<and> mx = None | _ \<Rightarrow> False")
  case True
  then obtain a where "s = SArr a" "lo = 0" "hi = int (slen h s)" "mx = None" by (cases s) auto
  with h b lo hi full show ?thesis
    by (auto simp: goSlice_def Let_def window_def slice_base_def)
next
  case False
  define ba off where "ba = fst (slice_base h s)" and "off = snd (slice_base h s)"
  have sb: "slice_base h s = (ba, off)" by (simp add: ba_def off_def)
  have w: "off + scap h s \<le> length (arrays h ba)" "ba < next_array h"
    using h by (cases s; auto simp: ba_def off_def slice_base_def view_ok_def)+
  let ?m = "\<lparr>v_back = ba, v_off = off + nat lo, v_len = nat (hi - lo), v_cap = c + nat (hi - lo),
    v_kind = ResliceProxy\<rparr>"
  have n: "nat (int c + (hi - lo)) = c + nat (hi - lo)" "nat lo + nat (hi - lo) = nat hi" using b by auto
  have m: "view_ok h ?m" using w cw n b by (auto simp: view_ok_def)
  have e: "goSlice s low high mx h =
      (if off + nat lo = 0 \<and> nat (hi - lo) = c + nat (hi - lo) \<and> length (arrays h ba) = nat (hi - lo)
       then Inr (SArr ba, h) else Inr (new_view ?m h))"
    using h(2) b lo hi c False by (simp add: goSlice_def Let_def sb n split: slice.splits)
  have tw: "take (c + nat (hi - lo)) (drop (nat lo) (window h s)) =
      take (c + nat (hi - lo)) (drop (off + nat lo) (arrays h ba))"
    using cw n by (simp add: window_def sb drop_take add.commute)
  show ?thesis
  proof (cases "off + nat lo = 0 \<and> nat (hi - lo) = c + nat (hi - lo) \<and> length (arrays h ba) = nat (hi - lo)")
    case True
    with w show ?thesis unfolding e tw by (simp add: sb)
  next
    case False
    have "goSlice s low high mx h = Inr (new_view ?m h)" unfolding e by (simp only: False if_False)
    with heap_ok_new_view [OF _ m] m show ?thesis
      unfolding tw by (auto simp: new_view_def sb view_ok_def)
  qed
qed

text \<open>C9. \<open>s[lo:hi]\<close> returns exactly when 0 <= lo <= hi <= cap(s), otherwise it panics. The
  result has length hi - lo and capacity cap(s) - lo, shows the cells of s from lo on (so
  reslicing beyond the length reveals the backing array), shares them with s, and nothing
  in the heap changes.\<close>

theorem goSlice_spec:
  assumes "slice_ok h s" "heap_ok h"
    and "opt_index low 0 = lo" "opt_index high (int (slen h s)) = hi"
  shows "(is_ok (goSlice s low high None h) \<longleftrightarrow> 0 \<le> lo \<and> lo \<le> hi \<and> hi \<le> int (scap h s)) \<and>
    (case goSlice s low high None h of Inl e \<Rightarrow> True
     | Inr (r, h') \<Rightarrow>
         arrays h' = arrays h \<and> heap_ok h' \<and> slice_ok h' r \<and>
         int (slen h' r) = hi - lo \<and> int (scap h' r) = int (scap h s) - lo \<and>
         window h' r = drop (nat lo) (window h s) \<and>
         (r \<noteq> SNil \<longrightarrow> slice_base h' r = (fst (slice_base h s), snd (slice_base h s) + nat lo)))"
proof (cases "0 \<le> lo \<and> lo \<le> hi \<and> hi \<le> int (scap h s)")
  case False
  with assms have "\<not> is_ok (goSlice s low high None h)"
    by (cases s) (auto simp: goSlice_def goSlice_nil_def Let_def opt_index_def split: option.splits)
  with False show ?thesis by (cases "goSlice s low high None h") auto
next
  case True
  show ?thesis
  proof (cases "s = SNil")
    case True
    with \<open>0 \<le> lo \<and> lo \<le> hi \<and> hi \<le> int (scap h s)\<close> assms show ?thesis
      by (auto simp: goSlice_def goSlice_nil_def window_def slice_base_def opt_index_def split: option.splits)
  next
    case False
    let ?c = "scap h s - nat hi"
    have "int (nat hi) = hi" "nat hi \<le> scap h s" using True by (simp_all add: nat_le_iff)
    then have "slice_capacity h s lo hi None = Inr (int ?c + (hi - lo))"
      by (simp add: slice_capacity_eq)
    from goSlice_returns [OF assms(1) False _ _ _ assms(3,4) this] True
    obtain r h' where g: "goSlice s low high None h = Inr (r, h')" "arrays h' = arrays h"
        "slice_ok h' r" "slen h' r = nat (hi - lo)" "scap h' r = ?c + nat (hi - lo)"
        "window h' r = take (?c + nat (hi - lo)) (drop (nat lo) (window h s))"
        "r \<noteq> SNil \<longrightarrow> slice_base h' r = (fst (slice_base h s), snd (slice_base h s) + nat lo)"
        "heap_ok h \<longrightarrow> heap_ok h'" by auto
    have "length (window h s) = scap h s" using slice_ok_window [OF assms(1)] by simp
    moreover have "?c + nat (hi - lo) = scap h s - nat lo" using True by auto
    ultimately show ?thesis using g True assms(2) by auto
  qed
qed

subsection \<open>append\<close>

lemma only_changes_new_view:
  "only_changes a I h h' \<Longrightarrow> only_changes a I h (snd (new_view m h'))"
  by (auto simp: only_changes_def new_view_def)

lemma only_changes_new_array: "only_changes a {} h (snd (new_array xs h))"
  by (auto simp: only_changes_def new_array_def)

lemma only_changes_write:
  assumes "start + length vs \<le> length (arrays h a)"
  shows "only_changes a {start..<start + length vs} h (set_array a (js_write_seq (arrays h a) start vs) h)"
  using assms by (auto simp: only_changes_def js_write_seq_in nth_append)

lemma realloc_spec:
  assumes "heap_ok h" "length old + length added \<le> capacity" "realloc old added capacity h = (r, h')"
  shows "heap_ok h' \<and> slice_ok h' r \<and> asArray h' r = old @ added \<and> scap h' r = capacity \<and>
     window h' r = old @ added @ replicate (capacity - (length old + length added)) None \<and>
     only_changes a {} h h' \<and> fst (slice_base h' r) = next_array h"
proof -
  let ?xs = "old @ added @ replicate (capacity - (length old + length added)) None"
  let ?m = "\<lparr>v_back = next_array h, v_off = 0, v_len = length old + length added, v_cap = capacity,
    v_kind = WrapProxy\<rparr>"
  have r: "r = fst (new_view ?m (snd (new_array ?xs h)))" "h' = snd (new_view ?m (snd (new_array ?xs h)))"
    using assms(3) by (simp_all add: realloc_def new_array_def Let_def)
  have m: "view_ok (snd (new_array ?xs h)) ?m"
    using assms(2) by (simp add: view_ok_def new_array_def)
  have ok: "heap_ok h'" "slice_ok h' r"
    unfolding r using heap_ok_new_view [OF heap_ok_new_array [OF assms(1)] m] by simp_all
  have "only_changes a {} h h'" unfolding r by (rule only_changes_new_view, rule only_changes_new_array)
  moreover have "views h' (next_view h) = ?m" "r = SView (next_view h)" "arrays h' (next_array h) = ?xs"
    by (simp_all add: r new_view_def new_array_def)
  ultimately show ?thesis using ok assms(2) by (simp add: asArray_simps)
qed

lemma append_in_place_spec:
  assumes "heap_ok h" "slice_ok h (SView p)" "v_len (views h p) + length added \<le> v_cap (views h p)"
    and "append_in_place (views h p) added h = (r, h')"
  shows "heap_ok h' \<and> slice_ok h' r \<and> asArray h' r = asArray h (SView p) @ added \<and>
     scap h' r = v_cap (views h p) \<and>
     slice_base h' r = slice_base h (SView p) \<and>
     only_changes (v_back (views h p))
       {v_off (views h p) + v_len (views h p)..<v_off (views h p) + v_len (views h p) + length added} h h'"
proof -
  let ?m = "views h p"
  let ?xs = "arrays h (v_back ?m)"
  let ?ys = "js_write_seq ?xs (v_off ?m + v_len ?m) added"
  let ?h1 = "set_array (v_back ?m) ?ys h"
  let ?m' = "?m\<lparr>v_len := v_len ?m + length added, v_kind := WrapProxy\<rparr>"
  have ok: "v_off ?m + v_cap ?m \<le> length ?xs" "v_back ?m < next_array h" "v_len ?m \<le> v_cap ?m"
    using assms(2) by (simp_all add: view_ok_def)
  then have ys: "?ys = take (v_off ?m + v_len ?m) ?xs @ added @ drop (v_off ?m + v_len ?m + length added) ?xs"
    using assms(3) by (intro js_write_seq_in) simp
  have r: "r = fst (new_view ?m' ?h1)" "h' = snd (new_view ?m' ?h1)"
    using assms(4) by (simp_all add: append_in_place_def)
  have m: "view_ok ?h1 ?m'" using ok assms(3) by (simp add: view_ok_def ys)
  have "heap_ok ?h1" using assms(1) ok assms(3) by (intro heap_ok_set_array) (simp_all add: ys)
  then have "heap_ok h'" "slice_ok h' r" unfolding r using m by (rule heap_ok_new_view)+
  moreover have "only_changes (v_back ?m) {v_off ?m + v_len ?m..<v_off ?m + v_len ?m + length added} h h'"
    unfolding r using ok assms(3) by (intro only_changes_new_view only_changes_write) simp
  moreover have "views h' (next_view h) = ?m'" "r = SView (next_view h)" "arrays h' (v_back ?m) = ?ys"
    by (simp_all add: r new_view_def)
  moreover have "asArray h (SView p) = take (v_len ?m) (drop (v_off ?m) ?xs)"
    using assms(2) by (simp add: asArray_simps)
  ultimately show ?thesis
    using ok assms(3) by (simp add: asArray_simps) (simp add: ys drop_take)
qed

lemma grow_cap_ge: "newLength \<le> grow_cap oldLength oldCapacity newLength"
  by (simp add: grow_cap_def)

definition in_place :: "'v heap \<Rightarrow> slice \<Rightarrow> nat \<Rightarrow> bool" where
  "in_place h s n \<longleftrightarrow> (case s of SView p \<Rightarrow> slen h s + n \<le> scap h s | _ \<Rightarrow> False)"

text \<open>The cells between the length of a slice and its new length, in its backing array.\<close>

definition spare :: "'v heap \<Rightarrow> slice \<Rightarrow> nat \<Rightarrow> nat set" where
  "spare h s n = {snd (slice_base h s) + slen h s..<snd (slice_base h s) + slen h s + n}"

text \<open>append: the result shows the elements of s followed by the new ones, in a slice that
  is well formed and long enough; if the capacity suffices it uses the same backing array
  and writes only the cells just behind s, otherwise it moves to a fresh array and changes
  no existing cell, so every other slice keeps its elements.\<close>

theorem append_spec:
  assumes "heap_ok h" "slice_ok h s" "els \<noteq> []" "go_append s els h = (r, h')"
  shows "heap_ok h' \<and> slice_ok h' r \<and> asArray h' r = asArray h s @ map Some els \<and>
    (if in_place h s (length els)
     then slice_base h' r = slice_base h s \<and> scap h' r = scap h s \<and>
       only_changes (fst (slice_base h s)) (spare h s (length els)) h h'
     else fst (slice_base h' r) = next_array h \<and>
       scap h' r = grow_cap (slen h s) (scap h s) (slen h s + length els) \<and>
       only_changes 0 {} h h')"
proof (cases "in_place h s (length els)")
  case True
  then obtain p where p: "s = SView p" by (auto simp: in_place_def split: slice.splits)
  with True have c: "v_len (views h p) + length (map Some els) \<le> v_cap (views h p)" by (simp add: in_place_def)
  with assms(3,4) p have "append_in_place (views h p) (map Some els) h = (r, h')"
    by (simp add: go_append_def)
  from append_in_place_spec [OF assms(1) _ c this] assms(2) p True show ?thesis
    by (simp add: spare_def)
next
  case False
  with assms(3,4) have "realloc (asArray h s) (map Some els) (grow_cap (slen h s) (scap h s) (slen h s + length els)) h = (r, h')"
    by (cases s) (auto simp: go_append_def Let_def in_place_def)
  from realloc_spec [OF assms(1) _ this, of 0] False show ?thesis by (simp add: grow_cap_ge)
qed

subsection \<open>copy\<close>

text \<open>copy returns the smaller length n and makes the first n elements of dst the first n
  elements src had before the call, also when the two overlap; the other elements of dst
  and every other cell of the heap stay.\<close>

theorem copy_spec:
  assumes "heap_ok h" "slice_ok h dst" "slice_ok h src" "go_copy dst src h = (n, h')"
  shows "n = min (slen h dst) (slen h src) \<and> heap_ok h' \<and> slice_ok h' dst \<and>
     asArray h' dst = take n (asArray h src) @ drop n (asArray h dst) \<and>
     only_changes (fst (slice_base h dst)) {snd (slice_base h dst)..<snd (slice_base h dst) + n} h h'"
proof (cases "min (slen h dst) (slen h src) = 0")
  case True
  then have "n = 0 \<and> h' = h" using assms(4) by (auto simp: go_copy_def Let_def split_beta split: if_splits)
  with True assms show ?thesis by (auto simp: only_changes_def)
next
  case False
  obtain a off where b: "slice_base h dst = (a, off)" by (cases "slice_base h dst")
  define N where "N = min (slen h dst) (slen h src)"
  define vs where "vs = take N (asArray h src)"
  have l: "length vs = N" by (simp add: vs_def N_def)
  have w: "off + slen h dst \<le> length (arrays h a)" "N \<le> slen h dst" using assms(2) b
    by (cases dst; auto simp: view_ok_def slice_base_def N_def)+
  have "dst \<noteq> SNil" "src \<noteq> SNil" using False by auto
  then have r: "n = N" "h' = set_array a (js_write_seq (arrays h a) off vs) h"
    using assms(4) False b by (auto simp: go_copy_def Let_def N_def vs_def split: if_splits)
  have ys: "js_write_seq (arrays h a) off vs = take off (arrays h a) @ vs @ drop (off + N) (arrays h a)"
    using js_write_seq_in [of off vs "arrays h a"] w l by simp
  have ok: "heap_ok h'" unfolding r using assms(1) w by (intro heap_ok_set_array) (simp_all add: ys l)
  have oc: "only_changes a {off..<off + n} h h'"
    unfolding r using only_changes_write [of off vs h a] w l by simp
  have sok: "slice_ok h' dst" using only_changes_ok(1) [OF oc assms(2)] .
  have "asArray h' dst = vs @ drop N (asArray h dst)"
    using assms(2) sok b w l ys
    by (cases dst) (auto simp: slice_base_def asArray_simps r(2) drop_take add.commute)
  with ok oc sok r(1) b show ?thesis by (simp add: vs_def N_def)
qed

subsection \<open>append with a spread slice\<close>

lemma cell_at_write:
  assumes "slice_base h src = (b, eo)" "src \<noteq> SNil" "b = a \<Longrightarrow> k \<noteq> eo + j"
  shows "cell_at (set_array a (js_write (arrays h a) k v) h) src j = cell_at h src j"
  using assms by (cases src) (auto simp: js_read_write)

lemma copy_forward_eq:
  assumes "slice_base h src = (b, eo)" "src \<noteq> SNil" "b = a \<Longrightarrow> eo + i + n \<le> start + i \<or> start \<le> eo"
  shows "copy_forward a start src i n h =
    set_array a (js_write_seq (arrays h a) (start + i) (map (cell_at h src) [i..<i + n])) h"
  using assms
proof (induction n arbitrary: i h)
  case 0
  then show ?case by (simp add: set_array_def)
next
  case (Suc n)
  let ?h1 = "set_array a (js_write (arrays h a) (start + i) (cell_at h src i)) h"
  have b: "slice_base ?h1 src = (b, eo)" using Suc.prems(1,2) by (cases src) simp_all
  have 1: "copy_forward a start src (Suc i) n ?h1 =
      set_array a (js_write_seq (arrays ?h1 a) (start + Suc i) (map (cell_at ?h1 src) [Suc i..<Suc i + n])) ?h1"
    using Suc.prems by (intro Suc.IH [OF b]) auto
  have 2: "map (cell_at ?h1 src) [Suc i..<Suc i + n] = map (cell_at h src) [Suc i..<Suc i + n]"
    using Suc.prems by (intro map_cong refl cell_at_write [OF Suc.prems(1,2)]) auto
  have "[i..<i + Suc n] = i # [Suc i..<Suc i + n]" by (simp add: upt_conv_Cons del: upt_Suc)
  moreover have "set_array a ys (set_array a xs h) = set_array a ys h" for xs ys
    by (simp add: set_array_def)
  ultimately show ?case using 1 [unfolded 2] by (simp del: upt_Suc)
qed

text \<open>append(s, els...): unless the spare capacity that the in-place loop writes starts
  inside the source, the result is that of appending the source's elements.\<close>

theorem appendSlice_spec:
  assumes "heap_ok h" "slice_ok h s" "slice_ok h els" "appendSlice s els h = (r, h')"
    and sep: "fst (slice_base h els) \<noteq> fst (slice_base h s) \<or> \<not> in_place h s (slen h els) \<or>
      snd (slice_base h els) + slen h els \<le> snd (slice_base h s) + slen h s \<or>
      snd (slice_base h s) + slen h s \<le> snd (slice_base h els)"
  shows "heap_ok h' \<and> slice_ok h' r \<and> asArray h' r = asArray h s @ asArray h els"
proof (cases "els = SNil \<or> slen h els = 0")
  case True
  then have "asArray h els = []" by (cases els) (auto simp: asArray_def)
  with True assms show ?thesis by (auto simp: appendSlice_def Let_def)
next
  case False
  show ?thesis
  proof (cases "in_place h s (slen h els)")
    case True
    then obtain p where p: "s = SView p" by (auto simp: in_place_def split: slice.splits)
    obtain b eo where be: "slice_base h els = (b, eo)" by (cases "slice_base h els")
    let ?m = "views h p"
    have "copy_forward (v_back ?m) (v_off ?m + v_len ?m) els 0 (slen h els) h =
        set_array (v_back ?m) (js_write_seq (arrays h (v_back ?m)) (v_off ?m + v_len ?m) (asArray h els)) h"
      using copy_forward_eq [OF be, of "v_back ?m" 0 "slen h els" "v_off ?m + v_len ?m"] False sep p be True
      by (auto simp: asArray_def)
    then have "append_in_place ?m (asArray h els) h = (r, h')"
      using assms(4) False p True by (simp add: appendSlice_def Let_def append_in_place_def in_place_def)
    from append_in_place_spec [OF assms(1) _ _ this] assms(2) p True show ?thesis
      by (simp add: in_place_def)
  next
    case out: False
    with False assms(4) have "realloc (asArray h s) (asArray h els) (slen h s + slen h els) h = (r, h')"
      by (cases s) (auto simp: appendSlice_def Let_def in_place_def)
    from realloc_spec [OF assms(1) _ this] show ?thesis by simp
  qed
qed

subsection \<open>Access to elements\<close>

text \<open>Reading an element returns the cell exactly when 0 <= i < len(s) and panics
  otherwise. Writing through a proxy within the length changes that one cell; past the
  length it panics, except that a resliced slice accepts a write at its length while it
  has capacity, and silently becomes one element longer.\<close>

theorem element_access_spec:
  assumes "heap_ok h" "slice_ok h s"
  shows "arrayIndex h s i =
      (if 0 \<le> i \<and> i < int (slen h s) then Inr (asArray h s ! nat i) else Inl (index_panic i (slen h s))) \<and>
    (s = SView p \<longrightarrow>
       (case view_set p k v h of
          Inl e \<Rightarrow> slen h s \<le> k
        | Inr h' \<Rightarrow> heap_ok h' \<and>
            asArray h' s = (if k < slen h s then (asArray h s)[k := Some v] else asArray h s @ [Some v]) \<and>
            (slen h s \<le> k \<longrightarrow> k = slen h s \<and> k < scap h s \<and> v_kind (views h p) = ResliceProxy)))"
proof (rule conjI, goal_cases)
  case 1
  show ?case by (auto simp: arrayIndex_def asArray_def)
next
  case 2
  show ?case
  proof
    assume p: "s = SView p"
    let ?m = "views h p"
    let ?xs = "arrays h (v_back ?m)"
    have ok: "v_off ?m + v_cap ?m \<le> length ?xs" "v_len ?m \<le> v_cap ?m" "p < next_view h" "v_back ?m < next_array h"
      using assms(2) p by (simp_all add: view_ok_def)
    have w: "js_write ?xs (v_off ?m + k) (Some v) = ?xs[v_off ?m + k := Some v]" if "k < v_cap ?m"
      using that ok by (simp add: js_write_def)
    consider (inside) "k < v_len ?m"
      | (grow) "v_kind ?m = ResliceProxy" "k = v_len ?m" "k < v_cap ?m"
      | (out) "\<not> k < v_len ?m" "\<not> (v_kind ?m = ResliceProxy \<and> k = v_len ?m \<and> k < v_cap ?m)" by blast
    then show "case view_set p k v h of Inl e \<Rightarrow> slen h s \<le> k
      | Inr h' \<Rightarrow> heap_ok h' \<and>
          asArray h' s = (if k < slen h s then (asArray h s)[k := Some v] else asArray h s @ [Some v]) \<and>
          (slen h s \<le> k \<longrightarrow> k = slen h s \<and> k < scap h s \<and> v_kind ?m = ResliceProxy)"
    proof cases
      case inside
      let ?h = "set_array (v_back ?m) (?xs[v_off ?m + k := Some v]) h"
      have "view_set p k v h = Inr ?h" using inside w ok by (simp add: view_set_def Let_def)
      moreover have "heap_ok ?h" using assms(1) by (intro heap_ok_set_array) simp_all
      moreover have "asArray ?h s = (asArray h s)[k := Some v]"
        using ok inside p by (simp add: asArray_simps view_ok_def drop_update_swap take_update_swap)
      ultimately show ?thesis using inside p by simp
    next
      case grow
      let ?h1 = "set_array (v_back ?m) (?xs[v_off ?m + k := Some v]) h"
      let ?h = "?h1\<lparr>views := (views h)(p := ?m\<lparr>v_len := Suc k\<rparr>)\<rparr>"
      have "view_set p k v h = Inr ?h" using grow w ok by (simp add: view_set_def Let_def)
      moreover have "heap_ok ?h" using assms(1) grow ok by (auto simp: heap_ok_def view_ok_def)
      moreover have "asArray ?h s = asArray h s @ [Some v]"
        using ok grow p
        by (simp add: asArray_simps view_ok_def take_Suc_conv_app_nth drop_update_swap)
      ultimately show ?thesis using grow p by simp
    next
      case out
      then show ?thesis using p by (auto simp: view_set_def Let_def)
    qed
  qed
qed

subsection \<open>Where the runtime departs from Go\<close>

definition heap3 :: "int heap" where
  "heap3 = \<lparr>arrays = (\<lambda>a. if a = 0 then map Some [1, 2, 3, 4, 5] else []),
     views = (\<lambda>p. if p = 0 then \<lparr>v_back = 0, v_off = 0, v_len = 2, v_cap = 5, v_kind = ResliceProxy\<rparr>
                   else \<lparr>v_back = 0, v_off = 2, v_len = 2, v_cap = 3, v_kind = ResliceProxy\<rparr>),
     next_array = 1, next_view = 2\<rparr>"

lemma heap3_ok: "heap_ok heap3"
  by (auto simp: heap_ok_def heap3_def view_ok_def less_2_cases_iff)

lemma heap3_slices [simp]: "slice_ok heap3 (SArr 0)" "slice_ok heap3 (SView 0)" "slice_ok heap3 (SView (Suc 0))"
  by (simp_all add: heap3_def view_ok_def)

text \<open>A three-index slice of a slice at offset 2 with capacity 3 accepts the limit 5, because
  the limit is compared with offset plus capacity: the result claims more capacity than
  its backing array has left, and is not well formed.\<close>

lemma three_index_exceeds_capacity:
  "case goSlice (SView 1) (Some 0) (Some 1) (Some 5) heap3 of
     Inr (r, h') \<Rightarrow> scap heap3 (SView 1) = 3 \<and> scap h' r = 5 \<and> \<not> slice_ok h' r | Inl e \<Rightarrow> False"
  by (simp add: heap3_def goSlice_def slice_capacity_def opt_index_def Let_def new_view_def view_ok_def)

text \<open>\<open>a := []int{1,2,3,4,5}; append(a[:2], a[1:4]...)\<close> shows 1,2,2,2,2 instead of 1,2,2,3,4: the
  loop reads cells it has already overwritten.\<close>

lemma appendSlice_overlap:
  "case goSlice (SArr 0) (Some 1) (Some 4) None heap3 of
     Inr (els, h1) \<Rightarrow> asArray h1 els = map Some [2, 3, 4] \<and>
       (case appendSlice (SView 0) els h1 of (r, h2) \<Rightarrow> asArray h2 r = map Some [1, 2, 2, 2, 2])
   | Inl e \<Rightarrow> False"
proof -
  let ?h = "heap3\<lparr>views := (views heap3)(2 := \<lparr>v_back = 0, v_off = 1, v_len = 3, v_cap = 4, v_kind = ResliceProxy\<rparr>),
    next_view := 3\<rparr>"
  have "goSlice (SArr 0) (Some 1) (Some 4) None heap3 = Inr (SView 2, ?h)"
    by (simp add: heap3_def goSlice_def slice_capacity_def opt_index_def Let_def new_view_def)
  moreover have "asArray ?h (SView 2) = map Some [2, 3, 4]"
    by (simp add: asArray_def heap3_def js_read_def upt_rec eval_nat_numeral)
  moreover have "case appendSlice (SView 0) (SView 2) ?h of (r, h2) \<Rightarrow> asArray h2 r = map Some [1, 2, 2, 2, 2]"
    by (simp add: appendSlice_def heap3_def Let_def new_view_def js_read_def js_write_def set_array_def
        asArray_def upt_rec eval_nat_numeral)
  ultimately show ?thesis by simp
qed

text \<open>After a reallocating append the spare capacity holds \<open>undefined\<close>, not the zero value, as
  a reslice up to the capacity shows.\<close>

lemma append_leaves_holes:
  "case go_append (SArr 0) [6] heap3 of (r, h1) \<Rightarrow>
     scap h1 r = 10 \<and> window h1 r = map Some [1, 2, 3, 4, 5, 6] @ [None, None, None, None]"
  by (simp add: go_append_def heap3_def realloc_def new_array_def new_view_def grow_cap_def Let_def
      asArray_def js_read_def upt_rec eval_nat_numeral)

subsection \<open>The properties at concrete slices\<close>

theorem goSlice_spec_witness:
  "is_ok (goSlice (SView 0) (Some 1) (Some 5) None heap3)"
  using goSlice_spec [OF heap3_slices(2) heap3_ok, of "Some 1" 1 "Some 5" 5]
  by (simp add: opt_index_def heap3_def)

theorem append_spec_witness:
  "\<exists>r h'. go_append (SView 0) [9] heap3 = (r, h') \<and> asArray h' r = map Some [1, 2, 9]"
proof -
  obtain r h' where g: "go_append (SView 0) [9] heap3 = (r, h')" by (cases "go_append (SView 0) [9] heap3")
  have "asArray heap3 (SView 0) = [Some 1, Some 2]"
    by (simp add: asArray_def heap3_def js_read_def upt_rec eval_nat_numeral)
  with append_spec [OF heap3_ok heap3_slices(2) _ g] g show ?thesis by simp
qed

theorem copy_spec_witness:
  "\<exists>h'. go_copy (SView 0) (SView 1) heap3 = (2, h') \<and> asArray h' (SView 0) = map Some [3, 4]"
proof -
  obtain n h' where g: "go_copy (SView 0) (SView (Suc 0)) heap3 = (n, h')"
    by (cases "go_copy (SView 0) (SView (Suc 0)) heap3")
  have "asArray heap3 (SView 0) = [Some 1, Some 2]" "asArray heap3 (SView (Suc 0)) = [Some 3, Some 4]"
    "slen heap3 (SView 0) = 2" "slen heap3 (SView (Suc 0)) = 2"
    by (simp_all add: asArray_def heap3_def js_read_def upt_rec eval_nat_numeral)
  with copy_spec [OF heap3_ok heap3_slices(2,3) g] g show ?thesis by simp
qed

theorem appendSlice_spec_witness:
  "\<exists>r h'. appendSlice (SView 0) (SView 1) heap3 = (r, h') \<and> asArray h' r = map Some [1, 2, 3, 4]"
proof -
  obtain r h' where g: "appendSlice (SView 0) (SView (Suc 0)) heap3 = (r, h')"
    by (cases "appendSlice (SView 0) (SView (Suc 0)) heap3")
  have "asArray heap3 (SView 0) = [Some 1, Some 2]" "asArray heap3 (SView (Suc 0)) = [Some 3, Some 4]"
    "snd (slice_base heap3 (SView 0)) + slen heap3 (SView 0) \<le> snd (slice_base heap3 (SView (Suc 0)))"
    by (simp_all add: asArray_def heap3_def js_read_def upt_rec eval_nat_numeral)
  with appendSlice_spec [OF heap3_ok heap3_slices(2,3) g] g show ?thesis by simp
qed

theorem element_access_spec_witness:
  "arrayIndex heap3 (SArr 0) 4 = Inr (Some 5) \<and> arrayIndex heap3 (SArr 0) 5 = Inl (index_panic 5 5)"
proof -
  have "asArray heap3 (SArr 0) = map Some [1, 2, 3, 4, 5]" "slen heap3 (SArr 0) = 5"
    by (simp_all add: asArray_simps heap3_def)
  with element_access_spec [OF heap3_ok heap3_slices(1), of 4]
    element_access_spec [OF heap3_ok heap3_slices(1), of 5] show ?thesis by simp
qed

end
