(* ===== verification/GsByteSlice.thy ===== *)
theory GsByteSlice
  imports GsSlice "HOL-Library.Sublist"
begin

section \<open>Byte slices (Uint8Array) and byte searches (gs/builtin/slice.ts, builtin.ts)\<close>

text \<open>
  A \<open>Uint8Array\<close> is a window of a buffer: buffer, byte offset, length. A byte slice whose
  capacity differs from its length carries a \<open>__meta__\<close> object that names the array its
  capacity reaches into. Buffers have a fixed length; a store beyond it is ignored by
  JavaScript, and \<open>subarray\<close> clamps its arguments. The second half of the theory models the
  searches of builtin.ts on the bytes of a slice (\<open>None\<close> is a nil slice).
\<close>

type_synonym byte = "8 word"

record u8array =
  u_buf :: nat
  u_off :: nat
  u_len :: nat

record byte_meta =
  m_back :: u8array
  m_off :: nat
  m_len :: nat
  m_cap :: nat

record bslice =
  b_arr :: u8array
  b_meta :: "byte_meta option"

record bheap =
  buffers :: "nat \<Rightarrow> byte list"
  next_buf :: nat

definition u8_bytes :: "bheap \<Rightarrow> u8array \<Rightarrow> byte list" where
  "u8_bytes h u = take (u_len u) (drop (u_off u) (buffers h (u_buf u)))"

definition subarray :: "u8array \<Rightarrow> nat \<Rightarrow> nat \<Rightarrow> u8array" where
  "subarray u lo hi =
     (let l = min lo (u_len u); r = min hi (u_len u) in u\<lparr>u_off := u_off u + l, u_len := r - l\<rparr>)"

text \<open>\<open>dst.set(bytes, pos)\<close>, the source already read: a RangeError when it does not fit.\<close>

definition u8_store :: "u8array \<Rightarrow> nat \<Rightarrow> byte list \<Rightarrow> bheap \<Rightarrow> bheap" where
  "u8_store u pos bs h =
     (let xs = buffers h (u_buf u); p = u_off u + pos in
      h\<lparr>buffers := (buffers h)(u_buf u := take p xs @ bs @ drop (p + length bs) xs)\<rparr>)"

definition u8_set :: "u8array \<Rightarrow> nat \<Rightarrow> byte list \<Rightarrow> bheap \<Rightarrow> bheap res" where
  "u8_set u pos bs h =
     (if u_len u < pos + length bs then Inl RangeError else Inr (u8_store u pos bs h))"

definition new_buffer :: "byte list \<Rightarrow> bheap \<Rightarrow> u8array \<times> bheap" where
  "new_buffer xs h =
     (\<lparr>u_buf = next_buf h, u_off = 0, u_len = length xs\<rparr>,
      h\<lparr>buffers := (buffers h)(next_buf h := xs), next_buf := Suc (next_buf h)\<rparr>)"

definition byteSliceView :: "u8array \<Rightarrow> nat \<Rightarrow> nat \<Rightarrow> nat \<Rightarrow> bslice" where
  "byteSliceView backing off n c =
     \<lparr>b_arr = subarray backing off (off + n),
      b_meta = (if c \<noteq> n then Some \<lparr>m_back = backing, m_off = off, m_len = n, m_cap = c\<rparr> else None)\<rparr>"

text \<open>\<open>len\<close>, \<open>cap\<close>, and the backing array and offset read off the optional \<open>__meta__\<close>.\<close>

definition blen :: "bslice \<Rightarrow> nat" where "blen s = u_len (b_arr s)"

definition bcap :: "bslice \<Rightarrow> nat" where
  "bcap s = (case b_meta s of Some m \<Rightarrow> m_cap m | None \<Rightarrow> u_len (b_arr s))"

definition bback :: "bslice \<Rightarrow> u8array" where
  "bback s = (case b_meta s of Some m \<Rightarrow> m_back m | None \<Rightarrow> b_arr s)"

definition boff :: "bslice \<Rightarrow> nat" where
  "boff s = (case b_meta s of Some m \<Rightarrow> m_off m | None \<Rightarrow> 0)"

definition bytes_of :: "bheap \<Rightarrow> bslice \<Rightarrow> byte list" where
  "bytes_of h s = u8_bytes h (b_arr s)"

definition byte_makeSlice :: "int \<Rightarrow> int option \<Rightarrow> bheap \<Rightarrow> (bslice \<times> bheap) res" where
  "byte_makeSlice n capacity h =
     (let actual = (case capacity of None \<Rightarrow> n | Some c \<Rightarrow> c) in
      if n < 0 \<or> actual < 0 \<or> actual < n
      then Inl (RuntimePanic (if actual < 0 then ''runtime error: makeslice: cap out of range''
                              else ''runtime error: makeslice: len out of range''))
      else let (u, h1) = new_buffer (replicate (nat actual) 0) h in
        if actual = n then Inr (\<lparr>b_arr = u, b_meta = None\<rparr>, h1)
        else Inr (byteSliceView u 0 (nat n) (nat actual), h1))"

definition byte_goSlice :: "bslice \<Rightarrow> int option \<Rightarrow> int option \<Rightarrow> int option \<Rightarrow> bslice res" where
  "byte_goSlice s low high mx =
     (let lo = opt_index low 0; hi = opt_index high (int (blen s)); base = int (bcap s);
          view = (\<lambda>c. byteSliceView (bback s) (boff s + nat lo) (nat (hi - lo)) (nat c)) in
      if lo < 0 \<or> hi < lo \<or> base < lo \<or> base < hi
      then Inl (bounds_panic (int_string lo @ '':'' @ int_string hi) ('' with capacity '' @ int_string base))
      else case mx of
        None \<Rightarrow> Inr (view (base - lo))
      | Some m \<Rightarrow>
          (if m < hi \<or> base < m
           then Inl (bounds_panic ('':'' @ int_string hi @ '':'' @ int_string m) ('' with capacity '' @ int_string base))
           else Inr (view (m - lo))))"

text \<open>The arguments of an append to a byte slice: a number, a byte slice, or an array of
  numbers (its elements). A number is stored modulo 256.\<close>

datatype byte_item = ByteItem int | BytesItem bslice | NumbersItem "int list"

fun byteElementLength :: "byte_item \<Rightarrow> nat" where
  "byteElementLength (ByteItem n) = 1"
| "byteElementLength (BytesItem s) = blen s"
| "byteElementLength (NumbersItem ns) = length ns"

fun item_bytes :: "bheap \<Rightarrow> byte_item \<Rightarrow> byte list" where
  "item_bytes h (ByteItem n) = [word_of_int n]"
| "item_bytes h (BytesItem s) = bytes_of h s"
| "item_bytes h (NumbersItem ns) = map word_of_int ns"

fun writeByteElements :: "u8array \<Rightarrow> nat \<Rightarrow> byte_item list \<Rightarrow> bheap \<Rightarrow> bheap res" where
  "writeByteElements dst cursor [] h = Inr h"
| "writeByteElements dst cursor (x # xs) h =
     bindR (u8_set dst cursor (item_bytes h x) h)
       (\<lambda>h1. writeByteElements dst (cursor + byteElementLength x) xs h1)"

definition appendByteSlice :: "bslice \<Rightarrow> byte_item list \<Rightarrow> bheap \<Rightarrow> (bslice \<times> bheap) res" where
  "appendByteSlice s items h =
     (let newLength = blen s + sum_list (map byteElementLength items) in
      if newLength \<le> bcap s
      then let view = byteSliceView (bback s) (boff s) newLength (bcap s) in
        bindR (writeByteElements (b_arr view) (blen s) items h) (\<lambda>h1. Inr (view, h1))
      else let (u, h1) = new_buffer (replicate newLength 0) h in
        bindR (u8_set u 0 (bytes_of h1 s) h1) (\<lambda>h2.
          bindR (writeByteElements u (blen s) items h2) (\<lambda>h3.
            Inr (\<lparr>b_arr = u, b_meta = None\<rparr>, h3))))"

text \<open>\<open>copy\<close> between two byte slices, and from the bytes of a string.\<close>

definition byte_copy :: "bslice \<Rightarrow> bslice \<Rightarrow> bheap \<Rightarrow> (nat \<times> bheap) res" where
  "byte_copy dst src h =
     (let count = min (blen dst) (blen src) in
      if count = 0 then Inr (0, h)
      else bindR (u8_set (b_arr dst) 0 (u8_bytes h (subarray (b_arr src) 0 count)) h) (\<lambda>h1. Inr (count, h1)))"

definition copyFromString :: "bslice \<Rightarrow> byte list \<Rightarrow> bheap \<Rightarrow> nat \<times> bheap" where
  "copyFromString dst bytes h =
     (let count = min (blen dst) (length bytes) in
      if count = 0 then (0, h) else (count, u8_store (b_arr dst) 0 (take count bytes) h))"

definition byte_index :: "bheap \<Rightarrow> bslice \<Rightarrow> int \<Rightarrow> byte res" where
  "byte_index h s i =
     (if i < 0 \<or> int (blen s) \<le> i then Inl (index_panic i (blen s))
      else Inr (bytes_of h s ! nat i))"

subsection \<open>Searches\<close>

definition bytesEqual :: "byte list option \<Rightarrow> byte list option \<Rightarrow> bool" where
  "bytesEqual a b =
     (case (a, b) of (None, None) \<Rightarrow> True | (Some x, Some y) \<Rightarrow>
        length x = length y \<and> list_all (\<lambda>i. x ! i = y ! i) [0..<length x]
      | _ \<Rightarrow> False)"

text \<open>The loop over the common prefix; \<open>None\<close> when it found no difference.\<close>

fun compare_bytes :: "byte list \<Rightarrow> byte list \<Rightarrow> int" where
  "compare_bytes (a # as) (b # bs) = (if a < b then -1 else if b < a then 1 else compare_bytes as bs)"
| "compare_bytes [] [] = 0"
| "compare_bytes [] bs = -1"
| "compare_bytes as [] = 1"

definition bytesCompare :: "byte list option \<Rightarrow> byte list option \<Rightarrow> int" where
  "bytesCompare a b =
     (case (a, b) of (None, None) \<Rightarrow> 0 | (None, Some _) \<Rightarrow> -1 | (Some _, None) \<Rightarrow> 1
      | (Some x, Some y) \<Rightarrow> compare_bytes x y)"

text \<open>The inner loop: do the bytes from \<open>i\<close> on start with the needle?\<close>

definition match_at :: "byte list \<Rightarrow> byte list \<Rightarrow> nat \<Rightarrow> bool" where
  "match_at hay needle i \<longleftrightarrow> list_all (\<lambda>j. hay ! (i + j) = needle ! j) [0..<length needle]"

fun scan_up :: "byte list \<Rightarrow> byte list \<Rightarrow> nat \<Rightarrow> nat \<Rightarrow> int" where
  "scan_up hay needle i 0 = -1"
| "scan_up hay needle i (Suc n) = (if match_at hay needle i then int i else scan_up hay needle (Suc i) n)"

fun scan_down :: "byte list \<Rightarrow> byte list \<Rightarrow> nat \<Rightarrow> int" where
  "scan_down hay needle 0 = (if match_at hay needle 0 then 0 else -1)"
| "scan_down hay needle (Suc i) = (if match_at hay needle (Suc i) then int (Suc i) else scan_down hay needle i)"

definition bytesIndexOf :: "byte list option \<Rightarrow> byte list option \<Rightarrow> int" where
  "bytesIndexOf a b =
     (case (a, b) of (Some hay, Some needle) \<Rightarrow>
        if needle = [] then 0
        else if length hay < length needle then -1
        else scan_up hay needle 0 (Suc (length hay - length needle))
      | _ \<Rightarrow> -1)"

definition bytesLastIndexOf :: "byte list option \<Rightarrow> byte list option \<Rightarrow> int" where
  "bytesLastIndexOf a b =
     (case (a, b) of (Some hay, Some needle) \<Rightarrow>
        if needle = [] then int (length hay)
        else if length hay < length needle then -1
        else scan_down hay needle (length hay - length needle)
      | _ \<Rightarrow> -1)"

fun index_of :: "byte list \<Rightarrow> byte \<Rightarrow> nat \<Rightarrow> int" where
  "index_of [] c i = -1"
| "index_of (b # bs) c i = (if b = c then int i else index_of bs c (Suc i))"

definition bytesIndexByte :: "byte list option \<Rightarrow> byte \<Rightarrow> int" where
  "bytesIndexByte a c = (case a of None \<Rightarrow> -1 | Some bs \<Rightarrow> index_of bs c 0)"

definition bytesLastIndexByte :: "byte list option \<Rightarrow> byte \<Rightarrow> int" where
  "bytesLastIndexByte a c =
     (case a of None \<Rightarrow> -1 | Some bs \<Rightarrow>
        let r = index_of (rev bs) c 0 in if r = -1 then -1 else int (length bs) - 1 - r)"

function count_from :: "byte list \<Rightarrow> byte list \<Rightarrow> nat \<Rightarrow> nat" where
  "count_from hay needle pos =
     (if needle = [] \<or> length hay < pos + length needle then 0
      else if match_at hay needle pos then Suc (count_from hay needle (pos + length needle))
      else count_from hay needle (Suc pos))"
  by pat_completeness auto
termination
  by (relation "measure (\<lambda>(hay, needle, pos). Suc (length hay) - pos)") (auto simp: length_greater_0_conv [symmetric] simp del: length_greater_0_conv)

definition bytesCount :: "byte list option \<Rightarrow> byte list option \<Rightarrow> nat" where
  "bytesCount a b =
     (case (a, b) of (Some hay, Some needle) \<Rightarrow>
        if needle = [] then length hay + 1 else count_from hay needle 0
      | _ \<Rightarrow> 0)"

subsection \<open>Well-formed byte slices\<close>

definition u8_ok :: "bheap \<Rightarrow> u8array \<Rightarrow> bool" where
  "u8_ok h u \<longleftrightarrow> u_buf u < next_buf h \<and> u_off u + u_len u \<le> length (buffers h (u_buf u))"

definition bslice_ok :: "bheap \<Rightarrow> bslice \<Rightarrow> bool" where
  "bslice_ok h s \<longleftrightarrow> u8_ok h (bback s) \<and> blen s \<le> bcap s \<and> boff s + bcap s \<le> u_len (bback s) \<and>
     b_arr s = subarray (bback s) (boff s) (boff s + blen s)"

text \<open>Where a slice starts in its buffer, and the bytes up to its capacity.\<close>

definition bstart :: "bslice \<Rightarrow> nat" where "bstart s = u_off (bback s) + boff s"

definition bwindow :: "bheap \<Rightarrow> bslice \<Rightarrow> byte list" where
  "bwindow h s = take (bcap s) (drop (bstart s) (buffers h (u_buf (bback s))))"

lemma subarray_simps [simp]: "u_buf (subarray u lo hi) = u_buf u"
  by (simp add: subarray_def Let_def)

lemma byteSliceView_simps:
  assumes "off + n \<le> u_len u" "n \<le> c"
  shows "blen (byteSliceView u off n c) = n" "bcap (byteSliceView u off n c) = c"
    "u_buf (bback (byteSliceView u off n c)) = u_buf u" "bstart (byteSliceView u off n c) = u_off u + off"
    "u_off (b_arr (byteSliceView u off n c)) = u_off u + off" "u_buf (b_arr (byteSliceView u off n c)) = u_buf u"
    "u_len (b_arr (byteSliceView u off n c)) = n"
  using assms by (auto simp: byteSliceView_def blen_def bcap_def bback_def bstart_def boff_def subarray_def Let_def)

lemma byteSliceView_ok:
  assumes "u8_ok h u" "off + c \<le> u_len u" "n \<le> c"
  shows "bslice_ok h (byteSliceView u off n c)"
  using assms
  by (auto simp: bslice_ok_def byteSliceView_def blen_def bcap_def bback_def boff_def subarray_def u8_ok_def
      Let_def min_def)

lemma bslice_ok_arr:
  assumes "bslice_ok h s"
  shows "u_buf (b_arr s) = u_buf (bback s)" "u_off (b_arr s) = bstart s" "u_len (b_arr s) = blen s"
proof -
  have a: "b_arr s = subarray (bback s) (boff s) (boff s + blen s)" "boff s + blen s \<le> u_len (bback s)"
    using assms by (auto simp: bslice_ok_def)
  show "u_buf (b_arr s) = u_buf (bback s)" by (subst a) simp
  show "u_off (b_arr s) = bstart s" using a(2) by (subst a) (simp add: subarray_def bstart_def Let_def)
  show "u_len (b_arr s) = blen s" by (simp add: blen_def)
qed

lemma bytes_of_window: "bslice_ok h s \<Longrightarrow> bytes_of h s = take (blen s) (bwindow h s)"
  using bslice_ok_arr [of h s] by (simp add: bytes_of_def u8_bytes_def bwindow_def bslice_ok_def min_def)

lemma length_bwindow: "bslice_ok h s \<Longrightarrow> length (bwindow h s) = bcap s"
  by (auto simp: bslice_ok_def bwindow_def u8_ok_def bstart_def)

lemma length_bytes_of: "bslice_ok h s \<Longrightarrow> length (bytes_of h s) = blen s"
  by (simp add: bytes_of_window length_bwindow bslice_ok_def)

lemma opt_index_simps: "opt_index None d = d" "opt_index (Some x) d = x"
  by (simp_all add: opt_index_def)

text \<open>Slicing a byte slice: \<open>s[lo:hi:max]\<close> returns exactly when 0 <= lo <= hi <= max <=
  cap(s) (the limit being cap(s) when it is absent), and the result is the well-formed
  slice of the same buffer that starts lo bytes later, with length hi - lo and capacity
  max - lo.\<close>

theorem byte_goSlice_spec:
  assumes "bslice_ok h s" "opt_index low 0 = lo" "opt_index high (int (blen s)) = hi"
    and "opt_index mx (int (bcap s)) = m"
  shows "(is_ok (byte_goSlice s low high mx) \<longleftrightarrow> 0 \<le> lo \<and> lo \<le> hi \<and> hi \<le> m \<and> m \<le> int (bcap s)) \<and>
    (case byte_goSlice s low high mx of Inl e \<Rightarrow> True
     | Inr r \<Rightarrow> bslice_ok h r \<and> int (blen r) = hi - lo \<and> int (bcap r) = m - lo \<and>
         u_buf (bback r) = u_buf (bback s) \<and> bstart r = bstart s + nat lo \<and>
         bwindow h r = take (nat (m - lo)) (drop (nat lo) (bwindow h s)))"
proof (cases "0 \<le> lo \<and> lo \<le> hi \<and> hi \<le> m \<and> m \<le> int (bcap s)")
  case False
  then have "\<not> is_ok (byte_goSlice s low high mx)"
    using assms(4) by (cases mx) (auto simp: byte_goSlice_def assms(2,3) Let_def opt_index_simps not_le)
  with False show ?thesis by (cases "byte_goSlice s low high mx") auto
next
  case True
  let ?r = "byteSliceView (bback s) (boff s + nat lo) (nat (hi - lo)) (nat (m - lo))"
  have e: "byte_goSlice s low high mx = Inr ?r"
    using True assms(4) by (cases mx) (simp_all add: byte_goSlice_def assms(2,3) Let_def opt_index_simps)
  have w: "boff s + bcap s \<le> u_len (bback s)" "u8_ok h (bback s)" using assms(1) by (auto simp: bslice_ok_def)
  have n: "nat lo + nat (m - lo) \<le> bcap s" "nat (hi - lo) \<le> nat (m - lo)" using True by auto
  have fit: "boff s + nat lo + nat (hi - lo) \<le> u_len (bback s)" using w(1) n by linarith
  have "boff s + nat lo + nat (m - lo) \<le> u_len (bback s)" using w(1) n by linarith
  then have ok: "bslice_ok h ?r" by (rule byteSliceView_ok [OF w(2) _ n(2)])
  have v: "blen ?r = nat (hi - lo)" "bcap ?r = nat (m - lo)" "u_buf (bback ?r) = u_buf (bback s)"
    "bstart ?r = bstart s + nat lo"
    using byteSliceView_simps [OF fit n(2)] by (simp_all only: bstart_def add.assoc)
  have "bwindow h ?r = take (nat (m - lo)) (drop (nat lo) (bwindow h s))"
    unfolding bwindow_def v using n by (simp add: drop_take add.commute)
  with ok v e True show ?thesis by simp
qed

subsection \<open>append and copy on byte slices\<close>

text \<open>Only the given range of one buffer may change.\<close>

definition buf_changes :: "nat \<Rightarrow> nat set \<Rightarrow> bheap \<Rightarrow> bheap \<Rightarrow> bool" where
  "buf_changes b I h h' \<longleftrightarrow> next_buf h \<le> next_buf h' \<and>
     (\<forall>c<next_buf h. length (buffers h' c) = length (buffers h c) \<and>
        (\<forall>i<length (buffers h c). c \<noteq> b \<or> i \<notin> I \<longrightarrow> buffers h' c ! i = buffers h c ! i))"

lemma u8_store_frame [simp]:
  "next_buf (u8_store u pos bs h) = next_buf h"
  "c \<noteq> u_buf u \<Longrightarrow> buffers (u8_store u pos bs h) c = buffers h c"
  by (simp_all add: u8_store_def Let_def)

lemma u8_store_buf:
  "buffers (u8_store u pos bs h) (u_buf u) =
     take (u_off u + pos) (buffers h (u_buf u)) @ bs @ drop (u_off u + pos + length bs) (buffers h (u_buf u))"
  by (simp add: u8_store_def Let_def)

lemma buf_changes_store:
  assumes "u_off u + pos + length bs \<le> length (buffers h (u_buf u))"
  shows "buf_changes (u_buf u) {u_off u + pos..<u_off u + pos + length bs} h (u8_store u pos bs h)"
  using assms by (auto simp: buf_changes_def u8_store_def Let_def nth_append)

lemma buf_changes_ok:
  "buf_changes b I h h' \<Longrightarrow> bslice_ok h s \<Longrightarrow> bslice_ok h' s"
  by (auto simp: buf_changes_def bslice_ok_def u8_ok_def)

lemma window_store:
  assumes "st + n \<le> length xs" "pos + length bs \<le> n"
  shows "take n (drop st (take (st + pos) xs @ bs @ drop (st + pos + length bs) xs)) =
    take pos (take n (drop st xs)) @ bs @ drop (pos + length bs) (take n (drop st xs))"
proof -
  define ys where "ys = drop st xs"
  have "take (st + pos) xs = take st xs @ take pos ys" "drop (st + pos + length bs) xs = drop (pos + length bs) ys"
    by (simp_all add: ys_def take_add [of st pos] add.assoc) (simp add: ac_simps)?
  moreover have "length (take st xs) = st" "n \<le> length ys" using assms by (simp_all add: ys_def)
  moreover have "n \<le> pos \<Longrightarrow> n = pos \<and> bs = []" using assms(2) by (cases bs) simp_all
  ultimately show ?thesis
    using assms(2) by (cases "n \<le> pos") (auto simp: drop_take min_def simp flip: ys_def)
qed

lemma bytes_of_store:
  assumes "bslice_ok h s" "pos + length bs \<le> blen s"
  shows "bytes_of (u8_store (b_arr s) pos bs h) s =
    take pos (bytes_of h s) @ bs @ drop (pos + length bs) (bytes_of h s)"
proof -
  have "bstart s + blen s \<le> length (buffers h (u_buf (bback s)))"
    using assms(1) by (auto simp: bslice_ok_def u8_ok_def bstart_def)
  from window_store [OF this assms(2)] bslice_ok_arr [OF assms(1)] show ?thesis
    by (simp add: bytes_of_def u8_bytes_def u8_store_def Let_def)
qed

definition plain_items :: "byte_item list \<Rightarrow> bool" where
  "plain_items items \<longleftrightarrow> length items \<le> 1 \<or> (\<forall>x\<in>set items. case x of BytesItem s \<Rightarrow> False | _ \<Rightarrow> True)"

fun item_ok :: "bheap \<Rightarrow> byte_item \<Rightarrow> bool" where
  "item_ok h (BytesItem s) = bslice_ok h s"
| "item_ok h _ = True"

lemma length_item_bytes: "item_ok h x \<Longrightarrow> length (item_bytes h x) = byteElementLength x"
  by (cases x) (simp_all add: length_bytes_of)

lemma item_bytes_literal: "(case x of BytesItem s \<Rightarrow> False | _ \<Rightarrow> True) \<Longrightarrow> item_bytes h' x = item_bytes h x"
  by (cases x) simp_all

lemma u8_store_store:
  assumes "u_off u + pos + length as \<le> length (buffers h (u_buf u))"
  shows "u8_store u (pos + length as) bs (u8_store u pos as h) = u8_store u pos (as @ bs) h"
proof -
  let ?xs = "buffers h (u_buf u)"
  define M where "M = take (u_off u + pos) ?xs @ as @ drop (u_off u + pos + length as) ?xs"
  have "u8_store u pos as h = h\<lparr>buffers := (buffers h)(u_buf u := M)\<rparr>"
    by (simp add: u8_store_def M_def Let_def)
  moreover have "take (u_off u + (pos + length as)) M = take (u_off u + pos) ?xs @ as"
    using assms by (cases as) (auto simp: M_def min_def)
  moreover have "drop (u_off u + (pos + length as) + length bs) M = drop (u_off u + pos + length (as @ bs)) ?xs"
    using assms by (cases as) (auto simp: M_def min_def ac_simps)
  ultimately show ?thesis by (simp add: u8_store_def Let_def)
qed

text \<open>Consecutive stores of items that do not depend on the heap are one store.\<close>

lemma write_literals:
  assumes "\<forall>x\<in>set items. case x of BytesItem s \<Rightarrow> False | _ \<Rightarrow> True"
    and "pos + sum_list (map byteElementLength items) \<le> u_len u"
    and "u_off u + u_len u \<le> length (buffers h (u_buf u))"
  shows "writeByteElements u pos items h = Inr (u8_store u pos (concat (map (item_bytes h) items)) h)"
  using assms
proof (induction items arbitrary: pos h)
  case Nil
  then show ?case by (simp add: u8_store_def)
next
  case (Cons x xs)
  let ?bs = "item_bytes h x"
  let ?h1 = "u8_store u pos ?bs h"
  let ?rest = "concat (map (item_bytes h) xs)"
  have l: "length ?bs = byteElementLength x" using Cons.prems(1) by (cases x) auto
  then have s: "u8_set u pos ?bs h = Inr ?h1" using Cons.prems(2) by (simp add: u8_set_def)
  have i: "item_bytes ?h1 y = item_bytes h y" if "y \<in> set xs" for y
    using Cons.prems(1) that by (intro item_bytes_literal) simp
  have "length (buffers ?h1 (u_buf u)) = length (buffers h (u_buf u))"
    using Cons.prems(2,3) l by (simp add: u8_store_buf)
  then have "writeByteElements u (pos + length ?bs) xs ?h1 =
      Inr (u8_store u (pos + length ?bs) (concat (map (item_bytes ?h1) xs)) ?h1)"
    using Cons.prems l by (intro Cons.IH) auto
  also have "concat (map (item_bytes ?h1) xs) = ?rest" using i by (simp cong: map_cong)
  also have "u8_store u (pos + length ?bs) ?rest ?h1 = u8_store u pos (?bs @ ?rest) h"
    using Cons.prems(2,3) l by (intro u8_store_store) simp
  finally show ?case by (simp add: s l)
qed

lemma writeByteElements_eq:
  assumes "plain_items items" "\<forall>x\<in>set items. item_ok h x"
    and "pos + sum_list (map byteElementLength items) \<le> u_len u"
    and "u_off u + u_len u \<le> length (buffers h (u_buf u))"
  shows "writeByteElements u pos items h = Inr (u8_store u pos (concat (map (item_bytes h) items)) h)"
proof (cases "\<forall>x\<in>set items. case x of BytesItem s \<Rightarrow> False | _ \<Rightarrow> True")
  case True
  then show ?thesis using write_literals assms by blast
next
  case False
  with assms(1) have "length items \<le> 1" by (auto simp: plain_items_def)
  with False obtain x where x: "items = [x]" by (cases items) auto
  with assms(2,3) show ?thesis by (simp add: u8_set_def length_item_bytes)
qed

lemma sum_item_bytes:
  "\<forall>x\<in>set items. item_ok h x \<Longrightarrow>
   length (concat (map (item_bytes h) items)) = sum_list (map byteElementLength items)"
  by (induction items) (simp_all add: length_item_bytes)

lemma item_ok_changes: "buf_changes b I h h' \<Longrightarrow> item_ok h x \<Longrightarrow> item_ok h' x"
  by (cases x) (auto intro: buf_changes_ok)

lemma bslice_ok_plain: "u8_ok h u \<Longrightarrow> bslice_ok h \<lparr>b_arr = u, b_meta = None\<rparr>"
  by (simp add: bslice_ok_def bback_def boff_def bcap_def blen_def subarray_def Let_def)

text \<open>append on bytes never throws for a single slice (also one that overlaps the
  destination) or for any list of literal items: the result shows the old bytes followed
  by the new ones; within the capacity it stays in the same buffer and writes only the
  bytes just behind s, otherwise it moves to a fresh buffer of exactly the new length and
  leaves every existing byte alone.\<close>

theorem byte_append_spec:
  assumes "bslice_ok h s" "plain_items items" "\<forall>x\<in>set items. item_ok h x"
    and n: "n = sum_list (map byteElementLength items)"
  shows "\<exists>r h'. appendByteSlice s items h = Inr (r, h') \<and> bslice_ok h' r \<and>
    bytes_of h' r = bytes_of h s @ concat (map (item_bytes h) items) \<and>
    (if blen s + n \<le> bcap s
     then bcap r = bcap s \<and> bstart r = bstart s \<and> u_buf (bback r) = u_buf (bback s) \<and>
       buf_changes (u_buf (bback s)) {bstart s + blen s..<bstart s + blen s + n} h h'
     else bcap r = blen s + n \<and> u_buf (bback r) = next_buf h \<and> buf_changes 0 {} h h')"
proof (cases "blen s + n \<le> bcap s")
  case True
  let ?v = "byteSliceView (bback s) (boff s) (blen s + n) (bcap s)"
  let ?bs = "concat (map (item_bytes h) items)"
  let ?h' = "u8_store (b_arr ?v) (blen s) ?bs h"
  have b: "u8_ok h (bback s)" "boff s + bcap s \<le> u_len (bback s)" using assms(1) by (auto simp: bslice_ok_def)
  have ok: "bslice_ok h ?v" using byteSliceView_ok [OF b True] .
  have v: "blen ?v = blen s + n" "bcap ?v = bcap s" "u_buf (bback ?v) = u_buf (bback s)" "bstart ?v = bstart s"
    "u_off (b_arr ?v) = bstart s" "u_buf (b_arr ?v) = u_buf (bback s)" "u_len (b_arr ?v) = blen s + n"
    using byteSliceView_simps [of "boff s" "blen s + n" "bback s" "bcap s"] b True by (simp_all add: bstart_def)
  have l: "length ?bs = n" using sum_item_bytes [OF assms(3)] n by simp
  have fit: "bstart s + (blen s + n) \<le> length (buffers h (u_buf (bback s)))"
    using b True by (simp add: u8_ok_def bstart_def)
  have w: "writeByteElements (b_arr ?v) (blen s) items h = Inr ?h'"
    using assms(2,3) fit by (intro writeByteElements_eq) (simp_all add: v [unfolded n] n)
  have ch: "buf_changes (u_buf (bback s)) {bstart s + blen s..<bstart s + blen s + n} h ?h'"
    using buf_changes_store [of "b_arr ?v" "blen s" ?bs h] fit by (simp add: v l add.assoc)
  have "bytes_of h ?v = take (blen s + n) (bwindow h s)"
    using bytes_of_window [OF ok] by (simp add: v bwindow_def)
  then have "take (blen s) (bytes_of h ?v) = bytes_of h s"
    by (simp add: bytes_of_window [OF assms(1)] min_def)
  moreover have "length (bytes_of h ?v) = blen s + n" using length_bytes_of [OF ok] v by simp
  ultimately have "bytes_of ?h' ?v = bytes_of h s @ ?bs"
    using bytes_of_store [OF ok, of "blen s" ?bs] by (simp add: l v)
  moreover have "appendByteSlice s items h = Inr (?v, ?h')"
    using True w by (simp add: appendByteSlice_def n Let_def)
  ultimately show ?thesis using True buf_changes_ok [OF ch ok] ch v by (intro exI [of _ ?v] exI [of _ ?h']) simp
next
  case False
  let ?bs = "concat (map (item_bytes h) items)"
  obtain u h1 where nb: "new_buffer (replicate (blen s + n) 0) h = (u, h1)" by fastforce
  have u: "u_buf u = next_buf h" "u_off u = 0" "u_len u = blen s + n"
    "buffers h1 = (buffers h)(next_buf h := replicate (blen s + n) 0)" "next_buf h1 = Suc (next_buf h)"
    using nb by (auto simp: new_buffer_def)
  have old: "bytes_of h1 t = bytes_of h t" if "bslice_ok h t" for t
    using bslice_ok_arr(1) [OF that] that
    by (simp add: bytes_of_def u8_bytes_def u(4) bslice_ok_def u8_ok_def)
  have ls: "length (bytes_of h s) = blen s" using length_bytes_of [OF assms(1)] .
  let ?h2 = "u8_store u 0 (bytes_of h s) h1"
  have s2: "u8_set u 0 (bytes_of h1 s) h1 = Inr ?h2" by (simp add: u8_set_def old [OF assms(1)] ls u)
  have oc: "buf_changes 0 {} h ?h2"
    by (simp add: buf_changes_def u(5)) (auto simp: u8_store_def u Let_def)
  have old2: "item_bytes ?h2 x = item_bytes h x" if "x \<in> set items" for x
  proof (cases x)
    case (BytesItem t)
    then have "bslice_ok h t" using assms(3) that by force
    moreover from this have "u_buf (b_arr t) \<noteq> u_buf u"
      using bslice_ok_arr(1) [of h t] by (auto simp: u bslice_ok_def u8_ok_def)
    ultimately show ?thesis using old [of t] BytesItem by (simp add: bytes_of_def u8_bytes_def)
  qed simp_all
  then have bs: "map (item_bytes ?h2) items = map (item_bytes h) items" by simp
  have "length (buffers ?h2 (u_buf u)) = blen s + n" by (simp add: u8_store_def u Let_def ls)
  then have "writeByteElements u (blen s) items ?h2 =
      Inr (u8_store u (blen s) (concat (map (item_bytes ?h2) items)) ?h2)"
    using assms(2,3) item_ok_changes [OF oc] by (intro writeByteElements_eq) (simp_all add: u n)
  then have w: "writeByteElements u (blen s) items ?h2 = Inr (u8_store u (blen s) ?bs ?h2)"
    unfolding bs .
  let ?h3 = "u8_store u (blen s) ?bs ?h2"
  let ?r = "\<lparr>b_arr = u, b_meta = None\<rparr>"
  have rb: "bytes_of g ?r = take (blen s + n) (buffers g (next_buf h))" for g
    by (simp add: bytes_of_def u8_bytes_def u)
  have "appendByteSlice s items h = Inr (?r, ?h3)"
    using False nb s2 w by (simp add: appendByteSlice_def n Let_def)
  moreover have h3: "buffers ?h3 = (buffers h)(next_buf h := bytes_of h s @ ?bs)"
    using sum_item_bytes [OF assms(3)] by (simp add: u8_store_def u Let_def ls n)
  moreover have "bytes_of ?h3 ?r = bytes_of h s @ ?bs"
    using sum_item_bytes [OF assms(3)] by (simp add: rb h3 ls n)
  moreover have "u8_ok ?h3 u"
    using sum_item_bytes [OF assms(3)] u(5) by (simp add: u8_ok_def h3 u(1-3) ls n)
  then have "bslice_ok ?h3 ?r" by (rule bslice_ok_plain)
  moreover have "buf_changes 0 {} h ?h3" by (simp add: buf_changes_def u(5)) (simp add: h3)
  ultimately show ?thesis
    using False by (intro exI [of _ ?r] exI [of _ ?h3]) (simp add: bcap_def bback_def u)
qed

text \<open>copy on bytes returns the smaller length, makes the first bytes of dst the bytes src
  had before the call (also when they overlap in one buffer) and changes nothing else.\<close>

theorem byte_copy_spec:
  assumes "bslice_ok h dst" "bslice_ok h src"
  shows "\<exists>h'. byte_copy dst src h = Inr (min (blen dst) (blen src), h') \<and>
    bytes_of h' dst = take (blen dst) (take (min (blen dst) (blen src)) (bytes_of h src) @
      drop (min (blen dst) (blen src)) (bytes_of h dst)) \<and>
    buf_changes (u_buf (bback dst)) {bstart dst..<bstart dst + min (blen dst) (blen src)} h h'"
proof (cases "min (blen dst) (blen src) = 0")
  case True
  have "take (blen dst) (bytes_of h dst) = bytes_of h dst"
    using length_bytes_of [OF assms(1)] by simp
  with True show ?thesis
    by (intro exI [of _ h]) (auto simp: byte_copy_def buf_changes_def min_def split: if_splits)
next
  case False
  define c where "c = min (blen dst) (blen src)"
  have src: "u8_bytes h (subarray (b_arr src) 0 c) = take c (bytes_of h src)"
    by (simp add: u8_bytes_def subarray_def bytes_of_def c_def blen_def Let_def min_def)
  have l: "length (take c (bytes_of h src)) = c" using length_bytes_of [OF assms(2)] by (simp add: c_def)
  let ?h' = "u8_store (b_arr dst) 0 (take c (bytes_of h src)) h"
  note a = bslice_ok_arr [OF assms(1)]
  have d: "bstart dst + blen dst \<le> length (buffers h (u_buf (bback dst)))" "c \<le> blen dst"
    using assms(1) by (auto simp: bslice_ok_def u8_ok_def bstart_def c_def)
  have "byte_copy dst src h = Inr (c, ?h')"
    using False d(2) by (simp add: byte_copy_def Let_def u8_set_def src l a flip: c_def)
  moreover have "bytes_of ?h' dst = take c (bytes_of h src) @ drop c (bytes_of h dst)"
    using bytes_of_store [OF assms(1), of 0 "take c (bytes_of h src)"] d(2) by (simp only: l) simp
  moreover from this have "take (blen dst) (bytes_of ?h' dst) = bytes_of ?h' dst"
    using length_bytes_of [OF assms(1)] l d(2) by simp
  moreover have "buf_changes (u_buf (bback dst)) {bstart dst..<bstart dst + c} h ?h'"
    using buf_changes_store [of "b_arr dst" 0 "take c (bytes_of h src)" h] d unfolding l by (simp add: a)
  ultimately show ?thesis unfolding c_def [symmetric] by (intro exI [of _ ?h']) simp
qed

subsection \<open>What the searches find\<close>

lemma match_at_prefix:
  "i + length needle \<le> length hay \<Longrightarrow> match_at hay needle i \<longleftrightarrow> prefix needle (drop i hay)"
proof -
  assume le: "i + length needle \<le> length hay"
  have "prefix needle (drop i hay) \<longleftrightarrow> take (length needle) (drop i hay) = needle"
    by (metis append_eq_conv_conj prefix_def)
  also have "\<dots> \<longleftrightarrow> match_at hay needle i"
    using le by (subst list_eq_iff_nth_eq) (simp add: match_at_def list_all_iff Ball_def)
  finally show ?thesis by simp
qed

lemma scan_up_spec:
  "(case scan_up hay needle i n of r \<Rightarrow>
     (r = -1 \<and> (\<forall>j. i \<le> j \<and> j < i + n \<longrightarrow> \<not> match_at hay needle j)) \<or>
     (\<exists>k. r = int k \<and> i \<le> k \<and> k < i + n \<and> match_at hay needle k \<and>
        (\<forall>j. i \<le> j \<and> j < k \<longrightarrow> \<not> match_at hay needle j)))"
proof (induction n arbitrary: i)
  case (Suc n)
  show ?case
  proof (cases "match_at hay needle i")
    case False
    have "j = i \<or> Suc i \<le> j" if "i \<le> j" for j using that by auto
    with Suc.IH [of "Suc i"] False show ?thesis by (simp) (metis Suc_leD)
  qed auto
qed auto

lemma scan_down_spec:
  "(case scan_down hay needle i of r \<Rightarrow>
     (r = -1 \<and> (\<forall>j\<le>i. \<not> match_at hay needle j)) \<or>
     (\<exists>k\<le>i. r = int k \<and> match_at hay needle k \<and> (\<forall>j. k < j \<and> j \<le> i \<longrightarrow> \<not> match_at hay needle j)))"
proof (induction i)
  case (Suc i)
  then show ?case by (auto simp: le_Suc_eq)
qed auto

text \<open>Where a needle occurs.\<close>

definition occurs_at :: "byte list \<Rightarrow> byte list \<Rightarrow> nat \<Rightarrow> bool" where
  "occurs_at hay needle i \<longleftrightarrow> i \<le> length hay \<and> prefix needle (drop i hay)"

lemma occurs_at_bound: "occurs_at hay needle i \<Longrightarrow> i + length needle \<le> length hay"
  by (auto simp: occurs_at_def dest: prefix_length_le)

lemma occurs_match: "occurs_at hay needle i \<longleftrightarrow> i + length needle \<le> length hay \<and> match_at hay needle i"
  using occurs_at_bound match_at_prefix by (auto simp: occurs_at_def)

lemma compare_bytes_cases:
  "(compare_bytes x y = 0 \<longleftrightarrow> x = y) \<and> (compare_bytes x y = -1 \<longleftrightarrow> (x, y) \<in> lexord {(a, b). a < b}) \<and>
   (compare_bytes x y = 1 \<longleftrightarrow> (y, x) \<in> lexord {(a, b). a < b})"
  by (induction x y rule: compare_bytes.induct) auto

text \<open>On byte slices that are not nil: bytesEqual is equality, bytesCompare is the sign of
  the lexicographic order, bytesIndexOf gives the first and bytesLastIndexOf the last
  position where the needle occurs, and -1 exactly when it occurs nowhere.\<close>

theorem byte_search_spec:
  "(bytesEqual (Some x) (Some y) \<longleftrightarrow> x = y) \<and>
   bytesCompare (Some x) (Some y) =
     (if x = y then 0 else if (x, y) \<in> lexord {(a, b). a < b} then -1 else 1) \<and>
   (case bytesIndexOf (Some x) (Some y) of r \<Rightarrow>
      r = -1 \<and> (\<forall>i. \<not> occurs_at x y i) \<or>
      (\<exists>i. r = int i \<and> occurs_at x y i \<and> (\<forall>j<i. \<not> occurs_at x y j))) \<and>
   (case bytesLastIndexOf (Some x) (Some y) of r \<Rightarrow>
      r = -1 \<and> (\<forall>i. \<not> occurs_at x y i) \<or>
      (\<exists>i. r = int i \<and> occurs_at x y i \<and> (\<forall>j>i. \<not> occurs_at x y j)))"
proof (intro conjI)
  show "bytesEqual (Some x) (Some y) \<longleftrightarrow> x = y"
    by (subst list_eq_iff_nth_eq) (auto simp: bytesEqual_def list_all_iff)
  have "compare_bytes x y \<in> {-1, 0, 1}" by (induction x y rule: compare_bytes.induct) auto
  then have v: "compare_bytes x y = (if compare_bytes x y = 0 then 0 else if compare_bytes x y = -1 then -1 else 1)"
    by auto
  have e: "compare_bytes x y = 0 \<longleftrightarrow> x = y" "compare_bytes x y = -1 \<longleftrightarrow> (x, y) \<in> lexord {(a, b). a < b}"
    using compare_bytes_cases [of x y] by blast+
  show "bytesCompare (Some x) (Some y) =
      (if x = y then 0 else if (x, y) \<in> lexord {(a, b). a < b} then -1 else 1)"
    unfolding bytesCompare_def prod.case option.case using v unfolding e .
  show "case bytesIndexOf (Some x) (Some y) of r \<Rightarrow>
      r = -1 \<and> (\<forall>i. \<not> occurs_at x y i) \<or>
      (\<exists>i. r = int i \<and> occurs_at x y i \<and> (\<forall>j<i. \<not> occurs_at x y j))"
  proof (cases "y = [] \<or> length x < length y")
    case True
    then show ?thesis by (auto simp: bytesIndexOf_def occurs_at_def dest: prefix_length_le intro!: exI [of _ 0])
  next
    case False
    have "occurs_at x y i \<longleftrightarrow> i < Suc (length x - length y) \<and> match_at x y i" for i
      using False by (auto simp: occurs_match)
    with False scan_up_spec [of x y 0 "Suc (length x - length y)"] show ?thesis
      by (auto simp: bytesIndexOf_def)
  qed
  show "case bytesLastIndexOf (Some x) (Some y) of r \<Rightarrow>
      r = -1 \<and> (\<forall>i. \<not> occurs_at x y i) \<or>
      (\<exists>i. r = int i \<and> occurs_at x y i \<and> (\<forall>j>i. \<not> occurs_at x y j))"
  proof (cases "y = [] \<or> length x < length y")
    case True
    then show ?thesis by (auto simp: bytesLastIndexOf_def occurs_at_def dest: prefix_length_le
        intro!: exI [of _ "length x"])
  next
    case False
    have "occurs_at x y i \<longleftrightarrow> i \<le> length x - length y \<and> match_at x y i" for i
      using False by (auto simp: occurs_match)
    with False scan_down_spec [of x y "length x - length y"] show ?thesis
      by (auto simp: bytesLastIndexOf_def)
  qed
qed

text \<open>A nil slice is not treated as an empty one: \<open>bytes.Equal(nil, []byte{})\<close> is false,
  \<open>bytes.Compare(nil, []byte{})\<close> is -1 and \<open>bytes.Index(nil, nil)\<close> is -1.\<close>

lemma nil_is_not_empty:
  "\<not> bytesEqual None (Some []) \<and> bytesCompare None (Some []) = -1 \<and> bytesIndexOf None None = -1"
  by (simp add: bytesEqual_def bytesCompare_def bytesIndexOf_def)

subsection \<open>The properties at concrete slices\<close>

definition bheap5 :: bheap where
  "bheap5 = \<lparr>buffers = (\<lambda>b. [1, 2, 3, 4, 5]), next_buf = 1\<rparr>"

definition arr5 :: u8array where "arr5 = \<lparr>u_buf = 0, u_off = 0, u_len = 5\<rparr>"

definition head2 :: bslice where "head2 = byteSliceView arr5 0 2 5"
definition mid3 :: bslice where "mid3 = byteSliceView arr5 1 3 4"

lemma arr5_ok: "u8_ok bheap5 arr5"
  by (simp add: u8_ok_def bheap5_def arr5_def)

lemma head2_ok: "bslice_ok bheap5 head2" and mid3_ok: "bslice_ok bheap5 mid3"
  unfolding head2_def mid3_def by (rule byteSliceView_ok [OF arr5_ok]; simp add: arr5_def)+

lemma head2_bytes: "bytes_of bheap5 head2 = [1, 2]" "blen head2 = 2" "bcap head2 = 5"
  by (simp_all add: bytes_of_def u8_bytes_def head2_def byteSliceView_def subarray_def arr5_def bheap5_def
      blen_def bcap_def numeral_2_eq_2)

lemma mid3_bytes: "bytes_of bheap5 mid3 = [2, 3, 4]" "blen mid3 = 3" "bcap mid3 = 4"
  by (simp_all add: bytes_of_def u8_bytes_def mid3_def byteSliceView_def subarray_def arr5_def bheap5_def
      blen_def bcap_def numeral_3_eq_3)

theorem byte_goSlice_spec_witness:
  "is_ok (byte_goSlice head2 (Some 1) (Some 4) (Some 5)) \<and> \<not> is_ok (byte_goSlice head2 (Some 1) (Some 4) (Some 6))"
  using byte_goSlice_spec [OF head2_ok, of "Some 1" 1 "Some 4" 4 "Some 5" 5]
    byte_goSlice_spec [OF head2_ok, of "Some 1" 1 "Some 4" 4 "Some 6" 6]
  by (simp add: opt_index_simps head2_bytes)

theorem byte_append_spec_witness:
  "\<exists>r h'. appendByteSlice head2 [BytesItem mid3] bheap5 = Inr (r, h') \<and> bytes_of h' r = [1, 2, 2, 3, 4]"
proof -
  have i: "plain_items [BytesItem mid3]" by (simp add: plain_items_def)
  have o: "\<forall>x\<in>set [BytesItem mid3]. item_ok bheap5 x" by (simp add: mid3_ok)
  show ?thesis
    using byte_append_spec [OF head2_ok i o refl] head2_bytes mid3_bytes by auto
qed

theorem byte_copy_spec_witness:
  "\<exists>h'. byte_copy mid3 head2 bheap5 = Inr (2, h') \<and> bytes_of h' mid3 = [1, 2, 4]"
  using byte_copy_spec [OF mid3_ok head2_ok] head2_bytes mid3_bytes by (auto simp: numeral_3_eq_3 numeral_2_eq_2)

theorem byte_search_spec_witness:
  "bytesCompare (Some [1, 2, 3]) (Some [1, 3]) = -1 \<and> \<not> bytesEqual (Some [1, 2, 3]) (Some [1, 3])"
  using byte_search_spec [of "[1, 2, 3]" "[1, 3]"] by simp

end
