(* ===== verification/GsSync.thy ===== *)
theory GsSync
  imports GsPrelude
begin

section \<open>Locks, wait groups and one-time execution (gs/sync/sync.ts)\<close>

text \<open>
  A goroutine that blocks awaits a promise, named by a number; the wait queues hold those
  names. Callbacks handed to \<open>queueMicrotask\<close> are returned as jobs, in order, and run by the
  event loop after the current task. \<open>Lock\<close> and its relatives are asynchronous: the reply
  says whether the promise \<open>p\<close> of this call is settled at once or waits.
\<close>

datatype grant = Acquired | Blocked

subsection \<open>Mutex\<close>

record mutex =
  locked :: bool
  wait_queue :: "nat list"

definition new_mutex :: mutex where "new_mutex = \<lparr>locked = False, wait_queue = []\<rparr>"

definition mutex_Lock :: "nat \<Rightarrow> mutex \<Rightarrow> mutex \<times> grant" where
  "mutex_Lock p m =
     (if \<not> locked m then (m\<lparr>locked := True\<rparr>, Acquired)
      else (m\<lparr>wait_queue := wait_queue m @ [p]\<rparr>, Blocked))"

definition mutex_TryLock :: "mutex \<Rightarrow> mutex \<times> bool" where
  "mutex_TryLock m = (if \<not> locked m then (m\<lparr>locked := True\<rparr>, True) else (m, False))"

text \<open>\<open>Unlock\<close> hands the lock to the first waiter without ever leaving it free.\<close>

definition mutex_Unlock :: "mutex \<Rightarrow> (mutex \<times> nat list) res" where
  "mutex_Unlock m =
     (if \<not> locked m then Inl (ThrownError ''sync: unlock of unlocked mutex'')
      else case wait_queue m of
        [] \<Rightarrow> Inr (m\<lparr>locked := False\<rparr>, [])
      | p # ps \<Rightarrow> Inr (m\<lparr>locked := True, wait_queue := ps\<rparr>, [p]))"

datatype mutex_op = MLock nat | MTryLock nat | MUnlock

text \<open>A history: the calls that asked for the lock and did not fail, the grants in the order
  they were made (at once or by a hand-over), and the number of successful unlocks.\<close>

record mutex_log =
  asked :: "nat list"
  granted :: "nat list"
  unlocks :: nat

fun mutex_step :: "mutex_op \<Rightarrow> mutex \<times> mutex_log \<Rightarrow> mutex \<times> mutex_log" where
  "mutex_step (MLock p) (m, l) =
     (case mutex_Lock p m of
        (m', Acquired) \<Rightarrow> (m', l\<lparr>asked := asked l @ [p], granted := granted l @ [p]\<rparr>)
      | (m', Blocked) \<Rightarrow> (m', l\<lparr>asked := asked l @ [p]\<rparr>))"
| "mutex_step (MTryLock p) (m, l) =
     (case mutex_TryLock m of
        (m', True) \<Rightarrow> (m', l\<lparr>asked := asked l @ [p], granted := granted l @ [p]\<rparr>)
      | (m', False) \<Rightarrow> (m', l))"
| "mutex_step MUnlock (m, l) =
     (case mutex_Unlock m of
        Inl e \<Rightarrow> (m, l)
      | Inr (m', ps) \<Rightarrow> (m', l\<lparr>granted := granted l @ ps, unlocks := Suc (unlocks l)\<rparr>))"

definition mutex_start :: "mutex \<times> mutex_log" where
  "mutex_start = (new_mutex, \<lparr>asked = [], granted = [], unlocks = 0\<rparr>)"

definition mutex_inv :: "mutex \<times> mutex_log \<Rightarrow> bool" where
  "mutex_inv s \<longleftrightarrow> (case s of (m, l) \<Rightarrow>
     asked l = granted l @ wait_queue m \<and> (\<not> locked m \<longrightarrow> wait_queue m = []) \<and>
     length (granted l) = unlocks l + (if locked m then 1 else 0))"

lemma mutex_step_inv: "mutex_inv s \<Longrightarrow> mutex_inv (mutex_step op s)"
  by (cases s; cases op)
    (auto simp: mutex_inv_def mutex_Lock_def mutex_TryLock_def mutex_Unlock_def split: list.splits)

text \<open>C10. Mutual exclusion and fairness of Mutex, over any history of Lock, TryLock and Unlock
  calls (failed unlocks included): the lock is granted at most once more than it has been
  released, it is held exactly while one grant is outstanding, the grants are made in the
  order of the requests, and a goroutine waits only while the lock is held.\<close>

theorem mutex_exclusive_fifo:
  "case fold mutex_step ops mutex_start of (m, l) \<Rightarrow>
     length (granted l) = unlocks l + (if locked m then 1 else 0) \<and>
     asked l = granted l @ wait_queue m \<and>
     (wait_queue m = [] \<or> locked m)"
proof -
  have "mutex_inv s \<Longrightarrow> mutex_inv (fold mutex_step ops s)" for s
    by (induction ops arbitrary: s) (simp_all add: mutex_step_inv)
  moreover have "mutex_inv mutex_start" by (simp add: mutex_inv_def mutex_start_def new_mutex_def)
  ultimately have "mutex_inv (fold mutex_step ops mutex_start)" by blast
  then show ?thesis by (auto simp: mutex_inv_def split: prod.splits)
qed

subsection \<open>RWMutex\<close>

datatype rw_job = WakeWriter nat | WakeReaders "nat list"

record rwmutex =
  readers :: nat
  writer :: bool
  reader_queue :: "nat list"
  writer_queue :: "nat list"

definition new_rwmutex :: rwmutex where
  "new_rwmutex = \<lparr>readers = 0, writer = False, reader_queue = [], writer_queue = []\<rparr>"

definition rw_Lock :: "nat \<Rightarrow> rwmutex \<Rightarrow> rwmutex \<times> grant" where
  "rw_Lock p m =
     (if \<not> writer m \<and> readers m = 0 then (m\<lparr>writer := True\<rparr>, Acquired)
      else (m\<lparr>writer_queue := writer_queue m @ [p]\<rparr>, Blocked))"

definition rw_TryLock :: "rwmutex \<Rightarrow> rwmutex \<times> bool" where
  "rw_TryLock m =
     (if \<not> writer m \<and> readers m = 0 then (m\<lparr>writer := True\<rparr>, True) else (m, False))"

definition rw_RLock :: "nat \<Rightarrow> rwmutex \<Rightarrow> rwmutex \<times> grant" where
  "rw_RLock p m =
     (if \<not> writer m \<and> writer_queue m = [] then (m\<lparr>readers := Suc (readers m)\<rparr>, Acquired)
      else (m\<lparr>reader_queue := reader_queue m @ [p]\<rparr>, Blocked))"

definition rw_TryRLock :: "rwmutex \<Rightarrow> rwmutex \<times> bool" where
  "rw_TryRLock m =
     (if \<not> writer m \<and> writer_queue m = [] then (m\<lparr>readers := Suc (readers m)\<rparr>, True) else (m, False))"

definition wakeUpWaiters :: "rwmutex \<Rightarrow> rwmutex \<times> rw_job list" where
  "wakeUpWaiters m =
     (case writer_queue m of
        p # ps \<Rightarrow>
          if readers m = 0 then (m\<lparr>writer_queue := ps, writer := True\<rparr>, [WakeWriter p])
          else if reader_queue m \<noteq> [] \<and> \<not> writer m
          then (m\<lparr>reader_queue := []\<rparr>, [WakeReaders (reader_queue m)]) else (m, [])
      | [] \<Rightarrow>
          if reader_queue m \<noteq> [] \<and> \<not> writer m
          then (m\<lparr>reader_queue := []\<rparr>, [WakeReaders (reader_queue m)]) else (m, []))"

definition rw_Unlock :: "rwmutex \<Rightarrow> (rwmutex \<times> rw_job list) res" where
  "rw_Unlock m =
     (if \<not> writer m then Inl (ThrownError ''sync: unlock of unlocked RWMutex'')
      else Inr (wakeUpWaiters (m\<lparr>writer := False\<rparr>)))"

definition rw_RUnlock :: "rwmutex \<Rightarrow> (rwmutex \<times> rw_job list) res" where
  "rw_RUnlock m =
     (if readers m = 0 then Inl (ThrownError ''sync: RUnlock of unlocked RWMutex'')
      else let m1 = m\<lparr>readers := readers m - 1\<rparr> in
        if readers m1 = 0 then Inr (wakeUpWaiters m1) else Inr (m1, []))"

text \<open>The queued callbacks: a writer's promise is resolved; every woken reader first counts
  itself.\<close>

fun rw_run_job :: "rw_job \<Rightarrow> rwmutex \<Rightarrow> rwmutex" where
  "rw_run_job (WakeWriter p) m = m"
| "rw_run_job (WakeReaders ps) m = m\<lparr>readers := readers m + length ps\<rparr>"

datatype rw_op = RWLock nat | RWTryLock nat | RWUnlock | RRLock nat | RTryRLock nat | RRUnlock | RunMicrotask

text \<open>A history of the lock, for writing and for reading: who asked for it (a failed attempt does
  not ask), who was granted it, in this order, and how often it was released.\<close>

record rw_log =
  w_asked :: "nat list"
  w_granted :: "nat list"
  w_unlocks :: nat
  r_asked :: "nat list"
  r_granted :: "nat list"
  r_unlocks :: nat

definition rw_start :: "rwmutex \<times> rw_log" where
  "rw_start = (new_rwmutex, \<lparr>w_asked = [], w_granted = [], w_unlocks = 0, r_asked = [], r_granted = [], r_unlocks = 0\<rparr>)"

fun rw_log_job :: "rw_job \<Rightarrow> rw_log \<Rightarrow> rw_log" where
  "rw_log_job (WakeWriter p) l = l\<lparr>w_granted := w_granted l @ [p]\<rparr>"
| "rw_log_job (WakeReaders ps) l = l\<lparr>r_granted := r_granted l @ ps\<rparr>"

text \<open>The lock with its history and its pending microtasks; \<open>RunMicrotask\<close> runs the first of them.\<close>

fun rw_step :: "rw_op \<Rightarrow> rwmutex \<times> rw_log \<times> rw_job list \<Rightarrow> rwmutex \<times> rw_log \<times> rw_job list" where
  "rw_step (RWLock p) (m, l, q) = (case rw_Lock p m of
     (m', Acquired) \<Rightarrow> (m', l\<lparr>w_asked := w_asked l @ [p], w_granted := w_granted l @ [p]\<rparr>, q)
   | (m', Blocked) \<Rightarrow> (m', l\<lparr>w_asked := w_asked l @ [p]\<rparr>, q))"
| "rw_step (RWTryLock p) (m, l, q) = (case rw_TryLock m of
     (m', True) \<Rightarrow> (m', l\<lparr>w_asked := w_asked l @ [p], w_granted := w_granted l @ [p]\<rparr>, q)
   | (m', False) \<Rightarrow> (m', l, q))"
| "rw_step RWUnlock (m, l, q) = (case rw_Unlock m of
     Inl e \<Rightarrow> (m, l, q) | Inr (m', js) \<Rightarrow> (m', l\<lparr>w_unlocks := Suc (w_unlocks l)\<rparr>, q @ js))"
| "rw_step (RRLock p) (m, l, q) = (case rw_RLock p m of
     (m', Acquired) \<Rightarrow> (m', l\<lparr>r_asked := r_asked l @ [p], r_granted := r_granted l @ [p]\<rparr>, q)
   | (m', Blocked) \<Rightarrow> (m', l\<lparr>r_asked := r_asked l @ [p]\<rparr>, q))"
| "rw_step (RTryRLock p) (m, l, q) = (case rw_TryRLock m of
     (m', True) \<Rightarrow> (m', l\<lparr>r_asked := r_asked l @ [p], r_granted := r_granted l @ [p]\<rparr>, q)
   | (m', False) \<Rightarrow> (m', l, q))"
| "rw_step RRUnlock (m, l, q) = (case rw_RUnlock m of
     Inl e \<Rightarrow> (m, l, q) | Inr (m', js) \<Rightarrow> (m', l\<lparr>r_unlocks := Suc (r_unlocks l)\<rparr>, q @ js))"
| "rw_step RunMicrotask (m, l, q) = (case q of
     [] \<Rightarrow> (m, l, []) | j # js \<Rightarrow> (rw_run_job j m, rw_log_job j l, js))"

text \<open>A turn of the event loop: one call, then all microtasks.\<close>

definition rw_turn :: "rw_op \<Rightarrow> rwmutex \<times> rw_log \<Rightarrow> rwmutex \<times> rw_log" where
  "rw_turn op s = (case s of (m, l) \<Rightarrow> case rw_step op (m, l, []) of
     (m', l', js) \<Rightarrow> (fold rw_run_job js m', fold rw_log_job js l'))"

definition rw_inv :: "rwmutex \<times> rw_log \<Rightarrow> bool" where
  "rw_inv s \<longleftrightarrow> (case s of (m, l) \<Rightarrow> \<not> (writer m \<and> 0 < readers m) \<and>
     length (w_granted l) = w_unlocks l + (if writer m then 1 else 0) \<and>
     length (r_granted l) = r_unlocks l + readers m \<and>
     w_asked l = w_granted l @ writer_queue m \<and> r_asked l = r_granted l @ reader_queue m \<and>
     (writer_queue m \<noteq> [] \<longrightarrow> writer m \<or> 0 < readers m) \<and>
     (reader_queue m \<noteq> [] \<longrightarrow> writer m \<or> writer_queue m \<noteq> []))"

lemma rw_turn_inv: "rw_inv s \<Longrightarrow> rw_inv (rw_turn op s)"
  by (cases s; cases op)
    (auto simp: rw_inv_def rw_turn_def rw_Lock_def rw_TryLock_def rw_RLock_def rw_TryRLock_def
      rw_Unlock_def rw_RUnlock_def wakeUpWaiters_def Let_def split: list.splits)

text \<open>C11. RWMutex, over any history in which each call happens in its own turn of the event loop:
  the grants for writing exceed the releases by one exactly while the lock is held for writing and
  never by more, so two writers never hold it together; the grants for reading exceed the releases
  by the number of readers, and there is none while a writer holds the lock. Both kinds of
  grants are made in the order of the requests. Nobody waits in vain: a waiting writer means the
  lock is held, a waiting reader that a writer holds it or waits.\<close>

theorem rwmutex_exclusion:
  "case fold rw_turn ops rw_start of (m, l) \<Rightarrow>
     length (w_granted l) = w_unlocks l + (if writer m then 1 else 0) \<and>
     length (r_granted l) = r_unlocks l + readers m \<and> \<not> (writer m \<and> 0 < readers m) \<and>
     w_asked l = w_granted l @ writer_queue m \<and> r_asked l = r_granted l @ reader_queue m \<and>
     (writer_queue m = [] \<or> writer m \<or> 0 < readers m) \<and>
     (reader_queue m = [] \<or> writer m \<or> 0 < length (writer_queue m))"
proof -
  have "rw_inv s \<Longrightarrow> rw_inv (fold rw_turn ops s)" for s
    by (induction ops arbitrary: s) (simp_all add: rw_turn_inv)
  moreover have "rw_inv rw_start" by (simp add: rw_inv_def rw_start_def new_rwmutex_def)
  ultimately have "rw_inv (fold rw_turn ops rw_start)" by blast
  then show ?thesis by (auto simp: rw_inv_def split: prod.splits)
qed

text \<open>The condition on turns is needed. A writer unlocks while a reader waits, and another
  goroutine locks for writing before the queued wake-up has run: the reader then enters
  while the second writer holds the lock.\<close>

lemma rwmutex_breach:
  "case fold rw_step [RWLock 1, RRLock 2, RWUnlock, RWLock 3, RunMicrotask] (fst rw_start, snd rw_start, []) of (m, l, q) \<Rightarrow>
     writer m \<and> readers m = 1 \<and> w_granted l = [1, 3] \<and> w_unlocks l = 1 \<and> r_granted l = [2] \<and> r_unlocks l = 0"
  by (simp add: rw_start_def new_rwmutex_def rw_Lock_def rw_RLock_def rw_Unlock_def wakeUpWaiters_def)

subsection \<open>WaitGroup\<close>

record wait_group =
  counter :: int
  waiters :: "nat list"

definition new_wait_group :: wait_group where "new_wait_group = \<lparr>counter = 0, waiters = []\<rparr>"

text \<open>\<open>Add\<close>: the counter changes before the check, and stays changed when it throws. The
  goroutines woken by one microtask are returned.\<close>

definition wg_Add :: "int \<Rightarrow> wait_group \<Rightarrow> wait_group \<times> nat list res" where
  "wg_Add delta w =
     (let w1 = w\<lparr>counter := counter w + delta\<rparr> in
      if counter w1 < 0 then (w1, Inl (ThrownError ''sync: negative WaitGroup counter''))
      else if counter w1 = 0 then (w1\<lparr>waiters := []\<rparr>, Inr (waiters w1))
      else (w1, Inr []))"

definition wg_Done :: "wait_group \<Rightarrow> wait_group \<times> nat list res" where
  "wg_Done w = wg_Add (-1) w"

definition wg_Wait :: "nat \<Rightarrow> wait_group \<Rightarrow> wait_group \<times> grant" where
  "wg_Wait p w =
     (if counter w = 0 then (w, Acquired) else (w\<lparr>waiters := waiters w @ [p]\<rparr>, Blocked))"

datatype wg_op = WAdd int | WDone | WWait nat

text \<open>The goroutines released so far, at once or by a wake-up.\<close>

fun wg_step :: "wg_op \<Rightarrow> wait_group \<times> nat list \<Rightarrow> wait_group \<times> nat list" where
  "wg_step (WAdd d) (w, rel) = (case wg_Add d w of (w', Inr ps) \<Rightarrow> (w', rel @ ps) | (w', Inl e) \<Rightarrow> (w', rel))"
| "wg_step WDone (w, rel) = (case wg_Done w of (w', Inr ps) \<Rightarrow> (w', rel @ ps) | (w', Inl e) \<Rightarrow> (w', rel))"
| "wg_step (WWait p) (w, rel) =
     (case wg_Wait p w of (w', Acquired) \<Rightarrow> (w', rel @ [p]) | (w', Blocked) \<Rightarrow> (w', rel))"

fun wg_delta :: "wg_op \<Rightarrow> int" where
  "wg_delta (WAdd d) = d"
| "wg_delta WDone = -1"
| "wg_delta (WWait p) = 0"

fun wg_asks :: "wg_op \<Rightarrow> nat list" where
  "wg_asks (WWait p) = [p]"
| "wg_asks _ = []"

lemma wg_step_counter: "counter (fst (wg_step op s)) = counter (fst s) + wg_delta op"
  by (cases s; cases op)
    (auto simp: wg_Add_def wg_Done_def wg_Wait_def Let_def split: sum.splits prod.splits if_splits)

lemma wg_step_log:
  "(counter (fst s) = 0 \<longrightarrow> waiters (fst s) = []) \<Longrightarrow>
   snd (wg_step op s) @ waiters (fst (wg_step op s)) = snd s @ waiters (fst s) @ wg_asks op \<and>
   (counter (fst (wg_step op s)) = 0 \<longrightarrow> waiters (fst (wg_step op s)) = [])"
  by (cases s; cases op) (auto simp: wg_Add_def wg_Done_def wg_Wait_def Let_def)

text \<open>WaitGroup: after any history the counter is the sum of the deltas; every goroutine
  that called Wait is either released or still waiting, in the order of the calls; and
  whenever the counter is zero nobody is left waiting.\<close>

theorem wait_group_spec:
  "case fold wg_step ops (new_wait_group, []) of (w, released) \<Rightarrow>
     counter w = sum_list (map wg_delta ops) \<and>
     released @ waiters w = concat (map wg_asks ops) \<and>
     (if counter w = 0 then waiters w = [] else True)"
proof -
  have "(counter (fst s) = 0 \<longrightarrow> waiters (fst s) = []) \<Longrightarrow>
      counter (fst (fold wg_step ops s)) = counter (fst s) + sum_list (map wg_delta ops) \<and>
      snd (fold wg_step ops s) @ waiters (fst (fold wg_step ops s)) =
        snd s @ waiters (fst s) @ concat (map wg_asks ops) \<and>
      (counter (fst (fold wg_step ops s)) = 0 \<longrightarrow> waiters (fst (fold wg_step ops s)) = [])" for s
  proof (induction ops arbitrary: s)
    case (Cons op ops)
    from Cons.IH [of "wg_step op s"] wg_step_log [OF Cons.prems, of op] show ?case
      by (simp add: wg_step_counter)
  qed simp
  from this [of "(new_wait_group, [])"] show ?thesis
    by (simp add: new_wait_group_def split_beta)
qed

subsection \<open>Once and the one-time functions\<close>

text \<open>\<open>Do\<close> in the pieces between its awaits. \<open>once_Do\<close> runs up to \<open>await this._m.Lock()\<close>;
  \<open>once_enter\<close> is what follows it, and answers whether \<open>f\<close> is called (\<open>True\<close>) or the lock is
  released again; \<open>once_leave\<close> is the \<open>finally\<close> block after \<open>f\<close> has settled.\<close>

record once =
  o_done :: bool
  o_mutex :: mutex

definition new_once :: once where "new_once = \<lparr>o_done = False, o_mutex = new_mutex\<rparr>"

datatype once_reply = OReturned | OLocked | OWaiting | OThrown js_exn

text \<open>\<open>no_f\<close>: the argument is nil.\<close>

definition once_Do :: "bool \<Rightarrow> nat \<Rightarrow> once \<Rightarrow> once \<times> once_reply" where
  "once_Do no_f p s =
     (if no_f then (s, OThrown (ThrownError ''sync: nil function in Once.Do''))
      else if o_done s then (s, OReturned)
      else case mutex_Lock p (o_mutex s) of
        (m, Acquired) \<Rightarrow> (s\<lparr>o_mutex := m\<rparr>, OLocked)
      | (m, Blocked) \<Rightarrow> (s\<lparr>o_mutex := m\<rparr>, OWaiting))"

definition once_enter :: "once \<Rightarrow> (once \<times> bool \<times> nat list) res" where
  "once_enter s =
     (if \<not> o_done s then Inr (s\<lparr>o_done := True\<rparr>, True, [])
      else bindR (mutex_Unlock (o_mutex s)) (\<lambda>(m, ps). Inr (s\<lparr>o_mutex := m\<rparr>, False, ps)))"

definition once_leave :: "once \<Rightarrow> (once \<times> nat list) res" where
  "once_leave s = bindR (mutex_Unlock (o_mutex s)) (\<lambda>(m, ps). Inr (s\<lparr>o_mutex := m\<rparr>, ps))"

datatype once_op = DoStart bool nat | DoEnter | DoLeave

text \<open>The number of calls of \<open>f\<close> so far.\<close>

fun once_step :: "once_op \<Rightarrow> once \<times> nat \<Rightarrow> once \<times> nat" where
  "once_step (DoStart no_f p) (s, n) = (fst (once_Do no_f p s), n)"
| "once_step DoEnter (s, n) =
     (case once_enter s of Inl e \<Rightarrow> (s, n) | Inr (s', called, ps) \<Rightarrow> (s', if called then Suc n else n))"
| "once_step DoLeave (s, n) = (case once_leave s of Inl e \<Rightarrow> (s, n) | Inr (s', ps) \<Rightarrow> (s', n))"

text \<open>\<open>OnceFunc\<close>, \<open>OnceValue\<close> and \<open>OnceValues\<close> share one shape: the closure's variables are the
  result of the first call, if there was one; \<open>f\<close> is the outcome \<open>f()\<close> would have now.\<close>

definition once_value_call :: "'a res \<Rightarrow> 'a res option \<Rightarrow> 'a res \<times> 'a res option" where
  "once_value_call f saved = (case saved of Some r \<Rightarrow> (r, saved) | None \<Rightarrow> (f, Some f))"

fun once_value_calls :: "'a res list \<Rightarrow> 'a res option \<Rightarrow> 'a res list" where
  "once_value_calls [] saved = []"
| "once_value_calls (f # fs) saved =
     (case once_value_call f saved of (r, saved') \<Rightarrow> r # once_value_calls fs saved')"

lemma once_value_saved: "once_value_calls fs (Some r) = replicate (length fs) r"
  by (induction fs) (simp_all add: once_value_call_def)

lemma once_step_inv:
  assumes "n = (if o_done s then 1 else 0)" "once_step op (s, n) = (s', n')"
  shows "n' = (if o_done s' then 1 else 0) \<and> (o_done s \<longrightarrow> o_done s')"
  using assms
  by (cases op) (auto simp: once_Do_def once_enter_def once_leave_def bindR_eq_Inr
      split: grant.splits prod.splits sum.splits if_splits)

text \<open>C12. One-time execution: in any interleaving of the pieces of concurrent Do calls, f is
  called at most once, and it has been called exactly when the done flag is set; every
  call of a OnceFunc, OnceValue or OnceValues closure returns (or throws again) what the
  first call did.\<close>

theorem once_at_most_once:
  "(case fold once_step ops (new_once, 0) of (s, n) \<Rightarrow> n = (if o_done s then 1 else 0)) \<and>
   once_value_calls (f # fs) None = replicate (Suc (length fs)) f"
proof -
  have "n = (if o_done s then 1 else 0) \<Longrightarrow>
      (case fold once_step ops (s, n) of (s', n') \<Rightarrow> n' = (if o_done s' then 1 else 0))" for s n
  proof (induction ops arbitrary: s n)
    case (Cons op ops)
    obtain s1 n1 where e: "once_step op (s, n) = (s1, n1)" by (cases "once_step op (s, n)")
    with once_step_inv [OF Cons.prems] have "n1 = (if o_done s1 then 1 else 0)" by blast
    from Cons.IH [OF this] e show ?case by simp
  qed simp
  from this [of 0 new_once] show ?thesis
    by (simp add: new_once_def once_value_call_def once_value_saved split_beta)
qed

text \<open>The flag is set before f has finished: a second Do that comes while f is running returns
  at once (in Go it waits until f has returned).\<close>

lemma once_returns_early:
  "case fold once_step [DoStart False 1, DoEnter] (new_once, 0) of (s, n) \<Rightarrow>
     n = 1 \<and> locked (o_mutex s) \<and> snd (once_Do False 2 s) = OReturned"
  by (simp add: new_once_def new_mutex_def once_Do_def once_enter_def mutex_Lock_def)

subsection \<open>Cond and Pool\<close>

text \<open>The wait queue of a condition variable; each waiter, when woken, locks the mutex again
  before its promise is resolved.\<close>

definition cond_Wait :: "nat \<Rightarrow> mutex \<Rightarrow> nat list \<Rightarrow> (mutex \<times> nat list \<times> nat list) res" where
  "cond_Wait p m ws = bindR (mutex_Unlock m) (\<lambda>(m', woken). Inr (m', ws @ [p], woken))"

definition cond_Signal :: "nat list \<Rightarrow> nat list \<times> nat list" where
  "cond_Signal ws = (case ws of [] \<Rightarrow> ([], []) | p # ps \<Rightarrow> (ps, [p]))"

definition cond_Broadcast :: "nat list \<Rightarrow> nat list \<times> nat list" where
  "cond_Broadcast ws = ([], ws)"

definition cond_wake :: "nat \<Rightarrow> mutex \<Rightarrow> mutex \<times> grant" where
  "cond_wake p m = mutex_Lock p m"

text \<open>A pool is a stack; \<open>New\<close> is what the optional constructor would return now, \<open>null\<close> is
  \<open>None\<close>.\<close>

definition pool_Get :: "'a option option \<Rightarrow> 'a list \<Rightarrow> 'a option \<times> 'a list" where
  "pool_Get New xs =
     (if xs \<noteq> [] then (Some (last xs), butlast xs)
      else case New of Some v \<Rightarrow> (v, xs) | None \<Rightarrow> (None, xs))"

definition pool_Put :: "'a option \<Rightarrow> 'a list \<Rightarrow> 'a list" where
  "pool_Put x xs = (case x of Some v \<Rightarrow> xs @ [v] | None \<Rightarrow> xs)"

lemma pool_get_put: "pool_Get New (pool_Put (Some x) xs) = (Some x, xs)"
  by (simp add: pool_Get_def pool_Put_def)

end
