(* ===== verification/GsUtf8.thy ===== *)
theory GsUtf8
  imports GsPrelude "HOL-Library.Sublist"
begin

section \<open>Text encodings and package utf8 (gs/unicode/utf8/utf8.ts)\<close>

text \<open>
  A JavaScript string is the list of its UTF-16 code units, a byte is a number below 256.
  The first part is the platform's \<open>TextEncoder\<close>, \<open>TextDecoder\<close> (the decoder of the WHATWG
  Encoding standard with its byte order mark handling) and code point iteration; the second
  is the package, written on top of them as the source is.
\<close>

type_synonym jstr = "nat list"

definition surrogate :: "nat \<Rightarrow> bool" where "surrogate c \<longleftrightarrow> 0xD800 \<le> c \<and> c \<le> 0xDFFF"

definition scalar :: "nat \<Rightarrow> bool" where "scalar c \<longleftrightarrow> c \<le> 0x10FFFF \<and> \<not> surrogate c"

definition bytes_ok :: "nat list \<Rightarrow> bool" where "bytes_ok bs \<longleftrightarrow> (\<forall>b\<in>set bs. b < 256)"

subsection \<open>UTF-8 and UTF-16\<close>

definition utf8_enc :: "nat \<Rightarrow> nat list" where
  "utf8_enc c =
     (if c < 0x80 then [c]
      else if c < 0x800 then [0xC0 + c div 64, 0x80 + c mod 64]
      else if c < 0x10000 then [0xE0 + c div 4096, 0x80 + c div 64 mod 64, 0x80 + c mod 64]
      else [0xF0 + c div 262144, 0x80 + c div 4096 mod 64, 0x80 + c div 64 mod 64, 0x80 + c mod 64])"

text \<open>The continuation bytes of one character: \<open>n\<close> are still needed, the next one must lie
  between the bounds. A byte out of bounds ends the character with an error and is looked at
  again; so does the end of the input.\<close>

fun utf8_rest :: "nat \<Rightarrow> nat \<Rightarrow> nat \<Rightarrow> nat \<Rightarrow> nat list \<Rightarrow> nat option \<times> nat list" where
  "utf8_rest 0 lo hi acc bs = (Some acc, bs)"
| "utf8_rest (Suc n) lo hi acc [] = (None, [])"
| "utf8_rest (Suc n) lo hi acc (b # bs) =
     (if lo \<le> b \<and> b \<le> hi then utf8_rest n 0x80 0xBF (acc * 64 + (b - 0x80)) bs else (None, b # bs))"

definition utf8_next :: "nat \<Rightarrow> nat list \<Rightarrow> nat option \<times> nat list" where
  "utf8_next b bs =
     (if b < 0x80 then (Some b, bs)
      else if 0xC2 \<le> b \<and> b \<le> 0xDF then utf8_rest 1 0x80 0xBF (b - 0xC0) bs
      else if 0xE0 \<le> b \<and> b \<le> 0xEF then
        utf8_rest 2 (if b = 0xE0 then 0xA0 else 0x80) (if b = 0xED then 0x9F else 0xBF) (b - 0xE0) bs
      else if 0xF0 \<le> b \<and> b \<le> 0xF4 then
        utf8_rest 3 (if b = 0xF0 then 0x90 else 0x80) (if b = 0xF4 then 0x8F else 0xBF) (b - 0xF0) bs
      else (None, bs))"

lemma utf8_rest_length: "length (snd (utf8_rest n lo hi acc bs)) \<le> length bs"
  by (induction n lo hi acc bs rule: utf8_rest.induct) auto

lemma utf8_next_length: "length (snd (utf8_next b bs)) \<le> length bs"
  using utf8_rest_length by (simp add: utf8_next_def)

text \<open>The decoder: one entry per character, \<open>None\<close> for an error.\<close>

function utf8_decode :: "nat list \<Rightarrow> nat option list" where
  "utf8_decode [] = []"
| "utf8_decode (b # bs) = fst (utf8_next b bs) # utf8_decode (snd (utf8_next b bs))"
  by pat_completeness auto
termination
  by (relation "measure length") (simp_all add: utf8_next_length le_imp_less_Suc)

definition utf16_enc :: "nat \<Rightarrow> jstr" where
  "utf16_enc c =
     (if c < 0x10000 then [c] else [0xD800 + (c - 0x10000) div 0x400, 0xDC00 + (c - 0x10000) mod 0x400])"

text \<open>Iterating over a string by code points; a surrogate without its partner stands for itself.\<close>

fun code_points :: "jstr \<Rightarrow> nat list" where
  "code_points (u # v # us) =
     (if 0xD800 \<le> u \<and> u \<le> 0xDBFF \<and> 0xDC00 \<le> v \<and> v \<le> 0xDFFF
      then (0x10000 + (u - 0xD800) * 0x400 + (v - 0xDC00)) # code_points us
      else u # code_points (v # us))"
| "code_points us = us"

definition text_encode :: "jstr \<Rightarrow> nat list" where
  "text_encode s = concat (map (\<lambda>c. utf8_enc (if surrogate c then 0xFFFD else c)) (code_points s))"

definition bom :: "nat list" where "bom = [0xEF, 0xBB, 0xBF]"

definition strip_bom :: "nat list \<Rightarrow> nat list" where
  "strip_bom bs = (if prefix bom bs then drop 3 bs else bs)"

definition text_of :: "nat option list \<Rightarrow> jstr" where
  "text_of cs = concat (map (\<lambda>c. utf16_enc (case c of None \<Rightarrow> 0xFFFD | Some x \<Rightarrow> x)) cs)"

definition text_decode :: "nat list \<Rightarrow> jstr" where
  "text_decode bs = text_of (utf8_decode (strip_bom bs))"

definition text_decode_fatal :: "nat list \<Rightarrow> jstr res" where
  "text_decode_fatal bs =
     (let cs = utf8_decode (strip_bom bs) in if None \<in> set cs then Inl TypeError else Inr (text_of cs))"

subsection \<open>The package\<close>

definition ValidRune :: "int \<Rightarrow> bool" where
  "ValidRune r \<longleftrightarrow> 0 \<le> r \<and> r \<le> 0x10FFFF \<and> \<not> (0xD800 \<le> r \<and> r \<le> 0xDFFF)"

definition RuneStart :: "nat \<Rightarrow> bool" where "RuneStart b \<longleftrightarrow> b div 64 mod 4 \<noteq> 2"

definition RuneLen :: "int \<Rightarrow> int" where
  "RuneLen r = (if \<not> ValidRune r then -1 else if r < 0x80 then 1
     else int (length (text_encode (utf16_enc (nat r)))))"

text \<open>The bytes of a rune as \<open>EncodeRune\<close> computes them, and what it writes into a buffer.\<close>

definition rune_bytes :: "int \<Rightarrow> nat list" where
  "rune_bytes r = text_encode (utf16_enc (nat (if ValidRune r then r else 0xFFFD)))"

definition EncodeRune :: "nat list \<Rightarrow> int \<Rightarrow> nat list \<times> nat" where
  "EncodeRune p r =
     (let e = rune_bytes r; n = min (length e) (length p) in (take n e @ drop n p, n))"

definition AppendRune :: "nat list \<Rightarrow> int \<Rightarrow> nat list" where
  "AppendRune p r = (case EncodeRune [0, 0, 0, 0] r of (temp, n) \<Rightarrow> p @ take n temp)"

definition DecodeRune :: "nat list \<Rightarrow> nat \<times> nat" where
  "DecodeRune p =
     (case p of [] \<Rightarrow> (0xFFFD, 0)
      | b # bs \<Rightarrow>
          if b < 0x80 then (b, 1)
          else let str = text_decode (take (min 4 (length p)) p) in
            if str = [] \<or> str = [0xFFFD] then (0xFFFD, 1)
            else let c = hd (code_points str); cp = (if c = 0 then 0xFFFD else c) in
              (cp, length (text_encode (utf16_enc cp))))"

text \<open>\<open>DecodeRuneInString\<close> on a string (the conversion of its bytes form is in GsString).\<close>

definition DecodeRuneInString :: "jstr \<Rightarrow> nat \<times> nat" where
  "DecodeRuneInString s =
     (case s of [] \<Rightarrow> (0xFFFD, 0)
      | u # us \<Rightarrow>
          if u < 0x80 then (u, 1)
          else let c = hd (code_points s); cp = (if c = 0 then 0xFFFD else c) in
            (cp, length (text_encode (utf16_enc cp))))"

fun last_start :: "nat list \<Rightarrow> nat \<Rightarrow> nat" where
  "last_start bs 0 = 0"
| "last_start bs (Suc i) = (if RuneStart (bs ! Suc i) then Suc i else last_start bs i)"

definition DecodeLastRune :: "nat list \<Rightarrow> nat \<times> nat" where
  "DecodeLastRune bs =
     (if bs = [] then (0xFFFD, 0)
      else let start = last_start bs (length bs - 1); (r, size) = DecodeRune (drop start bs) in
        if start + size \<noteq> length bs then (0xFFFD, 1) else (r, size))"

definition DecodeLastRuneInString :: "jstr \<Rightarrow> nat \<times> nat" where
  "DecodeLastRuneInString s =
     (if s = [] then (0xFFFD, 0)
      else let c = last (code_points s) in
        (if c = 0 then 0xFFFD else c, length (text_encode (utf16_enc c))))"

definition FullRune :: "nat list \<Rightarrow> bool" where
  "FullRune p =
     (case p of [] \<Rightarrow> False
      | b # bs \<Rightarrow>
          if b < 0x80 then True else if b < 0xC0 then True
          else if b < 0xE0 then 2 \<le> length p else if b < 0xF0 then 3 \<le> length p
          else if b < 0xF8 then 4 \<le> length p else True)"

definition FullRuneInString :: "jstr \<Rightarrow> bool" where
  "FullRuneInString s =
     (case s of [] \<Rightarrow> False
      | u # us \<Rightarrow> if u < 0x80 then True
          else let size = snd (DecodeRuneInString s) in size \<le> length s \<and> 0 < size)"

definition RuneCount :: "nat list \<Rightarrow> nat" where
  "RuneCount p = length (code_points (text_decode p))"

definition RuneCountInString :: "jstr \<Rightarrow> nat" where
  "RuneCountInString s = length (code_points s)"

definition Valid :: "nat list \<Rightarrow> bool" where "Valid p = is_ok (text_decode_fatal p)"

fun ValidString :: "jstr \<Rightarrow> bool" where
  "ValidString [] = True"
| "ValidString [u] = (\<not> surrogate u)"
| "ValidString (u # v # us) =
     (if surrogate u then \<not> (0xDC00 \<le> u \<or> v < 0xDC00 \<or> 0xDFFF < v) \<and> ValidString us
      else ValidString (v # us))"

subsection \<open>Encoding and decoding are inverse\<close>

lemma utf8_rest_steps:
  "utf8_rest (Suc 0) lo hi acc bs = (case bs of [] \<Rightarrow> (None, [])
     | b # r \<Rightarrow> if lo \<le> b \<and> b \<le> hi then (Some (acc * 64 + (b - 0x80)), r) else (None, bs))"
  "utf8_rest 2 lo hi acc bs = (case bs of [] \<Rightarrow> (None, [])
     | b # r \<Rightarrow> if lo \<le> b \<and> b \<le> hi then utf8_rest (Suc 0) 0x80 0xBF (acc * 64 + (b - 0x80)) r else (None, bs))"
  "utf8_rest 3 lo hi acc bs = (case bs of [] \<Rightarrow> (None, [])
     | b # r \<Rightarrow> if lo \<le> b \<and> b \<le> hi then utf8_rest 2 0x80 0xBF (acc * 64 + (b - 0x80)) r else (None, bs))"
  by (cases bs; simp add: numeral_2_eq_2 numeral_3_eq_3)+

lemma div_bounds:
  fixes c :: nat
  shows "c < 0x800 \<Longrightarrow> c div 64 < 32" "c < 0x10000 \<Longrightarrow> c div 4096 < 16" "c \<le> 0x10FFFF \<Longrightarrow> c div 262144 < 5"
    "0x80 \<le> c \<Longrightarrow> 2 \<le> c div 64"
  by (auto simp: less_mult_imp_div_less div_le_mono [of 128 c 64, simplified])

lemma recombine:
  fixes c :: nat
  shows "c div 64 * 64 + c mod 64 = c"
    "(c div 4096 * 64 + c div 64 mod 64) * 64 + c mod 64 = c"
    "((c div 262144 * 64 + c div 4096 mod 64) * 64 + c div 64 mod 64) * 64 + c mod 64 = c"
proof -
  have d: "c div 4096 = c div 64 div 64" "c div 262144 = c div 64 div 64 div 64" by (simp_all add: div_mult2_eq [symmetric])
  show "c div 64 * 64 + c mod 64 = c" by simp
  show "(c div 4096 * 64 + c div 64 mod 64) * 64 + c mod 64 = c"
    unfolding d by (simp only: div_mult_mod_eq)
  show "((c div 262144 * 64 + c div 4096 mod 64) * 64 + c div 64 mod 64) * 64 + c mod 64 = c"
    unfolding d by (simp only: div_mult_mod_eq)
qed

text \<open>The second byte respects the tightened bounds after E0, ED, F0 and F4.\<close>

lemma second_byte:
  fixes c :: nat
  shows "0x800 \<le> c \<Longrightarrow> c div 4096 = 0 \<Longrightarrow> 0x20 \<le> c div 64 mod 64"
    "\<not> surrogate c \<Longrightarrow> c div 4096 = 13 \<Longrightarrow> c div 64 mod 64 \<le> 0x1F"
    "0x10000 \<le> c \<Longrightarrow> c div 262144 = 0 \<Longrightarrow> 0x10 \<le> c div 4096 mod 64"
    "c \<le> 0x10FFFF \<Longrightarrow> c div 262144 = 4 \<Longrightarrow> c div 4096 mod 64 \<le> 0xF"
proof -
  have d: "c div 4096 = c div 64 div 64" "c div 262144 = c div 4096 div 64" by (simp_all add: div_mult2_eq [symmetric])
  have m: "x div 64 * 64 + x mod 64 = x" for x :: nat by simp
  show "0x20 \<le> c div 64 mod 64" if "0x800 \<le> c" "c div 4096 = 0"
    using div_le_mono [OF that(1), of 64] m [of "c div 64"] that(2) d(1) by linarith
  show "c div 64 mod 64 \<le> 0x1F" if "\<not> surrogate c" "c div 4096 = 13"
  proof -
    have "c div 4096 * 4096 + c mod 4096 = c" "c mod 4096 < 4096" by simp_all
    then have "c < 0xD800" using that by (auto simp: surrogate_def)
    then have "c div 64 < 0x360" by (simp add: less_mult_imp_div_less)
    then show ?thesis using m [of "c div 64"] that(2) d(1) by linarith
  qed
  show "0x10 \<le> c div 4096 mod 64" if "0x10000 \<le> c" "c div 262144 = 0"
    using div_le_mono [OF that(1), of 4096] m [of "c div 4096"] that(2) d(2) by linarith
  show "c div 4096 mod 64 \<le> 0xF" if "c \<le> 0x10FFFF" "c div 262144 = 4"
    using div_le_mono [OF that(1), of 4096] m [of "c div 4096"] that(2) d(2) by linarith
qed

text \<open>Decoding one encoded character gives it back, and what decodes is an encoded character.\<close>

lemma utf8_next_seq:
  "2 \<le> h \<Longrightarrow> h < 32 \<Longrightarrow> l < 64 \<Longrightarrow> utf8_next (0xC0 + h) ((0x80 + l) # rest) = (Some (h * 64 + l), rest)"
  "h < 16 \<Longrightarrow> m < 64 \<Longrightarrow> l < 64 \<Longrightarrow> (h = 0 \<longrightarrow> 0x20 \<le> m) \<Longrightarrow> (h = 13 \<longrightarrow> m \<le> 0x1F) \<Longrightarrow>
     utf8_next (0xE0 + h) ((0x80 + m) # (0x80 + l) # rest) = (Some ((h * 64 + m) * 64 + l), rest)"
  "h < 5 \<Longrightarrow> k < 64 \<Longrightarrow> m < 64 \<Longrightarrow> l < 64 \<Longrightarrow> (h = 0 \<longrightarrow> 0x10 \<le> k) \<Longrightarrow> (h = 4 \<longrightarrow> k \<le> 0xF) \<Longrightarrow>
     utf8_next (0xF0 + h) ((0x80 + k) # (0x80 + m) # (0x80 + l) # rest) =
       (Some (((h * 64 + k) * 64 + m) * 64 + l), rest)"
  by (auto simp: utf8_next_def utf8_rest_steps)

lemma utf8_next_enc:
  assumes "scalar c"
  shows "\<exists>b bs. utf8_enc c = b # bs \<and> utf8_next b (bs @ rest) = (Some c, rest)"
proof -
  have c: "c \<le> 0x10FFFF" "\<not> surrogate c" using assms by (simp_all add: scalar_def)
  have m: "x mod 64 < 64" for x :: nat by simp
  consider (1) "c < 0x80" | (2) "0x80 \<le> c" "c < 0x800" | (3) "0x800 \<le> c" "c < 0x10000" | (4) "0x10000 \<le> c"
    by linarith
  then show ?thesis
  proof cases
    case 1
    then show ?thesis by (simp add: utf8_enc_def utf8_next_def)
  next
    case 2
    have "utf8_next (0xC0 + c div 64) ((0x80 + c mod 64) # rest) = (Some (c div 64 * 64 + c mod 64), rest)"
      using 2 div_bounds(1,4) m by (intro utf8_next_seq(1)) blast+
    with 2 show ?thesis by (simp add: utf8_enc_def recombine)
  next
    case 3
    have "utf8_next (0xE0 + c div 4096) ((0x80 + c div 64 mod 64) # (0x80 + c mod 64) # rest) =
        (Some ((c div 4096 * 64 + c div 64 mod 64) * 64 + c mod 64), rest)"
      using 3 div_bounds(2) second_byte(1,2) c m by (intro utf8_next_seq(2)) blast+
    with 3 show ?thesis unfolding recombine by (simp add: utf8_enc_def)
  next
    case 4
    have "utf8_next (0xF0 + c div 262144) ((0x80 + c div 4096 mod 64) # (0x80 + c div 64 mod 64) # (0x80 + c mod 64) # rest) =
        (Some (((c div 262144 * 64 + c div 4096 mod 64) * 64 + c div 64 mod 64) * 64 + c mod 64), rest)"
      using 4 div_bounds(3) second_byte(3,4) c m by (intro utf8_next_seq(3)) blast+
    with 4 show ?thesis unfolding recombine by (simp add: utf8_enc_def)
  qed
qed

lemma utf8_enc_seq:
  "2 \<le> h \<Longrightarrow> h < 32 \<Longrightarrow> l < 64 \<Longrightarrow> utf8_enc (h * 64 + l) = [0xC0 + h, 0x80 + l] \<and> scalar (h * 64 + l)"
  "h < 16 \<Longrightarrow> m < 64 \<Longrightarrow> l < 64 \<Longrightarrow> (h = 0 \<longrightarrow> 0x20 \<le> m) \<Longrightarrow> (h = 13 \<longrightarrow> m \<le> 0x1F) \<Longrightarrow>
     utf8_enc ((h * 64 + m) * 64 + l) = [0xE0 + h, 0x80 + m, 0x80 + l] \<and> scalar ((h * 64 + m) * 64 + l)"
  "h < 5 \<Longrightarrow> k < 64 \<Longrightarrow> m < 64 \<Longrightarrow> l < 64 \<Longrightarrow> (h = 0 \<longrightarrow> 0x10 \<le> k) \<Longrightarrow> (h = 4 \<longrightarrow> k \<le> 0xF) \<Longrightarrow>
     utf8_enc (((h * 64 + k) * 64 + m) * 64 + l) = [0xF0 + h, 0x80 + k, 0x80 + m, 0x80 + l] \<and>
     scalar (((h * 64 + k) * 64 + m) * 64 + l)"
proof -
  have q: "(x * 64 + y) div 64 = x" "(x * 64 + y) mod 64 = y" if "y < 64" for x y :: nat using that by simp_all
  have d: "c div 4096 = c div 64 div 64" "c div 262144 = c div 64 div 64 div 64" for c :: nat
    by (simp_all add: div_mult2_eq [symmetric])
  show "utf8_enc (h * 64 + l) = [0xC0 + h, 0x80 + l] \<and> scalar (h * 64 + l)" if "2 \<le> h" "h < 32" "l < 64"
    using that by (simp add: utf8_enc_def q scalar_def surrogate_def)
  show "utf8_enc ((h * 64 + m) * 64 + l) = [0xE0 + h, 0x80 + m, 0x80 + l] \<and> scalar ((h * 64 + m) * 64 + l)"
    if h: "h < 16" "m < 64" "l < 64" "h = 0 \<longrightarrow> 0x20 \<le> m" "h = 13 \<longrightarrow> m \<le> 0x1F"
  proof -
    define c where "c = (h * 64 + m) * 64 + l"
    have e: "c div 4096 = h" "c div 64 mod 64 = m" "c mod 64 = l"
      unfolding c_def d by (simp_all only: q h)
    have "0x800 \<le> c" "c < 0x10000" unfolding c_def using h by (cases "h = 0"; simp)+
    moreover have "\<not> surrogate c" unfolding surrogate_def c_def
      using h by (cases "h < 13"; cases "h = 13") auto
    ultimately show ?thesis unfolding c_def [symmetric] by (simp add: utf8_enc_def e scalar_def)
  qed
  show "utf8_enc (((h * 64 + k) * 64 + m) * 64 + l) = [0xF0 + h, 0x80 + k, 0x80 + m, 0x80 + l] \<and>
     scalar (((h * 64 + k) * 64 + m) * 64 + l)"
    if h: "h < 5" "k < 64" "m < 64" "l < 64" "h = 0 \<longrightarrow> 0x10 \<le> k" "h = 4 \<longrightarrow> k \<le> 0xF"
  proof -
    define c where "c = ((h * 64 + k) * 64 + m) * 64 + l"
    have e: "c div 262144 = h" "c div 4096 mod 64 = k" "c div 64 mod 64 = m" "c mod 64 = l"
      unfolding c_def d by (simp_all only: q h)
    have "0x10000 \<le> c" "c \<le> 0x10FFFF" unfolding c_def using h by (cases "h = 0"; cases "h = 4"; simp)+
    then show ?thesis unfolding c_def [symmetric] by (simp add: utf8_enc_def e scalar_def surrogate_def)
  qed
qed

text \<open>Bytes that decode to a character are its encoding.\<close>

lemma utf8_rest_Some:
  assumes "utf8_rest (Suc n) lo hi acc bs = (Some c, rest)"
  shows "\<exists>x r. bs = x # r \<and> lo \<le> x \<and> x \<le> hi \<and>
    utf8_rest n 0x80 0xBF (acc * 64 + (x - 0x80)) r = (Some c, rest)"
  using assms by (cases bs) (auto split: if_splits)

lemma utf8_next_Some:
  assumes "utf8_next b bs = (Some c, rest)"
  shows "b # bs = utf8_enc c @ rest \<and> scalar c"
proof -
  have ge: "\<exists>x. y = n + x" if "n \<le> y" for n y :: nat using that by (simp add: le_iff_add)
  consider (1) "b < 0x80" | (2) "0xC2 \<le> b" "b \<le> 0xDF" | (3) "0xE0 \<le> b" "b \<le> 0xEF"
    | (4) "0xF0 \<le> b" "b \<le> 0xF4"
    using assms by (auto simp: utf8_next_def split: if_splits)
  then show ?thesis
  proof cases
    case 1
    with assms show ?thesis by (auto simp: utf8_next_def utf8_enc_def scalar_def surrogate_def)
  next
    case 2
    then obtain h where h: "b = 0xC0 + h" using le_iff_add [of "0xC0" b] by auto
    have "utf8_rest (Suc 0) 0x80 0xBF h bs = (Some c, rest)"
      using assms 2 h by (simp add: utf8_next_def)
    from utf8_rest_Some [OF this]
    obtain y where y: "bs = y # rest" "0x80 \<le> y" "y \<le> 0xBF" "c = h * 64 + (y - 0x80)" by auto
    obtain l where l: "y = 0x80 + l" using ge y(2) by blast
    with utf8_enc_seq(1) [where h = h and l = l] 2 h y show ?thesis by auto
  next
    case 3
    then obtain h where h: "b = 0xE0 + h" using le_iff_add [of "0xE0" b] by auto
    have "utf8_rest (Suc (Suc 0)) (if h = 0 then 0xA0 else 0x80) (if h = 13 then 0x9F else 0xBF) h bs = (Some c, rest)"
      using assms 3 h by (simp add: utf8_next_def numeral_2_eq_2)
    from utf8_rest_Some [OF this] obtain x r where x: "bs = x # r" "0x80 \<le> x" "x \<le> 0xBF"
        "h = 0 \<longrightarrow> 0xA0 \<le> x" "h = 13 \<longrightarrow> x \<le> 0x9F"
        "utf8_rest (Suc 0) 0x80 0xBF (h * 64 + (x - 0x80)) r = (Some c, rest)" by (auto split: if_splits)
    from utf8_rest_Some [OF x(6)] obtain y where "r = y # rest" "0x80 \<le> y" "y \<le> 0xBF"
        "c = (h * 64 + (x - 0x80)) * 64 + (y - 0x80)" by auto
    with x have y: "bs = x # y # rest" "0x80 \<le> x" "x \<le> 0xBF" "0x80 \<le> y" "y \<le> 0xBF"
        "h = 0 \<longrightarrow> 0xA0 \<le> x" "h = 13 \<longrightarrow> x \<le> 0x9F" "c = (h * 64 + (x - 0x80)) * 64 + (y - 0x80)" by simp_all
    obtain m l where l: "x = 0x80 + m" "y = 0x80 + l" using ge y(2,4) by blast
    with utf8_enc_seq(2) [where h = h and m = m and l = l] 3 h y show ?thesis by auto
  next
    case 4
    then obtain h where h: "b = 0xF0 + h" using le_iff_add [of "0xF0" b] by auto
    have "utf8_rest (Suc (Suc (Suc 0))) (if h = 0 then 0x90 else 0x80) (if h = 4 then 0x8F else 0xBF) h bs = (Some c, rest)"
      using assms 4 h by (simp add: utf8_next_def numeral_3_eq_3)
    from utf8_rest_Some [OF this] obtain w q where w: "bs = w # q" "0x80 \<le> w" "w \<le> 0xBF"
        "h = 0 \<longrightarrow> 0x90 \<le> w" "h = 4 \<longrightarrow> w \<le> 0x8F"
        "utf8_rest (Suc (Suc 0)) 0x80 0xBF (h * 64 + (w - 0x80)) q = (Some c, rest)" by (auto split: if_splits)
    from utf8_rest_Some [OF w(6)] obtain x r where x: "q = x # r" "0x80 \<le> x" "x \<le> 0xBF"
        "utf8_rest (Suc 0) 0x80 0xBF ((h * 64 + (w - 0x80)) * 64 + (x - 0x80)) r = (Some c, rest)" by blast
    from utf8_rest_Some [OF x(4)] obtain y where z: "r = y # rest" "0x80 \<le> y" "y \<le> 0xBF"
        "c = ((h * 64 + (w - 0x80)) * 64 + (x - 0x80)) * 64 + (y - 0x80)" by auto
    have y: "bs = w # x # y # rest" "0x80 \<le> w" "0x80 \<le> x" "0x80 \<le> y" using w x z by simp_all
    obtain k m l where l: "w = 0x80 + k" "x = 0x80 + m" "y = 0x80 + l"
      using ge [OF y(2)] ge [OF y(3)] ge [OF y(4)] by auto
    have b: "h < 5" "k < 64" "m < 64" "l < 64" "h = 0 \<longrightarrow> 0x10 \<le> k" "h = 4 \<longrightarrow> k \<le> 0xF"
      using 4 h w(2-5) x(2,3) z(2,3) l by auto
    have "c = ((h * 64 + k) * 64 + m) * 64 + l" using z(4) l by simp
    with utf8_enc_seq(3) [OF b] y l h show ?thesis by simp
  qed
qed

lemma utf8_decode_enc_cons:
  "scalar c \<Longrightarrow> utf8_decode (utf8_enc c @ rest) = Some c # utf8_decode rest"
  using utf8_next_enc [of c rest] by auto

lemma utf8_decode_enc:
  "\<forall>c\<in>set cs. scalar c \<Longrightarrow> utf8_decode (concat (map utf8_enc cs)) = map Some cs"
  by (induction cs) (simp_all add: utf8_decode_enc_cons)

lemma utf8_decode_valid:
  "None \<notin> set (utf8_decode bs) \<Longrightarrow>
   \<exists>cs. (\<forall>c\<in>set cs. scalar c) \<and> bs = concat (map utf8_enc cs) \<and> utf8_decode bs = map Some cs"
proof (induction bs rule: utf8_decode.induct)
  case (2 b bs)
  obtain c rest where c: "utf8_next b bs = (Some c, rest)"
    using 2(2) by (cases "utf8_next b bs"; cases "fst (utf8_next b bs)") auto
  have e: "b # bs = utf8_enc c @ rest" "scalar c" using utf8_next_Some [OF c] by blast+
  have "None \<notin> set (utf8_decode rest)" using 2(2) c by simp
  with 2(1) c obtain cs where "\<forall>c\<in>set cs. scalar c"
    "rest = concat (map utf8_enc cs)" "utf8_decode rest = map Some cs" by auto
  with e show ?case
    by (intro exI [of _ "c # cs"]) (simp add: utf8_decode_enc_cons del: utf8_decode.simps)
qed simp

text \<open>UTF-16.\<close>

lemma code_points_plain: "\<not> (0xD800 \<le> u \<and> u \<le> 0xDBFF) \<Longrightarrow> code_points (u # us) = u # code_points us"
  by (cases us) auto

lemma code_points_enc: "scalar c \<Longrightarrow> code_points (utf16_enc c @ us) = c # code_points us"
proof (cases "c < 0x10000")
  case True
  then show "scalar c \<Longrightarrow> code_points (utf16_enc c @ us) = c # code_points us"
    by (auto simp: utf16_enc_def scalar_def surrogate_def intro!: code_points_plain)
next
  case False
  define d where "d = c - 0x10000"
  assume "scalar c"
  then have "c = 0x10000 + d" "d < 0x100000" using False by (auto simp: d_def scalar_def)
  moreover have "d div 0x400 < 0x400" using calculation(2) by (simp add: less_mult_imp_div_less)
  moreover have "d div 0x400 * 0x400 + d mod 0x400 = d" "d mod 0x400 < 0x400" by simp_all
  ultimately show "code_points (utf16_enc c @ us) = c # code_points us"
    by (simp add: utf16_enc_def)
qed

lemma code_points_encs:
  "\<forall>c\<in>set cs. scalar c \<Longrightarrow> code_points (concat (map utf16_enc cs)) = cs"
  by (induction cs) (simp_all add: code_points_enc)

lemma text_of_Some: "text_of (map Some cs) = concat (map utf16_enc cs)"
  by (induction cs) (simp_all add: text_of_def)

lemma text_encode_encs:
  assumes "\<forall>c\<in>set cs. scalar c"
  shows "text_encode (concat (map utf16_enc cs)) = concat (map utf8_enc cs)"
proof -
  have "map (\<lambda>c. utf8_enc (if surrogate c then 0xFFFD else c)) cs = map utf8_enc cs"
    using assms by (intro map_cong refl) (simp add: scalar_def)
  then show ?thesis by (simp only: text_encode_def code_points_encs [OF assms])
qed

lemma text_encode_one: "scalar c \<Longrightarrow> text_encode (utf16_enc c) = utf8_enc c"
  using text_encode_encs [of "[c]"] by simp

subsection \<open>Validity, and runes in bytes\<close>

lemma utf8_enc_length: "1 \<le> length (utf8_enc c) \<and> length (utf8_enc c) \<le> 4"
  by (simp add: utf8_enc_def)

lemma bom_enc: "bom = utf8_enc 0xFEFF"
  by (simp add: bom_def utf8_enc_def)

lemma scalar_bom: "scalar 0xFEFF"
  by (simp add: scalar_def surrogate_def)

lemma strip_bom_decode:
  "prefix bom bs \<Longrightarrow> utf8_decode bs = Some 0xFEFF # utf8_decode (strip_bom bs)"
proof -
  assume p: "prefix bom bs"
  then obtain q where q: "bs = bom @ q" by (auto simp: prefix_def)
  then have "strip_bom bs = q" using p by (simp add: strip_bom_def bom_def)
  with q show ?thesis by (simp add: bom_enc utf8_decode_enc_cons [OF scalar_bom])
qed

lemma valid_decode: "Valid bs \<longleftrightarrow> None \<notin> set (utf8_decode bs)"
  using strip_bom_decode [of bs]
  by (cases "prefix bom bs") (auto simp: Valid_def text_decode_fatal_def Let_def strip_bom_def)

text \<open>Valid recognises exactly the concatenations of UTF-8 encodings of Unicode scalar
  values.\<close>

theorem Valid_spec:
  "Valid bs \<longleftrightarrow> (\<exists>cs. list_all scalar cs \<and> bs = concat (map utf8_enc cs))"
  unfolding valid_decode list_all_iff
  using utf8_decode_valid [of bs] utf8_decode_enc by auto

lemma ValidRune_scalar: "ValidRune r \<Longrightarrow> scalar (nat r) \<and> int (nat r) = r"
  by (auto simp: ValidRune_def scalar_def surrogate_def)

lemma rune_bytes_valid: "ValidRune r \<Longrightarrow> rune_bytes r = utf8_enc (nat r)"
  by (simp add: rune_bytes_def text_encode_one ValidRune_scalar)

lemma text_decode_char:
  assumes "scalar c" "c \<noteq> 0xFEFF"
  shows "text_decode (utf8_enc c @ t) = utf16_enc c @ text_of (utf8_decode t)"
proof -
  have "\<not> prefix bom (utf8_enc c @ t)"
    using strip_bom_decode [of "utf8_enc c @ t"] utf8_decode_enc_cons [OF assms(1), of t] assms(2) by auto
  then show ?thesis
    by (simp add: text_decode_def strip_bom_def utf8_decode_enc_cons [OF assms(1)] text_of_def)
qed

lemma utf16_enc_nonempty: "utf16_enc c \<noteq> []"
  by (simp add: utf16_enc_def)

lemma text_of_nonempty: "t \<noteq> [] \<Longrightarrow> text_of (utf8_decode t) \<noteq> []"
  by (cases t) (simp_all add: text_of_def utf16_enc_nonempty)

lemma DecodeRune_multi:
  assumes "\<not> b < 0x80" "p = b # bs" "text_decode (take (min 4 (length p)) p) = utf16_enc c @ t"
    "utf16_enc c @ t \<noteq> [0xFFFD]" "scalar c" "c \<noteq> 0"
  shows "DecodeRune p = (c, length (utf8_enc c))"
proof -
  have "DecodeRune p = (let str = text_decode (take (min 4 (length p)) p) in
      if str = [] \<or> str = [0xFFFD] then (0xFFFD, 1)
      else let c = hd (code_points str); cp = (if c = 0 then 0xFFFD else c) in
        (cp, length (text_encode (utf16_enc cp))))"
    using assms(1,2) by (simp add: DecodeRune_def)
  then show ?thesis
    using assms(4-6) unfolding assms(3)
    by (simp add: utf16_enc_nonempty code_points_enc text_encode_one)
qed

lemma DecodeRune_char:
  assumes c: "scalar c" "c \<noteq> 0xFEFF" and r: "c \<noteq> 0xFFFD \<or> rest \<noteq> []"
  shows "DecodeRune (utf8_enc c @ rest) = (c, length (utf8_enc c))"
proof (cases "c < 0x80")
  case True
  then show ?thesis by (simp add: utf8_enc_def DecodeRune_def)
next
  case False
  let ?p = "utf8_enc c @ rest"
  let ?t = "take (4 - length (utf8_enc c)) rest"
  have ne: "?p = hd ?p # tl ?p" "\<not> hd ?p < 0x80" using False by (simp_all add: utf8_enc_def)
  have "take (min 4 (length ?p)) ?p = utf8_enc c @ ?t"
    using utf8_enc_length [of c] by (simp add: min_def)
  then have str: "text_decode (take (min 4 (length ?p)) ?p) = utf16_enc c @ text_of (utf8_decode ?t)"
    using text_decode_char [OF c] by simp
  have "utf16_enc c @ text_of (utf8_decode ?t) \<noteq> [0xFFFD]"
  proof (cases "c = 0xFFFD")
    case True
    then have "?t \<noteq> []" using r by (simp add: utf8_enc_def)
    with True text_of_nonempty [of ?t] show ?thesis by (simp add: utf16_enc_def)
  next
    case False
    then show ?thesis by (auto simp: utf16_enc_def)
  qed
  moreover obtain b bs where "?p = b # bs" "\<not> b < 0x80" using ne by metis
  ultimately show ?thesis
    using DecodeRune_multi [of b "utf8_enc c @ rest" bs] str c(1) False by auto
qed

text \<open>C13. Runes in bytes: a valid rune is encoded in RuneLen bytes, which DecodeRune reads
  back with that width whatever follows, except for the byte order mark U+FEFF, and for
  U+FFFD at the end of the input; AppendRune appends the encoding, and EncodeRune stores
  it at the front of a buffer that is large enough.\<close>

theorem rune_roundtrip:
  assumes "ValidRune r" "r \<noteq> 0xFEFF" "r \<noteq> 0xFFFD \<or> rest \<noteq> []"
  shows "DecodeRune (rune_bytes r @ rest) = (nat r, length (rune_bytes r)) \<and>
    RuneLen r = int (length (rune_bytes r)) \<and> FullRune (rune_bytes r @ rest) \<and>
    AppendRune p r = p @ rune_bytes r \<and>
    (length (rune_bytes r) \<le> length p \<longrightarrow>
       EncodeRune p r = (rune_bytes r @ drop (length (rune_bytes r)) p, length (rune_bytes r)))"
proof -
  have v: "scalar (nat r)" "int (nat r) = r" using ValidRune_scalar [OF assms(1)] by simp_all
  have b: "rune_bytes r = utf8_enc (nat r)" using rune_bytes_valid [OF assms(1)] .
  have "DecodeRune (rune_bytes r @ rest) = (nat r, length (rune_bytes r))"
    unfolding b using assms(2,3) v by (intro DecodeRune_char) auto
  moreover have "RuneLen r = int (length (rune_bytes r))"
    using assms(1) v by (auto simp: RuneLen_def b text_encode_one utf8_enc_def nat_less_iff)
  moreover have "FullRune (rune_bytes r @ rest)"
  proof -
    have "nat r < 0x800 \<Longrightarrow> nat r div 64 < 32" "nat r < 0x10000 \<Longrightarrow> nat r div 4096 < 16"
      "nat r div 262144 < 5" using div_bounds v(1) by (auto simp: scalar_def)
    then show ?thesis unfolding b by (simp add: FullRune_def utf8_enc_def)
  qed
  moreover have "AppendRune p r = p @ rune_bytes r"
    using utf8_enc_length [of "nat r"] by (simp add: AppendRune_def EncodeRune_def b Let_def)
  ultimately show ?thesis by (simp add: EncodeRune_def Let_def min_def)
qed

theorem rune_roundtrip_witness:
  "DecodeRune ([0xE2, 0x82, 0xAC] @ [0x41]) = (0x20AC, 3)"
  using rune_roundtrip [of "0x20AC" "[0x41]" "[]"]
  by (simp add: ValidRune_def rune_bytes_valid utf8_enc_def)

text \<open>Where \<open>DecodeRune\<close> departs from Go: the byte order mark is skipped, an encoded U+FFFD at
  the end is taken for an error, and an invalid byte followed by another byte gets width 3.\<close>

lemma DecodeRune_departures:
  "DecodeRune [0xEF, 0xBB, 0xBF, 0x41] = (0x41, 1) \<and> DecodeRune [0xEF, 0xBF, 0xBD] = (0xFFFD, 1) \<and>
   DecodeRune [0x80, 0x41] = (0xFFFD, 3)"
  by (simp add: DecodeRune_def text_decode_def strip_bom_def bom_def text_of_def utf16_enc_def
      utf8_next_def utf8_rest_steps text_encode_def utf8_enc_def surrogate_def)

text \<open>\<open>RuneCount\<close> counts one rune for a truncated sequence, Go one for each of its bytes; a
  byte order mark is not counted at all.\<close>

lemma RuneCount_departures:
  "RuneCount [0xE2, 0x82] = 1 \<and> RuneCount [0xEF, 0xBB, 0xBF] = 0"
  by (simp add: RuneCount_def text_decode_def strip_bom_def bom_def text_of_def utf16_enc_def
      utf8_next_def utf8_rest_steps)

end
