(* ===== verification/GsString.thy ===== *)
theory GsString
  imports GsUtf8
begin

section \<open>Go strings (gs/builtin/slice.ts)\<close>

text \<open>
  A Go string is a sequence of bytes. The runtime keeps it as a JavaScript string holding
  the decoded text when the bytes are valid UTF-8, and otherwise as a \<^emph>\<open>binary string\<close>: a
  marker prefix followed by one code unit per byte. A \<open>GoBinaryString\<close> object carries its
  bytes. Values that a function accepts beside strings are byte slices and \<open>null\<close>; what
  these functions read of a slice are its bytes.
\<close>

datatype gostring = JSString jstr | BinaryObject "nat list"

datatype operand = OfString gostring | OfBytes "nat list" | OfNull

definition binary_prefix :: jstr where
  "binary_prefix = 0xFDD0 # map of_char ''goscript-bytes:''"

text \<open>\<open>bytesToBinaryString\<close> works in chunks.\<close>

function bytesToBinaryString :: "nat list \<Rightarrow> jstr" where
  "bytesToBinaryString bs =
     (if bs = [] then [] else take 0x8000 bs @ bytesToBinaryString (drop 0x8000 bs))"
  by pat_completeness auto
termination
  by (relation "measure length") auto

declare bytesToBinaryString.simps [simp del]

definition binaryStringToBytes :: "jstr \<Rightarrow> nat list" where
  "binaryStringToBytes s = map (\<lambda>u. u mod 256) s"

definition goStringBytes :: "gostring \<Rightarrow> nat list" where
  "goStringBytes s =
     (case s of BinaryObject bs \<Rightarrow> bs
      | JSString u \<Rightarrow>
          if prefix binary_prefix u then binaryStringToBytes (drop (length binary_prefix) u)
          else text_encode u)"

definition goStringFromBytes :: "nat list \<Rightarrow> jstr" where
  "goStringFromBytes bs =
     (case text_decode_fatal bs of Inr s \<Rightarrow> s | Inl _ \<Rightarrow> binary_prefix @ bytesToBinaryString bs)"

definition goStringComparableBytes :: "operand \<Rightarrow> nat list" where
  "goStringComparableBytes v =
     (case v of OfString s \<Rightarrow> goStringBytes s | OfBytes bs \<Rightarrow> bs | OfNull \<Rightarrow> [])"

definition bytesToString :: "operand \<Rightarrow> jstr" where
  "bytesToString v =
     (case v of OfNull \<Rightarrow> [] | OfString (JSString s) \<Rightarrow> s
      | OfString (BinaryObject bs) \<Rightarrow> goStringFromBytes bs | OfBytes bs \<Rightarrow> goStringFromBytes bs)"

definition stringToBytes :: "operand \<Rightarrow> nat list" where
  "stringToBytes v = (case v of OfString s \<Rightarrow> goStringBytes s | OfBytes bs \<Rightarrow> bs | OfNull \<Rightarrow> [])"

definition genericBytesOrStringToString :: "operand \<Rightarrow> gostring" where
  "genericBytesOrStringToString v =
     (case v of OfNull \<Rightarrow> JSString [] | OfString s \<Rightarrow> s | OfBytes bs \<Rightarrow> JSString (bytesToString v))"

subsection \<open>Length, indexing, slicing\<close>

definition outOfRangeIndex :: "int \<Rightarrow> nat \<Rightarrow> 'a res" where
  "outOfRangeIndex index n =
     Inl (RuntimePanic
       (if index < 0 then ''runtime error: index out of range ['' @ int_string index @ '']''
        else ''runtime error: index out of range ['' @ int_string index @ ''] with length '' @ nat_string n))"

definition stringLen :: "gostring \<Rightarrow> nat" where "stringLen s = length (goStringBytes s)"

definition byte_at :: "nat list \<Rightarrow> int \<Rightarrow> nat res" where
  "byte_at bs index =
     (if index < 0 \<or> int (length bs) \<le> index then outOfRangeIndex index (length bs)
      else Inr (bs ! nat index))"

definition indexString :: "operand \<Rightarrow> int \<Rightarrow> nat res" where
  "indexString v index =
     (case v of OfBytes bs \<Rightarrow> byte_at bs index | OfNull \<Rightarrow> outOfRangeIndex index 0
      | OfString s \<Rightarrow> byte_at (goStringBytes s) index)"

definition indexStringOrBytes :: "operand \<Rightarrow> int \<Rightarrow> nat res" where
  "indexStringOrBytes v index =
     (case v of OfString s \<Rightarrow> indexString (OfString s) index | OfBytes bs \<Rightarrow> byte_at bs index
      | OfNull \<Rightarrow> outOfRangeIndex index 0)"

definition sliceString :: "gostring \<Rightarrow> int option \<Rightarrow> int option \<Rightarrow> jstr res" where
  "sliceString s low high =
     (let bytes = goStringBytes s;
          lo = (case low of None \<Rightarrow> 0 | Some l \<Rightarrow> l);
          hi = (case high of None \<Rightarrow> int (length bytes) | Some h \<Rightarrow> h) in
      if lo < 0 \<or> hi < lo \<or> int (length bytes) < hi then
        (if lo = hi \<and> 0 \<le> lo \<and> lo \<le> int (length bytes) then Inr []
         else Inl (RuntimePanic (''runtime error: slice bounds out of range ['' @ int_string lo @ '':'' @
                int_string hi @ ''] with length '' @ nat_string (length bytes))))
      else Inr (goStringFromBytes (take (nat (hi - lo)) (drop (nat lo) bytes))))"

subsection \<open>Comparison\<close>

definition stringEqual :: "operand \<Rightarrow> operand \<Rightarrow> bool" where
  "stringEqual left right =
     (let l = goStringComparableBytes left; r = goStringComparableBytes right in
      length l = length r \<and> list_all (\<lambda>i. l ! i = r ! i) [0..<length l])"

definition stringCompare :: "operand \<Rightarrow> operand \<Rightarrow> int" where
  "stringCompare left right =
     (let l = goStringComparableBytes left; r = goStringComparableBytes right in
      case find (\<lambda>i. l ! i \<noteq> r ! i) [0..<min (length l) (length r)] of
        Some i \<Rightarrow> int (l ! i) - int (r ! i)
      | None \<Rightarrow> int (length l) - int (length r))"

subsection \<open>Runes\<close>

definition runeToString :: "int \<Rightarrow> jstr" where
  "runeToString r =
     (if r < 0 \<or> 0x10FFFF < r \<or> (0xD800 \<le> r \<and> r \<le> 0xDFFF) then [0xFFFD] else utf16_enc (nat r))"

definition runesToString :: "int list \<Rightarrow> jstr" where
  "runesToString rs = fold (\<lambda>r out. out @ runeToString r) rs []"

definition stringToRunes :: "jstr \<Rightarrow> nat list" where "stringToRunes s = code_points s"

definition stringToRune :: "jstr \<Rightarrow> nat" where
  "stringToRune s = (if s = [] then 0 else hd (code_points s))"

fun range_pairs :: "nat \<Rightarrow> nat list \<Rightarrow> (nat \<times> nat) list" where
  "range_pairs offset [] = []"
| "range_pairs offset (c # cs) =
     (offset, c) # range_pairs (offset + length (text_encode (utf16_enc c))) cs"

definition rangeString :: "jstr \<Rightarrow> (nat \<times> nat) list" where
  "rangeString s = range_pairs 0 (code_points s)"

definition byte_of :: "int \<Rightarrow> nat" where "byte_of n = nat (n mod 256)"

subsection \<open>Bytes to string and back\<close>

lemma bytesToBinaryString_id: "bytesToBinaryString bs = bs"
  by (induction bs rule: bytesToBinaryString.induct) (subst bytesToBinaryString.simps, simp)

lemma binaryStringToBytes_id: "bytes_ok bs \<Longrightarrow> binaryStringToBytes bs = bs"
  unfolding binaryStringToBytes_def bytes_ok_def by (induction bs) auto

lemma goStringFromBytes_invalid:
  "\<not> Valid bs \<Longrightarrow> goStringFromBytes bs = binary_prefix @ bs"
  by (auto simp: goStringFromBytes_def Valid_def bytesToBinaryString_id is_ok_def split: sum.splits)

text \<open>The UTF-8 encoding of the marker.\<close>

definition encoded_prefix :: "nat list" where
  "encoded_prefix = 0xEF # 0xB7 # 0x90 # map of_char ''goscript-bytes:''"

lemma encoded_prefix_enc: "encoded_prefix = concat (map utf8_enc binary_prefix)"
  by (simp add: encoded_prefix_def binary_prefix_def utf8_enc_def)

lemma binary_prefix_plain: "\<forall>c\<in>set binary_prefix. scalar c \<and> c < 0x10000"
  by (simp add: binary_prefix_def scalar_def surrogate_def)

lemma binary_prefix_text: "concat (map utf16_enc binary_prefix) = binary_prefix"
  by (simp add: binary_prefix_def utf16_enc_def)

text \<open>A character sequence whose text starts with the marker has bytes that start with the
  encoded marker, and conversely.\<close>

lemma utf16_prefix:
  "\<forall>c\<in>set p. scalar c \<and> c < 0x10000 \<Longrightarrow> \<forall>c\<in>set cs. scalar c \<Longrightarrow>
   prefix (concat (map utf16_enc p)) (concat (map utf16_enc cs)) \<longleftrightarrow> prefix p cs"
proof (induction p arbitrary: cs)
  case (Cons a p)
  have a: "utf16_enc a = [a]" "scalar a" using Cons.prems by (simp_all add: utf16_enc_def)
  show ?case
  proof (cases cs)
    case (Cons c cs')
    have "c = a" if "utf16_enc c = x # y" "x = a" for x y
    proof (cases "c < 0x10000")
      case False
      then have "x = 0xD800 + (c - 0x10000) div 0x400" using that by (simp add: utf16_enc_def)
      moreover have "(c - 0x10000) div 0x400 < 0x400"
        using Cons.prems Cons by (intro less_mult_imp_div_less) (auto simp: scalar_def)
      ultimately show ?thesis using that(2) a(2) by (simp add: scalar_def surrogate_def)
    qed (use that in \<open>simp add: utf16_enc_def\<close>)
    moreover obtain x y where "utf16_enc c = x # y" using utf16_enc_nonempty by (cases "utf16_enc c") auto
    ultimately show ?thesis
      using Cons.IH [of cs'] Cons.prems Cons a by (cases "c = a") auto
  qed (simp add: a)
qed simp

lemma utf8_enc_split:
  "scalar a \<Longrightarrow> scalar c \<Longrightarrow> utf8_enc a @ s = utf8_enc c @ t \<Longrightarrow> a = c \<and> s = t"
  using utf8_next_enc [of a s] utf8_next_enc [of c t] by auto

lemma utf8_prefix:
  "\<forall>c\<in>set p. scalar c \<Longrightarrow> \<forall>c\<in>set cs. scalar c \<Longrightarrow>
   prefix (concat (map utf8_enc p)) (concat (map utf8_enc cs)) \<longleftrightarrow> prefix p cs"
proof (induction p arbitrary: cs)
  case (Cons a p)
  show ?case
  proof (cases cs)
    case Nil
    then show ?thesis using utf8_enc_length [of a] by auto
  next
    case (Cons c cs')
    show ?thesis
    proof (cases "a = c")
      case True
      then show ?thesis using Cons.IH [of cs'] Cons.prems Cons by simp
    next
      case False
      then show ?thesis
        using utf8_enc_split [of a c] Cons.prems Cons by (simp add: prefix_def) metis
    qed
  qed
qed simp

text \<open>The strings that survive: everything but valid UTF-8 that starts with a byte order mark
  or with the encoded marker.\<close>

definition plain_bytes :: "nat list \<Rightarrow> bool" where
  "plain_bytes bs \<longleftrightarrow> \<not> Valid bs \<or> \<not> prefix bom bs \<and> \<not> prefix encoded_prefix bs"

lemma goStringFromBytes_valid:
  assumes "Valid bs" "\<not> prefix bom bs"
  shows "\<exists>cs. (\<forall>c\<in>set cs. scalar c) \<and> bs = concat (map utf8_enc cs) \<and>
    goStringFromBytes bs = concat (map utf16_enc cs)"
proof -
  have "None \<notin> set (utf8_decode bs)" using assms(1) valid_decode by simp
  from utf8_decode_valid [OF this] obtain cs where cs: "\<forall>c\<in>set cs. scalar c"
    "bs = concat (map utf8_enc cs)" "utf8_decode bs = map Some cs" by blast
  then have "goStringFromBytes bs = concat (map utf16_enc cs)"
    using assms(2) by (auto simp: goStringFromBytes_def text_decode_fatal_def strip_bom_def text_of_Some Let_def)
  with cs show ?thesis by blast
qed

lemma string_bytes_eq:
  assumes "bytes_ok bs" "plain_bytes bs"
  shows "goStringBytes (JSString (goStringFromBytes bs)) = bs"
proof (cases "Valid bs")
  case False
  then show ?thesis
    using assms(1) by (simp add: goStringFromBytes_invalid goStringBytes_def binaryStringToBytes_id)
next
  case True
  with assms(2) have np: "\<not> prefix bom bs" "\<not> prefix encoded_prefix bs" by (simp_all add: plain_bytes_def)
  from goStringFromBytes_valid [OF True np(1)] obtain cs where cs: "\<forall>c\<in>set cs. scalar c"
    "bs = concat (map utf8_enc cs)" "goStringFromBytes bs = concat (map utf16_enc cs)" by blast
  have "\<not> prefix binary_prefix (goStringFromBytes bs)"
  proof
    assume "prefix binary_prefix (goStringFromBytes bs)"
    then have "prefix binary_prefix cs"
      using utf16_prefix [OF binary_prefix_plain cs(1)] cs(3) by (simp add: binary_prefix_text)
    then have "prefix encoded_prefix bs"
      using utf8_prefix [of binary_prefix cs] binary_prefix_plain cs(1,2) by (simp add: encoded_prefix_enc)
    with np(2) show False by simp
  qed
  then show ?thesis by (simp add: goStringBytes_def cs(3) text_encode_encs [OF cs(1)] cs(2) [symmetric])
qed

text \<open>C14. Strings hold bytes. Bytes that are not valid UTF-8 starting with a byte order mark or with the
  encoded marker become a string with exactly these bytes. An index into any string is accepted
  exactly within its length in bytes and gives that byte. Slicing any string, with or without
  bounds, throws exactly outside Go's bounds and otherwise always returns, also where it cuts a
  character: the result is the string made of the bytes of the window, so its bytes are the window's
  unless the window is of the excluded kind.\<close>

theorem string_is_bytes:
  assumes "bytes_ok bs" "bytes_ok (goStringBytes s)"
    and "lo = (case low of None \<Rightarrow> 0 | Some l \<Rightarrow> l)" "hi = (case high of None \<Rightarrow> int (stringLen s) | Some h \<Rightarrow> h)"
    and "window = take (nat (hi - lo)) (drop (nat lo) (goStringBytes s))"
  shows "(plain_bytes bs \<longrightarrow> goStringBytes (JSString (goStringFromBytes bs)) = bs) \<and>
    (case indexString (OfString s) i of
       Inr b \<Rightarrow> 0 \<le> i \<and> i < int (stringLen s) \<and> b = goStringBytes s ! nat i
     | Inl e \<Rightarrow> i < 0 \<or> int (stringLen s) \<le> i) \<and>
    (case sliceString s low high of
       Inl e \<Rightarrow> \<not> (0 \<le> lo \<and> lo \<le> hi \<and> hi \<le> int (stringLen s))
     | Inr t \<Rightarrow> 0 \<le> lo \<and> lo \<le> hi \<and> hi \<le> int (stringLen s) \<and> t = goStringFromBytes window \<and>
         (plain_bytes window \<longrightarrow> goStringBytes (JSString t) = window))"
proof (intro conjI)
  show "plain_bytes bs \<longrightarrow> goStringBytes (JSString (goStringFromBytes bs)) = bs" using string_bytes_eq assms(1) by blast
  have "bytes_ok window" using assms(2) by (auto simp: assms(5) bytes_ok_def dest!: in_set_takeD in_set_dropD)
  then have "plain_bytes window \<Longrightarrow> goStringBytes (JSString (goStringFromBytes window)) = window" by (rule string_bytes_eq)
  then show "case sliceString s low high of
       Inl e \<Rightarrow> \<not> (0 \<le> lo \<and> lo \<le> hi \<and> hi \<le> int (stringLen s))
     | Inr t \<Rightarrow> 0 \<le> lo \<and> lo \<le> hi \<and> hi \<le> int (stringLen s) \<and> t = goStringFromBytes window \<and>
         (plain_bytes window \<longrightarrow> goStringBytes (JSString t) = window)"
    unfolding sliceString_def Let_def assms(3-5) stringLen_def by (auto split: option.splits)
  show "case indexString (OfString s) i of
       Inr b \<Rightarrow> 0 \<le> i \<and> i < int (stringLen s) \<and> b = goStringBytes s ! nat i
     | Inl e \<Rightarrow> i < 0 \<or> int (stringLen s) \<le> i"
    by (auto simp: indexString_def byte_at_def outOfRangeIndex_def stringLen_def)
qed

theorem string_is_bytes_witness:
  "goStringBytes (JSString (goStringFromBytes [0xE2, 0x82])) = [0xE2, 0x82]"
  using string_is_bytes [of "[0xE2, 0x82]" "BinaryObject []" 0 None 0 None "[]"]
  by (simp add: goStringBytes_def [of "BinaryObject _"] stringLen_def bytes_ok_def plain_bytes_def valid_decode utf8_next_def utf8_rest_steps)

text \<open>A slice that cuts a character is not refused, whatever the comment on \<open>sliceString\<close> says: it is
  the marked string of the bytes (the first byte of an e with an acute accent).\<close>

lemma slice_cuts_character:
  "sliceString (JSString [0xE9]) (Some 0) (Some 1) = Inr (binary_prefix @ [0xC3])"
proof -
  have b: "goStringBytes (JSString [0xE9]) = [0xC3, 0xA9]"
    by (simp add: goStringBytes_def binary_prefix_def text_encode_def surrogate_def utf8_enc_def)
  have "goStringFromBytes [0xC3] = binary_prefix @ [0xC3]"
    by (simp add: goStringFromBytes_def text_decode_fatal_def strip_bom_def bom_def utf8_next_def utf8_rest_steps bytesToBinaryString.simps)
  then show ?thesis by (simp add: sliceString_def b)
qed

text \<open>The excluded strings do not survive: the mark is dropped, and text that spells the marker
  is read as a binary string.\<close>

lemma byte_order_mark_lost:
  "goStringBytes (JSString (goStringFromBytes [0xEF, 0xBB, 0xBF, 0x41])) = [0x41]"
  by (simp add: goStringFromBytes_def text_decode_fatal_def strip_bom_def bom_def utf8_next_def
      utf8_rest_steps text_of_def utf16_enc_def goStringBytes_def binary_prefix_def text_encode_def
      surrogate_def utf8_enc_def)

subsection \<open>Comparison is that of the byte sequences\<close>

text \<open>The loop, by recursion on both lists.\<close>

fun compare_lists :: "nat list \<Rightarrow> nat list \<Rightarrow> int" where
  "compare_lists (a # as) (b # bs) = (if a \<noteq> b then int a - int b else compare_lists as bs)"
| "compare_lists as bs = int (length as) - int (length bs)"

lemma find_shift: "find P (map Suc xs) = map_option Suc (find (\<lambda>i. P (Suc i)) xs)"
  by (induction xs) auto

lemma find_compare:
  "(case find (\<lambda>i. l ! i \<noteq> r ! i) [0..<min (length l) (length r)] of
      Some i \<Rightarrow> int (l ! i) - int (r ! i) | None \<Rightarrow> int (length l) - int (length r)) =
   compare_lists l r"
proof (induction l r rule: compare_lists.induct)
  case (1 a as b bs)
  have "[0..<min (length (a # as)) (length (b # bs))] = 0 # map Suc [0..<min (length as) (length bs)]"
    by (simp add: upt_conv_Cons map_Suc_upt del: upt_Suc)
  with 1 show ?case
    by (cases "find (\<lambda>i. as ! i \<noteq> bs ! i) [0..<min (length as) (length bs)]")
      (simp_all add: find_shift del: upt_Suc)
qed auto

lemma compare_lists_order:
  "(compare_lists l r < 0 \<longleftrightarrow> (l, r) \<in> lexord {(a, b). a < b}) \<and> (compare_lists l r = 0 \<longleftrightarrow> l = r) \<and>
   (0 < compare_lists l r \<longleftrightarrow> (r, l) \<in> lexord {(a, b). a < b})"
  by (induction l r rule: compare_lists.induct) (auto simp: neq_Nil_conv)

lemma stringEqual_bytes: "stringEqual l r \<longleftrightarrow> goStringComparableBytes l = goStringComparableBytes r"
  unfolding stringEqual_def Let_def list_all_iff by (subst list_eq_iff_nth_eq) auto

text \<open>stringEqual decides equality of the byte sequences, whatever the representations of
  its operands; stringCompare is negative, zero or positive as the left bytes come before,
  equal or come after the right bytes in Go's (lexicographic) order of strings.\<close>

theorem string_comparison:
  "(stringEqual l r \<longleftrightarrow> goStringComparableBytes l = goStringComparableBytes r) \<and>
   (stringCompare l r < 0 \<longleftrightarrow>
      (goStringComparableBytes l, goStringComparableBytes r) \<in> lexord {(a, b). a < b}) \<and>
   (stringCompare l r = 0 \<longleftrightarrow> goStringComparableBytes l = goStringComparableBytes r) \<and>
   (0 < stringCompare l r \<longleftrightarrow>
      (goStringComparableBytes r, goStringComparableBytes l) \<in> lexord {(a, b). a < b})"
proof -
  have c: "stringCompare l r = compare_lists (goStringComparableBytes l) (goStringComparableBytes r)"
    unfolding stringCompare_def Let_def by (rule find_compare)
  show ?thesis unfolding c using compare_lists_order stringEqual_bytes by blast
qed

subsection \<open>Runes of a string\<close>

lemma runeToString_scalar: "0 \<le> r \<Longrightarrow> scalar (nat r) \<Longrightarrow> runeToString r = utf16_enc (nat r)"
  by (auto simp: runeToString_def scalar_def surrogate_def)

text \<open>What a rune stands for in a string.\<close>

definition rune_value :: "int \<Rightarrow> nat" where
  "rune_value r = (if 0 \<le> r \<and> scalar (nat r) then nat r else 0xFFFD)"

lemma rune_value_scalar [simp]: "scalar (rune_value r)"
  by (simp add: rune_value_def scalar_def surrogate_def)

lemma runeToString_value: "runeToString r = utf16_enc (rune_value r)"
  by (auto simp: runeToString_def rune_value_def scalar_def surrogate_def utf16_enc_def)

lemma runesToString_concat: "runesToString rs = concat (map utf16_enc (map rune_value rs))"
proof -
  have "fold (\<lambda>r out. out @ runeToString r) rs out = out @ concat (map utf16_enc (map rune_value rs))" for out
    by (induction rs arbitrary: out) (simp_all add: runeToString_value)
  then show ?thesis by (simp add: runesToString_def)
qed

fun offsets :: "nat \<Rightarrow> nat list \<Rightarrow> nat list" where
  "offsets n [] = []"
| "offsets n (c # cs) = n # offsets (n + length (utf8_enc c)) cs"

lemma range_pairs_scalar:
  "\<forall>c\<in>set cs. scalar c \<Longrightarrow> range_pairs n cs = zip (offsets n cs) cs"
  by (induction cs arbitrary: n) (simp_all add: text_encode_one)

text \<open>Runes and strings: a string made of runes, each invalid one replaced by U+FFFD, is
  iterated by range as exactly these runes at the byte offsets of their UTF-8 encodings; it
  converts back to the same runes, and unless its text starts with the marker its bytes are
  the concatenated encodings.\<close>

theorem runes_and_strings:
  "stringToRunes (runesToString rs) = map rune_value rs \<and>
   rangeString (runesToString rs) = zip (offsets 0 (map rune_value rs)) (map rune_value rs) \<and>
   (prefix binary_prefix (runesToString rs) \<or>
    goStringBytes (JSString (runesToString rs)) = concat (map utf8_enc (map rune_value rs)))"
proof -
  have v: "\<forall>c\<in>set (map rune_value rs). scalar c" by simp
  show ?thesis
    unfolding stringToRunes_def rangeString_def runesToString_concat
    unfolding code_points_encs [OF v] range_pairs_scalar [OF v] goStringBytes_def
    by (simp add: text_encode_encs [OF v] del: map_map)
qed

text \<open>Ranging over a string that is not valid UTF-8 visits the marker and the raw bytes as if
  they were runes: the string of the two bytes E2 82 has 18 runes, in Go it has two.\<close>

lemma range_over_binary_string:
  "length (rangeString (goStringFromBytes [0xE2, 0x82])) = 18 \<and>
   hd (rangeString (goStringFromBytes [0xE2, 0x82])) = (0, 0xFDD0)"
proof -
  have "\<not> Valid [0xE2, 0x82]" by (simp add: valid_decode utf8_next_def utf8_rest_steps)
  then show ?thesis
    by (simp add: goStringFromBytes_invalid rangeString_def binary_prefix_def)
qed

end
