(* ===== verification/GsValue.thy ===== *)
theory GsValue
  imports GsString
begin

section \<open>Comparable values (comparableEqual in gs/builtin/builtin.ts)\<close>

text \<open>
  A JavaScript value as the runtime's comparison sees it: a primitive, or an object with an
  identity. An array (\<open>Array\<close> or \<open>Uint8Array\<close>) has elements; any other object may have number
  fields \<open>real\<close> and \<open>imag\<close>, a \<open>__goType\<close> with a nil mark and a \<open>__goValue\<close>, and a struct's
  \<open>_fields\<close> of variable references, represented by their values. Minus zero, which \<open>===\<close> and
  the keys of a \<open>Map\<close> identify with zero, is not a separate number.
\<close>

datatype jsnum = Fin rat | PosInf | NegInf | NaN

datatype jsv =
    Undef
  | Null
  | JBool bool
  | JNum jsnum
  | JBigInt int
  | JStr jstr
  | BinObj nat "nat list"
  | JArray nat "jsv list"
  | JObj nat "(jsnum \<times> jsnum) option" gopart "(string \<times> jsv) list option"
and gopart =
    Untyped
  | TypedNil string
  | TypedBare string
  | TypedValue string jsv

fun identity :: "jsv \<Rightarrow> nat option" where
  "identity (BinObj i _) = Some i"
| "identity (JArray i _) = Some i"
| "identity (JObj i _ _ _) = Some i"
| "identity _ = None"

text \<open>\<open>===\<close>, and the comparison of \<open>Map\<close> keys, which differs on NaN.\<close>

definition strict_eq :: "jsv \<Rightarrow> jsv \<Rightarrow> bool" where
  "strict_eq a b =
     (case (identity a, identity b) of
        (Some i, Some j) \<Rightarrow> i = j
      | (None, None) \<Rightarrow> a = b \<and> a \<noteq> JNum NaN
      | _ \<Rightarrow> False)"

definition same_value_zero :: "jsv \<Rightarrow> jsv \<Rightarrow> bool" where
  "same_value_zero a b \<longleftrightarrow> strict_eq a b \<or> a = JNum NaN \<and> b = JNum NaN"

definition num_eq :: "jsnum \<Rightarrow> jsnum \<Rightarrow> bool" where "num_eq x y \<longleftrightarrow> x = y \<and> x \<noteq> NaN"

fun go_type :: "gopart \<Rightarrow> string option" where
  "go_type Untyped = None"
| "go_type (TypedNil t) = Some t"
| "go_type (TypedBare t) = Some t"
| "go_type (TypedValue t v) = Some t"

definition pointer_type :: "string \<Rightarrow> bool" where "pointer_type t \<longleftrightarrow> prefix ''*'' t"

text \<open>\<open>comparableEqual\<close>. The comparison of the typed parts says \<open>None\<close> when the source falls
  through to the comparison of struct fields.\<close>

fun comparableEqual :: "jsv \<Rightarrow> jsv \<Rightarrow> bool"
  and elementsEqual :: "jsv list \<Rightarrow> jsv list \<Rightarrow> bool"
  and typesEqual :: "gopart \<Rightarrow> gopart \<Rightarrow> bool option"
  and fieldsEqual :: "(string \<times> jsv) list \<Rightarrow> (string \<times> jsv) list \<Rightarrow> bool" where
  "comparableEqual (JArray i xs) b =
     (strict_eq (JArray i xs) b \<or>
      (case b of JArray j ys \<Rightarrow> length xs = length ys \<and> elementsEqual xs ys | _ \<Rightarrow> False))"
| "comparableEqual (JObj i c g fs) b =
     (strict_eq (JObj i c g fs) b \<or>
      (case b of
         JObj j c' g' fs' \<Rightarrow>
           if c \<noteq> None \<or> c' \<noteq> None then
             (case (c, c') of (Some (r, m), Some (r', m')) \<Rightarrow> num_eq r r' \<and> num_eq m m' | _ \<Rightarrow> False)
           else
             (case typesEqual g g' of
                Some e \<Rightarrow> e
              | None \<Rightarrow>
                  (case (fs, fs') of
                     (Some f, Some f') \<Rightarrow> length f = length f' \<and> fieldsEqual f f'
                   | _ \<Rightarrow> False))
       | _ \<Rightarrow> False))"
| "comparableEqual a b = strict_eq a b"
| "elementsEqual (x # xs) (y # ys) = (comparableEqual x y \<and> elementsEqual xs ys)"
| "elementsEqual _ _ = True"
| "typesEqual Untyped g' = (if g' = Untyped then None else Some False)"
| "typesEqual (TypedNil t) g' =
     (if go_type g' \<noteq> Some t then Some False else Some (\<exists>t'. g' = TypedNil t'))"
| "typesEqual (TypedBare t) g' =
     (if go_type g' \<noteq> Some t then Some False
      else case g' of TypedBare _ \<Rightarrow> if pointer_type t then Some False else None | _ \<Rightarrow> Some False)"
| "typesEqual (TypedValue t v) g' =
     (if go_type g' \<noteq> Some t then Some False
      else case g' of TypedValue _ w \<Rightarrow> if pointer_type t then Some False else Some (comparableEqual v w)
        | _ \<Rightarrow> Some False)"
| "fieldsEqual [] bs = True"
| "fieldsEqual ((k, v) # fs) bs =
     ((case map_of bs k of Some w \<Rightarrow> comparableEqual v w | None \<Rightarrow> False) \<and> fieldsEqual fs bs)"

subsection \<open>An equivalence on well-formed values\<close>

text \<open>An object has one content: values that share an identity are the same value. The map \<open>h\<close>
  says which; a struct has each field once.\<close>

fun wf_value :: "(nat \<Rightarrow> jsv) \<Rightarrow> jsv \<Rightarrow> bool"
  and wf_go :: "(nat \<Rightarrow> jsv) \<Rightarrow> gopart \<Rightarrow> bool" where
  "wf_value h (BinObj i bs) = (h i = BinObj i bs)"
| "wf_value h (JArray i xs) = (h i = JArray i xs \<and> list_all (wf_value h) xs)"
| "wf_value h (JObj i c g fs) =
     (h i = JObj i c g fs \<and> wf_go h g \<and>
      (case fs of None \<Rightarrow> True | Some f \<Rightarrow> distinct (map fst f) \<and> list_all (\<lambda>p. wf_value h (snd p)) f))"
| "wf_value h _ = True"
| "wf_go h (TypedValue t v) = wf_value h v"
| "wf_go h _ = True"

lemma wf_identity: "wf_value h a \<Longrightarrow> identity a = Some i \<Longrightarrow> a = h i"
  by (cases a) auto

lemma strict_eq_iff:
  assumes "wf_value h a" "wf_value h b"
  shows "strict_eq a b \<longleftrightarrow> a = b \<and> a \<noteq> JNum NaN"
  using wf_identity [OF assms(1)] wf_identity [OF assms(2)]
  by (auto simp: strict_eq_def split: option.splits)

lemma strict_eq_imp: "strict_eq a b \<Longrightarrow> wf_value h a \<Longrightarrow> wf_value h b \<Longrightarrow> a = b"
  by (simp add: strict_eq_iff)

lemma comparableEqual_strict: "strict_eq a b \<Longrightarrow> comparableEqual a b"
  by (cases a) auto

text \<open>Fields, as a relation between two field lists with distinct names.\<close>

lemma fieldsEqual_iff:
  "fieldsEqual fs bs \<longleftrightarrow> (\<forall>(k, v)\<in>set fs. \<exists>w. map_of bs k = Some w \<and> comparableEqual v w)"
  by (induction fs) (auto split: option.splits)

lemma same_fields:
  assumes "distinct (map fst f)" "distinct (map fst f')" "length f = length f'"
    and r: "\<forall>(k, v)\<in>set f. \<exists>w. map_of f' k = Some w \<and> R v w"
  shows "\<forall>(k, w)\<in>set f'. \<exists>v. map_of f k = Some v \<and> R v w"
proof -
  have "set (map fst f) \<subseteq> set (map fst f')"
  proof
    fix k assume "k \<in> set (map fst f)"
    then obtain v where "(k, v) \<in> set f" by force
    with r obtain w where "map_of f' k = Some w" by fastforce
    then show "k \<in> set (map fst f')" by (force dest: map_of_SomeD)
  qed
  moreover have "card (set (map fst f)) = card (set (map fst f'))"
    using assms(1-3) distinct_card by (metis length_map)
  ultimately have k: "set (map fst f) = set (map fst f')" by (simp add: card_subset_eq)
  show ?thesis
  proof clarify
    fix k w assume w: "(k, w) \<in> set f'"
    then have "k \<in> set (map fst f)" using k by force
    then obtain v where v: "(k, v) \<in> set f" by force
    then have "map_of f k = Some v" using assms(1) by simp
    moreover have "map_of f' k = Some w" using w assms(2) by simp
    ultimately show "\<exists>v. map_of f k = Some v \<and> R v w" using r v by fastforce
  qed
qed

lemma elementsEqual_iff:
  "length xs = length ys \<Longrightarrow> elementsEqual xs ys \<longleftrightarrow> list_all2 comparableEqual xs ys"
  by (induction xs ys rule: list_induct2) auto

lemma typesEqual_None: "typesEqual g g' = None \<Longrightarrow> g' = g"
  by (cases g; cases g') (auto split: if_splits)

lemma typesEqual_self:
  "typesEqual g g' = Some True \<Longrightarrow> typesEqual g'' g'' = None \<Longrightarrow> g \<noteq> g'' \<and> g' \<noteq> g''"
  by (cases g; cases g'; cases g''; auto split: if_splits)

lemma complex_eq:
  "comparableEqual (JObj i c g fs) (JObj j c' g' fs') \<Longrightarrow> \<not> strict_eq (JObj i c g fs) (JObj j c' g' fs') \<Longrightarrow>
   c \<noteq> None \<or> c' \<noteq> None \<Longrightarrow> \<exists>r m. c = Some (r, m) \<and> c' = Some (r, m) \<and> r \<noteq> NaN \<and> m \<noteq> NaN"
  by (cases c; cases c') (auto simp: num_eq_def)

lemma typesEqual_swap:
  "(\<And>t v w. g = TypedValue t v \<Longrightarrow> g' = TypedValue t w \<Longrightarrow> comparableEqual v w \<Longrightarrow> comparableEqual w v) \<Longrightarrow>
   typesEqual g g' = Some True \<Longrightarrow> typesEqual g' g = Some True"
  by (cases g; cases g') (auto split: if_splits)

definition composite :: "jsv \<Rightarrow> bool" where
  "composite a = (case a of JArray _ _ \<Rightarrow> True | JObj _ _ _ _ \<Rightarrow> True | _ \<Rightarrow> False)"

lemma composite_simps [simp]: "composite (JArray i xs)" "composite (JObj i c g fs)"
  "\<not> composite Undef" "\<not> composite Null" "\<not> composite (JBool p)" "\<not> composite (JNum n)"
  "\<not> composite (JBigInt z)" "\<not> composite (JStr u)" "\<not> composite (BinObj i bs)"
  by (simp_all add: composite_def)

lemma leaf_eq:
  "wf_value h a \<Longrightarrow> wf_value h b \<Longrightarrow> comparableEqual a b \<Longrightarrow> \<not> composite a \<Longrightarrow> b = a"
proof -
  assume w: "wf_value h a" "wf_value h b" and c: "comparableEqual a b" "\<not> composite a"
  have "strict_eq a b" using c by (cases a) simp_all
  from strict_eq_imp [OF this w] show "b = a" by simp
qed

lemma comparableEqual_sym:
  "wf_value h a \<Longrightarrow> wf_value h b \<Longrightarrow> comparableEqual a b \<Longrightarrow> comparableEqual b a"
  "wf_go h g \<Longrightarrow> wf_go h g' \<Longrightarrow> typesEqual g g' = Some True \<Longrightarrow> typesEqual g' g = Some True"
proof (induction a and g arbitrary: b and g')
  case (JArray i xs)
  show ?case
  proof (cases "strict_eq (JArray i xs) b")
    case True
    then show ?thesis using strict_eq_imp JArray.prems by blast
  next
    case False
    then obtain j ys where b: "b = JArray j ys" "length xs = length ys" "elementsEqual xs ys"
      using JArray.prems(3) by (auto split: jsv.splits)
    then have "list_all2 comparableEqual xs ys" by (simp add: elementsEqual_iff)
    then have "list_all2 comparableEqual ys xs"
      using JArray.IH JArray.prems(1,2) b(1,2)
      by (auto simp: list_all2_conv_all_nth list_all_length)
    then show ?thesis using b by (simp add: elementsEqual_iff)
  qed
next
  case (JObj i c g fs)
  show ?case
  proof (cases "strict_eq (JObj i c g fs) b")
    case True
    then show ?thesis using strict_eq_imp JObj.prems by blast
  next
    case False
    then obtain j c' g' fs' where b: "b = JObj j c' g' fs'" using JObj.prems(3) by (auto split: jsv.splits)
    show ?thesis
    proof (cases "c \<noteq> None \<or> c' \<noteq> None")
      case True
      then show ?thesis using JObj.prems(3) b False
        by (auto simp: num_eq_def split: option.splits)
    next
      case c: False
      show ?thesis
      proof (cases "typesEqual g g'")
        case None
        then have g: "g' = g" by (rule typesEqual_None)
        obtain f f' where f: "fs = Some f" "fs' = Some f'" "length f = length f'" "fieldsEqual f f'"
          using JObj.prems(3) False b None c by (auto split: option.splits)
        have d: "distinct (map fst f)" "distinct (map fst f')" using JObj.prems(1,2) b f by auto
        have ih: "comparableEqual w v" if "comparableEqual v w" "(k, v) \<in> set f" "(k', w) \<in> set f'" for k k' v w
          using that JObj.IH(2) [of f "(k, v)" v w] JObj.prems(1,2) b f(1,2) by (force simp: list_all_iff)
        have "\<forall>(k, v)\<in>set f. \<exists>w. map_of f' k = Some w \<and> comparableEqual w v"
          using f(4) ih unfolding fieldsEqual_iff by (blast dest: map_of_SomeD)
        from same_fields [OF d f(3) this]
        have "fieldsEqual f' f" unfolding fieldsEqual_iff .
        then show ?thesis using None c b f g by simp
      next
        case (Some e)
        then have e: "typesEqual g g' = Some True" using JObj.prems(3) False b c by auto
        then have "typesEqual g' g = Some True" using JObj.IH(1) JObj.prems(1,2) b by simp
        then show ?thesis using c b by simp
      qed
    qed
  qed
next
  case (TypedValue t v)
  show ?case
  proof (rule typesEqual_swap [OF _ TypedValue.prems(3)])
    fix t' v' w
    assume "TypedValue t v = TypedValue t' v'" "g' = TypedValue t' w" "comparableEqual v' w"
    then show "comparableEqual w v'" using TypedValue.IH TypedValue.prems(1,2) by simp
  qed
next
  case (TypedNil t)
  then show ?case by (cases g') (auto split: if_splits)
next
  case (TypedBare t)
  then show ?case by (cases g') (auto split: if_splits)
next
  case Untyped
  then show ?case by (simp split: if_splits)
qed (frule (2) leaf_eq; simp)+

lemma typesEqual_trans:
  "(\<And>t u v w. g = TypedValue t u \<Longrightarrow> g' = TypedValue t v \<Longrightarrow> g'' = TypedValue t w \<Longrightarrow>
      comparableEqual u v \<Longrightarrow> comparableEqual v w \<Longrightarrow> comparableEqual u w) \<Longrightarrow>
   typesEqual g g' = Some True \<Longrightarrow> typesEqual g' g'' = Some True \<Longrightarrow> typesEqual g g'' = Some True"
  by (cases g; cases g'; cases g'') (auto split: if_splits)

lemma comparableEqual_trans:
  "wf_value h a \<Longrightarrow> wf_value h b \<Longrightarrow> wf_value h d \<Longrightarrow> comparableEqual a b \<Longrightarrow> comparableEqual b d \<Longrightarrow>
     comparableEqual a d"
  "wf_go h g \<Longrightarrow> wf_go h g' \<Longrightarrow> wf_go h g'' \<Longrightarrow> typesEqual g g' = Some True \<Longrightarrow>
     typesEqual g' g'' = Some True \<Longrightarrow> typesEqual g g'' = Some True"
proof (induction a and g arbitrary: b d and g' g'')
  case (JArray i xs)
  show ?case
  proof (cases "strict_eq (JArray i xs) b \<or> strict_eq b d")
    case True
    then show ?thesis using strict_eq_imp JArray.prems by blast
  next
    case False
    then obtain j ys where b: "b = JArray j ys" "length xs = length ys" "elementsEqual xs ys"
      using JArray.prems(4) by (auto split: jsv.splits)
    moreover obtain k zs where d: "d = JArray k zs" "length ys = length zs" "elementsEqual ys zs"
      using JArray.prems(5) False b(1) by (auto split: jsv.splits)
    ultimately have "list_all2 comparableEqual xs ys" "list_all2 comparableEqual ys zs"
      by (simp_all add: elementsEqual_iff)
    then have "list_all2 comparableEqual xs zs"
      using JArray.IH JArray.prems(1-3) b(1,2) d(1,2)
      by (auto simp: list_all2_conv_all_nth list_all_length)
    then show ?thesis using b d by (simp add: elementsEqual_iff)
  qed
next
  case (JObj i c g fs)
  show ?case
  proof (cases "strict_eq (JObj i c g fs) b \<or> strict_eq b d")
    case True
    then show ?thesis using strict_eq_imp JObj.prems by blast
  next
    case False
    then obtain j c' g' fs' where b: "b = JObj j c' g' fs'" using JObj.prems(4) by (auto split: jsv.splits)
    with False obtain k c'' g'' fs'' where d: "d = JObj k c'' g'' fs''"
      using JObj.prems(5) by (auto split: jsv.splits)
    show ?thesis
    proof (cases "c \<noteq> None \<or> c' \<noteq> None \<or> c'' \<noteq> None")
      case True
      then obtain r m where "c = Some (r, m)" "c' = Some (r, m)" "c'' = Some (r, m)" "r \<noteq> NaN" "m \<noteq> NaN"
        using JObj.prems(4,5) complex_eq [of i c g fs j c' g' fs'] complex_eq [of j c' g' fs' k c'' g'' fs''] b d False
        by fastforce
      then show ?thesis using d by (simp add: num_eq_def)
    next
      case c: False
      have t: "typesEqual g g' = None \<or> typesEqual g g' = Some True"
        "typesEqual g' g'' = None \<or> typesEqual g' g'' = Some True"
      proof -
        have "case typesEqual g g' of Some e \<Rightarrow> e | None \<Rightarrow> True" "case typesEqual g' g'' of Some e \<Rightarrow> e | None \<Rightarrow> True"
          using JObj.prems(4,5) False b d c by (simp_all split: option.splits)
        then show "typesEqual g g' = None \<or> typesEqual g g' = Some True"
          "typesEqual g' g'' = None \<or> typesEqual g' g'' = Some True"
          by (simp_all split: option.splits)
      qed
      show ?thesis
      proof (cases "typesEqual g g' = None \<or> typesEqual g' g'' = None")
        case True
        then have n: "typesEqual g g' = None \<and> typesEqual g' g'' = None"
          using t typesEqual_None [of g g'] typesEqual_None [of g' g''] typesEqual_self [of g' g'' g]
            typesEqual_self [of g g' g'] by auto
        then have g: "typesEqual g g' = None" "typesEqual g' g'' = None" "g' = g" "g'' = g"
          using typesEqual_None [of g g'] typesEqual_None [of g' g''] by auto
        obtain f f' f'' where f: "fs = Some f" "fs' = Some f'" "fs'' = Some f''" "length f = length f'"
          "length f' = length f''" "fieldsEqual f f'" "fieldsEqual f' f''"
          using JObj.prems(4,5) False b d g c by (auto split: option.splits)
        have ih: "comparableEqual u w" if "comparableEqual u v" "comparableEqual v w"
          "(k1, u) \<in> set f" "(k2, v) \<in> set f'" "(k3, w) \<in> set f''" for k1 k2 k3 u v w
          using that JObj.IH(2) [of f "(k1, u)" u v w] JObj.prems(1-3) b d f(1-3) by (force simp: list_all_iff)
        have "fieldsEqual f f''"
          unfolding fieldsEqual_iff
        proof clarify
          fix k1 u assume u: "(k1, u) \<in> set f"
          then obtain v where v: "(k1, v) \<in> set f'" "comparableEqual u v"
            using f(6) unfolding fieldsEqual_iff by (fastforce dest: map_of_SomeD)
          then obtain w where w: "map_of f'' k1 = Some w" "comparableEqual v w"
            using f(7) unfolding fieldsEqual_iff by fastforce
          then show "\<exists>w. map_of f'' k1 = Some w \<and> comparableEqual u w"
            using ih [OF v(2) w(2) u v(1)] by (blast dest: map_of_SomeD)
        qed
        then show ?thesis using c d f g by simp
      next
        case False': False
        then have e: "typesEqual g g' = Some True" "typesEqual g' g'' = Some True"
          using t by auto
        then have "typesEqual g g'' = Some True"
          using JObj.IH(1) [of g' g''] JObj.prems(1-3) b d e by simp
        then show ?thesis using c d by simp
      qed
    qed
  qed
next
  case (TypedValue t v)
  show ?case
  proof (rule typesEqual_trans [OF _ TypedValue.prems(4,5)])
    fix t' v' w x
    assume "TypedValue t v = TypedValue t' v'" "g' = TypedValue t' w" "g'' = TypedValue t' x"
      "comparableEqual v' w" "comparableEqual w x"
    then show "comparableEqual v' x"
      using TypedValue.IH [of w x] TypedValue.prems(1-3) by simp
  qed
next
  case (TypedNil t)
  show ?case by (rule typesEqual_trans [OF _ TypedNil.prems(4,5)]) simp
next
  case (TypedBare t)
  show ?case by (rule typesEqual_trans [OF _ TypedBare.prems(4,5)]) simp
next
  case Untyped
  then show ?case by (simp split: if_splits)
qed (frule (1) leaf_eq; simp)+

text \<open>Reflexivity fails only where it does in Go: a value equals itself unless it is NaN.\<close>

lemma comparableEqual_refl: "a \<noteq> JNum NaN \<Longrightarrow> wf_value h a \<Longrightarrow> comparableEqual a a"
  by (intro comparableEqual_strict) (simp add: strict_eq_iff)

lemma elementsEqual_list: "length xs = length ys \<Longrightarrow> elementsEqual xs ys = list_all2 comparableEqual xs ys"
  by (induction xs ys rule: list_induct2) simp_all

text \<open>C15. comparableEqual, on values in which an identity determines the object and struct fields are
  distinct, is an equivalence: a value other than NaN equals itself, equality is symmetric and
  transitive. A primitive, a nil or a marked string equals only itself. Two different objects are
  equal only if both are arrays with equal elements, both are complex numbers with equal parts, or
  both are neither and carry the same Go type or both none. So objects of different Go types are told
  apart where they carry the type: a complex number's type is not looked at, and structs without a
  type are compared by their fields.\<close>

theorem comparable_equivalence:
  assumes "wf_value h a" "wf_value h b" "wf_value h c"
  shows "(a \<noteq> JNum NaN \<longrightarrow> comparableEqual a a) \<and>
    (comparableEqual a b \<longleftrightarrow> comparableEqual b a) \<and>
    (comparableEqual a b \<and> comparableEqual b c \<longrightarrow> comparableEqual a c) \<and>
    (\<not> composite a \<longrightarrow> (comparableEqual a b \<longleftrightarrow> a = b \<and> a \<noteq> JNum NaN)) \<and>
    (comparableEqual a b \<and> a \<noteq> b \<longrightarrow>
      (\<exists>i xs j ys. a = JArray i xs \<and> b = JArray j ys \<and> list_all2 comparableEqual xs ys) \<or>
      (\<exists>i p g f j q g' f'. a = JObj i (Some p) g f \<and> b = JObj j (Some q) g' f' \<and>
         num_eq (fst p) (fst q) \<and> num_eq (snd p) (snd q)) \<or>
      (\<exists>i g f j g' f'. a = JObj i None g f \<and> b = JObj j None g' f' \<and> go_type g = go_type g'))"
proof (intro conjI impI)
  show "comparableEqual a a" if "a \<noteq> JNum NaN" using comparableEqual_refl that assms(1) by blast
  show "comparableEqual a b \<longleftrightarrow> comparableEqual b a" using comparableEqual_sym(1) assms by blast
  show "comparableEqual a c" if "comparableEqual a b \<and> comparableEqual b c"
    using comparableEqual_trans(1) assms that by blast
  show "comparableEqual a b \<longleftrightarrow> a = b \<and> a \<noteq> JNum NaN" if "\<not> composite a"
    using that strict_eq_iff [OF assms(1,2)] by (cases a) simp_all
  assume e: "comparableEqual a b \<and> a \<noteq> b"
  then have n: "\<not> strict_eq a b" using strict_eq_iff [OF assms(1,2)] by blast
  have t: "typesEqual g g' \<noteq> Some False \<Longrightarrow> go_type g = go_type g'" for g g'
    by (cases g; cases g') (auto split: if_splits)
  show "(\<exists>i xs j ys. a = JArray i xs \<and> b = JArray j ys \<and> list_all2 comparableEqual xs ys) \<or>
      (\<exists>i p g f j q g' f'. a = JObj i (Some p) g f \<and> b = JObj j (Some q) g' f' \<and>
         num_eq (fst p) (fst q) \<and> num_eq (snd p) (snd q)) \<or>
      (\<exists>i g f j g' f'. a = JObj i None g f \<and> b = JObj j None g' f' \<and> go_type g = go_type g')"
  proof (cases a)
    case (JArray i xs)
    then show ?thesis using e n by (cases b) (auto simp: elementsEqual_list)
  next
    case (JObj i p g f)
    then obtain j q g' f' where b: "b = JObj j q g' f'" using e n by (cases b) simp_all
    show ?thesis
    proof (cases p)
      case None
      then show ?thesis using e n t [of g g'] JObj b by (cases q; cases "typesEqual g g'") auto
    next
      case (Some x)
      then show ?thesis using e n JObj b by (cases q) (auto split: prod.splits)
    qed
  qed (use e n in auto)
qed

theorem comparable_equivalence_witness:
  "comparableEqual (JObj 1 None Untyped (Some [(''x'', JNum (Fin 1)), (''y'', JStr [65])]))
                   (JObj 2 None Untyped (Some [(''y'', JStr [65]), (''x'', JNum (Fin 1))])) \<and>
   \<not> comparableEqual (JNum (Fin 1)) (JStr [65])"
  using comparable_equivalence
    [of "\<lambda>i. JObj i None Untyped (Some (if i = 1 then [(''x'', JNum (Fin 1)), (''y'', JStr [65])]
                                          else [(''y'', JStr [65]), (''x'', JNum (Fin 1))]))"
      "JObj 1 None Untyped (Some [(''x'', JNum (Fin 1)), (''y'', JStr [65])])"
      "JObj 2 None Untyped (Some [(''y'', JStr [65]), (''x'', JNum (Fin 1))])" "JStr [65]"]
  by (simp add: strict_eq_def)

text \<open>Complex numbers of different Go types, and structs that carry no type, are not told apart; in Go
  they are different values of an interface.\<close>

lemma complex_types_ignored:
  "comparableEqual (JObj 1 (Some (Fin 1, Fin 2)) (TypedBare ''main.A'') None) (JObj 2 (Some (Fin 1, Fin 2)) (TypedBare ''main.B'') None)"
  by (simp add: num_eq_def)

lemma fields_decide:
  "comparableEqual (JObj 1 None Untyped (Some f)) (JObj 2 None Untyped (Some f')) \<longleftrightarrow> length f = length f' \<and> fieldsEqual f f'"
  by (simp add: strict_eq_def)

end
