(* ===== verification/GsTable.thy ===== *)
theory GsTable
  imports GsPrelude
begin

section \<open>Tables under a key equality\<close>

text \<open>
  A JavaScript \<open>Map\<close> is the list of its entries in insertion order. This theory has the
  operations of such a table under any key equality, and their laws in a locale; \<open>Map\<close>
  itself, the runtime's Go map and \<open>sync.Map\<close> are its instances.
\<close>

type_synonym ('k, 'v) table = "('k \<times> 'v) list"

definition al_find :: "('k \<Rightarrow> 'k \<Rightarrow> bool) \<Rightarrow> ('k, 'v) table \<Rightarrow> 'k \<Rightarrow> ('k \<times> 'v) option" where
  "al_find same m k = find (\<lambda>p. same (fst p) k) m"

definition al_get :: "('k \<Rightarrow> 'k \<Rightarrow> bool) \<Rightarrow> ('k, 'v) table \<Rightarrow> 'k \<Rightarrow> 'v option" where
  "al_get same m k = map_option snd (al_find same m k)"

fun al_put :: "('k \<Rightarrow> 'k \<Rightarrow> bool) \<Rightarrow> ('k, 'v) table \<Rightarrow> 'k \<Rightarrow> 'v \<Rightarrow> ('k, 'v) table" where
  "al_put same [] k v = [(k, v)]"
| "al_put same ((c, w) # m) k v =
     (if same c k then (c, v) # m else (c, w) # al_put same m k v)"

definition al_remove :: "('k \<Rightarrow> 'k \<Rightarrow> bool) \<Rightarrow> ('k, 'v) table \<Rightarrow> 'k \<Rightarrow> ('k, 'v) table" where
  "al_remove same m k = remove_first (\<lambda>p. same (fst p) k) m"

text \<open>Every key is valid and no two entries have equal keys.\<close>

fun table_ok :: "('k \<Rightarrow> bool) \<Rightarrow> ('k \<Rightarrow> 'k \<Rightarrow> bool) \<Rightarrow> ('k, 'v) table \<Rightarrow> bool" where
  "table_ok valid same [] = True"
| "table_ok valid same ((c, w) # m) =
     (valid c \<and> list_all (\<lambda>p. \<not> same (fst p) c) m \<and> table_ok valid same m)"

lemma al_simps [simp]:
  "al_find same [] k = None"
  "al_find same ((c, w) # m) k = (if same c k then Some (c, w) else al_find same m k)"
  "al_get same [] k = None"
  "al_get same ((c, w) # m) k = (if same c k then Some w else al_get same m k)"
  "al_remove same [] k = []"
  "al_remove same ((c, w) # m) k = (if same c k then m else (c, w) # al_remove same m k)"
  by (simp_all add: al_find_def al_get_def al_remove_def)

lemma al_find_in: "al_find same m k = Some p \<Longrightarrow> p \<in> set m \<and> same (fst p) k"
  by (induction m) (auto split: if_splits)

lemma al_find_None: "al_find same m k = None \<longleftrightarrow> (\<forall>p\<in>set m. \<not> same (fst p) k)"
  by (auto simp: al_find_def find_None_iff)

lemma al_find_cong:
  "\<forall>p\<in>set m. same (fst p) k \<longleftrightarrow> same' (fst p) k' \<Longrightarrow> al_find same m k = al_find same' m k'"
  by (induction m) auto

lemma al_put_cong:
  "\<forall>p\<in>set m. same (fst p) k \<longleftrightarrow> same' (fst p) k' \<Longrightarrow> k = k' \<or> al_find same m k \<noteq> None \<Longrightarrow>
   al_put same m k v = al_put same' m k' v"
  by (induction m) auto

lemma al_remove_cong:
  "\<forall>p\<in>set m. same (fst p) k \<longleftrightarrow> same' (fst p) k' \<Longrightarrow> al_remove same m k = al_remove same' m k'"
  by (induction m) auto

lemma al_remove_absent: "al_find same m k = None \<Longrightarrow> al_remove same m k = m"
  by (induction m) (auto split: if_splits)

lemma set_al_put: "p \<in> set (al_put same m k v) \<Longrightarrow> p = (k, v) \<or> fst p \<in> fst ` set m"
  by (induction m) (force split: if_splits)+

lemma set_al_remove: "set (al_remove same m k) \<subseteq> set m"
  by (simp add: al_remove_def set_remove_first)

lemma table_ok_valid: "table_ok valid same m \<Longrightarrow> p \<in> set m \<Longrightarrow> valid (fst p)"
  by (induction m) auto

text \<open>A history of writes, and the value it leaves at a key.\<close>

datatype ('k, 'v) edit = Put 'k 'v | Remove 'k

fun edit_key :: "('k, 'v) edit \<Rightarrow> 'k" where
  "edit_key (Put k v) = k"
| "edit_key (Remove k) = k"

fun al_edit :: "('k \<Rightarrow> 'k \<Rightarrow> bool) \<Rightarrow> ('k, 'v) edit \<Rightarrow> ('k, 'v) table \<Rightarrow> ('k, 'v) table" where
  "al_edit same (Put k v) m = al_put same m k v"
| "al_edit same (Remove k) m = al_remove same m k"

fun last_write :: "('k \<Rightarrow> 'k \<Rightarrow> bool) \<Rightarrow> ('k, 'v) edit list \<Rightarrow> 'v option \<Rightarrow> 'k \<Rightarrow> 'v option" where
  "last_write same [] old k = old"
| "last_write same (Put j v # ws) old k = last_write same ws (if same j k then Some v else old) k"
| "last_write same (Remove j # ws) old k = last_write same ws (if same j k then None else old) k"

locale key_equality =
  fixes valid :: "'k \<Rightarrow> bool" and same :: "'k \<Rightarrow> 'k \<Rightarrow> bool"
  assumes refl: "valid k \<Longrightarrow> same k k"
    and sym: "valid j \<Longrightarrow> valid k \<Longrightarrow> same j k \<Longrightarrow> same k j"
    and trans: "valid i \<Longrightarrow> valid j \<Longrightarrow> valid k \<Longrightarrow> same i j \<Longrightarrow> same j k \<Longrightarrow> same i k"
begin

lemma same_iff:
  assumes "valid c" "valid k" "valid k'"
  shows "same k k' \<Longrightarrow> same c k \<longleftrightarrow> same c k'" and "same c k \<Longrightarrow> same k k' \<longleftrightarrow> same c k'"
  using assms sym trans by blast+

lemma put_ok: "table_ok valid same m \<Longrightarrow> valid k \<Longrightarrow> table_ok valid same (al_put same m k v)"
proof (induction m)
  case (Cons e m)
  obtain c w where e: "e = (c, w)" by (cases e)
  show ?case
  proof (cases "same c k")
    case False
    moreover have "\<not> same (fst p) c" if "p \<in> set (al_put same m k v)" for p
      using set_al_put [OF that] Cons.prems e False sym by (auto simp: list_all_iff)
    ultimately show ?thesis using Cons e by (simp add: list_all_iff)
  qed (use Cons e in simp)
qed simp

lemma remove_ok: "table_ok valid same m \<Longrightarrow> table_ok valid same (al_remove same m k)"
proof (induction m)
  case (Cons e m)
  then show ?case using set_al_remove [of same m k] by (cases e) (auto simp: list_all_iff)
qed simp

lemma distinct_classes:
  assumes "table_ok valid same ((c, w) # m)" "p \<in> set m" "valid k" "same (fst p) k"
  shows "\<not> same c k"
proof
  assume "same c k"
  moreover have "valid c" "valid (fst p)" "\<not> same (fst p) c"
    using assms(1,2) table_ok_valid [OF _ assms(2)] by (auto simp: list_all_iff)
  ultimately show False using assms(3,4) sym trans by blast
qed

lemma unique:
  "table_ok valid same m \<Longrightarrow> valid k \<Longrightarrow> p \<in> set m \<Longrightarrow> same (fst p) k \<Longrightarrow> al_find same m k = Some p"
proof (induction m)
  case (Cons e m)
  obtain c w where e: "e = (c, w)" by (cases e)
  show ?case
  proof (cases "p = (c, w)")
    case False
    then have "p \<in> set m" using Cons.prems e by simp
    moreover from this have "\<not> same c k"
      using Cons.prems by (intro distinct_classes [of c w m p]) (simp_all add: e)
    ultimately show ?thesis using Cons e by simp
  qed (use Cons e in simp)
qed simp

lemma get_put:
  "table_ok valid same m \<Longrightarrow> valid k \<Longrightarrow> valid k' \<Longrightarrow>
   al_get same (al_put same m k v) k' = (if same k k' then Some v else al_get same m k')"
proof (induction m)
  case (Cons e m)
  obtain c w where e: "e = (c, w)" by (cases e)
  with Cons.prems have v: "valid c" by simp
  then show ?case
    using Cons e same_iff [OF v Cons.prems(2,3)] by auto
qed simp

lemma get_remove:
  "table_ok valid same m \<Longrightarrow> valid k \<Longrightarrow> valid k' \<Longrightarrow>
   al_get same (al_remove same m k) k' = (if same k k' then None else al_get same m k')"
proof (induction m)
  case (Cons e m)
  obtain c w where e: "e = (c, w)" by (cases e)
  with Cons.prems have v: "valid c" by simp
  have "al_get same m k' = None" if "same c k'"
    using distinct_classes [of c w m _ k'] Cons.prems e that by (auto simp: al_get_def al_find_None)
  then show ?case
    using Cons e same_iff [OF v Cons.prems(2,3)] by auto
qed simp

lemma history:
  "table_ok valid same m \<Longrightarrow> list_all (\<lambda>w. valid (edit_key w)) ws \<Longrightarrow> valid k \<Longrightarrow>
   table_ok valid same (fold (al_edit same) ws m) \<and>
   al_get same (fold (al_edit same) ws m) k = last_write same ws (al_get same m k) k"
proof (induction ws arbitrary: m)
  case (Cons w ws)
  then show ?case by (cases w) (simp_all add: put_ok remove_ok get_put get_remove)
qed simp

end

end
