(* ===== verification/GsMap.thy ===== *)
theory GsMap
  imports GsValue GsTable
begin

section \<open>Go maps (gs/builtin/map.ts) and sync.Map (gs/sync/sync.ts)\<close>

text \<open>
  Both keep their entries in a JavaScript \<open>Map\<close>, whose keys are compared by
  \<open>same_value_zero\<close>, and both search it for a key of their own notion of equality first.
\<close>

text \<open>The methods \<open>has\<close>, \<open>get\<close>, \<open>set\<close> and \<open>delete\<close> of \<open>Map\<close>.\<close>

abbreviation js_find :: "(jsv, 'v) table \<Rightarrow> jsv \<Rightarrow> (jsv \<times> 'v) option" where
  "js_find \<equiv> al_find same_value_zero"

abbreviation js_set :: "(jsv, 'v) table \<Rightarrow> jsv \<Rightarrow> 'v \<Rightarrow> (jsv, 'v) table" where
  "js_set \<equiv> al_put same_value_zero"

abbreviation js_delete :: "(jsv, 'v) table \<Rightarrow> jsv \<Rightarrow> (jsv, 'v) table" where
  "js_delete \<equiv> al_remove same_value_zero"

interpretation js: key_equality "\<lambda>k. True" same_value_zero
  by unfold_locales (auto simp: same_value_zero_def strict_eq_def split: option.splits if_splits)

text \<open>A key equality on top of \<open>Map\<close>: the entry with an equal key is written through its own key.\<close>

locale map_keys = key_equality valid same
  for valid :: "jsv \<Rightarrow> bool" and same :: "jsv \<Rightarrow> jsv \<Rightarrow> bool" +
  assumes identical: "valid a \<Longrightarrow> valid b \<Longrightarrow> same_value_zero a b \<longleftrightarrow> a = b"
begin

lemma find_identical:
  assumes "table_ok valid same t" "valid k" "js_find t k = Some e"
  shows "fst e = k" "al_find same t k = Some e"
proof -
  have e: "e \<in> set t" "same_value_zero (fst e) k" using al_find_in [OF assms(3)] by simp_all
  then show k: "fst e = k" using identical [OF table_ok_valid [OF assms(1) e(1)] assms(2)] by simp
  show "al_find same t k = Some e" using unique [OF assms(1,2) e(1)] refl [OF assms(2)] k by simp
qed

lemma write_found:
  assumes "table_ok valid same t" "valid k" "al_find same t k = Some e"
  shows "js_set t (fst e) v = al_put same t k v" "js_delete t (fst e) = al_remove same t k"
proof -
  have e: "e \<in> set t" "same (fst e) k" using al_find_in [OF assms(3)] by simp_all
  have *: "\<forall>p\<in>set t. same (fst p) k \<longleftrightarrow> same_value_zero (fst p) (fst e)"
  proof
    fix p assume p: "p \<in> set t"
    show "same (fst p) k \<longleftrightarrow> same_value_zero (fst p) (fst e)"
    proof
      assume "same (fst p) k"
      then have "p = e" using unique [OF assms(1,2) p] assms(3) by simp
      then show "same_value_zero (fst p) (fst e)" using js.refl by simp
    next
      assume "same_value_zero (fst p) (fst e)"
      then have "fst p = fst e"
        using identical [OF table_ok_valid [OF assms(1) p] table_ok_valid [OF assms(1) e(1)]] by simp
      then show "same (fst p) k" using e(2) by simp
    qed
  qed
  show "js_set t (fst e) v = al_put same t k v"
    using al_put_cong [where same = same and k = k and same' = same_value_zero and k' = "fst e", OF *]
      assms(3) by simp
  show "js_delete t (fst e) = al_remove same t k"
    using * by (intro al_remove_cong [symmetric])
qed

lemma write_absent:
  assumes "table_ok valid same t" "valid k" "al_find same t k = None"
  shows "js_find t k = None" "js_set t k v = al_put same t k v"
proof -
  show *: "js_find t k = None" using find_identical(2) [OF assms(1,2)] assms(3) by (cases "js_find t k") simp_all
  show "js_set t k v = al_put same t k v"
    using * assms(3) by (intro al_put_cong) (simp_all add: al_find_None)
qed

end

subsection \<open>Go maps\<close>

text \<open>\<open>isGoStringKey\<close>, with the string.\<close>

fun string_key :: "jsv \<Rightarrow> gostring option" where
  "string_key (JStr s) = Some (JSString s)"
| "string_key (BinObj i bs) = Some (BinaryObject bs)"
| "string_key _ = None"

definition string_match :: "jsv \<Rightarrow> gostring \<Rightarrow> bool" where
  "string_match candidate t =
     (case string_key candidate of Some s \<Rightarrow> stringEqual (OfString s) (OfString t) | None \<Rightarrow> False)"

definition object_match :: "jsv \<Rightarrow> jsv \<Rightarrow> bool" where
  "object_match candidate key \<longleftrightarrow> \<not> strict_eq candidate key \<and> comparableEqual candidate key"

definition findMapEntry :: "(jsv, 'v) table option \<Rightarrow> jsv \<Rightarrow> (jsv \<times> 'v) option" where
  "findMapEntry m key =
     (case m of None \<Rightarrow> None
      | Some t \<Rightarrow>
          (case js_find t key of
             Some e \<Rightarrow> Some (key, snd e)
           | None \<Rightarrow>
               (case string_key key of
                  Some s \<Rightarrow> find (\<lambda>e. string_match (fst e) s) t
                | None \<Rightarrow>
                    if identity key = None then None
                    else find (\<lambda>e. object_match (fst e) key) t)))"

definition makeMap :: "(jsv, 'v) table option" where "makeMap = Some []"

definition mapGet :: "(jsv, 'v) table option \<Rightarrow> jsv \<Rightarrow> 'v \<Rightarrow> 'v \<times> bool" where
  "mapGet m key defaultValue =
     (case findMapEntry m key of Some e \<Rightarrow> (snd e, True) | None \<Rightarrow> (defaultValue, False))"

definition mapSet :: "(jsv, 'v) table option \<Rightarrow> jsv \<Rightarrow> 'v \<Rightarrow> (jsv, 'v) table option res" where
  "mapSet m key v =
     (case m of None \<Rightarrow> Inl (ThrownError ''assign to nil map'')
      | Some t \<Rightarrow>
          Inr (Some (js_set t (case findMapEntry m key of Some e \<Rightarrow> fst e | None \<Rightarrow> key) v)))"

definition deleteMapEntry :: "(jsv, 'v) table option \<Rightarrow> jsv \<Rightarrow> (jsv, 'v) table option" where
  "deleteMapEntry m key =
     (case findMapEntry m key of None \<Rightarrow> m | Some e \<Rightarrow> map_option (\<lambda>t. js_delete t (fst e)) m)"

definition mapHas :: "(jsv, 'v) table option \<Rightarrow> jsv \<Rightarrow> bool" where
  "mapHas m key \<longleftrightarrow> findMapEntry m key \<noteq> None"

text \<open>The equality of keys these operations implement.\<close>

definition go_key_eq :: "jsv \<Rightarrow> jsv \<Rightarrow> bool" where
  "go_key_eq a b \<longleftrightarrow> same_value_zero a b \<or>
     (case string_key b of
        Some t \<Rightarrow> string_match a t
      | None \<Rightarrow> identity b \<noteq> None \<and> comparableEqual a b)"

lemma same_value_zero_wf: "wf_value h a \<Longrightarrow> wf_value h b \<Longrightarrow> same_value_zero a b \<longleftrightarrow> a = b"
  by (auto simp: same_value_zero_def strict_eq_iff)

lemma stringEqual_strings: "stringEqual (OfString s) (OfString t) \<longleftrightarrow> goStringBytes s = goStringBytes t"
  by (simp add: stringEqual_bytes goStringComparableBytes_def)

text \<open>The same relation, on well-formed keys, in a symmetric form.\<close>

lemma go_key_eq_wf:
  assumes "wf_value h a" "wf_value h b"
  shows "go_key_eq a b \<longleftrightarrow> a = b \<or>
    (case (string_key a, string_key b) of
       (Some s, Some t) \<Rightarrow> goStringBytes s = goStringBytes t
     | (None, None) \<Rightarrow> comparableEqual a b
     | _ \<Rightarrow> False)"
proof (cases "composite a \<and> composite b")
  case True
  then have "string_key a = None" "string_key b = None" "identity b \<noteq> None"
    by (cases a; cases b; simp)+
  then show ?thesis using assms by (simp add: go_key_eq_def same_value_zero_wf)
next
  case False
  then have "b = a" if "comparableEqual a b"
    using leaf_eq [OF assms that] leaf_eq [OF assms(2,1) comparableEqual_sym(1) [OF assms that]] by blast
  then show ?thesis
    using assms
    by (auto simp: go_key_eq_def same_value_zero_wf string_match_def stringEqual_strings split: option.splits)
qed

interpretation go: map_keys "wf_value h" go_key_eq for h
proof
  fix i j k
  show "same_value_zero j k \<longleftrightarrow> j = k" if "wf_value h j" "wf_value h k"
    using that by (rule same_value_zero_wf)
  show "go_key_eq k k" if "wf_value h k" using that by (simp add: go_key_eq_wf)
  show "go_key_eq k j" if "wf_value h j" "wf_value h k" "go_key_eq j k"
    using that comparableEqual_sym(1) [of h j k] by (auto simp: go_key_eq_wf split: option.splits)
  show "go_key_eq i k" if "wf_value h i" "wf_value h j" "wf_value h k" "go_key_eq i j" "go_key_eq j k"
    using that comparableEqual_trans(1) [of h i j k] by (auto simp: go_key_eq_wf split: option.splits)
qed

lemma findMapEntry_nil: "findMapEntry None k = None"
  by (simp add: findMapEntry_def)

lemma find_nothing [simp]: "find (\<lambda>x. False) xs = None"
  by (induction xs) simp_all

lemma find_cong_set: "(\<And>x. x \<in> set xs \<Longrightarrow> P x = Q x) \<Longrightarrow> find P xs = find Q xs"
  by (induction xs) auto

text \<open>Under the invariant, \<open>findMapEntry\<close> finds the entry of an equal key, and writing through it
  is writing to a table whose keys are compared by \<open>go_key_eq\<close>.\<close>

lemma findMapEntry_table:
  assumes "table_ok (wf_value h) go_key_eq t" "wf_value h k"
  shows "findMapEntry (Some t) k = al_find go_key_eq t k"
proof (cases "js_find t k")
  case (Some e)
  then show ?thesis
    using go.find_identical [OF assms Some] by (simp add: findMapEntry_def prod_eq_iff)
next
  case None
  then have "\<not> same_value_zero (fst p) k" if "p \<in> set t" for p using that al_find_None [of same_value_zero t k] by simp
  moreover have "\<not> strict_eq (fst p) k" if "p \<in> set t" for p
    using calculation [OF that] by (simp add: same_value_zero_def)
  ultimately have "al_find go_key_eq t k = find (\<lambda>e. case string_key k of Some s \<Rightarrow> string_match (fst e) s
      | None \<Rightarrow> identity k \<noteq> None \<and> object_match (fst e) k) t"
    unfolding al_find_def
    by (intro find_cong_set) (simp add: go_key_eq_def object_match_def split: option.split)
  then show ?thesis
    using None by (cases "string_key k") (simp_all add: findMapEntry_def)
qed

lemma mapSet_table:
  assumes "table_ok (wf_value h) go_key_eq t" "wf_value h k"
  shows "mapSet (Some t) k v = Inr (Some (al_put go_key_eq t k v))"
proof (cases "al_find go_key_eq t k")
  case None
  then show ?thesis
    using go.write_absent [OF assms None] by (simp add: mapSet_def findMapEntry_table [OF assms])
next
  case (Some e)
  then show ?thesis
    using go.write_found(1) [OF assms Some] by (simp add: mapSet_def findMapEntry_table [OF assms])
qed

lemma deleteMapEntry_table:
  assumes "table_ok (wf_value h) go_key_eq t" "wf_value h k"
  shows "deleteMapEntry (Some t) k = Some (al_remove go_key_eq t k)"
proof (cases "al_find go_key_eq t k")
  case None
  then show ?thesis
    by (simp add: deleteMapEntry_def findMapEntry_table [OF assms] al_remove_absent)
next
  case (Some e)
  then show ?thesis
    using go.write_found(2) [OF assms Some] by (simp add: deleteMapEntry_def findMapEntry_table [OF assms])
qed

text \<open>Running writes on a map: an exception leaves the rest of the writes undone.\<close>

fun run_writes :: "(jsv, 'v) edit list \<Rightarrow> (jsv, 'v) table option \<Rightarrow> (jsv, 'v) table option res" where
  "run_writes [] m = Inr m"
| "run_writes (Put k v # ws) m = bindR (mapSet m k v) (run_writes ws)"
| "run_writes (Remove k # ws) m = run_writes ws (deleteMapEntry m k)"

lemma run_writes_table:
  "table_ok (wf_value h) go_key_eq t \<Longrightarrow> list_all (\<lambda>w. wf_value h (edit_key w)) ws \<Longrightarrow>
   run_writes ws (Some t) = Inr (Some (fold (al_edit go_key_eq) ws t))"
proof (induction ws arbitrary: t)
  case (Cons w ws)
  then show ?case
    by (cases w) (simp_all add: mapSet_table deleteMapEntry_table go.put_ok go.remove_ok)
qed simp

text \<open>C16. Go maps: after any writes and deletions, on well-formed keys, a map holds at a key
  what the last write to an equal key left there, where keys are equal when they are the
  same value, strings with the same bytes, or objects comparableEqual relates; mapGet gives
  the default and false for an absent key, mapHas agrees with it. Reading or deleting from
  a nil map behaves as on an empty one, and writing to it throws.\<close>

theorem go_map_history:
  assumes "list_all (\<lambda>w. wf_value h (edit_key w)) ws" "wf_value h k"
  shows "(case run_writes ws makeMap of
      Inl e \<Rightarrow> False
    | Inr m \<Rightarrow>
        mapGet m k d = (case last_write go_key_eq ws None k of Some v \<Rightarrow> (v, True) | None \<Rightarrow> (d, False)) \<and>
        mapHas m k = (last_write go_key_eq ws None k \<noteq> None)) \<and>
    mapGet None k d = (d, False) \<and> \<not> mapHas None k \<and> deleteMapEntry None k = None \<and>
    mapSet None k d = Inl (ThrownError ''assign to nil map'')"
proof -
  let ?t = "fold (al_edit go_key_eq) ws []"
  have r: "run_writes ws makeMap = Inr (Some ?t)"
    unfolding makeMap_def using assms(1) by (intro run_writes_table) simp_all
  have "table_ok (wf_value h) go_key_eq ?t" "al_get go_key_eq ?t k = last_write go_key_eq ws None k"
    using go.history [of h "[]" ws k] assms by simp_all
  then have "map_option snd (findMapEntry (Some ?t) k) = last_write go_key_eq ws None k"
    using findMapEntry_table [of h ?t k] assms(2) by (simp add: al_get_def)
  from this [symmetric] show ?thesis
    by (cases "findMapEntry (Some ?t) k")
      (simp_all add: r mapGet_def mapHas_def mapSet_def deleteMapEntry_def findMapEntry_nil)
qed

theorem go_map_history_witness:
  "mapGet (Some [(JStr [65], 1), (JObj 1 None Untyped (Some []), 2)]) (JObj 2 None Untyped (Some [])) (0 :: int) = (2, True)"
  using go_map_history [of "\<lambda>i. JObj i None Untyped (Some [])"
      "[Put (JStr [65]) 1, Put (JObj 1 None Untyped (Some [])) (2 :: int)]" "JObj 2 None Untyped (Some [])" 0]
  by (simp add: findMapEntry_def makeMap_def mapSet_def same_value_zero_def strict_eq_def
      string_match_def object_match_def go_key_eq_def) (elim conjE)

text \<open>A NaN key finds itself: in Go every write with a NaN key makes a new entry and none is
  ever found.\<close>

lemma nan_key_found:
  "mapGet (Some [(JNum NaN, 1)]) (JNum NaN) (0 :: int) = (1, True)"
  by (simp add: mapGet_def findMapEntry_def same_value_zero_def)

subsection \<open>sync.Map\<close>

text \<open>
  The methods of \<open>sync.Map\<close>, each the synchronous piece it runs once its \<open>RWMutex\<close> is held;
  \<open>CompareAndSwap\<close> does not take the lock. The state is the entry list of \<open>_data\<close>.
\<close>

definition sm_find :: "(jsv, jsv) table \<Rightarrow> jsv \<Rightarrow> (jsv \<times> jsv) option" where
  "sm_find d key =
     (case js_find d key of
        Some e \<Rightarrow> Some (key, snd e)
      | None \<Rightarrow> find (\<lambda>e. object_match (fst e) key) d)"

definition sm_Clear :: "(jsv, jsv) table \<Rightarrow> (jsv, jsv) table" where "sm_Clear d = []"

definition sm_Delete :: "jsv \<Rightarrow> (jsv, jsv) table \<Rightarrow> (jsv, jsv) table" where
  "sm_Delete key d = (case sm_find d key of Some e \<Rightarrow> js_delete d (fst e) | None \<Rightarrow> d)"

definition sm_CompareAndDelete :: "jsv \<Rightarrow> jsv \<Rightarrow> (jsv, jsv) table \<Rightarrow> (jsv, jsv) table \<times> bool" where
  "sm_CompareAndDelete key old d =
     (case sm_find d key of
        None \<Rightarrow> (d, False)
      | Some e \<Rightarrow> if \<not> comparableEqual (snd e) old then (d, False) else (js_delete d (fst e), True))"

definition sm_CompareAndSwap :: "jsv \<Rightarrow> jsv \<Rightarrow> jsv \<Rightarrow> (jsv, jsv) table \<Rightarrow> (jsv, jsv) table \<times> bool" where
  "sm_CompareAndSwap key old value d =
     (case sm_find d key of
        None \<Rightarrow> (d, False)
      | Some e \<Rightarrow> if \<not> comparableEqual (snd e) old then (d, False) else (js_set d (fst e) value, True))"

definition sm_Load :: "jsv \<Rightarrow> (jsv, jsv) table \<Rightarrow> jsv \<times> bool" where
  "sm_Load key d = (case sm_find d key of Some e \<Rightarrow> (snd e, True) | None \<Rightarrow> (Undef, False))"

definition sm_LoadAndDelete :: "jsv \<Rightarrow> (jsv, jsv) table \<Rightarrow> (jsv, jsv) table \<times> jsv \<times> bool" where
  "sm_LoadAndDelete key d =
     (case sm_find d key of
        None \<Rightarrow> (d, Undef, False)
      | Some e \<Rightarrow> (js_delete d (fst e), snd e, True))"

definition sm_LoadOrStore :: "jsv \<Rightarrow> jsv \<Rightarrow> (jsv, jsv) table \<Rightarrow> (jsv, jsv) table \<times> jsv \<times> bool" where
  "sm_LoadOrStore key value d =
     (case sm_find d key of
        Some e \<Rightarrow> (d, snd e, True)
      | None \<Rightarrow> (js_set d key value, value, False))"

definition sm_Store :: "jsv \<Rightarrow> jsv \<Rightarrow> (jsv, jsv) table \<Rightarrow> (jsv, jsv) table" where
  "sm_Store key value d = js_set d (case sm_find d key of Some e \<Rightarrow> fst e | None \<Rightarrow> key) value"

definition sm_Swap :: "jsv \<Rightarrow> jsv \<Rightarrow> (jsv, jsv) table \<Rightarrow> (jsv, jsv) table \<times> jsv \<times> bool" where
  "sm_Swap key value d =
     (js_set d key value, case js_find d key of Some e \<Rightarrow> (snd e, True) | None \<Rightarrow> (Undef, False))"

text \<open>The calls \<open>Range\<close> makes, on the entries it copied; \<open>f\<close> says whether to go on.\<close>

fun sm_Range :: "(jsv \<Rightarrow> jsv \<Rightarrow> bool) \<Rightarrow> (jsv, jsv) table \<Rightarrow> (jsv, jsv) table" where
  "sm_Range f [] = []"
| "sm_Range f ((k, v) # d) = (k, v) # (if f k v then sm_Range f d else [])"

definition sync_key_eq :: "jsv \<Rightarrow> jsv \<Rightarrow> bool" where
  "sync_key_eq a b \<longleftrightarrow> same_value_zero a b \<or> comparableEqual a b"

interpretation sync: map_keys "wf_value h" sync_key_eq for h
proof
  fix i j k
  show "same_value_zero j k \<longleftrightarrow> j = k" if "wf_value h j" "wf_value h k"
    using that by (rule same_value_zero_wf)
  show "sync_key_eq k k" if "wf_value h k" using that by (simp add: sync_key_eq_def same_value_zero_wf)
  show "sync_key_eq k j" if "wf_value h j" "wf_value h k" "sync_key_eq j k"
    using that comparableEqual_sym(1) [of h j k] by (auto simp: sync_key_eq_def same_value_zero_wf)
  show "sync_key_eq i k" if "wf_value h i" "wf_value h j" "wf_value h k" "sync_key_eq i j" "sync_key_eq j k"
    using that comparableEqual_trans(1) [of h i j k] by (auto simp: sync_key_eq_def same_value_zero_wf)
qed

lemma sm_find_table:
  assumes "table_ok (wf_value h) sync_key_eq d" "wf_value h k"
  shows "sm_find d k = al_find sync_key_eq d k"
proof (cases "js_find d k")
  case (Some e)
  then show ?thesis
    using sync.find_identical [OF assms Some] by (simp add: sm_find_def prod_eq_iff)
next
  case None
  then have "\<not> same_value_zero (fst p) k" if "p \<in> set d" for p
    using that al_find_None [of same_value_zero d k] by simp
  then have "al_find sync_key_eq d k = find (\<lambda>e. object_match (fst e) k) d"
    unfolding al_find_def
    by (intro find_cong_set) (auto simp: sync_key_eq_def object_match_def same_value_zero_def)
  then show ?thesis using None by (simp add: sm_find_def)
qed

lemma sm_writes:
  assumes "table_ok (wf_value h) sync_key_eq d" "wf_value h k"
  shows "sm_Store k v d = al_put sync_key_eq d k v" "sm_Delete k d = al_remove sync_key_eq d k"
  using sync.write_absent [OF assms] sync.write_found [OF assms]
  by (cases "al_find sync_key_eq d k";
      simp add: sm_Store_def sm_Delete_def sm_find_table [OF assms] al_remove_absent)+

text \<open>sync.Map refines a map up to sync_key_eq: on a table without equal keys, Load reads the
  map, Store and Delete update it at every equal key and keep the table free of equal keys,
  and the compound operations are the corresponding combinations of a load with a store or
  deletion, the comparing ones exactly when the present value is comparableEqual to old.\<close>

theorem sync_map_spec:
  assumes "table_ok (wf_value h) sync_key_eq d" "wf_value h k" "wf_value h k'"
  defines "look \<equiv> al_get sync_key_eq"
  shows "sm_Load k d = (case look d k of Some v \<Rightarrow> (v, True) | None \<Rightarrow> (Undef, False)) \<and>
    look (sm_Store k v d) k' = (if sync_key_eq k k' then Some v else look d k') \<and>
    look (sm_Delete k d) k' = (if sync_key_eq k k' then None else look d k') \<and>
    table_ok (wf_value h) sync_key_eq (sm_Store k v d) \<and>
    table_ok (wf_value h) sync_key_eq (sm_Delete k d) \<and>
    sm_LoadAndDelete k d = (sm_Delete k d, sm_Load k d) \<and>
    sm_LoadOrStore k v d = (case look d k of Some w \<Rightarrow> (d, w, True) | None \<Rightarrow> (sm_Store k v d, v, False)) \<and>
    sm_CompareAndSwap k old v d =
      (case look d k of
         Some w \<Rightarrow> if comparableEqual w old then (sm_Store k v d, True) else (d, False)
       | None \<Rightarrow> (d, False)) \<and>
    sm_CompareAndDelete k old d =
      (case look d k of
         Some w \<Rightarrow> if comparableEqual w old then (sm_Delete k d, True) else (d, False)
       | None \<Rightarrow> (d, False))"
proof -
  note t = assms(1,2)
  have "look (sm_Store k v d) k' = (if sync_key_eq k k' then Some v else look d k')"
    "look (sm_Delete k d) k' = (if sync_key_eq k k' then None else look d k')"
    unfolding look_def sm_writes [OF t] by (rule sync.get_put sync.get_remove; use assms in simp)+
  moreover have "table_ok (wf_value h) sync_key_eq (sm_Store k v d)"
    "table_ok (wf_value h) sync_key_eq (sm_Delete k d)"
    unfolding sm_writes [OF t] using t by (simp_all add: sync.put_ok sync.remove_ok)
  moreover note sm_find_table [OF t] sync.write_absent [OF t] sync.write_found [OF t]
  ultimately show ?thesis
    by (cases "al_find sync_key_eq d k")
      (simp_all add: look_def al_get_def sm_Load_def sm_LoadAndDelete_def sm_LoadOrStore_def
        sm_CompareAndSwap_def sm_CompareAndDelete_def sm_Store_def sm_Delete_def)
qed

theorem sync_map_spec_witness:
  "sm_Load (JStr [66]) [(JStr [65], Null), (JStr [66], JBool True)] = (JBool True, True)"
  using sync_map_spec [of "\<lambda>_. Null" "[(JStr [65], Null), (JStr [66], JBool True)]" "JStr [66]" "JStr [66]"]
  by (simp add: sync_key_eq_def same_value_zero_def strict_eq_def)

text \<open>\<open>Swap\<close> looks the key up without \<open>findEntry\<close>: swapping with an equal struct key reports
  nothing loaded and leaves two entries with equal keys.\<close>

lemma swap_duplicates_key:
  "case sm_Swap (JObj 2 None Untyped (Some [])) Null (sm_Store (JObj 1 None Untyped (Some [])) Undef []) of
     (d, loaded) \<Rightarrow> length d = 2 \<and> loaded = (Undef, False) \<and> sync_key_eq (fst (d ! 0)) (fst (d ! 1))"
  by (simp add: sm_Swap_def sm_Store_def sm_find_def same_value_zero_def strict_eq_def sync_key_eq_def)

end
