(* ===== verification/GsPath.thy ===== *)
theory GsPath
  imports GsString
begin

section \<open>Package path (gs/path/path.ts)\<close>

text \<open>
  A path is a JavaScript string; lengths and indices are those of its bytes
  (\<open>$.len\<close>, \<open>$.indexString\<close>), except where the source asks the string itself (\<open>lastIndexOf\<close>).
  47 is the slash, 46 the dot. The second part has the reference definition of \<open>Clean\<close>, on
  the list of path elements, and the proof that the byte loop implements it.
\<close>

abbreviation path_bytes :: "jstr \<Rightarrow> nat list" where "path_bytes p \<equiv> goStringBytes (JSString p)"

subsection \<open>lazybuf\<close>

text \<open>\<open>lb_buf\<close> is \<open>null\<close> as long as the output is a prefix of the input \<open>lb_s\<close>. A write past the end
  of the \<open>Uint8Array\<close> is ignored.\<close>

record lazybuf =
  lb_s :: jstr
  lb_buf :: "nat list option"
  lb_w :: nat

definition lb_index :: "lazybuf \<Rightarrow> nat \<Rightarrow> nat" where
  "lb_index b i = (case lb_buf b of Some buf \<Rightarrow> buf ! i | None \<Rightarrow> path_bytes (lb_s b) ! i)"

text \<open>A new buffer of the length of \<open>s\<close>, with the bytes of the prefix copied in.\<close>

definition lb_fresh :: "jstr \<Rightarrow> nat \<Rightarrow> nat list" where
  "lb_fresh s w =
     (let n = length (path_bytes s);
          old = take n (path_bytes (goStringFromBytes (take w (path_bytes s)))) in
      old @ replicate (n - length old) 0)"

definition lb_append :: "lazybuf \<Rightarrow> nat \<Rightarrow> lazybuf" where
  "lb_append b c =
     (case lb_buf b of
        None \<Rightarrow>
          if lb_w b < length (path_bytes (lb_s b)) \<and> path_bytes (lb_s b) ! lb_w b = c
          then b\<lparr>lb_w := Suc (lb_w b)\<rparr>
          else b\<lparr>lb_buf := Some ((lb_fresh (lb_s b) (lb_w b))[lb_w b := c]), lb_w := Suc (lb_w b)\<rparr>
      | Some buf \<Rightarrow> b\<lparr>lb_buf := Some (buf[lb_w b := c]), lb_w := Suc (lb_w b)\<rparr>)"

definition lb_string :: "lazybuf \<Rightarrow> jstr" where
  "lb_string b =
     (case lb_buf b of
        None \<Rightarrow> goStringFromBytes (take (lb_w b) (path_bytes (lb_s b)))
      | Some buf \<Rightarrow> goStringFromBytes (take (lb_w b) buf))"

subsection \<open>Clean\<close>

text \<open>Remove the last element: back to the previous slash, but not before \<open>dotdot\<close>.\<close>

fun lb_back_to :: "lazybuf \<Rightarrow> nat \<Rightarrow> nat \<Rightarrow> nat" where
  "lb_back_to b dotdot 0 = 0"
| "lb_back_to b dotdot (Suc w) =
     (if dotdot < Suc w \<and> lb_index b (Suc w) \<noteq> 47 then lb_back_to b dotdot w else Suc w)"

definition lb_back :: "lazybuf \<Rightarrow> nat \<Rightarrow> lazybuf" where
  "lb_back b dotdot = b\<lparr>lb_w := lb_back_to b dotdot (lb_w b - 1)\<rparr>"

text \<open>Copy an element: up to the next slash or the end.\<close>

function copy_element :: "nat list \<Rightarrow> nat \<Rightarrow> lazybuf \<Rightarrow> nat \<times> lazybuf" where
  "copy_element p r out =
     (if r < length p \<and> p ! r \<noteq> 47 then copy_element p (Suc r) (lb_append out (p ! r)) else (r, out))"
  by pat_completeness auto
termination
  by (relation "measure (\<lambda>(p, r, out). length p - r)") auto

declare copy_element.simps [simp del]

lemma copy_element_progress: "r \<le> fst (copy_element p r out)"
proof (induction p r out rule: copy_element.induct)
  case (1 p r out)
  then show ?case by (subst copy_element.simps) (use Suc_leD in force)
qed

lemma copy_element_moves: "r < length p \<Longrightarrow> p ! r \<noteq> 47 \<Longrightarrow> r < fst (copy_element p r out)"
  using copy_element_progress [of "Suc r" p "lb_append out (p ! r)"] by (subst copy_element.simps) simp

function clean_loop :: "bool \<Rightarrow> nat list \<Rightarrow> nat \<Rightarrow> lazybuf \<Rightarrow> nat \<Rightarrow> lazybuf" where
  "clean_loop rooted p r out dotdot =
     (if \<not> r < length p then out
      else if p ! r = 47 then clean_loop rooted p (r + 1) out dotdot
      else if p ! r = 46 \<and> (r + 1 = length p \<or> p ! (r + 1) = 47) then clean_loop rooted p (r + 1) out dotdot
      else if p ! r = 46 \<and> p ! (r + 1) = 46 \<and> (r + 2 = length p \<or> p ! (r + 2) = 47) then
        (if dotdot < lb_w out then clean_loop rooted p (r + 2) (lb_back out dotdot) dotdot
         else if \<not> rooted then
           (let out1 = (if 0 < lb_w out then lb_append out 47 else out);
                out2 = lb_append (lb_append out1 46) 46 in
            clean_loop rooted p (r + 2) out2 (lb_w out2))
         else clean_loop rooted p (r + 2) out dotdot)
      else
        (let out1 = (if rooted \<and> lb_w out \<noteq> 1 \<or> \<not> rooted \<and> lb_w out \<noteq> 0 then lb_append out 47 else out) in
         clean_loop rooted p (fst (copy_element p r out1)) (snd (copy_element p r out1)) dotdot))"
  by pat_completeness auto
termination
proof (relation "measure (\<lambda>(rooted, p, r, out, dotdot). length p - r)", goal_cases)
  case (7 rooted p r out dotdot out1)
  then show ?case using copy_element_moves [of r p out1] by simp
qed auto

declare clean_loop.simps [simp del]

definition Clean :: "jstr \<Rightarrow> jstr" where
  "Clean path =
     (if path = [] then [46]
      else
        (let p = path_bytes path; rooted = (p ! 0 = 47);
             out0 = \<lparr>lb_s = path, lb_buf = None, lb_w = 0\<rparr>;
             out = (if rooted then clean_loop rooted p 1 (lb_append out0 47) 1
                    else clean_loop rooted p 0 out0 0) in
         if lb_w out = 0 then [46] else lb_string out))"

subsection \<open>The buffer holds the bytes written\<close>

definition lb_bytes :: "lazybuf \<Rightarrow> nat list" where
  "lb_bytes b = (case lb_buf b of None \<Rightarrow> path_bytes (lb_s b) | Some buf \<Rightarrow> buf)"

definition lb_content :: "lazybuf \<Rightarrow> nat list" where "lb_content b = take (lb_w b) (lb_bytes b)"

definition lb_ok :: "jstr \<Rightarrow> lazybuf \<Rightarrow> bool" where
  "lb_ok s b \<longleftrightarrow> lb_s b = s \<and> lb_w b \<le> length (path_bytes s) \<and> length (lb_bytes b) = length (path_bytes s)"

text \<open>A path whose prefixes survive as strings, and with them the copy into a new buffer.\<close>

definition plain_path :: "jstr \<Rightarrow> bool" where
  "plain_path s \<longleftrightarrow> bytes_ok (path_bytes s) \<and> path_bytes s \<noteq> [] \<and>
     \<not> prefix bom (path_bytes s) \<and> \<not> prefix encoded_prefix (path_bytes s)"

lemma plain_prefix:
  assumes "plain_path s"
  shows "path_bytes (goStringFromBytes (take w (path_bytes s))) = take w (path_bytes s)"
proof (rule string_bytes_eq)
  show "bytes_ok (take w (path_bytes s))"
    using assms by (auto simp: plain_path_def bytes_ok_def dest: in_set_takeD)
  have "prefix x (path_bytes s)" if "prefix x (take w (path_bytes s))" for x
    using that take_is_prefix prefix_order.trans by blast
  then show "plain_bytes (take w (path_bytes s))"
    using assms by (auto simp: plain_path_def plain_bytes_def)
qed

lemma lb_fresh_prefix:
  assumes "plain_path s" "w \<le> length (path_bytes s)"
  shows "take w (lb_fresh s w) = take w (path_bytes s)" "length (lb_fresh s w) = length (path_bytes s)"
  using assms by (simp_all add: lb_fresh_def Let_def plain_prefix)

lemma lb_append_content:
  assumes "plain_path s" "lb_ok s b" "lb_w b < length (path_bytes s)"
  shows "lb_content (lb_append b c) = lb_content b @ [c]" "lb_ok s (lb_append b c)"
    "lb_w (lb_append b c) = Suc (lb_w b)"
  using assms lb_fresh_prefix [OF assms(1), of "lb_w b"]
  by (auto simp: lb_append_def lb_content_def lb_ok_def lb_bytes_def take_Suc_conv_app_nth
      split: option.splits)

lemma length_lb_content: "lb_ok s b \<Longrightarrow> length (lb_content b) = lb_w b"
  by (simp add: lb_content_def lb_ok_def)

lemma lb_index_bytes: "lb_index b i = lb_bytes b ! i"
  by (simp add: lb_index_def lb_bytes_def split: option.split)

lemma lb_shrink:
  "lb_ok s b \<Longrightarrow> w \<le> lb_w b \<Longrightarrow>
   lb_ok s (b\<lparr>lb_w := w\<rparr>) \<and> lb_content (b\<lparr>lb_w := w\<rparr>) = take w (lb_content b)"
  by (cases "lb_buf b") (simp_all add: lb_ok_def lb_content_def lb_bytes_def min_def)

text \<open>Going back stops in front of the last element.\<close>

lemma lb_back_to_stop:
  assumes "\<forall>i. stop < i \<and> i \<le> w \<longrightarrow> lb_index b i \<noteq> 47" "dotdot \<le> stop" "stop \<le> w"
    "dotdot = stop \<or> lb_index b stop = 47"
  shows "lb_back_to b dotdot w = stop"
  using assms
proof (induction w)
  case (Suc w)
  show ?case
  proof (cases "stop = Suc w")
    case False
    then have "stop \<le> w" using Suc.prems by simp
    with Suc show ?thesis by simp
  qed (use Suc.prems in auto)
qed simp

lemma lb_back_content:
  assumes "lb_ok s b" "lb_content b = R @ sep @ e" "e \<noteq> []" "47 \<notin> set e" "dotdot \<le> length R"
    "sep = [] \<and> dotdot = length R \<or> sep = [47]"
  shows "lb_content (lb_back b dotdot) = R" "lb_ok s (lb_back b dotdot)" "lb_w (lb_back b dotdot) = length R"
proof -
  have w: "lb_w b = length R + length sep + length e" using length_lb_content [OF assms(1)] assms(2) by simp
  have ix: "lb_index b i = (R @ sep @ e) ! i" if "i < lb_w b" for i
    using that assms(2) by (metis lb_content_def lb_index_bytes nth_take)
  have e: "(R @ sep @ e) ! i \<noteq> 47" if "length R + length sep \<le> i" "i < lb_w b" for i
  proof -
    have "(R @ sep @ e) ! i = e ! (i - (length R + length sep))"
      using that nth_append_right [of "R @ sep" i e] by simp
    moreover have "e ! (i - (length R + length sep)) \<in> set e" using that w by (intro nth_mem) simp
    ultimately show ?thesis using assms(4) by metis
  qed
  have "lb_back_to b dotdot (lb_w b - 1) = length R"
  proof (rule lb_back_to_stop)
    show "\<forall>i. length R < i \<and> i \<le> lb_w b - 1 \<longrightarrow> lb_index b i \<noteq> 47"
      using ix e assms(3,6) w by auto
    show "dotdot = length R \<or> lb_index b (length R) = 47"
      using ix [of "length R"] assms(3,6) w by auto
    show "length R \<le> lb_w b - 1" using assms(3) w by (cases e) simp_all
  qed (use assms(5) in simp)
  then show "lb_w (lb_back b dotdot) = length R" "lb_content (lb_back b dotdot) = R" "lb_ok s (lb_back b dotdot)"
    using lb_shrink [OF assms(1), of "length R"] assms(2) w by (simp_all add: lb_back_def)
qed

subsection \<open>The reference definition\<close>

text \<open>The elements of a path are what the slashes separate; empty elements and dots go, and a
  double dot takes the element before it away, unless there is none or it is a double dot
  itself. The stack has the last element first.\<close>

fun elements :: "nat list \<Rightarrow> nat list list" where
  "elements [] = [[]]"
| "elements (c # cs) =
     (if c = 47 then [] # elements cs
      else case elements cs of e # es \<Rightarrow> (c # e) # es | [] \<Rightarrow> [[c]])"

definition push_element :: "bool \<Rightarrow> nat list list \<Rightarrow> nat list \<Rightarrow> nat list list" where
  "push_element rooted st e =
     (if e = [] \<or> e = [46] then st
      else if e = [46, 46] then
        (case st of
           [] \<Rightarrow> if rooted then [] else [e]
         | t # below \<Rightarrow> if t = [46, 46] then e # st else below)
      else e # st)"

fun join_slash :: "nat list list \<Rightarrow> nat list" where
  "join_slash [] = []"
| "join_slash [e] = e"
| "join_slash (e # es) = e @ 47 # join_slash es"

definition clean_reference :: "nat list \<Rightarrow> nat list" where
  "clean_reference p =
     (let rooted = (p \<noteq> [] \<and> hd p = 47);
          st = foldl (push_element rooted) [] (elements p);
          body = join_slash (rev st) in
      if rooted then 47 # body else if body = [] then [46] else body)"

text \<open>The elements of what is left of the input.\<close>

lemma elements_nonempty: "elements p \<noteq> []"
  by (cases p) (auto split: list.split)

lemma elements_append:
  "47 \<notin> set e \<Longrightarrow> elements (e @ rest) = (e @ hd (elements rest)) # tl (elements rest)"
  by (induction e) (simp_all add: elements_nonempty)

lemma elements_boundary:
  assumes "47 \<notin> set e" "rest = [] \<or> hd rest = 47"
  shows "elements (e @ rest) = e # tl (elements rest)" "hd (elements rest) = []"
  using elements_append [OF assms(1), of rest] assms(2) by (cases rest; simp)+

lemma push_nothing [simp]: "push_element rooted st [] = st"
  by (simp add: push_element_def)

text \<open>At an element boundary the empty element in front of a slash does not matter.\<close>

definition clean_from :: "bool \<Rightarrow> nat list list \<Rightarrow> nat list \<Rightarrow> nat list list" where
  "clean_from rooted st p = foldl (push_element rooted) st (elements p)"

lemma clean_from_slash: "clean_from rooted st (47 # p) = clean_from rooted st p"
  by (simp add: clean_from_def)

lemma clean_from_element:
  assumes "47 \<notin> set e" "rest = [] \<or> hd rest = 47"
  shows "clean_from rooted st (e @ rest) = clean_from rooted (push_element rooted st e) rest"
proof -
  have "elements rest = [] # tl (elements rest)"
    using elements_boundary(2) [OF assms] elements_nonempty [of rest] by (metis list.collapse)
  then have "foldl (push_element rooted) st' (elements rest) = foldl (push_element rooted) st' (tl (elements rest))" for st'
    by (metis foldl_Cons push_nothing)
  then show ?thesis by (simp add: clean_from_def elements_boundary(1) [OF assms])
qed

text \<open>What the output holds for a stack: \<open>below\<close> are the double dots that must stay.\<close>

definition render :: "bool \<Rightarrow> nat list list \<Rightarrow> nat list" where
  "render rooted st = (if rooted then [47] else []) @ join_slash (rev st)"

lemma join_slash_snoc: "join_slash (es @ [e]) = (if es = [] then e else join_slash es @ 47 # e)"
  by (induction es rule: join_slash.induct) auto

lemma render_Nil: "render rooted [] = (if rooted then [47] else [])"
  by (simp add: render_def)

lemma render_Cons: "render rooted (e # st) = render rooted st @ (if st = [] then [] else [47]) @ e"
  by (simp add: render_def join_slash_snoc)

text \<open>A stack: names on top of double dots, which a rooted path does not have.\<close>

definition name_ok :: "nat list \<Rightarrow> bool" where
  "name_ok e \<longleftrightarrow> e \<noteq> [] \<and> 47 \<notin> set e \<and> e \<noteq> [46] \<and> e \<noteq> [46, 46]"

definition stack_ok :: "bool \<Rightarrow> nat list list \<Rightarrow> nat list list \<Rightarrow> bool" where
  "stack_ok rooted names ups \<longleftrightarrow> list_all name_ok names \<and> list_all (\<lambda>e. e = [46, 46]) ups \<and> (rooted \<longrightarrow> ups = [])"

lemma stack_ok_elements: "stack_ok rooted names ups \<Longrightarrow> e \<in> set (names @ ups) \<Longrightarrow> e \<noteq> [] \<and> 47 \<notin> set e"
proof -
  assume "stack_ok rooted names ups" "e \<in> set (names @ ups)"
  then have "name_ok e \<or> e = [46, 46]" unfolding stack_ok_def list_all_iff by auto
  then show "e \<noteq> [] \<and> 47 \<notin> set e" by (auto simp: name_ok_def)
qed

lemma render_length:
  "length (render rooted ups) \<le> length (render rooted (names @ ups))"
  by (induction names) (simp_all add: render_Cons)

lemma render_names:
  assumes "stack_ok rooted names ups"
  shows "length (render rooted ups) < length (render rooted (names @ ups)) \<longleftrightarrow> names \<noteq> []"
proof (cases names)
  case (Cons e es)
  then have "length (render rooted ups) \<le> length (render rooted (es @ ups))" "e \<noteq> []"
    using assms render_length [of rooted ups es] stack_ok_elements [OF assms, of e] by (auto simp: stack_ok_def)
  then show ?thesis using Cons by (simp add: render_Cons)
qed simp

lemma render_base:
  assumes "stack_ok rooted names ups"
  shows "length (render rooted (names @ ups)) = (if rooted then 1 else 0) \<longleftrightarrow> names @ ups = []"
proof (cases "names @ ups")
  case (Cons e st)
  then have "e \<noteq> []" using stack_ok_elements [OF assms, of e] by simp
  moreover have "length (if rooted then [47 :: nat] else []) \<le> length (render rooted st)" by (simp add: render_def)
  ultimately show ?thesis unfolding Cons render_Cons by (cases e) (auto split: if_splits)
qed (simp add: render_Nil)

subsection \<open>Clean is the reference\<close>

lemma element_split:
  assumes "r < length p" "p ! r \<noteq> 47"
  obtains e rest where "drop r p = e @ rest" "e \<noteq> []" "47 \<notin> set e" "rest = [] \<or> hd rest = 47"
proof
  let ?q = "drop r p"
  show "?q = takeWhile (\<lambda>c. c \<noteq> 47) ?q @ dropWhile (\<lambda>c. c \<noteq> 47) ?q" by simp
  have "hd ?q = p ! r" "?q \<noteq> []" using assms(1) by (simp_all add: hd_drop_conv_nth)
  then show "takeWhile (\<lambda>c. c \<noteq> 47) ?q \<noteq> []" using assms(2) by (cases ?q) simp_all
  show "47 \<notin> set (takeWhile (\<lambda>c. c \<noteq> 47) ?q)" using set_takeWhileD by fast
  show "dropWhile (\<lambda>c. c \<noteq> 47) ?q = [] \<or> hd (dropWhile (\<lambda>c. c \<noteq> 47) ?q) = 47"
    using hd_dropWhile by blast
qed

lemma drop_splits: "drop r p = e @ rest \<Longrightarrow> drop (r + length e) p = rest \<and> (e \<noteq> [] \<longrightarrow> r < length p \<and> r + length e \<le> length p)"
proof -
  assume a: "drop r p = e @ rest"
  then have "length p - r = length e + length rest" by (metis length_append length_drop)
  moreover have "drop (r + length e) p = drop (length e) (drop r p)" by (simp add: add.commute)
  ultimately show ?thesis using a by (cases e) (simp_all, arith)
qed

lemma copy_element_content:
  assumes "plain_path s" "drop r p = e @ rest" "47 \<notin> set e" "rest = [] \<or> hd rest = 47"
    "lb_ok s out" "lb_w out + length e \<le> length (path_bytes s)"
  shows "fst (copy_element p r out) = r + length e \<and> lb_ok s (snd (copy_element p r out)) \<and>
    lb_content (snd (copy_element p r out)) = lb_content out @ e \<and>
    lb_w (snd (copy_element p r out)) = lb_w out + length e"
  using assms(2-)
proof (induction e arbitrary: r out)
  case Nil
  then have "\<not> (r < length p \<and> p ! r \<noteq> 47)" by (auto simp: hd_drop_conv_nth [symmetric])
  then show ?case using Nil copy_element.simps [of p r out] by auto
next
  case (Cons c e)
  have r: "r < length p" "p ! r = c" "drop (Suc r) p = e @ rest"
    using Cons.prems(1) drop_splits [OF Cons.prems(1)]
    by (simp_all add: hd_drop_conv_nth [symmetric] drop_Suc tl_drop [symmetric])
  have a: "lb_ok s (lb_append out c)" "lb_content (lb_append out c) = lb_content out @ [c]"
    "lb_w (lb_append out c) = Suc (lb_w out)"
    using lb_append_content [OF assms(1) Cons.prems(4)] Cons.prems(5) by simp_all
  show ?case
    using Cons.IH [OF r(3) _ Cons.prems(3) a(1)] Cons.prems(2,5) a r
    by (simp add: copy_element.simps [of p r])
qed

definition clean_inv :: "jstr \<Rightarrow> bool \<Rightarrow> nat \<Rightarrow> lazybuf \<Rightarrow> nat \<Rightarrow> nat list list \<Rightarrow> nat list list \<Rightarrow> bool" where
  "clean_inv path rooted r out dotdot names ups \<longleftrightarrow>
     lb_ok path out \<and> lb_content out = render rooted (names @ ups) \<and> stack_ok rooted names ups \<and>
     dotdot = length (render rooted ups) \<and> r \<le> length (path_bytes path) \<and> lb_w out \<le> r \<and>
     (lb_w out < r \<or> r = length (path_bytes path) \<or> path_bytes path ! r = 47 \<or> names @ ups = [])"

lemma clean_inv_w: "clean_inv path rooted r out dotdot names ups \<Longrightarrow> lb_w out = length (render rooted (names @ ups))"
  by (metis clean_inv_def length_lb_content)

text \<open>The steps of the loop, one lemma for each.\<close>

lemma inv_skip:
  "clean_inv path rooted r out dotdot names ups \<Longrightarrow> r < r' \<Longrightarrow> r' \<le> length (path_bytes path) \<Longrightarrow>
   clean_inv path rooted r' out dotdot names ups"
  by (simp add: clean_inv_def)

lemma inv_pop:
  assumes "clean_inv path rooted r out dotdot (e # names) ups" "r < r'" "r' \<le> length (path_bytes path)"
  shows "clean_inv path rooted r' (lb_back out dotdot) dotdot names ups"
proof -
  have ok: "stack_ok rooted (e # names) ups" and d: "dotdot = length (render rooted ups)"
    and b: "lb_ok path out" and c: "lb_content out = render rooted (names @ ups) @ (if names @ ups = [] then [] else [47]) @ e"
    using assms(1) by (simp_all add: clean_inv_def render_Cons)
  have e: "e \<noteq> []" "47 \<notin> set e" using stack_ok_elements [OF ok, of e] by simp_all
  have "lb_content (lb_back out dotdot) = render rooted (names @ ups)" "lb_ok path (lb_back out dotdot)"
    "lb_w (lb_back out dotdot) = length (render rooted (names @ ups))"
    using lb_back_content [OF b c e] d render_length [of rooted ups names] by auto
  moreover have "length (render rooted (names @ ups)) \<le> lb_w out"
    using clean_inv_w [OF assms(1)] by (simp add: render_Cons)
  ultimately show ?thesis using assms ok d by (auto simp: clean_inv_def stack_ok_def)
qed

lemma inv_up:
  assumes "plain_path path" "clean_inv path False r out dotdot [] ups" "r + 2 \<le> length (path_bytes path)"
    "path_bytes path ! r \<noteq> 47" "r + 2 = length (path_bytes path) \<or> path_bytes path ! (r + 2) = 47"
  defines "out2 \<equiv> lb_append (lb_append (if 0 < lb_w out then lb_append out 47 else out) 46) 46"
  shows "clean_inv path False (r + 2) out2 (lb_w out2) [] ([46, 46] # ups)"
proof -
  have b: "lb_ok path out" "lb_content out = render False ups" and ok: "stack_ok False [] ups"
    using assms(2) by (simp_all add: clean_inv_def)
  have w: "lb_w out = length (render False ups)" using clean_inv_w [OF assms(2)] by simp
  have ups: "0 < lb_w out \<longleftrightarrow> ups \<noteq> []" using render_base [OF ok] w by auto
  have room: "lb_w out + (if ups = [] then 0 else 1) \<le> r"
    using assms(2-4) by (auto simp: clean_inv_def)
  define out1 where "out1 = (if 0 < lb_w out then lb_append out 47 else out)"
  have 1: "lb_ok path out1" "lb_content out1 = render False ups @ (if ups = [] then [] else [47])"
    "lb_w out1 = lb_w out + (if ups = [] then 0 else 1)"
    using lb_append_content [OF assms(1) b(1), of 47] b ups room assms(3) by (auto simp: out1_def)
  have 2: "lb_ok path (lb_append out1 46)" "lb_content (lb_append out1 46) = lb_content out1 @ [46]"
    "lb_w (lb_append out1 46) = Suc (lb_w out1)"
    using lb_append_content [OF assms(1) 1(1), of 46] 1(3) room assms(3) by auto
  have 3: "lb_ok path out2" "lb_content out2 = lb_content out1 @ [46, 46]" "lb_w out2 = Suc (Suc (lb_w out1))"
    using lb_append_content [OF assms(1) 2(1), of 46] 2 1(3) room assms(3) by (auto simp: out2_def out1_def)
  have c: "lb_content out2 = render False ([46, 46] # ups)" using 3(2) 1(2) by (simp add: render_Cons)
  have "stack_ok False [] ([46, 46] # ups)" using ok by (simp add: stack_ok_def)
  moreover have "lb_w out2 = length (render False ([46, 46] # ups))" using length_lb_content [OF 3(1)] c by simp
  ultimately show ?thesis
    using 3 c 1(3) room assms(3,5) by (auto simp: clean_inv_def split: if_splits)
qed

lemma inv_push:
  assumes "plain_path path" "clean_inv path rooted r out dotdot names ups"
    and d: "drop r (path_bytes path) = e @ rest" "rest = [] \<or> hd rest = 47" and e: "name_ok e"
  defines "out1 \<equiv> (if rooted \<and> lb_w out \<noteq> 1 \<or> \<not> rooted \<and> lb_w out \<noteq> 0 then lb_append out 47 else out)"
  shows "fst (copy_element (path_bytes path) r out1) = r + length e \<and>
    clean_inv path rooted (r + length e) (snd (copy_element (path_bytes path) r out1)) dotdot (e # names) ups"
proof -
  let ?st = "names @ ups"
  have b: "lb_ok path out" "lb_content out = render rooted ?st" and ok: "stack_ok rooted names ups"
    using assms(2) by (simp_all add: clean_inv_def)
  have e': "e \<noteq> []" "47 \<notin> set e" using e by (simp_all add: name_ok_def)
  have r: "r < length (path_bytes path)" "r + length e \<le> length (path_bytes path)"
    "drop (r + length e) (path_bytes path) = rest"
    using drop_splits [OF d(1)] e'(1) by auto
  have "path_bytes path ! r = hd e" using d(1) e'(1) r(1) by (simp add: hd_drop_conv_nth [symmetric])
  then have "path_bytes path ! r \<noteq> 47" using e' by (metis hd_in_set)
  then have room: "lb_w out + (if ?st = [] then 0 else 1) \<le> r"
    using assms(2) r(1) by (auto simp: clean_inv_def)
  have sep: "rooted \<and> lb_w out \<noteq> 1 \<or> \<not> rooted \<and> lb_w out \<noteq> 0 \<longleftrightarrow> ?st \<noteq> []"
    using render_base [OF ok] clean_inv_w [OF assms(2)] by (cases rooted) simp_all
  have 1: "lb_ok path out1" "lb_content out1 = render rooted ?st @ (if ?st = [] then [] else [47])"
    "lb_w out1 = lb_w out + (if ?st = [] then 0 else 1)"
    using lb_append_content [OF assms(1) b(1), of 47] b sep room r(1) unfolding out1_def by auto
  have 2: "fst (copy_element (path_bytes path) r out1) = r + length e"
    "lb_ok path (snd (copy_element (path_bytes path) r out1))"
    "lb_content (snd (copy_element (path_bytes path) r out1)) = lb_content out1 @ e"
    "lb_w (snd (copy_element (path_bytes path) r out1)) = lb_w out1 + length e"
    using copy_element_content [OF assms(1) d(1) e'(2) d(2) 1(1)] 1(3) room r(2) by auto
  have "r + length e = length (path_bytes path) \<or> path_bytes path ! (r + length e) = 47"
    using d(2) r(2,3) by (cases "r + length e < length (path_bytes path)") (auto simp: hd_drop_conv_nth)
  moreover have "stack_ok rooted (e # names) ups" using ok e by (simp add: stack_ok_def)
  ultimately show ?thesis
    using 2 1 room r(2) assms(2) by (auto simp: clean_inv_def render_Cons)
qed

text \<open>What each branch of the loop is looking at.\<close>

lemma element_at:
  assumes len: "r < length p" and slash: "p ! r \<noteq> 47"
  defines "dot \<equiv> p ! r = 46 \<and> (r + 1 = length p \<or> p ! (r + 1) = 47)"
    and "dots \<equiv> p ! r = 46 \<and> p ! (r + 1) = 46 \<and> (r + 2 = length p \<or> p ! (r + 2) = 47)"
  obtains e rest where "drop r p = e @ rest" "e \<noteq> []" "47 \<notin> set e" "rest = [] \<or> hd rest = 47"
    "drop (r + length e) p = rest" "r + length e \<le> length p"
    "r + length e = length p \<or> p ! (r + length e) = 47"
    "dot \<Longrightarrow> e = [46]" "\<not> dot \<Longrightarrow> dots \<Longrightarrow> e = [46, 46]" "\<not> dot \<Longrightarrow> \<not> dots \<Longrightarrow> name_ok e"
proof -
  obtain e rest where e: "drop r p = e @ rest" "e \<noteq> []" "47 \<notin> set e" "rest = [] \<or> hd rest = 47"
    using element_split [OF len slash] by blast
  have rest: "drop (r + length e) p = rest" "r + length e \<le> length p" using drop_splits [OF e(1)] e(2) by auto
  have at_end: "r + length e = length p \<or> p ! (r + length e) = 47"
    using rest e(4) by (cases "r + length e < length p") (auto simp: hd_drop_conv_nth)
  have inside: "p ! (r + i) = e ! i" if "i < length e" for i
    using that e(1) len by (metis nth_append nth_drop less_imp_le_nat)
  have stop: "length e \<le> i" if "r + i = length p \<or> p ! (r + i) = 47" for i
  proof (rule ccontr)
    assume "\<not> length e \<le> i"
    then have "p ! (r + i) \<in> set e" "r + i < length p" using inside [of i] rest(2) by auto
    then show False using that e(3) by auto
  qed
  have first: "e ! 0 = p ! r" "0 < length e" using inside [of 0] e(2) by auto
  have 1: "e = [46]" if dot
  proof -
    have "length e \<le> 1" using that stop [of 1] by (simp add: dot_def)
    then show ?thesis using that first by (cases e) (auto simp: dot_def)
  qed
  have 2: "e = [46, 46]" if "\<not> dot" dots
  proof -
    have "length e \<noteq> 1" using at_end that by (auto simp: dot_def dots_def)
    moreover have "length e \<le> 2" using that stop [of 2] by (simp add: dots_def)
    ultimately have l: "length e = 2" using first(2) by linarith
    then have "e ! 1 = 46" "e ! 0 = 46" using inside [of 1] first(1) that by (auto simp: dots_def)
    with l show ?thesis by (intro nth_equalityI) (auto simp: less_Suc_eq numeral_2_eq_2)
  qed
  have 3: "name_ok e" if "\<not> dot" "\<not> dots"
  proof -
    have "e \<noteq> [46]" using that(1) at_end first by (auto simp: dot_def)
    moreover have "e \<noteq> [46, 46]" using that(2) at_end inside [of 0] inside [of 1] by (auto simp: dots_def)
    ultimately show ?thesis using e(2,3) by (simp add: name_ok_def)
  qed
  show thesis by (rule that [OF e rest at_end 1 2 3])
qed

text \<open>The loop computes the stack of the reference.\<close>

definition clean_result :: "jstr \<Rightarrow> bool \<Rightarrow> nat list list \<Rightarrow> lazybuf \<Rightarrow> bool" where
  "clean_result path rooted st out \<longleftrightarrow>
     (\<exists>names ups. stack_ok rooted names ups \<and> names @ ups = st) \<and> lb_ok path out \<and> lb_content out = render rooted st"

lemma clean_loop_reference:
  assumes "plain_path path" "p = path_bytes path"
  shows "clean_inv path rooted r out dotdot names ups \<Longrightarrow>
    clean_result path rooted (clean_from rooted (names @ ups) (drop r p)) (clean_loop rooted p r out dotdot)"
  using assms(2)
proof (induction rooted p r out dotdot arbitrary: names ups rule: clean_loop.induct)
  case (1 rooted p r out dotdot)
  note loop = clean_loop.simps [of rooted p r out dotdot]
  note inv = "1.prems"(1)
  have p: "p = path_bytes path" by (rule "1.prems"(2))
  consider (stop) "\<not> r < length p" | (slash) "r < length p" "p ! r = 47" | (element) "r < length p" "p ! r \<noteq> 47" by blast
  then show ?case
  proof cases
    case stop
    then have "clean_loop rooted p r out dotdot = out" by (subst loop) simp
    then show ?thesis using inv stop by (auto simp: clean_inv_def clean_from_def clean_result_def)
  next
    case slash
    have d: "drop r p = 47 # drop (r + 1) p" using slash Cons_nth_drop_Suc [OF slash(1)] by simp
    have "clean_inv path rooted (r + 1) out dotdot names ups" using slash(1) p by (intro inv_skip [OF inv]) simp_all
    from "1.IH"(1) [OF _ slash(2) this p] show ?thesis
      unfolding d clean_from_slash using slash by (subst loop) simp
  next
    case element
    let ?dot = "p ! r = 46 \<and> (r + 1 = length p \<or> p ! (r + 1) = 47)"
    let ?dots = "p ! r = 46 \<and> p ! (r + 1) = 46 \<and> (r + 2 = length p \<or> p ! (r + 2) = 47)"
    obtain e rest where e: "drop r p = e @ rest" "e \<noteq> []" "47 \<notin> set e" "rest = [] \<or> hd rest = 47"
      and rest: "drop (r + length e) p = rest" "r + length e \<le> length p"
        "r + length e = length p \<or> p ! (r + length e) = 47"
      and e1: "?dot \<Longrightarrow> e = [46]" and e2: "\<not> ?dot \<Longrightarrow> ?dots \<Longrightarrow> e = [46, 46]"
      and e3: "\<not> ?dot \<Longrightarrow> \<not> ?dots \<Longrightarrow> name_ok e"
      using element_at [OF element] by blast
    have f: "clean_from rooted st (drop r p) = clean_from rooted (push_element rooted st e) rest" for st
      unfolding e(1) by (rule clean_from_element [OF e(3,4)])
    have ok: "stack_ok rooted names ups" and dd: "dotdot = length (render rooted ups)"
      using inv by (simp_all add: clean_inv_def)
    have pop: "dotdot < lb_w out \<longleftrightarrow> names \<noteq> []" using render_names [OF ok] clean_inv_w [OF inv] dd by simp
    consider (dot) ?dot | (dots) "\<not> ?dot" ?dots | (name) "\<not> ?dot" "\<not> ?dots" by blast
    then show ?thesis
    proof cases
      case dot
      have "clean_inv path rooted (r + 1) out dotdot names ups" using element(1) p by (intro inv_skip [OF inv]) simp_all
      from "1.IH"(2) [OF _ element(2) dot this p] element show ?thesis
        unfolding f using dot rest(1) e1 [OF dot] by (subst loop) (simp add: push_element_def)
    next
      case dots
      have r2: "r < r + 2" "r + 2 \<le> length (path_bytes path)" "drop (r + 2) p = rest"
        using rest e2 [OF dots] p by simp_all
      consider (pop) n ns where "names = n # ns" | (root) "names = []" rooted | (up) "names = []" "\<not> rooted"
        by (cases names) auto
      then show ?thesis
      proof cases
        case (pop n ns)
        then have push: "push_element rooted (names @ ups) e = ns @ ups"
          using ok e2 [OF dots] by (simp add: push_element_def stack_ok_def name_ok_def)
        have "clean_inv path rooted (r + 2) (lb_back out dotdot) dotdot ns ups"
          by (rule inv_pop [OF _ r2(1,2)]) (use inv pop in simp)
        from "1.IH"(3) [OF _ element(2) dots _ this p] element \<open>dotdot < lb_w out \<longleftrightarrow> names \<noteq> []\<close> pop show ?thesis
          unfolding f push using dots r2(3) by (subst loop) simp
      next
        case root
        then have push: "push_element rooted (names @ ups) e = names @ ups"
          using ok e2 [OF dots] by (simp add: push_element_def stack_ok_def)
        have "clean_inv path rooted (r + 2) out dotdot names ups" by (rule inv_skip [OF inv r2(1,2)])
        from "1.IH"(5) [OF _ element(2) dots _ _ this p] element pop root show ?thesis
          unfolding f push using dots r2(3) by (subst loop) simp
      next
        case up
        have push: "push_element rooted (names @ ups) e = [46, 46] # ups"
          using up ok e2 [OF dots] by (cases ups) (simp_all add: push_element_def stack_ok_def)
        define out2 where "out2 = lb_append (lb_append (if 0 < lb_w out then lb_append out 47 else out) 46) 46"
        have "clean_inv path rooted (r + 2) out2 (lb_w out2) [] ([46, 46] # ups)"
          using inv_up [of path r out dotdot ups] assms(1) inv up r2(2) element(2) dots p
          unfolding out2_def by simp
        from "1.IH"(4) [OF _ element(2) dots _ up(2) refl _ this p] element pop up show ?thesis
          unfolding f push using dots r2(3) by (subst loop) (simp add: Let_def out2_def)
      qed
    next
      case name
      then have push: "push_element rooted (names @ ups) e = (e # names) @ ups"
        using e3 by (simp add: push_element_def name_ok_def)
      define out1 where "out1 = (if rooted \<and> lb_w out \<noteq> 1 \<or> \<not> rooted \<and> lb_w out \<noteq> 0 then lb_append out 47 else out)"
      have c: "fst (copy_element p r out1) = r + length e"
        "clean_inv path rooted (fst (copy_element p r out1)) (snd (copy_element p r out1)) dotdot (e # names) ups"
        using inv_push [OF assms(1) inv _ e(4) e3 [OF name]] e(1) p unfolding out1_def by simp_all
      have step: "clean_loop rooted p r out dotdot =
          clean_loop rooted p (fst (copy_element p r out1)) (snd (copy_element p r out1)) dotdot"
        by (subst loop) (simp only: element name not_False_eq_True not_True_eq_False if_False if_True Let_def out1_def)
      from "1.IH"(6) [OF _ element(2) name out1_def c(2) p] element show ?thesis
        unfolding f push step c(1) rest(1) by simp
    qed
  qed
qed

lemma set_elements: "e \<in> set (elements p) \<Longrightarrow> set e \<subseteq> set p"
  by (induction p arbitrary: e) (fastforce split: if_splits list.splits)+

lemma set_push: "e' \<in> set (push_element rooted st e) \<Longrightarrow> e' = e \<or> e' \<in> set st"
  by (auto simp: push_element_def split: if_splits list.splits)

lemma set_clean: "e \<in> set (foldl (push_element rooted) st es) \<Longrightarrow> e \<in> set es \<or> e \<in> set st"
proof (induction es arbitrary: st)
  case (Cons a es)
  then show ?case using set_push by fastforce
qed simp

lemma set_join_slash: "set (join_slash es) \<subseteq> insert 47 (\<Union>e\<in>set es. set e)"
  by (induction es rule: join_slash.induct) auto

lemma clean_reference_bytes: "bytes_ok p \<Longrightarrow> bytes_ok (clean_reference p)"
proof -
  assume p: "bytes_ok p"
  have "\<forall>c\<in>set (join_slash (rev (foldl (push_element rooted) [] (elements p)))). c < 256" for rooted
  proof
    fix c assume "c \<in> set (join_slash (rev (foldl (push_element rooted) [] (elements p))))"
    then consider "c = 47" | e where "e \<in> set (elements p)" "c \<in> set e"
      using set_join_slash set_clean [of _ rooted "[]" "elements p"] by fastforce
    then show "c < 256" using p set_elements by cases (auto simp: bytes_ok_def)
  qed
  then show ?thesis by (simp add: clean_reference_def bytes_ok_def Let_def)
qed

lemma Clean_bytes:
  assumes "plain_path path" "plain_bytes (clean_reference (path_bytes path))"
  shows "path_bytes (Clean path) = clean_reference (path_bytes path)"
proof -
  let ?p = "path_bytes path"
  let ?rooted = "?p ! 0 = 47"
  define out0 where "out0 = \<lparr>lb_s = path, lb_buf = None, lb_w = 0\<rparr>"
  have ne: "path \<noteq> []" "?p \<noteq> []"
    using assms(1) by (auto simp: plain_path_def goStringBytes_def text_encode_def binary_prefix_def)
  have o: "lb_ok path out0" "lb_content out0 = []" "lb_w out0 = 0"
    by (simp_all add: out0_def lb_ok_def lb_content_def lb_bytes_def)
  define r where "r = (if ?rooted then 1 else 0 :: nat)"
  define out1 where "out1 = (if ?rooted then lb_append out0 47 else out0)"
  have inv: "clean_inv path ?rooted r out1 r [] []"
    using lb_append_content [OF assms(1) o(1), of 47] o ne
    by (auto simp: clean_inv_def stack_ok_def render_Nil r_def out1_def Suc_le_eq)
  define out where "out = clean_loop ?rooted ?p r out1 r"
  define st where "st = foldl (push_element ?rooted) [] (elements ?p)"
  have "clean_from ?rooted [] (drop r ?p) = st"
  proof (cases ?rooted)
    case True
    then have "?p = 47 # drop 1 ?p" using ne(2) by (cases ?p) simp_all
    then have "clean_from True [] ?p = clean_from True [] (drop 1 ?p)" by (metis clean_from_slash)
    then show ?thesis using True by (simp add: r_def clean_from_def st_def)
  qed (simp add: r_def clean_from_def st_def)
  then have res: "clean_result path ?rooted st out"
    using clean_loop_reference [OF assms(1) refl inv] by (simp add: out_def)
  then have c: "lb_content out = render ?rooted st" and "lb_ok path out" by (auto simp: clean_result_def)
  then have w: "lb_w out = length (render ?rooted st)" using length_lb_content by metis
  have ref: "clean_reference ?p = (if render ?rooted st = [] then [46] else render ?rooted st)"
    using ne(2) by (auto simp: clean_reference_def render_def st_def Let_def hd_conv_nth)
  have "Clean path = (if lb_w out = 0 then [46] else lb_string out)"
    using ne(1) by (simp add: Clean_def Let_def out_def out1_def r_def out0_def)
  also have "lb_string out = goStringFromBytes (lb_content out)"
    by (simp add: lb_string_def lb_content_def lb_bytes_def split: option.split)
  finally have "Clean path = (if render ?rooted st = [] then [46] else goStringFromBytes (render ?rooted st))"
    using c w by simp
  moreover have "path_bytes [46] = [46]"
    by (simp add: goStringBytes_def binary_prefix_def text_encode_def surrogate_def utf8_enc_def)
  moreover have "path_bytes (goStringFromBytes (clean_reference ?p)) = clean_reference ?p"
    using assms by (intro string_bytes_eq clean_reference_bytes) (simp_all add: plain_path_def)
  ultimately show ?thesis using ref by (cases "render ?rooted st = []") simp_all
qed

text \<open>What is left on the stack: names over double dots, which a rooted path does not have.\<close>

lemma elements_no_slash: "e \<in> set (elements p) \<Longrightarrow> 47 \<notin> set e"
  by (induction p arbitrary: e) (fastforce split: if_splits list.splits)+

lemma push_ok:
  assumes "stack_ok rooted names ups" "47 \<notin> set e"
  shows "\<exists>names' ups'. push_element rooted (names @ ups) e = names' @ ups' \<and> stack_ok rooted names' ups'"
proof -
  consider "e = [] \<or> e = [46]" | "e = [46, 46]" "names = []" | n ns where "e = [46, 46]" "names = n # ns" | "name_ok e"
    using assms(2) unfolding name_ok_def by (cases names) auto
  then show ?thesis
  proof cases
    case 1
    then show ?thesis using assms(1) by (auto simp: push_element_def)
  next
    case 2
    then have "push_element rooted (names @ ups) e = [] @ (if rooted then ups else e # ups)"
      using assms(1) by (auto simp: push_element_def stack_ok_def split: list.split)
    moreover have "stack_ok rooted [] (if rooted then ups else e # ups)" using 2 assms(1) by (simp add: stack_ok_def)
    ultimately show ?thesis by blast
  next
    case 3
    then have "push_element rooted (names @ ups) e = ns @ ups \<and> stack_ok rooted ns ups"
      using assms(1) by (auto simp: push_element_def stack_ok_def name_ok_def)
    then show ?thesis by blast
  next
    case 4
    then have "push_element rooted (names @ ups) e = (e # names) @ ups \<and> stack_ok rooted (e # names) ups"
      using assms(1) by (auto simp: push_element_def stack_ok_def name_ok_def)
    then show ?thesis by blast
  qed
qed

lemma clean_stack:
  "\<forall>e\<in>set es. 47 \<notin> set e \<Longrightarrow> stack_ok rooted names ups \<Longrightarrow>
   \<exists>names' ups'. foldl (push_element rooted) (names @ ups) es = names' @ ups' \<and> stack_ok rooted names' ups'"
proof (induction es arbitrary: names ups)
  case (Cons e es)
  obtain names' ups' where "push_element rooted (names @ ups) e = names' @ ups'" "stack_ok rooted names' ups'"
    using push_ok [OF Cons.prems(2), of e] Cons.prems(1) by auto
  then show ?case using Cons.IH [of names' ups'] Cons.prems(1) by simp
qed auto

text \<open>Go's conditions on a clean path: a dot, the root, or elements without empty ones and dots, in
  which double dots come first and only if the path is not rooted.\<close>

definition clean_path :: "nat list \<Rightarrow> bool" where
  "clean_path q \<longleftrightarrow> q = [46] \<or> q = [47] \<or>
     (\<exists>rooted n names. q = (if rooted then [47] else []) @ join_slash (replicate n [46, 46] @ names) \<and>
        list_all name_ok names \<and> 0 < n + length names \<and> (rooted \<longrightarrow> n = 0))"

lemma clean_reference_clean: "clean_path (clean_reference p)"
proof -
  define rooted where "rooted \<longleftrightarrow> p \<noteq> [] \<and> hd p = 47"
  have "\<forall>e\<in>set (elements p). 47 \<notin> set e" using elements_no_slash by blast
  then obtain names ups where st: "foldl (push_element rooted) [] (elements p) = names @ ups" "stack_ok rooted names ups"
    using clean_stack [of "elements p" rooted "[]" "[]"] by (auto simp: stack_ok_def)
  have ups: "rev ups = replicate (length ups) [46, 46]" "rooted \<longrightarrow> length ups = 0" and n: "list_all name_ok (rev names)"
    using st(2) by (auto simp: stack_ok_def list_all_iff intro!: replicate_eqI)
  have ref: "clean_reference p = (if rooted then 47 # join_slash (rev (names @ ups))
      else if join_slash (rev (names @ ups)) = [] then [46] else join_slash (rev (names @ ups)))"
    unfolding clean_reference_def Let_def rooted_def [symmetric] st(1) ..
  show ?thesis
  proof (cases "names @ ups = []")
    case True
    then show ?thesis by (simp add: ref clean_path_def)
  next
    case False
    then have "0 < length ups + length (rev names)" by (cases names; cases ups) simp_all
    then have "clean_path ((if rooted then [47] else []) @ join_slash (replicate (length ups) [46, 46] @ rev names))"
      unfolding clean_path_def using n ups(2) by blast
    moreover have "replicate (length ups) [46, 46] @ rev names = rev (names @ ups)"
      unfolding rev_append ups(1) [symmetric] ..
    moreover have "clean_path [46]" by (simp add: clean_path_def)
    ultimately show ?thesis unfolding ref by (cases rooted) simp_all
  qed
qed

text \<open>\<open>Join\<close> on its list of elements; \<open>buf\<close> is the array it pushes on.\<close>

fun join_parts :: "jstr list \<Rightarrow> jstr list \<Rightarrow> jstr list" where
  "join_parts buf [] = buf"
| "join_parts buf (e # es) =
     join_parts (if buf \<noteq> [] \<or> e \<noteq> [] then (if buf \<noteq> [] then buf @ [[47]] else buf) @ [e] else buf) es"

definition Join :: "jstr list \<Rightarrow> jstr" where
  "Join parts =
     (if sum_list (map (\<lambda>e. stringLen (JSString e)) parts) = 0 then []
      else Clean (concat (join_parts [] parts)))"

lemma join_parts_more: "buf \<noteq> [] \<Longrightarrow> concat (join_parts buf es) = concat buf @ concat (map (\<lambda>e. 47 # e) es)"
  by (induction es arbitrary: buf) simp_all

lemma join_slash_concat: "join_slash (e # es) = e @ concat (map (\<lambda>e. 47 # e) es)"
  by (induction es arbitrary: e) simp_all

lemma join_parts_slash: "concat (join_parts [] parts) = join_slash (dropWhile (\<lambda>e. e = []) parts)"
  by (induction parts) (simp_all add: join_parts_more join_slash_concat)

text \<open>C24. On a path that is not empty and does not begin with a byte order mark or the encoded marker,
  and whose normal form is not valid text beginning with one of these, Clean computes the reference:
  the loop over a lazily copied buffer yields the path whose elements are those left after dropping
  empty elements and dots and cancelling each double dot against the name before it; the result
  is clean in Go's sense. Clean of the empty path is a dot. Join of elements that are all empty is
  empty, and otherwise Clean of the elements from the first one that is not empty on, with
  slashes between them.\<close>

theorem Clean_reference:
  assumes "plain_path path" "plain_bytes (clean_reference (path_bytes path))"
  shows "path_bytes (Clean path) = clean_reference (path_bytes path) \<and> clean_path (path_bytes (Clean path)) \<and>
    Clean [] = [46] \<and>
    Join parts = (if list_all (\<lambda>e. stringLen (JSString e) = 0) parts then []
      else Clean (join_slash (dropWhile (\<lambda>e. e = []) parts)))"
proof -
  have "sum_list (map (\<lambda>e. stringLen (JSString e)) parts) = 0 \<longleftrightarrow> list_all (\<lambda>e. stringLen (JSString e) = 0) parts"
    by (induction parts) simp_all
  then show ?thesis
    using Clean_bytes [OF assms] clean_reference_clean [of "path_bytes path"] by (simp add: Join_def join_parts_slash Clean_def)
qed

theorem Clean_reference_witness:
  "path_bytes (Clean (map of_char ''/a/./b/../..//c'')) = map of_char ''/c''"
proof -
  have "path_bytes (map of_char ''/a/./b/../..//c'') = map of_char ''/a/./b/../..//c''"
    by (simp add: goStringBytes_def binary_prefix_def text_encode_def surrogate_def utf8_enc_def)
  moreover from this have "plain_path (map of_char ''/a/./b/../..//c'')"
    by (simp add: plain_path_def bytes_ok_def bom_def encoded_prefix_def)
  ultimately show ?thesis
    using Clean_reference [of "map of_char ''/a/./b/../..//c''"]
    by (simp add: clean_reference_def push_element_def plain_bytes_def bom_def encoded_prefix_def)
qed

subsection \<open>The other functions\<close>

text \<open>\<open>lastIndexOf('/')\<close> on the string: an index of UTF-16 units.\<close>

fun last_index :: "jstr \<Rightarrow> int" where
  "last_index [] = -1"
| "last_index (u # us) =
     (let i = last_index us in if 0 \<le> i then i + 1 else if u = 47 then 0 else -1)"

definition Split :: "jstr \<Rightarrow> jstr res \<times> jstr res" where
  "Split path =
     (let i = last_index path in
      (sliceString (JSString path) None (Some (i + 1)), sliceString (JSString path) (Some (i + 1)) None))"

definition Dir :: "jstr \<Rightarrow> jstr res" where
  "Dir path = bindR (fst (Split path)) (\<lambda>dir. Inr (Clean dir))"

fun ext_index :: "nat list \<Rightarrow> nat \<Rightarrow> nat option" where
  "ext_index p 0 = None"
| "ext_index p (Suc i) = (if p ! i = 47 then None else if p ! i = 46 then Some i else ext_index p i)"

definition Ext :: "jstr \<Rightarrow> jstr res" where
  "Ext path =
     (case ext_index (path_bytes path) (stringLen (JSString path)) of
        Some i \<Rightarrow> sliceString (JSString path) (Some (int i)) None
      | None \<Rightarrow> Inr [])"

text \<open>Stripping trailing slashes; every round removes a byte, so the length is fuel enough.\<close>

fun strip_slashes :: "nat \<Rightarrow> jstr \<Rightarrow> jstr res" where
  "strip_slashes 0 path = Inr path"
| "strip_slashes (Suc n) path =
     (let p = path_bytes path in
      if p \<noteq> [] \<and> last p = 47 then
        bindR (sliceString (JSString path) (Some 0) (Some (int (length p) - 1))) (strip_slashes n)
      else Inr path)"

definition Base :: "jstr \<Rightarrow> jstr res" where
  "Base path =
     (if path = [] then Inr [46]
      else bindR (strip_slashes (stringLen (JSString path)) path) (\<lambda>stripped.
        bindR (if 0 \<le> last_index stripped
               then sliceString (JSString stripped) (Some (last_index stripped + 1)) None
               else Inr stripped)
          (\<lambda>base. Inr (if base = [] then [47] else base))))"

definition IsAbs :: "jstr \<Rightarrow> bool" where
  "IsAbs path \<longleftrightarrow> 0 < stringLen (JSString path) \<and> path_bytes path ! 0 = 47"

subsection \<open>ASCII paths\<close>

abbreviation ascii :: "jstr \<Rightarrow> bool" where "ascii s \<equiv> list_all (\<lambda>u. u < 128) s"

lemma ascii_encodings:
  assumes "ascii s"
  shows "concat (map utf8_enc s) = s" "concat (map utf16_enc s) = s" "\<forall>c\<in>set s. scalar c"
  using assms by (induction s) (simp_all add: utf8_enc_def utf16_enc_def scalar_def surrogate_def)

lemma ascii_bytes [simp]:
  assumes "ascii s"
  shows "path_bytes s = s"
proof -
  have "\<not> prefix binary_prefix s" using assms by (auto simp: binary_prefix_def prefix_def)
  then show ?thesis
    using text_encode_encs [OF ascii_encodings(3) [OF assms]] ascii_encodings [OF assms]
    by (simp add: goStringBytes_def)
qed

lemma ascii_string [simp]:
  assumes "ascii s"
  shows "goStringFromBytes s = s"
proof -
  have "utf8_decode s = map Some s"
    using utf8_decode_enc [OF ascii_encodings(3) [OF assms]] ascii_encodings(1) [OF assms] by simp
  moreover have "strip_bom s = s" using assms by (auto simp: strip_bom_def bom_def prefix_def)
  ultimately show ?thesis
    using ascii_encodings(2) [OF assms]
    by (auto simp: goStringFromBytes_def text_decode_fatal_def text_of_Some Let_def)
qed

lemma ascii_slice:
  assumes "ascii s" "0 \<le> lo" "lo \<le> hi" "hi \<le> int (length s)"
  shows "sliceString (JSString s) (Some lo) (Some hi) = Inr (take (nat (hi - lo)) (drop (nat lo) s))"
    "sliceString (JSString s) None (Some hi) = Inr (take (nat hi) s)"
    "sliceString (JSString s) (Some lo) None = Inr (drop (nat lo) s)"
proof -
  have "ascii (take n (drop m s))" "ascii (take n s)" "ascii (drop m s)" for n m
    using assms(1) by (auto simp: list_all_iff dest: in_set_takeD in_set_dropD)
  then show "sliceString (JSString s) (Some lo) (Some hi) = Inr (take (nat (hi - lo)) (drop (nat lo) s))"
    "sliceString (JSString s) None (Some hi) = Inr (take (nat hi) s)"
    "sliceString (JSString s) (Some lo) None = Inr (drop (nat lo) s)"
    using assms by (simp_all add: sliceString_def Let_def nat_diff_distrib)
qed

lemma last_index_spec:
  "last_index s = -1 \<and> 47 \<notin> set s \<or>
   (\<exists>a b. s = a @ 47 # b \<and> 47 \<notin> set b \<and> last_index s = int (length a))"
proof (induction s)
  case (Cons u us)
  then show ?case
  proof (elim disjE exE conjE)
    fix a b assume "us = a @ 47 # b" "47 \<notin> set b" "last_index us = int (length a)"
    then show ?thesis by (intro disjI2 exI [of _ "u # a"] exI [of _ b]) (simp add: Let_def)
  qed (cases "u = 47"; force simp: Let_def)
qed simp

lemma elements_snoc: "47 \<notin> set b \<Longrightarrow> elements (a @ 47 # b) = elements a @ [b]"
proof (induction a)
  case Nil
  then show ?case using elements_append [of b "[]"] by simp
next
  case (Cons c a)
  then show ?case using elements_nonempty [of a] by (cases "elements a") simp_all
qed

lemma elements_name: "47 \<notin> set b \<Longrightarrow> elements b = [b]"
  using elements_append [of b "[]"] by simp

definition without_slashes :: "nat list \<Rightarrow> nat list" where
  "without_slashes s = rev (dropWhile (\<lambda>c. c = 47) (rev s))"

lemma strip_slashes_ascii:
  "ascii s \<Longrightarrow> length s \<le> n \<Longrightarrow> strip_slashes n s = Inr (without_slashes s)"
proof (induction n arbitrary: s)
  case (Suc n)
  show ?case
  proof (cases s rule: rev_cases)
    case (snoc a c)
    have "sliceString (JSString s) (Some 0) (Some (int (length a))) = Inr a"
      using ascii_slice(1) [OF Suc.prems(1), of 0 "int (length a)"] snoc by simp
    then show ?thesis using Suc snoc by (cases "c = 47") (simp_all add: without_slashes_def)
  qed (simp add: without_slashes_def)
qed (simp add: without_slashes_def)

lemma names_without_slashes:
  "filter (\<lambda>e. e \<noteq> []) (elements (without_slashes s)) = filter (\<lambda>e. e \<noteq> []) (elements s)"
proof (induction s rule: rev_induct)
  case (snoc c s)
  then show ?case using elements_snoc [of "[]" s] by (cases "c = 47") (simp_all add: without_slashes_def)
qed (simp add: without_slashes_def)

lemma ext_index_spec:
  "n \<le> length p \<Longrightarrow>
   (let t = takeWhile (\<lambda>c. c \<noteq> 47 \<and> c \<noteq> 46) (rev (take n p)) in
    ext_index p n = (if length t < n \<and> p ! (n - 1 - length t) = 46 then Some (n - 1 - length t) else None))"
proof (induction n)
  case (Suc n)
  have t: "rev (take (Suc n) p) = p ! n # rev (take n p)" using Suc.prems by (simp add: take_Suc_conv_app_nth)
  show ?case using Suc unfolding t by (simp add: Let_def)
qed simp

lemma Ext_ascii:
  assumes "ascii p"
  shows "\<exists>stem x. Ext p = Inr x \<and> p = stem @ x \<and>
    (if x = [] then 46 \<notin> set (takeWhile (\<lambda>c. c \<noteq> 47) (rev p))
     else hd x = 46 \<and> 46 \<notin> set (tl x) \<and> 47 \<notin> set (tl x))"
proof -
  let ?P = "\<lambda>c. c \<noteq> 47 \<and> c \<noteq> 46"
  define t where "t = takeWhile ?P (rev p)"
  define r where "r = dropWhile ?P (rev p)"
  have t: "t = takeWhile ?P (rev p)" "rev p = t @ r" "r = [] \<or> \<not> ?P (hd r)"
    using hd_dropWhile [of ?P "rev p"] unfolding t_def r_def by (simp, simp, blast)
  have no: "46 \<notin> set t" "47 \<notin> set t" unfolding t(1) using set_takeWhileD by fast+
  have p: "p = rev r @ rev t" using t(2) by (metis rev_append rev_rev_ident)
  have x: "ext_index p (length p) =
      (if length t < length p \<and> p ! (length p - 1 - length t) = 46 then Some (length p - 1 - length t) else None)"
    using ext_index_spec [of "length p" p] t(1) by (simp add: Let_def)
  have none: "Ext p = Inr []" if "ext_index p (length p) = None"
    using that assms by (simp add: Ext_def stringLen_def)
  show ?thesis
  proof (cases r)
    case Nil
    then have "46 \<notin> set (takeWhile (\<lambda>c. c \<noteq> 47) (rev p))" using t(2) no by (auto dest: set_takeWhileD)
    then show ?thesis using Nil p x none by auto
  next
    case (Cons c r')
    then have q: "p = rev r' @ c # rev t" "p ! (length p - 1 - length t) = c" "length p - 1 - length t = length r'"
      "c = 47 \<or> c = 46"
      using p t(3) by (simp_all add: nth_append)
    show ?thesis
    proof (cases "c = 46")
      case True
      then have "Ext p = Inr (drop (length r') p)"
        using x q(1-3) assms ascii_slice(3) [OF assms, of "int (length r')" "int (length p)"]
        by (simp add: Ext_def stringLen_def)
      then show ?thesis using q(1) True no by (intro exI [of _ "rev r'"] exI [of _ "46 # rev t"]) simp
    next
      case False
      have "takeWhile (\<lambda>c. c \<noteq> 47) (t @ 47 # r') = t" using no by (subst takeWhile_append2) auto
      with False have "46 \<notin> set (takeWhile (\<lambda>c. c \<noteq> 47) (rev p))" using q(1,4) no by auto
      then show ?thesis using x q False none by auto
    qed
  qed
qed

lemma Base_ascii:
  assumes "ascii p"
  shows "Base p = Inr (case filter (\<lambda>e. e \<noteq> []) (elements p) of [] \<Rightarrow> if p = [] then [46] else [47] | es \<Rightarrow> last es)"
proof (cases "p = []")
  case False
  let ?s = "without_slashes p"
  have strip: "strip_slashes (length p) p = Inr ?s" using strip_slashes_ascii [OF assms] by simp
  have s: "ascii ?s" using assms set_dropWhileD by (fastforce simp: without_slashes_def list_all_iff)
  have f: "filter (\<lambda>e. e \<noteq> []) (elements p) = filter (\<lambda>e. e \<noteq> []) (elements ?s)" by (simp add: names_without_slashes)
  have l: "last ?s \<noteq> 47" if "?s \<noteq> []"
    using that hd_dropWhile [of "\<lambda>c. c = 47" "rev p"] by (simp add: without_slashes_def last_rev)
  from last_index_spec [of ?s] show ?thesis
  proof (elim disjE exE conjE)
    assume i: "last_index ?s = -1" "47 \<notin> set ?s"
    then have "Base p = Inr (if ?s = [] then [47] else ?s)" using False strip assms by (simp add: Base_def stringLen_def)
    moreover have "elements ?s = [?s]" using elements_name [OF i(2)] .
    ultimately show ?thesis using False unfolding f by simp
  next
    fix a b assume i: "?s = a @ 47 # b" "47 \<notin> set b" "last_index ?s = int (length a)"
    then have b: "b \<noteq> []" using l by auto
    have "sliceString (JSString ?s) (Some (int (length a) + 1)) None = Inr b"
      using ascii_slice(3) [OF s, of "int (length a) + 1" "int (length ?s)"] i(1) by (simp add: nat_add_distrib)
    then have "Base p = Inr b" using False strip assms i(3) b by (simp add: Base_def stringLen_def)
    moreover have "elements ?s = elements a @ [b]" using elements_snoc [OF i(2)] i(1) by simp
    ultimately show ?thesis using b unfolding f by (cases "filter (\<lambda>e. e \<noteq> []) (elements a)") simp_all
  qed
qed (simp add: Base_def)

text \<open>The parts of an ASCII path: Split cuts after the final slash; Base is the last
  non-empty element, or a slash, or a dot for the empty path; Ext is the suffix of the final
  element from its last dot on; IsAbs tests the leading slash; Dir cleans the directory.\<close>

theorem path_parts:
  assumes "ascii p"
  shows "(\<exists>d f. Split p = (Inr d, Inr f) \<and> Dir p = Inr (Clean d) \<and> p = d @ f \<and> 47 \<notin> set f \<and> (d = [] \<or> last d = 47)) \<and>
    Base p = Inr (case filter (\<lambda>e. e \<noteq> []) (elements p) of [] \<Rightarrow> if p = [] then [46] else [47] | es \<Rightarrow> last es) \<and>
    (\<exists>stem x. Ext p = Inr x \<and> p = stem @ x \<and>
       (if x = [] then 46 \<notin> set (takeWhile (\<lambda>c. c \<noteq> 47) (rev p))
        else hd x = 46 \<and> 46 \<notin> set (tl x) \<and> 47 \<notin> set (tl x))) \<and>
    (IsAbs p \<longleftrightarrow> p \<noteq> [] \<and> hd p = 47)"
proof (intro conjI)
  show "IsAbs p \<longleftrightarrow> p \<noteq> [] \<and> hd p = 47"
    using assms by (auto simp: IsAbs_def stringLen_def hd_conv_nth)
  have b: "0 \<le> last_index p + 1" "last_index p + 1 \<le> int (length p)"
    using last_index_spec [of p] by auto
  have sp: "Split p = (Inr (take (nat (last_index p + 1)) p), Inr (drop (nat (last_index p + 1)) p))"
    using ascii_slice(2,3) [OF assms, of "last_index p + 1"] b by (simp add: Split_def Let_def)
  show "\<exists>d f. Split p = (Inr d, Inr f) \<and> Dir p = Inr (Clean d) \<and> p = d @ f \<and> 47 \<notin> set f \<and> (d = [] \<or> last d = 47)"
    using last_index_spec [of p] sp by (auto simp: Dir_def nat_add_distrib)
  show "\<exists>stem x. Ext p = Inr x \<and> p = stem @ x \<and>
       (if x = [] then 46 \<notin> set (takeWhile (\<lambda>c. c \<noteq> 47) (rev p))
        else hd x = 46 \<and> 46 \<notin> set (tl x) \<and> 47 \<notin> set (tl x))"
    by (rule Ext_ascii [OF assms])
  show "Base p = Inr (case filter (\<lambda>e. e \<noteq> []) (elements p) of [] \<Rightarrow> if p = [] then [46] else [47] | es \<Rightarrow> last es)"
    by (rule Base_ascii [OF assms])
qed

theorem path_parts_witness:
  "Base (map of_char ''/ab/c.d//'') = Inr (map of_char ''c.d'')"
  using path_parts [of "map of_char ''/ab/c.d//''"] by simp

text \<open>On other paths the parts are cut in the wrong place: \<open>lastIndexOf\<close> counts UTF-16 units
  and the slice counts bytes. Splitting an e with acute accent, a slash and an x keeps the
  slash in the file name.\<close>

lemma Split_not_ascii:
  "Split [0xE9, 47, 120] = (Inr [0xE9], Inr [47, 120])"
  by (simp add: Split_def Let_def sliceString_def goStringBytes_def binary_prefix_def text_encode_def
      surrogate_def utf8_enc_def goStringFromBytes_def text_decode_fatal_def strip_bom_def bom_def
      utf8_next_def utf8_rest_steps text_of_def utf16_enc_def)

end
