(* ===== verification/GsStrconv.thy ===== *)
theory GsStrconv
  imports GsNumber GsUtf8
begin

section \<open>Package strconv: integers and booleans (gs/strconv)\<close>

text \<open>
  A string is its list of UTF-16 units; characters are written as strings of HOL where the
  source has literals. A result is a value with an error or \<open>None\<close> for \<open>null\<close>.
\<close>

abbreviation str :: "string \<Rightarrow> jstr" where "str s \<equiv> map of_char s"

datatype num_reason = ErrRange | ErrSyntax | BadBase int | BadBitSize int

record num_error =
  ne_Func :: string
  ne_Num :: jstr
  ne_Err :: num_reason

definition syntaxError :: "string \<Rightarrow> jstr \<Rightarrow> num_error" where
  "syntaxError fn s = \<lparr>ne_Func = fn, ne_Num = s, ne_Err = ErrSyntax\<rparr>"

definition rangeError :: "string \<Rightarrow> jstr \<Rightarrow> num_error" where
  "rangeError fn s = \<lparr>ne_Func = fn, ne_Num = s, ne_Err = ErrRange\<rparr>"

definition baseError :: "string \<Rightarrow> jstr \<Rightarrow> int \<Rightarrow> num_error" where
  "baseError fn s base = \<lparr>ne_Func = fn, ne_Num = s, ne_Err = BadBase base\<rparr>"

definition bitSizeError :: "string \<Rightarrow> jstr \<Rightarrow> int \<Rightarrow> num_error" where
  "bitSizeError fn s bitSize = \<lparr>ne_Func = fn, ne_Num = s, ne_Err = BadBitSize bitSize\<rparr>"

text \<open>The first unit of \<open>toLowerCase\<close> of a character. Beside the capital letters of ASCII only the
  Kelvin sign U+212A and the dotted capital I U+0130 have a lower case that starts with an
  ASCII letter; for other characters the comparisons of the source only see that the result
  is not ASCII.\<close>

definition lower :: "nat \<Rightarrow> nat" where
  "lower c = (if 65 \<le> c \<and> c \<le> 90 then c + 32 else if c = 0x212A then 107 else if c = 0x130 then 105 else c)"

definition digitValue :: "nat \<Rightarrow> int" where
  "digitValue c =
     (if 48 \<le> c \<and> c \<le> 57 then int c - 48
      else let lc = lower c in if 97 \<le> lc \<and> lc \<le> 122 then int lc - 97 + 10 else 99)"

text \<open>\<open>toLowerCase() === 'b'\<close> and the like, on one unit: the two-unit lower case of U+0130 is not
  equal to a letter.\<close>

definition is_letter :: "nat \<Rightarrow> nat \<Rightarrow> bool" where
  "is_letter u letter \<longleftrightarrow> u \<noteq> 0x130 \<and> lower u = letter"

subsection \<open>underscoreOK\<close>

datatype saw = SawStart | SawDigit | SawUnderscore | SawOther

fun underscore_scan :: "bool \<Rightarrow> saw \<Rightarrow> jstr \<Rightarrow> bool" where
  "underscore_scan hex saw [] = (saw \<noteq> SawUnderscore)"
| "underscore_scan hex saw (c # s) =
     (if (48 \<le> c \<and> c \<le> 57) \<or> (hex \<and> 97 \<le> lower c \<and> lower c \<le> 102) then underscore_scan hex SawDigit s
      else if c = 95 then (if saw \<noteq> SawDigit then False else underscore_scan hex SawUnderscore s)
      else if saw = SawUnderscore then False else underscore_scan hex SawOther s)"

definition underscoreOK :: "jstr \<Rightarrow> bool" where
  "underscoreOK s0 =
     (let s = (if s0 \<noteq> [] \<and> (hd s0 = 45 \<or> hd s0 = 43) then tl s0 else s0) in
      if 2 \<le> length s \<and> s ! 0 = 48 \<and> (is_letter (s ! 1) 98 \<or> is_letter (s ! 1) 111 \<or> is_letter (s ! 1) 120)
      then underscore_scan (is_letter (s ! 1) 120) SawDigit (drop 2 s)
      else underscore_scan False SawStart s)"

subsection \<open>ParseUint, ParseInt, Atoi\<close>

definition infer_base :: "jstr \<Rightarrow> int \<times> jstr" where
  "infer_base s =
     (if 3 \<le> length s then
        (if s ! 0 = 48 then
           (if is_letter (s ! 1) 98 then (2, drop 2 s)
            else if is_letter (s ! 1) 111 then (8, drop 2 s)
            else if is_letter (s ! 1) 120 then (16, drop 2 s)
            else (8, drop 1 s))
         else (10, s))
      else if 2 \<le> length s \<and> s ! 0 = 48 then (8, drop 1 s)
      else (10, s))"

text \<open>The loop over the characters, from the value \<open>n\<close> read so far.\<close>

fun parse_digits :: "int \<Rightarrow> int \<Rightarrow> jstr \<Rightarrow> int \<Rightarrow> nat list \<Rightarrow> int \<times> num_error option" where
  "parse_digits base maxVal s0 n [] = (n, None)"
| "parse_digits base maxVal s0 n (ch # cs) =
     (let d = digitValue ch in
      if base \<le> d then (0, Some (syntaxError ''ParseUint'' s0))
      else let n' = n * base + d in
        if maxVal < n' then (maxVal, Some (rangeError ''ParseUint'' s0))
        else parse_digits base maxVal s0 n' cs)"

definition ParseUint :: "jstr \<Rightarrow> int \<Rightarrow> int \<Rightarrow> int \<times> num_error option" where
  "ParseUint s0 base0 bitSize0 =
     (if s0 = [] then (0, Some (syntaxError ''ParseUint'' s0))
      else if base0 < 0 \<or> base0 = 1 \<or> 36 < base0 then (0, Some (baseError ''ParseUint'' s0 base0))
      else
        let (base, s) = (if base0 = 0 then infer_base s0 else (base0, s0)) in
        if bitSize0 \<noteq> 0 \<and> (bitSize0 < 0 \<or> 64 < bitSize0) then (0, Some (bitSizeError ''ParseUint'' s0 bitSize0))
        else
          let bitSize = (if bitSize0 = 0 then 64 else bitSize0);
              under = (base0 = 0 \<and> 95 \<in> set s) in
          if under \<and> \<not> underscoreOK s0 then (0, Some (syntaxError ''ParseUint'' s0))
          else
            let digits = (if under then filter (\<lambda>u. u \<noteq> 95) s else s) in
            if digits = [] then (0, Some (syntaxError ''ParseUint'' s0))
            else parse_digits base (2 ^ nat bitSize - 1) s0 0 (code_points digits))"

text \<open>The end of \<open>ParseInt\<close>: the magnitude against the cutoff of the width.\<close>

definition clamp_int :: "jstr \<Rightarrow> bool \<Rightarrow> int \<Rightarrow> int \<Rightarrow> int \<times> num_error option" where
  "clamp_int s0 neg un bitSize0 =
     (let bitSize = (if bitSize0 = 0 then 64 else bitSize0); cutoff = 2 ^ nat (bitSize - 1) in
      if \<not> neg \<and> cutoff \<le> un then (cutoff - 1, Some (rangeError ''ParseInt'' s0))
      else if neg \<and> cutoff < un then (- cutoff, Some (rangeError ''ParseInt'' s0))
      else (if neg then - un else un, None))"

definition ParseInt :: "jstr \<Rightarrow> int \<Rightarrow> int \<Rightarrow> int \<times> num_error option" where
  "ParseInt s0 base bitSize0 =
     (if s0 = [] then (0, Some (syntaxError ''ParseInt'' s0))
      else
        let sign = (hd s0 = 43 \<or> hd s0 = 45); neg = (hd s0 = 45); s = (if sign then tl s0 else s0) in
        if s = [] then (0, Some (syntaxError ''ParseInt'' s0))
        else
          let (un, err) = ParseUint s base bitSize0 in
          case err of
            Some e \<Rightarrow>
              if ne_Err e \<noteq> ErrRange then (0, Some (e\<lparr>ne_Func := ''ParseInt'', ne_Num := s0\<rparr>))
              else clamp_int s0 neg un bitSize0
          | None \<Rightarrow> clamp_int s0 neg un bitSize0)"

definition Atoi :: "jstr \<Rightarrow> int \<times> num_error option" where
  "Atoi s = (case ParseInt s 10 0 of (i64, err) \<Rightarrow> (round53 i64, err))"

subsection \<open>Formatting\<close>

text \<open>\<open>toString(base)\<close> of a bigint.\<close>

function base_digits :: "nat \<Rightarrow> nat \<Rightarrow> nat list" where
  "base_digits b n = (if b < 2 \<or> n < b then [n] else base_digits b (n div b) @ [n mod b])"
  by pat_completeness auto
termination
  by (relation "measure snd") auto

declare base_digits.simps [simp del]

definition digit_char :: "nat \<Rightarrow> nat" where "digit_char d = (if d < 10 then 48 + d else 87 + d)"

definition bigint_string :: "nat \<Rightarrow> int \<Rightarrow> jstr" where
  "bigint_string b v = (if v < 0 then [45] else []) @ map digit_char (base_digits b (nat \<bar>v\<bar>))"

definition FormatInt :: "int \<Rightarrow> int \<Rightarrow> jstr res" where
  "FormatInt i base =
     (if base < 2 \<or> 36 < base then Inl (ThrownError ''FormatInt: illegal base'')
      else Inr (bigint_string (nat base) i))"

definition FormatUint :: "int \<Rightarrow> int \<Rightarrow> jstr res" where
  "FormatUint i base =
     (if base < 2 \<or> 36 < base then Inl (ThrownError ''FormatUint: illegal base'')
      else Inr (bigint_string (nat base) (asUintN 64 i)))"

definition Itoa :: "int \<Rightarrow> jstr res" where "Itoa i = FormatInt i 10"

subsection \<open>Booleans\<close>

definition ParseBool :: "jstr \<Rightarrow> bool \<times> num_error option" where
  "ParseBool s =
     (if s \<in> {str ''1'', str ''t'', str ''T'', str ''true'', str ''TRUE'', str ''True''} then (True, None)
      else if s \<in> {str ''0'', str ''f'', str ''F'', str ''false'', str ''FALSE'', str ''False''} then (False, None)
      else (False, Some (syntaxError ''ParseBool'' s)))"

definition FormatBool :: "bool \<Rightarrow> jstr" where
  "FormatBool b = (if b then str ''true'' else str ''false'')"

subsection \<open>The value of a digit string\<close>

definition digits_value :: "int \<Rightarrow> int \<Rightarrow> int list \<Rightarrow> int" where
  "digits_value base n ds = foldl (\<lambda>n d. n * base + d) n ds"

lemma digits_value_simps [simp]:
  "digits_value base n [] = n"
  "digits_value base n (d # ds) = digits_value base (n * base + d) ds"
  "digits_value base n (ds @ es) = digits_value base (digits_value base n ds) es"
  by (simp_all add: digits_value_def)

lemma digits_value_grows:
  assumes "1 \<le> base" "0 \<le> n" "list_all (\<lambda>d. 0 \<le> d) ds"
  shows "n \<le> digits_value base n ds"
  using assms(2,3)
proof (induction ds arbitrary: n)
  case (Cons d ds)
  have "n \<le> n * base + d" using Cons.prems assms(1) mult_left_mono [of 1 base n] by simp
  with Cons.IH [of "n * base + d"] Cons.prems show ?case by simp
qed simp

lemma digitValue_nonneg: "0 \<le> digitValue c"
  by (simp add: digitValue_def Let_def)

lemma parse_digits_valid:
  assumes "1 \<le> base" "0 \<le> n" "n \<le> maxVal" "list_all (\<lambda>c. digitValue c < base) cs"
  shows "parse_digits base maxVal s0 n cs =
    (let v = digits_value base n (map digitValue cs) in
     if v \<le> maxVal then (v, None) else (maxVal, Some (rangeError ''ParseUint'' s0)))"
  using assms(2-)
proof (induction cs arbitrary: n)
  case (Cons c cs)
  let ?n = "n * base + digitValue c"
  have n: "0 \<le> ?n" using Cons.prems(1) assms(1) digitValue_nonneg [of c] by simp
  have "list_all (\<lambda>d. 0 \<le> d) (map digitValue cs)" by (simp add: list_all_iff digitValue_nonneg)
  from digits_value_grows [OF assms(1) n this] show ?case
    using Cons n by (auto simp: Let_def)
qed (simp add: Let_def)

lemma ParseUint_valid:
  assumes "2 \<le> base" "base \<le> 36" "0 \<le> bitSize" "bitSize \<le> 64" "s \<noteq> []"
    "list_all (\<lambda>c. digitValue c < base) (code_points s)"
  shows "ParseUint s base bitSize =
    (let v = digits_value base 0 (map digitValue (code_points s));
         maxVal = 2 ^ nat (if bitSize = 0 then 64 else bitSize) - 1 in
     if v \<le> maxVal then (v, None) else (maxVal, Some (rangeError ''ParseUint'' s)))"
  using assms parse_digits_valid [of base 0 "2 ^ nat (if bitSize = 0 then 64 else bitSize) - 1" "code_points s" s]
  by (simp add: ParseUint_def Let_def)

lemma hd_code_points: "\<not> (0xD800 \<le> u \<and> u \<le> 0xDBFF) \<Longrightarrow> hd (code_points (u # us)) = u"
  by (simp add: code_points_plain)

lemma digits_unsigned:
  assumes "base \<le> 36" "s \<noteq> []" "list_all (\<lambda>c. digitValue c < base) (code_points s)"
  shows "hd s \<noteq> 43" "hd s \<noteq> 45"
proof -
  obtain u us where s: "s = u # us" using assms(2) by (cases s) auto
  have "\<not> (u = 43 \<or> u = 45)"
  proof
    assume u: "u = 43 \<or> u = 45"
    then have "code_points s = u # code_points us" using s by (auto intro!: code_points_plain)
    then have "digitValue u < base" using assms(3) by simp
    then show False using u assms(1) by (auto simp: digitValue_def lower_def Let_def)
  qed
  then show "hd s \<noteq> 43" "hd s \<noteq> 45" using s by auto
qed

lemma ParseInt_digits:
  assumes "2 \<le> base" "base \<le> 36" "0 \<le> bitSize" "bitSize \<le> 64" "bitSize \<noteq> 1" "ds \<noteq> []"
    "list_all (\<lambda>c. digitValue c < base) (code_points ds)" "sign = [] \<or> sign = [43] \<or> sign = [45]"
  defines "m \<equiv> digits_value base 0 (map digitValue (code_points ds))"
    and "cutoff \<equiv> (2 :: int) ^ (nat (if bitSize = 0 then 64 else bitSize) - 1)"
  shows "ParseInt (sign @ ds) base bitSize =
    (let v = (if sign = [45] then - m else m) in
     if v < - cutoff then (- cutoff, Some (rangeError ''ParseInt'' (sign @ ds)))
     else if cutoff \<le> v then (cutoff - 1, Some (rangeError ''ParseInt'' (sign @ ds)))
     else (v, None))"
proof -
  let ?w = "nat (if bitSize = 0 then 64 else bitSize)"
  let ?un = "if m \<le> 2 ^ ?w - 1 then m else 2 ^ ?w - 1"
  have u: "ParseUint ds base bitSize =
      (if m \<le> 2 ^ ?w - 1 then (m, None) else (2 ^ ?w - 1, Some (rangeError ''ParseUint'' ds)))"
    using ParseUint_valid [OF assms(1-4,6,7)] by (simp add: m_def Let_def)
  have m: "0 \<le> m"
    using digits_value_grows [of base 0 "map digitValue (code_points ds)"] assms(1)
    by (simp add: m_def list_all_iff digitValue_nonneg)
  have w: "2 \<le> ?w" using assms(3,5) by auto
  have c: "2 ^ ?w = 2 * cutoff" "2 \<le> cutoff"
  proof -
    have "?w = Suc (?w - 1)" using w by simp
    then show "2 ^ ?w = 2 * cutoff" unfolding cutoff_def by (metis power_Suc)
    show "2 \<le> cutoff" unfolding cutoff_def using power_increasing [of 1 "?w - 1" "2 :: int"] w by simp
  qed
  have k: "2 ^ nat ((if bitSize = 0 then 64 else bitSize) - 1) = cutoff"
    unfolding cutoff_def using assms(3) by (simp add: nat_diff_distrib)
  have h: "hd ds \<noteq> 43" "hd ds \<noteq> 45" using digits_unsigned [OF assms(2,6,7)] by simp_all
  have "ParseInt (sign @ ds) base bitSize = clamp_int (sign @ ds) (sign = [45]) ?un bitSize"
    using assms(6,8) h u by (auto simp: ParseInt_def Let_def rangeError_def)
  also have "\<dots> = (let v = (if sign = [45] then - m else m) in
     if v < - cutoff then (- cutoff, Some (rangeError ''ParseInt'' (sign @ ds)))
     else if cutoff \<le> v then (cutoff - 1, Some (rangeError ''ParseInt'' (sign @ ds)))
     else (v, None))"
    unfolding clamp_int_def Let_def k using m c by (auto simp: not_le)
  finally show ?thesis .
qed



subsection \<open>Formatting and parsing are inverse\<close>

lemma base_digits_props:
  assumes "2 \<le> b"
  shows "base_digits b n \<noteq> [] \<and> list_all (\<lambda>d. d < b) (base_digits b n) \<and>
    digits_value (int b) 0 (map int (base_digits b n)) = int n"
  using assms
proof (induction b n rule: base_digits.induct)
  case (1 b n)
  have "int (n div b) * int b + int (n mod b) = int n"
    by (metis div_mult_mod_eq of_nat_add of_nat_mult)
  with 1 show ?case by (subst (1 2 3) base_digits.simps) simp
qed

lemma digit_char_value: "d < 36 \<Longrightarrow> digitValue (digit_char d) = int d \<and> digit_char d < 0xD800"
  by (auto simp: digit_char_def digitValue_def lower_def Let_def)

lemma code_points_units: "list_all (\<lambda>u. u < 0xD800) s \<Longrightarrow> code_points s = s"
  by (induction s) (simp_all add: code_points_plain)

lemma digit_string:
  fixes b n :: nat
  assumes "2 \<le> b" "b \<le> 36"
  defines "s \<equiv> map digit_char (base_digits b n)"
  shows "s \<noteq> []" "list_all (\<lambda>c. digitValue c < int b) (code_points s)"
    "digits_value (int b) 0 (map digitValue (code_points s)) = int n"
proof -
  have d: "list_all (\<lambda>d. d < b) (base_digits b n)" "base_digits b n \<noteq> []"
    "digits_value (int b) 0 (map int (base_digits b n)) = int n"
    using base_digits_props [OF assms(1)] by blast+
  have v: "digitValue (digit_char d) = int d \<and> digit_char d < 0xD800" if "d \<in> set (base_digits b n)" for d
    using that d(1) assms(2) by (intro digit_char_value) (auto simp: list_all_iff)
  then have c: "code_points s = s" unfolding s_def by (intro code_points_units) (simp add: list_all_iff)
  have "map digitValue s = map int (base_digits b n)" unfolding s_def using v by simp
  then show "digits_value (int b) 0 (map digitValue (code_points s)) = int n" using c d(3) by simp
  show "list_all (\<lambda>c. digitValue c < int b) (code_points s)"
    using v d(1) c by (auto simp: s_def list_all_iff)
  show "s \<noteq> []" using d(2) by (simp add: s_def)
qed

text \<open>Round trips: in a base from 2 to 36, parsing what FormatInt makes of an int64, or
  FormatUint of any integer, gives the integer, respectively its value modulo 2^64; in any
  other base both throw; ParseBool reads FormatBool back.\<close>

theorem format_parse:
  assumes "2 \<le> base" "base \<le> 36" "- (2 ^ 63) \<le> i" "i < 2 ^ 63" "b < 2 \<or> 36 < b"
  shows "bindR (FormatInt i base) (\<lambda>s. Inr (ParseInt s base 64)) = Inr (i, None) \<and>
    bindR (FormatUint j base) (\<lambda>s. Inr (ParseUint s base 64)) = Inr (j mod 2 ^ 64, None) \<and>
    FormatInt i b = Inl (ThrownError ''FormatInt: illegal base'') \<and>
    FormatUint i b = Inl (ThrownError ''FormatUint: illegal base'') \<and>
    ParseBool (FormatBool t) = (t, None)"
proof (intro conjI)
  have b: "2 \<le> nat base" "nat base \<le> 36" "int (nat base) = base" using assms(1,2) by simp_all
  let ?ds = "map digit_char (base_digits (nat base) (nat \<bar>i\<bar>))"
  have ds: "?ds \<noteq> []" "list_all (\<lambda>c. digitValue c < base) (code_points ?ds)"
    "digits_value base 0 (map digitValue (code_points ?ds)) = \<bar>i\<bar>"
    using digit_string [OF b(1,2), of "nat \<bar>i\<bar>"] b(3) by simp_all
  have f: "FormatInt i base = Inr ((if i < 0 then [45] else []) @ ?ds)"
    using assms(1,2) by (simp add: FormatInt_def bigint_string_def)
  show "bindR (FormatInt i base) (\<lambda>s. Inr (ParseInt s base 64)) = Inr (i, None)"
    unfolding f bindR.simps
    using ParseInt_digits [OF assms(1,2) _ _ _ ds(1,2), of 64 "if i < 0 then [45] else []"] ds(3) assms(3,4)
    by (auto simp: Let_def split: if_splits)
  let ?u = "map digit_char (base_digits (nat base) (nat (j mod 2 ^ 64)))"
  have us: "?u \<noteq> []" "list_all (\<lambda>c. digitValue c < base) (code_points ?u)"
    "digits_value base 0 (map digitValue (code_points ?u)) = j mod 2 ^ 64"
    using digit_string [OF b(1,2), of "nat (j mod 2 ^ 64)"] b(3) by simp_all
  have g: "FormatUint j base = Inr ?u"
    using assms(1,2) by (simp add: FormatUint_def bigint_string_def asUintN_def)
  have "j mod 2 ^ 64 \<le> 2 ^ 64 - 1" using pos_mod_bound [of "2 ^ 64" j] by simp
  then show "bindR (FormatUint j base) (\<lambda>s. Inr (ParseUint s base 64)) = Inr (j mod 2 ^ 64, None)"
    unfolding g bindR.simps using ParseUint_valid [OF assms(1,2) _ _ us(1,2), of 64] us(3) by (simp add: Let_def)
  show "FormatInt i b = Inl (ThrownError ''FormatInt: illegal base'')"
    "FormatUint i b = Inl (ThrownError ''FormatUint: illegal base'')"
    using assms(5) by (auto simp: FormatInt_def FormatUint_def)
  show "ParseBool (FormatBool t) = (t, None)" by (cases t) (simp_all add: ParseBool_def FormatBool_def)
qed

theorem format_parse_witness:
  "bindR (FormatInt (-255) 16) (\<lambda>s. Inr (ParseInt s 16 64)) = Inr (-255, None)"
  using format_parse [of 16 "-255" 1] by simp

text \<open>Characters that are not ASCII but have a lower case starting with an ASCII letter are taken
  for digits: the Kelvin sign is 20 in base 36 (Go: a syntax error). With base 0, a misplaced
  underscore is reported before the range (Go reports the range error it meets first).\<close>

lemma kelvin_is_a_digit: "ParseUint [0x212A] 36 64 = (20, None)"
  by (simp add: ParseUint_def digitValue_def lower_def Let_def)

end
