(* ===== verification/GsSort.thy ===== *)
theory GsSort
  imports GsString GsNumber "HOL-Library.Multiset" "HOL-Library.List_Lexorder" "HOL-Library.Product_Lexorder"
begin

section \<open>Package sort (gs/sort)\<close>

text \<open>
  The sort of a slice by a callback (slice.gs.ts), the sort of an \<open>Interface\<close> by swaps
  (sort.gs.ts) and binary search (search.gs.ts). The callbacks are functions; where they may
  be asynchronous the source awaits each call before the next one.
\<close>

subsection \<open>sort.Slice: a merge sort of the indices\<close>

text \<open>The inner loop of the insertion sort: shift greater entries right, from position \<open>j\<close> down.\<close>

fun insert_shift :: "(nat \<Rightarrow> nat \<Rightarrow> bool) \<Rightarrow> nat \<Rightarrow> nat \<Rightarrow> nat list \<Rightarrow> nat \<Rightarrow> nat list \<times> nat" where
  "insert_shift lt lo value indices 0 = (indices, 0)"
| "insert_shift lt lo value indices (Suc j) =
     (if lo < Suc j \<and> lt value (indices ! j)
      then insert_shift lt lo value (indices[Suc j := indices ! j]) j
      else (indices, Suc j))"

definition insert_entry :: "(nat \<Rightarrow> nat \<Rightarrow> bool) \<Rightarrow> nat \<Rightarrow> nat \<Rightarrow> nat list \<Rightarrow> nat list" where
  "insert_entry lt lo i indices =
     (let value = indices ! i; (shifted, j) = insert_shift lt lo value indices i in shifted[j := value])"

text \<open>The merge of two sorted ranges, and the copy back.\<close>

function merge_ranges ::
  "(nat \<Rightarrow> nat \<Rightarrow> bool) \<Rightarrow> nat list \<Rightarrow> nat \<Rightarrow> nat \<Rightarrow> nat \<Rightarrow> nat \<Rightarrow> nat list \<Rightarrow> nat list" where
  "merge_ranges lt indices left mid right hi merged =
     (if left < mid \<and> right < hi then
        (if lt (indices ! right) (indices ! left)
         then merge_ranges lt indices left mid (right + 1) hi (merged @ [indices ! right])
         else merge_ranges lt indices (left + 1) mid right hi (merged @ [indices ! left]))
      else merged @ map (nth indices) [left..<mid] @ map (nth indices) [right..<hi])"
  by pat_completeness auto
termination
  by (relation "measure (\<lambda>(lt, indices, left, mid, right, hi, merged). (mid - left) + (hi - right))") auto

declare merge_ranges.simps [simp del]

definition copy_back :: "nat \<Rightarrow> nat list \<Rightarrow> nat list \<Rightarrow> nat list" where
  "copy_back lo merged indices = fold (\<lambda>i indices. indices[lo + i := merged ! i]) [0..<length merged] indices"

function sortIndexRange :: "(nat \<Rightarrow> nat \<Rightarrow> bool) \<Rightarrow> nat \<Rightarrow> nat \<Rightarrow> nat list \<Rightarrow> nat list" where
  "sortIndexRange lt lo hi indices =
     (if hi - lo \<le> 16 then fold (insert_entry lt lo) [lo + 1..<hi] indices
      else
        let mid = lo + (hi - lo) div 2;
            indices1 = sortIndexRange lt lo mid indices;
            indices2 = sortIndexRange lt mid hi indices1 in
        copy_back lo (merge_ranges lt indices2 lo mid mid hi []) indices2)"
  by pat_completeness auto
termination
  by (relation "measure (\<lambda>(lt, lo, hi, indices). hi - lo)") auto

declare sortIndexRange.simps [simp del]

definition sortedIndices :: "nat \<Rightarrow> (nat \<Rightarrow> nat \<Rightarrow> bool) \<Rightarrow> nat list" where
  "sortedIndices n lt = sortIndexRange lt 0 n [0..<n]"

text \<open>The elements of the slice after \<open>Slice\<close> (and \<open>SliceStable\<close>, which calls it).\<close>

definition sort_Slice :: "'a list \<Rightarrow> (nat \<Rightarrow> nat \<Rightarrow> bool) \<Rightarrow> 'a list" where
  "sort_Slice x lt =
     (let result = map (nth x) (sortedIndices (length x) lt) in
      fold (\<lambda>i x. x[i := result ! i]) [0..<length result] x)"

text \<open>\<open>SliceIsSorted\<close>, and the same loop of \<open>IsSorted\<close>: neighbours from the end down.\<close>

fun neighbours_ok :: "(nat \<Rightarrow> nat \<Rightarrow> bool) \<Rightarrow> nat \<Rightarrow> bool" where
  "neighbours_ok lt 0 = True"
| "neighbours_ok lt (Suc i) = (if i = 0 then True else if lt i (i - 1) then False else neighbours_ok lt i)"

definition SliceIsSorted :: "nat \<Rightarrow> (nat \<Rightarrow> nat \<Rightarrow> bool) \<Rightarrow> bool" where
  "SliceIsSorted n lt = neighbours_ok lt n"

subsection \<open>The range sort is a stable sort\<close>

text \<open>Insertion from the right, on lists.\<close>

definition rinsert :: "('a \<Rightarrow> 'a \<Rightarrow> bool) \<Rightarrow> 'a \<Rightarrow> 'a list \<Rightarrow> 'a list" where
  "rinsert lt v B =
     (let Q = takeWhile (lt v) (rev B) in take (length B - length Q) B @ v # rev Q)"

lemma rinsert_snoc:
  "rinsert lt v (B @ [b]) = (if lt v b then rinsert lt v B @ [b] else B @ [b, v])"
  by (simp add: rinsert_def Let_def)

lemma insert_shift_lists:
  "length A = lo \<Longrightarrow>
   (case insert_shift lt lo v (A @ B @ x # C) (lo + length B) of (indices, j) \<Rightarrow> indices[j := v]) =
   A @ rinsert lt v B @ C"
proof (induction B arbitrary: x C rule: rev_induct)
  case Nil
  then show ?case by (cases lo) (simp_all add: rinsert_def list_update_append)
next
  case (snoc b B)
  have n: "(A @ (B @ [b]) @ x # C) ! (lo + length B) = b"
    using snoc.prems by (simp add: nth_append)
  have u: "(A @ (B @ [b]) @ x # C)[Suc (lo + length B) := b] = A @ B @ b # b # C"
    using snoc.prems by (simp add: list_update_append)
  show ?case
  proof (cases "lt v b")
    case True
    with snoc.IH [OF snoc.prems, of b "b # C"] n u show ?thesis by (simp add: rinsert_snoc)
  next
    case False
    have "(A @ (B @ [b]) @ x # C)[Suc (lo + length B) := v] = A @ (B @ [b]) @ v # C"
      using snoc.prems by (simp add: list_update_append)
    with False n show ?thesis by (simp add: rinsert_snoc)
  qed
qed

lemma insert_entry_lists:
  assumes "length A = lo"
  shows "insert_entry lt lo (lo + length B) (A @ B @ v # C) = A @ rinsert lt v B @ C"
proof -
  have "(A @ B @ v # C) ! (lo + length B) = v" using assms by (simp add: nth_append)
  then show ?thesis
    using insert_shift_lists [where lt = lt and v = v and B = B and x = v and C = C, OF assms] by (simp add: insert_entry_def Let_def)
qed

text \<open>From here on the callback compares by a key.\<close>

definition by_key :: "('a \<Rightarrow> 'k :: linorder) \<Rightarrow> 'a \<Rightarrow> 'a \<Rightarrow> bool" where "by_key f i j \<longleftrightarrow> f i < f j"

lemma rinsert_parts:
  "sorted (map f S) \<Longrightarrow> \<exists>P Q. S = P @ Q \<and> rinsert (by_key f) v S = P @ v # Q \<and>
    (\<forall>p\<in>set P. f p \<le> f v) \<and> (\<forall>q\<in>set Q. f v < f q)"
proof (induction S rule: rev_induct)
  case Nil
  then show ?case by (simp add: rinsert_def)
next
  case (snoc b S)
  show ?case
  proof (cases "f v < f b")
    case True
    from snoc obtain P Q where "S = P @ Q" "rinsert (by_key f) v S = P @ v # Q"
      "\<forall>p\<in>set P. f p \<le> f v" "\<forall>q\<in>set Q. f v < f q" by (auto simp: sorted_append)
    moreover have "rinsert (by_key f) v (S @ [b]) = rinsert (by_key f) v S @ [b]"
      using True by (simp add: rinsert_snoc by_key_def)
    ultimately have "S @ [b] = P @ (Q @ [b]) \<and> rinsert (by_key f) v (S @ [b]) = P @ v # (Q @ [b]) \<and>
      (\<forall>p\<in>set P. f p \<le> f v) \<and> (\<forall>q\<in>set (Q @ [b]). f v < f q)"
      using True by simp
    then show ?thesis by blast
  next
    case False
    then have "\<forall>p\<in>set (S @ [b]). f p \<le> f v" using snoc.prems by (fastforce simp: sorted_append)
    with False have "S @ [b] = (S @ [b]) @ [] \<and> rinsert (by_key f) v (S @ [b]) = (S @ [b]) @ v # [] \<and>
      (\<forall>p\<in>set (S @ [b]). f p \<le> f v) \<and> (\<forall>q\<in>set []. f v < f q)"
      by (simp add: rinsert_snoc by_key_def)
    then show ?thesis by blast
  qed
qed

lemma stable: "filter (\<lambda>x. k = f x) (sort_key f xs) = filter (\<lambda>x. k = f x) xs"
  unfolding eq_commute [of k] by (rule sort_key_stable)

lemma rinsert_sort: "rinsert (by_key f) v (sort_key f B) = sort_key f (B @ [v])"
proof -
  obtain P Q where s: "sort_key f B = P @ Q" "rinsert (by_key f) v (sort_key f B) = P @ v # Q"
    "\<forall>p\<in>set P. f p \<le> f v" "\<forall>q\<in>set Q. f v < f q"
    using rinsert_parts [of f "sort_key f B" v] by auto
  have "sort_key f (B @ [v]) = P @ v # Q"
  proof (rule properties_for_sort_key)
    have "mset (P @ Q) = mset B" by (metis mset_sort s(1))
    then show "mset (P @ v # Q) = mset (B @ [v])" by simp
    have "sorted (map f (P @ Q))" by (metis s(1) sorted_sort_key)
    then show "sorted (map f (P @ v # Q))" using s(3,4) by (auto simp: sorted_append intro: less_imp_le)
    fix k
    have "filter (\<lambda>x. f k = f x) (P @ Q) = filter (\<lambda>x. f k = f x) B"
      unfolding s(1) [symmetric] by (rule stable)
    moreover have "filter (\<lambda>x. f k = f x) Q = []" if "f k = f v" using that s(4) by (auto simp: filter_empty_conv)
    ultimately show "filter (\<lambda>x. f k = f x) (P @ v # Q) = filter (\<lambda>x. f k = f x) (B @ [v])" by auto
  qed
  then show ?thesis using s(2) by simp
qed

fun lmerge :: "('a \<Rightarrow> 'a \<Rightarrow> bool) \<Rightarrow> 'a list \<Rightarrow> 'a list \<Rightarrow> 'a list" where
  "lmerge lt (l # L) (r # R) = (if lt r l then r # lmerge lt (l # L) R else l # lmerge lt L (r # R))"
| "lmerge lt L R = L @ R"

lemma lmerge_set: "mset (lmerge lt L R) = mset L + mset R"
  by (induction lt L R rule: lmerge.induct) auto

lemma lmerge_props:
  "sorted (map f L) \<Longrightarrow> sorted (map f R) \<Longrightarrow>
    sorted (map f (lmerge (by_key f) L R)) \<and>
    filter (\<lambda>x. k = f x) (lmerge (by_key f) L R) = filter (\<lambda>x. k = f x) L @ filter (\<lambda>x. k = f x) R"
proof (induction "by_key f" L R rule: lmerge.induct)
  case (1 l L r R)
  have s: "set (lmerge (by_key f) xs ys) = set xs \<union> set ys" for xs ys
    using lmerge_set by (metis set_mset_mset set_mset_union)
  show ?case
  proof (cases "f r < f l")
    case True
    have "f r < f x" if "x \<in> set (l # L)" for x using that True 1(3) by auto
    then have "filter (\<lambda>x. k = f x) (l # L) = []" if "k = f r" using that by (force simp: filter_empty_conv)
    then show ?thesis using 1 True by (auto simp: by_key_def s)
  next
    case False
    then show ?thesis using 1 by (auto simp: by_key_def s)
  qed
qed auto

lemma lmerge_sort: "lmerge (by_key f) (sort_key f xs) (sort_key f ys) = sort_key f (xs @ ys)"
proof (rule properties_for_sort_key [symmetric])
  show "mset (lmerge (by_key f) (sort_key f xs) (sort_key f ys)) = mset (xs @ ys)" by (simp add: lmerge_set)
  show "sorted (map f (lmerge (by_key f) (sort_key f xs) (sort_key f ys)))" by (simp add: lmerge_props)
  show "filter (\<lambda>x. f k = f x) (lmerge (by_key f) (sort_key f xs) (sort_key f ys)) =
      filter (\<lambda>x. f k = f x) (xs @ ys)" for k
    by (simp add: lmerge_props stable)
qed

text \<open>The array code computes these.\<close>

lemma insertion_range:
  assumes "length A = lo"
  shows "fold (insert_entry (by_key f) lo) [lo + length B..<lo + length B + length C] (A @ sort_key f B @ C @ D) =
    A @ sort_key f (B @ C) @ D"
proof (induction C arbitrary: B)
  case (Cons v C)
  have "[lo + length B..<lo + length B + length (v # C)] =
      (lo + length B) # [lo + length (B @ [v])..<lo + length (B @ [v]) + length C]"
    by (simp add: upt_conv_Cons del: upt_Suc)
  moreover have "insert_entry (by_key f) lo (lo + length B) (A @ sort_key f B @ (v # C) @ D) =
      A @ sort_key f (B @ [v]) @ C @ D"
    using insert_entry_lists [OF assms, of "by_key f" "sort_key f B" v "C @ D"] by (simp add: rinsert_sort)
  ultimately show ?case using Cons.IH [of "B @ [v]"] by simp
qed simp

lemma map_nth_range: "map (nth (A @ B @ C)) [length A..<length A + length B] = B"
  by (rule nth_equalityI) (simp_all add: nth_append)

lemma merge_ranges_rest:
  assumes "length A = left" "mid = left + length L" "length M = right - mid" "mid \<le> right" "hi = right + length R"
    "indices = A @ L @ M @ R @ D" "L = [] \<or> R = []"
  shows "merge_ranges lt indices left mid right hi merged = merged @ L @ R"
  using assms map_nth_range [of "A @ L @ M" R D] map_nth_range [of A L "M @ R @ D"]
  by (subst merge_ranges.simps) auto

lemma merge_ranges_lists:
  assumes "length A = left" "mid = left + length L" "length M = right - mid" "mid \<le> right" "hi = right + length R"
    "indices = A @ L @ M @ R @ D"
  shows "merge_ranges lt indices left mid right hi merged = merged @ lmerge lt L R"
  using assms
proof (induction lt L R arbitrary: A M left right merged rule: lmerge.induct)
  case (1 lt l L r R)
  have "indices = A @ l # (L @ M @ r # R @ D)" "indices = (A @ (l # L) @ M) @ r # (R @ D)"
    "length (A @ (l # L) @ M) = right" using "1.prems" by simp_all
  then have n: "indices ! left = l" "indices ! right = r"
    using "1.prems"(1) by (metis nth_append_length)+
  show ?case
  proof (cases "lt r l")
    case True
    have "merge_ranges lt indices left mid (right + 1) hi (merged @ [r]) = (merged @ [r]) @ lmerge lt (l # L) R"
      by (rule "1.IH"(1) [OF True, where A = A and M = "M @ [r]"]) (use "1.prems" in simp_all)
    then show ?thesis using n True "1.prems"(2,5) by (subst merge_ranges.simps) simp
  next
    case False
    have "merge_ranges lt indices (left + 1) mid right hi (merged @ [l]) = (merged @ [l]) @ lmerge lt L (r # R)"
      by (rule "1.IH"(2) [OF False, where A = "A @ [l]" and M = M]) (use "1.prems" in simp_all)
    then show ?thesis using n False "1.prems"(2,5) by (subst merge_ranges.simps) simp
  qed
next
  case "2_1"
  then show ?case using merge_ranges_rest [where L = "[]"] by simp
next
  case "2_2"
  then show ?case using merge_ranges_rest [where R = "[]"] by simp
qed

lemma fold_writes:
  "length m + lo \<le> length xs \<Longrightarrow>
   fold (\<lambda>i xs. xs[lo + i := m ! i]) [0..<length m] xs = take lo xs @ m @ drop (lo + length m) xs"
proof (induction m rule: rev_induct)
  case (snoc v m)
  have "fold (\<lambda>i xs. xs[lo + i := (m @ [v]) ! i]) [0..<length m] xs =
      fold (\<lambda>i xs. xs[lo + i := m ! i]) [0..<length m] xs"
    by (intro fold_cong refl) (simp add: nth_append)
  also have "\<dots> = take lo xs @ m @ drop (lo + length m) xs" using snoc by simp
  finally have "fold (\<lambda>i xs. xs[lo + i := (m @ [v]) ! i]) [0..<length (m @ [v])] xs =
      (take lo xs @ m @ drop (lo + length m) xs)[lo + length m := v]" by simp
  also have "\<dots> = take lo xs @ (m @ [v]) @ drop (lo + length (m @ [v])) xs"
    using snoc.prems Cons_nth_drop_Suc [of "lo + length m" xs, symmetric] by (simp add: list_update_append)
  finally show ?case .
qed simp

lemma copy_back_lists:
  "length A = lo \<Longrightarrow> length m = length B \<Longrightarrow> copy_back lo m (A @ B @ C) = A @ m @ C"
  using fold_writes [of m lo "A @ B @ C"] by (simp add: copy_back_def)

lemma sortIndexRange_lists:
  "length A = lo \<Longrightarrow> hi = lo + length B \<Longrightarrow>
   sortIndexRange (by_key f) lo hi (A @ B @ C) = A @ sort_key f B @ C"
proof (induction "by_key f" lo hi "A @ B @ C" arbitrary: A B C rule: sortIndexRange.induct)
  case (1 lo hi)
  show ?case
  proof (cases "hi - lo \<le> 16")
    case True
    show ?thesis
    proof (cases B)
      case Nil
      then show ?thesis using "1.prems" by (subst sortIndexRange.simps) simp
    next
      case (Cons b B')
      then show ?thesis
        using True "1.prems" insertion_range [where B = "[b]" and C = B' and D = C and f = f, OF "1.prems"(1)]
        by (subst sortIndexRange.simps) simp
    qed
  next
    case False
    define mid where "mid = lo + (hi - lo) div 2"
    let ?L = "take (mid - lo) B"
    let ?R = "drop (mid - lo) B"
    have m: "lo < mid" "mid < hi" using False by (auto simp: mid_def)
    have B: "A @ ?L @ ?R @ C = A @ B @ C" by (metis append_assoc append_take_drop_id)
    have "sortIndexRange (by_key f) lo mid (A @ ?L @ ?R @ C) = A @ sort_key f ?L @ ?R @ C"
      by (rule "1.hyps"(1) [OF False mid_def]) (use B "1.prems" m in simp_all)
    then have 1: "sortIndexRange (by_key f) lo mid (A @ B @ C) = A @ sort_key f ?L @ ?R @ C" using B by metis
    have 2: "sortIndexRange (by_key f) mid hi ((A @ sort_key f ?L) @ ?R @ C) = (A @ sort_key f ?L) @ sort_key f ?R @ C"
      by (rule "1.hyps"(2) [OF False mid_def]) (use 1 "1.prems" m in simp_all)
    have 3: "merge_ranges (by_key f) (A @ sort_key f ?L @ [] @ sort_key f ?R @ C) lo mid mid hi [] = [] @ sort_key f (?L @ ?R)"
      unfolding lmerge_sort [symmetric] by (rule merge_ranges_lists [where A = A and M = "[]" and D = C]) (use "1.prems" m in simp_all)
    have "copy_back lo (sort_key f B) (A @ (sort_key f ?L @ sort_key f ?R) @ C) = A @ sort_key f B @ C"
      by (rule copy_back_lists) (use "1.prems" in simp_all)
    then show ?thesis
      using False 1 2 3 by (subst sortIndexRange.simps) (simp add: Let_def mid_def [symmetric])
  qed
qed

lemma sort_key_map: "sort_key f (map g xs) = map g (sort_key (\<lambda>i. f (g i)) xs)"
proof -
  have "insort_key f (g x) (map g ys) = map g (insort_key (\<lambda>i. f (g i)) x ys)" for x ys
    by (induction ys) simp_all
  then show ?thesis by (induction xs) simp_all
qed

lemma neighbours_sorted:
  "n \<le> length x \<Longrightarrow> neighbours_ok (\<lambda>i j. (f (x ! i) :: 'b :: linorder) < f (x ! j)) n \<longleftrightarrow> sorted (map f (take n x))"
proof (induction n)
  case (Suc n)
  show ?case
  proof (cases n)
    case 0
    then show ?thesis using Suc.prems by (cases x) simp_all
  next
    case (Suc m)
    have "take (Suc n) x = take m x @ [x ! m, x ! n]" "take n x = take m x @ [x ! m]"
      using \<open>Suc n \<le> length x\<close> Suc by (simp_all add: take_Suc_conv_app_nth)
    moreover have "sorted (ys @ [a, b]) \<longleftrightarrow> sorted (ys @ [a]) \<and> a \<le> b" for ys and a b :: 'b
      by (auto simp: sorted_append)
    ultimately show ?thesis using Suc.IH Suc.prems Suc by (simp add: not_less) (meson not_le)
  qed
qed simp

text \<open>C21. Slice and SliceStable sort stably: with a callback that compares elements by a key, the
  slice ends as the stable sort of its elements by that key, whatever its length;
  SliceIsSorted decides whether a slice is sorted.\<close>

theorem Slice_is_stable_sort:
  "sort_Slice x (\<lambda>i j. f (x ! i) < f (x ! j)) = sort_key f x \<and>
   (SliceIsSorted (length x) (\<lambda>i j. f (x ! i) < f (x ! j)) \<longleftrightarrow> sorted (map f x))"
proof -
  have "(\<lambda>i j. f (x ! i) < f (x ! j)) = by_key (\<lambda>i. f (x ! i))" by (simp add: by_key_def fun_eq_iff)
  then have "sortedIndices (length x) (\<lambda>i j. f (x ! i) < f (x ! j)) = sort_key (\<lambda>i. f (x ! i)) [0..<length x]"
    using sortIndexRange_lists [of "[]" 0 "length x" "[0..<length x]" "\<lambda>i. f (x ! i)" "[]"]
    by (simp add: sortedIndices_def)
  then have i: "map (nth x) (sortedIndices (length x) (\<lambda>i j. f (x ! i) < f (x ! j))) = sort_key f x"
    using sort_key_map [of f "nth x" "[0..<length x]"] by (simp add: map_nth)
  have "sort_Slice x (\<lambda>i j. f (x ! i) < f (x ! j)) = sort_key f x"
    using fold_writes [of "sort_key f x" 0 x] unfolding sort_Slice_def i Let_def by simp
  then show ?thesis using neighbours_sorted [of "length x" x f] by (simp add: SliceIsSorted_def)
qed

subsection \<open>Sorting an Interface\<close>

text \<open>\<open>Sort\<close> calls \<open>Len\<close> once and then \<open>Less\<close> and \<open>Swap\<close>; the state of the data is \<open>'d\<close>.\<close>

fun sift_down :: "('d \<Rightarrow> nat \<Rightarrow> nat \<Rightarrow> bool) \<Rightarrow> ('d \<Rightarrow> nat \<Rightarrow> nat \<Rightarrow> 'd) \<Rightarrow> nat \<Rightarrow> 'd \<Rightarrow> 'd" where
  "sift_down Less Swap 0 d = d"
| "sift_down Less Swap (Suc j) d =
     (if Less d (Suc j) j then sift_down Less Swap j (Swap d (Suc j) j) else d)"

definition Sort :: "('d \<Rightarrow> nat) \<Rightarrow> ('d \<Rightarrow> nat \<Rightarrow> nat \<Rightarrow> bool) \<Rightarrow> ('d \<Rightarrow> nat \<Rightarrow> nat \<Rightarrow> 'd) \<Rightarrow> 'd \<Rightarrow> 'd" where
  "Sort Len Less Swap d = fold (sift_down Less Swap) [1..<Len d] d"

definition IsSorted :: "('d \<Rightarrow> nat) \<Rightarrow> ('d \<Rightarrow> nat \<Rightarrow> nat \<Rightarrow> bool) \<Rightarrow> 'd \<Rightarrow> bool" where
  "IsSorted Len Less d = neighbours_ok (Less d) (Len d)"

definition Reverse_Less :: "('d \<Rightarrow> nat \<Rightarrow> nat \<Rightarrow> bool) \<Rightarrow> 'd \<Rightarrow> nat \<Rightarrow> nat \<Rightarrow> bool" where
  "Reverse_Less Less d i j = Less d j i"

text \<open>What \<open>Sort\<close> needs of an implementation: the data is a list of elements compared by a key.\<close>

locale sort_interface =
  fixes Len :: "'d \<Rightarrow> nat" and Less :: "'d \<Rightarrow> nat \<Rightarrow> nat \<Rightarrow> bool" and Swap :: "'d \<Rightarrow> nat \<Rightarrow> nat \<Rightarrow> 'd"
    and elems :: "'d \<Rightarrow> 'a list" and key :: "'a \<Rightarrow> 'k :: linorder"
  assumes Len: "Len d = length (elems d)"
    and Less: "i < length (elems d) \<Longrightarrow> j < length (elems d) \<Longrightarrow>
      Less d i j \<longleftrightarrow> key (elems d ! i) < key (elems d ! j)"
    and Swap: "i < length (elems d) \<Longrightarrow> j < length (elems d) \<Longrightarrow>
      elems (Swap d i j) = (elems d)[i := elems d ! j, j := elems d ! i]"
begin

lemma sift_down:
  "elems d = B @ v # C \<Longrightarrow> elems (sift_down Less Swap (length B) d) = rinsert (by_key key) v B @ C"
proof (induction B arbitrary: d C rule: rev_induct)
  case Nil
  then show ?case by (simp add: rinsert_def)
next
  case (snoc b B)
  let ?j = "length B"
  have e: "elems d ! Suc ?j = v" "elems d ! ?j = b" "Suc ?j < length (elems d)"
    using snoc.prems by (simp_all add: nth_append)
  have "elems (Swap d (Suc ?j) ?j) = B @ v # b # C"
    using Swap [of "Suc ?j" d ?j] e snoc.prems by (simp add: list_update_append)
  from snoc.IH [OF this] show ?case
    using Less [of "Suc ?j" d ?j] e snoc.prems by (simp add: rinsert_snoc by_key_def)
qed

lemma Sort_elems: "elems (Sort Len Less Swap d) = sort_key key (elems d)"
proof -
  have "n \<le> length (elems d) \<Longrightarrow>
      elems (fold (sift_down Less Swap) [1..<n] d) = sort_key key (take n (elems d)) @ drop n (elems d)" for n
  proof (induction n)
    case (Suc n)
    show ?case
    proof (cases n)
      case 0
      then show ?thesis using Suc.prems by (cases "elems d") simp_all
    next
      case (Suc m)
      let ?d = "fold (sift_down Less Swap) [1..<n] d"
      have "elems ?d = sort_key key (take n (elems d)) @ elems d ! n # drop (Suc n) (elems d)"
        using Suc.IH Suc.prems by (simp add: Cons_nth_drop_Suc)
      from sift_down [OF this] show ?thesis
        using Suc Suc.prems by (simp add: rinsert_sort take_Suc_conv_app_nth)
    qed
  qed simp
  from this [of "length (elems d)"] show ?thesis by (simp add: Sort_def Len)
qed

lemma IsSorted_elems: "IsSorted Len Less d \<longleftrightarrow> sorted (map key (elems d))"
proof -
  have "neighbours_ok (Less d) n = neighbours_ok (\<lambda>i j. key (elems d ! i) < key (elems d ! j)) n"
    if "n \<le> length (elems d)" for n
    using that by (induction n) (simp_all add: Less)
  then show ?thesis using neighbours_sorted [of "length (elems d)" "elems d" key] by (simp add: IsSorted_def Len)
qed

end

subsection \<open>The slices of ints, floats and strings\<close>

definition slice_Swap :: "'a list \<Rightarrow> nat \<Rightarrow> nat \<Rightarrow> 'a list" where
  "slice_Swap x i j = (let temp = x ! i in (x[i := x ! j])[j := temp])"

definition IntSlice_Less :: "int list \<Rightarrow> nat \<Rightarrow> nat \<Rightarrow> bool" where
  "IntSlice_Less x i j \<longleftrightarrow> x ! i < x ! j"

text \<open>\<open><\<close> of JavaScript on numbers.\<close>

fun number_less :: "js_number \<Rightarrow> js_number \<Rightarrow> bool" where
  "number_less (Fin a) (Fin b) = (a < b)"
| "number_less NegInf (Fin b) = True"
| "number_less NegInf PosInf = True"
| "number_less (Fin a) PosInf = True"
| "number_less _ _ = False"

definition lessFloat64 :: "js_number \<Rightarrow> js_number \<Rightarrow> bool" where
  "lessFloat64 left right \<longleftrightarrow> number_less left right \<or> left = NaN \<and> right \<noteq> NaN"

definition Float64Slice_Less :: "js_number list \<Rightarrow> nat \<Rightarrow> nat \<Rightarrow> bool" where
  "Float64Slice_Less x i j = lessFloat64 (x ! i) (x ! j)"

definition compareStrings :: "gostring \<Rightarrow> gostring \<Rightarrow> int" where
  "compareStrings left right =
     (let l = stringToBytes (OfString left); r = stringToBytes (OfString right) in
      case find (\<lambda>i. l ! i \<noteq> r ! i) [0..<min (length l) (length r)] of
        Some i \<Rightarrow> int (l ! i) - int (r ! i)
      | None \<Rightarrow> int (length l) - int (length r))"

definition StringSlice_Less :: "gostring list \<Rightarrow> nat \<Rightarrow> nat \<Rightarrow> bool" where
  "StringSlice_Less x i j \<longleftrightarrow> compareStrings (x ! i) (x ! j) < 0"

definition Ints :: "int list \<Rightarrow> int list" where "Ints x = Sort length IntSlice_Less slice_Swap x"

definition Float64s :: "js_number list \<Rightarrow> js_number list" where
  "Float64s x = Sort length Float64Slice_Less slice_Swap x"

definition Strings :: "gostring list \<Rightarrow> gostring list" where
  "Strings x = Sort length StringSlice_Less slice_Swap x"

definition IntsAreSorted :: "int list \<Rightarrow> bool" where "IntsAreSorted x = IsSorted length IntSlice_Less x"

definition Float64sAreSorted :: "js_number list \<Rightarrow> bool" where
  "Float64sAreSorted x = IsSorted length Float64Slice_Less x"

definition StringsAreSorted :: "gostring list \<Rightarrow> bool" where
  "StringsAreSorted x = IsSorted length StringSlice_Less x"

text \<open>Go's order of floats: NaN first, then by value.\<close>

fun float_key :: "js_number \<Rightarrow> nat \<times> rat" where
  "float_key NaN = (0, 0)"
| "float_key NegInf = (1, 0)"
| "float_key (Fin q) = (2, q)"
| "float_key PosInf = (3, 0)"

lemma lessFloat64_key: "lessFloat64 a b \<longleftrightarrow> float_key a < float_key b"
  by (cases a; cases b) (simp_all add: lessFloat64_def)

lemma compareStrings_key: "compareStrings a b < 0 \<longleftrightarrow> goStringBytes a < goStringBytes b"
  unfolding compareStrings_def Let_def find_compare
  using compare_lists_order by (simp add: stringToBytes_def list_less_def)

lemma slice_Swap_elems: "slice_Swap x i j = x[i := x ! j, j := x ! i]"
  by (simp add: slice_Swap_def Let_def)

interpretation ints: sort_interface length IntSlice_Less slice_Swap "\<lambda>x. x" "\<lambda>v. v"
  by unfold_locales (simp_all add: IntSlice_Less_def slice_Swap_elems)

interpretation floats: sort_interface length Float64Slice_Less slice_Swap "\<lambda>x. x" float_key
  by unfold_locales (simp_all add: Float64Slice_Less_def lessFloat64_key slice_Swap_elems)

interpretation strings: sort_interface length StringSlice_Less slice_Swap "\<lambda>x. x" goStringBytes
  by unfold_locales (simp_all add: StringSlice_Less_def compareStrings_key slice_Swap_elems)

text \<open>Ints, Float64s and Strings, and Sort on the corresponding slices, sort stably into
  ascending order: of the integers, of the floats with NaN first, of the bytes of the
  strings; the AreSorted functions decide it.\<close>

theorem slices_sorted:
  "Ints xs = sort xs \<and> (IntsAreSorted xs \<longleftrightarrow> sorted xs) \<and>
   Float64s fs = sort_key float_key fs \<and> (Float64sAreSorted fs \<longleftrightarrow> sorted (map float_key fs)) \<and>
   Strings ss = sort_key goStringBytes ss \<and> (StringsAreSorted ss \<longleftrightarrow> sorted (map goStringBytes ss))"
  using ints.Sort_elems [of xs] ints.IsSorted_elems [of xs] floats.Sort_elems [of fs] floats.IsSorted_elems [of fs]
    strings.Sort_elems [of ss] strings.IsSorted_elems [of ss]
  by (simp add: Ints_def IntsAreSorted_def Float64s_def Float64sAreSorted_def Strings_def StringsAreSorted_def)

subsection \<open>Binary search\<close>

function search_loop :: "(nat \<Rightarrow> bool) \<Rightarrow> nat \<Rightarrow> nat \<Rightarrow> nat" where
  "search_loop f left right =
     (if left < right then
        (let mid = (left + right) div 2 in
         if f mid then search_loop f left mid else search_loop f (mid + 1) right)
      else left)"
  by pat_completeness auto
termination
  by (relation "measure (\<lambda>(f, left, right). right - left)") auto

declare search_loop.simps [simp del]

definition Search :: "nat \<Rightarrow> (nat \<Rightarrow> bool) \<Rightarrow> nat" where "Search n f = search_loop f 0 n"

definition Find :: "nat \<Rightarrow> (nat \<Rightarrow> int) \<Rightarrow> nat \<times> bool" where
  "Find n cmp = (let left = search_loop (\<lambda>i. cmp i \<le> 0) 0 n in (left, left < n \<and> cmp left = 0))"

definition SearchInts :: "int list \<Rightarrow> int \<Rightarrow> nat" where
  "SearchInts a x = search_loop (\<lambda>i. x \<le> a ! i) 0 (length a)"

definition SearchStrings :: "gostring list \<Rightarrow> gostring \<Rightarrow> nat" where
  "SearchStrings a x = search_loop (\<lambda>i. 0 \<le> compareStrings (a ! i) x) 0 (length a)"

definition SearchFloat64s :: "js_number list \<Rightarrow> js_number \<Rightarrow> nat" where
  "SearchFloat64s a x = search_loop (\<lambda>i. number_less x (a ! i) \<or> x = a ! i \<and> x \<noteq> NaN) 0 (length a)"

text \<open>The result is a boundary: the callback is true at it and false just before it.\<close>

lemma search_loop_steps:
  "left < right \<Longrightarrow> f ((left + right) div 2) \<Longrightarrow> search_loop f left right = search_loop f left ((left + right) div 2)"
  "left < right \<Longrightarrow> \<not> f ((left + right) div 2) \<Longrightarrow>
   search_loop f left right = search_loop f (Suc ((left + right) div 2)) right"
  "\<not> left < right \<Longrightarrow> search_loop f left right = left"
  using search_loop.simps [of f left right] by (simp_all add: Let_def)

lemma search_boundary:
  "left \<le> right \<Longrightarrow>
   left \<le> search_loop f left right \<and> search_loop f left right \<le> right \<and>
   (search_loop f left right < right \<longrightarrow> f (search_loop f left right)) \<and>
   (left < search_loop f left right \<longrightarrow> \<not> f (search_loop f left right - 1))"
proof (induction f left right rule: search_loop.induct)
  case (1 f left right)
  let ?mid = "(left + right) div 2"
  consider "\<not> left < right" | "left < right" "f ?mid" | "left < right" "\<not> f ?mid" by blast
  then show ?case
  proof cases
    case 1
    with \<open>left \<le> right\<close> show ?thesis by (simp add: search_loop_steps)
  next
    case 2
    then have m: "left \<le> ?mid" "?mid < right" by auto
    note ih = "1.IH"(1) [OF 2(1) refl 2(2) m(1)]
    show ?thesis unfolding search_loop_steps(1) [of left right f, OF 2] using ih m 2(2) by (auto simp: le_less)
  next
    case 3
    then have m: "left \<le> ?mid" "?mid < right" by auto
    have ih: "?mid + 1 \<le> search_loop f (Suc ?mid) right \<and> search_loop f (Suc ?mid) right \<le> right \<and>
      (search_loop f (Suc ?mid) right < right \<longrightarrow> f (search_loop f (Suc ?mid) right)) \<and>
      (?mid + 1 < search_loop f (Suc ?mid) right \<longrightarrow> \<not> f (search_loop f (Suc ?mid) right - 1))"
      using "1.IH"(2) [OF 3(1) refl 3(2)] m by simp
    then have "search_loop f (Suc ?mid) right = ?mid + 1 \<or> ?mid + 1 < search_loop f (Suc ?mid) right" by linarith
    then have "\<not> f (search_loop f (Suc ?mid) right - 1)" using ih 3(2) by fastforce
    then show ?thesis unfolding search_loop_steps(2) [of left right f, OF 3] using ih m by linarith
  qed
qed

text \<open>For a monotone callback there is only one boundary.\<close>

lemma length_takeWhile_upt:
  assumes "r \<le> n" "\<forall>i<r. P i" "r < n \<longrightarrow> \<not> P r"
  shows "length (takeWhile P [0..<n]) = r"
proof -
  have "[0..<n] = [0..<r] @ [r..<n]" using assms(1) upt_add_eq_append [of 0 r "n - r"] by simp
  moreover have "takeWhile P [r..<n] = []" using assms(3) by (cases "r < n") (simp_all add: upt_rec)
  ultimately show ?thesis using assms(2) by (simp add: takeWhile_append)
qed

lemma search_monotone:
  assumes "\<And>i j. i \<le> j \<Longrightarrow> j < n \<Longrightarrow> f i \<Longrightarrow> f j"
  shows "search_loop f 0 n = length (takeWhile (\<lambda>i. \<not> f i) [0..<n])"
proof -
  define r where "r = search_loop f 0 n"
  have b: "r \<le> n" "r < n \<longrightarrow> f r" "0 < r \<longrightarrow> \<not> f (r - 1)"
    using search_boundary [of 0 n f] by (simp_all add: r_def)
  have "\<not> f i" if "i < r" for i
  proof
    assume "f i"
    then have "f (r - 1)" using assms [of i "r - 1"] that b(1) by simp
    then show False using that b(3) by simp
  qed
  with b show ?thesis using length_takeWhile_upt [of r n "\<lambda>i. \<not> f i"] by (simp add: r_def)
qed

lemma search_sorted_keys:
  fixes k :: "'a \<Rightarrow> 'k::linorder"
  assumes "sorted (map k xs)"
  shows "search_loop (\<lambda>i. \<not> k (xs ! i) < y) 0 (length xs) = length (filter (\<lambda>x. k x < y) xs)"
proof -
  have "search_loop (\<lambda>i. \<not> k (xs ! i) < y) 0 (length xs) = length (takeWhile (\<lambda>i. k (xs ! i) < y) [0..<length xs])"
    using search_monotone [of "length xs" "\<lambda>i. \<not> k (xs ! i) < y"] sorted_nth_mono [OF assms] by fastforce
  also have "takeWhile (\<lambda>i. k (xs ! i) < y) [0..<length xs] = takeWhile ((\<lambda>x. k x < y) \<circ> (!) xs) [0..<length xs]"
    by (simp add: comp_def)
  also have "length \<dots> = length (takeWhile (\<lambda>x. k x < y) (map ((!) xs) [0..<length xs]))"
    by (simp add: takeWhile_map)
  also have "\<dots> = length (takeWhile (\<lambda>x. k x < y) xs)" by (simp add: map_nth)
  also have "takeWhile (\<lambda>x. k x < y) xs = filter (\<lambda>x. k x < y) xs"
    using assms
  proof (induction xs)
    case (Cons a xs)
    then have "\<not> k x < y" if "x \<in> set xs" "\<not> k a < y" for x using that by force
    then have "\<not> k a < y \<Longrightarrow> filter (\<lambda>x. k x < y) xs = []" by (simp add: filter_empty_conv)
    with Cons show ?case by simp
  qed simp
  finally show ?thesis .
qed

lemma compareStrings_less: "0 \<le> compareStrings a b \<longleftrightarrow> \<not> goStringBytes a < goStringBytes b"
  using compareStrings_key [of a b] by linarith

text \<open>Binary search terminates on every callback, at a boundary: the callback is true at the
  result, if it is below n, and false just before it. So on a monotone callback Search and
  Find return the least true index, and on ascending slices SearchInts and SearchStrings
  return the number of elements below the one searched for.\<close>

theorem Search_spec:
  assumes "\<And>i j. i \<le> j \<Longrightarrow> j < n \<Longrightarrow> f i \<Longrightarrow> f j"
    and "\<And>i j. i \<le> j \<Longrightarrow> j < n \<Longrightarrow> cmp j \<le> cmp i"
    and "sorted xs" "sorted (map goStringBytes ss)"
  shows "Search n f = length (takeWhile (\<lambda>i. \<not> f i) [0..<n]) \<and>
    Find n cmp = (length (takeWhile (\<lambda>i. 0 < cmp i) [0..<n]), 0 \<in> cmp ` {..<n}) \<and>
    SearchInts xs x = length (filter (\<lambda>y. y < x) xs) \<and>
    SearchStrings ss s = length (filter (\<lambda>y. goStringBytes y < goStringBytes s) ss) \<and>
    Search n g \<le> n \<and> (if Search n g < n then g (Search n g) else True) \<and>
    (if 0 < Search n g then \<not> g (Search n g - 1) else True)"
proof (intro conjI)
  show "Search n f = length (takeWhile (\<lambda>i. \<not> f i) [0..<n])"
    using search_monotone [of n f] assms(1) by (simp add: Search_def)
  define r where "r = search_loop (\<lambda>i. cmp i \<le> 0) 0 n"
  have mono: "\<And>i j. i \<le> j \<Longrightarrow> j < n \<Longrightarrow> cmp i \<le> 0 \<Longrightarrow> cmp j \<le> 0" using assms(2) by (meson order_trans)
  have len: "r = length (takeWhile (\<lambda>i. 0 < cmp i) [0..<n])"
    using search_monotone [of n "\<lambda>i. cmp i \<le> 0", OF mono] by (simp add: r_def not_le)
  have b: "r \<le> n" "r < n \<longrightarrow> cmp r \<le> 0" "0 < r \<longrightarrow> 0 < cmp (r - 1)"
    using search_boundary [of 0 n "\<lambda>i. cmp i \<le> 0"] by (simp_all add: r_def not_le)
  have "r < n \<and> cmp r = 0" if "i < n" "cmp i = 0" for i
  proof -
    have "\<not> i < r" using assms(2) [of i "r - 1"] b that by fastforce
    with that show ?thesis using b assms(2) [of r i] by auto
  qed
  then have "(r < n \<and> cmp r = 0) = (0 \<in> cmp ` {..<n})" by (auto simp: image_iff)
  then show "Find n cmp = (length (takeWhile (\<lambda>i. 0 < cmp i) [0..<n]), 0 \<in> cmp ` {..<n})"
    unfolding Find_def Let_def r_def [symmetric] len [symmetric] by simp
  show "SearchInts xs x = length (filter (\<lambda>y. y < x) xs)"
    using search_sorted_keys [of "\<lambda>v. v" xs x] assms(3) by (simp add: SearchInts_def not_less)
  show "SearchStrings ss s = length (filter (\<lambda>y. goStringBytes y < goStringBytes s) ss)"
    using search_sorted_keys [of goStringBytes ss "goStringBytes s"] assms(4)
    by (simp add: SearchStrings_def compareStrings_less)
  show "Search n g \<le> n" "if Search n g < n then g (Search n g) else True"
    "if 0 < Search n g then \<not> g (Search n g - 1) else True"
    using search_boundary [OF le0, of g n, folded Search_def] by presburger+
qed

theorem Search_spec_witness:
  "SearchInts [1, 3, 3, 7] 3 = 1 \<and> Search 5 (\<lambda>i. 9 \<le> i * i) = 3"
proof -
  have "\<And>i j. i \<le> j \<Longrightarrow> 9 \<le> i * (i::nat) \<Longrightarrow> 9 \<le> j * j" by (meson le_trans mult_le_mono)
  then show ?thesis
    using Search_spec [of 5 "\<lambda>i. 9 \<le> i * i" "\<lambda>i. - int i" "[1, 3, 3, 7]" "[]" 3]
    by (simp add: upt_rec)
qed

end
