(* ===== verification/GsPanic.thy ===== *)
theory GsPanic
  imports GsPrelude
begin

section \<open>panic, recover and deferred functions (gs/builtin/panic.ts, defer.ts)\<close>

text \<open>
  A \<open>GoPanic\<close> object is named by a number; its value and its \<open>recovered\<close> flag are fields of
  the state, with the two module variables \<open>panicStack\<close> and \<open>activeRecoverPanic\<close>. A call is
  a function from the state to what it throws, if anything, and the new state; \<open>user\<close> is the
  rest of the program's state. The two ways the compiler emits a function with deferred calls
  (compiler/typescript-emitter.go, renderBodyWithDefer) are at the end of the first part.
\<close>

datatype 'v payload = Single 'v | Several "'v list" | RuntimeFault string

text \<open>What may be thrown: a \<open>GoPanic\<close>, an error of the JavaScript side, and the
  \<open>SuppressedError\<close> by which a \<open>using\<close> declaration reports that the disposal threw the first
  while the second was already thrown.\<close>

datatype thrown = GoPanic nat | JsError string | Suppressed thrown thrown

record ('v, 's) panics =
  panic_value :: "nat \<Rightarrow> 'v payload"
  was_recovered :: "nat \<Rightarrow> bool"
  next_panic :: nat
  panicStack :: "nat list"
  activeRecoverPanic :: "nat option"
  user :: 's

type_synonym ('v, 's) act = "('v, 's) panics \<Rightarrow> thrown option \<times> ('v, 's) panics"

subsection \<open>panic.ts\<close>

text \<open>\<open>throw\<close> of a new \<open>GoPanic\<close> pushed on the stack, shared by the two entry points.\<close>

definition throw_panic :: "'v payload \<Rightarrow> ('v, 's) act" where
  "throw_panic v w =
     (let p = next_panic w in
      (Some (GoPanic p),
       w\<lparr>panic_value := (panic_value w)(p := v), was_recovered := (was_recovered w)(p := False),
         next_panic := Suc p, panicStack := panicStack w @ [p]\<rparr>))"

definition panic :: "'v list \<Rightarrow> ('v, 's) act" where
  "panic args = throw_panic (if length args = 1 then Single (args ! 0) else Several args)"

definition runtimePanic :: "string \<Rightarrow> ('v, 's) act" where
  "runtimePanic message = throw_panic (RuntimeFault message)"

definition recovering_panic :: "thrown \<Rightarrow> nat option" where
  "recovering_panic err = (case err of GoPanic p \<Rightarrow> Some p | _ \<Rightarrow> None)"

text \<open>The \<open>finally\<close> restores the previous panic whether the callback returned or threw; both
  are in the result \<open>r\<close>.\<close>

definition withRecoveringPanic ::
  "thrown \<Rightarrow> (('v, 's) panics \<Rightarrow> 'r \<times> ('v, 's) panics) \<Rightarrow> ('v, 's) panics \<Rightarrow> 'r \<times> ('v, 's) panics" where
  "withRecoveringPanic err fn w =
     (let previous = activeRecoverPanic w;
          (r, w1) = fn (w\<lparr>activeRecoverPanic := recovering_panic err\<rparr>)
      in (r, w1\<lparr>activeRecoverPanic := previous\<rparr>))"

text \<open>The result \<open>None\<close> is \<open>null\<close>.\<close>

definition recover :: "('v, 's) panics \<Rightarrow> 'v payload option \<times> ('v, 's) panics" where
  "recover w =
     (case activeRecoverPanic w of
        None \<Rightarrow> (None, w)
      | Some p \<Rightarrow>
          (if was_recovered w p then (None, w)
           else (Some (panic_value w p),
                 w\<lparr>was_recovered := (was_recovered w)(p := True),
                   panicStack := remove_first (\<lambda>q. q = p) (panicStack w)\<rparr>)))"

definition recovered :: "thrown \<Rightarrow> ('v, 's) panics \<Rightarrow> bool \<times> ('v, 's) panics" where
  "recovered err w =
     (case err of
        GoPanic p \<Rightarrow>
          (if was_recovered w p then (True, w\<lparr>panicStack := remove_first (\<lambda>q. q = p) (panicStack w)\<rparr>)
           else (False, w))
      | _ \<Rightarrow> (False, w))"

subsection \<open>defer.ts\<close>

text \<open>The stack of deferred calls, its top first. The result holds what was thrown and the
  calls that were not run: a call that throws leaves the loop, and the rest stay on the stack.\<close>

definition push_deferred :: "('v, 's) act \<Rightarrow> ('v, 's) act list \<Rightarrow> ('v, 's) act list" where
  "push_deferred fn stack = fn # stack"

fun dispose ::
  "('v, 's) act list \<Rightarrow> ('v, 's) panics \<Rightarrow> (thrown option \<times> ('v, 's) act list) \<times> ('v, 's) panics" where
  "dispose [] w = ((None, []), w)"
| "dispose (fn # stack) w =
     (case fn w of
        (None, w1) \<Rightarrow> dispose stack w1
      | (Some e, w1) \<Rightarrow> ((Some e, stack), w1))"

definition disposePanic ::
  "thrown \<Rightarrow> ('v, 's) act list \<Rightarrow> ('v, 's) panics \<Rightarrow> (thrown option \<times> ('v, 's) act list) \<times> ('v, 's) panics" where
  "disposePanic err stack = withRecoveringPanic err (dispose stack)"

text \<open>An asynchronous stack holds calls that return at once or at their first await; the
  second component is what is left to run then. (An async function that throws before its first
  await returns a rejected promise: it throws in its second component.)\<close>

type_synonym ('v, 's) async_act = "('v, 's) act \<times> ('v, 's) act option"

definition await_rest :: "('v, 's) act option \<Rightarrow> ('v, 's) act" where
  "await_rest rest w = (case rest of None \<Rightarrow> (None, w) | Some g \<Rightarrow> g w)"

fun async_dispose ::
  "('v, 's) async_act list \<Rightarrow> ('v, 's) panics \<Rightarrow> (thrown option \<times> ('v, 's) async_act list) \<times> ('v, 's) panics" where
  "async_dispose [] w = ((None, []), w)"
| "async_dispose (fn # stack) w =
     (case fst fn w of
        (Some e, w1) \<Rightarrow> ((Some e, stack), w1)
      | (None, w1) \<Rightarrow>
          (case await_rest (snd fn) w1 of
             (Some e, w2) \<Rightarrow> ((Some e, stack), w2)
           | (None, w2) \<Rightarrow> async_dispose stack w2))"

fun async_disposePanic ::
  "thrown \<Rightarrow> ('v, 's) async_act list \<Rightarrow> ('v, 's) panics \<Rightarrow>
   (thrown option \<times> ('v, 's) async_act list) \<times> ('v, 's) panics" where
  "async_disposePanic err [] w = ((None, []), w)"
| "async_disposePanic err (fn # stack) w =
     (case withRecoveringPanic err (fst fn) w of
        (Some e, w1) \<Rightarrow> ((Some e, stack), w1)
      | (None, w1) \<Rightarrow>
          (case await_rest (snd fn) w1 of
             (Some e, w2) \<Rightarrow> ((Some e, stack), w2)
           | (None, w2) \<Rightarrow> async_disposePanic err stack w2))"

text \<open>\<open>Symbol.dispose\<close> of an asynchronous stack: a call that has not finished is an error.\<close>

fun async_sync_dispose ::
  "('v, 's) async_act list \<Rightarrow> ('v, 's) panics \<Rightarrow> (thrown option \<times> ('v, 's) async_act list) \<times> ('v, 's) panics" where
  "async_sync_dispose [] w = ((None, []), w)"
| "async_sync_dispose (fn # stack) w =
     (case fst fn w of
        (Some e, w1) \<Rightarrow> ((Some e, stack), w1)
      | (None, w1) \<Rightarrow>
          (if snd fn \<noteq> None then ((Some (JsError ''async deferred function disposed synchronously''), stack), w1)
           else async_sync_dispose stack w1))"

subsection \<open>Functions with deferred calls\<close>

text \<open>The body returns what it threw and the stack of calls it deferred. A function that
  mentions \<open>recover\<close> disposes the stack explicitly, in a \<open>try\<close> with the body.\<close>

type_synonym ('v, 's) body =
  "('v, 's) panics \<Rightarrow> (thrown option \<times> ('v, 's) act list) \<times> ('v, 's) panics"

definition catch_block :: "thrown \<Rightarrow> ('v, 's) act list \<Rightarrow> ('v, 's) act" where
  "catch_block err stack w =
     (case disposePanic err stack w of
        ((Some e, _), w1) \<Rightarrow> (Some e, w1)
      | ((None, _), w1) \<Rightarrow> (case recovered err w1 of (ok, w2) \<Rightarrow> (if \<not> ok then Some err else None, w2)))"

definition recover_call :: "('v, 's) body \<Rightarrow> ('v, 's) act" where
  "recover_call body w =
     (case body w of
        ((Some e, stack), w1) \<Rightarrow> catch_block e stack w1
      | ((None, stack), w1) \<Rightarrow>
          (case dispose stack w1 of
             ((Some e, stack'), w2) \<Rightarrow> catch_block e stack' w2
           | ((None, _), w2) \<Rightarrow> (None, w2)))"

text \<open>Any other function with deferred calls declares its stack with \<open>using\<close>.\<close>

definition using_call :: "('v, 's) body \<Rightarrow> ('v, 's) act" where
  "using_call body w =
     (case body w of
        ((thrown, stack), w1) \<Rightarrow>
          (case dispose stack w1 of
             ((None, _), w2) \<Rightarrow> (thrown, w2)
           | ((Some e, _), w2) \<Rightarrow>
               (Some (case thrown of None \<Rightarrow> e | Some e0 \<Rightarrow> Suppressed e e0), w2)))"

subsection \<open>The state of the panics\<close>

text \<open>Any sequence of panics, calls of \<open>recover\<close> and \<open>recovered\<close>, entries and exits of
  \<open>withRecoveringPanic\<close> and changes of the rest of the state, by any number of tasks. The log
  holds the panics that \<open>recover\<close> returned, with their values.\<close>

definition known :: "nat option \<Rightarrow> ('v, 's) panics \<Rightarrow> bool" where
  "known q w = (case q of None \<Rightarrow> True | Some p \<Rightarrow> p < next_panic w)"

type_synonym ('v, 's) panic_run = "('v, 's) panics \<times> (nat \<times> 'v payload) list"

inductive panic_step :: "('v, 's) panic_run \<Rightarrow> ('v, 's) panic_run \<Rightarrow> bool" where
  step_throw: "panic_step (w, l) (snd (throw_panic v w), l)"
| step_set_active: "known q w \<Longrightarrow> panic_step (w, l) (w\<lparr>activeRecoverPanic := q\<rparr>, l)"
| step_recover: "recover w = (None, w1) \<Longrightarrow> panic_step (w, l) (w1, l)"
| step_recover_value: "activeRecoverPanic w = Some p \<Longrightarrow> recover w = (Some v, w1) \<Longrightarrow> panic_step (w, l) (w1, l @ [(p, v)])"
| step_recovered: "recovered err w = (ok, w1) \<Longrightarrow> panic_step (w, l) (w1, l)"
| step_user: "panic_step (w, l) (w\<lparr>user := s\<rparr>, l)"

inductive_cases panic_stepE: "panic_step (w, l) (w1, l1)"

definition no_panics :: "(nat \<Rightarrow> 'v payload) \<Rightarrow> 's \<Rightarrow> ('v, 's) panics" where
  "no_panics v s = \<lparr>panic_value = v, was_recovered = (\<lambda>p. False), next_panic = 0, panicStack = [],
     activeRecoverPanic = None, user = s\<rparr>"

definition panics_inv :: "('v, 's) panic_run \<Rightarrow> bool" where
  "panics_inv r = (case r of (w, l) \<Rightarrow>
     panicStack w = filter (\<lambda>p. \<not> was_recovered w p) [0..<next_panic w] \<and>
     known (activeRecoverPanic w) w \<and> distinct (map fst l) \<and>
     set l = (\<lambda>p. (p, panic_value w p)) ` {p. p < next_panic w \<and> was_recovered w p})"

lemma remove_first_distinct: "distinct xs \<Longrightarrow> remove_first (\<lambda>q. q = p) xs = filter (\<lambda>q. q \<noteq> p) xs"
  by (induction xs) (auto intro: filter_True [symmetric])

lemma remove_first_snoc: "p \<notin> set xs \<Longrightarrow> remove_first (\<lambda>q. q = p) (xs @ [p]) = xs"
  by (induction xs) auto

lemma panic_step_inv: "panic_step r r' \<Longrightarrow> panics_inv r \<Longrightarrow> panics_inv r'"
proof (induction rule: panic_step.induct)
  case (step_throw w l v)
  then show ?case
    by (auto simp: panics_inv_def throw_panic_def Let_def known_def less_Suc_eq image_iff split: option.splits
      intro!: filter_cong)
next
  case (step_recover_value w p v w1 l)
  then have w1: "v = panic_value w p" "\<not> was_recovered w p" "p < next_panic w"
    "w1 = w\<lparr>was_recovered := (was_recovered w)(p := True), panicStack := remove_first (\<lambda>q. q = p) (panicStack w)\<rparr>"
    by (auto simp: recover_def panics_inv_def known_def split: if_splits)
  then have "p \<notin> fst ` set l" using step_recover_value by (auto simp: panics_inv_def)
  then show ?case using step_recover_value w1
    by (auto simp: panics_inv_def known_def remove_first_distinct intro!: filter_cong)
next
  case (step_recovered err w ok w1 l)
  have "remove_first (\<lambda>q. q = p) (panicStack w) = panicStack w" if "was_recovered w p" for p
    using step_recovered(2) that by (intro remove_first_id) (auto simp: panics_inv_def)
  then show ?case using step_recovered by (auto simp: recovered_def split: thrown.splits if_splits)
qed (auto simp: panics_inv_def known_def recover_def split: option.splits if_splits)

text \<open>C29. In any run of panics and recovers, the stack holds the panics that were thrown and not
  recovered, in the order thrown; \<open>recover\<close> returned each recovered panic exactly once, with
  the value it was thrown with.\<close>

theorem panics_recovered_once:
  assumes "panic_step\<^sup>*\<^sup>* (no_panics v0 s, []) (w, l)"
  shows "panicStack w = filter (\<lambda>p. \<not> was_recovered w p) [0..<next_panic w] \<and>
    distinct (map fst l) \<and> set l = (\<lambda>p. (p, panic_value w p)) ` {p. p < next_panic w \<and> was_recovered w p}"
proof -
  have "panics_inv (w, l)"
    using assms
  proof (induction rule: rtranclp_induct)
    case base
    show ?case by (simp add: panics_inv_def no_panics_def known_def)
  qed (rule panic_step_inv)
  then show ?thesis by (simp add: panics_inv_def)
qed

subsection \<open>A function that recovers\<close>

text \<open>Deferred calls that do not throw themselves: one that only works on the rest of the
  state, and one that calls \<open>recover\<close> and works with what it returns.\<close>

datatype ('v, 's) deferred = Quietly "'s \<Rightarrow> 's" | Recovering "'v payload option \<Rightarrow> 's \<Rightarrow> 's"

fun act_of :: "('v, 's) deferred \<Rightarrow> ('v, 's) act" where
  "act_of (Quietly g) w = (None, w\<lparr>user := g (user w)\<rparr>)"
| "act_of (Recovering h) w = (let (v, w1) = recover w in (None, w1\<lparr>user := h v (user w1)\<rparr>))"

text \<open>What Go does: the calls run last first; the first that recovers gets the value of the
  panic and stops it, and from then on \<open>recover\<close> returns nil.\<close>

fun go_defers :: "('v, 's) deferred list \<Rightarrow> 'v payload option \<Rightarrow> 's \<Rightarrow> 'v payload option \<times> 's" where
  "go_defers [] pending s = (pending, s)"
| "go_defers (Quietly g # ds) pending s = go_defers ds pending (g s)"
| "go_defers (Recovering h # ds) pending s = go_defers ds None (h pending s)"

lemma fst_go_defers_None [simp]: "fst (go_defers ds None s) = None"
proof (induction ds arbitrary: s)
  case (Cons d ds)
  then show ?case by (cases d) simp_all
qed simp

text \<open>The state after the disposal, with the panic \<open>p\<close> active and pending or not.\<close>

definition after_defers :: "nat \<Rightarrow> 'v payload option \<times> 's \<Rightarrow> ('v, 's) panics \<Rightarrow> ('v, 's) panics" where
  "after_defers p r w =
     (let w1 = w\<lparr>user := snd r\<rparr> in
      if fst r = None \<and> \<not> was_recovered w p
      then w1\<lparr>was_recovered := (was_recovered w)(p := True), panicStack := remove_first (\<lambda>q. q = p) (panicStack w)\<rparr>
      else w1)"

lemma dispose_recovered:
  "\<forall>p. activeRecoverPanic w = Some p \<longrightarrow> was_recovered w p \<Longrightarrow>
   dispose (map act_of ds) w = ((None, []), w\<lparr>user := snd (go_defers ds None (user w))\<rparr>)"
proof (induction ds arbitrary: w)
  case (Cons d ds)
  show ?case
  proof (cases d)
    case (Quietly g)
    then show ?thesis using Cons.IH [of "w\<lparr>user := g (user w)\<rparr>"] Cons.prems by simp
  next
    case (Recovering h)
    then have "recover w = (None, w)" using Cons.prems by (auto simp: recover_def split: option.splits)
    with Recovering show ?thesis using Cons.IH [of "w\<lparr>user := h None (user w)\<rparr>"] Cons.prems by simp
  qed
qed simp

lemma dispose_pending:
  "activeRecoverPanic w = Some p \<Longrightarrow> \<not> was_recovered w p \<Longrightarrow>
   dispose (map act_of ds) w = ((None, []), after_defers p (go_defers ds (Some (panic_value w p)) (user w)) w)"
proof (induction ds arbitrary: w)
  case (Cons d ds)
  show ?case
  proof (cases d)
    case (Quietly g)
    then show ?thesis using Cons.IH [of "w\<lparr>user := g (user w)\<rparr>"] Cons.prems
      by (simp add: after_defers_def Let_def)
  next
    case (Recovering h)
    let ?w1 = "w\<lparr>was_recovered := (was_recovered w)(p := True), panicStack := remove_first (\<lambda>q. q = p) (panicStack w)\<rparr>"
    have "recover w = (Some (panic_value w p), ?w1)" using Cons.prems by (simp add: recover_def)
    with Recovering show ?thesis
      using dispose_recovered [of "?w1\<lparr>user := h (Some (panic_value w p)) (user w)\<rparr>" ds] Cons.prems
      by (simp add: after_defers_def Let_def)
  qed
qed (simp add: after_defers_def Let_def)

text \<open>A body that works on the rest of the state, defers the calls in the order given and then
  panics or returns.\<close>

definition deferred_stack :: "('v, 's) deferred list \<Rightarrow> ('v, 's) act list" where
  "deferred_stack ds = fold push_deferred (map act_of ds) []"

definition panicking_body :: "('s \<Rightarrow> 's) \<Rightarrow> ('v, 's) deferred list \<Rightarrow> 'v \<Rightarrow> ('v, 's) body" where
  "panicking_body g ds v w = (let (e, w1) = panic [v] (w\<lparr>user := g (user w)\<rparr>) in ((e, deferred_stack ds), w1))"

definition returning_body :: "('s \<Rightarrow> 's) \<Rightarrow> ('v, 's) deferred list \<Rightarrow> ('v, 's) body" where
  "returning_body g ds w = ((None, deferred_stack ds), w\<lparr>user := g (user w)\<rparr>)"

lemma push_all: "fold push_deferred xs ys = rev xs @ ys"
  by (induction xs arbitrary: ys) (simp_all add: push_deferred_def)

lemma deferred_stack_rev: "deferred_stack ds = map act_of (rev ds)"
  by (simp add: deferred_stack_def push_all rev_map)

text \<open>C28. A function that panics with a value and whose deferred calls do not panic behaves as in
  Go, wherever it is called, also from a deferred call while another panic is being disposed of: its
  deferred calls all run, last deferred first; if one recovers, it gets the value, the later ones get
  nil, and the function returns with the stack of panics as before the call; otherwise the panic
  goes on, pushed on the stack. The panic that was active when it was called is active again. A
  function that returns, called where no unrecovered panic is active, runs its calls in the same
  order with \<open>recover\<close> returning nil and changes nothing else.\<close>

theorem recover_call_spec:
  assumes "next_panic w \<notin> set (panicStack w)"
  shows "(case go_defers (rev ds) (Some (Single v)) (g (user w)) of (pending, s) \<Rightarrow>
      (case recover_call (panicking_body g ds v) w of (e, w1) \<Rightarrow>
        e = (if pending = None then None else Some (GoPanic (next_panic w))) \<and> user w1 = s \<and>
        panicStack w1 = panicStack w @ (if pending = None then [] else [next_panic w]) \<and>
        activeRecoverPanic w1 = activeRecoverPanic w)) \<and>
    ((\<forall>q. activeRecoverPanic w = Some q \<longrightarrow> was_recovered w q) \<longrightarrow>
      recover_call (returning_body g ds) w = (None, w\<lparr>user := snd (go_defers (rev ds) None (g (user w)))\<rparr>))"
proof
  show "(\<forall>q. activeRecoverPanic w = Some q \<longrightarrow> was_recovered w q) \<longrightarrow>
      recover_call (returning_body g ds) w = (None, w\<lparr>user := snd (go_defers (rev ds) None (g (user w)))\<rparr>)"
    using dispose_recovered [of "w\<lparr>user := g (user w)\<rparr>" "rev ds"]
    by (simp add: recover_call_def returning_body_def deferred_stack_rev)
  obtain pending s where r: "go_defers (rev ds) (Some (Single v)) (g (user w)) = (pending, s)" by fastforce
  define p where "p = next_panic w"
  define w1 where "w1 = snd (panic [v] (w\<lparr>user := g (user w)\<rparr>))"
  have b: "panicking_body g ds v w = ((Some (GoPanic p), map act_of (rev ds)), w1)"
    by (simp add: panicking_body_def p_def w1_def panic_def throw_panic_def Let_def deferred_stack_rev)
  have w1: "\<not> was_recovered w1 p" "panic_value w1 p = Single v" "user w1 = g (user w)"
    "panicStack w1 = panicStack w @ [p]" "activeRecoverPanic w1 = activeRecoverPanic w"
    by (simp_all add: w1_def p_def panic_def throw_panic_def Let_def)
  have d: "disposePanic (GoPanic p) (map act_of (rev ds)) w1 =
      ((None, []), (after_defers p (pending, s) (w1\<lparr>activeRecoverPanic := Some p\<rparr>))\<lparr>activeRecoverPanic := activeRecoverPanic w\<rparr>)"
    using dispose_pending [of "w1\<lparr>activeRecoverPanic := Some p\<rparr>" p "rev ds"] w1 r
    by (simp add: disposePanic_def withRecoveringPanic_def recovering_panic_def Let_def)
  have stay: "remove_first (\<lambda>q. q = p) (panicStack w) = panicStack w"
    using assms(1) by (intro remove_first_id) (auto simp: p_def)
  show "case go_defers (rev ds) (Some (Single v)) (g (user w)) of (pending, s) \<Rightarrow>
      (case recover_call (panicking_body g ds v) w of (e, w1) \<Rightarrow>
        e = (if pending = None then None else Some (GoPanic (next_panic w))) \<and> user w1 = s \<and>
        panicStack w1 = panicStack w @ (if pending = None then [] else [next_panic w]) \<and>
        activeRecoverPanic w1 = activeRecoverPanic w)"
    unfolding r using w1 assms(1)
    by (auto simp: recover_call_def b catch_block_def d recovered_def after_defers_def Let_def p_def [symmetric]
        stay remove_first_snoc split: prod.splits if_splits)
qed

text \<open>Three calls are deferred, the last to be deferred recovers, the first would recover too.\<close>

theorem recover_call_spec_witness:
  "fst (recover_call (panicking_body (\<lambda>s. s @ [1]) [Recovering (\<lambda>v s. if v = None then s @ [4] else s),
      Recovering (\<lambda>v s. if v = Some (Single True) then s @ [3] else s), Quietly (\<lambda>s. s @ [2])] True)
      (no_panics (\<lambda>_. Several []) [0 :: nat])) = None"
  using recover_call_spec [where w = "no_panics (\<lambda>_. Several []) [0 :: nat]" and v = True and g = "\<lambda>s. s @ [1]"
    and ds = "[Recovering (\<lambda>v s. if v = None then s @ [4] else s),
      Recovering (\<lambda>v s. if v = Some (Single True) then s @ [3] else s), Quietly (\<lambda>s. s @ [2])]"]
  by (simp add: no_panics_def split: prod.splits)

theorem panics_recovered_once_witness:
  "panicStack (snd (throw_panic (Single ()) (no_panics (\<lambda>_. Several []) ()))) = [0]"
proof -
  have "panic_step (no_panics (\<lambda>_. Several []) (), []) (snd (throw_panic (Single ()) (no_panics (\<lambda>_. Several []) ())), [])"
    by (rule step_throw)
  then have "panic_step\<^sup>*\<^sup>* (no_panics (\<lambda>_. Several []) (), []) (snd (throw_panic (Single ()) (no_panics (\<lambda>_. Several []) ())), [])"
    by blast
  from panics_recovered_once [OF this] show ?thesis
    by (simp add: throw_panic_def no_panics_def Let_def)
qed

subsection \<open>Where the runtime departs from Go\<close>

text \<open>A deferred call that panics while the frame unwinds leaves the loop: the calls deferred
  before it are never run. In Go they run, and may recover the new panic.\<close>

lemma deferred_panic_skips_rest:
  "fst (catch_block err ((\<lambda>w. panic [v] w) # rest) w) = Some (GoPanic (next_panic w)) \<and>
   user (snd (catch_block err ((\<lambda>w. panic [v] w) # rest) w)) = user w"
  by (simp add: catch_block_def disposePanic_def withRecoveringPanic_def panic_def throw_panic_def Let_def)

text \<open>While a frame unwinds, a function called by a deferred call that returns normally disposes
  its own stack without clearing the active panic: its deferred call recovers the panic of the
  outer frame. In Go it gets nil.\<close>

lemma nested_return_recovers:
  assumes "activeRecoverPanic w = Some p" "\<not> was_recovered w p"
  shows "user (snd (recover_call (returning_body (\<lambda>s. s) [Recovering (\<lambda>v s. v)]) w)) = Some (panic_value w p)"
  using assms by (simp add: recover_call_def returning_body_def deferred_stack_rev recover_def)

text \<open>A deferred call of an asynchronous stack that recovers after its first await gets nil, and
  the panic goes on.\<close>

lemma recover_after_await:
  assumes "activeRecoverPanic w = None"
  shows "user (snd (async_disposePanic (GoPanic p) [(\<lambda>w. (None, w), Some (act_of (Recovering (\<lambda>v s. v))))] w)) = None"
  using assms by (simp add: withRecoveringPanic_def await_rest_def recover_def Let_def)

text \<open>A panic in a function without \<open>recover\<close> whose deferred call panics too leaves it as a
  \<open>SuppressedError\<close>, for which no caller's \<open>recover\<close> is active.\<close>

lemma using_hides_panic:
  "fst (using_call (\<lambda>w. let (e, w1) = panic [v] w in ((e, [\<lambda>w. panic [u] w]), w1)) w) =
     Some (Suppressed (GoPanic (Suc (next_panic w))) (GoPanic (next_panic w)))"
  "recovering_panic (Suppressed e1 e2) = None"
  by (simp_all add: using_call_def panic_def throw_panic_def Let_def recovering_panic_def)

end
