(* ===== verification/GsErrors.thy ===== *)
theory GsErrors
  imports GsPrelude
begin

section \<open>Package errors (gs/errors/errors.ts, gs/builtin/errors.ts)\<close>

text \<open>
  An error value is an object: its identity, the text of its \<open>Error\<close> method, and what its
  \<open>Unwrap\<close> method returns, if it has one: an error or a list of errors, each of which may be
  \<open>null\<close> (\<open>None\<close>). The \<open>Is\<close> and \<open>As\<close> methods a program's error types declare, and the type
  assertion of \<open>As\<close> and \<open>AsType\<close>, are functions given to the search.
\<close>

datatype error = GoError (ident: nat) (Error: string) (wraps: unwrap)
  and unwrap = NoUnwrap | UnwrapOne "error option" | UnwrapMany "error option list"

text \<open>New objects are numbered; the counter is the only state.\<close>

definition newError :: "string \<Rightarrow> nat \<Rightarrow> error \<times> nat" where
  "newError msg n = (GoError n msg NoUnwrap, Suc n)"

definition New :: "string \<Rightarrow> nat \<Rightarrow> error \<times> nat" where "New = newError"

subsection \<open>Formatting and wrapping\<close>

text \<open>An argument in its three renderings: \<open>String(arg)\<close>, \<open>String(Number(arg))\<close> and
  \<open>JSON.stringify(String(arg))\<close>.\<close>

record fmt_arg =
  as_string :: string
  as_number :: string
  as_json :: string

definition render :: "char \<Rightarrow> fmt_arg \<Rightarrow> string" where
  "render c a = (if c = CHR ''d'' then as_number a else if c = CHR ''q'' then as_json a else as_string a)"

fun formatText :: "string \<Rightarrow> fmt_arg list \<Rightarrow> string" where
  "formatText [] args = []"
| "formatText [c] args = [c]"
| "formatText (p # c # s) args =
     (if p = CHR ''%'' \<and> c \<in> set ''sdqv%'' then
        (if c = CHR ''%'' then CHR ''%'' # formatText s args
         else case args of
           [] \<Rightarrow> p # c # formatText s []
         | a # rest \<Rightarrow> render c a @ formatText s rest)
      else p # formatText (c # s) args)"

definition Errorf :: "string \<Rightarrow> fmt_arg list \<Rightarrow> nat \<Rightarrow> error \<times> nat" where
  "Errorf format args = New (formatText format args)"

definition wrapError :: "error \<Rightarrow> string \<Rightarrow> nat \<Rightarrow> error \<times> nat" where
  "wrapError err message n = (GoError n (message @ '': '' @ Error err) (UnwrapOne (Some err)), Suc n)"

definition Wrap :: "error option \<Rightarrow> string \<Rightarrow> nat \<Rightarrow> error option \<times> nat" where
  "Wrap err message n =
     (case err of None \<Rightarrow> (None, n) | Some e \<Rightarrow> (case wrapError e message n of (w, n') \<Rightarrow> (Some w, n')))"

definition Wrapf :: "error option \<Rightarrow> string \<Rightarrow> fmt_arg list \<Rightarrow> nat \<Rightarrow> error option \<times> nat" where
  "Wrapf err format args n =
     (case err of None \<Rightarrow> (None, n)
      | Some e \<Rightarrow> (case wrapError e (formatText format args) n of (w, n') \<Rightarrow> (Some w, n')))"

definition Unwrap :: "error option \<Rightarrow> error option" where
  "Unwrap err =
     (case err of None \<Rightarrow> None
      | Some e \<Rightarrow> (case wraps e of
          NoUnwrap \<Rightarrow> None
        | UnwrapOne r \<Rightarrow> r
        | UnwrapMany rs \<Rightarrow> (if 0 < length rs then rs ! 0 else None)))"

fun join_lines :: "string list \<Rightarrow> string" where
  "join_lines [] = []"
| "join_lines [s] = s"
| "join_lines (s # ss) = s @ CHR 0x0A # join_lines ss"

definition Join :: "error option list \<Rightarrow> nat \<Rightarrow> error option \<times> nat" where
  "Join errs n =
     (let nonNilErrs = [e. Some e \<leftarrow> errs] in
      if length nonNilErrs = 0 then (None, n)
      else if length nonNilErrs = 1 then (Some (nonNilErrs ! 0), n)
      else (Some (GoError n (join_lines (map Error nonNilErrs)) (UnwrapMany (map Some nonNilErrs))), Suc n))"

subsection \<open>Searching the tree\<close>

text \<open>\<open>Is\<close>: \<open>is_method i\<close> is the \<open>Is\<close> method of the error \<open>i\<close>, if its type declares one.\<close>

fun is_tree :: "(nat \<Rightarrow> (nat \<Rightarrow> bool) option) \<Rightarrow> nat \<Rightarrow> error \<Rightarrow> bool"
  and is_wrapped :: "(nat \<Rightarrow> (nat \<Rightarrow> bool) option) \<Rightarrow> nat \<Rightarrow> unwrap \<Rightarrow> bool"
  and is_any :: "(nat \<Rightarrow> (nat \<Rightarrow> bool) option) \<Rightarrow> nat \<Rightarrow> error option list \<Rightarrow> bool" where
  "is_tree is_method target (GoError i msg w) =
     (if i = target then True
      else if (case is_method i of Some f \<Rightarrow> f target | None \<Rightarrow> False) then True
      else is_wrapped is_method target w)"
| "is_wrapped is_method target NoUnwrap = False"
| "is_wrapped is_method target (UnwrapOne None) = False"
| "is_wrapped is_method target (UnwrapOne (Some e)) = is_tree is_method target e"
| "is_wrapped is_method target (UnwrapMany errs) = is_any is_method target errs"
| "is_any is_method target [] = False"
| "is_any is_method target (None # errs) = is_any is_method target errs"
| "is_any is_method target (Some e # errs) =
     (if is_tree is_method target e then True else is_any is_method target errs)"

definition Is :: "(nat \<Rightarrow> (nat \<Rightarrow> bool) option) \<Rightarrow> error option \<Rightarrow> error option \<Rightarrow> bool" where
  "Is is_method err target =
     (case target of
        None \<Rightarrow> err = None
      | Some t \<Rightarrow> (case err of None \<Rightarrow> False | Some e \<Rightarrow> is_tree is_method (ident t) e))"

text \<open>\<open>As\<close>: \<open>assign e target\<close> is \<open>assignAsTarget\<close>, the new content of the target or \<open>None\<close> when
  the error does not match; \<open>as_method i\<close> is the \<open>As\<close> method, which may change the target.\<close>

fun as_tree ::
  "(error \<Rightarrow> 't \<Rightarrow> 't option) \<Rightarrow> (nat \<Rightarrow> ('t \<Rightarrow> bool \<times> 't) option) \<Rightarrow> error \<Rightarrow> 't \<Rightarrow> bool \<times> 't"
  and as_wrapped ::
  "(error \<Rightarrow> 't \<Rightarrow> 't option) \<Rightarrow> (nat \<Rightarrow> ('t \<Rightarrow> bool \<times> 't) option) \<Rightarrow> unwrap \<Rightarrow> 't \<Rightarrow> bool \<times> 't"
  and as_any ::
  "(error \<Rightarrow> 't \<Rightarrow> 't option) \<Rightarrow> (nat \<Rightarrow> ('t \<Rightarrow> bool \<times> 't) option) \<Rightarrow> error option list \<Rightarrow> 't \<Rightarrow> bool \<times> 't" where
  "as_tree assign as_method (GoError i msg w) target =
     (case assign (GoError i msg w) target of
        Some v \<Rightarrow> (True, v)
      | None \<Rightarrow>
          (case as_method i of
             None \<Rightarrow> as_wrapped assign as_method w target
           | Some f \<Rightarrow> (case f target of (ok, v) \<Rightarrow> if ok then (True, v) else as_wrapped assign as_method w v)))"
| "as_wrapped assign as_method NoUnwrap target = (False, target)"
| "as_wrapped assign as_method (UnwrapOne None) target = (False, target)"
| "as_wrapped assign as_method (UnwrapOne (Some e)) target = as_tree assign as_method e target"
| "as_wrapped assign as_method (UnwrapMany errs) target = as_any assign as_method errs target"
| "as_any assign as_method [] target = (False, target)"
| "as_any assign as_method (None # errs) target = as_any assign as_method errs target"
| "as_any assign as_method (Some e # errs) target =
     (case as_tree assign as_method e target of
        (ok, v) \<Rightarrow> if ok then (True, v) else as_any assign as_method errs v)"

definition As ::
  "(error \<Rightarrow> 't \<Rightarrow> 't option) \<Rightarrow> (nat \<Rightarrow> ('t \<Rightarrow> bool \<times> 't) option) \<Rightarrow> error option \<Rightarrow> 't option \<Rightarrow> (bool \<times> 't option) res" where
  "As assign as_method err target =
     (case err of
        None \<Rightarrow> Inr (False, target)
      | Some e \<Rightarrow>
          (case target of
             None \<Rightarrow> Inl (ThrownError ''errors: target cannot be nil'')
           | Some t \<Rightarrow> (case as_tree assign as_method e t of (ok, v) \<Rightarrow> Inr (ok, Some v))))"

text \<open>\<open>AsType\<close>: \<open>assert\<close> is the type assertion to the type argument, \<open>zero\<close> its zero value.\<close>

fun asType :: "(error \<Rightarrow> 'a option) \<Rightarrow> 'a \<Rightarrow> error \<Rightarrow> 'a \<times> bool"
  and asType_wrapped :: "(error \<Rightarrow> 'a option) \<Rightarrow> 'a \<Rightarrow> unwrap \<Rightarrow> 'a \<times> bool"
  and asType_any :: "(error \<Rightarrow> 'a option) \<Rightarrow> 'a \<Rightarrow> error option list \<Rightarrow> 'a \<times> bool" where
  "asType assert zero (GoError i msg w) =
     (case assert (GoError i msg w) of Some v \<Rightarrow> (v, True) | None \<Rightarrow> asType_wrapped assert zero w)"
| "asType_wrapped assert zero NoUnwrap = (zero, False)"
| "asType_wrapped assert zero (UnwrapOne None) = (zero, False)"
| "asType_wrapped assert zero (UnwrapOne (Some e)) = asType assert zero e"
| "asType_wrapped assert zero (UnwrapMany errs) = asType_any assert zero errs"
| "asType_any assert zero [] = (zero, False)"
| "asType_any assert zero (None # errs) = asType_any assert zero errs"
| "asType_any assert zero (Some e # errs) =
     (case asType assert zero e of (v, ok) \<Rightarrow> if ok then (v, True) else asType_any assert zero errs)"

definition AsType :: "(error \<Rightarrow> 'a option) option \<Rightarrow> 'a \<Rightarrow> error option \<Rightarrow> 'a \<times> bool" where
  "AsType assert zero err =
     (case (err, assert) of (Some e, Some a) \<Rightarrow> asType a zero e | _ \<Rightarrow> (zero, False))"

subsection \<open>The tree in depth-first order\<close>

fun nodes :: "error \<Rightarrow> error list"
  and wrapped_nodes :: "unwrap \<Rightarrow> error list"
  and list_nodes :: "error option list \<Rightarrow> error list" where
  "nodes (GoError i msg w) = GoError i msg w # wrapped_nodes w"
| "wrapped_nodes NoUnwrap = []"
| "wrapped_nodes (UnwrapOne None) = []"
| "wrapped_nodes (UnwrapOne (Some e)) = nodes e"
| "wrapped_nodes (UnwrapMany errs) = list_nodes errs"
| "list_nodes [] = []"
| "list_nodes (None # errs) = list_nodes errs"
| "list_nodes (Some e # errs) = nodes e @ list_nodes errs"

text \<open>The first node at which the step succeeds; a step that fails may change the target.\<close>

fun first_match :: "('e \<Rightarrow> 't \<Rightarrow> bool \<times> 't) \<Rightarrow> 'e list \<Rightarrow> 't \<Rightarrow> bool \<times> 't" where
  "first_match f [] t = (False, t)"
| "first_match f (e # es) t = (case f e t of (ok, v) \<Rightarrow> if ok then (True, v) else first_match f es v)"

lemma first_match_append:
  "first_match f (xs @ ys) t = (case first_match f xs t of (ok, v) \<Rightarrow> if ok then (True, v) else first_match f ys v)"
  by (induction xs arbitrary: t) (auto split: prod.splits)

definition matches :: "(nat \<Rightarrow> (nat \<Rightarrow> bool) option) \<Rightarrow> nat \<Rightarrow> error \<Rightarrow> bool" where
  "matches is_method target e \<longleftrightarrow>
     ident e = target \<or> (case is_method (ident e) of Some f \<Rightarrow> f target | None \<Rightarrow> False)"

definition visit ::
  "(error \<Rightarrow> 't \<Rightarrow> 't option) \<Rightarrow> (nat \<Rightarrow> ('t \<Rightarrow> bool \<times> 't) option) \<Rightarrow> error \<Rightarrow> 't \<Rightarrow> bool \<times> 't" where
  "visit assign as_method e t =
     (case assign e t of Some v \<Rightarrow> (True, v)
      | None \<Rightarrow> (case as_method (ident e) of None \<Rightarrow> (False, t) | Some f \<Rightarrow> f t))"

lemma is_nodes:
  "is_tree m t e \<longleftrightarrow> list_ex (matches m t) (nodes e)"
  "is_wrapped m t w \<longleftrightarrow> list_ex (matches m t) (wrapped_nodes w)"
  "is_any m t errs \<longleftrightarrow> list_ex (matches m t) (list_nodes errs)"
  by (induction m t e and m t w and m t errs rule: is_tree_is_wrapped_is_any.induct)
    (simp_all add: matches_def)

lemma as_nodes:
  "as_tree a m e t = first_match (visit a m) (nodes e) t"
  "as_wrapped a m w t = first_match (visit a m) (wrapped_nodes w) t"
  "as_any a m errs t = first_match (visit a m) (list_nodes errs) t"
  by (induction a m e t and a m w t and a m errs t rule: as_tree_as_wrapped_as_any.induct)
    (auto simp: visit_def first_match_append split: option.splits prod.splits)

definition look :: "(error \<Rightarrow> 'a option) \<Rightarrow> error \<Rightarrow> 'a \<Rightarrow> bool \<times> 'a" where
  "look assert e t = (case assert e of Some v \<Rightarrow> (True, v) | None \<Rightarrow> (False, t))"

lemma first_match_look: "fst (first_match (look a) es t) \<or> first_match (look a) es t = (False, t)"
  by (induction es arbitrary: t) (auto simp: look_def split: option.splits)

lemma look_append:
  "prod.swap (first_match (look a) (xs @ ys) z) =
   (case prod.swap (first_match (look a) xs z) of (v, ok) \<Rightarrow> if ok then (v, True) else prod.swap (first_match (look a) ys z))"
  using first_match_look [of a xs z] by (auto simp: first_match_append split: prod.splits)

lemma look_Cons:
  "first_match (look a) (e # es) z = (case a e of Some v \<Rightarrow> (True, v) | None \<Rightarrow> first_match (look a) es z)"
  by (simp add: look_def split: option.splits)

lemma asType_nodes:
  "asType a z e = prod.swap (first_match (look a) (nodes e) z)"
  "asType_wrapped a z w = prod.swap (first_match (look a) (wrapped_nodes w) z)"
  "asType_any a z errs = prod.swap (first_match (look a) (list_nodes errs) z)"
  by (induction a z e and a z w and a z errs rule: asType_asType_wrapped_asType_any.induct)
    (auto simp: look_Cons look_append simp del: first_match.simps(2) split: option.splits prod.splits)

text \<open>C30. The searches visit the tree of an error depth first, in the order of the wrapped
  errors, and stop at the first match: \<open>Is\<close> tells whether some node is the target or declares
  itself equal to it; \<open>As\<close> assigns the first node that matches (or that its \<open>As\<close> method
  assigned); \<open>AsType\<close> returns the first node that has the type, or the zero value.\<close>

theorem error_search:
  "Is m (Some e) (Some t) = list_ex (matches m (ident t)) (nodes e) \<and>
   Is m None (Some t) = False \<and> Is m err None = (err = None) \<and>
   As a am (Some e) (Some v) = (case first_match (visit a am) (nodes e) v of (ok, v') \<Rightarrow> Inr (ok, Some v')) \<and>
   As a am None target = Inr (False, target) \<and>
   As a am (Some e) None = Inl (ThrownError ''errors: target cannot be nil'') \<and>
   AsType (Some b) z (Some e) = prod.swap (first_match (look b) (nodes e) z) \<and>
   AsType (Some b) z None = (z, False)"
  by (simp add: Is_def As_def AsType_def is_nodes as_nodes asType_nodes)

subsection \<open>Wrapped and joined errors\<close>

lemma list_nodes_Some: "list_nodes (map Some es) = concat (map nodes es)"
  by (induction es) auto

lemma Is_Some: "Is m (Some e) (Some t) = list_ex (matches m (ident t)) (nodes e)"
  by (simp add: Is_def is_nodes)

lemma Is_non_nil: "list_ex (\<lambda>e. Is m e (Some t)) errs = list_ex (\<lambda>e. Is m (Some e) (Some t)) [e. Some e \<leftarrow> errs]"
  by (induction errs) (auto simp: Is_def split: option.splits)

lemma Join_cases:
  "Join errs n = (None, n) \<and> [e. Some e \<leftarrow> errs] = [] \<or>
   (\<exists>e. Join errs n = (Some e, n) \<and> [e. Some e \<leftarrow> errs] = [e]) \<or>
   (\<exists>a b es. [e. Some e \<leftarrow> errs] = a # b # es \<and>
     Join errs n = (Some (GoError n (join_lines (map Error (a # b # es))) (UnwrapMany (map Some (a # b # es)))), Suc n))"
  unfolding Join_def Let_def by (cases "[e. Some e \<leftarrow> errs]"; cases "tl [e. Some e \<leftarrow> errs]") auto

text \<open>Wrapping and joining keep what the errors match: a target that already exists is found
  in the wrapped or joined error just when it is found in a part. A wrapped error unwraps
  to the error, with the message in front; nil stays nil; the join of errors is nil just when
  all are, and has their texts as its lines.\<close>

theorem wrap_join_spec:
  assumes "ident t < n" "m n = None"
  shows "Is m (fst (Wrap err msg n)) (Some t) = Is m err (Some t) \<and>
    Unwrap (fst (Wrap err msg n)) = err \<and>
    map_option Error (fst (Wrap err msg n)) = map_option (\<lambda>e. msg @ '': '' @ Error e) err \<and>
    Is m (fst (Join errs n)) (Some t) = list_ex (\<lambda>e. Is m e (Some t)) errs \<and>
    map_option Error (fst (Join errs n)) =
      (if list_all (\<lambda>e. e = None) errs then None else Some (join_lines (map Error [e. Some e \<leftarrow> errs])))"
proof -
  have fresh: "\<not> matches m (ident t) (GoError n msg w)" for msg w
    using assms by (simp add: matches_def)
  have all: "list_all (\<lambda>e. e = None) errs = ([e. Some e \<leftarrow> errs] = [])"
    by (induction errs) (auto split: option.splits)
  have w: "Is m (fst (Wrap err msg n)) (Some t) = Is m err (Some t)"
    using fresh by (cases err) (auto simp: Wrap_def wrapError_def Is_Some)
  have j: "Is m (fst (Join errs n)) (Some t) = list_ex (\<lambda>e. Is m e (Some t)) errs"
    unfolding Is_non_nil using Join_cases [of errs n]
  proof (elim disjE exE conjE)
    fix a b es
    assume "[e. Some e \<leftarrow> errs] = a # b # es"
      "Join errs n = (Some (GoError n (join_lines (map Error (a # b # es))) (UnwrapMany (map Some (a # b # es)))), Suc n)"
    then show "Is m (fst (Join errs n)) (Some t) = list_ex (\<lambda>e. Is m (Some e) (Some t)) [e. Some e \<leftarrow> errs]"
      using fresh by (auto simp: Is_Some list_nodes_Some list_ex_iff)
  qed (simp_all only: Is_def fst_conv list_ex_iff list.set empty_iff insert_iff option.case bex_simps simp_thms)
  have "map_option Error (fst (Join errs n)) =
      (if list_all (\<lambda>e. e = None) errs then None else Some (join_lines (map Error [e. Some e \<leftarrow> errs])))"
    unfolding all using Join_cases [of errs n] by (elim disjE exE conjE) simp_all
  then show ?thesis using w j by (cases err) (simp_all add: Wrap_def wrapError_def Unwrap_def)
qed

theorem wrap_join_spec_witness:
  "Is (\<lambda>_. None) (fst (Join [None, Some (GoError 1 ''a'' NoUnwrap), Some (GoError 2 ''b'' NoUnwrap)] 3)) (Some (GoError 2 ''b'' NoUnwrap))"
  using wrap_join_spec [of "GoError 2 ''b'' NoUnwrap" 3 "\<lambda>_. None" None "[]"
      "[None, Some (GoError 1 ''a'' NoUnwrap), Some (GoError 2 ''b'' NoUnwrap)]"]
  by (simp add: Is_def)

text \<open>\<open>Unwrap\<close> of a joined error is its first part, and the join of one error is that error:
  Go's Unwrap returns nil there, for joined errors have only the list form of the method, and
  its Join wraps a single error too.\<close>

lemma Unwrap_joined_first:
  "Unwrap (fst (Join [Some (GoError i s v), Some (GoError j r w)] n)) = Some (GoError i s v)"
  "Join [Some (GoError i s v)] n = (Some (GoError i s v), n)"
  by (simp_all add: Join_def Let_def Unwrap_def)

end
