(* ===== verification/GsContext.thy ===== *)
theory GsContext
  imports GsValue
begin

section \<open>Package context (gs/context/context.ts)\<close>

text \<open>
  The links from a context to its parent never change, so a context is a tree; the mutable
  fields of a \<open>cancelContext\<close> are in a store, under the number given to it when it is made.
  A \<open>CustomCtx\<close> is a program's own implementation of the interface. Times are instants in
  nanoseconds. The done channel of a cancel context is only ever closed.
\<close>

datatype ctx_error = Canceled | DeadlineExceeded | UserError nat

datatype 'v ctx =
    BackgroundCtx
  | ValueCtx "'v ctx" jsv "'v option"
  | CancelCtx nat "'v ctx"
  | TimerCtx nat "'v ctx" int
  | WithoutCancelCtx "'v ctx"
  | CustomCtx nat "int option" "jsv \<Rightarrow> 'v option"

record 'v ctx_store =
  next_ctx :: nat
  made :: "nat \<Rightarrow> 'v ctx"
  ctx_err :: "nat \<Rightarrow> ctx_error option"
  ctx_cause :: "nat \<Rightarrow> ctx_error option"
  done_closed :: "nat \<Rightarrow> bool"
  children :: "nat \<Rightarrow> nat list"
  removeFromParent :: "nat \<Rightarrow> nat option"
  timer_set :: "nat \<Rightarrow> bool"
  watchers :: "nat list"
  custom_done :: "nat \<Rightarrow> bool"
  custom_err :: "nat \<Rightarrow> ctx_error option"

subsection \<open>The methods of the interface\<close>

fun Deadline :: "'v ctx \<Rightarrow> int option" where
  "Deadline BackgroundCtx = None"
| "Deadline (ValueCtx parent key val) = Deadline parent"
| "Deadline (CancelCtx i parent) = Deadline parent"
| "Deadline (TimerCtx i parent deadline) = Some deadline"
| "Deadline (WithoutCancelCtx parent) = None"
| "Deadline (CustomCtx k deadline val) = deadline"

text \<open>Whether the channel \<open>Done\<close> returns is closed.\<close>

fun is_done :: "'v ctx_store \<Rightarrow> 'v ctx \<Rightarrow> bool" where
  "is_done w BackgroundCtx = False"
| "is_done w (ValueCtx parent key val) = is_done w parent"
| "is_done w (CancelCtx i parent) = done_closed w i"
| "is_done w (TimerCtx i parent deadline) = done_closed w i"
| "is_done w (WithoutCancelCtx parent) = False"
| "is_done w (CustomCtx k deadline val) = custom_done w k"

fun Err :: "'v ctx_store \<Rightarrow> 'v ctx \<Rightarrow> ctx_error option" where
  "Err w BackgroundCtx = None"
| "Err w (ValueCtx parent key val) = Err w parent"
| "Err w (CancelCtx i parent) = ctx_err w i"
| "Err w (TimerCtx i parent deadline) = ctx_err w i"
| "Err w (WithoutCancelCtx parent) = None"
| "Err w (CustomCtx k deadline val) = custom_err w k"

fun Value :: "'v ctx \<Rightarrow> jsv \<Rightarrow> 'v option" where
  "Value BackgroundCtx k = None"
| "Value (ValueCtx parent key val) k = (if strict_eq key k \<or> comparableEqual key k then val else Value parent k)"
| "Value (CancelCtx i parent) k = Value parent k"
| "Value (TimerCtx i parent deadline) k = Value parent k"
| "Value (WithoutCancelCtx parent) k = Value parent k"
| "Value (CustomCtx c deadline val) k = val k"

definition getCause :: "'v ctx_store \<Rightarrow> nat \<Rightarrow> ctx_error option" where
  "getCause w i = (case ctx_cause w i of Some c \<Rightarrow> Some c | None \<Rightarrow> ctx_err w i)"

text \<open>The value contexts are unwrapped before a context is tested for being a cancel context.\<close>

fun unwrap_values :: "'v ctx \<Rightarrow> 'v ctx" where
  "unwrap_values (ValueCtx parent key val) = unwrap_values parent"
| "unwrap_values c = c"

definition cancel_id :: "'v ctx \<Rightarrow> nat option" where
  "cancel_id c = (case c of CancelCtx i _ \<Rightarrow> Some i | TimerCtx i _ _ \<Rightarrow> Some i | _ \<Rightarrow> None)"

definition Cause :: "'v ctx_store \<Rightarrow> 'v ctx option \<Rightarrow> ctx_error option" where
  "Cause w ctx =
     (case ctx of None \<Rightarrow> None
      | Some c \<Rightarrow> (case cancel_id (unwrap_values c) of Some i \<Rightarrow> getCause w i | None \<Rightarrow> Err w (unwrap_values c)))"

subsection \<open>Cancellation\<close>

text \<open>\<open>cancel\<close> of a cancel context and its override in \<open>timerContext\<close>, which clears the timer
  after the inherited method (other contexts have none). The recursion goes to the children,
  which are younger than their parent: the number of contexts is fuel enough.\<close>

fun cancel :: "nat \<Rightarrow> bool \<Rightarrow> ctx_error \<Rightarrow> ctx_error option \<Rightarrow> nat \<Rightarrow> 'v ctx_store \<Rightarrow> 'v ctx_store" where
  "cancel 0 remove e c i w = w"
| "cancel (Suc fuel) remove e c i w =
     (let w1 =
        (if ctx_err w i \<noteq> None then w
         else
           let w1 = w\<lparr>ctx_err := (ctx_err w)(i := Some e), ctx_cause := (ctx_cause w)(i := c),
                     done_closed := (done_closed w)(i := True)\<rparr>;
               w2 = fold (cancel fuel False e c) (children w i) w1;
               w3 = w2\<lparr>children := (children w2)(i := [])\<rparr> in
           (case (remove, removeFromParent w3 i) of
              (True, Some p) \<Rightarrow>
                w3\<lparr>children := (children w3)(p := removeAll i (children w3 p)),
                   removeFromParent := (removeFromParent w3)(i := None)\<rparr>
            | _ \<Rightarrow> w3))
      in w1\<lparr>timer_set := (timer_set w1)(i := False)\<rparr>)"

definition cancel_ctx :: "bool \<Rightarrow> ctx_error \<Rightarrow> ctx_error option \<Rightarrow> nat \<Rightarrow> 'v ctx_store \<Rightarrow> 'v ctx_store" where
  "cancel_ctx remove e c i w = cancel (Suc (next_ctx w)) remove e c i w"

definition propagateCancel :: "nat \<Rightarrow> 'v ctx \<Rightarrow> 'v ctx_store \<Rightarrow> 'v ctx_store" where
  "propagateCancel i parent w =
     (case cancel_id (unwrap_values parent) of
        Some p \<Rightarrow>
          (case ctx_err w p of
             Some e \<Rightarrow> cancel_ctx False e (ctx_cause w p) i w
           | None \<Rightarrow> w\<lparr>children := (children w)(p := children w p @ [i]),
                      removeFromParent := (removeFromParent w)(i := Some p)\<rparr>)
      | None \<Rightarrow> w\<lparr>watchers := watchers w @ [i]\<rparr>)"

text \<open>The rest of \<open>watchParentDone\<close>, once the receive from the parent's channel has returned.\<close>

definition parent_done :: "nat \<Rightarrow> 'v ctx \<Rightarrow> 'v ctx_store \<Rightarrow> 'v ctx_store" where
  "parent_done i parent w =
     (let w1 = w\<lparr>watchers := removeAll i (watchers w)\<rparr> in
      case Err w parent of
        None \<Rightarrow> w1
      | Some e \<Rightarrow> if ctx_err w i = None then cancel_ctx False e None i w1 else w1)"

subsection \<open>The constructors\<close>

text \<open>The constructor of a cancel context: its fields start empty.\<close>

definition new_cancel_ctx :: "(nat \<Rightarrow> 'v ctx) \<Rightarrow> 'v ctx_store \<Rightarrow> nat \<times> 'v ctx_store" where
  "new_cancel_ctx mk w =
     (let i = next_ctx w in
      (i, w\<lparr>next_ctx := Suc i, made := (made w)(i := mk i), ctx_err := (ctx_err w)(i := None),
           ctx_cause := (ctx_cause w)(i := None), done_closed := (done_closed w)(i := False),
           children := (children w)(i := []), removeFromParent := (removeFromParent w)(i := None),
           timer_set := (timer_set w)(i := False)\<rparr>))"

text \<open>A returned cancel function is the number of its context and the cause it passes on.\<close>

type_synonym cancel_func = "nat \<times> ctx_error option"

definition nil_parent :: js_exn where
  "nil_parent = ThrownError ''cannot create context from nil parent''"

definition WithCancel :: "'v ctx option \<Rightarrow> 'v ctx_store \<Rightarrow> (('v ctx \<times> cancel_func) \<times> 'v ctx_store) res" where
  "WithCancel parent w =
     (case parent of None \<Rightarrow> Inl nil_parent
      | Some p \<Rightarrow>
          (case new_cancel_ctx (\<lambda>i. CancelCtx i p) w of
             (i, w1) \<Rightarrow> Inr ((CancelCtx i p, (i, None)), propagateCancel i p w1)))"

text \<open>The cancel function of \<open>WithCancelCause\<close> takes the cause: only the number is returned.\<close>

definition WithCancelCause :: "'v ctx option \<Rightarrow> 'v ctx_store \<Rightarrow> (('v ctx \<times> nat) \<times> 'v ctx_store) res" where
  "WithCancelCause parent w =
     bindR (WithCancel parent w) (\<lambda>((c, f), w1). Inr ((c, fst f), w1))"

definition call_cancel :: "cancel_func \<Rightarrow> 'v ctx_store \<Rightarrow> 'v ctx_store" where
  "call_cancel f w = cancel_ctx True Canceled (snd f) (fst f) w"

definition startTimer :: "nat \<Rightarrow> int \<Rightarrow> int \<Rightarrow> 'v ctx_store \<Rightarrow> 'v ctx_store" where
  "startTimer i deadline now w =
     (if deadline - now \<le> 0 then cancel_ctx True DeadlineExceeded None i w
      else w\<lparr>timer_set := (timer_set w)(i := True)\<rparr>)"

definition timer_fires :: "nat \<Rightarrow> 'v ctx_store \<Rightarrow> 'v ctx_store" where
  "timer_fires i w = cancel_ctx True DeadlineExceeded None i w"

definition WithDeadlineCause ::
  "int \<Rightarrow> 'v ctx option \<Rightarrow> int \<Rightarrow> ctx_error option \<Rightarrow> 'v ctx_store \<Rightarrow> (('v ctx \<times> cancel_func) \<times> 'v ctx_store) res" where
  "WithDeadlineCause now parent d cause w =
     (case parent of None \<Rightarrow> Inl nil_parent
      | Some p \<Rightarrow>
          if (case Deadline p of Some pd \<Rightarrow> pd < d \<or> pd = d | None \<Rightarrow> False) then WithCancel parent w
          else (case new_cancel_ctx (\<lambda>i. TimerCtx i p d) w of
             (i, w1) \<Rightarrow> Inr ((TimerCtx i p d, (i, cause)), startTimer i d now (propagateCancel i p w1))))"

definition WithDeadline ::
  "int \<Rightarrow> 'v ctx option \<Rightarrow> int \<Rightarrow> 'v ctx_store \<Rightarrow> (('v ctx \<times> cancel_func) \<times> 'v ctx_store) res" where
  "WithDeadline now parent d = WithDeadlineCause now parent d None"

definition WithTimeout ::
  "int \<Rightarrow> 'v ctx option \<Rightarrow> int \<Rightarrow> 'v ctx_store \<Rightarrow> (('v ctx \<times> cancel_func) \<times> 'v ctx_store) res" where
  "WithTimeout now parent timeout = WithDeadline now parent (now + timeout)"

definition WithTimeoutCause ::
  "int \<Rightarrow> 'v ctx option \<Rightarrow> int \<Rightarrow> ctx_error option \<Rightarrow> 'v ctx_store \<Rightarrow> (('v ctx \<times> cancel_func) \<times> 'v ctx_store) res" where
  "WithTimeoutCause now parent timeout cause = WithDeadlineCause now parent (now + timeout) cause"

definition WithValue :: "'v ctx option \<Rightarrow> jsv \<Rightarrow> 'v option \<Rightarrow> 'v ctx res" where
  "WithValue parent key val = (case parent of None \<Rightarrow> Inl nil_parent | Some p \<Rightarrow> Inr (ValueCtx p key val))"

definition WithoutCancel :: "'v ctx option \<Rightarrow> 'v ctx res" where
  "WithoutCancel parent = (case parent of None \<Rightarrow> Inl nil_parent | Some p \<Rightarrow> Inr (WithoutCancelCtx p))"

subsection \<open>What one cancellation changes\<close>

definition child :: "'v ctx_store \<Rightarrow> (nat \<times> nat) set" where
  "child w = {(p, k). k \<in> set (children w p)}"

definition younger :: "'v ctx_store \<Rightarrow> bool" where
  "younger w \<longleftrightarrow> (\<forall>p. \<forall>k\<in>set (children w p). p < k \<and> k < next_ctx w)"

definition same_rest :: "'v ctx_store \<Rightarrow> 'v ctx_store \<Rightarrow> bool" where
  "same_rest w w' \<longleftrightarrow> next_ctx w' = next_ctx w \<and> made w' = made w \<and> removeFromParent w' = removeFromParent w \<and>
     (\<forall>j. timer_set w' j \<longrightarrow> timer_set w j) \<and> watchers w' = watchers w \<and> custom_done w' = custom_done w \<and> custom_err w' = custom_err w"

definition cancelled_more :: "ctx_error \<Rightarrow> ctx_error option \<Rightarrow> 'v ctx_store \<Rightarrow> 'v ctx_store \<Rightarrow> bool" where
  "cancelled_more e c w w' \<longleftrightarrow> same_rest w w' \<and>
     (\<forall>j. if ctx_err w' j = ctx_err w j
          then ctx_cause w' j = ctx_cause w j \<and> done_closed w' j = done_closed w j \<and> children w' j = children w j
          else ctx_err w j = None \<and> ctx_err w' j = Some e \<and> ctx_cause w' j = c \<and> done_closed w' j \<and>
               children w' j = [] \<and> (\<forall>k\<in>set (children w j). ctx_err w' k \<noteq> None))"

lemma cancelled_more_refl [simp]: "cancelled_more e c w w"
  by (simp add: cancelled_more_def same_rest_def)

lemma cancelled_moreD:
  assumes "cancelled_more e c w w'"
  shows "ctx_err w j = Some x \<Longrightarrow> ctx_err w' j = Some x" "same_rest w w'"
    "ctx_err w' j = ctx_err w j \<Longrightarrow> ctx_cause w' j = ctx_cause w j \<and> done_closed w' j = done_closed w j \<and> children w' j = children w j"
    "ctx_err w' j \<noteq> ctx_err w j \<Longrightarrow> ctx_err w j = None \<and> ctx_err w' j = Some e \<and> ctx_cause w' j = c \<and> done_closed w' j \<and>
      children w' j = []"
    "ctx_err w' j \<noteq> ctx_err w j \<Longrightarrow> k \<in> set (children w j) \<Longrightarrow> ctx_err w' k \<noteq> None"
    "set (children w' j) \<subseteq> set (children w j)"
proof -
  have j: "if ctx_err w' j = ctx_err w j
      then ctx_cause w' j = ctx_cause w j \<and> done_closed w' j = done_closed w j \<and> children w' j = children w j
      else ctx_err w j = None \<and> ctx_err w' j = Some e \<and> ctx_cause w' j = c \<and> done_closed w' j \<and>
           children w' j = [] \<and> (\<forall>k\<in>set (children w j). ctx_err w' k \<noteq> None)"
    using assms unfolding cancelled_more_def by blast
  show "ctx_err w j = Some x \<Longrightarrow> ctx_err w' j = Some x"
    "ctx_err w' j = ctx_err w j \<Longrightarrow> ctx_cause w' j = ctx_cause w j \<and> done_closed w' j = done_closed w j \<and> children w' j = children w j"
    "ctx_err w' j \<noteq> ctx_err w j \<Longrightarrow> ctx_err w j = None \<and> ctx_err w' j = Some e \<and> ctx_cause w' j = c \<and> done_closed w' j \<and>
      children w' j = []"
    "ctx_err w' j \<noteq> ctx_err w j \<Longrightarrow> k \<in> set (children w j) \<Longrightarrow> ctx_err w' k \<noteq> None"
    "set (children w' j) \<subseteq> set (children w j)"
    using j by (auto split: if_splits)
  show "same_rest w w'" using assms unfolding cancelled_more_def by blast
qed

lemma cancelled_more_trans:
  assumes "cancelled_more e c w w1" "cancelled_more e c w1 w2"
  shows "cancelled_more e c w w2"
proof -
  have "if ctx_err w2 j = ctx_err w j
      then ctx_cause w2 j = ctx_cause w j \<and> done_closed w2 j = done_closed w j \<and> children w2 j = children w j
      else ctx_err w j = None \<and> ctx_err w2 j = Some e \<and> ctx_cause w2 j = c \<and> done_closed w2 j \<and>
           children w2 j = [] \<and> (\<forall>k\<in>set (children w j). ctx_err w2 k \<noteq> None)" for j
  proof (cases "ctx_err w1 j = ctx_err w j")
    case True
    note t = cancelled_moreD(3) [OF assms(1) True]
    show ?thesis
    proof (cases "ctx_err w2 j = ctx_err w1 j")
      case True
      with t cancelled_moreD(3) [OF assms(2) True] \<open>ctx_err w1 j = ctx_err w j\<close> show ?thesis by simp
    next
      case False
      with t cancelled_moreD(4) [OF assms(2) False] cancelled_moreD(5) [OF assms(2) False] \<open>ctx_err w1 j = ctx_err w j\<close>
      show ?thesis by auto
    qed
  next
    case False
    note f = cancelled_moreD(4) [OF assms(1) False]
    then have s: "ctx_err w2 j = ctx_err w1 j" using cancelled_moreD(1) [OF assms(2)] by simp
    have "ctx_err w2 k \<noteq> None" if "k \<in> set (children w j)" for k
      using cancelled_moreD(5) [OF assms(1) False that] cancelled_moreD(1) [OF assms(2), of k] by auto
    with f s cancelled_moreD(3) [OF assms(2) s] show ?thesis by auto
  qed
  moreover have "same_rest w w2"
    using cancelled_moreD(2) [OF assms(1)] cancelled_moreD(2) [OF assms(2)] by (simp add: same_rest_def)
  ultimately show ?thesis unfolding cancelled_more_def by blast
qed

lemma cancelled_more_younger: "cancelled_more e c w w' \<Longrightarrow> younger w \<Longrightarrow> younger w'"
  using cancelled_moreD(2,6) unfolding younger_def same_rest_def by (metis subsetD)

lemma cancelled_more_child: "cancelled_more e c w w' \<Longrightarrow> (child w')\<^sup>* \<subseteq> (child w)\<^sup>*"
  using cancelled_moreD(6) unfolding child_def by (intro rtrancl_mono) blast

lemma cancel_list_effects:
  assumes step: "\<And>k w. younger w \<Longrightarrow> i < k \<Longrightarrow> k < next_ctx w \<Longrightarrow> next_ctx w = n \<Longrightarrow>
      cancelled_more e c w (f k w) \<and> ctx_err (f k w) k \<noteq> None \<and>
      (\<forall>j. ctx_err (f k w) j \<noteq> ctx_err w j \<longrightarrow> (k, j) \<in> (child w)\<^sup>*)"
  shows "younger w \<Longrightarrow> \<forall>k\<in>set cs. i < k \<and> k < n \<Longrightarrow> next_ctx w = n \<Longrightarrow>
    cancelled_more e c w (fold f cs w) \<and> (\<forall>k\<in>set cs. ctx_err (fold f cs w) k \<noteq> None) \<and>
    (\<forall>j. ctx_err (fold f cs w) j \<noteq> ctx_err w j \<longrightarrow> (\<exists>k\<in>set cs. (k, j) \<in> (child w)\<^sup>*))"
proof (induction cs arbitrary: w)
  case (Cons k cs)
  let ?w1 = "f k w" and ?w2 = "fold f cs (f k w)"
  have 1: "cancelled_more e c w ?w1" "ctx_err ?w1 k \<noteq> None"
    "\<And>j. ctx_err ?w1 j \<noteq> ctx_err w j \<Longrightarrow> (k, j) \<in> (child w)\<^sup>*"
    using step [of w k] Cons.prems by auto
  have n1: "next_ctx ?w1 = n" using cancelled_moreD(2) [OF 1(1)] Cons.prems(3) by (simp add: same_rest_def)
  have 2: "cancelled_more e c ?w1 ?w2" "\<forall>k\<in>set cs. ctx_err ?w2 k \<noteq> None"
    "\<And>j. ctx_err ?w2 j \<noteq> ctx_err ?w1 j \<Longrightarrow> \<exists>k\<in>set cs. (k, j) \<in> (child ?w1)\<^sup>*"
    using Cons.IH [of ?w1] cancelled_more_younger [OF 1(1)] Cons.prems n1 by auto
  have "ctx_err ?w2 k \<noteq> None" using 1(2) cancelled_moreD(1) [OF 2(1), of k] by auto
  moreover have "\<exists>k\<in>set (k # cs). (k, j) \<in> (child w)\<^sup>*" if "ctx_err ?w2 j \<noteq> ctx_err w j" for j
  proof (cases "ctx_err ?w1 j = ctx_err w j")
    case True
    with that 2(3) [of j] cancelled_more_child [OF 1(1)] show ?thesis by auto
  qed (use 1(3) in auto)
  ultimately show ?case using cancelled_more_trans [OF 1(1) 2(1)] 2(2) by simp
qed simp

lemma cancel_effects:
  "younger w \<Longrightarrow> i < next_ctx w \<Longrightarrow> next_ctx w \<le> fuel + i \<Longrightarrow>
   cancelled_more e c w (cancel fuel False e c i w) \<and> ctx_err (cancel fuel False e c i w) i \<noteq> None \<and>
   (\<forall>j. ctx_err (cancel fuel False e c i w) j \<noteq> ctx_err w j \<longrightarrow> (i, j) \<in> (child w)\<^sup>*)"
proof (induction fuel arbitrary: i w)
  case (Suc fuel)
  show ?case
  proof (cases "ctx_err w i")
    case (Some x)
    then show ?thesis by (simp add: cancelled_more_def same_rest_def)
  next
    case None
    define w1 where "w1 = w\<lparr>ctx_err := (ctx_err w)(i := Some e), ctx_cause := (ctx_cause w)(i := c),
      done_closed := (done_closed w)(i := True)\<rparr>"
    define w2 where "w2 = fold (cancel fuel False e c) (children w i) w1"
    have w1: "next_ctx w1 = next_ctx w" "children w1 = children w" "child w1 = child w"
      by (simp_all add: w1_def child_def)
    have "cancelled_more e c w1 w2 \<and> (\<forall>k\<in>set (children w i). ctx_err w2 k \<noteq> None) \<and>
      (\<forall>j. ctx_err w2 j \<noteq> ctx_err w1 j \<longrightarrow> (\<exists>k\<in>set (children w i). (k, j) \<in> (child w1)\<^sup>*))"
      unfolding w2_def
      by (rule cancel_list_effects [where i = i and n = "next_ctx w"])
        (use Suc.IH Suc.prems w1 in \<open>auto simp: younger_def\<close>)
    then have w2: "cancelled_more e c w1 w2" "\<And>k. k \<in> set (children w i) \<Longrightarrow> ctx_err w2 k \<noteq> None"
      "\<And>j. ctx_err w2 j \<noteq> ctx_err w1 j \<Longrightarrow> \<exists>k\<in>set (children w i). (k, j) \<in> (child w)\<^sup>*"
      unfolding w1(3) by blast+
    have i2: "ctx_err w2 i = Some e" using cancelled_moreD(1) [OF w2(1), of i] by (simp add: w1_def)
    then have i2': "ctx_cause w2 i = c" "done_closed w2 i"
      using cancelled_moreD(3) [OF w2(1), of i] by (simp_all add: w1_def)
    let ?w3 = "w2\<lparr>children := (children w2)(i := [])\<rparr>"
    have res: "cancel (Suc fuel) False e c i w = ?w3\<lparr>timer_set := (timer_set ?w3)(i := False)\<rparr>"
      using None by (simp add: w1_def [symmetric] w2_def [symmetric] Let_def)
    have rest: "if ctx_err w2 j = ctx_err w j
        then ctx_cause w2 j = ctx_cause w j \<and> done_closed w2 j = done_closed w j \<and> children w2 j = children w j
        else ctx_err w j = None \<and> ctx_err w2 j = Some e \<and> ctx_cause w2 j = c \<and> done_closed w2 j \<and>
          children w2 j = [] \<and> (\<forall>k\<in>set (children w j). ctx_err w2 k \<noteq> None)" if "j \<noteq> i" for j
      using that conjunct2 [OF w2(1) [unfolded cancelled_more_def], THEN spec, of j] by (auto simp: w1_def split: if_splits)
    let ?r = "?w3\<lparr>timer_set := (timer_set ?w3)(i := False)\<rparr>"
    have "if ctx_err ?r j = ctx_err w j
        then ctx_cause ?r j = ctx_cause w j \<and> done_closed ?r j = done_closed w j \<and> children ?r j = children w j
        else ctx_err w j = None \<and> ctx_err ?r j = Some e \<and> ctx_cause ?r j = c \<and> done_closed ?r j \<and>
          children ?r j = [] \<and> (\<forall>k\<in>set (children w j). ctx_err ?r k \<noteq> None)" for j
    proof (cases "j = i")
      case True
      then show ?thesis using i2 i2' None w2(2) by simp
    next
      case False
      then show ?thesis using rest [OF False] by simp
    qed
    moreover have "same_rest w ?r" using cancelled_moreD(2) [OF w2(1)] by (simp add: same_rest_def w1_def)
    ultimately have "cancelled_more e c w (cancel (Suc fuel) False e c i w)"
      unfolding res cancelled_more_def by blast
    moreover have "(i, j) \<in> (child w)\<^sup>*" if ch: "ctx_err w2 j \<noteq> ctx_err w j" for j
    proof (cases "j = i")
      case False
      then obtain k where "k \<in> set (children w i)" "(k, j) \<in> (child w)\<^sup>*"
        using w2(3) [of j] ch by (auto simp: w1_def)
      then show ?thesis by (auto simp: child_def intro: converse_rtrancl_into_rtrancl)
    qed simp
    ultimately show ?thesis using i2 unfolding res by simp
  qed
qed simp

subsection \<open>The tree of cancel contexts\<close>

fun ctx_ok :: "'v ctx_store \<Rightarrow> 'v ctx \<Rightarrow> bool" where
  "ctx_ok w BackgroundCtx = True"
| "ctx_ok w (ValueCtx parent key val) = ctx_ok w parent"
| "ctx_ok w (CancelCtx i parent) = (i < next_ctx w \<and> made w i = CancelCtx i parent \<and> ctx_ok w parent)"
| "ctx_ok w (TimerCtx i parent d) = (i < next_ctx w \<and> made w i = TimerCtx i parent d \<and> ctx_ok w parent)"
| "ctx_ok w (WithoutCancelCtx parent) = ctx_ok w parent"
| "ctx_ok w (CustomCtx k d val) = True"

lemma ctx_ok_grow:
  "ctx_ok w c \<Longrightarrow> \<forall>j<next_ctx w. made w' j = made w j \<Longrightarrow> next_ctx w \<le> next_ctx w' \<Longrightarrow> ctx_ok w' c"
  by (induction c) auto

fun cancel_parent :: "'v ctx \<Rightarrow> nat option" where
  "cancel_parent (CancelCtx i parent) = cancel_id (unwrap_values parent)"
| "cancel_parent (TimerCtx i parent d) = cancel_id (unwrap_values parent)"
| "cancel_parent c = None"

definition parent_id :: "'v ctx_store \<Rightarrow> nat \<Rightarrow> nat option" where
  "parent_id w i = cancel_parent (made w i)"

text \<open>The cancel contexts a context derives from, the nearest first.\<close>

fun cancel_chain :: "'v ctx \<Rightarrow> nat list" where
  "cancel_chain (ValueCtx parent key val) = cancel_chain parent"
| "cancel_chain (CancelCtx i parent) = i # cancel_chain parent"
| "cancel_chain (TimerCtx i parent d) = i # cancel_chain parent"
| "cancel_chain c = []"

lemma chain_unwrap: "cancel_chain (unwrap_values c) = cancel_chain c"
  by (induction c) auto

lemma ok_unwrap: "ctx_ok w c \<Longrightarrow> cancel_id (unwrap_values c) = Some p \<Longrightarrow> p < next_ctx w \<and> made w p = unwrap_values c"
  by (induction c) (auto simp: cancel_id_def)

lemma chain_none: "cancel_id (unwrap_values c) = None \<Longrightarrow> cancel_chain c = []"
  by (induction c) (auto simp: cancel_id_def)

definition tree_inv :: "'v ctx_store \<Rightarrow> bool" where
  "tree_inv w \<longleftrightarrow>
     (\<forall>i<next_ctx w. cancel_id (made w i) = Some i \<and> ctx_ok w (made w i) \<and> (done_closed w i \<longleftrightarrow> ctx_err w i \<noteq> None)) \<and>
     (\<forall>i<next_ctx w. \<forall>p. parent_id w i = Some p \<longrightarrow> p < i \<and>
        (ctx_err w i = None \<longrightarrow> ctx_err w p = None \<and> i \<in> set (children w p) \<and> removeFromParent w i = Some p)) \<and>
     (\<forall>p. \<forall>k\<in>set (children w p). k < next_ctx w \<and> parent_id w k = Some p \<and> ctx_err w k = None) \<and>
     (\<forall>p. distinct (children w p)) \<and>
     (\<forall>i p. removeFromParent w i = Some p \<longrightarrow> i < next_ctx w \<and> parent_id w i = Some p) \<and>
     (\<forall>i\<in>set (watchers w). i < next_ctx w \<and> parent_id w i = None) \<and>
     (\<forall>i. timer_set w i \<longrightarrow> i < next_ctx w)"

lemma tree_invD:
  assumes "tree_inv w"
  shows "i < next_ctx w \<Longrightarrow> cancel_id (made w i) = Some i" "i < next_ctx w \<Longrightarrow> ctx_ok w (made w i)"
    "i < next_ctx w \<Longrightarrow> done_closed w i \<longleftrightarrow> ctx_err w i \<noteq> None"
    "i < next_ctx w \<Longrightarrow> parent_id w i = Some p \<Longrightarrow> p < i"
    "i < next_ctx w \<Longrightarrow> parent_id w i = Some p \<Longrightarrow> ctx_err w i = None \<Longrightarrow>
       ctx_err w p = None \<and> i \<in> set (children w p) \<and> removeFromParent w i = Some p"
    "k \<in> set (children w p) \<Longrightarrow> k < next_ctx w \<and> parent_id w k = Some p \<and> ctx_err w k = None"
    "distinct (children w p)"
    "removeFromParent w i = Some p \<Longrightarrow> i < next_ctx w \<and> parent_id w i = Some p"
    "i \<in> set (watchers w) \<Longrightarrow> i < next_ctx w \<and> parent_id w i = None"
    "timer_set w i \<Longrightarrow> i < next_ctx w"
  using assms unfolding tree_inv_def by blast+

lemma tree_younger: "tree_inv w \<Longrightarrow> younger w"
  unfolding younger_def using tree_invD(4,6) by blast

lemma chain_step:
  assumes "tree_inv w" "i < next_ctx w"
  shows "cancel_chain (made w i) = i # (case parent_id w i of None \<Rightarrow> [] | Some p \<Rightarrow> cancel_chain (made w p))"
proof -
  have ok: "ctx_ok w (made w i)" "cancel_id (made w i) = Some i" using tree_invD(1,2) assms by blast+
  then obtain q where q: "cancel_chain (made w i) = i # cancel_chain q" "parent_id w i = cancel_id (unwrap_values q)" "ctx_ok w q"
    by (cases "made w i") (auto simp: cancel_id_def parent_id_def)
  show ?thesis
  proof (cases "cancel_id (unwrap_values q)")
    case None
    with q chain_none [of q] show ?thesis by simp
  next
    case (Some p)
    with q ok_unwrap [OF q(3) Some] chain_unwrap [of q] show ?thesis by simp
  qed
qed

lemma descendants:
  assumes "tree_inv w" "ctx_err w i = None" "i < next_ctx w" "j < next_ctx w"
  shows "(i, j) \<in> (child w)\<^sup>* \<longleftrightarrow> i \<in> set (cancel_chain (made w j)) \<and> ctx_err w j = None"
proof
  assume "(i, j) \<in> (child w)\<^sup>*"
  then show "i \<in> set (cancel_chain (made w j)) \<and> ctx_err w j = None"
  proof (induction rule: rtrancl_induct)
    case base
    then show ?case using chain_step [OF assms(1,3)] assms(2) by simp
  next
    case (step p k)
    then have "k \<in> set (children w p)" by (simp add: child_def)
    with tree_invD(6) [OF assms(1)] have "k < next_ctx w" "parent_id w k = Some p" "ctx_err w k = None" by blast+
    with step chain_step [OF assms(1), of k] show ?case by simp
  qed
next
  assume "i \<in> set (cancel_chain (made w j)) \<and> ctx_err w j = None"
  then show "(i, j) \<in> (child w)\<^sup>*" using assms(4)
  proof (induction j rule: less_induct)
    case (less j)
    show ?case
    proof (cases "i = j")
      case False
      with less.prems chain_step [OF assms(1), of j] obtain p where
        p: "parent_id w j = Some p" "i \<in> set (cancel_chain (made w p))"
        by (auto split: option.splits)
      with less.prems tree_invD(4,5) [OF assms(1), of j p]
      have "p < j" "ctx_err w p = None" "j \<in> set (children w p)" by auto
      with less.IH [of p] less.prems p show ?thesis by (auto simp: child_def intro: rtrancl_into_rtrancl)
    qed simp
  qed
qed

subsection \<open>The operations keep the tree\<close>

lemma same_rest_ids:
  "same_rest w w' \<Longrightarrow> parent_id w' i = parent_id w i" "same_rest w w' \<Longrightarrow> ctx_ok w' c = ctx_ok w c"
proof -
  assume s: "same_rest w w'"
  then show "parent_id w' i = parent_id w i" by (simp add: parent_id_def same_rest_def)
  show "ctx_ok w' c = ctx_ok w c" using s by (induction c) (auto simp: same_rest_def)
qed

text \<open>The state after the children are cancelled, before the context is taken from its parent.\<close>

lemma cancelled_tree:
  assumes inv: "tree_inv w" and i: "i < next_ctx w" "ctx_err w i = None"
    and m: "cancelled_more e c w w'" and all: "ctx_err w' i \<noteq> None"
    and only: "\<forall>j. ctx_err w' j \<noteq> ctx_err w j \<longrightarrow> (i, j) \<in> (child w)\<^sup>*"
  shows "(i, j) \<in> (child w)\<^sup>* \<Longrightarrow> ctx_err w' j = Some e"
    "j < next_ctx w \<Longrightarrow> ctx_err w' j = None \<Longrightarrow> parent_id w j = Some p \<Longrightarrow>
      ctx_err w' p = None \<and> j \<in> set (children w' p) \<and> removeFromParent w' j = Some p"
    "k \<in> set (children w' p) \<Longrightarrow> k \<noteq> i \<Longrightarrow> ctx_err w' k = None"
proof -
  note s = cancelled_moreD(2) [OF m]
  have desc: "ctx_err w' j = Some e" if "(i, j) \<in> (child w)\<^sup>*" for j
    using that
  proof (induction rule: rtrancl_induct)
    case base
    then show ?case using all i(2) cancelled_moreD(4) [OF m, of i] by auto
  next
    case (step p k)
    then have k: "k \<in> set (children w p)" by (simp add: child_def)
    have "ctx_err w p = None" "ctx_err w k = None" using tree_invD(5,6) [OF inv] k by blast+
    with step.IH have "ctx_err w' k \<noteq> None" using cancelled_moreD(5) [OF m _ k] by simp
    then show ?case using cancelled_moreD(4) [OF m, of k] \<open>ctx_err w k = None\<close> by auto
  qed
  then show "(i, j) \<in> (child w)\<^sup>* \<Longrightarrow> ctx_err w' j = Some e" .
  show "ctx_err w' p = None \<and> j \<in> set (children w' p) \<and> removeFromParent w' j = Some p"
    if j: "j < next_ctx w" "ctx_err w' j = None" "parent_id w j = Some p"
  proof -
    have "ctx_err w j = None" using j(2) cancelled_moreD(1) [OF m, of j] by (cases "ctx_err w j") auto
    with tree_invD(5) [OF inv j(1,3)] have p: "ctx_err w p = None" "j \<in> set (children w p)" "removeFromParent w j = Some p"
      by blast+
    have "ctx_err w' p = None"
      using cancelled_moreD(5) [OF m, of p j] p j(2) by fastforce
    with p cancelled_moreD(3) [OF m, of p] s show ?thesis by (simp add: same_rest_def)
  qed
  show "ctx_err w' k = None" if k: "k \<in> set (children w' p)" "k \<noteq> i"
  proof (rule ccontr)
    assume a: "ctx_err w' k \<noteq> None"
    have k': "k \<in> set (children w p)" using k cancelled_moreD(6) [OF m] by blast
    then have k0: "parent_id w k = Some p" "ctx_err w k = None" "k < next_ctx w" using tree_invD(6) [OF inv] by blast+
    with a only have "(i, k) \<in> (child w)\<^sup>*" by simp
    then obtain q where "(i, q) \<in> (child w)\<^sup>*" "k \<in> set (children w q)"
      using k(2) by (cases rule: rtranclE) (auto simp: child_def)
    moreover have "q = p" using k0(1) tree_invD(6) [OF inv, of k q] calculation(2) by simp
    ultimately have "ctx_err w' p = Some e" "ctx_err w p = None" using desc tree_invD(5) [OF inv k0(3,1,2)] by auto
    then have "children w' p = []" using cancelled_moreD(4) [OF m, of p] by simp
    with k(1) show False by simp
  qed
qed

definition detach :: "bool \<Rightarrow> nat \<Rightarrow> 'v ctx_store \<Rightarrow> 'v ctx_store \<Rightarrow> 'v ctx_store" where
  "detach remove i w w' =
     (if ctx_err w i \<noteq> None then w'
      else case (remove, removeFromParent w' i) of
        (True, Some p) \<Rightarrow> w'\<lparr>children := (children w')(p := removeAll i (children w' p)),
                             removeFromParent := (removeFromParent w')(i := None)\<rparr>
      | _ \<Rightarrow> w')"

lemma cancel_detach: "cancel (Suc f) remove e c i w = detach remove i w (cancel (Suc f) False e c i w)"
  by (cases remove) (auto simp: detach_def Let_def split: option.splits)

lemma detach_fields [simp]:
  "next_ctx (detach r i w w') = next_ctx w'" "made (detach r i w w') = made w'" "ctx_err (detach r i w w') = ctx_err w'"
  "ctx_cause (detach r i w w') = ctx_cause w'" "done_closed (detach r i w w') = done_closed w'"
  "watchers (detach r i w w') = watchers w'" "timer_set (detach r i w w') = timer_set w'"
  "custom_done (detach r i w w') = custom_done w'" "custom_err (detach r i w w') = custom_err w'"
  by (auto simp: detach_def split: option.splits bool.splits)

lemma detach_children:
  assumes "ctx_err w i = None"
  shows "children (detach r i w w') p =
      (if r \<and> removeFromParent w' i = Some p then removeAll i (children w' p) else children w' p)"
    "removeFromParent (detach r i w w') j = (if r \<and> j = i then None else removeFromParent w' j)"
  using assms by (auto simp: detach_def split: option.splits bool.splits)

lemma tree_inv_cancelled:
  assumes inv: "tree_inv w" and i: "i < next_ctx w" "ctx_err w i = None" "r \<or> parent_id w i = None"
    and m: "cancelled_more e c w w'" and all: "ctx_err w' i \<noteq> None"
    and only: "\<forall>j. ctx_err w' j \<noteq> ctx_err w j \<longrightarrow> (i, j) \<in> (child w)\<^sup>*"
  shows "tree_inv (detach r i w w')"
proof -
  note s = cancelled_moreD(2) [OF m] and t = cancelled_tree [OF inv i(1,2) m all only]
  let ?w = "detach r i w w'"
  have same: "next_ctx ?w = next_ctx w" "\<And>j. parent_id ?w j = parent_id w j" "\<And>c. ctx_ok ?w c = ctx_ok w c"
    "made ?w = made w"
    using s same_rest_ids [OF s] ctx_ok_grow [of w' _ ?w] ctx_ok_grow [of ?w _ w']
    by (auto simp: same_rest_def parent_id_def)
  have nm: "next_ctx w' = next_ctx w" "made w' = made w" using s by (simp_all add: same_rest_def)
  note ch = detach_children [OF i(2), of r w']
  have dn: "done_closed w' j = (ctx_err w' j \<noteq> None)" if "j < next_ctx w" for j
    using cancelled_moreD(3,4) [OF m, of j] tree_invD(3) [OF inv that] by (cases "ctx_err w' j = ctx_err w j") auto
  have kept: "j \<in> set (children ?w p)" if "j \<in> set (children w' p)" "ctx_err w' j = None" for j p
    using that all ch(1) [of p] by auto
  have "ctx_err w' p = None \<and> j \<in> set (children ?w p) \<and> removeFromParent ?w j = Some p"
    if j: "j < next_ctx w" "parent_id w j = Some p" "ctx_err w' j = None" for j p
    using t(2) [OF j(1,3,2)] kept [of j p] j(3) all ch(2) [of j] by auto
  moreover have "k < next_ctx w \<and> parent_id w k = Some p \<and> ctx_err w' k = None" if k: "k \<in> set (children ?w p)" for k p
  proof -
    have k': "k \<in> set (children w' p)" using k ch(1) [of p] by (auto split: if_splits)
    then have k0: "k < next_ctx w" "parent_id w k = Some p" "ctx_err w k = None"
      using cancelled_moreD(6) [OF m, of p] tree_invD(6) [OF inv, of k p] by auto
    have "k \<noteq> i"
    proof
      assume "k = i"
      moreover from this have "removeFromParent w i = Some p" "r"
        using tree_invD(5) [OF inv k0(1,2,3)] i(3) k0(2) by auto
      ultimately show False using k ch(1) [of p] s by (simp add: same_rest_def)
    qed
    with t(3) [OF k'] k0 show ?thesis by blast
  qed
  moreover have "distinct (children ?w p)" for p
    using ch(1) [of p] tree_invD(7) [OF inv, of p] cancelled_moreD(3,4) [OF m, of p]
    by (cases "ctx_err w' p = ctx_err w p") (auto simp: distinct_removeAll)
  moreover have "j < next_ctx w \<and> parent_id w j = Some p" if "removeFromParent ?w j = Some p" for j p
    using that ch(2) [of j] tree_invD(8) [OF inv, of j p] s by (auto simp: same_rest_def split: if_splits)
  moreover have "j < next_ctx w \<and> parent_id w j = None" if "j \<in> set (watchers w')" for j
    using that tree_invD(9) [OF inv] s by (simp add: same_rest_def)
  moreover have "j < next_ctx w" if "timer_set w' j" for j
    using that tree_invD(10) [OF inv] s by (simp add: same_rest_def)
  ultimately show ?thesis
    unfolding tree_inv_def same(2,3) detach_fields nm using dn tree_invD(1,2,4) [OF inv] by blast
qed

lemma tree_inv_side:
  assumes "tree_inv w" "\<And>i. t i \<Longrightarrow> i < next_ctx w" "set ws \<subseteq> set (watchers w)"
  shows "tree_inv (w\<lparr>timer_set := t, watchers := ws, custom_done := cd, custom_err := ce\<rparr>)"
proof -
  let ?w = "w\<lparr>timer_set := t, watchers := ws, custom_done := cd, custom_err := ce\<rparr>"
  have ok: "ctx_ok ?w c = ctx_ok w c" for c by (induction c) auto
  have id: "parent_id ?w i = parent_id w i" for i by (simp add: parent_id_def)
  have f: "next_ctx ?w = next_ctx w" "made ?w = made w" "ctx_err ?w = ctx_err w" "done_closed ?w = done_closed w"
    "children ?w = children w" "removeFromParent ?w = removeFromParent w" "watchers ?w = ws" "timer_set ?w = t"
    by simp_all
  show ?thesis using assms(2,3) assms(1) [unfolded tree_inv_def] unfolding tree_inv_def ok id f by blast
qed

definition cancel_result :: "ctx_error \<Rightarrow> ctx_error option \<Rightarrow> nat \<Rightarrow> 'v ctx_store \<Rightarrow> 'v ctx_store \<Rightarrow> bool" where
  "cancel_result e c i w w' \<longleftrightarrow> next_ctx w' = next_ctx w \<and> made w' = made w \<and>
     custom_done w' = custom_done w \<and> custom_err w' = custom_err w \<and> watchers w' = watchers w \<and>
     (\<forall>j<next_ctx w.
        if ctx_err w i = None \<and> i \<in> set (cancel_chain (made w j)) \<and> ctx_err w j = None
        then ctx_err w' j = Some e \<and> ctx_cause w' j = c
        else ctx_err w' j = ctx_err w j \<and> ctx_cause w' j = ctx_cause w j)"

lemma cancel_ctx_spec:
  assumes inv: "tree_inv w" and i: "i < next_ctx w" and r: "r \<or> parent_id w i = None"
  shows "tree_inv (cancel_ctx r e c i w) \<and> cancel_result e c i w (cancel_ctx r e c i w)"
proof (cases "ctx_err w i")
  case (Some x)
  then have "cancel_ctx r e c i w = w\<lparr>timer_set := (timer_set w)(i := False)\<rparr>" by (simp add: cancel_ctx_def)
  moreover have "tree_inv (w\<lparr>timer_set := (timer_set w)(i := False)\<rparr>)"
    using tree_inv_side [OF inv, of "(timer_set w)(i := False)" "watchers w" "custom_err w" "custom_done w"]
      tree_invD(10) [OF inv] by (simp split: if_splits)
  ultimately show ?thesis using Some by (simp add: cancel_result_def)
next
  case None
  define w1 where "w1 = cancel (Suc (next_ctx w)) False e c i w"
  have eff: "cancelled_more e c w w1 \<and> ctx_err w1 i \<noteq> None \<and>
    (\<forall>j. ctx_err w1 j \<noteq> ctx_err w j \<longrightarrow> (i, j) \<in> (child w)\<^sup>*)"
    unfolding w1_def by (rule cancel_effects [OF tree_younger [OF inv] i]) simp
  note e = eff [THEN conjunct1] eff [THEN conjunct2, THEN conjunct1] eff [THEN conjunct2, THEN conjunct2]
  have d: "cancel_ctx r e c i w = detach r i w w1"
    unfolding cancel_ctx_def w1_def by (rule cancel_detach)
  have "if i \<in> set (cancel_chain (made w j)) \<and> ctx_err w j = None
      then ctx_err w1 j = Some e \<and> ctx_cause w1 j = c
      else ctx_err w1 j = ctx_err w j \<and> ctx_cause w1 j = ctx_cause w j" if j: "j < next_ctx w" for j
  proof (cases "(i, j) \<in> (child w)\<^sup>*")
    case True
    with cancelled_tree(1) [OF inv i None e True] descendants [OF inv None i j] cancelled_moreD(4) [OF e(1), of j]
    show ?thesis by auto
  next
    case False
    then have "ctx_err w1 j = ctx_err w j" using e(3) by blast
    with False descendants [OF inv None i j] cancelled_moreD(3) [OF e(1), of j] show ?thesis by simp
  qed
  then have "cancel_result e c i w (detach r i w w1)"
    using None cancelled_moreD(2) [OF e(1)] by (simp add: cancel_result_def same_rest_def)
  then show ?thesis
    using tree_inv_cancelled [OF inv i None r e] unfolding d by blast
qed

text \<open>A new context, registered with its parent, or cancelled with it, or watching it.\<close>

lemma tree_inv_add:
  assumes inv: "tree_inv w" and i: "i = next_ctx w" "next_ctx w' = Suc i" "made w' = (made w)(i := m)"
    and m: "cancel_id m = Some i" "ctx_ok w' m"
    and f: "ctx_err w' = (ctx_err w)(i := x)" "done_closed w' = (done_closed w)(i := (x \<noteq> None))"
      "timer_set w' = (timer_set w)(i := False)"
    and none: "cancel_parent m = None \<Longrightarrow> children w' = (children w)(i := []) \<and>
      removeFromParent w' = (removeFromParent w)(i := None) \<and> watchers w' = watchers w @ [i]"
    and some: "\<And>q. cancel_parent m = Some q \<Longrightarrow> q < i \<and> watchers w' = watchers w \<and>
      (if ctx_err w q = None
       then x = None \<and> children w' = (children w)(i := [], q := children w q @ [i]) \<and>
         removeFromParent w' = (removeFromParent w)(i := Some q)
       else x \<noteq> None \<and> children w' = (children w)(i := []) \<and> removeFromParent w' = (removeFromParent w)(i := None))"
  shows "tree_inv w'"
proof -
  have old: "parent_id w' j = parent_id w j" if "j < i" for j using that i(3) by (simp add: parent_id_def)
  have new: "parent_id w' i = cancel_parent m" using i(3) by (simp add: parent_id_def)
  have ok: "ctx_ok w' (made w j)" if "j < i" for j
    using ctx_ok_grow [of w "made w j" w'] tree_invD(2) [OF inv, of j] that i by simp
  have ch: "children w' p =
      (if p = i then [] else if cancel_parent m = Some p \<and> ctx_err w p = None then children w p @ [i] else children w p)" for p
    using none some [of p] some by (cases "cancel_parent m") (auto split: if_splits)
  have rp: "removeFromParent w' j = (if j = i then (case cancel_parent m of None \<Rightarrow> None | Some q \<Rightarrow>
      if ctx_err w q = None then Some q else None) else removeFromParent w j)" for j
    using none some by (cases "cancel_parent m") (auto split: if_splits)
  have fresh: "i \<notin> set (children w p)" for p using tree_invD(6) [OF inv, of i p] i(1) by auto
  have 1: "cancel_id (made w' j) = Some j \<and> ctx_ok w' (made w' j) \<and> (done_closed w' j \<longleftrightarrow> ctx_err w' j \<noteq> None)"
    if "j < Suc i" for j
    using that m f(1,2) ok [of j] tree_invD(1,3) [OF inv, of j] i(1,3) by (cases "j = i") auto
  have 2: "p < j \<and> (ctx_err w' j = None \<longrightarrow> ctx_err w' p = None \<and> j \<in> set (children w' p) \<and> removeFromParent w' j = Some p)"
    if j: "j < Suc i" "parent_id w' j = Some p" for j p
  proof (cases "j = i")
    case True
    then have q: "cancel_parent m = Some p" using j(2) new by simp
    from some [OF q] ch [of p] rp [of i] f(1) q True show ?thesis by (auto split: if_splits)
  next
    case False
    with j have j': "j < i" "j < next_ctx w" "parent_id w j = Some p" using old [of j] i(1) by auto
    then have "p < j" using tree_invD(4) [OF inv] by blast
    moreover from this j' have "p \<noteq> i" by simp
    ultimately show ?thesis using tree_invD(5) [OF inv j'(2,3)] f(1) ch [of p] rp [of j] False by auto
  qed
  have 3: "k < Suc i \<and> parent_id w' k = Some p \<and> ctx_err w' k = None" if "k \<in> set (children w' p)" for k p
  proof (cases "k \<in> set (children w p)")
    case True
    with tree_invD(6) [OF inv True] i(1) have "k < i" by simp
    with True tree_invD(6) [OF inv True] old [of k] f(1) show ?thesis by simp
  next
    case False
    with that ch [of p] have k: "k = i" "cancel_parent m = Some p" "ctx_err w p = None" by (auto split: if_splits)
    with some [OF k(2)] new f(1) show ?thesis by simp
  qed
  have 4: "distinct (children w' p)" for p using ch [of p] tree_invD(7) [OF inv, of p] fresh [of p] by auto
  have 5: "j < Suc i \<and> parent_id w' j = Some p" if "removeFromParent w' j = Some p" for j p
    using that rp [of j] new tree_invD(8) [OF inv, of j p] old [of j] i(1) by (auto split: if_splits option.splits)
  have 6: "j < Suc i \<and> parent_id w' j = None" if "j \<in> set (watchers w')" for j
  proof (cases "j \<in> set (watchers w)")
    case True
    with tree_invD(9) [OF inv True] i(1) old [of j] show ?thesis by simp
  next
    case False
    then have "j = i" "cancel_parent m = None" using that none some by (cases "cancel_parent m"; auto)+
    then show ?thesis using new by simp
  qed
  have 7: "j < Suc i" if "timer_set w' j" for j
    using that f(3) tree_invD(10) [OF inv, of j] i(1) by (simp split: if_splits)
  show ?thesis unfolding tree_inv_def i(2) using 1 2 3 4 5 6 7 by blast
qed

text \<open>A constructor that does not fail keeps the tree.\<close>

lemma propagateCancel_inv:
  assumes inv: "tree_inv w" and p: "ctx_ok w p"
    and mk: "mk (next_ctx w) = CancelCtx (next_ctx w) p \<or> (\<exists>d. mk (next_ctx w) = TimerCtx (next_ctx w) p d)"
    and w1: "new_cancel_ctx mk w = (i, w1)"
  shows "tree_inv (propagateCancel i p w1) \<and> i = next_ctx w \<and> next_ctx (propagateCancel i p w1) = Suc i \<and>
    made (propagateCancel i p w1) = (made w)(i := mk i) \<and> ctx_ok (propagateCancel i p w1) (mk i)"
proof -
  define x where "x = (case cancel_id (unwrap_values p) of None \<Rightarrow> None | Some q \<Rightarrow> ctx_err w q)"
  let ?w = "propagateCancel i p w1"
  have i: "i = next_ctx w" using w1 by (simp add: new_cancel_ctx_def Let_def)
  have q: "q < i" if "cancel_id (unwrap_values p) = Some q" for q using ok_unwrap [OF p that] i by simp
  have par: "cancel_parent (mk i) = cancel_id (unwrap_values p)" "cancel_id (mk i) = Some i"
    using mk unfolding i by (auto simp: cancel_id_def)
  have fields: "next_ctx ?w = Suc i" "made ?w = (made w)(i := mk i)" "ctx_err ?w = (ctx_err w)(i := x)"
    "done_closed ?w = (done_closed w)(i := (x \<noteq> None))" "timer_set ?w = (timer_set w)(i := False)"
    using w1 q
    by (auto simp: new_cancel_ctx_def propagateCancel_def cancel_ctx_def Let_def x_def fun_eq_iff split: option.splits)
  have ok: "ctx_ok ?w (mk i)"
  proof -
    have "ctx_ok ?w p" using ctx_ok_grow [OF p, of ?w] fields(1,2) i by simp
    with mk fields(1,2) show ?thesis unfolding i by auto
  qed
  have "tree_inv ?w"
  proof (rule tree_inv_add [OF inv i fields(1,2) par(2) ok fields(3,4,5)])
    show "children ?w = (children w)(i := []) \<and> removeFromParent ?w = (removeFromParent w)(i := None) \<and>
        watchers ?w = watchers w @ [i]" if "cancel_parent (mk i) = None"
      using that w1 unfolding par by (auto simp: new_cancel_ctx_def propagateCancel_def Let_def)
    show "q < i \<and> watchers ?w = watchers w \<and>
        (if ctx_err w q = None
         then x = None \<and> children ?w = (children w)(i := [], q := children w q @ [i]) \<and>
           removeFromParent ?w = (removeFromParent w)(i := Some q)
         else x \<noteq> None \<and> children ?w = (children w)(i := []) \<and> removeFromParent ?w = (removeFromParent w)(i := None))"
      if "cancel_parent (mk i) = Some q" for q
      using that w1 q [of q] unfolding par
      by (auto simp: new_cancel_ctx_def propagateCancel_def cancel_ctx_def Let_def x_def split: option.splits)
  qed
  with i fields(1,2) ok show ?thesis by blast
qed

subsection \<open>Runs\<close>

text \<open>What can happen to the store: a context is made from one in use, a cancel function is
  called, a timer fires, a watcher sees its parent done, or a program's own context changes.\<close>

inductive ctx_step :: "'v ctx_store \<Rightarrow> 'v ctx_store \<Rightarrow> bool" where
  made_cancel: "ctx_ok w p \<Longrightarrow> WithCancel (Some p) w = Inr (r, w') \<Longrightarrow> ctx_step w w'"
| made_deadline: "ctx_ok w p \<Longrightarrow> WithDeadlineCause now (Some p) d c w = Inr (r, w') \<Longrightarrow> ctx_step w w'"
| called_cancel: "i < next_ctx w \<Longrightarrow> ctx_step w (call_cancel (i, c) w)"
| fired_timer: "timer_set w i \<Longrightarrow> ctx_step w (timer_fires i w)"
| watched_parent: "i \<in> set (watchers w) \<Longrightarrow> is_done w p \<Longrightarrow>
    made w i = CancelCtx i p \<or> (\<exists>d. made w i = TimerCtx i p d) \<Longrightarrow> ctx_step w (parent_done i p w)"
| changed_custom: "ctx_step w (w\<lparr>custom_done := cd, custom_err := ce\<rparr>)"

inductive_cases ctx_stepE: "ctx_step w w'"

definition no_contexts :: "'v ctx_store" where
  "no_contexts = \<lparr>next_ctx = 0, made = (\<lambda>_. BackgroundCtx), ctx_err = (\<lambda>_. None), ctx_cause = (\<lambda>_. None),
     done_closed = (\<lambda>_. False), children = (\<lambda>_. []), removeFromParent = (\<lambda>_. None), timer_set = (\<lambda>_. False),
     watchers = [], custom_done = (\<lambda>_. False), custom_err = (\<lambda>_. None)\<rparr>"

definition keeps :: "'v ctx_store \<Rightarrow> 'v ctx_store \<Rightarrow> bool" where
  "keeps w w' \<longleftrightarrow> next_ctx w \<le> next_ctx w' \<and>
     (\<forall>j<next_ctx w. made w' j = made w j \<and>
       (ctx_err w j \<noteq> None \<longrightarrow> ctx_err w' j = ctx_err w j \<and> ctx_cause w' j = ctx_cause w j))"

lemma keeps_trans: "keeps w w1 \<Longrightarrow> keeps w1 w2 \<Longrightarrow> keeps w w2"
  unfolding keeps_def by (metis order_less_le_trans order_trans)

lemma cancel_result_keeps: "cancel_result e c i w w' \<Longrightarrow> keeps w w'"
  unfolding cancel_result_def keeps_def by fastforce

lemma cancel_step:
  assumes "tree_inv w" "i < next_ctx w" "r \<or> parent_id w i = None"
  shows "tree_inv (cancel_ctx r e c i w)" "keeps w (cancel_ctx r e c i w)"
  using cancel_ctx_spec [OF assms, of e c] cancel_result_keeps by blast+

lemma propagate_step:
  assumes "tree_inv w" "ctx_ok w p" "new_cancel_ctx mk w = (i, w1)"
    "mk (next_ctx w) = CancelCtx (next_ctx w) p \<or> (\<exists>d. mk (next_ctx w) = TimerCtx (next_ctx w) p d)"
  shows "tree_inv (propagateCancel i p w1)" "keeps w (propagateCancel i p w1)" "i < next_ctx (propagateCancel i p w1)"
proof -
  note s = propagateCancel_inv [OF assms(1,2,4,3)]
  have "ctx_err (propagateCancel i p w1) j = ctx_err w j \<and> ctx_cause (propagateCancel i p w1) j = ctx_cause w j"
    if "j < next_ctx w" for j
    using assms(3) that
    by (auto simp: new_cancel_ctx_def propagateCancel_def cancel_ctx_def Let_def split: option.splits)
  with s show "keeps w (propagateCancel i p w1)" by (auto simp: keeps_def)
qed (use propagateCancel_inv [OF assms(1,2,4,3)] in auto)

lemma WithCancel_step:
  assumes "tree_inv w" "ctx_ok w p" "WithCancel (Some p) w = Inr (r, w')"
  shows "tree_inv w' \<and> keeps w w'"
  using assms propagate_step [OF assms(1,2), of "\<lambda>i. CancelCtx i p"]
  by (auto simp: WithCancel_def split: prod.splits)

lemma step_inv: "ctx_step w w' \<Longrightarrow> tree_inv w \<Longrightarrow> tree_inv w' \<and> keeps w w'"
proof (induction rule: ctx_step.induct)
  case (made_cancel w p r w')
  then show ?case using WithCancel_step by blast
next
  case (made_deadline w p now d c r w')
  show ?case
  proof (cases "case Deadline p of Some pd \<Rightarrow> pd < d \<or> pd = d | None \<Rightarrow> False")
    case True
    then have "WithCancel (Some p) w = Inr (r, w')" using made_deadline(2) by (simp add: WithDeadlineCause_def)
    with made_deadline show ?thesis using WithCancel_step by blast
  next
    case False
    obtain i w1 where n: "new_cancel_ctx (\<lambda>i. TimerCtx i p d) w = (i, w1)" by fastforce
    note s = propagate_step [OF made_deadline(3,1) n]
    let ?w = "propagateCancel i p w1"
    have w': "w' = startTimer i d now ?w"
      using made_deadline(2) False n by (simp add: WithDeadlineCause_def split: prod.splits)
    have t: "tree_inv ?w" "keeps w ?w" "i < next_ctx ?w" using s by blast+
    have "tree_inv (?w\<lparr>timer_set := (timer_set ?w)(i := True)\<rparr>)"
      using tree_inv_side [OF t(1), of "(timer_set ?w)(i := True)" "watchers ?w" "custom_err ?w" "custom_done ?w"]
        t(3) tree_invD(10) [OF t(1)] by (simp split: if_splits)
    moreover have "keeps ?w (?w\<lparr>timer_set := (timer_set ?w)(i := True)\<rparr>)" by (simp add: keeps_def)
    ultimately show ?thesis
      unfolding w' startTimer_def using cancel_step [OF t(1,3)] keeps_trans [OF t(2)] by auto
  qed
next
  case (called_cancel i w c)
  then show ?case using cancel_step [of w i True] by (simp add: call_cancel_def)
next
  case (fired_timer w i)
  then show ?case using cancel_step [of w i True] tree_invD(10) [of w i] by (simp add: timer_fires_def)
next
  case (watched_parent i w p)
  let ?w1 = "w\<lparr>watchers := removeAll i (watchers w)\<rparr>"
  have i: "i < next_ctx w" "parent_id w i = None" using tree_invD(9) [OF watched_parent(4,1)] by simp_all
  have t: "tree_inv ?w1"
    using tree_inv_side [OF watched_parent(4), of "timer_set w" "removeAll i (watchers w)" "custom_err w" "custom_done w"]
      tree_invD(10) [OF watched_parent(4)] by auto
  have k: "keeps w ?w1" by (simp add: keeps_def)
  have "parent_id ?w1 i = None" using i by (simp add: parent_id_def)
  then show ?case
    using t k cancel_step [OF t, of i False] keeps_trans [OF k] i
    by (auto simp: parent_done_def Let_def split: option.splits)
next
  case (changed_custom w ce cd)
  then show ?case
    using tree_inv_side [OF changed_custom, of "timer_set w" "watchers w" ce cd] tree_invD(10) [OF changed_custom]
    by (simp add: keeps_def)
qed

lemma run_inv: "ctx_step\<^sup>*\<^sup>* w w' \<Longrightarrow> tree_inv w \<Longrightarrow> tree_inv w' \<and> keeps w w'"
proof (induction rule: rtranclp_induct)
  case (step w1 w2)
  then show ?case using step_inv keeps_trans by blast
qed (simp add: keeps_def)

lemma no_contexts_inv: "tree_inv no_contexts"
  by (simp add: tree_inv_def no_contexts_def)

text \<open>A context with cancel contexts above it is the nearest of them, seen through values.\<close>

lemma is_done_unwrap: "is_done w (unwrap_values c) = is_done w c" "Err w (unwrap_values c) = Err w c"
  by (induction c) auto

lemma nearest_cancel:
  assumes "tree_inv w" "ctx_ok w c" "cancel_chain c = i # is"
  shows "i < next_ctx w" "is_done w c = done_closed w i" "Err w c = ctx_err w i" "Cause w (Some c) = getCause w i"
    "cancel_chain (made w i) = i # is"
proof -
  obtain j where j: "cancel_id (unwrap_values c) = Some j"
    using assms(3) chain_none [of c] by (cases "cancel_id (unwrap_values c)") auto
  with ok_unwrap [OF assms(2) j] have m: "j < next_ctx w" "made w j = unwrap_values c" by blast+
  have "hd (cancel_chain (unwrap_values c)) = j" using j by (cases "unwrap_values c") (auto simp: cancel_id_def)
  then have ji: "j = i" using chain_unwrap [of c] assms(3) by simp
  show "i < next_ctx w" "cancel_chain (made w i) = i # is" using m ji chain_unwrap [of c] assms(3) by simp_all
  have "is_done w (unwrap_values c) = done_closed w i" "Err w (unwrap_values c) = ctx_err w i"
    using j ji by (cases "unwrap_values c"; simp add: cancel_id_def)+
  then show "is_done w c = done_closed w i" "Err w c = ctx_err w i" by (simp_all add: is_done_unwrap)
  show "Cause w (Some c) = getCause w i" using j ji by (simp add: Cause_def)
qed

lemma no_chain:
  "cancel_chain c = [] \<Longrightarrow> cancel_id (unwrap_values c) = None"
  "cancel_chain c = [] \<Longrightarrow> custom_err w' = custom_err w \<Longrightarrow> Err w' c = Err w c"
  by (induction c) (auto simp: cancel_id_def)

lemma chain_members: "ctx_ok w c \<Longrightarrow> set (cancel_chain c) \<subseteq> {..<next_ctx w}"
  by (induction c) auto

lemma chain_cancelled:
  assumes "tree_inv w" "i < next_ctx w" "j \<in> set (cancel_chain (made w i))" "ctx_err w j \<noteq> None"
  shows "ctx_err w i \<noteq> None"
  using assms(2,3)
proof (induction i rule: less_induct)
  case (less i)
  show ?case
  proof (cases "j = i")
    case False
    with less.prems chain_step [OF assms(1), of i] obtain p where
      p: "parent_id w i = Some p" "j \<in> set (cancel_chain (made w p))" by (auto split: option.splits)
    then have "p < i" using tree_invD(4) [OF assms(1) less.prems(1)] by blast
    with less.IH [of p] p less.prems have "ctx_err w p \<noteq> None" by simp
    then show ?thesis using tree_invD(5) [OF assms(1) less.prems(1) p(1)] by (cases "ctx_err w i") auto
  qed (use assms(4) in simp)
qed

text \<open>C27. In any run, cancellation reaches the whole subtree at once: a context derived from
  cancel contexts is done just when it has an error, and as soon as one of the cancel contexts
  it derives from is cancelled; and once it has an error, error and cause never change.\<close>

theorem cancellation_reaches_descendants:
  assumes "ctx_step\<^sup>*\<^sup>* no_contexts w" "ctx_ok w c" "cancel_chain c = i # is" "ctx_step\<^sup>*\<^sup>* w w'"
  shows "is_done w c = (Err w c \<noteq> None) \<and>
    (if list_ex (\<lambda>j. ctx_err w j \<noteq> None) (cancel_chain c) then is_done w c else \<not> is_done w c) \<and>
    (if is_done w c then Err w' c = Err w c \<and> Cause w' (Some c) = Cause w (Some c) else True)"
proof -
  have inv: "tree_inv w" using run_inv [OF assms(1) no_contexts_inv] by blast
  have inv': "tree_inv w'" and k: "keeps w w'" using run_inv [OF assms(4) inv] by blast+
  note n = nearest_cancel [OF inv assms(2,3)]
  have d: "is_done w c = (ctx_err w i \<noteq> None)" using n tree_invD(3) [OF inv] by simp
  have "list_ex (\<lambda>j. ctx_err w j \<noteq> None) (cancel_chain c) = (ctx_err w i \<noteq> None)"
    using chain_cancelled [OF inv n(1)] n(5) assms(3) by (auto simp: list_ex_iff)
  moreover have ok': "ctx_ok w' c" using ctx_ok_grow [OF assms(2)] k by (simp add: keeps_def)
  note n' = nearest_cancel [OF inv' ok' assms(3)]
  have "ctx_err w' i = ctx_err w i \<and> ctx_cause w' i = ctx_cause w i" if "ctx_err w i \<noteq> None"
    using k n(1) that by (simp add: keeps_def)
  ultimately show ?thesis using d n(3,4) n'(3,4) by (auto simp: getCause_def split: option.splits)
qed

text \<open>Calling a cancel function gives the error Canceled, with the cause it carries, to the
  contexts derived from its context that have no error yet, and changes no other context.\<close>

theorem cancel_function_spec:
  assumes "ctx_step\<^sup>*\<^sup>* no_contexts w" "i < next_ctx w" "ctx_ok w c"
  shows "Err (call_cancel (i, cause) w) c =
      (if i \<in> set (cancel_chain c) \<and> Err w c = None then Some Canceled else Err w c) \<and>
    Cause (call_cancel (i, cause) w) (Some c) =
      (if i \<in> set (cancel_chain c) \<and> Err w c = None
       then (case cause of None \<Rightarrow> Some Canceled | Some e \<Rightarrow> Some e) else Cause w (Some c))"
proof -
  define w1 where "w1 = call_cancel (i, cause) w"
  have inv: "tree_inv w" using run_inv [OF assms(1) no_contexts_inv] by blast
  have inv': "tree_inv w1" and r: "cancel_result Canceled cause i w w1"
    using cancel_ctx_spec [OF inv assms(2), of True Canceled cause] by (simp_all add: call_cancel_def w1_def)
  have r1: "next_ctx w1 = next_ctx w" "made w1 = made w" "custom_err w1 = custom_err w"
    using r unfolding cancel_result_def by blast+
  show ?thesis
  proof (cases "cancel_chain c")
    case Nil
    have "Err w1 (unwrap_values c) = Err w (unwrap_values c)" "cancel_id (unwrap_values c) = None"
      using no_chain [OF Nil] r1(3) is_done_unwrap(2) by metis+
    then show ?thesis using Nil is_done_unwrap(2) [of w1 c] is_done_unwrap(2) [of w c] unfolding w1_def [symmetric] by (simp add: Cause_def)
  next
    case (Cons j js)
    have ok': "ctx_ok w1 c" using ctx_ok_grow [OF assms(3)] r1 by simp
    note n = nearest_cancel [OF inv assms(3) Cons] and n' = nearest_cancel [OF inv' ok' Cons]
    have "ctx_err w j \<noteq> None" if "ctx_err w i \<noteq> None" "i \<in> set (cancel_chain c)"
      using chain_cancelled [OF inv n(1), of i] n(5) that Cons by simp
    then have "if i \<in> set (cancel_chain c) \<and> ctx_err w j = None
        then ctx_err w1 j = Some Canceled \<and> ctx_cause w1 j = cause
        else ctx_err w1 j = ctx_err w j \<and> ctx_cause w1 j = ctx_cause w j"
      using r n(1,5) Cons unfolding cancel_result_def by (metis (mono_tags, lifting))
    then show ?thesis
      unfolding w1_def [symmetric] using n(3,4) n'(3,4) by (auto simp: getCause_def split: if_splits option.splits)
  qed
qed

text \<open>A root, a child of it below a value, and the child of an independent root.\<close>

definition root_ctx :: "unit ctx" where "root_ctx = CancelCtx 0 BackgroundCtx"
definition child_ctx :: "unit ctx" where "child_ctx = CancelCtx 1 (ValueCtx root_ctx Null None)"

definition store1 :: "unit ctx_store" where "store1 = snd (projr (WithCancel (Some BackgroundCtx) no_contexts))"
definition store2 :: "unit ctx_store" where "store2 = snd (projr (WithCancel (Some (ValueCtx root_ctx Null None)) store1))"

lemmas with_cancel_defs = WithCancel_def new_cancel_ctx_def propagateCancel_def cancel_id_def Let_def

lemma store1_run: "ctx_step\<^sup>*\<^sup>* no_contexts store1" "ctx_ok store1 root_ctx" "next_ctx store1 = 1"
proof -
  obtain r where "WithCancel (Some BackgroundCtx) no_contexts = Inr (r, store1)"
    by (simp add: store1_def with_cancel_defs)
  from made_cancel [OF _ this] show "ctx_step\<^sup>*\<^sup>* no_contexts store1" by auto
  show "ctx_ok store1 root_ctx" "next_ctx store1 = 1"
    by (simp_all add: store1_def root_ctx_def with_cancel_defs no_contexts_def)
qed

lemma store2_run: "ctx_step\<^sup>*\<^sup>* no_contexts store2" "ctx_ok store2 child_ctx" "next_ctx store2 = 2"
  "ctx_err store2 1 = None"
proof -
  have v: "ctx_ok store1 (ValueCtx root_ctx Null None)" using store1_run(2) by simp
  obtain r where "WithCancel (Some (ValueCtx root_ctx Null None)) store1 = Inr (r, store2)"
    by (simp add: store2_def with_cancel_defs)
  from rtranclp.rtrancl_into_rtrancl [OF store1_run(1) made_cancel [OF v this]]
  show "ctx_step\<^sup>*\<^sup>* no_contexts store2" .
  show "ctx_ok store2 child_ctx" "next_ctx store2 = 2" "ctx_err store2 1 = None"
    by (simp_all add: store2_def store1_def root_ctx_def child_ctx_def with_cancel_defs no_contexts_def)
qed

theorem cancel_function_spec_witness:
  "Err (call_cancel (0, Some (UserError 7)) store2) child_ctx = Some Canceled \<and>
   Cause (call_cancel (0, Some (UserError 7)) store2) (Some child_ctx) = Some (UserError 7)"
  using cancel_function_spec [OF store2_run(1) _ store2_run(2), of 0 "Some (UserError 7)"] store2_run(3,4)
  by (simp add: child_ctx_def root_ctx_def)

theorem cancellation_reaches_descendants_witness:
  "\<not> is_done store2 child_ctx \<and> Err store2 child_ctx = None"
  using cancellation_reaches_descendants [OF store2_run(1,2) _ rtranclp.rtrancl_refl, of 1 "[0]"] store2_run(4)
  by (simp add: child_ctx_def root_ctx_def)

subsection \<open>Values and deadlines\<close>

fun bindings :: "'v ctx \<Rightarrow> (jsv \<times> 'v option) list" where
  "bindings BackgroundCtx = []"
| "bindings (ValueCtx parent key val) = (key, val) # bindings parent"
| "bindings (CancelCtx i parent) = bindings parent"
| "bindings (TimerCtx i parent d) = bindings parent"
| "bindings (WithoutCancelCtx parent) = bindings parent"
| "bindings (CustomCtx k d val) = []"

fun root_value :: "'v ctx \<Rightarrow> jsv \<Rightarrow> 'v option" where
  "root_value BackgroundCtx k = None"
| "root_value (ValueCtx parent key val) k = root_value parent k"
| "root_value (CancelCtx i parent) k = root_value parent k"
| "root_value (TimerCtx i parent d) k = root_value parent k"
| "root_value (WithoutCancelCtx parent) k = root_value parent k"
| "root_value (CustomCtx c d val) k = val k"

lemma Value_bindings:
  "Value c k = (case List.find (\<lambda>b. strict_eq (fst b) k \<or> comparableEqual (fst b) k) (bindings c) of
     Some b \<Rightarrow> snd b | None \<Rightarrow> root_value c k)"
  by (induction c) (auto split: option.splits)

text \<open>A context's value for a key is the one of the nearest WithValue with an equal key, through
  every other kind of context; the deadline of a context is the earliest of those above it,
  up to a WithoutCancel, which has no deadline, error or end.\<close>

theorem values_and_deadlines:
  "Value c k = (case List.find (\<lambda>b. strict_eq (fst b) k \<or> comparableEqual (fst b) k) (bindings c) of
     Some b \<Rightarrow> snd b | None \<Rightarrow> root_value c k) \<and>
   (case WithDeadlineCause now (Some p) d cause w of
      Inl _ \<Rightarrow> False
    | Inr ((c', f), w') \<Rightarrow> Deadline c' = Some (case Deadline p of None \<Rightarrow> d | Some pd \<Rightarrow> min pd d) \<and> bindings c' = bindings p) \<and>
   (case WithCancel (Some p) w of
      Inl _ \<Rightarrow> False
    | Inr ((c', f), w') \<Rightarrow> Deadline c' = Deadline p \<and> bindings c' = bindings p) \<and>
   (case WithoutCancel (Some p) of
      Inl _ \<Rightarrow> False
    | Inr c' \<Rightarrow> Deadline c' = None \<and> Err w c' = None \<and> \<not> is_done w c' \<and> bindings c' = bindings p)"
  by (auto simp: Value_bindings WithDeadlineCause_def WithCancel_def WithoutCancel_def min_def
      split: option.splits prod.splits)

subsection \<open>AfterFunc\<close>

text \<open>The asynchronous function waits for the done channel, then queues the callback; the
  returned function stops it. The events: the receive returns, the queued microtask runs,
  the stop function is called.\<close>

datatype after_phase = AWaiting | AQueued | AOver

record after_func =
  after_phase :: after_phase
  after_stopped :: bool
  after_done :: bool
  after_callback :: bool

datatype after_event = ParentDone | RunMicrotask | CallStop
datatype after_effect = NoEffect | CallbackRan | NilCallback js_exn | StopResult bool

definition AfterFunc :: "bool \<Rightarrow> after_func" where
  "AfterFunc f = \<lparr>after_phase = AWaiting, after_stopped = False, after_done = False, after_callback = f\<rparr>"

fun after_step :: "after_event \<Rightarrow> after_func \<Rightarrow> after_func \<times> after_effect" where
  "after_step ParentDone a =
     (if after_phase a \<noteq> AWaiting then (a, NoEffect)
      else if \<not> after_stopped a then (a\<lparr>after_done := True, after_phase := AQueued\<rparr>, NoEffect)
      else (a\<lparr>after_phase := AOver\<rparr>, NoEffect))"
| "after_step RunMicrotask a =
     (if after_phase a \<noteq> AQueued then (a, NoEffect)
      else (a\<lparr>after_phase := AOver\<rparr>,
        if \<not> after_callback a then NilCallback (ThrownError ''context: nil AfterFunc callback'') else CallbackRan))"
| "after_step CallStop a =
     (if \<not> after_done a then (a\<lparr>after_stopped := True\<rparr>, StopResult True) else (a, StopResult False))"

fun after_run :: "after_event list \<Rightarrow> after_func \<Rightarrow> after_effect list" where
  "after_run [] a = []"
| "after_run (e # es) a = (case after_step e a of (a', r) \<Rightarrow> r # after_run es a')"

definition ran_count :: "after_effect list \<Rightarrow> nat" where "ran_count rs = length (filter (\<lambda>r. r = CallbackRan) rs)"

lemma after_run_over: "after_phase a = AOver \<Longrightarrow> ran_count (after_run es a) = 0"
proof (induction es arbitrary: a)
  case (Cons e es)
  then show ?case by (cases e) (auto simp: ran_count_def)
qed (simp add: ran_count_def)

lemma after_run_stopped:
  "after_stopped a \<Longrightarrow> \<not> after_done a \<Longrightarrow> after_phase a \<noteq> AQueued \<Longrightarrow> ran_count (after_run es a) = 0"
proof (induction es arbitrary: a)
  case (Cons e es)
  then show ?case by (cases e) (auto simp: ran_count_def after_run_over [unfolded ran_count_def])
qed (simp add: ran_count_def)

lemma after_run_done: "after_done a \<Longrightarrow> StopResult True \<notin> set (after_run es a) \<and> ran_count (after_run es a) \<le> 1"
proof (induction es arbitrary: a)
  case (Cons e es)
  then show ?case
  proof (cases e)
    case RunMicrotask
    then show ?thesis using Cons after_run_over [of "a\<lparr>after_phase := AOver\<rparr>" es]
      by (auto simp: ran_count_def)
  qed (use Cons in \<open>auto simp: ran_count_def\<close>)
qed (simp add: ran_count_def)

lemma after_run_fresh:
  "after_phase a = AWaiting \<Longrightarrow> \<not> after_done a \<Longrightarrow>
   ran_count (after_run es a) \<le> 1 \<and> (StopResult True \<in> set (after_run es a) \<longrightarrow> ran_count (after_run es a) = 0)"
proof (induction es arbitrary: a)
  case (Cons e es)
  show ?case
  proof (cases e)
    case ParentDone
    then show ?thesis
      using Cons.prems after_run_over [of "a\<lparr>after_phase := AOver\<rparr>" es]
        after_run_done [of "a\<lparr>after_done := True, after_phase := AQueued\<rparr>" es] by (auto simp: ran_count_def)
  next
    case CallStop
    then show ?thesis
      using Cons.prems after_run_stopped [of "a\<lparr>after_stopped := True\<rparr>" es] by (auto simp: ran_count_def)
  qed (use Cons in \<open>auto simp: ran_count_def\<close>)
qed (simp add: ran_count_def)

text \<open>Whatever the order of the end of the context, the microtask and calls of stop, the callback
  of AfterFunc runs at most once, and never when a call of stop returned true.\<close>

theorem after_func_spec:
  "ran_count (after_run es (AfterFunc f)) \<le> 1 \<and>
   (if StopResult True \<in> set (after_run es (AfterFunc f)) then ran_count (after_run es (AfterFunc f)) = 0 else True)"
  using after_run_fresh [of "AfterFunc f" es] by (simp add: AfterFunc_def)

subsection \<open>Where the runtime departs from Go\<close>

text \<open>The cause given to WithDeadlineCause is recorded by the cancel function and not by the
  deadline, the reverse of Go: there the cause is for the deadline only.\<close>

lemma deadline_forgets_cause:
  assumes "ctx_step\<^sup>*\<^sup>* no_contexts w" "i < next_ctx w" "ctx_err w i = None"
  shows "getCause (timer_fires i w) i = Some DeadlineExceeded"
    "getCause (call_cancel (i, Some e) w) i = Some e"
proof -
  have inv: "tree_inv w" using run_inv [OF assms(1) no_contexts_inv] by blast
  have "i \<in> set (cancel_chain (made w i))" using chain_step [OF inv assms(2)] by simp
  then have r: "ctx_err (cancel_ctx True x c i w) i = Some x \<and> ctx_cause (cancel_ctx True x c i w) i = c" for x c
    using cancel_ctx_spec [OF inv assms(2), of True x c] assms(2,3) unfolding cancel_result_def by auto
  show "getCause (timer_fires i w) i = Some DeadlineExceeded"
    using r [of DeadlineExceeded None] by (simp add: getCause_def timer_fires_def)
  show "getCause (call_cancel (i, Some e) w) i = Some e"
    using r [of Canceled "Some e"] by (simp add: getCause_def call_cancel_def)
qed

text \<open>The stop function of AfterFunc returns true every time it is called before the context ends;
  in Go only the call that stops the function returns true.\<close>

lemma stop_twice: "after_run [CallStop, CallStop] (AfterFunc True) = [StopResult True, StopResult True]"
  by (simp add: AfterFunc_def)

end
