(* ===== verification/GsBits.thy ===== *)
theory GsBits
  imports GsNumber
begin

section \<open>Package math/bits (gs/math/bits/index.ts)\<close>

text \<open>
  An argument of type uint8, uint16 or uint32 is a number in range, represented by its 32-bit
  pattern, on which the operators of the language act as operations of 32-bit words: \<open>>>>\<close>
  is \<open>drop_bit\<close>, \<open>>>\<close> is \<open>signed_drop_bit\<close>. A 64-bit argument is a number or a bigint and
  is converted to a bigint below \<open>2 ^ 64\<close>, an integer here.
\<close>

type_synonym w32 = "32 word"

subsection \<open>Conversions\<close>

definition uint64Mask :: int where "uint64Mask = 2 ^ 64 - 1"

fun toUint64 :: "js_num \<Rightarrow> int res" where
  "toUint64 (BigInt n) = Inr (n AND uint64Mask)"
| "toUint64 (Number x) = bindR (bigint_of_number (math_trunc x)) (\<lambda>n. Inr (n AND uint64Mask))"

fun is_bigint :: "js_num \<Rightarrow> bool" where
  "is_bigint (BigInt n) = True"
| "is_bigint (Number x) = False"

definition useBigIntResult :: "js_num list \<Rightarrow> bool" where
  "useBigIntResult vs = list_ex is_bigint vs"

definition word64Result :: "int \<Rightarrow> bool \<Rightarrow> js_num" where
  "word64Result v useBigInt = (if useBigInt \<or> max_safe < v then BigInt v else Number (number_of_bigint v))"

definition rotateCount :: "int \<Rightarrow> int \<Rightarrow> nat" where
  "rotateCount k n = nat (js_rem (js_rem k n + n) n)"

text \<open>The shape of the 64-bit functions of one argument.\<close>

definition on_word64 :: "(int \<Rightarrow> 'r) \<Rightarrow> js_num \<Rightarrow> 'r res" where
  "on_word64 f x = bindR (toUint64 x) (\<lambda>w. Inr (f w))"

subsection \<open>Counting\<close>

function clz_loop :: "int \<Rightarrow> int \<Rightarrow> nat \<Rightarrow> nat" where
  "clz_loop x m count =
     (if x AND m = 0 \<and> count < 64 then clz_loop x (drop_bit 1 m) (count + 1) else count)"
  by pat_completeness auto
termination
  by (relation "measure (\<lambda>(x, m, count). 64 - count)") auto

declare clz_loop.simps [simp del]

definition LeadingZeros64 :: "int \<Rightarrow> nat" where
  "LeadingZeros64 x = (if x = 0 then 64 else clz_loop x (2 ^ 63) 0)"

definition clz32 :: "w32 \<Rightarrow> nat" where "clz32 x = 32 - nat (bitlen (uint x))"
definition LeadingZeros32 :: "w32 \<Rightarrow> nat" where "LeadingZeros32 x = clz32 x"

function len_loop :: "w32 \<Rightarrow> nat" where
  "len_loop x = (if 0 < sint x then Suc (len_loop (signed_drop_bit 1 x)) else 0)"
  by pat_completeness auto
termination
  by (relation "measure (\<lambda>x. nat (sint x))") (auto simp: sint_signed_drop_bit_eq drop_bit_int_def)

declare len_loop.simps [simp del]

definition Len8 :: "w32 \<Rightarrow> nat" where "Len8 x = len_loop (x AND 0xff)"
definition Len16 :: "w32 \<Rightarrow> nat" where "Len16 x = len_loop (x AND 0xffff)"
definition Len32 :: "w32 \<Rightarrow> nat" where "Len32 x = 32 - LeadingZeros32 x"
definition Len64 :: "int \<Rightarrow> nat" where "Len64 x = 64 - LeadingZeros64 x"
definition LeadingZeros8 :: "w32 \<Rightarrow> nat" where "LeadingZeros8 x = 8 - Len8 x"
definition LeadingZeros16 :: "w32 \<Rightarrow> nat" where "LeadingZeros16 x = 16 - Len16 x"

text \<open>The loop of \<open>TrailingZeros32\<close> does not stop on zero, which is tested before it.\<close>

partial_function (option) ctz_loop :: "w32 \<Rightarrow> nat \<Rightarrow> nat option" where
  "ctz_loop x count = (if x AND 1 = 0 then ctz_loop (drop_bit 1 x) (count + 1) else Some count)"

definition TrailingZeros32 :: "w32 \<Rightarrow> nat option" where
  "TrailingZeros32 x = (if x = 0 then Some 32 else ctz_loop x 0)"

definition TrailingZeros8 :: "w32 \<Rightarrow> nat option" where
  "TrailingZeros8 x = (if x = 0 then Some 8 else map_option (min 8) (TrailingZeros32 x))"

definition TrailingZeros16 :: "w32 \<Rightarrow> nat option" where
  "TrailingZeros16 x = (if x = 0 then Some 16 else map_option (min 16) (TrailingZeros32 x))"

function ctz64_loop :: "int \<Rightarrow> nat \<Rightarrow> nat" where
  "ctz64_loop x count = (if x AND 1 = 0 \<and> count < 64 then ctz64_loop (drop_bit 1 x) (count + 1) else count)"
  by pat_completeness auto
termination
  by (relation "measure (\<lambda>(x, count). 64 - count)") auto

declare ctz64_loop.simps [simp del]

definition TrailingZeros64 :: "int \<Rightarrow> nat" where
  "TrailingZeros64 x = (if x = 0 then 64 else ctz64_loop x 0)"

text \<open>Kernighan's loop: each step clears the lowest set bit.\<close>

function ones_loop :: "w32 \<Rightarrow> nat" where
  "ones_loop x = (if x \<noteq> 0 then Suc (ones_loop (x AND (x - 1))) else 0)"
  by pat_completeness auto
termination
proof (relation "measure unat")
  fix x :: w32
  assume "x \<noteq> 0"
  then have "x AND (x - 1) \<le> x - 1" "x - 1 < x" by (simp_all add: word_and_le1 measure_unat word_less_nat_alt)
  then show "(x AND (x - 1), x) \<in> measure unat" by (simp add: word_less_nat_alt word_le_nat_alt)
qed simp

declare ones_loop.simps [simp del]

definition OnesCount32 :: "w32 \<Rightarrow> nat" where "OnesCount32 x = ones_loop x"
definition OnesCount8 :: "w32 \<Rightarrow> nat" where "OnesCount8 x = OnesCount32 (x AND 0xff)"
definition OnesCount16 :: "w32 \<Rightarrow> nat" where "OnesCount16 x = OnesCount32 (x AND 0xffff)"

function ones64_loop :: "int \<Rightarrow> nat" where
  "ones64_loop x = (if 0 < x then Suc (ones64_loop (x AND (x - 1))) else 0)"
  by pat_completeness auto
termination
proof (relation "measure nat")
  fix x :: int
  assume "0 < x"
  then have "x AND (x - 1) \<le> x - 1" by (simp add: AND_upper2)
  with \<open>0 < x\<close> show "(x AND (x - 1), x) \<in> measure nat" by simp
qed simp

declare ones64_loop.simps [simp del]

definition OnesCount64 :: "int \<Rightarrow> nat" where "OnesCount64 x = ones64_loop x"

subsection \<open>Moving bits\<close>

definition RotateLeft8 :: "w32 \<Rightarrow> int \<Rightarrow> w32" where
  "RotateLeft8 x0 k0 =
     (let k = rotateCount k0 8; x = x0 AND 0xff in
      (push_bit k x OR signed_drop_bit (8 - k) x) AND 0xff)"

definition RotateLeft16 :: "w32 \<Rightarrow> int \<Rightarrow> w32" where
  "RotateLeft16 x0 k0 =
     (let k = rotateCount k0 16; x = x0 AND 0xffff in
      (push_bit k x OR signed_drop_bit (16 - k) x) AND 0xffff)"

text \<open>A shift count of 32 is a count of 0.\<close>

definition RotateLeft32 :: "w32 \<Rightarrow> int \<Rightarrow> w32" where
  "RotateLeft32 x k0 =
     (let k = rotateCount k0 32 in push_bit k x OR drop_bit ((32 - k) mod 32) x)"

definition rotate64 :: "int \<Rightarrow> int \<Rightarrow> int" where
  "rotate64 k0 x =
     (let k = rotateCount k0 64 in (push_bit k x OR drop_bit (64 - k) x) AND uint64Mask)"

definition RotateLeft64 :: "js_num \<Rightarrow> int \<Rightarrow> js_num res" where
  "RotateLeft64 x k =
     (let useBigInt = useBigIntResult [x] in on_word64 (\<lambda>w. word64Result (rotate64 k w) useBigInt) x)"

definition Reverse8 :: "w32 \<Rightarrow> w32" where
  "Reverse8 x0 =
     (let x = x0 AND 0xff;
          x = signed_drop_bit 4 (x AND 0xf0) OR push_bit 4 (x AND 0x0f);
          x = signed_drop_bit 2 (x AND 0xcc) OR push_bit 2 (x AND 0x33)
      in signed_drop_bit 1 (x AND 0xaa) OR push_bit 1 (x AND 0x55))"

definition Reverse16 :: "w32 \<Rightarrow> w32" where
  "Reverse16 x0 =
     (let x = x0 AND 0xffff;
          x = signed_drop_bit 8 (x AND 0xff00) OR push_bit 8 (x AND 0x00ff);
          x = signed_drop_bit 4 (x AND 0xf0f0) OR push_bit 4 (x AND 0x0f0f);
          x = signed_drop_bit 2 (x AND 0xcccc) OR push_bit 2 (x AND 0x3333)
      in signed_drop_bit 1 (x AND 0xaaaa) OR push_bit 1 (x AND 0x5555))"

definition Reverse32 :: "w32 \<Rightarrow> w32" where
  "Reverse32 x =
     (let x = drop_bit 16 (x AND 0xffff0000) OR push_bit 16 (x AND 0x0000ffff);
          x = drop_bit 8 (x AND 0xff00ff00) OR push_bit 8 (x AND 0x00ff00ff);
          x = drop_bit 4 (x AND 0xf0f0f0f0) OR push_bit 4 (x AND 0x0f0f0f0f);
          x = drop_bit 2 (x AND 0xcccccccc) OR push_bit 2 (x AND 0x33333333)
      in drop_bit 1 (x AND 0xaaaaaaaa) OR push_bit 1 (x AND 0x55555555))"

definition reverse64 :: "int \<Rightarrow> int" where
  "reverse64 w =
     (let w = drop_bit 32 (w AND 0xffffffff00000000) OR push_bit 32 (w AND 0x00000000ffffffff);
          w = drop_bit 16 (w AND 0xffff0000ffff0000) OR push_bit 16 (w AND 0x0000ffff0000ffff);
          w = drop_bit 8 (w AND 0xff00ff00ff00ff00) OR push_bit 8 (w AND 0x00ff00ff00ff00ff);
          w = drop_bit 4 (w AND 0xf0f0f0f0f0f0f0f0) OR push_bit 4 (w AND 0x0f0f0f0f0f0f0f0f);
          w = drop_bit 2 (w AND 0xcccccccccccccccc) OR push_bit 2 (w AND 0x3333333333333333);
          w = drop_bit 1 (w AND 0xaaaaaaaaaaaaaaaa) OR push_bit 1 (w AND 0x5555555555555555)
      in w AND uint64Mask)"

definition Reverse64 :: "js_num \<Rightarrow> js_num res" where
  "Reverse64 x = (let useBigInt = useBigIntResult [x] in on_word64 (\<lambda>w. word64Result (reverse64 w) useBigInt) x)"

definition ReverseBytes16 :: "w32 \<Rightarrow> w32" where
  "ReverseBytes16 x = push_bit 8 (x AND 0xff) OR signed_drop_bit 8 (x AND 0xff00)"

definition ReverseBytes32 :: "w32 \<Rightarrow> w32" where
  "ReverseBytes32 x =
     push_bit 24 (x AND 0xff) OR push_bit 8 (x AND 0xff00) OR
     signed_drop_bit 8 (x AND 0xff0000) OR drop_bit 24 (x AND 0xff000000)"

definition reverseBytes64 :: "int \<Rightarrow> int" where
  "reverseBytes64 w =
     (push_bit 56 (w AND 0xff) OR push_bit 40 (w AND 0xff00) OR push_bit 24 (w AND 0xff0000) OR
      push_bit 8 (w AND 0xff000000) OR drop_bit 8 (w AND 0xff00000000) OR
      drop_bit 24 (w AND 0xff0000000000) OR drop_bit 40 (w AND 0xff000000000000) OR
      drop_bit 56 (w AND 0xff00000000000000)) AND uint64Mask"

definition ReverseBytes64 :: "js_num \<Rightarrow> js_num res" where
  "ReverseBytes64 x =
     (let useBigInt = useBigIntResult [x] in on_word64 (\<lambda>w. word64Result (reverseBytes64 w) useBigInt) x)"

subsection \<open>Double-width arithmetic\<close>

definition Mul32 :: "w32 \<Rightarrow> w32 \<Rightarrow> int \<times> int" where
  "Mul32 x y = (let product = uint x * uint y in (drop_bit 32 product AND 0xffffffff, product AND 0xffffffff))"

definition mul64 :: "int \<Rightarrow> int \<Rightarrow> int \<times> int" where
  "mul64 x y = (let product = x * y; lo = product AND uint64Mask; hi = drop_bit 64 product in (hi AND uint64Mask, lo))"

definition pair_result :: "bool \<Rightarrow> int \<times> int \<Rightarrow> js_num \<times> js_num" where
  "pair_result useBigInt r = (word64Result (fst r) useBigInt, word64Result (snd r) useBigInt)"

definition Mul64 :: "js_num \<Rightarrow> js_num \<Rightarrow> (js_num \<times> js_num) res" where
  "Mul64 x y = bindR (toUint64 x) (\<lambda>a. bindR (toUint64 y) (\<lambda>b.
     Inr (pair_result (useBigIntResult [x, y]) (mul64 a b))))"

text \<open>\<open>Number(quotient)\<close> rounds a quotient of more than 53 bits.\<close>

definition Div32 :: "w32 \<Rightarrow> w32 \<Rightarrow> w32 \<Rightarrow> (js_number \<times> js_number) res" where
  "Div32 hi lo y =
     (if y = 0 then Inl (ThrownError ''division by zero'')
      else let dividend = push_bit 32 (uint hi) OR uint lo; divisor = uint y in
        Inr (number_of_bigint (js_quot dividend divisor), number_of_bigint (js_rem dividend divisor)))"

definition Div64 :: "js_num \<Rightarrow> js_num \<Rightarrow> js_num \<Rightarrow> (js_num \<times> js_num) res" where
  "Div64 hi lo y = bindR (toUint64 hi) (\<lambda>h. bindR (toUint64 lo) (\<lambda>l. bindR (toUint64 y) (\<lambda>d.
     if d = 0 then Inl (ThrownError ''division by zero'')
     else let dividend = push_bit 64 h OR l in
       Inr (pair_result (useBigIntResult [hi, lo, y]) (js_quot dividend d, js_rem dividend d)))))"

definition Rem64 :: "js_num \<Rightarrow> js_num \<Rightarrow> js_num \<Rightarrow> js_num res" where
  "Rem64 hi lo y = bindR (Div64 hi lo y) (\<lambda>r. Inr (snd r))"

definition Rem32 :: "w32 \<Rightarrow> w32 \<Rightarrow> w32 \<Rightarrow> js_number res" where
  "Rem32 hi lo y = bindR (Div32 hi lo y) (\<lambda>r. Inr (snd r))"

text \<open>The 32-bit sums are exact doubles; \<open>>>> 0\<close> reduces them.\<close>

definition Add32 :: "w32 \<Rightarrow> w32 \<Rightarrow> w32 \<Rightarrow> int \<times> int" where
  "Add32 x y carry =
     (let sum = uint x + uint y + uint carry in (asUintN 32 sum, if 0xffffffff < sum then 1 else 0))"

definition add64 :: "int \<Rightarrow> int \<Rightarrow> int \<Rightarrow> int \<times> int" where
  "add64 x y carry = (let sum = x + y + carry in (sum AND uint64Mask, if uint64Mask < sum then 1 else 0))"

definition Add64 :: "js_num \<Rightarrow> js_num \<Rightarrow> js_num \<Rightarrow> (js_num \<times> js_num) res" where
  "Add64 x y carry = bindR (toUint64 x) (\<lambda>a. bindR (toUint64 y) (\<lambda>b. bindR (toUint64 carry) (\<lambda>c.
     Inr (pair_result (useBigIntResult [x, y, carry]) (add64 a b c)))))"

definition Sub32 :: "w32 \<Rightarrow> w32 \<Rightarrow> w32 \<Rightarrow> int \<times> int" where
  "Sub32 x y borrow =
     (let diff = uint x - uint y - uint borrow in (asUintN 32 diff, if diff < 0 then 1 else 0))"

definition sub64 :: "int \<Rightarrow> int \<Rightarrow> int \<Rightarrow> int \<times> int" where
  "sub64 x y borrow = (let diff = x - y - borrow in (diff AND uint64Mask, if diff < 0 then 1 else 0))"

definition Sub64 :: "js_num \<Rightarrow> js_num \<Rightarrow> js_num \<Rightarrow> (js_num \<times> js_num) res" where
  "Sub64 x y borrow = bindR (toUint64 x) (\<lambda>a. bindR (toUint64 y) (\<lambda>b. bindR (toUint64 borrow) (\<lambda>c.
     Inr (pair_result (useBigIntResult [x, y, borrow]) (sub64 a b c)))))"

subsection \<open>Counting is right\<close>

lemma Least_bit_Suc:
  "\<not> bit (x :: int) 0 \<Longrightarrow> bit x t \<Longrightarrow> (LEAST i. bit x i) = Suc (LEAST i. bit (x div 2) i)"
  by (subst Least_Suc [of "bit x" t]) (simp_all add: bit_Suc)

lemma kernighan:
  "0 < (x :: int) \<Longrightarrow> \<exists>t. bit x t \<and> (\<forall>i. bit (x AND (x - 1)) i \<longleftrightarrow> bit x i \<and> i \<noteq> t)"
proof (induction "nat x" arbitrary: x rule: less_induct)
  case less
  define m where "m = x div 2"
  show ?case
  proof (cases "even x")
    case True
    with less.prems have m: "0 < m" "x = 2 * m" "m < x" by (auto simp: m_def)
    then obtain t where t: "bit m t" "\<forall>i. bit (m AND (m - 1)) i \<longleftrightarrow> bit m i \<and> i \<noteq> t"
      using less.hyps [of m] by auto
    have "bit (x AND (x - 1)) i \<longleftrightarrow> bit x i \<and> i \<noteq> Suc t" for i
    proof (cases i)
      case (Suc j)
      have "(x - 1) div 2 = m - 1" using m(2) by presburger
      moreover have "x div 2 = m" by (simp add: m_def)
      ultimately show ?thesis using t(2) [unfolded bit_and_iff] unfolding bit_and_iff unfolding Suc bit_Suc by simp
    next
      case 0
      then show ?thesis using True unfolding bit_and_iff by (simp add: bit_0)
    qed
    moreover have "bit x (Suc t)" using t(1) m(2) by (simp add: bit_Suc)
    ultimately show ?thesis by blast
  next
    case False
    have "bit (x AND (x - 1)) i \<longleftrightarrow> bit x i \<and> i \<noteq> 0" for i
    proof (cases i)
      case (Suc j)
      have "(x - 1) div 2 = x div 2" using False by presburger
      then show ?thesis unfolding bit_and_iff unfolding Suc bit_Suc by simp
    next
      case 0
      then show ?thesis using False unfolding bit_and_iff by (simp add: bit_0)
    qed
    moreover have "bit x 0" using False by (simp add: bit_0)
    ultimately show ?thesis by blast
  qed
qed

lemma finite_bits: "0 \<le> (x :: int) \<Longrightarrow> finite {i. bit x i}"
proof (induction "nat x" arbitrary: x rule: less_induct)
  case less
  show ?case
  proof (cases "x = 0")
    case False
    with less.prems have "finite {i. bit (x div 2) i}" by (intro less.hyps) auto
    moreover have "{i. bit x i} \<subseteq> insert 0 (Suc ` {i. bit (x div 2) i})"
    proof
      fix i assume "i \<in> {i. bit x i}"
      then show "i \<in> insert 0 (Suc ` {i. bit (x div 2) i})" by (cases i) (auto simp: bit_Suc)
    qed
    ultimately show ?thesis by (meson finite_imageI finite_insert finite_subset)
  qed (simp add: bot_fun_def)
qed

lemma ones64_card: "0 \<le> x \<Longrightarrow> ones64_loop x = card {i. bit x i}"
proof (induction x rule: ones64_loop.induct)
  case (1 x)
  show ?case
  proof (cases "0 < x")
    case True
    then obtain t where t: "bit x t" "\<forall>i. bit (x AND (x - 1)) i \<longleftrightarrow> bit x i \<and> i \<noteq> t"
      using kernighan by blast
    then have "{i. bit (x AND (x - 1)) i} = {i. bit x i} - {t}" by auto
    then have "card {i. bit x i} = Suc (card {i. bit (x AND (x - 1)) i})"
      using t(1) finite_bits [OF 1(2)] card.remove [of "{i. bit x i}" t] by simp
    with 1(1) [OF True] True show ?thesis by (subst ones64_loop.simps) simp
  next
    case False
    with 1(2) have "x = 0" by simp
    then show ?thesis by (subst ones64_loop.simps) (simp add: bot_fun_def)
  qed
qed

lemma uint_nonzero_pos: "x \<noteq> (0 :: w32) \<Longrightarrow> 0 < uint x"
  by (simp add: word_neq_0_conv word_less_def)

lemma word_and_one: "(x :: w32) AND 1 = of_bool (bit (uint x) 0)"
  by (rule bit_word_eqI) (auto simp: bit_and_iff bit_1_iff bit_uint_iff intro: gr0I)

lemma ones_loop_64: "ones_loop x = ones64_loop (uint x)"
proof (induction x rule: ones_loop.induct)
  case (1 x)
  show ?case
  proof (cases "x = 0")
    case False
    then have "1 \<le> x" using inc_le [of 0 x] by (simp add: word_neq_0_conv)
    then have "uint (x - 1) = uint x - 1" using uint_minus_simple_alt [of 1 x] by simp
    then have "uint (x AND (x - 1)) = uint x AND (uint x - 1)" by (simp add: uint_and)
    moreover have "0 < uint x" using False by (rule uint_nonzero_pos)
    ultimately show ?thesis using 1 [OF False] False by (subst ones_loop.simps, subst ones64_loop.simps) simp
  qed (simp add: ones_loop.simps ones64_loop.simps)
qed

lemma OnesCount32_card: "OnesCount32 x = card {i. bit x i}"
proof -
  have "{i. bit (uint x) i} = {i. bit x i}" using bit_imp_le_length by (fastforce simp: bit_uint_iff)
  then show ?thesis by (simp add: OnesCount32_def ones_loop_64 ones64_card)
qed

text \<open>Leading zeros and lengths.\<close>

lemma bitlen_eqI: "2 ^ k \<le> x \<Longrightarrow> x < 2 ^ Suc k \<Longrightarrow> bitlen x = int k + 1"
  using bitlen_le_iff_power [of x "int k + 1"] bitlen_ge_iff_power [of "int k + 1" x]
  by (simp add: nat_add_distrib)

lemma clz_loop_spec:
  "0 < x \<Longrightarrow> x < 2 ^ Suc k \<Longrightarrow> k \<le> 63 \<Longrightarrow> clz_loop x (2 ^ k) (63 - k) = 64 - nat (bitlen x)"
proof (induction k)
  case 0
  then have "x = 1" by simp
  then show ?case by (subst clz_loop.simps) (simp add: bitlen_alt_def)
next
  case (Suc k)
  show ?case
  proof (cases "bit x (Suc k)")
    case True
    then have "2 ^ Suc k \<le> x" using Suc.prems(1) by (metis bit_take_bit_iff less_irrefl not_le take_bit_int_eq_self_iff order_less_imp_le)
    with Suc.prems have "bitlen x = int (Suc k) + 1" by (intro bitlen_eqI)
    moreover have "x AND 2 ^ Suc k \<noteq> 0" using True by (simp only: and_exp_eq_0_iff_not_bit not_not)
    ultimately show ?thesis using Suc.prems by (subst clz_loop.simps) (simp add: nat_add_distrib del: power_Suc)
  next
    case False
    have "take_bit (Suc (Suc k)) x = x" using Suc.prems by (simp add: take_bit_int_eq_self_iff)
    moreover have "take_bit (Suc (Suc k)) x = take_bit (Suc k) x"
      using False by (simp only: take_bit_Suc_from_most [of "Suc k"] of_bool_eq mult_zero_right add_0_left)
    ultimately have "x < 2 ^ Suc k" using take_bit_int_less_exp [of "Suc k" x] by simp
    moreover have a: "x AND 2 ^ Suc k = 0" using False by (simp only: and_exp_eq_0_iff_not_bit not_False_eq_True)
    moreover have "drop_bit 1 (2 ^ Suc k :: int) = 2 ^ k" by (simp add: drop_bit_Suc)
    moreover have "63 - Suc k + 1 = 63 - k" "63 - Suc k < 64" using Suc.prems(3) by simp_all
    moreover note clz_loop.simps [of x "2 ^ Suc k" "63 - Suc k"]
    ultimately show ?thesis
      using Suc.IH Suc.prems(1,3) by (simp del: power_Suc)
  qed
qed

lemma LeadingZeros64_bitlen:
  "0 \<le> x \<Longrightarrow> x < 2 ^ 64 \<Longrightarrow> LeadingZeros64 x = 64 - nat (bitlen x)"
  using clz_loop_spec [of x 63] by (auto simp: LeadingZeros64_def)

lemma bitlen_width: "bitlen (uint (x :: 'a :: len word)) \<le> LENGTH('a)"
  using uint_lt2p [of x] by (simp add: bitlen_le_iff_power)

lemma len_loop_bitlen: "0 \<le> sint x \<Longrightarrow> len_loop x = nat (bitlen (sint x))"
proof (induction x rule: len_loop.induct)
  case (1 x)
  show ?case
  proof (cases "0 < sint x")
    case True
    have s: "sint (signed_drop_bit 1 x) = sint x div 2"
      by (simp add: sint_signed_drop_bit_eq drop_bit_int_def)
    have "bitlen (sint x) = bitlen (sint x div 2) + 1" using True by (subst compute_bitlen) simp
    with 1 True s show ?thesis
      by (subst len_loop.simps) (simp add: nat_add_distrib bitlen_nonneg)
  next
    case False
    with 1(2) have "sint x = 0" by simp
    then show ?thesis by (subst len_loop.simps) simp
  qed
qed

text \<open>Trailing zeros.\<close>

lemma ctz_loop_spec:
  "x \<noteq> 0 \<Longrightarrow> ctz_loop x c = Some (c + (LEAST i. bit (uint x) i))"
proof (induction "unat x" arbitrary: x c rule: less_induct)
  case less
  show ?case
  proof (cases "bit (uint x) 0")
    case True
    then have "x AND 1 \<noteq> 0" by (simp add: word_and_one)
    moreover have "(LEAST i. bit (uint x) i) = 0" using True by (rule Least_equality) simp
    ultimately show ?thesis by (simp add: ctz_loop.simps)
  next
    case False
    then have e: "x AND 1 = 0" by (simp add: word_and_one)
    have d: "uint (drop_bit 1 x) = uint x div 2"
      using uint_lt2p [of x] by (simp add: unsigned_drop_bit_eq drop_bit_int_def take_bit_int_eq_self)
    have pos: "0 < uint x" using less.prems by (rule uint_nonzero_pos)
    have "even (uint x)" using False by (simp add: bit_0)
    then have nz: "uint x div 2 \<noteq> 0" "uint x div 2 < uint x" using pos by auto
    then have "drop_bit 1 x \<noteq> 0" using d by fastforce
    moreover have "unat (drop_bit 1 x) < unat x" using nz d pos by (simp add: unat_drop_bit_eq drop_bit_nat_def less.prems unat_gt_0)
    ultimately have "ctz_loop (drop_bit 1 x) (Suc c) = Some (Suc c + (LEAST i. bit (uint x div 2) i))"
      using less.hyps [of "drop_bit 1 x" "Suc c"] d by simp
    moreover obtain t where "bit (uint x) t" using kernighan [OF pos] by blast
    ultimately show ?thesis
      using e Least_bit_Suc [OF False] by (simp add: ctz_loop.simps)
  qed
qed

lemma ctz64_loop_spec:
  "0 < x \<Longrightarrow> x < 2 ^ (64 - c) \<Longrightarrow> c < 64 \<Longrightarrow> ctz64_loop x c = c + (LEAST i. bit x i)"
proof (induction "63 - c" arbitrary: x c)
  case 0
  then have c: "c = 63" by linarith
  with 0 have "x = 1" by simp
  moreover have "(LEAST i. bit (1 :: int) i) = 0" by (rule Least_equality) (simp_all add: bit_1_iff)
  ultimately show ?case using c by (subst ctz64_loop.simps) simp
next
  case (Suc k)
  show ?case
  proof (cases "bit x 0")
    case True
    then have "x AND 1 \<noteq> 0" by (simp add: and_one_eq bit_0 odd_iff_mod_2_eq_one)
    moreover have "(LEAST i. bit x i) = 0" using True by (rule Least_equality) simp
    ultimately show ?thesis by (subst ctz64_loop.simps) simp
  next
    case False
    then have e: "x AND 1 = 0" "even x" by (auto simp: and_one_eq bit_0)
    obtain t where t: "bit x t" using kernighan [OF Suc.prems(1)] by blast
    have "64 - c = Suc (64 - Suc c)" using Suc.prems(3) by simp
    then have "x div 2 < 2 ^ (64 - Suc c)" using Suc.prems(2) by simp
    moreover have "0 < x div 2" using e(2) Suc.prems(1) by auto
    ultimately have "ctz64_loop (x div 2) (Suc c) = Suc c + (LEAST i. bit (x div 2) i)"
      using Suc.hyps by (intro Suc.hyps(1)) auto
    then show ?thesis using e Suc.prems Least_bit_Suc [OF False t]
      by (subst ctz64_loop.simps) (simp add: drop_bit_int_def)
  qed
qed

lemma Least_bits_uint: "(LEAST i. bit (uint (x :: 'a :: len word)) i) = (LEAST i. bit x i)"
proof -
  have "bit (uint x) i = bit x i" for i using bit_imp_le_length by (fastforce simp: bit_uint_iff)
  then show ?thesis by simp
qed

text \<open>An 8-bit or 16-bit argument in its 32-bit pattern.\<close>

lemma narrow_arg:
  "bit (ucast (u :: 8 word) :: w32) i = bit u i" "bit (ucast (v :: 16 word) :: w32) i = bit v i"
  "uint (ucast u :: w32) = uint u" "uint (ucast v :: w32) = uint v"
proof -
  show "bit (ucast u :: w32) i = bit u i" "bit (ucast v :: w32) i = bit v i"
    using bit_imp_le_length [of u i] bit_imp_le_length [of v i] by (auto simp: bit_ucast_iff)
  have "uint u < 2 ^ 32" "uint v < 2 ^ 32" using uint_lt2p [of u] uint_lt2p [of v] by simp_all
  then show "uint (ucast u :: w32) = uint u" "uint (ucast v :: w32) = uint v"
    by (simp_all add: unsigned_ucast_eq take_bit_int_eq_self)
qed

lemma narrow_and:
  "(ucast (u :: 8 word) :: w32) AND 0xff = ucast u" "(ucast (v :: 16 word) :: w32) AND 0xffff = ucast v"
proof -
  have m: "(0xff :: w32) = mask 8" "(0xffff :: w32) = mask 16" by (simp_all add: mask_eq_exp_minus_1)
  show "(ucast u :: w32) AND 0xff = ucast u" "(ucast v :: w32) AND 0xffff = ucast v"
    unfolding m take_bit_eq_mask [symmetric]
    using bit_imp_le_length [of u] bit_imp_le_length [of v]
    by (auto intro!: bit_word_eqI simp: bit_take_bit_iff narrow_arg)
qed

lemma narrow_sint: "sint (ucast (u :: 8 word) :: w32) = uint u" "sint (ucast (v :: 16 word) :: w32) = uint v"
proof -
  have "uint u < 2 ^ 31" "uint v < 2 ^ 31" using uint_lt2p [of u] uint_lt2p [of v] by simp_all
  then show "sint (ucast u :: w32) = uint u" "sint (ucast v :: w32) = uint v"
    using narrow_arg(3) [of u] narrow_arg(4) [of v] order_trans [of "- (2 ^ 31)" 0 "uint u"] order_trans [of "- (2 ^ 31)" 0 "uint v"]
    by (simp_all add: sint_uint signed_take_bit_int_eq_self)
qed

lemma trailing_bound: "(u :: 'a :: len word) \<noteq> 0 \<Longrightarrow> (LEAST i. bit u i) < LENGTH('a)"
proof -
  assume "u \<noteq> 0"
  have "\<exists>t. bit u t"
  proof (rule ccontr)
    assume "\<nexists>t. bit u t"
    then have "u = 0" by (intro bit_word_eqI) simp
    with \<open>u \<noteq> 0\<close> show False ..
  qed
  then obtain t where "bit u t" by blast
  then show ?thesis using bit_imp_le_length [of u t] Least_le [of "bit u" t] by simp
qed

text \<open>The counting functions: leading zeros and lengths are read off the binary length of the
  number, trailing zeros are the place of the lowest set bit, the counts of ones the number
  of set bits, at each of the widths, zero included; the loops end.\<close>

theorem bit_counts:
  fixes w :: "64 word" and x :: w32 and u :: "8 word" and v :: "16 word"
  shows "LeadingZeros64 (uint w) = 64 - nat (bitlen (uint w)) \<and> Len64 (uint w) = nat (bitlen (uint w)) \<and>
    TrailingZeros64 (uint w) = (if w = 0 then 64 else LEAST i. bit w i) \<and> OnesCount64 (uint w) = card {i. bit w i} \<and>
    LeadingZeros32 x = 32 - nat (bitlen (uint x)) \<and> Len32 x = nat (bitlen (uint x)) \<and>
    TrailingZeros32 x = Some (if x = 0 then 32 else LEAST i. bit x i) \<and> OnesCount32 x = card {i. bit x i} \<and>
    LeadingZeros8 (ucast u) = 8 - nat (bitlen (uint u)) \<and> Len8 (ucast u) = nat (bitlen (uint u)) \<and>
    TrailingZeros8 (ucast u) = Some (if u = 0 then 8 else LEAST i. bit u i) \<and>
    OnesCount8 (ucast u) = card {i. bit u i} \<and>
    LeadingZeros16 (ucast v) = 16 - nat (bitlen (uint v)) \<and> Len16 (ucast v) = nat (bitlen (uint v)) \<and>
    TrailingZeros16 (ucast v) = Some (if v = 0 then 16 else LEAST i. bit v i) \<and>
    OnesCount16 (ucast v) = card {i. bit v i}"
proof -
  have lz: "LeadingZeros64 (uint w) = 64 - nat (bitlen (uint w))"
    using LeadingZeros64_bitlen [of "uint w"] uint_lt2p [of w] by simp
  have tz: "TrailingZeros64 (uint w) = (if w = 0 then 64 else LEAST i. bit w i)"
    using ctz64_loop_spec [of "uint w" 0] uint_lt2p [of w]
    by (auto simp: TrailingZeros64_def Least_bits_uint less_le uint_0_iff)
  have oc: "OnesCount64 (uint w) = card {i. bit w i}"
  proof -
    have "bit (uint w) i = bit w i" for i using bit_imp_le_length [of w i] by (auto simp: bit_uint_iff)
    then show ?thesis by (simp add: OnesCount64_def ones64_card)
  qed
  have t32: "TrailingZeros32 y = Some (if y = 0 then 32 else LEAST i. bit y i)" for y
    using ctz_loop_spec [of y 0] by (simp add: TrailingZeros32_def Least_bits_uint)
  have nz: "(ucast u :: w32) = 0 \<longleftrightarrow> u = 0" "(ucast v :: w32) = 0 \<longleftrightarrow> v = 0"
    by (auto intro!: bit_word_eqI simp flip: narrow_arg(1,2))
  have eta: "bit (ucast u :: w32) = bit u" "bit (ucast v :: w32) = bit v" by (simp_all add: fun_eq_iff narrow_arg)
  have len: "len_loop (ucast u) = nat (bitlen (uint u))" "len_loop (ucast v) = nat (bitlen (uint v))"
    using len_loop_bitlen [of "ucast u"] len_loop_bitlen [of "ucast v"] by (simp_all add: narrow_sint)
  show ?thesis
    using bitlen_width [of w] bitlen_width [of x] trailing_bound [of u] trailing_bound [of v]
    by (simp add: lz tz oc t32 nz len OnesCount32_card Len64_def Len32_def LeadingZeros32_def clz32_def
        Len8_def Len16_def LeadingZeros8_def LeadingZeros16_def TrailingZeros8_def TrailingZeros16_def
        OnesCount8_def OnesCount16_def narrow_and eta)
qed

subsection \<open>Moving bits is right\<close>

lemma rotateCount_mod:
  assumes "0 < n"
  shows "rotateCount k n = nat (k mod n)"
proof -
  have b: "0 < js_rem k n + n" using js_rem_bound [of n k] assms by (simp add: abs_less_iff)
  have "js_rem (js_rem k n + n) n = (js_rem k n + n) mod n"
    using b assms by (simp add: js_rem_def)
  also have "\<dots> = (js_quot k n * n + js_rem k n) mod n" by simp
  also have "\<dots> = k mod n" by (simp only: js_quot_rem)
  finally show ?thesis by (simp add: rotateCount_def)
qed

lemma mask64: "uint64Mask = mask 64"
  by (simp add: uint64Mask_def mask_eq_exp_minus_1)

lemma bit_uint_word: "bit (uint (w :: 'a :: len word)) i = bit w i"
  using bit_imp_le_length [of w i] by (auto simp: bit_uint_iff)

lemma rotl_index:
  fixes i k n :: nat
  assumes "k < n" "i < n"
  shows "(i + (n - k)) mod n = (if k \<le> i then i - k else i + (n - k))"
proof (cases "k \<le> i")
  case True
  then have "i + (n - k) = (i - k) + n" using assms(1) by arith
  then have "(i + (n - k)) mod n = (i - k) mod n" by (simp only: mod_add_self2)
  then show ?thesis using True assms by (simp only: if_True) simp
qed (use assms in simp)

lemma rotl_bits:
  fixes w :: "'a :: len word"
  assumes "L = LENGTH('a)" "k < L"
  shows "bit (word_rotl k w) i \<longleftrightarrow> i < L \<and> (if k \<le> i then bit w (i - k) else bit w (i + (L - k)))"
proof (cases "i < L")
  case True
  then show ?thesis
    unfolding bit_word_rotl_iff assms(1) [symmetric] using rotl_index [OF assms(2) True] assms(2) by simp
qed (simp add: bit_word_rotl_iff assms(1))

text \<open>The two halves of a rotation by \<open>k\<close> of a number of \<open>L\<close> bits.\<close>

lemma rotation_bits:
  fixes w :: int
  assumes "k < L" "\<And>j. bit w j \<Longrightarrow> j < L"
  shows "bit ((push_bit k w OR drop_bit (L - k) w) AND mask L) i \<longleftrightarrow>
    i < L \<and> (if k \<le> i then bit w (i - k) else bit w (i + (L - k)))"
  using assms(2) [of "i + (L - k)"] assms(1)
  by (auto simp: bit_and_iff bit_or_iff bit_push_bit_iff_int bit_drop_bit_eq bit_mask_iff add.commute)

lemma len32: "LENGTH(32) = 32"
  by simp

lemma rotation_bits32:
  fixes w :: w32
  assumes "k < L" "L < 32" "\<And>j. bit w j \<Longrightarrow> j < L"
  shows "bit ((push_bit k w OR signed_drop_bit (L - k) w) AND mask L) i \<longleftrightarrow>
    i < L \<and> (if k \<le> i then bit w (i - k) else bit w (i + (L - k)))"
proof -
  have n: "\<not> bit w (32 - 1)" using assms(2) assms(3) [of "32 - 1"] by auto
  have o: "j < 32" if "bit w j" for j using assms(2) assms(3) [OF that] by simp
  have s: "bit (signed_drop_bit (L - k) w) i \<longleftrightarrow> bit w (i + (L - k))"
  proof (cases "32 - (L - k) \<le> i \<and> i < 32")
    case True
    then have "\<not> bit w (i + (L - k))" using o [of "i + (L - k)"] by auto
    with True n show ?thesis unfolding bit_signed_drop_bit_iff len32 by simp
  next
    case False
    then show ?thesis unfolding bit_signed_drop_bit_iff len32 if_not_P [OF False] by (simp only: add.commute)
  qed
  show ?thesis
    using assms(3) [of "i + (L - k)"] assms(1,2) unfolding bit_and_iff bit_or_iff bit_push_bit_iff s len32 bit_mask_iff
    by auto
qed

lemma rotate64_rotl: "rotate64 k (uint (w :: 64 word)) = uint (word_rotl (nat (k mod 64)) w)"
proof (rule bit_eqI)
  fix i
  define n where "n = nat (k mod 64)"
  have n: "n < 64" by (simp add: n_def nat_less_iff)
  have c: "rotateCount k 64 = n" by (simp add: rotateCount_mod n_def)
  have r: "bit ((push_bit n (uint w) OR drop_bit (64 - n) (uint w)) AND mask 64) i =
      (i < 64 \<and> (if n \<le> i then bit (uint w) (i - n) else bit (uint w) (i + (64 - n))))"
    by (rule rotation_bits [OF n]) (use bit_imp_le_length [of w] in \<open>simp add: bit_uint_word\<close>)
  have "bit (word_rotl n w) i = (i < 64 \<and> (if n \<le> i then bit w (i - n) else bit w (i + (64 - n))))"
    by (rule rotl_bits [OF _ n]) simp
  then show "bit (rotate64 k (uint w)) i = bit (uint (word_rotl (nat (k mod 64)) w)) i"
    unfolding rotate64_def c mask64 Let_def n_def [symmetric] r by (simp only: bit_uint_word)
qed

lemma RotateLeft32_rotl: "RotateLeft32 x k = word_rotl (nat (k mod 32)) x"
proof (rule bit_word_eqI)
  fix i assume i: "i < LENGTH(32)"
  define n L where "n = nat (k mod 32)" and "L = (32 :: nat)"
  have n: "n < L" by (simp add: n_def L_def nat_less_iff)
  have c: "rotateCount k 32 = n" by (simp add: rotateCount_mod n_def)
  have l: "LENGTH(32) = L" unfolding L_def by (rule len32)
  have d: "(L - n) mod L = (if n = 0 then 0 else L - n)" using n by auto
  have x: "bit x j \<Longrightarrow> j < L" for j using bit_imp_le_length [of x j] by (simp only: l)
  have "bit (push_bit n x OR drop_bit ((L - n) mod L) x) i \<longleftrightarrow> i < L \<and> (if n \<le> i then bit x (i - n) else bit x (i + (L - n)))"
    using n i [unfolded l] x [of "i + (L - n)"] unfolding d bit_or_iff bit_push_bit_iff bit_drop_bit_eq possible_bit_word l
    by (auto simp: add.commute)
  moreover have "bit (word_rotl n x) i = (i < L \<and> (if n \<le> i then bit x (i - n) else bit x (i + (L - n))))"
    by (rule rotl_bits [OF l [symmetric] n])
  ultimately show "bit (RotateLeft32 x k) i = bit (word_rotl (nat (k mod 32)) x) i"
    unfolding RotateLeft32_def Let_def c n_def [symmetric] L_def [symmetric] by (simp only:)
qed

lemma narrow_rotl:
  "RotateLeft8 (ucast u) k = ucast (word_rotl (nat (k mod 8)) (u :: 8 word))"
  "RotateLeft16 (ucast v) k = ucast (word_rotl (nat (k mod 16)) (v :: 16 word))"
proof -
  have m: "(0xff :: w32) = mask 8" "(0xffff :: w32) = mask 16" by (simp_all add: mask_eq_exp_minus_1)
  define a b where "a = nat (k mod 8)" and "b = nat (k mod 16)"
  have c: "rotateCount k 8 = a" "rotateCount k 16 = b" by (simp_all add: rotateCount_mod a_def b_def)
  have n: "a < 8" "b < 16" by (simp_all add: a_def b_def nat_less_iff)
  have bu: "bit (ucast u :: w32) j \<Longrightarrow> j < 8" for j using bit_imp_le_length [of u j] by (simp add: narrow_arg)
  have bv: "bit (ucast v :: w32) j \<Longrightarrow> j < 16" for j using bit_imp_le_length [of v j] by (simp add: narrow_arg)
  have r: "bit (word_rotl a u) i = (i < 8 \<and> (if a \<le> i then bit u (i - a) else bit u (i + (8 - a))))"
    "bit (word_rotl b v) i = (i < 16 \<and> (if b \<le> i then bit v (i - b) else bit v (i + (16 - b))))" for i
    by (rule rotl_bits [OF _ n(1)], simp, rule rotl_bits [OF _ n(2)], simp)
  have "bit (RotateLeft8 (ucast u) k) i = bit (ucast (word_rotl a u) :: w32) i" for i
    unfolding RotateLeft8_def Let_def c narrow_and(1) unfolding narrow_arg(1) r m(1)
    by (subst rotation_bits32 [OF n(1) _ bu]) (simp_all add: narrow_arg)
  then show "RotateLeft8 (ucast u) k = ucast (word_rotl (nat (k mod 8)) u)"
    unfolding a_def [symmetric] by (rule bit_word_eqI)
  have "bit (RotateLeft16 (ucast v) k) i = bit (ucast (word_rotl b v) :: w32) i" for i
    unfolding RotateLeft16_def Let_def c narrow_and(2) unfolding narrow_arg(2) r m(2)
    by (subst rotation_bits32 [OF n(2) _ bv]) (simp_all add: narrow_arg)
  then show "RotateLeft16 (ucast v) k = ucast (word_rotl (nat (k mod 16)) v)"
    unfolding b_def [symmetric] by (rule bit_word_eqI)
qed

text \<open>One step of a reversal swaps neighbouring blocks of \<open>k\<close> bits.\<close>

lemma swap_arith:
  fixes i k n :: nat
  assumes "0 < k" "2 * k dvd n"
  shows "(A \<and> i + k < n \<and> odd ((i + k) div k)) \<or> (k \<le> i \<and> B \<and> i - k < n \<and> even ((i - k) div k)) \<longleftrightarrow>
    i < n \<and> (if even (i div k) then A else B)"
proof -
  have a: "(i + k) div k = Suc (i div k)" using assms(1) by simp
  have b: "k \<le> i \<Longrightarrow> i div k = Suc ((i - k) div k)" using assms(1) by (simp add: le_div_geq)
  obtain q where q: "n = 2 * k * q" using assms(2) by blast
  have d: "j + k < n" if iq: "j < n" "even (j div k)" for j
  proof -
    obtain t where t: "j div k = 2 * t" using iq(2) by blast
    have "2 * t < 2 * q" using iq(1) q t assms(1) by (metis mult.assoc mult.commute less_mult_imp_div_less)
    then have "k * Suc (Suc (2 * t)) \<le> k * (2 * q)" by (intro mult_le_mono2) simp
    moreover have "j < k * Suc (2 * t)" using t assms(1) by (metis dividend_less_times_div mult_Suc_right)
    ultimately show ?thesis using q by (simp add: algebra_simps)
  qed
  have e: "i < n" if "k \<le> i" "even ((i - k) div k)" "i - k < n"
  proof -
    have "i - k + k < n" by (rule d) (use that in simp_all)
    then show ?thesis using that(1) by simp
  qed
  show ?thesis using a b d [of i] e by (cases "k \<le> i") auto
qed

text \<open>A constant with ones in the blocks of one parity.\<close>

definition blocks :: "bool \<Rightarrow> nat \<Rightarrow> nat \<Rightarrow> nat \<Rightarrow> bool" where
  "blocks p n k i \<longleftrightarrow> i < n \<and> odd (i div k) = p"

lemma swap_int:
  fixes w :: int
  assumes "bit m1 = blocks True n k" "bit m2 = blocks False n k" "0 < k" "2 * k dvd n"
  shows "bit (drop_bit k (w AND m1) OR push_bit k (w AND m2)) i \<longleftrightarrow>
    i < n \<and> (if even (i div k) then bit w (i + k) else bit w (i - k))"
  unfolding swap_arith [OF assms(3,4), symmetric]
  by (auto simp: bit_or_iff bit_and_iff bit_push_bit_iff_int bit_drop_bit_eq assms(1,2) blocks_def add.commute [of k])

lemma swap_word:
  fixes w :: w32
  assumes "bit m1 = blocks True n k" "bit m2 = blocks False n k" "0 < k" "2 * k dvd n" "n \<le> 32"
  shows "bit (drop_bit k (w AND m1) OR push_bit k (w AND m2)) i \<longleftrightarrow>
    i < n \<and> (if even (i div k) then bit w (i + k) else bit w (i - k))"
proof -
  have l: "i < 32" if "k \<le> i" "i - k < n" "even ((i - k) div k)"
    using swap_arith [OF assms(3,4), of False i True] that assms(5) by auto
  show ?thesis
    unfolding swap_arith [OF assms(3,4), symmetric] bit_or_iff bit_and_iff bit_push_bit_iff possible_bit_word len32
      bit_drop_bit_eq assms(1,2) blocks_def
    using l by (auto simp: add.commute [of k])
qed

lemma signed_drop_nonneg: "\<not> bit (w :: w32) 31 \<Longrightarrow> signed_drop_bit k w = drop_bit k w"
proof (rule bit_word_eqI)
  fix i
  assume n: "\<not> bit w 31"
  have o: "j < 32" if "bit w j" for j using bit_imp_le_length [OF that] by simp
  show "bit (signed_drop_bit k w) i = bit (drop_bit k w) i"
  proof (cases "32 - k \<le> i \<and> i < 32")
    case True
    then have "\<not> bit w (k + i)" using o [of "k + i"] by auto
    with True n show ?thesis unfolding bit_signed_drop_bit_iff bit_drop_bit_eq len32 by simp
  next
    case False
    then show ?thesis unfolding bit_signed_drop_bit_iff bit_drop_bit_eq len32 if_not_P [OF False] by simp
  qed
qed

lemma swap_signed:
  fixes w :: w32
  assumes "bit m1 = blocks True n k" "bit m2 = blocks False n k" "0 < k" "2 * k dvd n" "n < 32"
  shows "bit (signed_drop_bit k (w AND m1) OR push_bit k (w AND m2)) i \<longleftrightarrow>
    i < n \<and> (if even (i div k) then bit w (i + k) else bit w (i - k))"
proof -
  have "\<not> bit (w AND m1) 31" using assms(5) unfolding bit_and_iff assms(1) blocks_def by simp
  from signed_drop_nonneg [OF this, of k] swap_word [OF assms(1-4), of w i] assms(5) show ?thesis by simp
qed

lemma int_pattern:
  assumes "0 \<le> (m :: int)" "m < 2 ^ 64" "list_all (\<lambda>i. bit m i = P i) [0..<64]" "\<And>i. P i \<Longrightarrow> i < 64"
  shows "bit m = P"
proof
  fix i
  show "bit m i = P i"
  proof (cases "i < 64")
    case True
    with assms(3) show ?thesis by (simp add: list_all_iff)
  next
    case False
    have "take_bit 64 m = m" using assms(1,2) by (simp add: take_bit_int_eq_self)
    with False have "\<not> bit m i" by (metis bit_take_bit_iff)
    with False assms(4) show ?thesis by blast
  qed
qed

lemma word_pattern:
  assumes "list_all (\<lambda>i. bit (m :: w32) i = P i) [0..<32]" "\<And>i. P i \<Longrightarrow> i < 32"
  shows "bit m = P"
proof
  fix i
  show "bit m i = P i"
  proof (cases "i < 32")
    case True
    with assms(1) show ?thesis by (simp add: list_all_iff)
  next
    case False
    with bit_imp_le_length [of m i] assms(2) show ?thesis by auto
  qed
qed

lemma blocks_bound: "blocks p 64 k i \<Longrightarrow> i < 64" "blocks p 32 k i \<Longrightarrow> i < 32" "blocks p 16 k i \<Longrightarrow> i < 32"
  "blocks p 8 k i \<Longrightarrow> i < 32"
  by (simp_all add: blocks_def)

lemma masks64:
  "bit (0xffffffff00000000 :: int) = blocks True 64 32" "bit (0x00000000ffffffff :: int) = blocks False 64 32"
  "bit (0xffff0000ffff0000 :: int) = blocks True 64 16" "bit (0x0000ffff0000ffff :: int) = blocks False 64 16"
  "bit (0xff00ff00ff00ff00 :: int) = blocks True 64 8" "bit (0x00ff00ff00ff00ff :: int) = blocks False 64 8"
  "bit (0xf0f0f0f0f0f0f0f0 :: int) = blocks True 64 4" "bit (0x0f0f0f0f0f0f0f0f :: int) = blocks False 64 4"
  "bit (0xcccccccccccccccc :: int) = blocks True 64 2" "bit (0x3333333333333333 :: int) = blocks False 64 2"
  "bit (0xaaaaaaaaaaaaaaaa :: int) = blocks True 64 1" "bit (0x5555555555555555 :: int) = blocks False 64 1"
  by (rule int_pattern, code_simp, code_simp, code_simp, erule blocks_bound)+

lemma masks32:
  "bit (0xffff0000 :: w32) = blocks True 32 16" "bit (0x0000ffff :: w32) = blocks False 32 16"
  "bit (0xff00ff00 :: w32) = blocks True 32 8" "bit (0x00ff00ff :: w32) = blocks False 32 8"
  "bit (0xf0f0f0f0 :: w32) = blocks True 32 4" "bit (0x0f0f0f0f :: w32) = blocks False 32 4"
  "bit (0xcccccccc :: w32) = blocks True 32 2" "bit (0x33333333 :: w32) = blocks False 32 2"
  "bit (0xaaaaaaaa :: w32) = blocks True 32 1" "bit (0x55555555 :: w32) = blocks False 32 1"
  by (rule word_pattern, code_simp, erule blocks_bound)+

lemma masks16:
  "bit (0xff00 :: w32) = blocks True 16 8" "bit (0x00ff :: w32) = blocks False 16 8"
  "bit (0xf0f0 :: w32) = blocks True 16 4" "bit (0x0f0f :: w32) = blocks False 16 4"
  "bit (0xcccc :: w32) = blocks True 16 2" "bit (0x3333 :: w32) = blocks False 16 2"
  "bit (0xaaaa :: w32) = blocks True 16 1" "bit (0x5555 :: w32) = blocks False 16 1"
  by (rule word_pattern, code_simp, erule blocks_bound)+

lemma masks8:
  "bit (0xf0 :: w32) = blocks True 8 4" "bit (0x0f :: w32) = blocks False 8 4"
  "bit (0xcc :: w32) = blocks True 8 2" "bit (0x33 :: w32) = blocks False 8 2"
  "bit (0xaa :: w32) = blocks True 8 1" "bit (0x55 :: w32) = blocks False 8 1"
  by (rule word_pattern, code_simp, erule blocks_bound)+

lemma reverse64_bits: "i < 64 \<Longrightarrow> bit (reverse64 (uint (w :: 64 word))) i = bit w (63 - i)"
proof -
  assume i: "i < 64"
  define w1 where "w1 = drop_bit 32 (uint w AND 0xffffffff00000000) OR push_bit 32 (uint w AND 0x00000000ffffffff)"
  define w2 where "w2 = drop_bit 16 (w1 AND 0xffff0000ffff0000) OR push_bit 16 (w1 AND 0x0000ffff0000ffff)"
  define w3 where "w3 = drop_bit 8 (w2 AND 0xff00ff00ff00ff00) OR push_bit 8 (w2 AND 0x00ff00ff00ff00ff)"
  define w4 where "w4 = drop_bit 4 (w3 AND 0xf0f0f0f0f0f0f0f0) OR push_bit 4 (w3 AND 0x0f0f0f0f0f0f0f0f)"
  define w5 where "w5 = drop_bit 2 (w4 AND 0xcccccccccccccccc) OR push_bit 2 (w4 AND 0x3333333333333333)"
  define w6 where "w6 = drop_bit 1 (w5 AND 0xaaaaaaaaaaaaaaaa) OR push_bit 1 (w5 AND 0x5555555555555555)"
  have r: "reverse64 (uint w) = w6 AND uint64Mask"
    by (simp only: reverse64_def Let_def w1_def w2_def w3_def w4_def w5_def w6_def)
  have s1: "bit w1 j = (j < 64 \<and> (if even (j div 32) then bit w (j + 32) else bit w (j - 32)))" for j
    unfolding w1_def bit_uint_word [symmetric] by (rule swap_int [OF masks64(1,2)]) simp_all
  have s2: "bit w2 j = (j < 64 \<and> (if even (j div 16) then bit w1 (j + 16) else bit w1 (j - 16)))" for j
    unfolding w2_def by (rule swap_int [OF masks64(3,4)]) simp_all
  have s3: "bit w3 j = (j < 64 \<and> (if even (j div 8) then bit w2 (j + 8) else bit w2 (j - 8)))" for j
    unfolding w3_def by (rule swap_int [OF masks64(5,6)]) simp_all
  have s4: "bit w4 j = (j < 64 \<and> (if even (j div 4) then bit w3 (j + 4) else bit w3 (j - 4)))" for j
    unfolding w4_def by (rule swap_int [OF masks64(7,8)]) simp_all
  have s5: "bit w5 j = (j < 64 \<and> (if even (j div 2) then bit w4 (j + 2) else bit w4 (j - 2)))" for j
    unfolding w5_def by (rule swap_int [OF masks64(9,10)]) simp_all
  have s6: "bit w6 j = (j < 64 \<and> (if even (j div 1) then bit w5 (j + 1) else bit w5 (j - 1)))" for j
    unfolding w6_def by (rule swap_int [OF masks64(11,12)]) simp_all
  have "list_all (\<lambda>i. bit w6 i = bit w (63 - i)) [0..<64]"
    by (simp add: upt_rec s1 s2 s3 s4 s5 s6) (simp add: numeral_2_eq_2 numeral_3_eq_3)
  with i show ?thesis unfolding r by (simp add: bit_and_iff mask64 bit_mask_iff list_all_iff)
qed

lemma Reverse32_bits: "i < 32 \<Longrightarrow> bit (Reverse32 w) i = bit w (31 - i)"
proof -
  assume i: "i < 32"
  define w1 where "w1 = drop_bit 16 (w AND 0xffff0000) OR push_bit 16 (w AND 0x0000ffff)"
  define w2 where "w2 = drop_bit 8 (w1 AND 0xff00ff00) OR push_bit 8 (w1 AND 0x00ff00ff)"
  define w3 where "w3 = drop_bit 4 (w2 AND 0xf0f0f0f0) OR push_bit 4 (w2 AND 0x0f0f0f0f)"
  define w4 where "w4 = drop_bit 2 (w3 AND 0xcccccccc) OR push_bit 2 (w3 AND 0x33333333)"
  define w5 where "w5 = drop_bit 1 (w4 AND 0xaaaaaaaa) OR push_bit 1 (w4 AND 0x55555555)"
  have r: "Reverse32 w = w5" by (simp only: Reverse32_def Let_def w1_def w2_def w3_def w4_def w5_def)
  have s1: "bit w1 j = (j < 32 \<and> (if even (j div 16) then bit w (j + 16) else bit w (j - 16)))" for j
    unfolding w1_def by (rule swap_word [OF masks32(1,2)]) simp_all
  have s2: "bit w2 j = (j < 32 \<and> (if even (j div 8) then bit w1 (j + 8) else bit w1 (j - 8)))" for j
    unfolding w2_def by (rule swap_word [OF masks32(3,4)]) simp_all
  have s3: "bit w3 j = (j < 32 \<and> (if even (j div 4) then bit w2 (j + 4) else bit w2 (j - 4)))" for j
    unfolding w3_def by (rule swap_word [OF masks32(5,6)]) simp_all
  have s4: "bit w4 j = (j < 32 \<and> (if even (j div 2) then bit w3 (j + 2) else bit w3 (j - 2)))" for j
    unfolding w4_def by (rule swap_word [OF masks32(7,8)]) simp_all
  have s5: "bit w5 j = (j < 32 \<and> (if even (j div 1) then bit w4 (j + 1) else bit w4 (j - 1)))" for j
    unfolding w5_def by (rule swap_word [OF masks32(9,10)]) simp_all
  have "list_all (\<lambda>i. bit w5 i = bit w (31 - i)) [0..<32]"
    by (simp add: upt_rec s1 s2 s3 s4 s5) (simp add: numeral_2_eq_2 numeral_3_eq_3)
  with i show ?thesis unfolding r by (simp add: list_all_iff)
qed

lemma Reverse16_bits: "bit (Reverse16 (ucast (v :: 16 word))) i = (i < 16 \<and> bit v (15 - i))"
proof -
  define w where "w = (ucast v :: w32)"
  define w1 where "w1 = signed_drop_bit 8 (w AND 0xff00) OR push_bit 8 (w AND 0x00ff)"
  define w2 where "w2 = signed_drop_bit 4 (w1 AND 0xf0f0) OR push_bit 4 (w1 AND 0x0f0f)"
  define w3 where "w3 = signed_drop_bit 2 (w2 AND 0xcccc) OR push_bit 2 (w2 AND 0x3333)"
  define w4 where "w4 = signed_drop_bit 1 (w3 AND 0xaaaa) OR push_bit 1 (w3 AND 0x5555)"
  have r: "Reverse16 (ucast v) = w4"
    by (simp only: Reverse16_def Let_def w_def w1_def w2_def w3_def w4_def narrow_and(2))
  have s0: "bit w j = bit v j" for j unfolding w_def by (rule narrow_arg)
  have s1: "bit w1 j = (j < 16 \<and> (if even (j div 8) then bit w (j + 8) else bit w (j - 8)))" for j
    unfolding w1_def by (rule swap_signed [OF masks16(1,2)]) simp_all
  have s2: "bit w2 j = (j < 16 \<and> (if even (j div 4) then bit w1 (j + 4) else bit w1 (j - 4)))" for j
    unfolding w2_def by (rule swap_signed [OF masks16(3,4)]) simp_all
  have s3: "bit w3 j = (j < 16 \<and> (if even (j div 2) then bit w2 (j + 2) else bit w2 (j - 2)))" for j
    unfolding w3_def by (rule swap_signed [OF masks16(5,6)]) simp_all
  have s4: "bit w4 j = (j < 16 \<and> (if even (j div 1) then bit w3 (j + 1) else bit w3 (j - 1)))" for j
    unfolding w4_def by (rule swap_signed [OF masks16(7,8)]) simp_all
  have "list_all (\<lambda>i. bit w4 i = bit v (15 - i)) [0..<16]"
    by (simp add: upt_rec s0 s1 s2 s3 s4) (simp add: numeral_2_eq_2 numeral_3_eq_3)
  then have "bit w4 i = bit v (15 - i)" if "i < 16" using that by (simp add: list_all_iff)
  then show ?thesis unfolding r using s4 [of i] by (cases "i < 16") simp_all
qed

lemma Reverse8_bits: "bit (Reverse8 (ucast (u :: 8 word))) i = (i < 8 \<and> bit u (7 - i))"
proof -
  define w where "w = (ucast u :: w32)"
  define w1 where "w1 = signed_drop_bit 4 (w AND 0xf0) OR push_bit 4 (w AND 0x0f)"
  define w2 where "w2 = signed_drop_bit 2 (w1 AND 0xcc) OR push_bit 2 (w1 AND 0x33)"
  define w3 where "w3 = signed_drop_bit 1 (w2 AND 0xaa) OR push_bit 1 (w2 AND 0x55)"
  have r: "Reverse8 (ucast u) = w3"
    by (simp only: Reverse8_def Let_def w_def w1_def w2_def w3_def narrow_and(1))
  have s0: "bit w j = bit u j" for j unfolding w_def by (rule narrow_arg)
  have s1: "bit w1 j = (j < 8 \<and> (if even (j div 4) then bit w (j + 4) else bit w (j - 4)))" for j
    unfolding w1_def by (rule swap_signed [OF masks8(1,2)]) simp_all
  have s2: "bit w2 j = (j < 8 \<and> (if even (j div 2) then bit w1 (j + 2) else bit w1 (j - 2)))" for j
    unfolding w2_def by (rule swap_signed [OF masks8(3,4)]) simp_all
  have s3: "bit w3 j = (j < 8 \<and> (if even (j div 1) then bit w2 (j + 1) else bit w2 (j - 1)))" for j
    unfolding w3_def by (rule swap_signed [OF masks8(5,6)]) simp_all
  have "list_all (\<lambda>i. bit w3 i = bit u (7 - i)) [0..<8]"
    by (simp add: upt_rec s0 s1 s2 s3) (simp add: numeral_2_eq_2 numeral_3_eq_3)
  then have "bit w3 i = bit u (7 - i)" if "i < 8" using that by (simp add: list_all_iff)
  then show ?thesis unfolding r using s3 [of i] by (cases "i < 8") simp_all
qed

definition byte_no :: "nat \<Rightarrow> nat \<Rightarrow> bool" where "byte_no k i \<longleftrightarrow> i div 8 = k"

lemma byte_no_bound: "byte_no k i \<Longrightarrow> k \<le> 7 \<Longrightarrow> i < 64" "byte_no k i \<Longrightarrow> k \<le> 3 \<Longrightarrow> i < 32"
  unfolding byte_no_def by presburger+

lemma byte_masks:
  "bit (0xff :: int) = byte_no 0" "bit (0xff00 :: int) = byte_no 1" "bit (0xff0000 :: int) = byte_no 2"
  "bit (0xff000000 :: int) = byte_no 3" "bit (0xff00000000 :: int) = byte_no 4" "bit (0xff0000000000 :: int) = byte_no 5"
  "bit (0xff000000000000 :: int) = byte_no 6" "bit (0xff00000000000000 :: int) = byte_no 7"
  by (rule int_pattern, code_simp, code_simp, code_simp, erule byte_no_bound, simp)+

lemma byte_masks32:
  "bit (0xff :: w32) = byte_no 0" "bit (0xff00 :: w32) = byte_no 1" "bit (0xff0000 :: w32) = byte_no 2"
  "bit (0xff000000 :: w32) = byte_no 3"
  by (rule word_pattern, code_simp, erule byte_no_bound, simp)+

lemma reverseBytes64_bits:
  "i < 64 \<Longrightarrow> bit (reverseBytes64 (uint (w :: 64 word))) i = bit w (8 * (7 - i div 8) + i mod 8)"
proof -
  assume i: "i < 64"
  have "list_all (\<lambda>i. bit (reverseBytes64 (uint w)) i = bit w (8 * (7 - i div 8) + i mod 8)) [0..<64]"
    unfolding reverseBytes64_def bit_and_iff bit_or_iff bit_push_bit_iff_int bit_drop_bit_eq mask64 bit_mask_iff
      byte_masks bit_uint_word byte_no_def
    by (simp add: upt_rec) (simp add: eval_nat_numeral)
  with i show ?thesis by (simp add: list_all_iff)
qed

lemma reverseBytes32_bits: "i < 32 \<Longrightarrow> bit (ReverseBytes32 x) i = bit x (8 * (3 - i div 8) + i mod 8)"
proof -
  assume i: "i < 32"
  have "\<not> bit (x AND 0xff0000) 31" unfolding bit_and_iff byte_masks32 byte_no_def by simp
  note s = signed_drop_nonneg [OF this]
  have "list_all (\<lambda>i. bit (ReverseBytes32 x) i = bit x (8 * (3 - i div 8) + i mod 8)) [0..<32]"
    unfolding ReverseBytes32_def s bit_and_iff bit_or_iff bit_push_bit_iff possible_bit_word len32 bit_drop_bit_eq
      byte_masks32 byte_no_def
    by (simp add: upt_rec) (simp add: eval_nat_numeral)
  with i show ?thesis by (simp add: list_all_iff)
qed

lemma reverseBytes16_bits:
  "bit (ReverseBytes16 (ucast (v :: 16 word))) i = (i < 16 \<and> bit v (8 * (1 - i div 8) + i mod 8))"
proof -
  have "\<not> bit (ucast v AND 0xff00 :: w32) 31" unfolding bit_and_iff byte_masks32 byte_no_def by simp
  note s = signed_drop_nonneg [OF this]
  have "bit v (8 + i) = False" if "8 \<le> i" using that bit_imp_le_length [of v "8 + i"] by auto
  moreover have "bit v (8 * (1 - i div 8) + i mod 8) = (if i < 8 then bit v (8 + i) else bit v (i - 8))" if "i < 16"
    using that by (cases "i < 8") (simp_all add: le_div_geq le_mod_geq)
  ultimately show ?thesis
    unfolding ReverseBytes16_def s bit_and_iff bit_or_iff bit_push_bit_iff possible_bit_word len32 bit_drop_bit_eq
      byte_masks32 byte_no_def narrow_arg
    by (cases "i < 8"; cases "i < 16") (auto simp: le_div_geq add.commute)
qed

lemma toUint64_word: "toUint64 (BigInt (uint (w :: 64 word))) = Inr (uint w)"
  using take_bit_int_eq_self [of "uint w" 64] uint_lt2p [of w]
  by (simp add: mask64 flip: take_bit_eq_mask)

lemma on_word64_word:
  "useBigIntResult [BigInt (uint w)] = True" "on_word64 f (BigInt (uint (w :: 64 word))) = Inr (f (uint w))"
  by (simp_all add: useBigIntResult_def on_word64_def toUint64_word del: toUint64.simps)

lemma reverse64_word: "reverse64 (uint (w :: 64 word)) = uint (word_reverse w)"
proof (rule bit_eqI)
  fix i
  show "bit (reverse64 (uint w)) i = bit (uint (word_reverse w)) i"
  proof (cases "i < 64")
    case True
    then show ?thesis unfolding reverse64_bits [OF True] bit_uint_word bit_word_reverse_iff by simp
  next
    case False
    then show ?thesis
      unfolding bit_uint_word bit_word_reverse_iff by (simp add: reverse64_def Let_def bit_and_iff mask64 bit_mask_iff)
  qed
qed

text \<open>The functions that move bits, at every width: a rotation by any count, negative or larger
  than the width, is the rotation of the word; \<open>Reverse\<close> is the reversal of the word; a byte
  reversal puts byte \<open>j\<close> at the place of byte \<open>n - 1 - j\<close>, bit for bit.\<close>

theorem bit_moves:
  fixes w :: "64 word" and x :: w32 and u :: "8 word" and v :: "16 word"
  shows "RotateLeft64 (BigInt (uint w)) k = Inr (BigInt (uint (word_rotl (nat (k mod 64)) w))) \<and>
    RotateLeft32 x k = word_rotl (nat (k mod 32)) x \<and>
    RotateLeft16 (ucast v) k = ucast (word_rotl (nat (k mod 16)) v) \<and>
    RotateLeft8 (ucast u) k = ucast (word_rotl (nat (k mod 8)) u) \<and>
    Reverse64 (BigInt (uint w)) = Inr (BigInt (uint (word_reverse w))) \<and>
    Reverse32 x = word_reverse x \<and> Reverse16 (ucast v) = ucast (word_reverse v) \<and>
    Reverse8 (ucast u) = ucast (word_reverse u) \<and>
    ReverseBytes64 (BigInt (uint w)) = Inr (BigInt (reverseBytes64 (uint w))) \<and>
    list_all (\<lambda>i. bit (reverseBytes64 (uint w)) i = bit w (8 * (7 - i div 8) + i mod 8)) [0..<64] \<and>
    list_all (\<lambda>i. bit (ReverseBytes32 x) i = bit x (8 * (3 - i div 8) + i mod 8)) [0..<32] \<and>
    bit (ReverseBytes16 (ucast v)) i = (i < 16 \<and> bit v (8 * (1 - i div 8) + i mod 8))"
proof -
  have "Reverse32 x = word_reverse x"
    by (rule bit_word_eqI) (simp add: Reverse32_bits bit_word_reverse_iff)
  moreover have "Reverse16 (ucast v) = ucast (word_reverse v)" "Reverse8 (ucast u) = ucast (word_reverse u)"
    by (rule bit_word_eqI, simp add: Reverse16_bits narrow_arg bit_word_reverse_iff)
      (rule bit_word_eqI, simp add: Reverse8_bits narrow_arg bit_word_reverse_iff)
  moreover have "RotateLeft64 (BigInt (uint w)) k = Inr (BigInt (uint (word_rotl (nat (k mod 64)) w)))"
    by (simp only: RotateLeft64_def Let_def on_word64_word word64Result_def rotate64_rotl simp_thms if_True)
  moreover have "Reverse64 (BigInt (uint w)) = Inr (BigInt (uint (word_reverse w)))"
    "ReverseBytes64 (BigInt (uint w)) = Inr (BigInt (reverseBytes64 (uint w)))"
    by (simp_all only: Reverse64_def ReverseBytes64_def Let_def on_word64_word word64Result_def reverse64_word simp_thms if_True)
  ultimately show ?thesis
    using RotateLeft32_rotl narrow_rotl reverseBytes64_bits reverseBytes32_bits reverseBytes16_bits
    by (simp only: list_all_iff atLeastLessThan_upt [symmetric] simp_thms) auto
qed

subsection \<open>Double-width arithmetic is right\<close>

lemma and_mask_mod: "x AND uint64Mask = x mod 2 ^ 64" "(x :: int) AND 0xffffffff = x mod 2 ^ 32"
proof -
  have "(0xffffffff :: int) = mask 32" by (simp add: mask_eq_exp_minus_1)
  then show "x AND uint64Mask = x mod 2 ^ 64" "x AND 0xffffffff = x mod 2 ^ 32"
    by (simp_all only: mask64 take_bit_eq_mask [symmetric] take_bit_eq_mod)
qed

lemma split_product:
  assumes "0 \<le> (a :: int)" "a < 2 ^ n" "0 \<le> b" "b < 2 ^ n"
  shows "drop_bit n (a * b) mod 2 ^ n * 2 ^ n + a * b mod 2 ^ n = a * b"
proof -
  have "a * b < 2 ^ n * 2 ^ n" using assms by (intro mult_strict_mono') simp_all
  moreover have "a * b div 2 ^ n * 2 ^ n \<le> a * b"
  proof -
    have "0 \<le> a * b mod 2 ^ n" by simp
    then show ?thesis using div_mult_mod_eq [of "a * b" "2 ^ n"] by linarith
  qed
  ultimately have "a * b div 2 ^ n * 2 ^ n < 2 ^ n * 2 ^ n" by (rule le_less_trans [rotated])
  then have "a * b div 2 ^ n < 2 ^ n" by (rule mult_right_less_imp_less) simp
  moreover have "0 \<le> a * b div 2 ^ n" using assms by (simp add: pos_imp_zdiv_nonneg_iff)
  ultimately have "drop_bit n (a * b) mod 2 ^ n = a * b div 2 ^ n" by (simp add: drop_bit_int_def)
  then show ?thesis by (simp only: div_mult_mod_eq)
qed

lemma quot_rem_nonneg: "0 \<le> a \<Longrightarrow> 0 < b \<Longrightarrow> js_quot a b = a div b \<and> js_rem a b = a mod b"
  by (cases "a = 0") (simp_all add: js_quot_def js_rem_def)

lemmas word64_steps = toUint64_word useBigIntResult_def pair_result_def word64Result_def

text \<open>C31. The double-width arithmetic on words: the two halves of a product make the exact product,
  a sum and a difference are those of the words and the carry or borrow out says exactly when
  the true result left the range, a division by zero is an error and any other division
  gives the exact quotient and remainder of the double-width dividend.\<close>

theorem bit_arithmetic:
  fixes x y h c :: "64 word" and p q r :: w32
  shows "(\<exists>hi lo. Mul64 (BigInt (uint x)) (BigInt (uint y)) = Inr (BigInt hi, BigInt lo) \<and>
      0 \<le> lo \<and> lo < 2 ^ 64 \<and> hi * 2 ^ 64 + lo = uint x * uint y) \<and>
    fst (Mul32 p q) * 2 ^ 32 + snd (Mul32 p q) = uint p * uint q \<and> snd (Mul32 p q) < 2 ^ 32 \<and>
    Add64 (BigInt (uint x)) (BigInt (uint y)) (BigInt (uint c)) =
      Inr (BigInt (uint (x + y + c)), BigInt (of_bool (2 ^ 64 \<le> uint x + uint y + uint c))) \<and>
    Sub64 (BigInt (uint x)) (BigInt (uint y)) (BigInt (uint c)) =
      Inr (BigInt (uint (x - y - c)), BigInt (of_bool (uint x < uint y + uint c))) \<and>
    Add32 p q r = (uint (p + q + r), of_bool (2 ^ 32 \<le> uint p + uint q + uint r)) \<and>
    Sub32 p q r = (uint (p - q - r), of_bool (uint p < uint q + uint r)) \<and>
    Div64 (BigInt (uint h)) (BigInt (uint x)) (BigInt (uint y)) =
      (if y = 0 then Inl (ThrownError ''division by zero'')
       else Inr (BigInt ((uint h * 2 ^ 64 + uint x) div uint y), BigInt ((uint h * 2 ^ 64 + uint x) mod uint y))) \<and>
    Div32 p q r =
      (if r = 0 then Inl (ThrownError ''division by zero'')
       else Inr (number_of_bigint ((uint p * 2 ^ 32 + uint q) div uint r), Fin (of_int ((uint p * 2 ^ 32 + uint q) mod uint r))))"
proof -
  have b: "0 \<le> uint w" "uint w < 2 ^ 64" for w :: "64 word" using uint_lt2p [of w] by simp_all
  have b32: "0 \<le> uint w" "uint w < 2 ^ 32" for w :: w32 using uint_lt2p [of w] by simp_all
  have m: "\<exists>hi lo. Mul64 (BigInt (uint x)) (BigInt (uint y)) = Inr (BigInt hi, BigInt lo) \<and>
      0 \<le> lo \<and> lo < 2 ^ 64 \<and> hi * 2 ^ 64 + lo = uint x * uint y"
    using split_product [OF b [of x] b [of y]]
    by (simp add: Mul64_def word64_steps mul64_def Let_def and_mask_mod del: toUint64.simps)
  have m32: "fst (Mul32 p q) * 2 ^ 32 + snd (Mul32 p q) = uint p * uint q" "snd (Mul32 p q) < 2 ^ 32"
    using split_product [OF b32 [of p] b32 [of q]] by (simp_all add: Mul32_def Let_def and_mask_mod)
  have carry: "uint64Mask < z \<longleftrightarrow> 2 ^ 64 \<le> z" for z :: int by (auto simp: uint64Mask_def)
  have a: "Add64 (BigInt (uint x)) (BigInt (uint y)) (BigInt (uint c)) =
      Inr (BigInt (uint (x + y + c)), BigInt (of_bool (2 ^ 64 \<le> uint x + uint y + uint c)))"
    by (simp add: Add64_def word64_steps add64_def and_mask_mod uint_word_ariths mod_simps carry del: toUint64.simps)
  have s: "Sub64 (BigInt (uint x)) (BigInt (uint y)) (BigInt (uint c)) =
      Inr (BigInt (uint (x - y - c)), BigInt (of_bool (uint x < uint y + uint c)))"
    by (auto simp: Sub64_def word64_steps sub64_def and_mask_mod uint_word_ariths mod_simps simp del: toUint64.simps)
  have a32: "Add32 p q r = (uint (p + q + r), of_bool (2 ^ 32 \<le> uint p + uint q + uint r))"
    by (simp add: Add32_def asUintN_def uint_word_ariths mod_simps)
  have s32: "Sub32 p q r = (uint (p - q - r), of_bool (uint p < uint q + uint r))"
    by (auto simp: Sub32_def asUintN_def uint_word_ariths mod_simps)
  have d: "Div64 (BigInt (uint h)) (BigInt (uint x)) (BigInt (uint y)) =
      (if y = 0 then Inl (ThrownError ''division by zero'')
       else Inr (BigInt ((uint h * 2 ^ 64 + uint x) div uint y), BigInt ((uint h * 2 ^ 64 + uint x) mod uint y)))"
    using quot_rem_nonneg [of "uint h * 2 ^ 64 + uint x" "uint y"]
    by (simp add: Div64_def word64_steps Let_def or_shifted [OF b] uint_0_iff less_le del: toUint64.simps)
  have d32: "Div32 p q r =
      (if r = 0 then Inl (ThrownError ''division by zero'')
       else Inr (number_of_bigint ((uint p * 2 ^ 32 + uint q) div uint r), Fin (of_int ((uint p * 2 ^ 32 + uint q) mod uint r))))"
  proof (cases "r = 0")
    case False
    then have "0 < uint r" by (rule uint_nonzero_pos)
    moreover have "(uint p * 2 ^ 32 + uint q) mod uint r < 2 ^ 32"
      using pos_mod_bound [OF \<open>0 < uint r\<close>, of "uint p * 2 ^ 32 + uint q"] b32(2) [of r] by simp
    ultimately show ?thesis
      using False quot_rem_nonneg [of "uint p * 2 ^ 32 + uint q" "uint r"]
        number_of_bigint_exact [of "(uint p * 2 ^ 32 + uint q) mod uint r"]
      by (simp add: Div32_def Let_def or_shifted [OF b32])
  qed (simp add: Div32_def)
  show ?thesis using m m32 a s a32 s32 d d32 by blast
qed

text \<open>A quotient of more than 64 bits, which Go reports as an overflow, is returned as it is.\<close>

lemma Div64_quotient_overflow:
  "Div64 (BigInt 1) (BigInt 0) (BigInt 1) = Inr (BigInt (2 ^ 64), BigInt 0)"
  by code_simp

text \<open>Operands given as numbers come back as numbers or as bigints, as the result is small or not.\<close>

lemma word64_result_representation:
  "Add64 (Number (Fin 1)) (Number (Fin 2)) (Number (Fin 0)) = Inr (Number (Fin 3), Number (Fin 0)) \<and>
   Sub64 (Number (Fin 1)) (Number (Fin 2)) (Number (Fin 0)) = Inr (BigInt (2 ^ 64 - 1), Number (Fin 1))"
  by code_simp

end
