(* ===== verification/GsVarint.thy ===== *)
theory GsVarint
  imports GsNumber
begin

section \<open>Byte orders and variable-length integers (gs/encoding/binary/index.ts)\<close>

text \<open>
  A byte slice is seen through its elements: \<open>Uint8\<close> for a \<open>Uint8Array\<close>, whose stores keep
  the value modulo 256, \<open>Plain\<close> for an array of numbers, which stores what it is given, and
  \<open>Nil_slice\<close> for \<open>null\<close>. No function here keeps a second view of a slice it writes to. A
  16-bit or 32-bit argument is an integer, a 64-bit one a number or a bigint; the results of
  64-bit reads are bigints, given as integers. The interface \<open>ByteOrder\<close> is a record of its
  methods.
\<close>

datatype buf = Nil_slice | Uint8 "int list" | Plain "int list"

fun elems :: "buf \<Rightarrow> int list" where
  "elems Nil_slice = []"
| "elems (Uint8 xs) = xs"
| "elems (Plain xs) = xs"

fun put_elems :: "buf \<Rightarrow> int list \<Rightarrow> buf" where
  "put_elems Nil_slice ys = Nil_slice"
| "put_elems (Uint8 xs) ys = Uint8 ys"
| "put_elems (Plain xs) ys = Plain ys"

fun append_nums :: "buf \<Rightarrow> int list \<Rightarrow> buf" where
  "append_nums Nil_slice ns = Plain ns"
| "append_nums (Uint8 xs) ns = Uint8 (xs @ map (\<lambda>n. n mod 256) ns)"
| "append_nums (Plain xs) ns = Plain (xs @ ns)"

definition requireLen :: "buf \<Rightarrow> nat \<Rightarrow> unit res" where
  "requireLen b n =
     (if length (elems b) < n
      then Inl (RuntimePanic (''runtime error: index out of range ['' @ nat_string (n - 1) @
                              ''] with length '' @ nat_string (length (elems b))))
      else Inr ())"

text \<open>The operators of the language on integer numbers.\<close>

definition js_shr :: "int \<Rightarrow> nat \<Rightarrow> int" where "js_shr a k = drop_bit k (asIntN 32 a)"
definition js_ushr :: "int \<Rightarrow> nat \<Rightarrow> int" where "js_ushr a k = drop_bit k (asUintN 32 a)"
definition js_shl :: "int \<Rightarrow> nat \<Rightarrow> int" where "js_shl a k = asIntN 32 (push_bit k (asIntN 32 a))"
definition js_and :: "int \<Rightarrow> int \<Rightarrow> int" where "js_and a b = asIntN 32 a AND asIntN 32 b"
definition js_or :: "int \<Rightarrow> int \<Rightarrow> int" where "js_or a b = asIntN 32 a OR asIntN 32 b"

definition byteAt :: "buf \<Rightarrow> nat \<Rightarrow> int" where "byteAt b i = js_and (elems b ! i) 0xff"

definition setByte :: "nat \<Rightarrow> int \<Rightarrow> buf \<Rightarrow> buf res" where
  "setByte i v b = bindR (requireLen b (i + 1)) (\<lambda>_. Inr (put_elems b ((elems b)[i := js_and v 0xff])))"

fun bin_toUint64 :: "js_num \<Rightarrow> int res" where
  "bin_toUint64 (BigInt n) = Inr (asUintN 64 n)"
| "bin_toUint64 (Number x) = bindR (bigint_of_number (math_trunc x)) (\<lambda>n. Inr (asUintN 64 n))"

fun bin_toBigInt :: "js_num \<Rightarrow> int res" where
  "bin_toBigInt (BigInt n) = Inr n"
| "bin_toBigInt (Number x) = bigint_of_number (math_trunc x)"

definition bin_isNegative :: "js_num \<Rightarrow> bool" where "bin_isNegative x = js_lt x (Number (Fin 0))"

definition bin_uint64Result :: "int \<Rightarrow> int" where "bin_uint64Result v = asUintN 64 v"
definition bin_int64Result :: "int \<Rightarrow> int" where "bin_int64Result v = asIntN 64 v"

subsection \<open>The two byte orders\<close>

record byte_order =
  Uint16 :: "buf \<Rightarrow> int res"
  Uint32 :: "buf \<Rightarrow> int res"
  Uint64 :: "buf \<Rightarrow> int res"
  PutUint16 :: "buf \<Rightarrow> int \<Rightarrow> buf res"
  PutUint32 :: "buf \<Rightarrow> int \<Rightarrow> buf res"
  PutUint64 :: "buf \<Rightarrow> js_num \<Rightarrow> buf res"
  AppendUint16 :: "buf \<Rightarrow> int \<Rightarrow> buf res"
  AppendUint32 :: "buf \<Rightarrow> int \<Rightarrow> buf res"
  AppendUint64 :: "buf \<Rightarrow> js_num \<Rightarrow> buf res"

text \<open>A sequence of \<open>setByte\<close> calls.\<close>

fun setBytes :: "(nat \<times> int) list \<Rightarrow> buf \<Rightarrow> buf res" where
  "setBytes [] b = Inr b"
| "setBytes ((i, v) # ws) b = bindR (setByte i v b) (setBytes ws)"

definition le_Uint16 :: "buf \<Rightarrow> int res" where
  "le_Uint16 b = bindR (requireLen b 2) (\<lambda>_. Inr (js_or (byteAt b 0) (js_shl (byteAt b 1) 8)))"

definition le_Uint32 :: "buf \<Rightarrow> int res" where
  "le_Uint32 b = bindR (requireLen b 4) (\<lambda>_. Inr (js_ushr
     (js_or (js_or (js_or (byteAt b 0) (js_shl (byteAt b 1) 8)) (js_shl (byteAt b 2) 16)) (js_shl (byteAt b 3) 24)) 0))"

definition le_Uint64 :: "buf \<Rightarrow> int res" where
  "le_Uint64 b = bindR (requireLen b 8) (\<lambda>_.
     Inr (bin_uint64Result (fold (\<lambda>i v. v OR push_bit (8 * i) (byteAt b i)) [0..<8] 0)))"

definition le_PutUint16 :: "buf \<Rightarrow> int \<Rightarrow> buf res" where
  "le_PutUint16 b v = bindR (requireLen b 2) (\<lambda>_. setBytes [(0, v), (1, js_shr v 8)] b)"

definition le_PutUint32 :: "buf \<Rightarrow> int \<Rightarrow> buf res" where
  "le_PutUint32 b v = bindR (requireLen b 4) (\<lambda>_.
     let value = to_uint32 (Fin (of_int v)) in
     setBytes [(0, value), (1, js_ushr value 8), (2, js_ushr value 16), (3, js_ushr value 24)] b)"

definition le_PutUint64 :: "buf \<Rightarrow> js_num \<Rightarrow> buf res" where
  "le_PutUint64 b v = bindR (requireLen b 8) (\<lambda>_. bindR (bin_toUint64 v) (\<lambda>value.
     setBytes (map (\<lambda>i. (i, drop_bit (8 * i) value AND 0xff)) [0..<8]) b))"

definition le_AppendUint16 :: "buf \<Rightarrow> int \<Rightarrow> buf res" where
  "le_AppendUint16 b v = Inr (append_nums b [v, js_shr v 8])"

definition le_AppendUint32 :: "buf \<Rightarrow> int \<Rightarrow> buf res" where
  "le_AppendUint32 b v =
     (let value = to_uint32 (Fin (of_int v)) in
      Inr (append_nums b [value, js_ushr value 8, js_ushr value 16, js_ushr value 24]))"

definition le_AppendUint64 :: "buf \<Rightarrow> js_num \<Rightarrow> buf res" where
  "le_AppendUint64 b v = bindR (bin_toUint64 v) (\<lambda>value.
     Inr (fold (\<lambda>i out. append_nums out [drop_bit (8 * i) value AND 0xff]) [0..<8] b))"

definition LittleEndian :: byte_order where
  "LittleEndian =
     \<lparr>Uint16 = le_Uint16, Uint32 = le_Uint32, Uint64 = le_Uint64,
      PutUint16 = le_PutUint16, PutUint32 = le_PutUint32, PutUint64 = le_PutUint64,
      AppendUint16 = le_AppendUint16, AppendUint32 = le_AppendUint32, AppendUint64 = le_AppendUint64\<rparr>"

definition be_Uint16 :: "buf \<Rightarrow> int res" where
  "be_Uint16 b = bindR (requireLen b 2) (\<lambda>_. Inr (js_or (byteAt b 1) (js_shl (byteAt b 0) 8)))"

definition be_Uint32 :: "buf \<Rightarrow> int res" where
  "be_Uint32 b = bindR (requireLen b 4) (\<lambda>_. Inr (js_ushr
     (js_or (js_or (js_or (byteAt b 3) (js_shl (byteAt b 2) 8)) (js_shl (byteAt b 1) 16)) (js_shl (byteAt b 0) 24)) 0))"

definition be_Uint64 :: "buf \<Rightarrow> int res" where
  "be_Uint64 b = bindR (requireLen b 8) (\<lambda>_.
     Inr (bin_uint64Result (fold (\<lambda>i v. push_bit 8 v OR byteAt b i) [0..<8] 0)))"

definition be_PutUint16 :: "buf \<Rightarrow> int \<Rightarrow> buf res" where
  "be_PutUint16 b v = bindR (requireLen b 2) (\<lambda>_. setBytes [(0, js_shr v 8), (1, v)] b)"

definition be_PutUint32 :: "buf \<Rightarrow> int \<Rightarrow> buf res" where
  "be_PutUint32 b v = bindR (requireLen b 4) (\<lambda>_.
     let value = to_uint32 (Fin (of_int v)) in
     setBytes [(0, js_ushr value 24), (1, js_ushr value 16), (2, js_ushr value 8), (3, value)] b)"

definition be_PutUint64 :: "buf \<Rightarrow> js_num \<Rightarrow> buf res" where
  "be_PutUint64 b v = bindR (requireLen b 8) (\<lambda>_. bindR (bin_toUint64 v) (\<lambda>value.
     setBytes (map (\<lambda>i. (i, drop_bit (56 - 8 * i) value AND 0xff)) [0..<8]) b))"

definition be_AppendUint16 :: "buf \<Rightarrow> int \<Rightarrow> buf res" where
  "be_AppendUint16 b v = Inr (append_nums b [js_shr v 8, v])"

definition be_AppendUint32 :: "buf \<Rightarrow> int \<Rightarrow> buf res" where
  "be_AppendUint32 b v =
     (let value = to_uint32 (Fin (of_int v)) in
      Inr (append_nums b [js_ushr value 24, js_ushr value 16, js_ushr value 8, value]))"

definition be_AppendUint64 :: "buf \<Rightarrow> js_num \<Rightarrow> buf res" where
  "be_AppendUint64 b v = bindR (bin_toUint64 v) (\<lambda>value.
     Inr (fold (\<lambda>i out. append_nums out [drop_bit (56 - 8 * i) value AND 0xff]) [0..<8] b))"

definition BigEndian :: byte_order where
  "BigEndian =
     \<lparr>Uint16 = be_Uint16, Uint32 = be_Uint32, Uint64 = be_Uint64,
      PutUint16 = be_PutUint16, PutUint32 = be_PutUint32, PutUint64 = be_PutUint64,
      AppendUint16 = be_AppendUint16, AppendUint32 = be_AppendUint32, AppendUint64 = be_AppendUint64\<rparr>"

subsection \<open>Variable-length integers\<close>

function uvarint_bytes :: "int \<Rightarrow> int list" where
  "uvarint_bytes value =
     (if 0x80 \<le> value then js_or (value AND 0x7f) 0x80 # uvarint_bytes (drop_bit 7 value) else [value])"
  by pat_completeness auto
termination
  by (relation "measure nat") (auto simp: drop_bit_int_def)

declare uvarint_bytes.simps [simp del]

text \<open>Each of the bytes is appended, or stored at the next index, as soon as it is computed.\<close>

function appendUvarint_loop :: "buf \<Rightarrow> int \<Rightarrow> buf" where
  "appendUvarint_loop out value =
     (if 0x80 \<le> value
      then appendUvarint_loop (append_nums out [js_or (value AND 0x7f) 0x80]) (drop_bit 7 value)
      else append_nums out [value])"
  by pat_completeness auto
termination
  by (relation "measure (nat \<circ> snd)") (auto simp: drop_bit_int_def)

declare appendUvarint_loop.simps [simp del]

definition AppendUvarint :: "buf \<Rightarrow> js_num \<Rightarrow> buf res" where
  "AppendUvarint b x = bindR (bin_toUint64 x) (\<lambda>value. Inr (appendUvarint_loop b value))"

function putUvarint_loop :: "nat \<Rightarrow> int \<Rightarrow> buf \<Rightarrow> (nat \<times> buf) res" where
  "putUvarint_loop i value b =
     (if 0x80 \<le> value
      then bindR (setByte i (js_or (value AND 0x7f) 0x80) b) (putUvarint_loop (Suc i) (drop_bit 7 value))
      else bindR (setByte i value b) (\<lambda>b1. Inr (i + 1, b1)))"
  by pat_completeness auto
termination
  by (relation "measure (\<lambda>(i, value, b). nat value)") (auto simp: drop_bit_int_def)

declare putUvarint_loop.simps [simp del]

definition PutUvarint :: "buf \<Rightarrow> js_num \<Rightarrow> (nat \<times> buf) res" where
  "PutUvarint b x = bindR (bin_toUint64 x) (\<lambda>value. putUvarint_loop 0 value b)"

definition MaxVarintLen64 :: nat where "MaxVarintLen64 = 10"

text \<open>The loop of \<open>Uvarint\<close> over the bytes that are left.\<close>

fun uvarint_loop :: "int list \<Rightarrow> nat \<Rightarrow> int \<Rightarrow> int \<times> int" where
  "uvarint_loop [] i x = (bin_uint64Result 0, 0)"
| "uvarint_loop (b # bs) i x =
     (if i = MaxVarintLen64 then (bin_uint64Result 0, - int (i + 1))
      else if b < 0x80 then
        (if i = MaxVarintLen64 - 1 \<and> 1 < b then (bin_uint64Result 0, - int (i + 1))
         else (bin_uint64Result (x OR push_bit (7 * i) b), int (i + 1)))
      else uvarint_loop bs (i + 1) (x OR push_bit (7 * i) (js_and b 0x7f)))"

definition all_bytes :: "buf \<Rightarrow> int list" where
  "all_bytes b = map (byteAt b) [0..<length (elems b)]"

definition Uvarint :: "buf \<Rightarrow> int \<times> int" where "Uvarint b = uvarint_loop (all_bytes b) 0 0"

definition encodeSignedVarint :: "js_num \<Rightarrow> int res" where
  "encodeSignedVarint x = bindR (bin_toBigInt x) (\<lambda>n.
     let ux = asUintN 64 (push_bit 1 (asIntN 64 n));
         ux1 = (if bin_isNegative x then asUintN 64 (NOT ux) else ux)
     in Inr (bin_uint64Result ux1))"

definition decodeSignedVarint :: "int \<Rightarrow> int" where
  "decodeSignedVarint v =
     (let ux = asUintN 64 v; x = drop_bit 1 ux;
          x1 = (if ux AND 1 \<noteq> 0 then asIntN 64 (NOT x) else x)
      in bin_int64Result x1)"

definition AppendVarint :: "buf \<Rightarrow> js_num \<Rightarrow> buf res" where
  "AppendVarint b x = bindR (encodeSignedVarint x) (\<lambda>ux. AppendUvarint b (BigInt ux))"

definition PutVarint :: "buf \<Rightarrow> js_num \<Rightarrow> (nat \<times> buf) res" where
  "PutVarint b x = bindR (encodeSignedVarint x) (\<lambda>ux. PutUvarint b (BigInt ux))"

definition Varint :: "buf \<Rightarrow> int \<times> int" where
  "Varint b = (case Uvarint b of (ux, n) \<Rightarrow> (decodeSignedVarint ux, n))"

text \<open>A byte reader: the bytes it still gives, then an error; reading moves it on.\<close>

datatype read_error = EOF | UnexpectedEOF | Overflow | OtherError nat

type_synonym byte_reader = "int list \<times> read_error"

fun readByte :: "byte_reader \<Rightarrow> (int \<times> read_error option) \<times> byte_reader" where
  "readByte ([], e) = ((0, Some e), ([], e))"
| "readByte (b # bs, e) = ((b, None), (bs, e))"

fun readUvarint_loop :: "nat \<Rightarrow> nat \<Rightarrow> int \<Rightarrow> byte_reader \<Rightarrow> (int \<times> read_error option) \<times> byte_reader" where
  "readUvarint_loop 0 i x r = ((bin_uint64Result x, Some Overflow), r)"
| "readUvarint_loop (Suc n) i x r =
     (case readByte r of ((b, err), r1) \<Rightarrow>
        (case err of
           Some e \<Rightarrow> ((bin_uint64Result x, Some (if 0 < i \<and> e = EOF then UnexpectedEOF else e)), r1)
         | None \<Rightarrow>
             (if b < 0x80 then
                (if i = MaxVarintLen64 - 1 \<and> 1 < b then ((bin_uint64Result x, Some Overflow), r1)
                 else ((bin_uint64Result (x OR push_bit (7 * i) b), None), r1))
              else readUvarint_loop n (i + 1) (x OR push_bit (7 * i) (js_and b 0x7f)) r1)))"

definition ReadUvarint :: "byte_reader \<Rightarrow> (int \<times> read_error option) \<times> byte_reader" where
  "ReadUvarint r = readUvarint_loop MaxVarintLen64 0 0 r"

definition ReadVarint :: "byte_reader \<Rightarrow> (int \<times> read_error option) \<times> byte_reader" where
  "ReadVarint r = (case ReadUvarint r of ((ux, e), r1) \<Rightarrow> ((decodeSignedVarint ux, e), r1))"

subsection \<open>Bytes of a number\<close>

fun le_value :: "int list \<Rightarrow> int" where
  "le_value [] = 0"
| "le_value (b # bs) = b + 256 * le_value bs"

definition le_bytes :: "nat \<Rightarrow> int \<Rightarrow> int list" where
  "le_bytes n v = map (\<lambda>i. v div 256 ^ i mod 256) [0..<n]"

lemma le_value_snoc: "le_value (bs @ [b]) = le_value bs + 256 ^ length bs * b"
  by (induction bs) (simp_all add: algebra_simps)

lemma length_le_bytes [simp]: "length (le_bytes n v) = n"
  by (simp add: le_bytes_def)

lemma le_value_bytes: "le_value (le_bytes n v) = v mod 256 ^ n"
proof (induction n)
  case (Suc n)
  have "le_bytes (Suc n) v = le_bytes n v @ [v div 256 ^ n mod 256]" by (simp add: le_bytes_def)
  then have "le_value (le_bytes (Suc n) v) = v mod 256 ^ n + 256 ^ n * (v div 256 ^ n mod 256)"
    using Suc by (simp add: le_value_snoc)
  also have "\<dots> = v mod (256 ^ n * 256)" by (simp add: zmod_zmult2_eq)
  finally show ?case by (simp add: mult.commute)
qed (simp add: le_bytes_def)

lemma le_value_bound: "list_all (\<lambda>b. 0 \<le> b \<and> b < 256) bs \<Longrightarrow> 0 \<le> le_value bs \<and> le_value bs < 256 ^ length bs"
  by (induction bs) auto

lemma byte_sized: "list_all (\<lambda>b. 0 \<le> b \<and> b < 256) (le_bytes n v)"
  by (simp add: le_bytes_def list_all_iff)

lemma and_low: "(v :: int) AND 0xff = v mod 256" "v AND 0x7f = v mod 128"
proof -
  have "(0xff :: int) = mask 8" "(0x7f :: int) = mask 7" by (simp_all add: mask_eq_exp_minus_1)
  then show "v AND 0xff = v mod 256" "v AND 0x7f = v mod 128"
    by (simp_all only: take_bit_eq_mask [symmetric] take_bit_eq_mod) simp_all
qed

lemma take_asIntN: "k \<le> 32 \<Longrightarrow> take_bit k (asIntN 32 v) = take_bit k v"
  using asIntN_signed_take_bit [of 31 v] by (simp add: take_bit_signed_take_bit)

lemma asIntN_low: "asIntN 32 v mod 256 = v mod 256" "asIntN 32 v mod 128 = v mod 128"
  using take_asIntN [of 8 v] take_asIntN [of 7 v] by (simp_all add: take_bit_eq_mod)

lemma asIntN_32_id: "0 \<le> v \<Longrightarrow> v < 2147483648 \<Longrightarrow> asIntN 32 v = v"
  by (rule asIntN_id) simp_all

lemma js_and_low: "js_and v 0xff = v mod 256" "js_and v 0x7f = v mod 128"
  by (simp_all add: js_and_def asIntN_32_id and_low asIntN_low)

lemma byteAt_mod: "byteAt b i = elems b ! i mod 256"
  by (simp add: byteAt_def js_and_low)

lemma byteAt_bounds: "0 \<le> byteAt b i" "byteAt b i < 256"
  by (simp_all add: byteAt_mod)

lemma all_bytes_sized: "list_all (\<lambda>b. 0 \<le> b \<and> b < 256) (all_bytes b)"
  by (simp add: all_bytes_def list_all_iff byteAt_bounds)

lemma all_bytes_map: "all_bytes b = map (\<lambda>x. x mod 256) (elems b)"
  by (rule nth_equalityI) (simp_all add: all_bytes_def byteAt_mod)

lemma low_or: "0 \<le> (l :: int) \<Longrightarrow> l < 2 ^ n \<Longrightarrow> l OR push_bit n h = l + h * 2 ^ n"
  using or_shifted [of l n h] by (simp add: or.commute add.commute)

lemma continuation_byte: "js_or (v AND 0x7f) 0x80 = v mod 128 + 128"
proof -
  have "(v mod 128) OR push_bit 7 1 = v mod 128 + 1 * 2 ^ 7" by (rule low_or) simp_all
  moreover have "0 \<le> v mod 128" "v mod 128 < 128" by simp_all
  ultimately show ?thesis by (simp add: js_or_def and_low asIntN_32_id)
qed

subsection \<open>The interface of a byte order, and its two implementations\<close>

text \<open>
  A \<open>ByteOrder\<close> lays the bytes of an \<open>n\<close>-byte number out in some order, \<open>bytes\<close>; \<open>val\<close> reads
  them back.
\<close>

locale byte_order_laws =
  fixes order :: byte_order and val :: "int list \<Rightarrow> int" and bytes :: "nat \<Rightarrow> int \<Rightarrow> int list"
  assumes length_bytes: "length (bytes n v) = n"
    and val_bytes: "val (bytes n v) = v mod 256 ^ n"
    and bytes_sized: "list_all (\<lambda>b. 0 \<le> b \<and> b < 256) (bytes n v)"
    and get16: "2 \<le> length (elems b) \<Longrightarrow> Uint16 order b = Inr (val (take 2 (all_bytes b)))"
    and get32: "4 \<le> length (elems b) \<Longrightarrow> Uint32 order b = Inr (val (take 4 (all_bytes b)))"
    and get64: "8 \<le> length (elems b) \<Longrightarrow> Uint64 order b = Inr (val (take 8 (all_bytes b)))"
    and put16: "2 \<le> length (elems b) \<Longrightarrow> PutUint16 order b v = Inr (put_elems b (bytes 2 v @ drop 2 (elems b)))"
    and put32: "4 \<le> length (elems b) \<Longrightarrow> PutUint32 order b v = Inr (put_elems b (bytes 4 v @ drop 4 (elems b)))"
    and put64: "8 \<le> length (elems b) \<Longrightarrow> bin_toUint64 x = Inr v \<Longrightarrow>
      PutUint64 order b x = Inr (put_elems b (bytes 8 v @ drop 8 (elems b)))"
    and short16: "length (elems b) < 2 \<Longrightarrow> \<not> is_ok (Uint16 order b) \<and> \<not> is_ok (PutUint16 order b v)"
    and short32: "length (elems b) < 4 \<Longrightarrow> \<not> is_ok (Uint32 order b) \<and> \<not> is_ok (PutUint32 order b v)"
    and short64: "length (elems b) < 8 \<Longrightarrow> \<not> is_ok (Uint64 order b) \<and> \<not> is_ok (PutUint64 order b x)"
    and append16: "map_sum id all_bytes (AppendUint16 order b v) = Inr (all_bytes b @ bytes 2 v)"
    and append32: "map_sum id all_bytes (AppendUint32 order b v) = Inr (all_bytes b @ bytes 4 v)"
    and append64: "bin_toUint64 x = Inr v \<Longrightarrow> map_sum id all_bytes (AppendUint64 order b x) = Inr (all_bytes b @ bytes 8 v)"
begin

lemma all_bytes_put:
  "list_all (\<lambda>b. 0 \<le> b \<and> b < 256) bs \<Longrightarrow> length bs \<le> length (elems b) \<Longrightarrow>
    take (length bs) (all_bytes (put_elems b (bs @ drop (length bs) (elems b)))) = bs"
proof -
  assume bs: "list_all (\<lambda>b. 0 \<le> b \<and> b < 256) bs" "length bs \<le> length (elems b)"
  have "map (\<lambda>x. x mod 256) bs = bs" using bs(1) by (induction bs) auto
  with bs(2) show ?thesis by (cases b) (simp_all add: all_bytes_map)
qed

lemma put_get:
  "2 \<le> length (elems b) \<Longrightarrow> bindR (PutUint16 order b v) (Uint16 order) = Inr (v mod 2 ^ 16)"
  "4 \<le> length (elems b) \<Longrightarrow> bindR (PutUint32 order b v) (Uint32 order) = Inr (v mod 2 ^ 32)"
  "8 \<le> length (elems b) \<Longrightarrow> bin_toUint64 x = Inr v \<Longrightarrow> bindR (PutUint64 order b x) (Uint64 order) = Inr (v mod 2 ^ 64)"
proof -
  have len: "length (elems (put_elems b (bytes n v @ drop n (elems b)))) = length (elems b)" if "n \<le> length (elems b)" for n v
    using that by (cases b) (simp_all add: length_bytes)
  note rd = all_bytes_put [OF bytes_sized, unfolded length_bytes]
  show "2 \<le> length (elems b) \<Longrightarrow> bindR (PutUint16 order b v) (Uint16 order) = Inr (v mod 2 ^ 16)"
    by (simp add: put16 get16 len rd val_bytes)
  show "4 \<le> length (elems b) \<Longrightarrow> bindR (PutUint32 order b v) (Uint32 order) = Inr (v mod 2 ^ 32)"
    by (simp add: put32 get32 len rd val_bytes)
  show "8 \<le> length (elems b) \<Longrightarrow> bin_toUint64 x = Inr v \<Longrightarrow> bindR (PutUint64 order b x) (Uint64 order) = Inr (v mod 2 ^ 64)"
    by (simp add: put64 get64 len rd val_bytes)
qed

text \<open>A read is a number of the width.\<close>

lemma append_get:
  "elems b = [] \<Longrightarrow> bindR (AppendUint16 order b v) (Uint16 order) = Inr (v mod 2 ^ 16)"
  "elems b = [] \<Longrightarrow> bindR (AppendUint32 order b v) (Uint32 order) = Inr (v mod 2 ^ 32)"
  "elems b = [] \<Longrightarrow> bin_toUint64 x = Inr v \<Longrightarrow> bindR (AppendUint64 order b x) (Uint64 order) = Inr (v mod 2 ^ 64)"
proof -
  have e: "all_bytes c = bs \<Longrightarrow> length bs = n \<Longrightarrow> length (elems c) = n \<and> take n (all_bytes c) = bs" for c bs n
    by (auto simp: all_bytes_def)
  have n: "elems b = [] \<Longrightarrow> all_bytes b = []" by (simp add: all_bytes_def)
  show "elems b = [] \<Longrightarrow> bindR (AppendUint16 order b v) (Uint16 order) = Inr (v mod 2 ^ 16)"
    using append16 [of b v] n e [OF _ length_bytes] get16 val_bytes by (cases "AppendUint16 order b v") auto
  show "elems b = [] \<Longrightarrow> bindR (AppendUint32 order b v) (Uint32 order) = Inr (v mod 2 ^ 32)"
    using append32 [of b v] n e [OF _ length_bytes] get32 val_bytes by (cases "AppendUint32 order b v") auto
  show "elems b = [] \<Longrightarrow> bin_toUint64 x = Inr v \<Longrightarrow> bindR (AppendUint64 order b x) (Uint64 order) = Inr (v mod 2 ^ 64)"
    using append64 [of x v b] n e [OF _ length_bytes] get64 val_bytes by (cases "AppendUint64 order b x") auto
qed

end

lemma requireLen_ok: "n \<le> length (elems b) \<Longrightarrow> requireLen b n = Inr ()"
  "length (elems b) < n \<Longrightarrow> \<not> is_ok (bindR (requireLen b n) f)"
  by (simp_all add: requireLen_def)

lemma elems_put: "length (elems b) = length ys \<Longrightarrow> elems (put_elems b ys) = ys"
  "put_elems (put_elems b ys) zs = put_elems b zs" "put_elems b (elems b) = b"
  by (cases b; simp)+

lemma setByte_ok: "i < length (elems b) \<Longrightarrow> setByte i v b = Inr (put_elems b ((elems b)[i := v mod 256]))"
  by (simp add: setByte_def requireLen_ok js_and_low)

lemma setBytes_run:
  "n + length vs \<le> length (elems b) \<Longrightarrow>
    setBytes (zip [n..<n + length vs] vs) b =
      Inr (put_elems b (take n (elems b) @ map (\<lambda>v. v mod 256) vs @ drop (n + length vs) (elems b)))"
proof (induction vs arbitrary: n b)
  case Nil
  then show ?case by (simp add: elems_put)
next
  case (Cons v vs)
  let ?b = "put_elems b ((elems b)[n := v mod 256])"
  have e: "elems ?b = (elems b)[n := v mod 256]" by (simp add: elems_put)
  have "[n..<n + length (v # vs)] = n # [Suc n..<Suc n + length vs]" by (simp add: upt_rec)
  moreover have "setBytes (zip [Suc n..<Suc n + length vs] vs) ?b =
      Inr (put_elems ?b (take (Suc n) (elems ?b) @ map (\<lambda>v. v mod 256) vs @ drop (Suc n + length vs) (elems ?b)))"
    using Cons.prems by (intro Cons.IH) (simp add: e)
  moreover have "take (Suc n) ((elems b)[n := v mod 256]) = take n (elems b) @ [v mod 256]"
    using Cons.prems by (simp add: take_Suc_conv_app_nth)
  ultimately show ?case using Cons.prems by (simp add: setByte_ok e elems_put)
qed

lemma setBytes_all:
  "length vs \<le> length (elems b) \<Longrightarrow> is = [0..<length vs] \<Longrightarrow>
    setBytes (zip is vs) b = Inr (put_elems b (map (\<lambda>v. v mod 256) vs @ drop (length vs) (elems b)))"
  using setBytes_run [of 0 vs b] by simp

lemma setBytes_2:
  "2 \<le> length (elems b) \<Longrightarrow>
    setBytes [(0, x), (Suc 0, y)] b = Inr (put_elems b (x mod 256 # y mod 256 # drop 2 (elems b)))"
  using setBytes_all [of "[x, y]" b "[0, 1]"] by (simp add: numeral_2_eq_2)

lemma setBytes_4:
  "4 \<le> length (elems b) \<Longrightarrow> setBytes [(0, x), (Suc 0, y), (2, z), (3, w)] b =
    Inr (put_elems b (x mod 256 # y mod 256 # z mod 256 # w mod 256 # drop 4 (elems b)))"
  using setBytes_all [of "[x, y, z, w]" b "[0, 1, 2, 3]"] by (simp add: eval_nat_numeral upt_rec)

lemma setBytes_map:
  "n \<le> length (elems b) \<Longrightarrow> setBytes (map (\<lambda>i. (i, f i)) [0..<n]) b =
    Inr (put_elems b (map (\<lambda>i. f i mod 256) [0..<n] @ drop n (elems b)))"
  using setBytes_all [of "map f [0..<n]" b "[0..<n]"] by (simp add: zip_map2 zip_same_conv_map o_def)

lemma all_bytes_append: "all_bytes (append_nums b ns) = all_bytes b @ map (\<lambda>n. n mod 256) ns"
  by (cases b) (simp_all add: all_bytes_map)

lemma all_bytes_fold_append:
  "all_bytes (fold (\<lambda>i out. append_nums out [f i]) is b) = all_bytes b @ map (\<lambda>i. f i mod 256) is"
  by (induction "is" arbitrary: b) (simp_all add: all_bytes_append)

lemma js_shr_byte: "js_shr v 8 mod 256 = v div 256 mod 256"
proof -
  have "take_bit 8 (drop_bit 8 (asIntN 32 v)) = take_bit 8 (drop_bit 8 v)"
    by (simp add: take_bit_drop_bit take_asIntN)
  then show ?thesis by (simp add: js_shr_def take_bit_eq_mod drop_bit_int_def)
qed

lemma js_ushr_byte:
  "k \<le> 24 \<Longrightarrow> js_ushr (to_uint32 (Fin (of_int v))) k mod 256 = v div 2 ^ k mod 256"
  "to_uint32 (Fin (of_int v)) mod 256 = v mod 256"
proof -
  have "take_bit 8 (drop_bit k (take_bit 32 v)) = take_bit 8 (drop_bit k v)" if "k \<le> 24" for k
    using that by (simp add: take_bit_drop_bit min_def)
  from this [of k] this [of 0] show "k \<le> 24 \<Longrightarrow> js_ushr (to_uint32 (Fin (of_int v))) k mod 256 = v div 2 ^ k mod 256"
    "to_uint32 (Fin (of_int v)) mod 256 = v mod 256"
    by (simp_all add: js_ushr_def asUintN_take_bit take_bit_eq_mod drop_bit_int_def)
qed

lemma byte_of_word: "drop_bit (8 * i) (v :: int) AND 0xff = v div 256 ^ i mod 256"
  by (simp add: and_low drop_bit_int_def power_mult)

lemma le_bytes_enum:
  "le_bytes 2 v = [v mod 256, v div 256 mod 256]"
  "le_bytes 4 v = [v mod 256, v div 256 mod 256, v div 65536 mod 256, v div 16777216 mod 256]"
  by (simp_all add: le_bytes_def upt_rec)

lemma take_all_bytes: "n \<le> length (elems b) \<Longrightarrow> take n (all_bytes b) = map (byteAt b) [0..<n]"
  by (simp add: all_bytes_def take_map)

lemma join16:
  assumes "0 \<le> a" "a < 256" "0 \<le> c" "c < 256"
  shows "js_or a (js_shl c 8) = a + 256 * c"
proof -
  have "js_shl c 8 = push_bit 8 c" using assms by (simp add: js_shl_def asIntN_32_id push_bit_eq_mult)
  moreover have "a OR push_bit 8 c = a + c * 2 ^ 8" using assms by (intro low_or) simp_all
  moreover have "asIntN 32 (push_bit 8 c) = push_bit 8 c" using assms by (simp add: asIntN_32_id push_bit_eq_mult)
  ultimately show ?thesis using assms by (simp add: js_or_def asIntN_32_id)
qed

lemma take_js_or: "take_bit 32 (js_or a b) = take_bit 32 a OR take_bit 32 b"
  "take_bit 32 (js_shl a k) = take_bit 32 (push_bit k a)"
  by (simp_all add: js_or_def js_shl_def take_asIntN take_bit_push_bit)

lemma join32:
  assumes "0 \<le> a" "a < 256" "0 \<le> c" "c < 256" "0 \<le> d" "d < 256" "0 \<le> e" "e < 256"
  shows "js_ushr (js_or (js_or (js_or a (js_shl c 8)) (js_shl d 16)) (js_shl e 24)) 0 = le_value [a, c, d, e]"
proof -
  have s: "take_bit 32 a = a" "take_bit 32 (push_bit 8 c) = push_bit 8 c" "take_bit 32 (push_bit 16 d) = push_bit 16 d"
    "take_bit 32 (push_bit 24 e) = push_bit 24 e"
    using assms by (simp_all add: take_bit_int_eq_self_iff push_bit_eq_mult)
  have 1: "a OR push_bit 8 c = a + c * 2 ^ 8" using assms by (intro low_or) simp_all
  have 2: "(a + c * 2 ^ 8) OR push_bit 16 d = a + c * 2 ^ 8 + d * 2 ^ 16" using assms by (intro low_or) simp_all
  have 3: "(a + c * 2 ^ 8 + d * 2 ^ 16) OR push_bit 24 e = a + c * 2 ^ 8 + d * 2 ^ 16 + e * 2 ^ 24"
    using assms by (intro low_or) simp_all
  show ?thesis
    by (simp only: js_ushr_def asUintN_take_bit take_js_or s 1 2 3) simp
qed

lemma upt_small: "[0..<2] = [0, 1 :: nat]" "[0..<4] = [0, 1, 2, 3 :: nat]"
  by code_simp+

lemma fold_le:
  "(\<And>i. 0 \<le> f i \<and> f i < 256) \<Longrightarrow> fold (\<lambda>i v. v OR push_bit (8 * i) (f i)) [0..<n] 0 = le_value (map f [0..<n])"
proof (induction n)
  case (Suc n)
  have "list_all (\<lambda>b. 0 \<le> b \<and> b < 256) (map f [0..<n])" using Suc.prems by (simp add: list_all_iff)
  from le_value_bound [OF this] have b: "0 \<le> le_value (map f [0..<n])" "le_value (map f [0..<n]) < 2 ^ (8 * n)"
    by (simp_all add: power_mult)
  show ?case using Suc low_or [OF b, of "f n"] by (simp add: le_value_snoc power_mult)
qed simp

lemma fold_be:
  "(\<And>i. 0 \<le> f i \<and> f i < 256) \<Longrightarrow>
    fold (\<lambda>i v. push_bit 8 v OR f i) [0..<n] 0 = le_value (rev (map f [0..<n]))"
proof (induction n)
  case (Suc n)
  have "push_bit 8 v OR f n = v * 2 ^ 8 + f n" for v using Suc.prems by (intro or_shifted) simp_all
  with Suc show ?case by simp
qed simp

lemma bytes_value_bound: "n \<le> length (elems b) \<Longrightarrow> le_value (map (byteAt b) [0..<n]) < 256 ^ n"
  "0 \<le> le_value (map (byteAt b) [0..<n])" "le_value (rev (map (byteAt b) [0..<n])) < 256 ^ n"
  "0 \<le> le_value (rev (map (byteAt b) [0..<n]))"
  using le_value_bound [of "map (byteAt b) [0..<n]"] le_value_bound [of "rev (map (byteAt b) [0..<n])"]
  by (simp_all add: list_all_iff byteAt_bounds)

lemmas unsigned64_id = asUintN_id [of _ 64]

interpretation le: byte_order_laws LittleEndian le_value le_bytes
proof
  note defs = LittleEndian_def le_Uint16_def le_Uint32_def le_Uint64_def le_PutUint16_def le_PutUint32_def
    le_PutUint64_def le_AppendUint16_def le_AppendUint32_def le_AppendUint64_def
  show "length (le_bytes n v) = n" for n v by simp
  show "le_value (le_bytes n v) = v mod 256 ^ n" for n v by (rule le_value_bytes)
  show "list_all (\<lambda>b. 0 \<le> b \<and> b < 256) (le_bytes n v)" for n v by (rule byte_sized)
  show "2 \<le> length (elems b) \<Longrightarrow> Uint16 LittleEndian b = Inr (le_value (take 2 (all_bytes b)))" for b
    by (simp add: defs requireLen_ok take_all_bytes join16 byteAt_bounds upt_small del: upt_rec_numeral)
  show "4 \<le> length (elems b) \<Longrightarrow> Uint32 LittleEndian b = Inr (le_value (take 4 (all_bytes b)))" for b
    by (simp add: defs requireLen_ok take_all_bytes join32 byteAt_bounds upt_small del: upt_rec_numeral)
  show "8 \<le> length (elems b) \<Longrightarrow> Uint64 LittleEndian b = Inr (le_value (take 8 (all_bytes b)))" for b
    using bytes_value_bound [where n = 8 and b = b]
    by (simp add: defs requireLen_ok take_all_bytes fold_le byteAt_bounds bin_uint64Result_def unsigned64_id del: upt_Suc upt_rec_numeral)
  show "2 \<le> length (elems b) \<Longrightarrow> PutUint16 LittleEndian b v = Inr (put_elems b (le_bytes 2 v @ drop 2 (elems b)))" for b v
    by (simp add: defs requireLen_ok le_bytes_enum js_shr_byte setBytes_2 del: setBytes.simps)
  show "4 \<le> length (elems b) \<Longrightarrow> PutUint32 LittleEndian b v = Inr (put_elems b (le_bytes 4 v @ drop 4 (elems b)))" for b v
    by (simp add: defs requireLen_ok le_bytes_enum js_ushr_byte Let_def setBytes_4 del: to_uint32.simps setBytes.simps)
  show "8 \<le> length (elems b) \<Longrightarrow> bin_toUint64 x = Inr v \<Longrightarrow>
      PutUint64 LittleEndian b x = Inr (put_elems b (le_bytes 8 v @ drop 8 (elems b)))" for b x v
    by (simp add: defs requireLen_ok setBytes_map byte_of_word le_bytes_def del: upt_Suc upt_rec_numeral)
  show "length (elems b) < 2 \<Longrightarrow> \<not> is_ok (Uint16 LittleEndian b) \<and> \<not> is_ok (PutUint16 LittleEndian b v)" for b v
    by (simp add: defs requireLen_ok)
  show "length (elems b) < 4 \<Longrightarrow> \<not> is_ok (Uint32 LittleEndian b) \<and> \<not> is_ok (PutUint32 LittleEndian b v)" for b v
    by (simp add: defs requireLen_ok)
  show "length (elems b) < 8 \<Longrightarrow> \<not> is_ok (Uint64 LittleEndian b) \<and> \<not> is_ok (PutUint64 LittleEndian b x)" for b x
    by (simp add: defs requireLen_ok)
  show "map_sum id all_bytes (AppendUint16 LittleEndian b v) = Inr (all_bytes b @ le_bytes 2 v)" for b v
    by (simp add: defs all_bytes_append le_bytes_enum js_shr_byte)
  show "map_sum id all_bytes (AppendUint32 LittleEndian b v) = Inr (all_bytes b @ le_bytes 4 v)" for b v
    by (simp add: defs all_bytes_append le_bytes_enum js_ushr_byte Let_def del: to_uint32.simps)
  show "bin_toUint64 x = Inr v \<Longrightarrow> map_sum id all_bytes (AppendUint64 LittleEndian b x) = Inr (all_bytes b @ le_bytes 8 v)" for b x v
    by (simp add: defs all_bytes_fold_append byte_of_word le_bytes_def del: upt_Suc upt_rec_numeral)
qed

interpretation be: byte_order_laws BigEndian "\<lambda>bs. le_value (rev bs)" "\<lambda>n v. rev (le_bytes n v)"
proof
  note defs = BigEndian_def be_Uint16_def be_Uint32_def be_Uint64_def be_PutUint16_def be_PutUint32_def
    be_PutUint64_def be_AppendUint16_def be_AppendUint32_def be_AppendUint64_def
  have word: "map (\<lambda>i. drop_bit (56 - 8 * i) (v :: int) AND 0xff) [0..<8] = rev (le_bytes 8 v)" for v
  proof (rule nth_equalityI)
    fix i assume i: "i < length (map (\<lambda>i. drop_bit (56 - 8 * i) v AND 0xff) [0..<8])"
    then have "[0..<8] ! (7 - i) = 7 - i" by (subst nth_upt) simp_all
    with i show "map (\<lambda>i. drop_bit (56 - 8 * i) v AND 0xff) [0..<8] ! i = rev (le_bytes 8 v) ! i"
      using byte_of_word [of "7 - i" v] by (simp add: rev_nth le_bytes_def diff_mult_distrib2 nth_append del: upt_Suc upt_rec_numeral)
  qed simp
  show "length (rev (le_bytes n v)) = n" for n v by simp
  show "le_value (rev (rev (le_bytes n v))) = v mod 256 ^ n" for n v by (simp add: le_value_bytes)
  show "list_all (\<lambda>b. 0 \<le> b \<and> b < 256) (rev (le_bytes n v))" for n v using byte_sized by simp
  show "2 \<le> length (elems b) \<Longrightarrow> Uint16 BigEndian b = Inr (le_value (rev (take 2 (all_bytes b))))" for b
    by (simp add: defs requireLen_ok take_all_bytes join16 byteAt_bounds upt_small del: upt_rec_numeral)
  show "4 \<le> length (elems b) \<Longrightarrow> Uint32 BigEndian b = Inr (le_value (rev (take 4 (all_bytes b))))" for b
    by (simp add: defs requireLen_ok take_all_bytes join32 byteAt_bounds upt_small del: upt_rec_numeral)
  show "8 \<le> length (elems b) \<Longrightarrow> Uint64 BigEndian b = Inr (le_value (rev (take 8 (all_bytes b))))" for b
    using bytes_value_bound [where n = 8 and b = b]
    by (simp add: defs requireLen_ok take_all_bytes fold_be byteAt_bounds bin_uint64Result_def unsigned64_id del: upt_Suc upt_rec_numeral)
  show "2 \<le> length (elems b) \<Longrightarrow> PutUint16 BigEndian b v = Inr (put_elems b (rev (le_bytes 2 v) @ drop 2 (elems b)))" for b v
    by (simp add: defs requireLen_ok le_bytes_enum js_shr_byte setBytes_2 del: setBytes.simps)
  show "4 \<le> length (elems b) \<Longrightarrow> PutUint32 BigEndian b v = Inr (put_elems b (rev (le_bytes 4 v) @ drop 4 (elems b)))" for b v
    by (simp add: defs requireLen_ok le_bytes_enum js_ushr_byte Let_def setBytes_4 del: to_uint32.simps setBytes.simps)
  show "8 \<le> length (elems b) \<Longrightarrow> bin_toUint64 x = Inr v \<Longrightarrow>
      PutUint64 BigEndian b x = Inr (put_elems b (rev (le_bytes 8 v) @ drop 8 (elems b)))" for b x v
    by (simp add: defs requireLen_ok setBytes_map word [symmetric] and_low del: upt_Suc upt_rec_numeral)
  show "length (elems b) < 2 \<Longrightarrow> \<not> is_ok (Uint16 BigEndian b) \<and> \<not> is_ok (PutUint16 BigEndian b v)" for b v
    by (simp add: defs requireLen_ok)
  show "length (elems b) < 4 \<Longrightarrow> \<not> is_ok (Uint32 BigEndian b) \<and> \<not> is_ok (PutUint32 BigEndian b v)" for b v
    by (simp add: defs requireLen_ok)
  show "length (elems b) < 8 \<Longrightarrow> \<not> is_ok (Uint64 BigEndian b) \<and> \<not> is_ok (PutUint64 BigEndian b x)" for b x
    by (simp add: defs requireLen_ok)
  show "map_sum id all_bytes (AppendUint16 BigEndian b v) = Inr (all_bytes b @ rev (le_bytes 2 v))" for b v
    by (simp add: defs all_bytes_append le_bytes_enum js_shr_byte)
  show "map_sum id all_bytes (AppendUint32 BigEndian b v) = Inr (all_bytes b @ rev (le_bytes 4 v))" for b v
    by (simp add: defs all_bytes_append le_bytes_enum js_ushr_byte Let_def del: to_uint32.simps)
  show "bin_toUint64 x = Inr v \<Longrightarrow> map_sum id all_bytes (AppendUint64 BigEndian b x) = Inr (all_bytes b @ rev (le_bytes 8 v))" for b x v
    by (simp add: defs all_bytes_fold_append word [symmetric] and_low del: upt_Suc upt_rec_numeral)
qed

text \<open>Both byte orders, on a slice of any kind: writing and then reading a number of 16, 32 or
  64 bits gives it back modulo its width, a write changes the first bytes only, appending to a
  nil or empty slice and reading gives the number back as well, and a slice that is too short
  makes every read and write panic. Big-endian bytes are the reversed little-endian ones.\<close>

theorem byte_order_roundtrip:
  "list_all (\<lambda>order.
     (if 2 \<le> length (elems b)
      then bindR (PutUint16 order b v) (Uint16 order) = Inr (v mod 2 ^ 16) \<and>
           map_sum id (\<lambda>c. drop 2 (elems c)) (PutUint16 order b v) = Inr (drop 2 (elems b))
      else \<not> is_ok (Uint16 order b) \<and> \<not> is_ok (PutUint16 order b v)) \<and>
     (if 4 \<le> length (elems b)
      then bindR (PutUint32 order b v) (Uint32 order) = Inr (v mod 2 ^ 32) \<and>
           map_sum id (\<lambda>c. drop 4 (elems c)) (PutUint32 order b v) = Inr (drop 4 (elems b))
      else \<not> is_ok (Uint32 order b) \<and> \<not> is_ok (PutUint32 order b v)) \<and>
     (if 8 \<le> length (elems b)
      then bindR (PutUint64 order b (BigInt v)) (Uint64 order) = Inr (v mod 2 ^ 64) \<and>
           map_sum id (\<lambda>c. drop 8 (elems c)) (PutUint64 order b (BigInt v)) = Inr (drop 8 (elems b))
      else \<not> is_ok (Uint64 order b) \<and> \<not> is_ok (PutUint64 order b (BigInt v))) \<and>
     (if elems b = [] then
        bindR (AppendUint16 order b v) (Uint16 order) = Inr (v mod 2 ^ 16) \<and>
        bindR (AppendUint32 order b v) (Uint32 order) = Inr (v mod 2 ^ 32) \<and>
        bindR (AppendUint64 order b (BigInt v)) (Uint64 order) = Inr (v mod 2 ^ 64)
      else True)) [LittleEndian, BigEndian] \<and>
   map_sum id all_bytes (AppendUint64 BigEndian Nil_slice (BigInt v)) =
     map_sum id (\<lambda>c. rev (all_bytes c)) (AppendUint64 LittleEndian Nil_slice (BigInt v))"
proof -
  have w: "bin_toUint64 (BigInt v) = Inr (v mod 2 ^ 64)" by (simp add: asUintN_def)
  have n: "length (elems b) = n + m \<Longrightarrow> length bs = n \<Longrightarrow> drop n (elems (put_elems b (bs @ drop n (elems b)))) = drop n (elems b)"
    for bs n m by (simp add: elems_put)
  have d: "n \<le> length (elems b) \<Longrightarrow> length bs = n \<Longrightarrow> drop n (elems (put_elems b (bs @ drop n (elems b)))) = drop n (elems b)"
    for bs n by (simp add: elems_put)
  have a: "map_sum id all_bytes r = Inr xs \<Longrightarrow> map_sum id (\<lambda>c. rev (all_bytes c)) r = Inr (rev xs)" for r xs
    by (cases r) auto
  show ?thesis
    using le.put_get(1,2) [of b v] le.put_get(3) [OF _ w, of b] le.append_get(1,2) [of b v] le.append_get(3) [OF _ w, of b]
      be.put_get(1,2) [of b v] be.put_get(3) [OF _ w, of b] be.append_get(1,2) [of b v] be.append_get(3) [OF _ w, of b]
      a [OF le.append64 [OF w, of Nil_slice]] be.append64 [OF w, of Nil_slice]
    by (auto simp: le.put16 le.put32 le.put64 [OF _ w] be.put16 be.put32 be.put64 [OF _ w] d
        le.short16 le.short32 le.short64 be.short16 be.short32 be.short64 all_bytes_map)
qed

subsection \<open>Varints are right\<close>

text \<open>The value that a sequence of seven-bit groups stands for.\<close>

fun group_value :: "int list \<Rightarrow> int" where
  "group_value [] = 0"
| "group_value (b # bs) = b mod 128 + 128 * group_value bs"

lemma group_value_bound: "0 \<le> group_value bs \<and> group_value bs < 128 ^ length bs"
proof (induction bs)
  case (Cons b bs)
  have "0 \<le> b mod 128" "b mod 128 < 128" by simp_all
  with Cons show ?case by (auto simp: algebra_simps intro: add_nonneg_nonneg)
qed simp

abbreviation continues :: "int \<Rightarrow> bool" where "continues b \<equiv> 0x80 \<le> b"

lemma uvarint_bytes_shape:
  "0 \<le> v \<Longrightarrow> list_all continues (butlast (uvarint_bytes v)) \<and> \<not> continues (last (uvarint_bytes v)) \<and>
    uvarint_bytes v \<noteq> [] \<and> list_all (\<lambda>b. 0 \<le> b \<and> b < 256) (uvarint_bytes v) \<and>
    group_value (uvarint_bytes v) = v"
proof (induction v rule: uvarint_bytes.induct)
  case (1 v)
  show ?case
  proof (cases "0x80 \<le> v")
    case True
    have "0 \<le> drop_bit 7 v" using 1(2) by simp
    note ih = 1(1) [OF True this]
    have u: "uvarint_bytes v = (v mod 128 + 128) # uvarint_bytes (v div 128)"
      using True by (subst uvarint_bytes.simps) (simp add: continuation_byte drop_bit_int_def)
    have "0 \<le> v mod 128" "v mod 128 < 128" by simp_all
    then show ?thesis using ih unfolding u by (simp add: drop_bit_int_def)
  next
    case False
    then have "uvarint_bytes v = [v]" by (subst uvarint_bytes.simps) simp
    with False 1(2) show ?thesis by simp
  qed
qed

lemma uvarint_bytes_length: "v < 128 ^ Suc n \<Longrightarrow> length (uvarint_bytes v) \<le> Suc n"
proof (induction n arbitrary: v)
  case 0
  then show ?case by (subst uvarint_bytes.simps) simp
next
  case (Suc n)
  then have "v div 128 < 128 ^ Suc n" by (simp add: div_less_iff_less_mult)
  from Suc.IH [OF this] show ?case by (subst uvarint_bytes.simps) (simp add: drop_bit_int_def)
qed

lemma appendUvarint_loop_eq: "0 \<le> v \<Longrightarrow> all_bytes (appendUvarint_loop b v) = all_bytes b @ uvarint_bytes v"
proof (induction b v rule: appendUvarint_loop.induct)
  case (1 out v)
  have m: "0 \<le> v mod 128" "v mod 128 < 128" by simp_all
  show ?case
  proof (cases "0x80 \<le> v")
    case True
    then show ?thesis using 1(1) [OF True] 1(2) m
      by (subst appendUvarint_loop.simps, subst uvarint_bytes.simps)
        (simp add: all_bytes_append continuation_byte)
  next
    case False
    then show ?thesis using 1(2)
      by (subst appendUvarint_loop.simps, subst uvarint_bytes.simps) (simp add: all_bytes_append)
  qed
qed

lemma putUvarint_loop_eq:
  "0 \<le> v \<Longrightarrow>
    (if i + length (uvarint_bytes v) \<le> length (elems b)
     then putUvarint_loop i v b =
       Inr (i + length (uvarint_bytes v),
            put_elems b (take i (elems b) @ uvarint_bytes v @ drop (i + length (uvarint_bytes v)) (elems b)))
     else \<not> is_ok (putUvarint_loop i v b))"
proof (induction i v b rule: putUvarint_loop.induct)
  case (1 i v b)
  have m: "0 \<le> v mod 128" "v mod 128 < 128" by simp_all
  have fits: "is_ok (setByte i x b) \<Longrightarrow> i < length (elems b)" for x
    by (auto simp: setByte_def requireLen_def split: if_splits)
  show ?case
  proof (cases "i < length (elems b)")
    case fit: True
    show ?thesis
    proof (cases "0x80 \<le> v")
      case True
      let ?x = "v mod 128 + 128" let ?v = "v div 128"
      let ?b = "put_elems b ((elems b)[i := ?x])"
      have e: "elems ?b = (elems b)[i := ?x]" by (simp add: elems_put)
      have s: "setByte i ?x b = Inr ?b" using fit m by (simp add: setByte_ok)
      have u: "uvarint_bytes v = ?x # uvarint_bytes ?v"
        using True by (subst uvarint_bytes.simps) (simp add: continuation_byte drop_bit_int_def)
      have p: "putUvarint_loop i v b = putUvarint_loop (Suc i) ?v ?b"
        using True by (subst putUvarint_loop.simps) (simp add: continuation_byte drop_bit_int_def s)
      have t: "take (Suc i) ((elems b)[i := ?x]) = take i (elems b) @ [?x]"
        using fit by (simp add: take_Suc_conv_app_nth)
      have v: "0 \<le> drop_bit 7 v" using 1(2) by simp
      from 1(1) [OF True v, of ?b, unfolded e] show ?thesis
        unfolding p u
        by (cases "Suc (i + length (uvarint_bytes ?v)) \<le> length (elems b)")
          (simp_all add: drop_bit_int_def elems_put t)
    next
      case False
      then have "putUvarint_loop i v b = Inr (i + 1, put_elems b ((elems b)[i := v]))" "uvarint_bytes v = [v]"
        using 1(2) fit by (subst putUvarint_loop.simps, simp add: setByte_ok, subst uvarint_bytes.simps, simp)
      then show ?thesis using fit by (simp add: upd_conv_take_nth_drop)
    qed
  next
    case False
    then have bad: "\<not> is_ok (setByte i x b)" for x using fits [of x] by blast
    have "\<not> is_ok (bindR (setByte i x b) f)" for x and f :: "buf \<Rightarrow> (nat \<times> buf) res"
      using bad [of x] by (cases "setByte i x b") simp_all
    moreover have "uvarint_bytes v \<noteq> []" using uvarint_bytes_shape [OF 1(2)] by blast
    then have "\<not> i + length (uvarint_bytes v) \<le> length (elems b)" using False by (cases "uvarint_bytes v") auto
    ultimately show ?thesis using putUvarint_loop.simps [of i v b] by simp
  qed
qed

text \<open>What \<open>Uvarint\<close> returns on any bytes.\<close>

definition uvarint_spec :: "int list \<Rightarrow> int \<times> int" where
  "uvarint_spec bs =
     (let k = length (takeWhile continues bs) in
      if 10 \<le> k \<and> 10 < length bs then (0, -11)
      else if k = length bs then (0, 0)
      else if k = 9 \<and> 1 < bs ! k then (0, -10)
      else (group_value (take (Suc k) bs), int (Suc k)))"

lemma group_step:
  fixes x b :: int
  assumes "0 \<le> x" "x < 2 ^ (7 * i)" "0 \<le> b" "b < 128"
  shows "x OR push_bit (7 * i) b = x + b * 2 ^ (7 * i)" "x + b * 2 ^ (7 * i) < 2 ^ (7 * Suc i)"
proof -
  show "x OR push_bit (7 * i) b = x + b * 2 ^ (7 * i)" using assms by (intro low_or)
  have "b * 2 ^ (7 * i) \<le> 127 * 2 ^ (7 * i)" using assms by (intro mult_right_mono) simp_all
  moreover have "(2 :: int) ^ (7 * Suc i) = 128 * 2 ^ (7 * i)" by (simp add: power_add)
  ultimately show "x + b * 2 ^ (7 * i) < 2 ^ (7 * Suc i)" using assms(2) by linarith
qed

lemma small_result: "0 \<le> x \<Longrightarrow> x < 2 ^ (7 * Suc i) \<Longrightarrow> i \<le> 8 \<Longrightarrow> bin_uint64Result x = x"
proof -
  assume x: "0 \<le> x" "x < 2 ^ (7 * Suc i)" and i: "i \<le> 8"
  have "(2 :: int) ^ (7 * Suc i) \<le> 2 ^ 63" using i by (intro power_increasing) simp_all
  with x show ?thesis by (simp add: bin_uint64Result_def asUintN_id)
qed

lemma uvarint_loop_spec:
  "list_all (\<lambda>b. 0 \<le> b \<and> b < 256) bs \<Longrightarrow> 0 \<le> x \<Longrightarrow> x < 2 ^ (7 * i) \<Longrightarrow> i \<le> 10 \<Longrightarrow>
    uvarint_loop bs i x =
      (let k = length (takeWhile continues bs) in
       if 10 \<le> i + k \<and> 10 < i + length bs then (0, -11)
       else if k = length bs then (0, 0)
       else if i + k = 9 \<and> 1 < bs ! k then (0, -10)
       else (x + 2 ^ (7 * i) * group_value (take (Suc k) bs), int (i + Suc k)))"
proof (induction bs arbitrary: i x)
  case Nil
  then show ?case by (simp add: bin_uint64Result_def asUintN_def)
next
  case (Cons b bs)
  have z: "bin_uint64Result 0 = 0" by (simp add: bin_uint64Result_def asUintN_def)
  show ?case
  proof (cases "i = 10 \<or> \<not> continues b")
    case True
    show ?thesis
    proof (cases "i = 10")
      case False
      with True Cons.prems have b: "0 \<le> b" "b < 128" "\<not> continues b" and i: "i \<le> 9" by auto
      note g = group_step [OF Cons.prems(2,3) b(1,2)]
      have "bin_uint64Result (x + b * 2 ^ (7 * i)) = x + b * 2 ^ (7 * i)" if "i \<noteq> 9 \<or> \<not> 1 < b"
      proof (cases "i = 9")
        case True
        with that b(1) have "b = 0 \<or> b = 1" by linarith
        with True Cons.prems(2,3) show ?thesis by (auto simp: bin_uint64Result_def asUintN_id)
      next
        case False
        with i have "i \<le> 8" by simp
        then show ?thesis using g(2) b(1) Cons.prems(2) by (intro small_result) simp_all
      qed
      then show ?thesis using b i False z g(1) by (simp add: MaxVarintLen64_def algebra_simps)
    qed (simp add: MaxVarintLen64_def z)
  next
    case False
    then have c: "continues b" and i: "i \<le> 9" using Cons.prems(4) by auto
    have m: "0 \<le> b mod 128" "b mod 128 < 128" by simp_all
    note g = group_step [OF Cons.prems(2,3) m]
    have p: "0 \<le> x + b mod 128 * 2 ^ (7 * i)" using Cons.prems(2) m by simp
    have "uvarint_loop (b # bs) i x = uvarint_loop bs (Suc i) (x + b mod 128 * 2 ^ (7 * i))"
      using c i g(1) by (simp add: MaxVarintLen64_def js_and_low)
    moreover note Cons.IH [OF _ p g(2)]
    ultimately show ?thesis
      using c i Cons.prems(1) by (simp add: Let_def power_add algebra_simps)
  qed
qed

lemma Uvarint_eq: "Uvarint b = uvarint_spec (all_bytes b)"
proof -
  have z: "0 < (2 :: int) ^ (7 * 0)" "0 \<le> (10 :: nat)" by simp_all
  from uvarint_loop_spec [OF all_bytes_sized order_refl z, of b] show ?thesis
    by (simp only: Uvarint_def uvarint_spec_def Let_def add_0_left mult_0_right power_0 mult_1_left)
qed

lemma uvarint_spec_enc:
  assumes "0 \<le> v" "v < 2 ^ 64"
  shows "uvarint_spec (uvarint_bytes v @ rest) = (v, int (length (uvarint_bytes v)))" "length (uvarint_bytes v) \<le> 10"
proof -
  let ?u = "uvarint_bytes v"
  note sh = uvarint_bytes_shape [OF assms(1)]
  have "(2 :: int) ^ 64 < 128 ^ Suc 9" by simp
  then show l: "length ?u \<le> 10" using uvarint_bytes_length [of v 9] assms(2) by linarith
  have u: "?u = butlast ?u @ [last ?u]" using sh by simp
  have t: "takeWhile continues (?u @ rest) = butlast ?u"
  proof -
    have "?u @ rest = butlast ?u @ (last ?u # rest)" using u by (metis append.assoc append_Cons append_Nil)
    moreover have "takeWhile continues (butlast ?u @ (last ?u # rest)) = butlast ?u"
      using sh by (subst takeWhile_append2) (auto simp: list_all_iff)
    ultimately show ?thesis by (simp only:)
  qed
  have n: "Suc (length (butlast ?u)) = length ?u" using sh by (cases ?u) auto
  have nth: "(?u @ rest) ! length (butlast ?u) = last ?u" using sh n by (simp add: nth_append last_conv_nth)
  have "last ?u \<le> 1" if ten: "length (butlast ?u) = 9"
  proof -
    have "group_value (bs @ [c]) = group_value bs + 128 ^ length bs * (c mod 128)" for bs c
      by (induction bs) (simp_all add: algebra_simps)
    from this [of "butlast ?u" "last ?u"] have "v = group_value (butlast ?u) + 128 ^ 9 * (last ?u mod 128)"
      using sh u ten by simp
    moreover have "0 \<le> group_value (butlast ?u)" using group_value_bound by blast
    moreover have "0 \<le> last ?u" using sh last_in_set [of ?u] by (auto simp: list_all_iff)
    then have "last ?u mod 128 = last ?u" using sh by simp
    ultimately have "128 ^ 9 * last ?u < 2 ^ 64" using assms(2) by simp
    then show ?thesis by simp
  qed
  moreover have ne: "length ?u - Suc 0 \<noteq> length ?u + length rest" using sh by (cases ?u) auto
  ultimately show "uvarint_spec (?u @ rest) = (v, int (length ?u))"
    unfolding uvarint_spec_def t nth Let_def n using sh l n ne by auto
qed

lemma group_exact:
  assumes "0 \<le> x" "x < 2 ^ (7 * i)" "0 \<le> b" "b < 128" "i \<le> 9" "i \<noteq> 9 \<or> \<not> 1 < b"
  shows "bin_uint64Result (x OR push_bit (7 * i) b) = x + b * 2 ^ (7 * i)"
proof (cases "i = 9")
  case True
  with assms have "b = 0 \<or> b = 1" by linarith
  with True assms group_step(1) [OF assms(1-4)] show ?thesis by (auto simp: bin_uint64Result_def asUintN_id)
next
  case False
  with assms have "i \<le> 8" "0 \<le> x + b * 2 ^ (7 * i)" by simp_all
  with small_result [OF _ group_step(2) [OF assms(1-4)]] group_step(1) [OF assms(1-4)] show ?thesis by simp
qed

lemma readUvarint_loop_spec:
  "n + i = 10 \<Longrightarrow> list_all (\<lambda>b. 0 \<le> b \<and> b < 256) bs \<Longrightarrow> 0 \<le> x \<Longrightarrow> x < 2 ^ (7 * i) \<Longrightarrow>
    (let k = length (takeWhile continues bs); r = readUvarint_loop n i x (bs, e) in
     if k < length bs \<and> i + k \<le> 9 \<and> (i + k \<noteq> 9 \<or> \<not> 1 < bs ! k)
     then r = ((x + 2 ^ (7 * i) * group_value (take (Suc k) bs), None), (drop (Suc k) bs, e))
     else snd (fst r) =
       Some (if k = length bs \<and> i + k < 10 then (if 0 < i + k \<and> e = EOF then UnexpectedEOF else e) else Overflow))"
proof (induction n arbitrary: i x bs)
  case 0
  then show ?case by simp
next
  case (Suc n)
  show ?case
  proof (cases bs)
    case Nil
    then show ?thesis using Suc.prems(1) by simp
  next
    case (Cons b cs)
    with Suc.prems have b: "0 \<le> b" "b < 256" "list_all (\<lambda>b. 0 \<le> b \<and> b < 256) cs" and i: "i \<le> 9" by simp_all
    show ?thesis
    proof (cases "continues b")
      case True
      have m: "0 \<le> b mod 128" "b mod 128 < 128" by simp_all
      note g = group_step [OF Suc.prems(3,4) m]
      have p: "0 \<le> x + b mod 128 * 2 ^ (7 * i)" using Suc.prems(3) m by simp
      have l: "readUvarint_loop (Suc n) i x (b # cs, e) = readUvarint_loop n (Suc i) (x + b mod 128 * 2 ^ (7 * i)) (cs, e)"
        using True g(1) by (simp add: js_and_low)
      have "n + Suc i = 10" using Suc.prems(1) by simp
      from Suc.IH [OF this b(3) p g(2)] show ?thesis
        unfolding Cons using True l
        by (simp add: Let_def power_add algebra_simps del: readUvarint_loop.simps)
    next
      case False
      then have "b < 128" by simp
      from group_exact [OF Suc.prems(3,4) b(1) this i] False b i show ?thesis
        unfolding Cons by (auto simp: MaxVarintLen64_def mult.commute)
    qed
  qed
qed

text \<open>Signed numbers: the sign moves to the lowest bit.\<close>

lemma zigzag:
  fixes w :: "64 word"
  shows "decodeSignedVarint (case encodeSignedVarint (BigInt (sint w)) of Inr u \<Rightarrow> u | Inl e \<Rightarrow> 0) = sint w"
    "\<exists>u. encodeSignedVarint (BigInt (sint w)) = Inr u \<and> 0 \<le> u \<and> u < 2 ^ 64"
proof -
  define n where "n = sint w"
  have b: "- (2 ^ 63) \<le> n" "n < 2 ^ 63" using sint_greater_eq [of w] sint_less [of w] by (simp_all add: n_def)
  then have id: "asIntN 64 n = n" by (intro asIntN_id) simp_all
  have e: "encodeSignedVarint (BigInt n) = Inr (if n < 0 then - 2 * n - 1 else 2 * n)"
  proof (cases "n < 0")
    case True
    have "asUintN 64 (2 * n) = (2 * n + 2 ^ 64) mod 2 ^ 64" by (simp only: asUintN_def mod_add_self2)
    moreover have "(2 * n + 2 ^ 64) mod 2 ^ 64 = 2 * n + 2 ^ 64" using b True by (intro mod_pos_pos_trivial) simp_all
    ultimately have "asUintN 64 (2 * n) = 2 * n + 2 ^ 64" by (rule trans)
    moreover have "asUintN 64 (NOT (2 * n + 2 ^ 64)) = - 2 * n - 1"
    proof -
      have "NOT (2 * n + 2 ^ 64) = (- 2 * n - 1) + - 1 * 2 ^ 64" by (simp add: not_int_def)
      then have "asUintN 64 (NOT (2 * n + 2 ^ 64)) = (- 2 * n - 1) mod 2 ^ 64" by (simp only: asUintN_def mod_mult_self1)
      then show ?thesis using b True by simp
    qed
    moreover have "asUintN 64 (- 2 * n - 1) = - 2 * n - 1" using b True by (intro asUintN_id) simp_all
    ultimately show ?thesis
      using True by (simp add: encodeSignedVarint_def bin_isNegative_def id push_bit_eq_mult bin_uint64Result_def Let_def mult.commute)
  next
    case False
    then have "asUintN 64 (2 * n) = 2 * n" using b by (intro asUintN_id) simp_all
    with False show ?thesis
      by (simp add: encodeSignedVarint_def bin_isNegative_def id push_bit_eq_mult bin_uint64Result_def Let_def mult.commute)
  qed
  have "decodeSignedVarint (if n < 0 then - 2 * n - 1 else 2 * n) = n"
  proof (cases "n < 0")
    case True
    have u: "asUintN 64 (- 2 * n - 1) = - 2 * n - 1" using b True by (intro asUintN_id) simp_all
    have "drop_bit 1 (- 2 * n - 1) = (- 2 * n - 1) div 2" by (simp add: drop_bit_int_def)
    then have h: "drop_bit 1 (- 2 * n - 1) = - n - 1" by presburger
    have "(- 2 * n - 1) mod 2 \<noteq> 0" by presburger
    then have o: "(- 2 * n - 1) AND 1 \<noteq> 0" by (simp only: and_one_eq not_False_eq_True)
    have "NOT (- n - 1) = n" by (simp add: not_int_def)
    with u h o True id show ?thesis by (simp add: decodeSignedVarint_def bin_int64Result_def Let_def)
  next
    case False
    have u: "asUintN 64 (2 * n) = 2 * n" using b False by (intro asUintN_id) simp_all
    have "(2 * n) AND 1 = 0" by (simp add: and_one_eq)
    with u False id show ?thesis by (simp add: decodeSignedVarint_def bin_int64Result_def Let_def drop_bit_int_def)
  qed
  with e b show "decodeSignedVarint (case encodeSignedVarint (BigInt (sint w)) of Inr u \<Rightarrow> u | Inl e \<Rightarrow> 0) = sint w"
    "\<exists>u. encodeSignedVarint (BigInt (sint w)) = Inr u \<and> 0 \<le> u \<and> u < 2 ^ 64"
    by (auto simp: n_def)
qed

text \<open>The end of a read from bytes that hold no complete number.\<close>

definition incomplete :: "int list \<Rightarrow> read_error \<Rightarrow> read_error" where
  "incomplete bs e =
     (if list_all continues bs \<and> length bs < 10 then (if bs \<noteq> [] \<and> e = EOF then UnexpectedEOF else e) else Overflow)"

lemma ReadUvarint_eq:
  assumes "list_all (\<lambda>b. 0 \<le> b \<and> b < 256) bs"
  shows "case uvarint_spec bs of (v, c) \<Rightarrow>
    if 0 < c then ReadUvarint (bs, e) = ((v, None), (drop (nat c) bs, e))
    else snd (fst (ReadUvarint (bs, e))) = Some (incomplete bs e)"
proof -
  define k where "k = length (takeWhile continues bs)"
  have k: "k \<le> length bs" "k = length bs \<longleftrightarrow> list_all continues bs"
    unfolding k_def by (rule length_takeWhile_le) (metis list_all_iff takeWhile_eq_all_conv takeWhile_eq_take take_all_iff nle_le)
  have z: "0 < (2 :: int) ^ (7 * 0)" "(10 :: nat) + 0 = 10" by simp_all
  from readUvarint_loop_spec [OF z(2) assms order_refl z(1), of e] show ?thesis
    unfolding uvarint_spec_def ReadUvarint_def MaxVarintLen64_def k_def [symmetric] Let_def incomplete_def k(2) [symmetric]
    using k(1) by (auto simp: nat_add_distrib split: if_splits)
qed

text \<open>C32. Varints: the bytes written for a 64-bit number, at most ten of them, are read back as the
  number by \<open>Uvarint\<close> and \<open>ReadUvarint\<close> whatever bytes follow, with the number of bytes they take;
  \<open>PutUvarint\<close> stores the same bytes or panics when they do not fit; the signed variants give
  back a signed number.\<close>

theorem varint_roundtrip:
  fixes w :: "64 word" and rest :: "8 word list"
  shows "(\<exists>enc. length enc \<le> 10 \<and>
      map_sum id all_bytes (AppendUvarint b (BigInt (uint w))) = Inr (all_bytes b @ enc) \<and>
      Uvarint (Uint8 (enc @ map uint rest)) = (uint w, int (length enc)) \<and>
      ReadUvarint (enc @ map uint rest, e) = ((uint w, None), (map uint rest, e)) \<and>
      (if length enc \<le> length (elems b)
       then PutUvarint b (BigInt (uint w)) = Inr (length enc, put_elems b (enc @ drop (length enc) (elems b)))
       else \<not> is_ok (PutUvarint b (BigInt (uint w))))) \<and>
    (\<exists>enc. length enc \<le> 10 \<and>
      map_sum id all_bytes (AppendVarint b (BigInt (sint w))) = Inr (all_bytes b @ enc) \<and>
      Varint (Uint8 (enc @ map uint rest)) = (sint w, int (length enc)) \<and>
      ReadVarint (enc @ map uint rest, e) = ((sint w, None), (map uint rest, e)))"
proof -
  have gen: "length (uvarint_bytes v) \<le> 10 \<and>
      map_sum id all_bytes (AppendUvarint b (BigInt v)) = Inr (all_bytes b @ uvarint_bytes v) \<and>
      Uvarint (Uint8 (uvarint_bytes v @ map uint rest)) = (v, int (length (uvarint_bytes v))) \<and>
      ReadUvarint (uvarint_bytes v @ map uint rest, e) = ((v, None), (map uint rest, e)) \<and>
      (if length (uvarint_bytes v) \<le> length (elems b)
       then PutUvarint b (BigInt v) =
         Inr (length (uvarint_bytes v), put_elems b (uvarint_bytes v @ drop (length (uvarint_bytes v)) (elems b)))
       else \<not> is_ok (PutUvarint b (BigInt v)))" if v: "0 \<le> v" "v < 2 ^ 64" for v
  proof -
    note sh = uvarint_bytes_shape [OF v(1)] and sp = uvarint_spec_enc(1) [OF v, of "map uint rest"] uvarint_spec_enc(2) [OF v]
    have "list_all (\<lambda>b. 0 \<le> b \<and> b < 256) (map uint rest)"
      using uint_lt2p [where 'a = 8] by (simp add: list_all_iff)
    with sh have sized: "list_all (\<lambda>b. 0 \<le> b \<and> b < 256) (uvarint_bytes v @ map uint rest)" by simp
    then have "map (\<lambda>x. x mod 256) (uvarint_bytes v @ map uint rest) = uvarint_bytes v @ map uint rest"
      unfolding list_all_iff by (intro map_idI) auto
    then have all: "all_bytes (Uint8 (uvarint_bytes v @ map uint rest)) = uvarint_bytes v @ map uint rest"
      by (simp only: all_bytes_map elems.simps)
    have id: "bin_toUint64 (BigInt v) = Inr v" using v by (simp add: asUintN_id)
    show ?thesis
      using ReadUvarint_eq [OF sized, of e] sh putUvarint_loop_eq [OF v(1), of 0 b]
      by (simp add: sp Uvarint_eq all AppendUvarint_def PutUvarint_def id appendUvarint_loop_eq [OF v(1)] del: bin_toUint64.simps)
  qed
  obtain u where u: "encodeSignedVarint (BigInt (sint w)) = Inr u" "0 \<le> u" "u < 2 ^ 64" using zigzag(2) by blast
  have z: "decodeSignedVarint u = sint w" using zigzag(1) [of w] u(1) by simp
  have "0 \<le> uint w" "uint w < 2 ^ 64" using uint_lt2p [of w] by simp_all
  from gen [OF this] gen [OF u(2,3)] show ?thesis
    by (intro conjI exI [of _ "uvarint_bytes (uint w)"] exI [of _ "uvarint_bytes u"])
      (simp_all add: AppendVarint_def Varint_def ReadVarint_def u(1) z)
qed

text \<open>Varints read from arbitrary bytes: \<open>Uvarint\<close> is the reference \<open>uvarint_spec\<close> (the value of the
  groups up to the first byte below 128; 0 when there is none; minus the position when the number
  does not fit 64 bits), and \<open>ReadUvarint\<close> agrees with it: it returns that value and leaves the bytes
  after it, or reports an incomplete number as an unexpected end, or an overflow.\<close>

theorem varint_reads_agree:
  fixes bs :: "8 word list"
  shows "Uvarint (Uint8 (map uint bs)) = uvarint_spec (map uint bs) \<and>
    (case Uvarint (Uint8 (map uint bs)) of (v, n) \<Rightarrow>
       if 0 < n then ReadUvarint (map uint bs, e) = ((v, None), (drop (nat n) (map uint bs), e))
       else snd (fst (ReadUvarint (map uint bs, e))) = Some (incomplete (map uint bs) e))"
proof -
  have sized: "list_all (\<lambda>b. 0 \<le> b \<and> b < 256) (map uint bs)" using uint_lt2p [where 'a = 8] by (simp add: list_all_iff)
  then have "map (\<lambda>x. x mod 256) (map uint bs) = map uint bs" unfolding list_all_iff by (intro map_idI) auto
  then have "Uvarint (Uint8 (map uint bs)) = uvarint_spec (map uint bs)"
    by (simp only: Uvarint_eq all_bytes_map elems.simps)
  with ReadUvarint_eq [OF sized, of e] show ?thesis by simp
qed

text \<open>Appending to a nil slice does not reduce the numbers to bytes: the second element here is not one.\<close>

lemma append_to_nil_keeps_number: "AppendUint16 BigEndian Nil_slice 0x1234 = Inr (Plain [0x12, 0x1234])"
  by code_simp

end
