(* ===== verification/GsStrings.thy ===== *)
theory GsStrings
  imports GsString
begin

section \<open>Package strings (gs/strings/strings.ts)\<close>

text \<open>
  The package works on the JavaScript strings the runtime uses for Go strings, here lists of
  UTF-16 code units. The first part is what it uses of the language: \<open>indexOf\<close>, \<open>split\<close>,
  \<open>join\<close>, \<open>trim\<close>, iteration by code points. A function argument may be \<open>null\<close>. Slices of
  strings are lists. The case conversions only apply \<open>Map_str\<close> to functions of package unicode.
\<close>

subsection \<open>Strings of the language\<close>

definition js_indexOf :: "jstr \<Rightarrow> jstr \<Rightarrow> nat \<Rightarrow> nat option" where
  "js_indexOf s p from = find (\<lambda>i. prefix p (drop i s)) [min from (length s)..<Suc (length s)]"

definition js_includes :: "jstr \<Rightarrow> jstr \<Rightarrow> bool" where "js_includes s p \<longleftrightarrow> js_indexOf s p 0 \<noteq> None"

definition chars :: "jstr \<Rightarrow> jstr list" where "chars s = map utf16_enc (code_points s)"

fun js_join :: "jstr list \<Rightarrow> jstr \<Rightarrow> jstr" where
  "js_join [] sep = []"
| "js_join [s] sep = s"
| "js_join (s # t # ss) sep = s @ sep @ js_join (t # ss) sep"

lemma find_upt_Some:
  "find P [a..<b] = Some i \<longleftrightarrow> a \<le> i \<and> i < b \<and> P i \<and> (\<forall>j. a \<le> j \<and> j < i \<longrightarrow> \<not> P j)"
proof (induction "b - a" arbitrary: a)
  case (Suc n)
  then have u: "[a..<b] = a # [Suc a..<b]" by (simp add: upt_rec)
  from Suc have ih: "find P [Suc a..<b] = Some i \<longleftrightarrow> Suc a \<le> i \<and> i < b \<and> P i \<and> (\<forall>j. Suc a \<le> j \<and> j < i \<longrightarrow> \<not> P j)"
    by simp
  show ?case
  proof (cases "P a")
    case True
    then show ?thesis using Suc.hyps(2) unfolding u by (auto simp: not_less dest: spec [of _ a])
  next
    case False
    then have "(\<forall>j. a \<le> j \<and> j < i \<longrightarrow> \<not> P j) \<longleftrightarrow> (\<forall>j. Suc a \<le> j \<and> j < i \<longrightarrow> \<not> P j)"
      by (auto simp: Suc_le_eq) (metis le_neq_implies_less)
    with False ih show ?thesis unfolding u by (auto simp: Suc_le_eq)
  qed
qed auto

lemma find_upt_None: "find P [a..<b] = None \<longleftrightarrow> (\<forall>j. a \<le> j \<and> j < b \<longrightarrow> \<not> P j)"
  by (auto simp: find_None_iff)

lemma js_indexOf_Some:
  "js_indexOf s p from = Some i \<longleftrightarrow>
    min from (length s) \<le> i \<and> i \<le> length s \<and> prefix p (drop i s) \<and>
    (\<forall>j. min from (length s) \<le> j \<and> j < i \<longrightarrow> \<not> prefix p (drop j s))"
  unfolding js_indexOf_def find_upt_Some by auto

lemma js_indexOf_None:
  "js_indexOf s p from = None \<longleftrightarrow> (\<forall>j. min from (length s) \<le> j \<and> j \<le> length s \<longrightarrow> \<not> prefix p (drop j s))"
  unfolding js_indexOf_def find_upt_None by (auto simp: less_Suc_eq_le)

lemma js_indexOf_bound: "js_indexOf s p from = Some i \<Longrightarrow> i + length p \<le> length s \<and> min from (length s) \<le> i"
  unfolding js_indexOf_Some using prefix_length_le [of p "drop i s"] by auto

text \<open>\<open>split\<close>; an empty separator gives the code units.\<close>

function js_split :: "jstr \<Rightarrow> jstr \<Rightarrow> jstr list" where
  "js_split s sep =
     (if sep = [] then map (\<lambda>u. [u]) s
      else case js_indexOf s sep 0 of None \<Rightarrow> [s]
           | Some i \<Rightarrow> take i s # js_split (drop (i + length sep) s) sep)"
  by pat_completeness auto
termination
proof (relation "measure (length \<circ> fst)")
  fix s sep :: jstr and i
  assume "sep \<noteq> []" "js_indexOf s sep 0 = Some i"
  then have "length (drop (i + length sep) s) < length s" using js_indexOf_bound [of s sep 0 i] by (cases sep) auto
  then show "((drop (i + length sep) s, sep), (s, sep)) \<in> measure (length \<circ> fst)" by simp
qed simp

declare js_split.simps [simp del]

definition fromCodePoint :: "int \<Rightarrow> jstr res" where
  "fromCodePoint r = (if r < 0 \<or> 0x10FFFF < r then Inl RangeError else Inr (utf16_enc (nat r)))"

text \<open>The white space of \<open>trim\<close> and of \<open>\s\<close>, and the split at runs of it.\<close>

definition js_space :: "nat \<Rightarrow> bool" where
  "js_space u \<longleftrightarrow> (9 \<le> u \<and> u \<le> 13) \<or> u \<in> set [0x20, 0xA0, 0x1680, 0x2028, 0x2029, 0x202F, 0x205F, 0x3000, 0xFEFF] \<or>
     (0x2000 \<le> u \<and> u \<le> 0x200A)"

definition js_trim :: "jstr \<Rightarrow> jstr" where
  "js_trim s = rev (dropWhile js_space (rev (dropWhile js_space s)))"

function split_spaces :: "jstr \<Rightarrow> jstr list" where
  "split_spaces s =
     (let rest = dropWhile (\<lambda>u. \<not> js_space u) s in
      takeWhile (\<lambda>u. \<not> js_space u) s # (if rest = [] then [] else split_spaces (dropWhile js_space rest)))"
  by pat_completeness auto
termination
proof (relation "measure length")
  fix s rest :: jstr
  assume r: "rest = dropWhile (\<lambda>u. \<not> js_space u) s" "rest \<noteq> []"
  then have "js_space (hd rest)" using hd_dropWhile [of "\<lambda>u. \<not> js_space u" s] by simp
  with r(2) have "length (dropWhile js_space rest) < length rest"
    by (cases rest) (simp_all add: length_dropWhile_le le_imp_less_Suc)
  with r(1) length_dropWhile_le [of "\<lambda>u. \<not> js_space u" s]
  show "(dropWhile js_space rest, s) \<in> measure length" by simp
qed simp

declare split_spaces.simps [simp del]

subsection \<open>Searching\<close>

fun count_loop :: "nat \<Rightarrow> jstr \<Rightarrow> jstr \<Rightarrow> nat \<Rightarrow> nat" where
  "count_loop 0 s substr pos = 0"
| "count_loop (Suc n) s substr pos =
     (case js_indexOf s substr pos of None \<Rightarrow> 0 | Some i \<Rightarrow> Suc (count_loop n s substr (i + length substr)))"

text \<open>The loop runs at most once for every position of the string and once more.\<close>

definition Count :: "jstr \<Rightarrow> jstr \<Rightarrow> nat" where
  "Count s substr = (if substr = [] then length (chars s) + 1 else count_loop (Suc (length s)) s substr 0)"

definition Contains :: "jstr \<Rightarrow> jstr \<Rightarrow> bool" where "Contains s substr = js_includes s substr"

definition ContainsAny :: "jstr \<Rightarrow> jstr \<Rightarrow> bool" where
  "ContainsAny s cs = list_ex (\<lambda>c. js_includes s c) (chars cs)"

definition ContainsRune :: "jstr \<Rightarrow> int \<Rightarrow> bool res" where
  "ContainsRune s r = bindR (fromCodePoint r) (\<lambda>c. Inr (js_includes s c))"

definition ContainsFunc :: "jstr \<Rightarrow> (nat \<Rightarrow> bool) option \<Rightarrow> bool" where
  "ContainsFunc s f = (case f of None \<Rightarrow> False | Some p \<Rightarrow> list_ex p (code_points s))"

definition matches_at :: "nat list \<Rightarrow> nat list \<Rightarrow> nat \<Rightarrow> bool" where
  "matches_at haystack needle i = list_all (\<lambda>j. haystack ! (i + j) = needle ! j) [0..<length needle]"

definition found :: "nat option \<Rightarrow> int" where "found r = (case r of None \<Rightarrow> -1 | Some i \<Rightarrow> int i)"

definition indexBytes :: "nat list \<Rightarrow> nat list \<Rightarrow> int" where
  "indexBytes haystack needle =
     (if needle = [] then 0
      else found (find (matches_at haystack needle) [0..<Suc (length haystack) - length needle]))"

definition lastIndexBytes :: "nat list \<Rightarrow> nat list \<Rightarrow> int" where
  "lastIndexBytes haystack needle =
     (if needle = [] then int (length haystack)
      else found (find (matches_at haystack needle) (rev [0..<Suc (length haystack) - length needle])))"

definition str_bytes :: "jstr \<Rightarrow> nat list" where "str_bytes s = stringToBytes (OfString (JSString s))"

definition Index :: "jstr \<Rightarrow> jstr \<Rightarrow> int" where
  "Index s substr = (if substr = [] then 0 else indexBytes (str_bytes s) (str_bytes substr))"

definition LastIndex :: "jstr \<Rightarrow> jstr \<Rightarrow> int" where
  "LastIndex s substr =
     (let haystack = str_bytes s; needle = str_bytes substr in
      if needle = [] then int (length haystack) else lastIndexBytes haystack needle)"

definition IndexByte :: "jstr \<Rightarrow> int \<Rightarrow> int" where
  "IndexByte s c = (let bs = str_bytes s in found (find (\<lambda>i. int (bs ! i) = c mod 256) [0..<length bs]))"

definition LastIndexByte :: "jstr \<Rightarrow> int \<Rightarrow> int" where
  "LastIndexByte s c = (let bs = str_bytes s in found (find (\<lambda>i. int (bs ! i) = c mod 256) (rev [0..<length bs])))"

definition IndexRune :: "jstr \<Rightarrow> int \<Rightarrow> int res" where
  "IndexRune s r = bindR (fromCodePoint r) (\<lambda>c. Inr (found (js_indexOf s c 0)))"

definition IndexAny :: "jstr \<Rightarrow> jstr \<Rightarrow> int" where
  "IndexAny s cs = found (find (\<lambda>i. js_includes cs [s ! i]) [0..<length s])"

definition LastIndexAny :: "jstr \<Rightarrow> jstr \<Rightarrow> int" where
  "LastIndexAny s cs = found (find (\<lambda>i. js_includes cs [s ! i]) (rev [0..<length s]))"

fun index_func_loop :: "(nat \<Rightarrow> bool) \<Rightarrow> nat \<Rightarrow> nat list \<Rightarrow> int" where
  "index_func_loop f index [] = -1"
| "index_func_loop f index (c # cs) =
     (if f c then int index else index_func_loop f (index + length (utf16_enc c)) cs)"

definition IndexFunc :: "jstr \<Rightarrow> (nat \<Rightarrow> bool) option \<Rightarrow> int" where
  "IndexFunc s f = (case f of None \<Rightarrow> -1 | Some p \<Rightarrow> index_func_loop p 0 (code_points s))"

definition LastIndexFunc :: "jstr \<Rightarrow> (nat \<Rightarrow> bool) option \<Rightarrow> int" where
  "LastIndexFunc s f =
     (case f of None \<Rightarrow> -1
      | Some p \<Rightarrow>
          (case find (\<lambda>i. p (code_points s ! i)) (rev [0..<length (code_points s)]) of
             None \<Rightarrow> -1
           | Some i \<Rightarrow> int (length (concat (take i (chars s))))))"

subsection \<open>Splitting and joining\<close>

definition Split :: "jstr \<Rightarrow> jstr \<Rightarrow> jstr list" where
  "Split s sep = (if sep = [] then chars s else js_split s sep)"

definition SplitN :: "jstr \<Rightarrow> jstr \<Rightarrow> int \<Rightarrow> jstr list" where
  "SplitN s sep n =
     (if n = 0 then [] else if n = 1 then [s]
      else if sep = [] then (if n < 0 then chars s else take (nat n) (chars s))
      else let parts = js_split s sep in
        if n < 0 \<or> int (length parts) \<le> n then parts
        else take (nat (n - 1)) parts @ [js_join (drop (nat (n - 1)) parts) sep])"

fun split_after_loop :: "nat \<Rightarrow> jstr \<Rightarrow> jstr \<Rightarrow> int \<Rightarrow> nat \<Rightarrow> nat \<Rightarrow> jstr list \<times> nat" where
  "split_after_loop 0 s sep n start count = ([], start)"
| "split_after_loop (Suc k) s sep n start count =
     (if n < 0 \<or> int count < n - 1 then
        (case js_indexOf s sep start of None \<Rightarrow> ([], start)
         | Some i \<Rightarrow>
             let stop = i + length sep; (parts, rest) = split_after_loop k s sep n stop (Suc count) in
             (take (stop - start) (drop start s) # parts, rest))
      else ([], start))"

definition SplitAfterN :: "jstr \<Rightarrow> jstr \<Rightarrow> int \<Rightarrow> jstr list" where
  "SplitAfterN s sep n =
     (if n = 0 then []
      else if sep = [] then (if n < 0 then chars s else take (nat n) (chars s))
      else case split_after_loop (Suc (length s)) s sep n 0 0 of
        (parts, start) \<Rightarrow> if start < length s then parts @ [drop start s] else parts)"

definition SplitAfter :: "jstr \<Rightarrow> jstr \<Rightarrow> jstr list" where "SplitAfter s sep = SplitAfterN s sep (-1)"

definition Fields :: "jstr \<Rightarrow> jstr list" where
  "Fields s = filter (\<lambda>part. 0 < length part) (split_spaces (js_trim s))"

text \<open>The loop of \<open>FieldsFunc\<close>: where the field being read starts, if there is one.\<close>

fun fields_loop :: "(nat \<Rightarrow> bool) \<Rightarrow> jstr \<Rightarrow> nat option \<Rightarrow> nat \<Rightarrow> nat list \<Rightarrow> jstr list" where
  "fields_loop f s start index [] = (case start of None \<Rightarrow> [] | Some b \<Rightarrow> [drop b s])"
| "fields_loop f s start index (c # cs) =
     (let next = index + length (utf16_enc c) in
      if f c then
        (case start of
           Some b \<Rightarrow> take (index - b) (drop b s) # fields_loop f s None next cs
         | None \<Rightarrow> fields_loop f s None next cs)
      else fields_loop f s (case start of None \<Rightarrow> Some index | Some b \<Rightarrow> Some b) next cs)"

definition FieldsFunc :: "jstr \<Rightarrow> (nat \<Rightarrow> bool) option \<Rightarrow> jstr list" where
  "FieldsFunc s f = (case f of None \<Rightarrow> [s] | Some p \<Rightarrow> fields_loop p s None 0 (code_points s))"

text \<open>\<open>$.asArray\<close> gives an array for every slice, the empty one for nil, so the guard of \<open>Join\<close> never applies
  and a nil slice is the empty list here.\<close>

definition Join :: "jstr list \<Rightarrow> jstr \<Rightarrow> jstr" where "Join strs sep = js_join strs sep"

definition HasPrefix :: "jstr \<Rightarrow> jstr \<Rightarrow> bool" where "HasPrefix s p = prefix p s"
definition HasSuffix :: "jstr \<Rightarrow> jstr \<Rightarrow> bool" where "HasSuffix s p = suffix p s"

fun map_loop :: "(nat \<Rightarrow> int) \<Rightarrow> jstr \<Rightarrow> nat list \<Rightarrow> jstr res" where
  "map_loop f result [] = Inr result"
| "map_loop f result (c # cs) = bindR (fromCodePoint (f c)) (\<lambda>t. map_loop f (result @ t) cs)"

definition Map_str :: "(nat \<Rightarrow> int) option \<Rightarrow> jstr \<Rightarrow> jstr res" where
  "Map_str mapping s = (case mapping of None \<Rightarrow> Inr s | Some f \<Rightarrow> map_loop f [] (code_points s))"

definition Repeat :: "jstr \<Rightarrow> int \<Rightarrow> jstr res" where
  "Repeat s count =
     (if count < 0 then Inl (RuntimePanic ''strings: negative Repeat count'')
      else Inr (concat (replicate (nat count) s)))"

subsection \<open>Trimming\<close>

definition TrimSpace :: "jstr \<Rightarrow> jstr" where "TrimSpace s = js_trim s"

definition TrimLeftFunc :: "jstr \<Rightarrow> (nat \<Rightarrow> bool) option \<Rightarrow> jstr" where
  "TrimLeftFunc s f =
     (case f of None \<Rightarrow> s
      | Some p \<Rightarrow> drop (sum_list (map (length \<circ> utf16_enc) (takeWhile p (code_points s)))) s)"

definition TrimRightFunc :: "jstr \<Rightarrow> (nat \<Rightarrow> bool) option \<Rightarrow> jstr" where
  "TrimRightFunc s f =
     (case f of None \<Rightarrow> s
      | Some p \<Rightarrow> concat (take (length (code_points s) - length (takeWhile p (rev (code_points s)))) (chars s)))"

definition TrimFunc :: "jstr \<Rightarrow> (nat \<Rightarrow> bool) option \<Rightarrow> jstr" where
  "TrimFunc s f = (case f of None \<Rightarrow> s | Some p \<Rightarrow> TrimRightFunc (TrimLeftFunc s f) f)"

definition in_cutset :: "jstr \<Rightarrow> nat \<Rightarrow> bool" where "in_cutset cutset c = js_includes cutset (utf16_enc c)"

definition Trim :: "jstr \<Rightarrow> jstr \<Rightarrow> jstr" where "Trim s cutset = TrimFunc s (Some (in_cutset cutset))"
definition TrimLeft :: "jstr \<Rightarrow> jstr \<Rightarrow> jstr" where "TrimLeft s cutset = TrimLeftFunc s (Some (in_cutset cutset))"
definition TrimRight :: "jstr \<Rightarrow> jstr \<Rightarrow> jstr" where "TrimRight s cutset = TrimRightFunc s (Some (in_cutset cutset))"

definition TrimPrefix :: "jstr \<Rightarrow> jstr \<Rightarrow> jstr" where
  "TrimPrefix s p = (if prefix p s then drop (length p) s else s)"

definition TrimSuffix :: "jstr \<Rightarrow> jstr \<Rightarrow> jstr" where
  "TrimSuffix s p = (if suffix p s then take (length s - length p) s else s)"

subsection \<open>Replacing, comparing, cutting\<close>

fun replace_loop :: "nat \<Rightarrow> jstr \<Rightarrow> jstr \<Rightarrow> jstr \<Rightarrow> int \<Rightarrow> nat \<Rightarrow> nat \<Rightarrow> jstr \<times> nat" where
  "replace_loop 0 s old new n start count = ([], start)"
| "replace_loop (Suc k) s old new n start count =
     (if n < 0 \<or> int count < n then
        (case js_indexOf s old start of None \<Rightarrow> ([], start)
         | Some i \<Rightarrow>
             (case replace_loop k s old new n (i + length old) (Suc count) of
                (rest, stop) \<Rightarrow> (take (i - start) (drop start s) @ new @ rest, stop)))
      else ([], start))"

definition Replace :: "jstr \<Rightarrow> jstr \<Rightarrow> jstr \<Rightarrow> int \<Rightarrow> jstr" where
  "Replace s old new n =
     (if n = 0 \<or> old = new then s
      else if old = [] then
        (let runes = chars s; limit = (if n < 0 then length runes + 1 else min (nat n) (length runes + 1)) in
         new @ concat (map (\<lambda>r. r @ new) (take (limit - 1) runes)) @ concat (drop (limit - 1) runes))
      else case replace_loop (Suc (length s)) s old new n 0 0 of (result, start) \<Rightarrow> result @ drop start s)"

definition ReplaceAll :: "jstr \<Rightarrow> jstr \<Rightarrow> jstr \<Rightarrow> jstr" where
  "ReplaceAll s old new = (if old = [] then s else js_join (js_split s old) new)"

text \<open>The operator \<open><\<close> of the language compares code units.\<close>

fun units_less :: "jstr \<Rightarrow> jstr \<Rightarrow> bool" where
  "units_less (u # us) (v # vs) = (if u = v then units_less us vs else u < v)"
| "units_less [] (v # vs) = True"
| "units_less us [] = False"

definition Compare :: "jstr \<Rightarrow> jstr \<Rightarrow> int" where
  "Compare a b = (if units_less a b then -1 else if units_less b a then 1 else 0)"

definition Cut :: "jstr \<Rightarrow> jstr \<Rightarrow> jstr \<times> jstr \<times> bool" where
  "Cut s sep =
     (case js_indexOf s sep 0 of None \<Rightarrow> (s, [], False)
      | Some i \<Rightarrow> (take i s, drop (i + length sep) s, True))"

definition CutPrefix :: "jstr \<Rightarrow> jstr \<Rightarrow> jstr \<times> bool" where
  "CutPrefix s p = (if prefix p s then (drop (length p) s, True) else (s, False))"

definition CutSuffix :: "jstr \<Rightarrow> jstr \<Rightarrow> jstr \<times> bool" where
  "CutSuffix s p = (if suffix p s then (take (length s - length p) s, True) else (s, False))"

subsection \<open>Iteration by code points\<close>

definition units_ok :: "jstr \<Rightarrow> bool" where "units_ok s \<longleftrightarrow> list_all (\<lambda>u. u < 0x10000) s"

definition enc :: "nat list \<Rightarrow> jstr" where "enc cs = concat (map utf16_enc cs)"

lemma enc_simps [simp]: "enc [] = []" "enc (c # cs) = utf16_enc c @ enc cs" "enc (cs @ ds) = enc cs @ enc ds"
  by (simp_all add: enc_def)

lemma length_enc: "sum_list (map (length \<circ> utf16_enc) cs) = length (enc cs)"
  by (induction cs) simp_all

lemma concat_take_chars: "concat (take n (chars s)) = enc (take n (code_points s))"
  by (simp add: chars_def enc_def take_map)

lemma code_points_step:
  "units_ok s \<Longrightarrow> code_points s = c # cs \<Longrightarrow> \<exists>t. s = utf16_enc c @ t \<and> code_points t = cs \<and> units_ok t"
proof (induction s rule: code_points.induct)
  case (1 u v us)
  show ?case
  proof (cases "0xD800 \<le> u \<and> u \<le> 0xDBFF \<and> 0xDC00 \<le> v \<and> v \<le> 0xDFFF")
    case True
    then have c: "c = 0x10000 + (u - 0xD800) * 0x400 + (v - 0xDC00)" "cs = code_points us" using 1(4) by auto
    moreover obtain x y where x: "u = 0xD800 + x" "v = 0xDC00 + y" "x < 0x400" "y < 0x400"
      using True le_Suc_ex [of "0xD800" u] le_Suc_ex [of "0xDC00" v] by auto
    then have "c = 0x10000 + (x * 0x400 + y)" unfolding c by simp
    then have "utf16_enc c = [u, v]" using x by (simp add: utf16_enc_def)
    ultimately show ?thesis using 1(3) by (auto simp: units_ok_def)
  next
    case False
    then show ?thesis using 1(3,4) by (auto simp: units_ok_def utf16_enc_def)
  qed
qed (auto simp: units_ok_def utf16_enc_def)

lemma enc_code_points: "units_ok s \<Longrightarrow> enc (code_points s) = s"
proof (induction "code_points s" arbitrary: s)
  case Nil
  then show ?case by (cases s rule: code_points.cases) (auto split: if_splits)
next
  case (Cons c cs)
  from code_points_step [OF Cons.prems Cons.hyps(2) [symmetric]] Cons.hyps(1) obtain t
    where "s = utf16_enc c @ t" "code_points t = cs" "enc (code_points t) = t" by metis
  with Cons.hyps(2) show ?case by (metis enc_simps(2))
qed

lemma code_points_drop:
  "units_ok s \<Longrightarrow> code_points s = cs @ ds \<Longrightarrow> code_points (drop (length (enc cs)) s) = ds \<and> units_ok (drop (length (enc cs)) s)"
proof (induction cs arbitrary: s)
  case (Cons c cs)
  from code_points_step [OF Cons.prems(1)] Cons.prems(2) obtain t
    where t: "s = utf16_enc c @ t" "code_points t = cs @ ds" "units_ok t" by auto
  from Cons.IH [OF t(3,2)] t(1) show ?case by simp
qed simp

subsection \<open>Splitting is right\<close>

lemma indexOf_from:
  assumes "pos \<le> length s"
  shows "js_indexOf s p pos = map_option (\<lambda>i. pos + i) (js_indexOf (drop pos s) p 0)"
proof (cases "js_indexOf (drop pos s) p 0")
  case None
  have "\<not> prefix p (drop j s)" if "pos \<le> j" "j \<le> length s" for j
    using None that unfolding js_indexOf_None by (auto dest: spec [of _ "j - pos"])
  then have "js_indexOf s p pos = None" unfolding js_indexOf_None using assms by simp
  with None show ?thesis by simp
next
  case (Some i)
  then have i: "i \<le> length s - pos" "prefix p (drop (pos + i) s)" "\<forall>j. j < i \<longrightarrow> \<not> prefix p (drop (pos + j) s)"
    unfolding js_indexOf_Some by (simp_all add: add.commute)
  have "\<not> prefix p (drop j s)" if "pos \<le> j" "j < pos + i" for j
    using i(3) that by (auto dest: spec [of _ "j - pos"])
  with i assms have "js_indexOf s p pos = Some (pos + i)" unfolding js_indexOf_Some by simp
  with Some show ?thesis by simp
qed

lemma js_split_cases:
  "sep \<noteq> [] \<Longrightarrow> js_indexOf s sep 0 = None \<Longrightarrow> js_split s sep = [s]"
  "sep \<noteq> [] \<Longrightarrow> js_indexOf s sep 0 = Some i \<Longrightarrow> js_split s sep = take i s # js_split (drop (i + length sep) s) sep"
  by (simp_all add: js_split.simps [of s sep])

lemma js_split_nonempty: "sep \<noteq> [] \<Longrightarrow> js_split s sep \<noteq> []"
  by (simp add: js_split.simps [of s sep] split: option.splits)

lemma js_join_Cons: "ss \<noteq> [] \<Longrightarrow> js_join (s # ss) sep = s @ sep @ js_join ss sep"
  by (cases ss) simp_all

lemma at_index: "js_indexOf s sep 0 = Some i \<Longrightarrow> s = take i s @ sep @ drop (i + length sep) s"
proof -
  assume "js_indexOf s sep 0 = Some i"
  then obtain t where t: "drop i s = sep @ t" by (auto simp: js_indexOf_Some prefix_def)
  then have "drop (i + length sep) s = t" by (metis add.commute append_eq_conv_conj drop_drop)
  with t show ?thesis by (metis append_take_drop_id)
qed

text \<open>The induction along the pieces of a string.\<close>

lemma split_induct [consumes 1, case_names last piece]:
  assumes "sep \<noteq> []"
    and "\<And>s. js_indexOf s sep 0 = None \<Longrightarrow> js_split s sep = [s] \<Longrightarrow> P s"
    and "\<And>s i. js_indexOf s sep 0 = Some i \<Longrightarrow> js_split s sep = take i s # js_split (drop (i + length sep) s) sep \<Longrightarrow>
      s = take i s @ sep @ drop (i + length sep) s \<Longrightarrow> P (drop (i + length sep) s) \<Longrightarrow> P s"
  shows "P s"
proof (induction "length s" arbitrary: s rule: less_induct)
  case less
  show ?case
  proof (cases "js_indexOf s sep 0")
    case None
    then show ?thesis using assms(1,2) js_split_cases(1) by blast
  next
    case (Some i)
    have "length (drop (i + length sep) s) < length s"
      using js_indexOf_bound [OF Some] assms(1) by (cases sep) auto
    from assms(3) [OF Some js_split_cases(2) [OF assms(1) Some] at_index [OF Some] less [OF this]] show ?thesis .
  qed
qed

lemma join_split:
  assumes "sep \<noteq> []"
  shows "js_join (js_split s sep) sep = s"
  using assms
proof (induction s rule: split_induct)
  case (piece s i)
  have "js_join (js_split s sep) sep = take i s @ sep @ drop (i + length sep) s"
    unfolding piece(2) js_join_Cons [OF js_split_nonempty [OF assms]] piece(4) ..
  with piece(3) show ?case by simp
qed simp

lemma not_within:
  assumes "js_indexOf s sep 0 = Some i" "sep \<noteq> []"
  shows "js_indexOf (take i s) sep 0 = None"
  unfolding js_indexOf_None
proof (intro allI impI notI)
  fix j assume j: "min 0 (length (take i s)) \<le> j \<and> j \<le> length (take i s)" "prefix sep (drop j (take i s))"
  then have "prefix sep (drop j s)" using take_is_prefix [of "i - j" "drop j s"] by (auto simp: drop_take intro: prefix_order.trans)
  moreover have "j < i" using j assms(2) by (cases "j = i") (auto simp: drop_take)
  ultimately show False using assms(1) unfolding js_indexOf_Some by auto
qed

lemma split_parts:
  assumes "sep \<noteq> []"
  shows "list_all (\<lambda>part. \<not> Contains part sep) (js_split s sep)"
  using assms
proof (induction s rule: split_induct)
  case (piece s i)
  with not_within [OF piece(1) assms] show ?case unfolding piece(2) by (simp add: Contains_def js_includes_def)
qed (simp add: Contains_def js_includes_def)

lemma count_loop_split:
  assumes "sep \<noteq> []"
  shows "pos \<le> length s \<Longrightarrow> length s - pos < n \<Longrightarrow> Suc (count_loop n s sep pos) = length (js_split (drop pos s) sep)"
proof (induction n arbitrary: pos)
  case (Suc n)
  show ?case
  proof (cases "js_indexOf (drop pos s) sep 0")
    case None
    then show ?thesis using indexOf_from [OF Suc.prems(1)] js_split_cases(1) [OF assms None] by simp
  next
    case (Some i)
    from js_indexOf_bound [OF Some] have "i + length sep \<le> length s - pos" by simp
    with Suc.prems assms have b: "pos + i + length sep \<le> length s" "length s - (pos + i + length sep) < n"
      by (cases sep; simp)+
    have "drop (i + length sep) (drop pos s) = drop (pos + i + length sep) s" by (simp add: ac_simps)
    with Suc.IH [OF b] show ?thesis
      using Some indexOf_from [OF Suc.prems(1), of sep] js_split_cases(2) [OF assms Some] by simp
  qed
qed simp

lemma Count_split: "sep \<noteq> [] \<Longrightarrow> length (js_split s sep) = Count s sep + 1"
  using count_loop_split [of sep 0 s "Suc (length s)"] by (simp add: Count_def)

lemma js_join_append:
  "ss \<noteq> [] \<Longrightarrow> ts \<noteq> [] \<Longrightarrow> js_join (ss @ ts) sep = js_join ss sep @ sep @ js_join ts sep"
proof (induction ss)
  case (Cons s ss)
  then show ?case by (cases ss) (simp_all add: js_join_Cons)
qed simp

lemma SplitN_join: "sep \<noteq> [] \<Longrightarrow> n \<noteq> 0 \<Longrightarrow> js_join (SplitN s sep n) sep = s"
proof -
  assume a: "sep \<noteq> []" "n \<noteq> 0"
  define parts m where "parts = js_split s sep" and "m = nat (n - 1)"
  show ?thesis
  proof (cases "n = 1 \<or> n < 0 \<or> int (length parts) \<le> n")
    case True
    then show ?thesis using a join_split [OF a(1)] by (auto simp: SplitN_def parts_def Let_def)
  next
    case False
    with a have m: "0 < m" "m < length parts" by (auto simp: m_def)
    then have "js_join (take m parts @ [js_join (drop m parts) sep]) sep = js_join (take m parts @ drop m parts) sep"
      by (subst (1 2) js_join_append) auto
    then show ?thesis using False a join_split [OF a(1)] by (simp add: SplitN_def parts_def m_def Let_def)
  qed
qed

text \<open>SplitN makes the first cuts of Split and leaves the rest together.\<close>

lemma SplitN_parts:
  assumes "sep \<noteq> []" "0 < n"
  shows "int (length (SplitN s sep n)) = min n (int (length (js_split s sep)))"
    "take (nat (n - 1)) (SplitN s sep n) = take (nat (n - 1)) (js_split s sep)"
proof -
  obtain x xs where l: "js_split s sep = x # xs" using js_split_nonempty [OF assms(1)] by (cases "js_split s sep") auto
  show "int (length (SplitN s sep n)) = min n (int (length (js_split s sep)))"
    using assms l by (auto simp: SplitN_def Let_def)
  show "take (nat (n - 1)) (SplitN s sep n) = take (nat (n - 1)) (js_split s sep)"
    using assms by (auto simp: SplitN_def Let_def)
qed

text \<open>The loop of SplitAfterN makes as many cuts, \<open>m\<close> of them, from \<open>start\<close> on.\<close>

lemma split_after_parts:
  assumes sep: "sep \<noteq> []"
  shows "start \<le> length s \<Longrightarrow> length s - start < k \<Longrightarrow> R = js_split (drop start s) sep \<Longrightarrow>
    m = (if n < 0 then length R - 1 else min (length R - 1) (nat (n - 1) - count)) \<Longrightarrow>
    (case split_after_loop k s sep n start count of (parts, stop) \<Rightarrow> stop \<le> length s \<and>
       parts = map (\<lambda>p. p @ sep) (take m R) \<and> drop stop s = js_join (drop m R) sep)"
proof (induction k arbitrary: start count R m)
  case (Suc k)
  note R = Suc.prems(3)
  show ?case
  proof (cases "n < 0 \<or> int count < n - 1")
    case False
    then have "nat (n - 1) \<le> count" by linarith
    then have "m = 0" using Suc.prems(4) False by simp
    then show ?thesis using False Suc.prems(1) join_split [OF sep, of "drop start s"] by (simp add: R)
  next
    case go: True
    show ?thesis
    proof (cases "js_indexOf (drop start s) sep 0")
      case None
      then have "js_indexOf s sep start = None" "R = [drop start s]"
        using indexOf_from [OF Suc.prems(1)] js_split_cases(1) [OF sep None] by (simp_all add: R)
      then show ?thesis using go Suc.prems(1,4) by simp
    next
      case (Some i)
      define stop where "stop = start + i + length sep"
      define R' where "R' = js_split (drop stop s) sep"
      have at: "js_indexOf s sep start = Some (start + i)" using indexOf_from [OF Suc.prems(1)] Some by simp
      from js_indexOf_bound [OF Some] have "i + length sep \<le> length s - start" by simp
      then have b: "stop \<le> length s" "length s - stop < k" using Suc.prems(1,2) sep by (cases sep; simp add: stop_def)+
      have "drop (i + length sep) (drop start s) = drop stop s" by (simp add: stop_def ac_simps)
      with js_split_cases(2) [OF sep Some] have RR: "R = take i (drop start s) # R'" by (simp add: R R'_def)
      have ne: "R' \<noteq> []" using js_split_nonempty [OF sep] by (simp add: R'_def)
      define m' where "m' = (if n < 0 then length R' - 1 else min (length R' - 1) (nat (n - 1) - Suc count))"
      have "nat (n - 1) - count = Suc (nat (n - 1) - Suc count)" if "\<not> n < 0" using go that by linarith
      then have m: "m = Suc m'" using Suc.prems(4) ne by (cases R'; cases "n < 0") (simp_all add: RR m'_def)
      obtain parts rest where r: "split_after_loop k s sep n stop (Suc count) = (parts, rest)" by fastforce
      from Suc.IH [OF b R'_def m'_def] r
      have ih: "rest \<le> length s" "parts = map (\<lambda>p. p @ sep) (take m' R')" "drop rest s = js_join (drop m' R') sep" by simp_all
      have "length (take i (drop start s)) = i" using js_indexOf_bound [OF Some] by simp
      then have "take (i + length sep) (take i (drop start s) @ sep @ t) = take i (drop start s) @ sep" for t by simp
      then have "take (i + length sep) (drop start s) = take i (drop start s) @ sep"
        using at_index [OF Some] by metis
      moreover have "start + i + length sep - start = i + length sep" by simp
      ultimately have "split_after_loop (Suc k) s sep n start count = ((take i (drop start s) @ sep) # parts, rest)"
        using go at r by (simp add: stop_def Let_def add.assoc)
      then show ?thesis using ih by (simp add: m RR)
    qed
  qed
qed simp

lemma SplitAfterN_SplitN:
  assumes "sep \<noteq> []" "n \<noteq> 0"
  shows "SplitAfterN s sep n = map (\<lambda>p. p @ sep) (butlast (SplitN s sep n)) @
    (if last (SplitN s sep n) = [] then [] else [last (SplitN s sep n)])"
proof -
  define R where "R = js_split s sep"
  have ne: "R \<noteq> []" by (simp add: R_def js_split_nonempty [OF assms(1)])
  define m where "m = (if n < 0 then length R - 1 else min (length R - 1) (nat (n - 1)))"
  obtain parts stop where l: "split_after_loop (Suc (length s)) s sep n 0 0 = (parts, stop)" by fastforce
  have "case split_after_loop (Suc (length s)) s sep n 0 0 of (parts, stop) \<Rightarrow> stop \<le> length s \<and>
      parts = map (\<lambda>p. p @ sep) (take m R) \<and> drop stop s = js_join (drop m R) sep"
    by (rule split_after_parts [OF assms(1)]) (simp_all add: R_def m_def)
  then have p: "stop \<le> length s" "parts = map (\<lambda>p. p @ sep) (take m R)" "drop stop s = js_join (drop m R) sep"
    unfolding l by simp_all
  have P: "SplitN s sep n = take m R @ [js_join (drop m R) sep]"
  proof (cases "n < 0 \<or> int (length R) \<le> n")
    case True
    then have m: "m = length R - 1" using ne by (cases R) (auto simp: m_def)
    obtain xs x where "R = xs @ [x]" using ne by (cases R rule: rev_cases) auto
    then have "take m R @ [js_join (drop m R) sep] = R" using m by simp
    moreover have "SplitN s sep n = R" if "n \<noteq> 1" using True that assms by (simp add: SplitN_def Let_def R_def)
    moreover have "R = [s]" if "n = 1"
    proof -
      have "length R = 1" using that True ne by (cases R) auto
      then obtain x where "R = [x]" by (cases R) auto
      then show ?thesis using join_split [OF assms(1), of s] by (simp add: R_def)
    qed
    ultimately show ?thesis using assms by (cases "n = 1") (simp_all add: SplitN_def)
  next
    case False
    then have m: "m = nat (n - 1)" using assms(2) by (auto simp: m_def)
    show ?thesis
    proof (cases "n = 1")
      case True
      then show ?thesis using m join_split [OF assms(1), of s] by (simp add: SplitN_def R_def)
    next
      case n: False
      then show ?thesis using False assms m by (simp add: SplitN_def Let_def R_def)
    qed
  qed
  have "stop < length s \<longleftrightarrow> js_join (drop m R) sep \<noteq> []" using p(1,3) by (metis drop_eq_Nil not_le)
  then show ?thesis using assms l p by (simp add: SplitAfterN_def P del: split_after_loop.simps)
qed

lemma concat_terminated: "ss \<noteq> [] \<Longrightarrow> concat (map (\<lambda>p. p @ sep) (butlast ss)) @ last ss = js_join ss sep"
proof (induction ss)
  case (Cons s ss)
  then show ?case by (cases ss) simp_all
qed simp

lemma SplitN_nonempty: "sep \<noteq> [] \<Longrightarrow> n \<noteq> 0 \<Longrightarrow> SplitN s sep n \<noteq> []"
  using js_split_nonempty [of sep s] by (auto simp: SplitN_def Let_def)

lemma SplitAfterN_concat: "sep \<noteq> [] \<Longrightarrow> n \<noteq> 0 \<Longrightarrow> concat (SplitAfterN s sep n) = s"
  using concat_terminated [OF SplitN_nonempty [of sep n s], of sep] SplitN_join [of sep n s] by (auto simp: SplitAfterN_SplitN)


lemma count_le_length: "sep \<noteq> [] \<Longrightarrow> Count s sep \<le> length s"
proof -
  assume a: "sep \<noteq> []"
  then have "length (js_split s sep) \<le> Suc (length s)"
  proof (induction s rule: split_induct)
    case (piece s i)
    have "length s = i + length sep + length (drop (i + length sep) s)"
      using js_indexOf_bound [OF piece(1)] by simp
    moreover have "0 < length sep" using a by simp
    moreover have "length (js_split s sep) = Suc (length (js_split (drop (i + length sep) s) sep))"
      using piece(2) by (metis length_Cons)
    ultimately show ?case using piece(4) by linarith
  qed simp
  with Count_split [OF a, of s] show ?thesis by simp
qed

subsection \<open>Replacing is right\<close>

text \<open>Joining with \<open>new\<close> at the first \<open>k\<close> places and with \<open>old\<close> at the others.\<close>

fun join_first :: "nat \<Rightarrow> jstr \<Rightarrow> jstr \<Rightarrow> jstr list \<Rightarrow> jstr" where
  "join_first k old new [] = []"
| "join_first k old new [s] = s"
| "join_first 0 old new (s # t # ss) = s @ old @ join_first 0 old new (t # ss)"
| "join_first (Suc k) old new (s # t # ss) = s @ new @ join_first k old new (t # ss)"

lemma join_first_Cons:
  "ss \<noteq> [] \<Longrightarrow> join_first 0 old new (s # ss) = s @ old @ join_first 0 old new ss"
  "ss \<noteq> [] \<Longrightarrow> join_first (Suc k) old new (s # ss) = s @ new @ join_first k old new ss"
  by (cases ss; simp)+

lemma join_first_0: "join_first 0 old new ss = js_join ss old"
  by (induction ss rule: induct_list012) simp_all

lemma join_first_all: "length ss \<le> Suc k \<Longrightarrow> join_first k old new ss = js_join ss new"
  by (induction k old new ss rule: join_first.induct) simp_all

lemma join_first_same: "join_first k old old ss = js_join ss old"
  by (induction k old old ss rule: join_first.induct) simp_all

lemma replace_loop_join:
  assumes "old \<noteq> []"
  shows "start \<le> length s \<Longrightarrow> length s - start < k \<Longrightarrow>
    (case replace_loop k s old new n start count of (result, stop) \<Rightarrow> result @ drop stop s) =
      join_first (if n < 0 then length s - start else nat n - count) old new (js_split (drop start s) old)"
proof (induction k arbitrary: start count)
  case (Suc k)
  define m where "m = (if n < 0 then length s - start else nat n - count)"
  show ?case
  proof (cases "js_indexOf (drop start s) old 0")
    case None
    then show ?thesis using indexOf_from [OF Suc.prems(1)] js_split_cases(1) [OF assms None] by simp
  next
    case (Some i)
    define stop where "stop = start + i + length old"
    from js_indexOf_bound [OF Some] have "i + length old \<le> length s - start" by simp
    with Suc.prems assms have b: "stop \<le> length s" "length s - stop < k" "start < stop"
      by (cases old; simp add: stop_def)+
    have sp: "js_split (drop start s) old = take i (drop start s) # js_split (drop stop s) old"
      using js_split_cases(2) [OF assms Some] by (simp add: stop_def ac_simps)
    note ne = js_split_nonempty [OF assms]
    obtain rest st where r: "replace_loop k s old new n stop (Suc count) = (rest, st)" by fastforce
    show ?thesis
    proof (cases "n < 0 \<or> int count < n")
      case True
      have l: "replace_loop (Suc k) s old new n start count = (take i (drop start s) @ new @ rest, st)"
        using True indexOf_from [OF Suc.prems(1), of old] Some r by (simp add: stop_def ac_simps)
      from Suc.IH [OF b(1,2), of "Suc count"] r
      have ih: "rest @ drop st s = join_first (if n < 0 then length s - stop else nat n - Suc count) old new (js_split (drop stop s) old)"
        by simp
      show ?thesis
      proof (cases "n < 0")
        case True
        have "length (js_split (drop stop s) old) \<le> Suc (length s - stop)"
          using count_le_length [OF assms, of "drop stop s"] Count_split [OF assms, of "drop stop s"] by simp
        moreover have "\<exists>q. length s - start = Suc q \<and> length s - stop \<le> q"
          using b by (intro exI [of _ "length s - start - 1"]) linarith
        then obtain q where q: "length s - start = Suc q" "length s - stop \<le> q" by blast
        ultimately have "join_first q old new (js_split (drop stop s) old) = rest @ drop st s"
          using ih True by (simp add: join_first_all)
        with True q l sp ne show ?thesis by (simp add: join_first_Cons)
      next
        case False
        with \<open>n < 0 \<or> int count < n\<close> have "nat n - count = Suc (nat n - Suc count)" by simp
        with False l sp ne ih show ?thesis by (simp add: join_first_Cons)
      qed
    next
      case False
      then have m: "\<not> n < 0" "nat n - count = 0" by linarith+
      from at_index [OF Some] have "js_join (js_split (drop start s) old) old = drop start s" using join_split [OF assms] by blast
      with False m show ?thesis by (simp add: join_first_0)
    qed
  qed
qed simp

text \<open>\<open>Replace\<close> with a non-empty \<open>old\<close> joins the parts of the string with \<open>new\<close> at the first
  \<open>n\<close> separators, all of them for a negative \<open>n\<close>, and with \<open>old\<close> at the rest; \<open>ReplaceAll\<close> is the
  same for all. An empty \<open>old\<close> puts \<open>new\<close> before every one of the first \<open>n\<close> characters and at
  the end when there is one more.\<close>

theorem replace_spec:
  "Replace s old new n =
     (if old = [] then
        (if n = 0 \<or> new = [] then s
         else let limit = (if n < 0 then length (chars s) + 1 else min (nat n) (length (chars s) + 1)) in
           new @ js_join (take (limit - 1) (chars s)) new @
             (if limit = 1 then [] else new) @ concat (drop (limit - 1) (chars s)))
      else join_first (if n < 0 then Count s old else nat n) old new (Split s old)) \<and>
   (if old = [] then True else ReplaceAll s old new = Replace s old new (-1))"
proof (cases "old = []")
  case True
  have "concat (map (\<lambda>r. r @ new) rs) = js_join rs new @ (if rs = [] then [] else new)" for rs
    by (induction rs rule: induct_list012) simp_all
  moreover have "take (l - 1) (chars s) = [] \<longleftrightarrow> l = 1" if "1 \<le> l" "l \<le> length (chars s) + 1" for l
    using that by (cases "chars s") auto
  ultimately show ?thesis using True
    by (auto simp: Replace_def Let_def min_def)
next
  case False
  have all: "join_first (length s) old new (js_split s old) = js_join (js_split s old) new"
    "join_first (Count s old) old new (js_split s old) = js_join (js_split s old) new"
    using count_le_length [OF False, of s] Count_split [OF False, of s] by (simp_all add: join_first_all)
  have "Replace s old new n = join_first (if n < 0 then Count s old else nat n) old new (js_split s old)" for n
  proof (cases "n = 0 \<or> old = new")
    case True
    then show ?thesis using join_split [OF False, of s] by (auto simp: Replace_def join_first_0 join_first_same)
  next
    case nz: False
    then have "Replace s old new n = join_first (if n < 0 then length s else nat n) old new (js_split s old)"
      using replace_loop_join [OF False, of 0 s "Suc (length s)" new n 0] False
      by (simp add: Replace_def split: prod.splits)
    with all show ?thesis by (cases "n < 0") simp_all
  qed
  with False all show ?thesis by (simp add: Split_def ReplaceAll_def)
qed

subsection \<open>Trimming and fields are right\<close>

text \<open>The maximal runs of code points outside a set.\<close>

function runs :: "('a \<Rightarrow> bool) \<Rightarrow> 'a list \<Rightarrow> 'a list list" where
  "runs f cs =
     (let ds = dropWhile f cs in
      if ds = [] then [] else takeWhile (\<lambda>c. \<not> f c) ds # runs f (dropWhile (\<lambda>c. \<not> f c) ds))"
  by pat_completeness auto
termination
proof (relation "measure (length \<circ> snd)")
  fix f :: "'a \<Rightarrow> bool" and cs ds
  assume r: "ds = dropWhile f cs" "ds \<noteq> []"
  then have "\<not> f (hd ds)" using hd_dropWhile [of f cs] by simp
  with r(2) have "length (dropWhile (\<lambda>c. \<not> f c) ds) < length ds"
    by (cases ds) (simp_all add: length_dropWhile_le le_imp_less_Suc)
  with r(1) length_dropWhile_le [of f cs]
  show "((f, dropWhile (\<lambda>c. \<not> f c) ds), (f, cs)) \<in> measure (length \<circ> snd)" by simp
qed simp

declare runs.simps [simp del]

lemma runs_skip: "f c \<Longrightarrow> runs f (c # cs) = runs f cs"
  by (simp add: runs.simps [of f "c # cs"] runs.simps [of f cs])

lemma runs_start:
  "\<not> f c \<Longrightarrow> runs f (c # cs) = (c # takeWhile (\<lambda>c. \<not> f c) cs) # runs f (dropWhile (\<lambda>c. \<not> f c) cs)"
  by (simp add: runs.simps [of f "c # cs"] Let_def)

lemma runs_Nil [simp]: "runs f [] = []"
  by (simp add: runs.simps)

lemma fields_loop_runs:
  "s = enc (pre @ cs) \<Longrightarrow> fields_loop f s None (length (enc pre)) cs = map enc (runs f cs)"
  "s = enc (pre @ cur @ cs) \<Longrightarrow>
    fields_loop f s (Some (length (enc pre))) (length (enc (pre @ cur))) cs =
      enc (cur @ takeWhile (\<lambda>c. \<not> f c) cs) # map enc (runs f (dropWhile (\<lambda>c. \<not> f c) cs))"
proof (induction cs arbitrary: pre cur)
  case (Cons c cs)
  have n: "length (enc p) + length (utf16_enc c) = length (enc (p @ [c]))" for p by simp
  {
    case 1
    have "s = enc ((pre @ [c]) @ cs)" "s = enc (pre @ [c] @ cs)" using 1 by simp_all
    from Cons.IH(1) [OF this(1)] Cons.IH(2) [OF this(2)] show ?case
      by (cases "f c") (simp_all add: Let_def runs_skip runs_start n del: enc_simps(2,3)) 
  next
    case 2
    have "s = enc ((pre @ cur @ [c]) @ cs)" "s = enc (pre @ (cur @ [c]) @ cs)" using 2 by simp_all
    from Cons.IH(1) [OF this(1)] Cons.IH(2) [OF this(2)] 2 show ?case
      by (cases "f c") (simp_all add: Let_def runs_skip add.assoc)
  }
qed simp_all

lemma takeWhile_rest: "take (length cs - length (takeWhile f (rev cs))) cs = rev (dropWhile f (rev cs))"
proof -
  have "rev cs = takeWhile f (rev cs) @ dropWhile f (rev cs)" by simp
  then have "cs = rev (dropWhile f (rev cs)) @ rev (takeWhile f (rev cs))" by (metis rev_append rev_rev_ident)
  then show ?thesis by (metis append_eq_conv_conj diff_add_inverse2 length_append length_rev)
qed

lemma TrimLeftFunc_points:
  assumes "units_ok s"
  shows "TrimLeftFunc s (Some f) = enc (dropWhile f (code_points s))"
    "code_points (TrimLeftFunc s (Some f)) = dropWhile f (code_points s)"
proof -
  have t: "TrimLeftFunc s (Some f) = drop (length (enc (takeWhile f (code_points s)))) s"
    by (simp add: TrimLeftFunc_def length_enc)
  have "code_points s = takeWhile f (code_points s) @ dropWhile f (code_points s)" by simp
  from code_points_drop [OF assms this] enc_code_points
  show "TrimLeftFunc s (Some f) = enc (dropWhile f (code_points s))"
    "code_points (TrimLeftFunc s (Some f)) = dropWhile f (code_points s)"
    unfolding t by metis+
qed

lemma TrimRightFunc_points: "TrimRightFunc s (Some f) = enc (rev (dropWhile f (rev (code_points s))))"
  by (simp add: TrimRightFunc_def concat_take_chars takeWhile_rest)

lemma runs_append_skip: "list_all f bs \<Longrightarrow> runs f (as @ bs) = runs f as"
proof (induction f as rule: runs.induct)
  case (1 f cs)
  define ds where "ds = dropWhile f cs"
  show ?case
  proof (cases "ds = []")
    case True
    then have "list_all f cs" by (simp add: ds_def list_all_iff)
    with "1.prems" have "dropWhile f (cs @ bs) = []" by (simp add: list_all_iff)
    with True show ?thesis by (simp add: runs.simps [of f "cs @ bs"] runs.simps [of f cs] ds_def)
  next
    case False
    have d: "dropWhile f (cs @ bs) = ds @ bs" using False unfolding ds_def dropWhile_append by auto
    have b: "takeWhile (\<lambda>c. \<not> f c) bs = []" "dropWhile (\<lambda>c. \<not> f c) bs = bs"
      using "1.prems" by (cases bs; simp)+
    have t: "takeWhile (\<lambda>c. \<not> f c) (ds @ bs) = takeWhile (\<lambda>c. \<not> f c) ds"
      by (metis append_Nil2 b(1) takeWhile_append takeWhile_eq_all_conv)
    have e: "dropWhile (\<lambda>c. \<not> f c) (ds @ bs) = dropWhile (\<lambda>c. \<not> f c) ds @ bs"
      using b(2) by (simp add: dropWhile_append)
    show ?thesis
      using 1(1) [OF ds_def False "1.prems"] False
      by (simp add: runs.simps [of f "cs @ bs"] runs.simps [of f cs] ds_def [symmetric] d t e)
  qed
qed

lemma split_spaces_runs: "filter (\<lambda>part. 0 < length part) (split_spaces s) = runs js_space s"
proof (induction s rule: split_spaces.induct)
  case (1 s)
  define w rest where "w = takeWhile (\<lambda>u. \<not> js_space u) s" and "rest = dropWhile (\<lambda>u. \<not> js_space u) s"
  have u: "split_spaces s = w # (if rest = [] then [] else split_spaces (dropWhile js_space rest))"
    by (simp add: split_spaces.simps [of s] w_def rest_def Let_def)
  have r: "runs js_space rest = runs js_space (dropWhile js_space rest)"
    by (simp add: runs.simps [of js_space rest] runs.simps [of js_space "dropWhile js_space rest"] Let_def)
  have "runs js_space s = (if w = [] then [] else [w]) @ runs js_space rest"
  proof (cases s)
    case (Cons c cs)
    then show ?thesis by (cases "js_space c") (simp_all add: w_def rest_def runs_skip runs_start)
  qed (simp add: w_def rest_def)
  with 1 [OF rest_def] u r show ?case by auto
qed

lemma runs_trim: "runs js_space (js_trim s) = runs js_space s"
proof -
  define ds where "ds = dropWhile js_space s"
  have "rev ds = takeWhile js_space (rev ds) @ dropWhile js_space (rev ds)" by simp
  then have "ds = js_trim s @ rev (takeWhile js_space (rev ds))"
    unfolding js_trim_def ds_def by (metis rev_append rev_rev_ident)
  moreover have "list_all js_space (rev (takeWhile js_space (rev ds)))"
    by (auto simp: list_all_iff dest: set_takeWhileD)
  ultimately have "runs js_space ds = runs js_space (js_trim s)" by (metis runs_append_skip)
  moreover have "runs js_space s = runs js_space ds"
    by (simp add: ds_def runs.simps [of js_space s] runs.simps [of js_space "dropWhile js_space s"] Let_def)
  ultimately show ?thesis by simp
qed

text \<open>Trimming with a set of code points removes the longest prefix and suffix of such code
  points, over code points and not code units; \<open>FieldsFunc\<close> returns the maximal runs of the
  others and \<open>Fields\<close> those of characters that are not white space; prefixes and suffixes are
  cut off exactly when they are there.\<close>

theorem trim_and_fields:
  "(if units_ok s then
      TrimLeftFunc s (Some f) = enc (dropWhile f (code_points s)) \<and>
      TrimRightFunc s (Some f) = enc (rev (dropWhile f (rev (code_points s)))) \<and>
      TrimFunc s (Some f) = enc (rev (dropWhile f (rev (dropWhile f (code_points s))))) \<and>
      FieldsFunc s (Some f) = map enc (runs f (code_points s))
    else True) \<and>
   Fields s = runs js_space s \<and>
   (case CutPrefix s p of (rest, ok) \<Rightarrow> rest = TrimPrefix s p \<and> ok = HasPrefix s p \<and> s = (if ok then p else []) @ rest) \<and>
   (case CutSuffix s p of (rest, ok) \<Rightarrow> rest = TrimSuffix s p \<and> ok = HasSuffix s p \<and> s = rest @ (if ok then p else []))"
proof -
  have "units_ok s \<Longrightarrow> TrimFunc s (Some f) = enc (rev (dropWhile f (rev (dropWhile f (code_points s)))))"
    by (simp add: TrimFunc_def TrimRightFunc_points TrimLeftFunc_points(2))
  moreover have "units_ok s \<Longrightarrow> FieldsFunc s (Some f) = map enc (runs f (code_points s))"
    using fields_loop_runs(1) [of s "[]" "code_points s" f] enc_code_points [of s] by (simp add: FieldsFunc_def)
  moreover have "Fields s = runs js_space s" by (simp only: Fields_def split_spaces_runs runs_trim)
  moreover have "case CutPrefix s p of (rest, ok) \<Rightarrow> rest = TrimPrefix s p \<and> ok = HasPrefix s p \<and> s = (if ok then p else []) @ rest"
    by (auto simp: CutPrefix_def TrimPrefix_def HasPrefix_def prefix_def)
  moreover have "case CutSuffix s p of (rest, ok) \<Rightarrow> rest = TrimSuffix s p \<and> ok = HasSuffix s p \<and> s = rest @ (if ok then p else [])"
    by (auto simp: CutSuffix_def TrimSuffix_def HasSuffix_def suffix_def)
  ultimately show ?thesis by (simp add: TrimLeftFunc_points TrimRightFunc_points)
qed

subsection \<open>Searching is right\<close>

lemma matches_prefix: "i + length needle \<le> length hay \<Longrightarrow> matches_at hay needle i \<longleftrightarrow> prefix needle (drop i hay)"
proof
  assume l: "i + length needle \<le> length hay"
  {
    assume "matches_at hay needle i"
    then have "take (length needle) (drop i hay) = needle"
      using l by (intro nth_equalityI) (auto simp: matches_at_def list_all_iff)
    then show "prefix needle (drop i hay)" by (metis take_is_prefix)
  next
    assume "prefix needle (drop i hay)"
    then obtain t where "drop i hay = needle @ t" by (auto simp: prefix_def)
    then have "hay ! (i + j) = needle ! j" if "j < length needle" for j
      using that l by (metis nth_append nth_drop add_leE)
    then show "matches_at hay needle i" by (simp add: matches_at_def list_all_iff)
  }
qed

text \<open>The places where the needle does not fit do not count.\<close>

lemma find_matches:
  assumes "needle \<noteq> []"
  shows "find (matches_at hay needle) [0..<Suc (length hay) - length needle] =
      find (\<lambda>i. prefix needle (drop i hay)) [0..<Suc (length hay)]"
    "find (matches_at hay needle) (rev [0..<Suc (length hay) - length needle]) =
      find (\<lambda>i. prefix needle (drop i hay)) (rev [0..<Suc (length hay)])"
proof -
  let ?m = "Suc (length hay) - length needle" and ?P = "\<lambda>i. prefix needle (drop i hay)"
  have out: "\<not> ?P i" if "?m \<le> i" "i \<le> length hay" for i
    using that assms prefix_length_le [of needle "drop i hay"] by (cases needle) auto
  have fits: "matches_at hay needle i = ?P i" if "i < ?m" for i using that by (intro matches_prefix) simp
  have ext: "find P (xs @ ys) = (case find P xs of None \<Rightarrow> find P ys | Some x \<Rightarrow> Some x)" for P :: "nat \<Rightarrow> bool" and xs ys
    by (induction xs) auto
  have u: "[0..<Suc (length hay)] = [0..<?m] @ [?m..<Suc (length hay)]"
    using upt_add_eq_append [of 0 ?m "Suc (length hay) - ?m"] by (simp del: upt_Suc)
  have n: "find ?P [?m..<Suc (length hay)] = None" "find ?P (rev [?m..<Suc (length hay)]) = None"
    using out by (auto simp: find_None_iff less_Suc_eq_le simp del: upt_Suc)
  have c: "find (matches_at hay needle) xs = find ?P xs" if "set xs \<subseteq> {..<?m}" for xs
    using that fits by (induction xs) auto
  show "find (matches_at hay needle) [0..<?m] = find ?P [0..<Suc (length hay)]"
    unfolding u ext n using c [of "[0..<?m]"] by (simp add: atLeast0LessThan split: option.splits)
  show "find (matches_at hay needle) (rev [0..<?m]) = find ?P (rev [0..<Suc (length hay)])"
    unfolding u rev_append ext n using c [of "rev [0..<?m]"] by (simp add: atLeast0LessThan)
qed

text \<open>\<open>Index\<close> and \<open>LastIndex\<close> give the first and the last byte position at which the bytes of
  the second string start, or -1; an empty string is found at the ends.\<close>

theorem index_spec:
  "(let hay = str_bytes s; needle = str_bytes substr; here = (\<lambda>i. prefix needle (drop i hay)) in
     Index s substr = (if substr = [] then 0 else found (find here [0..<Suc (length hay)])) \<and>
     LastIndex s substr = found (find here (rev [0..<Suc (length hay)])))"
proof -
  have "find (\<lambda>i. True) [0..<Suc n] = Some 0" for n by (simp add: find_upt_Some del: upt_Suc)
  then show ?thesis
    by (cases "str_bytes substr = []")
      (simp_all add: Let_def Index_def LastIndex_def indexBytes_def lastIndexBytes_def find_matches found_def del: upt_Suc,
       simp_all add: found_def)
qed

subsection \<open>Where the results are not those of Go\<close>

text \<open>Positions are counted in code units, the order is that of code units.\<close>

lemma positions_in_units:
  "IndexRune [0xE9, 0x61] 0x61 = Inr 1 \<and> length (text_encode [0xE9]) = 2 \<and>
   IndexAny [0xE9, 0x61] [0x61] = 1 \<and> LastIndexFunc [0xE9, 0x61] (Some (\<lambda>c. c = 0x61)) = 1"
  by (simp add: IndexRune_def fromCodePoint_def utf16_enc_def js_indexOf_def found_def text_encode_def surrogate_def
      utf8_enc_def IndexAny_def js_includes_def LastIndexFunc_def chars_def)

lemma compare_by_units:
  "Compare [0xFFFD] (utf16_enc 0x10000) = 1 \<and>
   text_encode [0xFFFD] = [0xEF, 0xBF, 0xBD] \<and> text_encode (utf16_enc 0x10000) = [0xF0, 0x90, 0x80, 0x80]"
  by (simp add: Compare_def utf16_enc_def text_encode_def surrogate_def utf8_enc_def)

lemma split_departures:
  "SplitN [97, 98, 99] [] 2 = [[97], [98]] \<and> SplitAfter [97, 44] [44] = [[97, 44]] \<and>
   ReplaceAll [97, 98] [] [45] = [97, 98] \<and> TrimSpace [0x85, 0x61, 0xFEFF] = [0x85, 0x61]"
  by (simp add: SplitN_def chars_def utf16_enc_def SplitAfter_def SplitAfterN_def js_indexOf_def ReplaceAll_def
      TrimSpace_def js_trim_def js_space_def)

end
