(* ===== verification/GsFinder.thy ===== *)
theory GsFinder
  imports GsStrings
begin

section \<open>The string finder of package strings (gs/strings/search.ts)\<close>

text \<open>
  A Boyer-Moore search over the bytes of Go strings. Pattern and text are runtime strings;
  \<open>len\<close> and \<open>indexString\<close> look at their bytes, \<open>sliceString\<close> makes a new string of some bytes,
  \<open>HasPrefix\<close> compares the strings themselves. Indices into the pattern are in range by the
  loop bounds, so the pattern is read with \<open>!\<close>; an index into the text is checked.
\<close>

record finder =
  pattern :: jstr
  badCharSkip :: "nat list"
  goodSuffixSkip :: "nat list"

definition slice_str :: "jstr \<Rightarrow> nat \<Rightarrow> nat \<Rightarrow> jstr" where
  "slice_str s lo hi = goStringFromBytes (take (hi - lo) (drop lo (str_bytes s)))"

fun common_length :: "nat list \<Rightarrow> nat list \<Rightarrow> nat" where
  "common_length (a # as) (b # bs) = (if a = b then Suc (common_length as bs) else 0)"
| "common_length as bs = 0"

definition longestCommonSuffix :: "jstr \<Rightarrow> jstr \<Rightarrow> nat" where
  "longestCommonSuffix a b = common_length (rev (str_bytes a)) (rev (str_bytes b))"

text \<open>The first pass over the good suffix table runs down from the last index: \<open>n\<close> entries are left.\<close>

fun prefix_pass :: "jstr \<Rightarrow> nat \<Rightarrow> nat \<Rightarrow> nat \<Rightarrow> nat list \<Rightarrow> nat list" where
  "prefix_pass p last_ix 0 lastPrefix g = g"
| "prefix_pass p last_ix (Suc i) lastPrefix g =
     (let lp = (if HasPrefix p (slice_str p (i + 1) (length (str_bytes p))) then i + 1 else lastPrefix) in
      prefix_pass p last_ix i lp (g[i := lp + last_ix - i]))"

definition suffix_step :: "jstr \<Rightarrow> nat \<Rightarrow> nat \<Rightarrow> nat list \<Rightarrow> nat list" where
  "suffix_step p last_ix i g =
     (let bs = str_bytes p; lenSuffix = longestCommonSuffix p (slice_str p 1 (i + 1)) in
      if bs ! (i - lenSuffix) \<noteq> bs ! (last_ix - lenSuffix) then g[last_ix - lenSuffix := lenSuffix + last_ix - i] else g)"

definition makeStringFinder :: "jstr \<Rightarrow> finder" where
  "makeStringFinder p =
     (let bs = str_bytes p; n = length bs; last_ix = n - 1;
          bad = fold (\<lambda>i t. t[bs ! i := last_ix - i]) [0..<last_ix] (replicate 256 n);
          good = prefix_pass p last_ix n last_ix (replicate n 0)
      in \<lparr>pattern = p, badCharSkip = bad, goodSuffixSkip = fold (suffix_step p last_ix) [0..<last_ix] good\<rparr>)"

text \<open>The inner loop compares backwards; \<open>m\<close> pattern bytes are left (the index \<open>j\<close> is \<open>m - 1\<close>).\<close>

fun match_back :: "jstr \<Rightarrow> jstr \<Rightarrow> int \<Rightarrow> nat \<Rightarrow> (int \<times> nat) res" where
  "match_back text p i 0 = Inr (i, 0)"
| "match_back text p i (Suc j) =
     bindR (indexString (OfString (JSString text)) i) (\<lambda>c.
       if c = str_bytes p ! j then match_back text p (i - 1) j else Inr (i, Suc j))"

partial_function (option) next_loop :: "finder \<Rightarrow> jstr \<Rightarrow> int \<Rightarrow> int res option" where
  "next_loop f text i =
     (if i < int (length (str_bytes text)) then
        (case match_back text (pattern f) i (length (str_bytes (pattern f))) of
           Inl e \<Rightarrow> Some (Inl e)
         | Inr (i1, m) \<Rightarrow>
             (if m = 0 then Some (Inr (i1 + 1))
              else case indexString (OfString (JSString text)) i1 of
                Inl e \<Rightarrow> Some (Inl e)
              | Inr c \<Rightarrow> next_loop f text (i1 + int (max (badCharSkip f ! c) (goodSuffixSkip f ! (m - 1))))))
      else Some (Inr (- 1)))"

definition next_match :: "finder \<Rightarrow> jstr \<Rightarrow> int res option" where
  "next_match f text = next_loop f text (int (length (str_bytes (pattern f))) - 1)"

subsection \<open>The search, given sound tables\<close>

text \<open>\<open>p\<close> and \<open>t\<close> are the bytes of the pattern and the text.\<close>

definition shift_consistent :: "nat list \<Rightarrow> nat \<Rightarrow> nat \<Rightarrow> bool" where
  "shift_consistent p j d \<longleftrightarrow>
     (\<forall>k. j < k \<and> k < length p \<and> d \<le> k \<longrightarrow> p ! (k - d) = p ! k) \<and> (d \<le> j \<longrightarrow> p ! (j - d) \<noteq> p ! j)"

definition tables_ok :: "nat list \<Rightarrow> nat list \<Rightarrow> nat list \<Rightarrow> bool" where
  "tables_ok p bad good \<longleftrightarrow>
     (\<forall>c<256. bad ! c \<le> length p \<and> (\<forall>i. i < length p - 1 \<and> p ! i = c \<longrightarrow> bad ! c \<le> length p - 1 - i)) \<and>
     (\<forall>j<length p. length p \<le> good ! j + j \<and> (\<forall>d. 0 < d \<and> shift_consistent p j d \<longrightarrow> good ! j + j < length p + d))"

lemma indexString_in:
  "0 \<le> i \<Longrightarrow> nat i < length (str_bytes t) \<Longrightarrow> indexString (OfString (JSString t)) i = Inr (str_bytes t ! nat i)"
  by (simp add: indexString_def byte_at_def str_bytes_def stringToBytes_def nat_less_iff)

lemma match_back_spec:
  "a + m \<le> length (str_bytes t) \<Longrightarrow>
    (case match_back t p (int (a + m) - 1) m of
       Inl e \<Rightarrow> False
     | Inr (i, 0) \<Rightarrow> i = int a - 1 \<and> (\<forall>k<m. str_bytes t ! (a + k) = str_bytes p ! k)
     | Inr (i, Suc j) \<Rightarrow> i = int (a + j) \<and> j < m \<and> str_bytes t ! (a + j) \<noteq> str_bytes p ! j \<and>
         (\<forall>k. j < k \<and> k < m \<longrightarrow> str_bytes t ! (a + k) = str_bytes p ! k))"
proof (induction m)
  case (Suc m)
  have i: "indexString (OfString (JSString t)) (int (a + Suc m) - 1) = Inr (str_bytes t ! (a + m))"
    using Suc.prems by (subst indexString_in) (simp_all add: nat_add_distrib)
  have s: "int (a + Suc m) - 1 - 1 = int (a + m) - 1" by simp
  show ?case
  proof (cases "str_bytes t ! (a + m) = str_bytes p ! m")
    case True
    have ih: "case match_back t p (int (a + m) - 1) m of
       Inl e \<Rightarrow> False
     | Inr (i, 0) \<Rightarrow> i = int a - 1 \<and> (\<forall>k<m. str_bytes t ! (a + k) = str_bytes p ! k)
     | Inr (i, Suc j) \<Rightarrow> i = int (a + j) \<and> j < m \<and> str_bytes t ! (a + j) \<noteq> str_bytes p ! j \<and>
         (\<forall>k. j < k \<and> k < m \<longrightarrow> str_bytes t ! (a + k) = str_bytes p ! k)"
      using Suc by simp
    have "match_back t p (int (a + Suc m) - 1) (Suc m) = match_back t p (int (a + m) - 1) m"
      using i True s by simp
    with ih True show ?thesis by (auto simp: less_Suc_eq split: sum.splits nat.splits)
  next
    case False
    then have "match_back t p (int (a + Suc m) - 1) (Suc m) = Inr (int (a + Suc m) - 1, Suc m)" using i by simp
    with False show ?thesis by simp
  qed
qed simp

text \<open>A shift of the pattern to a place before the next one the search looks at cannot match.\<close>

lemma no_match_skipped:
  fixes p t :: "nat list"
  assumes tables: "tables_ok p bad good" and c: "t ! (a + j) < 256" and j: "j < length p"
    and mismatch: "t ! (a + j) \<noteq> p ! j" and matched: "\<forall>k. j < k \<and> k < length p \<longrightarrow> t ! (a + k) = p ! k"
    and d: "0 < d" "d + length p \<le> j + max (bad ! (t ! (a + j))) (good ! j)"
  shows "\<exists>k<length p. t ! (a + d + k) \<noteq> p ! k"
proof (rule ccontr)
  assume "\<not> (\<exists>k<length p. t ! (a + d + k) \<noteq> p ! k)"
  then have occ: "t ! (a + d + k) = p ! k" if "k < length p" for k using that by blast
  have sc: "shift_consistent p j d"
    unfolding shift_consistent_def
  proof (intro conjI allI impI)
    fix k assume k: "j < k \<and> k < length p \<and> d \<le> k"
    then have "a + d + (k - d) = a + k" "k - d < length p" by (auto intro: less_imp_diff_less)
    with occ [of "k - d"] matched k show "p ! (k - d) = p ! k" by metis
  next
    assume "d \<le> j"
    with occ [of "j - d"] mismatch j show "p ! (j - d) \<noteq> p ! j" by simp
  qed
  with tables d(1) j have good: "good ! j + j < length p + d" by (simp add: tables_ok_def)
  have "bad ! (t ! (a + j)) + j < length p + d"
  proof (cases "d \<le> j")
    case True
    then have "p ! (j - d) = t ! (a + j)" "j - d < length p - 1" using occ [of "j - d"] j d(1) by simp_all
    with tables c have "bad ! (t ! (a + j)) \<le> length p - 1 - (j - d)" by (simp add: tables_ok_def)
    with True j d(1) show ?thesis by simp
  next
    case False
    from tables c have "bad ! (t ! (a + j)) \<le> length p" by (simp add: tables_ok_def)
    with False show ?thesis by simp
  qed
  with good d(2) show False by (simp add: max_def split: if_splits)
qed

lemma prefix_drop_nth:
  "prefix p (drop a t) \<longleftrightarrow> a + length p \<le> length t \<and> (\<forall>k<length p. t ! (a + k) = p ! k)"
  if "p \<noteq> []" for p t :: "nat list"
proof (cases "a + length p \<le> length t")
  case True
  then show ?thesis using matches_prefix [OF True] by (auto simp: matches_at_def list_all_iff)
next
  case False
  then show ?thesis using that prefix_length_le [of p "drop a t"] by (cases p) auto
qed

lemma next_loop_spec:
  assumes "tables_ok p (badCharSkip f) (goodSuffixSkip f)" "p = str_bytes (pattern f)" "p \<noteq> []"
    and "bytes_ok (str_bytes t)" "\<forall>b<a. \<not> prefix p (drop b (str_bytes t))"
  shows "next_loop f t (int (a + length p) - 1) =
    Some (Inr (found (find (\<lambda>i. prefix p (drop i (str_bytes t))) [0..<Suc (length (str_bytes t))])))"
  using assms(5)
proof (induction "length (str_bytes t) - a" arbitrary: a rule: less_induct)
  case less
  define T where "T = str_bytes t"
  show ?case
  proof (cases "a + length p \<le> length T")
    case fits: True
    then have lt: "int (a + length p) - 1 < int (length (str_bytes t))" using assms(3) by (simp add: T_def)
    note mb = match_back_spec [of a "length p" t "pattern f", folded assms(2) T_def, OF fits]
    show ?thesis
    proof (cases "match_back t (pattern f) (int (a + length p) - 1) (length p)")
      case (Inl e)
      with mb show ?thesis by simp
    next
      case (Inr r)
      obtain i m where r: "r = (i, m)" by fastforce
      show ?thesis
      proof (cases m)
        case 0
        with mb Inr r have i: "i = int a - 1" "\<forall>k<length p. T ! (a + k) = p ! k" by simp_all
        then have "prefix p (drop a T)" using fits prefix_drop_nth [OF assms(3)] by blast
        then have "find (\<lambda>i. prefix p (drop i T)) [0..<Suc (length T)] = Some a"
          unfolding find_upt_Some using less.prems fits by (auto simp: T_def)
        then show ?thesis using lt Inr r 0 i
          by (subst next_loop.simps) (simp add: assms(2) [symmetric] T_def [symmetric] found_def)
      next
        case (Suc j)
        with mb Inr r have m: "i = int (a + j)" "j < length p" "T ! (a + j) \<noteq> p ! j"
          "\<forall>k. j < k \<and> k < length p \<longrightarrow> T ! (a + k) = p ! k" by simp_all
        define c s where "c = T ! (a + j)" and "s = max (badCharSkip f ! c) (goodSuffixSkip f ! j)"
        have c: "c < 256" using assms(4) m(2) fits by (simp add: c_def T_def bytes_ok_def)
        have at: "indexString (OfString (JSString t)) i = Inr c"
          using m fits by (subst indexString_in) (simp_all add: T_def c_def nat_add_distrib)
        have "length p \<le> goodSuffixSkip f ! j + j" using assms(1) m(2) by (simp add: tables_ok_def)
        then have s: "length p \<le> s + j" by (simp add: s_def)
        define b where "b = a + j + s + 1 - length p"
        have b: "int (a + j) + int s = int (b + length p) - 1" "a < b" using s by (simp_all add: b_def)
        have step: "next_loop f t (int (a + length p) - 1) = next_loop f t (int (b + length p) - 1)"
          using lt Inr r Suc at m(1) b(1)
          by (subst next_loop.simps) (simp add: assms(2) [symmetric] s_def)
        have "\<not> prefix p (drop x T)" if x: "x < b" for x
        proof (cases "x \<le> a")
          case True
          then show ?thesis using less.prems m(2,3) prefix_drop_nth [OF assms(3)] by (cases "x = a") (auto simp: T_def)
        next
          case False
          then have "0 < x - a" "x - a + length p \<le> j + max (badCharSkip f ! (T ! (a + j))) (goodSuffixSkip f ! j)"
            using x s by (simp_all add: b_def s_def c_def)
          from no_match_skipped [OF assms(1) _ m(2,3,4) this] c False show ?thesis
            unfolding prefix_drop_nth [OF assms(3)] c_def by auto
        qed
        moreover have "length (str_bytes t) - b < length (str_bytes t) - a"
          using b(2) fits assms(3) by (cases p) (simp_all add: T_def)
        ultimately show ?thesis using less.hyps step by (simp add: T_def)
      qed
    qed
  next
    case False
    then have "\<not> prefix p (drop b T)" for b
      using less.prems prefix_drop_nth [OF assms(3)] by (cases "b < a") (auto simp: T_def)
    then have "find (\<lambda>i. prefix p (drop i T)) [0..<Suc (length T)] = None" by (simp add: find_upt_None del: upt_Suc)
    moreover have "\<not> int (a + length p) - 1 < int (length (str_bytes t))" using False by (simp add: T_def)
    ultimately show ?thesis by (subst next_loop.simps) (simp add: T_def found_def)
  qed
qed

subsection \<open>The tables are sound\<close>

text \<open>What the tables need of the strings made from the bytes of the pattern.\<close>

definition faithful_slices :: "jstr \<Rightarrow> bool" where
  "faithful_slices p \<longleftrightarrow>
     (\<forall>i < length (str_bytes p). str_bytes (slice_str p 1 (i + 1)) = take i (drop 1 (str_bytes p))) \<and>
     (\<forall>d. 0 < d \<and> prefix (drop d (str_bytes p)) (str_bytes p) \<longrightarrow> HasPrefix p (slice_str p d (length (str_bytes p))))"

lemma bad_table:
  assumes "m \<le> l" "l \<le> n" "\<forall>c\<in>set p. c < 256" "l \<le> length p"
  shows "length (fold (\<lambda>i t. t[p ! i := l - i]) [0..<m] (replicate 256 n)) = 256 \<and>
    (\<forall>c<256. fold (\<lambda>i t. t[p ! i := l - i]) [0..<m] (replicate 256 n) ! c \<le> n \<and>
      (\<forall>i<m. p ! i = c \<longrightarrow> fold (\<lambda>i t. t[p ! i := l - i]) [0..<m] (replicate 256 n) ! c \<le> l - i))"
  using assms(1)
proof (induction m)
  case (Suc m)
  define t where "t = fold (\<lambda>i t. t[p ! i := l - i]) [0..<m] (replicate 256 n)"
  have ih: "length t = 256" "\<And>c. c < 256 \<Longrightarrow> t ! c \<le> n" "\<And>c i. c < 256 \<Longrightarrow> i < m \<Longrightarrow> p ! i = c \<Longrightarrow> t ! c \<le> l - i"
    using Suc unfolding t_def by auto
  have f: "fold (\<lambda>i t. t[p ! i := l - i]) [0..<Suc m] (replicate 256 n) = t[p ! m := l - m]" by (simp add: t_def)
  have "p ! m < 256" using Suc.prems assms by (metis nth_mem less_le_trans Suc_le_lessD)
  then show ?case unfolding f using ih Suc.prems assms(2) by (auto simp: nth_list_update less_Suc_eq intro: diff_le_mono2)
qed auto

lemma prefix_pass_spec:
  assumes "m \<le> length g" "0 < m \<and> lp < m \<longrightarrow> HasPrefix p (slice_str p m (length (str_bytes p)))"
  shows "length (prefix_pass p l m lp g) = length g \<and> (\<forall>i\<ge>m. prefix_pass p l m lp g ! i = g ! i) \<and>
    (\<forall>i<m. \<exists>q. prefix_pass p l m lp g ! i = q + l - i \<and> i < q \<and> q \<le> max lp m \<and>
      (\<forall>d. i < d \<and> d \<le> m \<and> HasPrefix p (slice_str p d (length (str_bytes p))) \<longrightarrow> q \<le> d))"
  using assms
proof (induction m arbitrary: lp g)
  case (Suc m)
  define lp1 where "lp1 = (if HasPrefix p (slice_str p (m + 1) (length (str_bytes p))) then m + 1 else lp)"
  define g1 where "g1 = g[m := lp1 + l - m]"
  have e: "prefix_pass p l (Suc m) lp g = prefix_pass p l m lp1 g1" by (simp add: lp1_def g1_def Let_def)
  have lp: "m < lp1" "lp1 \<le> max lp (Suc m)" using Suc.prems(2) by (auto simp: lp1_def)
  have "m \<le> length g1" "0 < m \<and> lp1 < m \<longrightarrow> HasPrefix p (slice_str p m (length (str_bytes p)))"
    using Suc.prems(1) lp by (simp_all add: g1_def)
  note ih = Suc.IH [OF this]
  have m: "prefix_pass p l m lp1 g1 ! m = lp1 + l - m" using ih Suc.prems(1) by (simp add: g1_def)
  have "\<exists>q. prefix_pass p l m lp1 g1 ! i = q + l - i \<and> i < q \<and> q \<le> max lp (Suc m) \<and>
      (\<forall>d. i < d \<and> d \<le> Suc m \<and> HasPrefix p (slice_str p d (length (str_bytes p))) \<longrightarrow> q \<le> d)" if i: "i < Suc m" for i
  proof (cases "i = m")
    case True
    have "d = Suc m \<Longrightarrow> HasPrefix p (slice_str p d (length (str_bytes p))) \<Longrightarrow> lp1 \<le> d" for d by (simp add: lp1_def)
    with True m lp show ?thesis by (intro exI [of _ lp1]) (auto simp: le_Suc_eq)
  next
    case False
    with i ih obtain q where q: "prefix_pass p l m lp1 g1 ! i = q + l - i" "i < q" "q \<le> max lp1 m"
      "\<And>d. i < d \<Longrightarrow> d \<le> m \<Longrightarrow> HasPrefix p (slice_str p d (length (str_bytes p))) \<Longrightarrow> q \<le> d"
      by (metis less_antisym)
    have "q \<le> Suc m" if "HasPrefix p (slice_str p (Suc m) (length (str_bytes p)))"
      using that q(3) by (simp add: lp1_def)
    moreover have "q \<le> max lp (Suc m)" using q(3) lp by linarith
    ultimately show ?thesis using q by (intro exI [of _ q]) (auto simp: le_Suc_eq)
  qed
  then show ?case unfolding e using ih Suc.prems(1) by (auto simp: g1_def)
qed simp

lemma common_length_le: "common_length as bs \<le> length as \<and> common_length as bs \<le> length bs"
  by (induction as bs rule: common_length.induct) auto

lemma common_length_eq:
  "l \<le> length as \<Longrightarrow> l \<le> length bs \<Longrightarrow> (\<And>m. m < l \<Longrightarrow> as ! m = bs ! m) \<Longrightarrow>
    l = length bs \<or> l < length as \<and> as ! l \<noteq> bs ! l \<Longrightarrow> common_length as bs = l"
proof (induction as bs arbitrary: l rule: common_length.induct)
  case (1 a as b bs)
  show ?case
  proof (cases l)
    case 0
    then show ?thesis using "1.prems"(4) by simp
  next
    case (Suc k)
    have "a = b" using "1.prems"(3) [of 0] Suc by simp
    moreover have "as ! m = bs ! m" if "m < k" for m using "1.prems"(3) [of "Suc m"] Suc that by simp
    then have "common_length as bs = k" using "1.prems" Suc \<open>a = b\<close> by (intro "1.IH") auto
    ultimately show ?thesis using Suc by simp
  qed
qed auto

text \<open>The length \<open>lenSuffix\<close> that the second pass finds for \<open>i\<close>.\<close>

definition suffix_length :: "nat list \<Rightarrow> nat \<Rightarrow> nat" where
  "suffix_length p i = common_length (rev p) (rev (take i (drop 1 p)))"

lemma suffix_length_le: "suffix_length p i \<le> i"
  using common_length_le [of "rev p" "rev (take i (drop 1 p))"] by (simp add: suffix_length_def)

lemma suffix_step_eq:
  "faithful_slices s \<Longrightarrow> p = str_bytes s \<Longrightarrow> i < length p \<Longrightarrow>
    suffix_step s l i g =
      (if p ! (i - suffix_length p i) \<noteq> p ! (l - suffix_length p i)
       then g[l - suffix_length p i := suffix_length p i + l - i] else g)"
  by (simp add: suffix_step_def Let_def longestCommonSuffix_def suffix_length_def faithful_slices_def)

lemma suffix_pass_spec:
  assumes s: "faithful_slices s" "p = str_bytes s" "length p = Suc l"
    and g: "length g = Suc l" "\<forall>j<Suc l. \<exists>q. g ! j = q + l - j \<and> j < q"
    and m: "m \<le> l"
  shows "length (fold (suffix_step s l) [0..<m] g) = Suc l \<and>
    (\<forall>j<Suc l. Suc l \<le> fold (suffix_step s l) [0..<m] g ! j + j \<and> fold (suffix_step s l) [0..<m] g ! j \<le> g ! j \<and>
      (\<forall>i<m. suffix_length p i = l - j \<and> p ! (i - (l - j)) \<noteq> p ! j \<longrightarrow>
         fold (suffix_step s l) [0..<m] g ! j \<le> l - j + l - i))"
  using m
proof (induction m)
  case 0
  have "Suc l \<le> g ! j + j" if "j < Suc l" for j using g(2) that by fastforce
  with g(1) show ?case by simp
next
  case (Suc m)
  define h n where "h = fold (suffix_step s l) [0..<m] g" and "n = suffix_length p m"
  have ih: "length h = Suc l" "\<And>j. j < Suc l \<Longrightarrow> Suc l \<le> h ! j + j" "\<And>j. j < Suc l \<Longrightarrow> h ! j \<le> g ! j"
    "\<And>i j. j < Suc l \<Longrightarrow> i < m \<Longrightarrow> suffix_length p i = l - j \<Longrightarrow> p ! (i - (l - j)) \<noteq> p ! j \<Longrightarrow> h ! j \<le> l - j + l - i"
    using Suc unfolding h_def by auto
  have n: "n \<le> m" "n < l" using suffix_length_le [of p m] Suc.prems by (auto simp: n_def)
  have f: "fold (suffix_step s l) [0..<Suc m] g = (if p ! (m - n) \<noteq> p ! (l - n) then h[l - n := n + l - m] else h)"
    using suffix_step_eq [OF s(1,2), of m l h] Suc.prems s(3) by (simp add: h_def n_def)
  have new: "Suc l \<le> n + l - m + (l - n)" using n Suc.prems by simp
  obtain q where "g ! (l - n) = q + l - (l - n)" "l - n < q" using g(2) by (metis diff_le_self le_imp_less_Suc)
  with n have small: "n + l - m \<le> g ! (l - n)" by simp
  have at_m: "n = l - j \<Longrightarrow> j < Suc l \<Longrightarrow> l - n = j" for j by simp
  have older: "i < m \<Longrightarrow> n + l - m \<le> l - j + l - i" if "j = l - n" for i j using that n by simp
  show ?case
  proof (cases "p ! (m - n) = p ! (l - n)")
    case True
    then show ?thesis unfolding f using ih by (auto simp: less_Suc_eq n_def [symmetric] dest: at_m)
  next
    case False
    have "h[l - n := n + l - m] ! j \<le> l - j + l - i"
      if "j < Suc l" "i < Suc m" "suffix_length p i = l - j" "p ! (i - (l - j)) \<noteq> p ! j" for i j
    proof (cases "i = m")
      case True
      with that have "j = l - n" "n = l - j" by (auto simp: n_def)
      with True ih(1) show ?thesis by simp
    next
      case i: False
      with that have "i < m" by simp
      with that ih(1) ih(4) [OF that(1) this that(3,4)] older show ?thesis by (auto simp: nth_list_update)
    qed
    with False show ?thesis unfolding f using ih new small by (auto simp: nth_list_update)
  qed
qed

lemma finder_tables:
  assumes s: "faithful_slices s" "p = str_bytes s" "p \<noteq> []" and b: "bytes_ok p"
  shows "tables_ok p (badCharSkip (makeStringFinder s)) (goodSuffixSkip (makeStringFinder s))"
proof -
  define l where "l = length p - 1"
  have n: "length p = Suc l" using s(3) by (cases p) (simp_all add: l_def)
  define bad g good where "bad = fold (\<lambda>i t. t[p ! i := l - i]) [0..<l] (replicate 256 (length p))"
    and "g = prefix_pass s l (Suc l) l (replicate (Suc l) 0)" and "good = fold (suffix_step s l) [0..<l] g"
  have f: "badCharSkip (makeStringFinder s) = bad" "goodSuffixSkip (makeStringFinder s) = good"
    by (simp_all add: makeStringFinder_def Let_def s(2) [symmetric] n bad_def g_def good_def)
  have "\<forall>c<256. bad ! c \<le> length p \<and> (\<forall>i<l. p ! i = c \<longrightarrow> bad ! c \<le> l - i)"
    using bad_table [of l l "length p" p] b unfolding bad_def by (simp add: n bytes_ok_def)
  moreover have "Suc l \<le> good ! j + j \<and> (\<forall>d. 0 < d \<and> shift_consistent p j d \<longrightarrow> good ! j + j < Suc l + d)"
    if j: "j < Suc l" for j
  proof -
    have "HasPrefix s (slice_str s (Suc l) (length (str_bytes s)))"
      using s(1) n unfolding faithful_slices_def s(2) [symmetric] by simp
    from prefix_pass_spec [of "Suc l" "replicate (Suc l) 0" l s l] this
    have g: "length g = Suc l" "\<forall>j<Suc l. \<exists>q. g ! j = q + l - j \<and> j < q \<and> q \<le> Suc l \<and>
        (\<forall>d. j < d \<and> d \<le> Suc l \<and> HasPrefix s (slice_str s d (length (str_bytes s))) \<longrightarrow> q \<le> d)"
      unfolding g_def by simp_all
    then have "\<forall>j<Suc l. \<exists>q. g ! j = q + l - j \<and> j < q" by blast
    from suffix_pass_spec [OF s(1,2) n g(1) this order_refl] j
    have low: "Suc l \<le> good ! j + j" "good ! j \<le> g ! j"
      and repeat: "\<And>i. i < l \<Longrightarrow> suffix_length p i = l - j \<Longrightarrow> p ! (i - (l - j)) \<noteq> p ! j \<Longrightarrow> good ! j \<le> l - j + l - i"
      unfolding good_def by auto
    from g(2) j obtain q where q: "g ! j = q + l - j" "j < q" "q \<le> Suc l"
      "\<And>d. j < d \<Longrightarrow> d \<le> Suc l \<Longrightarrow> HasPrefix s (slice_str s d (length (str_bytes s))) \<Longrightarrow> q \<le> d" by blast
    have "good ! j + j < Suc l + d" if d: "0 < d" "shift_consistent p j d" for d
    proof (cases "j < d")
      case True
      have "q \<le> d"
      proof (cases "d \<le> Suc l")
        case le: True
        have "p ! i = p ! (d + i)" if "i < Suc l - d" for i
          using d(2) True that n unfolding shift_consistent_def by (auto dest!: spec [of _ "d + i"])
        then have "drop d p = take (Suc l - d) p" using n by (intro nth_equalityI) simp_all
        then have "prefix (drop d p) p" by (metis take_is_prefix)
        with s(1,2) d(1) have "HasPrefix s (slice_str s d (length (str_bytes s)))" by (simp add: faithful_slices_def)
        from q(4) [OF True le this] show ?thesis .
      qed (use q(3) in simp)
      with low(2) q(1,2) j show ?thesis by simp
    next
      case False
      define i where "i = l - d"
      have i: "i < l" "l - j \<le> i" "i - (l - j) = j - d" "i = l - d" "d \<le> l" using False d(1) j by (simp_all add: i_def)
      have sc: "p ! (k - d) = p ! k" if "j < k" "k < Suc l" for k
        using d(2) that False n by (simp add: shift_consistent_def)
      have mis: "p ! (j - d) \<noteq> p ! j" using d(2) False by (simp add: shift_consistent_def)
      have at: "rev (take i (drop 1 p)) ! m = p ! (i - m)" if "m < i" for m
      proof -
        have "i - Suc m < i" "Suc (i - Suc m) = i - m" using that by simp_all
        then show ?thesis using i(1) n by (simp add: rev_nth min_def)
      qed
      have atp: "rev p ! m = p ! (l - m)" if "m \<le> l" for m using that n by (simp add: rev_nth)
      have "suffix_length p i = l - j"
        unfolding suffix_length_def
      proof (rule common_length_eq)
        show "l - j \<le> length (rev p)" "l - j \<le> length (rev (take i (drop 1 p)))" using i n by simp_all
        show "rev p ! m = rev (take i (drop 1 p)) ! m" if "m < l - j" for m
          using that i at [of m] atp [of m] sc [of "l - m"] by (simp add: i_def add.commute)
        show "l - j = length (rev (take i (drop 1 p))) \<or>
            l - j < length (rev p) \<and> rev p ! (l - j) \<noteq> rev (take i (drop 1 p)) ! (l - j)"
        proof (cases "l - j = i")
          case False
          then have "rev (take i (drop 1 p)) ! (l - j) = p ! (j - d)" using i at [of "l - j"] by simp
          moreover have "rev p ! (l - j) = p ! j" using j atp [of "l - j"] by simp
          ultimately show ?thesis using mis n by (simp add: less_Suc_eq_le)
        qed (use i n in simp)
      qed
      with repeat [OF i(1)] mis i(3) have "good ! j \<le> l - j + l - i" by simp
      then show ?thesis using i j by simp
    qed
    with low show ?thesis by blast
  qed
  ultimately show ?thesis unfolding tables_ok_def f n by simp
qed

subsection \<open>Patterns of valid text\<close>

lemma utf8_enc_shape: "scalar c \<Longrightarrow> \<exists>b bs. utf8_enc c = b # bs \<and> (b < 0x80 \<or> 0xC0 \<le> b) \<and> (\<forall>x\<in>set bs. 0x80 \<le> x \<and> x < 0xC0)"
proof -
  have "0x80 + x mod 64 < 0xC0" for x :: nat using mod_less_divisor [of 64 x] by linarith
  then show ?thesis by (auto simp: utf8_enc_def)
qed

lemma utf8_boundary:
  "\<forall>c\<in>set cs. scalar c \<Longrightarrow> i < length (concat (map utf8_enc cs)) \<Longrightarrow>
    concat (map utf8_enc cs) ! i < 0x80 \<or> 0xC0 \<le> concat (map utf8_enc cs) ! i \<Longrightarrow>
    \<exists>as bs. cs = as @ bs \<and> i = length (concat (map utf8_enc as))"
proof (induction cs arbitrary: i)
  case (Cons c cs)
  show ?case
  proof (cases "i < length (utf8_enc c)")
    case True
    from utf8_enc_shape [of c] Cons.prems(1)
    obtain b bs where e: "utf8_enc c = b # bs" "\<forall>x\<in>set bs. 0x80 \<le> x \<and> x < 0xC0" by force
    have "i = 0"
    proof (rule ccontr)
      assume "i \<noteq> 0"
      with True e(1) have "concat (map utf8_enc (c # cs)) ! i = bs ! (i - 1)" "i - 1 < length bs"
        by (auto simp: nth_append nth_Cons')
      with e(2) Cons.prems(3) show False by (metis nth_mem not_le)
    qed
    then have "c # cs = [] @ (c # cs) \<and> i = length (concat (map utf8_enc []))" by simp
    then show ?thesis by blast
  next
    case False
    have "\<exists>as bs. cs = as @ bs \<and> i - length (utf8_enc c) = length (concat (map utf8_enc as))"
      using Cons.prems False by (intro Cons.IH) (auto simp: nth_append)
    then obtain as bs where "cs = as @ bs" "i - length (utf8_enc c) = length (concat (map utf8_enc as))" by blast
    with False have "c # cs = (c # as) @ bs \<and> i = length (concat (map utf8_enc (c # as)))" by simp
    then show ?thesis by blast
  qed
qed simp

lemma text_within:
  assumes cs: "\<forall>c\<in>set cs. scalar c" and ws: "\<forall>c\<in>set ws. scalar c" "ws \<noteq> []"
    and p: "prefix (concat (map utf8_enc ws)) (take k (drop i (concat (map utf8_enc cs))))"
  shows "\<exists>as bs. cs = as @ bs \<and> i = length (concat (map utf8_enc as)) \<and> prefix ws bs"
proof -
  let ?p = "concat (map utf8_enc cs)"
  obtain b bs where e: "utf8_enc (hd ws) = b # bs" "b < 0x80 \<or> 0xC0 \<le> b" using utf8_enc_shape ws by (metis list.set_sel(1))
  then obtain r where w: "concat (map utf8_enc ws) = b # r" using ws(2) by (cases ws) auto
  from p have "prefix (concat (map utf8_enc ws)) (drop i ?p)"
    by (metis append_take_drop_id prefix_order.trans prefix_def)
  note d = this
  then have "drop i ?p \<noteq> []" "drop i ?p ! 0 = b" unfolding w by (auto simp: prefix_def)
  then have "i < length ?p" "?p ! i = b" by (simp_all add: not_le) 
  with utf8_boundary [OF cs] e(2) obtain as zs where c: "cs = as @ zs" "i = length (concat (map utf8_enc as))" by blast
  then have "drop i ?p = concat (map utf8_enc zs)" by simp
  with d utf8_prefix [OF ws(1), of zs] cs c(1) have "prefix ws zs" by simp
  with c show ?thesis by blast
qed

lemma string_of_text:
  assumes "\<forall>c\<in>set cs. scalar c" "0xFEFF \<notin> set cs"
  shows "goStringFromBytes (concat (map utf8_enc cs)) = concat (map utf16_enc cs)"
proof -
  let ?b = "concat (map utf8_enc cs)"
  have v: "Valid ?b" using utf8_decode_enc [OF assms(1)] by (auto simp: valid_decode)
  have "\<not> prefix bom ?b"
  proof
    assume "prefix bom ?b"
    then have "prefix [0xFEFF] cs" using utf8_prefix [of "[0xFEFF]" cs] assms(1) by (simp add: bom_enc scalar_bom)
    with assms(2) show False by (auto simp: prefix_def)
  qed
  from goStringFromBytes_valid [OF v this] obtain ds where d: "\<forall>c\<in>set ds. scalar c" "?b = concat (map utf8_enc ds)"
    "goStringFromBytes ?b = concat (map utf16_enc ds)" by blast
  then have "prefix cs ds" "prefix ds cs" using utf8_prefix [OF assms(1) d(1)] utf8_prefix [OF d(1) assms(1)] by simp_all
  with d(3) show ?thesis using prefix_order.antisym by metis
qed

lemma utf8_enc_bytes: "c \<le> 0x10FFFF \<Longrightarrow> x \<in> set (utf8_enc c) \<Longrightarrow> x < 256"
proof -
  assume a: "c \<le> 0x10FFFF" "x \<in> set (utf8_enc c)"
  have m: "y mod 64 < 64" for y :: nat by simp
  show "x < 256" using a m [of c] m [of "c div 64"] m [of "c div 4096"] by (auto simp: utf8_enc_def split: if_splits)
qed

lemma encodes_bytes: "\<forall>c\<in>set cs. c \<le> 0x10FFFF \<Longrightarrow> bytes_ok (concat (map utf8_enc cs))"
  by (induction cs) (auto simp: bytes_ok_def intro: utf8_enc_bytes)

lemma units_bytes:
  assumes "units_ok s"
  shows "bytes_ok (str_bytes s)"
proof -
  have "\<forall>c\<in>set (code_points s). c \<le> 0x10FFFF" using assms
    by (induction s rule: code_points.induct) (auto simp: units_ok_def)
  then have "bytes_ok (text_encode s)"
    unfolding text_encode_def bytes_ok_def
    using utf8_enc_bytes [of "0xFFFD"] by simp (auto dest: utf8_enc_bytes)
  then show ?thesis by (auto simp: str_bytes_def stringToBytes_def goStringBytes_def bytes_ok_def binaryStringToBytes_def)
qed

definition plain_text :: "nat list \<Rightarrow> bool" where
  "plain_text cs \<longleftrightarrow> list_all (\<lambda>c. scalar c \<and> c \<noteq> 0xFEFF \<and> c \<noteq> 0xFDD0) cs"

lemma plain_text_faithful:
  assumes "plain_text cs"
  shows "str_bytes (enc cs) = concat (map utf8_enc cs)" "faithful_slices (enc cs)" "bytes_ok (concat (map utf8_enc cs))"
proof -
  have cs: "\<forall>c\<in>set cs. scalar c" "0xFEFF \<notin> set cs" "0xFDD0 \<notin> set cs"
    using assms by (auto simp: plain_text_def list_all_iff)
  let ?p = "concat (map utf8_enc cs)"
  have bp: "binary_prefix \<noteq> []" "0xFDD0 \<in> set binary_prefix" by (simp_all add: binary_prefix_def)
  have "\<not> prefix binary_prefix (enc cs)"
    using utf16_prefix [OF binary_prefix_plain cs(1)] bp(2) cs(3) set_mono_prefix
    by (auto simp: enc_def binary_prefix_text)
  then show b: "str_bytes (enc cs) = ?p"
    using text_encode_encs [OF cs(1)] by (simp add: str_bytes_def stringToBytes_def goStringBytes_def enc_def)
  show ok: "bytes_ok ?p" using cs(1) by (intro encodes_bytes) (auto simp: scalar_def)
  have "str_bytes (slice_str (enc cs) 1 (i + 1)) = take i (drop 1 ?p)" for i
  proof -
    let ?x = "take i (drop 1 ?p)"
    have "bytes_ok ?x" using ok by (auto simp: bytes_ok_def dest!: in_set_takeD in_set_dropD)
    moreover have "\<not> prefix bom ?x"
      using text_within [OF cs(1), of "[0xFEFF]" i 1] cs(2) by (auto simp: bom_enc scalar_bom prefix_def)
    moreover have "\<not> prefix encoded_prefix ?x"
    proof
      assume "prefix encoded_prefix ?x"
      then obtain as bs where "cs = as @ bs" "prefix binary_prefix bs"
        using text_within [OF cs(1), of binary_prefix i 1] binary_prefix_plain bp(1) by (auto simp: encoded_prefix_enc)
      with bp(2) cs(3) set_mono_prefix show False by fastforce
    qed
    ultimately have "goStringBytes (JSString (goStringFromBytes ?x)) = ?x" by (intro string_bytes_eq) (simp_all add: plain_bytes_def)
    then show ?thesis
      unfolding slice_str_def b by (simp add: str_bytes_def stringToBytes_def del: One_nat_def)
  qed
  moreover have "HasPrefix (enc cs) (slice_str (enc cs) d (length ?p))" if "prefix (drop d ?p) ?p" for d
  proof (cases "drop d ?p = []")
    case True
    have "goStringFromBytes [] = []" using string_of_text [of "[]"] by simp
    with True show ?thesis by (simp add: slice_str_def b HasPrefix_def)
  next
    case False
    then obtain c cs' where c: "cs = c # cs'" by (cases cs) auto
    obtain x xs where e: "utf8_enc c = x # xs" "x < 0x80 \<or> 0xC0 \<le> x" using utf8_enc_shape [of c] cs(1) c by auto
    from that obtain zs where "?p = drop d ?p @ zs" by (auto simp: prefix_def)
    from arg_cong [OF this, of "\<lambda>l. l ! 0"] have "drop d ?p ! 0 = ?p ! 0" using False by (simp add: nth_append)
    then have "?p ! d = x" using False e(1) c by simp
    then obtain as bs where s: "cs = as @ bs" "d = length (concat (map utf8_enc as))"
      using utf8_boundary [OF cs(1), of d] e(2) False by (auto simp: not_le)
    then have d: "drop d ?p = concat (map utf8_enc bs)" by simp
    have "prefix bs cs" using that utf8_prefix [of bs cs] cs(1) s(1) unfolding d by simp
    then have "prefix (enc bs) (enc cs)" by (auto simp: prefix_def)
    moreover have "slice_str (enc cs) d (length ?p) = enc bs"
      using string_of_text [of bs] cs s(1) unfolding slice_str_def b d by (simp add: enc_def s(2))
    ultimately show ?thesis by (simp add: HasPrefix_def)
  qed
  ultimately show "faithful_slices (enc cs)" unfolding faithful_slices_def b by blast
qed



text \<open>The table of good suffixes compares a prefix and a suffix of the pattern as strings. Of a pattern
  that is not valid UTF-8 the one is a binary string and the other is not: the two are never equal,
  the skip is too long and a match is missed.\<close>

lemma finder_misses_binary_match:
  defines "p \<equiv> goStringFromBytes [0x61, 0xFF, 0x61]" and "t \<equiv> goStringFromBytes [0x61, 0x61, 0x61, 0xFF, 0x61]"
  shows "next_match (makeStringFinder p) t = Some (Inr (- 1)) \<and> Index t p = 2"
proof -
  have b: "str_bytes p = [0x61, 0xFF, 0x61]" "str_bytes t = [0x61, 0x61, 0x61, 0xFF, 0x61]"
    unfolding p_def t_def str_bytes_def stringToBytes_def
    by (simp_all add: string_bytes_eq bytes_ok_def plain_bytes_def valid_decode utf8_next_def utf8_rest_steps)
  have d: "goStringFromBytes [] = []" "goStringFromBytes [0x61] = [0x61]" "str_bytes (goStringFromBytes [0xFF]) = [0xFF]"
    "str_bytes [] = []" "goStringFromBytes [0xFF, 0x61] = binary_prefix @ [0xFF, 0x61]" "p = binary_prefix @ [0x61, 0xFF, 0x61]"
    unfolding p_def str_bytes_def stringToBytes_def
    by (simp_all add: string_bytes_eq bytes_ok_def plain_bytes_def valid_decode goStringFromBytes_def text_decode_fatal_def strip_bom_def
        bom_def utf8_next_def utf8_rest_steps text_of_def utf16_enc_def goStringBytes_def binary_prefix_def text_encode_def
        bytesToBinaryString_id binaryStringToBytes_def)
  have bp: "binary_prefix = 0xFDD0 # tl binary_prefix" by (simp add: binary_prefix_def)
  have h: "HasPrefix p []" "\<not> HasPrefix p [0x61]" "\<not> HasPrefix p (binary_prefix @ [0xFF, 0x61])"
    unfolding d(6) HasPrefix_def by (simp_all, subst bp, simp)
  have f: "makeStringFinder p = \<lparr>pattern = p, badCharSkip = (replicate 256 3)[0x61 := 2, 0xFF := 1], goodSuffixSkip = [5, 4, 1]\<rparr>"
    by (simp add: d(1-5) h makeStringFinder_def Let_def b numeral_2_eq_2 numeral_3_eq_3 slice_str_def suffix_step_def longestCommonSuffix_def)
  have "next_loop (makeStringFinder p) t 5 = Some (Inr (- 1))"
    by (subst next_loop.simps) (simp add: b)
  then have "next_match (makeStringFinder p) t = Some (Inr (- 1))"
    unfolding next_match_def by (subst next_loop.simps) (simp add: b f indexString_in numeral_3_eq_3)
  moreover have "Index t p = 2"
  proof -
    have "p \<noteq> []" unfolding d(6) by simp
    then show ?thesis by (simp add: Index_def b indexBytes_def upt_rec matches_at_def found_def)
  qed
  ultimately show ?thesis by simp
qed

end
