(* ===== verification/GsTypeInfo.thy ===== *)
theory GsTypeInfo
  imports GsPrelude
begin

section \<open>Type descriptors (gs/builtin/type.ts): registry and identity\<close>

text \<open>
  Run-time descriptors of Go types. A descriptor is an object: \<open>oid\<close> is its identity, which
  \<open>===\<close> and the \<open>WeakMap\<close> of the comparison see. A type is given by name or by its descriptor
  (\<open>string | TypeInfo\<close>). An absent optional property is \<open>None\<close>. Zero values are kept apart, by the
  identity of the descriptor (theory GsTypeAssert).
\<close>

datatype type_kind = Basic | Interface | Struct | MapKind | Slice | Array | Pointer | Function | Channel

datatype direction = Send | Receive | Both

datatype type_info =
    TypeInfo (oid: nat) (info_name: "string option") (typeName: "string option") (shape: type_shape)
and type_shape =
    BasicInfo
  | InterfaceInfo "method_sig list"
  | StructInfo "method_sig list" "nat option" "struct_field list"
  | MapInfo "type_ref option" "type_ref option"
  | SliceInfo "type_ref option"
  | ArrayInfo "type_ref option" nat
  | PointerInfo "type_ref option"
  | FunctionInfo "type_ref list option" "type_ref list option" "bool option"
  | ChannelInfo "type_ref option" "direction option"
and type_ref = ByName string | Desc type_info
and method_sig = MethodSig (method_name: string) (method_args: "type_ref list") (method_returns: "type_ref list")
and struct_field =
    StructField (field_name: string) (field_type: type_ref) (field_tag: "string option") (field_pkgPath: "string option")
      (field_anonymous: "bool option") (field_key: "string option")

fun shape_kind :: "type_shape \<Rightarrow> type_kind" where
  "shape_kind BasicInfo = Basic"
| "shape_kind (InterfaceInfo ms) = Interface"
| "shape_kind (StructInfo ms c fs) = Struct"
| "shape_kind (MapInfo k e) = MapKind"
| "shape_kind (SliceInfo e) = Slice"
| "shape_kind (ArrayInfo e n) = Array"
| "shape_kind (PointerInfo e) = Pointer"
| "shape_kind (FunctionInfo ps rs v) = Function"
| "shape_kind (ChannelInfo e d) = Channel"

abbreviation kind :: "type_info \<Rightarrow> type_kind" where "kind t \<equiv> shape_kind (shape t)"

fun kind_name :: "type_kind \<Rightarrow> string" where
  "kind_name Basic = ''basic''"
| "kind_name Interface = ''interface''"
| "kind_name Struct = ''struct''"
| "kind_name MapKind = ''map''"
| "kind_name Slice = ''slice''"
| "kind_name Array = ''array''"
| "kind_name Pointer = ''pointer''"
| "kind_name Function = ''function''"
| "kind_name Channel = ''channel''"

subsection \<open>The registry\<close>

record type_registry =
  typeRegistry :: "string \<rightharpoonup> type_info"
  duplicateTypeRegistry :: "string \<rightharpoonup> type_info list"

text \<open>Identity of objects. \<open>normalizeTypeInfo\<close> makes a new descriptor for a name that is not
  registered; its identity is 0, which no other descriptor has, and no two new ones are the same.\<close>

definition same_object :: "type_info \<Rightarrow> type_info \<Rightarrow> bool" where
  "same_object a b \<longleftrightarrow> oid a = oid b \<and> oid a \<noteq> 0"

definition registerTypeInfo :: "string \<Rightarrow> type_info \<Rightarrow> type_registry \<Rightarrow> type_registry" where
  "registerTypeInfo name info r =
     (case typeRegistry r name of
        Some ex \<Rightarrow>
          (if \<not> same_object ex info then
             (let candidates = (case duplicateTypeRegistry r name of Some c \<Rightarrow> c | None \<Rightarrow> [ex]);
                  candidates1 = (if list_ex (same_object info) candidates then candidates else candidates @ [info])
              in r\<lparr>duplicateTypeRegistry := (duplicateTypeRegistry r)(name \<mapsto> candidates1)\<rparr>)
           else r)
      | None \<Rightarrow> r)\<lparr>typeRegistry := (typeRegistry r)(name \<mapsto> info)\<rparr>"

text \<open>The object literals: \<open>i\<close> is the identity of the new object.\<close>

definition registerStructType ::
  "nat \<Rightarrow> string \<Rightarrow> method_sig list \<Rightarrow> nat \<Rightarrow> struct_field list \<Rightarrow> type_registry \<Rightarrow> type_info \<times> type_registry" where
  "registerStructType i name methods ctor fs r =
     (let info = TypeInfo i (Some name) None (StructInfo methods (Some ctor) fs) in (info, registerTypeInfo name info r))"

definition registerInterfaceType ::
  "nat \<Rightarrow> string \<Rightarrow> method_sig list \<Rightarrow> type_registry \<Rightarrow> type_info \<times> type_registry" where
  "registerInterfaceType i name methods r =
     (let info = TypeInfo i (Some name) None (InterfaceInfo methods) in (info, registerTypeInfo name info r))"

definition getTypeByName :: "string \<Rightarrow> type_registry \<Rightarrow> type_info option" where
  "getTypeByName name r = typeRegistry r name"

definition error_method :: method_sig where
  "error_method = MethodSig ''Error'' [] [Desc (TypeInfo 1 (Some ''string'') None BasicInfo)]"

text \<open>The module registers the predeclared interface \<open>error\<close> when it is loaded.\<close>

definition initial_registry :: type_registry where
  "initial_registry = snd (registerInterfaceType 2 ''error'' [error_method]
     \<lparr>typeRegistry = Map.empty, duplicateTypeRegistry = Map.empty\<rparr>)"

fun normalizeTypeInfo :: "(string \<rightharpoonup> type_info) \<Rightarrow> type_ref \<Rightarrow> type_info" where
  "normalizeTypeInfo R (ByName s) = (case R s of Some t \<Rightarrow> t | None \<Rightarrow> TypeInfo 0 (Some s) None BasicInfo)"
| "normalizeTypeInfo R (Desc t) = t"

definition typeInfoRuntimeName :: "type_info \<Rightarrow> string option" where
  "typeInfoRuntimeName t =
     (case typeName t of None \<Rightarrow> info_name t | Some s \<Rightarrow> if s = [] then info_name t else Some s)"

subsection \<open>Identity of types\<close>

record comparison_state =
  seenPairs :: "string list"
  objectIDs :: "nat \<rightharpoonup> nat"
  nextObjectID :: nat

definition newTypeInfoComparisonState :: comparison_state where
  "newTypeInfoComparisonState = \<lparr>seenPairs = [], objectIDs = Map.empty, nextObjectID = 0\<rparr>"

definition typeInfoComparisonID :: "type_ref \<Rightarrow> type_info \<Rightarrow> comparison_state \<Rightarrow> string \<times> comparison_state" where
  "typeInfoComparisonID raw info st =
     (case typeInfoRuntimeName info of
        Some n \<Rightarrow> (kind_name (kind info) @ '':'' @ n, st)
      | None \<Rightarrow>
          (case raw of
             ByName s \<Rightarrow> (''string:'' @ s, st)
           | Desc t \<Rightarrow>
               (case objectIDs st (oid t) of
                  Some i \<Rightarrow> (''object:'' @ nat_string i, st)
                | None \<Rightarrow>
                    (let i = nextObjectID st in
                     (''object:'' @ nat_string i, st\<lparr>nextObjectID := i + 1, objectIDs := (objectIDs st)(oid t \<mapsto> i)\<rparr>)))))"

text \<open>A comparison reads and extends the state; \<open>None\<close> is a recursion deeper than the fuel. The
  comparison of two types inside another one is the argument \<open>same\<close> of the functions below.\<close>

type_synonym comparison = "comparison_state \<Rightarrow> (bool \<times> comparison_state) option"

definition and_then :: "comparison \<Rightarrow> comparison \<Rightarrow> comparison" where
  "and_then m k st = (case m st of None \<Rightarrow> None | Some (b, st1) \<Rightarrow> if b then k st1 else Some (False, st1))"

definition answer :: "bool \<Rightarrow> comparison" where "answer b st = Some (b, st)"

definition compareOptionalTypeInfo ::
  "(type_ref \<Rightarrow> type_ref \<Rightarrow> comparison) \<Rightarrow> type_ref option \<Rightarrow> type_ref option \<Rightarrow> comparison" where
  "compareOptionalTypeInfo same type1 type2 =
     (case (type1, type2) of
        (None, None) \<Rightarrow> answer True
      | (Some a, Some b) \<Rightarrow> same a b
      | _ \<Rightarrow> answer False)"

text \<open>The loops over two arrays of the same length.\<close>

fun each_pair :: "('a \<Rightarrow> 'a \<Rightarrow> comparison) \<Rightarrow> 'a list \<Rightarrow> 'a list \<Rightarrow> comparison" where
  "each_pair c (x # xs) (y # ys) = and_then (c x y) (each_pair c xs ys)"
| "each_pair c _ _ = answer True"

definition areFuncParamOrResultArraysIdentical ::
  "(type_ref \<Rightarrow> type_ref \<Rightarrow> comparison) \<Rightarrow> type_ref list option \<Rightarrow> type_ref list option \<Rightarrow> comparison" where
  "areFuncParamOrResultArraysIdentical same arr1 arr2 =
     (case (arr1, arr2) of
        (None, None) \<Rightarrow> answer True
      | (Some a, Some b) \<Rightarrow> if length a \<noteq> length b then answer False else each_pair same a b
      | _ \<Rightarrow> answer False)"

definition areFuncSignaturesIdentical ::
  "(type_ref \<Rightarrow> type_ref \<Rightarrow> comparison) \<Rightarrow> type_ref list option \<Rightarrow> type_ref list option \<Rightarrow> bool option \<Rightarrow>
    type_ref list option \<Rightarrow> type_ref list option \<Rightarrow> bool option \<Rightarrow> comparison" where
  "areFuncSignaturesIdentical same ps1 rs1 v1 ps2 rs2 v2 =
     (if (v1 = Some True) \<noteq> (v2 = Some True) then answer False
      else and_then (areFuncParamOrResultArraysIdentical same ps1 ps2) (areFuncParamOrResultArraysIdentical same rs1 rs2))"

definition or_empty :: "string option \<Rightarrow> string" where
  "or_empty s = (case s of None \<Rightarrow> [] | Some t \<Rightarrow> t)"

definition areStructTypeInfosIdentical ::
  "(type_ref \<Rightarrow> type_ref \<Rightarrow> comparison) \<Rightarrow> struct_field list \<Rightarrow> struct_field list \<Rightarrow> comparison" where
  "areStructTypeInfosIdentical same fs1 fs2 =
     (if length fs1 \<noteq> length fs2 then answer False
      else each_pair (\<lambda>f g.
        if field_name f \<noteq> field_name g \<or> or_empty (field_pkgPath f) \<noteq> or_empty (field_pkgPath g) \<or>
          or_empty (field_tag f) \<noteq> or_empty (field_tag g) \<or> (field_anonymous f = Some True) \<noteq> (field_anonymous g = Some True)
        then answer False else same (field_type f) (field_type g)) fs1 fs2)"

definition areMethodArgArraysIdentical ::
  "(type_ref \<Rightarrow> type_ref \<Rightarrow> comparison) \<Rightarrow> type_ref list \<Rightarrow> type_ref list \<Rightarrow> comparison" where
  "areMethodArgArraysIdentical same args1 args2 =
     (if length args1 \<noteq> length args2 then answer False else each_pair same args1 args2)"

text \<open>\<open>localeCompare\<close> orders names by their collation keys: \<open>collate\<close> is the key of a name in the
  locale of the engine. \<open>sort\<close> is stable.\<close>

definition sortedMethodSignatures :: "(string \<Rightarrow> 'k::linorder) \<Rightarrow> method_sig list \<Rightarrow> method_sig list" where
  "sortedMethodSignatures collate ms = sort_key (\<lambda>m. collate (method_name m)) ms"

definition areInterfaceTypeInfosIdentical ::
  "(string \<Rightarrow> 'k::linorder) \<Rightarrow> (type_ref \<Rightarrow> type_ref \<Rightarrow> comparison) \<Rightarrow> method_sig list \<Rightarrow> method_sig list \<Rightarrow> comparison" where
  "areInterfaceTypeInfosIdentical collate same ms1 ms2 =
     (let methods1 = sortedMethodSignatures collate ms1; methods2 = sortedMethodSignatures collate ms2 in
      if length methods1 \<noteq> length methods2 then answer False
      else each_pair (\<lambda>m n.
        if method_name m \<noteq> method_name n then answer False
        else and_then (areMethodArgArraysIdentical same (method_args m) (method_args n))
          (areMethodArgArraysIdentical same (method_returns m) (method_returns n))) methods1 methods2)"

definition or_both :: "direction option \<Rightarrow> direction" where
  "or_both d = (case d of None \<Rightarrow> Both | Some e \<Rightarrow> e)"

text \<open>The final \<open>switch\<close> on the kind, which both descriptors have.\<close>

definition shapes_identical ::
  "(string \<Rightarrow> 'k::linorder) \<Rightarrow> (type_ref \<Rightarrow> type_ref \<Rightarrow> comparison) \<Rightarrow> type_shape \<Rightarrow> type_shape \<Rightarrow> comparison" where
  "shapes_identical collate same s1 s2 =
     (case s1 of
        BasicInfo \<Rightarrow> (case s2 of BasicInfo \<Rightarrow> answer True | _ \<Rightarrow> answer False)
      | PointerInfo e \<Rightarrow> (case s2 of PointerInfo e' \<Rightarrow> compareOptionalTypeInfo same e e' | _ \<Rightarrow> answer False)
      | SliceInfo e \<Rightarrow> (case s2 of SliceInfo e' \<Rightarrow> compareOptionalTypeInfo same e e' | _ \<Rightarrow> answer False)
      | ArrayInfo e n \<Rightarrow>
          (case s2 of ArrayInfo e' n' \<Rightarrow> if n = n' then compareOptionalTypeInfo same e e' else answer False
            | _ \<Rightarrow> answer False)
      | MapInfo k e \<Rightarrow>
          (case s2 of MapInfo k' e' \<Rightarrow> and_then (compareOptionalTypeInfo same k k') (compareOptionalTypeInfo same e e')
            | _ \<Rightarrow> answer False)
      | ChannelInfo e d \<Rightarrow>
          (case s2 of ChannelInfo e' d' \<Rightarrow>
               if or_both d = or_both d' then compareOptionalTypeInfo same e e' else answer False
            | _ \<Rightarrow> answer False)
      | FunctionInfo ps rs v \<Rightarrow>
          (case s2 of FunctionInfo ps' rs' v' \<Rightarrow> areFuncSignaturesIdentical same ps rs v ps' rs' v' | _ \<Rightarrow> answer False)
      | StructInfo ms c fs \<Rightarrow>
          (case s2 of StructInfo ms' c' fs' \<Rightarrow> areStructTypeInfosIdentical same fs fs' | _ \<Rightarrow> answer False)
      | InterfaceInfo ms \<Rightarrow>
          (case s2 of InterfaceInfo ms' \<Rightarrow> areInterfaceTypeInfosIdentical collate same ms ms' | _ \<Rightarrow> answer False))"

definition nominal_kind :: "type_kind \<Rightarrow> bool" where
  "nominal_kind k \<longleftrightarrow> k = Basic \<or> k = Struct \<or> k = Interface"

primrec areTypeInfosIdenticalWithSeen ::
  "(string \<rightharpoonup> type_info) \<Rightarrow> (string \<Rightarrow> 'k::linorder) \<Rightarrow> nat \<Rightarrow> type_ref \<Rightarrow> type_ref \<Rightarrow> comparison" where
  "areTypeInfosIdenticalWithSeen R collate 0 = (\<lambda>t1 t2 st. None)"
| "areTypeInfosIdenticalWithSeen R collate (Suc fuel) = (\<lambda>t1 t2 st.
     let n1 = normalizeTypeInfo R t1; n2 = normalizeTypeInfo R t2 in
      if same_object n1 n2 then Some (True, st)
      else if kind n1 \<noteq> kind n2 then Some (False, st)
      else if or_empty (typeName n1) \<noteq> or_empty (typeName n2) then Some (False, st)
      else if info_name n1 \<noteq> info_name n2 then Some (False, st)
      else if info_name n1 \<noteq> None \<and> nominal_kind (kind n1) then Some (True, st)
      else
        (case typeInfoComparisonID t1 n1 st of (id1, st1) \<Rightarrow>
         case typeInfoComparisonID t2 n2 st1 of (id2, st2) \<Rightarrow>
           (let pairKey = id1 @ ''|'' @ id2 in
            if pairKey \<in> set (seenPairs st2) then Some (True, st2)
            else shapes_identical collate (areTypeInfosIdenticalWithSeen R collate fuel) (shape n1) (shape n2)
              (st2\<lparr>seenPairs := pairKey # seenPairs st2\<rparr>))))"

definition areTypeInfosIdentical ::
  "(string \<rightharpoonup> type_info) \<Rightarrow> (string \<Rightarrow> 'k::linorder) \<Rightarrow> type_ref \<Rightarrow> type_ref \<Rightarrow> bool option" where
  "areTypeInfosIdentical R collate t1 t2 =
     map_option fst (areTypeInfosIdenticalWithSeen R collate (Suc (size t1)) t1 t2 newTypeInfoComparisonState)"

subsection \<open>The type a descriptor stands for\<close>

text \<open>The canonical type forgets the identity of objects, resolves names, and sorts methods. Named
  basic, struct and interface types are nominal.\<close>

datatype go_type =
    Nominal type_kind string string
  | Structural string "string option" go_shape
and go_shape =
    GoBasic
  | GoPointer "go_type option"
  | GoSlice "go_type option"
  | GoArray nat "go_type option"
  | GoMap "go_type option" "go_type option"
  | GoChannel direction "go_type option"
  | GoFunction bool "go_type list option" "go_type list option"
  | GoStruct "(string \<times> string \<times> string \<times> bool \<times> go_type) list"
  | GoInterface "(string \<times> go_type list \<times> go_type list) list"

definition option_list :: "'a option \<Rightarrow> 'a list" where
  "option_list x = (case x of None \<Rightarrow> [] | Some y \<Rightarrow> [y])"

definition child_refs :: "type_shape \<Rightarrow> type_ref list" where
  "child_refs s =
     (case s of
        BasicInfo \<Rightarrow> []
      | InterfaceInfo ms \<Rightarrow> concat (map (\<lambda>m. method_args m @ method_returns m) ms)
      | StructInfo ms c fs \<Rightarrow> map field_type fs
      | MapInfo k e \<Rightarrow> option_list k @ option_list e
      | SliceInfo e \<Rightarrow> option_list e
      | ArrayInfo e n \<Rightarrow> option_list e
      | PointerInfo e \<Rightarrow> option_list e
      | FunctionInfo ps rs v \<Rightarrow> concat (option_list ps) @ concat (option_list rs)
      | ChannelInfo e d \<Rightarrow> option_list e)"

lemma set_option_list [simp]: "set (option_list x) = set_option x"
  by (cases x) (simp_all add: option_list_def)

definition go_shape_of ::
  "(string \<Rightarrow> 'k::linorder) \<Rightarrow> (type_ref \<Rightarrow> go_type) \<Rightarrow> type_shape \<Rightarrow> go_shape" where
  "go_shape_of collate c s =
     (case s of
        BasicInfo \<Rightarrow> GoBasic
      | InterfaceInfo ms \<Rightarrow>
          GoInterface (map (\<lambda>m. (method_name m, map c (method_args m), map c (method_returns m))) (sortedMethodSignatures collate ms))
      | StructInfo ms ctor fs \<Rightarrow>
          GoStruct (map (\<lambda>f. (field_name f, or_empty (field_pkgPath f), or_empty (field_tag f), field_anonymous f = Some True,
            c (field_type f))) fs)
      | MapInfo k e \<Rightarrow> GoMap (map_option c k) (map_option c e)
      | SliceInfo e \<Rightarrow> GoSlice (map_option c e)
      | ArrayInfo e n \<Rightarrow> GoArray n (map_option c e)
      | PointerInfo e \<Rightarrow> GoPointer (map_option c e)
      | FunctionInfo ps rs v \<Rightarrow> GoFunction (v = Some True) (map_option (map c) ps) (map_option (map c) rs)
      | ChannelInfo e d \<Rightarrow> GoChannel (or_both d) (map_option c e))"

lemma set_sorted_methods [simp]: "set (sortedMethodSignatures collate ms) = set ms"
  by (simp add: sortedMethodSignatures_def)

lemma go_shape_of_cong [fundef_cong]:
  assumes "collate = collate'" "s = s'" "\<And>x. x \<in> set (child_refs s') \<Longrightarrow> c x = c' x"
  shows "go_shape_of collate c s = go_shape_of collate' c' s'"
  using assms
  by (cases s') (auto simp: go_shape_of_def child_refs_def option_list_def intro!: map_option_cong split: option.splits)

lemma size_child: "x \<in> set (child_refs s) \<Longrightarrow> size x < size s"
proof -
  have o: "x \<in> set_option e \<Longrightarrow> size x \<le> size_option size e" for e :: "type_ref option" by (cases e) auto
  have l: "x \<in> set xs \<Longrightarrow> size x \<le> size_list size xs" for xs :: "type_ref list"
    using size_list_estimation' [of x xs "size x" size] by simp
  have ol: "xs \<in> set_option e \<Longrightarrow> x \<in> set xs \<Longrightarrow> size x \<le> size_option (size_list size) e" for xs and e :: "type_ref list option"
    using l [of xs] by (cases e) auto
  have m: "m \<in> set ms \<Longrightarrow> x \<in> set (method_args m) \<union> set (method_returns m) \<Longrightarrow> size x \<le> size_list size ms" for m ms
  proof -
    assume a: "m \<in> set ms" "x \<in> set (method_args m) \<union> set (method_returns m)"
    have "size x \<le> size m" using a(2) l [of "method_args m"] l [of "method_returns m"] by (cases m) auto
    with a(1) show ?thesis by (meson size_list_estimation')
  qed
  have f: "f \<in> set fs \<Longrightarrow> x = field_type f \<Longrightarrow> size x \<le> size_list size fs" for f fs
  proof -
    assume a: "f \<in> set fs" "x = field_type f"
    have "size x \<le> size f" using a(2) by (cases f) auto
    with a(1) show ?thesis by (meson size_list_estimation')
  qed
  assume "x \<in> set (child_refs s)"
  then show ?thesis
    by (cases s) (auto simp: child_refs_def less_Suc_eq_le dest!: o ol l m f)
qed

lemma size_shape: "size (shape t) < size t" by (cases t) simp

lemma size_child_ref [termination_simp]: "x \<in> set (child_refs (shape t)) \<Longrightarrow> size x < Suc (size t)"
  using size_child [of x "shape t"] size_shape [of t] by simp

fun go_type_of :: "(string \<rightharpoonup> type_info) \<Rightarrow> (string \<Rightarrow> 'k::linorder) \<Rightarrow> type_ref \<Rightarrow> go_type" where
  "go_type_of R collate (ByName s) =
     (let t = normalizeTypeInfo R (ByName s) in Nominal (kind t) (or_empty (typeName t)) (the (info_name t)))"
| "go_type_of R collate (Desc t) =
     (if info_name t \<noteq> None \<and> nominal_kind (kind t) then Nominal (kind t) (or_empty (typeName t)) (the (info_name t))
      else Structural (or_empty (typeName t)) (info_name t) (go_shape_of collate (go_type_of R collate) (shape t)))"

subsection \<open>Keys of pairs\<close>

lemma nat_string_inj: "nat_string m = nat_string n \<Longrightarrow> m = n"
proof -
  have v: "foldr (\<lambda>c a. (of_char c - 48) + 10 * a) (map (\<lambda>d. char_of (48 + d) :: char) (digits_rev n)) (0::nat) = n" for n
  proof (induction n rule: digits_rev.induct)
    case (1 n)
    have "(of_char (char_of (48 + n mod 10) :: char) :: nat) = 48 + n mod 10" by simp
    with 1 show ?case by (subst digits_rev.simps) auto
  qed
  assume "nat_string m = nat_string n"
  then have "map (\<lambda>d. char_of (48 + d) :: char) (digits_rev m) = map (\<lambda>d. char_of (48 + d)) (digits_rev n)"
    by (simp add: nat_string_def rev_map [symmetric])
  from arg_cong [OF this, of "\<lambda>cs. foldr (\<lambda>c a. (of_char c - 48) + 10 * a) cs (0::nat)"] show "m = n"
    unfolding v .
qed

lemma nat_string_digits: "c \<in> set (nat_string n) \<Longrightarrow> 48 \<le> (of_char c :: nat) \<and> (of_char c :: nat) < 58"
proof -
  have "d \<in> set (digits_rev n) \<Longrightarrow> d < 10" for d
    by (induction n rule: digits_rev.induct) (subst (asm) (2) digits_rev.simps, auto split: if_splits)
  then show "c \<in> set (nat_string n) \<Longrightarrow> ?thesis" by (fastforce simp: nat_string_def)
qed

lemma split_at_bar: "c \<notin> set u \<Longrightarrow> c \<notin> set v \<Longrightarrow> u @ c # x = v @ c # y \<Longrightarrow> u = v \<and> x = y"
  by (induction u arbitrary: v) (case_tac v; auto)+

definition comparison_id :: "(nat \<rightharpoonup> nat) \<Rightarrow> type_info \<Rightarrow> string option" where
  "comparison_id ids t =
     (case typeInfoRuntimeName t of
        Some n \<Rightarrow> Some (kind_name (kind t) @ '':'' @ n)
      | None \<Rightarrow> map_option (\<lambda>i. ''object:'' @ nat_string i) (ids (oid t)))"

definition same_names :: "type_info \<Rightarrow> type_info \<Rightarrow> bool" where
  "same_names a b \<longleftrightarrow> kind a = kind b \<and> typeInfoRuntimeName a = typeInfoRuntimeName b"

lemma kind_name_inj: "kind_name k @ '':'' @ n = kind_name k' @ '':'' @ n' \<Longrightarrow> k = k' \<and> n = n'"
  by (cases k; cases k'; simp)

lemma kind_name_not_object: "kind_name k @ x \<noteq> ''object:'' @ y"
  by (cases k) simp_all

lemma pair_key_inj:
  assumes "same_names p q" "same_names x y"
    and "comparison_id ids p = Some a" "comparison_id ids q = Some b"
    and "comparison_id ids x = Some a'" "comparison_id ids y = Some b'"
    and "a @ ''|'' @ b = a' @ ''|'' @ b'"
  shows "a = a' \<and> b = b'"
proof (cases "typeInfoRuntimeName p")
  case p: (Some n)
  then have q: "typeInfoRuntimeName q = Some n" "kind q = kind p" using assms(1) by (simp_all add: same_names_def)
  then have ab: "b = a" "a = kind_name (kind p) @ '':'' @ n" using assms(3,4) p by (simp_all add: comparison_id_def)
  show ?thesis
  proof (cases "typeInfoRuntimeName x")
    case (Some m)
    then have "typeInfoRuntimeName y = Some m" "kind y = kind x" using assms(2) by (simp_all add: same_names_def)
    with Some have "b' = a'" using assms(5,6) by (simp add: comparison_id_def)
    moreover from this have "length a = length a'" using assms(7) ab(1) by (auto dest: arg_cong [of _ _ length])
    ultimately show ?thesis using ab(1) assms(7) by simp
  next
    case None
    then obtain z where "a' = ''object:'' @ z" using assms(5) by (auto simp: comparison_id_def)
    with assms(7) ab(2) kind_name_not_object [of "kind p" "'':'' @ n @ ''|'' @ b" "z @ ''|'' @ b'"] show ?thesis by simp
  qed
next
  case p: None
  then obtain i j where ab: "a = ''object:'' @ nat_string i" "b = ''object:'' @ nat_string j"
    using assms(1,3,4) by (auto simp: same_names_def comparison_id_def)
  show ?thesis
  proof (cases "typeInfoRuntimeName x")
    case (Some m)
    then have "a' = kind_name (kind x) @ '':'' @ m" using assms(5) by (simp add: comparison_id_def)
    with assms(7) ab kind_name_not_object [of "kind x" "'':'' @ m @ ''|'' @ b'" "nat_string i @ ''|'' @ b"] show ?thesis by simp
  next
    case None
    then obtain i' j' where ab': "a' = ''object:'' @ nat_string i'" "b' = ''object:'' @ nat_string j'"
      using assms(2,5,6) by (auto simp: same_names_def comparison_id_def)
    have "CHR ''|'' \<notin> set (nat_string k)" for k using nat_string_digits [of "CHR ''|''" k] by auto
    with assms(7) split_at_bar [of "CHR ''|''" "nat_string i" "nat_string i'" b b'] show ?thesis unfolding ab ab' by simp
  qed
qed

subsection \<open>The comparison computes equality of the types\<close>

text \<open>A set of descriptors is coherent when an object has one content, and when the descriptors of
  one kind and one run-time name describe one type.\<close>

definition coherent :: "(string \<rightharpoonup> type_info) \<Rightarrow> (string \<Rightarrow> 'k::linorder) \<Rightarrow> type_info set \<Rightarrow> bool" where
  "coherent R collate U \<longleftrightarrow>
     (\<forall>a\<in>U. \<forall>b\<in>U. (oid a = oid b \<longrightarrow> a = b) \<and>
        (same_names a b \<and> typeInfoRuntimeName a \<noteq> None \<longrightarrow> go_type_of R collate (Desc a) = go_type_of R collate (Desc b)))"

definition closed_under_parts :: "type_info set \<Rightarrow> bool" where
  "closed_under_parts U \<longleftrightarrow> (\<forall>t\<in>U. \<forall>d. Desc d \<in> set (child_refs (shape t)) \<longrightarrow> d \<in> U)"

fun ref_in :: "type_info set \<Rightarrow> type_ref \<Rightarrow> bool" where
  "ref_in U (ByName s) = True"
| "ref_in U (Desc t) = (t \<in> U)"

text \<open>What the registration functions put in the registry: named struct and interface types.\<close>

definition registered_names :: "(string \<rightharpoonup> type_info) \<Rightarrow> bool" where
  "registered_names R \<longleftrightarrow> (\<forall>t\<in>ran R. info_name t \<noteq> None \<and> (kind t = Struct \<or> kind t = Interface))"

text \<open>A pair that was seen has equal types, or its comparison is in progress (\<open>Q\<close>).\<close>

definition seen_ok ::
  "(type_ref \<Rightarrow> go_type) \<Rightarrow> type_info set \<Rightarrow> (go_type \<Rightarrow> go_type \<Rightarrow> bool) \<Rightarrow> comparison_state \<Rightarrow> bool" where
  "seen_ok c U Q st \<longleftrightarrow>
     inj_on (objectIDs st) (dom (objectIDs st)) \<and> (\<forall>i\<in>ran (objectIDs st). i < nextObjectID st) \<and>
     (\<forall>k\<in>set (seenPairs st). \<exists>p\<in>U. \<exists>q\<in>U. same_names p q \<and>
        (\<exists>a b. comparison_id (objectIDs st) p = Some a \<and> comparison_id (objectIDs st) q = Some b \<and> k = a @ ''|'' @ b) \<and>
        (c (Desc p) = c (Desc q) \<or> Q (c (Desc p)) (c (Desc q))))"

definition computes :: "(comparison_state \<Rightarrow> bool) \<Rightarrow> comparison \<Rightarrow> bool \<Rightarrow> bool" where
  "computes I m b \<longleftrightarrow> (\<forall>st. I st \<longrightarrow> (\<exists>st1. m st = Some (b, st1) \<and> (b \<longrightarrow> I st1)))"

named_theorems computing \<open>what comparisons compute\<close>

lemma computes_answer [computing]: "computes I (answer b) b"
  by (simp add: computes_def answer_def)

lemma computes_and_then [computing]: "computes I m a \<Longrightarrow> computes I k b \<Longrightarrow> computes I (and_then m k) (a \<and> b)"
  by (cases a) (fastforce simp: computes_def and_then_def)+

lemma computes_each_pair:
  "\<forall>x\<in>set xs. \<forall>y\<in>set ys. computes I (c x y) (f x = f y) \<Longrightarrow> length xs = length ys \<Longrightarrow>
    computes I (each_pair c xs ys) (map f xs = map f ys)"
proof (induction xs arbitrary: ys)
  case (Cons x xs)
  then obtain y zs where y: "ys = y # zs" by (cases ys) auto
  with Cons have "computes I (c x y) (f x = f y)" "computes I (each_pair c xs zs) (map f xs = map f zs)" by simp_all
  from computes_and_then [OF this] show ?case by (simp add: y)
qed (simp add: computes_answer)

lemma computes_lists:
  assumes "\<forall>x\<in>set xs. \<forall>y\<in>set ys. computes I (c x y) (f x = f y)"
  shows "computes I (if length xs \<noteq> length ys then answer False else each_pair c xs ys) (map f xs = map f ys)"
proof (cases "length xs = length ys")
  case False
  then have "map f xs \<noteq> map f ys" by (metis length_map)
  with False show ?thesis by (simp add: computes_answer)
qed (use assms in \<open>simp add: computes_each_pair\<close>)

lemma computes_optional:
  "\<forall>x\<in>set_option a. \<forall>y\<in>set_option b. computes I (same x y) (c x = c y) \<Longrightarrow>
    computes I (compareOptionalTypeInfo same a b) (map_option c a = map_option c b)"
  by (cases a; cases b) (auto simp: compareOptionalTypeInfo_def computes_def answer_def)

lemma computes_arrays:
  "\<forall>x\<in>\<Union>(set ` set_option a). \<forall>y\<in>\<Union>(set ` set_option b). computes I (same x y) (c x = c y) \<Longrightarrow>
    computes I (areFuncParamOrResultArraysIdentical same a b) (map_option (map c) a = map_option (map c) b)"
proof (cases "a = None \<or> b = None")
  case False
  assume c: "\<forall>x\<in>\<Union>(set ` set_option a). \<forall>y\<in>\<Union>(set ` set_option b). computes I (same x y) (c x = c y)"
  from False obtain xs ys where ab: "a = Some xs" "b = Some ys" by auto
  with c have "computes I (if length xs \<noteq> length ys then answer False else each_pair same xs ys) (map c xs = map c ys)"
    by (intro computes_lists) simp
  then show ?thesis unfolding ab areFuncParamOrResultArraysIdentical_def by (simp only: prod.case option.case option.map option.inject)
qed (auto simp: areFuncParamOrResultArraysIdentical_def computes_answer split: option.splits)

lemma computes_methods:
  assumes "\<forall>x\<in>set (method_args m @ method_returns m). \<forall>y\<in>set (method_args n @ method_returns n).
    computes I (same x y) (c x = c y)"
  shows "computes I
    (if method_name m \<noteq> method_name n then answer False
     else and_then (areMethodArgArraysIdentical same (method_args m) (method_args n))
       (areMethodArgArraysIdentical same (method_returns m) (method_returns n)))
    ((method_name m, map c (method_args m), map c (method_returns m)) =
     (method_name n, map c (method_args n), map c (method_returns n)))"
proof -
  have "computes I (areMethodArgArraysIdentical same xs ys) (map c xs = map c ys)"
    if "\<forall>x\<in>set xs. \<forall>y\<in>set ys. computes I (same x y) (c x = c y)" for xs ys
    unfolding areMethodArgArraysIdentical_def using that by (rule computes_lists)
  from computes_and_then [OF this this] assms show ?thesis by (auto simp: computes_answer)
qed

lemma computes_fields:
  assumes "computes I (same (field_type f) (field_type g)) (c (field_type f) = c (field_type g))"
  shows "computes I
    (if field_name f \<noteq> field_name g \<or> or_empty (field_pkgPath f) \<noteq> or_empty (field_pkgPath g) \<or>
        or_empty (field_tag f) \<noteq> or_empty (field_tag g) \<or> (field_anonymous f = Some True) \<noteq> (field_anonymous g = Some True)
     then answer False else same (field_type f) (field_type g))
    ((field_name f, or_empty (field_pkgPath f), or_empty (field_tag f), field_anonymous f = Some True, c (field_type f)) =
     (field_name g, or_empty (field_pkgPath g), or_empty (field_tag g), field_anonymous g = Some True, c (field_type g)))"
  using assms by (auto simp: computes_answer)

lemma computes_shapes:
  assumes "\<forall>x\<in>set (child_refs s1). \<forall>y\<in>set (child_refs s2). computes I (same x y) (c x = c y)"
    and "shape_kind s1 = shape_kind s2"
  shows "computes I (shapes_identical collate same s1 s2) (go_shape_of collate c s1 = go_shape_of collate c s2)"
proof (cases s1)
  case (InterfaceInfo ms)
  with assms(2) obtain ms' where s2: "s2 = InterfaceInfo ms'" by (cases s2) auto
  let ?f = "\<lambda>m. (method_name m, map c (method_args m), map c (method_returns m))"
  have "\<forall>x\<in>set (sortedMethodSignatures collate ms). \<forall>y\<in>set (sortedMethodSignatures collate ms'). computes I
      ((\<lambda>m n. if method_name m \<noteq> method_name n then answer False
        else and_then (areMethodArgArraysIdentical same (method_args m) (method_args n))
          (areMethodArgArraysIdentical same (method_returns m) (method_returns n))) x y) (?f x = ?f y)"
    using assms(1) unfolding InterfaceInfo s2
    by (intro ballI computes_methods [of _ _ I same c]) (auto simp: child_refs_def)
  from computes_lists [OF this] show ?thesis
    by (simp add: InterfaceInfo s2 shapes_identical_def areInterfaceTypeInfosIdentical_def Let_def go_shape_of_def)
next
  case (StructInfo ms k fs)
  with assms(2) obtain ms' k' fs' where s2: "s2 = StructInfo ms' k' fs'" by (cases s2) auto
  let ?f = "\<lambda>f. (field_name f, or_empty (field_pkgPath f), or_empty (field_tag f), field_anonymous f = Some True, c (field_type f))"
  have "\<forall>x\<in>set fs. \<forall>y\<in>set fs'. computes I
      ((\<lambda>f g. if field_name f \<noteq> field_name g \<or> or_empty (field_pkgPath f) \<noteq> or_empty (field_pkgPath g) \<or>
          or_empty (field_tag f) \<noteq> or_empty (field_tag g) \<or> (field_anonymous f = Some True) \<noteq> (field_anonymous g = Some True)
        then answer False else same (field_type f) (field_type g)) x y) (?f x = ?f y)"
    using assms(1) unfolding StructInfo s2
    by (intro ballI computes_fields) (auto simp: child_refs_def)
  from computes_lists [OF this] show ?thesis
    by (simp add: StructInfo s2 shapes_identical_def areStructTypeInfosIdentical_def go_shape_of_def)
next
  case (FunctionInfo ps rs v)
  with assms(2) obtain ps' rs' v' where s2: "s2 = FunctionInfo ps' rs' v'" by (cases s2) auto
  have "computes I (areFuncParamOrResultArraysIdentical same ps ps') (map_option (map c) ps = map_option (map c) ps')"
    "computes I (areFuncParamOrResultArraysIdentical same rs rs') (map_option (map c) rs = map_option (map c) rs')"
    using assms(1) by (auto intro!: computes_arrays simp: FunctionInfo s2 child_refs_def option_list_def split: option.splits)
  from computes_and_then [OF this] show ?thesis
    by (auto simp: FunctionInfo s2 shapes_identical_def areFuncSignaturesIdentical_def go_shape_of_def computes_answer)
next
  case (MapInfo k e)
  with assms(2) obtain k' e' where s2: "s2 = MapInfo k' e'" by (cases s2) auto
  have "computes I (compareOptionalTypeInfo same k k') (map_option c k = map_option c k')"
    "computes I (compareOptionalTypeInfo same e e') (map_option c e = map_option c e')"
    using assms(1) by (auto intro!: computes_optional simp: MapInfo s2 child_refs_def)
  from computes_and_then [OF this] show ?thesis by (simp add: MapInfo s2 shapes_identical_def go_shape_of_def)
qed (use assms in \<open>cases s2; auto simp: shapes_identical_def go_shape_of_def child_refs_def computes_answer
      intro!: computes_optional\<close>)+

lemma comparison_id_state:
  assumes "typeInfoComparisonID (Desc t) t st = (k, st1)" "seen_ok c U Q st"
  shows "comparison_id (objectIDs st1) t = Some k" "seen_ok c U Q st1" "objectIDs st \<subseteq>\<^sub>m objectIDs st1"
    "seenPairs st1 = seenPairs st"
proof -
  have mono: "comparison_id ids p = Some a \<Longrightarrow> ids \<subseteq>\<^sub>m ids1 \<Longrightarrow> comparison_id ids1 p = Some a" for ids ids1 p a
    by (auto simp: comparison_id_def map_le_def dom_def split: option.splits)
  have *: "comparison_id (objectIDs st1) t = Some k \<and> objectIDs st \<subseteq>\<^sub>m objectIDs st1 \<and> seenPairs st1 = seenPairs st \<and>
      inj_on (objectIDs st1) (dom (objectIDs st1)) \<and> (\<forall>i\<in>ran (objectIDs st1). i < nextObjectID st1)"
  proof (cases "typeInfoRuntimeName t \<noteq> None \<or> objectIDs st (oid t) \<noteq> None")
    case True
    then show ?thesis using assms by (auto simp: typeInfoComparisonID_def comparison_id_def seen_ok_def split: option.splits)
  next
    case False
    let ?i = "nextObjectID st"
    have st1: "st1 = st\<lparr>nextObjectID := ?i + 1, objectIDs := (objectIDs st)(oid t \<mapsto> ?i)\<rparr>" "k = ''object:'' @ nat_string ?i"
      using False assms(1) by (auto simp: typeInfoComparisonID_def Let_def)
    have "?i \<notin> ran (objectIDs st)" using assms(2) by (auto simp: seen_ok_def)
    then have "inj_on ((objectIDs st)(oid t \<mapsto> ?i)) (dom ((objectIDs st)(oid t \<mapsto> ?i)))"
      using assms(2) False by (auto simp: seen_ok_def inj_on_def dom_def ran_def)
    moreover have "\<forall>i\<in>ran ((objectIDs st)(oid t \<mapsto> ?i)). i < ?i + 1"
      using assms(2) False by (auto simp: seen_ok_def less_Suc_eq)
    ultimately show ?thesis using False by (auto simp: st1 comparison_id_def map_le_def)
  qed
  have "\<exists>p\<in>U. \<exists>q\<in>U. same_names p q \<and>
      (\<exists>a b. comparison_id (objectIDs st1) p = Some a \<and> comparison_id (objectIDs st1) q = Some b \<and> key = a @ ''|'' @ b) \<and>
      (c (Desc p) = c (Desc q) \<or> Q (c (Desc p)) (c (Desc q)))" if "key \<in> set (seenPairs st1)" for key
  proof -
    from that * have "key \<in> set (seenPairs st)" by simp
    with assms(2) obtain p q a b where pq: "p \<in> U" "q \<in> U" "same_names p q" "comparison_id (objectIDs st) p = Some a"
        "comparison_id (objectIDs st) q = Some b" "key = a @ ''|'' @ b" "c (Desc p) = c (Desc q) \<or> Q (c (Desc p)) (c (Desc q))"
      unfolding seen_ok_def by blast
    from pq(4,5) * mono have "comparison_id (objectIDs st1) p = Some a" "comparison_id (objectIDs st1) q = Some b" by blast+
    with pq show ?thesis by blast
  qed
  with * show "seen_ok c U Q st1" unfolding seen_ok_def by blast
  from * show "comparison_id (objectIDs st1) t = Some k" "objectIDs st \<subseteq>\<^sub>m objectIDs st1" "seenPairs st1 = seenPairs st" by simp_all
qed

lemma size_go_child:
  assumes "info_name t = None \<or> \<not> nominal_kind (kind t)" "x \<in> set (child_refs (shape t))"
  shows "size (go_type_of R collate x) < size (go_type_of R collate (Desc t))"
proof -
  let ?c = "go_type_of R collate"
  have o: "x \<in> set_option e \<Longrightarrow> size (?c x) \<le> size_option size (map_option ?c e)" for e by (cases e) auto
  have l: "x \<in> set xs \<Longrightarrow> size (?c x) \<le> size_list size (map ?c xs)" for xs
    by (simp add: size_list_estimation')
  have ol: "xs \<in> set_option e \<Longrightarrow> x \<in> set xs \<Longrightarrow> size (?c x) \<le> size_option (size_list size) (map_option (map ?c) e)" for xs e
    using l [of xs] by (cases e) auto
  have "size (?c x) \<le> size (go_shape_of collate ?c (shape t))"
  proof (cases "shape t")
    case (InterfaceInfo ms)
    with assms(2) obtain m where m: "m \<in> set ms" "x \<in> set (method_args m) \<union> set (method_returns m)"
      by (auto simp: child_refs_def)
    let ?f = "\<lambda>m. (method_name m, map ?c (method_args m), map ?c (method_returns m))"
    let ?s = "size_prod (\<lambda>_. 0) (size_prod (size_list size) (size_list size))"
    have "size (?c x) \<le> ?s (?f m)" using m(2) l [of "method_args m"] l [of "method_returns m"] by auto
    also have "\<dots> \<le> size_list ?s (map ?f (sortedMethodSignatures collate ms))"
      using m(1) by (intro size_list_estimation' [of "?f m"]) simp_all
    finally show ?thesis by (simp add: InterfaceInfo go_shape_of_def)
  next
    case (StructInfo ms k fs)
    then obtain f where f: "f \<in> set fs" "x = field_type f" using assms(2) by (auto simp: child_refs_def)
    let ?f = "\<lambda>f. (field_name f, or_empty (field_pkgPath f), or_empty (field_tag f), field_anonymous f = Some True, ?c (field_type f))"
    let ?s = "size_prod (\<lambda>_. 0) (size_prod (\<lambda>_. 0) (size_prod (\<lambda>_. 0) (size_prod (\<lambda>_. 0) size)))"
    have "size (?c x) \<le> ?s (?f f)" using f(2) by simp
    also have "\<dots> \<le> size_list ?s (map ?f fs)" using f(1) by (intro size_list_estimation' [of "?f f"]) simp_all
    finally show ?thesis by (simp add: StructInfo go_shape_of_def)
  qed (use assms(2) in \<open>auto simp: child_refs_def go_shape_of_def trans_le_add1 trans_le_add2 le_SucI dest!: o ol l\<close>)
  then show ?thesis using assms(1) by auto
qed

lemma nominal_go_type:
  assumes "info_name (normalizeTypeInfo R t) \<noteq> None" "nominal_kind (kind (normalizeTypeInfo R t))"
  shows "go_type_of R collate t =
    Nominal (kind (normalizeTypeInfo R t)) (or_empty (typeName (normalizeTypeInfo R t))) (the (info_name (normalizeTypeInfo R t)))"
  using assms by (cases t) (auto simp: Let_def)

lemma by_name_nominal:
  assumes "registered_names R"
  shows "info_name (normalizeTypeInfo R (ByName s)) \<noteq> None \<and> nominal_kind (kind (normalizeTypeInfo R (ByName s)))"
  using assms by (auto simp: registered_names_def nominal_kind_def ran_def split: option.splits)

lemma structural_desc:
  assumes "registered_names R" "\<not> (info_name (normalizeTypeInfo R t) \<noteq> None \<and> nominal_kind (kind (normalizeTypeInfo R t)))"
  obtains d where "t = Desc d"
  using assms(2) by_name_nominal [OF assms(1)] by (cases t) (simp only:, blast+)

lemma normalize_in:
  assumes "ref_in U t" "ran R \<subseteq> U" "oid (normalizeTypeInfo R t) \<noteq> 0"
  shows "normalizeTypeInfo R t \<in> U"
  using assms by (cases t) (auto simp: ran_def split: option.splits)

lemma same_object_type:
  assumes R: "registered_names R" "ran R \<subseteq> U" and U: "coherent R collate U" "ref_in U t1" "ref_in U t2"
    and same: "same_object (normalizeTypeInfo R t1) (normalizeTypeInfo R t2)"
  shows "go_type_of R collate t1 = go_type_of R collate t2"
proof -
  let ?n1 = "normalizeTypeInfo R t1" and ?n2 = "normalizeTypeInfo R t2"
  from same have "?n1 \<in> U" "?n2 \<in> U" "oid ?n1 = oid ?n2" using normalize_in [OF U(2) R(2)] normalize_in [OF U(3) R(2)]
    by (simp_all add: same_object_def)
  then have n: "?n1 = ?n2" using U(1) by (simp add: coherent_def)
  show ?thesis
  proof (cases "info_name ?n1 \<noteq> None \<and> nominal_kind (kind ?n1)")
    case True
    then show ?thesis using nominal_go_type [of R t1 collate] nominal_go_type [of R t2 collate] n by simp
  next
    case False
    with n structural_desc [OF R(1), of t1] structural_desc [OF R(1), of t2] show ?thesis
      by (metis normalizeTypeInfo.simps(2))
  qed
qed

lemma comparison_id_type:
  assumes "coherent R collate U" "p \<in> U" "x \<in> U" "comparison_id ids p = Some a" "comparison_id ids x = Some a" "inj_on ids (dom ids)"
  shows "go_type_of R collate (Desc p) = go_type_of R collate (Desc x)"
proof (cases "typeInfoRuntimeName p")
  case p: (Some n)
  then have a: "a = kind_name (kind p) @ '':'' @ n" using assms(4) by (simp add: comparison_id_def)
  have "typeInfoRuntimeName x \<noteq> None"
  proof
    assume "typeInfoRuntimeName x = None"
    then obtain i where "a = ''object:'' @ nat_string i" using assms(5) by (auto simp: comparison_id_def)
    with a kind_name_not_object [of "kind p" "'':'' @ n" "nat_string i"] show False by simp
  qed
  then obtain m where m: "typeInfoRuntimeName x = Some m" by blast
  with assms(5) a have "kind p = kind x \<and> n = m" using kind_name_inj [of "kind p" n "kind x" m] by (simp add: comparison_id_def)
  with p m assms(1-3) show ?thesis unfolding coherent_def same_names_def by (metis option.distinct(1))
next
  case None
  then obtain i where i: "ids (oid p) = Some i" "a = ''object:'' @ nat_string i" using assms(4) by (auto simp: comparison_id_def)
  then have "typeInfoRuntimeName x = None"
    using assms(5) kind_name_not_object by (fastforce simp: comparison_id_def split: option.splits)
  then obtain j where "ids (oid x) = Some j" "a = ''object:'' @ nat_string j" using assms(5) by (auto simp: comparison_id_def)
  with i assms(6) have "oid p = oid x" by (auto simp: inj_on_def dom_def dest!: nat_string_inj)
  with assms(1-3) show ?thesis by (auto simp: coherent_def)
qed

lemma comparison_id_mono:
  "comparison_id ids p = Some a \<Longrightarrow> ids \<subseteq>\<^sub>m ids1 \<Longrightarrow> comparison_id ids1 p = Some a"
  by (auto simp: comparison_id_def map_le_def dom_def split: option.splits)

lemma child_in:
  "closed_under_parts U \<Longrightarrow> ref_in U (Desc t) \<Longrightarrow> x \<in> set (child_refs (shape t)) \<Longrightarrow> ref_in U x"
  by (cases x) (auto simp: closed_under_parts_def)

lemma seen_ok_cases:
  assumes "seen_ok c U Q st" "k \<in> set (seenPairs st)"
  obtains p q a b where "p \<in> U" "q \<in> U" "same_names p q" "comparison_id (objectIDs st) p = Some a"
    "comparison_id (objectIDs st) q = Some b" "k = a @ ''|'' @ b"
    "c (Desc p) = c (Desc q) \<or> Q (c (Desc p)) (c (Desc q))"
  using assms unfolding seen_ok_def by blast

lemma seen_ok_push:
  assumes st: "seen_ok c U Q st" and d: "d1 \<in> U" "d2 \<in> U" "same_names d1 d2"
    and k: "comparison_id (objectIDs st) d1 = Some k1" "comparison_id (objectIDs st) d2 = Some k2"
  shows "seen_ok c U (\<lambda>a b. Q a b \<or> a = c (Desc d1) \<and> b = c (Desc d2)) (st\<lparr>seenPairs := (k1 @ ''|'' @ k2) # seenPairs st\<rparr>)"
proof -
  have "\<exists>p\<in>U. \<exists>q\<in>U. same_names p q \<and>
      (\<exists>a b. comparison_id (objectIDs st) p = Some a \<and> comparison_id (objectIDs st) q = Some b \<and> key = a @ ''|'' @ b) \<and>
      (c (Desc p) = c (Desc q) \<or> Q (c (Desc p)) (c (Desc q)) \<or> c (Desc p) = c (Desc d1) \<and> c (Desc q) = c (Desc d2))"
    if "key = k1 @ ''|'' @ k2 \<or> key \<in> set (seenPairs st)" for key
    using that
  proof
    assume "key \<in> set (seenPairs st)"
    from seen_ok_cases [OF st this] show ?thesis by metis
  qed (use d k in blast)
  then show ?thesis using st unfolding seen_ok_def by simp
qed

lemma seen_ok_pop:
  assumes st: "seen_ok c U (\<lambda>a b. Q a b \<or> a = x \<and> b = x) st"
  shows "seen_ok c U Q st"
proof -
  have "\<exists>p\<in>U. \<exists>q\<in>U. same_names p q \<and>
      (\<exists>a b. comparison_id (objectIDs st) p = Some a \<and> comparison_id (objectIDs st) q = Some b \<and> key = a @ ''|'' @ b) \<and>
      (c (Desc p) = c (Desc q) \<or> Q (c (Desc p)) (c (Desc q)))" if "key \<in> set (seenPairs st)" for key
    by (rule seen_ok_cases [OF st that]) metis
  then show ?thesis using st unfolding seen_ok_def by simp
qed

definition compared_deeply :: "(string \<rightharpoonup> type_info) \<Rightarrow> type_ref \<Rightarrow> type_ref \<Rightarrow> bool" where
  "compared_deeply R t1 t2 \<longleftrightarrow>
     (let n1 = normalizeTypeInfo R t1; n2 = normalizeTypeInfo R t2 in
      \<not> same_object n1 n2 \<and> kind n1 = kind n2 \<and> or_empty (typeName n1) = or_empty (typeName n2) \<and>
      info_name n1 = info_name n2 \<and> \<not> (info_name n1 \<noteq> None \<and> nominal_kind (kind n1)))"

lemma nominal_types_equal:
  assumes "registered_names R" "info_name (normalizeTypeInfo R t1) \<noteq> None \<and> nominal_kind (kind (normalizeTypeInfo R t1))"
  shows "go_type_of R collate t1 = go_type_of R collate t2 \<longleftrightarrow>
    kind (normalizeTypeInfo R t1) = kind (normalizeTypeInfo R t2) \<and>
    or_empty (typeName (normalizeTypeInfo R t1)) = or_empty (typeName (normalizeTypeInfo R t2)) \<and>
    info_name (normalizeTypeInfo R t1) = info_name (normalizeTypeInfo R t2)"
proof (cases "info_name (normalizeTypeInfo R t2) \<noteq> None \<and> nominal_kind (kind (normalizeTypeInfo R t2))")
  case True
  then show ?thesis using assms(2) nominal_go_type [of R t1 collate] nominal_go_type [of R t2 collate] by auto
next
  case False
  then obtain d where "t2 = Desc d" using structural_desc [OF assms(1)] by blast
  with False assms(2) show ?thesis using nominal_go_type [of R t1 collate] by auto
qed

lemma identical_shallow:
  assumes R: "registered_names R" "ran R \<subseteq> U" and U: "coherent R collate U" "ref_in U t1" "ref_in U t2"
    and "\<not> compared_deeply R t1 t2"
  shows "areTypeInfosIdenticalWithSeen R collate (Suc fuel) t1 t2 st =
    Some (go_type_of R collate t1 = go_type_of R collate t2, st)"
proof (cases "same_object (normalizeTypeInfo R t1) (normalizeTypeInfo R t2)")
  case True
  from same_object_type [OF R U True] True show ?thesis by simp
next
  case diff: False
  show ?thesis
  proof (cases "info_name (normalizeTypeInfo R t1) \<noteq> None \<and> nominal_kind (kind (normalizeTypeInfo R t1))")
    case True
    show ?thesis unfolding nominal_types_equal [OF R(1) True] using True diff by (auto simp: Let_def)
  next
    case s1: False
    then obtain d1 where d1: "t1 = Desc d1" using structural_desc [OF R(1)] by blast
    have body: "areTypeInfosIdenticalWithSeen R collate (Suc fuel) t1 t2 st = Some (False, st)"
      using diff s1 assms(6) by (auto simp: Let_def compared_deeply_def)
    show ?thesis
    proof (cases "info_name (normalizeTypeInfo R t2) \<noteq> None \<and> nominal_kind (kind (normalizeTypeInfo R t2))")
      case True
      have "go_type_of R collate t2 \<noteq> go_type_of R collate t1"
        unfolding nominal_types_equal [OF R(1) True] using True s1 by auto
      with body show ?thesis by auto
    next
      case s2: False
      then obtain d2 where d2: "t2 = Desc d2" using structural_desc [OF R(1)] by blast
      have "kind d1 = kind d2" if "go_shape_of collate c (shape d1) = go_shape_of collate c (shape d2)" for c
        using that by (cases "shape d1"; cases "shape d2") (simp_all add: go_shape_of_def)
      then have "go_type_of R collate t1 \<noteq> go_type_of R collate t2"
        using s1 s2 diff assms(6) by (auto simp: d1 d2 compared_deeply_def)
      with body show ?thesis by simp
    qed
  qed
qed

lemma identical_deep:
  assumes "compared_deeply R (Desc d1) (Desc d2)"
    and "typeInfoComparisonID (Desc d1) d1 st = (k1, st1)" "typeInfoComparisonID (Desc d2) d2 st1 = (k2, st2)"
  shows "areTypeInfosIdenticalWithSeen R collate (Suc fuel) (Desc d1) (Desc d2) st =
    (if k1 @ ''|'' @ k2 \<in> set (seenPairs st2) then Some (True, st2)
     else shapes_identical collate (areTypeInfosIdenticalWithSeen R collate fuel) (shape d1) (shape d2)
       (st2\<lparr>seenPairs := (k1 @ ''|'' @ k2) # seenPairs st2\<rparr>))"
  using assms by (auto simp: compared_deeply_def)

text \<open>A pair with a key that was seen has equal types, unless its comparison is in progress.\<close>

lemma seen_pair_types:
  assumes st: "seen_ok (go_type_of R collate) U Q st" and U: "coherent R collate U" "d1 \<in> U" "d2 \<in> U" "same_names d1 d2"
    and ids: "comparison_id (objectIDs st) d1 = Some k1" "comparison_id (objectIDs st) d2 = Some k2"
    and seen: "k1 @ ''|'' @ k2 \<in> set (seenPairs st)"
  shows "go_type_of R collate (Desc d1) = go_type_of R collate (Desc d2) \<or>
    Q (go_type_of R collate (Desc d1)) (go_type_of R collate (Desc d2))"
proof -
  let ?c = "go_type_of R collate"
  obtain p q a b where pq: "p \<in> U" "q \<in> U" "same_names p q" "comparison_id (objectIDs st) p = Some a"
    "comparison_id (objectIDs st) q = Some b" "k1 @ ''|'' @ k2 = a @ ''|'' @ b"
    "?c (Desc p) = ?c (Desc q) \<or> Q (?c (Desc p)) (?c (Desc q))" by (rule seen_ok_cases [OF st seen])
  from pair_key_inj [OF pq(3) U(4) pq(4,5) ids pq(6) [symmetric]] have ab: "a = k1" "b = k2" by simp_all
  have inj: "inj_on (objectIDs st) (dom (objectIDs st))" using st by (simp add: seen_ok_def)
  have "?c (Desc p) = ?c (Desc d1)" "?c (Desc q) = ?c (Desc d2)"
    using comparison_id_type [OF U(1) pq(1) U(2) _ ids(1) inj] comparison_id_type [OF U(1) pq(2) U(3) _ ids(2) inj]
      pq(4,5) unfolding ab by blast+
  with pq(7) show ?thesis by simp
qed

lemma identical_parts:
  assumes "compared_deeply R (Desc d1) (Desc d2)"
    and "\<And>x y. x \<in> set (child_refs (shape d1)) \<Longrightarrow> y \<in> set (child_refs (shape d2)) \<Longrightarrow>
      computes I (same x y) (go_type_of R collate x = go_type_of R collate y)"
  shows "computes I (shapes_identical collate same (shape d1) (shape d2)) (go_type_of R collate (Desc d1) = go_type_of R collate (Desc d2))"
proof -
  have "(go_type_of R collate (Desc d1) = go_type_of R collate (Desc d2)) =
      (go_shape_of collate (go_type_of R collate) (shape d1) = go_shape_of collate (go_type_of R collate) (shape d2))"
    using assms(1) by (auto simp: compared_deeply_def)
  moreover have "computes I (shapes_identical collate same (shape d1) (shape d2))
      (go_shape_of collate (go_type_of R collate) (shape d1) = go_shape_of collate (go_type_of R collate) (shape d2))"
    using assms by (intro computes_shapes) (auto simp: compared_deeply_def)
  ultimately show ?thesis by simp
qed

lemma identical_computes:
  assumes R: "registered_names R" "ran R \<subseteq> U" and U: "coherent R collate U" "closed_under_parts U"
  shows "size t1 < fuel \<Longrightarrow> ref_in U t1 \<Longrightarrow> ref_in U t2 \<Longrightarrow> (\<And>a b. Q a b \<Longrightarrow> size (go_type_of R collate t1) < size a) \<Longrightarrow>
    computes (seen_ok (go_type_of R collate) U Q) (areTypeInfosIdenticalWithSeen R collate fuel t1 t2)
      (go_type_of R collate t1 = go_type_of R collate t2)"
proof (induction fuel arbitrary: t1 t2 Q)
  case (Suc fuel)
  let ?c = "go_type_of R collate" and ?same = "areTypeInfosIdenticalWithSeen R collate fuel"
  show ?case
  proof (cases "compared_deeply R t1 t2")
    case False
    then show ?thesis using identical_shallow [OF R U(1) Suc.prems(2,3) False] by (simp add: computes_def)
  next
    case deep: True
    obtain d1 where d1: "t1 = Desc d1" using deep structural_desc [OF R(1)] unfolding compared_deeply_def by metis
    obtain d2 where d2: "t2 = Desc d2" using deep structural_desc [OF R(1)] unfolding compared_deeply_def by metis
    note d = d1 d2
    have names: "same_names d1 d2" using deep
      by (auto simp: d same_names_def typeInfoRuntimeName_def or_empty_def compared_deeply_def Let_def split: option.splits)
    have in_U: "d1 \<in> U" "d2 \<in> U" using Suc.prems(2,3) by (simp_all add: d)
    define P where "P a b \<longleftrightarrow> Q a b \<or> a = ?c (Desc d1) \<and> b = ?c (Desc d2)" for a b
    have "computes (seen_ok ?c U P) (?same x y) (?c x = ?c y)"
      if "x \<in> set (child_refs (shape d1))" "y \<in> set (child_refs (shape d2))" for x y
    proof (rule Suc.IH)
      show "size x < fuel" using size_child_ref [OF that(1)] Suc.prems(1) by (simp add: d)
      show "ref_in U x" "ref_in U y"
        using child_in [OF U(2) _ that(1)] child_in [OF U(2) _ that(2)] Suc.prems(2,3) by (simp_all add: d)
      have "size (?c x) < size (?c (Desc d1))" using size_go_child [of d1 x R collate] that(1) deep
        by (auto simp: d compared_deeply_def)
      then show "size (?c x) < size a" if "P a b" for a b
        using that Suc.prems(4) unfolding P_def d by (auto dest: less_trans)
    qed
    with deep have shapes: "computes (seen_ok ?c U P) (shapes_identical collate ?same (shape d1) (shape d2)) (?c t1 = ?c t2)"
      unfolding d by (rule identical_parts)
    show ?thesis
      unfolding computes_def
    proof (intro allI impI)
      fix st assume st: "seen_ok ?c U Q st"
      obtain k1 st1 where k1: "typeInfoComparisonID (Desc d1) d1 st = (k1, st1)" by force
      obtain k2 st2 where k2: "typeInfoComparisonID (Desc d2) d2 st1 = (k2, st2)" by force
      note s1 = comparison_id_state [OF k1 st] and body = identical_deep [OF deep [unfolded d] k1 k2, of collate fuel, folded d]
      note s2 = comparison_id_state [OF k2 s1(2)]
      have ids: "comparison_id (objectIDs st2) d1 = Some k1" "comparison_id (objectIDs st2) d2 = Some k2"
        using comparison_id_mono [OF s1(1) s2(3)] s2(1) by simp_all
      show "\<exists>st1. areTypeInfosIdenticalWithSeen R collate (Suc fuel) t1 t2 st = Some (?c t1 = ?c t2, st1) \<and>
          (?c t1 = ?c t2 \<longrightarrow> seen_ok ?c U Q st1)"
      proof (cases "k1 @ ''|'' @ k2 \<in> set (seenPairs st2)")
        case True
        have "?c t1 = ?c t2" using seen_pair_types [OF s2(2) U(1) in_U names ids True] Suc.prems(4) unfolding d by blast
        with body True s2(2) show ?thesis by (simp del: areTypeInfosIdenticalWithSeen.simps)
      next
        case False
        let ?st3 = "st2\<lparr>seenPairs := (k1 @ ''|'' @ k2) # seenPairs st2\<rparr>"
        have "seen_ok ?c U P ?st3" using seen_ok_push [OF s2(2) in_U names ids] unfolding P_def .
        with shapes obtain st4 where st4: "shapes_identical collate ?same (shape d1) (shape d2) ?st3 = Some (?c t1 = ?c t2, st4)"
          "?c t1 = ?c t2 \<Longrightarrow> seen_ok ?c U P st4" unfolding computes_def by blast
        have "seen_ok ?c U Q st4" if "?c t1 = ?c t2"
          using st4(2) [OF that] that seen_ok_pop [of ?c U Q "?c t2" st4] unfolding P_def d by simp
        with st4(1) body False show ?thesis by (simp del: areTypeInfosIdenticalWithSeen.simps)
      qed
    qed
  qed
qed simp

theorem areTypeInfosIdentical_iff:
  assumes "registered_names R" "ran R \<subseteq> U" "coherent R collate U" "closed_under_parts U" "ref_in U t1" "ref_in U t2"
  shows "areTypeInfosIdentical R collate t1 t2 = Some (go_type_of R collate t1 = go_type_of R collate t2)"
proof -
  have "seen_ok (go_type_of R collate) U (\<lambda>a b. False) newTypeInfoComparisonState"
    by (simp add: seen_ok_def newTypeInfoComparisonState_def)
  with identical_computes [OF assms(1-4), of t1 "Suc (size t1)" t2 "\<lambda>a b. False"] assms(5,6) show ?thesis
    by (auto simp: computes_def areTypeInfosIdentical_def)
qed

subsection \<open>What the registry holds\<close>

text \<open>The calls of the registration functions a program makes, in order.\<close>

datatype registration =
    RegisterStruct nat string "method_sig list" nat "struct_field list"
  | RegisterInterface nat string "method_sig list"

fun register :: "registration \<Rightarrow> type_registry \<Rightarrow> type_registry" where
  "register (RegisterStruct i n ms c fs) r = snd (registerStructType i n ms c fs r)"
| "register (RegisterInterface i n ms) r = snd (registerInterfaceType i n ms r)"

fun registered_info :: "registration \<Rightarrow> string \<times> type_info" where
  "registered_info (RegisterStruct i n ms c fs) = (n, TypeInfo i (Some n) None (StructInfo ms (Some c) fs))"
| "registered_info (RegisterInterface i n ms) = (n, TypeInfo i (Some n) None (InterfaceInfo ms))"

definition empty_registry :: type_registry where
  "empty_registry = \<lparr>typeRegistry = Map.empty, duplicateTypeRegistry = Map.empty\<rparr>"

definition infos_named :: "string \<Rightarrow> registration list \<Rightarrow> type_info list" where
  "infos_named n h = map snd (filter (\<lambda>p. fst p = n) (map registered_info h))"

text \<open>The different descriptors of a name, in the order of their first registration.\<close>

definition candidates_named :: "string \<Rightarrow> registration list \<Rightarrow> type_info list" where
  "candidates_named n h = rev (remdups (rev (infos_named n h)))"

definition new_objects :: "registration list \<Rightarrow> bool" where
  "new_objects h \<longleftrightarrow> (\<forall>a\<in>set h. \<forall>b\<in>set h.
     oid (snd (registered_info a)) \<noteq> 0 \<and>
     (oid (snd (registered_info a)) = oid (snd (registered_info b)) \<longrightarrow> registered_info a = registered_info b))"

lemma register_is: "register g r = (case registered_info g of (n, t) \<Rightarrow> registerTypeInfo n t r)"
  by (cases g) (simp_all add: registerStructType_def registerInterfaceType_def Let_def)

lemma remdups_first_snoc:
  "rev (remdups (rev (xs @ [x]))) = (if x \<in> set xs then rev (remdups (rev xs)) else rev (remdups (rev xs)) @ [x])"
  by simp

lemma candidates_snoc:
  "candidates_named n (h @ [g]) = (case registered_info g of (m, t) \<Rightarrow>
     if m \<noteq> n \<or> t \<in> set (infos_named n h) then candidates_named n h else candidates_named n h @ [t])"
  by (auto simp: candidates_named_def infos_named_def split: prod.splits)

lemma set_candidates: "set (candidates_named n h) = set (infos_named n h)"
  by (simp add: candidates_named_def)

lemma infos_snoc:
  "infos_named n (h @ [g]) = infos_named n h @ (case registered_info g of (m, t) \<Rightarrow> if m = n then [t] else [])"
  by (auto simp: infos_named_def split: prod.splits)

lemma infos_in: "t \<in> set (infos_named n h) \<Longrightarrow> (n, t) \<in> set (map registered_info h)"
  by (auto simp: infos_named_def)

lemma one_candidate:
  "infos_named n h \<noteq> [] \<Longrightarrow> length (candidates_named n h) \<le> 1 \<Longrightarrow> candidates_named n h = [last (infos_named n h)]"
proof -
  assume a: "infos_named n h \<noteq> []" "length (candidates_named n h) \<le> 1"
  from a(1) have "last (infos_named n h) \<in> set (candidates_named n h)" by (simp add: set_candidates)
  with a(2) show ?thesis by (cases "candidates_named n h") auto
qed

lemma same_object_iff:
  assumes "new_objects h" "a \<in> set (infos_named n h)" "b \<in> set (infos_named n h)"
  shows "same_object a b \<longleftrightarrow> a = b"
proof -
  from assms(2,3) obtain g g' where "g \<in> set h" "g' \<in> set h" "registered_info g = (n, a)" "registered_info g' = (n, b)"
    by (force dest: infos_in)
  with assms(1) show ?thesis unfolding new_objects_def same_object_def by (metis snd_conv)
qed

definition registry_holds :: "registration list \<Rightarrow> type_registry \<Rightarrow> string \<Rightarrow> bool" where
  "registry_holds h r n \<longleftrightarrow>
     typeRegistry r n = (if infos_named n h = [] then None else Some (last (infos_named n h))) \<and>
     duplicateTypeRegistry r n = (if length (candidates_named n h) \<le> 1 then None else Some (candidates_named n h))"

lemma register_holds:
  assumes r: "registry_holds h r n" and h: "new_objects (h @ [g])"
  shows "registry_holds (h @ [g]) (register g r) n"
proof (cases "registered_info g")
  case (Pair m t)
  let ?ts = "infos_named n h" and ?cs = "candidates_named n h"
  show ?thesis
  proof (cases "m = n \<and> ?ts \<noteq> []")
    case False
    then show ?thesis using r
      by (auto simp: registry_holds_def register_is Pair registerTypeInfo_def Let_def infos_snoc candidates_snoc
          candidates_named_def split: option.splits)
  next
    case mn: True
    then have ex: "typeRegistry r n = Some (last ?ts)" using r by (simp add: registry_holds_def)
    have same: "same_object a b \<longleftrightarrow> a = b" if "a \<in> insert t (set ?ts)" "b \<in> insert t (set ?ts)" for a b
      using same_object_iff [OF h, of a n b] that mn by (auto simp: infos_snoc Pair)
    show ?thesis
    proof (cases "last ?ts = t")
      case True
      then have "t \<in> set ?ts" using mn last_in_set by blast
      with True show ?thesis using r mn ex same [of t t]
        by (simp add: registry_holds_def register_is Pair registerTypeInfo_def infos_snoc candidates_snoc)
    next
      case False
      have old: "(case duplicateTypeRegistry r n of Some c \<Rightarrow> c | None \<Rightarrow> [last ?ts]) = ?cs"
        using r mn one_candidate [of n h] by (auto simp: registry_holds_def)
      have known: "list_ex (same_object t) ?cs \<longleftrightarrow> t \<in> set ?ts"
        using same by (auto simp: list_ex_iff set_candidates)
      have "last ?ts \<in> set ?cs" using mn by (simp add: set_candidates)
      moreover have "?cs = [last ?ts] \<Longrightarrow> t \<notin> set ?ts" using False unfolding set_candidates [of n h, symmetric] by simp
      ultimately have "1 < length (candidates_named n (h @ [g]))"
        using mn one_candidate [of n h] by (cases "length ?cs \<le> 1") (auto simp: candidates_snoc Pair)
      moreover have "\<not> same_object (last ?ts) t" using False mn by (subst same) auto
      ultimately show ?thesis using mn ex old known
        by (simp add: registry_holds_def register_is Pair registerTypeInfo_def infos_snoc candidates_snoc Let_def)
    qed
  qed
qed

lemma registered_names_register:
  "registered_names (typeRegistry r) \<Longrightarrow> registered_names (typeRegistry (register g r))"
proof -
  assume r: "registered_names (typeRegistry r)"
  have "typeRegistry (register g r) = (typeRegistry r)(fst (registered_info g) \<mapsto> snd (registered_info g))"
    by (cases "registered_info g") (simp add: register_is registerTypeInfo_def Let_def split: option.splits)
  moreover have "info_name (snd (registered_info g)) \<noteq> None \<and>
      (kind (snd (registered_info g)) = Struct \<or> kind (snd (registered_info g)) = Interface)" by (cases g) simp_all
  ultimately show ?thesis using r by (auto simp: registered_names_def ran_def split: if_splits)
qed

lemma registered_names_history: "registered_names (typeRegistry (fold register h empty_registry))"
  by (induction h rule: rev_induct) (simp_all add: registered_names_register, simp add: registered_names_def empty_registry_def)

text \<open>C40. Whatever a program registers, a name resolves to the descriptor registered last for it; the
  candidates of a name with several descriptors are all of them, each once, in the order of their
  first registration, and a name with one descriptor has no candidates.\<close>

theorem registry_history:
  assumes "new_objects h"
  shows "getTypeByName n (fold register h empty_registry) =
      (if infos_named n h = [] then None else Some (last (infos_named n h))) \<and>
    duplicateTypeRegistry (fold register h empty_registry) n =
      (if length (candidates_named n h) \<le> 1 then None else Some (candidates_named n h))"
proof -
  have "registry_holds h (fold register h empty_registry) n"
    using assms
  proof (induction h rule: rev_induct)
    case Nil
    then show ?case by (simp add: registry_holds_def infos_named_def candidates_named_def empty_registry_def)
  next
    case (snoc g h)
    then have "new_objects h" by (simp add: new_objects_def)
    with snoc register_holds [of h _ n g] show ?case by simp
  qed
  then show ?thesis by (simp add: registry_holds_def getTypeByName_def)
qed

theorem registry_history_witness:
  "getTypeByName ''T'' (fold register [RegisterStruct 5 ''T'' [] 1 [], RegisterInterface 6 ''I'' [], RegisterStruct 7 ''T'' [] 2 []]
     empty_registry) = Some (TypeInfo 7 (Some ''T'') None (StructInfo [] (Some 2) []))"
  using registry_history [of "[RegisterStruct 5 ''T'' [] 1 [], RegisterInterface 6 ''I'' [], RegisterStruct 7 ''T'' [] 2 []]" "''T''"]
  by (simp add: new_objects_def infos_named_def)

text \<open>C38. Let \<open>U\<close> hold the descriptors of a program: those it registers, by any history of registrations,
  those compared, and all their parts; let an object be one descriptor, and let descriptors of one
  kind and one run-time name stand for one type (this excludes packages with one short name that
  declare different function, map and so on types of one name). Then \<open>areTypeInfosIdentical\<close> ends and
  decides whether two descriptors stand for the same Go type: type names resolved, named basic,
  struct and interface types compared by name, the others by structure, methods in the order of
  their names. It is reflexive, symmetric and transitive.\<close>

theorem type_identity:
  assumes "ran (typeRegistry (fold register h empty_registry)) \<subseteq> U" "closed_under_parts U"
    and "coherent (typeRegistry (fold register h empty_registry)) collate U" "ref_in U t1" "ref_in U t2" "ref_in U t3"
  shows "areTypeInfosIdentical (typeRegistry (fold register h empty_registry)) collate t1 t2 =
      Some (go_type_of (typeRegistry (fold register h empty_registry)) collate t1 =
        go_type_of (typeRegistry (fold register h empty_registry)) collate t2) \<and>
    areTypeInfosIdentical (typeRegistry (fold register h empty_registry)) collate t1 t1 = Some True \<and>
    areTypeInfosIdentical (typeRegistry (fold register h empty_registry)) collate t2 t1 =
      areTypeInfosIdentical (typeRegistry (fold register h empty_registry)) collate t1 t2 \<and>
    (areTypeInfosIdentical (typeRegistry (fold register h empty_registry)) collate t1 t2 = Some True \<and>
     areTypeInfosIdentical (typeRegistry (fold register h empty_registry)) collate t2 t3 = Some True \<longrightarrow>
     areTypeInfosIdentical (typeRegistry (fold register h empty_registry)) collate t1 t3 = Some True)"
proof -
  have "areTypeInfosIdentical (typeRegistry (fold register h empty_registry)) collate r q =
      Some (go_type_of (typeRegistry (fold register h empty_registry)) collate r =
        go_type_of (typeRegistry (fold register h empty_registry)) collate q)"
    if "ref_in U r" "ref_in U q" for r q
    using registered_names_history assms(1-3) that by (intro areTypeInfosIdentical_iff)
  then show ?thesis using assms(4-6) by auto
qed

definition sample_slice :: "nat \<Rightarrow> type_info" where
  "sample_slice i = TypeInfo i None None (SliceInfo (Some (ByName ''int'')))"

definition sample_func :: "nat \<Rightarrow> nat \<Rightarrow> type_info" where
  "sample_func i j = TypeInfo i None None (FunctionInfo (Some [Desc (sample_slice j), Desc (sample_slice j)]) (Some [ByName ''error'']) None)"

theorem type_identity_witness:
  "areTypeInfosIdentical (typeRegistry initial_registry) (length :: string \<Rightarrow> nat)
     (Desc (sample_func 10 11)) (Desc (sample_func 20 21)) = Some True"
proof -
  let ?h = "[RegisterInterface 2 ''error'' [error_method]]"
  let ?R = "typeRegistry (fold register ?h empty_registry)"
  let ?U = "{sample_func 10 11, sample_func 20 21, sample_slice 11, sample_slice 21, TypeInfo 2 (Some ''error'') None (InterfaceInfo [error_method]),
     TypeInfo 1 (Some ''string'') None BasicInfo}"
  have R: "?R = [''error'' \<mapsto> TypeInfo 2 (Some ''error'') None (InterfaceInfo [error_method])]" "typeRegistry initial_registry = ?R"
    by (simp_all add: register_is registerTypeInfo_def empty_registry_def initial_registry_def registerInterfaceType_def Let_def)
  have "ran ?R \<subseteq> ?U" unfolding R(1) by simp
  moreover have "closed_under_parts ?U"
    by (auto simp: closed_under_parts_def sample_func_def sample_slice_def error_method_def child_refs_def option_list_def)
  moreover have "coherent ?R (length :: string \<Rightarrow> nat) ?U"
    unfolding R(1) by (simp add: coherent_def same_names_def sample_func_def sample_slice_def typeInfoRuntimeName_def)
  ultimately show ?thesis
    using type_identity [of ?h ?U "length :: string \<Rightarrow> nat" "Desc (sample_func 10 11)" "Desc (sample_func 20 21)" "Desc (sample_func 20 21)"]
    unfolding R(2) by (simp add: sample_func_def sample_slice_def go_shape_of_def)
qed

text \<open>Where two packages have one short name the result is wrong: once the pair of the names has been
  seen, descriptors of different function types \<open>p.F\<close> count as identical. The functions of two
  parameters here take \<open>p.F\<close> twice, the second one with the other package's \<open>p.F\<close> as its second
  parameter.\<close>

definition func_info :: "nat \<Rightarrow> string option \<Rightarrow> type_ref list \<Rightarrow> type_info" where
  "func_info i n ps = TypeInfo i n None (FunctionInfo (Some ps) None None)"

definition one_package :: type_ref where
  "one_package = Desc (func_info 4 None [Desc (func_info 1 (Some ''p.F'') []), Desc (func_info 1 (Some ''p.F'') [])])"

definition two_packages :: type_ref where
  "two_packages = Desc (func_info 5 None [Desc (func_info 2 (Some ''p.F'') []), Desc (func_info 3 (Some ''p.F'') [ByName ''string''])])"

lemma short_names_collide:
  "areTypeInfosIdentical Map.empty (length :: string \<Rightarrow> nat) one_package two_packages = Some True"
  "go_type_of Map.empty (length :: string \<Rightarrow> nat) one_package \<noteq> go_type_of Map.empty (length :: string \<Rightarrow> nat) two_packages"
proof -
  have run: "map_option fst (areTypeInfosIdenticalWithSeen Map.empty (length :: string \<Rightarrow> nat) (Suc (Suc fuel)) one_package two_packages
      newTypeInfoComparisonState) = Some True" for fuel
    by (simp add: one_package_def two_packages_def func_info_def newTypeInfoComparisonState_def typeInfoComparisonID_def
        typeInfoRuntimeName_def same_object_def nominal_kind_def shapes_identical_def areFuncSignaturesIdentical_def
        areFuncParamOrResultArraysIdentical_def and_then_def answer_def or_empty_def Let_def)
  obtain fuel where "size one_package = Suc fuel" by (simp add: one_package_def)
  then show "areTypeInfosIdentical Map.empty (length :: string \<Rightarrow> nat) one_package two_packages = Some True"
    using run [of fuel] by (simp only: areTypeInfosIdentical_def)
  show "go_type_of Map.empty (length :: string \<Rightarrow> nat) one_package \<noteq> go_type_of Map.empty (length :: string \<Rightarrow> nat) two_packages"
    unfolding one_package_def two_packages_def func_info_def by (simp add: nominal_kind_def go_shape_of_def)
qed

end
