(* ===== verification/GsTypeAssert.thy ===== *)
theory GsTypeAssert
  imports GsTypeInfo GsValue
begin

section \<open>Type assertions (gs/builtin/type.ts)\<close>

text \<open>
  A value as the assertions inspect it: the JavaScript type, and for an object the constructors of
  its prototype chain, the mark of struct values (a symbol), its data when it is an array, a
  \<open>Uint8Array\<close> or a \<open>Map\<close>, its own enumerable properties, and the properties it has besides (its own
  hidden ones, and those of its prototypes). A function has its number of parameters, the marks of
  a method wrapper, its descriptor and its type name. Strings are given by their characters.
\<close>

datatype fn =
    Fn (arity: nat) (isMethodWrapper: bool) (methodSignature: "method_sig option")
      (fn_typeInfo: "type_info option") (fn_goTypeName: "string option")

datatype js_value =
    VUndefined
  | VNull
  | VBool bool
  | VNumber jsnum
  | VBigInt int
  | VString string
  | VSymbol
  | VFun fn "(string \<times> js_value) list"
  | VObject (constructors: "nat list") (structValue: bool) (obj_data: js_data)
      (obj_own: "(string \<times> js_value) list") (obj_other: "(string \<times> js_value) list")
and js_data =
    PlainData
  | ArrayData "js_value list"
  | BytesData "nat list"
  | MapData "(js_value \<times> js_value) list"

text \<open>The state the assertions read: the registry, the zero value of a descriptor (after the call,
  where the property is a function), and the methods of a constructor's prototype.\<close>

record type_runtime =
  registry :: type_registry
  zeroValue :: "nat \<Rightarrow> js_value option"
  prototype :: "nat \<Rightarrow> (string \<times> js_value) list"

abbreviation named :: "type_runtime \<Rightarrow> string \<rightharpoonup> type_info" where "named rt \<equiv> typeRegistry (registry rt)"

fun typeof_object :: "js_value \<Rightarrow> bool" where
  "typeof_object (VObject cs m d own other) = True"
| "typeof_object v = False"

fun typeof_function :: "js_value \<Rightarrow> bool" where
  "typeof_function (VFun f ps) = True"
| "typeof_function v = False"

definition typeof_string :: "js_value \<Rightarrow> bool" where "typeof_string v \<longleftrightarrow> (case v of VString s \<Rightarrow> True | _ \<Rightarrow> False)"
definition typeof_number :: "js_value \<Rightarrow> bool" where "typeof_number v \<longleftrightarrow> (case v of VNumber x \<Rightarrow> True | _ \<Rightarrow> False)"
definition typeof_bigint :: "js_value \<Rightarrow> bool" where "typeof_bigint v \<longleftrightarrow> (case v of VBigInt x \<Rightarrow> True | _ \<Rightarrow> False)"
definition typeof_boolean :: "js_value \<Rightarrow> bool" where "typeof_boolean v \<longleftrightarrow> (case v of VBool x \<Rightarrow> True | _ \<Rightarrow> False)"

definition truthy :: "js_value \<Rightarrow> bool" where
  "truthy v =
     (case v of
        VUndefined \<Rightarrow> False | VNull \<Rightarrow> False | VBool b \<Rightarrow> b | VNumber x \<Rightarrow> x \<noteq> Fin 0 \<and> x \<noteq> NaN
      | VBigInt i \<Rightarrow> i \<noteq> 0 | VString s \<Rightarrow> s \<noteq> [] | _ \<Rightarrow> True)"

text \<open>Own enumerable properties: an array has its elements under their indices.\<close>

definition data_entries :: "js_data \<Rightarrow> (string \<times> js_value) list" where
  "data_entries d =
     (case d of
        ArrayData vs \<Rightarrow> zip (map nat_string [0..<length vs]) vs
      | BytesData bs \<Rightarrow> zip (map nat_string [0..<length bs]) (map (\<lambda>b. VNumber (Fin (of_nat b))) bs)
      | _ \<Rightarrow> [])"

fun object_entries :: "js_value \<Rightarrow> (string \<times> js_value) list" where
  "object_entries (VObject cs m d own other) = data_entries d @ own"
| "object_entries v = []"

fun property :: "js_value \<Rightarrow> string \<Rightarrow> js_value option" where
  "property (VObject cs m d own other) n = map_of (data_entries d @ own @ other) n"
| "property (VFun f ps) n = map_of ps n"
| "property v n = None"

definition goType :: "js_value \<Rightarrow> string option" where
  "goType v = (case property v ''__goType'' of Some (VString s) \<Rightarrow> Some s | _ \<Rightarrow> None)"

definition has_flag :: "js_value \<Rightarrow> string \<Rightarrow> bool" where
  "has_flag v n \<longleftrightarrow> (case property v n of Some w \<Rightarrow> truthy w | None \<Rightarrow> False)"

text \<open>The values directly inside a value.\<close>

definition parts :: "js_value \<Rightarrow> js_value list" where
  "parts v =
     (case v of
        VObject cs m d own other \<Rightarrow>
          map snd (data_entries d @ own @ other) @ (case d of MapData es \<Rightarrow> map snd es | _ \<Rightarrow> [])
      | VFun f ps \<Rightarrow> map snd ps
      | _ \<Rightarrow> [])"

lemma property_size:
  "w \<in> set (map snd ps) \<Longrightarrow> size w \<le> size_list (size_prod (\<lambda>x. 0) size) ps" for ps :: "(string \<times> js_value) list"
proof (induction ps)
  case (Cons p ps)
  then show ?case by (cases p; cases "w = snd p") (auto simp del: set_map)
qed simp

lemma entry_size:
  "w \<in> set (map snd es) \<Longrightarrow> size w \<le> size_list (size_prod size size) es" for es :: "(js_value \<times> js_value) list"
proof (induction es)
  case (Cons p es)
  then show ?case by (cases p; cases "w = snd p") (auto simp del: set_map)
qed simp

lemma data_entries_size: "w \<in> set (map snd (data_entries d)) \<Longrightarrow> size w \<le> size d"
proof (cases d)
  case (ArrayData vs)
  assume "w \<in> set (map snd (data_entries d))"
  then have "w \<in> set vs" by (simp add: ArrayData data_entries_def)
  then have "size w \<le> size_list size vs" by (simp add: size_list_estimation')
  then show ?thesis by (simp add: ArrayData)
qed (auto simp: data_entries_def set_zip)

lemma size_parts: "w \<in> set (parts v) \<Longrightarrow> size w < size v"
proof (cases v)
  case (VObject cs m d own other)
  assume w: "w \<in> set (parts v)"
  then consider "w \<in> set (map snd (data_entries d))" | "w \<in> set (map snd own)" | "w \<in> set (map snd other)"
    | es where "d = MapData es" "w \<in> set (map snd es)"
    by (cases d) (auto simp: parts_def VObject)
  then show ?thesis
    by cases (use property_size [of w own] property_size [of w other] data_entries_size [of w d] entry_size [of w] in
      \<open>fastforce simp: VObject simp del: set_map\<close>)+
next
  case (VFun f ps)
  assume "w \<in> set (parts v)"
  then have "w \<in> set (map snd ps)" by (simp add: parts_def VFun)
  from property_size [OF this] show ?thesis by (simp add: VFun)
qed (simp_all add: parts_def)

lemma property_part: "property v n = Some w \<Longrightarrow> w \<in> set (parts v)"
proof (cases v)
  case (VObject cs m d own other)
  assume "property v n = Some w"
  then have "(n, w) \<in> set (data_entries d @ own @ other)" unfolding VObject property.simps by (rule map_of_SomeD)
  then have "w \<in> set (map snd (data_entries d @ own @ other))" by force
  then show ?thesis unfolding parts_def VObject js_value.case set_append by (rule UnI1)
next
  case (VFun f ps)
  assume "property v n = Some w"
  then have "(n, w) \<in> set ps" unfolding VFun property.simps by (rule map_of_SomeD)
  then show ?thesis by (force simp: parts_def VFun)
qed simp_all

subsection \<open>The matchers\<close>

definition present :: "type_ref option \<Rightarrow> bool" where
  "present r = (case r of None \<Rightarrow> False | Some (ByName s) \<Rightarrow> s \<noteq> [] | Some (Desc t) \<Rightarrow> True)"

definition is_digit :: "char \<Rightarrow> bool" where "is_digit c \<longleftrightarrow> 48 \<le> (of_char c :: nat) \<and> (of_char c :: nat) \<le> 57"

text \<open>What follows one or more digits.\<close>

fun digits_then :: "string \<Rightarrow> string option" where
  "digits_then (c # cs) = (if is_digit c then Some (case digits_then cs of None \<Rightarrow> cs | Some r \<Rightarrow> r) else None)"
| "digits_then [] = None"

definition numeric_key :: "string \<Rightarrow> bool" where
  "numeric_key s =
     (case digits_then (if s \<noteq> [] \<and> hd s = CHR ''-'' then tl s else s) of
        None \<Rightarrow> False
      | Some r \<Rightarrow> r = [] \<or> hd r = CHR ''.'' \<and> digits_then (tl r) = Some [])"

definition validateMapKey :: "js_value \<Rightarrow> type_info \<Rightarrow> bool" where
  "validateMapKey key t =
     (if kind t = Basic then
        if info_name t = Some ''string'' then typeof_string key
        else if info_name t = Some ''int'' \<or> info_name t = Some ''float64'' \<or> info_name t = Some ''number'' then
          (case key of VString s \<Rightarrow> numeric_key s | _ \<Rightarrow> typeof_number key)
        else False
      else False)"

definition number_names :: "string list" where
  "number_names = [''number'', ''int'', ''int8'', ''int16'', ''int32'', ''uint'', ''uintptr'', ''uint8'', ''byte'', ''uint16'',
     ''uint32'', ''float32'', ''float64'']"

definition matchesBasicType :: "js_value \<Rightarrow> type_info \<Rightarrow> bool" where
  "matchesBasicType v t =
     (case info_name t of
        None \<Rightarrow> False
      | Some n \<Rightarrow>
          if n = ''string'' then typeof_string v
          else if n = ''int64'' \<or> n = ''uint64'' then typeof_bigint v
          else if n \<in> set number_names then typeof_number v
          else if n = ''boolean'' \<or> n = ''bool'' then typeof_boolean v
          else False)"

definition structFieldRuntimeKey :: "struct_field \<Rightarrow> string" where
  "structFieldRuntimeKey f = (case field_key f of None \<Rightarrow> field_name f | Some k \<Rightarrow> if k = [] then field_name f else k)"

definition isMarkedAsStructValue :: "js_value \<Rightarrow> bool" where
  "isMarkedAsStructValue v = (case v of VObject cs m d own other \<Rightarrow> m | _ \<Rightarrow> False)"

definition instance_of :: "js_value \<Rightarrow> nat \<Rightarrow> bool" where
  "instance_of v c = (case v of VObject cs m d own other \<Rightarrow> c \<in> set cs | _ \<Rightarrow> False)"

definition matchesStructType :: "type_runtime \<Rightarrow> (js_value \<Rightarrow> type_info \<Rightarrow> bool) \<Rightarrow> js_value \<Rightarrow> type_info \<Rightarrow> bool" where
  "matchesStructType rt matches v t =
     (case shape t of
        StructInfo ms (Some c) fs \<Rightarrow> instance_of v c \<and> isMarkedAsStructValue v
      | StructInfo ms None fs \<Rightarrow>
          (if typeof_object v then
             (let fieldNames = map structFieldRuntimeKey fs; valueFields = map fst (object_entries v) in
              list_all (\<lambda>n. property v n \<noteq> None) fieldNames \<and> length valueFields = length fieldNames \<and>
              list_all (\<lambda>n. n \<in> set fieldNames) valueFields \<and>
              list_all (\<lambda>f. case property v (structFieldRuntimeKey f) of
                  None \<Rightarrow> False | Some w \<Rightarrow> matches w (normalizeTypeInfo (named rt) (field_type f))) fs)
           else False)
      | _ \<Rightarrow> False)"

definition methodWrapperSignature :: "fn \<Rightarrow> method_sig option" where
  "methodWrapperSignature f = (if isMethodWrapper f then methodSignature f else None)"

definition methodSignaturesMatch :: "method_sig \<Rightarrow> method_sig \<Rightarrow> bool" where
  "methodSignaturesMatch actual required \<longleftrightarrow>
     length (method_args actual) = length (method_args required) \<and>
     length (method_returns actual) = length (method_returns required)"

definition methodWrapperMatchesSignature :: "fn \<Rightarrow> method_sig \<Rightarrow> bool" where
  "methodWrapperMatchesSignature f required =
     (case methodWrapperSignature f of None \<Rightarrow> False | Some s \<Rightarrow> methodSignaturesMatch s required)"

definition goTypeName :: "js_value \<Rightarrow> string option" where
  "goTypeName v =
     (case v of
        VFun f ps \<Rightarrow> fn_goTypeName f
      | _ \<Rightarrow> (case property v ''__goTypeName'' of Some (VString s) \<Rightarrow> Some s | _ \<Rightarrow> None))"

text \<open>The return types of the method the value's registered struct type declares, compared by name.\<close>

definition declared_returns_match :: "type_runtime \<Rightarrow> js_value \<Rightarrow> method_sig \<Rightarrow> bool" where
  "declared_returns_match rt target required =
     (case goTypeName target of
        None \<Rightarrow> True
      | Some n \<Rightarrow>
          (case (if n = [] then None else named rt n) of
             Some (TypeInfo i nm tn (StructInfo ms c fs)) \<Rightarrow>
               (case find (\<lambda>m. method_name m = method_name required) ms of
                  None \<Rightarrow> True
                | Some m \<Rightarrow>
                    length (method_returns m) = length (method_returns required) \<and>
                    list_all (\<lambda>(r, s). info_name (normalizeTypeInfo (named rt) r) = info_name (normalizeTypeInfo (named rt) s))
                      (zip (method_returns required) (method_returns m)))
           | _ \<Rightarrow> True))"

definition implements_method :: "type_runtime \<Rightarrow> js_value \<Rightarrow> method_sig \<Rightarrow> bool" where
  "implements_method rt target required =
     (case property target (method_name required) of
        Some (VFun f ps) \<Rightarrow>
          (if arity f < length (method_args required) \<and> \<not> methodWrapperMatchesSignature f required then False
           else if (case methodWrapperSignature f of None \<Rightarrow> False | Some s \<Rightarrow> \<not> methodSignaturesMatch s required) then False
           else declared_returns_match rt target required)
      | _ \<Rightarrow> False)"

definition method_target :: "js_value \<Rightarrow> js_value" where
  "method_target v =
     (if property v ''__isVarRef'' = Some (VBool True) then case property v ''value'' of Some w \<Rightarrow> w | None \<Rightarrow> v else v)"

definition matchesInterfaceType :: "type_runtime \<Rightarrow> js_value \<Rightarrow> type_info \<Rightarrow> bool" where
  "matchesInterfaceType rt v t =
     (case shape t of
        InterfaceInfo ms \<Rightarrow>
          (if v = VNull \<or> v = VUndefined then False
           else if ms = [] then True
           else if \<not> typeof_object v then False
           else let target = method_target v in
             if \<not> typeof_object target \<and> \<not> typeof_function target then False
             else list_all (implements_method rt target) ms)
      | _ \<Rightarrow> False)"

definition map_entries :: "js_value \<Rightarrow> (js_value \<times> js_value) list" where
  "map_entries v =
     (case v of
        VObject cs m (MapData es) own other \<Rightarrow> es
      | _ \<Rightarrow> map (\<lambda>(k, w). (VString k, w)) (object_entries v))"

text \<open>The loop over the first five entries, which \<open>typeAssert\<close> repeats.\<close>

definition entries_match ::
  "type_runtime \<Rightarrow> (js_value \<Rightarrow> type_info \<Rightarrow> bool) \<Rightarrow> js_value \<Rightarrow> type_ref option \<Rightarrow> type_ref option \<Rightarrow> bool" where
  "entries_match rt matches v keyType elemType =
     list_all (\<lambda>(k, w).
       (if present keyType then validateMapKey k (normalizeTypeInfo (named rt) (the keyType)) else True) \<and>
       (if present elemType then matches w (normalizeTypeInfo (named rt) (the elemType)) else True)) (take 5 (map_entries v))"

definition matchesMapType :: "type_runtime \<Rightarrow> (js_value \<Rightarrow> type_info \<Rightarrow> bool) \<Rightarrow> js_value \<Rightarrow> type_info \<Rightarrow> bool" where
  "matchesMapType rt matches v t =
     (if \<not> typeof_object v then False
      else case shape t of
        MapInfo k e \<Rightarrow> if present k \<or> present e then entries_match rt matches v k e else True
      | _ \<Rightarrow> False)"

definition isNumberElementType :: "type_runtime \<Rightarrow> type_ref option \<Rightarrow> bool" where
  "isNumberElementType rt r =
     (case r of
        None \<Rightarrow> True
      | Some x \<Rightarrow>
          (let t = normalizeTypeInfo (named rt) x in
           kind t = Basic \<and>
           (case info_name t of None \<Rightarrow> True
            | Some n \<Rightarrow> n \<in> set [''number'', ''int'', ''uint'', ''uint8'', ''byte'', ''float64''])))"

definition elements_match ::
  "type_runtime \<Rightarrow> (js_value \<Rightarrow> type_info \<Rightarrow> bool) \<Rightarrow> js_value \<Rightarrow> type_ref option \<Rightarrow> nat option \<Rightarrow> bool" where
  "elements_match rt matches v elemType len =
     (case v of
        VObject cs m (BytesData bs) own other \<Rightarrow>
          (if len \<noteq> None \<and> length bs \<noteq> the len then False else isNumberElementType rt elemType)
      | VObject cs m (ArrayData vs) own other \<Rightarrow>
          (if present elemType then list_all (\<lambda>w. matches w (normalizeTypeInfo (named rt) (the elemType))) (take 5 vs) else True)
      | _ \<Rightarrow> False)"

definition matchesArrayOrSliceType :: "type_runtime \<Rightarrow> (js_value \<Rightarrow> type_info \<Rightarrow> bool) \<Rightarrow> js_value \<Rightarrow> type_info \<Rightarrow> bool" where
  "matchesArrayOrSliceType rt matches v t =
     (case shape t of
        ArrayInfo e n \<Rightarrow> elements_match rt matches v e (Some n)
      | SliceInfo e \<Rightarrow> elements_match rt matches v e None
      | _ \<Rightarrow> False)"

subsection \<open>Type strings\<close>

definition is_space :: "char \<Rightarrow> bool" where "is_space c \<longleftrightarrow> (of_char c :: nat) \<in> set [9, 10, 11, 12, 13, 32, 160]"

definition is_word :: "char \<Rightarrow> bool" where
  "is_word c \<longleftrightarrow> is_digit c \<or> 65 \<le> (of_char c :: nat) \<and> (of_char c :: nat) \<le> 90 \<or>
     97 \<le> (of_char c :: nat) \<and> (of_char c :: nat) \<le> 122 \<or> (of_char c :: nat) = 95"

definition trim :: "string \<Rightarrow> string" where
  "trim s = rev (dropWhile is_space (rev (dropWhile is_space s)))"

text \<open>The dot of a regular expression matches no line break.\<close>

definition one_line :: "string \<Rightarrow> bool" where
  "one_line s \<longleftrightarrow> list_all (\<lambda>c. (of_char c :: nat) \<noteq> 10 \<and> (of_char c :: nat) \<noteq> 13) s"

fun split_char :: "char \<Rightarrow> string \<Rightarrow> string list" where
  "split_char c [] = [[]]"
| "split_char c (x # xs) =
     (if x = c then [] # split_char c xs
      else case split_char c xs of [] \<Rightarrow> [[x]] | p # ps \<Rightarrow> (x # p) # ps)"

definition decimal :: "string \<Rightarrow> nat" where
  "decimal ds = foldl (\<lambda>n c. 10 * n + (of_char c - 48)) 0 ds"

definition array_prefix :: "string \<Rightarrow> (nat \<times> string) option" where
  "array_prefix s =
     (if s \<noteq> [] \<and> hd s = CHR ''['' then
        (let ds = takeWhile is_digit (tl s); rest = dropWhile is_digit (tl s) in
         if ds \<noteq> [] \<and> rest \<noteq> [] \<and> hd rest = CHR '']'' \<and> tl rest \<noteq> [] \<and> one_line (tl rest)
         then Some (decimal ds, tl rest) else None)
      else None)"

definition field_part :: "string \<Rightarrow> (string \<times> string) option" where
  "field_part part =
     (let name = takeWhile is_word part; rest = dropWhile is_word part; ty = dropWhile is_space rest in
      if name \<noteq> [] \<and> rest \<noteq> [] \<and> is_space (hd rest) \<and> ty \<noteq> [] \<and> one_line ty then Some (name, trim ty) else None)"

text \<open>\<open>parsedFields\<close> is an object: a name assigned again is replaced, \<open>__proto__\<close> is not an own
  property, and the names of \<open>Object.prototype\<close> are found in it.\<close>

definition object_prototype_names :: "string list" where
  "object_prototype_names = [''constructor'', ''__defineGetter__'', ''__defineSetter__'', ''hasOwnProperty'', ''__lookupGetter__'',
     ''__lookupSetter__'', ''isPrototypeOf'', ''propertyIsEnumerable'', ''toString'', ''valueOf'', ''__proto__'', ''toLocaleString'']"

definition parsed_fields :: "string \<Rightarrow> (string \<times> string) list" where
  "parsed_fields fieldStr =
     fold (\<lambda>part ps. case field_part part of
         None \<Rightarrow> ps
       | Some (n, t) \<Rightarrow> if n = ''__proto__'' then ps else (n, t) # filter (\<lambda>p. fst p \<noteq> n) ps)
       (map trim (split_char (CHR '';'') fieldStr)) []"

definition struct_string_matches :: "(string \<rightharpoonup> type_info) \<Rightarrow> string \<Rightarrow> type_info \<Rightarrow> bool" where
  "struct_string_matches R elemStr t =
     (case shape t of
        StructInfo ms c fs \<Rightarrow>
          (let fieldStr = butlast (drop 7 elemStr) in
           if last elemStr = CHR ''}'' \<and> fieldStr \<noteq> [] \<and> one_line fieldStr then
             (let parsed = parsed_fields fieldStr in
              length fs = length parsed \<and>
              list_all (\<lambda>f.
                (field_name f \<in> set (map fst parsed) \<or> field_name f \<in> set object_prototype_names) \<and>
                (let ft = normalizeTypeInfo R (field_type f) in
                 if kind ft = Basic then
                   (let expected = or_empty (info_name ft); ty = map_of parsed (field_name f) in
                    expected = ''string'' \<and> ty = Some ''string'' \<or>
                    (expected = ''int'' \<or> expected = ''number'') \<and> (ty = Some ''int'' \<or> ty = Some ''number''))
                 else True)) fs)
           else False)
      | _ \<Rightarrow> False)"

definition integer_names :: "string list" where
  "integer_names = [''byte'', ''rune'', ''int8'', ''int16'', ''int32'', ''int64'', ''uint'', ''uint8'', ''uint16'', ''uint32'',
     ''uint64'', ''uintptr'']"

definition basic_string_matches :: "string \<Rightarrow> type_info \<Rightarrow> bool" where
  "basic_string_matches s t =
     (case typeInfoRuntimeName t of
        None \<Rightarrow> False
      | Some n \<Rightarrow>
          s = n \<or> n = ''uint8'' \<and> s = ''byte'' \<or> n = ''int32'' \<and> s = ''rune'' \<or> n = ''int'' \<and> s \<in> set integer_names)"

lemma array_prefix_shorter [termination_simp]: "array_prefix s = Some (n, r) \<Longrightarrow> length r < length s"
proof -
  assume "array_prefix s = Some (n, r)"
  then have r: "r = tl (dropWhile is_digit (tl s))" "s \<noteq> []" by (auto simp: array_prefix_def Let_def split: if_splits)
  have "length (dropWhile is_digit (tl s)) \<le> length (tl s)" by (rule length_dropWhile_le)
  with r show ?thesis by (cases s) auto
qed

lemma take_two_shorter: "take 2 s = ''[]'' \<Longrightarrow> length s - 2 < length s"
  by (cases s) auto

function compareTypeStringWithTypeInfo :: "(string \<rightharpoonup> type_info) \<Rightarrow> string \<Rightarrow> type_ref \<Rightarrow> bool" where
  "compareTypeStringWithTypeInfo R s r =
     (let t = normalizeTypeInfo R r in
      if typeInfoRuntimeName t = Some s then True
      else case shape t of
        PointerInfo e \<Rightarrow>
          (if s = [] \<or> hd s \<noteq> CHR ''*'' \<or> \<not> present e then False
           else if take 7 (tl s) = ''struct{'' then struct_string_matches R (tl s) (normalizeTypeInfo R (the e))
           else case the e of ByName n \<Rightarrow> tl s = n | Desc d \<Rightarrow> compareTypeStringWithTypeInfo R (tl s) (Desc d))
      | SliceInfo e \<Rightarrow>
          (if take 2 s \<noteq> ''[]'' \<or> \<not> present e then False else compareTypeStringWithTypeInfo R (drop 2 s) (the e))
      | ArrayInfo e n \<Rightarrow>
          (case array_prefix s of
             None \<Rightarrow> False
           | Some (k, rest) \<Rightarrow> if \<not> present e then False else k = n \<and> compareTypeStringWithTypeInfo R rest (the e))
      | BasicInfo \<Rightarrow> basic_string_matches s t
      | _ \<Rightarrow> False)"
  by pat_completeness auto
termination
  by (relation "measure (\<lambda>(R, s, r). length s)") (auto simp: array_prefix_shorter take_two_shorter)

declare compareTypeStringWithTypeInfo.simps [simp del]

definition goTypeMatchesTypeInfo :: "(string \<rightharpoonup> type_info) \<Rightarrow> string \<Rightarrow> type_info \<Rightarrow> bool" where
  "goTypeMatchesTypeInfo R s t \<longleftrightarrow> typeInfoRuntimeName t = Some s \<or> compareTypeStringWithTypeInfo R s (Desc t)"

subsection \<open>Pointers, functions, channels\<close>

definition elem_name :: "type_ref \<Rightarrow> string option" where
  "elem_name r =
     (case r of
        ByName s \<Rightarrow> Some s
      | Desc d \<Rightarrow> (case info_name d of None \<Rightarrow> None | Some n \<Rightarrow> if n = [] then None else Some n))"

definition matchesPointerType :: "type_runtime \<Rightarrow> (js_value \<Rightarrow> type_info \<Rightarrow> bool) \<Rightarrow> js_value \<Rightarrow> type_info \<Rightarrow> bool" where
  "matchesPointerType rt matches v t =
     (if v = VNull \<or> v = VUndefined then True
      else if \<not> typeof_object v then False
      else case shape t of
        PointerInfo e \<Rightarrow>
          (case goType v of
             Some s \<Rightarrow> compareTypeStringWithTypeInfo (named rt) s (Desc t)
           | None \<Rightarrow>
               (if \<not> present e then False
                else case elem_name (the e) of
                  None \<Rightarrow> False
                | Some n \<Rightarrow>
                    (case property v ''value'' of
                       Some w \<Rightarrow> matches w (normalizeTypeInfo (named rt) (the e))
                     | None \<Rightarrow>
                         (case named rt n of
                            Some (TypeInfo i nm tn (StructInfo ms (Some c) fs)) \<Rightarrow>
                              instance_of v c \<and> \<not> isMarkedAsStructValue v
                          | _ \<Rightarrow> False))))
      | _ \<Rightarrow> False)"

definition functionValueTypeInfo :: "fn \<Rightarrow> type_info option" where
  "functionValueTypeInfo f =
     (case fn_typeInfo f of
        None \<Rightarrow> None
      | Some t \<Rightarrow>
          (if kind t \<noteq> Function then None
           else (case fn_goTypeName f of
              None \<Rightarrow> Some t
            | Some n \<Rightarrow>
                (if n \<noteq> [] \<and> or_empty (info_name t) \<noteq> [] \<and> Some n \<noteq> info_name t then None
                 else if n \<noteq> [] \<and> or_empty (info_name t) = [] then Some (TypeInfo 0 (Some n) (typeName t) (shape t))
                 else Some t))))"

definition matchesFunctionType :: "type_runtime \<Rightarrow> (string \<Rightarrow> 'k::linorder) \<Rightarrow> js_value \<Rightarrow> type_info \<Rightarrow> bool" where
  "matchesFunctionType rt collate v t =
     (case v of
        VFun f ps \<Rightarrow>
          (case functionValueTypeInfo f of
             None \<Rightarrow> False
           | Some ft \<Rightarrow> areTypeInfosIdentical (named rt) collate (Desc ft) (Desc t) = Some True)
      | _ \<Rightarrow> False)"

definition direction_name :: "direction \<Rightarrow> string" where
  "direction_name d = (case d of Send \<Rightarrow> ''send'' | Receive \<Rightarrow> ''receive'' | Both \<Rightarrow> ''both'')"

definition has_function :: "js_value \<Rightarrow> string \<Rightarrow> bool" where
  "has_function v n = (case property v n of Some w \<Rightarrow> typeof_function w | None \<Rightarrow> False)"

text \<open>A channel reference holds a channel object.\<close>

definition matchesChannelType :: "js_value \<Rightarrow> type_info \<Rightarrow> bool" where
  "matchesChannelType v t =
     (case shape t of
        ChannelInfo e d \<Rightarrow>
          (if \<not> typeof_object v then False
           else
             (let ref = property v ''channel'' \<noteq> None \<and> property v ''direction'' \<noteq> None;
                  channel = (if ref then the (property v ''channel'') else v);
                  valueDirection = (if ref then the (property v ''direction'') else VString ''both'');
                  zero = property channel ''zeroValue'' in
              if \<not> (has_function channel ''send'' \<and> has_function channel ''receive'' \<and> has_function channel ''close'') then False
              else if e = Some (ByName ''string'') \<and> zero \<noteq> None \<and> zero \<noteq> Some (VString []) then False
              else if e = Some (ByName ''number'') \<and> zero \<noteq> None \<and> \<not> typeof_number (the zero) then False
              else case d of None \<Rightarrow> True | Some dir \<Rightarrow> valueDirection = VString (direction_name dir)))
      | _ \<Rightarrow> False)"

subsection \<open>matchesType\<close>

lemma matchesStructType_cong [fundef_cong]:
  assumes "rt = rt'" "v = v'" "t = t'" "\<And>w u. w \<in> set (parts v') \<Longrightarrow> f w u = g w u"
  shows "matchesStructType rt f v t = matchesStructType rt' g v' t'"
proof -
  have *: "(case property v' k of None \<Rightarrow> False | Some w \<Rightarrow> f w u) = (case property v' k of None \<Rightarrow> False | Some w \<Rightarrow> g w u)" for k u
    using assms(4) property_part [of v' k] by (auto split: option.splits)
  show ?thesis
  proof (cases "shape t'")
    case (StructInfo ms c fs)
    then show ?thesis unfolding assms(1-3) matchesStructType_def by (cases c) (simp_all add: * Let_def)
  qed (simp_all add: assms(1-3) matchesStructType_def)
qed

lemma matchesMapType_cong [fundef_cong]:
  assumes "rt = rt'" "v = v'" "t = t'" "\<And>w u. w \<in> set (parts v') \<Longrightarrow> f w u = g w u"
  shows "matchesMapType rt f v t = matchesMapType rt' g v' t'"
proof -
  have "w \<in> set (parts v')" if "(k, w) \<in> set (map_entries v')" for k w
    using that by (cases v') (force simp: map_entries_def parts_def split: js_data.splits)+
  then have "entries_match rt' f v' k e = entries_match rt' g v' k e" for k e
    unfolding entries_match_def by (intro list.pred_cong refl) (auto dest!: in_set_takeD simp: assms(4))
  then show ?thesis unfolding assms(1-3) matchesMapType_def by (auto split: type_shape.splits)
qed

lemma matchesArrayOrSliceType_cong [fundef_cong]:
  assumes "rt = rt'" "v = v'" "t = t'" "\<And>w u. w \<in> set (parts v') \<Longrightarrow> f w u = g w u"
  shows "matchesArrayOrSliceType rt f v t = matchesArrayOrSliceType rt' g v' t'"
proof -
  have "elements_match rt' f v' e n = elements_match rt' g v' e n" for e n
  proof (cases v')
    case (VObject cs m d own other)
    show ?thesis
    proof (cases d)
      case (ArrayData vs)
      have "f w u = g w u" if "w \<in> set (take 5 vs)" for w u
        using assms(4) [of w u] in_set_takeD [OF that] by (simp add: VObject ArrayData parts_def data_entries_def)
      then show ?thesis by (simp add: VObject ArrayData elements_match_def list_all_iff)
    qed (simp_all add: VObject elements_match_def)
  qed (simp_all add: elements_match_def)
  then show ?thesis unfolding assms(1-3) matchesArrayOrSliceType_def by (auto split: type_shape.splits)
qed

lemma matchesPointerType_cong [fundef_cong]:
  assumes "rt = rt'" "v = v'" "t = t'" "\<And>w u. w \<in> set (parts v') \<Longrightarrow> f w u = g w u"
  shows "matchesPointerType rt f v t = matchesPointerType rt' g v' t'"
  using assms(4) unfolding assms(1-3) matchesPointerType_def
  by (auto split: type_shape.splits option.splits dest: property_part)

function matchesType :: "type_runtime \<Rightarrow> (string \<Rightarrow> 'k::linorder) \<Rightarrow> js_value \<Rightarrow> type_info \<Rightarrow> bool" where
  "matchesType rt collate v t =
     (if v = VNull \<or> v = VUndefined then False
      else if typeof_object v \<and> (case goType v of None \<Rightarrow> False | Some s \<Rightarrow> goTypeMatchesTypeInfo (named rt) s t) then True
      else case kind t of
        Basic \<Rightarrow> matchesBasicType v t
      | Struct \<Rightarrow> matchesStructType rt (matchesType rt collate) v t
      | Interface \<Rightarrow> matchesInterfaceType rt v t
      | MapKind \<Rightarrow> matchesMapType rt (matchesType rt collate) v t
      | Slice \<Rightarrow> matchesArrayOrSliceType rt (matchesType rt collate) v t
      | Array \<Rightarrow> matchesArrayOrSliceType rt (matchesType rt collate) v t
      | Pointer \<Rightarrow> matchesPointerType rt (matchesType rt collate) v t
      | Function \<Rightarrow> matchesFunctionType rt collate v t
      | Channel \<Rightarrow> matchesChannelType v t)"
  by pat_completeness auto
termination
  by (relation "measure (\<lambda>(rt, c, v, t). size v)") (auto simp: size_parts)

declare matchesType.simps [simp del]

subsection \<open>Assertions\<close>

definition zero_of :: "type_runtime \<Rightarrow> type_ref \<Rightarrow> js_value" where
  "zero_of rt r =
     (case (case r of ByName s \<Rightarrow> named rt s | Desc t \<Rightarrow> Some t) of
        None \<Rightarrow> VNull
      | Some t \<Rightarrow> (case zeroValue rt (oid t) of None \<Rightarrow> VNull | Some z \<Rightarrow> z))"

definition typed_nil_assert :: "type_runtime \<Rightarrow> js_value \<Rightarrow> type_info \<Rightarrow> js_value \<times> bool" where
  "typed_nil_assert rt v t =
     (if matchesInterfaceType rt v t then (v, True)
      else if kind t = Pointer then
        (VNull, case goType v of None \<Rightarrow> False | Some s \<Rightarrow> compareTypeStringWithTypeInfo (named rt) s (Desc t))
      else (VNull, False))"

definition typeAssert :: "type_runtime \<Rightarrow> (string \<Rightarrow> 'k::linorder) \<Rightarrow> js_value \<Rightarrow> type_ref \<Rightarrow> js_value \<times> bool" where
  "typeAssert rt collate v r =
     (let t = normalizeTypeInfo (named rt) r in
      if typeof_object v \<and> has_flag v ''__isTypedNil'' then typed_nil_assert rt v t
      else if kind t = Pointer \<and> v = VNull then (VNull, False)
      else if typeof_object v \<and> (case goType v of None \<Rightarrow> False | Some s \<Rightarrow> goTypeMatchesTypeInfo (named rt) s t) then
        (case property v ''__goValue'' of Some w \<Rightarrow> (w, True) | None \<Rightarrow> (v, True))
      else if (case shape t of MapInfo k e \<Rightarrow> typeof_object v \<and> (present k \<or> present e) | _ \<Rightarrow> False) then
        (case shape t of MapInfo k e \<Rightarrow> if entries_match rt (matchesType rt collate) v k e then (v, True) else (VNull, False)
          | _ \<Rightarrow> (VNull, False))
      else if matchesType rt collate v t then (v, True)
      else if (case r of
            ByName s \<Rightarrow> list_ex (\<lambda>c. \<not> same_object c t \<and> matchesType rt collate v c)
              (case duplicateTypeRegistry (registry rt) s of None \<Rightarrow> [] | Some cs \<Rightarrow> cs)
          | Desc d \<Rightarrow> False) then (v, True)
      else (zero_of rt r, False))"

definition typeAssertTuple :: "type_runtime \<Rightarrow> (string \<Rightarrow> 'k::linorder) \<Rightarrow> js_value \<Rightarrow> type_ref \<Rightarrow> js_value \<times> bool" where
  "typeAssertTuple rt collate v r = (let (w, ok) = typeAssert rt collate v r in (w, ok))"

text \<open>\<open>None\<close> is the panic; its text is left out.\<close>

definition mustTypeAssert :: "type_runtime \<Rightarrow> (string \<Rightarrow> 'k::linorder) \<Rightarrow> js_value \<Rightarrow> type_ref \<Rightarrow> js_value option" where
  "mustTypeAssert rt collate v r = (let (w, ok) = typeAssert rt collate v r in if \<not> ok then None else Some w)"

definition is_type :: "type_runtime \<Rightarrow> (string \<Rightarrow> 'k::linorder) \<Rightarrow> js_value \<Rightarrow> type_ref \<Rightarrow> bool" where
  "is_type rt collate v r = matchesType rt collate v (normalizeTypeInfo (named rt) r)"

fun typeSwitch ::
  "type_runtime \<Rightarrow> (string \<Rightarrow> 'k::linorder) \<Rightarrow> js_value \<Rightarrow> (type_ref list \<times> (js_value \<Rightarrow> 'r)) list \<Rightarrow> 'r option \<Rightarrow> 'r option" where
  "typeSwitch rt collate v [] defaultCase = defaultCase"
| "typeSwitch rt collate v ((types, body) # cases) defaultCase =
     (case types of
        [] \<Rightarrow> typeSwitch rt collate v cases defaultCase
      | [r] \<Rightarrow>
          (case typeAssert rt collate v r of
             (w, ok) \<Rightarrow> if ok then Some (body w) else typeSwitch rt collate v cases defaultCase)
      | _ \<Rightarrow>
          if list_ex (is_type rt collate v) types then Some (body v) else typeSwitch rt collate v cases defaultCase)"

subsection \<open>Values with a type\<close>

definition markAsStructValue :: "js_value \<Rightarrow> js_value" where
  "markAsStructValue v = (case v of VObject cs m d own other \<Rightarrow> VObject cs True d own other | _ \<Rightarrow> v)"

definition typedNil :: "string \<Rightarrow> js_value" where
  "typedNil n = VObject [] False PlainData [(''__goType'', VString n), (''__isTypedNil'', VBool True)] []"

text \<open>\<open>defineProperty\<close> on a property that exists keeps whether it is enumerable.\<close>

definition define_property :: "js_value \<Rightarrow> string \<Rightarrow> js_value \<Rightarrow> js_value" where
  "define_property v n w =
     (case v of
        VObject cs m d own other \<Rightarrow>
          (if n \<in> set (map fst own) then VObject cs m d (map (\<lambda>(k, x). if k = n then (k, w) else (k, x)) own) other
           else VObject cs m d own ((n, w) # other))
      | _ \<Rightarrow> v)"

text \<open>The method of a typed nil is an arrow function with a rest parameter: its \<open>length\<close> is 0.\<close>

definition nil_method :: "js_value" where
  "nil_method = VFun (Fn 0 False None None None) []"

definition interfaceValue :: "type_runtime \<Rightarrow> js_value \<Rightarrow> string \<Rightarrow> js_value" where
  "interfaceValue rt v n =
     (if v \<noteq> VNull \<and> v \<noteq> VUndefined then (if typeof_object v then define_property v ''__goType'' (VString n) else v)
      else if n = [] \<or> hd n \<noteq> CHR ''*'' then typedNil n
      else case named rt (tl n) of
        Some (TypeInfo i nm tn (StructInfo ms (Some c) fs)) \<Rightarrow>
          VObject [] False PlainData
            ([(''__goType'', VString n), (''__isTypedNil'', VBool True)] @
             map (\<lambda>m. (method_name m, nil_method))
               (filter (\<lambda>m. case map_of (prototype rt c) (method_name m) of Some w \<Rightarrow> typeof_function w | None \<Rightarrow> False) ms)) []
      | _ \<Rightarrow> typedNil n)"

definition wrapperMethodSignatureFromTypeInfo :: "type_runtime \<Rightarrow> string \<Rightarrow> type_ref option \<Rightarrow> method_sig option" where
  "wrapperMethodSignatureFromTypeInfo rt name r =
     (case (case r of None \<Rightarrow> None | Some (ByName s) \<Rightarrow> named rt s | Some (Desc t) \<Rightarrow> Some t) of
        None \<Rightarrow> None
      | Some t \<Rightarrow>
          (case shape t of
             FunctionInfo ps rs v \<Rightarrow> Some (MethodSig name (case ps of None \<Rightarrow> [] | Some x \<Rightarrow> x) (case rs of None \<Rightarrow> [] | Some x \<Rightarrow> x))
           | StructInfo ms c fs \<Rightarrow> find (\<lambda>m. method_name m = name) ms
           | InterfaceInfo ms \<Rightarrow> find (\<lambda>m. method_name m = name) ms
           | _ \<Rightarrow> None))"

text \<open>The box of a named value. \<open>methods\<close> are the names of its methods; the box's own \<open>valueOf\<close> and
  \<open>toString\<close> are functions (a method of these names replaces them).\<close>

definition type_info_value :: "type_ref option \<Rightarrow> js_value" where
  "type_info_value r =
     (case r of None \<Rightarrow> VUndefined | Some (ByName s) \<Rightarrow> VString s | Some (Desc t) \<Rightarrow> VObject [] False PlainData [] [])"

definition namedValueInterfaceValue :: "type_runtime \<Rightarrow> js_value \<Rightarrow> string \<Rightarrow> string list \<Rightarrow> type_ref option \<Rightarrow> js_value" where
  "namedValueInterfaceValue rt v n methods r =
     VObject [] False PlainData
       (map (\<lambda>m. (m, VFun (Fn 0 True (wrapperMethodSignatureFromTypeInfo rt m r) None None) [])) methods @
        [(''__goType'', VString n), (''__goValue'', v), (''__goTypeInfo'', type_info_value r),
         (''valueOf'', nil_method), (''toString'', nil_method)]) []"

definition namedFunction :: "js_value \<Rightarrow> string \<Rightarrow> type_info option \<Rightarrow> js_value" where
  "namedFunction v n t =
     (case v of
        VFun (Fn a w s ti tn) ps \<Rightarrow> VFun (Fn a w s (case t of None \<Rightarrow> ti | Some x \<Rightarrow> Some x) (Some n)) ps
      | _ \<Rightarrow> v)"

definition functionValue :: "js_value \<Rightarrow> type_info \<Rightarrow> js_value" where
  "functionValue v t =
     (case v of
        VFun (Fn a w s ti tn) ps \<Rightarrow> VFun (Fn a w s (Some t) (if or_empty (info_name t) \<noteq> [] then info_name t else tn)) ps
      | _ \<Rightarrow> v)"

subsection \<open>Struct values and pointers\<close>

text \<open>An object of the class \<open>c\<close>, as \<open>new\<close> makes it: no type string, and not a variable reference.\<close>

definition plain_instance :: "js_value \<Rightarrow> nat \<Rightarrow> bool" where
  "plain_instance v c \<longleftrightarrow> instance_of v c \<and> goType v = None \<and> property v ''value'' = None \<and> \<not> has_flag v ''__isTypedNil''"

lemma instance_object: "instance_of v c \<Longrightarrow> typeof_object v \<and> v \<noteq> VNull \<and> v \<noteq> VUndefined"
  by (cases v) (simp_all add: instance_of_def)

lemma mark_plain_instance: "plain_instance v c \<Longrightarrow> plain_instance (markAsStructValue v) c \<and> isMarkedAsStructValue (markAsStructValue v)"
  by (cases v) (simp_all add: plain_instance_def instance_of_def markAsStructValue_def isMarkedAsStructValue_def goType_def has_flag_def)

lemma plain_struct_match:
  assumes "plain_instance v c" "shape t = StructInfo ms (Some c) fs"
  shows "matchesType rt collate v t \<longleftrightarrow> isMarkedAsStructValue v"
  using assms instance_object [of v c]
  by (subst matchesType.simps) (simp add: plain_instance_def matchesStructType_def)

definition pointer_to :: "nat \<Rightarrow> string \<Rightarrow> type_info" where
  "pointer_to i n = TypeInfo i None None (PointerInfo (Some (ByName n)))"

lemma plain_pointer_match:
  assumes "plain_instance v c" "named rt n = Some t" "shape t = StructInfo ms (Some c) fs" "n \<noteq> []"
  shows "matchesType rt collate v (pointer_to i n) \<longleftrightarrow> \<not> isMarkedAsStructValue v"
proof -
  obtain j nm tn where "t = TypeInfo j nm tn (StructInfo ms (Some c) fs)" using assms(3) by (cases t) simp
  then show ?thesis using assms instance_object [of v c]
    by (subst matchesType.simps)
      (simp add: plain_instance_def matchesPointerType_def pointer_to_def present_def elem_name_def)
qed

text \<open>C39. Let \<open>v\<close> be an instance of the class of a struct type that is registered, once, under a name
  that is not empty, and let \<open>v\<close> carry no type string and no nil mark and have no property named
  \<open>value\<close> (a struct with a field of that name is excluded). Then it is either a value of the struct
  type or a pointer to it, never both and never neither: \<open>x.(T)\<close> succeeds exactly if it is marked as
  a value, \<open>x.(*T)\<close> exactly if it is not, both with the instance itself; marking turns the one into the
  other. A variable reference (an object with a property \<open>value\<close> and no type string) is a pointer to
  the type exactly when it holds a value of it.\<close>

theorem value_or_pointer:
  assumes "plain_instance v c" "named rt n = Some t" "shape t = StructInfo ms (Some c) fs" "n \<noteq> []"
    and "duplicateTypeRegistry (registry rt) n = None"
    and "property box ''value'' = Some v" "typeof_object box" "goType box = None" "\<not> has_flag box ''__isTypedNil''"
  shows "typeAssert rt collate v (ByName n) = (if isMarkedAsStructValue v then (v, True) else (zero_of rt (ByName n), False)) \<and>
    typeAssert rt collate v (Desc (pointer_to i n)) =
      (if isMarkedAsStructValue v then (zero_of rt (Desc (pointer_to i n)), False) else (v, True)) \<and>
    snd (typeAssert rt collate (markAsStructValue v) (ByName n)) \<and>
    \<not> snd (typeAssert rt collate (markAsStructValue v) (Desc (pointer_to i n))) \<and>
    snd (typeAssert rt collate box (Desc (pointer_to i n))) = isMarkedAsStructValue v"
proof -
  note match = plain_struct_match [of _ c t ms fs rt collate, OF _ assms(3)]
    plain_pointer_match [OF _ assms(2-4), of _ collate i]
  have t: "normalizeTypeInfo (named rt) (ByName n) = t" "kind t = Struct" "shape t = StructInfo ms (Some c) fs" using assms(2,3) by simp_all
  have p: "kind (pointer_to i n) = Pointer" "normalizeTypeInfo (named rt) (Desc (pointer_to i n)) = pointer_to i n"
    "shape (pointer_to i n) = PointerInfo (Some (ByName n))" by (simp_all add: pointer_to_def)
  have box: "matchesType rt collate box (pointer_to i n) = isMarkedAsStructValue v"
    using assms(2,4,6-8) match(1) [OF assms(1)]
    by (subst matchesType.simps) (cases box; simp add: pointer_to_def matchesPointerType_def present_def elem_name_def)
  have plain: "typeAssert rt collate w (ByName n) = (if isMarkedAsStructValue w then (w, True) else (zero_of rt (ByName n), False))"
    "typeAssert rt collate w (Desc (pointer_to i n)) =
      (if isMarkedAsStructValue w then (zero_of rt (Desc (pointer_to i n)), False) else (w, True))"
    if "plain_instance w c" for w
    using that match [OF that] instance_object [of w c] assms(5)
    by (simp_all add: typeAssert_def t p Let_def plain_instance_def del: normalizeTypeInfo.simps)
  have "snd (typeAssert rt collate box (Desc (pointer_to i n))) = isMarkedAsStructValue v"
    using assms(7-9) box by (cases box) (simp_all add: typeAssert_def p Let_def del: normalizeTypeInfo.simps)
  with plain [OF assms(1)] plain [of "markAsStructValue v"] mark_plain_instance [OF assms(1)] show ?thesis by simp
qed

definition sample_runtime :: type_runtime where
  "sample_runtime =
     \<lparr>registry = fold register [RegisterStruct 5 ''T'' [MethodSig ''Write'' [ByName ''string''] []] 1 []] empty_registry,
      zeroValue = Map.empty, prototype = (\<lambda>c. [(''Write'', VFun (Fn 1 False None None None) [])])\<rparr>"

lemma sample_T: "named sample_runtime ''T'' = Some (TypeInfo 5 (Some ''T'') None (StructInfo [MethodSig ''Write'' [ByName ''string''] []] (Some 1) []))"
  "duplicateTypeRegistry (registry sample_runtime) ''T'' = None"
  by (simp_all add: sample_runtime_def register_is registerTypeInfo_def empty_registry_def)

theorem value_or_pointer_witness:
  "typeAssert sample_runtime (length :: string \<Rightarrow> nat) (VObject [1] False PlainData [] []) (Desc (pointer_to 9 ''T'')) =
    (VObject [1] False PlainData [] [], True)"
proof -
  let ?v = "VObject [1] False PlainData [] []" and ?box = "VObject [7] False PlainData [(''value'', VObject [1] False PlainData [] [])] []"
  have v: "plain_instance ?v 1" by (simp add: plain_instance_def instance_of_def goType_def has_flag_def data_entries_def)
  have b: "property ?box ''value'' = Some ?v" "typeof_object ?box" "goType ?box = None" "\<not> has_flag ?box ''__isTypedNil''"
    by (simp_all add: goType_def has_flag_def data_entries_def)
  show ?thesis
    using value_or_pointer [OF v sample_T(1) _ _ sample_T(2) b, of "[MethodSig ''Write'' [ByName ''string''] []]" "[]" "length :: string \<Rightarrow> nat" 9]
    by (simp add: isMarkedAsStructValue_def)
qed

text \<open>A struct with a field \<open>value\<close> is taken for a variable reference: its instances that are not marked are
  pointers to the type only if the field holds a value of the type itself. Here the field holds a
  boolean, and the instance is neither a \<open>T\<close> nor a \<open>*T\<close>.\<close>

lemma value_field_hides_pointer:
  "snd (typeAssert sample_runtime (length :: string \<Rightarrow> nat) (VObject [1] False PlainData [(''value'', VBool True)] []) (ByName ''T'')) = False"
  "snd (typeAssert sample_runtime (length :: string \<Rightarrow> nat) (VObject [1] False PlainData [(''value'', VBool True)] []) (Desc (pointer_to 9 ''T''))) = False"
proof -
  let ?v = "VObject [1] False PlainData [(''value'', VBool True)] []" and ?T = "TypeInfo 5 (Some ''T'') None (StructInfo [MethodSig ''Write'' [ByName ''string''] []] (Some 1) [])"
  have T: "normalizeTypeInfo (named sample_runtime) (ByName ''T'') = ?T" using sample_T(1) by simp
  have no: "\<not> matchesType sample_runtime (length :: string \<Rightarrow> nat) w ?T" if "w = ?v \<or> w = VBool True" for w
    using that by (subst matchesType.simps) (auto simp: matchesStructType_def instance_of_def isMarkedAsStructValue_def goType_def data_entries_def)
  have p: "\<not> matchesType sample_runtime (length :: string \<Rightarrow> nat) ?v (pointer_to 9 ''T'')"
    using no [of "VBool True"] sample_T(1)
    by (subst matchesType.simps) (simp add: pointer_to_def matchesPointerType_def present_def elem_name_def goType_def data_entries_def)
  show "snd (typeAssert sample_runtime (length :: string \<Rightarrow> nat) ?v (ByName ''T'')) = False"
    using no [of ?v] sample_T by (simp add: typeAssert_def T Let_def goType_def has_flag_def data_entries_def del: normalizeTypeInfo.simps)
  show "snd (typeAssert sample_runtime (length :: string \<Rightarrow> nat) ?v (Desc (pointer_to 9 ''T''))) = False"
    using p by (simp add: typeAssert_def pointer_to_def Let_def goType_def has_flag_def data_entries_def)
qed

subsection \<open>Assertions and switches on values without a type string\<close>

lemma registered_not_map:
  assumes "registered_names R" "shape (normalizeTypeInfo R r) = MapInfo k e"
  obtains d where "r = Desc d"
proof -
  have "\<not> nominal_kind (kind (normalizeTypeInfo R r))" using assms(2) by (simp add: nominal_kind_def)
  then show ?thesis using structural_desc [OF assms(1), of r] that by blast
qed

lemma typeAssert_plain:
  assumes "registered_names (named rt)" "duplicateTypeRegistry (registry rt) = Map.empty"
    and v: "goType v = None" "\<not> has_flag v ''__isTypedNil''"
  shows "snd (typeAssert rt collate v r) = is_type rt collate v r"
    "is_type rt collate v r \<Longrightarrow> fst (typeAssert rt collate v r) = v"
proof -
  let ?t = "normalizeTypeInfo (named rt) r"
  have "typeAssert rt collate v r = (v, True) \<and> is_type rt collate v r \<or>
      (\<exists>z. typeAssert rt collate v r = (z, False)) \<and> \<not> is_type rt collate v r"
  proof (cases "\<exists>k e. shape ?t = MapInfo k e \<and> typeof_object v \<and> (present k \<or> present e)")
    case True
    then obtain k e where m: "shape ?t = MapInfo k e" "typeof_object v" "present k \<or> present e" by blast
    then have "matchesType rt collate v ?t = entries_match rt (matchesType rt collate) v k e"
      using v by (subst matchesType.simps) (cases v; simp add: matchesMapType_def)
    with m v show ?thesis by (auto simp: typeAssert_def is_type_def Let_def)
  next
    case False
    then have m: "\<not> (case shape ?t of MapInfo k e \<Rightarrow> typeof_object v \<and> (present k \<or> present e) | _ \<Rightarrow> False)"
      by (auto split: type_shape.splits)
    have null: "\<not> matchesType rt collate VNull ?t" by (subst matchesType.simps) simp
    show ?thesis
    proof (cases "kind ?t = Pointer \<and> v = VNull")
      case True
      then show ?thesis using null by (simp add: typeAssert_def is_type_def)
    next
      case False
      with m v assms(2) show ?thesis unfolding typeAssert_def is_type_def Let_def
        by (cases r) (auto simp del: normalizeTypeInfo.simps)
    qed
  qed
  then show "snd (typeAssert rt collate v r) = is_type rt collate v r"
    "is_type rt collate v r \<Longrightarrow> fst (typeAssert rt collate v r) = v" by auto
qed

text \<open>On a value without a type string, when no type name is registered twice, a type switch runs
  the body of the first case one of whose types the value has, with the value itself, and the default
  otherwise; an assertion returns the value when it has the type and panics when not.\<close>

theorem type_switch_first:
  assumes "registered_names (named rt)" "duplicateTypeRegistry (registry rt) = Map.empty"
    and "goType v = None" "\<not> has_flag v ''__isTypedNil''"
  shows "typeSwitch rt collate v cases d =
      (case find (\<lambda>(types, body). list_ex (is_type rt collate v) types) cases of
         None \<Rightarrow> d | Some (types, body) \<Rightarrow> Some (body v)) \<and>
    mustTypeAssert rt collate v r = (if is_type rt collate v r then Some v else None)"
proof -
  note plain = typeAssert_plain [OF assms]
  have step: "typeSwitch rt collate v ((types, body) # cases) d =
      (if list_ex (is_type rt collate v) types then Some (body v) else typeSwitch rt collate v cases d)" for types body cases
  proof (cases types)
    case (Cons a as)
    show ?thesis
    proof (cases as)
      case Nil
      then show ?thesis using Cons plain [of collate a] by (cases "typeAssert rt collate v a") auto
    qed (simp add: Cons)
  qed simp
  have "typeSwitch rt collate v cases d =
      (case find (\<lambda>(types, body). list_ex (is_type rt collate v) types) cases of
         None \<Rightarrow> d | Some (types, body) \<Rightarrow> Some (body v))"
    by (induction cases) (auto simp: step simp del: typeSwitch.simps(2))
  moreover have "mustTypeAssert rt collate v r = (if is_type rt collate v r then Some v else None)"
    using plain [of collate r] by (cases "typeAssert rt collate v r") (auto simp: mustTypeAssert_def)
  ultimately show ?thesis by blast
qed

theorem type_switch_first_witness:
  "typeSwitch sample_runtime (length :: string \<Rightarrow> nat) (VString ''x'')
     [([ByName ''bool'', ByName ''int''], \<lambda>v. 1), ([ByName ''string''], \<lambda>v. 2)] None = Some (2 :: nat)"
proof -
  have r: "registered_names (named sample_runtime)" unfolding sample_runtime_def type_runtime.select_convs
    by (rule registered_names_history)
  have d: "duplicateTypeRegistry (registry sample_runtime) = Map.empty"
    by (simp add: sample_runtime_def register_is registerTypeInfo_def empty_registry_def)
  have n: "named sample_runtime m = None" if "m \<noteq> ''T''" for m
    using that by (simp add: sample_runtime_def register_is registerTypeInfo_def empty_registry_def)
  show ?thesis
    using type_switch_first [OF r d, of "VString ''x''" "length :: string \<Rightarrow> nat"
        "[([ByName ''bool'', ByName ''int''], \<lambda>v. 1), ([ByName ''string''], \<lambda>v. 2 :: nat)]" None "ByName ''bool''"]
    by (simp add: goType_def has_flag_def is_type_def n matchesType.simps matchesBasicType_def typeof_string_def typeof_number_def
        typeof_boolean_def number_names_def)
qed

subsection \<open>Departures from the language\<close>

text \<open>A nil pointer in an interface keeps its methods, but the arrow functions that stand for them
  have no parameters: an interface with a method that takes an argument is not implemented.\<close>

definition writer_info :: type_info where
  "writer_info = TypeInfo 6 (Some ''Writer'') None (InterfaceInfo [MethodSig ''Write'' [ByName ''string''] []])"

lemma nil_pointer_loses_methods:
  "property (interfaceValue sample_runtime VNull ''*T'') ''Write'' = Some nil_method"
  "\<not> snd (typeAssert sample_runtime (length :: string \<Rightarrow> nat) (interfaceValue sample_runtime VNull ''*T'') (Desc writer_info))"
  using sample_T
  by (simp_all add: interfaceValue_def sample_runtime_def typeAssert_def data_entries_def has_flag_def truthy_def typed_nil_assert_def
      writer_info_def matchesInterfaceType_def method_target_def implements_method_def nil_method_def methodWrapperMatchesSignature_def
      methodWrapperSignature_def)

text \<open>The method wrappers of a named function type all get the signature of the function type.\<close>

lemma named_function_methods:
  "\<not> matchesInterfaceType rt
     (namedValueInterfaceValue rt (VFun (Fn 1 False None None None) []) ''main.F'' [''String'']
       (Some (Desc (TypeInfo 7 (Some ''F'') None (FunctionInfo (Some [ByName ''int'']) (Some []) None)))))
     (TypeInfo 8 (Some ''Stringer'') None (InterfaceInfo [MethodSig ''String'' [] [ByName ''string'']]))"
  by (simp add: namedValueInterfaceValue_def matchesInterfaceType_def method_target_def data_entries_def implements_method_def
      methodWrapperSignature_def wrapperMethodSignatureFromTypeInfo_def methodSignaturesMatch_def)

text \<open>Keys of a map are known only for three basic types; other maps match only while they are empty.\<close>

lemma map_key_types:
  "matchesType rt collate (VObject [0] False (MapData []) [] []) (TypeInfo 7 None None (MapInfo (Some (Desc (TypeInfo 8 (Some ''bool'') None BasicInfo))) None))"
  "\<not> matchesType rt collate (VObject [0] False (MapData [(VBool True, w)]) [] [])
     (TypeInfo 7 None None (MapInfo (Some (Desc (TypeInfo 8 (Some ''bool'') None BasicInfo))) None))"
  by (simp_all add: matchesType.simps goType_def data_entries_def matchesMapType_def present_def entries_match_def map_entries_def validateMapKey_def)

text \<open>The length of an array that is not a byte array is not compared.\<close>

lemma array_length_ignored:
  "matchesType rt collate (VObject [0] False (ArrayData [VNumber (Fin 1), VNumber (Fin 2)]) [] [])
     (TypeInfo 7 None None (ArrayInfo (Some (Desc (TypeInfo 8 (Some ''int'') None BasicInfo))) 3))"
proof -
  have "goType (VObject [0] False (ArrayData [VNumber (Fin 1), VNumber (Fin 2)]) [] []) = None"
    by (simp add: goType_def data_entries_def numeral_2_eq_2 nat_string_def digits_rev.simps)
  then show ?thesis
    by (simp add: matchesType.simps matchesArrayOrSliceType_def elements_match_def present_def matchesBasicType_def number_names_def typeof_number_def)
qed

text \<open>A pointer to \<open>int\<close> accepts the nil pointer of any integer type.\<close>

lemma int_accepts_integers:
  "typeAssert rt collate (typedNil ''*int8'') (Desc (TypeInfo 7 None None (PointerInfo (Some (Desc (TypeInfo 8 (Some ''int'') None BasicInfo)))))) =
    (VNull, True)"
  by (simp add: typeAssert_def typedNil_def data_entries_def has_flag_def truthy_def typed_nil_assert_def matchesInterfaceType_def goType_def
      compareTypeStringWithTypeInfo.simps typeInfoRuntimeName_def present_def basic_string_matches_def integer_names_def)

subsection \<open>Type strings of nil pointers\<close>

text \<open>The string the compiler gives a pointer, slice or array of a named type.\<close>

inductive type_string :: "(string \<rightharpoonup> type_info) \<Rightarrow> type_ref \<Rightarrow> string \<Rightarrow> bool" for R where
  named: "info_name (normalizeTypeInfo R r) = Some n \<Longrightarrow> typeName (normalizeTypeInfo R r) = None \<Longrightarrow>
    nominal_kind (kind (normalizeTypeInfo R r)) \<Longrightarrow> list_all is_word n \<Longrightarrow> n \<noteq> [] \<Longrightarrow> n \<notin> set [''int'', ''int32'', ''uint8''] \<Longrightarrow>
    (case r of ByName s \<Rightarrow> s = n | Desc d \<Rightarrow> True) \<Longrightarrow> type_string R r n"
| pointer: "type_string R e s \<Longrightarrow> type_string R (Desc (TypeInfo i None None (PointerInfo (Some e)))) (''*'' @ s)"
| slice: "type_string R e s \<Longrightarrow> type_string R (Desc (TypeInfo i None None (SliceInfo (Some e)))) (''[]'' @ s)"
| array: "type_string R e s \<Longrightarrow> type_string R (Desc (TypeInfo i None None (ArrayInfo (Some e) n))) (''['' @ nat_string n @ '']'' @ s)"

lemma digits_of: "c \<in> set (nat_string n) \<Longrightarrow> is_digit c"
  using nat_string_digits [of c n] by (simp add: is_digit_def)

lemma decimal_nat_string [simp]: "decimal (nat_string n) = n"
proof -
  have "foldl (\<lambda>n c. 10 * n + (of_char c - 48)) 0 (map (\<lambda>d. char_of (48 + d)) (rev (digits_rev n))) = n"
  proof (induction n rule: digits_rev.induct)
    case (1 n)
    have "(of_char (char_of (48 + n mod 10) :: char) :: nat) = 48 + n mod 10" by simp
    with 1 show ?case by (subst digits_rev.simps) auto
  qed
  then show ?thesis by (simp add: decimal_def nat_string_def)
qed

lemma type_string_line: "type_string R r s \<Longrightarrow> s \<noteq> [] \<and> one_line s \<and> CHR ''{'' \<notin> set s"
proof (induction rule: type_string.induct)
  case (named r n)
  then show ?case by (auto simp: one_line_def list_all_iff is_word_def is_digit_def)
next
  case (array e s i n)
  then show ?case using nat_string_digits [of _ n] by (fastforce simp: one_line_def list_all_iff)
qed (auto simp: one_line_def)

lemma array_prefix_printed:
  "s \<noteq> [] \<Longrightarrow> one_line s \<Longrightarrow> array_prefix (''['' @ nat_string n @ '']'' @ s) = Some (n, s)"
proof -
  assume s: "s \<noteq> []" "one_line s"
  have d: "\<forall>c\<in>set (nat_string n). is_digit c" by (simp add: digits_of)
  have "\<not> is_digit (CHR '']'')" by (simp add: is_digit_def)
  with d have "takeWhile is_digit (nat_string n @ '']'' @ s) = nat_string n" "dropWhile is_digit (nat_string n @ '']'' @ s) = '']'' @ s"
    by simp_all
  with s show ?thesis by (simp add: array_prefix_def Let_def)
qed

lemma word_chars: "\<not> is_word (CHR ''*'')" "\<not> is_word (CHR ''['')"
  by (simp_all add: is_word_def is_digit_def)

lemma type_string_form:
  assumes "type_string R q s"
  obtains (word) "hd s \<noteq> CHR ''*''" "hd s \<noteq> CHR ''[''"
  | (star) e u where "s = ''*'' @ u" "type_string R e u"
  | (slice) e u where "s = ''[]'' @ u" "type_string R e u"
  | (array) e n u where "s = ''['' @ nat_string n @ '']'' @ u" "type_string R e u"
  using assms
proof cases
  case named
  then have "is_word (hd s)" by (cases s) simp_all
  then show ?thesis using word word_chars by metis
qed (use star slice array in blast)+

lemma array_prefix_word: "hd s \<noteq> CHR ''['' \<Longrightarrow> array_prefix s = None"
  by (simp add: array_prefix_def)

lemma take_two_array: "take 2 (''['' @ nat_string n @ '']'' @ u) \<noteq> ''[]''"
proof -
  obtain c cs where "nat_string n = c # cs" by (cases "nat_string n") auto
  moreover from this have "is_digit c" using digits_of [of c n] by simp
  ultimately show ?thesis by (auto simp: is_digit_def)
qed

lemma type_string_present: "type_string R e s \<Longrightarrow> present (Some e)"
  by (cases e) (auto simp: present_def elim: type_string.cases)

lemma type_string_name: "type_string R (ByName n) s \<Longrightarrow> s = n"
  by (cases rule: type_string.cases) auto

lemma compare_type_string:
  "type_string R r s \<Longrightarrow> type_string R q s' \<Longrightarrow> compareTypeStringWithTypeInfo R s' r \<longleftrightarrow> s' = s"
proof (induction arbitrary: q s' rule: type_string.induct)
  case (named r n)
  then have "typeInfoRuntimeName (normalizeTypeInfo R r) = Some n" by (simp add: typeInfoRuntimeName_def)
  with named.hyps show ?case
    by (subst compareTypeStringWithTypeInfo.simps, cases "shape (normalizeTypeInfo R r)")
      (auto simp: basic_string_matches_def nominal_kind_def Let_def)
next
  case (pointer e s i)
  have unfold: "compareTypeStringWithTypeInfo R s' (Desc (TypeInfo i None None (PointerInfo (Some e)))) =
      (if s' = [] \<or> hd s' \<noteq> CHR ''*'' then False
       else if take 7 (tl s') = ''struct{'' then struct_string_matches R (tl s') (normalizeTypeInfo R e)
       else case e of ByName n \<Rightarrow> tl s' = n | Desc d \<Rightarrow> compareTypeStringWithTypeInfo R (tl s') (Desc d))"
    using type_string_present [OF pointer.hyps]
    by (subst compareTypeStringWithTypeInfo.simps) (simp add: typeInfoRuntimeName_def)
  show ?case
  proof (cases "s' \<noteq> [] \<and> hd s' = CHR ''*''")
    case True
    with pointer.prems obtain e' u where u: "s' = ''*'' @ u" "type_string R e' u" by (cases rule: type_string_form) auto
    have "CHR ''{'' \<notin> set u" using type_string_line [OF u(2)] by simp
    then have "take 7 u \<noteq> ''struct{''" by (metis in_set_takeD list.set_intros(1) list.set_intros(2))
    moreover have "(case e of ByName n \<Rightarrow> u = n | Desc d \<Rightarrow> compareTypeStringWithTypeInfo R u (Desc d)) \<longleftrightarrow> u = s"
      using pointer.IH [OF u(2)] type_string_name pointer.hyps by (cases e) auto
    ultimately show ?thesis unfolding unfold unfolding u(1) by (cases e) simp_all
  qed (auto simp: unfold)
next
  case (slice e s i)
  have unfold: "compareTypeStringWithTypeInfo R s' (Desc (TypeInfo i None None (SliceInfo (Some e)))) =
      (if take 2 s' \<noteq> ''[]'' then False else compareTypeStringWithTypeInfo R (drop 2 s') e)"
    using type_string_present [OF slice.hyps]
    by (subst compareTypeStringWithTypeInfo.simps) (simp add: typeInfoRuntimeName_def)
  from slice.prems show ?case
  proof (cases rule: type_string_form)
    case (slice e' u)
    with slice.IH [OF slice(2)] show ?thesis unfolding unfold by simp
  next
    case (array e' n u)
    from take_two_array [of n u] have "take 2 s' \<noteq> ''[]''" unfolding array(1) .
    then show ?thesis unfolding unfold by auto
  qed (unfold unfold, cases s', auto)
next
  case (array e s i n)
  have unfold: "compareTypeStringWithTypeInfo R s' (Desc (TypeInfo i None None (ArrayInfo (Some e) n))) =
      (case array_prefix s' of None \<Rightarrow> False | Some (k, rest) \<Rightarrow> k = n \<and> compareTypeStringWithTypeInfo R rest e)"
    using type_string_present [OF array.hyps]
    by (subst compareTypeStringWithTypeInfo.simps) (simp add: typeInfoRuntimeName_def split: option.splits)
  have self: "array_prefix (''['' @ nat_string n @ '']'' @ s) = Some (n, s)"
    using type_string_line [OF array.hyps] by (intro array_prefix_printed) simp_all
  from array.prems show ?case
  proof (cases rule: type_string_form)
    case word
    then show ?thesis unfolding unfold by (cases s') (auto simp: array_prefix_word)
  next
    case (array e' k u)
    have "array_prefix s' = Some (k, u)"
      unfolding array(1) using type_string_line [OF array(2)] by (intro array_prefix_printed) simp_all
    moreover have "s' = ''['' @ nat_string n @ '']'' @ s \<longleftrightarrow> k = n \<and> u = s"
    proof
      assume "s' = ''['' @ nat_string n @ '']'' @ s"
      with self calculation show "k = n \<and> u = s" by simp
    qed (simp add: array(1))
    ultimately show ?thesis unfolding unfold using array.IH [OF array(2)] by simp
  next
    case (star e' u)
    then have none: "array_prefix s' = None" by (simp add: array_prefix_def)
    show ?thesis unfolding unfold none using star(1) by simp
  next
    case (slice e' u)
    then have none: "array_prefix s' = None" by (simp add: array_prefix_def is_digit_def)
    with self have "s' \<noteq> ''['' @ nat_string n @ '']'' @ s" by fastforce
    then show ?thesis unfolding unfold none by simp
  qed
qed

text \<open>A nil pointer in an interface keeps its type: asserted to a pointer type it gives the nil
  pointer, with success exactly when its type string is the string of that type. Pointers to named
  types, and to pointers, slices and arrays of them, are covered; the names int, int32 and uint8,
  which also match other integer types, are not.\<close>

theorem nil_pointer_types:
  assumes "type_string (named rt) (Desc p) s" "type_string (named rt) q s'" "kind p = Pointer"
  shows "typeAssert rt collate (typedNil s') (Desc p) = (VNull, s' = s)"
proof -
  have v: "typeof_object (typedNil s')" "has_flag (typedNil s') ''__isTypedNil''" "goType (typedNil s') = Some s'"
    by (simp_all add: typedNil_def data_entries_def has_flag_def truthy_def goType_def)
  have "\<not> matchesInterfaceType rt w p" for w using assms(3) by (cases "shape p") (simp_all add: matchesInterfaceType_def)
  then show ?thesis using v assms(3) compare_type_string [OF assms(1,2)] by (simp add: typeAssert_def typed_nil_assert_def)
qed

theorem nil_pointer_types_witness:
  "typeAssert sample_runtime (length :: string \<Rightarrow> nat) (typedNil ''*[]T'') (Desc (pointer_to 9 ''T'')) = (VNull, False)"
proof -
  have n: "normalizeTypeInfo (named sample_runtime) (ByName ''T'') =
      TypeInfo 5 (Some ''T'') None (StructInfo [MethodSig ''Write'' [ByName ''string''] []] (Some 1) [])"
    using sample_T by simp
  have T: "type_string (named sample_runtime) (ByName ''T'') ''T''"
    by (rule type_string.named) (simp_all add: n nominal_kind_def is_word_def del: normalizeTypeInfo.simps)
  have "type_string (named sample_runtime) (Desc (pointer_to 9 ''T'')) (''*'' @ ''T'')"
    unfolding pointer_to_def by (rule type_string.pointer [OF T])
  moreover have "type_string (named sample_runtime)
      (Desc (TypeInfo 10 None None (PointerInfo (Some (Desc (TypeInfo 11 None None (SliceInfo (Some (ByName ''T'')))))))))
      (''*'' @ ''[]'' @ ''T'')"
    by (rule type_string.pointer [OF type_string.slice [OF T]])
  ultimately show ?thesis
    using nil_pointer_types [of sample_runtime "pointer_to 9 ''T''" "''*'' @ ''T''" _ "''*'' @ ''[]'' @ ''T''" "length :: string \<Rightarrow> nat"]
    by (simp add: pointer_to_def)
qed

end
