(* ===== verification/GsMatch.thy ===== *)
theory GsMatch
  imports GsPath
begin

section \<open>Shell patterns: path.Match (gs/path/match.ts)\<close>

text \<open>
  Pattern and name are runtime strings; \<open>slen\<close>, \<open>at0\<close> and \<open>from_at\<close> are \<open>$.len\<close>,
  \<open>$.indexString(s, 0)\<close> and \<open>$.sliceString(s, n)\<close>. 42 is the star, 63 the question mark, 91 and 93
  the brackets, 94 the caret, 45 the minus, 92 the backslash, 47 the slash. Every round of a loop
  takes at least one byte off its string, so the length is fuel enough. The second part is the
  grammar of the documentation comment, as a parser into terms with a matching function, and the
  proof that the scanner implements it.
\<close>

datatype pattern_error = ErrBadPattern

definition slen :: "jstr \<Rightarrow> nat" where "slen s = stringLen (JSString s)"

definition at0 :: "jstr \<Rightarrow> nat res" where "at0 s = indexString (OfString (JSString s)) 0"

definition from_at :: "nat \<Rightarrow> jstr \<Rightarrow> jstr res" where "from_at n s = sliceString (JSString s) (Some (int n)) None"

text \<open>\<open>$.len(s) > 0 && $.indexString(s, 0) == c\<close>.\<close>

definition starts :: "nat \<Rightarrow> jstr \<Rightarrow> bool res" where
  "starts c s = (if slen s = 0 then Inr False else bindR (at0 s) (\<lambda>x. Inr (x = c)))"

subsection \<open>Characters of a class\<close>

definition getEsc :: "jstr \<Rightarrow> (nat \<times> jstr \<times> pattern_error option) res" where
  "getEsc chunk =
     (if slen chunk = 0 then Inr (0, [], Some ErrBadPattern)
      else bindR (at0 chunk) (\<lambda>c.
        if c = 45 \<or> c = 93 then Inr (0, [], Some ErrBadPattern)
        else bindR (if c = 92 then from_at 1 chunk else Inr chunk) (\<lambda>chunk.
          if c = 92 \<and> slen chunk = 0 then Inr (0, [], Some ErrBadPattern)
          else case DecodeRuneInString chunk of (r, n) \<Rightarrow>
            if r = 0xFFFD \<and> n = 1 then Inr (0, [], Some ErrBadPattern)
            else bindR (from_at n chunk) (\<lambda>chunk.
              Inr (r, chunk, if slen chunk = 0 then Some ErrBadPattern else None)))))"

text \<open>The loop over the ranges of a class: whether \<open>r\<close> is in one, and what follows the class;
  \<open>None\<close> for a malformed class.\<close>

primrec class_loop :: "nat \<Rightarrow> nat \<Rightarrow> jstr \<Rightarrow> bool \<Rightarrow> nat \<Rightarrow> (bool \<times> jstr) option res" where
  "class_loop 0 = (\<lambda>r chunk m nrange. Inr None)"
| "class_loop (Suc n) = (\<lambda>r chunk m nrange.
     bindR (starts 93 chunk) (\<lambda>close.
       if close \<and> 0 < nrange then bindR (from_at 1 chunk) (\<lambda>chunk. Inr (Some (m, chunk)))
       else bindR (getEsc chunk) (\<lambda>(lo, chunk, err).
         if err \<noteq> None then Inr None
         else bindR (at0 chunk) (\<lambda>c.
           if c = 45
           then bindR (from_at 1 chunk) (\<lambda>chunk. bindR (getEsc chunk) (\<lambda>(hi, chunk, err).
             if err \<noteq> None then Inr None
             else class_loop n r chunk (m \<or> lo \<le> r \<and> r \<le> hi) (Suc nrange)))
           else class_loop n r chunk (m \<or> lo \<le> r \<and> r \<le> lo) (Suc nrange)))))"

subsection \<open>One chunk\<close>

primrec match_loop :: "nat \<Rightarrow> bool \<Rightarrow> jstr \<Rightarrow> jstr \<Rightarrow> (jstr \<times> bool \<times> pattern_error option) res" where
  "match_loop 0 = (\<lambda>failed chunk s. Inr ([], False, None))"
| "match_loop (Suc n) = (\<lambda>failed0 chunk s.
     if slen chunk = 0 then Inr (if failed0 then ([], False, None) else (s, True, None))
     else let failed = (failed0 \<or> slen s = 0) in
     bindR (at0 chunk) (\<lambda>c.
       if c = 91 then
         bindR (if failed then Inr (0, s)
                else case DecodeRuneInString s of (r, k) \<Rightarrow> bindR (from_at k s) (\<lambda>s. Inr (r, s))) (\<lambda>(r, s).
           bindR (from_at 1 chunk) (\<lambda>chunk. bindR (starts 94 chunk) (\<lambda>negated.
             bindR (if negated then from_at 1 chunk else Inr chunk) (\<lambda>chunk.
               bindR (class_loop (Suc (slen chunk)) r chunk False 0) (\<lambda>x. case x of
                   None \<Rightarrow> Inr ([], False, Some ErrBadPattern)
                 | Some (m, chunk) \<Rightarrow> match_loop n (failed \<or> m = negated) chunk s)))))
       else if c = 63 then
         bindR (if failed then Inr (True, s)
                else bindR (at0 s) (\<lambda>d. case DecodeRuneInString s of (_, k) \<Rightarrow>
                  bindR (from_at k s) (\<lambda>s. Inr (d = 47, s)))) (\<lambda>(failed, s).
           bindR (from_at 1 chunk) (\<lambda>chunk. match_loop n failed chunk s))
       else if c = 92 then
         bindR (from_at 1 chunk) (\<lambda>chunk.
           if slen chunk = 0 then Inr ([], False, Some ErrBadPattern) else match_loop n failed chunk s)
       else
         bindR (if failed then Inr (True, s)
                else bindR (at0 s) (\<lambda>d. bindR (from_at 1 s) (\<lambda>s. Inr (c \<noteq> d, s)))) (\<lambda>(failed, s).
           bindR (from_at 1 chunk) (\<lambda>chunk. match_loop n failed chunk s))))"

definition matchChunk :: "jstr \<Rightarrow> jstr \<Rightarrow> (jstr \<times> bool \<times> pattern_error option) res" where
  "matchChunk chunk s = match_loop (Suc (slen chunk)) False chunk s"

subsection \<open>Splitting a pattern into chunks\<close>

primrec star_loop :: "nat \<Rightarrow> bool \<Rightarrow> jstr \<Rightarrow> (bool \<times> jstr) res" where
  "star_loop 0 = (\<lambda>star pattern. Inr (star, pattern))"
| "star_loop (Suc n) = (\<lambda>star pattern.
     bindR (starts 42 pattern) (\<lambda>b.
       if b then bindR (from_at 1 pattern) (star_loop n True) else Inr (star, pattern)))"

primrec scan_loop :: "nat \<Rightarrow> jstr \<Rightarrow> nat \<Rightarrow> bool \<Rightarrow> nat res" where
  "scan_loop 0 = (\<lambda>pattern i inrange. Inr i)"
| "scan_loop (Suc n) = (\<lambda>pattern i inrange.
     if i < slen pattern
     then bindR (indexString (OfString (JSString pattern)) (int i)) (\<lambda>c.
       if c = 92 then scan_loop n pattern (if i + 1 < slen pattern then i + 2 else i + 1) inrange
       else if c = 91 then scan_loop n pattern (i + 1) True
       else if c = 93 then scan_loop n pattern (i + 1) False
       else if c = 42 \<and> \<not> inrange then Inr i
       else scan_loop n pattern (i + 1) inrange)
     else Inr i)"

definition scanChunk :: "jstr \<Rightarrow> (bool \<times> jstr \<times> jstr) res" where
  "scanChunk pattern =
     bindR (star_loop (slen pattern) False pattern) (\<lambda>(star, pattern).
       bindR (scan_loop (slen pattern) pattern 0 False) (\<lambda>i.
         bindR (sliceString (JSString pattern) (Some 0) (Some (int i))) (\<lambda>chunk.
           bindR (from_at i pattern) (\<lambda>rest. Inr (star, chunk, rest)))))"

subsection \<open>Match\<close>

datatype skip_result = NotFound | Found jstr | Bad pattern_error

text \<open>The search for a position behind a star; \<open>n\<close> positions are left to try.\<close>

primrec skip_loop :: "nat \<Rightarrow> jstr \<Rightarrow> jstr \<Rightarrow> jstr \<Rightarrow> nat \<Rightarrow> skip_result res" where
  "skip_loop 0 = (\<lambda>chunk pattern name i. Inr NotFound)"
| "skip_loop (Suc n) = (\<lambda>chunk pattern name i.
     if i < slen name
     then bindR (indexString (OfString (JSString name)) (int i)) (\<lambda>c.
       if c = 47 then Inr NotFound
       else bindR (from_at (i + 1) name) (\<lambda>tail. bindR (matchChunk chunk tail) (\<lambda>(t, ok, err).
         if ok then (if slen pattern = 0 \<and> 0 < slen t then skip_loop n chunk pattern name (i + 1) else Inr (Found t))
         else case err of Some e \<Rightarrow> Inr (Bad e) | None \<Rightarrow> skip_loop n chunk pattern name (i + 1))))
     else Inr NotFound)"

text \<open>The check that the rest of the pattern is well-formed.\<close>

primrec check_rest :: "nat \<Rightarrow> jstr \<Rightarrow> (bool \<times> pattern_error option) res" where
  "check_rest 0 = (\<lambda>pattern. Inr (False, None))"
| "check_rest (Suc n) = (\<lambda>pattern.
     if 0 < slen pattern
     then bindR (scanChunk pattern) (\<lambda>(_, chunk, pattern). bindR (matchChunk chunk []) (\<lambda>(_, _, err).
       if err \<noteq> None then Inr (False, err) else check_rest n pattern))
     else Inr (False, None))"

primrec pattern_loop :: "nat \<Rightarrow> jstr \<Rightarrow> jstr \<Rightarrow> (bool \<times> pattern_error option) res" where
  "pattern_loop 0 = (\<lambda>pattern name. Inr (False, None))"
| "pattern_loop (Suc n) = (\<lambda>pattern name.
     if slen pattern = 0 then Inr (slen name = 0, None)
     else bindR (scanChunk pattern) (\<lambda>(star, chunk, pattern).
       if star \<and> chunk = [] then Inr (47 \<notin> set name, None)
       else bindR (matchChunk chunk name) (\<lambda>(t, ok, err).
         if ok \<and> (slen t = 0 \<or> 0 < slen pattern) then pattern_loop n pattern t
         else if err \<noteq> None then Inr (False, err)
         else bindR (if star then skip_loop (slen name) chunk pattern name 0 else Inr NotFound) (\<lambda>x. case x of
             Found t \<Rightarrow> pattern_loop n pattern t
           | Bad e \<Rightarrow> Inr (False, Some e)
           | NotFound \<Rightarrow> check_rest (slen pattern) pattern))))"

definition Match :: "jstr \<Rightarrow> jstr \<Rightarrow> (bool \<times> pattern_error option) res" where
  "Match pattern name = pattern_loop (Suc (slen pattern)) pattern name"

subsection \<open>The grammar of the documentation\<close>

datatype glob = Star | AnyChar | Lit nat | CharClass bool "(nat \<times> nat) list"

text \<open>A character of a range, which never ends the pattern.\<close>

definition esc :: "nat list \<Rightarrow> (nat \<times> nat list) option" where
  "esc xs = (case xs of [] \<Rightarrow> None
     | c # cs \<Rightarrow> if c = 45 \<or> c = 93 then None
         else if c = 92 then (case cs of d # d' # ds \<Rightarrow> Some (d, d' # ds) | _ \<Rightarrow> None)
         else (case cs of [] \<Rightarrow> None | _ \<Rightarrow> Some (c, cs)))"

lemma esc_shorter: "esc xs = Some (c, ys) \<Longrightarrow> length ys < length xs \<and> ys \<noteq> []"
  by (auto simp: esc_def split: list.splits if_splits)

text \<open>The ranges up to the closing bracket, at least one, and what follows.\<close>

function parse_ranges :: "bool \<Rightarrow> nat list \<Rightarrow> ((nat \<times> nat) list \<times> nat list) option" where
  "parse_ranges first xs =
     (if \<not> first \<and> xs \<noteq> [] \<and> hd xs = 93 then Some ([], tl xs)
      else case esc xs of None \<Rightarrow> None
        | Some (lo, ys) \<Rightarrow>
            if hd ys = 45
            then (case esc (tl ys) of None \<Rightarrow> None
              | Some (hi, zs) \<Rightarrow> map_option (\<lambda>(rs, r). ((lo, hi) # rs, r)) (parse_ranges False zs))
            else map_option (\<lambda>(rs, r). ((lo, lo) # rs, r)) (parse_ranges False ys))"
  by pat_completeness auto
termination
proof (relation "measure (\<lambda>(_, xs). length xs)")
  show "((False, zs), (first, xs)) \<in> measure (\<lambda>(_, xs). length xs)"
    if "esc xs = Some p" "(lo, ys) = p" "esc (tl ys) = Some q" "(hi, zs) = q" for first xs p lo ys q hi zs
  proof -
    have "length zs < length (tl ys)" "length ys < length xs"
      using esc_shorter [of "tl ys" hi zs] esc_shorter [of xs lo ys] that by blast+
    moreover have "length (tl ys) \<le> length ys" by simp
    ultimately have "length zs < length xs" by linarith
    then show ?thesis by simp
  qed
  show "((False, ys), (first, xs)) \<in> measure (\<lambda>(_, xs). length xs)"
    if "esc xs = Some p" "(lo, ys) = p" for first xs p lo ys
  proof -
    have "length ys < length xs" using esc_shorter [of xs lo ys] that by blast
    then show ?thesis by simp
  qed
qed simp

declare parse_ranges.simps [simp del]

definition closes :: "bool \<Rightarrow> nat list \<Rightarrow> bool" where "closes first xs \<longleftrightarrow> \<not> first \<and> xs \<noteq> [] \<and> hd xs = 93"

lemma parse_ranges_close: "closes first xs \<Longrightarrow> parse_ranges first xs = Some ([], tl xs)"
  by (subst parse_ranges.simps) (simp add: closes_def)

lemma parse_ranges_bad: "\<not> closes first xs \<Longrightarrow> esc xs = None \<Longrightarrow> parse_ranges first xs = None"
  by (subst parse_ranges.simps) (simp only: closes_def option.case if_False)

lemma parse_ranges_pair:
  "\<not> closes first xs \<Longrightarrow> esc xs = Some (lo, ys) \<Longrightarrow> hd ys = 45 \<Longrightarrow> parse_ranges first xs =
     (case esc (tl ys) of None \<Rightarrow> None | Some (hi, zs) \<Rightarrow> map_option (\<lambda>(rs, r). ((lo, hi) # rs, r)) (parse_ranges False zs))"
  by (subst parse_ranges.simps) (simp only: closes_def option.case prod.case if_False if_True simp_thms)

lemma parse_ranges_one:
  "\<not> closes first xs \<Longrightarrow> esc xs = Some (lo, ys) \<Longrightarrow> hd ys \<noteq> 45 \<Longrightarrow>
   parse_ranges first xs = map_option (\<lambda>(rs, r). ((lo, lo) # rs, r)) (parse_ranges False ys)"
  by (subst parse_ranges.simps) (simp only: closes_def option.case prod.case if_False)

text \<open>The cases of a successful parse, as an induction rule.\<close>

lemma parse_ranges_success [consumes 1, case_names close pair one]:
  assumes "parse_ranges first xs = Some (rs, r)"
    and "\<And>first xs. closes first xs \<Longrightarrow> P first xs [] (tl xs)"
    and "\<And>first xs lo ys hi zs rs r. \<not> closes first xs \<Longrightarrow> esc xs = Some (lo, ys) \<Longrightarrow> hd ys = 45 \<Longrightarrow>
      esc (tl ys) = Some (hi, zs) \<Longrightarrow> parse_ranges False zs = Some (rs, r) \<Longrightarrow> P False zs rs r \<Longrightarrow> P first xs ((lo, hi) # rs) r"
    and "\<And>first xs lo ys rs r. \<not> closes first xs \<Longrightarrow> esc xs = Some (lo, ys) \<Longrightarrow> hd ys \<noteq> 45 \<Longrightarrow>
      parse_ranges False ys = Some (rs, r) \<Longrightarrow> P False ys rs r \<Longrightarrow> P first xs ((lo, lo) # rs) r"
  shows "P first xs rs r"
  using assms(1)
proof (induction "length xs" arbitrary: first xs rs r rule: less_induct)
  case less
  show ?case
  proof (cases "closes first xs")
    case True
    then show ?thesis using less.prems assms(2) [OF True] by (auto simp: parse_ranges_close)
  next
    case nc: False
    then obtain lo ys where e: "esc xs = Some (lo, ys)" using less.prems parse_ranges_bad by (cases "esc xs") auto
    note l = esc_shorter [OF e]
    show ?thesis
    proof (cases "hd ys = 45")
      case True
      then obtain hi zs where h: "esc (tl ys) = Some (hi, zs)"
        using less.prems parse_ranges_pair [OF nc e] by (cases "esc (tl ys)") auto
      then obtain rs' where p: "parse_ranges False zs = Some (rs', r)" "rs = (lo, hi) # rs'"
        using less.prems parse_ranges_pair [OF nc e True] by auto
      have "length (tl ys) \<le> length ys" by simp
      then have "length zs < length xs" using l esc_shorter [OF h] by linarith
      then show ?thesis using assms(3) [OF nc e True h p(1)] less.hyps p by simp
    next
      case False
      then obtain rs' where p: "parse_ranges False ys = Some (rs', r)" "rs = (lo, lo) # rs'"
        using less.prems parse_ranges_one [OF nc e] by auto
      then show ?thesis using assms(4) [OF nc e False p(1)] less.hyps l by simp
    qed
  qed
qed

lemma parse_ranges_shorter: "parse_ranges first xs = Some (rs, r) \<Longrightarrow> length r < length xs"
proof (induction rule: parse_ranges_success)
  case (pair first xs lo ys hi zs rs r)
  have "length (tl ys) \<le> length ys" by simp
  then show ?case using esc_shorter [OF pair(2)] esc_shorter [OF pair(4)] pair(6) by linarith
next
  case (one first xs lo ys rs r)
  then show ?case using esc_shorter [OF one(2)] by simp
qed (auto simp: closes_def)

definition parse_class :: "nat list \<Rightarrow> (bool \<times> (nat \<times> nat) list \<times> nat list) option" where
  "parse_class xs =
     (let negated = (xs \<noteq> [] \<and> hd xs = 94) in
      map_option (Pair negated) (parse_ranges True (if negated then tl xs else xs)))"

lemma parse_class_shorter: "parse_class xs = Some (neg, rs, r) \<Longrightarrow> length r < length xs"
  by (auto simp: parse_class_def Let_def dest: parse_ranges_shorter split: if_splits)

text \<open>The terms of a pattern; \<open>starred\<close> is false inside a chunk, where a star is a literal.\<close>

function parse :: "bool \<Rightarrow> nat list \<Rightarrow> glob list option" where
  "parse starred [] = Some []"
| "parse starred (c # cs) =
     (if c = 42 \<and> starred then map_option ((#) Star) (parse starred cs)
      else if c = 91 then (case parse_class cs of None \<Rightarrow> None
        | Some (neg, rs, r) \<Rightarrow> map_option ((#) (CharClass neg rs)) (parse starred r))
      else if c = 63 then map_option ((#) AnyChar) (parse starred cs)
      else if c = 92 then (case cs of [] \<Rightarrow> None | d # ds \<Rightarrow> map_option ((#) (Lit d)) (parse starred ds))
      else map_option ((#) (Lit c)) (parse starred cs))"
  by pat_completeness auto
termination
  by (relation "measure (\<lambda>(_, xs). length xs)") (auto dest: parse_class_shorter)

fun in_ranges :: "nat \<Rightarrow> (nat \<times> nat) list \<Rightarrow> bool" where
  "in_ranges r [] = False"
| "in_ranges r ((lo, hi) # rs) = (lo \<le> r \<and> r \<le> hi \<or> in_ranges r rs)"

fun one_char :: "glob \<Rightarrow> nat \<Rightarrow> bool" where
  "one_char AnyChar c \<longleftrightarrow> c \<noteq> 47"
| "one_char (Lit d) c \<longleftrightarrow> c = d"
| "one_char (CharClass neg rs) c \<longleftrightarrow> in_ranges c rs \<noteq> neg"
| "one_char Star c \<longleftrightarrow> False"

text \<open>A star takes any characters but slashes, the other terms one character each.\<close>

fun glob_match :: "glob list \<Rightarrow> nat list \<Rightarrow> bool" where
  "glob_match [] s \<longleftrightarrow> s = []"
| "glob_match (Star # ts) [] \<longleftrightarrow> glob_match ts []"
| "glob_match (Star # ts) (c # s) \<longleftrightarrow> glob_match ts (c # s) \<or> c \<noteq> 47 \<and> glob_match (Star # ts) s"
| "glob_match (t # ts) [] \<longleftrightarrow> False"
| "glob_match (t # ts) (c # s) \<longleftrightarrow> one_char t c \<and> glob_match ts s"

text \<open>The terms without a star at the front of a string: what they leave.\<close>

fun glob_front :: "glob list \<Rightarrow> nat list \<Rightarrow> nat list option" where
  "glob_front [] s = Some s"
| "glob_front (t # ts) [] = None"
| "glob_front (t # ts) (c # s) = (if one_char t c then glob_front ts s else None)"

subsection \<open>The scanner reads the grammar\<close>

lemma ascii_ops [simp]:
  assumes "ascii s"
  shows "slen s = length s" "n \<le> length s \<Longrightarrow> from_at n s = Inr (drop n s)"
    "i < length s \<Longrightarrow> indexString (OfString (JSString s)) (int i) = Inr (s ! i)"
  using assms ascii_slice(3) [OF assms, of "int n" "int (length s)"]
  by (simp_all add: slen_def stringLen_def from_at_def indexString_def byte_at_def)

lemma ascii_at0 [simp]: "ascii (c # s) \<Longrightarrow> at0 (c # s) = Inr c"
  using ascii_ops(3) [of "c # s" 0] by (simp add: at0_def)

lemma ascii_from1 [simp]: "ascii (c # s) \<Longrightarrow> from_at (Suc 0) (c # s) = Inr s"
  using ascii_ops(2) [of "c # s" "Suc 0"] by simp

lemma ascii_decode [simp]: "c < 128 \<Longrightarrow> DecodeRuneInString (c # s) = (c, 1)"
  by (simp add: DecodeRuneInString_def)

lemma starts_ascii [simp]: "ascii s \<Longrightarrow> starts c s = Inr (s \<noteq> [] \<and> hd s = c)"
  by (cases s) (auto simp: starts_def)

lemma getEsc_ascii:
  assumes "ascii s"
  shows "(case esc s of None \<Rightarrow> \<exists>r c. getEsc s = Inr (r, c, Some ErrBadPattern)
     | Some (r, c) \<Rightarrow> getEsc s = Inr (r, c, None) \<and> ascii c)"
proof (cases s)
  case (Cons x xs)
  then show ?thesis using assms by (cases xs) (auto simp: getEsc_def esc_def Let_def split: list.splits)
qed (simp add: getEsc_def esc_def)

lemma ascii_simps: "ascii (c # s) \<longleftrightarrow> c < 128 \<and> ascii s" by simp

lemma esc_ascii: "esc s = Some (r, c) \<Longrightarrow> ascii s \<Longrightarrow> ascii c"
  by (auto simp: esc_def split: list.splits if_splits)

lemma parse_ranges_ascii: "parse_ranges first xs = Some (rs, r) \<Longrightarrow> ascii xs \<Longrightarrow> ascii r"
proof (induction rule: parse_ranges_success)
  case (close first xs)
  then show ?case by (cases xs) auto
next
  case (pair first xs lo ys hi zs rs r)
  have "ascii (tl ys)" using esc_ascii [OF pair(2)] pair(7) by (cases ys) auto
  with pair esc_ascii [OF pair(4)] show ?case by simp
next
  case (one first xs lo ys rs r)
  with esc_ascii [OF one(2)] show ?case by simp
qed

lemma getEsc_None: "ascii s \<Longrightarrow> esc s = None \<Longrightarrow> \<exists>r c. getEsc s = Inr (r, c, Some ErrBadPattern)"
  and getEsc_Some: "ascii s \<Longrightarrow> esc s = Some (r, c) \<Longrightarrow> getEsc s = Inr (r, c, None)"
  using getEsc_ascii [of s] by auto

lemma class_loop_spec:
  assumes "ascii xs" "length xs < n" "first \<longleftrightarrow> k = 0"
  shows "class_loop n r xs m k =
    Inr (case parse_ranges first xs of None \<Rightarrow> None | Some (rs, rest) \<Rightarrow> Some (m \<or> in_ranges r rs, rest))"
  using assms
proof (induction n arbitrary: xs m k first)
  case (Suc n)
  have st: "starts 93 xs = Inr (xs \<noteq> [] \<and> hd xs = 93)" using Suc.prems(1) by simp
  show ?case
  proof (cases "closes first xs")
    case True
    then have c: "xs \<noteq> [] \<and> hd xs = 93" "0 < k" using Suc.prems(3) by (auto simp: closes_def)
    then obtain ys where "xs = 93 # ys" by (cases xs) auto
    then show ?thesis using True c(2) Suc.prems(1) by (simp add: parse_ranges_close)
  next
    case nc: False
    define b where "b = (xs \<noteq> [] \<and> hd xs = 93)"
    have c: "(b \<and> 0 < k) = False" using nc Suc.prems(3) by (auto simp: closes_def b_def)
    have st: "starts 93 xs = Inr b" using st by (simp add: b_def)
    show ?thesis
    proof (cases "esc xs")
      case None
      then obtain a b where "getEsc xs = Inr (a, b, Some ErrBadPattern)" using getEsc_None Suc.prems(1) by blast
      then show ?thesis by (simp add: parse_ranges_bad [OF nc None] st c)
    next
      case (Some p)
      then obtain lo ys where e: "esc xs = Some (lo, ys)" by (cases p) auto
      note g = getEsc_Some [OF Suc.prems(1) e] and l = esc_shorter [OF e] and ay = esc_ascii [OF e Suc.prems(1)]
      then obtain y ys' where y: "ys = y # ys'" "ascii (y # ys')" by (cases ys) auto
      then have a0: "at0 ys = Inr y" by simp
      show ?thesis
      proof (cases "y = 45")
        case True
        show ?thesis
        proof (cases "esc ys'")
          case None
          then obtain a b where "getEsc ys' = Inr (a, b, Some ErrBadPattern)" using getEsc_None [of ys'] y(2) by auto
          then show ?thesis using g a0 True y None parse_ranges_pair [OF nc e] by (simp add: st c)
        next
          case (Some q)
          then obtain hi zs where h: "esc ys' = Some (hi, zs)" by (cases q) auto
          have "getEsc ys' = Inr (hi, zs, None)" "ascii zs" "length zs < n"
            using getEsc_Some [OF _ h] esc_ascii [OF h] y esc_shorter [OF h] l Suc.prems(2) by auto
          then show ?thesis
            using g a0 True y h parse_ranges_pair [OF nc e] Suc.IH [of zs False "Suc k" "m \<or> lo \<le> r \<and> r \<le> hi"]
            by (auto simp: st c split: option.splits)
        qed
      next
        case False
        have "length ys < n" using l Suc.prems(2) by simp
        then show ?thesis
          using g a0 False y(1) ay parse_ranges_one [OF nc e] Suc.IH [of ys False "Suc k" "m \<or> lo \<le> r \<and> r \<le> lo"]
          by (auto simp: st c split: option.splits)
      qed
    qed
  qed
qed simp

declare class_loop.simps [simp del]

text \<open>In a chunk the escape of a question mark, a bracket or a backslash is not read as such.\<close>

fun plain_escapes :: "nat list \<Rightarrow> bool" where
  "plain_escapes (c # d # cs) \<longleftrightarrow> \<not> (c = 92 \<and> d \<in> {63, 91, 92}) \<and> plain_escapes (d # cs)"
| "plain_escapes _ \<longleftrightarrow> True"

lemma plain_escapes_tl: "plain_escapes (c # cs) \<Longrightarrow> plain_escapes cs"
  by (cases cs) auto

lemma plain_escapes_drop: "plain_escapes xs \<Longrightarrow> plain_escapes (drop n xs)"
proof (induction n arbitrary: xs)
  case (Suc n)
  then show ?case by (cases xs) (auto dest: plain_escapes_tl)
qed simp

lemma plain_escapes_suffix: "plain_escapes (xs @ ys) \<Longrightarrow> plain_escapes ys"
  using plain_escapes_drop [of "xs @ ys" "length xs"] by simp

lemma plain_escapes_prefix: "plain_escapes (xs @ ys) \<Longrightarrow> plain_escapes xs"
  by (induction xs rule: plain_escapes.induct) auto

lemma parse_ranges_suffix: "parse_ranges first xs = Some (rs, r) \<Longrightarrow> \<exists>p. xs = p @ r"
proof (induction rule: parse_ranges_success)
  case (close first xs)
  then show ?case by (cases xs) (auto simp: closes_def)
next
  case (pair first xs lo ys hi zs rs r)
  have "\<exists>p. xs = p @ ys" "\<exists>p. tl ys = p @ zs" "\<exists>p. ys = p @ tl ys"
    using pair(2,4) by (auto simp: esc_def split: list.splits if_splits)
  then show ?case using pair(6) by (metis append.assoc)
next
  case (one first xs lo ys rs r)
  have "\<exists>p. xs = p @ ys" using one(2) by (auto simp: esc_def split: list.splits if_splits)
  then show ?case using one(5) by (metis append.assoc)
qed

lemma parse_class_parts:
  assumes "parse_class xs = Some (neg, rs, r)"
  shows "\<exists>p. xs = p @ r" "ascii xs \<Longrightarrow> ascii r" "length r < length xs"
proof -
  have p: "parse_ranges True (if neg then tl xs else xs) = Some (rs, r)" and n: "neg \<longleftrightarrow> xs \<noteq> [] \<and> hd xs = 94"
    using assms by (auto simp: parse_class_def Let_def)
  then have t: "neg \<Longrightarrow> xs = 94 # tl xs" by (cases xs) auto
  obtain q where q: "(if neg then tl xs else xs) = q @ r" using parse_ranges_suffix [OF p] by blast
  show "\<exists>p. xs = p @ r"
  proof (cases neg)
    case True
    with q t have "xs = (94 # q) @ r" by simp
    then show ?thesis by blast
  qed (use q in auto)
  then show "ascii xs \<Longrightarrow> ascii r" by auto
  show "length r < length xs" by (rule parse_class_shorter [OF assms])
qed

lemma class_step:
  assumes "ascii xs"
  shows "bindR (starts 94 xs) (\<lambda>neg. bindR (if neg then from_at 1 xs else Inr xs) (\<lambda>ch.
      bindR (class_loop (Suc (slen ch)) r ch False 0) (f neg))) =
    f (xs \<noteq> [] \<and> hd xs = 94) (case parse_class xs of None \<Rightarrow> None | Some (neg, rs, rest) \<Rightarrow> Some (in_ranges r rs, rest))"
proof (cases "xs \<noteq> [] \<and> hd xs = 94")
  case True
  then obtain ys where y: "xs = 94 # ys" by (cases xs) auto
  then have "ascii ys" using assms by simp
  then show ?thesis using assms y class_loop_spec [of ys "Suc (length ys)" True 0 r False]
    by (simp add: parse_class_def split: option.splits)
next
  case False
  then show ?thesis using assms class_loop_spec [of xs "Suc (length xs)" True 0 r False]
    by (auto simp: parse_class_def split: option.splits)
qed

definition chunk_result :: "glob list option \<Rightarrow> bool \<Rightarrow> jstr \<Rightarrow> jstr \<times> bool \<times> pattern_error option" where
  "chunk_result p failed s =
     (case p of None \<Rightarrow> ([], False, Some ErrBadPattern)
      | Some ts \<Rightarrow> if failed then ([], False, None)
          else (case glob_front ts s of None \<Rightarrow> ([], False, None) | Some t \<Rightarrow> (t, True, None)))"

lemma chunk_result_cons:
  "chunk_result (map_option ((#) t) p) failed s =
     (case s of [] \<Rightarrow> chunk_result p True s | c # s' \<Rightarrow> chunk_result p (failed \<or> \<not> one_char t c) s')"
  "chunk_result p True s = chunk_result p True s'"
  by (auto simp: chunk_result_def split: option.splits list.splits)

declare match_loop.simps [simp del]

lemma match_loop_spec:
  assumes "ascii cs" "plain_escapes cs" "length cs < n" "ascii s"
  shows "match_loop n failed cs s = Inr (chunk_result (parse False cs) failed s)"
  using assms
proof (induction n arbitrary: cs s failed)
  case (Suc n)
  show ?case
  proof (cases cs)
    case Nil
    then show ?thesis by (auto simp: chunk_result_def match_loop.simps)
  next
    case (Cons c xs)
    have xs: "ascii xs" "plain_escapes xs" "length xs < n" "c < 128" using Suc.prems Cons plain_escapes_tl by auto
    define F where "F = (failed \<or> s = [])"
    have F: "(failed \<or> slen s = 0) = F" using Suc.prems(4) by (simp add: F_def)
    have a0: "at0 cs = Inr c" "from_at 1 cs = Inr xs" "slen cs \<noteq> 0" using Suc.prems(1) Cons by simp_all
    have s0: "\<exists>d s'. s = d # s' \<and> d < 128 \<and> ascii s' \<and> at0 s = Inr d \<and> from_at 1 s = Inr s' \<and> DecodeRuneInString s = (d, 1)" if "\<not> F"
      using that Suc.prems(4) by (cases s) (auto simp: F_def)
    have IH: "match_loop n f ys s' = Inr (chunk_result (parse False ys) f s')"
      if "ascii ys" "plain_escapes ys" "length ys < n" "ascii s'" for ys s' f
      by (rule Suc.IH [OF that])
    have step: "match_loop (Suc n) failed cs s = body" if "body = (if c = 91 then
         bindR (if F then Inr (0, s) else case DecodeRuneInString s of (r, k) \<Rightarrow> bindR (from_at k s) (\<lambda>s. Inr (r, s))) (\<lambda>(r, s).
           bindR (starts 94 xs) (\<lambda>negated. bindR (if negated then from_at 1 xs else Inr xs) (\<lambda>chunk.
             bindR (class_loop (Suc (slen chunk)) r chunk False 0) (\<lambda>x. case x of
                 None \<Rightarrow> Inr ([], False, Some ErrBadPattern)
               | Some (m, chunk) \<Rightarrow> match_loop n (F \<or> m = negated) chunk s))))
       else if c = 63 then
         bindR (if F then Inr (True, s) else bindR (at0 s) (\<lambda>d. case DecodeRuneInString s of (_, k) \<Rightarrow>
                  bindR (from_at k s) (\<lambda>s. Inr (d = 47, s)))) (\<lambda>(failed, s). match_loop n failed xs s)
       else if c = 92 then (if slen xs = 0 then Inr ([], False, Some ErrBadPattern) else match_loop n F xs s)
       else bindR (if F then Inr (True, s) else bindR (at0 s) (\<lambda>d. bindR (from_at 1 s) (\<lambda>s. Inr (c \<noteq> d, s))))
         (\<lambda>(failed, s). match_loop n failed xs s))" for body
      unfolding that match_loop.simps F Let_def a0 bindR.simps using a0(3) by (simp only: if_False)
    have R: "chunk_result (map_option ((#) t) p) failed s = chunk_result p True s" if F for t p
      using that by (cases s) (auto simp: F_def chunk_result_def split: option.splits)
    have R': "chunk_result (map_option ((#) t) p) failed (d # s') = chunk_result p (\<not> one_char t d) s'" if "\<not> F" for t p d s'
      using that by (auto simp: F_def chunk_result_cons(1))
    consider "c = 91" | "c = 63" | "c = 92" | "c \<notin> {91, 63, 92}" by blast
    then show ?thesis
    proof cases
      case 1
      have cls: "match_loop (Suc n) failed cs s = (case parse_class xs of None \<Rightarrow> Inr ([], False, Some ErrBadPattern)
          | Some (neg, rs, r) \<Rightarrow> match_loop n (F \<or> \<not> one_char (CharClass neg rs) (hd s)) r (if F then s else tl s))"
      proof (cases F)
        case True
        show ?thesis
          by (subst step [OF refl]) (simp only: 1 True if_True bindR.simps prod.case class_step [OF xs(1)],
            auto simp: parse_class_def Let_def split: option.splits)
      next
        case False
        then obtain d s' where d: "s = d # s'" "from_at 1 s = Inr s'" "DecodeRuneInString s = (d, 1)" using s0 by blast
        show ?thesis
          by (subst step [OF refl]) (simp only: 1 False d(2,3) if_True if_False bindR.simps prod.case class_step [OF xs(1)],
            auto simp: parse_class_def Let_def d(1) split: option.splits)
      qed
      show ?thesis
      proof (cases "parse_class xs")
        case None
        then show ?thesis unfolding cls using 1 by (simp add: Cons chunk_result_def)
      next
        case (Some q)
        obtain neg rs r where q: "q = (neg, rs, r)" by (cases q)
        obtain p where r: "xs = p @ r" "ascii r" "length r < length xs"
          using parse_class_parts [OF Some [unfolded q]] xs(1) by blast
        have rr: "plain_escapes r" "length r < n" using xs(2,3) r plain_escapes_suffix by auto
        have pc: "parse False cs = map_option ((#) (CharClass neg rs)) (parse False r)" using Some q 1 by (simp add: Cons)
        show ?thesis
        proof (cases F)
          case True
          then show ?thesis using IH [OF r(2) rr Suc.prems(4)] R [OF True] by (simp add: cls Some q pc)
        next
          case False
          then obtain d s' where d: "s = d # s'" "ascii s'" using s0 by blast
          show ?thesis unfolding cls unfolding Some q pc d(1) using IH [OF r(2) rr d(2)] R' [OF False] False by simp
        qed
      qed
    next
      case 2
      show ?thesis
      proof (cases F)
        case True
        then have "match_loop (Suc n) failed cs s = match_loop n True xs s"
          by (subst step [OF refl]) (simp add: 2)
        then show ?thesis using R [OF True] IH [OF xs(1-3) Suc.prems(4)] 2 by (simp add: Cons)
      next
        case False
        then obtain d s' where d: "s = d # s'" "ascii s'" "at0 s = Inr d" "from_at 1 s = Inr s'" "DecodeRuneInString s = (d, 1)"
          using s0 by blast
        have "match_loop (Suc n) failed cs s = match_loop n (d = 47) xs s'"
          by (subst step [OF refl]) (simp only: 2 False d(3-5) if_True if_False bindR.simps prod.case, simp)
        then show ?thesis using R' [OF False] IH [OF xs(1-3) d(2)] 2 by (simp add: Cons d(1))
      qed
    next
      case 3
      show ?thesis
      proof (cases xs)
        case Nil
        then show ?thesis by (subst step [OF refl]) (simp add: 3 Cons chunk_result_def)
      next
        case (Cons d ds)
        have "d \<notin> {63, 91, 92}" using Suc.prems(2) \<open>cs = c # xs\<close> Cons 3 by simp
        then have e: "parse False xs = parse False cs" "parse False cs = map_option ((#) (Lit d)) (parse False ds)"
          using Cons 3 \<open>cs = c # xs\<close> by simp_all
        have "match_loop (Suc n) failed cs s = match_loop n F xs s"
          using xs(1) Cons by (subst step [OF refl]) (simp add: 3)
        also have "\<dots> = Inr (chunk_result (parse False cs) F s)" using IH [OF xs(1-3) Suc.prems(4)] e(1) by simp
        also have "chunk_result (parse False cs) F s = chunk_result (parse False cs) failed s"
          unfolding e(2) by (cases s) (auto simp: F_def chunk_result_def split: option.splits)
        finally show ?thesis .
      qed
    next
      case 4
      then have pc: "parse False cs = map_option ((#) (Lit c)) (parse False xs)" by (simp add: Cons)
      show ?thesis
      proof (cases F)
        case True
        then have "match_loop (Suc n) failed cs s = match_loop n True xs s"
          using 4 by (subst step [OF refl]) simp
        then show ?thesis using R [OF True] IH [OF xs(1-3) Suc.prems(4)] pc by simp
      next
        case False
        then obtain d s' where d: "s = d # s'" "ascii s'" "at0 s = Inr d" "from_at 1 s = Inr s'" using s0 by blast
        have "match_loop (Suc n) failed cs s = match_loop n (c \<noteq> d) xs s'"
          using 4 by (subst step [OF refl]) (simp only: False d(3,4) if_False bindR.simps prod.case, simp)
        moreover have "(c \<noteq> d) = (\<not> one_char (Lit c) d)" by auto
        ultimately have "match_loop (Suc n) failed cs s = match_loop n (\<not> one_char (Lit c) d) xs s'" by (simp only:)
        then show ?thesis unfolding pc unfolding d(1) R' [OF False] IH [OF xs(1-3) d(2)] .
      qed
    qed
  qed
qed simp

text \<open>Splitting: the pure scan, and what it cuts.\<close>

fun scan :: "bool \<Rightarrow> nat list \<Rightarrow> nat list \<times> nat list" where
  "scan inr [] = ([], [])"
| "scan inr (c # cs) =
     (if c = 92 then (case cs of [] \<Rightarrow> ([c], []) | d # ds \<Rightarrow> (case scan inr ds of (x, r) \<Rightarrow> (c # d # x, r)))
      else if c = 91 then (case scan True cs of (x, r) \<Rightarrow> (c # x, r))
      else if c = 93 then (case scan False cs of (x, r) \<Rightarrow> (c # x, r))
      else if c = 42 \<and> \<not> inr then ([], c # cs)
      else (case scan inr cs of (x, r) \<Rightarrow> (c # x, r)))"

lemma scan_append: "scan b xs = (c, r) \<Longrightarrow> xs = c @ r \<and> (r \<noteq> [] \<longrightarrow> hd r = 42)"
  by (induction b xs arbitrary: c r rule: scan.induct) (auto split: if_splits list.splits prod.splits)

lemma esc_prefix:
  "esc xs = Some (c, ys) \<Longrightarrow> \<exists>p. xs = p @ ys \<and> (\<forall>zs. zs \<noteq> [] \<longrightarrow> esc (p @ zs) = Some (c, zs)) \<and>
     (\<forall>zs. scan True (p @ zs) = (case scan True zs of (x, r) \<Rightarrow> (p @ x, r)))"
  by (cases xs) (auto simp: esc_def split: list.splits if_splits prod.splits intro: exI [of _ "[c]"] exI [of _ "[92, c]"])

lemma parse_ranges_prefix:
  "parse_ranges first xs = Some (rs, r) \<Longrightarrow> \<exists>p. xs = p @ r \<and> p \<noteq> [] \<and> (\<forall>ys. parse_ranges first (p @ ys) = Some (rs, ys)) \<and>
     (\<forall>ys. scan True (p @ ys) = (case scan False ys of (x, q) \<Rightarrow> (p @ x, q)))"
proof (induction rule: parse_ranges_success)
  case (close first xs)
  then have x: "xs = [93] @ tl xs" "\<not> first" by (cases xs; auto simp: closes_def)+
  have "parse_ranges first ([93] @ ys) = Some ([], ys)" for ys
    using parse_ranges_close [of first "[93] @ ys"] x(2) by (simp add: closes_def)
  with x show ?case by (intro exI [of _ "[93]"]) simp
next
  case (pair first xs lo ys hi zs rs r)
  obtain p1 where p1: "xs = p1 @ ys" "\<And>zs. zs \<noteq> [] \<Longrightarrow> esc (p1 @ zs) = Some (lo, zs)"
    "\<And>zs. scan True (p1 @ zs) = (case scan True zs of (x, r) \<Rightarrow> (p1 @ x, r))"
    using esc_prefix [OF pair(2)] by blast
  obtain p2 where p2: "tl ys = p2 @ zs" "\<And>zs. zs \<noteq> [] \<Longrightarrow> esc (p2 @ zs) = Some (hi, zs)"
    "\<And>zs. scan True (p2 @ zs) = (case scan True zs of (x, r) \<Rightarrow> (p2 @ x, r))"
    using esc_prefix [OF pair(4)] by blast
  obtain p3 where p3: "zs = p3 @ r" "p3 \<noteq> []" "\<And>ys. parse_ranges False (p3 @ ys) = Some (rs, ys)"
    "\<And>ys. scan True (p3 @ ys) = (case scan False ys of (x, q) \<Rightarrow> (p3 @ x, q))"
    using pair(6) by blast
  have y: "ys = 45 # tl ys" using esc_shorter [OF pair(2)] pair(3) by (cases ys) auto
  let ?p = "p1 @ 45 # p2 @ p3"
  have "\<not> closes first (?p @ q)" for q
    using pair(1,2) p1(1) esc_shorter [OF pair(2)] by (cases p1) (auto simp: closes_def)
  then have "parse_ranges first (?p @ q) = Some ((lo, hi) # rs, q)" for q
    using parse_ranges_pair [of first "?p @ q" lo "45 # p2 @ p3 @ q"] p1(2) p2(2) [of "p3 @ q"] p3(2,3) by simp
  moreover have "scan True (?p @ q) = (case scan False q of (x, r) \<Rightarrow> (?p @ x, r))" for q
    by (simp add: p1(3) p2(3) p3(4) split: prod.split)
  ultimately show ?case using p1(1) p2(1) p3(1) y by (intro exI [of _ ?p]) (metis Cons_eq_appendI append.assoc append_is_Nil_conv list.distinct(1))
next
  case (one first xs lo ys rs r)
  obtain p1 where p1: "xs = p1 @ ys" "\<And>zs. zs \<noteq> [] \<Longrightarrow> esc (p1 @ zs) = Some (lo, zs)"
    "\<And>zs. scan True (p1 @ zs) = (case scan True zs of (x, r) \<Rightarrow> (p1 @ x, r))"
    using esc_prefix [OF one(2)] by blast
  obtain p3 where p3: "ys = p3 @ r" "p3 \<noteq> []" "\<And>ys. parse_ranges False (p3 @ ys) = Some (rs, ys)"
    "\<And>ys. scan True (p3 @ ys) = (case scan False ys of (x, q) \<Rightarrow> (p3 @ x, q))"
    using one(5) by blast
  let ?p = "p1 @ p3"
  have nc: "\<not> closes first (?p @ q)" for q
    using one(1,2) p1(1) esc_shorter [OF one(2)] by (cases p1) (auto simp: closes_def)
  have "hd (p3 @ q) \<noteq> 45" for q using one(3) p3(1,2) by (cases p3) auto
  then have "parse_ranges first (?p @ q) = Some ((lo, lo) # rs, q)" for q
    using parse_ranges_one [OF nc, of q lo "p3 @ q"] p1(2) p3(2,3) by simp
  moreover have "scan True (?p @ q) = (case scan False q of (x, r) \<Rightarrow> (?p @ x, r))" for q
    by (simp add: p1(3) p3(4) split: prod.split)
  ultimately show ?case using p1(1) p3(1,2) by (intro exI [of _ ?p]) simp
qed

lemma scan_loop_spec:
  assumes "ascii p" "i \<le> length p" "length p \<le> n + i"
  shows "scan_loop n p i b = Inr (i + length (fst (scan b (drop i p))))"
  using assms
proof (induction n arbitrary: i b)
  case (Suc n)
  show ?case
  proof (cases "i < length p")
    case True
    then have d: "drop i p = p ! i # drop (i + 1) p" by (simp add: Cons_nth_drop_Suc)
    have at: "indexString (OfString (JSString p)) (int i) = Inr (p ! i)" using Suc.prems(1) True by simp
    have IH: "scan_loop n p (i + k) b' = Inr (i + k + length (fst (scan b' (drop (i + k) p))))"
      if "i + k \<le> length p" "0 < k" for k b'
      using Suc.IH [of "i + k" b'] Suc.prems that by simp
    have d2: "drop (i + 1) p = p ! (i + 1) # drop (i + 2) p" if "i + 1 < length p"
      using that by (simp add: Cons_nth_drop_Suc [symmetric])
    show ?thesis
      using True at IH [of 1] IH [of 2] d d2 Suc.prems(1)
      by (auto split: prod.split list.split)
  qed (use Suc.prems in simp)
qed simp

lemma star_loop_spec:
  "ascii p \<Longrightarrow> length p \<le> n \<Longrightarrow>
   star_loop n star p = Inr (star \<or> p \<noteq> [] \<and> hd p = 42, dropWhile (\<lambda>c. c = 42) p)"
proof (induction n arbitrary: star p)
  case (Suc n)
  then show ?case by (cases p) auto
qed simp

lemma scanChunk_spec:
  assumes "ascii p"
  shows "scanChunk p = Inr (p \<noteq> [] \<and> hd p = 42, scan False (dropWhile (\<lambda>c. c = 42) p))"
proof -
  let ?q = "dropWhile (\<lambda>c. c = 42) p"
  have q: "ascii ?q" using assms by (auto simp: list_all_iff dest: set_dropWhileD)
  obtain c r where s: "scan False ?q = (c, r)" by fastforce
  then have cr: "?q = c @ r" using scan_append by blast
  have "length ?q \<le> length p" by (rule length_dropWhile_le)
  have sl: "scan_loop (slen ?q) ?q 0 False = Inr (length c)"
    using scan_loop_spec [OF q, of 0 "slen ?q" False] q s by simp
  have cut: "sliceString (JSString ?q) (Some 0) (Some (int (length c))) = Inr c" "from_at (length c) ?q = Inr r"
    using ascii_slice(1) [OF q, of 0 "int (length c)"] ascii_ops(2) [OF q, of "length c"] by (simp_all add: cr)
  show ?thesis
    unfolding scanChunk_def using star_loop_spec [OF assms, of "slen p" False] assms
    by (simp add: sl cut s)
qed

lemma map_option_append_Cons: "map_option ((#) t) (map_option ((@) ts) y) = map_option ((@) (t # ts)) y"
  by (cases y) auto

text \<open>A chunk and the rest parse as the whole does.\<close>

lemma parse_split:
  "scan False xs = (c, r) \<Longrightarrow>
   parse True xs = (case parse False c of None \<Rightarrow> None | Some ts \<Rightarrow> map_option ((@) ts) (parse True r))"
proof (induction "length xs" arbitrary: xs c r rule: less_induct)
  case less
  show ?case
  proof (cases xs)
    case (Cons x ys)
    consider "x = 42" | "x = 91" | "x = 92" | "x = 93" | "x \<notin> {42, 91, 92, 93}" by blast
    then show ?thesis
    proof cases
      case 1
      have "map_option ((@) []) y = y" for y :: "glob list option" by (cases y) auto
      with 1 show ?thesis using less.prems Cons by auto
    next
      case 2
      define neg where "neg \<longleftrightarrow> ys \<noteq> [] \<and> hd ys = 94"
      define zs where "zs = (if neg then tl ys else ys)"
      define pre where "pre = (if neg then [94::nat] else [])"
      have ys: "ys = pre @ zs" by (cases ys) (auto simp: zs_def pre_def neg_def)
      have pc: "parse_class (pre @ q) = map_option (Pair neg) (parse_ranges True q)" if "neg \<or> q = [] \<or> hd q \<noteq> 94" for q
        using that by (auto simp: parse_class_def pre_def Let_def)
      have sp: "scan True (pre @ q) = (case scan True q of (a, b) \<Rightarrow> (pre @ a, b))" for q
        by (auto simp: pre_def split: prod.split)
      have nz: "neg \<or> zs = [] \<or> hd zs \<noteq> 94" by (auto simp: zs_def neg_def)
      obtain c' where c': "scan True zs = (c', r)" "c = 91 # pre @ c'"
        using less.prems Cons 2 by (auto simp: ys sp split: prod.splits)
      have zc: "zs = c' @ r" using scan_append [OF c'(1)] by simp
      have nc: "neg \<or> c' = [] \<or> hd c' \<noteq> 94" using nz by (cases c') (auto simp: zc)
      show ?thesis
      proof (cases "parse_ranges True zs")
        case None
        have "parse_ranges True c' = None"
        proof (rule ccontr)
          assume "parse_ranges True c' \<noteq> None"
          then obtain rs q where "parse_ranges True c' = Some (rs, q)" by auto
          from parse_ranges_prefix [OF this] obtain p where "c' = p @ q" "parse_ranges True (p @ (q @ r)) = Some (rs, q @ r)" by blast
          with None show False by (simp add: zc)
        qed
        then show ?thesis using None pc [OF nz] pc [OF nc] by (simp add: Cons 2 ys c'(2))
      next
        case (Some a)
        then obtain rs q where a: "parse_ranges True zs = Some (rs, q)" by (cases a) auto
        from parse_ranges_prefix [OF a] obtain p where p: "zs = p @ q" "p \<noteq> []"
          "\<And>ys. parse_ranges True (p @ ys) = Some (rs, ys)"
          "\<And>ys. scan True (p @ ys) = (case scan False ys of (x, q) \<Rightarrow> (p @ x, q))" by blast
        obtain c2 where c2: "scan False q = (c2, r)" "c' = p @ c2" using c'(1) p(4) by (auto simp: p(1) split: prod.splits)
        have "length q < length xs" using Cons ys p(1) by simp
        from less.hyps [OF this c2(1)] show ?thesis
          using a p(3) [of c2] pc [OF nz] pc [OF nc] by (auto simp: Cons 2 ys c'(2) c2(2) map_option_append_Cons split: option.splits)
      qed
    next
      case 3
      show ?thesis
      proof (cases ys)
        case (Cons d ds)
        obtain c' where c': "scan False ds = (c', r)" "c = 92 # d # c'" using less.prems \<open>xs = x # ys\<close> 3 Cons by (auto split: prod.splits)
        have "length ds < length xs" using \<open>xs = x # ys\<close> Cons by simp
        from less.hyps [OF this c'(1)] show ?thesis
          using \<open>xs = x # ys\<close> 3 Cons c'(2) by (auto simp: map_option_append_Cons split: option.splits)
      qed (use less.prems Cons 3 in auto)
    next
      case 4
      obtain c' where c': "scan False ys = (c', r)" "c = x # c'" using less.prems Cons 4 by (auto split: prod.splits)
      have "length ys < length xs" using Cons by simp
      from less.hyps [OF this c'(1)] show ?thesis using Cons 4 c'(2) by (auto simp: map_option_append_Cons split: option.splits)
    next
      case 5
      obtain c' where c': "scan False ys = (c', r)" "c = x # c'" using less.prems Cons 5 by (auto split: prod.splits)
      have "length ys < length xs" using Cons by simp
      from less.hyps [OF this c'(1)] show ?thesis using Cons 5 c'(2) by (auto simp: map_option_append_Cons split: option.splits)
    qed
  qed (use less.prems in auto)
qed
lemma parse_stars:
  "parse True p = map_option ((@) (replicate (length (takeWhile (\<lambda>c. c = 42) p)) Star)) (parse True (dropWhile (\<lambda>c. c = 42) p))"
proof (induction p)
  case (Cons c p)
  then show ?case by (cases "c = 42") (auto simp: option.map_comp comp_def option.map_ident map_option_append_Cons [simplified])
qed simp

lemma parse_no_star: "parse b xs = Some ts \<Longrightarrow> \<not> b \<Longrightarrow> Star \<notin> set ts"
  by (induction b xs arbitrary: ts rule: parse.induct) (auto split: if_splits option.splits prod.splits list.splits)

lemma parse_rest_star: "parse True r = Some us \<Longrightarrow> r \<noteq> [] \<Longrightarrow> hd r = 42 \<Longrightarrow> \<exists>vs. us = Star # vs"
  by (cases r) auto

lemma scan_empty: "scan False xs = ([], r) \<Longrightarrow> xs \<noteq> [] \<Longrightarrow> hd xs = 42"
  by (cases xs) (auto split: if_splits list.splits prod.splits)

text \<open>What one round of the pattern loop cuts off.\<close>

lemma scanChunk_parts:
  assumes "ascii p" "plain_escapes p" "p \<noteq> []"
  obtains k c r where "scanChunk p = Inr (0 < k, c, r)" "ascii c" "plain_escapes c" "ascii r" "plain_escapes r"
    "length r < length p" "r \<noteq> [] \<Longrightarrow> hd r = 42" "c = [] \<Longrightarrow> r = []"
    "parse True p = (case parse False c of None \<Rightarrow> None | Some ts \<Rightarrow> map_option (\<lambda>us. replicate k Star @ ts @ us) (parse True r))"
proof -
  define q where "q = dropWhile (\<lambda>c. c = 42) p"
  define k where "k = length (takeWhile (\<lambda>c. c = (42::nat)) p)"
  obtain c r where s: "scan False q = (c, r)" by fastforce
  have cr: "q = c @ r" and r: "r \<noteq> [] \<Longrightarrow> hd r = 42" using scan_append [OF s] by auto
  have p: "p = takeWhile (\<lambda>c. c = 42) p @ c @ r" using takeWhile_dropWhile_id [of "\<lambda>c. c = 42" p] by (simp add: q_def [symmetric] cr)
  have k: "0 < k \<longleftrightarrow> hd p = 42" using assms(3) by (cases p) (auto simp: k_def)
  have q42: "q \<noteq> [] \<Longrightarrow> hd q \<noteq> 42" using hd_dropWhile [of "\<lambda>c. c = 42" p] by (simp add: q_def)
  have ce: "q = []" if "c = []" using scan_empty [of q r] q42 s that by blast
  have "ascii (takeWhile (\<lambda>c. c = 42) p @ c @ r)" "plain_escapes (takeWhile (\<lambda>c. c = 42) p @ c @ r)" using assms(1,2) p by simp_all
  then have "ascii c" "ascii r" "plain_escapes (c @ r)" by (auto dest: plain_escapes_suffix)
  moreover from this have "plain_escapes c" "plain_escapes r" by (auto dest: plain_escapes_suffix plain_escapes_prefix)
  moreover have "length p = k + length c + length r" by (subst p) (simp add: k_def)
  then have "length r < length p" using ce cr k assms(3) p by (cases c; cases k) (auto simp: k_def)
  moreover have "scanChunk p = Inr (0 < k, c, r)" using scanChunk_spec [OF assms(1)] assms(3) s k by (simp add: q_def)
  moreover have "parse True p = (case parse False c of None \<Rightarrow> None | Some ts \<Rightarrow> map_option (\<lambda>us. replicate k Star @ ts @ us) (parse True r))"
    using parse_stars [of p] parse_split [OF s] by (auto simp: q_def [symmetric] k_def option.map_comp comp_def split: option.splits)
  ultimately show thesis using that r ce cr by blast
qed
text \<open>Matching: a chunk at the front of a string, a star in front of a chunk.\<close>

lemma glob_front_iff:
  "glob_front ts s = Some t \<longleftrightarrow> length ts \<le> length s \<and> (\<forall>k<length ts. one_char (ts ! k) (s ! k)) \<and> t = drop (length ts) s"
  by (induction ts s rule: glob_front.induct) (auto simp: less_Suc_eq_0_disj all_conj_distrib)

lemma glob_match_chunk:
  "Star \<notin> set ts \<Longrightarrow> glob_match (ts @ us) s = (case glob_front ts s of None \<Rightarrow> False | Some t \<Rightarrow> glob_match us t)"
proof (induction ts s rule: glob_front.induct)
  case (2 t ts)
  then show ?case by (cases t) auto
next
  case (3 t ts c s)
  then show ?case by (cases t) auto
qed simp

lemma glob_match_star_Nil: "glob_match [Star] s \<longleftrightarrow> 47 \<notin> set s"
  by (induction s) auto

lemma glob_match_star_star: "glob_match (Star # Star # ts) s = glob_match (Star # ts) s"
  by (induction s) auto

lemma glob_match_replicate: "0 < k \<Longrightarrow> glob_match (replicate k Star @ ts) s = glob_match (Star # ts) s"
proof (induction k)
  case (Suc k)
  then show ?case by (cases k) (simp_all add: glob_match_star_star)
qed simp

lemma glob_match_star_iff:
  "glob_match (Star # ts) s \<longleftrightarrow> (\<exists>j\<le>length s. 47 \<notin> set (take j s) \<and> glob_match ts (drop j s))"
proof (induction s)
  case (Cons c s)
  have "(\<exists>j\<le>length (c # s). 47 \<notin> set (take j (c # s)) \<and> glob_match ts (drop j (c # s))) \<longleftrightarrow>
      glob_match ts (c # s) \<or> c \<noteq> 47 \<and> (\<exists>j\<le>length s. 47 \<notin> set (take j s) \<and> glob_match ts (drop j s))"
    (is "?l \<longleftrightarrow> ?r")
  proof
    assume ?l
    then obtain j where j: "j \<le> length (c # s)" "47 \<notin> set (take j (c # s))" "glob_match ts (drop j (c # s))" by blast
    then show ?r by (cases j) auto
  next
    assume ?r
    then show ?l
    proof
      assume "glob_match ts (c # s)"
      then show ?l by (intro exI [of _ 0]) simp
    next
      assume "c \<noteq> 47 \<and> (\<exists>j\<le>length s. 47 \<notin> set (take j s) \<and> glob_match ts (drop j s))"
      then obtain j where "c \<noteq> 47" "j \<le> length s" "47 \<notin> set (take j s)" "glob_match ts (drop j s)" by blast
      then show ?l by (intro exI [of _ "Suc j"]) simp
    qed
  qed
  then show ?case using Cons by simp
qed simp

text \<open>No class of the pattern takes a slash.\<close>

fun avoids_slash :: "glob \<Rightarrow> bool" where
  "avoids_slash (CharClass neg rs) \<longleftrightarrow> in_ranges 47 rs = neg"
| "avoids_slash _ \<longleftrightarrow> True"

lemma avoids_slash_only: "avoids_slash t \<Longrightarrow> one_char t 47 \<Longrightarrow> one_char t c \<Longrightarrow> c = 47"
  by (cases t) auto

text \<open>The leftmost place of a chunk is as good as any other, for a star follows it.\<close>

lemma glob_leftmost:
  assumes "list_all avoids_slash ts" "Star \<notin> set ts" "glob_front ts s = Some t"
    and m: "glob_match (Star # ts @ Star # us) s"
  shows "glob_match (Star # us) t"
proof -
  obtain j where j: "j \<le> length s" "47 \<notin> set (take j s)" "glob_match (ts @ Star # us) (drop j s)"
    using m glob_match_star_iff by blast
  then obtain t' where t': "glob_front ts (drop j s) = Some t'" "glob_match (Star # us) t'"
    using glob_match_chunk [OF assms(2)] by (auto split: option.splits)
  note f = assms(3) [unfolded glob_front_iff] and f' = t'(1) [unfolded glob_front_iff]
  have ch: "one_char (ts ! k) (s ! k)" "one_char (ts ! k) (s ! (j + k))" if "k < length ts" for k
    using f f' that j(1) by auto
  have pre: "s ! i \<noteq> 47" if "i < j" for i
    using j(1,2) that by (metis (no_types) in_set_conv_nth length_take min.absorb2 nth_take)
  have no: "s ! i \<noteq> 47" if i: "i < j + length ts" and j0: "0 < j" for i
    using i
  proof (induction i rule: less_induct)
    case (less i)
    show ?case
    proof (cases "i < j")
      case False
      define k where "k = i - j"
      have k: "i = j + k" "k < length ts" using False less.prems by (auto simp: k_def)
      have "s ! k \<noteq> 47" using less k j0 by simp
      moreover have "s ! k = 47" if "s ! i = 47"
        using avoids_slash_only ch [OF k(2)] assms(1) k that by (metis list_all_length)
      ultimately show ?thesis by blast
    qed (rule pre)
  qed
  have "47 \<notin> set (take j t)"
  proof
    assume "47 \<in> set (take j t)"
    then obtain i where "i < j" "i < length t" "t ! i = 47" by (auto simp: in_set_conv_nth)
    then show False using f no [of "length ts + i"] by auto
  qed
  moreover have "t' = drop j t" "j \<le> length t" using f f' j(1) by (auto simp: add.commute)
  ultimately obtain i where "i \<le> length t'" "47 \<notin> set (take i t')" "glob_match us (drop i t')" "t' = drop j t" "j \<le> length t"
    using t'(2) glob_match_star_iff by blast
  then show ?thesis using \<open>47 \<notin> set (take j t)\<close> unfolding glob_match_star_iff
    by (intro exI [of _ "j + i"]) (auto simp: take_add add.commute [of i j])
qed
subsection \<open>The search behind a star\<close>

text \<open>What a chunk leaves at the first usable place; the last chunk has to leave nothing.\<close>

definition usable :: "bool \<Rightarrow> nat list option \<Rightarrow> bool" where
  "usable final x \<longleftrightarrow> x \<noteq> None \<and> (final \<longrightarrow> x = Some [])"

fun leftmost :: "glob list \<Rightarrow> bool \<Rightarrow> nat list \<Rightarrow> nat list option" where
  "leftmost ts final [] = (if usable final (glob_front ts []) then glob_front ts [] else None)"
| "leftmost ts final (c # s) =
     (if usable final (glob_front ts (c # s)) then glob_front ts (c # s)
      else if c = 47 then None else leftmost ts final s)"

definition skipped :: "glob list \<Rightarrow> bool \<Rightarrow> nat list \<Rightarrow> nat list option" where
  "skipped ts final s = (case s of [] \<Rightarrow> None | c # s' \<Rightarrow> if c = 47 then None else leftmost ts final s')"

lemma leftmost_skipped:
  "leftmost ts final s = (if usable final (glob_front ts s) then glob_front ts s else skipped ts final s)"
  by (cases s) (simp_all add: skipped_def)

lemma leftmost_sound:
  assumes "Star \<notin> set ts"
  shows "leftmost ts final s = Some t \<Longrightarrow> glob_match us t \<Longrightarrow> glob_match (Star # ts @ us) s"
  by (induction s) (auto simp: glob_match_chunk [OF assms] split: if_splits)

lemma leftmost_complete:
  assumes "list_all avoids_slash ts" "Star \<notin> set ts" "us = [] \<or> (\<exists>vs. us = Star # vs)"
  shows "glob_match (Star # ts @ us) s \<Longrightarrow> \<exists>t. leftmost ts (us = []) s = Some t \<and> glob_match us t"
proof (induction s)
  case Nil
  then obtain t where "glob_front ts [] = Some t" "glob_match us t"
    by (auto simp: glob_match_chunk [OF assms(2)] split: option.splits)
  then show ?case by (auto simp: usable_def)
next
  case (Cons c s)
  show ?case
  proof (cases "usable (us = []) (glob_front ts (c # s))")
    case True
    then obtain t where t: "glob_front ts (c # s) = Some t" "us = [] \<Longrightarrow> t = []" by (auto simp: usable_def)
    have "glob_match us t"
    proof (cases "us = []")
      case False
      then obtain vs where "us = Star # vs" using assms(3) by blast
      then show ?thesis using glob_leftmost [OF assms(1,2) t(1)] Cons.prems by simp
    qed (use t(2) in simp)
    then show ?thesis using True t(1) by simp
  next
    case False
    then have "\<not> glob_match (ts @ us) (c # s)" by (auto simp: glob_match_chunk [OF assms(2)] usable_def split: option.splits)
    then show ?thesis using Cons False by auto
  qed
qed

lemma matchChunk_spec:
  "ascii c \<Longrightarrow> plain_escapes c \<Longrightarrow> ascii s \<Longrightarrow> matchChunk c s = Inr (chunk_result (parse False c) False s)"
  by (simp add: matchChunk_def match_loop_spec)

lemma skip_loop_spec:
  assumes "ascii c" "plain_escapes c" "parse False c = Some ts" "ascii r"
  shows "ascii s \<Longrightarrow> i \<le> length s \<Longrightarrow> length s \<le> n + i \<Longrightarrow>
    skip_loop n c r s i = Inr (case skipped ts (r = []) (drop i s) of None \<Rightarrow> NotFound | Some t \<Rightarrow> Found t)"
proof (induction n arbitrary: i)
  case (Suc n)
  show ?case
  proof (cases "i < length s")
    case True
    have ad: "ascii (drop (i + 1) s)" using Suc.prems(1) by (auto simp: list_all_iff dest: in_set_dropD)
    have mc: "matchChunk c (drop (i + 1) s) = Inr (chunk_result (Some ts) False (drop (i + 1) s))"
      using matchChunk_spec [OF assms(1,2) ad] assms(3) by simp
    have IH: "skip_loop n c r s (i + 1) = Inr (case skipped ts (r = []) (drop (i + 1) s) of None \<Rightarrow> NotFound | Some t \<Rightarrow> Found t)"
      using Suc.IH [of "i + 1"] Suc.prems True by simp
    have d: "drop i s = s ! i # drop (i + 1) s" using True by (simp add: Cons_nth_drop_Suc)
    have t: "ascii t" if "glob_front ts (drop (i + 1) s) = Some t" for t
      using that ad set_drop_subset [of "length ts" "drop (i + 1) s"] by (auto simp: glob_front_iff list_all_iff simp del: drop_drop)
    have sk: "skipped ts l (drop i s) = (if s ! i = 47 then None
      else if usable l (glob_front ts (drop (i + 1) s)) then glob_front ts (drop (i + 1) s) else skipped ts l (drop (i + 1) s))" for l
      unfolding d by (simp add: skipped_def leftmost_skipped)
    have op: "i < slen s" "indexString (OfString (JSString s)) (int i) = Inr (s ! i)" "from_at (i + 1) s = Inr (drop (i + 1) s)"
      using Suc.prems(1) True by simp_all
    show ?thesis
    proof (cases "glob_front ts (drop (i + 1) s)")
      case None
      then show ?thesis unfolding skip_loop.simps op(2,3) sk bindR.simps mc using op(1) IH None
        by (simp add: chunk_result_def usable_def)
    next
      case (Some t)
      then have "slen t = length t" "slen r = length r" using t assms(4) by simp_all
      then show ?thesis unfolding skip_loop.simps op(2,3) sk bindR.simps mc using op(1) Some IH
        by (auto simp: chunk_result_def usable_def)
    qed
  qed (use Suc.prems in \<open>simp add: skipped_def\<close>)
qed (simp add: skipped_def)

lemma check_rest_spec:
  "ascii p \<Longrightarrow> plain_escapes p \<Longrightarrow> length p \<le> n \<Longrightarrow>
   check_rest n p = Inr (False, if parse True p = None then Some ErrBadPattern else None)"
proof (induction n arbitrary: p)
  case (Suc n)
  show ?case
  proof (cases "p = []")
    case False
    from scanChunk_parts [OF Suc.prems(1,2) False] obtain k c r where
      s: "scanChunk p = Inr (0 < k, c, r)" "ascii c" "plain_escapes c" "ascii r" "plain_escapes r" "length r < length p"
      and p: "parse True p = (case parse False c of None \<Rightarrow> None | Some ts \<Rightarrow> map_option (\<lambda>us. replicate k Star @ ts @ us) (parse True r))"
      by metis
    have "check_rest n r = Inr (False, if parse True r = None then Some ErrBadPattern else None)"
      using Suc.IH [OF s(4,5)] s(6) Suc.prems(3) by simp
    then show ?thesis using matchChunk_spec [OF s(2,3), of "[]"] s(1) Suc.prems(1) False
      by (auto simp: p chunk_result_def split: option.splits)
  qed simp
qed simp
text \<open>The place a round of the pattern loop goes on from.\<close>

definition place :: "bool \<Rightarrow> glob list \<Rightarrow> bool \<Rightarrow> nat list \<Rightarrow> nat list option" where
  "place star ts final s =
     (if usable final (glob_front ts s) then glob_front ts s else if star then skipped ts final s else None)"

lemma place_star: "place True ts final s = leftmost ts final s"
  by (simp only: place_def leftmost_skipped if_True)

lemma place_ascii:
  assumes "ascii s" "place star ts final s = Some t"
  shows "ascii t"
proof -
  have front: "ascii u" if "ascii s" "glob_front ts s = Some u" for s u
    using that set_drop_subset [of "length ts" s] by (auto simp: glob_front_iff list_all_iff)
  have left: "ascii u" if "ascii s" "leftmost ts final s = Some u" for s u
    using that
  proof (induction s)
    case Nil
    then show ?case using front [of "[]" u] by (simp split: if_splits)
  next
    case (Cons c s)
    then show ?case using front [of "c # s" u] by (simp split: if_splits)
  qed
  show ?thesis
  proof (cases star)
    case True
    then show ?thesis using left [OF assms(1)] assms(2) by (simp add: place_star)
  next
    case False
    then show ?thesis using front [OF assms(1)] assms(2) by (simp add: place_def split: if_splits)
  qed
qed

lemma place_sound:
  assumes "Star \<notin> set ts" "place (0 < k) ts final s = Some t" "glob_match us t"
  shows "glob_match (replicate k Star @ ts @ us) s"
proof (cases "0 < k")
  case True
  then have "leftmost ts final s = Some t" using assms(2) by (simp add: place_star)
  then show ?thesis using leftmost_sound [OF assms(1)] assms(3) glob_match_replicate [OF True] by blast
next
  case False
  then show ?thesis using assms by (auto simp: place_def glob_match_chunk split: if_splits)
qed

lemma place_complete:
  assumes "list_all avoids_slash ts" "Star \<notin> set ts" "us = [] \<or> (\<exists>vs. us = Star # vs)"
    and m: "glob_match (replicate k Star @ ts @ us) s"
  shows "\<exists>t. place (0 < k) ts (us = []) s = Some t \<and> glob_match us t"
proof (cases "0 < k")
  case True
  then show ?thesis using leftmost_complete [OF assms(1-3), of s] m glob_match_replicate [OF True]
    by (simp add: place_star)
next
  case False
  then have "glob_match (ts @ us) s" using m by simp
  then obtain t where "glob_front ts s = Some t" "glob_match us t"
    by (auto simp: glob_match_chunk [OF assms(2)] split: option.splits)
  then show ?thesis by (auto simp: place_def usable_def)
qed

definition parse_error :: "jstr \<Rightarrow> pattern_error option" where
  "parse_error p = (if parse True p = None then Some ErrBadPattern else None)"

text \<open>One round, over the places instead of the loops.\<close>

lemma pattern_loop_step:
  assumes c: "ascii c" "plain_escapes c" "ascii r" "plain_escapes r" and s: "ascii s"
    and sc: "scanChunk p = Inr (0 < k, c, r)" "slen p \<noteq> 0" "\<not> (0 < k \<and> c = [])"
  shows "pattern_loop (Suc n) p s = (case parse False c of None \<Rightarrow> Inr (False, Some ErrBadPattern)
    | Some ts \<Rightarrow> (case place (0 < k) ts (r = []) s of Some t \<Rightarrow> pattern_loop n r t
        | None \<Rightarrow> Inr (False, parse_error r)))"
proof (cases "parse False c")
  case None
  then show ?thesis using sc matchChunk_spec [OF c(1,2) s] by (auto simp: chunk_result_def)
next
  case (Some ts)
  have mc: "matchChunk c s = Inr (chunk_result (Some ts) False s)" using matchChunk_spec [OF c(1,2) s] Some by simp
  have sk: "skip_loop (slen s) c r s 0 = Inr (case skipped ts (r = []) s of None \<Rightarrow> NotFound | Some t \<Rightarrow> Found t)"
    using skip_loop_spec [OF c(1,2) Some c(3) s, of 0 "slen s"] s by simp
  have cr: "check_rest (slen r) r = Inr (False, parse_error r)"
    using check_rest_spec [OF c(3,4), of "slen r"] c(3) by (simp add: parse_error_def)
  have sr: "(slen r = 0) = (r = [])" "(0 < slen r) = (r \<noteq> [])" using c(3) by simp_all
  have body: "pattern_loop (Suc n) p s = bindR (matchChunk c s) (\<lambda>(t, ok, err).
      if ok \<and> (slen t = 0 \<or> 0 < slen r) then pattern_loop n r t
      else if err \<noteq> None then Inr (False, err)
      else bindR (if 0 < k then skip_loop (slen s) c r s 0 else Inr NotFound) (\<lambda>x. case x of
          Found t \<Rightarrow> pattern_loop n r t | Bad e \<Rightarrow> Inr (False, Some e) | NotFound \<Rightarrow> check_rest (slen r) r))"
    using sc by simp
  show ?thesis
  proof (cases "glob_front ts s")
    case None
    then show ?thesis unfolding body mc using Some
      by (auto simp: chunk_result_def sk cr place_def usable_def split: option.splits)
  next
    case front: (Some t)
    have "slen t = length t" using place_ascii [OF s, of False ts False t] front by (simp add: place_def usable_def)
    then show ?thesis unfolding body mc using Some front sk cr sr
      by (cases "r = []") (auto simp: chunk_result_def parse_error_def place_def usable_def split: option.splits)
  qed
qed

definition agrees :: "glob list option \<Rightarrow> jstr \<Rightarrow> bool \<Rightarrow> bool" where
  "agrees p s b = (case p of None \<Rightarrow> \<not> b
     | Some ts \<Rightarrow> if list_all avoids_slash ts then b = glob_match ts s else b \<longrightarrow> glob_match ts s)"

lemma pattern_loop_spec:
  "ascii p \<Longrightarrow> plain_escapes p \<Longrightarrow> ascii s \<Longrightarrow> length p < n \<Longrightarrow>
   \<exists>b. pattern_loop n p s = Inr (b, parse_error p) \<and> agrees (parse True p) s b"
proof (induction n arbitrary: p s)
  case (Suc n)
  show ?case
  proof (cases "p = []")
    case True
    then show ?thesis using Suc.prems(3) by (simp add: parse_error_def agrees_def)
  next
    case False
    from scanChunk_parts [OF Suc.prems(1,2) False] obtain k c r where
      sc: "scanChunk p = Inr (0 < k, c, r)" and c: "ascii c" "plain_escapes c" "ascii r" "plain_escapes r"
      and l: "length r < length p" and r42: "r \<noteq> [] \<Longrightarrow> hd r = 42" and ce: "c = [] \<Longrightarrow> r = []"
      and p: "parse True p = (case parse False c of None \<Rightarrow> None | Some ts \<Rightarrow> map_option (\<lambda>us. replicate k Star @ ts @ us) (parse True r))"
      by metis
    show ?thesis
    proof (cases "0 < k \<and> c = []")
      case True
      then have "parse True p = Some (replicate k Star @ [])" using p ce by simp
      moreover have "glob_match (replicate k Star @ []) s = (47 \<notin> set s)"
        using glob_match_replicate [of k "[]"] True glob_match_star_Nil by simp
      moreover have "pattern_loop (Suc n) p s = Inr (47 \<notin> set s, None)" using True sc False Suc.prems(1) by simp
      ultimately show ?thesis by (simp add: parse_error_def agrees_def)
    next
      case nt: False
      have "slen p \<noteq> 0" using False Suc.prems(1) by simp
      note step = pattern_loop_step [OF c Suc.prems(3) sc this nt]
      show ?thesis
      proof (cases "parse False c")
        case None
        then show ?thesis unfolding step by (auto simp: p parse_error_def agrees_def)
      next
        case (Some ts)
        have ns: "Star \<notin> set ts" using parse_no_star [OF Some] by simp
        have pe: "parse_error p = parse_error r" by (simp add: p Some parse_error_def)
        show ?thesis
        proof (cases "place (0 < k) ts (r = []) s")
          case pl: None
          have "agrees (parse True p) s False"
          proof (cases "parse True r")
            case (Some us)
            have "us = [] \<longleftrightarrow> r = []" "us = [] \<or> (\<exists>vs. us = Star # vs)"
              using Some parse_rest_star [OF Some _ r42] by (cases r; auto)+
            then show ?thesis using place_complete [OF _ ns, of us k s] pl Some \<open>parse False c = Some ts\<close>
              by (auto simp: p agrees_def)
          qed (simp add: p Some agrees_def)
          then show ?thesis unfolding step by (auto simp: Some pl pe)
        next
          case pl: (Some t)
          from place_ascii [OF Suc.prems(3) pl] have at: "ascii t" .
          from Suc.IH [OF c(3,4) at] l Suc.prems(4) obtain b where
            b: "pattern_loop n r t = Inr (b, parse_error r)" "agrees (parse True r) t b" by auto
          have "agrees (parse True p) s b"
          proof (cases "parse True r")
            case rr: (Some us)
            have us: "us = [] \<longleftrightarrow> r = []" "us = [] \<or> (\<exists>vs. us = Star # vs)"
              using rr parse_rest_star [OF rr _ r42] by (cases r; auto)+
            have "b \<Longrightarrow> glob_match us t" using b(2) rr by (auto simp: agrees_def split: if_splits)
            then have "b \<Longrightarrow> glob_match (replicate k Star @ ts @ us) s" by (rule place_sound [OF ns pl])
            moreover have "b" if "list_all avoids_slash (ts @ us)" "glob_match (replicate k Star @ ts @ us) s"
              using place_complete [OF _ ns us(2) that(2)] that(1) pl us(1) b(2) rr by (auto simp: agrees_def)
            ultimately show ?thesis by (auto simp: p Some rr agrees_def list_all_iff)
          qed (use b(2) in \<open>simp add: p Some agrees_def\<close>)
          then show ?thesis unfolding step by (simp add: Some pl pe b(1))
        qed
      qed
    qed
  qed
qed simp

text \<open>An escaped question mark is read again, as an operator: the pattern \<open>\?\<close> matches an \<open>x\<close>, and
  the pattern of two backslashes is malformed. The grammar has the literal character.\<close>

lemma escape_is_no_literal:
  "Match [92, 63] [120] = Inr (True, None)" "Match [92, 92] [92] = Inr (False, Some ErrBadPattern)"
  "parse True [92, 63] = Some [Lit 63]" "parse True [92, 92] = Some [Lit 92]"
  by (simp_all add: Match_def scanChunk_spec matchChunk_def match_loop.simps)

text \<open>With a class that takes a slash the leftmost place of a chunk can be the wrong one: the pattern
  \<open>*[/b]a/a*\<close> and the name \<open>ba/a/a\<close>.\<close>

lemma greedy_misses:
  "Match [42, 91, 47, 98, 93, 97, 47, 97, 42] [98, 97, 47, 97, 47, 97] = Inr (False, None)"
  "parse True [42, 91, 47, 98, 93, 97, 47, 97, 42] = Some [Star, CharClass False [(47, 47), (98, 98)], Lit 97, Lit 47, Lit 97, Star]"
  "glob_match [Star, CharClass False [(47, 47), (98, 98)], Lit 97, Lit 47, Lit 97, Star] [98, 97, 47, 97, 47, 97]"
proof -
  have c: "parse_class [47, 98, 93, 97, 47, 97] = Some (False, [(47, 47), (98, 98)], [97, 47, 97])"
    by code_simp
  show "Match [42, 91, 47, 98, 93, 97, 47, 97, 42] [98, 97, 47, 97, 47, 97] = Inr (False, None)"
    by (simp add: Match_def scanChunk_spec matchChunk_spec c chunk_result_def)
  show "parse True [42, 91, 47, 98, 93, 97, 47, 97, 42] = Some [Star, CharClass False [(47, 47), (98, 98)], Lit 97, Lit 47, Lit 97, Star]"
    by code_simp
qed simp

end
