(* ===== verification/GsBuffer.thy ===== *)
theory GsBuffer
  imports GsByteSlice GsString
begin

section \<open>bytes.Buffer (gs/bytes/buffer.gs.ts)\<close>

text \<open>
  A buffer is a byte slice (or nil), a read offset and the kind of the last read. An operation
  is a function of the buffer and of the heap of byte arrays; a panic is a value, and it keeps
  what the operation had changed before it (a caller may recover). The readers and writers that
  \<open>ReadFrom\<close> and \<open>WriteTo\<close> call are parameters. The abstract buffer is the list of its
  unread bytes; the last part runs whole histories of operations on both.
\<close>

datatype io_error = EOF | ErrShortWrite | ErrTooLarge | ErrorText string

text \<open>A panic: an exception of the runtime, or the argument of a call of \<open>$.panic\<close>.\<close>

datatype buf_panic = Thrown js_exn | PanicText string | PanicError io_error

record buffer =
  buf :: "bslice option"
  off :: int
  lastRead :: int

type_synonym bstate = "buffer \<times> bheap"

text \<open>A function of an object of type \<open>'o\<close> and of the heap.\<close>

type_synonym ('o, 'a) meth = "'o \<times> bheap \<Rightarrow> (buf_panic + 'a) \<times> 'o \<times> bheap"
type_synonym 'a buf_op = "(buffer, 'a) meth"

named_theorems buf_simps \<open>equations that run the operations of a buffer\<close>

definition ret :: "'a \<Rightarrow> ('o, 'a) meth" where "ret x = (\<lambda>w. (Inr x, w))"

definition bnd :: "('o, 'a) meth \<Rightarrow> ('a \<Rightarrow> ('o, 'b) meth) \<Rightarrow> ('o, 'b) meth" where
  "bnd m f = (\<lambda>w. case m w of (Inl e, w1) \<Rightarrow> (Inl e, w1) | (Inr x, w1) \<Rightarrow> f x w1)"

definition raise :: "buf_panic \<Rightarrow> ('o, 'a) meth" where "raise e = (\<lambda>w. (Inl e, w))"

definition receiver :: "('o, 'o) meth" where "receiver = (\<lambda>(b, h). (Inr b, (b, h)))"

definition the_heap :: "('o, bheap) meth" where "the_heap = (\<lambda>(b, h). (Inr h, (b, h)))"

definition upd :: "('o \<Rightarrow> 'o) \<Rightarrow> ('o, unit) meth" where "upd f = (\<lambda>(b, h). (Inr (), (f b, h)))"

definition from_res :: "'a res \<Rightarrow> ('o, 'a) meth" where
  "from_res r = (\<lambda>w. (case r of Inl e \<Rightarrow> Inl (Thrown e) | Inr x \<Rightarrow> Inr x, w))"

text \<open>A function of the heap that may throw, as an operation.\<close>

definition on_heap :: "(bheap \<Rightarrow> ('a \<times> bheap) res) \<Rightarrow> ('o, 'a) meth" where
  "on_heap f = (\<lambda>(b, h). case f h of Inl e \<Rightarrow> (Inl (Thrown e), (b, h)) | Inr (x, h1) \<Rightarrow> (Inr x, (b, h1)))"

subsection \<open>Slices that may be nil\<close>

definition slen0 :: "bslice option \<Rightarrow> int" where
  "slen0 s = (case s of None \<Rightarrow> 0 | Some t \<Rightarrow> int (blen t))"

definition scap0 :: "bslice option \<Rightarrow> int" where
  "scap0 s = (case s of None \<Rightarrow> 0 | Some t \<Rightarrow> int (bcap t))"

definition sbytes0 :: "bheap \<Rightarrow> bslice option \<Rightarrow> byte list" where
  "sbytes0 h s = (case s of None \<Rightarrow> [] | Some t \<Rightarrow> bytes_of h t)"

definition slice0 :: "bslice option \<Rightarrow> int option \<Rightarrow> int option \<Rightarrow> bslice option res" where
  "slice0 s low high =
     (case s of None \<Rightarrow> bindR (goSlice_nil (opt_index low 0) (opt_index high 0) None) (\<lambda>_. Inr None)
      | Some t \<Rightarrow> bindR (byte_goSlice t low high None) (\<lambda>r. Inr (Some r)))"

definition bytesToUint8Array :: "bslice option \<Rightarrow> bheap \<Rightarrow> bslice \<times> bheap" where
  "bytesToUint8Array s h =
     (case s of None \<Rightarrow> (case new_buffer [] h of (u, h1) \<Rightarrow> (\<lparr>b_arr = u, b_meta = None\<rparr>, h1))
      | Some t \<Rightarrow> (\<lparr>b_arr = b_arr t, b_meta = None\<rparr>, h))"

definition copy0 :: "bslice option \<Rightarrow> bslice option \<Rightarrow> bheap \<Rightarrow> (nat \<times> bheap) res" where
  "copy0 dst src h = (case (dst, src) of (Some d, Some s) \<Rightarrow> byte_copy d s h | _ \<Rightarrow> Inr (0, h))"

text \<open>\<open>target[i] = v\<close> on a typed array: a store outside its length is ignored.\<close>

definition u8_put :: "bslice option \<Rightarrow> nat \<Rightarrow> byte \<Rightarrow> bheap \<Rightarrow> bheap" where
  "u8_put t i v h =
     (case t of None \<Rightarrow> h | Some s \<Rightarrow> if i < u_len (b_arr s) then u8_store (b_arr s) i [v] h else h)"

subsection \<open>The methods\<close>

definition set_buf :: "bslice option \<Rightarrow> unit buf_op" where "set_buf s = upd (\<lambda>b. b\<lparr>buf := s\<rparr>)"

definition Len :: "buffer \<Rightarrow> int" where "Len b = slen0 (buf b) - off b"

definition empty :: "buffer \<Rightarrow> bool" where "empty b \<longleftrightarrow> slen0 (buf b) \<le> off b"

definition Cap :: "buffer \<Rightarrow> int" where "Cap b = scap0 (buf b)"

definition Available :: "buffer \<Rightarrow> int" where "Available b = scap0 (buf b) - slen0 (buf b)"

definition Bytes :: "bslice option buf_op" where
  "Bytes = bnd receiver (\<lambda>b. from_res (slice0 (buf b) (Some (off b)) None))"

definition AvailableBuffer :: "bslice option buf_op" where
  "AvailableBuffer = bnd receiver (\<lambda>b. from_res (slice0 (buf b) (Some (slen0 (buf b))) None))"

definition byte_nats :: "byte list \<Rightarrow> nat list" where "byte_nats bs = map unat bs"

definition string_of :: "bheap \<Rightarrow> bslice option \<Rightarrow> jstr" where
  "string_of h s = (case s of None \<Rightarrow> bytesToString OfNull | Some t \<Rightarrow> bytesToString (OfBytes (byte_nats (bytes_of h t))))"

definition String_method :: "jstr buf_op" where
  "String_method = bnd receiver (\<lambda>b.
     if buf b = None then ret []
     else bnd (from_res (slice0 (buf b) (Some (off b)) None)) (\<lambda>s. bnd the_heap (\<lambda>h. ret (string_of h s))))"

definition Reset :: "unit buf_op" where
  "Reset = bnd receiver (\<lambda>b. bnd (from_res (slice0 (buf b) None (Some 0))) (\<lambda>s.
     upd (\<lambda>b. b\<lparr>buf := s, off := 0, lastRead := 0\<rparr>)))"

definition Truncate :: "int \<Rightarrow> unit buf_op" where
  "Truncate n =
     (if n = 0 then Reset
      else bnd (upd (\<lambda>b. b\<lparr>lastRead := 0\<rparr>)) (\<lambda>_. bnd receiver (\<lambda>b.
        if n < 0 \<or> Len b < n then raise (PanicText ''bytes.Buffer: truncation out of range'')
        else bnd (from_res (slice0 (buf b) None (Some (off b + n)))) set_buf)))"

definition tryGrowByReslice :: "int \<Rightarrow> (int \<times> bool) buf_op" where
  "tryGrowByReslice n = bnd receiver (\<lambda>b.
     if buf b = None then ret (0, False)
     else let l = slen0 (buf b) in
       if n \<le> scap0 (buf b) - l
       then bnd (from_res (slice0 (buf b) None (Some (l + n)))) (\<lambda>s. bnd (set_buf s) (\<lambda>_. ret (l, True)))
       else ret (0, False))"

definition growSlice :: "bslice option \<Rightarrow> int \<Rightarrow> bslice option buf_op" where
  "growSlice b n =
     (let c = (if slen0 b + n < 2 * scap0 b then 2 * scap0 b else slen0 b + n) in
      bnd (on_heap (byte_makeSlice c (Some c))) (\<lambda>b2.
        bnd (on_heap (copy0 (Some b2) b)) (\<lambda>i. from_res (slice0 (Some b2) None (Some (int i))))))"

text \<open>The slide of \<open>grow\<close>: the unread bytes are copied to the start of the slice.\<close>

definition slide :: "unit buf_op" where
  "slide = bnd receiver (\<lambda>b. bnd (from_res (slice0 (buf b) (Some (off b)) None)) (\<lambda>rest.
     bnd (on_heap (\<lambda>h. Inr (bytesToUint8Array (buf b) h))) (\<lambda>dst.
       bnd (on_heap (\<lambda>h. Inr (bytesToUint8Array rest h))) (\<lambda>src.
         bnd (on_heap (copy0 (Some dst) (Some src))) (\<lambda>_. ret ())))))"

definition grow_room :: "int \<Rightarrow> int \<Rightarrow> unit buf_op" where
  "grow_room m n = bnd receiver (\<lambda>b. let c = scap0 (buf b) in
     if 2 * n \<le> c - 2 * m then slide
     else if 9223372036854775807 - c - n < c then raise (PanicError ErrTooLarge)
     else bnd (from_res (slice0 (buf b) (Some (off b)) None)) (\<lambda>rest.
       bnd (growSlice rest (off b + n)) set_buf))"

text \<open>\<open>grow\<close> after its fast path: a first array, or room in the one there is.\<close>

definition grow_more :: "int \<Rightarrow> int \<Rightarrow> int buf_op" where
  "grow_more m n = bnd receiver (\<lambda>b. if buf b = None
     then bnd (on_heap (byte_makeSlice n (Some (if n \<le> 64 then 64 else n)))) (\<lambda>s.
       bnd (set_buf (Some s)) (\<lambda>_. ret 0))
     else bnd (grow_room m n) (\<lambda>_. bnd (upd (\<lambda>b. b\<lparr>off := 0\<rparr>)) (\<lambda>_. bnd receiver (\<lambda>b.
       bnd (from_res (slice0 (buf b) None (Some (m + n)))) (\<lambda>s. bnd (set_buf s) (\<lambda>_. ret m))))))"

definition grow :: "int \<Rightarrow> int buf_op" where
  "grow n = bnd receiver (\<lambda>b. let m = Len b in
     bnd (if m = 0 \<and> off b \<noteq> 0 then Reset else ret ()) (\<lambda>_.
       bnd (tryGrowByReslice n) (\<lambda>(i, ok). if ok then ret i else grow_more m n)))"

definition Grow :: "int \<Rightarrow> unit buf_op" where
  "Grow n =
     (if n < 0 then raise (PanicText ''bytes.Buffer.Grow: negative count'')
      else bnd (grow n) (\<lambda>m. bnd receiver (\<lambda>b.
        bnd (from_res (slice0 (buf b) None (Some m))) set_buf)))"

text \<open>The first lines of every write: \<open>lastRead\<close>, and the index to write at.\<close>

definition reserve :: "int \<Rightarrow> int buf_op" where
  "reserve n = bnd (upd (\<lambda>b. b\<lparr>lastRead := 0\<rparr>)) (\<lambda>_.
     bnd (tryGrowByReslice n) (\<lambda>(m, ok). if ok then ret m else grow n))"

text \<open>The copy loops: \<open>count\<close> elements from index \<open>i\<close> on; \<open>p\<close> is read as the loop runs.\<close>

primrec write_loop :: "bslice option \<Rightarrow> bslice option \<Rightarrow> nat \<Rightarrow> nat \<Rightarrow> bheap \<Rightarrow> bheap" where
  "write_loop t p i 0 h = h"
| "write_loop t p i (Suc n) h = write_loop t p (Suc i) n (u8_put t i (sbytes0 h p ! i) h)"

primrec put_loop :: "bslice option \<Rightarrow> nat \<Rightarrow> byte list \<Rightarrow> bheap \<Rightarrow> bheap" where
  "put_loop t i [] h = h"
| "put_loop t i (x # xs) h = put_loop t (Suc i) xs (u8_put t i x h)"

definition Write :: "bslice option \<Rightarrow> (int \<times> io_error option) buf_op" where
  "Write p = bnd (reserve (slen0 p)) (\<lambda>m. bnd receiver (\<lambda>b.
     bnd (from_res (slice0 (buf b) (Some m) (Some (m + slen0 p)))) (\<lambda>t.
       bnd (on_heap (\<lambda>h. Inr ((), write_loop t p 0 (nat (slen0 p)) h))) (\<lambda>_. ret (slen0 p, None)))))"

definition to_bytes :: "nat list \<Rightarrow> byte list" where "to_bytes ns = map word_of_nat ns"

definition WriteString :: "jstr \<Rightarrow> (int \<times> io_error option) buf_op" where
  "WriteString s = (let n = int (stringLen (JSString s)) in
     bnd (reserve n) (\<lambda>m. bnd receiver (\<lambda>b.
       bnd (from_res (slice0 (buf b) (Some m) (Some (m + n)))) (\<lambda>t.
         let encoded = to_bytes (text_encode s) in
         bnd (on_heap (\<lambda>h. Inr ((), put_loop t 0 encoded h))) (\<lambda>_. ret (int (length encoded), None))))))"

definition WriteByte :: "byte \<Rightarrow> io_error option buf_op" where
  "WriteByte c = bnd (reserve 1) (\<lambda>m. bnd receiver (\<lambda>b.
     bnd (on_heap (\<lambda>h. Inr ((), u8_put (buf b) (nat m) c h))) (\<lambda>_. ret None)))"

text \<open>\<open>AppendRune\<close> builds a new array.\<close>

definition append_rune :: "bslice option \<Rightarrow> int \<Rightarrow> bheap \<Rightarrow> bslice option \<times> bheap" where
  "append_rune p r h =
     (case new_buffer (to_bytes (AppendRune (byte_nats (sbytes0 h p)) r)) h of
        (u, h1) \<Rightarrow> (Some \<lparr>b_arr = u, b_meta = None\<rparr>, h1))"

definition WriteRune :: "int \<Rightarrow> (int \<times> io_error option) buf_op" where
  "WriteRune r =
     (if r < 0x80 then bnd (WriteByte (word_of_int r)) (\<lambda>_. ret (1, None))
      else bnd (reserve 4) (\<lambda>m. bnd receiver (\<lambda>b.
        bnd (from_res (slice0 (buf b) None (Some m))) (\<lambda>s.
          bnd (on_heap (\<lambda>h. Inr (append_rune s r h))) (\<lambda>t. bnd (set_buf t) (\<lambda>_. ret (slen0 t - m, None)))))))"

definition Read :: "bslice option \<Rightarrow> (int \<times> io_error option) buf_op" where
  "Read p = bnd (upd (\<lambda>b. b\<lparr>lastRead := 0\<rparr>)) (\<lambda>_. bnd receiver (\<lambda>b.
     if empty b then bnd Reset (\<lambda>_. ret (if slen0 p = 0 then (0, None) else (0, Some EOF)))
     else bnd (from_res (slice0 (buf b) (Some (off b)) None)) (\<lambda>s.
       bnd (on_heap (copy0 p s)) (\<lambda>n.
         bnd (upd (\<lambda>b. b\<lparr>off := off b + int n, lastRead := if 0 < n then -1 else lastRead b\<rparr>)) (\<lambda>_.
           ret (int n, None))))))"

definition Next :: "int \<Rightarrow> bslice option buf_op" where
  "Next n0 = bnd (upd (\<lambda>b. b\<lparr>lastRead := 0\<rparr>)) (\<lambda>_. bnd receiver (\<lambda>b.
     let n = (if Len b < n0 then Len b else n0) in
     bnd (from_res (slice0 (buf b) (Some (off b)) (Some (off b + n)))) (\<lambda>data.
       bnd (upd (\<lambda>b. b\<lparr>off := off b + n, lastRead := if 0 < n then -1 else lastRead b\<rparr>)) (\<lambda>_. ret data))))"

text \<open>\<open>new Uint8Array(0)\<close>.\<close>

definition no_bytes :: "bslice option buf_op" where
  "no_bytes = on_heap (\<lambda>h. case new_buffer [] h of (u, h1) \<Rightarrow> Inr (Some \<lparr>b_arr = u, b_meta = None\<rparr>, h1))"

definition Peek :: "int \<Rightarrow> (bslice option \<times> io_error option) buf_op" where
  "Peek n =
     (if n < 0 then ret (None, Some (ErrorText ''bytes.Buffer.Peek: negative count''))
      else bnd receiver (\<lambda>b.
        if empty b then bnd Reset (\<lambda>_. bnd no_bytes (\<lambda>s. ret (s, if n = 0 then None else Some EOF)))
        else bnd (from_res (slice0 (buf b) (Some (off b)) None)) (\<lambda>unread.
          if slen0 unread < n then ret (unread, Some EOF)
          else bnd (from_res (slice0 (buf b) (Some (off b)) (Some (off b + n)))) (\<lambda>s. ret (s, None)))))"

definition ReadByte :: "(byte \<times> io_error option) buf_op" where
  "ReadByte = bnd receiver (\<lambda>b.
     if empty b then bnd Reset (\<lambda>_. ret (0, Some EOF))
     else bnd the_heap (\<lambda>h. let c = sbytes0 h (buf b) ! nat (off b) in
       bnd (upd (\<lambda>b. b\<lparr>off := off b + 1, lastRead := -1\<rparr>)) (\<lambda>_. ret (c, None))))"

definition ReadRune :: "(int \<times> int \<times> io_error option) buf_op" where
  "ReadRune = bnd receiver (\<lambda>b.
     if empty b then bnd Reset (\<lambda>_. ret (0, 0, Some EOF))
     else bnd the_heap (\<lambda>h. let c = unat (sbytes0 h (buf b) ! nat (off b)) in
       if c < 0x80 then bnd (upd (\<lambda>b. b\<lparr>off := off b + 1, lastRead := 1\<rparr>)) (\<lambda>_. ret (int c, 1, None))
       else bnd (from_res (slice0 (buf b) (Some (off b)) None)) (\<lambda>s.
         let (r, n) = DecodeRune (byte_nats (sbytes0 h s)) in
         bnd (upd (\<lambda>b. b\<lparr>off := off b + int n, lastRead := int n\<rparr>)) (\<lambda>_. ret (int r, int n, None)))))"

definition UnreadRune :: "io_error option buf_op" where
  "UnreadRune = bnd receiver (\<lambda>b.
     if lastRead b \<le> 0
     then ret (Some (ErrorText ''bytes.Buffer: UnreadRune: previous operation was not a successful ReadRune''))
     else bnd (upd (\<lambda>b. b\<lparr>off := if lastRead b \<le> off b then off b - lastRead b else off b, lastRead := 0\<rparr>))
       (\<lambda>_. ret None))"

definition errUnreadByte :: io_error where
  "errUnreadByte = ErrorText ''bytes.Buffer: UnreadByte: previous operation was not a successful read''"

definition UnreadByte :: "io_error option buf_op" where
  "UnreadByte = bnd receiver (\<lambda>b.
     if lastRead b = 0 then ret (Some errUnreadByte)
     else bnd (upd (\<lambda>b. b\<lparr>lastRead := 0, off := if 0 < off b then off b - 1 else off b\<rparr>)) (\<lambda>_. ret None))"

definition IndexByte :: "bheap \<Rightarrow> bslice option \<Rightarrow> byte \<Rightarrow> int" where
  "IndexByte h s c = bytesIndexByte (map_option (bytes_of h) s) c"

definition readSlice :: "byte \<Rightarrow> (bslice option \<times> io_error option) buf_op" where
  "readSlice delim = bnd receiver (\<lambda>b.
     bnd (from_res (slice0 (buf b) (Some (off b)) None)) (\<lambda>rest. bnd the_heap (\<lambda>h.
       let i = IndexByte h rest delim;
           fin = (if i < 0 then slen0 (buf b) else off b + i + 1);
           err = (if i < 0 then Some EOF else None) in
       bnd (from_res (slice0 (buf b) (Some (off b)) (Some fin))) (\<lambda>line.
         bnd (upd (\<lambda>b. b\<lparr>off := fin, lastRead := -1\<rparr>)) (\<lambda>_. ret (line, err))))))"

text \<open>\<open>$.append(null, slice)\<close> is the generic append to nil: its argument is one element of
  the result.\<close>

definition ReadBytes :: "byte \<Rightarrow> (bslice option list \<times> io_error option) buf_op" where
  "ReadBytes delim = bnd (readSlice delim) (\<lambda>(s, err). ret ([s], err))"

definition ReadString :: "byte \<Rightarrow> (jstr \<times> io_error option) buf_op" where
  "ReadString delim = bnd (readSlice delim) (\<lambda>(s, err). bnd the_heap (\<lambda>h. ret (string_of h s, err)))"

definition NewBuffer :: "bslice option \<Rightarrow> buffer" where
  "NewBuffer s = \<lparr>buf = s, off = 0, lastRead = 0\<rparr>"

definition NewBufferString :: "jstr \<Rightarrow> bheap \<Rightarrow> buffer \<times> bheap" where
  "NewBufferString s h =
     (case new_buffer (to_bytes (stringToBytes (OfString (JSString s)))) h of
        (u, h1) \<Rightarrow> (\<lparr>buf = Some \<lparr>b_arr = u, b_meta = None\<rparr>, off = 0, lastRead = 0\<rparr>, h1))"

subsection \<open>ReadFrom and WriteTo\<close>

text \<open>A reader fills the array it is given and a writer reads it; each has a state of its own
  and may panic. A result \<open>None\<close> of the loop of \<open>ReadFrom\<close> means that the fuel ran out.\<close>

type_synonym 'r endpoint = "bslice \<Rightarrow> ('r, int \<times> io_error option) meth"

definition read_room :: "(int \<times> bslice) buf_op" where
  "read_room = bnd (grow 512) (\<lambda>i. bnd receiver (\<lambda>b.
     bnd (from_res (slice0 (buf b) None (Some i))) (\<lambda>s. bnd (set_buf s) (\<lambda>_.
       bnd (from_res (slice0 s (Some i) (Some (scap0 s)))) (\<lambda>p.
         bnd (on_heap (\<lambda>h. Inr (bytesToUint8Array p h))) (\<lambda>a. ret (i, a)))))))"

definition read_done :: "int \<Rightarrow> int \<Rightarrow> unit buf_op" where
  "read_done i m =
     (if m < 0 then raise (PanicError (ErrorText ''bytes.Buffer: reader returned negative count from Read''))
      else bnd receiver (\<lambda>b. bnd (from_res (slice0 (buf b) None (Some (i + m)))) set_buf))"

definition read_step :: "'r endpoint \<Rightarrow> 'r \<Rightarrow> bstate \<Rightarrow> (buf_panic + int \<times> io_error option) \<times> 'r \<times> bstate" where
  "read_step rd r w =
     (case read_room w of
        (Inl e, w1) \<Rightarrow> (Inl e, r, w1)
      | (Inr (i, a), (b1, h1)) \<Rightarrow>
          (case rd a (r, h1) of
             (Inl e, r1, h2) \<Rightarrow> (Inl e, r1, (b1, h2))
           | (Inr (m, e), r1, h2) \<Rightarrow>
               (case read_done i m (b1, h2) of
                  (Inl p, w2) \<Rightarrow> (Inl p, r1, w2)
                | (Inr _, w2) \<Rightarrow> (Inr (m, e), r1, w2))))"

primrec read_loop ::
  "nat \<Rightarrow> 'r endpoint \<Rightarrow> int \<Rightarrow> 'r \<Rightarrow> bstate \<Rightarrow> ((buf_panic + int \<times> io_error option) \<times> 'r \<times> bstate) option" where
  "read_loop 0 = (\<lambda>rd n r w. None)"
| "read_loop (Suc fuel) = (\<lambda>rd n r w.
     case read_step rd r w of
       (Inl e, r1, w1) \<Rightarrow> Some (Inl e, r1, w1)
     | (Inr (m, e), r1, w1) \<Rightarrow>
         if e = Some EOF then Some (Inr (n + m, None), r1, w1)
         else if e \<noteq> None then Some (Inr (n + m, e), r1, w1)
         else read_loop fuel rd (n + m) r1 w1)"

definition ReadFrom ::
  "nat \<Rightarrow> 'r endpoint \<Rightarrow> 'r \<Rightarrow> bstate \<Rightarrow> ((buf_panic + int \<times> io_error option) \<times> 'r \<times> bstate) option" where
  "ReadFrom fuel rd r w = (case w of (b, h) \<Rightarrow> read_loop fuel rd 0 r (b\<lparr>lastRead := 0\<rparr>, h))"

definition WriteTo :: "'r endpoint \<Rightarrow> 'r \<Rightarrow> bstate \<Rightarrow> (buf_panic + int \<times> io_error option) \<times> 'r \<times> bstate" where
  "WriteTo wr r w0 =
     (case w0 of (b0, h) \<Rightarrow> let b = b0\<lparr>lastRead := 0\<rparr>; nBytes = Len b in
      if 0 < nBytes
      then (case bnd Bytes (\<lambda>p. on_heap (\<lambda>h. Inr (bytesToUint8Array p h))) (b, h) of
         (Inl e, w1) \<Rightarrow> (Inl e, r, w1)
       | (Inr a, (b1, h1)) \<Rightarrow>
           (case wr a (r, h1) of
              (Inl e, r1, h2) \<Rightarrow> (Inl e, r1, (b1, h2))
            | (Inr (m, e), r1, h2) \<Rightarrow>
              if nBytes < m then (Inl (PanicText ''bytes.Buffer.WriteTo: invalid Write count''), r1, (b1, h2))
              else let w2 = (b1\<lparr>off := off b1 + m\<rparr>, h2) in
                if e \<noteq> None then (Inr (m, e), r1, w2)
                else if m \<noteq> nBytes then (Inr (m, Some ErrShortWrite), r1, w2)
                else (case bnd Reset (\<lambda>_. ret (m, None)) w2 of (x, w3) \<Rightarrow> (x, r1, w3))))
      else (case bnd Reset (\<lambda>_. ret (0, None)) (b, h) of (x, w3) \<Rightarrow> (x, r, w3)))"

subsection \<open>Running the operations\<close>

lemmas run_defs = ret_def bnd_def raise_def receiver_def the_heap_def upd_def set_buf_def from_res_def on_heap_def

lemma bnd_Inr: "m w = (Inr x, w1) \<Longrightarrow> bnd m f w = f x w1"
  by (simp add: bnd_def)

lemma bnd_receiver [simp]: "bnd receiver f (b, h) = f b (b, h)"
  by (simp add: bnd_def receiver_def)

lemma bnd_upd [simp]: "bnd (upd g) f (b, h) = f () (g b, h)"
  by (simp add: bnd_def upd_def)

lemma bnd_the_heap [simp]: "bnd the_heap f (b, h) = f h (b, h)"
  by (simp add: bnd_def the_heap_def)

lemma bnd_ret [simp]: "bnd (ret x) f w = f x w"
  by (simp add: bnd_def ret_def)

text \<open>The part of a slice from \<open>lo\<close> to \<open>hi\<close>; its capacity reaches to the end of the slice's.\<close>

definition sub_slice :: "bslice \<Rightarrow> nat \<Rightarrow> nat \<Rightarrow> bslice" where
  "sub_slice s lo hi = byteSliceView (bback s) (boff s + lo) (hi - lo) (bcap s - lo)"

lemma slice0_sub:
  assumes "opt_index low 0 = int lo" "opt_index high (int (blen s)) = int hi" "lo \<le> hi" "hi \<le> bcap s"
  shows "slice0 (Some s) low high = Inr (Some (sub_slice s lo hi))"
  using assms by (simp add: slice0_def byte_goSlice_def sub_slice_def Let_def nat_diff_distrib)

lemma sub_slice:
  assumes "bslice_ok h s" "lo \<le> hi" "hi \<le> bcap s"
  shows "bslice_ok h (sub_slice s lo hi)" "blen (sub_slice s lo hi) = hi - lo"
    "bcap (sub_slice s lo hi) = bcap s - lo" "u_buf (bback (sub_slice s lo hi)) = u_buf (bback s)"
    "bstart (sub_slice s lo hi) = bstart s + lo"
    "bytes_of h (sub_slice s lo hi) = take (hi - lo) (drop lo (bwindow h s))"
proof -
  have w: "boff s + bcap s \<le> u_len (bback s)" "u8_ok h (bback s)" using assms(1) by (auto simp: bslice_ok_def)
  have n: "boff s + lo + (hi - lo) \<le> u_len (bback s)" "hi - lo \<le> bcap s - lo"
    "boff s + lo + (bcap s - lo) \<le> u_len (bback s)" using assms w by auto
  show ok: "bslice_ok h (sub_slice s lo hi)"
    unfolding sub_slice_def by (rule byteSliceView_ok [OF w(2) n(3) n(2)])
  show v: "blen (sub_slice s lo hi) = hi - lo" "bcap (sub_slice s lo hi) = bcap s - lo"
    "u_buf (bback (sub_slice s lo hi)) = u_buf (bback s)" "bstart (sub_slice s lo hi) = bstart s + lo"
    using byteSliceView_simps [OF n(1,2)] by (simp_all add: sub_slice_def bstart_def)
  have "bwindow h (sub_slice s lo hi) = drop lo (bwindow h s)"
    using assms(2,3) by (simp add: bwindow_def v drop_take add.commute)
  then show "bytes_of h (sub_slice s lo hi) = take (hi - lo) (drop lo (bwindow h s))"
    using bytes_of_window [OF ok] by (simp add: v)
qed

lemma sub_slice_within:
  assumes "bslice_ok h s" "lo \<le> hi" "hi \<le> blen s"
  shows "bytes_of h (sub_slice s lo hi) = take (hi - lo) (drop lo (bytes_of h s))"
proof -
  have "hi \<le> bcap s" using assms by (auto simp: bslice_ok_def)
  with sub_slice(6) [OF assms(1,2)] have "bytes_of h (sub_slice s lo hi) = take (hi - lo) (drop lo (bwindow h s))"
    by simp
  with assms show ?thesis by (simp add: bytes_of_window [OF assms(1)] drop_take min_def)
qed

text \<open>A slice grown within its capacity keeps its bytes.\<close>

lemma sub_slice_grown:
  assumes "bslice_ok h s" "blen s \<le> hi" "hi \<le> bcap s"
  shows "take (blen s) (bytes_of h (sub_slice s 0 hi)) = bytes_of h s"
  using sub_slice(6) [OF assms(1) _ assms(3), of 0] assms by (simp add: bytes_of_window [OF assms(1)] min_def)

text \<open>The invariant, the unread bytes, and the arrays an operation may touch: the buffer's own
  array, and those it allocates.\<close>

definition buf_ok :: "buffer \<Rightarrow> bheap \<Rightarrow> bool" where
  "buf_ok b h \<longleftrightarrow> 0 \<le> off b \<and> off b \<le> slen0 (buf b) \<and>
     (case buf b of None \<Rightarrow> True | Some s \<Rightarrow> bslice_ok h s)"

definition content :: "buffer \<Rightarrow> bheap \<Rightarrow> byte list" where
  "content b h = drop (nat (off b)) (sbytes0 h (buf b))"

definition owns :: "buffer \<Rightarrow> nat \<Rightarrow> bool" where
  "owns b c \<longleftrightarrow> (case buf b of None \<Rightarrow> False | Some s \<Rightarrow> u_buf (bback s) = c)"

definition frame :: "buffer \<Rightarrow> bheap \<Rightarrow> buffer \<Rightarrow> bheap \<Rightarrow> bool" where
  "frame b h b' h' \<longleftrightarrow> next_buf h \<le> next_buf h' \<and>
     (\<forall>c<next_buf h. length (buffers h' c) = length (buffers h c) \<and>
        (\<not> owns b c \<longrightarrow> buffers h' c = buffers h c)) \<and>
     (\<forall>c. owns b' c \<longrightarrow> owns b c \<or> next_buf h \<le> c)"

lemma frame_refl [simp]: "frame b h b h" by (simp add: frame_def)

lemma frame_trans: "frame b h b1 h1 \<Longrightarrow> frame b1 h1 b2 h2 \<Longrightarrow> frame b h b2 h2"
  unfolding frame_def by (smt (verit, best) order.strict_trans2 order.trans linorder_not_le)

lemma frame_same_heap: "(\<And>c. owns b' c \<Longrightarrow> owns b c) \<Longrightarrow> frame b h b' h"
  by (auto simp: frame_def)

lemma owns_simps [simp]:
  "\<not> owns \<lparr>buf = None, off = k, lastRead = l\<rparr> c"
  "owns \<lparr>buf = Some s, off = k, lastRead = l\<rparr> c \<longleftrightarrow> u_buf (bback s) = c"
  by (simp_all add: owns_def)

lemma frame_same [simp]:
  "frame b h \<lparr>buf = None, off = k, lastRead = l\<rparr> h"
  "frame b h \<lparr>buf = Some s, off = k, lastRead = l\<rparr> h \<longleftrightarrow> owns b (u_buf (bback s)) \<or> next_buf h \<le> u_buf (bback s)"
  by (auto simp: frame_def)

lemma bslice_ok_kept:
  assumes "bslice_ok h s" "next_buf h \<le> next_buf h'" "\<forall>c<next_buf h. length (buffers h' c) = length (buffers h c)"
  shows "bslice_ok h' s"
  using assms by (auto simp: bslice_ok_def u8_ok_def)

lemma buf_ok_cases:
  assumes "buf_ok b h"
  obtains l where "b = \<lparr>buf = None, off = 0, lastRead = l\<rparr>"
  | s k l where "b = \<lparr>buf = Some s, off = int k, lastRead = l\<rparr>" "bslice_ok h s" "k \<le> blen s"
proof (cases b)
  case (fields s k l)
  show thesis
  proof (cases s)
    case None
    with assms fields that(1) show thesis by (auto simp: buf_ok_def slen0_def)
  next
    case (Some t)
    moreover have "k = int (nat k)" "nat k \<le> blen t" "bslice_ok h t"
      using assms fields Some by (auto simp: buf_ok_def slen0_def)
    ultimately show thesis using that(2) fields by metis
  qed
qed

lemma buf_ok_simps [simp]:
  "buf_ok \<lparr>buf = None, off = k, lastRead = l\<rparr> h \<longleftrightarrow> k = 0"
  "buf_ok \<lparr>buf = Some s, off = int n, lastRead = l\<rparr> h \<longleftrightarrow> n \<le> blen s \<and> bslice_ok h s"
  "buf_ok \<lparr>buf = Some s, off = 0, lastRead = l\<rparr> h \<longleftrightarrow> bslice_ok h s"
  by (auto simp: buf_ok_def slen0_def)

lemma content_simps [simp]:
  "content \<lparr>buf = None, off = k, lastRead = l\<rparr> h = []"
  "content \<lparr>buf = Some s, off = int n, lastRead = l\<rparr> h = drop n (bytes_of h s)"
  "content \<lparr>buf = Some s, off = 0, lastRead = l\<rparr> h = bytes_of h s"
  by (simp_all add: content_def sbytes0_def)

lemma length_content: "buf_ok b h \<Longrightarrow> int (length (content b h)) = Len b"
  by (erule buf_ok_cases) (simp_all add: Len_def slen0_def length_bytes_of)

lemma slice_simps [simp]:
  "slen0 None = 0" "slen0 (Some s) = int (blen s)" "scap0 None = 0" "scap0 (Some s) = int (bcap s)"
  "sbytes0 h None = []" "sbytes0 h (Some s) = bytes_of h s"
  by (simp_all add: slen0_def scap0_def sbytes0_def)

lemma slice0_to [buf_simps]:
  "hi \<le> bcap s \<Longrightarrow> slice0 (Some s) None (Some (int hi)) = Inr (Some (sub_slice s 0 hi))"
  by (rule slice0_sub) (simp_all add: opt_index_simps)

lemma slice0_from [buf_simps]:
  "lo \<le> blen s \<Longrightarrow> bslice_ok h s \<Longrightarrow> slice0 (Some s) (Some (int lo)) None = Inr (Some (sub_slice s lo (blen s)))"
  by (rule slice0_sub) (simp_all add: opt_index_simps bslice_ok_def)

lemma slice0_between [buf_simps]:
  "lo \<le> hi \<Longrightarrow> hi \<le> bcap s \<Longrightarrow> slice0 (Some s) (Some (int lo)) (Some (int hi)) = Inr (Some (sub_slice s lo hi))"
  by (rule slice0_sub) (simp_all add: opt_index_simps)

lemma slice0_nil [buf_simps]:
  "slice0 None None (Some 0) = Inr None" "slice0 None (Some 0) None = Inr None" "slice0 None (Some 0) (Some 0) = Inr None"
  by (simp_all add: slice0_def goSlice_nil_def opt_index_simps)

lemma frame_changes:
  "buf_changes c I h h' \<Longrightarrow> owns b c \<Longrightarrow> frame b h b h'"
  unfolding frame_def buf_changes_def by (metis nth_equalityI)

definition plain :: "bslice \<Rightarrow> bslice" where "plain s = \<lparr>b_arr = b_arr s, b_meta = None\<rparr>"

lemma plain_simps [simp]:
  "blen (plain s) = blen s" "bytes_of h (plain s) = bytes_of h s" "bytesToUint8Array (Some s) h = (plain s, h)"
  by (simp_all add: plain_def blen_def bytes_of_def bytesToUint8Array_def)

lemma plain_ok:
  assumes "bslice_ok h s"
  shows "bslice_ok h (plain s)" "u_buf (bback (plain s)) = u_buf (bback s)" "bstart (plain s) = bstart s"
proof -
  have "u8_ok h (b_arr s)"
    using assms bslice_ok_arr [OF assms] by (auto simp: bslice_ok_def u8_ok_def bstart_def)
  then show "bslice_ok h (plain s)" unfolding plain_def by (rule bslice_ok_plain)
  show "u_buf (bback (plain s)) = u_buf (bback s)" "bstart (plain s) = bstart s"
    using bslice_ok_arr [OF assms] by (simp_all add: plain_def bback_def bstart_def boff_def)
qed

subsection \<open>Growing\<close>

lemma Reset_run:
  assumes "buf_ok b h"
  shows "\<exists>b'. Reset (b, h) = (Inr (), (b', h)) \<and> buf_ok b' h \<and> content b' h = [] \<and> off b' = 0 \<and> lastRead b' = 0 \<and>
    Cap b' = Cap b \<and> (buf b' = None \<longleftrightarrow> buf b = None) \<and> slen0 (buf b') = 0 \<and> frame b h b' h"
  using assms
proof (cases rule: buf_ok_cases)
  case (1 l)
  then show ?thesis by (simp add: Reset_def run_defs buf_simps Cap_def)
next
  case (2 s k l)
  have "buf_ok \<lparr>buf = Some (sub_slice s 0 0), off = 0, lastRead = 0\<rparr> h"
    using 2 sub_slice(1) [OF 2(2), of 0 0] by simp
  moreover have "Reset (b, h) = (Inr (), \<lparr>buf = Some (sub_slice s 0 0), off = 0, lastRead = 0\<rparr>, h)"
    using 2 slice0_to [of 0 s] by (simp add: Reset_def run_defs)
  ultimately show ?thesis
    using 2 sub_slice [OF 2(2), of 0 0] by (simp add: Cap_def)
qed

lemma slide_run:
  assumes ok: "bslice_ok h s" and k: "k \<le> blen s"
  shows "\<exists>h'. slide (\<lparr>buf = Some s, off = int k, lastRead = l\<rparr>, h) = (Inr (), (\<lparr>buf = Some s, off = int k, lastRead = l\<rparr>, h')) \<and>
    bslice_ok h' s \<and> take (blen s - k) (bytes_of h' s) = drop k (bytes_of h s) \<and>
    buf_changes (u_buf (bback s)) {bstart s..<bstart s + (blen s - k)} h h'"
proof -
  let ?r = "sub_slice s k (blen s)"
  have c: "blen s \<le> bcap s" using ok by (simp add: bslice_ok_def)
  note r = sub_slice(1,2) [OF ok k c]
  have rb: "bytes_of h ?r = drop k (bytes_of h s)"
    using sub_slice_within [OF ok k order_refl] length_bytes_of [OF ok] by simp
  have m: "min (blen s) (blen s - k) = blen s - k" by simp
  obtain h' where h': "byte_copy (plain s) (plain ?r) h = Inr (blen s - k, h')"
    "bytes_of h' s = take (blen s) (take (blen s - k) (drop k (bytes_of h s)) @ drop (blen s - k) (bytes_of h s))"
    "buf_changes (u_buf (bback s)) {bstart s..<bstart s + (blen s - k)} h h'"
    using byte_copy_spec [OF plain_ok(1) [OF ok] plain_ok(1) [OF r(1)]]
    by (auto simp: plain_ok(2,3) [OF ok] rb r m simp del: take_append)
  moreover have "take (blen s - k) (bytes_of h' s) = drop k (bytes_of h s)"
    using length_bytes_of [OF ok] by (simp add: h'(2))
  moreover have "bslice_ok h' s" by (rule buf_changes_ok [OF h'(3) ok])
  ultimately show ?thesis
    by (simp add: slide_def run_defs buf_simps k ok slice0_from [OF k ok] copy0_def)
qed

lemma fresh_slice:
  assumes "new_buffer xs h = (u, h1)"
  shows "bslice_ok h1 \<lparr>b_arr = u, b_meta = None\<rparr>" "blen \<lparr>b_arr = u, b_meta = None\<rparr> = length xs"
    "bcap \<lparr>b_arr = u, b_meta = None\<rparr> = length xs" "bytes_of h1 \<lparr>b_arr = u, b_meta = None\<rparr> = xs"
    "u_buf (bback \<lparr>b_arr = u, b_meta = None\<rparr>) = next_buf h" "next_buf h1 = Suc (next_buf h)"
    "buffers h1 = (buffers h)(next_buf h := xs)"
proof -
  have u: "u = \<lparr>u_buf = next_buf h, u_off = 0, u_len = length xs\<rparr>"
    "h1 = h\<lparr>buffers := (buffers h)(next_buf h := xs), next_buf := Suc (next_buf h)\<rparr>"
    using assms by (auto simp: new_buffer_def)
  show "bslice_ok h1 \<lparr>b_arr = u, b_meta = None\<rparr>" by (rule bslice_ok_plain) (simp add: u8_ok_def u)
qed (use assms in \<open>auto simp: new_buffer_def blen_def bcap_def bback_def bytes_of_def u8_bytes_def\<close>)

lemma frame_new_buffer: "new_buffer xs h = (u, h1) \<Longrightarrow> frame b h b h1"
  by (auto simp: frame_def new_buffer_def)

text \<open>\<open>growSlice\<close> on the unread part: a new array that starts with those bytes.\<close>

lemma growSlice_run:
  assumes ok: "bslice_ok h t"
  shows "\<exists>r h'. growSlice (Some t) (int n) (b, h) = (Inr (Some r), (b, h')) \<and> bslice_ok h' r \<and>
    bytes_of h' r = bytes_of h t \<and> blen r = blen t \<and> bcap r = max (blen t + n) (2 * bcap t) \<and>
    next_buf h \<le> u_buf (bback r) \<and> frame b h b h'"
proof -
  let ?c = "max (blen t + n) (2 * bcap t)"
  have cap: "blen t \<le> bcap t" using ok by (simp add: bslice_ok_def)
  have c: "(if int (blen t) + int n < 2 * int (bcap t) then 2 * int (bcap t) else int (blen t) + int n) = int ?c"
    by auto
  obtain u h1 where nb: "new_buffer (replicate ?c 0) h = (u, h1)" by fastforce
  let ?f = "\<lparr>b_arr = u, b_meta = None\<rparr>"
  have f: "bslice_ok h1 ?f" "blen ?f = ?c" "bcap ?f = ?c" "u_buf (bback ?f) = next_buf h" "bytes_of h1 ?f = replicate ?c 0"
    "next_buf h1 = Suc (next_buf h)" "buffers h1 = (buffers h)(next_buf h := replicate ?c 0)"
    using fresh_slice [OF nb] by simp_all
  have mk: "byte_makeSlice (int ?c) (Some (int ?c)) h = Inr (?f, h1)"
    using nb by (simp add: byte_makeSlice_def Let_def)
  have ok1: "bslice_ok h1 t" using f(6,7) ok by (intro bslice_ok_kept [OF ok]) (auto simp: bslice_ok_def u8_ok_def)
  have tb: "bytes_of h1 t = bytes_of h t"
    using bslice_ok_arr(1) [OF ok] ok by (simp add: bytes_of_def u8_bytes_def f(7) bslice_ok_def u8_ok_def)
  have m: "min ?c (blen t) = blen t" using cap by simp
  obtain h2 where h2: "byte_copy ?f t h1 = Inr (blen t, h2)"
    "bytes_of h2 ?f = take ?c (bytes_of h t @ drop (blen t) (replicate ?c 0))"
    "buf_changes (next_buf h) {bstart ?f..<bstart ?f + blen t} h1 h2"
    using byte_copy_spec [OF f(1) ok1] length_bytes_of [OF ok] by (auto simp: f tb m simp del: take_append)
  have ok2: "bslice_ok h2 ?f" by (rule buf_changes_ok [OF h2(3) f(1)])
  let ?r = "sub_slice ?f 0 (blen t)"
  have r: "bslice_ok h2 ?r" "blen ?r = blen t" "bcap ?r = ?c" "u_buf (bback ?r) = next_buf h"
    using sub_slice(1-4) [OF ok2, of 0 "blen t"] cap by (simp_all add: f)
  have rb: "bytes_of h2 ?r = bytes_of h t"
    using sub_slice_within [OF ok2, of 0 "blen t"] cap length_bytes_of [OF ok] by (simp add: f h2(2) min_def)
  have "frame b h b h2"
    using frame_new_buffer [OF nb, of b] h2(3) f(6) by (auto simp: frame_def buf_changes_def intro!: nth_equalityI)
  moreover have "growSlice (Some t) (int n) (b, h) = (Inr (Some ?r), (b, h2))"
    unfolding growSlice_def slice_simps c Let_def run_defs using cap by (simp add: mk copy0_def h2(1) slice0_to f(3))
  ultimately show ?thesis using r rb by (intro exI [of _ ?r] exI [of _ h2]) simp
qed

text \<open>What a successful reservation of \<open>n\<close> bytes leaves: an index \<open>i\<close> with \<open>n\<close> bytes after it,
  the unread bytes before it.\<close>

definition reserved :: "nat \<Rightarrow> buffer \<Rightarrow> bheap \<Rightarrow> int \<Rightarrow> bstate \<Rightarrow> bool" where
  "reserved n b h i w \<longleftrightarrow> (\<exists>s m k l h'. i = int m \<and> w = (\<lparr>buf = Some s, off = int k, lastRead = l\<rparr>, h') \<and>
     bslice_ok h' s \<and> blen s = m + n \<and> k \<le> m \<and> drop k (take m (bytes_of h' s)) = content b h \<and>
     frame b h \<lparr>buf = Some s, off = int k, lastRead = l\<rparr> h' \<and>
     int (bcap s) \<le> max (Cap b) (64 + 4 * (int (length (content b h)) + int n)))"

lemma tryGrow_run:
  assumes "buf_ok b h"
  shows "(\<exists>i w. tryGrowByReslice (int n) (b, h) = (Inr (i, True), w) \<and> reserved n b h i w) \<or>
    tryGrowByReslice (int n) (b, h) = (Inr (0, False), (b, h)) \<and> (buf b = None \<or> Cap b < slen0 (buf b) + int n)"
  using assms
proof (cases rule: buf_ok_cases)
  case (1 l)
  then show ?thesis by (simp add: tryGrowByReslice_def run_defs)
next
  case (2 s k l)
  show ?thesis
  proof (cases "blen s + n \<le> bcap s")
    case True
    let ?s = "sub_slice s 0 (blen s + n)"
    note s = sub_slice [OF 2(2) _ True, of 0, simplified]
    have "take (blen s) (bytes_of h ?s) = bytes_of h s" using sub_slice_grown [OF 2(2) _ True] by simp
    then have "reserved n b h (int (blen s)) (\<lparr>buf = Some ?s, off = int k, lastRead = l\<rparr>, h)"
      using 2 s by (simp add: reserved_def Cap_def)
    moreover have "tryGrowByReslice (int n) (b, h) =
        (Inr (int (blen s), True), \<lparr>buf = Some ?s, off = int k, lastRead = l\<rparr>, h)"
      using 2 True slice0_to [OF True] by (simp add: tryGrowByReslice_def run_defs)
    ultimately show ?thesis by blast
  next
    case False
    with 2 show ?thesis by (simp add: tryGrowByReslice_def run_defs Cap_def)
  qed
qed

lemma makeSlice_sub:
  assumes "n \<le> c" "new_buffer (replicate c 0) h = (u, h1)"
  shows "byte_makeSlice (int n) (Some (int c)) h = Inr (sub_slice \<lparr>b_arr = u, b_meta = None\<rparr> 0 n, h1)"
proof -
  have "sub_slice \<lparr>b_arr = u, b_meta = None\<rparr> 0 n = byteSliceView u 0 n c"
    using assms(2) by (auto simp: sub_slice_def bback_def boff_def bcap_def new_buffer_def)
  moreover have "byteSliceView u 0 c c = \<lparr>b_arr = u, b_meta = None\<rparr>"
    using assms(2) by (auto simp: byteSliceView_def subarray_def new_buffer_def)
  ultimately show ?thesis using assms by (auto simp: byte_makeSlice_def Let_def)
qed

lemma grow_room_run:
  assumes ok: "bslice_ok h s" "k \<le> blen s" and room: "2 * int (bcap s) + int n \<le> 9223372036854775807"
    and c: "bcap s < blen s + n"
  shows "\<exists>t h'. grow_room (int (blen s - k)) (int n) (\<lparr>buf = Some s, off = int k, lastRead = l\<rparr>, h) =
      (Inr (), (\<lparr>buf = Some t, off = int k, lastRead = l\<rparr>, h')) \<and> bslice_ok h' t \<and>
    blen s - k \<le> blen t \<and> blen s - k + n \<le> bcap t \<and>
    take (blen s - k) (bytes_of h' t) = drop k (bytes_of h s) \<and>
    bcap t \<le> max (bcap s) (4 * (blen s - k + n)) \<and>
    frame \<lparr>buf = Some s, off = int k, lastRead = l\<rparr> h \<lparr>buf = Some t, off = int k, lastRead = l\<rparr> h'"
proof -
  let ?b = "\<lparr>buf = Some s, off = int k, lastRead = l\<rparr>"
  have cap: "blen s \<le> bcap s" using ok(1) by (simp add: bslice_ok_def)
  show ?thesis
  proof (cases "2 * n \<le> bcap s - 2 * (blen s - k) \<and> 2 * (blen s - k) \<le> bcap s")
    case True
    then have t: "2 * int n \<le> int (bcap s) - 2 * int (blen s - k)" by linarith
    obtain h' where h': "slide (?b, h) = (Inr (), (?b, h'))" "bslice_ok h' s"
      "take (blen s - k) (bytes_of h' s) = drop k (bytes_of h s)"
      "buf_changes (u_buf (bback s)) {bstart s..<bstart s + (blen s - k)} h h'"
      using slide_run [OF ok] by blast
    have "frame ?b h ?b h'" by (rule frame_changes [OF h'(4)]) simp
    moreover have "grow_room (int (blen s - k)) (int n) (?b, h) = (Inr (), (?b, h'))"
      using t h'(1) by (simp add: grow_room_def run_defs Let_def)
    ultimately show ?thesis using h' True cap by (intro exI [of _ s] exI [of _ h']) auto
  next
    case False
    then have f: "\<not> 2 * int n \<le> int (bcap s) - 2 * int (blen s - k)" using ok(2) cap by linarith
    have nf: "\<not> 9223372036854775807 - int (bcap s) - int n < int (bcap s)" using room by linarith
    let ?t = "sub_slice s k (blen s)"
    note t = sub_slice [OF ok(1,2) cap]
    have tb: "bytes_of h ?t = drop k (bytes_of h s)"
      using sub_slice_within [OF ok order_refl] length_bytes_of [OF ok(1)] by simp
    obtain r h' where r: "growSlice (Some ?t) (int (k + n)) (?b, h) = (Inr (Some r), (?b, h'))" "bslice_ok h' r"
      "bytes_of h' r = bytes_of h ?t" "blen r = blen ?t" "bcap r = max (blen ?t + (k + n)) (2 * bcap ?t)"
      "next_buf h \<le> u_buf (bback r)" "frame ?b h ?b h'"
      using growSlice_run [OF t(1)] by blast
    have "grow_room (int (blen s - k)) (int n) (?b, h) = (Inr (), (\<lparr>buf = Some r, off = int k, lastRead = l\<rparr>, h'))"
      unfolding grow_room_def run_defs Let_def
      using f nf r(1) slice0_from [OF ok(2,1)] by (simp add: run_defs)
    moreover have "take (blen s - k) (bytes_of h' r) = drop k (bytes_of h s)"
      using length_bytes_of [OF ok(1)] by (simp add: r(3) tb)
    moreover have "blen s - k + n \<le> bcap r" "bcap r \<le> max (bcap s) (4 * (blen s - k + n))"
      using r(5) t(2,3) ok(2) c f cap by auto
    moreover have "frame ?b h \<lparr>buf = Some r, off = int k, lastRead = l\<rparr> h'"
      using r(6,7) by (auto simp: frame_def)
    moreover have "blen s - k \<le> blen r" by (simp add: r(4) t(2))
    ultimately show ?thesis using r(2) by blast
  qed
qed

lemma grow_more_run:
  assumes ok: "buf_ok b h" and room: "2 * Cap b + int n \<le> 9223372036854775807"
    and c: "buf b = None \<or> Cap b < slen0 (buf b) + int n"
  shows "\<exists>i w. grow_more (Len b) (int n) (b, h) = (Inr i, w) \<and> reserved n b h i w"
  using ok
proof (cases rule: buf_ok_cases)
  case (1 l)
  define C where "C = max 64 n"
  have C: "(if int n \<le> 64 then 64 else int n) = int C" "n \<le> C" by (auto simp: C_def)
  obtain u h1 where nb: "new_buffer (replicate C 0) h = (u, h1)" by fastforce
  let ?f = "\<lparr>b_arr = u, b_meta = None\<rparr>"
  note f = fresh_slice [OF nb]
  have s: "bslice_ok h1 (sub_slice ?f 0 n)" "blen (sub_slice ?f 0 n) = n" "bcap (sub_slice ?f 0 n) = C"
    "u_buf (bback (sub_slice ?f 0 n)) = next_buf h"
    using sub_slice(1-4) [OF f(1), of 0 n] C(2) f by simp_all
  have "frame b h \<lparr>buf = Some (sub_slice ?f 0 n), off = 0, lastRead = l\<rparr> h1"
    using frame_new_buffer [OF nb, of b] s(4) by (auto simp: frame_def)
  then have "reserved n b h 0 (\<lparr>buf = Some (sub_slice ?f 0 n), off = 0, lastRead = l\<rparr>, h1)"
    unfolding reserved_def using s 1
    by (intro exI [of _ "sub_slice ?f 0 n"] exI [of _ "0 :: nat"] exI [of _ l] exI [of _ h1]) (auto simp: C_def)
  moreover have "grow_more (Len b) (int n) (b, h) =
      (Inr 0, (\<lparr>buf = Some (sub_slice ?f 0 n), off = 0, lastRead = l\<rparr>, h1))"
    unfolding grow_more_def C(1) run_defs using 1 makeSlice_sub [OF C(2) nb] by simp
  ultimately show ?thesis by blast
next
  case (2 s k l)
  let ?m = "blen s - k"
  have m: "Len b = int ?m" using 2 by (simp add: Len_def)
  obtain t h' where t: "grow_room (int ?m) (int n) (b, h) = (Inr (), (\<lparr>buf = Some t, off = int k, lastRead = l\<rparr>, h'))"
    "bslice_ok h' t" "?m \<le> blen t" "?m + n \<le> bcap t" "take ?m (bytes_of h' t) = drop k (bytes_of h s)"
    "bcap t \<le> max (bcap s) (4 * (?m + n))" "frame b h \<lparr>buf = Some t, off = int k, lastRead = l\<rparr> h'"
    using grow_room_run [OF 2(2,3), of n l] room c 2(1) by (auto simp: Cap_def)
  let ?u = "sub_slice t 0 (?m + n)"
  note u = sub_slice [OF t(2) _ t(4), of 0, simplified]
  have "take ?m (bytes_of h' ?u) = take ?m (bytes_of h' t)"
    using t(3) bytes_of_window [OF t(2)] by (simp add: u(6) min_def)
  then have v: "drop 0 (take ?m (bytes_of h' ?u)) = content b h" using t(5) 2(1) by simp
  have fr: "frame b h \<lparr>buf = Some ?u, off = int 0, lastRead = l\<rparr> h'"
    using t(7) by (simp add: frame_def u(4))
  have lc: "length (content b h) = ?m" using length_content [OF ok] m by simp
  have cp: "int (bcap ?u) \<le> max (Cap b) (64 + 4 * (int (length (content b h)) + int n))"
    unfolding u(3) lc using t(6) 2(1) by (simp add: Cap_def)
  have "reserved n b h (int ?m) (\<lparr>buf = Some ?u, off = int 0, lastRead = l\<rparr>, h')"
    unfolding reserved_def using u(1,2) v fr cp by blast
  moreover have "grow_more (Len b) (int n) (b, h) = (Inr (int ?m), (\<lparr>buf = Some ?u, off = int 0, lastRead = l\<rparr>, h'))"
  proof -
    have a: "int ?m + int n = int (?m + n)" by simp
    show ?thesis
      unfolding grow_more_def run_defs m a using 2(1) t(1) slice0_to [OF t(4)] by simp
  qed
  ultimately show ?thesis by blast
qed

lemma grow_run:
  assumes ok: "buf_ok b h" and room: "2 * Cap b + int n \<le> 9223372036854775807"
  shows "\<exists>i w. grow (int n) (b, h) = (Inr i, w) \<and> reserved n b h i w"
proof -
  obtain b1 where b1: "(if Len b = 0 \<and> off b \<noteq> 0 then Reset else ret ()) (b, h) = (Inr (), (b1, h))"
    "buf_ok b1 h" "content b1 h = content b h" "Cap b1 = Cap b" "Len b1 = Len b" "frame b h b1 h"
  proof (cases "Len b = 0 \<and> off b \<noteq> 0")
    case True
    then have "content b h = []" using length_content [OF ok] by simp
    with True Reset_run [OF ok] that show thesis by (fastforce simp: Len_def)
  qed (use ok that in \<open>auto simp: ret_def\<close>)
  have r: "reserved n b h i w" if "reserved n b1 h i w" for i w
    using that frame_trans [OF b1(6)] unfolding reserved_def b1(3,4) by blast
  have e: "grow (int n) (b, h) = bnd (tryGrowByReslice (int n)) (\<lambda>(i, ok). if ok then ret i
      else grow_more (Len b) (int n)) (b1, h)"
    unfolding grow_def bnd_receiver Let_def by (rule bnd_Inr [where x = "()"]) (rule b1(1))
  from tryGrow_run [OF b1(2), of n] show ?thesis
  proof (elim disjE [where P = "\<exists>i w. _ i w"] exE conjE)
    fix i w assume "tryGrowByReslice (int n) (b1, h) = (Inr (i, True), w)" "reserved n b1 h i w"
    then show ?thesis unfolding e using r by (auto simp: bnd_Inr ret_def)
  next
    assume t: "tryGrowByReslice (int n) (b1, h) = (Inr (0, False), b1, h)"
      and c: "buf b1 = None \<or> Cap b1 < slen0 (buf b1) + int n"
    have "grow (int n) (b, h) = grow_more (Len b) (int n) (b1, h)"
      by (simp add: e bnd_Inr [where m = "tryGrowByReslice (int n)", OF t])
    with grow_more_run [OF b1(2) _ c] room r show ?thesis by (auto simp: b1(4,5))
  qed
qed

lemma reserve_run:
  assumes ok: "buf_ok b h" and room: "2 * Cap b + int n \<le> 9223372036854775807"
  shows "\<exists>i w. reserve (int n) (b, h) = (Inr i, w) \<and> reserved n b h i w"
proof -
  let ?b = "b\<lparr>lastRead := 0\<rparr>"
  have b: "buf_ok ?b h" "content ?b h = content b h" "Cap ?b = Cap b" "owns ?b = owns b"
    using ok by (simp_all add: buf_ok_def content_def Cap_def owns_def fun_eq_iff)
  have r: "reserved n ?b h = reserved n b h"
    by (simp add: reserved_def fun_eq_iff b frame_def)
  have e: "reserve (int n) (b, h) = bnd (tryGrowByReslice (int n)) (\<lambda>(m, ok). if ok then ret m else grow (int n)) (?b, h)"
    by (simp add: reserve_def bnd_def upd_def)
  from tryGrow_run [OF b(1), of n] show ?thesis
  proof (elim disjE [where P = "\<exists>i w. _ i w"] exE conjE)
    fix i w assume "tryGrowByReslice (int n) (?b, h) = (Inr (i, True), w)" "reserved n ?b h i w"
    then show ?thesis unfolding e r by (auto simp: bnd_Inr ret_def)
  next
    assume t: "tryGrowByReslice (int n) (?b, h) = (Inr (0, False), ?b, h)"
    have "reserve (int n) (b, h) = grow (int n) (?b, h)"
      by (simp add: e bnd_Inr [where m = "tryGrowByReslice (int n)", OF t])
    with grow_run [OF b(1), of n] room show ?thesis by (auto simp: b(3) r)
  qed
qed

subsection \<open>The writes append\<close>

lemma put_loop_store:
  assumes "i + length xs \<le> u_len (b_arr t)" "u_off (b_arr t) + u_len (b_arr t) \<le> length (buffers h (u_buf (b_arr t)))"
  shows "put_loop (Some t) i xs h = u8_store (b_arr t) i xs h"
  using assms
proof (induction xs arbitrary: i h)
  case Nil
  then show ?case by (simp add: u8_store_def)
next
  case (Cons x xs)
  let ?h1 = "u8_store (b_arr t) i [x] h"
  have "length (buffers ?h1 (u_buf (b_arr t))) = length (buffers h (u_buf (b_arr t)))"
    using Cons.prems by (simp add: u8_store_buf)
  then have "put_loop (Some t) (Suc i) xs ?h1 = u8_store (b_arr t) (Suc i) xs ?h1"
    using Cons.prems by (intro Cons.IH) simp_all
  moreover have "u8_store (b_arr t) (i + length [x]) xs ?h1 = u8_store (b_arr t) i ([x] @ xs) h"
    using Cons.prems by (intro u8_store_store) simp
  ultimately show ?case using Cons.prems by (simp add: u8_put_def)
qed

lemma bytes_of_store_other: "u_buf (b_arr s) \<noteq> u_buf u \<Longrightarrow> bytes_of (u8_store u pos xs h) s = bytes_of h s"
  by (simp add: bytes_of_def u8_bytes_def)

text \<open>The element loop of \<open>Write\<close> is one store when its argument lies in another array.\<close>

lemma write_loop_put:
  assumes "u_buf (b_arr p) \<noteq> u_buf (b_arr t)" "i + n \<le> length (bytes_of h p)"
  shows "write_loop (Some t) (Some p) i n h = put_loop (Some t) i (take n (drop i (bytes_of h p))) h"
  using assms
proof (induction n arbitrary: i h)
  case (Suc n)
  have d: "take (Suc n) (drop i (bytes_of h p)) = bytes_of h p ! i # take n (drop (Suc i) (bytes_of h p))"
    using Suc.prems(2) by (simp add: Cons_nth_drop_Suc [symmetric])
  have "bytes_of (u8_put (Some t) i (bytes_of h p ! i) h) p = bytes_of h p"
    using Suc.prems(1) by (simp add: u8_put_def bytes_of_store_other)
  with Suc.IH [of "Suc i" "u8_put (Some t) i (bytes_of h p ! i) h"] Suc.prems d show ?case by simp
qed simp

definition appended :: "byte list \<Rightarrow> buffer \<Rightarrow> bheap \<Rightarrow> bstate \<Rightarrow> bool" where
  "appended xs b h w \<longleftrightarrow> buf_ok (fst w) (snd w) \<and> content (fst w) (snd w) = content b h @ xs \<and>
     frame b h (fst w) (snd w) \<and>
     Cap (fst w) \<le> max (Cap b) (80 + 4 * (int (length (content b h)) + int (length xs)))"

lemma reserved_store:
  assumes r: "reserved (length xs) b h i w"
  obtains s m k l h1 where "i = int m" "w = (\<lparr>buf = Some s, off = int k, lastRead = l\<rparr>, h1)" "bslice_ok h1 s"
    "blen s = m + length xs" "frame b h \<lparr>buf = Some s, off = int k, lastRead = l\<rparr> h1"
    "slice0 (Some s) (Some i) (Some (i + int (length xs))) = Inr (Some (sub_slice s m (m + length xs)))"
    "bslice_ok h1 (sub_slice s m (m + length xs))" "blen (sub_slice s m (m + length xs)) = length xs"
    "u_buf (b_arr (sub_slice s m (m + length xs))) = u_buf (bback s)"
    "put_loop (Some (sub_slice s m (m + length xs))) 0 xs h1 = u8_store (b_arr s) m xs h1"
    "appended xs b h (\<lparr>buf = Some s, off = int k, lastRead = l\<rparr>, u8_store (b_arr s) m xs h1)"
proof -
  obtain s m k l h1 where i: "i = int m" and w: "w = (\<lparr>buf = Some s, off = int k, lastRead = l\<rparr>, h1)"
    and ok: "bslice_ok h1 s" and ls: "blen s = m + length xs" and k: "k \<le> m"
    and c: "drop k (take m (bytes_of h1 s)) = content b h"
    and fr: "frame b h \<lparr>buf = Some s, off = int k, lastRead = l\<rparr> h1"
    and cp: "int (bcap s) \<le> max (Cap b) (64 + 4 * (int (length (content b h)) + int (length xs)))"
    using r unfolding reserved_def by blast
  let ?t = "sub_slice s m (m + length xs)"
  let ?b = "\<lparr>buf = Some s, off = int k, lastRead = l\<rparr>"
  let ?h2 = "u8_store (b_arr s) m xs h1"
  have cap: "m + length xs \<le> bcap s" using ok ls by (simp add: bslice_ok_def)
  note t = sub_slice [OF ok le_add1 cap]
  note a = bslice_ok_arr [OF ok] and ta = bslice_ok_arr [OF t(1)]
  have fit: "bstart s + blen s \<le> length (buffers h1 (u_buf (bback s)))"
    using ok by (auto simp: bslice_ok_def u8_ok_def bstart_def)
  have sl: "slice0 (Some s) (Some i) (Some (i + int (length xs))) = Inr (Some ?t)"
    using slice0_between [of m "m + length xs" s] cap i by simp
  have "put_loop (Some ?t) 0 xs h1 = u8_store (b_arr ?t) 0 xs h1"
    using t fit ls by (intro put_loop_store) (simp_all add: ta)
  also have "u8_store (b_arr ?t) 0 xs h1 = ?h2" by (simp add: u8_store_def Let_def a ta t)
  finally have pl: "put_loop (Some ?t) 0 xs h1 = ?h2" .
  have ch: "buf_changes (u_buf (bback s)) {bstart s + m..<bstart s + m + length xs} h1 ?h2"
    using buf_changes_store [of "b_arr s" m xs h1] fit ls by (simp add: a)
  have ok2: "bslice_ok ?h2 s" by (rule buf_changes_ok [OF ch ok])
  have by2: "bytes_of ?h2 s = take m (bytes_of h1 s) @ xs"
    using bytes_of_store [OF ok, of m xs] ls length_bytes_of [OF ok] by simp
  have "length (take m (bytes_of h1 s)) = m" using length_bytes_of [OF ok] ls by simp
  then have "content ?b ?h2 = content b h @ xs" using k c by (simp add: by2)
  moreover have "frame b h ?b ?h2" by (rule frame_trans [OF fr frame_changes [OF ch]]) simp
  ultimately have "appended xs b h (?b, ?h2)"
    unfolding appended_def fst_conv snd_conv using ok2 k ls cp by (auto simp: Cap_def le_max_iff_disj)
  then show thesis using that [OF i w ok ls fr sl t(1) _ _ pl] t ta by simp
qed

lemma Write_run:
  assumes ok: "buf_ok b h" and room: "2 * Cap b + int (blen p) \<le> 9223372036854775807"
    and p: "bslice_ok h p" "\<not> owns b (u_buf (bback p))"
  shows "\<exists>w. Write (Some p) (b, h) = (Inr (int (blen p), None), w) \<and> appended (bytes_of h p) b h w"
proof -
  have n: "length (bytes_of h p) = blen p" using length_bytes_of [OF p(1)] .
  obtain i w where iw: "reserve (int (blen p)) (b, h) = (Inr i, w)" "reserved (length (bytes_of h p)) b h i w"
    using reserve_run [OF ok room] n by auto
  obtain s m k l h1 where s: "i = int m" "w = (\<lparr>buf = Some s, off = int k, lastRead = l\<rparr>, h1)"
    "frame b h \<lparr>buf = Some s, off = int k, lastRead = l\<rparr> h1"
    "slice0 (Some s) (Some i) (Some (i + int (blen p))) = Inr (Some (sub_slice s m (m + blen p)))"
    "u_buf (b_arr (sub_slice s m (m + blen p))) = u_buf (bback s)"
    "put_loop (Some (sub_slice s m (m + blen p))) 0 (bytes_of h p) h1 = u8_store (b_arr s) m (bytes_of h p) h1"
    "appended (bytes_of h p) b h (\<lparr>buf = Some s, off = int k, lastRead = l\<rparr>, u8_store (b_arr s) m (bytes_of h p) h1)"
    by (rule reserved_store [OF iw(2)], unfold n) blast
  note pa = bslice_ok_arr(1) [OF p(1)]
  have lt: "u_buf (bback p) < next_buf h" using p(1) by (simp add: bslice_ok_def u8_ok_def)
  then have ne: "u_buf (b_arr p) \<noteq> u_buf (b_arr (sub_slice s m (m + blen p)))"
    using s(3,5) p(2) pa by (auto simp: frame_def)
  have "buffers h1 (u_buf (bback p)) = buffers h (u_buf (bback p))" using s(3) p(2) lt by (simp add: frame_def)
  then have pb: "bytes_of h1 p = bytes_of h p" by (simp add: bytes_of_def u8_bytes_def pa)
  have wl: "write_loop (Some (sub_slice s m (m + blen p))) (Some p) 0 (blen p) h1 = u8_store (b_arr s) m (bytes_of h p) h1"
    using write_loop_put [OF ne, of 0 "blen p" h1] s(6) n by (simp add: pb)
  have "Write (Some p) (b, h) = (Inr (int (blen p), None),
      (\<lparr>buf = Some s, off = int k, lastRead = l\<rparr>, u8_store (b_arr s) m (bytes_of h p) h1))"
    unfolding Write_def slice_simps bnd_Inr [where m = "reserve (int (blen p))", OF iw(1)] s(2) bnd_receiver
    using s(4) wl by (simp add: from_res_def on_heap_def bnd_def ret_def)
  with s(7) show ?thesis by blast
qed

lemma byte_nats_to_bytes [simp]: "byte_nats (map word_of_nat ns) = map (\<lambda>n. n mod 256) ns" "to_bytes (byte_nats bs) = bs"
  by (simp_all add: byte_nats_def to_bytes_def unat_of_nat comp_def)

lemma to_bytes_append [simp]: "to_bytes (xs @ ys) = to_bytes xs @ to_bytes ys" "length (to_bytes xs) = length xs"
  by (simp_all add: to_bytes_def)

lemma WriteString_run:
  assumes ok: "buf_ok b h" and room: "2 * Cap b + int (length (text_encode s)) \<le> 9223372036854775807"
    and p: "\<not> prefix binary_prefix s"
  shows "\<exists>w. WriteString s (b, h) = (Inr (int (length (text_encode s)), None), w) \<and>
    appended (to_bytes (text_encode s)) b h w"
proof -
  let ?xs = "to_bytes (text_encode s)"
  have n: "stringLen (JSString s) = length ?xs" using p by (simp add: stringLen_def goStringBytes_def)
  obtain i w where iw: "reserve (int (length ?xs)) (b, h) = (Inr i, w)" "reserved (length ?xs) b h i w"
    using reserve_run [OF ok, of "length ?xs"] room by auto
  obtain t m k l h1 where t: "w = (\<lparr>buf = Some t, off = int k, lastRead = l\<rparr>, h1)"
    "slice0 (Some t) (Some i) (Some (i + int (length ?xs))) = Inr (Some (sub_slice t m (m + length ?xs)))"
    "put_loop (Some (sub_slice t m (m + length ?xs))) 0 ?xs h1 = u8_store (b_arr t) m ?xs h1"
    "appended ?xs b h (\<lparr>buf = Some t, off = int k, lastRead = l\<rparr>, u8_store (b_arr t) m ?xs h1)"
    by (rule reserved_store [OF iw(2)]) blast
  have "WriteString s (b, h) = (Inr (int (length ?xs), None),
      (\<lparr>buf = Some t, off = int k, lastRead = l\<rparr>, u8_store (b_arr t) m ?xs h1))"
    unfolding WriteString_def n Let_def bnd_Inr [where m = "reserve (int (length ?xs))", OF iw(1)] t(1) bnd_receiver
    using t(2,3) by (simp add: from_res_def on_heap_def bnd_def ret_def)
  with t(4) show ?thesis by auto
qed

lemma WriteByte_run:
  assumes ok: "buf_ok b h" and room: "2 * Cap b + 1 \<le> 9223372036854775807"
  shows "\<exists>w. WriteByte c (b, h) = (Inr None, w) \<and> appended [c] b h w"
proof -
  obtain i w where iw: "reserve 1 (b, h) = (Inr i, w)" "reserved (length [c]) b h i w"
    using reserve_run [OF ok, of 1] room by auto
  obtain t m k l h1 where t: "i = int m" "w = (\<lparr>buf = Some t, off = int k, lastRead = l\<rparr>, h1)" "bslice_ok h1 t"
    "blen t = m + length [c]" "appended [c] b h (\<lparr>buf = Some t, off = int k, lastRead = l\<rparr>, u8_store (b_arr t) m [c] h1)"
    by (rule reserved_store [OF iw(2)]) blast
  have "u8_put (Some t) m c h1 = u8_store (b_arr t) m [c] h1"
    using t(4) bslice_ok_arr(3) [OF t(3)] by (simp add: u8_put_def)
  then have "WriteByte c (b, h) = (Inr None, (\<lparr>buf = Some t, off = int k, lastRead = l\<rparr>, u8_store (b_arr t) m [c] h1))"
    unfolding WriteByte_def bnd_Inr [where m = "reserve 1", OF iw(1)] t(2) bnd_receiver
    by (simp add: t(1) on_heap_def bnd_def ret_def)
  with t(5) show ?thesis by blast
qed

lemma rune_bytes_short: "0 \<le> r \<Longrightarrow> r < 0x80 \<Longrightarrow> to_bytes (rune_bytes r) = [word_of_int r]"
  by (simp add: rune_bytes_valid ValidRune_def utf8_enc_def to_bytes_def)

lemma rune_bytes_length: "length (rune_bytes r) \<le> 4"
proof (cases "ValidRune r")
  case True
  then show ?thesis using utf8_enc_length by (simp add: rune_bytes_valid)
next
  case False
  then have "rune_bytes r = rune_bytes 0xFFFD" by (simp add: rune_bytes_def)
  moreover have "ValidRune 0xFFFD" by (simp add: ValidRune_def)
  ultimately show ?thesis using utf8_enc_length by (simp add: rune_bytes_valid)
qed

lemma AppendRune_bytes: "AppendRune p r = p @ rune_bytes r"
  using rune_bytes_length [of r] by (simp add: AppendRune_def EncodeRune_def Let_def min_def)

lemma WriteRune_run:
  assumes ok: "buf_ok b h" and room: "2 * Cap b + 4 \<le> 9223372036854775807" and r: "0 \<le> r"
  shows "\<exists>w. WriteRune r (b, h) = (Inr (int (length (rune_bytes r)), None), w) \<and>
    appended (to_bytes (rune_bytes r)) b h w"
proof (cases "r < 0x80")
  case True
  then have b1: "to_bytes (rune_bytes r) = [word_of_int r]" by (rule rune_bytes_short [OF r])
  then have "length (rune_bytes r) = 1" by (metis length_Cons list.size(3) One_nat_def to_bytes_append(2))
  moreover obtain w where "WriteByte (word_of_int r) (b, h) = (Inr None, w)" "appended [word_of_int r] b h w"
    using WriteByte_run [OF ok, of "word_of_int r"] room by fastforce
  ultimately show ?thesis
    using True b1 by (simp add: WriteRune_def bnd_def ret_def)
next
  case False
  obtain i w where iw: "reserve 4 (b, h) = (Inr i, w)" "reserved 4 b h i w"
    using reserve_run [OF ok, of 4] room by auto
  obtain s m k l h1 where s: "i = int m" "w = (\<lparr>buf = Some s, off = int k, lastRead = l\<rparr>, h1)" "bslice_ok h1 s"
    "blen s = m + 4" "k \<le> m" "drop k (take m (bytes_of h1 s)) = content b h"
    "frame b h \<lparr>buf = Some s, off = int k, lastRead = l\<rparr> h1"
    "int (bcap s) \<le> max (Cap b) (64 + 4 * (int (length (content b h)) + int 4))"
    using iw(2) unfolding reserved_def by blast
  let ?old = "take m (bytes_of h1 s)" and ?e = "to_bytes (rune_bytes r)"
  have lo: "length ?old = m" using length_bytes_of [OF s(3)] s(4) by simp
  have sb: "bytes_of h1 (sub_slice s 0 m) = ?old" using sub_slice_within [OF s(3), of 0 m] s(4) by simp
  obtain u h2 where nb: "new_buffer (?old @ ?e) h1 = (u, h2)" by fastforce
  let ?t = "\<lparr>b_arr = u, b_meta = None\<rparr>"
  note t = fresh_slice [OF nb]
  have ap: "append_rune (Some (sub_slice s 0 m)) r h1 = (Some ?t, h2)"
    using nb by (simp add: append_rune_def AppendRune_bytes sb)
  let ?b = "\<lparr>buf = Some ?t, off = int k, lastRead = l\<rparr>"
  have sc: "blen s \<le> bcap s" using s(3) by (simp add: bslice_ok_def)
  have "slice0 (Some s) None (Some i) = Inr (Some (sub_slice s 0 m))"
    using slice0_to [of m s] sc s(1,4) by simp
  then have "WriteRune r (b, h) = (Inr (int (length (rune_bytes r)), None), (?b, h2))"
    using False iw(1) ap t(2) lo unfolding s(2)
    by (simp add: WriteRune_def bnd_def from_res_def on_heap_def ret_def receiver_def set_buf_def upd_def s(1))
  moreover have "appended ?e b h (?b, h2)"
  proof -
    have "frame b h ?b h2"
      using s(7) t(5,6,7) by (auto simp: frame_def)
    moreover have "Cap ?b \<le> max (Cap b) (80 + 4 * (int (length (content b h)) + int (length ?e)))"
      using s(4,8) sc t(3) lo rune_bytes_length [of r] by (auto simp: Cap_def le_max_iff_disj)
    ultimately show ?thesis
      using t s(5,6) lo by (simp add: appended_def)
  qed
  ultimately show ?thesis by blast
qed

subsection \<open>The reads consume\<close>

text \<open>What a read leaves: \<open>n\<close> bytes of the unread ones are gone, the rest is as before.\<close>

definition consumed :: "nat \<Rightarrow> buffer \<Rightarrow> bheap \<Rightarrow> buffer \<Rightarrow> bheap \<Rightarrow> bool" where
  "consumed n b h b' h' \<longleftrightarrow> buf_ok b' h' \<and> content b' h' = drop n (content b h) \<and> frame b h b' h' \<and> Cap b' = Cap b"

lemma empty_content: "buf_ok b h \<Longrightarrow> empty b \<longleftrightarrow> content b h = []"
  by (erule buf_ok_cases) (auto simp: empty_def length_bytes_of)

lemma Reset_consumed: "buf_ok b h \<Longrightarrow> \<exists>b'. Reset (b, h) = (Inr (), (b', h)) \<and> consumed (length (content b h)) b h b' h \<and> lastRead b' = 0"
  using Reset_run by (fastforce simp: consumed_def)

lemma not_empty_cases:
  assumes "buf_ok b h" "content b h \<noteq> []"
  obtains s k l where "b = \<lparr>buf = Some s, off = int k, lastRead = l\<rparr>" "bslice_ok h s" "k < blen s"
    "content b h = drop k (bytes_of h s)" "length (content b h) = blen s - k" "blen s \<le> bcap s"
  using assms(1)
proof (cases rule: buf_ok_cases)
  case (2 s k l)
  with assms(2) that show thesis by (auto simp: length_bytes_of bslice_ok_def)
qed (use assms(2) in simp)

lemma clear_lastRead:
  "buf_ok (b\<lparr>lastRead := v\<rparr>) h = buf_ok b h" "content (b\<lparr>lastRead := v\<rparr>) h = content b h" "empty (b\<lparr>lastRead := v\<rparr>) = empty b"
  "consumed n (b\<lparr>lastRead := v\<rparr>) h = consumed n b h" "Len (b\<lparr>lastRead := v\<rparr>) = Len b" "Cap (b\<lparr>lastRead := v\<rparr>) = Cap b"
  by (simp_all add: buf_ok_def content_def empty_def consumed_def frame_def owns_def Len_def Cap_def fun_eq_iff)

lemma consumed_advance:
  assumes "bslice_ok h s" "k + n \<le> blen s"
  shows "consumed n \<lparr>buf = Some s, off = int k, lastRead = l\<rparr> h \<lparr>buf = Some s, off = int (k + n), lastRead = l'\<rparr> h"
  unfolding consumed_def buf_ok_simps content_simps using assms by (simp add: Cap_def add.commute)

lemma ReadByte_run:
  assumes "buf_ok b h"
  shows "\<exists>b'. ReadByte (b, h) =
      (case content b h of [] \<Rightarrow> (Inr (0, Some EOF), (b', h)) | c # _ \<Rightarrow> (Inr (c, None), (b', h))) \<and>
    consumed 1 b h b' h \<and> lastRead b' = (if content b h = [] then 0 else -1)"
proof (cases "content b h = []")
  case True
  with Reset_consumed [OF assms] show ?thesis
    by (fastforce simp: ReadByte_def empty_content [OF assms] bnd_Inr consumed_def ret_def)
next
  case False
  then obtain s k l where s: "b = \<lparr>buf = Some s, off = int k, lastRead = l\<rparr>" "bslice_ok h s" "k < blen s"
    "content b h = drop k (bytes_of h s)" by (rule not_empty_cases [OF assms])
  then have c: "content b h = bytes_of h s ! k # drop (Suc k) (bytes_of h s)"
    using length_bytes_of [OF s(2)] by (simp add: Cons_nth_drop_Suc)
  have "\<not> empty b" using empty_content [OF assms] False by simp
  then have "ReadByte (b, h) = (Inr (bytes_of h s ! k, None), (\<lparr>buf = Some s, off = int (k + 1), lastRead = -1\<rparr>, h))"
    by (simp add: ReadByte_def s(1) Let_def ret_def)
  then show ?thesis
    using consumed_advance [OF s(2), of k 1 l "-1"] s(1,3) c by (intro exI [of _ "\<lparr>buf = Some s, off = int (k + 1), lastRead = -1\<rparr>"]) simp
qed

lemma Next_run:
  assumes "buf_ok b h"
  shows "\<exists>b' d. Next (int n) (b, h) = (Inr d, (b', h)) \<and> sbytes0 h d = take n (content b h) \<and> consumed n b h b' h"
  using assms
proof (cases rule: buf_ok_cases)
  case (1 l)
  then show ?thesis by (simp add: Next_def Len_def from_res_def bnd_def slice0_nil ret_def consumed_def upd_def receiver_def Cap_def)
next
  case (2 s k l)
  define m where "m = min n (blen s - k)"
  have m: "(if Len (b\<lparr>lastRead := 0\<rparr>) < int n then Len (b\<lparr>lastRead := 0\<rparr>) else int n) = int m" "k + m \<le> blen s"
    using 2 by (auto simp: Len_def m_def)
  have cap: "blen s \<le> bcap s" using 2 by (simp add: bslice_ok_def)
  have d: "bytes_of h (sub_slice s k (k + m)) = take n (content b h)"
    using sub_slice_within [OF 2(2), of k "k + m"] m(2) length_bytes_of [OF 2(2)] 2(1) by (simp add: m_def min_def)
  have sl: "slice0 (Some s) (Some (int k)) (Some (int k + int m)) = Inr (Some (sub_slice s k (k + m)))"
    using slice0_between [of k "k + m" s] m(2) cap by simp
  have "content b h = drop k (bytes_of h s)" "length (bytes_of h s) = blen s"
    using 2 length_bytes_of [OF 2(2)] by simp_all
  then have "drop m (content b h) = drop n (content b h)" by (simp add: m_def min_def)
  moreover have "consumed m b h \<lparr>buf = Some s, off = int (k + m), lastRead = if 0 < int m then -1 else 0\<rparr> h"
    unfolding 2(1) by (rule consumed_advance [OF 2(2) m(2)])
  ultimately have "consumed n b h \<lparr>buf = Some s, off = int (k + m), lastRead = if 0 < int m then -1 else 0\<rparr> h"
    unfolding consumed_def by simp
  moreover have "Next (int n) (b, h) = (Inr (Some (sub_slice s k (k + m))),
      (\<lparr>buf = Some s, off = int (k + m), lastRead = if 0 < int m then -1 else 0\<rparr>, h))"
    unfolding Next_def bnd_upd bnd_receiver m(1) Let_def using sl 2(1)
    by (simp add: from_res_def bnd_def ret_def upd_def)
  ultimately show ?thesis using d by (intro exI conjI) auto
qed

lemma Read_run:
  assumes ok: "buf_ok b h" and p: "bslice_ok h p" "\<not> owns b (u_buf (bback p))"
  defines "n \<equiv> min (blen p) (length (content b h))"
  shows "\<exists>b' h'. Read (Some p) (b, h) =
      (Inr (int n, if content b h = [] \<and> blen p \<noteq> 0 then Some EOF else None), (b', h')) \<and>
    take n (bytes_of h' p) = take n (content b h) \<and> buf_ok b' h' \<and> content b' h' = drop n (content b h) \<and>
    Cap b' = Cap b \<and> (\<forall>c. owns b' c \<longrightarrow> owns b c) \<and>
    buf_changes (u_buf (bback p)) {bstart p..<bstart p + n} h h'"
proof (cases "content b h = []")
  case True
  then have e: "empty (b\<lparr>lastRead := 0\<rparr>)" using empty_content [OF ok] by (simp add: clear_lastRead)
  have n0: "n = 0" using True by (simp add: n_def)
  have ok0: "buf_ok (b\<lparr>lastRead := 0\<rparr>) h" using ok by (simp add: clear_lastRead)
  have own: "owns (b\<lparr>lastRead := 0\<rparr>) = owns b" by (simp add: owns_def fun_eq_iff)
  obtain b' where b': "Reset (b\<lparr>lastRead := 0\<rparr>, h) = (Inr (), (b', h))" "buf_ok b' h" "content b' h = []" "Cap b' = Cap b"
    "frame (b\<lparr>lastRead := 0\<rparr>) h b' h"
    using Reset_run [OF ok0] by (auto simp: clear_lastRead)
  have "owns b c" if "owns b' c" for c
  proof -
    have "c < next_buf h" using that b'(2) by (auto simp: owns_def buf_ok_def bslice_ok_def u8_ok_def split: option.splits)
    with b'(5) that show ?thesis by (auto simp: frame_def own)
  qed
  moreover have "Read (Some p) (b, h) = (Inr (0, if blen p \<noteq> 0 then Some EOF else None), (b', h))"
    using e b'(1) by (simp add: Read_def bnd_Inr ret_def)
  ultimately show ?thesis using b' True by (auto simp: n0 buf_changes_def)
next
  case False
  then obtain s k l where s: "b = \<lparr>buf = Some s, off = int k, lastRead = l\<rparr>" "bslice_ok h s" "k < blen s"
    "content b h = drop k (bytes_of h s)" "length (content b h) = blen s - k" "blen s \<le> bcap s"
    by (rule not_empty_cases [OF ok])
  let ?r = "sub_slice s k (blen s)"
  have r: "bslice_ok h ?r" "blen ?r = blen s - k" "bytes_of h ?r = content b h"
    using sub_slice(1,2) [OF s(2) less_imp_le [OF s(3)] s(6)] sub_slice_within [OF s(2) less_imp_le [OF s(3)] order_refl]
      length_bytes_of [OF s(2)] s(4) by simp_all
  have n: "min (blen p) (blen ?r) = n" by (simp add: n_def r s(5))
  obtain h' where h': "byte_copy p ?r h = Inr (n, h')"
    "bytes_of h' p = take (blen p) (take n (content b h) @ drop n (bytes_of h p))"
    "buf_changes (u_buf (bback p)) {bstart p..<bstart p + n} h h'"
    using byte_copy_spec [OF p(1) r(1)] unfolding n r(3) by blast
  have ne: "\<not> empty (b\<lparr>lastRead := 0\<rparr>)" using empty_content [OF ok] False by (simp add: clear_lastRead)
  let ?b = "\<lparr>buf = Some s, off = int (k + n), lastRead = if 0 < n then -1 else 0\<rparr>"
  have run: "Read (Some p) (b, h) = (Inr (int n, None), (?b, h'))"
    unfolding Read_def bnd_upd bnd_receiver using ne h'(1) slice0_from [OF less_imp_le [OF s(3)] s(2)]
    by (simp add: s(1) from_res_def bnd_def on_heap_def copy0_def ret_def upd_def)
  have ok2: "bslice_ok h' s" by (rule buf_changes_ok [OF h'(3) s(2)])
  have lt: "u_buf (bback s) < next_buf h" using s(2) by (simp add: bslice_ok_def u8_ok_def)
  have "buffers h' (u_buf (bback s)) = buffers h (u_buf (bback s))"
    using h'(3) p(2) lt s(1) unfolding buf_changes_def by (auto intro!: nth_equalityI)
  then have sb: "bytes_of h' s = bytes_of h s" using bslice_ok_arr(1) [OF s(2)] by (simp add: bytes_of_def u8_bytes_def)
  have kn: "k + n \<le> blen s" "n \<le> length (content b h)" "n \<le> blen p" using s(3,5) by (auto simp: n_def)
  have "take n (bytes_of h' p) = take n (content b h)" using kn by (simp add: h'(2))
  moreover have "content ?b h' = drop n (content b h)" unfolding content_simps sb s(4) by (simp add: add.commute)
  ultimately show ?thesis
    using False run h'(3) ok2 kn s(1) by (intro exI [of _ ?b] exI [of _ h']) (simp only: buf_ok_simps owns_simps, simp add: Cap_def)
qed

lemma Truncate_run:
  assumes ok: "buf_ok b h"
  shows "\<exists>b'. buf_ok b' h \<and> frame b h b' h \<and> Cap b' = Cap b \<and>
    (if n < 0 \<or> int (length (content b h)) < n
     then Truncate n (b, h) = (Inl (PanicText ''bytes.Buffer: truncation out of range''), (b', h)) \<and> content b' h = content b h
     else Truncate n (b, h) = (Inr (), (b', h)) \<and> content b' h = take (nat n) (content b h))"
proof (cases "n = 0")
  case True
  then show ?thesis using Reset_run [OF ok] by (fastforce simp: Truncate_def)
next
  case False
  note len = length_content [OF ok]
  let ?b = "b\<lparr>lastRead := 0\<rparr>"
  have own: "owns ?b = owns b" by (simp add: owns_def fun_eq_iff)
  show ?thesis
  proof (cases "n < 0 \<or> Len b < n")
    case True
    have "buf_ok ?b h \<and> frame b h ?b h \<and> Cap ?b = Cap b \<and> content ?b h = content b h"
      using ok by (simp add: clear_lastRead frame_def own)
    moreover have "Truncate n (b, h) = (Inl (PanicText ''bytes.Buffer: truncation out of range''), (?b, h))"
      using True False by (simp add: Truncate_def clear_lastRead raise_def)
    ultimately show ?thesis using True len by auto
  next
    case in_range: False
    then have "content b h \<noteq> []" using len False by auto
    then obtain s k l where s: "b = \<lparr>buf = Some s, off = int k, lastRead = l\<rparr>" "bslice_ok h s" "k < blen s"
      "content b h = drop k (bytes_of h s)" "length (content b h) = blen s - k" "blen s \<le> bcap s"
      by (rule not_empty_cases [OF ok])
    obtain m where m: "n = int m" "k + m \<le> blen s" using in_range False s(5) len by (cases n) auto
    let ?s = "sub_slice s 0 (k + m)"
    have cap: "k + m \<le> bcap s" using m(2) s(6) by simp
    note t = sub_slice(1-4) [OF s(2) _ cap, of 0, simplified]
    have sb: "bytes_of h ?s = take (k + m) (bytes_of h s)" using sub_slice_within [OF s(2) _ m(2), of 0] by simp
    have "slice0 (Some s) None (Some (int k + n)) = Inr (Some ?s)" using slice0_to [OF cap] m(1) by simp
    then have "Truncate n (b, h) = (Inr (), (\<lparr>buf = Some ?s, off = int k, lastRead = 0\<rparr>, h))"
      using False in_range unfolding Truncate_def
      by (simp add: clear_lastRead) (simp add: s(1) from_res_def bnd_def set_buf_def upd_def)
    moreover have "content \<lparr>buf = Some ?s, off = int k, lastRead = 0\<rparr> h = take (nat n) (content b h)"
      unfolding content_simps sb s(4) m(1) by (simp add: take_drop add.commute)
    ultimately show ?thesis using in_range len t s(1)
      by (intro exI [of _ "\<lparr>buf = Some ?s, off = int k, lastRead = 0\<rparr>"]) (simp add: Cap_def)
  qed
qed

lemma Grow_run:
  assumes ok: "buf_ok b h" and room: "2 * Cap b + n \<le> 9223372036854775807"
  shows "if n < 0 then Grow n (b, h) = (Inl (PanicText ''bytes.Buffer.Grow: negative count''), (b, h))
    else \<exists>b' h'. Grow n (b, h) = (Inr (), (b', h')) \<and> buf_ok b' h' \<and> content b' h' = content b h \<and> frame b h b' h' \<and>
      n \<le> Available b' \<and> Cap b' \<le> max (Cap b) (64 + 4 * (int (length (content b h)) + n))"
proof (cases "n < 0")
  case True
  then show ?thesis by (simp add: Grow_def raise_def)
next
  case False
  then obtain m where m: "n = int m" using nonneg_int_cases by (metis not_less)
  obtain i w where iw: "grow (int m) (b, h) = (Inr i, w)" "reserved m b h i w"
    using grow_run [OF ok] room m by blast
  obtain s j k l h1 where s: "i = int j" "w = (\<lparr>buf = Some s, off = int k, lastRead = l\<rparr>, h1)" "bslice_ok h1 s"
    "blen s = j + m" "k \<le> j" "drop k (take j (bytes_of h1 s)) = content b h"
    "frame b h \<lparr>buf = Some s, off = int k, lastRead = l\<rparr> h1"
    "int (bcap s) \<le> max (Cap b) (64 + 4 * (int (length (content b h)) + int m))"
    using iw(2) unfolding reserved_def by blast
  let ?s = "sub_slice s 0 j"
  have sc: "j + m \<le> bcap s" using s(3,4) by (simp add: bslice_ok_def)
  then have j: "j \<le> bcap s" by simp
  note t = sub_slice(1-4) [OF s(3) _ j, of 0, simplified]
  have sb: "bytes_of h1 ?s = take j (bytes_of h1 s)" using sub_slice_within [OF s(3), of 0 j] s(4) by simp
  let ?b = "\<lparr>buf = Some ?s, off = int k, lastRead = l\<rparr>"
  have "Grow n (b, h) = (Inr (), (?b, h1))"
    using False iw(1) slice0_to [OF j] by (simp add: Grow_def m s(1,2) bnd_Inr from_res_def bnd_def receiver_def set_buf_def upd_def)
  moreover have "frame b h ?b h1" using s(7) by (simp add: frame_def t(4))
  moreover have "Available ?b = int (bcap s) - int j" by (simp add: Available_def t)
  ultimately show ?thesis
    using False s sb t sc by (intro if_not_P [THEN iffD2, OF False] exI [of _ ?b] exI [of _ h1])
      (simp add: Cap_def m)
qed

lemma Peek_run:
  assumes ok: "buf_ok b h" and n: "0 \<le> n"
  shows "\<exists>b' h' d. Peek n (b, h) =
      (Inr (d, if int (length (content b h)) < n then Some EOF else None), (b', h')) \<and>
    sbytes0 h' d = take (nat n) (content b h) \<and> buf_ok b' h' \<and> content b' h' = content b h \<and> frame b h b' h' \<and> Cap b' = Cap b"
proof (cases "content b h = []")
  case True
  obtain b1 where b1: "Reset (b, h) = (Inr (), (b1, h))" "buf_ok b1 h" "content b1 h = []" "Cap b1 = Cap b" "frame b h b1 h"
    using Reset_run [OF ok] by blast
  obtain u h1 where nb: "new_buffer [] h = (u, h1)" by fastforce
  have nb_run: "no_bytes (b1, h) = (Inr (Some \<lparr>b_arr = u, b_meta = None\<rparr>), (b1, h1))"
    by (simp add: no_bytes_def on_heap_def nb)
  note f = fresh_slice [OF nb]
  have fr: "frame b1 h b1 h1" by (rule frame_new_buffer [OF nb])
  have lt: "\<not> owns b1 (next_buf h)"
    using b1(2) by (auto simp: owns_def buf_ok_def bslice_ok_def u8_ok_def split: option.splits)
  have ok1: "buf_ok b1 h1"
    using b1(2) f(6,7) by (auto simp: buf_ok_def bslice_ok_def u8_ok_def split: option.splits)
  have c1: "content b1 h1 = []"
    using length_content [OF ok1] length_content [OF b1(2)] b1(3) by simp
  have "empty b" using empty_content [OF ok] True by simp
  then have "Peek n (b, h) = (Inr (Some \<lparr>b_arr = u, b_meta = None\<rparr>, if n = 0 then None else Some EOF), (b1, h1))"
    using n b1(1) nb_run by (simp add: Peek_def bnd_Inr ret_def)
  then show ?thesis
    using frame_trans [OF b1(5) fr] ok1 c1 b1(4) f(4) True n
    by (intro exI [of _ b1] exI [of _ h1] exI [of _ "Some \<lparr>b_arr = u, b_meta = None\<rparr>"]) auto
next
  case False
  then obtain s k l where s: "b = \<lparr>buf = Some s, off = int k, lastRead = l\<rparr>" "bslice_ok h s" "k < blen s"
    "content b h = drop k (bytes_of h s)" "length (content b h) = blen s - k" "blen s \<le> bcap s"
    by (rule not_empty_cases [OF ok])
  note kb = less_imp_le [OF s(3)]
  have ne: "\<not> empty b" using empty_content [OF ok] False by simp
  obtain m where m: "n = int m" using n nonneg_int_cases by blast
  have r: "bytes_of h (sub_slice s k (blen s)) = content b h"
    using sub_slice_within [OF s(2) kb order_refl] length_bytes_of [OF s(2)] s(4) by simp
  have lr: "blen (sub_slice s k (blen s)) = blen s - k" by (rule sub_slice(2) [OF s(2) kb s(6)])
  show ?thesis
  proof (cases "blen s - k < m")
    case True
    then have "Peek n (b, h) = (Inr (Some (sub_slice s k (blen s)), Some EOF), (b, h))"
      using ne n s(1) slice0_from [OF kb s(2)] by (simp add: Peek_def from_res_def bnd_def ret_def receiver_def m lr)
    with True show ?thesis using ok r s(5) m by (intro exI [of _ b] exI [of _ h] exI [of _ "Some (sub_slice s k (blen s))"]) simp
  next
    case False
    then have km: "k + m \<le> blen s" using s(3) by simp
    have sl: "slice0 (Some s) (Some (int k)) (Some (int k + int m)) = Inr (Some (sub_slice s k (k + m)))"
      using slice0_between [of k "k + m" s] km s(6) by simp
    have "Peek n (b, h) = (Inr (Some (sub_slice s k (k + m)), None), (b, h))"
      using ne n s(1) slice0_from [OF kb s(2)] sl False by (simp add: Peek_def from_res_def bnd_def ret_def receiver_def m lr)
    moreover have "bytes_of h (sub_slice s k (k + m)) = take (nat n) (content b h)"
      using sub_slice_within [OF s(2) _ km, of k] s(4) m by simp
    ultimately show ?thesis using ok False s(5) m by (intro exI [of _ b] exI [of _ h] exI [of _ "Some (sub_slice s k (k + m))"]) simp
  qed
qed

lemma index_of_spec:
  "(index_of bs c i = -1 \<and> c \<notin> set bs) \<or>
   (\<exists>n<length bs. index_of bs c i = int (i + n) \<and> bs ! n = c \<and> c \<notin> set (take n bs))"
proof (induction bs c i rule: index_of.induct)
  case (2 b bs c i)
  show ?case
  proof (cases "b = c")
    case False
    with 2 consider "index_of bs c (Suc i) = -1" "c \<notin> set bs"
      | n where "n < length bs" "index_of bs c (Suc i) = int (Suc i + n)" "bs ! n = c" "c \<notin> set (take n bs)" by blast
    then show ?thesis
    proof cases
      case (2 n)
      with False show ?thesis by (intro disjI2 exI [of _ "Suc n"]) simp
    qed (use False in simp)
  qed (auto intro: exI [of _ 0])
qed simp

text \<open>The line of a delimiter: up to and with the first occurrence, all when there is none.\<close>

fun line_of :: "byte \<Rightarrow> byte list \<Rightarrow> byte list" where
  "line_of c [] = []"
| "line_of c (b # bs) = (if b = c then [b] else b # line_of c bs)"

lemma line_of_index:
  "c \<notin> set bs \<Longrightarrow> line_of c bs = bs"
  "n < length bs \<Longrightarrow> bs ! n = c \<Longrightarrow> c \<notin> set (take n bs) \<Longrightarrow> line_of c bs = take (Suc n) bs \<and> c \<in> set bs"
proof -
  show "c \<notin> set bs \<Longrightarrow> line_of c bs = bs" by (induction bs) auto
  show "n < length bs \<Longrightarrow> bs ! n = c \<Longrightarrow> c \<notin> set (take n bs) \<Longrightarrow> line_of c bs = take (Suc n) bs \<and> c \<in> set bs"
  proof (induction bs arbitrary: n)
    case (Cons b bs)
    then show ?case by (cases n) auto
  qed simp
qed

lemma readSlice_run:
  assumes ok: "buf_ok b h"
  shows "\<exists>b' d. readSlice c (b, h) = (Inr (d, if c \<in> set (content b h) then None else Some EOF), (b', h)) \<and>
    sbytes0 h d = line_of c (content b h) \<and> consumed (length (line_of c (content b h))) b h b' h \<and> lastRead b' = -1"
  using ok
proof (cases rule: buf_ok_cases)
  case (1 l)
  then show ?thesis
    by (simp add: readSlice_def from_res_def bnd_def slice0_nil receiver_def the_heap_def IndexByte_def
        bytesIndexByte_def ret_def upd_def consumed_def Cap_def Let_def)
next
  case (2 s k l)
  let ?c = "content b h"
  have cap: "blen s \<le> bcap s" using 2 by (simp add: bslice_ok_def)
  have c: "?c = drop k (bytes_of h s)" "length ?c = blen s - k" using 2 length_bytes_of [OF 2(2)] by simp_all
  have r: "bytes_of h (sub_slice s k (blen s)) = ?c"
    using sub_slice_within [OF 2(2,3) order_refl] length_bytes_of [OF 2(2)] c by simp
  have i: "IndexByte h (Some (sub_slice s k (blen s))) c = index_of ?c c 0"
    by (simp add: IndexByte_def bytesIndexByte_def r)
  define m where "m = length (line_of c ?c)"
  have idx: "(if index_of ?c c 0 < 0 then int (blen s) else int k + index_of ?c c 0 + 1) = int (k + m)"
    "index_of ?c c 0 < 0 \<longleftrightarrow> c \<notin> set ?c" "line_of c ?c = take m ?c" "k + m \<le> blen s"
    using index_of_spec [of ?c c 0] line_of_index(1) [of c ?c] line_of_index(2) [of _ ?c c] c(2) 2(3) by (auto simp: m_def min_def)
  have sl: "slice0 (Some s) (Some (int k)) (Some (int (k + m))) = Inr (Some (sub_slice s k (k + m)))"
    using slice0_between [of k "k + m" s] idx(4) cap by simp
  have "readSlice c (b, h) = (Inr (Some (sub_slice s k (k + m)), if c \<in> set ?c then None else Some EOF),
      (\<lparr>buf = Some s, off = int (k + m), lastRead = -1\<rparr>, h))"
  proof (cases "c \<in> set ?c")
    case True
    then have "index_of (drop k (bytes_of h s)) c 0 = int m - 1" "\<not> int m - 1 < 0"
      using idx(1,2) c(1) by auto
    then show ?thesis
      unfolding readSlice_def bnd_receiver using slice0_from [OF 2(3,2)] sl i True
      by (simp add: 2(1) from_res_def bnd_def ret_def upd_def the_heap_def Let_def)
  next
    case False
    then have "index_of ?c c 0 < 0" "int (blen s) = int (k + m)" using idx(1,2) by auto
    then show ?thesis
      unfolding readSlice_def bnd_receiver using slice0_from [OF 2(3,2)] sl i False
      by (simp add: 2(1) from_res_def bnd_def ret_def upd_def the_heap_def Let_def)
  qed
  moreover have "bytes_of h (sub_slice s k (k + m)) = line_of c ?c"
    unfolding idx(3) using sub_slice_within [OF 2(2) _ idx(4), of k] c(1) by simp
  moreover have "consumed m b h \<lparr>buf = Some s, off = int (k + m), lastRead = -1\<rparr> h"
    unfolding 2(1) by (rule consumed_advance [OF 2(2) idx(4)])
  ultimately show ?thesis
    unfolding m_def by (intro exI [of _ "\<lparr>buf = Some s, off = int (k + m), lastRead = -1\<rparr>"]
        exI [of _ "Some (sub_slice s k (k + m))"]) (simp add: m_def)
qed

subsection \<open>Runes, and taking back a read\<close>

text \<open>\<open>ReadRune\<close> takes what \<open>DecodeRune\<close> sees in the unread bytes, and \<open>UnreadRune\<close> puts it
  back; \<open>UnreadByte\<close> puts back the last byte of any read that took one.\<close>

lemma content_nats: "content b h = x # xs \<Longrightarrow> byte_nats (content b h) = unat x # byte_nats xs"
  by (simp add: byte_nats_def)

lemma ReadRune_run:
  assumes ok: "buf_ok b h" and c: "content b h = x # xs" and d: "DecodeRune (byte_nats (content b h)) = (r, n)"
    and n: "n \<le> length (content b h)"
  shows "\<exists>b'. ReadRune (b, h) = (Inr (int r, int n, None), (b', h)) \<and> consumed n b h b' h \<and>
    lastRead b' = int n \<and> off b' = off b + int n \<and> buf b' = buf b"
proof -
  obtain s k l where s: "b = \<lparr>buf = Some s, off = int k, lastRead = l\<rparr>" "bslice_ok h s" "k < blen s"
    "content b h = drop k (bytes_of h s)" "length (content b h) = blen s - k" "blen s \<le> bcap s"
    using not_empty_cases [OF ok] c by (metis list.distinct(1))
  note kb = less_imp_le [OF s(3)]
  have ne: "\<not> empty b" using empty_content [OF ok] c by simp
  have x: "bytes_of h s ! k = x" using s(3,4) c length_bytes_of [OF s(2)] by (metis hd_drop_conv_nth list.sel(1))
  have r: "bytes_of h (sub_slice s k (blen s)) = content b h"
    using sub_slice_within [OF s(2) kb order_refl] length_bytes_of [OF s(2)] s(4) by simp
  let ?b = "\<lparr>buf = Some s, off = int (k + n), lastRead = int n\<rparr>"
  have "ReadRune (b, h) = (Inr (int r, int n, None), (?b, h))"
  proof (cases "unat x < 0x80")
    case True
    then have "r = unat x" "n = 1" using d unfolding content_nats [OF c] by (simp_all add: DecodeRune_def)
    with True show ?thesis using ne s(1) by (simp add: ReadRune_def x Let_def ret_def)
  next
    case False
    then show ?thesis using ne s(1) slice0_from [OF kb s(2)] d r
      by (simp add: ReadRune_def x Let_def from_res_def bnd_def ret_def receiver_def the_heap_def upd_def)
  qed
  moreover have "consumed n b h ?b h" unfolding s(1) using n s(3,5) by (intro consumed_advance [OF s(2)]) simp
  ultimately show ?thesis using s(1) by auto
qed

text \<open>A valid rune in front of the unread bytes (U+FEFF and a final U+FFFD apart) is read and
  put back.\<close>

lemma unread_rune_restores:
  assumes ok: "buf_ok b h" and r: "ValidRune r" "r \<noteq> 0xFEFF" "r \<noteq> 0xFFFD \<or> rest \<noteq> []"
    and c: "content b h = to_bytes (rune_bytes r) @ rest"
  shows "\<exists>b1 b2. ReadRune (b, h) = (Inr (r, int (length (rune_bytes r)), None), (b1, h)) \<and> content b1 h = rest \<and>
    UnreadRune (b1, h) = (Inr None, (b2, h)) \<and> content b2 h = content b h \<and> buf_ok b2 h \<and>
    UnreadRune (b2, h) = (Inr (Some (ErrorText ''bytes.Buffer: UnreadRune: previous operation was not a successful ReadRune'')), (b2, h))"
proof -
  let ?n = "length (rune_bytes r)"
  have n: "1 \<le> ?n" using utf8_enc_length by (simp add: rune_bytes_valid [OF r(1)])
  have lt: "\<forall>u\<in>set (rune_bytes r). u < 256" using rune_bytes_valid [OF r(1)] ValidRune_scalar [OF r(1)]
    by (auto simp: utf8_enc_def scalar_def)
  have "byte_nats (content b h) = rune_bytes r @ byte_nats rest"
    unfolding c using lt by (simp add: byte_nats_def to_bytes_def map_idI unat_of_nat comp_def)
  moreover have "DecodeRune (utf8_enc (nat r) @ byte_nats rest) = (nat r, length (utf8_enc (nat r)))"
    using ValidRune_scalar [OF r(1)] r(2,3) by (intro DecodeRune_char) (auto simp: byte_nats_def)
  ultimately have d: "DecodeRune (byte_nats (content b h)) = (nat r, ?n)" by (simp add: rune_bytes_valid [OF r(1)])
  obtain x xs where x: "content b h = x # xs" using n unfolding c to_bytes_def by (cases "rune_bytes r") auto
  obtain b1 where b1: "ReadRune (b, h) = (Inr (int (nat r), int ?n, None), (b1, h))" "consumed ?n b h b1 h"
    "lastRead b1 = int ?n" "off b1 = off b + int ?n" "buf b1 = buf b"
    using ReadRune_run [OF ok x d] c by auto
  let ?b2 = "b1\<lparr>off := off b, lastRead := 0\<rparr>"
  have o: "0 \<le> off b" using ok by (simp add: buf_ok_def)
  have "UnreadRune (b1, h) = (Inr None, (?b2, h))"
    using n o by (cases "rune_bytes r") (simp_all add: UnreadRune_def b1(3,4) ret_def)
  moreover have "content ?b2 h = content b h" "buf_ok ?b2 h"
    using ok b1(5) by (simp_all add: content_def buf_ok_def)
  moreover have "content b1 h = rest" using b1(2) c by (simp add: consumed_def)
  ultimately show ?thesis using b1(1) ValidRune_scalar [OF r(1)]
    by (intro exI [of _ b1] exI [of _ ?b2]) (simp add: UnreadRune_def ret_def)
qed

lemma unread_byte_restores:
  assumes ok: "buf_ok b h" and c: "content b h = x # xs"
  shows "\<exists>b1 b2. ReadByte (b, h) = (Inr (x, None), (b1, h)) \<and> content b1 h = xs \<and>
    UnreadByte (b1, h) = (Inr None, (b2, h)) \<and> content b2 h = content b h \<and> buf_ok b2 h \<and>
    UnreadByte (b2, h) = (Inr (Some errUnreadByte), (b2, h))"
proof -
  obtain s k l where s: "b = \<lparr>buf = Some s, off = int k, lastRead = l\<rparr>" "bslice_ok h s" "k < blen s"
    "content b h = drop k (bytes_of h s)"
    using not_empty_cases [OF ok] c by (metis list.distinct(1))
  have ne: "\<not> empty b" using empty_content [OF ok] c by simp
  have x: "bytes_of h s ! k = x" using s(3,4) c length_bytes_of [OF s(2)] by (metis hd_drop_conv_nth list.sel(1))
  let ?b1 = "\<lparr>buf = Some s, off = int (k + 1), lastRead = -1\<rparr>" and ?b2 = "\<lparr>buf = Some s, off = int k, lastRead = 0\<rparr>"
  have "ReadByte (b, h) = (Inr (x, None), (?b1, h))" using ne s(1) x by (simp add: ReadByte_def Let_def ret_def)
  moreover have "content ?b1 h = xs" using c s(4) using s(3) length_bytes_of [OF s(2)]
    by (simp only: content_simps) (metis Cons_nth_drop_Suc Suc_eq_plus1 list.sel(3))
  moreover have "UnreadByte (?b1, h) = (Inr None, (?b2, h))" by (simp add: UnreadByte_def ret_def)
  moreover have "UnreadByte (?b2, h) = (Inr (Some errUnreadByte), (?b2, h))" by (simp add: UnreadByte_def ret_def)
  ultimately show ?thesis using s by (intro exI [of _ ?b1] exI [of _ ?b2]) simp
qed

subsection \<open>Histories: a buffer is a queue of bytes\<close>

text \<open>Calls with their arguments as data: the array a caller passes to \<open>Write\<close> or \<open>Read\<close> is a
  new one. A result is what the caller sees, the bytes of a slice read at once.\<close>

datatype bcall =
  CWrite "byte list" | CWriteString jstr | CWriteByte byte | CWriteRune nat | CRead nat | CNext nat | CPeek nat
  | CReadByte | CReadString byte | CTruncate int | CReset | CGrow int | CLen | CBytes

datatype bresult = RCount int "io_error option" | RBytes "byte list" "io_error option" | RText jstr "io_error option"
  | RDone | RPanic buf_panic

definition fresh :: "byte list \<Rightarrow> bslice buf_op" where
  "fresh xs = on_heap (\<lambda>h. case new_buffer xs h of (u, h1) \<Rightarrow> Inr (\<lparr>b_arr = u, b_meta = None\<rparr>, h1))"

definition shown :: "bslice option \<times> io_error option \<Rightarrow> bresult buf_op" where
  "shown r = bnd the_heap (\<lambda>h. ret (RBytes (sbytes0 h (fst r)) (snd r)))"

definition counted :: "int \<times> io_error option \<Rightarrow> bresult buf_op" where "counted r = ret (RCount (fst r) (snd r))"

fun call :: "bcall \<Rightarrow> bresult buf_op" where
  "call (CWrite xs) = bnd (fresh xs) (\<lambda>p. bnd (Write (Some p)) counted)"
| "call (CWriteString s) = bnd (WriteString s) counted"
| "call (CWriteByte c) = bnd (WriteByte c) (\<lambda>e. ret (RCount 1 e))"
| "call (CWriteRune r) = bnd (WriteRune (int r)) counted"
| "call (CRead k) = bnd (fresh (replicate k 0)) (\<lambda>p. bnd (Read (Some p)) (\<lambda>(n, e). bnd the_heap (\<lambda>h.
     ret (RBytes (take (nat n) (bytes_of h p)) e))))"
| "call (CNext n) = bnd (Next (int n)) (\<lambda>d. shown (d, None))"
| "call (CPeek n) = bnd (Peek (int n)) shown"
| "call CReadByte = bnd ReadByte (\<lambda>(c, e). ret (RBytes (if e = None then [c] else []) e))"
| "call (CReadString d) = bnd (ReadString d) (\<lambda>(s, e). ret (RText s e))"
| "call (CTruncate n) = bnd (Truncate n) (\<lambda>_. ret RDone)"
| "call CReset = bnd Reset (\<lambda>_. ret RDone)"
| "call (CGrow n) = bnd (Grow n) (\<lambda>_. ret RDone)"
| "call CLen = bnd receiver (\<lambda>b. ret (RCount (Len b) None))"
| "call CBytes = bnd Bytes (\<lambda>d. shown (d, None))"

fun result :: "buf_panic + bresult \<Rightarrow> bresult" where
  "result (Inl e) = RPanic e"
| "result (Inr r) = r"

fun run :: "bcall list \<Rightarrow> bstate \<Rightarrow> bresult list \<times> bstate" where
  "run [] w = ([], w)"
| "run (c # cs) w = (case call c w of (r, w1) \<Rightarrow> case run cs w1 of (rs, w2) \<Rightarrow> (result r # rs, w2))"

text \<open>The same calls on the list of the unread bytes.\<close>

fun spec :: "bcall \<Rightarrow> byte list \<Rightarrow> bresult \<times> byte list" where
  "spec (CWrite ys) xs = (RCount (int (length ys)) None, xs @ ys)"
| "spec (CWriteString s) xs = (RCount (int (length (text_encode s))) None, xs @ to_bytes (text_encode s))"
| "spec (CWriteByte c) xs = (RCount 1 None, xs @ [c])"
| "spec (CWriteRune r) xs = (RCount (int (length (rune_bytes (int r)))) None, xs @ to_bytes (rune_bytes (int r)))"
| "spec (CRead k) xs = (RBytes (take k xs) (if xs = [] \<and> k \<noteq> 0 then Some EOF else None), drop k xs)"
| "spec (CNext n) xs = (RBytes (take n xs) None, drop n xs)"
| "spec (CPeek n) xs = (RBytes (take n xs) (if length xs < n then Some EOF else None), xs)"
| "spec CReadByte xs = (RBytes (take 1 xs) (if xs = [] then Some EOF else None), drop 1 xs)"
| "spec (CReadString d) xs =
     (RText (bytesToString (OfBytes (byte_nats (line_of d xs)))) (if d \<in> set xs then None else Some EOF),
      drop (length (line_of d xs)) xs)"
| "spec (CTruncate n) xs =
     (if n < 0 \<or> int (length xs) < n then (RPanic (PanicText ''bytes.Buffer: truncation out of range''), xs)
      else (RDone, take (nat n) xs))"
| "spec CReset xs = (RDone, [])"
| "spec (CGrow n) xs = (if n < 0 then RPanic (PanicText ''bytes.Buffer.Grow: negative count'') else RDone, xs)"
| "spec CLen xs = (RCount (int (length xs)) None, xs)"
| "spec CBytes xs = (RBytes xs None, xs)"

fun spec_run :: "bcall list \<Rightarrow> byte list \<Rightarrow> bresult list \<times> byte list" where
  "spec_run [] xs = ([], xs)"
| "spec_run (c # cs) xs = (case spec c xs of (r, ys) \<Rightarrow> case spec_run cs ys of (rs, zs) \<Rightarrow> (r # rs, zs))"

text \<open>The bytes a call may add, and the room it may ask for.\<close>

fun call_size :: "bcall \<Rightarrow> nat" where
  "call_size (CWrite xs) = length xs"
| "call_size (CWriteString s) = length (text_encode s)"
| "call_size (CWriteByte c) = 1"
| "call_size (CWriteRune r) = 4"
| "call_size (CGrow n) = nat n"
| "call_size _ = 0"

fun call_ok :: "bcall \<Rightarrow> bool" where
  "call_ok (CWriteString s) \<longleftrightarrow> \<not> prefix binary_prefix s"
| "call_ok _ \<longleftrightarrow> True"

text \<open>One step of the simulation. The room bound excludes ErrTooLarge.\<close>

definition simulates :: "bresult \<Rightarrow> byte list \<Rightarrow> nat \<Rightarrow> buffer \<Rightarrow> bheap \<Rightarrow> (buf_panic + bresult) \<times> bstate \<Rightarrow> bool" where
  "simulates r ys n b h x \<longleftrightarrow> (case x of (y, (b', h')) \<Rightarrow> result y = r \<and> buf_ok b' h' \<and> content b' h' = ys \<and>
     frame b h b' h' \<and> Cap b' \<le> max (Cap b) (80 + 4 * (int (length (content b h)) + int n)))"

lemma owns_lt: "buf_ok b h \<Longrightarrow> owns b c \<Longrightarrow> c < next_buf h"
  by (auto simp: owns_def buf_ok_def bslice_ok_def u8_ok_def split: option.splits)

lemma fresh_run:
  assumes ok: "buf_ok b h"
  obtains p h1 where "fresh xs (b, h) = (Inr p, (b, h1))" "bslice_ok h1 p" "blen p = length xs" "bytes_of h1 p = xs"
    "\<not> owns b (u_buf (bback p))" "next_buf h \<le> u_buf (bback p)" "frame b h b h1" "buf_ok b h1" "content b h1 = content b h"
proof -
  obtain u h1 where nb: "new_buffer xs h = (u, h1)" by fastforce
  note f = fresh_slice [OF nb]
  have fr: "frame b h b h1" by (rule frame_new_buffer [OF nb])
  have "\<not> owns b (next_buf h)" using owns_lt [OF ok] by blast
  moreover have "buf_ok b h1" "content b h1 = content b h"
    using ok
  proof (atomize (full), cases rule: buf_ok_cases)
    case (2 s k l)
    have "bslice_ok h1 s" using 2(2) f(6,7) by (auto simp: bslice_ok_def u8_ok_def)
    moreover have "bytes_of h1 s = bytes_of h s"
      using bslice_ok_arr(1) [OF 2(2)] 2(2) by (simp add: bytes_of_def u8_bytes_def f(7) bslice_ok_def u8_ok_def)
    ultimately show "buf_ok b h1 \<and> content b h1 = content b h" using 2 by simp
  qed simp
  moreover have "fresh xs (b, h) = (Inr \<lparr>b_arr = u, b_meta = None\<rparr>, (b, h1))"
    by (simp add: fresh_def on_heap_def nb)
  ultimately show thesis using that f(1,2,4,5) fr by simp
qed

lemma Bytes_run:
  assumes "buf_ok b h"
  shows "\<exists>d. Bytes (b, h) = (Inr d, (b, h)) \<and> sbytes0 h d = content b h"
  using assms
proof (cases rule: buf_ok_cases)
  case (1 l)
  then show ?thesis by (simp add: Bytes_def from_res_def slice0_nil)
next
  case (2 s k l)
  then show ?thesis
    using sub_slice_within [OF 2(2,3) order_refl] length_bytes_of [OF 2(2)] slice0_from [OF 2(3,2)]
    by (simp add: Bytes_def from_res_def)
qed

lemma goStringFromBytes_nil: "goStringFromBytes [] = []"
  by (simp add: goStringFromBytes_def text_decode_fatal_def strip_bom_def bom_def text_of_def)

lemma simulates_write:
  assumes "m (b, h) = (Inr x, w)" "appended ys b h w" "length ys \<le> n" "\<And>v. f x v = (Inr r, v)"
  shows "simulates r (content b h @ ys) n b h (bnd m f (b, h))"
proof (cases w)
  case (Pair b' h')
  then have "bnd m f (b, h) = (Inr r, (b', h'))" using assms(1,4) by (simp add: bnd_Inr)
  with assms(2,3) Pair show ?thesis by (auto simp: simulates_def appended_def le_max_iff_disj)
qed

lemma call_writes:
  assumes ok: "buf_ok b h" and room: "2 * Cap b + int (call_size c) \<le> 9223372036854775807" and c: "call_ok c"
    and w: "(case c of CWrite _ \<Rightarrow> True | CWriteString _ \<Rightarrow> True | CWriteByte _ \<Rightarrow> True | CWriteRune _ \<Rightarrow> True | _ \<Rightarrow> False)"
  shows "simulates (fst (spec c (content b h))) (snd (spec c (content b h))) (call_size c) b h (call c (b, h))"
proof (cases c)
  case (CWrite xs)
  obtain p h1 where p: "fresh xs (b, h) = (Inr p, (b, h1))" "bslice_ok h1 p" "blen p = length xs" "bytes_of h1 p = xs"
    "\<not> owns b (u_buf (bback p))" "frame b h b h1" "buf_ok b h1" "content b h1 = content b h"
    by (rule fresh_run [OF ok, of xs])
  obtain w where w: "Write (Some p) (b, h1) = (Inr (int (length xs), None), w)" "appended xs b h1 w"
    using Write_run [OF p(7) _ p(2,5)] room CWrite p(3,4) by auto
  have A: "appended xs b h w" using w(2) p(6,8) frame_trans by (fastforce simp: appended_def)
  have W: "bnd (fresh xs) (\<lambda>p. Write (Some p)) (b, h) = (Inr (int (length xs), None), w)"
    using p(1) w(1) by (simp add: bnd_Inr)
  have "simulates (RCount (int (length xs)) None) (content b h @ xs) (length xs) b h
      (bnd (bnd (fresh xs) (\<lambda>p. Write (Some p))) counted (b, h))"
    by (rule simulates_write [where m = "bnd (fresh xs) (\<lambda>p. Write (Some p))", OF W A]) (simp_all add: counted_def ret_def)
  moreover have "bnd (bnd (fresh xs) (\<lambda>p. Write (Some p))) counted (b, h) = call c (b, h)"
    using p(1) w(1) by (simp add: CWrite bnd_Inr)
  ultimately show ?thesis using CWrite by simp
next
  case (CWriteString s)
  obtain w where "WriteString s (b, h) = (Inr (int (length (text_encode s)), None), w)"
    "appended (to_bytes (text_encode s)) b h w"
    using WriteString_run [OF ok, of s] room c CWriteString by auto
  then show ?thesis unfolding CWriteString spec.simps call.simps fst_conv snd_conv
    by (rule simulates_write) (simp_all add: counted_def ret_def)
next
  case (CWriteByte x)
  obtain w where "WriteByte x (b, h) = (Inr None, w)" "appended [x] b h w"
    using WriteByte_run [OF ok, of x] room CWriteByte by auto
  then show ?thesis unfolding CWriteByte spec.simps call.simps fst_conv snd_conv
    by (rule simulates_write) (simp_all add: ret_def)
next
  case (CWriteRune r)
  obtain w where "WriteRune (int r) (b, h) = (Inr (int (length (rune_bytes (int r))), None), w)"
    "appended (to_bytes (rune_bytes (int r))) b h w"
    using WriteRune_run [OF ok, of "int r"] room CWriteRune by auto
  then show ?thesis unfolding CWriteRune spec.simps call.simps fst_conv snd_conv
    by (rule simulates_write) (simp_all add: counted_def ret_def rune_bytes_length)
qed (use w in simp_all)

lemma simulates_read:
  assumes "bnd m f (b, h) = (Inr r, (b', h))" "consumed k b h b' h"
  shows "simulates r (drop k (content b h)) n b h (bnd m f (b, h))"
  using assms by (auto simp: simulates_def consumed_def)

lemma call_reads:
  assumes ok: "buf_ok b h"
    and c: "(case c of CRead _ \<Rightarrow> True | CNext _ \<Rightarrow> True | CPeek _ \<Rightarrow> True | CReadByte \<Rightarrow> True | CReadString _ \<Rightarrow> True | _ \<Rightarrow> False)"
  shows "simulates (fst (spec c (content b h))) (snd (spec c (content b h))) (call_size c) b h (call c (b, h))"
proof (cases c)
  case (CRead k)
  obtain p h1 where p: "fresh (replicate k 0) (b, h) = (Inr p, (b, h1))" "bslice_ok h1 p" "blen p = length (replicate k (0 :: byte))"
    "\<not> owns b (u_buf (bback p))" "next_buf h \<le> u_buf (bback p)" "frame b h b h1" "buf_ok b h1" "content b h1 = content b h"
    by (rule fresh_run [OF ok, of "replicate k 0"])
  let ?n = "min k (length (content b h))"
  obtain b' h' where r: "Read (Some p) (b, h1) =
      (Inr (int ?n, if content b h = [] \<and> k \<noteq> 0 then Some EOF else None), (b', h'))"
    "take ?n (bytes_of h' p) = take ?n (content b h)" "buf_ok b' h'" "content b' h' = drop ?n (content b h)"
    "Cap b' = Cap b" "\<forall>c. owns b' c \<longrightarrow> owns b c"
    "buf_changes (u_buf (bback p)) {bstart p..<bstart p + ?n} h1 h'"
    using Read_run [OF p(7,2,4)] by (auto simp: p(3,8))
  have "frame b h b' h'"
    using p(5,6) r(6,7) unfolding frame_def buf_changes_def by (auto intro!: nth_equalityI)
  moreover have "drop ?n (content b h) = drop k (content b h)" "take ?n (content b h) = take k (content b h)"
    by (simp_all add: min_def)
  ultimately show ?thesis
    using p(1) r by (simp add: simulates_def CRead bnd_Inr ret_def)
next
  case (CNext n)
  obtain b' d where "Next (int n) (b, h) = (Inr d, (b', h))" "sbytes0 h d = take n (content b h)" "consumed n b h b' h"
    using Next_run [OF ok] by blast
  then show ?thesis unfolding CNext spec.simps call.simps fst_conv snd_conv
    by (intro simulates_read) (simp_all add: bnd_Inr shown_def ret_def)
next
  case (CPeek n)
  obtain b' h' d where "Peek (int n) (b, h) =
      (Inr (d, if length (content b h) < n then Some EOF else None), (b', h'))"
    "sbytes0 h' d = take n (content b h)" "buf_ok b' h'" "content b' h' = content b h" "frame b h b' h'" "Cap b' = Cap b"
    using Peek_run [OF ok, of "int n"] by auto
  then show ?thesis
    by (simp add: simulates_def CPeek bnd_Inr shown_def ret_def)
next
  case CReadByte
  obtain b' where "ReadByte (b, h) =
      (case content b h of [] \<Rightarrow> (Inr (0, Some EOF), (b', h)) | c # _ \<Rightarrow> (Inr (c, None), (b', h)))"
    "consumed 1 b h b' h"
    using ReadByte_run [OF ok] by blast
  then show ?thesis unfolding CReadByte spec.simps call.simps fst_conv snd_conv
    by (intro simulates_read) (auto simp: bnd_Inr ret_def split: list.splits)
next
  case (CReadString x)
  obtain b' d where "readSlice x (b, h) = (Inr (d, if x \<in> set (content b h) then None else Some EOF), (b', h))"
    "sbytes0 h d = line_of x (content b h)" "consumed (length (line_of x (content b h))) b h b' h"
    using readSlice_run [OF ok, of x] by auto
  moreover from this have "string_of h d = bytesToString (OfBytes (byte_nats (line_of x (content b h))))"
    by (cases d) (auto simp: string_of_def byte_nats_def bytesToString_def goStringFromBytes_nil)
  ultimately show ?thesis unfolding CReadString spec.simps call.simps fst_conv snd_conv
    by (intro simulates_read) (simp_all add: ReadString_def bnd_Inr ret_def)
qed (use c in simp_all)

lemma call_others:
  assumes ok: "buf_ok b h" and room: "2 * Cap b + int (call_size c) \<le> 9223372036854775807"
    and c: "(case c of CTruncate _ \<Rightarrow> True | CReset \<Rightarrow> True | CGrow _ \<Rightarrow> True | CLen \<Rightarrow> True | CBytes \<Rightarrow> True | _ \<Rightarrow> False)"
  shows "simulates (fst (spec c (content b h))) (snd (spec c (content b h))) (call_size c) b h (call c (b, h))"
proof (cases c)
  case (CTruncate n)
  obtain b' where b': "buf_ok b' h" "frame b h b' h" "Cap b' = Cap b"
    "if n < 0 \<or> int (length (content b h)) < n
     then Truncate n (b, h) = (Inl (PanicText ''bytes.Buffer: truncation out of range''), (b', h)) \<and> content b' h = content b h
     else Truncate n (b, h) = (Inr (), (b', h)) \<and> content b' h = take (nat n) (content b h)"
    using Truncate_run [OF ok] by blast
  show ?thesis
  proof (cases "n < 0 \<or> int (length (content b h)) < n")
    case True
    with b' show ?thesis unfolding CTruncate
      by (simp add: simulates_def bnd_def)
  next
    case False
    with b' show ?thesis unfolding CTruncate
      by (simp add: simulates_def bnd_Inr ret_def)
  qed
next
  case CReset
  obtain b' where "Reset (b, h) = (Inr (), (b', h))" "buf_ok b' h" "content b' h = []" "Cap b' = Cap b" "frame b h b' h"
    using Reset_run [OF ok] by blast
  then show ?thesis unfolding CReset by (simp add: simulates_def bnd_Inr ret_def)
next
  case (CGrow n)
  show ?thesis
  proof (cases "n < 0")
    case True
    with Grow_run [OF ok, of n] room CGrow have "Grow n (b, h) = (Inl (PanicText ''bytes.Buffer.Grow: negative count''), (b, h))" by simp
    with True ok show ?thesis unfolding CGrow by (simp add: simulates_def bnd_def)
  next
    case False
    obtain b' h' where "Grow n (b, h) = (Inr (), (b', h'))" "buf_ok b' h'" "content b' h' = content b h" "frame b h b' h'"
      "Cap b' \<le> max (Cap b) (64 + 4 * (int (length (content b h)) + n))"
      using Grow_run [OF ok, of n] room CGrow False by auto
    with False show ?thesis unfolding CGrow
      by (auto simp: simulates_def bnd_Inr ret_def le_max_iff_disj)
  qed
next
  case CLen
  with ok length_content [OF ok] show ?thesis by (simp add: simulates_def ret_def)
next
  case CBytes
  obtain d where "Bytes (b, h) = (Inr d, (b, h))" "sbytes0 h d = content b h" using Bytes_run [OF ok] by blast
  with ok CBytes show ?thesis by (simp add: simulates_def bnd_Inr shown_def ret_def)
qed (use c in simp_all)

lemma call_run:
  assumes "buf_ok b h" "2 * Cap b + int (call_size c) \<le> 9223372036854775807" "call_ok c"
  shows "simulates (fst (spec c (content b h))) (snd (spec c (content b h))) (call_size c) b h (call c (b, h))"
  using call_writes [OF assms] call_reads [OF assms(1), of c] call_others [OF assms(1,2)]
  by (cases c) simp_all

lemma spec_size: "length (snd (spec c xs)) \<le> length xs + call_size c"
  by (cases c) (use rune_bytes_length in auto)

lemma run_simulates:
  assumes "buf_ok b h" "Cap b \<le> K" "80 + 4 * int N \<le> K" "2 * K + int N \<le> 9223372036854775807"
    "length (content b h) + sum_list (map call_size cs) \<le> N" "\<forall>c\<in>set cs. call_ok c"
  shows "\<exists>b' h'. run cs (b, h) = (fst (spec_run cs (content b h)), (b', h')) \<and> buf_ok b' h' \<and>
    content b' h' = snd (spec_run cs (content b h)) \<and> frame b h b' h'"
  using assms
proof (induction cs arbitrary: b h)
  case (Cons c cs)
  have n: "call_size c \<le> N" "length (content b h) + call_size c \<le> N" using Cons.prems(5) by auto
  obtain x0 b1 h1 where s: "call c (b, h) = (x0, (b1, h1))" "result x0 = fst (spec c (content b h))" "buf_ok b1 h1"
    "content b1 h1 = snd (spec c (content b h))" "frame b h b1 h1"
    "Cap b1 \<le> max (Cap b) (80 + 4 * (int (length (content b h)) + int (call_size c)))"
    using call_run [OF Cons.prems(1), of c] Cons.prems(2,4,6) n(1) by (cases "call c (b, h)") (auto simp: simulates_def)
  have "Cap b1 \<le> K" using s(6) Cons.prems(2,3) n(2) by (auto simp: max_def split: if_splits)
  moreover have "length (content b1 h1) + sum_list (map call_size cs) \<le> N"
    using spec_size [of c "content b h"] Cons.prems(5) by (simp add: s(4))
  ultimately obtain b' h' where r: "run cs (b1, h1) = (fst (spec_run cs (content b1 h1)), (b', h'))" "buf_ok b' h'"
    "content b' h' = snd (spec_run cs (content b1 h1))" "frame b1 h1 b' h'"
    using Cons.IH [OF s(3)] Cons.prems(3,4,6) by auto
  with s frame_trans [OF s(5) r(4)] show ?case
    by (intro exI [of _ b'] exI [of _ h']) (simp add: split_beta)
qed simp

subsection \<open>The properties\<close>

text \<open>Well-formed, and within the memory of a machine after \<open>n\<close> more bytes: ErrTooLarge cannot
  be raised before 2^60 bytes.\<close>

definition room :: "nat \<Rightarrow> bstate \<Rightarrow> bool" where
  "room n w \<longleftrightarrow> buf_ok (fst w) (snd w) \<and> Cap (fst w) \<le> 2 ^ 60 \<and>
     80 + 4 * (int (length (content (fst w) (snd w))) + int n) \<le> 2 ^ 60"


definition heap0 :: bheap where "heap0 = \<lparr>buffers = (\<lambda>_. []), next_buf = 0\<rparr>"


text \<open>The interface of a queue of bytes: \<open>ok n q\<close> is a well-formed queue with room for \<open>n\<close> bytes.\<close>

locale byte_queue =
  fixes ok :: "nat \<Rightarrow> 'q \<Rightarrow> bool" and bytes :: "'q \<Rightarrow> byte list"
    and put :: "byte list \<Rightarrow> 'q \<Rightarrow> 'q" and get :: "nat \<Rightarrow> 'q \<Rightarrow> byte list \<times> 'q"
  assumes less_room: "ok (n + m) q \<Longrightarrow> ok n q"
    and put_ok: "ok (length xs + n) q \<Longrightarrow> ok n (put xs q)"
    and put_bytes: "ok (length xs) q \<Longrightarrow> bytes (put xs q) = bytes q @ xs"
    and get_ok: "ok n q \<Longrightarrow> ok n (snd (get k q))"
    and get_bytes: "ok 0 q \<Longrightarrow> get k q = (xs, q') \<Longrightarrow> xs = take k (bytes q) \<and> bytes q' = drop k (bytes q)"
begin

lemma puts_ok: "ok (length (concat xss) + n) q \<Longrightarrow> ok n (fold put xss q)"
  by (induction xss arbitrary: q) (simp_all add: put_ok add.assoc)

lemma puts_bytes: "ok (length (concat xss)) q \<Longrightarrow> bytes (fold put xss q) = bytes q @ concat xss"
proof (induction xss arbitrary: q)
  case (Cons xs xss)
  then have "ok (length (concat xss)) (put xs q)" by (intro put_ok) simp
  with Cons less_room [of "length xs" "length (concat xss)" q] show ?case by (simp add: put_bytes)
qed simp

text \<open>What was written in pieces is read in other pieces.\<close>

lemma pieces:
  assumes "ok (length (concat xss)) q" "bytes q = []" "get n (fold put xss q) = (ys, q1)" "get m q1 = (zs, q2)"
  shows "ys @ zs = take (n + m) (concat xss) \<and> bytes q2 = drop (n + m) (concat xss)"
proof -
  have o: "ok 0 (fold put xss q)" using puts_ok [of xss 0 q] assms(1) by simp
  then have "ok 0 q1" using get_ok [OF o, of n] assms(3) by simp
  with get_bytes [OF o assms(3)] get_bytes [of q1 m zs q2] assms(4) puts_bytes [OF assms(1)] assms(2)
  show ?thesis by (simp add: take_add) (simp add: add.commute)
qed

end

definition q_put :: "byte list \<Rightarrow> bstate \<Rightarrow> bstate" where "q_put xs w = snd (call (CWrite xs) w)"

definition q_get :: "nat \<Rightarrow> bstate \<Rightarrow> byte list \<times> bstate" where
  "q_get n w = (case call (CRead n) w of (r, w1) \<Rightarrow> (case result r of RBytes xs _ \<Rightarrow> xs | _ \<Rightarrow> [], w1))"

lemma call_room:
  assumes "room (call_size c + n) w" "call_ok c"
  shows "room n (snd (call c w))" "result (fst (call c w)) = fst (spec c (content (fst w) (snd w)))"
    "content (fst (snd (call c w))) (snd (snd (call c w))) = snd (spec c (content (fst w) (snd w)))"
proof -
  obtain b h where w: "w = (b, h)" by fastforce
  have "simulates (fst (spec c (content b h))) (snd (spec c (content b h))) (call_size c) b h (call c (b, h))"
    using assms w by (intro call_run) (auto simp: room_def)
  then show "room n (snd (call c w))" "result (fst (call c w)) = fst (spec c (content (fst w) (snd w)))"
    "content (fst (snd (call c w))) (snd (snd (call c w))) = snd (spec c (content (fst w) (snd w)))"
    using assms(1) spec_size [of c "content b h"] unfolding w room_def simulates_def
    by (auto simp: max_def split: if_splits)
qed

interpretation bq: byte_queue room "\<lambda>w. content (fst w) (snd w)" q_put q_get
proof unfold_locales
  fix n m w assume "room (n + m) w" then show "room n w" by (auto simp: room_def)
next
  fix xs :: "byte list" and n w assume "room (length xs + n) w"
  then show "room n (q_put xs w)" using call_room(1) [of "CWrite xs" n w] by (simp add: q_put_def)
next
  fix xs :: "byte list" and w assume "room (length xs) w"
  then show "content (fst (q_put xs w)) (snd (q_put xs w)) = content (fst w) (snd w) @ xs"
    using call_room(3) [of "CWrite xs" 0 w] by (simp add: q_put_def)
next
  fix n k w assume "room n w"
  then show "room n (snd (q_get k w))" using call_room(1) [of "CRead k" n w] by (simp add: q_get_def split_beta)
next
  fix w k xs w' assume "room 0 w" "q_get k w = (xs, w')"
  then show "xs = take k (content (fst w) (snd w)) \<and> content (fst w') (snd w') = drop k (content (fst w) (snd w))"
    using call_room(2,3) [of "CRead k" 0 w] by (auto simp: q_get_def split_beta)
qed

end
