(* ===== verification/GsReader.thy ===== *)
theory GsReader
  imports GsBuffer
begin

section \<open>bytes.Reader, and copying through readers and writers (gs/bytes/reader.gs.ts)\<close>

text \<open>
  A Reader is a byte slice with a position (which \<open>Seek\<close> may put behind its end) and the
  position of the last rune. The second part states what a client may expect of an io.Reader
  and of an io.Writer, as locales; Reader and Buffer are instances, and \<open>Buffer.ReadFrom\<close>,
  \<open>Buffer.WriteTo\<close> and \<open>Reader.WriteTo\<close> move every byte between them. Positions and offsets
  are integers: \<open>Seek\<close> converts a bigint to a double, exact below 2^53.
\<close>

record reader =
  rs :: "bslice option"
  ri :: int
  prevRune :: int

definition NewReader :: "bslice option \<Rightarrow> bheap \<Rightarrow> reader \<times> bheap" where
  "NewReader b h =
     (case b of Some s \<Rightarrow> (\<lparr>rs = Some s, ri = 0, prevRune = -1\<rparr>, h)
      | None \<Rightarrow> (case new_buffer [] h of (u, h1) \<Rightarrow>
          (\<lparr>rs = Some \<lparr>b_arr = u, b_meta = None\<rparr>, ri = 0, prevRune = -1\<rparr>, h1)))"

definition Reader_Len :: "reader \<Rightarrow> int" where
  "Reader_Len r = (if slen0 (rs r) \<le> ri r then 0 else slen0 (rs r) - ri r)"

definition Reader_Size :: "reader \<Rightarrow> int" where "Reader_Size r = slen0 (rs r)"

definition Reader_Read :: "bslice option \<Rightarrow> (reader, int \<times> io_error option) meth" where
  "Reader_Read b = bnd receiver (\<lambda>r.
     if slen0 (rs r) \<le> ri r then ret (0, Some EOF)
     else bnd (upd (\<lambda>r. r\<lparr>prevRune := -1\<rparr>)) (\<lambda>_.
       bnd (from_res (slice0 (rs r) (Some (ri r)) None)) (\<lambda>s.
         bnd (on_heap (copy0 b s)) (\<lambda>n.
           bnd (upd (\<lambda>r. r\<lparr>ri := ri r + int n\<rparr>)) (\<lambda>_. ret (int n, None))))))"

definition ReadAt :: "bslice option \<Rightarrow> int \<Rightarrow> (reader, int \<times> io_error option) meth" where
  "ReadAt b pos = bnd receiver (\<lambda>r.
     if pos < 0 then ret (0, Some (ErrorText ''bytes.Reader.ReadAt: negative offset''))
     else if slen0 (rs r) \<le> pos then ret (0, Some EOF)
     else bnd (from_res (slice0 (rs r) (Some pos) None)) (\<lambda>s.
       bnd (on_heap (copy0 b s)) (\<lambda>n. ret (int n, if int n < slen0 b then Some EOF else None))))"

definition Reader_ReadByte :: "(reader, byte \<times> io_error option) meth" where
  "Reader_ReadByte = bnd (upd (\<lambda>r. r\<lparr>prevRune := -1\<rparr>)) (\<lambda>_. bnd receiver (\<lambda>r.
     if slen0 (rs r) \<le> ri r then ret (0, Some EOF)
     else bnd the_heap (\<lambda>h. let c = sbytes0 h (rs r) ! nat (ri r) in
       bnd (upd (\<lambda>r. r\<lparr>ri := ri r + 1\<rparr>)) (\<lambda>_. ret (c, None)))))"

definition Reader_UnreadByte :: "(reader, io_error option) meth" where
  "Reader_UnreadByte = bnd receiver (\<lambda>r.
     if ri r \<le> 0 then ret (Some (ErrorText ''bytes.Reader.UnreadByte: at beginning of slice''))
     else bnd (upd (\<lambda>r. r\<lparr>prevRune := -1, ri := ri r - 1\<rparr>)) (\<lambda>_. ret None))"

definition Reader_ReadRune :: "(reader, int \<times> int \<times> io_error option) meth" where
  "Reader_ReadRune = bnd receiver (\<lambda>r.
     if slen0 (rs r) \<le> ri r then bnd (upd (\<lambda>r. r\<lparr>prevRune := -1\<rparr>)) (\<lambda>_. ret (0, 0, Some EOF))
     else bnd (upd (\<lambda>r. r\<lparr>prevRune := ri r\<rparr>)) (\<lambda>_. bnd the_heap (\<lambda>h.
       let c = unat (sbytes0 h (rs r) ! nat (ri r)) in
       if c < 0x80 then bnd (upd (\<lambda>r. r\<lparr>ri := ri r + 1\<rparr>)) (\<lambda>_. ret (int c, 1, None))
       else bnd (from_res (slice0 (rs r) (Some (ri r)) None)) (\<lambda>s.
         let (ch, size) = DecodeRune (byte_nats (sbytes0 h s)) in
         bnd (upd (\<lambda>r. r\<lparr>ri := ri r + int size\<rparr>)) (\<lambda>_. ret (int ch, int size, None))))))"

definition Reader_UnreadRune :: "(reader, io_error option) meth" where
  "Reader_UnreadRune = bnd receiver (\<lambda>r.
     if ri r \<le> 0 then ret (Some (ErrorText ''bytes.Reader.UnreadRune: at beginning of slice''))
     else if prevRune r < 0 then ret (Some (ErrorText ''bytes.Reader.UnreadRune: previous operation was not ReadRune''))
     else bnd (upd (\<lambda>r. r\<lparr>ri := prevRune r, prevRune := -1\<rparr>)) (\<lambda>_. ret None))"

text \<open>\<open>whence\<close> is 0 for the start, 1 for the current position, 2 for the end.\<close>

definition Seek :: "int \<Rightarrow> int \<Rightarrow> (reader, int \<times> io_error option) meth" where
  "Seek offset whence = bnd (upd (\<lambda>r. r\<lparr>prevRune := -1\<rparr>)) (\<lambda>_. bnd receiver (\<lambda>r.
     if whence \<notin> {0, 1, 2} then ret (0, Some (ErrorText ''bytes.Reader.Seek: invalid whence''))
     else let abs = (if whence = 0 then offset else if whence = 1 then ri r + offset else slen0 (rs r) + offset) in
       if abs < 0 then ret (0, Some (ErrorText ''bytes.Reader.Seek: negative position''))
       else bnd (upd (\<lambda>r. r\<lparr>ri := abs\<rparr>)) (\<lambda>_. ret (abs, None))))"

definition Reader_WriteTo ::
  "'w endpoint \<Rightarrow> 'w \<Rightarrow> reader \<times> bheap \<Rightarrow> (buf_panic + int \<times> io_error option) \<times> 'w \<times> reader \<times> bheap" where
  "Reader_WriteTo wr w r0 =
     (case r0 of (r1, h) \<Rightarrow> let r = r1\<lparr>prevRune := -1\<rparr> in
      if slen0 (rs r) \<le> ri r then (Inr (0, None), w, (r, h))
      else (case from_res (slice0 (rs r) (Some (ri r)) None) (r, h) of
          (Inl e, x) \<Rightarrow> (Inl e, w, x)
        | (Inr b, _) \<Rightarrow> (case bytesToUint8Array b h of (a, h1) \<Rightarrow>
            (case wr a (w, h1) of
               (Inl e, w1, h2) \<Rightarrow> (Inl e, w1, (r, h2))
             | (Inr (m, err), w1, h2) \<Rightarrow>
                 if slen0 b < m then (Inl (PanicText ''bytes.Reader.WriteTo: invalid Write count''), w1, (r, h2))
                 else (Inr (m, if m \<noteq> slen0 b \<and> err = None then Some ErrShortWrite else err), w1,
                       (r\<lparr>ri := ri r + m\<rparr>, h2))))))"

definition Reader_Reset :: "bslice option \<Rightarrow> (reader, unit) meth" where
  "Reader_Reset b = upd (\<lambda>r. r\<lparr>rs := b, ri := 0, prevRune := -1\<rparr>)"

subsection \<open>What an io.Reader promises, and ReadFrom\<close>

text \<open>A reader over a finite input \<open>left\<close>: a read of a non-empty array takes some bytes or
  reports the end, changes nothing but that array, and uses only the arrays in \<open>uses\<close>.\<close>

locale byte_reader =
  fixes rd :: "'r endpoint" and rok :: "'r \<Rightarrow> bheap \<Rightarrow> bool" and left :: "'r \<Rightarrow> bheap \<Rightarrow> byte list"
    and uses :: "'r \<Rightarrow> nat \<Rightarrow> bool"
  assumes uses_old: "rok r h \<Longrightarrow> uses r c \<Longrightarrow> c < next_buf h"
    and kept: "rok r h \<Longrightarrow> next_buf h \<le> next_buf h' \<Longrightarrow> (\<And>c. uses r c \<Longrightarrow> buffers h' c = buffers h c) \<Longrightarrow>
      rok r h' \<and> left r h' = left r h"
    and fills: "rok r h \<Longrightarrow> bslice_ok h a \<Longrightarrow> 0 < blen a \<Longrightarrow> \<not> uses r (u_buf (bback a)) \<Longrightarrow>
      \<exists>m e r' h'. rd a (r, h) = (Inr (int m, e), (r', h')) \<and> m \<le> blen a \<and> m \<le> length (left r h) \<and>
        take m (bytes_of h' a) = take m (left r h) \<and> buf_changes (u_buf (bback a)) {bstart a..<bstart a + m} h h' \<and>
        rok r' h' \<and> uses r' = uses r \<and> left r' h' = drop m (left r h) \<and>
        (e = None \<and> 0 < m \<or> e = Some EOF \<and> left r' h' = [])"
begin

definition step_ok :: "'r \<Rightarrow> buffer \<Rightarrow> bheap \<Rightarrow> nat \<Rightarrow> io_error option \<Rightarrow> 'r \<Rightarrow> buffer \<Rightarrow> bheap \<Rightarrow> bool" where
  "step_ok r b h m e r' b' h' \<longleftrightarrow> m \<le> length (left r h) \<and> buf_ok b' h' \<and>
     content b' h' = content b h @ take m (left r h) \<and> frame b h b' h' \<and>
     rok r' h' \<and> uses r' = uses r \<and> left r' h' = drop m (left r h) \<and>
     (e = None \<and> 0 < m \<or> e = Some EOF \<and> left r' h' = []) \<and>
     Cap b' \<le> max (Cap b) (64 + 4 * (int (length (content b h)) + 512))"

lemma read_step_run:
  assumes r: "rok r h" and ok: "buf_ok b h" and room: "2 * Cap b + 512 \<le> 9223372036854775807"
    and apart: "\<And>c. uses r c \<Longrightarrow> \<not> owns b c"
  shows "\<exists>m e r' b' h'. read_step rd r (b, h) = (Inr (int m, e), r', (b', h')) \<and> step_ok r b h m e r' b' h'"
proof -
  obtain i w where iw: "grow 512 (b, h) = (Inr i, w)" "reserved 512 b h i w"
    using grow_run [OF ok, of 512] room by auto
  obtain s j k l h1 where s: "i = int j" "w = (\<lparr>buf = Some s, off = int k, lastRead = l\<rparr>, h1)" "bslice_ok h1 s"
    "blen s = j + 512" "k \<le> j" "drop k (take j (bytes_of h1 s)) = content b h"
    "frame b h \<lparr>buf = Some s, off = int k, lastRead = l\<rparr> h1"
    "int (bcap s) \<le> max (Cap b) (64 + 4 * (int (length (content b h)) + int 512))"
    using iw(2) unfolding reserved_def by blast
  have sc: "j + 512 \<le> bcap s" using s(3,4) by (simp add: bslice_ok_def)
  then have j: "j \<le> bcap s" by simp
  let ?s = "sub_slice s 0 j"
  note t = sub_slice(1-5) [OF s(3) _ j, of 0, simplified]
  let ?p = "sub_slice ?s j (bcap s)"
  note p = sub_slice(1-5) [OF t(1), of j "bcap s", unfolded t(3), OF j order_refl]
  note pp = plain_ok [OF p(1)]
  let ?b1 = "\<lparr>buf = Some ?s, off = int k, lastRead = l\<rparr>"
  have rr: "read_room (b, h) = (Inr (int j, plain ?p), (?b1, h1))"
    using iw(1) slice0_to [OF j] slice0_between [of j "bcap s" ?s] j t(3)
    by (simp add: read_room_def s(1,2) bnd_Inr) (simp add: bnd_def from_res_def set_buf_def upd_def on_heap_def ret_def)
  have ub: "u_buf (bback (plain ?p)) = u_buf (bback s)" "bstart (plain ?p) = bstart s + j" "blen (plain ?p) = bcap s - j"
    using p t pp by simp_all
  have un: "\<not> uses r (u_buf (bback (plain ?p)))"
    using s(7) apart uses_old [OF r] unfolding ub frame_def by (auto dest: leD)
  have "buffers h1 c = buffers h c" if "uses r c" for c
    using s(7) apart [OF that] uses_old [OF r that] by (simp add: frame_def)
  moreover have "next_buf h \<le> next_buf h1" using s(7) by (simp add: frame_def)
  ultimately have r1: "rok r h1" "left r h1 = left r h" using kept [OF r] by blast+
  then obtain m e r' h2 where f: "rd (plain ?p) (r, h1) = (Inr (int m, e), (r', h2))" "m \<le> bcap s - j"
    "m \<le> length (left r h)" "take m (bytes_of h2 ?p) = take m (left r h)"
    "buf_changes (u_buf (bback s)) {bstart s + j..<bstart s + j + m} h1 h2"
    "rok r' h2" "uses r' = uses r" "left r' h2 = drop m (left r h)" "e = None \<and> 0 < m \<or> e = Some EOF \<and> left r' h2 = []"
    using fills [OF r1(1) pp(1) _ un, unfolded ub r1(2) plain_simps(2)] sc by auto
  have ok2: "bslice_ok h2 s" "bslice_ok h2 ?s" using buf_changes_ok [OF f(5)] s(3) t(1) by blast+
  have jm: "j + m \<le> bcap s" using f(2) j by simp
  let ?t = "sub_slice ?s 0 (j + m)"
  note u = sub_slice [OF ok2(2), of 0 "j + m", unfolded t(3), OF le0 jm, simplified]
  have fit: "bstart s + bcap s \<le> length (buffers h1 (u_buf (bback s)))" "u_buf (bback s) < next_buf h1"
    using s(3) by (auto simp: bslice_ok_def u8_ok_def bstart_def)
  have w2: "bwindow h2 ?s = bwindow h2 s" by (simp add: bwindow_def t)
  have "take j (bwindow h2 s) = take j (bwindow h1 s)"
    using f(5) fit j length_bwindow [OF ok2(1)] length_bwindow [OF s(3)]
    by (auto simp: bwindow_def buf_changes_def intro!: nth_equalityI)
  also have "\<dots> = take j (bytes_of h1 s)" using bytes_of_window [OF s(3)] s(4) by (simp add: min_def)
  finally have front: "take j (bwindow h2 s) = take j (bytes_of h1 s)" .
  have "bytes_of h2 ?p = drop j (bwindow h2 s)"
    using sub_slice(6) [OF ok2(2), of j "bcap s", unfolded t(3), OF j order_refl] length_bwindow [OF ok2(1)] by (simp add: w2)
  then have behind: "take m (drop j (bwindow h2 s)) = take m (left r h)" using f(4) by simp
  have "bytes_of h2 ?t = take j (bwindow h2 s) @ take m (drop j (bwindow h2 s))"
    by (simp add: u(6) w2 take_add)
  then have "content \<lparr>buf = Some ?t, off = int k, lastRead = l\<rparr> h2 = content b h @ take m (left r h)"
    using s(3-6) length_bytes_of [OF s(3)] unfolding content_simps by (simp add: front behind)
  moreover have "read_step rd r (b, h) = (Inr (int m, e), r', (\<lparr>buf = Some ?t, off = int k, lastRead = l\<rparr>, h2))"
    using rr f(1) slice0_to [of "j + m" ?s] jm t(3)
    by (simp add: read_step_def read_done_def from_res_def bnd_def set_buf_def upd_def receiver_def)
  moreover have "frame b h \<lparr>buf = Some ?t, off = int k, lastRead = l\<rparr> h2"
  proof -
    have "frame \<lparr>buf = Some s, off = int k, lastRead = l\<rparr> h1 \<lparr>buf = Some ?t, off = int k, lastRead = l\<rparr> h2"
      using frame_changes [OF f(5), of "\<lparr>buf = Some s, off = int k, lastRead = l\<rparr>"] by (simp add: frame_def u(4) t(4))
    with s(7) show ?thesis by (rule frame_trans)
  qed
  moreover have "buf_ok \<lparr>buf = Some ?t, off = int k, lastRead = l\<rparr> h2" using u(1,2) s(5) by simp
  moreover have "Cap \<lparr>buf = Some ?t, off = int k, lastRead = l\<rparr> \<le> max (Cap b) (64 + 4 * (int (length (content b h)) + 512))"
    using s(8) by (simp add: Cap_def u(3) t(3))
  ultimately show ?thesis unfolding step_ok_def using f(3,6-9) by blast
qed

lemma read_loop_run:
  assumes "rok r h" "buf_ok b h" "Cap b \<le> K" "64 + 4 * (int (length (content b h)) + int (length (left r h)) + 512) \<le> K"
    and "2 * K + 512 \<le> 9223372036854775807" "\<And>c. uses r c \<Longrightarrow> \<not> owns b c" "length (left r h) < fuel"
  shows "\<exists>r' b' h'. read_loop fuel rd n r (b, h) = Some (Inr (n + int (length (left r h)), None), r', (b', h')) \<and>
    buf_ok b' h' \<and> content b' h' = content b h @ left r h \<and> frame b h b' h' \<and> rok r' h' \<and> left r' h' = []"
  using assms
proof (induction fuel arbitrary: r b h n)
  case (Suc fuel)
  obtain m e r1 b1 h1 where st: "read_step rd r (b, h) = (Inr (int m, e), r1, (b1, h1))" "step_ok r b h m e r1 b1 h1"
    using read_step_run [OF Suc.prems(1,2)] Suc.prems(3,5,6) by fastforce
  note o = st(2) [unfolded step_ok_def]
  show ?case
  proof (cases "e = Some EOF")
    case True
    with o have "m = length (left r h)" by auto
    with True o st(1) show ?thesis by simp
  next
    case False
    with o have m: "e = None" "0 < m" by auto
    have "owns b1 c \<Longrightarrow> owns b c \<or> next_buf h \<le> c" for c using o by (auto simp: frame_def)
    then have "\<not> owns b1 c" if "uses r1 c" for c
      using that o Suc.prems(6) uses_old [OF Suc.prems(1)] by (metis leD)
    moreover have "Cap b1 \<le> K" using o Suc.prems(3,4) by (auto simp: max_def split: if_splits)
    moreover have "length (left r1 h1) < fuel" "int (length (content b1 h1)) + int (length (left r1 h1)) =
        int (length (content b h)) + int (length (left r h))"
      using o m(2) Suc.prems(7) by auto
    ultimately obtain r' b' h' where "read_loop fuel rd (n + int m) r1 (b1, h1) =
        Some (Inr (n + int m + int (length (left r1 h1)), None), r', (b', h'))"
      "buf_ok b' h'" "content b' h' = content b1 h1 @ left r1 h1" "frame b1 h1 b' h'" "rok r' h'" "left r' h' = []"
      using Suc.IH [of r1 h1 b1 "n + int m"] o Suc.prems(4,5) by (metis (no_types, lifting))
    moreover have "frame b h b' h'" using frame_trans o calculation(4) by blast
    ultimately show ?thesis using st(1) m o by simp
  qed
qed simp

text \<open>\<open>ReadFrom\<close> returns, with enough fuel, when the reader has shown all its input, and has
  appended all of it.\<close>

lemma ReadFrom_all:
  assumes "rok r h" "room (length (left r h) + 512) (b, h)" "\<And>c. uses r c \<Longrightarrow> \<not> owns b c" "length (left r h) < fuel"
  shows "\<exists>r' b' h'. ReadFrom fuel rd r (b, h) = Some (Inr (int (length (left r h)), None), r', (b', h')) \<and>
    buf_ok b' h' \<and> content b' h' = content b h @ left r h \<and> frame b h b' h' \<and> rok r' h' \<and> left r' h' = []"
proof -
  let ?b = "b\<lparr>lastRead := 0\<rparr>"
  have own: "owns ?b = owns b" by (simp add: owns_def fun_eq_iff)
  have fr: "frame ?b h = frame b h" by (simp add: frame_def fun_eq_iff own)
  have "Cap ?b \<le> 2 ^ 60" "64 + 4 * (int (length (content ?b h)) + int (length (left r h)) + 512) \<le> 2 ^ 60" "buf_ok ?b h"
    using assms(2) by (auto simp: room_def clear_lastRead)
  from read_loop_run [OF assms(1) this(3,1,2) _ _ assms(4), of 0] assms(3) show ?thesis
    by (simp add: ReadFrom_def clear_lastRead own fr)
qed

end

text \<open>\<open>bytes.Reader\<close> keeps the promise of an io.Reader.\<close>

definition unread :: "reader \<Rightarrow> bheap \<Rightarrow> byte list" where
  "unread r h = drop (nat (ri r)) (sbytes0 h (rs r))"

definition reader_ok :: "reader \<Rightarrow> bheap \<Rightarrow> bool" where
  "reader_ok r h \<longleftrightarrow> 0 \<le> ri r \<and> (case rs r of None \<Rightarrow> True | Some s \<Rightarrow> bslice_ok h s)"

definition reads_array :: "reader \<Rightarrow> nat \<Rightarrow> bool" where
  "reads_array r c \<longleftrightarrow> (case rs r of None \<Rightarrow> False | Some s \<Rightarrow> u_buf (bback s) = c)"

definition reader_endpoint :: "reader endpoint" where "reader_endpoint a = Reader_Read (Some a)"

lemma slice_kept:
  assumes "bslice_ok h s" "next_buf h \<le> next_buf h'" "buffers h' (u_buf (bback s)) = buffers h (u_buf (bback s))"
  shows "bslice_ok h' s" "bytes_of h' s = bytes_of h s"
  using assms bslice_ok_arr(1) [OF assms(1)] by (auto simp: bslice_ok_def u8_ok_def bytes_of_def u8_bytes_def)

lemma Reader_Read_run:
  assumes r: "reader_ok r h" and p: "bslice_ok h p" "\<not> reads_array r (u_buf (bback p))"
  defines "m \<equiv> min (blen p) (length (unread r h))"
  shows "\<exists>r' h'. Reader_Read (Some p) (r, h) = (Inr (int m, if unread r h = [] then Some EOF else None), (r', h')) \<and>
    take m (bytes_of h' p) = take m (unread r h) \<and> buf_changes (u_buf (bback p)) {bstart p..<bstart p + m} h h' \<and>
    reader_ok r' h' \<and> rs r' = rs r \<and> ri r' = ri r + int m \<and> unread r' h' = drop m (unread r h)"
proof (cases "unread r h = []")
  case True
  then have "slen0 (rs r) \<le> ri r" using r length_bytes_of
    by (cases "rs r") (auto simp: unread_def reader_ok_def)
  moreover have "buf_changes (u_buf (bback p)) {} h h" by (simp add: buf_changes_def)
  ultimately show ?thesis using True r by (intro exI [of _ r] exI [of _ h]) (simp add: Reader_Read_def ret_def m_def)
next
  case False
  then obtain s where s: "rs r = Some s" by (cases "rs r") (auto simp: unread_def)
  obtain k where k: "ri r = int k" using r nonneg_int_cases by (auto simp: reader_ok_def)
  have ok: "bslice_ok h s" using r by (simp add: reader_ok_def s)
  have u: "unread r h = drop k (bytes_of h s)" by (simp add: unread_def s k)
  then have kl: "k < blen s" using False length_bytes_of [OF ok] by simp
  have cap: "blen s \<le> bcap s" using ok by (simp add: bslice_ok_def)
  let ?t = "sub_slice s k (blen s)"
  have t: "bslice_ok h ?t" "blen ?t = blen s - k" "bytes_of h ?t = unread r h"
    using sub_slice(1,2) [OF ok less_imp_le [OF kl] cap] sub_slice_within [OF ok less_imp_le [OF kl] order_refl]
      length_bytes_of [OF ok] u by simp_all
  have lu: "length (unread r h) = blen s - k" using u length_bytes_of [OF ok] by simp
  have m: "min (blen p) (blen ?t) = m" by (simp add: m_def t(2) lu)
  obtain h' where h': "byte_copy p ?t h = Inr (m, h')"
    "bytes_of h' p = take (blen p) (take m (unread r h) @ drop m (bytes_of h p))"
    "buf_changes (u_buf (bback p)) {bstart p..<bstart p + m} h h'"
    using byte_copy_spec [OF p(1) t(1)] unfolding m t(3) by blast
  let ?r = "r\<lparr>prevRune := -1, ri := int (k + m)\<rparr>"
  have run: "Reader_Read (Some p) (r, h) = (Inr (int m, None), (?r, h'))"
    using kl h'(1) slice0_from [OF less_imp_le [OF kl] ok]
    by (simp add: Reader_Read_def s k from_res_def bnd_def on_heap_def copy0_def ret_def upd_def receiver_def)
  have "u_buf (bback s) \<noteq> u_buf (bback p)" using p(2) by (simp add: reads_array_def s)
  moreover have "u_buf (bback s) < next_buf h" using ok by (simp add: bslice_ok_def u8_ok_def)
  ultimately have "buffers h' (u_buf (bback s)) = buffers h (u_buf (bback s))" "next_buf h \<le> next_buf h'"
    using h'(3) by (auto simp: buf_changes_def intro!: nth_equalityI)
  then have s2: "bslice_ok h' s" "bytes_of h' s = bytes_of h s" using slice_kept [OF ok] by blast+
  have "take m (bytes_of h' p) = take m (unread r h)" unfolding h'(2) by (simp add: m_def min_def)
  then show ?thesis
    using False run h'(3) s2 by (intro exI [of _ ?r] exI [of _ h'])
      (simp add: reader_ok_def s k unread_def add.commute nat_add_distrib)
qed

interpretation rr: byte_reader reader_endpoint reader_ok unread reads_array
proof unfold_locales
  fix r h c assume "reader_ok r h" "reads_array r c"
  then show "c < next_buf h" by (auto simp: reader_ok_def reads_array_def bslice_ok_def u8_ok_def split: option.splits)
next
  fix r and h h' :: bheap
  assume a: "reader_ok r h" "next_buf h \<le> next_buf h'" "\<And>c. reads_array r c \<Longrightarrow> buffers h' c = buffers h c"
  show "reader_ok r h' \<and> unread r h' = unread r h"
  proof (cases "rs r")
    case (Some s)
    have "bslice_ok h s" using a(1) Some by (simp add: reader_ok_def)
    from slice_kept [OF this a(2)] a(1,3) Some show ?thesis by (simp add: reader_ok_def unread_def reads_array_def)
  qed (use a(1) in \<open>simp add: reader_ok_def unread_def\<close>)
next
  fix r h a
  assume a: "reader_ok r h" "bslice_ok h a" "0 < blen a" "\<not> reads_array r (u_buf (bback a))"
  let ?m = "min (blen a) (length (unread r h))"
  obtain r' h' where r: "Reader_Read (Some a) (r, h) = (Inr (int ?m, if unread r h = [] then Some EOF else None), (r', h'))"
    "take ?m (bytes_of h' a) = take ?m (unread r h)" "buf_changes (u_buf (bback a)) {bstart a..<bstart a + ?m} h h'"
    "reader_ok r' h'" "rs r' = rs r" "unread r' h' = drop ?m (unread r h)"
    using Reader_Read_run [OF a(1,2,4)] by blast
  show "\<exists>m e r' h'. reader_endpoint a (r, h) = (Inr (int m, e), (r', h')) \<and> m \<le> blen a \<and> m \<le> length (unread r h) \<and>
      take m (bytes_of h' a) = take m (unread r h) \<and> buf_changes (u_buf (bback a)) {bstart a..<bstart a + m} h h' \<and>
      reader_ok r' h' \<and> reads_array r' = reads_array r \<and> unread r' h' = drop m (unread r h) \<and>
      (e = None \<and> 0 < m \<or> e = Some EOF \<and> unread r' h' = [])"
    using r a(3) by (intro exI [of _ ?m] exI [of _ "if unread r h = [] then Some EOF else None"] exI [of _ r'] exI [of _ h'])
      (auto simp: reader_endpoint_def reads_array_def fun_eq_iff)
qed

subsection \<open>What an io.Writer promises, and WriteTo\<close>

text \<open>A writer that takes all: \<open>wok n\<close> says it has room for \<open>n\<close> bytes; it writes no array but
  those in \<open>owned\<close> and new ones.\<close>

locale byte_writer =
  fixes wr :: "'w endpoint" and wok :: "nat \<Rightarrow> 'w \<Rightarrow> bheap \<Rightarrow> bool" and written :: "'w \<Rightarrow> bheap \<Rightarrow> byte list"
    and owned :: "'w \<Rightarrow> nat \<Rightarrow> bool"
  assumes takes: "wok (blen a) w h \<Longrightarrow> bslice_ok h a \<Longrightarrow> \<not> owned w (u_buf (bback a)) \<Longrightarrow>
      \<exists>w' h'. wr a (w, h) = (Inr (int (blen a), None), (w', h')) \<and> written w' h' = written w h @ bytes_of h a \<and>
        next_buf h \<le> next_buf h' \<and>
        (\<forall>c<next_buf h. \<not> owned w c \<longrightarrow> buffers h' c = buffers h c)"
begin

text \<open>\<open>Buffer.WriteTo\<close> hands over all unread bytes and leaves the buffer empty.\<close>

lemma WriteTo_all:
  assumes ok: "buf_ok b h" and w: "wok (length (content b h)) w h" and apart: "\<And>c. owns b c \<Longrightarrow> \<not> owned w c"
    and ne: "content b h \<noteq> []"
  shows "\<exists>w' b' h'. WriteTo wr w (b, h) = (Inr (int (length (content b h)), None), w', (b', h')) \<and>
    buf_ok b' h' \<and> content b' h' = [] \<and> written w' h' = written w h @ content b h"
proof -
  obtain s k l where s: "b = \<lparr>buf = Some s, off = int k, lastRead = l\<rparr>" "bslice_ok h s" "k < blen s"
    "content b h = drop k (bytes_of h s)" "length (content b h) = blen s - k" "blen s \<le> bcap s"
    by (rule not_empty_cases [OF ok ne])
  note kb = less_imp_le [OF s(3)]
  let ?t = "sub_slice s k (blen s)"
  let ?n = "blen s - k"
  have t: "bslice_ok h ?t" "blen ?t = ?n" "u_buf (bback ?t) = u_buf (bback s)" "bytes_of h ?t = content b h"
    using sub_slice(1,2,4) [OF s(2) kb s(6)] sub_slice_within [OF s(2) kb order_refl] length_bytes_of [OF s(2)] s(4) by simp_all
  note p = plain_ok [OF t(1)]
  have bl: "blen (plain ?t) = ?n" using t(2) by simp
  have no: "\<not> owned w (u_buf (bback s))" using apart s(1) by simp
  obtain w' h' where f: "wr (plain ?t) (w, h) = (Inr (int ?n, None), (w', h'))"
    "written w' h' = written w h @ content b h" "next_buf h \<le> next_buf h'"
    "\<forall>c<next_buf h. \<not> owned w c \<longrightarrow> buffers h' c = buffers h c"
    using takes [of "plain ?t" w h, unfolded bl] w p no t s(5) by auto
  have "u_buf (bback s) < next_buf h" using s(2) by (simp add: bslice_ok_def u8_ok_def)
  then have s2: "bslice_ok h' s" using slice_kept(1) [OF s(2) f(3)] f(4) no by blast
  let ?b1 = "\<lparr>buf = Some s, off = int k, lastRead = 0\<rparr>" and ?b2 = "\<lparr>buf = Some s, off = int (blen s), lastRead = 0\<rparr>"
  have "buf_ok ?b2 h'" using s2 by (simp only: buf_ok_simps) simp
  then obtain b3 where b3: "Reset (?b2, h') = (Inr (), (b3, h'))" "buf_ok b3 h'" "content b3 h' = []"
    using Reset_run by blast
  have "bnd Bytes (\<lambda>p. on_heap (\<lambda>h. Inr (bytesToUint8Array p h))) (?b1, h) = (Inr (plain ?t), (?b1, h))"
    using slice0_from [OF kb s(2)] by (simp add: Bytes_def bnd_Inr from_res_def) (simp add: bnd_def on_heap_def)
  then have "WriteTo wr w (b, h) = (Inr (int ?n, None), w', (b3, h'))"
    using f(1) s(3) b3(1) unfolding s(1) WriteTo_def by (simp add: Len_def Let_def bnd_def ret_def)
  with b3 f(2) s(5) show ?thesis by simp
qed

lemma Reader_WriteTo_all:
  assumes ok: "reader_ok r h" and w: "wok (length (unread r h)) w h" and apart: "\<And>c. reads_array r c \<Longrightarrow> \<not> owned w c"
    and ne: "unread r h \<noteq> []"
  shows "\<exists>w' r' h'. Reader_WriteTo wr w (r, h) = (Inr (int (length (unread r h)), None), w', (r', h')) \<and>
    reader_ok r' h' \<and> unread r' h' = [] \<and> written w' h' = written w h @ unread r h"
proof -
  obtain s where s: "rs r = Some s" using ne by (cases "rs r") (auto simp: unread_def)
  obtain k where k: "ri r = int k" using ok nonneg_int_cases by (auto simp: reader_ok_def)
  have os: "bslice_ok h s" using ok by (simp add: reader_ok_def s)
  have u: "unread r h = drop k (bytes_of h s)" by (simp add: unread_def s k)
  then have kl: "k < blen s" "length (unread r h) = blen s - k" using ne length_bytes_of [OF os] by simp_all
  have cap: "blen s \<le> bcap s" using os by (simp add: bslice_ok_def)
  let ?t = "sub_slice s k (blen s)"
  let ?n = "blen s - k"
  have t: "bslice_ok h ?t" "blen ?t = ?n" "u_buf (bback ?t) = u_buf (bback s)" "bytes_of h ?t = unread r h"
    using sub_slice(1,2,4) [OF os less_imp_le [OF kl(1)] cap] sub_slice_within [OF os less_imp_le [OF kl(1)] order_refl]
      length_bytes_of [OF os] u by simp_all
  note p = plain_ok [OF t(1)]
  have bl: "blen (plain ?t) = ?n" using t(2) by simp
  have no: "\<not> owned w (u_buf (bback s))" using apart s by (simp add: reads_array_def)
  obtain w' h' where f: "wr (plain ?t) (w, h) = (Inr (int ?n, None), (w', h'))"
    "written w' h' = written w h @ unread r h" "next_buf h \<le> next_buf h'"
    "\<forall>c<next_buf h. \<not> owned w c \<longrightarrow> buffers h' c = buffers h c"
    using takes [of "plain ?t" w h, unfolded bl] w p no t kl(2) by auto
  have "u_buf (bback s) < next_buf h" using os by (simp add: bslice_ok_def u8_ok_def)
  then have s2: "bslice_ok h' s" using slice_kept(1) [OF os f(3)] f(4) no by blast
  let ?r = "r\<lparr>prevRune := -1, ri := int (blen s)\<rparr>"
  have "Reader_WriteTo wr w (r, h) = (Inr (int ?n, None), w', (?r, h'))"
    using f(1) kl(1) slice0_from [OF less_imp_le [OF kl(1)] os]
    by (simp add: Reader_WriteTo_def Let_def s k from_res_def t(2))
  then show ?thesis using s2 f(2) kl(2) length_bytes_of [OF s2]
    by (intro exI [of _ w'] exI [of _ ?r] exI [of _ h']) (simp add: reader_ok_def unread_def s)
qed

end

definition buffer_endpoint :: "buffer endpoint" where "buffer_endpoint a = Write (Some a)"

interpretation bw: byte_writer buffer_endpoint "\<lambda>n b h. room n (b, h)" content owns
proof unfold_locales
  fix a b h assume a: "room (blen a) (b, h)" "bslice_ok h a" "\<not> owns b (u_buf (bback a))"
  have "2 * Cap b + int (blen a) \<le> 9223372036854775807" "buf_ok b h" using a(1) by (auto simp: room_def)
  from Write_run [OF this(2,1) a(2,3)] obtain w where "Write (Some a) (b, h) = (Inr (int (blen a), None), w)"
    "appended (bytes_of h a) b h w" by blast
  then show "\<exists>w' h'. buffer_endpoint a (b, h) = (Inr (int (blen a), None), (w', h')) \<and>
      content w' h' = content b h @ bytes_of h a \<and> next_buf h \<le> next_buf h' \<and>
      (\<forall>c<next_buf h. \<not> owns b c \<longrightarrow> buffers h' c = buffers h c)"
    by (cases w) (auto simp: appended_def frame_def buffer_endpoint_def)
qed

subsection \<open>The properties\<close>

text \<open>Buffer.ReadFrom over a bytes.Reader returns, after at most one call of Read per unread
  byte and one more: it has appended every unread byte to the buffer, reports their number and
  no error, and the reader is at its end.\<close>

theorem read_from_reader:
  assumes "reader_ok r h" "room (length (unread r h) + 512) (b, h)" "\<forall>c. reads_array r c \<longrightarrow> \<not> owns b c"
  shows "\<exists>r' b' h'. ReadFrom (Suc (length (unread r h))) reader_endpoint r (b, h) =
      Some (Inr (int (length (unread r h)), None), r', (b', h')) \<and>
    buf_ok b' h' \<and> content b' h' = content b h @ unread r h \<and> unread r' h' = []"
  using rr.ReadFrom_all [OF assms(1,2), of "Suc (length (unread r h))"] assms(3) by blast

text \<open>Buffer.WriteTo and Reader.WriteTo into a Buffer hand over every unread byte: the
  target has them appended, the source is empty, the count is their number, and there is no
  error.\<close>

theorem write_to_buffer:
  assumes "buf_ok b h" "reader_ok r h" "room (length (content b h)) (t, h)" "room (length (unread r h)) (t, h)"
    and "\<forall>c. owns b c \<or> reads_array r c \<longrightarrow> \<not> owns t c"
  shows "(\<exists>t' b' h'. WriteTo buffer_endpoint t (b, h) = (Inr (int (length (content b h)), None), t', (b', h')) \<and>
      content b' h' = [] \<and> content t' h' = content t h @ content b h) \<and>
    (\<exists>t' r' h'. Reader_WriteTo buffer_endpoint t (r, h) = (Inr (int (length (unread r h)), None), t', (r', h')) \<and>
      unread r' h' = [] \<and> content t' h' = content t h @ unread r h)"
proof
  show "\<exists>t' b' h'. WriteTo buffer_endpoint t (b, h) = (Inr (int (length (content b h)), None), t', (b', h')) \<and>
      content b' h' = [] \<and> content t' h' = content t h @ content b h"
  proof (cases "content b h = []")
    case True
    have ok: "buf_ok (b\<lparr>lastRead := 0\<rparr>) h" using assms(1) by (simp add: clear_lastRead)
    obtain b' where "Reset (b\<lparr>lastRead := 0\<rparr>, h) = (Inr (), (b', h))" "content b' h = []"
      using Reset_run [OF ok] by blast
    moreover have "\<not> 0 < Len (b\<lparr>lastRead := 0\<rparr>)" using length_content [OF assms(1)] True by (simp add: clear_lastRead)
    ultimately show ?thesis using True by (simp add: WriteTo_def Let_def bnd_Inr ret_def)
  next
    case False
    with bw.WriteTo_all [OF assms(1,3)] assms(5) show ?thesis by blast
  qed
  show "\<exists>t' r' h'. Reader_WriteTo buffer_endpoint t (r, h) = (Inr (int (length (unread r h)), None), t', (r', h')) \<and>
      unread r' h' = [] \<and> content t' h' = content t h @ unread r h"
  proof (cases "unread r h = []")
    case True
    then have "slen0 (rs r) \<le> ri r" using assms(2) length_bytes_of
      by (cases "rs r") (auto simp: unread_def reader_ok_def)
    with True show ?thesis by (simp add: Reader_WriteTo_def Let_def unread_def)
  next
    case False
    with bw.Reader_WriteTo_all [OF assms(2,4)] assms(5) show ?thesis by blast
  qed
qed

definition heap2 :: bheap where
  "heap2 = \<lparr>buffers = (\<lambda>c. if c = 0 then [1, 2, 3] else [4, 5]), next_buf = 3\<rparr>"

definition slice_at :: "nat \<Rightarrow> nat \<Rightarrow> bslice" where
  "slice_at c n = \<lparr>b_arr = \<lparr>u_buf = c, u_off = 0, u_len = n\<rparr>, b_meta = None\<rparr>"

lemma slice_at_simps [simp]:
  "blen (slice_at c n) = n" "bcap (slice_at c n) = n" "u_buf (bback (slice_at c n)) = c"
  "bytes_of h (slice_at c n) = take n (buffers h c)"
  by (simp_all add: slice_at_def blen_def bcap_def bback_def bytes_of_def u8_bytes_def)

lemma slice_at_ok: "c < next_buf h \<Longrightarrow> n \<le> length (buffers h c) \<Longrightarrow> bslice_ok h (slice_at c n)"
  unfolding slice_at_def by (rule bslice_ok_plain) (simp add: u8_ok_def)

definition buffer2 :: buffer where "buffer2 = NewBuffer (Some (slice_at 2 2))"

definition reader2 :: reader where "reader2 = fst (NewReader (Some (slice_at 0 3)) heap2)"

lemma heap2_objects:
  "reader_ok reader2 heap2" "unread reader2 heap2 = [1, 2, 3]" "reads_array reader2 c \<longleftrightarrow> c = 0"
  "buf_ok buffer2 heap2" "content buffer2 heap2 = [4, 5]"
  "owns buffer2 c \<longleftrightarrow> c = 2"
  using slice_at_ok [of 0 heap2 3] slice_at_ok [of 2 heap2 2]
  by (auto simp: reader2_def NewReader_def reader_ok_def unread_def reads_array_def NewBuffer_def heap2_def buffer2_def numeral_3_eq_3)

theorem read_from_reader_witness:
  "\<exists>r' b' h'. ReadFrom 4 reader_endpoint reader2 (buffer2, heap2) = Some (Inr (3, None), r', (b', h')) \<and>
    content b' h' = [4, 5, 1, 2, 3]"
proof -
  have "room (length (unread reader2 heap2) + 512) (buffer2, heap2)"
    using heap2_objects by (simp add: room_def) (simp add: buffer2_def NewBuffer_def Cap_def)
  moreover have "\<forall>c. reads_array reader2 c \<longrightarrow> \<not> owns buffer2 c"
    by (simp add: heap2_objects)
  ultimately show ?thesis
    using read_from_reader [OF heap2_objects(1)] by (fastforce simp: heap2_objects eval_nat_numeral)
qed

theorem write_to_buffer_witness:
  "\<exists>t' b' h'. WriteTo buffer_endpoint (NewBuffer None) (buffer2, heap2) =
    (Inr (2, None), t', (b', h')) \<and> content t' h' = [4, 5]"
proof -
  have "room n (NewBuffer None, heap2)" if "n \<le> 9" for n
    using that by (simp add: room_def NewBuffer_def Cap_def)
  then have "room (length (content buffer2 heap2)) (NewBuffer None, heap2)"
    "room (length (unread reader2 heap2)) (NewBuffer None, heap2)" by (simp_all add: heap2_objects)
  moreover have "\<forall>c. owns buffer2 c \<or> reads_array reader2 c \<longrightarrow> \<not> owns (NewBuffer None) c"
    by (simp add: NewBuffer_def)
  ultimately have "\<exists>t' b' h'. WriteTo buffer_endpoint (NewBuffer None) (buffer2, heap2) =
      (Inr (int (length (content buffer2 heap2)), None), t', (b', h')) \<and>
    content t' h' = content (NewBuffer None) heap2 @ content buffer2 heap2"
    using write_to_buffer [OF heap2_objects(4,1), of "NewBuffer None"] by fast
  moreover have "content (NewBuffer None) heap2 = []" by (simp add: NewBuffer_def)
  ultimately show ?thesis by (simp add: heap2_objects)
qed

text \<open>Seek and the reads: the next read shows the bytes at the new position; a position behind
  the end reads as the end, a negative one is refused and leaves the position; ReadAt reads
  anywhere and moves nothing; UnreadByte steps back, also over bytes no ReadByte has read.\<close>

lemma reader_positions:
  assumes r: "reader_ok r h" and base: "base = (if whence = 0 then 0 else if whence = 1 then ri r else slen0 (rs r))"
    and w: "whence \<in> {0, 1, 2}"
  shows "if base + offset < 0
      then Seek offset whence (r, h) =
        (Inr (0, Some (ErrorText ''bytes.Reader.Seek: negative position'')), (r\<lparr>prevRune := -1\<rparr>, h))
      else Seek offset whence (r, h) = (Inr (base + offset, None), (r\<lparr>prevRune := -1, ri := base + offset\<rparr>, h)) \<and>
        reader_ok (r\<lparr>prevRune := -1, ri := base + offset\<rparr>) h \<and>
        unread (r\<lparr>prevRune := -1, ri := base + offset\<rparr>) h = drop (nat (base + offset)) (sbytes0 h (rs r))"
  using r w by (auto simp: Seek_def base ret_def reader_ok_def unread_def Let_def)

subsection \<open>Where the methods depart from Go\<close>

text \<open>\<open>DecodeRune\<close> gives an invalid byte in front of others the width 3, so \<open>ReadRune\<close> on the
  bytes 80 41 moves the offset behind the end: \<open>Len\<close> is -1 and \<open>Bytes\<close> panics.\<close>

definition heap_of :: "byte list \<Rightarrow> bheap" where "heap_of bs = \<lparr>buffers = (\<lambda>_. bs), next_buf = 1\<rparr>"

definition buffer_of :: "byte list \<Rightarrow> bstate" where
  "buffer_of bs = (NewBuffer (Some (slice_at 0 (length bs))), heap_of bs)"

lemma read_rune_overruns:
  "\<exists>e. case ReadRune (buffer_of [0x80, 0x41]) of (x, (b, h)) \<Rightarrow>
     x = Inr (0xFFFD, 3, None) \<and> Len b = -1 \<and> fst (Bytes (b, h)) = Inl e"
proof -
  have s: "slice0 (Some (slice_at 0 2)) (Some 0) None = Inr (Some (sub_slice (slice_at 0 2) 0 2))"
    using slice0_from [of 0 "slice_at 0 2" "heap_of [0x80, 0x41]"] slice_at_ok [of 0 "heap_of [0x80, 0x41]" 2]
    by (simp add: heap_of_def)
  have b: "bytes_of (heap_of [0x80, 0x41]) (sub_slice (slice_at 0 2) 0 2) = [0x80, 0x41]"
    using sub_slice_within [of "heap_of [0x80, 0x41]" "slice_at 0 2" 0 2] slice_at_ok [of 0 "heap_of [0x80, 0x41]" 2]
    by (simp add: heap_of_def)
  have d: "DecodeRune (byte_nats [0x80, 0x41]) = (0xFFFD, 3)"
    using DecodeRune_departures by (simp add: byte_nats_def)
  have r: "ReadRune (buffer_of [0x80, 0x41]) = (Inr (0xFFFD, 3, None),
      (\<lparr>buf = Some (slice_at 0 2), off = 3, lastRead = 3\<rparr>, heap_of [0x80, 0x41]))"
    using s b d by (simp add: ReadRune_def buffer_of_def NewBuffer_def empty_def Let_def numeral_2_eq_2 [symmetric])
      (simp add: heap_of_def bnd_def from_res_def ret_def upd_def receiver_def the_heap_def)
  then show ?thesis unfolding r
    by (simp add: Len_def Bytes_def from_res_def slice0_def byte_goSlice_def opt_index_simps Let_def)
qed

text \<open>\<open>WriteRune\<close> of a negative rune writes one byte, where Go writes the three bytes of
  U+FFFD.\<close>

lemma write_negative_rune:
  "WriteRune (-1) = bnd (WriteByte 0xFF) (\<lambda>_. ret (1, None))"
proof -
  have "word_of_int (-1) = (word_of_int 255 :: byte)" by (subst word_of_int_eq_iff) (simp add: mask_eq_exp_minus_1)
  then show ?thesis unfolding WriteRune_def by (simp only:) simp
qed

text \<open>\<open>ReadBytes\<close> returns a slice of one element, the line, where Go returns the bytes of the
  line in a new array.\<close>

lemma read_bytes_nests:
  assumes "buf_ok b h"
  shows "\<exists>b' d. ReadBytes c (b, h) = (Inr ([d], if c \<in> set (content b h) then None else Some EOF), (b', h)) \<and>
    sbytes0 h d = line_of c (content b h)"
proof -
  obtain b' d where "readSlice c (b, h) = (Inr (d, if c \<in> set (content b h) then None else Some EOF), (b', h))"
    "sbytes0 h d = line_of c (content b h)" using readSlice_run [OF assms, of c] by blast
  then show ?thesis by (intro exI [of _ b'] exI [of _ d]) (simp add: ReadBytes_def bnd_Inr ret_def)
qed

text \<open>\<open>WriteString\<close> reserves the bytes of the Go string but writes and counts those of the
  JavaScript string: for a string that is not UTF-8 text, here the one byte FF, it reports 20
  bytes (the marker of such a string and its byte, encoded).\<close>

lemma write_string_count:
  assumes ok: "buf_ok b h" and room: "2 * Cap b + int (stringLen (JSString s)) \<le> 9223372036854775807"
  shows "\<exists>w. WriteString s (b, h) = (Inr (int (length (text_encode s)), None), w)"
proof -
  define xs where "xs = replicate (stringLen (JSString s)) (0 :: byte)"
  have n: "stringLen (JSString s) = length xs" by (simp add: xs_def)
  obtain i w where iw: "reserve (int (length xs)) (b, h) = (Inr i, w)" "reserved (length xs) b h i w"
    using reserve_run [OF ok, of "length xs"] room n by auto
  obtain t m k l h1 where t: "w = (\<lparr>buf = Some t, off = int k, lastRead = l\<rparr>, h1)"
    "slice0 (Some t) (Some i) (Some (i + int (length xs))) = Inr (Some (sub_slice t m (m + length xs)))"
    by (rule reserved_store [OF iw(2)]) blast
  show ?thesis
    unfolding WriteString_def n Let_def bnd_Inr [where m = "reserve (int (length xs))", OF iw(1)] t(1) bnd_receiver
    using t(2) by (simp add: from_res_def on_heap_def bnd_def ret_def)
qed

lemma binary_string_lengths:
  "stringLen (JSString (binary_prefix @ [0xFF])) = 1" "length (text_encode (binary_prefix @ [0xFF])) = 20"
proof -
  show "stringLen (JSString (binary_prefix @ [0xFF])) = 1"
    by (simp add: stringLen_def goStringBytes_def binaryStringToBytes_def)
  show "length (text_encode (binary_prefix @ [0xFF])) = 20"
    by (simp add: binary_prefix_def text_encode_def utf8_enc_def surrogate_def)
qed

end
