(* ===== verification/GsPipe.thy ===== *)
theory GsPipe
  imports GsBuffer "HOL-Library.Multiset" "HOL-Library.Sublist"
begin

section \<open>io.Pipe: readers and writers waiting for each other (gs/io/io.ts)\<close>

text \<open>
  The class \<open>pipeState\<close>. A call of \<open>Read\<close> or \<open>Write\<close> has the identity of the promise it returns;
  \<open>ReadDone i bs e\<close> is the promise \<open>i\<close> resolved with \<open>[length bs, e]\<close> after \<open>bs\<close> have been copied to
  the front of the buffer of the call, \<open>WriteDone i n e\<close> the promise \<open>i\<close> resolved with \<open>[n, e]\<close>. A
  call whose promise is not settled waits in one of the two queues: a reader with the length of
  its buffer, a writer with its own copy of the data and the offset up to which it was read. The
  methods are synchronous up to the point where they wait, so a history of calls is a list.
\<close>

definition ErrClosedPipe :: io_error where "ErrClosedPipe = ErrorText ''io: read/write on closed pipe''"

datatype settled = ReadDone nat "byte list" "io_error option" | WriteDone nat nat "io_error option"

record pipe =
  readerClosed :: bool
  writerClosed :: bool
  readerErr :: "io_error option"
  writerErr :: "io_error option"
  pendingReads :: "(nat \<times> nat) list"
  pendingWrites :: "(nat \<times> byte list \<times> nat) list"

definition new_pipe :: pipe where
  "new_pipe = \<lparr>readerClosed = False, writerClosed = False, readerErr = None, writerErr = None,
     pendingReads = [], pendingWrites = []\<rparr>"

text \<open>\<open>e ?? d\<close>.\<close>

fun default :: "io_error option \<Rightarrow> io_error \<Rightarrow> io_error" where
  "default (Some e) d = e"
| "default None d = d"

definition resolvePendingReads :: "io_error \<Rightarrow> pipe \<Rightarrow> settled list \<times> pipe" where
  "resolvePendingReads err st = (map (\<lambda>(i, _). ReadDone i [] (Some err)) (pendingReads st), st\<lparr>pendingReads := []\<rparr>)"

definition resolvePendingWrites :: "io_error \<Rightarrow> pipe \<Rightarrow> settled list \<times> pipe" where
  "resolvePendingWrites err st = (map (\<lambda>(i, _, _). WriteDone i 0 (Some err)) (pendingWrites st), st\<lparr>pendingWrites := []\<rparr>)"

text \<open>The bytes for a buffer of length \<open>p\<close>, the promises settled on the way, and the pipe.\<close>

definition consumeNextWrite :: "nat \<Rightarrow> pipe \<Rightarrow> (byte list \<times> settled list \<times> pipe) res" where
  "consumeNextWrite p st = (case pendingWrites st of [] \<Rightarrow> Inl TypeError
     | (i, data, offset) # ws \<Rightarrow>
         let n = min p (length data - offset);
             bs = take n (drop offset data) in
         Inr (if offset + n = length data
              then let st' = st\<lparr>pendingWrites := ws\<rparr> in
                if writerClosed st' \<and> ws = []
                then (case resolvePendingReads (default (writerErr st') EOF) st' of
                    (ss, st'') \<Rightarrow> (bs, WriteDone i (length data) None # ss, st''))
                else (bs, [WriteDone i (length data) None], st')
              else (bs, [], st\<lparr>pendingWrites := (i, data, offset + n) # ws\<rparr>)))"

text \<open>Every round serves one waiting reader, so their number bounds the rounds.\<close>

primrec drain :: "nat \<Rightarrow> pipe \<Rightarrow> (settled list \<times> pipe) res" where
  "drain 0 = (\<lambda>st. Inr ([], st))"
| "drain (Suc k) = (\<lambda>st.
     if pendingWrites st \<noteq> [] \<and> pendingReads st \<noteq> [] then
       if readerClosed st then Inr (resolvePendingWrites (default (readerErr st) ErrClosedPipe) st)
       else case hd (pendingReads st) of (i, p) \<Rightarrow>
         bindR (consumeNextWrite p (st\<lparr>pendingReads := tl (pendingReads st)\<rparr>)) (\<lambda>(bs, ss, st').
           bindR (drain k st') (\<lambda>(ss', st''). Inr (ss @ ReadDone i bs None # ss', st'')))
     else Inr ([], st))"

definition pipe_Read :: "nat \<Rightarrow> nat \<Rightarrow> pipe \<Rightarrow> (settled list \<times> pipe) res" where
  "pipe_Read i p st =
     (if readerClosed st then Inr ([ReadDone i [] (Some (default (readerErr st) ErrClosedPipe))], st)
      else if p = 0 then Inr ([ReadDone i [] None], st)
      else if 0 < length (pendingWrites st)
      then bindR (consumeNextWrite p st) (\<lambda>(bs, ss, st'). Inr (ss @ [ReadDone i bs None], st'))
      else if writerClosed st then Inr ([ReadDone i [] (Some (default (writerErr st) EOF))], st)
      else Inr ([], st\<lparr>pendingReads := pendingReads st @ [(i, p)]\<rparr>))"

definition pipe_Write :: "nat \<Rightarrow> byte list \<Rightarrow> pipe \<Rightarrow> (settled list \<times> pipe) res" where
  "pipe_Write i data st =
     (if writerClosed st \<or> readerClosed st
      then Inr ([WriteDone i 0 (Some (default (readerErr st) ErrClosedPipe))], st)
      else if data = [] then Inr ([WriteDone i 0 None], st)
      else let st' = st\<lparr>pendingWrites := pendingWrites st @ [(i, data, 0)]\<rparr> in
        drain (Suc (length (pendingReads st'))) st')"

definition CloseReader :: "io_error option \<Rightarrow> pipe \<Rightarrow> settled list \<times> pipe" where
  "CloseReader err st =
     (case resolvePendingReads ErrClosedPipe (st\<lparr>readerClosed := True, readerErr := err\<rparr>) of (ss, st1) \<Rightarrow>
      case resolvePendingWrites ErrClosedPipe st1 of (ss', st2) \<Rightarrow> (ss @ ss', st2))"

definition CloseWriter :: "io_error option \<Rightarrow> pipe \<Rightarrow> settled list \<times> pipe" where
  "CloseWriter err st = (let st' = st\<lparr>writerClosed := True, writerErr := err\<rparr> in
     if pendingWrites st' = [] then resolvePendingReads (default err EOF) st' else ([], st'))"

text \<open>The methods of \<open>PipeReader\<close> and \<open>PipeWriter\<close>; \<open>Close\<close> is \<open>CloseWithError(null)\<close>.\<close>

datatype pipe_request =
  PRead nat nat | PWrite nat "byte list" | PCloseReader "io_error option" | PCloseWriter "io_error option"

fun pipe_call :: "pipe_request \<Rightarrow> pipe \<Rightarrow> (settled list \<times> pipe) res" where
  "pipe_call (PRead i p) st = pipe_Read i p st"
| "pipe_call (PWrite i data) st = pipe_Write i data st"
| "pipe_call (PCloseReader e) st = Inr (CloseReader (Some (default e ErrClosedPipe)) st)"
| "pipe_call (PCloseWriter e) st = Inr (CloseWriter (Some (default e EOF)) st)"

fun pipe_run :: "pipe_request list \<Rightarrow> pipe \<Rightarrow> (settled list \<times> pipe) res" where
  "pipe_run [] st = Inr ([], st)"
| "pipe_run (c # cs) st = bindR (pipe_call c st) (\<lambda>(ss, st').
     bindR (pipe_run cs st') (\<lambda>(ss', st''). Inr (ss @ ss', st'')))"

subsection \<open>Invariant\<close>

text \<open>No reader and writer wait at once; waiting calls have something left to do; nobody waits
  for a side that is gone.\<close>

definition pipe_ok :: "pipe \<Rightarrow> bool" where
  "pipe_ok st \<longleftrightarrow> (pendingReads st = [] \<or> pendingWrites st = []) \<and>
     (\<forall>(i, p)\<in>set (pendingReads st). 0 < p) \<and>
     (\<forall>(i, data, offset)\<in>set (pendingWrites st). offset < length data) \<and>
     (readerClosed st \<longrightarrow> pendingReads st = [] \<and> pendingWrites st = []) \<and>
     (writerClosed st \<longrightarrow> pendingReads st = [])"

lemma new_pipe_ok [simp]: "pipe_ok new_pipe"
  by (simp add: pipe_ok_def new_pipe_def)

text \<open>What a step did: the bytes it gave to readers, the bytes still waiting.\<close>

fun delivered :: "settled list \<Rightarrow> byte list" where
  "delivered [] = []"
| "delivered (ReadDone i bs e # ss) = bs @ delivered ss"
| "delivered (WriteDone i n e # ss) = delivered ss"

lemma delivered_append [simp]: "delivered (xs @ ys) = delivered xs @ delivered ys"
  by (induction xs rule: delivered.induct) simp_all

definition waiting_bytes :: "pipe \<Rightarrow> byte list" where
  "waiting_bytes st = concat (map (\<lambda>(i, data, offset). drop offset data) (pendingWrites st))"

datatype promise = R nat | W nat

fun settled_promise :: "settled \<Rightarrow> promise" where
  "settled_promise (ReadDone i bs e) = R i"
| "settled_promise (WriteDone i n e) = W i"

definition settled_promises :: "settled list \<Rightarrow> promise multiset" where
  "settled_promises ss = mset (map settled_promise ss)"

definition waiting_promises :: "pipe \<Rightarrow> promise multiset" where
  "waiting_promises st = mset (map (R \<circ> fst) (pendingReads st)) + mset (map (W \<circ> fst) (pendingWrites st))"text \<open>A part of a step keeps the closed flags and errors, the order of the bytes and the promises.\<close>

definition moves :: "pipe \<Rightarrow> byte list \<Rightarrow> settled list \<Rightarrow> pipe \<Rightarrow> bool" where
  "moves st bs ss st' \<longleftrightarrow> bs @ waiting_bytes st' = waiting_bytes st \<and>
     settled_promises ss + waiting_promises st' = waiting_promises st \<and>
     readerClosed st' = readerClosed st \<and> writerClosed st' = writerClosed st \<and>
     readerErr st' = readerErr st \<and> writerErr st' = writerErr st"

definition queues_ok :: "pipe \<Rightarrow> bool" where
  "queues_ok st \<longleftrightarrow> (\<forall>(i, p)\<in>set (pendingReads st). 0 < p) \<and>
     (\<forall>(i, data, offset)\<in>set (pendingWrites st). offset < length data)"

lemma pipe_ok_iff:
  "pipe_ok st \<longleftrightarrow> queues_ok st \<and> (pendingReads st = [] \<or> pendingWrites st = []) \<and>
     (readerClosed st \<longrightarrow> pendingReads st = [] \<and> pendingWrites st = []) \<and> (writerClosed st \<longrightarrow> pendingReads st = [])"
  by (auto simp: pipe_ok_def queues_ok_def)

lemma settled_promises_simps [simp]:
  "settled_promises [] = {#}" "settled_promises (s # ss) = {#settled_promise s#} + settled_promises ss"
  "settled_promises (ss @ ss') = settled_promises ss + settled_promises ss'"
  by (simp_all add: settled_promises_def)

lemma resolvePendingReads_spec:
  "resolvePendingReads e st = (ss, st') \<Longrightarrow> delivered ss = [] \<and> st' = st\<lparr>pendingReads := []\<rparr> \<and>
     settled_promises ss = mset (map (R \<circ> fst) (pendingReads st))"
proof -
  have "delivered (map (\<lambda>(i, _). ReadDone i [] (Some e)) xs) = []" for xs :: "(nat \<times> nat) list"
    by (induction xs) auto
  moreover have "settled_promises (map (\<lambda>(i, _). ReadDone i [] (Some e)) xs) = mset (map (R \<circ> fst) xs)" for xs :: "(nat \<times> nat) list"
    by (induction xs) auto
  ultimately show "resolvePendingReads e st = (ss, st') \<Longrightarrow> ?thesis" by (auto simp: resolvePendingReads_def)
qed

lemma resolvePendingWrites_spec:
  "resolvePendingWrites e st = (ss, st') \<Longrightarrow> delivered ss = [] \<and> st' = st\<lparr>pendingWrites := []\<rparr> \<and>
     settled_promises ss = mset (map (W \<circ> fst) (pendingWrites st))"
proof -
  have "delivered (map (\<lambda>(i, _, _). WriteDone i 0 (Some e)) xs) = []" for xs :: "(nat \<times> byte list \<times> nat) list"
    by (induction xs) auto
  moreover have "settled_promises (map (\<lambda>(i, _, _). WriteDone i 0 (Some e)) xs) = mset (map (W \<circ> fst) xs)" for xs :: "(nat \<times> byte list \<times> nat) list"
    by (induction xs) auto
  ultimately show "resolvePendingWrites e st = (ss, st') \<Longrightarrow> ?thesis" by (auto simp: resolvePendingWrites_def)
qed

lemma consumeNextWrite_spec:
  assumes "pendingWrites st \<noteq> []" "queues_ok st" "0 < p"
  shows "\<exists>bs ss st'. consumeNextWrite p st = Inr (bs, ss, st') \<and> moves st bs ss st' \<and> delivered ss = [] \<and>
    bs = take p bs \<and> bs \<noteq> [] \<and> queues_ok st' \<and>
    pendingReads st' = (if writerClosed st \<and> pendingWrites st' = [] then [] else pendingReads st)"
proof -
  obtain i data offset ws where w: "pendingWrites st = (i, data, offset) # ws" using assms(1) by (cases "pendingWrites st") auto
  have off: "offset < length data" using assms(2) w by (auto simp: queues_ok_def)
  define n where "n = min p (length data - offset)"
  have n: "0 < n" "n \<le> p" "offset + n \<le> length data" using assms(3) off by (auto simp: n_def)
  define bs where "bs = take n (drop offset data)"
  have bs: "bs = take p bs" "bs \<noteq> []" using n by (auto simp: bs_def)
  have data: "bs @ drop (offset + n) data = drop offset data"
    unfolding bs_def by (metis add.commute append_take_drop_id drop_drop)
  note c = consumeNextWrite_def [of p st, unfolded w, simplified, folded n_def, folded bs_def]
  show ?thesis
  proof (cases "offset + n = length data")
    case False
    let ?st = "st\<lparr>pendingWrites := (i, data, offset + n) # ws\<rparr>"
    have "moves st bs [] ?st" using data by (simp add: moves_def waiting_bytes_def waiting_promises_def w)
    moreover have "queues_ok ?st" using assms(2) w False n(3) by (auto simp: queues_ok_def)
    moreover have "consumeNextWrite p st = Inr (bs, [], ?st)" using c False by (simp add: Let_def bs_def)
    ultimately show ?thesis using bs by force
  next
    case True
    let ?st = "st\<lparr>pendingWrites := ws\<rparr>"
    have q: "queues_ok ?st" using assms(2) w by (auto simp: queues_ok_def)
    have b: "bs @ waiting_bytes ?st = waiting_bytes st" using data True by (simp add: waiting_bytes_def w)
    show ?thesis
    proof (cases "writerClosed st \<and> ws = []")
      case wc: False
      then have "consumeNextWrite p st = Inr (bs, [WriteDone i (length data) None], ?st)" using c True by (auto simp: Let_def bs_def)
      moreover have "moves st bs [WriteDone i (length data) None] ?st" using b by (simp add: moves_def waiting_promises_def w)
      ultimately show ?thesis using bs q wc by force
    next
      case wc: True
      obtain ss st' where r: "resolvePendingReads (default (writerErr ?st) EOF) ?st = (ss, st')" by fastforce
      have s: "delivered ss = []" "st' = ?st\<lparr>pendingReads := []\<rparr>" "settled_promises ss = mset (map (R \<circ> fst) (pendingReads st))"
        using resolvePendingReads_spec [OF r] by simp_all
      have "consumeNextWrite p st = Inr (bs, WriteDone i (length data) None # ss, st')"
        using c True wc r by (simp add: Let_def bs_def)
      moreover have "moves st bs (WriteDone i (length data) None # ss) st'"
        using b s wc by (simp add: moves_def waiting_promises_def waiting_bytes_def w)
      moreover have "queues_ok st'" using q s(2) by (simp add: queues_ok_def)
      ultimately show ?thesis using bs s wc by force
    qed
  qed
qed

lemma drain_spec:
  assumes "queues_ok st" "\<not> readerClosed st" "\<not> writerClosed st" "length (pendingReads st) < k"
  shows "\<exists>ss st'. drain k st = Inr (ss, st') \<and> moves st (delivered ss) ss st' \<and> queues_ok st' \<and>
    (pendingReads st' = [] \<or> pendingWrites st' = [])"
  using assms
proof (induction k arbitrary: st)
  case (Suc k)
  show ?case
  proof (cases "pendingWrites st \<noteq> [] \<and> pendingReads st \<noteq> []")
    case True
    then obtain i p rs where r: "pendingReads st = (i, p) # rs" by (cases "pendingReads st") auto
    let ?st = "st\<lparr>pendingReads := rs\<rparr>"
    have p: "0 < p" "queues_ok ?st" using Suc.prems(1) r by (auto simp: queues_ok_def)
    from consumeNextWrite_spec [of ?st p] True p obtain bs ss st1 where
      c: "consumeNextWrite p ?st = Inr (bs, ss, st1)" "moves ?st bs ss st1" "delivered ss = []" "queues_ok st1" "pendingReads st1 = rs"
      using Suc.prems(3) by auto
    have "\<not> readerClosed st1" "\<not> writerClosed st1" "length (pendingReads st1) < k"
      using c(2,5) r Suc.prems by (simp_all add: moves_def)
    from Suc.IH [OF c(4) this] obtain ss' st2 where
      d: "drain k st1 = Inr (ss', st2)" "moves st1 (delivered ss') ss' st2" "queues_ok st2" "pendingReads st2 = [] \<or> pendingWrites st2 = []" by blast
    have "drain (Suc k) st = Inr (ss @ ReadDone i bs None # ss', st2)"
      using True Suc.prems(2) by (simp add: r c(1) d(1))
    moreover have "moves st (delivered (ss @ ReadDone i bs None # ss')) (ss @ ReadDone i bs None # ss') st2"
    proof -
      have "waiting_bytes ?st = waiting_bytes st" "waiting_promises st = {#R i#} + waiting_promises ?st"
        by (simp_all add: waiting_bytes_def waiting_promises_def r)
      moreover have "bs @ waiting_bytes st1 = waiting_bytes ?st" "delivered ss' @ waiting_bytes st2 = waiting_bytes st1"
        "settled_promises ss + waiting_promises st1 = waiting_promises ?st"
        "settled_promises ss' + waiting_promises st2 = waiting_promises st1"
        using c(2) d(2) by (simp_all add: moves_def)
      ultimately have "(bs @ delivered ss') @ waiting_bytes st2 = waiting_bytes st"
        "settled_promises ss + ({#R i#} + settled_promises ss') + waiting_promises st2 = waiting_promises st"
        by (simp_all add: add.assoc)
      then show ?thesis using c(2,3) d(2) by (simp add: moves_def)
    qed
    ultimately show ?thesis using d(3,4) by blast
  qed (use Suc.prems in \<open>auto simp: moves_def\<close>)
qed simp
subsection \<open>Steps and histories\<close>

fun is_close :: "pipe_request \<Rightarrow> bool" where
  "is_close (PCloseReader e) \<longleftrightarrow> True"
| "is_close (PCloseWriter e) \<longleftrightarrow> True"
| "is_close c \<longleftrightarrow> False"

fun request_promises :: "pipe_request \<Rightarrow> promise multiset" where
  "request_promises (PRead i p) = {#R i#}"
| "request_promises (PWrite i d) = {#W i#}"
| "request_promises c = {#}"

text \<open>The bytes of the writes before either half is closed.\<close>

fun accepted :: "pipe_request list \<Rightarrow> byte list" where
  "accepted (PWrite i d # cs) = d @ accepted cs"
| "accepted (PRead i p # cs) = accepted cs"
| "accepted cs = []"

definition accepted_from :: "pipe \<Rightarrow> pipe_request list \<Rightarrow> byte list" where
  "accepted_from st cs = (if writerClosed st \<or> readerClosed st then [] else accepted cs)"

definition step_ok :: "pipe_request \<Rightarrow> pipe \<Rightarrow> settled list \<Rightarrow> pipe \<Rightarrow> bool" where
  "step_ok c st ss st' \<longleftrightarrow> pipe_ok st' \<and>
     settled_promises ss + waiting_promises st' = waiting_promises st + request_promises c \<and>
     (readerClosed st' \<longleftrightarrow> readerClosed st \<or> (\<exists>e. c = PCloseReader e)) \<and>
     (writerClosed st' \<longleftrightarrow> writerClosed st \<or> (\<exists>e. c = PCloseWriter e)) \<and>
     writerErr st' = (case c of PCloseWriter e \<Rightarrow> Some (default e EOF) | _ \<Rightarrow> writerErr st) \<and>
     (if readerClosed st' then delivered ss = []
      else delivered ss @ waiting_bytes st' = waiting_bytes st @ accepted_from st [c])"

lemma pipe_Read_step:
  assumes ok: "pipe_ok st"
  shows "\<exists>ss st'. pipe_call (PRead i p) st = Inr (ss, st') \<and> step_ok (PRead i p) st ss st'"
proof -
  have id: "\<exists>ss st'. pipe_call (PRead i p) st = Inr (ss, st') \<and> step_ok (PRead i p) st ss st'"
    if "pipe_call (PRead i p) st = Inr ([ReadDone i [] e], st)" for e
    using that ok by (auto simp: step_ok_def accepted_from_def pipe_ok_iff)
  consider (c) "readerClosed st" | (z) "\<not> readerClosed st" "p = 0" | (w) "\<not> readerClosed st" "0 < p" "pendingWrites st \<noteq> []"
    | (e) "\<not> readerClosed st" "0 < p" "pendingWrites st = []" "writerClosed st"
    | (q) "\<not> readerClosed st" "0 < p" "pendingWrites st = []" "\<not> writerClosed st" by blast
  then show ?thesis
  proof cases
    case w
    then obtain bs ss st' where c: "consumeNextWrite p st = Inr (bs, ss, st')" "moves st bs ss st'" "delivered ss = []"
      "queues_ok st'" "pendingReads st' = (if writerClosed st \<and> pendingWrites st' = [] then [] else pendingReads st)"
      using consumeNextWrite_spec [of st p] ok by (auto simp: pipe_ok_iff)
    then have "pipe_ok st'" using ok w by (auto simp: pipe_ok_iff moves_def)
    moreover have "settled_promises (ss @ [ReadDone i bs None]) + waiting_promises st' = waiting_promises st + {#R i#}"
      using c(2) by (simp add: moves_def)
    ultimately show ?thesis using c(1-3) w by (auto simp: step_ok_def pipe_Read_def moves_def accepted_from_def)
  next
    case q
    let ?st = "st\<lparr>pendingReads := pendingReads st @ [(i, p)]\<rparr>"
    have "pipe_call (PRead i p) st = Inr ([], ?st)" using q by (simp add: pipe_Read_def)
    moreover have "step_ok (PRead i p) st [] ?st" using q ok
      by (auto simp: step_ok_def pipe_ok_iff queues_ok_def waiting_promises_def waiting_bytes_def accepted_from_def)
    ultimately show ?thesis by blast
  qed (rule id, simp add: pipe_Read_def)+
qed

lemma pipe_Write_step:
  assumes ok: "pipe_ok st"
  shows "\<exists>ss st'. pipe_call (PWrite i d) st = Inr (ss, st') \<and> step_ok (PWrite i d) st ss st'"
proof (cases "writerClosed st \<or> readerClosed st \<or> d = []")
  case True
  then have "pipe_call (PWrite i d) st = Inr ([WriteDone i 0
      (if writerClosed st \<or> readerClosed st then Some (default (readerErr st) ErrClosedPipe) else None)], st)"
    by (auto simp: pipe_Write_def)
  then show ?thesis using True ok by (auto simp: step_ok_def accepted_from_def)
next
  case False
  let ?st = "st\<lparr>pendingWrites := pendingWrites st @ [(i, d, 0)]\<rparr>"
  have "queues_ok ?st" using ok False by (auto simp: pipe_ok_iff queues_ok_def)
  from drain_spec [OF this, of "Suc (length (pendingReads ?st))"] False obtain ss st' where
    r: "drain (Suc (length (pendingReads ?st))) ?st = Inr (ss, st')" "moves ?st (delivered ss) ss st'" "queues_ok st'"
      "pendingReads st' = [] \<or> pendingWrites st' = []" by auto
  have "pipe_call (PWrite i d) st = Inr (ss, st')" using False r(1) by (simp add: pipe_Write_def Let_def del: drain.simps)
  moreover have "waiting_bytes ?st = waiting_bytes st @ d" "waiting_promises ?st = waiting_promises st + {#W i#}"
    by (simp_all add: waiting_bytes_def waiting_promises_def)
  then have "step_ok (PWrite i d) st ss st'"
    using r(2-4) False by (auto simp: step_ok_def moves_def pipe_ok_iff accepted_from_def)
  ultimately show ?thesis by blast
qed

lemma pipe_step:
  assumes ok: "pipe_ok st"
  shows "\<exists>ss st'. pipe_call c st = Inr (ss, st') \<and> step_ok c st ss st'"
proof (cases c)
  case (PCloseReader e)
  let ?st = "st\<lparr>readerClosed := True, readerErr := Some (default e ErrClosedPipe)\<rparr>"
  obtain ss st1 where a: "resolvePendingReads ErrClosedPipe ?st = (ss, st1)" by fastforce
  obtain ss' st2 where b: "resolvePendingWrites ErrClosedPipe st1 = (ss', st2)" by fastforce
  note s = resolvePendingReads_spec [OF a] resolvePendingWrites_spec [OF b]
  have "pipe_call c st = Inr (ss @ ss', st2)" by (simp add: PCloseReader CloseReader_def a b)
  moreover have "step_ok c st (ss @ ss') st2"
    using s ok by (auto simp: step_ok_def PCloseReader pipe_ok_iff queues_ok_def waiting_promises_def)
  ultimately show ?thesis by blast
next
  case (PCloseWriter e)
  let ?st = "st\<lparr>writerClosed := True, writerErr := Some (default e EOF)\<rparr>"
  show ?thesis
  proof (cases "pendingWrites st = []")
    case True
    obtain ss st1 where a: "resolvePendingReads (default (Some (default e EOF)) EOF) ?st = (ss, st1)" by fastforce
    note s = resolvePendingReads_spec [OF a]
    have "pipe_call c st = Inr (ss, st1)" using a True by (simp add: PCloseWriter CloseWriter_def Let_def)
    moreover have "step_ok c st ss st1"
      using s ok True by (auto simp: step_ok_def PCloseWriter pipe_ok_iff queues_ok_def waiting_promises_def waiting_bytes_def accepted_from_def)
    ultimately show ?thesis by blast
  next
    case False
    then have "pipe_call c st = Inr ([], ?st)" by (simp add: PCloseWriter CloseWriter_def Let_def)
    moreover have "step_ok c st [] ?st"
      using ok False by (auto simp: step_ok_def PCloseWriter pipe_ok_iff queues_ok_def waiting_promises_def waiting_bytes_def accepted_from_def)
    ultimately show ?thesis by blast
  qed
qed (use pipe_Read_step [OF ok] pipe_Write_step [OF ok] in auto)

text \<open>A history of calls.\<close>

definition run_ok :: "pipe_request list \<Rightarrow> pipe \<Rightarrow> settled list \<Rightarrow> pipe \<Rightarrow> bool" where
  "run_ok cs st ss st' \<longleftrightarrow> pipe_ok st' \<and>
     settled_promises ss + waiting_promises st' = waiting_promises st + sum_list (map request_promises cs) \<and>
     (readerClosed st \<longrightarrow> readerClosed st') \<and>
     (\<exists>rest. delivered ss @ rest = waiting_bytes st @ accepted_from st cs \<and> (readerClosed st' \<or> rest = waiting_bytes st'))"

lemma pipe_run_spec: "pipe_ok st \<Longrightarrow> \<exists>ss st'. pipe_run cs st = Inr (ss, st') \<and> run_ok cs st ss st'"
proof (induction cs arbitrary: st)
  case Nil
  then show ?case by (simp add: run_ok_def accepted_from_def)
next
  case (Cons c cs)
  from pipe_step [OF Cons.prems] obtain ss st1 where s: "pipe_call c st = Inr (ss, st1)" "step_ok c st ss st1" by blast
  then have ok1: "pipe_ok st1" by (simp add: step_ok_def)
  from Cons.IH [OF this] obtain ss' st2 where t: "pipe_run cs st1 = Inr (ss', st2)" "run_ok cs st1 ss' st2" by blast
  obtain rest where rest: "delivered ss' @ rest = waiting_bytes st1 @ accepted_from st1 cs" "readerClosed st2 \<or> rest = waiting_bytes st2"
    using t(2) by (auto simp: run_ok_def)
  have bytes: "\<exists>rest. delivered (ss @ ss') @ rest = waiting_bytes st @ accepted_from st (c # cs) \<and> (readerClosed st2 \<or> rest = waiting_bytes st2)"
  proof (cases "readerClosed st1")
    case True
    then have "delivered ss = []" "delivered ss' = []" "readerClosed st2"
      using s(2) t(2) rest(1) ok1 by (auto simp: step_ok_def run_ok_def accepted_from_def pipe_ok_def waiting_bytes_def)
    then show ?thesis by auto
  next
    case False
    then have "delivered ss @ waiting_bytes st1 = waiting_bytes st @ accepted_from st [c]" using s(2) by (simp add: step_ok_def)
    moreover have "accepted_from st (c # cs) = accepted_from st [c] @ accepted_from st1 cs"
      using s(2) False by (cases c) (auto simp: step_ok_def accepted_from_def)
    ultimately have "delivered (ss @ ss') @ rest = waiting_bytes st @ accepted_from st (c # cs)"
      using rest(1) by (metis append.assoc delivered_append)
    then show ?thesis using rest(2) by blast
  qed
  have "settled_promises (ss @ ss') + waiting_promises st2 = settled_promises ss + (settled_promises ss' + waiting_promises st2)"
    by (simp add: add.assoc)
  also have "\<dots> = (settled_promises ss + waiting_promises st1) + sum_list (map request_promises cs)"
    using t(2) by (simp add: run_ok_def add.assoc)
  also have "\<dots> = waiting_promises st + sum_list (map request_promises (c # cs))"
    using s(2) by (simp add: step_ok_def add.assoc)
  finally have pr: "settled_promises (ss @ ss') + waiting_promises st2 = waiting_promises st + sum_list (map request_promises (c # cs))" .
  have "run_ok (c # cs) st (ss @ ss') st2"
    using s(2) t(2) bytes pr by (auto simp: run_ok_def step_ok_def)
  then show ?case using s(1) t(1) by simp
qed
subsection \<open>The pipe over whole histories\<close>


text \<open>C19. Over every history of calls, the promise of each \<open>Read\<close> and each \<open>Write\<close> is settled exactly
  once or is still waiting in its queue, and in the state reached no reader waits while a writer
  does, every waiting call can still make progress, and nobody waits for a half that was closed
  (a writer that waits when the writing half closes is still read).\<close>

theorem pipe_settles_once:
  "\<exists>ss st. pipe_run cs new_pipe = Inr (ss, st) \<and>
     settled_promises ss + waiting_promises st = sum_list (map request_promises cs) \<and>
     (pendingReads st = [] \<or> pendingWrites st = []) \<and>
     (\<forall>(i, p)\<in>set (pendingReads st). 0 < p) \<and>
     (\<forall>(i, data, offset)\<in>set (pendingWrites st). offset < length data) \<and>
     (\<not> readerClosed st \<or> waiting_promises st = {#}) \<and>
     (\<not> writerClosed st \<or> pendingReads st = [])"
proof -
  obtain ss st where r: "pipe_run cs new_pipe = Inr (ss, st)" "run_ok cs new_pipe ss st"
    using pipe_run_spec [OF new_pipe_ok] by blast
  have "waiting_promises new_pipe = {#}" by (simp add: new_pipe_def waiting_promises_def)
  then show ?thesis using r by (auto simp: run_ok_def pipe_ok_def waiting_promises_def)
qed

text \<open>A reader waits for the first of two writers, the second one waits for a reader.\<close>

lemma pipe_settles_once_witness:
  "settled_promises [ReadDone 0 [1] None, WriteDone 0 1 None] +
     waiting_promises (new_pipe\<lparr>pendingWrites := [(1, [2], 0)]\<rparr>) = {#R 0, W 0, W 1#}"
proof -
  have run: "pipe_run [PRead 0 4, PWrite 0 [1], PWrite 1 [2]] new_pipe =
      Inr ([WriteDone 0 1 None, ReadDone 0 [1] None], new_pipe\<lparr>pendingWrites := [(1, [2], 0)]\<rparr>)"
    by (simp add: new_pipe_def pipe_Read_def pipe_Write_def consumeNextWrite_def Let_def)
  show ?thesis using pipe_settles_once [of "[PRead 0 4, PWrite 0 [1], PWrite 1 [2]]"] unfolding run
    by (auto simp: add_mset_commute)
qed

lemma pipe_run_append:
  "pipe_run (cs @ ds) st = bindR (pipe_run cs st) (\<lambda>(ss, st'). bindR (pipe_run ds st') (\<lambda>(ss', st''). Inr (ss @ ss', st'')))"
proof (induction cs arbitrary: st)
  case Nil
  then show ?case by (cases "pipe_run ds st") auto
next
  case (Cons c cs)
  show ?case
  proof (cases "pipe_call c st")
    case (Inr q)
    obtain ss st1 where q: "q = (ss, st1)" by (cases q)
    show ?thesis
    proof (cases "pipe_run cs st1")
      case r: (Inr x)
      obtain ss' st2 where "x = (ss', st2)" by (cases x)
      then show ?thesis using Inr q r by (cases "pipe_run ds st2") (auto simp: Cons)
    qed (simp add: Inr q Cons)
  qed simp
qed

text \<open>Reads of a pipe whose writing half is closed.\<close>

lemma reads_to_end:
  assumes "pipe_ok st" "writerClosed st" "\<not> readerClosed st" "\<forall>(i, p)\<in>set ps. 0 < p"
    "length (waiting_bytes st) < length ps"
  shows "\<exists>ss st'. pipe_run (map (\<lambda>(i, p). PRead i p) ps) st = Inr (ss, st') \<and> delivered ss = waiting_bytes st \<and>
    waiting_promises st' = {#} \<and> ss \<noteq> [] \<and> last ss = ReadDone (fst (last ps)) [] (Some (default (writerErr st) EOF))"
  using assms
proof (induction ps arbitrary: st)
  case (Cons q ps)
  obtain i p where q: "q = (i, p)" by (cases q)
  have p: "0 < p" using Cons.prems(4) q by auto
  have pr: "pendingReads st = []" using Cons.prems(1,2) by (simp add: pipe_ok_def)
  have empty: "pendingWrites st = []" if "pipe_ok st" "waiting_bytes st = []" for st
    using that by (cases "pendingWrites st") (auto simp: pipe_ok_def waiting_bytes_def)
  have emptyI: "waiting_bytes st = []" if "pendingWrites st = []" for st using that by (simp add: waiting_bytes_def)
  show ?case
  proof (cases "pendingWrites st = []")
    case True
    have c: "pipe_call (PRead i p) st = Inr ([ReadDone i [] (Some (default (writerErr st) EOF))], st)"
      using True p Cons.prems(2,3) by (simp add: pipe_Read_def)
    show ?thesis
    proof (cases "ps = []")
      case True
      then show ?thesis using c q \<open>pendingWrites st = []\<close> pr by (simp add: emptyI waiting_promises_def)
    next
      case False
      have "length (waiting_bytes st) < length ps" using False True by (simp add: emptyI)
      from Cons.IH [OF Cons.prems(1-3) _ this] Cons.prems(4) obtain ss st' where
        "pipe_run (map (\<lambda>(i, p). PRead i p) ps) st = Inr (ss, st')" "delivered ss = waiting_bytes st"
        "waiting_promises st' = {#}" "ss \<noteq> []" "last ss = ReadDone (fst (last ps)) [] (Some (default (writerErr st) EOF))" by auto
      then show ?thesis using c q False by simp
    qed
  next
    case False
    obtain bs ss1 st1 where c: "consumeNextWrite p st = Inr (bs, ss1, st1)" "moves st bs ss1 st1" "delivered ss1 = []" "bs \<noteq> []"
      using consumeNextWrite_spec [OF False _ p] Cons.prems(1) by (auto simp: pipe_ok_iff)
    then have call: "pipe_call (PRead i p) st = Inr (ss1 @ [ReadDone i bs None], st1)"
      using False p Cons.prems(3) by (simp add: pipe_Read_def)
    have ok1: "pipe_ok st1" using pipe_step [OF Cons.prems(1), of "PRead i p"] call by (auto simp: step_ok_def)
    have st1: "writerClosed st1" "\<not> readerClosed st1" "writerErr st1 = writerErr st" "bs @ waiting_bytes st1 = waiting_bytes st"
      using c(2) Cons.prems(2,3) by (simp_all add: moves_def)
    have "length bs + length (waiting_bytes st1) = length (waiting_bytes st)" using st1(4) by (metis length_append)
    then have l: "length (waiting_bytes st1) < length ps" using Cons.prems(5) c(4) by (cases bs) auto
    from Cons.IH [OF ok1 st1(1,2) _ l] Cons.prems(4) obtain ss st' where
      "pipe_run (map (\<lambda>(i, p). PRead i p) ps) st1 = Inr (ss, st')" "delivered ss = waiting_bytes st1"
      "waiting_promises st' = {#}" "ss \<noteq> []" "last ss = ReadDone (fst (last ps)) [] (Some (default (writerErr st) EOF))"
      using st1(3) by auto
    moreover have "ps \<noteq> []" using l by auto
    ultimately show ?thesis using call q c(3) st1(4) by (auto simp del: pipe_call.simps)
  qed
qed simp

lemma not_closing:
  "pipe_ok st \<Longrightarrow> list_all (\<lambda>c. \<not> is_close c) cs \<Longrightarrow> pipe_run cs st = Inr (ss, st') \<Longrightarrow>
   readerClosed st' = readerClosed st \<and> writerClosed st' = writerClosed st"
proof (induction cs arbitrary: st ss)
  case (Cons c cs)
  from pipe_step [OF Cons.prems(1)] obtain ss1 st1 where s: "pipe_call c st = Inr (ss1, st1)" "step_ok c st ss1 st1" by blast
  then have ok: "pipe_ok st1" by (simp add: step_ok_def)
  from Cons.prems(3) s(1) obtain ss2 where r: "pipe_run cs st1 = Inr (ss2, st')" by (auto simp: res_simps)
  have nc: "list_all (\<lambda>c. \<not> is_close c) cs" using Cons.prems(2) by simp
  have "readerClosed st1 = readerClosed st" "writerClosed st1 = writerClosed st"
    using s(2) Cons.prems(2) by (auto simp: step_ok_def)
  then show ?case using Cons.IH [OF ok nc r] by simp
qed simp
text \<open>C20. After any history of reads and writes, closing the writing half and reading on gets every
  byte written: as soon as there are more reads of non-empty buffers than bytes left, all bytes
  have been delivered in order, no call is left waiting, and the last read reports the error of
  the close, \<open>EOF\<close> by default.\<close>

theorem pipe_reads_to_end:
  assumes "list_all (\<lambda>c. \<not> is_close c) cs" "list_all (\<lambda>(i, p). 0 < p) ps" "length (accepted cs) < length ps"
  shows "\<exists>ss st. pipe_run (cs @ PCloseWriter e # map (\<lambda>(i, p). PRead i p) ps) new_pipe = Inr (ss, st) \<and>
    delivered ss = accepted cs \<and> waiting_promises st = {#} \<and>
    last ss = ReadDone (fst (last ps)) [] (Some (default e EOF))"
proof -
  obtain s1 st1 where r1: "pipe_run cs new_pipe = Inr (s1, st1)" "run_ok cs new_pipe s1 st1"
    using pipe_run_spec [OF new_pipe_ok] by blast
  then have ok1: "pipe_ok st1" by (simp add: run_ok_def)
  have open1: "\<not> readerClosed st1" "\<not> writerClosed st1"
    using not_closing [OF new_pipe_ok assms(1) r1(1)] by (simp_all add: new_pipe_def)
  have "waiting_bytes new_pipe = []" "accepted_from new_pipe cs = accepted cs"
    by (simp_all add: new_pipe_def waiting_bytes_def accepted_from_def)
  then have b1: "delivered s1 @ waiting_bytes st1 = accepted cs" using r1(2) open1 by (auto simp: run_ok_def)
  obtain s2 st2 where r2: "pipe_call (PCloseWriter e) st1 = Inr (s2, st2)" "step_ok (PCloseWriter e) st1 s2 st2"
    using pipe_step [OF ok1] by blast
  have st2: "pipe_ok st2" "writerClosed st2" "\<not> readerClosed st2" "writerErr st2 = Some (default e EOF)"
    "delivered s2 @ waiting_bytes st2 = waiting_bytes st1"
    using r2(2) open1 by (auto simp: step_ok_def accepted_from_def)
  have "length (waiting_bytes st2) < length ps" using b1 st2(5) assms(3) by (metis length_append not_add_less2 le_less_trans linorder_not_less)
  moreover have "\<forall>(i, p)\<in>set ps. 0 < p" using assms(2) by (auto simp: list_all_iff)
  ultimately obtain s3 st3 where r3: "pipe_run (map (\<lambda>(i, p). PRead i p) ps) st2 = Inr (s3, st3)" "delivered s3 = waiting_bytes st2"
      "waiting_promises st3 = {#}" "s3 \<noteq> []" "last s3 = ReadDone (fst (last ps)) [] (Some (default (writerErr st2) EOF))"
    using reads_to_end [OF st2(1-3)] by blast
  have "pipe_run (cs @ PCloseWriter e # map (\<lambda>(i, p). PRead i p) ps) new_pipe = Inr (s1 @ s2 @ s3, st3)"
    using r1(1) r2(1) r3(1) by (simp add: pipe_run_append del: pipe_call.simps)
  moreover have "delivered (s1 @ s2 @ s3) = accepted cs" using b1 st2(5) r3(2) by simp
  ultimately show ?thesis using r3(3-5) st2(4) by auto
qed

lemma pipe_reads_to_end_witness:
  "\<exists>ss st. pipe_run [PWrite 0 [7, 8], PCloseWriter None, PRead 0 1, PRead 1 5, PRead 2 1] new_pipe = Inr (ss, st) \<and>
    delivered ss = [7, 8] \<and> waiting_promises st = {#} \<and> last ss = ReadDone 2 [] (Some EOF)"
  using pipe_reads_to_end [of "[PWrite 0 [7, 8]]" "[(0, 1), (1, 5), (2, 1)]" None] by simp

subsection \<open>Departures from Go\<close>

text \<open>A write of three bytes of which one was read reports 0 bytes and the plain error when the
  reading half is closed with an error; Go reports 1 and that error.\<close>

lemma interrupted_write:
  "pipe_run [PWrite 0 [7, 8, 9], PRead 0 1, PCloseReader (Some (ErrorText e))] new_pipe =
     Inr ([ReadDone 0 [7] None, WriteDone 0 0 (Some ErrClosedPipe)],
       new_pipe\<lparr>readerClosed := True, readerErr := Some (ErrorText e)\<rparr>)"
  by (simp add: new_pipe_def pipe_Read_def pipe_Write_def consumeNextWrite_def CloseReader_def
      resolvePendingReads_def resolvePendingWrites_def Let_def)

text \<open>A read after \<open>CloseWithError\<close> of the same half reports the error of the close, Go
  \<open>ErrClosedPipe\<close>.\<close>

lemma read_after_close:
  "pipe_run [PCloseReader (Some (ErrorText e)), PRead 0 1] new_pipe =
     Inr ([ReadDone 0 [] (Some (ErrorText e))], new_pipe\<lparr>readerClosed := True, readerErr := Some (ErrorText e)\<rparr>)"
  by (simp add: new_pipe_def pipe_Read_def CloseReader_def resolvePendingReads_def resolvePendingWrites_def)

end
