(* ===== verification/GsIo.thy ===== *)
theory GsIo
  imports GsReader GsPipe
begin

section \<open>Package io: readers and writers built from others (gs/io/io.ts)\<close>

text \<open>
  The wrappers (LimitedReader, SectionReader, OffsetWriter, MultiReader, MultiWriter, TeeReader)
  are endpoints over endpoints: the state of a wrapper holds the state of what it wraps, the
  buffers are byte slices on one heap. The functions that read until something happens take fuel;
  \<open>None\<close> means that it ran out, a wrapped reader may go on for ever. An \<open>await\<close> runs the wrapped
  method to its end; other goroutines between are not represented.
\<close>

definition ErrUnexpectedEOF :: io_error where "ErrUnexpectedEOF = ErrorText ''unexpected EOF''"

definition ErrShortBuffer :: io_error where "ErrShortBuffer = ErrorText ''short buffer''"

lemma io_errors_distinct [simp]: "ErrUnexpectedEOF \<noteq> EOF" "ErrShortBuffer \<noteq> EOF" "ErrClosedPipe \<noteq> EOF"
  by (simp_all add: ErrUnexpectedEOF_def ErrShortBuffer_def ErrClosedPipe_def)

text \<open>A call of a wrapped method: its panic or its result, with the new state put back.\<close>

type_synonym 'a outcome = "buf_panic + 'a"

type_synonym count = "int \<times> io_error option"

text \<open>\<open>$.goSlice(p, lo, hi)\<close>, and a slice expression that throws.\<close>

definition cut :: "bslice \<Rightarrow> int \<Rightarrow> int option \<Rightarrow> bslice outcome" where
  "cut p lo hi = (case byte_goSlice p (Some lo) hi None of Inl e \<Rightarrow> Inl (Thrown e) | Inr s \<Rightarrow> Inr s)"

subsection \<open>Discard\<close>

definition Discard_Write :: "unit endpoint" where "Discard_Write p = ret (int (blen p), None)"

subsection \<open>LimitedReader\<close>

record 'r limited =
  lim_R :: "'r option"
  lim_N :: int

definition LimitReader :: "'r \<Rightarrow> int \<Rightarrow> 'r limited" where "LimitReader r n = \<lparr>lim_R = Some r, lim_N = n\<rparr>"

definition LimitedReader_Read :: "'r endpoint \<Rightarrow> 'r limited endpoint" where
  "LimitedReader_Read rd p = (\<lambda>(l, h).
     if lim_N l \<le> 0 then (Inr (0, Some EOF), (l, h))
     else case lim_R l of
       None \<Rightarrow> (Inl (Thrown (ThrownError ''io.LimitedReader: nil reader'')), (l, h))
     | Some r \<Rightarrow>
       (case (if lim_N l < int (blen p) then cut p 0 (Some (lim_N l)) else Inr p) of
          Inl e \<Rightarrow> (Inl e, (l, h))
        | Inr readBuf \<Rightarrow>
          (case rd readBuf (r, h) of
             (Inl e, (r', h')) \<Rightarrow> (Inl e, (l\<lparr>lim_R := Some r'\<rparr>, h'))
           | (Inr (n, err), (r', h')) \<Rightarrow> (Inr (n, err), (l\<lparr>lim_R := Some r', lim_N := lim_N l - n\<rparr>, h')))))"

subsection \<open>SectionReader\<close>

text \<open>Over the ReadAt of a reader; the offsets are doubles in the source, exact below 2^53.\<close>

type_synonym 'r at_endpoint = "bslice \<Rightarrow> int \<Rightarrow> ('r, count) meth"

record 'r section_reader =
  sec_r :: 'r
  sec_base :: int
  sec_off :: int
  sec_limit :: int

definition NewSectionReader :: "'r \<Rightarrow> int \<Rightarrow> int \<Rightarrow> 'r section_reader" where
  "NewSectionReader r pos n = \<lparr>sec_r = r, sec_base = pos, sec_off = pos, sec_limit = pos + n\<rparr>"

definition SectionReader_Read :: "'r at_endpoint \<Rightarrow> 'r section_reader endpoint" where
  "SectionReader_Read rat p = (\<lambda>(s, h).
     if sec_limit s \<le> sec_off s then (Inr (0, Some EOF), (s, h))
     else case (let max = sec_limit s - sec_off s in if max < int (blen p) then cut p 0 (Some max) else Inr p) of
       Inl e \<Rightarrow> (Inl e, (s, h))
     | Inr p \<Rightarrow>
       (case rat p (sec_off s) (sec_r s, h) of
          (Inl e, (r', h')) \<Rightarrow> (Inl e, (s\<lparr>sec_r := r'\<rparr>, h'))
        | (Inr (n, err), (r', h')) \<Rightarrow> (Inr (n, err), (s\<lparr>sec_r := r', sec_off := sec_off s + n\<rparr>, h'))))"

text \<open>\<open>whence\<close> is 0 for the start, 1 for the current position, 2 for the end.\<close>

definition SectionReader_Seek :: "int \<Rightarrow> int \<Rightarrow> ('r section_reader, count) meth" where
  "SectionReader_Seek offset whence = (\<lambda>(s, h).
     if whence \<notin> {0, 1, 2} then (Inr (0, Some (ErrorText ''io.SectionReader.Seek: invalid whence'')), (s, h))
     else let abs = (if whence = 0 then sec_base s else if whence = 1 then sec_off s else sec_limit s) + offset in
       if abs < sec_base s then (Inr (0, Some (ErrorText ''io.SectionReader.Seek: negative position'')), (s, h))
       else (Inr (abs - sec_base s, None), (s\<lparr>sec_off := abs\<rparr>, h)))"

definition SectionReader_ReadAt :: "'r at_endpoint \<Rightarrow> 'r section_reader at_endpoint" where
  "SectionReader_ReadAt rat p pos = (\<lambda>(s, h).
     if pos < 0 \<or> sec_limit s - sec_base s \<le> pos then (Inr (0, Some EOF), (s, h))
     else let pos = pos + sec_base s in
       if sec_limit s < pos + int (blen p)
       then (case cut p 0 (Some (sec_limit s - pos)) of
           Inl e \<Rightarrow> (Inl e, (s, h))
         | Inr p \<Rightarrow> (case rat p pos (sec_r s, h) of
             (Inl e, (r', h')) \<Rightarrow> (Inl e, (s\<lparr>sec_r := r'\<rparr>, h'))
           | (Inr (n, err), (r', h')) \<Rightarrow> (Inr (n, if err = None then Some EOF else err), (s\<lparr>sec_r := r'\<rparr>, h'))))
       else (case rat p pos (sec_r s, h) of (x, (r', h')) \<Rightarrow> (x, (s\<lparr>sec_r := r'\<rparr>, h'))))"

definition SectionReader_Size :: "'r section_reader \<Rightarrow> int" where "SectionReader_Size s = sec_limit s - sec_base s"

subsection \<open>OffsetWriter\<close>

record 'w offset_writer =
  ow_w :: 'w
  ow_base :: int
  ow_off :: int

definition NewOffsetWriter :: "'w \<Rightarrow> int \<Rightarrow> 'w offset_writer" where
  "NewOffsetWriter w pos = \<lparr>ow_w = w, ow_base = pos, ow_off = 0\<rparr>"

definition OffsetWriter_Write :: "'w at_endpoint \<Rightarrow> 'w offset_writer endpoint" where
  "OffsetWriter_Write wat p = (\<lambda>(o', h).
     case wat p (ow_base o' + ow_off o') (ow_w o', h) of
       (Inl e, (w', h')) \<Rightarrow> (Inl e, (o'\<lparr>ow_w := w'\<rparr>, h'))
     | (Inr (n, err), (w', h')) \<Rightarrow> (Inr (n, err), (o'\<lparr>ow_w := w', ow_off := ow_off o' + n\<rparr>, h')))"

definition OffsetWriter_WriteAt :: "'w at_endpoint \<Rightarrow> 'w offset_writer at_endpoint" where
  "OffsetWriter_WriteAt wat p pos = (\<lambda>(o', h).
     if pos < 0 then (Inr (0, Some (ErrorText ''io.OffsetWriter.WriteAt: negative offset'')), (o', h))
     else case wat p (ow_base o' + pos) (ow_w o', h) of (x, (w', h')) \<Rightarrow> (x, (o'\<lparr>ow_w := w'\<rparr>, h')))"

definition OffsetWriter_Seek :: "int \<Rightarrow> int \<Rightarrow> ('w offset_writer, count) meth" where
  "OffsetWriter_Seek offset whence = (\<lambda>(o', h).
     if whence \<notin> {0, 1} then (Inr (0, Some (ErrorText ''io.OffsetWriter.Seek: invalid whence'')), (o', h))
     else let abs = (if whence = 0 then offset else ow_off o' + offset) in
       if abs < 0 then (Inr (0, Some (ErrorText ''io.OffsetWriter.Seek: negative position'')), (o', h))
       else (Inr (abs, None), (o'\<lparr>ow_off := abs\<rparr>, h)))"

subsection \<open>MultiReader, MultiWriter, TeeReader\<close>

text \<open>The readers that are left, each with its state.\<close>

fun multiReader_Read :: "'r endpoint \<Rightarrow> bslice \<Rightarrow> 'r list \<Rightarrow> bheap \<Rightarrow> count outcome \<times> 'r list \<times> bheap" where
  "multiReader_Read rd p [] h = (Inr (0, Some EOF), ([], h))"
| "multiReader_Read rd p [r] h =
     (case rd p (r, h) of
        (Inl e, (r', h')) \<Rightarrow> (Inl e, ([r'], h'))
      | (Inr (n, err), (r', h')) \<Rightarrow> (Inr (n, err), (if err = Some EOF then [] else [r'], h')))"
| "multiReader_Read rd p (r # rest) h =
     (case rd p (r, h) of
        (Inl e, (r', h')) \<Rightarrow> (Inl e, (r' # rest, h'))
      | (Inr (n, err), (r', h')) \<Rightarrow>
          if err = Some EOF then multiReader_Read rd p rest h' else (Inr (n, err), (r' # rest, h')))"

text \<open>A writer may be nil.\<close>

fun multiWriter_Write :: "'w endpoint \<Rightarrow> bslice \<Rightarrow> 'w option list \<Rightarrow> bheap \<Rightarrow> count outcome \<times> 'w option list \<times> bheap" where
  "multiWriter_Write wr p [] h = (Inr (int (blen p), None), ([], h))"
| "multiWriter_Write wr p (None # ws) h = (Inl (Thrown (ThrownError ''io.MultiWriter: nil writer'')), (None # ws, h))"
| "multiWriter_Write wr p (Some w # ws) h =
     (case wr p (w, h) of
        (Inl e, (w', h')) \<Rightarrow> (Inl e, (Some w' # ws, h'))
      | (Inr (n, err), (w', h')) \<Rightarrow>
          if err \<noteq> None then (Inr (n, err), (Some w' # ws, h'))
          else if n \<noteq> int (blen p) then (Inr (n, Some ErrShortWrite), (Some w' # ws, h'))
          else (case multiWriter_Write wr p ws h' of (x, (ws', h'')) \<Rightarrow> (x, (Some w' # ws', h''))))"

definition teeReader_Read :: "'r endpoint \<Rightarrow> 'w endpoint \<Rightarrow> ('r option \<times> 'w option) endpoint" where
  "teeReader_Read rd wr p = (\<lambda>((r0, w0), h). case r0 of
       None \<Rightarrow> (Inl (Thrown (ThrownError ''io.TeeReader: nil reader'')), ((r0, w0), h))
     | Some r \<Rightarrow> (case rd p (r, h) of
         (Inl e, (r', h')) \<Rightarrow> (Inl e, ((Some r', w0), h'))
       | (Inr (n, err), (r', h')) \<Rightarrow>
           if 0 < n then (case w0 of
               None \<Rightarrow> (Inl (Thrown (ThrownError ''io.TeeReader: nil writer'')), ((Some r', w0), h'))
             | Some w \<Rightarrow> (case cut p 0 (Some n) of
                 Inl e \<Rightarrow> (Inl e, ((Some r', w0), h'))
               | Inr q \<Rightarrow> (case wr q (w, h') of
                   (Inl e, (w', h'')) \<Rightarrow> (Inl e, ((Some r', Some w'), h''))
                 | (Inr (nw, ew), (w', h'')) \<Rightarrow>
                     (Inr (n, if ew \<noteq> None then ew else if nw \<noteq> n then Some ErrShortWrite else err), ((Some r', Some w'), h'')))))
           else (Inr (n, err), ((Some r', w0), h'))))"

subsection \<open>Copy\<close>

primrec copy_loop :: "nat \<Rightarrow> 'r endpoint \<Rightarrow> 'w endpoint \<Rightarrow> bslice \<Rightarrow> int \<Rightarrow> 'r \<Rightarrow> 'w \<Rightarrow> bheap \<Rightarrow>
    (count outcome \<times> 'r \<times> 'w \<times> bheap) option" where
  "copy_loop 0 = (\<lambda>rd wr into written r w h. None)"
| "copy_loop (Suc fuel) = (\<lambda>rd wr into written r w h.
     case rd into (r, h) of
       (Inl e, (r1, h1)) \<Rightarrow> Some (Inl e, r1, w, h1)
     | (Inr (nr, er), (r1, h1)) \<Rightarrow>
         let next = (\<lambda>written w h. if er = None then copy_loop fuel rd wr into written r1 w h
               else Some (Inr (written, if er = Some EOF then None else er), r1, w, h)) in
         if 0 < nr then (case cut into 0 (Some nr) of
             Inl e \<Rightarrow> Some (Inl e, r1, w, h1)
           | Inr b \<Rightarrow> (case wr b (w, h1) of
               (Inl e, (w1, h2)) \<Rightarrow> Some (Inl e, r1, w1, h2)
             | (Inr (nw, ew), (w1, h2)) \<Rightarrow>
                 if nw < 0 \<or> nr < nw then Some (Inr (written, if ew = None then Some ErrShortWrite else ew), r1, w1, h2)
                 else if ew \<noteq> None then Some (Inr (written + nw, ew), r1, w1, h2)
                 else if nr \<noteq> nw then Some (Inr (written + nw, Some ErrShortWrite), r1, w1, h2)
                 else next (written + nw) w1 h2))
         else next written w h1)"

text \<open>The \<open>WriteTo\<close> of the source and the \<open>ReadFrom\<close> of the target, where their objects have one.\<close>

type_synonym ('r, 'w) writer_to = "'w endpoint \<Rightarrow> 'w \<Rightarrow> 'r \<times> bheap \<Rightarrow> count outcome \<times> 'w \<times> 'r \<times> bheap"

type_synonym ('r, 'w) reader_from =
  "nat \<Rightarrow> 'r endpoint \<Rightarrow> 'r \<Rightarrow> 'w \<times> bheap \<Rightarrow> (count outcome \<times> 'r \<times> 'w \<times> bheap) option"

text \<open>\<open>CopyBuffer\<close> for a source and a target that are not nil.\<close>

definition copy_between :: "nat \<Rightarrow> ('r, 'w) writer_to option \<Rightarrow> ('r, 'w) reader_from option \<Rightarrow> 'r endpoint \<Rightarrow> 'w endpoint \<Rightarrow>
    bslice option \<Rightarrow> 'r \<Rightarrow> 'w \<Rightarrow> bheap \<Rightarrow> (count outcome \<times> 'r \<times> 'w \<times> bheap) option" where
  "copy_between fuel wt rf rd wr into r w h =
     (case wt of
        Some m \<Rightarrow> (case m wr w (r, h) of (x, w', (r', h')) \<Rightarrow> Some (x, r', w', h'))
      | None \<Rightarrow> (case rf of
          Some m \<Rightarrow> (case m fuel rd r (w, h) of None \<Rightarrow> None | Some (x, r', (w', h')) \<Rightarrow> Some (x, r', w', h'))
        | None \<Rightarrow> (case (case into of Some b \<Rightarrow> Inr (b, h) | None \<Rightarrow> byte_makeSlice (32 * 1024) None h) of
            Inl e \<Rightarrow> Some (Inl (Thrown e), r, w, h)
          | Inr (b, h1) \<Rightarrow> copy_loop fuel rd wr b 0 r w h1)))"

text \<open>An argument is nil, an object with the method itself, or one that holds such an object (or nil) in
  its embedded field \<open>Reader\<close> or \<open>Writer\<close>.\<close>

datatype 'e io_arg = NilArg | Itself 'e | Embeds "'e option"

fun unwrapReader :: "'e io_arg \<Rightarrow> 'e option" where
  "unwrapReader NilArg = None"
| "unwrapReader (Itself e) = Some e"
| "unwrapReader (Embeds e) = e"

fun unwrapWriter :: "'e io_arg \<Rightarrow> 'e option" where
  "unwrapWriter NilArg = None"
| "unwrapWriter (Itself e) = Some e"
| "unwrapWriter (Embeds e) = e"

definition CopyBuffer :: "nat \<Rightarrow> ('w endpoint \<times> ('r, 'w) reader_from option) io_arg \<Rightarrow> ('r endpoint \<times> ('r, 'w) writer_to option) io_arg \<Rightarrow>
    bslice option \<Rightarrow> 'r \<Rightarrow> 'w \<Rightarrow> bheap \<Rightarrow> (count outcome \<times> 'r \<times> 'w \<times> bheap) option" where
  "CopyBuffer fuel dst src into r w h =
     (case (unwrapWriter dst, unwrapReader src) of
        (Some (wr, rf), Some (rd, wt)) \<Rightarrow> copy_between fuel wt rf rd wr into r w h
      | _ \<Rightarrow> Some (Inr (0, Some (ErrorText ''io: copy with nil reader or writer'')), r, w, h))"

definition Copy :: "nat \<Rightarrow> ('w endpoint \<times> ('r, 'w) reader_from option) io_arg \<Rightarrow> ('r endpoint \<times> ('r, 'w) writer_to option) io_arg \<Rightarrow>
    'r \<Rightarrow> 'w \<Rightarrow> bheap \<Rightarrow> (count outcome \<times> 'r \<times> 'w \<times> bheap) option" where
  "Copy fuel dst src r w h = CopyBuffer fuel dst src None r w h"

text \<open>A LimitedReader has no \<open>WriteTo\<close>.\<close>

definition CopyN :: "nat \<Rightarrow> ('r limited, 'w) reader_from option \<Rightarrow> 'r endpoint \<Rightarrow> 'w endpoint \<Rightarrow> 'r \<Rightarrow> int \<Rightarrow> 'w \<Rightarrow> bheap \<Rightarrow>
    (count outcome \<times> 'r limited \<times> 'w \<times> bheap) option" where
  "CopyN fuel rf rd wr r n w h =
     (case Copy fuel (Itself (wr, rf)) (Itself (LimitedReader_Read rd, None)) (LimitReader r n) w h of
        None \<Rightarrow> None
      | Some (Inl e, x) \<Rightarrow> Some (Inl e, x)
      | Some (Inr (written, err), x) \<Rightarrow>
          Some (Inr (if written = n then (written, None)
            else if written < n \<and> err = None then (written, Some EOF) else (written, err)), x))"

subsection \<open>ReadAtLeast, ReadFull and ReadAll\<close>

primrec at_least_loop :: "nat \<Rightarrow> 'r endpoint \<Rightarrow> bslice \<Rightarrow> int \<Rightarrow> int \<Rightarrow> 'r \<times> bheap \<Rightarrow> (count outcome \<times> 'r \<times> bheap) option" where
  "at_least_loop 0 = (\<lambda>rd into mn n x. None)"
| "at_least_loop (Suc fuel) = (\<lambda>rd into mn n (r, h).
     if n < mn then
       (case cut into n None of
          Inl e \<Rightarrow> Some (Inl e, (r, h))
        | Inr b \<Rightarrow> (case rd b (r, h) of
            (Inl e, x) \<Rightarrow> Some (Inl e, x)
          | (Inr (nn, err), x) \<Rightarrow>
              let n = n + nn in
              if err = None then at_least_loop fuel rd into mn n x
              else if err = Some EOF \<and> mn \<le> n then Some (Inr (n, None), x)
              else if err = Some EOF \<and> n = 0 then Some (Inr (n, Some EOF), x)
              else if err = Some EOF \<and> n < mn then Some (Inr (n, Some ErrUnexpectedEOF), x)
              else Some (Inr (n, err), x)))
     else Some (Inr (n, None), (r, h)))"

definition ReadAtLeast :: "nat \<Rightarrow> 'r endpoint \<Rightarrow> bslice \<Rightarrow> int \<Rightarrow> 'r \<times> bheap \<Rightarrow> (count outcome \<times> 'r \<times> bheap) option" where
  "ReadAtLeast fuel rd into mn x =
     (if int (blen into) < mn then Some (Inr (0, Some ErrShortBuffer), x) else at_least_loop fuel rd into mn 0 x)"

definition ReadFull :: "nat \<Rightarrow> 'r endpoint \<Rightarrow> bslice \<Rightarrow> 'r \<times> bheap \<Rightarrow> (count outcome \<times> 'r \<times> bheap) option" where
  "ReadFull fuel rd into x = ReadAtLeast fuel rd into (int (blen into)) x"

text \<open>The chunks are slices of their own.\<close>

definition chunk_of :: "bslice \<Rightarrow> int \<Rightarrow> bheap \<Rightarrow> (bslice \<times> bheap) res" where
  "chunk_of into n h = bindR (byte_makeSlice n None h) (\<lambda>(chunk, h1).
     bindR (byte_goSlice into (Some 0) (Some n) None) (\<lambda>s. bindR (byte_copy chunk s h1) (\<lambda>(_, h2). Inr (chunk, h2))))"

primrec chunks_loop :: "nat \<Rightarrow> 'r endpoint \<Rightarrow> bslice \<Rightarrow> bslice list \<Rightarrow> int \<Rightarrow> 'r \<times> bheap \<Rightarrow>
    ((bslice list \<times> int \<times> io_error option) outcome \<times> 'r \<times> bheap) option" where
  "chunks_loop 0 = (\<lambda>rd into chunks totalLength x. None)"
| "chunks_loop (Suc fuel) = (\<lambda>rd into chunks totalLength x.
     case rd into x of
       (Inl e, y) \<Rightarrow> Some (Inl e, y)
     | (Inr (n, err), (r1, h1)) \<Rightarrow>
         (case (if 0 < n then bindR (chunk_of into n h1) (\<lambda>(c, h2). Inr (chunks @ [c], totalLength + n, h2)) else Inr (chunks, totalLength, h1)) of
            Inl e \<Rightarrow> Some (Inl (Thrown e), (r1, h1))
          | Inr (chunks, totalLength, h2) \<Rightarrow>
              if err = None then chunks_loop fuel rd into chunks totalLength (r1, h2)
              else Some (Inr (chunks, totalLength, if err = Some EOF then None else err), (r1, h2))))"

fun combine :: "bslice \<Rightarrow> int \<Rightarrow> bslice list \<Rightarrow> bheap \<Rightarrow> bheap res" where
  "combine whole offset [] h = Inr h"
| "combine whole offset (c # cs) h =
     bindR (byte_goSlice whole (Some offset) (Some (offset + int (blen c))) None) (\<lambda>s.
       bindR (byte_copy s c h) (\<lambda>(_, h1). combine whole (offset + int (blen c)) cs h1))"

definition ReadAll :: "nat \<Rightarrow> 'r endpoint \<Rightarrow> 'r \<times> bheap \<Rightarrow> ((bslice \<times> io_error option) outcome \<times> 'r \<times> bheap) option" where
  "ReadAll fuel rd = (\<lambda>(r, h).
     case byte_makeSlice 512 None h of
       Inl e \<Rightarrow> Some (Inl (Thrown e), (r, h))
     | Inr (into, h1) \<Rightarrow> (case chunks_loop fuel rd into [] 0 (r, h1) of
         None \<Rightarrow> None
       | Some (Inl e, x) \<Rightarrow> Some (Inl e, x)
       | Some (Inr (chunks, totalLength, err), (r2, h2)) \<Rightarrow>
           (case bindR (byte_makeSlice totalLength None h2) (\<lambda>(whole, h3).
               bindR (combine whole 0 chunks h3) (\<lambda>h4. Inr (whole, h4))) of
              Inl e \<Rightarrow> Some (Inl (Thrown e), (r2, h2))
            | Inr (whole, h4) \<Rightarrow> Some (Inr (whole, err), (r2, h4)))))"
subsection \<open>Slices of the caller's buffer\<close>

lemma cut_between: "hi \<le> bcap p \<Longrightarrow> lo \<le> hi \<Longrightarrow> cut p (int lo) (Some (int hi)) = Inr (sub_slice p lo hi)"
  using slice0_between [of lo hi p] by (auto simp: cut_def slice0_def res_simps split: sum.splits)

lemma cut_from: "lo \<le> blen p \<Longrightarrow> bslice_ok h p \<Longrightarrow> cut p (int lo) None = Inr (sub_slice p lo (blen p))"
  using slice0_from [of lo p h] by (auto simp: cut_def slice0_def res_simps split: sum.splits)

text \<open>A read into a part of a buffer is a change of the buffer.\<close>

lemma fill_part:
  assumes p: "bslice_ok h p" "lo \<le> hi" "hi \<le> blen p" "m \<le> hi - lo"
    and ch: "buf_changes (u_buf (bback p)) {bstart p + lo..<bstart p + lo + m} h h'"
    and fl: "take m (bytes_of h' (sub_slice p lo hi)) = xs"
  shows "bslice_ok h' p" "take lo (bytes_of h' p) = take lo (bytes_of h p)" "take m (drop lo (bytes_of h' p)) = xs"
proof -
  show ok: "bslice_ok h' p" by (rule buf_changes_ok [OF ch p(1)])
  show "take m (drop lo (bytes_of h' p)) = xs"
    using sub_slice_within [OF ok p(2,3)] fl p(4) by (simp add: min_def)
  have fit: "bstart p + bcap p \<le> length (buffers h (u_buf (bback p)))" "u_buf (bback p) < next_buf h"
    using p(1) by (auto simp: bslice_ok_def u8_ok_def bstart_def)
  have "take lo (bwindow h' p) = take lo (bwindow h p)"
    using ch fit p length_bwindow [OF ok] length_bwindow [OF p(1)] p(1)
    by (auto simp: bwindow_def buf_changes_def bslice_ok_def intro!: nth_equalityI)
  then show "take lo (bytes_of h' p) = take lo (bytes_of h p)"
    using bytes_of_window [OF ok] bytes_of_window [OF p(1)] p(2,3) by (simp add: min_def)
qed

lemma buf_changes_trans:
  assumes "buf_changes c I h h1" "buf_changes c J h1 h2"
  shows "buf_changes c (I \<union> J) h h2"
  using assms by (auto simp: buf_changes_def)

subsection \<open>Readers over a reader that keeps its promise\<close>

definition limited_left :: "('r \<Rightarrow> bheap \<Rightarrow> byte list) \<Rightarrow> 'r limited \<Rightarrow> bheap \<Rightarrow> byte list" where
  "limited_left lft l h = (case lim_R l of None \<Rightarrow> [] | Some r \<Rightarrow> take (nat (lim_N l)) (lft r h))"

text \<open>The bytes behind the limit are \<open>K\<close>, whatever is read.\<close>

definition limited_ok :: "('r \<Rightarrow> bheap \<Rightarrow> bool) \<Rightarrow> ('r \<Rightarrow> bheap \<Rightarrow> byte list) \<Rightarrow> byte list \<Rightarrow> 'r limited \<Rightarrow> bheap \<Rightarrow> bool" where
  "limited_ok ok lft K l h = (case lim_R l of None \<Rightarrow> False | Some r \<Rightarrow> ok r h \<and> drop (nat (lim_N l)) (lft r h) = K)"

definition limited_uses :: "('r \<Rightarrow> nat \<Rightarrow> bool) \<Rightarrow> 'r limited \<Rightarrow> nat \<Rightarrow> bool" where
  "limited_uses us l = (case lim_R l of None \<Rightarrow> (\<lambda>c. False) | Some r \<Rightarrow> us r)"

context byte_reader
begin

text \<open>A LimitedReader is again a reader that keeps the promise, over the bytes up to its limit.\<close>

lemma limited_reader:
  "byte_reader (LimitedReader_Read rd) (limited_ok rok left K) (limited_left left) (limited_uses uses)"
proof unfold_locales
  fix l h c assume "limited_ok rok left K l h" "limited_uses uses l c"
  then show "c < next_buf h" using uses_old by (auto simp: limited_ok_def limited_uses_def split: option.splits)
next
  fix l and h h' :: bheap
  assume a: "limited_ok rok left K l h" "next_buf h \<le> next_buf h'"
    "\<And>c. limited_uses uses l c \<Longrightarrow> buffers h' c = buffers h c"
  obtain r where r: "lim_R l = Some r" "rok r h" using a(1) by (auto simp: limited_ok_def split: option.splits)
  have "rok r h' \<and> left r h' = left r h" using kept [OF r(2) a(2)] a(3) r(1) by (simp add: limited_uses_def)
  then show "limited_ok rok left K l h' \<and> limited_left left l h' = limited_left left l h"
    using a(1) r(1) by (simp add: limited_ok_def limited_left_def)
next
  fix l h a assume ok: "limited_ok rok left K l h" and a: "bslice_ok h a" "0 < blen a" "\<not> limited_uses uses l (u_buf (bback a))"
  obtain r where r: "lim_R l = Some r" "rok r h" "drop (nat (lim_N l)) (left r h) = K"
    using ok by (auto simp: limited_ok_def split: option.splits)
  show "\<exists>m e l' h'. LimitedReader_Read rd a (l, h) = (Inr (int m, e), (l', h')) \<and> m \<le> blen a \<and>
      m \<le> length (limited_left left l h) \<and> take m (bytes_of h' a) = take m (limited_left left l h) \<and>
      buf_changes (u_buf (bback a)) {bstart a..<bstart a + m} h h' \<and> limited_ok rok left K l' h' \<and>
      limited_uses uses l' = limited_uses uses l \<and> limited_left left l' h' = drop m (limited_left left l h) \<and>
      (e = None \<and> 0 < m \<or> e = Some EOF \<and> limited_left left l' h' = [])"
  proof (cases "lim_N l \<le> 0")
    case True
    then show ?thesis using ok r(1)
      by (intro exI [of _ 0] exI [of _ "Some EOF"] exI [of _ l] exI [of _ h])
        (simp add: LimitedReader_Read_def limited_left_def buf_changes_def)
  next
    case False
    then obtain N where N: "lim_N l = int N" "0 < N" using pos_int_cases [of "lim_N l"] by auto
    have cap: "blen a \<le> bcap a" using a(1) by (simp add: bslice_ok_def)
    define k where "k = min N (blen a)"
    define b where "b = (if N < blen a then sub_slice a 0 N else a)"
    have b: "bslice_ok h b" "blen b = k" "u_buf (bback b) = u_buf (bback a)" "bstart b = bstart a"
      using a(1) cap sub_slice [OF a(1), of 0 N] by (auto simp: b_def k_def)
    have "0 < blen b" "\<not> uses r (u_buf (bback b))" using a(2,3) N(2) b r(1) by (auto simp: k_def limited_uses_def)
    from fills [OF r(2) b(1) this] obtain m e r' h' where
      f: "rd b (r, h) = (Inr (int m, e), (r', h'))" "m \<le> k" "m \<le> length (left r h)"
      "take m (bytes_of h' b) = take m (left r h)" "buf_changes (u_buf (bback a)) {bstart a..<bstart a + m} h h'"
      "rok r' h'" "uses r' = uses r" "left r' h' = drop m (left r h)" "e = None \<and> 0 < m \<or> e = Some EOF \<and> left r' h' = []"
      unfolding b by blast
    have mk: "m \<le> N" "m \<le> blen a" using f(2) by (auto simp: k_def)
    have ok': "bslice_ok h' a" by (rule buf_changes_ok [OF f(5) a(1)])
    have got: "take m (bytes_of h' a) = take m (left r h)"
      using f(4) mk sub_slice_within [OF ok', of 0 N] by (auto simp: b_def min_def split: if_splits)
    let ?l = "l\<lparr>lim_R := Some r', lim_N := int N - int m\<rparr>"
    have n': "nat (int N - int m) = N - m" by simp
    have rb: "(if lim_N l < int (blen a) then cut a 0 (Some (lim_N l)) else Inr a) = Inr b"
      using cut_between [of N a 0] N(1) cap by (auto simp: b_def)
    have "LimitedReader_Read rd a (l, h) = (Inr (int m, e), (?l, h'))"
      unfolding LimitedReader_Read_def prod.case r(1) option.case rb sum.case f(1) using N by simp
    moreover have "limited_left left ?l h' = drop m (limited_left left l h)"
      by (simp add: limited_left_def r(1) N(1) n' f(8) drop_take)
    moreover have "limited_ok rok left K ?l h'"
      using f(6) r(3) N(1) mk(1) by (simp add: limited_ok_def n' f(8))
    moreover have "limited_uses uses ?l = limited_uses uses l" by (simp add: limited_uses_def r(1) f(7))
    moreover have "take m (bytes_of h' a) = take m (limited_left left l h)" "m \<le> length (limited_left left l h)"
      using got mk(1) f(3) N(1) by (simp_all add: limited_left_def r(1) min_def)
    moreover have "limited_left left ?l h' = []" if "left r' h' = []" using that by (simp add: limited_left_def)
    ultimately show ?thesis using mk(2) f(5,9) by blast
  qed
qed

end
context byte_reader
begin

text \<open>What a run of the loop that left \<open>k\<close> more bytes in the buffer \<open>p\<close> did.\<close>

definition filled :: "bslice \<Rightarrow> nat \<Rightarrow> nat \<Rightarrow> 'r \<Rightarrow> bheap \<Rightarrow> 'r \<Rightarrow> bheap \<Rightarrow> bool" where
  "filled p n k r h r' h' \<longleftrightarrow> n + k \<le> blen p \<and> k \<le> length (left r h) \<and>
     take n (bytes_of h' p) = take n (bytes_of h p) \<and> take k (drop n (bytes_of h' p)) = take k (left r h) \<and>
     buf_changes (u_buf (bback p)) {bstart p + n..<bstart p + n + k} h h' \<and>
     rok r' h' \<and> uses r' = uses r \<and> left r' h' = drop k (left r h)"

lemma filled_trans:
  assumes "filled p n k r h r1 h1" "filled p (n + k) j r1 h1 r2 h2"
  shows "filled p n (k + j) r h r2 h2"
proof -
  note a = assms(1) [unfolded filled_def] and b = assms(2) [unfolded filled_def]
  have t: "take (n + k) (bytes_of h2 p) = take (n + k) (bytes_of h1 p)" using b by blast
  have "take n (bytes_of h2 p) = take n (take (n + k) (bytes_of h2 p))" by simp
  also have "\<dots> = take n (bytes_of h p)" unfolding t using a by simp
  finally have 1: "take n (bytes_of h2 p) = take n (bytes_of h p)" .
  have "take k (drop n (bytes_of h2 p)) = drop n (take (n + k) (bytes_of h2 p))" by (simp add: drop_take)
  also have "\<dots> = take k (left r h)" unfolding t using a by (simp add: drop_take)
  finally have 2: "take (k + j) (drop n (bytes_of h2 p)) = take (k + j) (left r h)"
    using a b by (simp add: take_add add.commute [of k n])
  have 3: "buf_changes (u_buf (bback p)) ({bstart p + n..<bstart p + n + k} \<union> {bstart p + (n + k)..<bstart p + (n + k) + j}) h h2"
    using buf_changes_trans a b by blast
  have "{bstart p + n..<bstart p + n + k} \<union> {bstart p + (n + k)..<bstart p + (n + k) + j} = {bstart p + n..<bstart p + n + (k + j)}"
    by auto
  then show ?thesis using 1 2 3 a b by (auto simp: filled_def add.commute add.assoc)
qed

lemma fills_part:
  assumes "rok r h" "bslice_ok h p" "\<not> uses r (u_buf (bback p))" "n < blen p"
  shows "\<exists>m e r' h'. rd (sub_slice p n (blen p)) (r, h) = (Inr (int m, e), (r', h')) \<and> filled p n m r h r' h' \<and>
    (e = None \<and> 0 < m \<or> e = Some EOF \<and> m = length (left r h))"
proof -
  have cap: "blen p \<le> bcap p" using assms(2) by (simp add: bslice_ok_def)
  let ?b = "sub_slice p n (blen p)"
  note b = sub_slice(1,2,4,5) [OF assms(2) less_imp_le [OF assms(4)] cap]
  have "0 < blen ?b" "\<not> uses r (u_buf (bback ?b))" using b(2,3) assms(3,4) by simp_all
  from fills [OF assms(1) b(1) this] obtain m e r' h' where
    f: "rd ?b (r, h) = (Inr (int m, e), (r', h'))" "m \<le> blen p - n" "m \<le> length (left r h)"
    "take m (bytes_of h' ?b) = take m (left r h)" "buf_changes (u_buf (bback p)) {bstart p + n..<bstart p + n + m} h h'"
    "rok r' h'" "uses r' = uses r" "left r' h' = drop m (left r h)" "e = None \<and> 0 < m \<or> e = Some EOF \<and> left r' h' = []"
    unfolding b(2-4) by blast
  note g = fill_part [OF assms(2) less_imp_le [OF assms(4)] order_refl f(2,5,4)]
  have "m = length (left r h)" if "left r' h' = []" using that f(3,8) by simp
  then show ?thesis using f g(2,3) assms(4) unfolding filled_def by (intro exI [of _ m] exI [of _ e] exI [of _ r'] exI [of _ h']) auto
qed

lemma at_least_run:
  assumes "rok r h" "bslice_ok h p" "\<not> uses r (u_buf (bback p))" "n \<le> blen p" "mn \<le> blen p" "mn - n < fuel"
  shows "\<exists>k r' h'. at_least_loop fuel rd p (int mn) (int n) (r, h) =
      Some (Inr (int (n + k), if mn \<le> n + k then None else if n + k = 0 then Some EOF else Some ErrUnexpectedEOF), (r', h')) \<and>
    filled p n k r h r' h' \<and> (mn \<le> n + k \<or> k = length (left r h))"
  using assms
proof (induction fuel arbitrary: n r h)
  case (Suc fuel)
  show ?case
  proof (cases "n < mn")
    case False
    have "filled p n 0 r h r h" using Suc.prems by (simp add: filled_def buf_changes_def)
    then show ?thesis using False by (intro exI [of _ 0] exI [of _ r] exI [of _ h]) simp
  next
    case True
    then have np: "n < blen p" using Suc.prems(5) by simp
    obtain m e r1 h1 where f: "rd (sub_slice p n (blen p)) (r, h) = (Inr (int m, e), (r1, h1))" "filled p n m r h r1 h1"
      "e = None \<and> 0 < m \<or> e = Some EOF \<and> m = length (left r h)"
      using fills_part [OF Suc.prems(1-3) np] by blast
    have cn: "cut p (int n) None = Inr (sub_slice p n (blen p))" by (rule cut_from [OF Suc.prems(4,2)])
    note fl = f(2) [unfolded filled_def]
    show ?thesis
    proof (cases e)
      case None
      have less: "mn - (n + m) < fuel" using Suc.prems(6) True f(3) None by simp
      have "bslice_ok h1 p" using buf_changes_ok [of _ _ h h1 p] fl Suc.prems(2) by blast
      then obtain k r' h' where k: "at_least_loop fuel rd p (int mn) (int (n + m)) (r1, h1) = Some (Inr (int (n + m + k),
          if mn \<le> n + m + k then None else if n + m + k = 0 then Some EOF else Some ErrUnexpectedEOF), (r', h'))"
        "filled p (n + m) k r1 h1 r' h'" "mn \<le> n + m + k \<or> k = length (left r1 h1)"
        using Suc.IH [of r1 h1 "n + m"] fl f(3) None Suc.prems(3,5) less by auto
      have "at_least_loop (Suc fuel) rd p (int mn) (int n) (r, h) = at_least_loop fuel rd p (int mn) (int (n + m)) (r1, h1)"
        using True by (simp add: cn f(1) None)
      then have "at_least_loop (Suc fuel) rd p (int mn) (int n) (r, h) = Some (Inr (int (n + (m + k)),
          if mn \<le> n + (m + k) then None else if n + (m + k) = 0 then Some EOF else Some ErrUnexpectedEOF), (r', h'))"
        unfolding k(1) by (simp only: add.assoc)
      moreover have "mn \<le> n + (m + k) \<or> m + k = length (left r h)" using k(3) fl by auto
      ultimately show ?thesis using filled_trans [OF f(2) k(2)] by blast
    next
      case (Some x)
      then have x: "x = EOF" "m = length (left r h)" using f(3) by auto
      have "at_least_loop (Suc fuel) rd p (int mn) (int n) (r, h) = Some (Inr (int (n + m),
          if mn \<le> n + m then None else if n + m = 0 then Some EOF else Some ErrUnexpectedEOF), (r1, h1))"
        using True by (auto simp: cn f(1) Some x(1))
      then show ?thesis using f(2) x(2) by blast
    qed
  qed
qed simp

text \<open>\<open>ReadFull\<close> fills the buffer, or reports how much there was.\<close>

lemma ReadFull_run:
  assumes "rok r h" "bslice_ok h p" "\<not> uses r (u_buf (bback p))" "blen p < fuel"
  shows "\<exists>r' h'. ReadFull fuel rd p (r, h) = Some (Inr (int (min (blen p) (length (left r h))),
      if blen p \<le> length (left r h) then None else if left r h = [] then Some EOF else Some ErrUnexpectedEOF), (r', h')) \<and>
    filled p 0 (min (blen p) (length (left r h))) r h r' h'"
proof -
  from at_least_run [OF assms(1-3) le0 order_refl, of fuel] assms(4) obtain k r' h' where
    k: "at_least_loop fuel rd p (int (blen p)) 0 (r, h) =
      Some (Inr (int k, if blen p \<le> k then None else if k = 0 then Some EOF else Some ErrUnexpectedEOF), (r', h'))"
    "filled p 0 k r h r' h'" "blen p \<le> k \<or> k = length (left r h)" by auto
  have m: "k = min (blen p) (length (left r h))" using k(2,3) by (auto simp: filled_def)
  have "ReadFull fuel rd p (r, h) = Some (Inr (int k, if blen p \<le> k then None else if k = 0 then Some EOF else Some ErrUnexpectedEOF), (r', h'))"
    using k(1) by (simp add: ReadFull_def ReadAtLeast_def)
  moreover have "(if blen p \<le> k then None else if k = 0 then Some EOF else Some ErrUnexpectedEOF) =
      (if blen p \<le> length (left r h) then None else if left r h = [] then Some EOF else Some ErrUnexpectedEOF)"
    using m by auto
  ultimately show ?thesis using k(2) m by auto
qed

end

text \<open>A LimitedReader over a bytes.Reader.\<close>

lemma limited_over_reader:
  "byte_reader (LimitedReader_Read reader_endpoint) (limited_ok reader_ok unread K) (limited_left unread) (limited_uses reads_array)"
  by (rule rr.limited_reader)

interpretation lr: byte_reader "LimitedReader_Read reader_endpoint" "limited_ok reader_ok unread K" "limited_left unread"
    "limited_uses reads_array" for K
  by (rule limited_over_reader)
subsection \<open>Copying\<close>

text \<open>A writer that takes all and stays usable: \<open>wok n\<close> is room for \<open>n\<close> bytes.\<close>

locale byte_sink = byte_writer wr wok written owned for wr :: "'w endpoint" and wok written owned +
  assumes owned_old: "wok n w h \<Longrightarrow> owned w c \<Longrightarrow> c < next_buf h"
    and sink_kept: "wok n w h \<Longrightarrow> next_buf h \<le> next_buf h' \<Longrightarrow> (\<And>c. owned w c \<Longrightarrow> buffers h' c = buffers h c) \<Longrightarrow>
      wok n w h' \<and> written w h' = written w h"
    and less_room: "wok n w h \<Longrightarrow> m \<le> n \<Longrightarrow> wok m w h"
    and room_left: "wok (blen a + n) w h \<Longrightarrow> bslice_ok h a \<Longrightarrow> \<not> owned w (u_buf (bback a)) \<Longrightarrow>
      wr a (w, h) = (x, (w', h')) \<Longrightarrow> wok n w' h' \<and> (\<forall>c. owned w' c \<longrightarrow> owned w c \<or> next_buf h \<le> c)"

interpretation bs: byte_sink buffer_endpoint "\<lambda>n b h. room n (b, h)" content owns
proof unfold_locales
  fix n b h c assume "room n (b, h)" "owns b c"
  then show "c < next_buf h" by (auto simp: room_def buf_ok_def owns_def bslice_ok_def u8_ok_def split: option.splits)
next
  fix n b and h h' :: bheap
  assume a: "room n (b, h)" "next_buf h \<le> next_buf h'" "\<And>c. owns b c \<Longrightarrow> buffers h' c = buffers h c"
  show "room n (b, h') \<and> content b h' = content b h"
  proof (cases "buf b")
    case (Some s)
    have "bslice_ok h s" using a(1) Some by (auto simp: room_def buf_ok_def)
    from slice_kept [OF this a(2)] a(1,3) Some show ?thesis by (auto simp: room_def buf_ok_def content_def owns_def)
  qed (use a(1) in \<open>auto simp: room_def buf_ok_def content_def\<close>)
next
  fix n m :: nat and b h assume "room n (b, h)" "m \<le> n"
  then show "room m (b, h)" by (simp add: room_def)
next
  fix a n b h x w' h'
  assume a: "room (blen a + n) (b, h)" "bslice_ok h a" "\<not> owns b (u_buf (bback a))" "buffer_endpoint a (b, h) = (x, (w', h'))"
  have "2 * Cap b + int (blen a) \<le> 9223372036854775807" "buf_ok b h" using a(1) by (auto simp: room_def)
  from Write_run [OF this(2,1) a(2,3)] a(4) have "appended (bytes_of h a) b h (w', h')" by (auto simp: buffer_endpoint_def)
  then show "room n (w', h') \<and> (\<forall>c. owns w' c \<longrightarrow> owns b c \<or> next_buf h \<le> c)"
    using a(1) length_bytes_of [OF a(2)] by (auto simp: appended_def room_def frame_def)
qed

text \<open>The loop of \<open>CopyBuffer\<close> over such a reader and such a writer.\<close>

locale byte_copy_loop = byte_reader rd rok left uses + byte_sink wr wok written owned
  for rd :: "'r endpoint" and rok left uses and wr :: "'w endpoint" and wok written owned
begin

definition apart :: "bslice \<Rightarrow> 'r \<Rightarrow> 'w \<Rightarrow> bheap \<Rightarrow> bool" where
  "apart p r w h \<longleftrightarrow> bslice_ok h p \<and> 0 < blen p \<and> \<not> uses r (u_buf (bback p)) \<and> \<not> owned w (u_buf (bback p)) \<and>
     (\<forall>c. \<not> (uses r c \<and> owned w c))"

text \<open>One round of the loop.\<close>

lemma copy_step:
  assumes r: "rok r h" and w: "wok (length (left r h)) w h" and ap: "apart p r w h"
  shows "\<exists>m e r1 w2 h2. (\<forall>n fuel. copy_loop (Suc fuel) rd wr p n r w h =
      (if e = None then copy_loop fuel rd wr p (n + int m) r1 w2 h2
       else Some (Inr (n + int m, if e = Some EOF then None else e), r1, w2, h2))) \<and> m \<le> length (left r h) \<and>
    written w2 h2 = written w h @ take m (left r h) \<and> rok r1 h2 \<and> left r1 h2 = drop m (left r h) \<and>
    wok (length (left r1 h2)) w2 h2 \<and> apart p r1 w2 h2 \<and> (e = None \<and> 0 < m \<or> e = Some EOF \<and> m = length (left r h))"
proof -
  note a = ap [unfolded apart_def]
  obtain m e r1 h1 where f: "rd p (r, h) = (Inr (int m, e), (r1, h1))" "m \<le> blen p" "m \<le> length (left r h)"
    "take m (bytes_of h1 p) = take m (left r h)" "buf_changes (u_buf (bback p)) {bstart p..<bstart p + m} h h1"
    "rok r1 h1" "uses r1 = uses r" "left r1 h1 = drop m (left r h)" "e = None \<and> 0 < m \<or> e = Some EOF \<and> left r1 h1 = []"
    using fills [OF r] a by blast
  have end': "e = None \<and> 0 < m \<or> e = Some EOF \<and> m = length (left r h)" using f(3,8,9) by auto
  have ok1: "bslice_ok h1 p" "u_buf (bback p) < next_buf h1"
    using buf_changes_ok [OF f(5)] a by (auto simp: bslice_ok_def u8_ok_def)
  have nb: "next_buf h \<le> next_buf h1" using f(5) by (simp add: buf_changes_def)
  have other: "buffers h1 c = buffers h c" if "owned w c" for c
  proof -
    have "c \<noteq> u_buf (bback p)" using that a by blast
    then show ?thesis using f(5) owned_old [OF w that] by (auto simp: buf_changes_def intro!: nth_equalityI)
  qed
  have w1: "wok (length (left r h)) w h1" "written w h1 = written w h"
    using sink_kept [OF w nb other] by simp_all
  show ?thesis
  proof (cases "m = 0")
    case True
    have "apart p r1 w h1" using a ok1 f(7) by (simp add: apart_def)
    then show ?thesis using True f w1 end'
      by (intro exI [of _ 0] exI [of _ e] exI [of _ r1] exI [of _ w] exI [of _ h1]) (simp add: Let_def)
  next
    case False
    have cap: "m \<le> bcap p" using f(2) ok1(1) by (simp add: bslice_ok_def)
    let ?b = "sub_slice p 0 m"
    have b: "bslice_ok h1 ?b" "blen ?b = m" "u_buf (bback ?b) = u_buf (bback p)" "bytes_of h1 ?b = take m (left r h)"
      using sub_slice(1,2,4) [OF ok1(1) le0 cap] sub_slice_within [OF ok1(1) le0 f(2)] f(4) by simp_all
    have cb: "cut p 0 (Some (int m)) = Inr ?b" using cut_between [OF cap le0] by simp
    have no: "\<not> owned w (u_buf (bback ?b))" using a b(3) by simp
    have "wok (blen ?b) w h1" using less_room [OF w1(1)] f(3) b(2) by simp
    with no obtain w2 h2 where g: "wr ?b (w, h1) = (Inr (int m, None), (w2, h2))"
      "written w2 h2 = written w h1 @ take m (left r h)" "next_buf h1 \<le> next_buf h2"
      "\<forall>c<next_buf h1. \<not> owned w c \<longrightarrow> buffers h2 c = buffers h1 c"
      using takes [of ?b w h1] b by auto
    have "wok (blen ?b + length (left r1 h1)) w h1" using w1(1) f(3,8) b(2) by simp
    from room_left [OF this b(1) no g(1)] have w2: "wok (length (left r1 h1)) w2 h2"
      "\<And>c. owned w2 c \<Longrightarrow> owned w c \<or> next_buf h1 \<le> c" by auto
    have keep: "buffers h2 c = buffers h1 c" if "uses r1 c" for c
      using g(4) uses_old [OF f(6) that] that a f(7) by auto
    have r2: "rok r1 h2" "left r1 h2 = left r1 h1" using kept [OF f(6) g(3) keep] by simp_all
    have "bslice_ok h2 p" using slice_kept(1) [OF ok1(1) g(3)] g(4) a ok1(2) by blast
    then have "apart p r1 w2 h2"
      unfolding apart_def using a f(7) w2(2) uses_old [OF f(6)] ok1(2) by (metis leD)
    moreover have "copy_loop (Suc fuel) rd wr p n r w h = (if e = None then copy_loop fuel rd wr p (n + int m) r1 w2 h2
        else Some (Inr (n + int m, if e = Some EOF then None else e), r1, w2, h2))" for n fuel
      using False by (simp add: f(1) cb g(1) Let_def)
    ultimately show ?thesis using f(3,8) g(2) w1(2) r2 w2(1) end' by metis
  qed
qed

lemma copy_loop_run:
  assumes "rok r h" "wok (length (left r h)) w h" "apart p r w h" "length (left r h) < fuel"
  shows "\<exists>r' w' h'. copy_loop fuel rd wr p n r w h = Some (Inr (n + int (length (left r h)), None), r', w', h') \<and>
    written w' h' = written w h @ left r h \<and> rok r' h' \<and> left r' h' = []"
  using assms
proof (induction fuel arbitrary: n r w h)
  case (Suc fuel)
  obtain m e r1 w2 h2 where s: "\<And>n fuel. copy_loop (Suc fuel) rd wr p n r w h =
      (if e = None then copy_loop fuel rd wr p (n + int m) r1 w2 h2
       else Some (Inr (n + int m, if e = Some EOF then None else e), r1, w2, h2))"
    "m \<le> length (left r h)" "written w2 h2 = written w h @ take m (left r h)" "rok r1 h2" "left r1 h2 = drop m (left r h)"
    "wok (length (left r1 h2)) w2 h2" "apart p r1 w2 h2" "e = None \<and> 0 < m \<or> e = Some EOF \<and> m = length (left r h)"
    using copy_step [OF Suc.prems(1-3)] by blast
  show ?case
  proof (cases e)
    case (Some x)
    with s(8) have "e = Some EOF" "m = length (left r h)" by auto
    then show ?thesis using s(1,3-5) by simp
  next
    case None
    have "length (left r1 h2) < fuel" using s(2,5,8) None Suc.prems(4) by auto
    from Suc.IH [OF s(4,6,7) this] obtain r' w' h' where
      "copy_loop fuel rd wr p (n + int m) r1 w2 h2 = Some (Inr (n + int m + int (length (left r1 h2)), None), r', w', h')"
      "written w' h' = written w2 h2 @ left r1 h2" "rok r' h'" "left r' h' = []" by blast
    then show ?thesis using None s(1-3,5) by simp
  qed
qed simp

end

text \<open>The source a LimitedReader over a bytes.Reader, the target a Buffer.\<close>

interpretation cl: byte_copy_loop "LimitedReader_Read reader_endpoint" "limited_ok reader_ok unread K" "limited_left unread"
    "limited_uses reads_array" buffer_endpoint "\<lambda>n b h. room n (b, h)" content owns for K
  by (intro byte_copy_loop.intro limited_over_reader bs.byte_sink_axioms)
subsection \<open>Reading everything\<close>

text \<open>A new slice, and a change that leaves all old arrays alone.\<close>

lemma makeSlice_run:
  obtains s h' where "byte_makeSlice (int n) None h = Inr (s, h')" "bslice_ok h' s" "blen s = n"
    "u_buf (bback s) = next_buf h" "next_buf h' = Suc (next_buf h)" "\<forall>c<next_buf h. buffers h' c = buffers h c"
proof -
  let ?u = "\<lparr>u_buf = next_buf h, u_off = 0, u_len = n\<rparr>"
  let ?h = "h\<lparr>buffers := (buffers h)(next_buf h := replicate n 0), next_buf := Suc (next_buf h)\<rparr>"
  have "byte_makeSlice (int n) None h = Inr (\<lparr>b_arr = ?u, b_meta = None\<rparr>, ?h)"
    by (simp add: byte_makeSlice_def new_buffer_def)
  moreover have "bslice_ok ?h \<lparr>b_arr = ?u, b_meta = None\<rparr>" by (rule bslice_ok_plain) (simp add: u8_ok_def)
  ultimately show thesis by (rule that) (simp_all add: blen_def bback_def)
qed

definition fresh_only :: "bheap \<Rightarrow> bheap \<Rightarrow> bool" where
  "fresh_only h h' \<longleftrightarrow> next_buf h \<le> next_buf h' \<and> (\<forall>c<next_buf h. buffers h' c = buffers h c)"

lemma fresh_only_slice:
  "fresh_only h h' \<Longrightarrow> bslice_ok h s \<Longrightarrow> bslice_ok h' s \<and> bytes_of h' s = bytes_of h s"
  using slice_kept [of h s h'] by (auto simp: fresh_only_def bslice_ok_def u8_ok_def)

lemma changes_other:
  "buf_changes b I h h' \<Longrightarrow> c < next_buf h \<Longrightarrow> c \<noteq> b \<Longrightarrow> buffers h' c = buffers h c"
  by (auto simp: buf_changes_def intro!: nth_equalityI)

lemma chunk_run:
  assumes p: "bslice_ok h p" and m: "m \<le> blen p"
  shows "\<exists>c h'. chunk_of p (int m) h = Inr (c, h') \<and> bslice_ok h' c \<and> blen c = m \<and> u_buf (bback c) = next_buf h \<and>
    bytes_of h' c = take m (bytes_of h p) \<and> fresh_only h h' \<and> next_buf h < next_buf h'"
proof -
  obtain c h1 where c: "byte_makeSlice (int m) None h = Inr (c, h1)" "bslice_ok h1 c" "blen c = m"
    "u_buf (bback c) = next_buf h" "next_buf h1 = Suc (next_buf h)" "\<forall>d<next_buf h. buffers h1 d = buffers h d"
    by (rule makeSlice_run)
  have f1: "fresh_only h h1" using c(5,6) by (simp add: fresh_only_def)
  note p1 = fresh_only_slice [OF f1 p]
  have cap: "m \<le> bcap p" using m p by (simp add: bslice_ok_def)
  let ?s = "sub_slice p 0 m"
  have s: "byte_goSlice p (Some 0) (Some (int m)) None = Inr ?s" "bslice_ok h1 ?s" "blen ?s = m"
    "bytes_of h1 ?s = take m (bytes_of h p)"
    using cut_between [OF cap le0] sub_slice(1,2) [of h1 p 0 m] sub_slice_within [of h1 p 0 m] p1 m cap
    by (auto simp: cut_def split: sum.splits)
  obtain h2 where h2: "byte_copy c ?s h1 = Inr (m, h2)" "bytes_of h2 c = take m (take m (bytes_of h p) @ drop m (bytes_of h1 c))"
    "buf_changes (next_buf h) {bstart c..<bstart c + m} h1 h2"
    using byte_copy_spec [OF c(2) s(2)] unfolding c(3,4) s(3,4) by auto
  have "length (bytes_of h p) = blen p" by (rule length_bytes_of [OF p])
  then have "bytes_of h2 c = take m (bytes_of h p)" using h2(2) m by simp
  moreover have "chunk_of p (int m) h = Inr (c, h2)" by (simp add: chunk_of_def c(1) s(1) h2(1))
  moreover have "fresh_only h h2" using f1 changes_other [OF h2(3)] h2(3) c(5) by (auto simp: fresh_only_def buf_changes_def)
  moreover have "next_buf h < next_buf h2" "bslice_ok h2 c" using h2(3) c(5) buf_changes_ok [OF h2(3) c(2)] by (auto simp: buf_changes_def)
  ultimately show ?thesis using c(3,4) by blast
qed

text \<open>The chunks: slices whose arrays satisfy \<open>A\<close>, and their bytes.\<close>

definition chunks_ok :: "(nat \<Rightarrow> bool) \<Rightarrow> bslice list \<Rightarrow> bheap \<Rightarrow> bool" where
  "chunks_ok A cs h \<longleftrightarrow> (\<forall>c\<in>set cs. bslice_ok h c \<and> A (u_buf (bback c)))"

definition chunk_bytes :: "bslice list \<Rightarrow> bheap \<Rightarrow> byte list" where
  "chunk_bytes cs h = concat (map (bytes_of h) cs)"

lemma chunks_kept:
  assumes "chunks_ok A cs h" "next_buf h \<le> next_buf h'" "\<And>c. A c \<Longrightarrow> c < next_buf h \<Longrightarrow> buffers h' c = buffers h c"
  shows "chunks_ok A cs h'" "chunk_bytes cs h' = chunk_bytes cs h"
proof -
  have "bslice_ok h' c \<and> bytes_of h' c = bytes_of h c" if "c \<in> set cs" for c
  proof -
    have c: "bslice_ok h c" "A (u_buf (bback c))" using assms(1) that by (auto simp: chunks_ok_def)
    then have "u_buf (bback c) < next_buf h" by (simp add: bslice_ok_def u8_ok_def)
    then show ?thesis using slice_kept [OF c(1) assms(2)] assms(3) c(2) by blast
  qed
  then show "chunks_ok A cs h'" "chunk_bytes cs h' = chunk_bytes cs h"
    using assms(1) by (auto simp: chunks_ok_def chunk_bytes_def intro!: arg_cong [where f = concat])
qed

lemma length_chunk_bytes: "chunks_ok A cs h \<Longrightarrow> length (chunk_bytes cs h) = sum_list (map blen cs)"
  by (induction cs) (auto simp: chunks_ok_def chunk_bytes_def length_bytes_of)

text \<open>The copies of the chunks into the whole.\<close>

lemma combine_run:
  assumes "bslice_ok h w" "chunks_ok (\<lambda>c. c \<noteq> u_buf (bback w)) cs h" "k + length (chunk_bytes cs h) \<le> blen w"
  shows "\<exists>h'. combine w (int k) cs h = Inr h' \<and> bslice_ok h' w \<and> take k (bytes_of h' w) = take k (bytes_of h w) \<and>
    take (length (chunk_bytes cs h)) (drop k (bytes_of h' w)) = chunk_bytes cs h \<and>
    buf_changes (u_buf (bback w)) {bstart w..<bstart w + blen w} h h'"
  using assms
proof (induction cs arbitrary: k h)
  case Nil
  then show ?case by (simp add: chunk_bytes_def buf_changes_def)
next
  case (Cons c cs)
  let ?A = "\<lambda>c. c \<noteq> u_buf (bback w)"
  let ?m = "blen c"
  have c: "bslice_ok h c" "?A (u_buf (bback c))" "chunks_ok ?A cs h" using Cons.prems(2) by (auto simp: chunks_ok_def)
  have cb: "chunk_bytes (c # cs) h = bytes_of h c @ chunk_bytes cs h" "length (bytes_of h c) = ?m"
    using length_bytes_of [OF c(1)] by (simp_all add: chunk_bytes_def)
  have km: "k + ?m \<le> blen w" "k + ?m + length (chunk_bytes cs h) \<le> blen w" using Cons.prems(3) cb by simp_all
  have cap: "blen w \<le> bcap w" using Cons.prems(1) by (simp add: bslice_ok_def)
  let ?s = "sub_slice w k (k + ?m)"
  have s: "byte_goSlice w (Some (int k)) (Some (int k + int ?m)) None = Inr ?s" "bslice_ok h ?s" "blen ?s = ?m"
    "u_buf (bback ?s) = u_buf (bback w)" "bstart ?s = bstart w + k"
    using cut_between [of "k + ?m" w k] sub_slice(1,2,4,5) [OF Cons.prems(1), of k "k + ?m"] km(1) cap
    by (auto simp: cut_def split: sum.splits)
  obtain h1 where h1: "byte_copy ?s c h = Inr (?m, h1)" "bytes_of h1 ?s = take ?m (take ?m (bytes_of h c) @ drop ?m (bytes_of h ?s))"
    "buf_changes (u_buf (bback w)) {bstart w + k..<bstart w + k + ?m} h h1"
    using byte_copy_spec [OF s(2) c(1)] unfolding s(3-5) by auto
  have got: "take ?m (bytes_of h1 ?s) = bytes_of h c" using h1(2) cb(2) by simp
  note f = fill_part [OF Cons.prems(1) le_add1 km(1) _ h1(3) got, simplified]
  have nb: "next_buf h \<le> next_buf h1" using h1(3) by (simp add: buf_changes_def)
  note ch = chunks_kept [OF c(3) nb changes_other [OF h1(3)]]
  from Cons.IH [OF f(1), of "k + ?m"] ch km(2) obtain h' where
    h': "combine w (int (k + ?m)) cs h1 = Inr h'" "bslice_ok h' w" "take (k + ?m) (bytes_of h' w) = take (k + ?m) (bytes_of h1 w)"
      "take (length (chunk_bytes cs h)) (drop (k + ?m) (bytes_of h' w)) = chunk_bytes cs h"
      "buf_changes (u_buf (bback w)) {bstart w..<bstart w + blen w} h1 h'" by auto
  have "combine w (int k) (c # cs) h = Inr h'" using h'(1) by (simp add: s(1) h1(1))
  moreover have "take k (bytes_of h' w) = take k (bytes_of h w)"
    using h'(3) f(2) by (metis take_take min.absorb1 le_add1)
  moreover have "take ?m (drop k (bytes_of h' w)) = bytes_of h c"
    using h'(3) f(3) by (metis add_diff_cancel_left' drop_take)
  then have "take (length (chunk_bytes (c # cs) h)) (drop k (bytes_of h' w)) = chunk_bytes (c # cs) h"
    using h'(4) by (simp add: cb take_add add.commute)
  moreover have "{bstart w + k..<bstart w + k + ?m} \<union> {bstart w..<bstart w + blen w} = {bstart w..<bstart w + blen w}"
    using km(1) by auto
  then have "buf_changes (u_buf (bback w)) {bstart w..<bstart w + blen w} h h'"
    using buf_changes_trans [OF h1(3) h'(5)] by simp
  ultimately show ?case using h'(2) by blast
qed
context byte_reader
begin

abbreviation apart_from :: "bslice \<Rightarrow> 'r \<Rightarrow> nat \<Rightarrow> bool" where
  "apart_from p r c \<equiv> c \<noteq> u_buf (bback p) \<and> \<not> uses r c"

lemma chunks_step:
  assumes r: "rok r h" and p: "bslice_ok h p" "0 < blen p" "\<not> uses r (u_buf (bback p))" and cs: "chunks_ok (apart_from p r) cs h"
  shows "\<exists>m (e :: io_error option) cs' r1 h2. (\<forall>fuel tot. chunks_loop (Suc fuel) rd p cs tot (r, h) =
      (if e = None then chunks_loop fuel rd p cs' (tot + int m) (r1, h2)
       else Some (Inr (cs', tot + int m, None), (r1, h2)))) \<and> m \<le> length (left r h) \<and> bslice_ok h2 p \<and> uses r1 = uses r \<and>
    chunks_ok (apart_from p r1) cs' h2 \<and> chunk_bytes cs' h2 = chunk_bytes cs h @ take m (left r h) \<and>
    rok r1 h2 \<and> left r1 h2 = drop m (left r h) \<and> (e = None \<and> 0 < m \<or> e \<noteq> None \<and> m = length (left r h))"
proof -
  obtain m e r1 h1 where f: "rd p (r, h) = (Inr (int m, e), (r1, h1))" "m \<le> blen p" "m \<le> length (left r h)"
    "take m (bytes_of h1 p) = take m (left r h)" "buf_changes (u_buf (bback p)) {bstart p..<bstart p + m} h h1"
    "rok r1 h1" "uses r1 = uses r" "left r1 h1 = drop m (left r h)" "e = None \<and> 0 < m \<or> e = Some EOF \<and> left r1 h1 = []"
    using fills [OF r p] by blast
  have end': "e = None \<and> 0 < m \<or> e \<noteq> None \<and> m = length (left r h)" "e = None \<or> e = Some EOF" using f(3,8,9) by auto
  have ok1: "bslice_ok h1 p" by (rule buf_changes_ok [OF f(5) p(1)])
  have "next_buf h \<le> next_buf h1" using f(5) by (simp add: buf_changes_def)
  note cs1 = chunks_kept [OF cs this changes_other [OF f(5)], simplified]
  have cs1': "chunks_ok (apart_from p r) cs h1" "chunk_bytes cs h1 = chunk_bytes cs h" using cs1 by auto
  show ?thesis
  proof (cases "m = 0")
    case True
    have "chunks_loop (Suc fuel) rd p cs tot (r, h) = (if e = None then chunks_loop fuel rd p cs (tot + int m) (r1, h1)
       else Some (Inr (cs, tot + int m, None), (r1, h1)))" for fuel tot
      using True end'(2) by (auto simp: f(1))
    then show ?thesis using True f ok1 cs1' end'(1) by (intro exI [of _ m] exI [of _ e] exI [of _ cs] exI [of _ r1] exI [of _ h1]) simp
  next
    case False
    obtain c h2 where c: "chunk_of p (int m) h1 = Inr (c, h2)" "bslice_ok h2 c" "blen c = m" "u_buf (bback c) = next_buf h1"
      "bytes_of h2 c = take m (left r h)" "fresh_only h1 h2"
      using chunk_run [OF ok1 f(2)] f(4) by auto
    have run: "chunks_loop (Suc fuel) rd p cs tot (r, h) = (if e = None then chunks_loop fuel rd p (cs @ [c]) (tot + int m) (r1, h2)
       else Some (Inr (cs @ [c], tot + int m, None), (r1, h2)))" for fuel tot
      using False end'(2) by (auto simp: f(1) c(1))
    have nb: "next_buf h1 \<le> next_buf h2" and same: "\<And>d. d < next_buf h1 \<Longrightarrow> buffers h2 d = buffers h1 d"
      using c(6) by (auto simp: fresh_only_def)
    note cs2 = chunks_kept [OF cs1'(1) nb same]
    have new: "apart_from p r (next_buf h1)" using ok1 uses_old [OF f(6)] f(7) by (auto simp: bslice_ok_def u8_ok_def)
    have "chunks_ok (apart_from p r1) (cs @ [c]) h2" using cs2(1) c(2,4) new f(7) by (simp add: chunks_ok_def)
    moreover have "chunk_bytes (cs @ [c]) h2 = chunk_bytes cs h @ take m (left r h)"
      using cs2(2) cs1'(2) c(5) by (simp add: chunk_bytes_def)
    moreover have "rok r1 h2" "left r1 h2 = left r1 h1" using kept [OF f(6) nb] uses_old [OF f(6)] same by simp_all
    moreover have "bslice_ok h2 p" using fresh_only_slice [OF c(6) ok1] by simp
    ultimately show ?thesis using run f(3,7,8) end'(1)
      by (intro exI [of _ m] exI [of _ e] exI [of _ "cs @ [c]"] exI [of _ r1] exI [of _ h2]) simp
  qed
qed

lemma chunks_loop_run:
  assumes "rok r h" "bslice_ok h p" "0 < blen p" "\<not> uses r (u_buf (bback p))" "chunks_ok (apart_from p r) cs h" "length (left r h) < fuel"
  shows "\<exists>cs' r' h'. chunks_loop fuel rd p cs tot (r, h) = Some (Inr (cs', tot + int (length (left r h)), None), (r', h')) \<and>
    chunks_ok (\<lambda>c. True) cs' h' \<and> chunk_bytes cs' h' = chunk_bytes cs h @ left r h \<and> rok r' h' \<and> left r' h' = []"
  using assms
proof (induction fuel arbitrary: r h cs tot)
  case (Suc fuel)
  obtain m cs1 r1 h1 and e :: "io_error option" where s: "\<And>fuel tot. chunks_loop (Suc fuel) rd p cs tot (r, h) =
      (if e = None then chunks_loop fuel rd p cs1 (tot + int m) (r1, h1) else Some (Inr (cs1, tot + int m, None), (r1, h1)))"
    "m \<le> length (left r h)" "bslice_ok h1 p" "uses r1 = uses r" "chunks_ok (apart_from p r1) cs1 h1"
    "chunk_bytes cs1 h1 = chunk_bytes cs h @ take m (left r h)" "rok r1 h1" "left r1 h1 = drop m (left r h)"
    "e = None \<and> 0 < m \<or> e \<noteq> None \<and> m = length (left r h)"
    using chunks_step [OF Suc.prems(1-5)] by blast
  show ?case
  proof (cases "e = None")
    case False
    moreover have "chunks_ok (\<lambda>c. True) cs1 h1" using s(5) by (auto simp: chunks_ok_def)
    ultimately show ?thesis using s by (simp del: chunks_loop.simps) blast
  next
    case True
    have less: "length (left r1 h1) < fuel" using s(2,8,9) True Suc.prems(6) by auto
    have no: "\<not> uses r1 (u_buf (bback p))" using s(4) Suc.prems(4) by simp
    from Suc.IH [OF s(7,3) Suc.prems(3) no s(5) less] obtain cs' r' h' where
      "chunks_loop fuel rd p cs1 (tot + int m) (r1, h1) = Some (Inr (cs', tot + int m + int (length (left r1 h1)), None), (r', h'))"
      "chunks_ok (\<lambda>c. True) cs' h'" "chunk_bytes cs' h' = chunk_bytes cs1 h1 @ left r1 h1" "rok r' h'" "left r' h' = []" by blast
    then show ?thesis using True s(1,2,6,8) by (simp del: chunks_loop.simps)
  qed
qed simp

lemma ReadAll_run:
  assumes r: "rok r h" and fuel: "length (left r h) < fuel"
  shows "\<exists>s r' h'. ReadAll fuel rd (r, h) = Some (Inr (s, None), (r', h')) \<and> bslice_ok h' s \<and> bytes_of h' s = left r h \<and>
    rok r' h' \<and> left r' h' = []"
proof -
  obtain p h1 where p: "byte_makeSlice (int 512) None h = Inr (p, h1)" "bslice_ok h1 p" "blen p = 512"
    "u_buf (bback p) = next_buf h" "next_buf h1 = Suc (next_buf h)" "\<forall>c<next_buf h. buffers h1 c = buffers h c"
    by (rule makeSlice_run)
  have no: "\<not> uses r (u_buf (bback p))" using uses_old [OF r] p(4) by auto
  have nb: "next_buf h \<le> next_buf h1" and old: "\<And>c. uses r c \<Longrightarrow> buffers h1 c = buffers h c" using p(5,6) uses_old [OF r] by auto
  have r1: "rok r h1" "left r h1 = left r h" using kept [OF r nb old] by simp_all
  have "chunks_ok (apart_from p r) [] h1" "0 < blen p" "length (left r h1) < fuel" using p(3) r1(2) fuel by (simp_all add: chunks_ok_def)
  from chunks_loop_run [OF r1(1) p(2) this(2) no this(1,3), of 0] obtain cs r2 h2 where
    c: "chunks_loop fuel rd p [] 0 (r, h1) = Some (Inr (cs, int (length (left r h)), None), (r2, h2))"
      "chunks_ok (\<lambda>c. True) cs h2" "chunk_bytes cs h2 = left r h" "rok r2 h2" "left r2 h2 = []"
    by (auto simp: r1(2)) (auto simp: chunk_bytes_def)
  let ?n = "length (left r h)"
  obtain w h3 where w: "byte_makeSlice (int ?n) None h2 = Inr (w, h3)" "bslice_ok h3 w" "blen w = ?n"
    "u_buf (bback w) = next_buf h2" "next_buf h3 = Suc (next_buf h2)" "\<forall>c<next_buf h2. buffers h3 c = buffers h2 c"
    by (rule makeSlice_run)
  have ch2: "chunks_ok (\<lambda>c. c \<noteq> u_buf (bback w)) cs h2" using c(2) by (auto simp: chunks_ok_def bslice_ok_def u8_ok_def w(4))
  have nb3: "next_buf h2 \<le> next_buf h3" using w(5) by simp
  note ch3 = chunks_kept [OF ch2 nb3, simplified]
  have ch3': "chunks_ok (\<lambda>c. c \<noteq> u_buf (bback w)) cs h3" "chunk_bytes cs h3 = left r h" using ch3 w(6) c(3) by auto
  obtain h4 where h4: "combine w 0 cs h3 = Inr h4" "bslice_ok h4 w" "take ?n (bytes_of h4 w) = left r h"
    "buf_changes (u_buf (bback w)) {bstart w..<bstart w + blen w} h3 h4"
    using combine_run [OF w(2) ch3'(1), of 0] ch3'(2) w(3) by auto
  have "bytes_of h4 w = left r h" using h4(3) length_bytes_of [OF h4(2)] w(3) by simp
  moreover have "buffers h4 c = buffers h2 c" if "uses r2 c" for c
    using changes_other [OF h4(4), of c] w(4-6) uses_old [OF c(4) that] by simp
  then have "rok r2 h4" "left r2 h4 = []" using kept [OF c(4), of h4] h4(4) nb3 c(5) by (auto simp: buf_changes_def)
  moreover have "ReadAll fuel rd (r, h) = Some (Inr (w, None), (r2, h4))"
    using p(1) by (simp add: ReadAll_def c(1) w(1) h4(1))
  ultimately show ?thesis using h4(2) by blast
qed

end
subsection \<open>The properties\<close>

definition behind :: "reader limited \<Rightarrow> bheap \<Rightarrow> byte list" where
  "behind l h = (case lim_R l of None \<Rightarrow> [] | Some r \<Rightarrow> unread r h)"

lemma behind_limited: "limited_ok reader_ok unread K l h \<Longrightarrow> behind l h = limited_left unread l h @ K"
  by (auto simp: limited_ok_def behind_def limited_left_def split: option.splits)

lemma LimitReader_ok:
  "reader_ok r h \<Longrightarrow> limited_ok reader_ok unread (drop (nat n) (unread r h)) (LimitReader r n) h"
  "limited_left unread (LimitReader r n) h = take (nat n) (unread r h)"
  "limited_uses reads_array (LimitReader r n) = reads_array r"
  by (simp_all add: limited_ok_def limited_left_def limited_uses_def LimitReader_def)

text \<open>ReadFull of a buffer from a LimitedReader over a bytes.Reader returns. With \<open>L\<close> the
  unread bytes up to the limit, it fills the buffer when \<open>L\<close> is long enough and otherwise puts all of
  \<open>L\<close> at its front and reports \<open>EOF\<close> for nothing at all and \<open>ErrUnexpectedEOF\<close> for something; it takes
  from the reader what it put into the buffer and changes no other byte of the heap.\<close>

theorem ReadFull_limited:
  assumes "reader_ok r h" "bslice_ok h p" "\<not> reads_array r (u_buf (bback p))" "L = take (nat n) (unread r h)"
  shows "\<exists>l h'. ReadFull (Suc (blen p)) (LimitedReader_Read reader_endpoint) p (LimitReader r n, h) =
      Some (Inr (int (min (blen p) (length L)),
        if blen p \<le> length L then None else if L = [] then Some EOF else Some ErrUnexpectedEOF), (l, h')) \<and>
    take (min (blen p) (length L)) (bytes_of h' p) = take (blen p) L \<and>
    behind l h' = drop (min (blen p) (length L)) (unread r h) \<and>
    buf_changes (u_buf (bback p)) {bstart p..<bstart p + min (blen p) (length L)} h h'"
proof -
  let ?m = "min (blen p) (length L)" and ?K = "drop (nat n) (unread r h)"
  note lr_ok = LimitReader_ok(1) [OF assms(1), of n]
  have no: "\<not> limited_uses reads_array (LimitReader r n) (u_buf (bback p))" using assms(3) by (simp add: LimitReader_ok(3))
  have L: "limited_left unread (LimitReader r n) h = L" by (simp add: LimitReader_ok(2) assms(4))
  from lr.ReadFull_run [OF lr_ok assms(2) no lessI, unfolded L] obtain l h' where
    run: "ReadFull (Suc (blen p)) (LimitedReader_Read reader_endpoint) p (LimitReader r n, h) = Some (Inr (int ?m,
      if blen p \<le> length L then None else if L = [] then Some EOF else Some ErrUnexpectedEOF), (l, h'))"
    and f: "lr.filled ?K p 0 ?m (LimitReader r n) h l h'" by blast
  note f' = f [unfolded lr.filled_def L]
  have all: "unread r h = L @ ?K" by (simp add: assms(4))
  have "drop ?m (unread r h) = drop ?m L @ ?K" by (subst all) simp
  then have "behind l h' = drop ?m (unread r h)" using behind_limited [of ?K l h'] f' by simp
  moreover have "take ?m (bytes_of h' p) = take (blen p) L" using f' by (simp add: min_def)
  moreover have "buf_changes (u_buf (bback p)) {bstart p..<bstart p + ?m} h h'" using f' by simp
  ultimately show ?thesis using run by blast
qed

text \<open>ReadAll of a LimitedReader over a bytes.Reader returns, after at most one read per byte and
  one more, a new slice of exactly the unread bytes up to the limit, and no error; the reader is
  left with the bytes behind the limit.\<close>

theorem ReadAll_limited:
  assumes "reader_ok r h"
  shows "\<exists>s l h'. ReadAll (Suc (length (unread r h))) (LimitedReader_Read reader_endpoint) (LimitReader r n, h) =
      Some (Inr (s, None), (l, h')) \<and>
    bslice_ok h' s \<and> bytes_of h' s = take (nat n) (unread r h) \<and> behind l h' = drop (nat n) (unread r h)"
proof -
  let ?K = "drop (nat n) (unread r h)"
  have "length (limited_left unread (LimitReader r n) h) < Suc (length (unread r h))" by (simp add: LimitReader_ok(2))
  from lr.ReadAll_run [OF LimitReader_ok(1) [OF assms] this] obtain s l h' where
    "ReadAll (Suc (length (unread r h))) (LimitedReader_Read reader_endpoint) (LimitReader r n, h) = Some (Inr (s, None), (l, h'))"
    "bslice_ok h' s" "bytes_of h' s = take (nat n) (unread r h)" "limited_ok reader_ok unread ?K l h'" "limited_left unread l h' = []"
    unfolding LimitReader_ok(2) by blast
  then show ?thesis using behind_limited [of ?K l h'] by auto
qed

lemma copy_limited:
  assumes "reader_ok r h" "room (length L + 512) (b, h)" "\<forall>c. reads_array r c \<longrightarrow> \<not> owns b c"
    "L = take (nat n) (unread r h)" "rf = None \<or> rf = Some ReadFrom"
  shows "\<exists>l b' h'. Copy (Suc (length L)) (Itself (buffer_endpoint, rf)) (Itself (LimitedReader_Read reader_endpoint, None)) (LimitReader r n) b h =
      Some (Inr (int (length L), None), l, b', h') \<and> content b' h' = content b h @ L \<and>
    limited_ok reader_ok unread (drop (nat n) (unread r h)) l h' \<and> limited_left unread l h' = []"
  using assms(5)
proof
  let ?K = "drop (nat n) (unread r h)"
  note l = LimitReader_ok(1) [OF assms(1), of n]
  have left: "limited_left unread (LimitReader r n) h = L" by (simp add: LimitReader_ok(2) assms(4))
  assume rf: "rf = Some ReadFrom"
  have "room (length (limited_left unread (LimitReader r n) h) + 512) (b, h)" using assms(2) left by simp
  from lr.ReadFrom_all [OF l this, of "Suc (length L)"] assms(3) obtain l' b' h' where
    "ReadFrom (Suc (length L)) (LimitedReader_Read reader_endpoint) (LimitReader r n) (b, h) = Some (Inr (int (length L), None), l', (b', h'))"
    "content b' h' = content b h @ L" "limited_ok reader_ok unread ?K l' h'" "limited_left unread l' h' = []"
    unfolding left LimitReader_ok(3) by auto
  then show ?thesis by (simp add: Copy_def CopyBuffer_def copy_between_def rf)
next
  let ?K = "drop (nat n) (unread r h)"
  assume rf: "rf = None"
  obtain p h1 where p: "byte_makeSlice (int (32 * 1024)) None h = Inr (p, h1)" "bslice_ok h1 p" "blen p = 32 * 1024"
    "u_buf (bback p) = next_buf h" "next_buf h1 = Suc (next_buf h)" "\<forall>c<next_buf h. buffers h1 c = buffers h c"
    by (rule makeSlice_run)
  have nb: "next_buf h \<le> next_buf h1" using p(5) by simp
  have room: "room (length L) (b, h)" using bs.less_room [OF assms(2)] by simp
  have old: "\<not> reads_array r (next_buf h)" "\<not> owns b (next_buf h)"
    using rr.uses_old [OF assms(1)] bs.owned_old [OF room] by blast+
  have r1: "reader_ok r h1 \<and> unread r h1 = unread r h"
    using rr.kept [OF assms(1) nb] rr.uses_old [OF assms(1)] p(6) by blast
  have b1: "room (length L) (b, h1) \<and> content b h1 = content b h"
    using bs.sink_kept [OF room nb] bs.owned_old [OF room] p(6) by blast
  have left: "limited_left unread (LimitReader r n) h1 = L" using r1 by (simp add: LimitReader_ok(2) assms(4))
  have ok: "limited_ok reader_ok unread ?K (LimitReader r n) h1" using LimitReader_ok(1) [where r = r and h = h1 and n = n] r1 by simp
  have ap: "cl.apart p (LimitReader r n) b h1"
    unfolding cl.apart_def LimitReader_ok(3) using p(2-4) old assms(3) by simp
  have "room (length (limited_left unread (LimitReader r n) h1)) (b, h1)" using b1 left by simp
  from cl.copy_loop_run [OF ok this ap, of "Suc (length L)" 0] obtain l' b' h' where
    "copy_loop (Suc (length L)) (LimitedReader_Read reader_endpoint) buffer_endpoint p 0 (LimitReader r n) b h1 =
      Some (Inr (int (length L), None), l', b', h')"
    "content b' h' = content b h1 @ L" "limited_ok reader_ok unread ?K l' h'" "limited_left unread l' h' = []"
    unfolding left by auto
  then show ?thesis using p(1) b1 by (simp add: Copy_def CopyBuffer_def copy_between_def rf)
qed

text \<open>C34. CopyN from a bytes.Reader into a Buffer returns, by the plain loop of Copy (a writer that
  hides its ReadFrom) as by ReadFrom: it has appended the unread bytes up to \<open>n\<close> to the buffer and
  taken no byte more from the reader, the count is their number, and the error is \<open>EOF\<close> exactly when
  there are fewer than \<open>n\<close>.\<close>

theorem CopyN_spec:
  assumes "reader_ok r h" "room (length L + 512) (b, h)" "\<forall>c. reads_array r c \<longrightarrow> \<not> owns b c"
    "L = take (nat n) (unread r h)" "rf = None \<or> rf = Some ReadFrom"
  shows "\<exists>l b' h'. CopyN (Suc (length L)) rf reader_endpoint buffer_endpoint r n b h =
      Some (Inr (int (length L), if int (length L) < n then Some EOF else None), l, b', h') \<and>
    content b' h' = content b h @ L \<and> behind l h' = drop (nat n) (unread r h)"
proof -
  let ?K = "drop (nat n) (unread r h)"
  obtain l b' h' where c: "Copy (Suc (length L)) (Itself (buffer_endpoint, rf)) (Itself (LimitedReader_Read reader_endpoint, None)) (LimitReader r n) b h =
      Some (Inr (int (length L), None), l, b', h')" "content b' h' = content b h @ L"
    "limited_ok reader_ok unread ?K l h'" "limited_left unread l h' = []"
    using copy_limited [OF assms] by blast
  have "behind l h' = ?K" using behind_limited [OF c(3)] c(4) by simp
  then show ?thesis using c(1,2) by (auto simp: CopyN_def)
qed

theorem CopyN_spec_witness:
  "\<exists>l b' h'. CopyN 3 None reader_endpoint buffer_endpoint reader2 2 buffer2 heap2 = Some (Inr (2, None), l, b', h') \<and>
    content b' h' = [4, 5, 1, 2] \<and> behind l h' = [3]"
proof -
  have "room (length [1 :: byte, 2] + 512) (buffer2, heap2)"
    using heap2_objects by (simp add: room_def) (simp add: buffer2_def NewBuffer_def Cap_def)
  moreover have "\<forall>c. reads_array reader2 c \<longrightarrow> \<not> owns buffer2 c" by (simp add: heap2_objects)
  moreover have "[1, 2] = take (nat 2) (unread reader2 heap2)" by (simp add: heap2_objects)
  ultimately obtain l b' h' where "CopyN (Suc (length [1 :: byte, 2])) None reader_endpoint buffer_endpoint reader2 2 buffer2 heap2 =
      Some (Inr (int (length [1 :: byte, 2]), if int (length [1 :: byte, 2]) < 2 then Some EOF else None), l, b', h')"
    "content b' h' = content buffer2 heap2 @ [1, 2]" "behind l h' = drop (nat 2) (unread reader2 heap2)"
    using CopyN_spec [OF heap2_objects(1), of "[1, 2]" buffer2 2 None] by blast
  then show ?thesis by (intro exI [of _ l] exI [of _ b'] exI [of _ h']) (simp add: heap2_objects numeral_3_eq_3)
qed

theorem ReadAll_limited_witness:
  "\<exists>s l h'. ReadAll 4 (LimitedReader_Read reader_endpoint) (LimitReader reader2 2, heap2) = Some (Inr (s, None), (l, h')) \<and>
    bytes_of h' s = [1, 2] \<and> behind l h' = [3]"
  using ReadAll_limited [OF heap2_objects(1), of 2] by (fastforce simp: heap2_objects eval_nat_numeral)

theorem ReadFull_limited_witness:
  "\<exists>l h'. ReadFull 3 (LimitedReader_Read reader_endpoint) (slice_at 2 2) (LimitReader reader2 1, heap2) =
    Some (Inr (1, Some ErrUnexpectedEOF), (l, h')) \<and> behind l h' = [2, 3]"
proof -
  have "bslice_ok heap2 (slice_at 2 2)" using slice_at_ok [of 2 heap2 2] by (simp add: heap2_def)
  moreover have "[1] = take (nat 1) (unread reader2 heap2)" by (simp add: heap2_objects)
  ultimately show ?thesis
    using ReadFull_limited [OF heap2_objects(1), of "slice_at 2 2" "[1]" 1] by (fastforce simp: heap2_objects eval_nat_numeral)
qed
subsection \<open>Sections\<close>

definition all_bytes :: "reader \<Rightarrow> bheap \<Rightarrow> byte list" where "all_bytes r h = sbytes0 h (rs r)"

definition reader_at :: "reader at_endpoint" where "reader_at p pos = ReadAt (Some p) pos"

lemma ReadAt_run:
  fixes k :: nat
  assumes r: "reader_ok r h" and p: "bslice_ok h p" "\<not> reads_array r (u_buf (bback p))"
  defines "D \<equiv> drop k (all_bytes r h)"
  defines "m \<equiv> min (blen p) (length D)"
  shows "\<exists>h'. reader_at p (int k) (r, h) = (Inr (int m, if D = [] \<or> m < blen p then Some EOF else None), (r, h')) \<and>
    take m (bytes_of h' p) = take m D \<and> buf_changes (u_buf (bback p)) {bstart p..<bstart p + m} h h'"
proof (cases "D = []")
  case True
  then have "slen0 (rs r) \<le> int k" using r length_bytes_of
    by (cases "rs r") (auto simp: D_def all_bytes_def reader_ok_def)
  moreover have "buf_changes (u_buf (bback p)) {} h h" by (simp add: buf_changes_def)
  ultimately show ?thesis using True by (intro exI [of _ h]) (simp add: reader_at_def ReadAt_def ret_def m_def)
next
  case False
  then obtain s where s: "rs r = Some s" by (cases "rs r") (auto simp: D_def all_bytes_def)
  have ok: "bslice_ok h s" using r by (simp add: reader_ok_def s)
  have D: "D = drop k (bytes_of h s)" by (simp add: D_def all_bytes_def s)
  then have kl: "k < blen s" using False length_bytes_of [OF ok] by simp
  have cap: "blen s \<le> bcap s" using ok by (simp add: bslice_ok_def)
  let ?t = "sub_slice s k (blen s)"
  have t: "bslice_ok h ?t" "blen ?t = blen s - k" "bytes_of h ?t = D"
    using sub_slice(1,2) [OF ok less_imp_le [OF kl] cap] sub_slice_within [OF ok less_imp_le [OF kl] order_refl]
      length_bytes_of [OF ok] D by simp_all
  have lD: "length D = blen s - k" using D length_bytes_of [OF ok] by simp
  have m: "min (blen p) (blen ?t) = m" by (simp add: m_def t(2) lD)
  obtain h' where h': "byte_copy p ?t h = Inr (m, h')"
    "bytes_of h' p = take (blen p) (take m D @ drop m (bytes_of h p))"
    "buf_changes (u_buf (bback p)) {bstart p..<bstart p + m} h h'"
    using byte_copy_spec [OF p(1) t(1)] unfolding m t(3) by blast
  have "reader_at p (int k) (r, h) = (Inr (int m, if m < blen p then Some EOF else None), (r, h'))"
    using kl h'(1) slice0_from [OF less_imp_le [OF kl] ok]
    by (simp add: reader_at_def ReadAt_def s from_res_def bnd_def on_heap_def copy0_def ret_def receiver_def)
  moreover have "take m (bytes_of h' p) = take m D" unfolding h'(2) by (simp add: m_def min_def)
  ultimately show ?thesis using False h'(3) by auto
qed

lemma reader_kept:
  assumes "reader_ok r h" "next_buf h \<le> next_buf h'" "\<And>c. reads_array r c \<Longrightarrow> buffers h' c = buffers h c"
  shows "reader_ok r h' \<and> all_bytes r h' = all_bytes r h"
proof (cases "rs r")
  case (Some s)
  then have "bslice_ok h s" using assms(1) by (simp add: reader_ok_def)
  from slice_kept [OF this assms(2)] assms(1,3) Some show ?thesis by (simp add: reader_ok_def all_bytes_def reads_array_def)
qed (use assms(1) in \<open>simp add: reader_ok_def all_bytes_def\<close>)

definition section_ok :: "reader section_reader \<Rightarrow> bheap \<Rightarrow> bool" where
  "section_ok s h \<longleftrightarrow> reader_ok (sec_r s) h \<and> 0 \<le> sec_off s"

definition section_left :: "reader section_reader \<Rightarrow> bheap \<Rightarrow> byte list" where
  "section_left s h = take (nat (sec_limit s - sec_off s)) (drop (nat (sec_off s)) (all_bytes (sec_r s) h))"

text \<open>A section of a bytes.Reader keeps the promise of an io.Reader, over the bytes of the section.\<close>

interpretation sr: byte_reader "SectionReader_Read reader_at" section_ok section_left "\<lambda>s. reads_array (sec_r s)"
proof unfold_locales
  fix s h c assume "section_ok s h" "reads_array (sec_r s) c"
  then show "c < next_buf h" using rr.uses_old [of "sec_r s" h c] by (simp add: section_ok_def)
next
  fix s and h h' :: bheap
  assume "section_ok s h" "next_buf h \<le> next_buf h'" "\<And>c. reads_array (sec_r s) c \<Longrightarrow> buffers h' c = buffers h c"
  then show "section_ok s h' \<and> section_left s h' = section_left s h"
    using reader_kept [of "sec_r s" h h'] by (simp add: section_ok_def section_left_def)
next
  fix s h a assume ok: "section_ok s h" and a: "bslice_ok h a" "0 < blen a" "\<not> reads_array (sec_r s) (u_buf (bback a))"
  obtain k where k: "sec_off s = int k" using ok nonneg_int_cases by (auto simp: section_ok_def)
  have rk: "reader_ok (sec_r s) h" using ok by (simp add: section_ok_def)
  let ?D = "drop k (all_bytes (sec_r s) h)"
  show "\<exists>m e s' h'. SectionReader_Read reader_at a (s, h) = (Inr (int m, e), (s', h')) \<and> m \<le> blen a \<and>
      m \<le> length (section_left s h) \<and> take m (bytes_of h' a) = take m (section_left s h) \<and>
      buf_changes (u_buf (bback a)) {bstart a..<bstart a + m} h h' \<and> section_ok s' h' \<and>
      reads_array (sec_r s') = reads_array (sec_r s) \<and> section_left s' h' = drop m (section_left s h) \<and>
      (e = None \<and> 0 < m \<or> e = Some EOF \<and> section_left s' h' = [])"
  proof (cases "sec_limit s \<le> sec_off s")
    case True
    then show ?thesis using ok
      by (intro exI [of _ 0] exI [of _ "Some EOF"] exI [of _ s] exI [of _ h])
        (simp add: SectionReader_Read_def section_left_def buf_changes_def)
  next
    case False
    then obtain N where N: "sec_limit s - int k = int N" "0 < N" using pos_int_cases [of "sec_limit s - int k"] k by auto
    have cap: "blen a \<le> bcap a" using a(1) by (simp add: bslice_ok_def)
    define b where "b = (if N < blen a then sub_slice a 0 N else a)"
    have b: "bslice_ok h b" "blen b = min N (blen a)" "u_buf (bback b) = u_buf (bback a)" "bstart b = bstart a"
      using a(1) cap sub_slice [OF a(1), of 0 N] by (auto simp: b_def)
    define m where "m = min (blen b) (length ?D)"
    obtain h' where f: "reader_at b (int k) (sec_r s, h) =
        (Inr (int m, if ?D = [] \<or> m < blen b then Some EOF else None), (sec_r s, h'))"
      "take m (bytes_of h' b) = take m ?D" "buf_changes (u_buf (bback a)) {bstart a..<bstart a + m} h h'"
      using ReadAt_run [OF rk b(1), of k] a(3) unfolding b(3,4) m_def by blast
    have mN: "m \<le> N" "m \<le> blen a" "m \<le> length ?D" by (auto simp: m_def b(2))
    have ok': "bslice_ok h' a" by (rule buf_changes_ok [OF f(3) a(1)])
    have got: "take m (bytes_of h' a) = take m ?D"
      using f(2) mN sub_slice_within [OF ok', of 0 N] by (auto simp: b_def min_def split: if_splits)
    have same: "buffers h' c = buffers h c" if "reads_array (sec_r s) c" for c
      using changes_other [OF f(3) rr.uses_old [OF rk that]] that a(3) by blast
    have kept: "reader_ok (sec_r s) h' \<and> all_bytes (sec_r s) h' = all_bytes (sec_r s) h"
      using reader_kept [OF rk _ same] f(3) by (simp add: buf_changes_def)
    let ?s = "s\<lparr>sec_off := int k + int m\<rparr>"
    have nm: "nat (int k + int m) = k + m" "nat (sec_limit s - (int k + int m)) = N - m" using N(1) by linarith+
    have left: "section_left s h = take N ?D" "section_left ?s h' = take (N - m) (drop (k + m) (all_bytes (sec_r s) h))"
      using N(1) kept by (simp_all add: section_left_def k nm)
    have drp: "section_left ?s h' = drop m (section_left s h)" by (simp add: left drop_take add.commute)
    have "SectionReader_Read reader_at a (s, h) = (Inr (int m, if ?D = [] \<or> m < blen b then Some EOF else None), (?s, h'))"
    proof -
      have "(if int N < int (blen a) then cut a 0 (Some (int N)) else Inr a) = Inr b"
        using cut_between [of N a 0] cap by (auto simp: b_def)
      then show ?thesis using False f(1) by (simp add: SectionReader_Read_def Let_def k N(1))
    qed
    moreover have "section_left ?s h' = []" if "?D = [] \<or> m < blen b"
      using that unfolding left(2) by (auto simp: m_def b(2))
    moreover have "0 < m" if "\<not> (?D = [] \<or> m < blen b)" using that a(2) N(2) by (auto simp: m_def b(2))
    moreover have "take m (bytes_of h' a) = take m (section_left s h)" "m \<le> length (section_left s h)"
      using got mN by (simp_all add: left min_def)
    moreover have "section_ok ?s h'" using kept by (simp add: section_ok_def)
    ultimately show ?thesis using mN(2) f(3) drp
      by (intro exI [of _ m] exI [of _ "if ?D = [] \<or> m < blen b then Some EOF else None"] exI [of _ ?s] exI [of _ h']) auto
  qed
qed

text \<open>C35. ReadAll of a section of a bytes.Reader returns a new slice of exactly the bytes from the
  offset of the section up to its length or the end of the input, wherever the reader itself
  stands, and no error.\<close>

theorem ReadAll_section:
  assumes "reader_ok r h" "0 \<le> pos"
  shows "\<exists>s x h'. ReadAll (Suc (length (all_bytes r h))) (SectionReader_Read reader_at) (NewSectionReader r pos n, h) =
      Some (Inr (s, None), (x, h')) \<and>
    bslice_ok h' s \<and> bytes_of h' s = take (nat n) (drop (nat pos) (all_bytes r h))"
proof -
  have s: "section_ok (NewSectionReader r pos n) h" "section_left (NewSectionReader r pos n) h = take (nat n) (drop (nat pos) (all_bytes r h))"
    using assms by (simp_all add: section_ok_def section_left_def NewSectionReader_def)
  have "length (section_left (NewSectionReader r pos n) h) < Suc (length (all_bytes r h))" by (simp add: s(2))
  from sr.ReadAll_run [OF s(1) this] show ?thesis unfolding s(2) by blast
qed

theorem ReadAll_section_witness:
  "\<exists>s x h'. ReadAll 4 (SectionReader_Read reader_at) (NewSectionReader reader2 1 5, heap2) = Some (Inr (s, None), (x, h')) \<and>
    bytes_of h' s = [2, 3]"
proof -
  have a: "all_bytes reader2 heap2 = [1, 2, 3]"
    using heap2_objects(2) by (simp add: unread_def all_bytes_def reader2_def NewReader_def)
  from ReadAll_section [OF heap2_objects(1), of 1 5] show ?thesis unfolding a by (fastforce simp: eval_nat_numeral)
qed

subsection \<open>Departures from Go\<close>

text \<open>A reader that returns its last bytes together with \<open>EOF\<close> loses them in a MultiReader that has
  another reader behind: the result is what the next reader gives. Go returns them first.\<close>

lemma multi_reader_drops:
  "rd p (r, h) = (Inr (n, Some EOF), (r', h')) \<Longrightarrow> rd p (q, h') = (Inr (k, None), (q', h2)) \<Longrightarrow>
   multiReader_Read rd p [r, q] h = (Inr (k, None), ([q'], h2))"
  by simp

text \<open>ReadAtLeast reports an error that comes with the last bytes it needed; Go drops it.\<close>

lemma at_least_error:
  assumes "mn \<le> int (blen p)" "0 < mn" "cut p 0 None = Inr s" "rd s (r, h) = (Inr (mn, Some (ErrorText e)), x)"
  shows "ReadAtLeast (Suc fuel) rd p mn (r, h) = Some (Inr (mn, Some (ErrorText e)), x)"
  using assms by (simp add: ReadAtLeast_def)

end
