(* ===== verification/GsMaps.thy ===== *)
theory GsMaps
  imports GsMap
begin

section \<open>Packages maps and iter (gs/maps, gs/iter/iter.ts)\<close>

text \<open>
  The functions of package maps over the Go maps of GsMap; \<open>m.entries()\<close> of a nil map is a
  \<open>TypeError\<close>. An iterator (\<open>Seq\<close>) is a function that hands its values to a callback until the
  callback answers false; callbacks are state transformers. A loop over \<open>entries()\<close> that deletes the
  entry it is at sees every entry once, as \<open>Map\<close> promises, so it is a loop over the entries at the
  start. Callbacks that answer a promise are not represented.
\<close>

text \<open>\<open>m.entries()\<close>, \<open>m?.entries() ?? []\<close> and \<open>$.len(m)\<close>.\<close>

definition entries :: "(jsv, 'v) table option \<Rightarrow> (jsv, 'v) table res" where
  "entries m = (case m of None \<Rightarrow> Inl TypeError | Some t \<Rightarrow> Inr t)"

definition entries0 :: "(jsv, 'v) table option \<Rightarrow> (jsv, 'v) table" where
  "entries0 m = (case m of None \<Rightarrow> [] | Some t \<Rightarrow> t)"

definition map_len :: "(jsv, 'v) table option \<Rightarrow> nat" where "map_len m = length (entries0 m)"

subsection \<open>maps.ts\<close>

fun equal_loop :: "('v \<Rightarrow> 'w \<Rightarrow> bool) \<Rightarrow> (jsv, 'v) table \<Rightarrow> (jsv, 'w) table option \<Rightarrow> bool" where
  "equal_loop eq [] m2 = True"
| "equal_loop eq ((k, v1) # es) m2 =
     (case findMapEntry m2 k of None \<Rightarrow> False | Some e \<Rightarrow> if eq v1 (snd e) then equal_loop eq es m2 else False)"

definition maps_EqualFunc ::
  "(jsv, 'v) table option \<Rightarrow> (jsv, 'w) table option \<Rightarrow> ('v \<Rightarrow> 'w \<Rightarrow> bool) \<Rightarrow> bool res" where
  "maps_EqualFunc m1 m2 eq =
     (if map_len m1 \<noteq> map_len m2 then Inr False
      else bindR (entries m1) (\<lambda>es. Inr (equal_loop eq es m2)))"

text \<open>\<open>==\<close>. Values of one kind are compared as by \<open>===\<close>, objects by identity; null and undefined are
  equal to each other only; booleans, numbers and bigints of different kinds by their numeric value.
  The parameter \<open>coerce\<close> answers for a string or an object against a primitive of another kind, where
  the engine parses the string and calls methods of the object.\<close>

fun js_kind :: "jsv \<Rightarrow> nat" where
  "js_kind Undef = 0"
| "js_kind Null = 0"
| "js_kind (JBool b) = 1"
| "js_kind (JNum x) = 2"
| "js_kind (JBigInt i) = 3"
| "js_kind (JStr s) = 4"
| "js_kind _ = 5"

fun numeric_value :: "jsv \<Rightarrow> jsnum option" where
  "numeric_value (JBool b) = Some (Fin (if b then 1 else 0))"
| "numeric_value (JNum x) = Some x"
| "numeric_value (JBigInt i) = Some (Fin (of_int i))"
| "numeric_value _ = None"

definition loose_eq :: "(jsv \<Rightarrow> jsv \<Rightarrow> bool) \<Rightarrow> jsv \<Rightarrow> jsv \<Rightarrow> bool" where
  "loose_eq coerce a b =
     (if js_kind a = 0 \<or> js_kind b = 0 then js_kind a = js_kind b
      else if js_kind a = js_kind b then strict_eq a b
      else case (numeric_value a, numeric_value b) of (Some x, Some y) \<Rightarrow> num_eq x y | _ \<Rightarrow> coerce a b)"

definition maps_Equal ::
  "(jsv \<Rightarrow> jsv \<Rightarrow> bool) \<Rightarrow> (jsv, jsv) table option \<Rightarrow> (jsv, jsv) table option \<Rightarrow> bool res" where
  "maps_Equal coerce m1 m2 =
     (if map_len m1 \<noteq> map_len m2 then Inr False
      else bindR (entries m1) (\<lambda>es. Inr (equal_loop (loose_eq coerce) es m2)))"

fun set_loop :: "(jsv, 'v) table \<Rightarrow> (jsv, 'v) table option \<Rightarrow> (jsv, 'v) table option res" where
  "set_loop [] m = Inr m"
| "set_loop ((k, v) # es) m = bindR (mapSet m k v) (set_loop es)"

definition maps_clone :: "(jsv, 'v) table option \<Rightarrow> (jsv, 'v) table option res" where
  "maps_clone m = (case m of None \<Rightarrow> Inr None | Some t \<Rightarrow> set_loop t makeMap)"

definition maps_Clone :: "(jsv, 'v) table option \<Rightarrow> (jsv, 'v) table option res" where
  "maps_Clone m = (if m = None then Inr None else maps_clone m)"

definition maps_Copy :: "(jsv, 'v) table option \<Rightarrow> (jsv, 'v) table option \<Rightarrow> (jsv, 'v) table option res" where
  "maps_Copy dst src = set_loop (entries0 src) dst"

fun delete_loop :: "(jsv \<Rightarrow> 'v \<Rightarrow> bool) \<Rightarrow> (jsv, 'v) table \<Rightarrow> (jsv, 'v) table option \<Rightarrow> (jsv, 'v) table option" where
  "delete_loop del [] m = m"
| "delete_loop del ((k, v) # es) m = delete_loop del es (if del k v then deleteMapEntry m k else m)"

definition maps_DeleteFunc :: "(jsv, 'v) table option \<Rightarrow> (jsv \<Rightarrow> 'v \<Rightarrow> bool) \<Rightarrow> (jsv, 'v) table option res" where
  "maps_DeleteFunc m del = bindR (entries m) (\<lambda>es. Inr (delete_loop del es m))"

subsection \<open>Iterators\<close>

text \<open>The callback's answer and the state it leaves; the walk over a list of values.\<close>

type_synonym ('a, 's) yield = "'a \<Rightarrow> 's \<Rightarrow> bool \<times> 's"

type_synonym ('a, 's) seq = "('a, 's) yield \<Rightarrow> 's \<Rightarrow> 's"

fun iterateValues :: "'a list \<Rightarrow> ('a, 's) seq" where
  "iterateValues [] f s = s"
| "iterateValues (x # xs) f s = (case f x s of (more, s') \<Rightarrow> if more then iterateValues xs f s' else s')"

definition maps_All :: "(jsv, 'v) table option \<Rightarrow> (jsv \<times> 'v, 's) seq" where
  "maps_All m = iterateValues (entries0 m)"

definition maps_Keys :: "(jsv, 'v) table option \<Rightarrow> (jsv, 's) seq" where
  "maps_Keys m = iterateValues (map fst (entries0 m))"

definition maps_Values :: "(jsv, 'v) table option \<Rightarrow> ('v, 's) seq" where
  "maps_Values m = iterateValues (map snd (entries0 m))"

text \<open>\<open>Insert\<close> runs the iterator with a callback that writes into the map; a write that throws ends
  it, which the answer false stands for.\<close>

definition insert_yield :: "(jsv \<times> 'v, (jsv, 'v) table option res) yield" where
  "insert_yield kv m = (case bindR m (\<lambda>m. mapSet m (fst kv) (snd kv)) of Inl e \<Rightarrow> (False, Inl e) | Inr m' \<Rightarrow> (True, Inr m'))"

definition maps_Insert :: "(jsv, 'v) table option \<Rightarrow> (jsv \<times> 'v, (jsv, 'v) table option res) seq \<Rightarrow> (jsv, 'v) table option res" where
  "maps_Insert m seq = seq insert_yield (Inr m)"

definition maps_Collect :: "(jsv \<times> 'v, (jsv, 'v) table option res) seq \<Rightarrow> (jsv, 'v) table option res" where
  "maps_Collect seq = maps_Insert makeMap seq"

text \<open>\<open>iter.Pull\<close>: the variables its closures share, and \<open>next\<close> and \<open>stop\<close>.\<close>

record 'v pull =
  pull_done :: bool
  nextValue :: "'v option"
  hasNext :: bool

definition pull_yield :: "('v, 'v pull) yield" where
  "pull_yield v s = (False, s\<lparr>nextValue := Some v, hasNext := True\<rparr>)"

definition Pull :: "('v, 'v pull) seq \<Rightarrow> 'v pull" where
  "Pull seq = seq pull_yield \<lparr>pull_done = False, nextValue = None, hasNext = False\<rparr>"

definition pull_next :: "('v, 'v pull) seq \<Rightarrow> 'v pull \<Rightarrow> ('v option \<times> bool) \<times> 'v pull" where
  "pull_next seq s =
     (if pull_done s then ((None, False), s)
      else if hasNext s then ((nextValue s, True), s\<lparr>hasNext := False, nextValue := None\<rparr>)
      else let s = seq pull_yield s in
        if hasNext s then ((nextValue s, True), s\<lparr>hasNext := False, nextValue := None\<rparr>)
        else ((None, False), s\<lparr>pull_done := True\<rparr>))"

definition pull_stop :: "'v pull \<Rightarrow> 'v pull" where
  "pull_stop s = s\<lparr>pull_done := True, hasNext := False, nextValue := None\<rparr>"

text \<open>\<open>Pull2\<close> does not run the iterator before the first \<open>next\<close>.\<close>

definition Pull2 :: "('v, 'v pull) seq \<Rightarrow> 'v pull" where
  "Pull2 seq = \<lparr>pull_done = False, nextValue = None, hasNext = False\<rparr>"
subsection \<open>Tables of one size\<close>

context key_equality
begin

lemma table_distinct: "table_ok valid same m \<Longrightarrow> distinct m"
proof (induction m)
  case (Cons e m)
  obtain c w where e: "e = (c, w)" by (cases e)
  then have "(c, w) \<notin> set m" using Cons.prems refl by (auto simp: list_all_iff)
  then show ?case using Cons e by simp
qed simp

text \<open>A table whose keys are keys of another one embeds into it; when the other one is no longer, it
  has no further keys.\<close>

lemma embed:
  fixes t :: "('k, 'x) table" and u :: "('k, 'y) table"
  assumes t: "table_ok valid same t" and u: "table_ok valid same u"
    and sub: "\<And>p. p \<in> set t \<Longrightarrow> al_find same u (fst p) \<noteq> None"
  shows "\<exists>f. inj_on f (set t) \<and> (\<forall>p\<in>set t. f p \<in> set u \<and> same (fst (f p)) (fst p))"
proof -
  define f where "f p = the (al_find same u (fst p))" for p :: "'k \<times> 'x"
  have f: "f p \<in> set u \<and> same (fst (f p)) (fst p)" if "p \<in> set t" for p
    using sub [OF that] al_find_in [of same u "fst p"] by (auto simp: f_def)
  have v: "valid (fst p)" if "p \<in> set t" for p by (rule table_ok_valid [OF t that])
  have w: "valid (fst p)" if "p \<in> set u" for p by (rule table_ok_valid [OF u that])
  have "inj_on f (set t)"
  proof
    fix p p' assume p: "p \<in> set t" "p' \<in> set t" "f p = f p'"
    then have "same (fst p) (fst p')" using f [OF p(1)] f [OF p(2)] v w sym trans by metis
    then have "al_find same t (fst p') = Some p" using unique [OF t v [OF p(2)] p(1)] by simp
    moreover have "al_find same t (fst p') = Some p'" using unique [OF t v [OF p(2)] p(2)] refl v p(2) by simp
    ultimately show "p = p'" by simp
  qed
  then show ?thesis using f by blast
qed

lemma same_keys:
  assumes t: "table_ok valid same t" and u: "table_ok valid same u" and l: "length t = length u"
    and sub: "\<And>p. p \<in> set t \<Longrightarrow> al_find same u (fst p) \<noteq> None" and q: "q \<in> set u"
  shows "\<exists>p\<in>set t. same (fst q) (fst p)"
proof -
  obtain f where f: "inj_on f (set t)" "\<forall>p\<in>set t. f p \<in> set u \<and> same (fst (f p)) (fst p)"
    using embed [OF t u sub] by blast
  have "card (set t) = card (set u)"
    using table_distinct [OF t] table_distinct [OF u] l by (simp add: distinct_card)
  then have "f ` set t = set u" using f by (intro card_seteq) (auto simp: card_image)
  with q obtain p where "p \<in> set t" "q = f p" by (metis imageE)
  then show ?thesis using f(2) by blast
qed

lemma get_in: "table_ok valid same t \<Longrightarrow> (k, v) \<in> set t \<Longrightarrow> al_get same t k = Some v"
  using unique [of t k "(k, v)"] table_ok_valid [of valid same t "(k, v)"] refl by (simp add: al_get_def)

lemma get_same: "table_ok valid same t \<Longrightarrow> valid j \<Longrightarrow> valid k \<Longrightarrow> same j k \<Longrightarrow> al_get same t j = al_get same t k"
proof -
  assume t: "table_ok valid same t" and v: "valid j" "valid k" "same j k"
  have "al_find same t j = al_find same t k"
    using same_iff(1) [OF table_ok_valid [OF t] v(1,2,3)] by (intro al_find_cong) blast
  then show ?thesis by (simp add: al_get_def)
qed

text \<open>Two tables of one size whose entries are related are related at every key.\<close>

lemma related_tables:
  assumes t: "table_ok valid same t" and u: "table_ok valid same u" and l: "length t = length u"
  shows "(\<forall>(j, v)\<in>set t. \<exists>w. al_get same u j = Some w \<and> eq v w) \<longleftrightarrow>
    (\<forall>k. valid k \<longrightarrow> rel_option eq (al_get same t k) (al_get same u k))"
proof
  assume r: "\<forall>(j, v)\<in>set t. \<exists>w. al_get same u j = Some w \<and> eq v w"
  show "\<forall>k. valid k \<longrightarrow> rel_option eq (al_get same t k) (al_get same u k)"
  proof (intro allI impI)
    fix k assume k: "valid k"
    show "rel_option eq (al_get same t k) (al_get same u k)"
    proof (cases "al_find same t k")
      case (Some p)
      obtain j v where p: "p = (j, v)" by (cases p)
      have j: "(j, v) \<in> set t" "same j k" using al_find_in [OF Some] p by simp_all
      then have "al_get same u k = al_get same u j" using get_same [OF u table_ok_valid [OF t j(1)] k] by simp
      then show ?thesis using r j(1) Some p by (auto simp: al_get_def)
    next
      case None
      have "al_find same u k = None"
      proof (rule ccontr)
        assume "al_find same u k \<noteq> None"
        then obtain q where q: "q \<in> set u" "same (fst q) k" using al_find_in by fastforce
        have "\<And>p. p \<in> set t \<Longrightarrow> al_find same u (fst p) \<noteq> None" using r by (force simp: al_get_def)
        then obtain p where "p \<in> set t" "same (fst q) (fst p)" using same_keys [OF t u l _ q(1)] by blast
        moreover from this have "same (fst p) k"
          using q table_ok_valid [OF u q(1)] table_ok_valid [OF t] k sym trans by blast
        ultimately show False using None by (simp add: al_find_None)
      qed
      then show ?thesis using None by (simp add: al_get_def)
    qed
  qed
next
  assume r: "\<forall>k. valid k \<longrightarrow> rel_option eq (al_get same t k) (al_get same u k)"
  show "\<forall>(j, v)\<in>set t. \<exists>w. al_get same u j = Some w \<and> eq v w"
  proof safe
    fix j v assume j: "(j, v) \<in> set t"
    then have "valid j" using table_ok_valid [OF t j] by simp
    then have "rel_option eq (Some v) (al_get same u j)" using r get_in [OF t j] by metis
    then show "\<exists>w. al_get same u j = Some w \<and> eq v w" by (cases "al_get same u j") auto
  qed
qed

lemma same_length:
  assumes t: "table_ok valid same t" and u: "table_ok valid same u"
    and r: "\<forall>k. valid k \<longrightarrow> (al_get same t k = None) = (al_get same u k = None)"
  shows "length t = length u"
proof -
  have le: "length t \<le> length u" if t: "table_ok valid same t" and u: "table_ok valid same u"
    and sub: "\<And>k. valid k \<Longrightarrow> al_get same t k \<noteq> None \<Longrightarrow> al_get same u k \<noteq> None"
    for t :: "('k, 'x) table" and u :: "('k, 'y) table"
  proof -
    have "al_find same u (fst p) \<noteq> None" if p: "p \<in> set t" for p
      using sub [OF table_ok_valid [OF t p]] get_in [OF t, of "fst p" "snd p"] p by (auto simp: al_get_def)
    from embed [OF t u this] obtain f where "inj_on f (set t)" "\<forall>p\<in>set t. f p \<in> set u" by blast
    then have "card (set t) \<le> card (set u)" by (intro card_inj_on_le [of f]) auto
    then show ?thesis using table_distinct [OF t] table_distinct [OF u] by (simp add: distinct_card)
  qed
  show ?thesis using le [OF t u] le [OF u t] r by force
qed

end
context key_equality
begin

lemma later_absent: "table_ok valid same (u @ (k, v) # t) \<Longrightarrow> al_find same u k = None"
proof (induction u)
  case (Cons e u)
  obtain c w where e: "e = (c, w)" by (cases e)
  with Cons.prems have "\<not> same k c" "valid c" "valid k" using table_ok_valid [OF Cons.prems, of "(k, v)"] by (auto simp: list_all_iff)
  then have "\<not> same c k" using sym by blast
  then show ?case using Cons e by simp
qed simp

lemma put_absent: "al_find same u k = None \<Longrightarrow> al_put same u k v = u @ [(k, v)]"
  by (induction u) (auto split: if_splits)

definition put_all :: "('k, 'v) table \<Rightarrow> ('k, 'v) table \<Rightarrow> ('k, 'v) table" where
  "put_all t u = fold (\<lambda>(k, v) m. al_put same m k v) t u"

lemma put_all_copy: "table_ok valid same (u @ t) \<Longrightarrow> put_all t u = u @ t"
proof (induction t arbitrary: u)
  case (Cons e t)
  obtain k v where e: "e = (k, v)" by (cases e)
  have "al_put same u k v = u @ [e]" using later_absent [of u k v t] Cons.prems e put_absent [of u k v] by simp
  then show ?case using Cons.IH [of "u @ [e]"] Cons.prems by (simp add: put_all_def e)
qed (simp add: put_all_def)

lemma put_all_get:
  "table_ok valid same t \<Longrightarrow> table_ok valid same u \<Longrightarrow> valid k \<Longrightarrow>
   table_ok valid same (put_all t u) \<and>
   al_get same (put_all t u) k = (case al_get same t k of Some v \<Rightarrow> Some v | None \<Rightarrow> al_get same u k)"
proof (induction t arbitrary: u)
  case (Cons e t)
  obtain c v where e: "e = (c, v)" by (cases e)
  have c: "valid c" "table_ok valid same t" using Cons.prems(1) e by simp_all
  have none: "al_get same t k = None" if "same c k"
    using distinct_classes [of c v t _ k] Cons.prems e that by (auto simp: al_get_def al_find_None)
  have "put_all (e # t) u = put_all t (al_put same u c v)" by (simp add: put_all_def e)
  then show ?case using Cons.IH [OF c(2) put_ok [OF Cons.prems(2) c(1)] Cons.prems(3), of v] none
    by (auto simp: e get_put [OF Cons.prems(2) c(1) Cons.prems(3)] split: option.split)
qed (simp add: put_all_def)

lemma remove_entry: "table_ok valid same t \<Longrightarrow> (k, v) \<in> set t \<Longrightarrow> al_remove same t k = filter (\<lambda>p. p \<noteq> (k, v)) t"
proof (induction t)
  case (Cons e t)
  obtain c w where e: "e = (c, w)" by (cases e)
  have k: "valid k" using table_ok_valid [OF Cons.prems] by simp
  show ?case
  proof (cases "(k, v) = (c, w)")
    case True
    then have "(k, v) \<notin> set t" using Cons.prems(1) e refl [OF k] by (auto simp: list_all_iff)
    then have "filter (\<lambda>p. p \<noteq> (k, v)) t = t" by (auto simp: filter_id_conv)
    then show ?thesis using True e refl [OF k] by (simp add: al_remove_def)
  next
    case False
    then have t: "(k, v) \<in> set t" using Cons.prems(2) e by auto
    then have "\<not> same c k" using distinct_classes [of c w t "(k, v)" k] Cons.prems e k refl by simp
    then show ?thesis using Cons.IH t Cons.prems(1) e False by (auto simp: al_remove_def)
  qed
qed simp

lemma table_filter: "table_ok valid same t \<Longrightarrow> table_ok valid same (filter P t)"
  by (induction t) (auto simp: list_all_iff)

end

subsection \<open>The functions on well-formed maps\<close>

definition value_at :: "(jsv, 'v) table option \<Rightarrow> jsv \<Rightarrow> 'v option" where
  "value_at m k = map_option snd (findMapEntry m k)"

abbreviation map_ok :: "(nat \<Rightarrow> jsv) \<Rightarrow> (jsv, 'v) table \<Rightarrow> bool" where
  "map_ok h t \<equiv> table_ok (wf_value h) go_key_eq t"

lemma value_at_table: "map_ok h t \<Longrightarrow> wf_value h k \<Longrightarrow> value_at (Some t) k = al_get go_key_eq t k"
  by (simp add: value_at_def al_get_def findMapEntry_table)

lemma equal_loop_iff:
  "map_ok h u \<Longrightarrow> \<forall>p\<in>set es. wf_value h (fst p) \<Longrightarrow>
   equal_loop eq es (Some u) \<longleftrightarrow> (\<forall>(j, v)\<in>set es. \<exists>w. al_get go_key_eq u j = Some w \<and> eq v w)"
proof (induction es)
  case (Cons e es)
  then show ?case by (cases e) (auto simp: findMapEntry_table al_get_def split: option.split)
qed simp

lemma set_loop_table:
  "map_ok h u \<Longrightarrow> \<forall>p\<in>set t. wf_value h (fst p) \<Longrightarrow> set_loop t (Some u) = Inr (Some (go.put_all t u))"
proof (induction t arbitrary: u)
  case (Cons e t)
  obtain k v where e: "e = (k, v)" by (cases e)
  then show ?case using Cons.IH [OF go.put_ok [OF Cons.prems(1)]] Cons.prems
    by (simp add: mapSet_table go.put_all_def)
qed (simp add: go.put_all_def)

lemma delete_loop_table:
  "map_ok h t \<Longrightarrow> distinct es \<Longrightarrow> set es \<subseteq> set t \<Longrightarrow>
   delete_loop del es (Some t) = Some (filter (\<lambda>p. \<not> (p \<in> set es \<and> del (fst p) (snd p))) t)"
proof (induction es arbitrary: t)
  case (Cons e es)
  obtain k v where e: "e = (k, v)" by (cases e)
  have k: "wf_value h k" "(k, v) \<in> set t" using table_ok_valid [OF Cons.prems(1), of "(k, v)"] Cons.prems(3) e by auto
  show ?case
  proof (cases "del k v")
    case True
    have r: "deleteMapEntry (Some t) k = Some (filter (\<lambda>p. p \<noteq> (k, v)) t)"
      using deleteMapEntry_table [OF Cons.prems(1) k(1)] go.remove_entry [OF Cons.prems(1) k(2)] by simp
    have "map_ok h (filter (\<lambda>p. p \<noteq> (k, v)) t)" by (rule go.table_filter [OF Cons.prems(1)])
    moreover have "set es \<subseteq> set (filter (\<lambda>p. p \<noteq> (k, v)) t)" using Cons.prems(2,3) e by auto
    ultimately have "delete_loop del es (Some (filter (\<lambda>p. p \<noteq> (k, v)) t)) =
        Some (filter (\<lambda>p. \<not> (p \<in> set es \<and> del (fst p) (snd p))) (filter (\<lambda>p. p \<noteq> (k, v)) t))"
      using Cons.IH Cons.prems(2) by simp
    moreover have "filter (\<lambda>p. \<not> (p \<in> set es \<and> del (fst p) (snd p))) (filter (\<lambda>p. p \<noteq> (k, v)) t) =
        filter (\<lambda>p. \<not> (p \<in> set (e # es) \<and> del (fst p) (snd p))) t"
      using True e by (auto intro!: filter_cong)
    ultimately show ?thesis using True e r by simp
  next
    case False
    have "filter (\<lambda>p. \<not> (p \<in> set es \<and> del (fst p) (snd p))) t = filter (\<lambda>p. \<not> (p \<in> set (e # es) \<and> del (fst p) (snd p))) t"
      using False e by (auto intro!: filter_cong)
    then show ?thesis using Cons.IH [OF Cons.prems(1)] Cons.prems(2,3) False e by simp
  qed
qed simp
lemma value_at_nil: "value_at m k = value_at (Some (entries0 m)) k"
  by (cases m) (simp_all add: value_at_def findMapEntry_def entries0_def split: option.split)

lemma equal_loop_nil: "equal_loop eq es m = equal_loop eq es (Some (entries0 m))"
proof (induction es)
  case (Cons e es)
  have "findMapEntry m (fst e) = findMapEntry (Some (entries0 m)) (fst e)"
    by (cases m) (simp_all add: findMapEntry_def entries0_def split: option.split)
  with Cons show ?case by (cases e) (simp split: option.split)
qed simp

lemma equal_loop_spec:
  assumes ok: "map_ok h t" "map_ok h u"
  shows "(length t = length u \<and> equal_loop eq t (Some u)) =
      (\<forall>k. wf_value h k \<longrightarrow> rel_option eq (value_at (Some t) k) (value_at (Some u) k))"
proof (cases "length t = length u")
  case True
  have wf: "\<forall>p\<in>set t. wf_value h (fst p)" using table_ok_valid [OF ok(1)] by blast
  then show ?thesis using equal_loop_iff [OF ok(2) wf, of eq] go.related_tables [OF ok True, of eq] True
    by (simp add: value_at_table [OF ok(1)] value_at_table [OF ok(2)])
next
  case False
  have "\<not> (\<forall>k. wf_value h k \<longrightarrow> rel_option eq (al_get go_key_eq t k) (al_get go_key_eq u k))"
  proof
    assume r: "\<forall>k. wf_value h k \<longrightarrow> rel_option eq (al_get go_key_eq t k) (al_get go_key_eq u k)"
    then have "\<forall>k. wf_value h k \<longrightarrow> (al_get go_key_eq t k = None) = (al_get go_key_eq u k = None)"
      by (metis option.rel_distinct(1) option.rel_distinct(2) not_None_eq)
    then show False using go.same_length [OF ok] False by blast
  qed
  then show ?thesis using False by (simp add: value_at_table [OF ok(1)] value_at_table [OF ok(2)])
qed

text \<open>C17. maps.EqualFunc and maps.Equal, of nil and other maps, answer whether the maps agree at every
  key: both hold no value there, or both hold one and the values are equal. It is enough to look the
  entries of the one up in the other because the two have the same number of keys. EqualFunc
  compares values by the callback, Equal by JavaScript's ==, which for structs is identity and not
  Go's equality. They throw exactly where the first map is nil and the second nil or empty.\<close>

theorem maps_equal_iff:
  assumes "pred_option (map_ok h) m1" "pred_option (map_ok h) m2" "pred_option (map_ok h) n1" "pred_option (map_ok h) n2"
  shows "maps_EqualFunc m1 m2 eq = (if m1 = None \<and> map_len m2 = 0 then Inl TypeError
      else Inr (\<forall>k. wf_value h k \<longrightarrow> rel_option eq (value_at m1 k) (value_at m2 k))) \<and>
    maps_Equal coerce n1 n2 = (if n1 = None \<and> map_len n2 = 0 then Inl TypeError
      else Inr (\<forall>k. wf_value h k \<longrightarrow> rel_option (loose_eq coerce) (value_at n1 k) (value_at n2 k)))"
proof -
  have core: "(if map_len l \<noteq> map_len r then Inr False else bindR (entries l) (\<lambda>es. Inr (equal_loop eq es r))) =
      (if l = None \<and> map_len r = 0 then Inl TypeError
       else Inr (\<forall>k. wf_value h k \<longrightarrow> rel_option eq (value_at l k) (value_at r k)))"
    if ok: "pred_option (map_ok h) l" "pred_option (map_ok h) r"
    for l :: "(jsv, 'x) table option" and r :: "(jsv, 'y) table option" and eq
  proof -
    have "map_ok h (entries0 l)" "map_ok h (entries0 r)" using ok by (auto simp: entries0_def split: option.split)
    from equal_loop_spec [OF this, of eq]
    have "(map_len l = map_len r \<and> equal_loop eq (entries0 l) r) =
        (\<forall>k. wf_value h k \<longrightarrow> rel_option eq (value_at l k) (value_at r k))"
      unfolding map_len_def equal_loop_nil [of eq _ r] value_at_nil [of l] value_at_nil [of r] .
    then show ?thesis by (cases l) (auto simp: entries_def entries0_def map_len_def)
  qed
  show ?thesis unfolding maps_EqualFunc_def maps_Equal_def core [OF assms(1,2)] core [OF assms(3,4)] by simp
qed

text \<open>maps.Clone of a map has the same entries in the same order, and of nil is nil. maps.Copy leaves in the
  target the value of the source at each of its keys and the old value elsewhere; into a nil map it
  throws unless there is nothing to copy. maps.DeleteFunc removes exactly the entries the callback
  selects and keeps the rest in order.\<close>

theorem maps_edit_spec:
  assumes "map_ok h t" "map_ok h u" "wf_value h k"
  shows "maps_Clone (Some t) = Inr (Some t) \<and> maps_Clone (None :: (jsv, 'v) table option) = Inr None \<and>
    (\<exists>r. maps_Copy (Some u) (Some t) = Inr (Some r) \<and> map_ok h r \<and>
      value_at (Some r) k = (case value_at (Some t) k of Some v \<Rightarrow> Some v | None \<Rightarrow> value_at (Some u) k)) \<and>
    maps_Copy None (Some t) = (if t = [] then Inr None else Inl (ThrownError ''assign to nil map'')) \<and>
    maps_DeleteFunc (Some t) del = Inr (Some (filter (\<lambda>(k, v). \<not> del k v) t))"
proof -
  have wf: "\<forall>p\<in>set t. wf_value h (fst p)" using table_ok_valid [OF assms(1)] by blast
  have "go.put_all t [] = t" using go.put_all_copy [of h "[]" t] assms(1) by simp
  then have clone: "maps_Clone (Some t) = Inr (Some t)"
    using set_loop_table [of h "[]" t] wf by (simp add: maps_Clone_def maps_clone_def makeMap_def)
  have nil: "maps_Copy None (Some t) = (if t = [] then Inr None else Inl (ThrownError ''assign to nil map''))"
    by (cases t) (auto simp: maps_Copy_def entries0_def mapSet_def)
  note g = go.put_all_get [OF assms]
  have copy: "\<exists>r. maps_Copy (Some u) (Some t) = Inr (Some r) \<and> map_ok h r \<and>
      value_at (Some r) k = (case value_at (Some t) k of Some v \<Rightarrow> Some v | None \<Rightarrow> value_at (Some u) k)"
    using set_loop_table [OF assms(2) wf] g
    by (simp add: maps_Copy_def entries0_def value_at_table [OF assms(1,3)] value_at_table [OF assms(2,3)]
        value_at_table [OF conjunct1 [OF g] assms(3)] split: option.split)
  have "maps_DeleteFunc (Some t) del = Inr (Some (filter (\<lambda>(k, v). \<not> del k v) t))"
    using delete_loop_table [OF assms(1) go.table_distinct [OF assms(1)] subset_refl, of del]
    by (auto simp: maps_DeleteFunc_def entries_def intro!: filter_cong)
  then show ?thesis using clone nil copy by (simp add: maps_Clone_def [of None])
qed

definition some_objects :: "nat \<Rightarrow> jsv" where "some_objects i = JObj i None Untyped (Some [])"

lemma small_maps:
  "map_ok some_objects [(JBool True, 1 :: nat), (JBool False, 2)]"
  "map_ok some_objects [(JBool False, 2 :: nat), (JBool True, 1)]"
  "map_ok some_objects [(JBool True, JBool True)]"
  by (simp_all add: go_key_eq_def same_value_zero_def strict_eq_def)

lemma small_values:
  "value_at (Some [(JBool True, 1 :: nat), (JBool False, 2)]) k = value_at (Some [(JBool False, 2 :: nat), (JBool True, 1)]) k"
  by (cases k) (auto simp: value_at_def findMapEntry_def same_value_zero_def strict_eq_def string_match_def object_match_def)

theorem maps_equal_iff_witness:
  "maps_EqualFunc (Some [(JBool True, 1 :: nat), (JBool False, 2)]) (Some [(JBool False, 2), (JBool True, 1)]) (=) = Inr True"
proof -
  let ?m = "Some [(JBool True, 1 :: nat), (JBool False, 2)]" and ?n = "Some [(JBool False, 2 :: nat), (JBool True, 1)]"
  have p: "pred_option (map_ok some_objects) ?m" "pred_option (map_ok some_objects) ?n"
    "pred_option (map_ok some_objects) (None :: (jsv, jsv) table option)"
    using small_maps(1,2) unfolding option.pred_inject by (blast, blast, simp)
  have "rel_option (=) (value_at ?m k) (value_at ?n k)" for k unfolding option.rel_eq by (rule small_values)
  then show ?thesis
    using maps_equal_iff [OF p(1,2,3,3), of "(=)" "\<lambda>a b. False", THEN conjunct1] by auto
qed

theorem maps_edit_spec_witness:
  "maps_DeleteFunc (Some [(JBool True, 1 :: nat), (JBool False, 2)]) (\<lambda>k v. v < 2) = Inr (Some [(JBool False, 2)])"
proof -
  have "wf_value some_objects (JBool True)" by simp
  from maps_edit_spec [OF small_maps(1,2) this, of "\<lambda>k v. v < 2", THEN conjunct2, THEN conjunct2, THEN conjunct2, THEN conjunct2]
  show ?thesis by simp
qed

subsection \<open>Departures from Go\<close>

text \<open>Nil maps: Go's Equal of two nil maps is true and DeleteFunc of one does nothing; both throw here.\<close>

lemma nil_maps_throw:
  "maps_Equal coerce None None = Inl TypeError" "maps_EqualFunc None None eq = Inl TypeError" "maps_DeleteFunc None del = Inl TypeError"
  by (simp_all add: maps_Equal_def maps_EqualFunc_def maps_DeleteFunc_def map_len_def entries0_def entries_def)

text \<open>\<open>next\<close> of \<open>Pull\<close> starts the iterator again for every value, so an iterator that has a first
  value gives it for ever.\<close>

definition first_again :: "'v \<Rightarrow> 'v pull \<Rightarrow> bool" where
  "first_again x s \<longleftrightarrow> \<not> pull_done s \<and> (hasNext s \<longrightarrow> nextValue s = Some x)"

lemma pull_repeats_first:
  assumes seq: "\<And>s. seq pull_yield s = s\<lparr>nextValue := Some x, hasNext := True\<rparr>"
  shows "fst (pull_next seq (((\<lambda>s. snd (pull_next seq s)) ^^ n) (Pull seq))) = (Some x, True)"
proof -
  have step: "fst (pull_next seq s) = (Some x, True) \<and> first_again x (snd (pull_next seq s))" if "first_again x s" for s
    using that by (simp add: pull_next_def first_again_def seq Let_def)
  have "first_again x (((\<lambda>s. snd (pull_next seq s)) ^^ n) (Pull seq))"
  proof (induction n)
    case 0
    show ?case by (simp add: Pull_def seq first_again_def)
  qed (simp add: step)
  then show ?thesis using step by blast
qed

lemma pull_of_list:
  "fst (pull_next (iterateValues (x # xs)) (((\<lambda>s. snd (pull_next (iterateValues (x # xs)) s)) ^^ n) (Pull (iterateValues (x # xs))))) =
     (Some x, True)"
  by (rule pull_repeats_first) (simp add: pull_yield_def)
text \<open>The comment on Equal says that values are compared using ==. It compares them with \<open>!=\<close>, which for
  structs compares references: Go's Equal holds of
  two maps whose values are equal structs.\<close>

lemma equal_by_reference:
  "comparableEqual (JObj 1 None Untyped (Some [(''x'', JBool True)])) (JObj 2 None Untyped (Some [(''x'', JBool True)]))"
  "maps_Equal coerce (Some [(JBool True, JObj 1 None Untyped (Some [(''x'', JBool True)]))])
     (Some [(JBool True, JObj 2 None Untyped (Some [(''x'', JBool True)]))]) = Inr False"
  by (simp_all add: strict_eq_def loose_eq_def maps_Equal_def map_len_def entries0_def entries_def findMapEntry_def same_value_zero_def)

end
