(* ===== verification/GsSlicesPkg.thy ===== *)
theory GsSlicesPkg
  imports GsSort GsMaps
begin

section \<open>Packages slices and cmp (gs/slices/slices.ts, gs/cmp/index.ts)\<close>

text \<open>
  A slice argument is the list of its elements, \<open>None\<close> where nil makes a difference. A function
  that works in place answers the elements behind its argument afterwards and the length of the
  slice it returns, which is \<open>$.goSlice(s, 0, w)\<close> of the same array. A callback is a total
  function, \<open>None\<close> the nil function; a promise as its result, which the source refuses, and a
  panic in it are not represented. The functions over ordered elements are given for numbers, the
  functions that compare, clear or return \<open>any\<close> for the values of GsValue. A slice that is a
  \<open>Uint8Array\<close>, in which the engine turns null into 0, is not represented.
\<close>

text \<open>The guard of every function with a callback.\<close>

definition given :: "string \<Rightarrow> 'f option \<Rightarrow> ('f \<Rightarrow> 'b res) \<Rightarrow> 'b res" where
  "given msg f g = (case f of None \<Rightarrow> Inl (ThrownError msg) | Some f \<Rightarrow> g f)"

subsection \<open>Package cmp\<close>

text \<open>An \<open>Ordered\<close> type is a number, bigint or string type. Numbers are ordered by value and strings by
  their UTF-16 units; only numbers have a NaN.\<close>

definition ordered_Compare :: "('a \<Rightarrow> bool) \<Rightarrow> ('a \<Rightarrow> 'a \<Rightarrow> bool) \<Rightarrow> 'a \<Rightarrow> 'a \<Rightarrow> int" where
  "ordered_Compare isNaN lt a b =
     (let aNaN = isNaN a; bNaN = isNaN b in
      if aNaN \<and> bNaN then 0 else if aNaN \<or> lt a b then -1
      else if bNaN \<or> lt b a then 1 else 0)"

definition ordered_Less :: "('a \<Rightarrow> bool) \<Rightarrow> ('a \<Rightarrow> 'a \<Rightarrow> bool) \<Rightarrow> 'a \<Rightarrow> 'a \<Rightarrow> bool" where
  "ordered_Less isNaN lt a b \<longleftrightarrow> isNaN a \<and> \<not> isNaN b \<or> lt a b"

definition cmp_Compare :: "js_number \<Rightarrow> js_number \<Rightarrow> int" where
  "cmp_Compare = ordered_Compare (\<lambda>x. x = GsNumber.NaN) number_less"

definition cmp_Compare_bigint :: "int \<Rightarrow> int \<Rightarrow> int" where
  "cmp_Compare_bigint = ordered_Compare (\<lambda>x. False) (<)"

definition cmp_Compare_string :: "jstr \<Rightarrow> jstr \<Rightarrow> int" where
  "cmp_Compare_string = ordered_Compare (\<lambda>x. False) (<)"

definition cmp_Less :: "js_number \<Rightarrow> js_number \<Rightarrow> bool" where
  "cmp_Less = ordered_Less (\<lambda>x. x = GsNumber.NaN) number_less"

subsection \<open>Comparing\<close>

fun compare_loop :: "('a \<Rightarrow> 'b \<Rightarrow> int) \<Rightarrow> 'a list \<Rightarrow> 'b list \<Rightarrow> int" where
  "compare_loop c (x # xs) (y # ys) = (if c x y \<noteq> 0 then c x y else compare_loop c xs ys)"
| "compare_loop c xs ys = (if xs = [] \<and> ys \<noteq> [] then -1 else if xs \<noteq> [] \<and> ys = [] then 1 else 0)"

definition CompareFunc :: "'a list \<Rightarrow> 'b list \<Rightarrow> ('a \<Rightarrow> 'b \<Rightarrow> int) option \<Rightarrow> int res" where
  "CompareFunc s1 s2 compare =
     given ''slices.CompareFunc: nil comparison function'' compare (\<lambda>c. Inr (compare_loop c s1 s2))"

definition slices_Compare :: "js_number list \<Rightarrow> js_number list \<Rightarrow> int" where
  "slices_Compare s1 s2 = compare_loop cmp_Compare s1 s2"

definition EqualFunc :: "'a list \<Rightarrow> 'b list \<Rightarrow> ('a \<Rightarrow> 'b \<Rightarrow> bool) option \<Rightarrow> bool res" where
  "EqualFunc s1 s2 eq = given ''slices.EqualFunc: nil equality function'' eq (\<lambda>eq.
     Inr (if length s1 \<noteq> length s2 then False else list_all (\<lambda>i. eq (s1 ! i) (s2 ! i)) [0..<length s1]))"

definition slices_Equal :: "jsv list \<Rightarrow> jsv list \<Rightarrow> bool" where
  "slices_Equal s1 s2 =
     (if length s1 \<noteq> length s2 then False else list_all (\<lambda>i. comparableEqual (s1 ! i) (s2 ! i)) [0..<length s1])"

subsection \<open>Searching\<close>

fun index_loop :: "('a \<Rightarrow> bool) \<Rightarrow> nat \<Rightarrow> 'a list \<Rightarrow> int" where
  "index_loop f i [] = -1"
| "index_loop f i (x # xs) = (if f x then int i else index_loop f (Suc i) xs)"

definition IndexFunc :: "'a list \<Rightarrow> ('a \<Rightarrow> bool) option \<Rightarrow> int res" where
  "IndexFunc s f = given ''slices.IndexFunc: nil predicate function'' f (\<lambda>f. Inr (index_loop f 0 s))"

definition slices_Index :: "jsv list \<Rightarrow> jsv \<Rightarrow> int" where
  "slices_Index s v = index_loop (\<lambda>x. comparableEqual x v) 0 s"

definition ContainsFunc :: "'a list \<Rightarrow> ('a \<Rightarrow> bool) option \<Rightarrow> bool res" where
  "ContainsFunc s f = bindR (IndexFunc s f) (\<lambda>i. Inr (0 \<le> i))"

definition slices_Contains :: "jsv list \<Rightarrow> jsv \<Rightarrow> bool" where "slices_Contains s v \<longleftrightarrow> 0 \<le> slices_Index s v"

definition MaxFunc :: "'a list \<Rightarrow> ('a \<Rightarrow> 'a \<Rightarrow> int) option \<Rightarrow> 'a res" where
  "MaxFunc x compare = given ''slices.MaxFunc: nil comparison function'' compare (\<lambda>c.
     case x of [] \<Rightarrow> Inl (ThrownError ''slices.MaxFunc: empty list'')
     | a # as \<Rightarrow> Inr (fold (\<lambda>value mx. if c mx value < 0 then value else mx) as a))"

definition MinFunc :: "'a list \<Rightarrow> ('a \<Rightarrow> 'a \<Rightarrow> int) option \<Rightarrow> 'a res" where
  "MinFunc x compare = given ''slices.MinFunc: nil comparison function'' compare (\<lambda>c.
     case x of [] \<Rightarrow> Inl (ThrownError ''slices.MinFunc: empty list'')
     | a # as \<Rightarrow> Inr (fold (\<lambda>value mn. if c value mn < 0 then value else mn) as a))"

definition slices_Max :: "js_number list \<Rightarrow> js_number res" where
  "slices_Max x = (case x of [] \<Rightarrow> Inl (ThrownError ''slices.Max: empty list'')
     | a # as \<Rightarrow> Inr (fold (\<lambda>value mx. if cmp_Compare mx value < 0 then value else mx) as a))"

definition slices_Min :: "js_number list \<Rightarrow> js_number res" where
  "slices_Min x = (case x of [] \<Rightarrow> Inl (ThrownError ''slices.Min: empty list'')
     | a # as \<Rightarrow> Inr (fold (\<lambda>value mn. if cmp_Compare value mn < 0 then value else mn) as a))"

function bsearch_loop :: "('e \<Rightarrow> 't \<Rightarrow> int) \<Rightarrow> 'e list \<Rightarrow> 't \<Rightarrow> nat \<Rightarrow> nat \<Rightarrow> nat" where
  "bsearch_loop c x target left right =
     (if left < right then
        let mid = (left + right) div 2 in
        if c (x ! mid) target < 0 then bsearch_loop c x target (mid + 1) right
        else bsearch_loop c x target left mid
      else left)"
  by pat_completeness auto
termination
  by (relation "measure (\<lambda>(c, x, target, left, right). right - left)") auto

declare bsearch_loop.simps [simp del]

definition BinarySearchFunc :: "'e list \<Rightarrow> 't \<Rightarrow> ('e \<Rightarrow> 't \<Rightarrow> int) option \<Rightarrow> (nat \<times> bool) res" where
  "BinarySearchFunc x target compare = given ''slices.BinarySearchFunc: nil comparison function'' compare (\<lambda>c.
     let left = bsearch_loop c x target 0 (length x) in
     Inr (left, left < length x \<and> c (x ! left) target = 0))"

definition BinarySearch :: "js_number list \<Rightarrow> js_number \<Rightarrow> (nat \<times> bool) res" where
  "BinarySearch x target = BinarySearchFunc x target (Some cmp_Compare)"

subsection \<open>Sorting\<close>

text \<open>From the last position down.\<close>

fun sorted_loop :: "('a \<Rightarrow> 'a \<Rightarrow> int) \<Rightarrow> 'a list \<Rightarrow> nat \<Rightarrow> bool" where
  "sorted_loop c x 0 = True"
| "sorted_loop c x (Suc i) = (if c (x ! Suc i) (x ! i) < 0 then False else sorted_loop c x i)"

definition IsSortedFunc :: "'a list \<Rightarrow> ('a \<Rightarrow> 'a \<Rightarrow> int) option \<Rightarrow> bool res" where
  "IsSortedFunc x compare = given ''slices.IsSortedFunc: nil comparison function'' compare (\<lambda>c.
     Inr (sorted_loop c x (length x - 1)))"

definition slices_IsSorted :: "js_number list \<Rightarrow> bool" where
  "slices_IsSorted x = sorted_loop cmp_Compare x (length x - 1)"

function merge_loop :: "('a \<Rightarrow> 'a \<Rightarrow> int) \<Rightarrow> 'a list \<Rightarrow> 'a list \<Rightarrow> nat \<Rightarrow> nat \<Rightarrow> 'a list \<Rightarrow> 'a list" where
  "merge_loop c left right li ri out =
     (if li < length left \<and> ri < length right then
        if c (left ! li) (right ! ri) \<le> 0 then merge_loop c left right (li + 1) ri (out @ [left ! li])
        else merge_loop c left right li (ri + 1) (out @ [right ! ri])
      else out @ drop li left @ drop ri right)"
  by pat_completeness auto
termination
  by (relation "measure (\<lambda>(c, left, right, li, ri, out). (length left - li) + (length right - ri))") auto

declare merge_loop.simps [simp del]

definition asyncMerge :: "('a \<Rightarrow> 'a \<Rightarrow> int) \<Rightarrow> 'a list \<Rightarrow> 'a list \<Rightarrow> 'a list" where
  "asyncMerge c left right = merge_loop c left right 0 0 []"

function asyncMergeSort :: "('a \<Rightarrow> 'a \<Rightarrow> int) \<Rightarrow> 'a list \<Rightarrow> 'a list" where
  "asyncMergeSort c values =
     (if length values < 2 then values
      else let mid = length values div 2 in
        asyncMerge c (asyncMergeSort c (take mid values)) (asyncMergeSort c (drop mid values)))"
  by pat_completeness auto
termination
  by (relation "measure (\<lambda>(c, values). length values)") auto

declare asyncMergeSort.simps [simp del]

definition SortFunc :: "'a list \<Rightarrow> ('a \<Rightarrow> 'a \<Rightarrow> int) option \<Rightarrow> 'a list res" where
  "SortFunc s compare = given ''slices.SortFunc: nil comparison function'' compare (\<lambda>c.
     if length s < 2 then Inr s
     else let out = asyncMergeSort c s in Inr (fold (\<lambda>i s. s[i := out ! i]) [0..<length out] s))"

subsection \<open>Editing\<close>

definition bounds_error :: "int \<Rightarrow> int \<Rightarrow> nat \<Rightarrow> js_exn" where
  "bounds_error i j n = ThrownError (''slice bounds out of range ['' @ int_string i @ '':'' @ int_string j @
     ''] with length '' @ int_string (int n))"

text \<open>\<open>copyWithin\<close> by hand: the elements from \<open>j\<close> on move to \<open>i\<close>, and \<open>null\<close> fills the end.\<close>

definition shift_down :: "nat \<Rightarrow> nat \<Rightarrow> 'a list \<Rightarrow> 'a list" where
  "shift_down i j s = fold (\<lambda>k s. s[k - (j - i) := s ! k]) [j..<length s] s"

definition Delete :: "jsv list \<Rightarrow> int \<Rightarrow> int \<Rightarrow> (jsv list \<times> nat) res" where
  "Delete s i j =
     (if int (length s) < j \<or> i < 0 \<or> j < i then Inl (bounds_error i j (length s))
      else if i = j then Inr (s, length s)
      else let count = nat (j - i); n = length s;
               s' = shift_down (nat i) (nat j) s in
        Inr (fold (\<lambda>k s. s[k := Null]) [n - count..<n] s', n - count))"

definition Insert :: "'a list \<Rightarrow> int \<Rightarrow> 'a list \<Rightarrow> 'a list res" where
  "Insert s i v =
     (if i < 0 \<or> int (length s) < i then Inl (bounds_error i i (length s))
      else if v = [] then Inr s
      else Inr (take (nat i) s @ v @ drop (nat i) s))"

definition slices_Replace :: "'a list \<Rightarrow> int \<Rightarrow> int \<Rightarrow> 'a list \<Rightarrow> 'a list res" where
  "slices_Replace s i j v =
     (if i < 0 \<or> j < i \<or> int (length s) < j then Inl (bounds_error i j (length s))
      else Inr (take (nat i) s @ v @ drop (nat j) s))"

text \<open>The zero value a slice is cleared with, guessed from its first element that is not nil.\<close>

fun zero_like :: "jsv \<Rightarrow> jsv" where
  "zero_like (JNum x) = JNum (Fin 0)"
| "zero_like (JStr s) = JStr []"
| "zero_like (JBool b) = JBool False"
| "zero_like x = Null"

definition clearValue :: "jsv list \<Rightarrow> jsv" where
  "clearValue s = (case find (\<lambda>x. x \<noteq> Null \<and> x \<noteq> Undef) s of None \<Rightarrow> Null | Some x \<Rightarrow> zero_like x)"

definition clear_tail :: "nat \<Rightarrow> jsv list \<Rightarrow> jsv list" where
  "clear_tail w s = fold (\<lambda>i s. s[i := clearValue s]) [w..<length s] s"

text \<open>The loop that keeps elements: \<open>keep s i\<close> looks at the slice as it is when \<open>i\<close> is reached.\<close>

definition keep_loop :: "('a list \<Rightarrow> nat \<Rightarrow> bool) \<Rightarrow> nat \<Rightarrow> 'a list \<Rightarrow> 'a list \<times> nat" where
  "keep_loop keep start s =
     fold (\<lambda>i (s, w). if keep s i then (s[w := s ! i], w + 1) else (s, w)) [start..<length s] (s, start)"

definition DeleteFunc :: "jsv list option \<Rightarrow> (jsv \<Rightarrow> bool) option \<Rightarrow> (jsv list \<times> nat) option res" where
  "DeleteFunc s del = given ''slices.DeleteFunc: nil delete function'' del (\<lambda>del.
     Inr (map_option (\<lambda>s. case keep_loop (\<lambda>s i. \<not> del (s ! i)) 0 s of (s, w) \<Rightarrow> (clear_tail w s, w)) s))"

definition CompactFunc :: "jsv list option \<Rightarrow> (jsv \<Rightarrow> jsv \<Rightarrow> bool) option \<Rightarrow> (jsv list \<times> nat) option res" where
  "CompactFunc s eq = given ''slices.CompactFunc: nil equality function'' eq (\<lambda>eq.
     Inr (map_option (\<lambda>s. if length s < 2 then (s, length s)
       else case keep_loop (\<lambda>s i. \<not> eq (s ! (i - 1)) (s ! i)) 1 s of (s, w) \<Rightarrow> (clear_tail w s, w)) s))"

definition slices_Compact :: "jsv list option \<Rightarrow> (jsv list \<times> nat) option" where
  "slices_Compact s =
     map_option (\<lambda>s. if length s < 2 then (s, length s)
       else case keep_loop (\<lambda>s i. \<not> comparableEqual (s ! i) (s ! (i - 1))) 1 s of (s, w) \<Rightarrow> (clear_tail w s, w)) s"

function reverse_loop :: "nat \<Rightarrow> nat \<Rightarrow> 'a list \<Rightarrow> 'a list" where
  "reverse_loop i j s = (if i < j then reverse_loop (i + 1) (j - 1) (s[i := s ! j, j := s ! i]) else s)"
  by pat_completeness auto
termination
  by (relation "measure (\<lambda>(i, j, s). j - i)") auto

declare reverse_loop.simps [simp del]

definition Reverse :: "'a list \<Rightarrow> 'a list" where "Reverse s = reverse_loop 0 (length s - 1) s"

text \<open>Copies: the elements of the result; the capacity of what \<open>Grow\<close> returns.\<close>

definition Clone :: "'a list option \<Rightarrow> 'a list option" where "Clone s = s"

definition Concat :: "'a list list \<Rightarrow> 'a list option" where
  "Concat ss = (if sum_list (map length ss) = 0 then None else Some (concat ss))"

definition Grow :: "'a list \<Rightarrow> nat \<Rightarrow> int \<Rightarrow> nat res" where
  "Grow s currentCap n =
     (if n < 0 then Inl (ThrownError (''slices.Grow: negative n: '' @ int_string n))
      else let neededCap = length s + nat n in
        if neededCap \<le> currentCap then Inr currentCap
        else Inr (if currentCap * 2 < neededCap then neededCap else currentCap * 2))"

subsection \<open>Iterators\<close>

text \<open>The callback leaves the slice as it is.\<close>

definition slices_All :: "'a list \<Rightarrow> (nat \<times> 'a, 's) seq" where
  "slices_All s = iterateValues (zip [0..<length s] s)"

definition slices_Backward :: "'a list \<Rightarrow> (nat \<times> 'a, 's) seq" where
  "slices_Backward s = iterateValues (rev (zip [0..<length s] s))"

definition append_yield :: "('a, 'a list) yield" where "append_yield value out = (True, out @ [value])"

definition AppendSeq :: "'a list \<Rightarrow> ('a, 'a list) seq option \<Rightarrow> 'a list res" where
  "AppendSeq s seq = (case seq of None \<Rightarrow> Inl (ThrownError ''slices: nil iterator'') | Some seq \<Rightarrow> Inr (seq append_yield s))"

definition slices_Collect :: "('a, 'a list) seq option \<Rightarrow> 'a list res" where
  "slices_Collect seq = AppendSeq [] seq"
subsection \<open>Comparison callbacks\<close>

text \<open>What the callers assume of a callback: the sign of its answer orders keys of its arguments.\<close>

definition compares :: "('a \<Rightarrow> 'b \<Rightarrow> int) \<Rightarrow> ('a \<Rightarrow> 'k :: linorder) \<Rightarrow> ('b \<Rightarrow> 'k) \<Rightarrow> bool" where
  "compares c f g \<longleftrightarrow> (\<forall>a b. (c a b < 0 \<longleftrightarrow> f a < g b) \<and> (c a b = 0 \<longleftrightarrow> f a = g b))"

lemma merge_loop_lists:
  "merge_loop c left right li ri out = out @ lmerge (\<lambda>r l. 0 < c l r) (drop li left) (drop ri right)"
proof (induction c left right li ri out rule: merge_loop.induct)
  case (1 c left right li ri out)
  show ?case
  proof (cases "li < length left \<and> ri < length right")
    case True
    then have d: "drop li left = left ! li # drop (Suc li) left" "drop ri right = right ! ri # drop (Suc ri) right"
      by (simp_all add: Cons_nth_drop_Suc)
    show ?thesis using 1 True unfolding merge_loop.simps [of c left right li ri out] d by simp
  next
    case False
    then have "drop li left = [] \<or> drop ri right = []" by auto
    then have "lmerge (\<lambda>r l. 0 < c l r) (drop li left) (drop ri right) = drop li left @ drop ri right"
      by (cases "drop li left"; cases "drop ri right") simp_all
    moreover have "merge_loop c left right li ri out = out @ drop li left @ drop ri right"
      using False merge_loop.simps [of c left right li ri out] by (simp only: if_False)
    ultimately show ?thesis by simp
  qed
qed

locale comparison =
  fixes c :: "'a \<Rightarrow> 'a \<Rightarrow> int" and f :: "'a \<Rightarrow> 'k :: linorder"
  assumes compares: "compares c f f"
begin

lemma sign: "c a b < 0 \<longleftrightarrow> f a < f b" "c a b = 0 \<longleftrightarrow> f a = f b"
  using compares unfolding compares_def by blast+

lemma positive: "0 < c l r \<longleftrightarrow> by_key f r l"
  using sign [of l r] unfolding by_key_def by (metis linorder_less_linear order_less_asym)

lemma merge: "asyncMerge c (sort_key f xs) (sort_key f ys) = sort_key f (xs @ ys)"
proof -
  have "(\<lambda>r l. 0 < c l r) = by_key f" by (simp add: positive fun_eq_iff)
  then show ?thesis
    unfolding asyncMerge_def merge_loop_lists by (simp add: lmerge_sort)
qed

lemma merge_sort: "asyncMergeSort c xs = sort_key f xs"
proof (induction "length xs" arbitrary: xs rule: less_induct)
  case less
  show ?case
  proof (cases "length xs < 2")
    case True
    then have "sort_key f xs = xs" by (cases xs rule: remdups_adj.cases) simp_all
    then show ?thesis using True by (simp add: asyncMergeSort.simps [of c xs])
  next
    case False
    then have "asyncMergeSort c (take (length xs div 2) xs) = sort_key f (take (length xs div 2) xs)"
      "asyncMergeSort c (drop (length xs div 2) xs) = sort_key f (drop (length xs div 2) xs)"
      using less by simp_all
    then show ?thesis using False by (simp add: asyncMergeSort.simps [of c xs] Let_def merge)
  qed
qed

lemma sort_func: "SortFunc s (Some c) = Inr (sort_key f s)"
proof (cases "length s < 2")
  case True
  then have "sort_key f s = s" by (cases s rule: remdups_adj.cases) simp_all
  then show ?thesis using True by (simp add: SortFunc_def given_def)
next
  case False
  then show ?thesis using fold_writes [of "sort_key f s" 0 s] by (simp add: SortFunc_def given_def Let_def merge_sort)
qed

lemma sorted_loop_neighbours: "sorted_loop c x n \<longleftrightarrow> neighbours_ok (\<lambda>i j. f (x ! i) < f (x ! j)) (Suc n)"
  by (induction n) (simp_all add: sign)

lemma sorted_func: "sorted_loop c x (length x - 1) \<longleftrightarrow> sorted (map f x)"
proof (cases x)
  case (Cons a as)
  then have "Suc (length x - 1) = length x" by simp
  then show ?thesis using neighbours_sorted [of "length x" x f] by (simp only: sorted_loop_neighbours) simp
qed simp

lemma max_fold:
  "f a \<le> f (fold (\<lambda>v m. if c m v < 0 then v else m) as a) \<and>
   (\<forall>x\<in>set as. f x \<le> f (fold (\<lambda>v m. if c m v < 0 then v else m) as a)) \<and>
   fold (\<lambda>v m. if c m v < 0 then v else m) as a \<in> set (a # as)"
proof (induction as arbitrary: a)
  case (Cons b as)
  show ?case using Cons.IH [of "if c a b < 0 then b else a"] by (auto simp: sign split: if_splits)
qed simp

lemma min_fold:
  "f (fold (\<lambda>v m. if c v m < 0 then v else m) as a) \<le> f a \<and>
   (\<forall>x\<in>set as. f (fold (\<lambda>v m. if c v m < 0 then v else m) as a) \<le> f x) \<and>
   fold (\<lambda>v m. if c v m < 0 then v else m) as a \<in> set (a # as)"
proof (induction as arbitrary: a)
  case (Cons b as)
  show ?case using Cons.IH [of "if c b a < 0 then b else a"] by (auto simp: sign split: if_splits)
qed simp

end

text \<open>\<open>cmp.Compare\<close> is such a callback: NaN is below every other number and equal to itself.\<close>

fun number_key :: "js_number \<Rightarrow> nat \<times> rat" where
  "number_key GsNumber.NaN = (0, 0)"
| "number_key GsNumber.NegInf = (1, 0)"
| "number_key (GsNumber.Fin q) = (2, q)"
| "number_key GsNumber.PosInf = (3, 0)"

lemma cmp_Compare_compares: "compares cmp_Compare number_key number_key"
proof -
  have "(cmp_Compare a b < 0 \<longleftrightarrow> number_key a < number_key b) \<and> (cmp_Compare a b = 0 \<longleftrightarrow> number_key a = number_key b)" for a b
    by (cases a; cases b) (auto simp: cmp_Compare_def ordered_Compare_def Let_def)
  then show ?thesis by (simp add: compares_def)
qed

interpretation numbers: comparison cmp_Compare number_key
  by unfold_locales (rule cmp_Compare_compares)

lemma ordered_Compare_compares: "compares (ordered_Compare (\<lambda>x. False) (<)) id (id :: 'k \<Rightarrow> 'k :: linorder)"
  by (auto simp: compares_def ordered_Compare_def Let_def)

interpretation bigints: comparison cmp_Compare_bigint id
  by unfold_locales (unfold cmp_Compare_bigint_def, rule ordered_Compare_compares)

interpretation units: comparison cmp_Compare_string id
  by unfold_locales (unfold cmp_Compare_string_def, rule ordered_Compare_compares)

lemma cmp_Less_key: "cmp_Less a b \<longleftrightarrow> number_key a < number_key b"
  by (cases a; cases b) (auto simp: cmp_Less_def ordered_Less_def)
subsection \<open>Binary search\<close>

lemma bsearch_loop_Search: "bsearch_loop c x t l r = search_loop (\<lambda>i. \<not> c (x ! i) t < 0) l r"
proof (induction c x t l r rule: bsearch_loop.induct)
  case (1 c x t l r)
  show ?case
    using 1 by (cases "l < r") (simp_all add: bsearch_loop.simps [of c x t l r] search_loop.simps [of _ l r] Let_def)
qed

lemma sorted_lower_bound:
  fixes f :: "'a \<Rightarrow> 'k :: linorder"
  assumes "sorted (map f x)"
  shows "length (filter (\<lambda>e. f e < y) x) < length x \<and> f (x ! length (filter (\<lambda>e. f e < y) x)) = y \<longleftrightarrow> y \<in> f ` set x"
  using assms
proof (induction x)
  case (Cons a x)
  have le: "f a \<le> f e" if "e \<in> set x" for e using Cons.prems that by simp
  consider "f a < y" | "f a = y" | "y < f a" by (rule linorder_cases)
  then show ?case
  proof cases
    case 1
    then show ?thesis using Cons by auto
  next
    case 2
    then have "filter (\<lambda>e. f e < y) x = []" using le by (force simp: filter_empty_conv)
    then show ?thesis using 2 by simp
  next
    case 3
    then have "filter (\<lambda>e. f e < y) x = []" "y \<notin> f ` set (a # x)" using le by (force simp: filter_empty_conv)+
    then show ?thesis using 3 by auto
  qed
qed simp
text \<open>C22. With a callback whose answer's sign orders the elements by a key, slices.SortFunc leaves the
  stable sort of the slice by that key and slices.IsSortedFunc decides whether the keys ascend;
  with cmp.Compare as the callback this is the order that puts NaN first.\<close>

theorem slices_sort_spec:
  assumes "compares c f f"
  shows "SortFunc s (Some c) = Inr (sort_key f s) \<and> IsSortedFunc s (Some c) = Inr (sorted (map f s)) \<and>
    SortFunc x (Some cmp_Compare) = Inr (sort_key number_key x) \<and> slices_IsSorted x = sorted (map number_key x)"
  using comparison.sort_func [of c f s] comparison.sorted_func [of c f s] assms numbers.sort_func [of x] numbers.sorted_func [of x]
  by (simp add: comparison_def IsSortedFunc_def given_def slices_IsSorted_def)

text \<open>On a slice that is sorted by the callback's keys, slices.BinarySearchFunc answers the number of
  elements before the target, which is the first place it could be inserted, and whether the
  target's key is among the elements'; so does slices.BinarySearch in the order of cmp.Compare.\<close>

theorem slices_search_spec:
  assumes "compares c f g" "sorted (map f x)" "sorted (map number_key y)"
  shows "BinarySearchFunc x t (Some c) = Inr (length (filter (\<lambda>e. f e < g t) x), g t \<in> f ` set x) \<and>
    BinarySearch y u = Inr (length (filter (\<lambda>e. cmp_Less e u) y), number_key u \<in> number_key ` set y)"
proof -
  have core: "BinarySearchFunc x t (Some c) = Inr (length (filter (\<lambda>e. f e < g t) x), g t \<in> f ` set x)"
    if "compares c f g" "sorted (map f x)"
    for c :: "'x \<Rightarrow> 'y \<Rightarrow> int" and f :: "'x \<Rightarrow> 'z :: linorder" and g x t
  proof -
    have "c e t < 0 \<longleftrightarrow> f e < g t" "c e t = 0 \<longleftrightarrow> f e = g t" for e using that(1) by (simp_all add: compares_def)
    then show ?thesis
      using search_sorted_keys [OF that(2), of "g t"] sorted_lower_bound [OF that(2), of "g t"]
      by (simp add: BinarySearchFunc_def given_def bsearch_loop_Search Let_def)
  qed
  show ?thesis
    using core [OF assms(1,2)] core [OF cmp_Compare_compares assms(3)] by (simp add: BinarySearch_def cmp_Less_key)
qed

lemma int_minus_compares: "compares (\<lambda>a b :: int. a - b) id id"
  by (auto simp: compares_def)

theorem slices_sort_spec_witness:
  "SortFunc [3, 1, 2 :: int] (Some (\<lambda>a b. a - b)) = Inr [1, 2, 3]"
  using slices_sort_spec [OF int_minus_compares, of "[3, 1, 2]" "[]"] by simp

theorem slices_search_spec_witness:
  "BinarySearchFunc [1, 2, 2, 5 :: int] 2 (Some (\<lambda>a b. a - b)) = Inr (1, True)"
  using slices_search_spec [OF int_minus_compares, of "[1, 2, 2, 5]" "[]" 2 "GsNumber.NaN"] by simp
subsection \<open>Editing in place\<close>

text \<open>The elements that \<open>keep\<close> retains, each looked at with its predecessor in the original slice.\<close>

fun sel :: "('a \<Rightarrow> 'a \<Rightarrow> bool) \<Rightarrow> 'a \<Rightarrow> 'a list \<Rightarrow> 'a list" where
  "sel Q p [] = []"
| "sel Q p (x # xs) = (if Q p x then x # sel Q x xs else sel Q x xs)"

lemma sel_filter: "sel (\<lambda>_. P) p xs = filter P xs"
  by (induction xs arbitrary: p) simp_all

lemma sel_remdups: "p # sel (\<lambda>a b. a \<noteq> b) p xs = remdups_adj (p # xs)"
  by (induction xs arbitrary: p) auto

lemma length_sel: "length (sel Q p xs) \<le> length xs"
  by (induction xs arbitrary: p) (auto intro: le_SucI)

lemma moved: "drop (Suc n) (M @ x # R) = drop n (tl (M @ [x]) @ R)" "length (tl (M @ [x])) = length M"
  by (cases M; simp)+

lemma list_update_front: "(K @ M @ x # R)[length K := x] = (K @ [x]) @ tl (M @ [x]) @ R"
  by (cases M) (simp_all add: list_update_append)

lemma walk_cons: "fold f [n..<n + Suc m] s = fold f [Suc n..<Suc n + m] (f n s)"
  by (simp add: upt_conv_Cons del: upt_Suc)

lemma keep_fold:
  assumes "(\<forall>p q x. Q p x = Q q x) \<or> K @ M \<noteq> [] \<and> last (K @ M) = p" "n = length K + length M"
  shows "fold (\<lambda>i (s, w). if Q (s ! (i - 1)) (s ! i) then (s[w := s ! i], w + 1) else (s, w))
      [n..<n + length R] (K @ M @ R, length K) =
    (K @ sel Q p R @ drop (length (sel Q p R)) (M @ R), length K + length (sel Q p R))"
  using assms
proof (induction R arbitrary: K M p n)
  case (Cons x R)
  let ?f = "\<lambda>i (s, w). if Q (s ! (i - 1)) (s ! i) then (s[w := s ! i], w + 1) else (s, w)"
  have x: "(K @ M @ x # R) ! n = x" using Cons.prems(2) by (simp add: nth_append)
  have p: "(K @ M @ x # R) ! (n - 1) = last (K @ M)" if "K @ M \<noteq> []"
    using that nth_append [of "K @ M" "x # R"] Cons.prems(2) by (simp add: last_conv_nth)
  have Q: "Q ((K @ M @ x # R) ! (n - 1)) x = Q p x" using Cons.prems(1) p by metis
  have step: "fold ?f [n..<n + length (x # R)] (K @ M @ x # R, length K) =
      fold ?f [Suc n..<Suc n + length R] (?f n (K @ M @ x # R, length K))"
    using walk_cons [of ?f n "length R"] by simp
  show ?case
  proof (cases "Q p x")
    case True
    have l: "last ((K @ [x]) @ tl (M @ [x])) = x" by (cases M) simp_all
    have "?f n (K @ M @ x # R, length K) = ((K @ [x]) @ tl (M @ [x]) @ R, length (K @ [x]))"
      using Q x True list_update_front [of K M x R] by simp
    then have "fold ?f [n..<n + length (x # R)] (K @ M @ x # R, length K) =
        ((K @ [x]) @ sel Q x R @ drop (length (sel Q x R)) (tl (M @ [x]) @ R), length (K @ [x]) + length (sel Q x R))"
      unfolding step using Cons.IH [of "K @ [x]" "tl (M @ [x])" x "Suc n"] l Cons.prems(2) moved(2) [of M x] by simp
    then show ?thesis using True by (simp only: sel.simps if_True length_Cons moved(1)) simp
  next
    case False
    have "?f n (K @ M @ x # R, length K) = (K @ (M @ [x]) @ R, length K)" using Q x False by simp
    then have "fold ?f [n..<n + length (x # R)] (K @ M @ x # R, length K) =
        (K @ sel Q x R @ drop (length (sel Q x R)) ((M @ [x]) @ R), length K + length (sel Q x R))"
      unfolding step using Cons.IH [of K "M @ [x]" x "Suc n"] Cons.prems(2) by simp
    then show ?thesis using False by simp
  qed
qed simp

lemma keep_first: "keep_loop (\<lambda>s i. P (s ! i)) 0 s =
    (filter P s @ drop (length (filter P s)) s, length (filter P s))"
  using keep_fold [of "\<lambda>_. P" "[]" "[]" undefined 0 s] by (simp add: keep_loop_def sel_filter)

lemma keep_rest: "keep_loop (\<lambda>s i. Q (s ! (i - 1)) (s ! i)) 1 (a # s) =
    ((a # sel Q a s) @ drop (length (sel Q a s)) s, length (a # sel Q a s))"
  using keep_fold [of Q "[a]" "[]" a 1 s] by (simp add: keep_loop_def)

text \<open>The value that clears a slice whose elements are alike is their zero.\<close>

lemma zero_zero: "zero_like (zero_like x) = zero_like x"
  by (cases x) simp_all

lemma clearValue_alike:
  assumes "s \<noteq> []" "\<forall>v\<in>set s. zero_like v = z"
  shows "clearValue s = z"
proof (cases "find (\<lambda>x. x \<noteq> Null \<and> x \<noteq> Undef) s")
  case None
  then have "\<forall>x\<in>set s. zero_like x = Null" by (auto simp: find_None_iff)
  then show ?thesis using assms None by (cases s) (auto simp: clearValue_def)
next
  case (Some x)
  then have "x \<in> set s" by (metis find_Some_iff nth_mem)
  then show ?thesis using assms Some by (simp add: clearValue_def)
qed

lemma clear_tail_alike:
  "\<forall>v\<in>set (A @ B). zero_like v = z \<Longrightarrow> clear_tail (length A) (A @ B) = A @ replicate (length B) z"
proof (induction B arbitrary: A)
  case (Cons b B)
  have "zero_like z = z" using Cons.prems zero_zero [of b] by simp
  then have ih: "clear_tail (length (A @ [z])) ((A @ [z]) @ B) = (A @ [z]) @ replicate (length B) z"
    using Cons.IH [of "A @ [z]"] Cons.prems by simp
  have "clearValue (A @ b # B) = z" using clearValue_alike [OF _ Cons.prems] by simp
  then have "clear_tail (length A) (A @ b # B) = clear_tail (length (A @ [z])) ((A @ [z]) @ B)"
    using walk_cons [of "\<lambda>i s. s[i := clearValue s]" "length A" "length B"]
    by (simp add: clear_tail_def list_update_append del: upt_Suc)
  then show ?case using ih by simp
qed (simp add: clear_tail_def)

lemma clear_kept:
  assumes "\<forall>v\<in>set s. zero_like v = z" "set K \<subseteq> set s" "length K \<le> length s"
  shows "clear_tail (length K) (K @ drop (length K) s) = K @ replicate (length s - length K) z"
proof -
  have "\<forall>v\<in>set (K @ drop (length K) s). zero_like v = z" using assms(1,2) set_drop_subset [of "length K" s] by fastforce
  from clear_tail_alike [OF this] show ?thesis by simp
qed

lemma set_sel: "set (sel Q p xs) \<subseteq> set xs"
  by (induction xs arbitrary: p) auto
lemma shift_fold:
  "n = length K + d \<Longrightarrow> length M = d \<Longrightarrow>
   fold (\<lambda>k s. s[k - d := s ! k]) [n..<n + length R] (K @ M @ R) = K @ R @ drop (length R) (M @ R)"
proof (induction R arbitrary: K M n)
  case (Cons x R)
  have "(K @ M @ x # R) ! n = x" "n - d = length K" using Cons.prems by (simp_all add: nth_append)
  then have "(K @ M @ x # R)[n - d := (K @ M @ x # R) ! n] = (K @ [x]) @ tl (M @ [x]) @ R"
    using list_update_front [of K M x R] by simp
  then have "fold (\<lambda>k s. s[k - d := s ! k]) [n..<n + length (x # R)] (K @ M @ x # R) =
      fold (\<lambda>k s. s[k - d := s ! k]) [Suc n..<Suc n + length R] ((K @ [x]) @ tl (M @ [x]) @ R)"
    using walk_cons [of "\<lambda>k s. s[k - d := s ! k]" n "length R" "K @ M @ x # R"] by simp
  also have "\<dots> = (K @ [x]) @ R @ drop (length R) (tl (M @ [x]) @ R)"
    using Cons.IH [of "Suc n" "K @ [x]" "tl (M @ [x])"] Cons.prems moved(2) [of M x] by simp
  finally show ?case by (simp only: length_Cons moved(1)) simp
qed simp

lemma shift_down_lists: "shift_down (length K) (length (K @ M)) (K @ M @ R) = K @ R @ drop (length R) (M @ R)"
  using shift_fold [of "length (K @ M)" K "length M" M R] by (simp add: shift_down_def add.assoc)

lemma write_null: "fold (\<lambda>k s. s[k := v]) [length A..<length A + length B] (A @ B) = A @ replicate (length B) v"
proof (induction B arbitrary: A)
  case (Cons b B)
  have "fold (\<lambda>k s. s[k := v]) [length A..<length A + length (b # B)] (A @ b # B) =
      fold (\<lambda>k s. s[k := v]) [length (A @ [v])..<length (A @ [v]) + length B] ((A @ [v]) @ B)"
    using walk_cons [of "\<lambda>k s. s[k := v]" "length A" "length B" "A @ b # B"] by (simp add: list_update_append)
  then show ?case using Cons [of "A @ [v]"] by simp
qed simp

lemma Delete_lists:
  assumes "i < j" "j \<le> length s"
  shows "Delete s (int i) (int j) = Inr (take i s @ drop j s @ replicate (j - i) Null, length s - (j - i))"
proof -
  define K M R where "K = take i s" and "M = take (j - i) (drop i s)" and "R = drop j s"
  have "j - i + i = j" using assms(1) by simp
  then have "M @ R = drop i s" using append_take_drop_id [of "j - i" "drop i s"] by (simp add: M_def R_def)
  then have s: "s = K @ M @ R" by (simp add: K_def)
  have l: "length K = i" "length (K @ M) = j" "length R = length s - j" "length M = j - i"
    using assms by (simp_all add: K_def M_def R_def)
  have "shift_down i j s = K @ R @ drop (length R) (M @ R)"
    using shift_down_lists [of K M R] unfolding l(1,2) s [symmetric] .
  moreover have "length (drop (length R) (M @ R)) = j - i" by (simp add: l)
  moreover have "length s - (j - i) = length (K @ R)" "length s = length (K @ R) + (j - i)" using l assms by simp_all
  ultimately have "fold (\<lambda>k s. s[k := Null]) [length s - (j - i)..<length s] (shift_down i j s) = (K @ R) @ replicate (j - i) Null"
    using write_null [of Null "K @ R" "drop (length R) (M @ R)"] by simp
  moreover have "nat (int j - int i) = j - i" by simp
  ultimately show ?thesis using assms by (simp add: Delete_def Let_def K_def R_def)
qed

lemma reverse_loop_lists: "length A = i \<Longrightarrow> length B + i = Suc j \<Longrightarrow> reverse_loop i j (A @ B @ C) = A @ rev B @ C"
proof (induction "length B" arbitrary: A B C i j rule: less_induct)
  case less
  show ?case
  proof (cases "i < j")
    case False
    then have "length B \<le> 1" using less.prems by simp
    then have "rev B = B" by (cases B rule: remdups_adj.cases) simp_all
    then show ?thesis using False by (simp add: reverse_loop.simps [of i j])
  next
    case True
    then obtain b B' where "B = b # B'" "B' \<noteq> []" using less.prems by (cases B) fastforce+
    then obtain D d where B: "B = b # D @ [d]" by (cases B' rule: rev_cases) auto
    then have j: "j = Suc (i + length D)" using less.prems by simp
    have "(A @ B @ C) ! i = b" "(A @ B @ C) ! j = d" using less.prems j B by (simp_all add: nth_append)
    moreover have "(A @ B @ C)[i := d, j := b] = (A @ [d]) @ D @ b # C" using less.prems j B by (simp add: list_update_append)
    ultimately have "reverse_loop i j (A @ B @ C) = reverse_loop (Suc i) (j - 1) ((A @ [d]) @ D @ b # C)"
      using True by (simp add: reverse_loop.simps [of i j])
    moreover have "length D < length B" "length (A @ [d]) = Suc i" using B less.prems by simp_all
    ultimately show ?thesis using less.hyps [of D "A @ [d]" "Suc i" "j - 1" "b # C"] B j by simp
  qed
qed

lemma Reverse_rev: "Reverse s = rev s"
  using reverse_loop_lists [of "[]" 0 s "length s - 1" "[]"]
  by (cases s) (simp_all add: Reverse_def reverse_loop.simps)

text \<open>The positions CompactFunc keeps: the first, and those the callback does not relate to the element
  before.\<close>

lemma sel_positions: "sel Q p xs = nths xs {i. Q ((p # xs) ! i) (xs ! i)}"
  by (induction xs arbitrary: p) (simp_all add: nths_Cons)

lemma sel_runs: "a # sel Q a xs = nths (a # xs) {i. i = 0 \<or> Q ((a # xs) ! (i - 1)) ((a # xs) ! i)}"
  unfolding nths_Cons sel_positions by simp

text \<open>Whatever the elements are, the end is overwritten by zeroes or nils and the front stays.\<close>

lemma clearValue_zero: "zero_like (clearValue s) = clearValue s"
  by (simp add: clearValue_def zero_zero split: option.split)

lemma clear_tail_any:
  "\<exists>tail. clear_tail (length A) (A @ B) = A @ tail \<and> length tail = length B \<and> (\<forall>t\<in>set tail. zero_like t = t)"
proof (induction B arbitrary: A)
  case (Cons b B)
  let ?z = "clearValue (A @ b # B)"
  obtain tail where t: "clear_tail (length (A @ [?z])) ((A @ [?z]) @ B) = (A @ [?z]) @ tail" "length tail = length B"
    "\<forall>t\<in>set tail. zero_like t = t" using Cons.IH by blast
  have "clear_tail (length A) (A @ b # B) = clear_tail (length (A @ [?z])) ((A @ [?z]) @ B)"
    using walk_cons [of "\<lambda>i s. s[i := clearValue s]" "length A" "length B"]
    by (simp add: clear_tail_def list_update_append del: upt_Suc)
  then show ?case using t clearValue_zero by (intro exI [of _ "?z # tail"]) auto
qed (simp add: clear_tail_def)

definition cleared :: "jsv list \<Rightarrow> jsv list \<Rightarrow> jsv list \<Rightarrow> bool" where
  "cleared s k tail \<longleftrightarrow> length k + length tail = length s \<and> (\<forall>t\<in>set tail. zero_like t = t) \<and>
     (\<forall>z. (\<forall>v\<in>set s. zero_like v = z) \<longrightarrow> tail = replicate (length s - length k) z)"

lemma clear_kept_any:
  assumes "set k \<subseteq> set s" "length k \<le> length s"
  shows "\<exists>tail. clear_tail (length k) (k @ drop (length k) s) = k @ tail \<and> cleared s k tail"
proof -
  obtain tail where t: "clear_tail (length k) (k @ drop (length k) s) = k @ tail" "length tail = length (drop (length k) s)"
    "\<forall>t\<in>set tail. zero_like t = t" using clear_tail_any [of k "drop (length k) s"] by blast
  have "tail = replicate (length s - length k) z" if "\<forall>v\<in>set s. zero_like v = z" for z
    using clear_kept [OF that assms] t(1) by simp
  with t assms(2) show ?thesis by (auto simp: cleared_def)
qed

lemma compact_spec:
  "\<exists>k tail. CompactFunc (Some s) (Some eq) = Inr (Some (k @ tail, length k)) \<and> cleared s k tail \<and>
     k = nths s {i. i = 0 \<or> \<not> eq (s ! (i - 1)) (s ! i)}"
proof (cases "length s < 2")
  case True
  then have "s = [] \<or> (\<exists>a. s = [a])" by (cases s rule: remdups_adj.cases) simp_all
  then have "nths s {i. i = 0 \<or> \<not> eq (s ! (i - 1)) (s ! i)} = s" by (auto simp: nths_Cons)
  then show ?thesis using True by (intro exI [of _ s] exI [of _ "[]"]) (simp add: CompactFunc_def given_def cleared_def)
next
  case False
  then obtain a xs where s: "s = a # xs" by (cases s) auto
  define k where "k = a # sel (\<lambda>p x. \<not> eq p x) a xs"
  have k: "set k \<subseteq> set s" "length k \<le> length s" using set_sel [of "\<lambda>p x. \<not> eq p x" a xs] length_sel [of "\<lambda>p x. \<not> eq p x" a xs]
    by (auto simp: k_def s)
  obtain tail where t: "clear_tail (length k) (k @ drop (length k) s) = k @ tail" "cleared s k tail"
    using clear_kept_any [OF k] by blast
  have "keep_loop (\<lambda>s i. \<not> eq (s ! (i - 1)) (s ! i)) 1 s = (k @ drop (length k) s, length k)"
    using keep_rest [of "\<lambda>p x. \<not> eq p x" a xs] by (simp add: k_def s)
  then have "CompactFunc (Some s) (Some eq) = Inr (Some (k @ tail, length k))"
    using False t(1) by (simp add: CompactFunc_def given_def)
  moreover have "k = nths s {i. i = 0 \<or> \<not> eq (s ! (i - 1)) (s ! i)}" unfolding k_def s by (rule sel_runs)
  ultimately show ?thesis using t(2) by blast
qed

lemma Delete_any:
  "Delete s i j = (if int (length s) < j \<or> i < 0 \<or> j < i then Inl (bounds_error i j (length s))
     else Inr (take (nat i) s @ drop (nat j) s @ replicate (nat (j - i)) Null, length s - nat (j - i)))"
proof (cases "int (length s) < j \<or> i < 0 \<or> j \<le> i")
  case True
  then show ?thesis by (auto simp: Delete_def)
next
  case False
  then have "nat i < nat j" "nat j \<le> length s" "nat (j - i) = nat j - nat i" by auto
  then show ?thesis using False Delete_lists [of "nat i" "nat j" s] by simp
qed


subsection \<open>Iterators and departures from Go\<close>

text \<open>Collecting the values of a slice's iterator gives the slice.\<close>

lemma iterate_append: "iterateValues xs append_yield s = s @ xs"
  by (induction xs arbitrary: s) (simp_all add: append_yield_def)

lemma collect_all: "slices_Collect (Some (slices_All s)) = Inr (zip [0..<length s] s)"
  "slices_Collect (Some (slices_Backward s)) = Inr (rev (zip [0..<length s] s))"
  by (simp_all add: slices_Collect_def AppendSeq_def slices_All_def slices_Backward_def iterate_append)

text \<open>Delete fills the end of a slice of numbers with null, where Go writes the zero value and
  DeleteFunc writes 0.\<close>

lemma delete_leaves_null:
  "Delete [JNum (Fin 1), JNum (Fin 2)] 0 1 = Inr ([JNum (Fin 2), Null], 1)"
  "DeleteFunc (Some [JNum (Fin 1), JNum (Fin 2)]) (Some (\<lambda>x. x = JNum (Fin 1))) = Inr (Some ([JNum (Fin 2), JNum (Fin 0)], 1))"
  by (simp_all add: Delete_def shift_down_def DeleteFunc_def given_def keep_loop_def clear_tail_def clearValue_def upt_rec numeral_eq_Suc)

text \<open>cmp.Compare orders strings by UTF-16 units, Go and the runtime's \<open>stringCompare\<close> by bytes: a
  full-width exclamation mark is before an emoji there and behind it here.\<close>

lemma strings_by_units:
  "cmp_Compare_string [0xFF01] [0xD83D, 0xDE00] = 1"
  "stringCompare (OfString (JSString [0xFF01])) (OfString (JSString [0xD83D, 0xDE00])) < 0"
proof -
  have "goStringBytes (JSString [0xFF01]) = [0xEF, 0xBC, 0x81]" "goStringBytes (JSString [0xD83D, 0xDE00]) = [0xF0, 0x9F, 0x98, 0x80]"
    by (simp_all add: goStringBytes_def binary_prefix_def text_encode_def surrogate_def utf8_enc_def)
  then show "stringCompare (OfString (JSString [0xFF01])) (OfString (JSString [0xD83D, 0xDE00])) < 0"
    by (simp add: stringCompare_def goStringComparableBytes_def)
qed (simp add: cmp_Compare_string_def ordered_Compare_def)

end
