(* ===== verification/Spec2Isabelle.thy ===== *)
theory Spec2Isabelle
  imports GsWideInt GsReach GsByteSlice GsSync GsMap GsPath GsStrconv GsSort
    GsPanic GsErrors GsContext GsBits GsVarint
    GsStrings GsFinder GsTypeInfo GsTypeAssert GsMatch GsIo GsMaps GsSlicesPkg
begin

text \<open>
  A verification library for the TypeScript runtime of GoScript (src/gs/), the code that
  Go programs compiled to TypeScript run on.

  \<^bold>\<open>The program.\<close> GoScript translates Go packages to TypeScript modules. A translated module
  calls the built-in runtime, src/gs/builtin (integers, slices, strings, maps, channels,
  select, panics, type descriptors), and hand-written replacements of the standard library,
  src/gs/sync, src/gs/strings and so on, which call the runtime in turn. A goroutine is an
  asynchronous function: it blocks by awaiting a promise, and the JavaScript engine, which runs
  one job at a time, resumes it. Values have JavaScript representations chosen by the runtime: a
  slice is an array or a proxy on a window of one, a byte slice a \<open>Uint8Array\<close>, a string the
  decoded text or a marked list of bytes, an int64 a \<open>bigint\<close>, an interface value the value
  itself or a box with its type.

  \<^bold>\<open>How it is modelled.\<close> A function is a HOL function with the name of the source's (a suffix or
  prefix where HOL has that name). State is explicit: a record of the fields an object has, a
  heap of arrays where slices share them, a store indexed by identities where objects are
  linked. A throw is a value (\<open>'a res\<close> of GsPrelude, or the panic type of a component). An
  asynchronous call gets the identity of its promise and answers whether it is settled at once
  or left waiting; callbacks handed to the engine are values in queues. What the source takes
  from outside (callbacks, comparison functions, methods of user types, readers and writers, the
  collation of strings) is a parameter. The parts of the JavaScript library that the code uses
  are modelled where they are used: numbers with their rounding and bigints (GsNumber), \<open>Map\<close>
  (GsTable), TextEncoder and TextDecoder (GsUtf8), string methods (GsStrings), \<open>Uint8Array\<close>
  (GsByteSlice), microtasks, timers and abort signals (GsEventLoop).

  \<^bold>\<open>The theories\<close>, with the source they model and what they show.

  \<^item> GsPrelude, GsNumber: results, generic lemmas; JavaScript numbers.
  \<^item> GsWideInt (builtin/builtin.ts): conversions between integer types and 64-bit arithmetic. They
    are the operations of 64-bit machine words; signed division truncates, MinInt64 / -1 wraps,
    division by zero panics.
  \<^item> GsChannel, GsEventLoop, GsSelect, GsReach (builtin/channel.ts): one record per channel; the
    jobs of the engine; the two halves of a select statement; the step relation of all of them
    together. Shown: the invariant of a channel (never a waiting sender and a free place, never a
    waiting receiver and a value), FIFO order of what is received, also when select sends are
    withdrawn, release of blocked senders, a select performs a case that is ready and nothing
    else, or withdraws from the channels of the others when one is chosen later, and the
    invariant of all reachable states by rule induction.
  \<^item> GsSlice, GsByteSlice (builtin/slice.ts, builtin.ts): general slices on a heap with aliasing,
    and byte slices. Shown: what goSlice, append, copy return, what they share and what they leave
    unchanged, the bounds panics; the searches on bytes against their specification.
  \<^item> GsSync (sync/sync.ts): Mutex, RWMutex, WaitGroup, Once, Cond. Shown: exclusion (of
    writers from each other and from readers) and FIFO order over every history of calls.
  \<^item> GsUtf8, GsString (unicode/utf8/utf8.ts, builtin/slice.ts): UTF-8 and UTF-16; a string
    represents its bytes, and the operations are those on byte lists, also where a slice cuts a
    character.
  \<^item> GsValue (builtin/builtin.ts): comparableEqual is an equivalence on well-formed values, and
    which objects it relates.
  \<^item> GsTable, GsMap (builtin/map.ts, sync/sync.ts): tables under a key equality, as a locale;
    Go maps and sync.Map refine finite maps over all histories.
  \<^item> GsPath (path/path.ts): Clean against a reference on path elements, Join as Clean of the
    concatenation; Split, Dir, Base and Ext are modelled on top of it.
  \<^item> GsMatch (path/match.ts): the pattern scanner against the grammar of its documentation.
  \<^item> GsStrconv (strconv): ParseInt, ParseUint, Atoi, FormatInt and ParseBool: value, range, syntax.
  \<^item> GsSort (sort): the slice sort is stable and sorts, the interface sort permutes and sorts,
    Search finds the boundary.
  \<^item> GsPanic (builtin/panic.ts, defer.ts): panic, recover, deferred calls in order; a panic is
    recovered only by a deferred call of the frame it unwinds, and at most once.
  \<^item> GsErrors (errors, builtin/errors.ts): Is, As, Unwrap, Join on error trees.
  \<^item> GsContext (context/context.ts): the tree of contexts; a cancellation reaches exactly the
    descendants, with its error and cause.
  \<^item> GsBits (math/bits/index.ts): counts, reversal, rotation, carries, wide products and
    quotients against arithmetic on words.
  \<^item> GsVarint (encoding/binary/index.ts): byte orders and varints, round trips and errors.
  \<^item> GsStrings, GsFinder (strings/strings.ts, search.ts): searching, splitting, replacing,
    trimming; the Boyer-Moore finder agrees with Index on valid text.
  \<^item> GsTypeInfo, GsTypeAssert (builtin/type.ts): the registry of descriptors, identity of types,
    type assertions and switches, typed nil pointers.
  \<^item> GsBuffer, GsReader (bytes/buffer.gs.ts, reader.gs.ts): a Buffer refines a queue of bytes over
    all histories of calls and writes only its own array; ReadFrom and WriteTo move everything.
  \<^item> GsPipe (io/io.ts, pipeState): readers and writers waiting for each other; over all histories the
    bytes arrive in order and once, and no call is lost or settled twice.
  \<^item> GsIo (io/io.ts): limits, sections, offsets, multi and tee endpoints, Copy (with the
    unwrapping of embedded readers and writers), ReadFull and ReadAll over any reader that keeps
    the contract; LimitedReader and SectionReader keep it again.
  \<^item> GsMaps (maps/maps.ts, maps/iter.ts, iter/iter.ts): Equal decides agreement at every key
    by JavaScript's loose equality, EqualFunc by a callback, of nil and other maps; Clone, Copy
    and DeleteFunc as operations on entries; iterators as functions of a callback.
  \<^item> GsSlicesPkg (slices/slices.ts, cmp/index.ts): SortFunc is the stable sort, binary search counts
    the smaller elements, DeleteFunc and CompactFunc filter in place, for any callback, and clear
    what is behind. cmp.Compare orders numbers, bigints and strings (by UTF-16 units).

  \<^bold>\<open>Interfaces.\<close> Where a client relies on a contract, the contract is a locale, interpreted on the
  model: \<open>selectable\<close> (GsSelect; plain and directed channels), \<open>key_equality\<close> and \<open>map_keys\<close>
  (GsTable; the keys of a JavaScript Map, of a Go map, of sync.Map), \<open>byte_order_laws\<close>
  (GsVarint), \<open>sort_interface\<close> (GsSort; the three slice types of package sort), \<open>byte_queue\<close>,
  \<open>byte_reader\<close>, \<open>byte_writer\<close> (GsBuffer, GsReader), \<open>byte_sink\<close>, \<open>byte_copy_loop\<close> (GsIo; a
  LimitedReader over a bytes.Reader, a section of one, a Buffer), \<open>comparison\<close> (GsSlicesPkg;
  the order of cmp.Compare on numbers, bigints and strings).

  \<^bold>\<open>Loops, fuel and bounds.\<close> A loop is a structural recursion or a \<open>function\<close> with a measure where
  the source's loop ends for a reason HOL can see. Elsewhere a number bounds the rounds: the
  length of the string in GsPath, GsMatch and GsStrings (every round consumes a byte), the waiting
  readers in GsPipe, the number of
  contexts in \<open>cancel\<close> (children are younger than their parent), the size of a type in the
  comparison of GsTypeInfo (\<open>type_identity\<close> excludes the result \<open>None\<close> of too little fuel), the unread bytes and one more in
  ReadFrom, Copy and ReadAll (\<open>CopyN_spec\<close>, \<open>ReadAll_limited\<close>). Lengths and
  indices are unbounded integers; the 2^53 bound of exact numbers is explicit where the code
  computes with 64-bit values (GsNumber), and the 2^63 bound of bytes.Buffer is (\<open>room\<close>).

  \<^bold>\<open>Departures from Go\<close> that the model makes visible are stated as lemmas in the last section of
  the theory concerned, most often named after what happens.

  \<^bold>\<open>Not modelled.\<close>
  \<^item> The compiler (Go) and the generated code, but for the frame around a function body with
    deferred calls (GsPanic).
  \<^item> Code that inspects arbitrary JavaScript objects, prototypes and property names: reflect, fmt,
    encoding/json, the structured part of encoding/binary, the clone and dispatch helpers of
    type.ts. A faithful state would be a model of the object system of the engine.
  \<^item> Wrappers of the host: os, syscall, net, net/http, fs, time (the clock, timers and calendar of
    the engine's Date), crypto (WebCrypto and Node), compress, printing.
  \<^item> Floating point: math, strconv's floats. The tables of unicode and the case mappings, which
    are the engine's.
  \<^item> Ports of third-party packages under gs/github.com and gs/golang.org.
  \<^item> In the packages above: what the theory's opening says, in general the sharing of slices
    between the caller and a function that only reads them.
\<close>

end
